(* ===== verification/Prelude.thy ===== *)
theory Prelude
  imports Main "HOL-Library.Word" "HOL-Library.Multiset" "HOL-Library.Monad_Syntax"
    "HOL-Library.Code_Target_Numeral"
begin

unbundle bit_operations_syntax

text \<open>
  What every component of the development shares: the C integer types, array cells with
  bounds, arithmetic whose overflow is undefined in C, and generic lemmas about them.

  Conventions. A C computation that may have undefined behaviour (a read or write outside
  an array, a null or dangling pointer, a signed overflow, a division by zero) returns
  \<open>'a option\<close>: \<open>None\<close> is undefined behaviour (or, for a
  \<open>partial_function\<close>, a loop that does not end), \<open>Some r\<close> a run that
  returns \<open>r\<close>. What the C function itself reports as an error (a null
  pointer, -1, an errno) is a value inside \<open>Some\<close>. Signed C integers that are only
  compared or used as indices are \<open>int\<close>; where the code relies on wrap-around or
  on bits they are words.
\<close>

section \<open>Types\<close>

type_synonym u8 = "8 word"
type_synonym u16 = "16 word"
type_synonym u32 = "32 word"
type_synonym u64 = "64 word"
type_synonym bytes = "8 word list"

named_theorems mem_simps "reads and writes of array cells inside the bounds"

section \<open>Array cells\<close>

text \<open>\<open>rd\<close> is \<open>a[i]\<close> as an rvalue, \<open>wr\<close> is \<open>a[i] = v\<close>; the index is a C integer.\<close>

definition rd :: "'a list \<Rightarrow> int \<Rightarrow> 'a option" where
  "rd xs i = (if 0 \<le> i \<and> i < int (length xs) then Some (xs ! nat i) else None)"

definition wr :: "'a list \<Rightarrow> int \<Rightarrow> 'a \<Rightarrow> 'a list option" where
  "wr xs i v = (if 0 \<le> i \<and> i < int (length xs) then Some (xs[nat i := v]) else None)"

definition swap :: "'a list \<Rightarrow> int \<Rightarrow> int \<Rightarrow> 'a list option" where
  "swap xs i j = do {
     t \<leftarrow> rd xs i;
     u \<leftarrow> rd xs j;
     ys \<leftarrow> wr xs i u;
     wr ys j t }"

text \<open>The same for an unsigned index.\<close>

definition urd :: "'a list \<Rightarrow> nat \<Rightarrow> 'a option" where
  "urd xs n = (if n < length xs then Some (xs ! n) else None)"

definition uwr :: "'a list \<Rightarrow> nat \<Rightarrow> 'a \<Rightarrow> 'a list option" where
  "uwr xs n v = (if n < length xs then Some (xs[n := v]) else None)"

lemma urd_in [mem_simps]: "n < length xs \<Longrightarrow> urd xs n = Some (xs ! n)"
  by (simp add: urd_def)

lemma uwr_in [mem_simps]: "n < length xs \<Longrightarrow> uwr xs n v = Some (xs[n := v])"
  by (simp add: uwr_def)

lemma rd_in [mem_simps]: "0 \<le> i \<Longrightarrow> i < int (length xs) \<Longrightarrow> rd xs i = Some (xs ! nat i)"
  by (simp add: rd_def)

lemma wr_in [mem_simps]: "0 \<le> i \<Longrightarrow> i < int (length xs) \<Longrightarrow> wr xs i v = Some (xs[nat i := v])"
  by (simp add: wr_def)

lemma rd_of_nat [mem_simps]: "n < length xs \<Longrightarrow> rd xs (int n) = Some (xs ! n)"
  by (simp add: rd_def)

lemma wr_of_nat [mem_simps]: "n < length xs \<Longrightarrow> wr xs (int n) v = Some (xs[n := v])"
  by (simp add: wr_def)

lemma rd_Some_iff: "rd xs i = Some v \<longleftrightarrow> 0 \<le> i \<and> i < int (length xs) \<and> v = xs ! nat i"
  by (auto simp: rd_def)

lemma wr_Some_iff: "wr xs i v = Some ys \<longleftrightarrow> 0 \<le> i \<and> i < int (length xs) \<and> ys = xs[nat i := v]"
  by (auto simp: wr_def)

lemma swap_in [mem_simps]:
  "0 \<le> i \<Longrightarrow> i < int (length xs) \<Longrightarrow> 0 \<le> j \<Longrightarrow> j < int (length xs) \<Longrightarrow>
   swap xs i j = Some (xs[nat i := xs ! nat j, nat j := xs ! nat i])"
  by (simp add: swap_def rd_def wr_def)

lemma mset_swap_nth:
  "i < length xs \<Longrightarrow> j < length xs \<Longrightarrow> mset (xs[i := xs ! j, j := xs ! i]) = mset xs"
  by (rule mset_swap)

section \<open>Memory that malloc leaves uninitialised\<close>

text \<open>A cell that has not been written holds \<open>None\<close>; reading it is undefined.\<close>

definition cell :: "'a option list \<Rightarrow> int \<Rightarrow> 'a option" where
  "cell xs i = Option.bind (rd xs i) id"

lemma cell_in [mem_simps]: "0 \<le> i \<Longrightarrow> i < int (length xs) \<Longrightarrow> cell xs i = xs ! nat i"
  by (simp add: cell_def rd_def)

section \<open>Copying memory\<close>

text \<open>\<open>mcpy dst d src s n\<close> is \<open>memcpy(dst + d, src + s, n)\<close> between two different blocks; the
  bytes must lie inside both.\<close>

definition mcpy :: "'a list \<Rightarrow> int \<Rightarrow> 'a list \<Rightarrow> int \<Rightarrow> int \<Rightarrow> 'a list option" where
  "mcpy dst d src s n =
     (if 0 \<le> n \<and> 0 \<le> d \<and> d + n \<le> int (length dst) \<and> 0 \<le> s \<and> s + n \<le> int (length src)
      then Some (take (nat d) dst @ take (nat n) (drop (nat s) src) @ drop (nat (d + n)) dst) else None)"

lemma mcpy_nat [mem_simps]:
  "d + n \<le> length dst \<Longrightarrow> s + n \<le> length src \<Longrightarrow>
   mcpy dst (int d) src (int s) (int n) = Some (take d dst @ take n (drop s src) @ drop (d + n) dst)"
  by (simp add: mcpy_def nat_add_distrib)

section \<open>Options\<close>

lemma option_eqI: "(\<And>v. x = Some v \<longleftrightarrow> y = Some v) \<Longrightarrow> x = y"
  by (metis option.exhaust)

section \<open>Runs that return\<close>

text \<open>\<open>returns m Q\<close>: the run is defined and its result satisfies \<open>Q\<close>. The equations take a
  chain of operations apart one by one.\<close>

definition returns :: "'a option \<Rightarrow> ('a \<Rightarrow> bool) \<Rightarrow> bool" where
  "returns m Q \<longleftrightarrow> (\<exists>r. m = Some r \<and> Q r)"

lemma returns_simps:
  "returns (Some r) Q = Q r"
  "returns (Option.bind m f) Q = returns m (\<lambda>x. returns (f x) Q)"
  by (auto simp: returns_def bind_eq_Some_conv)

lemma returns_mono: "returns m P \<Longrightarrow> (\<And>r. P r \<Longrightarrow> Q r) \<Longrightarrow> returns m Q"
  by (auto simp: returns_def)

section \<open>Failing runs\<close>

text \<open>A run that may stop with an error of the program's own (an exit status, an error code) returns
  \<open>Inl e\<close> for it and \<open>Inr r\<close> for a result. \<open>bindE\<close> goes on with a result and passes an
  error through; \<open>okv\<close> is the result of a run without undefined behaviour and error.\<close>

definition bindE :: "('e + 'a) option \<Rightarrow> ('a \<Rightarrow> ('e + 'b) option) \<Rightarrow> ('e + 'b) option" where
  "bindE m f = Option.bind m (\<lambda>r. case r of Inl e \<Rightarrow> Some (Inl e) | Inr x \<Rightarrow> f x)"

lemma bindE_simps [simp]:
  "bindE None f = None" "bindE (Some (Inl e)) f = Some (Inl e)" "bindE (Some (Inr x)) f = f x"
  by (simp_all add: bindE_def)

fun okv :: "('e + 'a) option \<Rightarrow> 'a option" where
  "okv (Some (Inr x)) = Some x"
| "okv _ = None"

lemma okv_eq_Some [simp]: "okv r = Some x \<longleftrightarrow> r = Some (Inr x)"
  by (cases r rule: okv.cases) auto

section \<open>Signed arithmetic\<close>

text \<open>Signed 32-bit and 64-bit results; overflow is undefined in C.\<close>

definition chk32 :: "int \<Rightarrow> int option" where
  "chk32 x = (if - (2 ^ 31) \<le> x \<and> x < 2 ^ 31 then Some x else None)"

definition chk64 :: "int \<Rightarrow> int option" where
  "chk64 x = (if - (2 ^ 63) \<le> x \<and> x < 2 ^ 63 then Some x else None)"

lemma chk32_in [mem_simps]: "- (2 ^ 31) \<le> x \<Longrightarrow> x < 2 ^ 31 \<Longrightarrow> chk32 x = Some x"
  by (simp add: chk32_def)

lemma chk64_in [mem_simps]: "- (2 ^ 63) \<le> x \<Longrightarrow> x < 2 ^ 63 \<Longrightarrow> chk64 x = Some x"
  by (simp add: chk64_def)

lemma chk32_Some_iff: "chk32 x = Some y \<longleftrightarrow> y = x \<and> - (2 ^ 31) \<le> x \<and> x < 2 ^ 31"
  by (auto simp: chk32_def)

text \<open>C division truncates towards zero; dividing by zero is undefined.\<close>

definition cdiv :: "int \<Rightarrow> int \<Rightarrow> int option" where
  "cdiv a b = (if b = 0 then None else Some (sgn a * sgn b * (\<bar>a\<bar> div \<bar>b\<bar>)))"

definition cmod :: "int \<Rightarrow> int \<Rightarrow> int option" where
  "cmod a b = (if b = 0 then None else Some (a - b * (sgn a * sgn b * (\<bar>a\<bar> div \<bar>b\<bar>))))"

lemma cdiv_nonneg [mem_simps]: "0 \<le> a \<Longrightarrow> 0 < b \<Longrightarrow> cdiv a b = Some (a div b)"
  by (cases "a = 0") (simp_all add: cdiv_def)

lemma cmod_nonneg [mem_simps]: "0 \<le> a \<Longrightarrow> 0 < b \<Longrightarrow> cmod a b = Some (a mod b)"
  by (cases "a = 0") (simp_all add: cmod_def minus_mult_div_eq_mod)

section \<open>Lists\<close>

lemma nth_update_if: "i < length xs \<Longrightarrow> xs[j := v] ! i = (if i = j then v else xs ! i)"
  by simp

lemma list_update_append_mid: "(xs @ y # ys)[length xs := z] = xs @ z # ys"
  by (induction xs) auto

lemma sorted_nth_Suc: "(\<And>i. Suc i < length xs \<Longrightarrow> xs ! i \<le> xs ! Suc i) \<Longrightarrow> sorted (xs :: 'a::linorder list)"
  by (simp add: sorted_iff_nth_Suc)

section \<open>Power-of-two masks\<close>

lemma unat_and_mask_exp:
  fixes x :: u64
  assumes "n = 2 ^ k" and "k < 64"
  shows "unat (x AND (of_nat n - 1)) = unat x mod n"
proof -
  have "x AND (of_nat n - 1) = take_bit k x"
    by (simp add: assms(1) take_bit_eq_mask mask_eq_exp_minus_1)
  then show ?thesis
    by (simp only: unsigned_take_bit_eq) (simp add: take_bit_eq_mod assms(1))
qed

text \<open>\<open>(i + 1) & mask\<close> is the next position of a ring of \<open>2 ^ k\<close> cells.\<close>

lemma unat_next_and_mask:
  fixes i :: u64
  assumes "n = 2 ^ k" and "k < 64" and "unat i < n"
  shows "unat ((i + 1) AND (of_nat n - 1)) = Suc (unat i) mod n"
proof -
  have "(2::nat) ^ k \<le> 2 ^ 63"
    using assms(2) by (intro power_increasing) simp_all
  then have "n \<le> 2 ^ 63"
    using assms(1) by simp
  with assms(3) have "unat (i + 1) = Suc (unat i)"
    by (simp add: unat_word_ariths)
  then show ?thesis
    by (simp add: unat_and_mask_exp [OF assms(1,2)])
qed

end
