(* ===== verification/HashMap.thy ===== *)
theory HashMap
  imports Prelude
begin

unbundle bit_operations_syntax

text \<open>
  \<^verbatim>\<open>C/02_hash/02_hashmap/hashmap.c\<close>: an open-addressing hash table with Robin Hood
  probing. A bucket holds the clipped hash, the probe distance \<open>dib\<close> (0 for a free
  bucket, a 16-bit bit field that wraps) and the bytes of one element. The allocator's
  answers, the hash and the compare callbacks are parameters. The scratch buckets
  \<open>spare\<close> and \<open>edata\<close> are written before every read inside one call, so they
  are the local values \<open>entry\<close> and the returned bytes.
\<close>

section \<open>State\<close>

record bucket =
  bhash :: u64
  dib :: u16
  bitem :: bytes

text \<open>
  \<open>compare_fn\<close> is closed over \<open>udata\<close>; \<open>None\<close> is a null pointer.
  \<open>has_elfree\<close> says whether an element destructor was given.
\<close>

record hashmap =
  elsize :: nat
  cap :: nat
  seed0 :: u64
  seed1 :: u64
  hash_fn :: "bytes \<Rightarrow> u64 \<Rightarrow> u64 \<Rightarrow> u64"
  compare_fn :: "(bytes \<Rightarrow> bytes \<Rightarrow> int) option"
  has_elfree :: bool
  bucketsz :: nat
  nbuckets :: nat
  count :: nat
  mask :: u64
  growat :: nat
  shrinkat :: nat
  loadfactor :: nat
  growpower :: nat
  oom :: bool
  buckets :: "bucket list"

section \<open>Load factors\<close>

text \<open>
  The load factors are C doubles. \<open>round_even\<close> rounds a non-negative rational given as
  numerator and denominator to the nearest integer, ties to even; with it the products and
  quotients of doubles that the code forms are computed exactly as IEEE arithmetic does,
  for values whose binary exponent is known: \<open>factor * 100\<close> lies in [50, 95] and
  \<open>loadfactor / 100.0\<close> in [0.5, 1). The multiplication by \<open>nbuckets\<close>, a power of
  two, is exact.
\<close>

datatype dbl = NaN | MInf | PInf | Fin int nat  \<comment> \<open>\<open>Fin m e\<close> is \<open>m / 2 ^ e\<close>\<close>

definition round_even :: "int \<Rightarrow> int \<Rightarrow> int" where
  "round_even p q =
     (let d = p div q; r = p mod q
      in if 2 * r < q \<or> (2 * r = q \<and> even d) then d else d + 1)"

text \<open>The doubles 0.50, 0.60, 0.95 and 0.10 of the source.\<close>

definition dbl_050 :: dbl where "dbl_050 = Fin 1 1"
definition dbl_095 :: dbl where "dbl_095 = Fin 8556839292003942 53"
definition GROW_AT :: dbl where "GROW_AT = Fin 5404319552844595 53"

fun dbl_lt :: "dbl \<Rightarrow> dbl \<Rightarrow> bool" where
  "dbl_lt NaN _ = False"
| "dbl_lt _ NaN = False"
| "dbl_lt MInf y = (y \<noteq> MInf)"
| "dbl_lt PInf _ = False"
| "dbl_lt (Fin _ _) MInf = False"
| "dbl_lt (Fin _ _) PInf = True"
| "dbl_lt (Fin m e) (Fin n f) = (m * 2 ^ f < n * 2 ^ e)"

definition clamp_load_factor :: "dbl \<Rightarrow> dbl \<Rightarrow> dbl" where
  "clamp_load_factor factor default_factor =
     (if factor = NaN then default_factor
      else if dbl_lt factor dbl_050 then dbl_050
      else if dbl_lt dbl_095 factor then dbl_095
      else factor)"

text \<open>\<open>(uint8_t)(factor * 100)\<close> for a factor in [0.5, 0.95].\<close>

fun percent :: "dbl \<Rightarrow> nat" where
  "percent (Fin m e) =
     (let p = m * 100
      in if p < 64 * 2 ^ e then nat (round_even (p * 2 ^ 47) (2 ^ e) div 2 ^ 47)
         else nat (round_even (p * 2 ^ 46) (2 ^ e) div 2 ^ 46))"
| "percent _ = 0"

text \<open>\<open>loadfactor / 100.0\<close> as a double, and \<open>(size_t)(nbuckets * (loadfactor / 100.0))\<close>.\<close>

definition lf_dbl :: "nat \<Rightarrow> dbl" where
  "lf_dbl lf = Fin (round_even (int lf * 2 ^ 53) 100) 53"

definition growat_of :: "nat \<Rightarrow> nat \<Rightarrow> nat" where
  "growat_of nb lf = nat (int nb * round_even (int lf * 2 ^ 53) 100 div 2 ^ 53)"

text \<open>\<open>(size_t)(nbuckets * SHRINK_AT)\<close>, with the double 0.10.\<close>

definition shrinkat_of :: "nat \<Rightarrow> nat" where
  "shrinkat_of nb = nat (int nb * 3602879701896397 div 2 ^ 55)"

definition hashmap_set_grow_by_power :: "hashmap \<Rightarrow> nat \<Rightarrow> hashmap" where
  "hashmap_set_grow_by_power m pw =
     m\<lparr>growpower := (if pw < 1 then 1 else if 16 < pw then 16 else pw)\<rparr>"

definition hashmap_set_load_factor :: "hashmap \<Rightarrow> dbl \<Rightarrow> hashmap" where
  "hashmap_set_load_factor m factor =
     (let lf = percent (clamp_load_factor factor (lf_dbl (loadfactor m)))
      in m\<lparr>loadfactor := lf, growat := growat_of (nbuckets m) lf\<rparr>)"

section \<open>Creation\<close>

definition clip_hash :: "u64 \<Rightarrow> u64" where
  "clip_hash h = h AND 0xFFFFFFFFFFFF"

definition get_hash :: "hashmap \<Rightarrow> bytes \<Rightarrow> u64" where
  "get_hash m key = clip_hash (hash_fn m key (seed0 m) (seed1 m))"

text \<open>\<open>while (ncap < cap) ncap *= 2\<close> on \<open>size_t\<close>: it does not end when doubling wraps to 0.\<close>

partial_function (option) next_cap :: "nat \<Rightarrow> nat \<Rightarrow> nat option" where
  "next_cap ncap c = (if ncap < c then next_cap (ncap * 2 mod 2 ^ 64) c else Some ncap)"

declare next_cap.simps [code]

text \<open>\<open>while (bucketsz & (sizeof(uintptr_t)-1)) bucketsz++\<close>.\<close>

function align_ptr :: "nat \<Rightarrow> nat" where
  "align_ptr n = (if n mod 8 = 0 then n else align_ptr (Suc n))"
  by pat_completeness auto
termination
  by (relation "measure (\<lambda>n. (8 - n mod 8) mod 8)") (auto simp: mod_Suc)

declare align_ptr.simps [simp del]

definition zero_bucket :: "nat \<Rightarrow> bucket" where
  "zero_bucket sz = \<lparr>bhash = 0, dib = 0, bitem = replicate sz 0\<rparr>"

text \<open>
  \<open>ok1\<close> and \<open>ok2\<close> are the allocator's answers for the map and for its buckets. The
  outer \<open>None\<close> is a loop that does not end, \<open>Some None\<close> a returned NULL. The
  bucket array gets the bytes asked for, \<open>bucketsz * nbuckets\<close> modulo \<open>2 ^ 64\<close>.
\<close>

definition alloc_buckets :: "nat \<Rightarrow> nat \<Rightarrow> nat \<Rightarrow> bucket list" where
  "alloc_buckets bsz nb sz = replicate (bsz * nb mod 2 ^ 64 div bsz) (zero_bucket sz)"

definition hashmap_new_with_allocator ::
  "bool \<times> bool \<Rightarrow> nat \<Rightarrow> nat \<Rightarrow> u64 \<Rightarrow> u64 \<Rightarrow> (bytes \<Rightarrow> u64 \<Rightarrow> u64 \<Rightarrow> u64) \<Rightarrow>
   (bytes \<Rightarrow> bytes \<Rightarrow> int) option \<Rightarrow> bool \<Rightarrow> hashmap option option" where
  "hashmap_new_with_allocator ok sz c s0 s1 hash cmp elfree = do {
     nc \<leftarrow> (if c < 16 then Some 16 else next_cap 16 c);
     let bsz = align_ptr (8 + sz);
     if \<not> fst ok then Some None
     else if \<not> snd ok then Some None
     else Some (Some \<lparr>elsize = sz, cap = nc, seed0 = s0, seed1 = s1, hash_fn = hash,
       compare_fn = cmp, has_elfree = elfree, bucketsz = bsz, nbuckets = nc, count = 0,
       mask = of_nat nc - 1,
       growat = growat_of nc (percent (clamp_load_factor GROW_AT GROW_AT)),
       shrinkat = shrinkat_of nc,
       loadfactor = percent (clamp_load_factor GROW_AT GROW_AT), growpower = 1,
       oom = False, buckets = alloc_buckets bsz nc sz\<rparr>) }"

definition hashmap_new ::
  "bool \<times> bool \<Rightarrow> nat \<Rightarrow> nat \<Rightarrow> u64 \<Rightarrow> u64 \<Rightarrow> (bytes \<Rightarrow> u64 \<Rightarrow> u64 \<Rightarrow> u64) \<Rightarrow>
   (bytes \<Rightarrow> bytes \<Rightarrow> int) option \<Rightarrow> bool \<Rightarrow> hashmap option option" where
  "hashmap_new ok sz c s0 s1 hash cmp elfree =
     hashmap_new_with_allocator ok sz c s0 s1 hash cmp elfree"

section \<open>Freeing and clearing\<close>

text \<open>The items the destructor is called with, in order.\<close>

definition free_elements :: "hashmap \<Rightarrow> bytes list" where
  "free_elements m =
     (if has_elfree m then map bitem (filter (\<lambda>b. dib b \<noteq> 0) (take (nbuckets m) (buckets m)))
      else [])"

definition hashmap_free :: "hashmap \<Rightarrow> bytes list" where
  "hashmap_free m = free_elements m"

text \<open>
  When the allocation fails the old array is kept and only its first \<open>cap\<close> buckets
  are used.
\<close>

definition hashmap_clear :: "bool \<Rightarrow> hashmap \<Rightarrow> bool \<Rightarrow> hashmap \<times> bytes list" where
  "hashmap_clear ok m update_cap =
     (let freed = free_elements m;
          m1 = (if update_cap then m\<lparr>cap := nbuckets m\<rparr>
                else if nbuckets m \<noteq> cap m
                then (if ok then m\<lparr>buckets := alloc_buckets (bucketsz m) (cap m) (elsize m),
                                  nbuckets := cap m\<rparr>
                      else m\<lparr>nbuckets := cap m\<rparr>)
                else m)
      in (m1\<lparr>count := 0,
             buckets := map (\<lambda>_. zero_bucket (elsize m)) (take (nbuckets m1) (buckets m1)),
             mask := of_nat (nbuckets m1) - 1,
             growat := growat_of (nbuckets m1) (loadfactor m),
             shrinkat := shrinkat_of (nbuckets m1)\<rparr>, freed))"

section \<open>Resizing\<close>

text \<open>The inner \<open>while(1)\<close> of \<open>resize0\<close>: place one entry in the new array.\<close>

partial_function (option) place_loop :: "u64 \<Rightarrow> bucket list \<Rightarrow> bucket \<Rightarrow> u64 \<Rightarrow> bucket list option" where
  "place_loop msk bs entry j = do {
     b \<leftarrow> urd bs (unat j);
     if dib b = 0 then Some (bs[unat j := entry])
     else if dib b < dib entry
     then place_loop msk (bs[unat j := entry]) (b\<lparr>dib := dib b + 1\<rparr>) ((j + 1) AND msk)
     else place_loop msk bs (entry\<lparr>dib := dib entry + 1\<rparr>) ((j + 1) AND msk) }"

declare place_loop.simps [code]

fun rehash :: "u64 \<Rightarrow> bucket list \<Rightarrow> bucket list \<Rightarrow> bucket list option" where
  "rehash msk [] bs = Some bs"
| "rehash msk (e # es) bs =
     (if dib e = 0 then rehash msk es bs
      else do { bs' \<leftarrow> place_loop msk bs (e\<lparr>dib := 1\<rparr>) (bhash e AND msk);
                rehash msk es bs' })"

definition resize0 :: "bool \<times> bool \<Rightarrow> hashmap \<Rightarrow> nat \<Rightarrow> (hashmap \<times> bool) option" where
  "resize0 ok m new_cap = do {
     r \<leftarrow> hashmap_new_with_allocator ok (elsize m) new_cap (seed0 m) (seed1 m) (hash_fn m)
            (compare_fn m) (has_elfree m);
     case r of
       None \<Rightarrow> Some (m, False)
     | Some m2 \<Rightarrow> do {
         bs \<leftarrow> rehash (mask m2) (take (nbuckets m) (buckets m)) (buckets m2);
         Some (m\<lparr>buckets := bs, nbuckets := nbuckets m2, mask := mask m2,
                 growat := growat m2, shrinkat := shrinkat m2\<rparr>, True) } }"

definition resize :: "bool \<times> bool \<Rightarrow> hashmap \<Rightarrow> nat \<Rightarrow> (hashmap \<times> bool) option" where
  "resize ok m new_cap = resize0 ok m new_cap"

section \<open>Set, get, delete\<close>

text \<open>\<open>hash == bucket->hash && (!map->compare || map->compare(a, b, udata) == 0)\<close>\<close>

definition key_match :: "(bytes \<Rightarrow> bytes \<Rightarrow> int) option \<Rightarrow> u64 \<Rightarrow> bytes \<Rightarrow> bucket \<Rightarrow> bool" where
  "key_match cmp h key b \<longleftrightarrow>
     bhash b = h \<and> (case cmp of None \<Rightarrow> True | Some f \<Rightarrow> f key (bitem b) = 0)"

partial_function (option) set_loop ::
  "(bytes \<Rightarrow> bytes \<Rightarrow> int) option \<Rightarrow> u64 \<Rightarrow> bucket list \<Rightarrow> bucket \<Rightarrow> u64 \<Rightarrow>
   (bucket list \<times> bytes option) option" where
  "set_loop cmp msk bs entry i = do {
     b \<leftarrow> urd bs (unat i);
     if dib b = 0 then Some (bs[unat i := entry], None)
     else if key_match cmp (bhash entry) (bitem entry) b
     then Some (bs[unat i := b\<lparr>bitem := bitem entry\<rparr>], Some (bitem b))
     else if dib b < dib entry
     then set_loop cmp msk (bs[unat i := entry]) (b\<lparr>dib := dib b + 1\<rparr>) ((i + 1) AND msk)
     else set_loop cmp msk bs (entry\<lparr>dib := dib entry + 1\<rparr>) ((i + 1) AND msk) }"

declare set_loop.simps [code]

definition set_entry :: "hashmap \<Rightarrow> bytes \<Rightarrow> u64 \<Rightarrow> (hashmap \<times> bytes option) option" where
  "set_entry m item h = do {
     (bs, old) \<leftarrow> set_loop (compare_fn m) (mask m) (buckets m)
       \<lparr>bhash = h, dib = 1, bitem = take (elsize m) item\<rparr> (h AND mask m);
     Some (m\<lparr>buckets := bs, count := (if old = None then count m + 1 else count m)\<rparr>, old) }"

definition hashmap_set_with_hash ::
  "bool \<times> bool \<Rightarrow> hashmap \<Rightarrow> bytes \<Rightarrow> u64 \<Rightarrow> (hashmap \<times> bytes option) option" where
  "hashmap_set_with_hash ok m0 item hash0 = do {
     let h = clip_hash hash0;
     let m = m0\<lparr>oom := False\<rparr>;
     if growat m \<le> count m
     then do {
       (m', done) \<leftarrow> resize ok m (nbuckets m * 2 ^ growpower m mod 2 ^ 64);
       if \<not> done then Some (m'\<lparr>oom := True\<rparr>, None) else set_entry m' item h }
     else set_entry m item h }"

definition hashmap_set ::
  "bool \<times> bool \<Rightarrow> hashmap \<Rightarrow> bytes \<Rightarrow> (hashmap \<times> bytes option) option" where
  "hashmap_set ok m item = hashmap_set_with_hash ok m item (get_hash m item)"

partial_function (option) get_loop ::
  "(bytes \<Rightarrow> bytes \<Rightarrow> int) option \<Rightarrow> u64 \<Rightarrow> bucket list \<Rightarrow> bytes \<Rightarrow> u64 \<Rightarrow> u64 \<Rightarrow>
   u64 option option" where
  "get_loop cmp msk bs key h i = do {
     b \<leftarrow> urd bs (unat i);
     if dib b = 0 then Some None
     else if key_match cmp h key b then Some (Some i)
     else get_loop cmp msk bs key h ((i + 1) AND msk) }"

declare get_loop.simps [code]

definition hashmap_get_with_hash :: "hashmap \<Rightarrow> bytes \<Rightarrow> u64 \<Rightarrow> bytes option option" where
  "hashmap_get_with_hash m key hash0 = do {
     let h = clip_hash hash0;
     r \<leftarrow> get_loop (compare_fn m) (mask m) (buckets m) key h (h AND mask m);
     Some (map_option (\<lambda>i. bitem (buckets m ! unat i)) r) }"

definition hashmap_get :: "hashmap \<Rightarrow> bytes \<Rightarrow> bytes option option" where
  "hashmap_get m key = hashmap_get_with_hash m key (get_hash m key)"

definition hashmap_probe :: "hashmap \<Rightarrow> u64 \<Rightarrow> bytes option option" where
  "hashmap_probe m position = do {
     b \<leftarrow> urd (buckets m) (unat (position AND mask m));
     if dib b = 0 then Some None else Some (Some (bitem b)) }"

text \<open>The inner loop of deletion: shift the following buckets back by one.\<close>

partial_function (option) shift_loop :: "u64 \<Rightarrow> bucket list \<Rightarrow> u64 \<Rightarrow> bucket list option" where
  "shift_loop msk bs prev = do {
     p \<leftarrow> urd bs (unat prev);
     b \<leftarrow> urd bs (unat ((prev + 1) AND msk));
     if dib b \<le> 1 then Some (bs[unat prev := p\<lparr>dib := 0\<rparr>])
     else shift_loop msk (bs[unat prev := b\<lparr>dib := dib b - 1\<rparr>]) ((prev + 1) AND msk) }"

declare shift_loop.simps [code]

text \<open>The outer loop finds the same bucket as \<open>get_loop\<close>; the result keeps the index.\<close>

definition hashmap_delete_with_hash ::
  "bool \<times> bool \<Rightarrow> hashmap \<Rightarrow> bytes \<Rightarrow> u64 \<Rightarrow> (hashmap \<times> bytes option) option" where
  "hashmap_delete_with_hash ok m0 key hash0 = do {
     let h = clip_hash hash0;
     let m = m0\<lparr>oom := False\<rparr>;
     r \<leftarrow> get_loop (compare_fn m) (mask m) (buckets m) key h (h AND mask m);
     case r of
       None \<Rightarrow> Some (m, None)
     | Some i \<Rightarrow> do {
         let b = buckets m ! unat i;
         bs \<leftarrow> shift_loop (mask m) ((buckets m)[unat i := b\<lparr>dib := 0\<rparr>]) i;
         let m1 = m\<lparr>buckets := bs, count := count m - 1\<rparr>;
         if cap m1 < nbuckets m1 \<and> count m1 \<le> shrinkat m1
         then do { (m2, _) \<leftarrow> resize ok m1 (nbuckets m1 div 2); Some (m2, Some (bitem b)) }
         else Some (m1, Some (bitem b)) } }"

definition hashmap_delete ::
  "bool \<times> bool \<Rightarrow> hashmap \<Rightarrow> bytes \<Rightarrow> (hashmap \<times> bytes option) option" where
  "hashmap_delete ok m key = hashmap_delete_with_hash ok m key (get_hash m key)"

section \<open>Observers and iteration\<close>

definition hashmap_count :: "hashmap \<Rightarrow> nat" where
  "hashmap_count m = count m"

definition hashmap_oom :: "hashmap \<Rightarrow> bool" where
  "hashmap_oom m = oom m"

text \<open>The callback works on its \<open>udata\<close>, a value of any type, and says whether to go on.\<close>

fun scan_loop :: "bucket list \<Rightarrow> (bytes \<Rightarrow> 's \<Rightarrow> bool \<times> 's) \<Rightarrow> 's \<Rightarrow> bool \<times> 's" where
  "scan_loop [] iter udata = (True, udata)"
| "scan_loop (b # bs) iter udata =
     (if dib b = 0 then scan_loop bs iter udata
      else case iter (bitem b) udata of
        (False, udata') \<Rightarrow> (False, udata')
      | (True, udata') \<Rightarrow> scan_loop bs iter udata')"

definition hashmap_scan :: "hashmap \<Rightarrow> (bytes \<Rightarrow> 's \<Rightarrow> bool \<times> 's) \<Rightarrow> 's \<Rightarrow> bool \<times> 's" where
  "hashmap_scan m iter udata = scan_loop (take (nbuckets m) (buckets m)) iter udata"

text \<open>The cursor after the call, and the item or \<open>None\<close> when the function returns false.\<close>

function hashmap_iter :: "hashmap \<Rightarrow> nat \<Rightarrow> (nat \<times> bytes option) option" where
  "hashmap_iter m i =
     (if nbuckets m \<le> i then Some (i, None)
      else case urd (buckets m) i of
        None \<Rightarrow> None
      | Some b \<Rightarrow> if dib b = 0 then hashmap_iter m (Suc i) else Some (Suc i, Some (bitem b)))"
  by pat_completeness auto
termination
  by (relation "measure (\<lambda>(m, i). nbuckets m - i)") auto

declare hashmap_iter.simps [simp del]

end
