(* ===== verification/HashMapCorrect.thy ===== *)
theory HashMapCorrect
  imports HashMap
begin

unbundle bit_operations_syntax

text \<open>
  Correctness of the hash table. The bucket array is a ring of \<open>2 ^ k\<close> cells. Two local
  facts are kept by every operation: each occupied bucket lies \<open>dib - 1\<close> cells after
  the home cell of its hash, and no \<open>dib\<close> exceeds its predecessor's by more than one
  (\<open>robin_ok\<close>). From them follow that a lookup reaches the bucket it looks for before
  any free one, that the loops end while one bucket is free, and that the 16-bit distance
  never wraps while the table holds fewer than \<open>2 ^ 16 - 1\<close> elements.
\<close>

section \<open>Positions on the ring\<close>

definition nxt :: "nat \<Rightarrow> nat \<Rightarrow> nat" where
  "nxt n i = Suc i mod n"

lemma nxt_less [simp]: "0 < n \<Longrightarrow> nxt n i < n"
  by (simp add: nxt_def)

lemma nxt_add: "nxt n ((h + t) mod n) = (h + Suc t) mod n"
  by (simp add: nxt_def mod_Suc_eq)

lemma nxt_inj: "i < n \<Longrightarrow> j < n \<Longrightarrow> nxt n i = nxt n j \<longleftrightarrow> i = j"
  by (auto simp: nxt_def mod_Suc split: if_splits)

lemma nxt_neq: "1 < n \<Longrightarrow> i < n \<Longrightarrow> nxt n i \<noteq> i"
  by (auto simp: nxt_def mod_Suc split: if_splits)

lemma ring_inj:
  assumes "(h + s) mod n = (h + t) mod n" and "s < n" and "t < n"
  shows "s = (t :: nat)"
proof -
  have "int n dvd (int h + int s) - (int h + int t)"
    using assms(1) by (metis mod_eq_dvd_iff of_nat_add of_nat_mod)
  then have "int n dvd int s - int t" by simp
  moreover have "\<bar>int s - int t\<bar> < int n" using assms by linarith
  ultimately show ?thesis
    by (metis dvd_imp_le_int abs_of_nat diff_eq_eq eq_iff_diff_eq_0 linorder_not_less of_nat_eq_iff)
qed

lemma ring_reach:
  assumes "i < n" and "z < (n :: nat)"
  shows "\<exists>t<n. (i + t) mod n = z"
proof (cases "i \<le> z")
  case True
  then show ?thesis using assms by (intro exI [of _ "z - i"]) auto
next
  case False
  then show ?thesis using assms by (intro exI [of _ "n + z - i"]) (auto simp: mod_if)
qed

section \<open>Invariants of the bucket array\<close>

abbreviation dd :: "bucket list \<Rightarrow> nat \<Rightarrow> nat" where
  "dd bs j \<equiv> unat (dib (bs ! j))"

definition hm :: "nat \<Rightarrow> u64 \<Rightarrow> nat" where
  "hm n h = unat h mod n"

definition chain :: "bucket list \<Rightarrow> bool" where
  "chain bs \<longleftrightarrow> (\<forall>j < length bs. dd bs (nxt (length bs) j) \<le> dd bs j + 1)"

definition homes :: "bucket list \<Rightarrow> bool" where
  "homes bs \<longleftrightarrow> (\<forall>j < length bs. dd bs j \<noteq> 0 \<longrightarrow>
     (hm (length bs) (bhash (bs ! j)) + (dd bs j - 1)) mod length bs = j)"

definition robin_ok :: "bucket list \<Rightarrow> bool" where
  "robin_ok bs \<longleftrightarrow> (\<exists>k. length bs = 2 ^ k \<and> k < 64) \<and> 1 < length bs \<and> chain bs \<and> homes bs"

text \<open>The stored pairs of hash and item.\<close>

definition ents :: "bucket list \<Rightarrow> (u64 \<times> bytes) multiset" where
  "ents bs = image_mset (\<lambda>b. (bhash b, bitem b)) (filter_mset (\<lambda>b. dib b \<noteq> 0) (mset bs))"

definition one :: "bucket \<Rightarrow> (u64 \<times> bytes) multiset" where
  "one b = (if dib b = 0 then {#} else {#(bhash b, bitem b)#})"

lemma ents_Nil [simp]: "ents [] = {#}"
  by (simp add: ents_def)

lemma ents_Cons [simp]: "ents (b # bs) = one b + ents bs"
  by (simp add: ents_def one_def)

lemma ents_append [simp]: "ents (as @ bs) = ents as + ents bs"
  by (simp add: ents_def)

lemma ents_update:
  assumes "i < length bs"
  shows "ents (bs[i := b]) + one (bs ! i) = ents bs + one b"
proof -
  have 1: "ents bs = ents (take i bs) + one (bs ! i) + ents (drop (Suc i) bs)"
    by (subst id_take_nth_drop [OF assms]) (simp add: ac_simps)
  have 2: "ents (bs[i := b]) = ents (take i bs) + one b + ents (drop (Suc i) bs)"
    by (simp add: upd_conv_take_nth_drop [OF assms] ac_simps)
  show ?thesis by (simp add: 1 2)
qed

lemma size_ents: "size (ents bs) = card {j. j < length bs \<and> dd bs j \<noteq> 0}"
proof -
  have "size (ents bs) = length (filter (\<lambda>b. dib b \<noteq> 0) bs)"
    by (simp add: ents_def flip: mset_filter size_mset)
  then show ?thesis
    by (simp add: length_filter_conv_card unat_eq_0)
qed

lemma ents_in_conv:
  "x \<in># ents bs \<longleftrightarrow> (\<exists>j < length bs. dd bs j \<noteq> 0 \<and> x = (bhash (bs ! j), bitem (bs ! j)))"
  by (auto simp: ents_def in_set_conv_nth unat_eq_0 image_iff)

lemma free_exists:
  assumes "size (ents bs) < length bs"
  shows "\<exists>z < length bs. dd bs z = 0"
proof (rule ccontr)
  assume "\<not> ?thesis"
  then have "{j. j < length bs \<and> dd bs j \<noteq> 0} = {j. j < length bs}" by auto
  with assms show False by (simp add: size_ents)
qed

text \<open>The cell \<open>t\<close> places before \<open>i\<close>.\<close>

definition bk :: "nat \<Rightarrow> nat \<Rightarrow> nat \<Rightarrow> nat" where
  "bk n i t = (i + (n - t)) mod n"

lemma bk_less [simp]: "0 < n \<Longrightarrow> bk n i t < n"
  by (simp add: bk_def)

lemma nxt_bk: "Suc t \<le> n \<Longrightarrow> nxt n (bk n i (Suc t)) = bk n i t"
  by (simp only: bk_def nxt_add) (simp add: Suc_diff_Suc del: add_diff_assoc)

lemma bk_0 [simp]: "i < n \<Longrightarrow> bk n i 0 = i"
  by (simp add: bk_def)

lemma bk_inj: "inj_on (bk n i) {1..n}"
proof (rule inj_onI)
  fix s t assume st: "s \<in> {1..n}" "t \<in> {1..n}" and "bk n i s = bk n i t"
  then have "(i + (n - s)) mod n = (i + (n - t)) mod n" by (simp only: bk_def)
  moreover have "n - s < n" and "n - t < n" using st by auto
  ultimately have "n - s = n - t" by (rule ring_inj)
  with st show "s = t" by auto
qed

text \<open>Walking bk from a cell whose content has distance \<open>d\<close>.\<close>

lemma chain_bk:
  assumes "chain bs" and "i < length bs" and "1 \<le> t" and "t \<le> length bs"
    and pred: "\<And>j. j < length bs \<Longrightarrow> nxt (length bs) j = i \<Longrightarrow> d \<le> dd bs j + 1"
  shows "d \<le> dd bs (bk (length bs) i t) + t"
  using assms(3,4)
proof (induction t rule: nat_induct_at_least)
  case base
  have "nxt (length bs) (bk (length bs) i (Suc 0)) = i"
    using base assms(2) by (subst nxt_bk) simp_all
  moreover have "bk (length bs) i (Suc 0) < length bs"
    using assms(2) by (intro bk_less) auto
  ultimately show ?case
    using pred by force
next
  case (Suc t)
  have "nxt (length bs) (bk (length bs) i (Suc t)) = bk (length bs) i t"
    using Suc.prems by (intro nxt_bk)
  with assms(1,2) have "dd bs (bk (length bs) i t) \<le> dd bs (bk (length bs) i (Suc t)) + 1"
    unfolding chain_def by (metis bk_less gr_implies_not0 not_gr_zero)
  with Suc show ?case by simp
qed

text \<open>A distance that the predecessor allows is at most the number of stored entries plus one.\<close>

lemma dist_bound:
  assumes ch: "chain bs" and i: "i < length bs"
    and pred: "\<And>j. j < length bs \<Longrightarrow> nxt (length bs) j = i \<Longrightarrow> d \<le> dd bs j + 1"
    and free: "size (ents bs) < length bs"
  shows "d \<le> size (ents bs) + 1"
proof -
  let ?n = "length bs"
  have le: "d \<le> ?n"
  proof (rule ccontr)
    assume "\<not> d \<le> ?n"
    obtain z where z: "z < ?n" "dd bs z = 0" using free_exists [OF free] by blast
    obtain t where t: "t < ?n" "(i + t) mod ?n = z" using ring_reach [OF i z(1)] by blast
    have "bk ?n i (?n - t) = z" using t by (simp add: bk_def)
    with chain_bk [OF ch i _ _ pred, of "?n - t"] t z \<open>\<not> d \<le> ?n\<close> show False by force
  qed
  have "bk ?n i ` {1..<d} \<subseteq> {j. j < ?n \<and> dd bs j \<noteq> 0}"
  proof
    fix p assume "p \<in> bk ?n i ` {1..<d}"
    then obtain t where t: "p = bk ?n i t" "1 \<le> t" "t < d" by auto
    have "p < ?n" using i unfolding t(1) by (intro bk_less) auto
    moreover have "t \<le> ?n" using t(3) le by simp
    then have "d \<le> dd bs p + t"
      unfolding t(1) by (rule chain_bk [OF ch i t(2) _ pred])
    ultimately show "p \<in> {j. j < ?n \<and> dd bs j \<noteq> 0}" using t(3) by auto
  qed
  then have "card (bk ?n i ` {1..<d}) \<le> size (ents bs)"
    unfolding size_ents by (intro card_mono) auto
  moreover have "card (bk ?n i ` {1..<d}) = d - 1"
    using le by (subst card_image) (auto intro: inj_on_subset [OF bk_inj])
  ultimately show ?thesis by simp
qed

section \<open>Placing an entry\<close>

text \<open>Where an entry may be written or carried on.\<close>

definition fits :: "bucket list \<Rightarrow> nat \<Rightarrow> bucket \<Rightarrow> bool" where
  "fits bs i e \<longleftrightarrow> i < length bs \<and> dib e \<noteq> 0 \<and>
     (\<forall>j < length bs. nxt (length bs) j = i \<longrightarrow> unat (dib e) \<le> dd bs j + 1) \<and>
     (hm (length bs) (bhash e) + (unat (dib e) - 1)) mod length bs = i"

lemma robin_okD:
  assumes "robin_ok bs"
  shows "chain bs" and "homes bs" and "1 < length bs" and "0 < length bs"
  using assms by (auto simp: robin_ok_def)

lemma chain_update:
  assumes "chain bs" and "1 < length bs" and "i < length bs"
    and "\<And>j. j < length bs \<Longrightarrow> nxt (length bs) j = i \<Longrightarrow> unat (dib e) \<le> dd bs j + 1"
    and "dd bs (nxt (length bs) i) \<le> unat (dib e) + 1"
  shows "chain (bs[i := e])"
  unfolding chain_def
proof (intro allI impI)
  fix j assume j: "j < length (bs[i := e])"
  then have lt: "nxt (length bs) j < length bs" by (intro nxt_less) auto
  have ne: "nxt (length bs) j \<noteq> j" using j assms(2) by (intro nxt_neq) simp_all
  have old: "dd bs (nxt (length bs) j) \<le> dd bs j + 1" using assms(1) j by (simp add: chain_def)
  show "dd (bs[i := e]) (nxt (length (bs[i := e])) j) \<le> dd (bs[i := e]) j + 1"
    using j lt ne old assms(3-5) by (cases "j = i"; cases "nxt (length bs) j = i") auto
qed

lemma homes_update:
  assumes "homes bs" and "i < length bs"
    and "dib e \<noteq> 0 \<Longrightarrow> (hm (length bs) (bhash e) + (unat (dib e) - 1)) mod length bs = i"
  shows "homes (bs[i := e])"
  using assms by (auto simp: homes_def nth_list_update unat_eq_0)

lemma robin_ok_update:
  assumes "robin_ok bs" and "fits bs i e" and "dib (bs ! i) \<le> dib e"
  shows "robin_ok (bs[i := e])"
proof -
  note d = robin_okD [OF assms(1)]
  have "dd bs (nxt (length bs) i) \<le> unat (dib e) + 1"
    using d(1) assms(2,3) unfolding chain_def fits_def word_le_nat_alt
    by (meson add_mono_thms_linordered_semiring(3) le_trans)
  then have "chain (bs[i := e])"
    using assms(2) d by (intro chain_update) (auto simp: fits_def)
  moreover have "homes (bs[i := e])"
    using assms(2) d by (intro homes_update) (auto simp: fits_def)
  ultimately show ?thesis
    using assms(1) by (simp add: robin_ok_def)
qed

text \<open>Moving the entry on: its distance grows with the position, without wrapping.\<close>

lemma unat_inc_dib: "unat (x :: u16) < 2 ^ 16 - 1 \<Longrightarrow> unat (x + 1) = unat x + 1"
  by (simp add: unat_word_ariths)

lemma hm_step:
  assumes "(h + (d - 1)) mod n = i" and "d \<noteq> 0"
  shows "(h + d) mod n = nxt n i"
  using assms nxt_add [of n h "d - 1"] by simp

lemma fits_carry:
  assumes ok: "robin_ok bs" and fit: "fits bs i e" and le: "unat (dib e) \<le> dd bs i"
    and bound: "size (ents bs) + 1 < 2 ^ 16" and free: "size (ents bs) < length bs"
  shows "fits bs (nxt (length bs) i) (e\<lparr>dib := dib e + 1\<rparr>)"
proof -
  note d = robin_okD [OF ok]
  have i: "i < length bs" using fit by (simp add: fits_def)
  have pred: "unat (dib e) + 1 \<le> dd bs j + 1"
    if "j < length bs" "nxt (length bs) j = nxt (length bs) i" for j
  proof -
    have "j = i" using that i nxt_inj by blast
    then show ?thesis using le by simp
  qed
  have "unat (dib e) + 1 \<le> size (ents bs) + 1"
    by (rule dist_bound [OF d(1) nxt_less pred free]) (use d in auto)
  with bound have inc: "unat (dib e + 1) = unat (dib e) + 1" by (intro unat_inc_dib) simp
  then have nz: "dib e + 1 \<noteq> 0" by (metis add_is_0 one_neq_zero unat_0)
  have "(hm (length bs) (bhash e) + unat (dib e)) mod length bs = nxt (length bs) i"
    using fit by (intro hm_step) (auto simp: fits_def unat_eq_0)
  with inc nz pred d(4) show ?thesis
    by (simp add: fits_def)
qed

abbreviation pair :: "bucket \<Rightarrow> u64 \<times> bytes" where
  "pair b \<equiv> (bhash b, bitem b)"

lemma fits_stored: "robin_ok bs \<Longrightarrow> i < length bs \<Longrightarrow> dib (bs ! i) \<noteq> 0 \<Longrightarrow> fits bs i (bs ! i)"
  by (auto simp: fits_def robin_ok_def chain_def homes_def unat_eq_0)

lemma fits_update_self: "1 < length bs \<Longrightarrow> fits bs i b \<Longrightarrow> fits (bs[i := e]) i b"
  by (auto simp: fits_def nth_list_update nxt_neq)

lemma ents_displace:
  assumes "i < length bs" and "dib (bs ! i) \<noteq> 0" and "dib e \<noteq> 0"
  shows "add_mset (pair (bs ! i)) (ents (bs[i := e])) = add_mset (pair e) (ents bs)"
  using ents_update [OF assms(1), of e] assms(2,3) by (simp add: one_def)

lemma ents_place:
  assumes "i < length bs" and "dib (bs ! i) = 0" and "dib e \<noteq> 0"
  shows "ents (bs[i := e]) = add_mset (pair e) (ents bs)"
  using ents_update [OF assms(1), of e] assms(2,3) by (simp add: one_def)

lemma displace:
  assumes ok: "robin_ok bs" and fit: "fits bs i e" and full: "dib (bs ! i) \<noteq> 0"
    and lt: "dib (bs ! i) < dib e"
    and bound: "size (ents bs) + 1 < 2 ^ 16" and free: "size (ents bs) < length bs"
  shows "robin_ok (bs[i := e])"
    and "fits (bs[i := e]) (nxt (length bs) i) ((bs ! i)\<lparr>dib := dib (bs ! i) + 1\<rparr>)"
    and "add_mset (pair (bs ! i)) (ents (bs[i := e])) = add_mset (pair e) (ents bs)"
    and "size (ents (bs[i := e])) = size (ents bs)"
proof -
  have i: "i < length bs" and ne: "dib e \<noteq> 0" using fit by (auto simp: fits_def)
  show ok': "robin_ok (bs[i := e])" using ok fit lt by (intro robin_ok_update) auto
  show eq: "add_mset (pair (bs ! i)) (ents (bs[i := e])) = add_mset (pair e) (ents bs)"
    by (rule ents_displace [OF i full ne])
  then show sz: "size (ents (bs[i := e])) = size (ents bs)"
    by (metis size_add_mset add_right_cancel Suc_inject)
  have "fits (bs[i := e]) i (bs ! i)"
    using fits_stored [OF ok i full] robin_okD [OF ok] by (intro fits_update_self) auto
  then show "fits (bs[i := e]) (nxt (length bs) i) ((bs ! i)\<lparr>dib := dib (bs ! i) + 1\<rparr>)"
    using fits_carry [OF ok', of i "bs ! i"] lt i bound free sz by (simp add: word_less_nat_alt)
qed

lemma unat_next:
  fixes i :: u64
  assumes "robin_ok bs" and "unat i < length bs"
  shows "unat ((i + 1) AND (of_nat (length bs) - 1)) = nxt (length bs) (unat i)"
proof -
  obtain k where "length bs = 2 ^ k" "k < 64" using assms(1) by (auto simp: robin_ok_def)
  from unat_next_and_mask [OF this assms(2)] show ?thesis by (simp add: nxt_def)
qed

lemma place_loop_ok:
  assumes "robin_ok bs" and "fits bs (unat i) e"
    and "size (ents bs) + 1 < 2 ^ 16" and "size (ents bs) < length bs"
    and "msk = of_nat (length bs) - 1"
    and "dd bs ((unat i + z) mod length bs) = 0"
  shows "\<exists>bs'. place_loop msk bs e i = Some bs' \<and> robin_ok bs' \<and> length bs' = length bs \<and>
     ents bs' = add_mset (pair e) (ents bs)"
  using assms
proof (induction z arbitrary: bs e i)
  case (0 bs e i)
  then have i: "unat i < length bs" "dib e \<noteq> 0" by (auto simp: fits_def)
  with 0 have "dib (bs ! unat i) = 0" by (simp add: unat_eq_0)
  with 0 i show ?case
    by (subst place_loop.simps) (auto simp: urd_in intro: robin_ok_update ents_place)
next
  case (Suc z bs e i)
  note ok = Suc.prems(1) and fit = Suc.prems(2)
  let ?n = "length bs" and ?b = "bs ! unat i" and ?j = "(i + 1) AND msk"
  have i: "unat i < ?n" "dib e \<noteq> 0" using fit by (auto simp: fits_def)
  have j: "unat ?j = nxt ?n (unat i)" unfolding Suc.prems(5) by (rule unat_next [OF ok i(1)])
  have pos: "(unat ?j + z) mod ?n = (unat i + Suc z) mod ?n"
    by (simp add: j nxt_def mod_add_left_eq)
  show ?case
  proof (cases "dib ?b = 0")
    case True
    with Suc.prems i show ?thesis
      by (subst place_loop.simps) (auto simp: urd_in intro: robin_ok_update ents_place)
  next
    case full: False
    show ?thesis
    proof (cases "dib ?b < dib e")
      case True
      note dis = displace [OF ok fit full True Suc.prems(3,4)]
      have "dd (bs[unat i := e]) ((unat ?j + z) mod ?n) = 0"
        unfolding pos using Suc.prems(6) full i
        by (cases "(unat i + Suc z) mod ?n = unat i") (auto simp: unat_eq_0)
      with Suc.IH [OF dis(1), of ?j "?b\<lparr>dib := dib ?b + 1\<rparr>"] dis Suc.prems(3-5) j
      show ?thesis
        using full True i by (subst place_loop.simps) (auto simp: urd_in)
    next
      case False
      then have "unat (dib e) \<le> dd bs (unat i)" by (simp add: word_le_nat_alt not_less)
      note carry = fits_carry [OF ok fit this Suc.prems(3,4)]
      have "dd bs ((unat ?j + z) mod ?n) = 0" unfolding pos by (rule Suc.prems(6))
      with Suc.IH [OF ok, of ?j "e\<lparr>dib := dib e + 1\<rparr>"] carry Suc.prems(3-5) j
      show ?thesis
        using full False i by (subst place_loop.simps) (auto simp: urd_in)
    qed
  qed
qed

section \<open>Matching entries\<close>

definition kmatch :: "(bytes \<Rightarrow> bytes \<Rightarrow> int) option \<Rightarrow> u64 \<times> bytes \<Rightarrow> u64 \<times> bytes \<Rightarrow> bool" where
  "kmatch cmp x y \<longleftrightarrow>
     fst y = fst x \<and> (case cmp of None \<Rightarrow> True | Some f \<Rightarrow> f (snd x) (snd y) = 0)"

lemma key_match_pair: "key_match cmp h key b = kmatch cmp (h, key) (pair b)"
  by (simp add: key_match_def kmatch_def split: option.splits)

text \<open>No two of the entries match each other.\<close>

definition nomatch :: "(bytes \<Rightarrow> bytes \<Rightarrow> int) option \<Rightarrow> (u64 \<times> bytes) multiset \<Rightarrow> bool" where
  "nomatch cmp M \<longleftrightarrow> (\<forall>x y R. M = add_mset x (add_mset y R) \<longrightarrow> \<not> kmatch cmp x y)"

lemma nomatchD: "nomatch cmp (add_mset x M) \<Longrightarrow> y \<in># M \<Longrightarrow> \<not> kmatch cmp x y"
  by (metis nomatch_def mset_add)

lemma nomatch_mono:
  assumes "nomatch cmp (add_mset z M)"
  shows "nomatch cmp M"
  unfolding nomatch_def
proof (intro allI impI)
  fix x y R assume "M = add_mset x (add_mset y R)"
  then have "add_mset z M = add_mset x (add_mset y (add_mset z R))"
    by (simp add: add_mset_commute)
  then show "\<not> kmatch cmp x y" using assms unfolding nomatch_def by blast
qed

lemma stored_in_ents: "j < length bs \<Longrightarrow> dib (bs ! j) \<noteq> 0 \<Longrightarrow> pair (bs ! j) \<in># ents bs"
  by (auto simp: ents_in_conv unat_eq_0)

text \<open>At most one bucket matches a stored entry.\<close>

lemma ents_split:
  assumes "j < length bs" and "dib (bs ! j) \<noteq> 0"
  obtains R where "ents bs = add_mset (pair (bs ! j)) R"
    and "\<And>i. i < length bs \<Longrightarrow> i \<noteq> j \<Longrightarrow> dib (bs ! i) \<noteq> 0 \<Longrightarrow> pair (bs ! i) \<in># R"
    and "ents (bs[j := (bs ! j)\<lparr>dib := 0\<rparr>]) = R"
proof -
  let ?R = "ents (bs[j := (bs ! j)\<lparr>dib := 0\<rparr>])"
  have eq: "ents bs = add_mset (pair (bs ! j)) ?R"
    using ents_update [OF assms(1), of "(bs ! j)\<lparr>dib := 0\<rparr>"] assms(2) by (simp add: one_def)
  have "pair (bs ! i) \<in># ?R" if "i < length bs" "i \<noteq> j" "dib (bs ! i) \<noteq> 0" for i
    using stored_in_ents [of i "bs[j := (bs ! j)\<lparr>dib := 0\<rparr>]"] that by simp
  from that [OF eq this] show thesis by simp
qed

section \<open>Finding an entry\<close>

text \<open>On the way from the home cell of a stored entry to its bucket, no cell is free and each
  distance is at least that of a probe with the same home.\<close>

lemma reach:
  assumes ok: "robin_ok bs" and p: "p < length bs" "dib (bs ! p) \<noteq> 0"
    and t: "t < dd bs p"
  shows "t < dd bs ((hm (length bs) (bhash (bs ! p)) + t) mod length bs)"
proof -
  let ?n = "length bs" and ?h = "hm (length bs) (bhash (bs ! p))" and ?D = "dd bs p"
  note d = robin_okD [OF ok]
  have "?D - s \<le> dd bs ((?h + (?D - 1 - s)) mod ?n)" if "s < ?D" for s
    using that
  proof (induction s)
    case 0
    then show ?case using d(2) p by (auto simp: homes_def)
  next
    case (Suc s)
    have "nxt ?n ((?h + (?D - 1 - Suc s)) mod ?n) = (?h + (?D - 1 - s)) mod ?n"
      using Suc.prems by (simp only: nxt_add) (simp add: Suc_diff_Suc del: add_diff_assoc)
    moreover have "(?h + (?D - 1 - Suc s)) mod ?n < ?n" using d(4) by simp
    ultimately have "dd bs ((?h + (?D - 1 - s)) mod ?n) \<le>
        dd bs ((?h + (?D - 1 - Suc s)) mod ?n) + 1"
      using d(1) unfolding chain_def by metis
    with Suc show ?case by simp
  qed
  from this [of "?D - 1 - t"] t show ?thesis by auto
qed

lemma home_index:
  assumes "robin_ok bs"
  shows "unat (h AND (of_nat (length bs) - 1)) = hm (length bs) h"
proof -
  obtain k where "length bs = 2 ^ k" "k < 64" using assms by (auto simp: robin_ok_def)
  from unat_and_mask_exp [OF this] show ?thesis by (simp add: hm_def)
qed

lemma get_loop_found:
  assumes ok: "robin_ok bs" and p: "p < length bs" "dib (bs ! p) \<noteq> 0"
    and m: "key_match cmp h key (bs ! p)"
    and uniq: "\<And>j. j < length bs \<Longrightarrow> dib (bs ! j) \<noteq> 0 \<Longrightarrow> key_match cmp h key (bs ! j) \<Longrightarrow> j = p"
    and msk: "msk = of_nat (length bs) - 1"
  shows "s < dd bs p \<Longrightarrow> unat i = (hm (length bs) h + (dd bs p - 1 - s)) mod length bs \<Longrightarrow>
    \<exists>i'. get_loop cmp msk bs key h i = Some (Some i') \<and> unat i' = p"
proof (induction s arbitrary: i)
  case (0 i)
  have "bhash (bs ! p) = h" using m by (simp add: key_match_def)
  then have "unat i = p" using 0 robin_okD [OF ok] p by (auto simp: homes_def)
  then show ?case using p m by (subst get_loop.simps) (auto simp: urd_in)
next
  case (Suc s i)
  have h: "bhash (bs ! p) = h" using m by (simp add: key_match_def)
  have lt: "unat i < length bs" using Suc.prems robin_okD(4) [OF ok] by simp
  have "dd bs p - 1 - Suc s < dd bs (unat i)"
    using reach [OF ok p, of "dd bs p - 1 - Suc s"] Suc.prems h by auto
  then have full: "dib (bs ! unat i) \<noteq> 0" by (auto simp: unat_eq_0)
  show ?case
  proof (cases "key_match cmp h key (bs ! unat i)")
    case True
    then have "unat i = p" using uniq lt full by blast
    with True lt full show ?thesis by (subst get_loop.simps) (auto simp: urd_in)
  next
    case False
    let ?j = "(i + 1) AND msk"
    have "unat ?j = nxt (length bs) (unat i)" unfolding msk by (rule unat_next [OF ok lt])
    also have "\<dots> = (hm (length bs) h + (dd bs p - 1 - s)) mod length bs"
      unfolding Suc.prems(2) using Suc.prems(1)
      by (simp only: nxt_add) (simp add: Suc_diff_Suc del: add_diff_assoc)
    finally have "\<exists>i'. get_loop cmp msk bs key h ?j = Some (Some i') \<and> unat i' = p"
      using Suc.IH Suc.prems(1) by simp
    with False lt full show ?thesis by (subst get_loop.simps) (auto simp: urd_in)
  qed
qed

lemma get_loop_absent:
  assumes ok: "robin_ok bs" and msk: "msk = of_nat (length bs) - 1"
    and none: "\<And>j. j < length bs \<Longrightarrow> dib (bs ! j) \<noteq> 0 \<Longrightarrow> \<not> key_match cmp h key (bs ! j)"
  shows "unat i < length bs \<Longrightarrow> dd bs ((unat i + z) mod length bs) = 0 \<Longrightarrow>
    get_loop cmp msk bs key h i = Some None"
proof (induction z arbitrary: i)
  case (0 i)
  then show ?case by (subst get_loop.simps) (auto simp: urd_in unat_eq_0)
next
  case (Suc z i)
  let ?j = "(i + 1) AND msk"
  have j: "unat ?j = nxt (length bs) (unat i)" unfolding msk by (rule unat_next [OF ok Suc.prems(1)])
  have "dd bs ((unat ?j + z) mod length bs) = 0"
    using Suc.prems(2) by (simp add: j nxt_def mod_add_left_eq)
  moreover have "unat ?j < length bs" unfolding j using robin_okD(4) [OF ok] by simp
  ultimately have "get_loop cmp msk bs key h ?j = Some None" by (intro Suc.IH)
  with Suc.prems(1) none show ?case by (subst get_loop.simps) (auto simp: urd_in)
qed

section \<open>The set loop\<close>

lemma set_loop_fresh:
  assumes "robin_ok bs" and "fits bs (unat i) e"
    and "size (ents bs) + 1 < 2 ^ 16" and "size (ents bs) < length bs"
    and "msk = of_nat (length bs) - 1"
    and "nomatch cmp (add_mset (pair e) (ents bs))"
    and "dd bs ((unat i + z) mod length bs) = 0"
  shows "set_loop cmp msk bs e i = map_option (\<lambda>bs'. (bs', None)) (place_loop msk bs e i)"
  using assms
proof (induction z arbitrary: bs e i)
  case (0 bs e i)
  then have i: "unat i < length bs" by (auto simp: fits_def)
  with 0 have "dib (bs ! unat i) = 0" by (simp add: unat_eq_0)
  with i show ?case
    by (subst set_loop.simps, subst place_loop.simps) (simp add: urd_in)
next
  case (Suc z bs e i)
  note ok = Suc.prems(1) and fit = Suc.prems(2)
  let ?n = "length bs" and ?b = "bs ! unat i" and ?j = "(i + 1) AND msk"
  have i: "unat i < ?n" "dib e \<noteq> 0" using fit by (auto simp: fits_def)
  have j: "unat ?j = nxt ?n (unat i)" unfolding Suc.prems(5) by (rule unat_next [OF ok i(1)])
  have pos: "(unat ?j + z) mod ?n = (unat i + Suc z) mod ?n"
    by (simp add: j nxt_def mod_add_left_eq)
  show ?case
  proof (cases "dib ?b = 0")
    case True
    with i show ?thesis
      by (subst set_loop.simps, subst place_loop.simps) (simp add: urd_in)
  next
    case full: False
    have nm: "\<not> key_match cmp (bhash e) (bitem e) ?b"
      unfolding key_match_pair
      using Suc.prems(6) stored_in_ents [OF i(1) full] by (auto dest: nomatchD)
    show ?thesis
    proof (cases "dib ?b < dib e")
      case True
      note dis = displace [OF ok fit full True Suc.prems(3,4)]
      have "dd (bs[unat i := e]) ((unat ?j + z) mod ?n) = 0"
        unfolding pos using Suc.prems(7) full i
        by (cases "(unat i + Suc z) mod ?n = unat i") (auto simp: unat_eq_0)
      with Suc.IH [OF dis(1), of ?j "?b\<lparr>dib := dib ?b + 1\<rparr>"] dis Suc.prems(3-6) j
      have "set_loop cmp msk (bs[unat i := e]) (?b\<lparr>dib := dib ?b + 1\<rparr>) ?j =
          map_option (\<lambda>bs'. (bs', None)) (place_loop msk (bs[unat i := e]) (?b\<lparr>dib := dib ?b + 1\<rparr>) ?j)"
        by simp
      then show ?thesis
        using full True i nm by (subst set_loop.simps, subst place_loop.simps) (simp add: urd_in)
    next
      case False
      then have "unat (dib e) \<le> dd bs (unat i)" by (simp add: word_le_nat_alt not_less)
      note carry = fits_carry [OF ok fit this Suc.prems(3,4)]
      have "dd bs ((unat ?j + z) mod ?n) = 0" unfolding pos by (rule Suc.prems(7))
      with Suc.IH [OF ok, of ?j "e\<lparr>dib := dib e + 1\<rparr>"] carry Suc.prems(3-6) j
      have "set_loop cmp msk bs (e\<lparr>dib := dib e + 1\<rparr>) ?j =
          map_option (\<lambda>bs'. (bs', None)) (place_loop msk bs (e\<lparr>dib := dib e + 1\<rparr>) ?j)"
        by simp
      then show ?thesis
        using full False i nm by (subst set_loop.simps, subst place_loop.simps) (simp add: urd_in)
    qed
  qed
qed

lemma set_loop_found:
  assumes ok: "robin_ok bs" and p: "p < length bs" "dib (bs ! p) \<noteq> 0"
    and m: "key_match cmp h key (bs ! p)"
    and uniq: "\<And>j. j < length bs \<Longrightarrow> dib (bs ! j) \<noteq> 0 \<Longrightarrow> key_match cmp h key (bs ! j) \<Longrightarrow> j = p"
    and msk: "msk = of_nat (length bs) - 1"
  shows "s < dd bs p \<Longrightarrow> unat i = (hm (length bs) h + (dd bs p - 1 - s)) mod length bs \<Longrightarrow>
    bhash e = h \<Longrightarrow> bitem e = key \<Longrightarrow> unat (dib e) = dd bs p - s \<Longrightarrow>
    set_loop cmp msk bs e i = Some (bs[p := (bs ! p)\<lparr>bitem := key\<rparr>], Some (bitem (bs ! p)))"
proof (induction s arbitrary: i e)
  case (0 i e)
  have "bhash (bs ! p) = h" using m by (simp add: key_match_def)
  then have "unat i = p" using 0 robin_okD [OF ok] p by (auto simp: homes_def)
  then show ?case using p m 0 by (subst set_loop.simps) (auto simp: urd_in)
next
  case (Suc s i e)
  have h: "bhash (bs ! p) = h" using m by (simp add: key_match_def)
  have lt: "unat i < length bs" using Suc.prems robin_okD(4) [OF ok] by simp
  have dist: "dd bs p - 1 - Suc s < dd bs (unat i)"
    using reach [OF ok p, of "dd bs p - 1 - Suc s"] Suc.prems h by auto
  then have full: "dib (bs ! unat i) \<noteq> 0" by (auto simp: unat_eq_0)
  show ?case
  proof (cases "key_match cmp h key (bs ! unat i)")
    case True
    then have "unat i = p" using uniq lt full by blast
    with True lt full Suc.prems(3,4) show ?thesis by (subst set_loop.simps) (auto simp: urd_in)
  next
    case False
    let ?j = "(i + 1) AND msk" and ?e = "e\<lparr>dib := dib e + 1\<rparr>"
    have "unat (dib e) \<le> dd bs (unat i)" using dist Suc.prems(1,5) by simp
    then have keep: "\<not> dib (bs ! unat i) < dib e" by (simp add: word_less_nat_alt)
    have "dd bs p < 2 ^ 16" using unsigned_less [of "dib (bs ! p)"] by simp
    then have inc: "unat (dib ?e) = dd bs p - s"
      using Suc.prems(1,5) unat_inc_dib [of "dib e"] by simp
    have "unat ?j = nxt (length bs) (unat i)" unfolding msk by (rule unat_next [OF ok lt])
    also have "\<dots> = (hm (length bs) h + (dd bs p - 1 - s)) mod length bs"
      unfolding Suc.prems(2) using Suc.prems(1)
      by (simp only: nxt_add) (simp add: Suc_diff_Suc del: add_diff_assoc)
    finally have "set_loop cmp msk bs ?e ?j =
        Some (bs[p := (bs ! p)\<lparr>bitem := key\<rparr>], Some (bitem (bs ! p)))"
      using Suc.IH [of ?j ?e] Suc.prems inc by simp
    with False lt full keep Suc.prems(3,4) show ?thesis
      by (subst set_loop.simps) (auto simp: urd_in)
  qed
qed

section \<open>Backward shift\<close>

text \<open>The array with a hole at \<open>q\<close>: the invariant holds but for the successor of \<open>q\<close>, which
  may be two above the predecessor of \<open>q\<close>.\<close>

definition hole :: "bucket list \<Rightarrow> nat \<Rightarrow> bucket list" where
  "hole bs q = bs[q := (bs ! q)\<lparr>dib := 0\<rparr>]"

definition hole_ok :: "bucket list \<Rightarrow> nat \<Rightarrow> bool" where
  "hole_ok bs q \<longleftrightarrow> (\<exists>k. length bs = 2 ^ k \<and> k < 64) \<and> 1 < length bs \<and> q < length bs \<and>
     homes (hole bs q) \<and>
     (\<forall>j < length bs. j \<noteq> q \<longrightarrow> dd (hole bs q) (nxt (length bs) j) \<le> dd (hole bs q) j + 1) \<and>
     (\<forall>j < length bs. nxt (length bs) j = q \<longrightarrow>
        dd (hole bs q) (nxt (length bs) q) \<le> dd (hole bs q) j + 2)"

lemma length_hole [simp]: "length (hole bs q) = length bs"
  by (simp add: hole_def)

lemma hole_nth: "j < length bs \<Longrightarrow> hole bs q ! j = (if j = q then (bs ! q)\<lparr>dib := 0\<rparr> else bs ! j)"
  by (simp add: hole_def)

lemma hole_ok_start:
  assumes "robin_ok bs" and "q < length bs" and "dib (bs ! q) \<noteq> 0"
  shows "hole_ok bs q"
proof -
  note d = robin_okD [OF assms(1)]
  have "homes (hole bs q)" using d(2) assms(2) unfolding hole_def by (intro homes_update) simp_all
  moreover have "dd (hole bs q) (nxt (length bs) j) \<le> dd (hole bs q) j + 1"
    if "j < length bs" "j \<noteq> q" for j
    using that d(1,4) by (auto simp: hole_nth chain_def)
  moreover have "dd (hole bs q) (nxt (length bs) q) \<le> dd (hole bs q) j + 2"
    if "j < length bs" "nxt (length bs) j = q" for j
  proof -
    have "dd bs (nxt (length bs) j) \<le> dd bs j + 1" "dd bs (nxt (length bs) q) \<le> dd bs q + 1"
      using d(1) assms(2) that(1) by (auto simp: chain_def)
    moreover have "j \<noteq> q" using that nxt_neq [OF d(3) that(1)] by auto
    moreover have "nxt (length bs) q \<noteq> q" using nxt_neq [OF d(3) assms(2)] .
    ultimately show ?thesis using that assms(2) d(4) by (simp add: hole_nth)
  qed
  ultimately show ?thesis using assms by (auto simp: hole_ok_def robin_ok_def)
qed

lemma hole_ok_done:
  assumes "hole_ok bs q" and "dib (bs ! nxt (length bs) q) \<le> 1"
  shows "robin_ok (hole bs q)"
proof -
  have n: "1 < length bs" "q < length bs" using assms(1) by (auto simp: hole_ok_def)
  have lt: "nxt (length bs) q < length bs" by (rule nxt_less) (use n in linarith)
  have ne: "nxt (length bs) q \<noteq> q" using nxt_neq [OF n] .
  have "dd (hole bs q) (nxt (length bs) j) \<le> dd (hole bs q) j + 1" if "j < length bs" for j
  proof (cases "j = q")
    case True
    then show ?thesis using assms(2) ne lt n by (simp add: hole_nth word_le_nat_alt)
  next
    case False
    then show ?thesis using assms(1) that by (simp add: hole_ok_def)
  qed
  then have "chain (hole bs q)" by (simp add: chain_def)
  with assms(1) show ?thesis by (simp add: hole_ok_def robin_ok_def)
qed

lemma hole_ok_step:
  assumes hk: "hole_ok bs q" and big: "1 < dib (bs ! nxt (length bs) q)"
  defines "b \<equiv> bs ! nxt (length bs) q"
  defines "bs' \<equiv> bs[q := b\<lparr>dib := dib b - 1\<rparr>]"
  shows "hole_ok bs' (nxt (length bs) q)"
    and "ents (hole bs' (nxt (length bs) q)) = ents (hole bs q)"
proof -
  let ?n = "length bs" and ?r = "nxt (length bs) q"
  have n: "1 < ?n" "q < ?n" "0 < ?n" and hom: "homes (hole bs q)"
    using hk by (auto simp: hole_ok_def)
  have r: "?r < ?n" "?r \<noteq> q" using n nxt_neq by auto
  have ub: "unat (dib b - 1) = unat (dib b) - 1" and b1: "1 < unat (dib b)"
    using big unfolding b_def by (auto simp: word_less_nat_alt unat_sub word_le_nat_alt)
  have nz: "dib b \<noteq> 0" "dib b - 1 \<noteq> 0" using b1 ub by auto
  have len: "length bs' = ?n" by (simp add: bs'_def)
  have h: "hole bs' ?r = (hole bs q)[q := b\<lparr>dib := dib b - 1\<rparr>, ?r := b\<lparr>dib := 0\<rparr>]"
    using r n by (auto simp: hole_def bs'_def b_def intro!: nth_equalityI simp: nth_list_update)
  have hb: "hole bs q ! ?r = b" using r by (simp add: hole_nth b_def)
  have old: "dd (hole bs q) (nxt ?n j) \<le> dd (hole bs q) j + 1" if "j < ?n" "j \<noteq> q" for j
    using hk that by (simp add: hole_ok_def)
  have home_b: "(hm ?n (bhash b) + (unat (dib b) - 1)) mod ?n = ?r"
    using hom r b1 unfolding homes_def by (metis hb length_hole less_nat_zero_code)
  then have "nxt ?n ((hm ?n (bhash b) + (unat (dib b) - 2)) mod ?n) = nxt ?n q"
    using b1 by (simp only: nxt_add) (simp add: Suc_diff_Suc numeral_2_eq_2 del: add_diff_assoc)
  then have home': "(hm ?n (bhash b) + (unat (dib b) - 2)) mod ?n = q"
    using nxt_inj n by simp
  have "homes (hole bs' ?r)"
    unfolding h using hom n r b1 home' ub
    by (intro homes_update) (auto simp: numeral_2_eq_2)
  moreover have "dd (hole bs' ?r) (nxt ?n j) \<le> dd (hole bs' ?r) j + 1"
    if j: "j < ?n" "j \<noteq> ?r" for j
  proof (cases "nxt ?n j = q")
    case True
    have "dd (hole bs q) ?r \<le> dd (hole bs q) j + 2"
      using hk True j by (simp add: hole_ok_def)
    moreover have "j \<noteq> q" using True nxt_neq [OF n(1) j(1)] by auto
    ultimately show ?thesis using True j r ub hb n by (simp add: h)
  next
    case False
    have "nxt ?n j < ?n" using n by simp
    with False old [OF j(1)] j r show ?thesis by (cases "j = q") (auto simp: h nth_list_update)
  qed
  moreover have "dd (hole bs' ?r) (nxt ?n ?r) \<le> dd (hole bs' ?r) j + 2"
    if j: "j < ?n" "nxt ?n j = ?r" for j
  proof -
    have "j = q" using j n nxt_inj by auto
    moreover have "dd (hole bs q) (nxt ?n ?r) \<le> unat (dib b) + 1"
      using old [OF r] hb by simp
    moreover have "nxt ?n ?r \<noteq> ?r" using nxt_neq [OF n(1) r(1)] .
    moreover have "dd (hole bs' ?r) (nxt ?n ?r) \<le> unat (dib b) + 1"
      using calculation r n ub by (cases "nxt ?n ?r = q") (auto simp: h nth_list_update)
    ultimately show ?thesis using r n ub b1 by (simp add: h)
  qed
  ultimately show "hole_ok bs' ?r" using hk r len by (simp add: hole_ok_def)
  have "add_mset (pair b) (ents (hole bs' ?r)) = ents ((hole bs q)[q := b\<lparr>dib := dib b - 1\<rparr>])"
    using ents_update [of ?r "(hole bs q)[q := b\<lparr>dib := dib b - 1\<rparr>]" "b\<lparr>dib := 0\<rparr>"] r hb nz
    by (simp add: h one_def)
  also have "\<dots> = add_mset (pair b) (ents (hole bs q))"
    using ents_update [of q "hole bs q" "b\<lparr>dib := dib b - 1\<rparr>"] n nz
    by (simp add: one_def hole_nth)
  finally show "ents (hole bs' ?r) = ents (hole bs q)" by simp
qed

lemma shift_loop_ok:
  assumes "hole_ok bs (unat q)" and "msk = of_nat (length bs) - 1"
    and "Suc z < length bs" and "dd bs ((unat q + Suc z) mod length bs) = 0"
  shows "\<exists>bs'. shift_loop msk bs q = Some bs' \<and> robin_ok bs' \<and> length bs' = length bs \<and>
     ents bs' = ents (hole bs (unat q))"
  using assms
proof (induction z arbitrary: bs q)
  case (0 bs q)
  have n: "unat q < length bs" "0 < length bs" using 0(1) by (auto simp: hole_ok_def)
  have r: "unat ((q + 1) AND msk) = nxt (length bs) (unat q)"
    using 0(1,2) unat_next_and_mask n(1) by (auto simp: hole_ok_def nxt_def)
  have "dib (bs ! nxt (length bs) (unat q)) \<le> 1" using 0(4) by (simp add: nxt_def unat_eq_0)
  with 0 n r show ?case
    by (subst shift_loop.simps) (auto simp: urd_in hole_ok_done simp flip: hole_def)
next
  case (Suc z bs q)
  note hk = Suc.prems(1)
  let ?n = "length bs"
  have n: "unat q < ?n" "0 < ?n" "1 < ?n" using hk by (auto simp: hole_ok_def)
  let ?r = "(q + 1) AND msk"
  have r: "unat ?r = nxt ?n (unat q)"
    using hk Suc.prems(2) unat_next_and_mask n(1) by (auto simp: hole_ok_def nxt_def)
  let ?b = "bs ! nxt ?n (unat q)"
  let ?bs = "bs[unat q := ?b\<lparr>dib := dib ?b - 1\<rparr>]"
  show ?case
  proof (cases "dib ?b \<le> 1")
    case True
    with hk n r show ?thesis
      by (subst shift_loop.simps) (auto simp: urd_in hole_ok_done simp flip: hole_def)
  next
    case False
    then have big: "1 < dib ?b" by simp
    note step = hole_ok_step [OF hk big]
    have "(unat q + Suc (Suc z)) mod ?n \<noteq> unat q"
      using ring_inj [of "unat q" "Suc (Suc z)" ?n 0] Suc.prems(3) n by auto
    moreover have "(nxt ?n (unat q) + Suc z) mod ?n = (unat q + Suc (Suc z)) mod ?n"
      using mod_add_left_eq [of "Suc (unat q)" ?n "Suc z"] by (simp add: nxt_def)
    ultimately have "dd ?bs ((unat ?r + Suc z) mod length ?bs) = 0"
      using Suc.prems(4) n r by simp
    with Suc.IH [of ?bs ?r] step Suc.prems(2,3) r
    have "\<exists>bs'. shift_loop msk ?bs ?r = Some bs' \<and> robin_ok bs' \<and> length bs' = ?n \<and>
        ents bs' = ents (hole bs (unat q))" by simp
    with False n r show ?thesis by (subst shift_loop.simps) (simp add: urd_in)
  qed
qed

section \<open>Rehashing\<close>

lemma hm_less [simp]: "0 < n \<Longrightarrow> hm n h < n"
  by (simp add: hm_def)

lemma fits_first: "robin_ok bs \<Longrightarrow> dib e = 1 \<Longrightarrow> fits bs (hm (length bs) (bhash e)) e"
  by (frule robin_okD(4)) (simp add: fits_def hm_def)

lemma place_first_ok:
  assumes ok: "robin_ok bs" and d: "dib e = 1"
    and room: "size (ents bs) + 1 < 2 ^ 16" "size (ents bs) < length bs"
    and msk: "msk = of_nat (length bs) - 1"
  shows "\<exists>bs'. place_loop msk bs e (bhash e AND msk) = Some bs' \<and> robin_ok bs' \<and>
     length bs' = length bs \<and> ents bs' = add_mset (pair e) (ents bs)"
proof -
  obtain y where "y < length bs" "dd bs y = 0" using free_exists [OF room(2)] by blast
  moreover obtain z where "(hm (length bs) (bhash e) + z) mod length bs = y"
    using ring_reach [OF hm_less \<open>y < length bs\<close>] robin_okD(4) [OF ok] by blast
  ultimately show ?thesis
    using ok d room msk fits_first [OF ok d] home_index [OF ok]
    by (intro place_loop_ok [where z = z]) simp_all
qed

lemma rehash_ok:
  assumes "robin_ok bs" and "size (ents es) + size (ents bs) < 2 ^ 16"
    and "size (ents es) + size (ents bs) < length bs" and "msk = of_nat (length bs) - 1"
  shows "\<exists>bs'. rehash msk es bs = Some bs' \<and> robin_ok bs' \<and> length bs' = length bs \<and>
     ents bs' = ents es + ents bs"
  using assms
proof (induction es arbitrary: bs)
  case Nil
  then show ?case by simp
next
  case (Cons e es)
  show ?case
  proof (cases "dib e = 0")
    case True
    with Cons show ?thesis by (simp add: one_def)
  next
    case False
    with Cons.prems have room: "size (ents bs) + 1 < 2 ^ 16" "size (ents bs) < length bs"
      by (simp_all add: one_def)
    obtain bs1 where bs1: "place_loop msk bs (e\<lparr>dib := 1\<rparr>) (bhash e AND msk) = Some bs1"
      "robin_ok bs1" "length bs1 = length bs" "ents bs1 = add_mset (pair e) (ents bs)"
      using place_first_ok [OF Cons.prems(1) _ room Cons.prems(4), of "e\<lparr>dib := 1\<rparr>"] by auto
    have "\<exists>bs'. rehash msk es bs1 = Some bs' \<and> robin_ok bs' \<and> length bs' = length bs1 \<and>
        ents bs' = ents es + ents bs1"
      using Cons.prems False bs1 by (intro Cons.IH) (simp_all add: one_def)
    with False bs1 show ?thesis by (simp add: one_def)
  qed
qed

section \<open>Well-formed maps\<close>

definition wf_map :: "hashmap \<Rightarrow> bool" where
  "wf_map m \<longleftrightarrow> robin_ok (buckets m) \<and> length (buckets m) = nbuckets m \<and>
     mask m = of_nat (nbuckets m) - 1 \<and> (\<exists>k. cap m = 2 ^ k) \<and> 16 \<le> cap m \<and> cap m \<le> nbuckets m \<and>
     count m = size (ents (buckets m)) \<and> count m < nbuckets m \<and>
     growat m < nbuckets m \<and> shrinkat m = shrinkat_of (nbuckets m) \<and>
     1 \<le> growpower m \<and> growpower m \<le> 16 \<and> bucketsz m = align_ptr (8 + elsize m) \<and>
     bucketsz m * nbuckets m < 2 ^ 64 \<and>
     nomatch (compare_fn m) (ents (buckets m)) \<and>
     (\<forall>x \<in># ents (buckets m). fst x = get_hash m (snd x) \<and> length (snd x) = elsize m)"

text \<open>Equality of keys as the callbacks decide it, and what a client promises of them.\<close>

definition eqv :: "hashmap \<Rightarrow> bytes \<Rightarrow> bytes \<Rightarrow> bool" where
  "eqv m x y \<longleftrightarrow> kmatch (compare_fn m) (get_hash m x, x) (get_hash m y, y)"

definition callbacks_ok :: "hashmap \<Rightarrow> bool" where
  "callbacks_ok m \<longleftrightarrow>
     (\<forall>x. length x = elsize m \<longrightarrow> eqv m x x) \<and>
     (\<forall>x y. length x = elsize m \<longrightarrow> length y = elsize m \<longrightarrow> eqv m x y \<longrightarrow> eqv m y x) \<and>
     (\<forall>x y z. length x = elsize m \<longrightarrow> length y = elsize m \<longrightarrow> length z = elsize m \<longrightarrow>
        eqv m x y \<longrightarrow> eqv m y z \<longrightarrow> eqv m x z)"

text \<open>The reference lookup: scan all buckets in order.\<close>

definition alpha :: "hashmap \<Rightarrow> bytes \<Rightarrow> bytes option" where
  "alpha m k = map_option bitem
     (List.find (\<lambda>b. dib b \<noteq> 0 \<and> key_match (compare_fn m) (get_hash m k) k b)
       (take (nbuckets m) (buckets m)))"

lemma callbacks_sym:
  "callbacks_ok m \<Longrightarrow> length x = elsize m \<Longrightarrow> length y = elsize m \<Longrightarrow> eqv m x y \<Longrightarrow> eqv m y x"
  unfolding callbacks_ok_def by blast

lemma callbacks_trans:
  "callbacks_ok m \<Longrightarrow> length x = elsize m \<Longrightarrow> length y = elsize m \<Longrightarrow> length z = elsize m \<Longrightarrow>
   eqv m x y \<Longrightarrow> eqv m y z \<Longrightarrow> eqv m x z"
  unfolding callbacks_ok_def by blast

lemma stored_props:
  assumes "wf_map m" and "j < nbuckets m" and "dib (buckets m ! j) \<noteq> 0"
  shows "bhash (buckets m ! j) = get_hash m (bitem (buckets m ! j))"
    and "length (bitem (buckets m ! j)) = elsize m"
    and "key_match (compare_fn m) (get_hash m k) k (buckets m ! j) \<longleftrightarrow> eqv m k (bitem (buckets m ! j))"
proof -
  have "pair (buckets m ! j) \<in># ents (buckets m)"
    using assms by (intro stored_in_ents) (auto simp: wf_map_def)
  then show h: "bhash (buckets m ! j) = get_hash m (bitem (buckets m ! j))"
    and "length (bitem (buckets m ! j)) = elsize m"
    using assms(1) by (auto simp: wf_map_def)
  show "key_match (compare_fn m) (get_hash m k) k (buckets m ! j) \<longleftrightarrow> eqv m k (bitem (buckets m ! j))"
    unfolding key_match_pair eqv_def h by (rule refl)
qed

lemma match_unique:
  assumes "wf_map m" and "callbacks_ok m" and "length k = elsize m"
    and "i < nbuckets m" "dib (buckets m ! i) \<noteq> 0" "eqv m k (bitem (buckets m ! i))"
    and "j < nbuckets m" "dib (buckets m ! j) \<noteq> 0" "eqv m k (bitem (buckets m ! j))"
  shows "i = j"
proof (rule ccontr)
  assume "i \<noteq> j"
  let ?x = "bitem (buckets m ! i)" and ?y = "bitem (buckets m ! j)"
  note pi = stored_props [OF assms(1,4,5)] and pj = stored_props [OF assms(1,7,8)]
  have "eqv m ?x k" by (rule callbacks_sym [OF assms(2,3) pi(2) assms(6)])
  then have "eqv m ?x ?y"
    by (rule callbacks_trans [OF assms(2) pi(2) assms(3) pj(2) _ assms(9)])
  then have km: "kmatch (compare_fn m) (pair (buckets m ! i)) (pair (buckets m ! j))"
    unfolding eqv_def pi(1) pj(1) .
  have len: "i < length (buckets m)" "j < length (buckets m)"
    using assms(1,4,7) by (auto simp: wf_map_def)
  obtain R where R: "ents (buckets m) = add_mset (pair (buckets m ! i)) R"
    and "pair (buckets m ! j) \<in># R"
    using ents_split [OF len(1) assms(5)] len(2) assms(8) \<open>i \<noteq> j\<close> by metis
  moreover have "nomatch (compare_fn m) (ents (buckets m))" using assms(1) by (simp add: wf_map_def)
  ultimately show False using nomatchD km by metis
qed

lemma alpha_Some:
  assumes "wf_map m" and "callbacks_ok m" and "length k = elsize m"
    and "p < nbuckets m" and "dib (buckets m ! p) \<noteq> 0" and "eqv m k (bitem (buckets m ! p))"
  shows "alpha m k = Some (bitem (buckets m ! p))"
proof -
  have len: "length (buckets m) = nbuckets m" using assms(1) by (simp add: wf_map_def)
  have hit: "key_match (compare_fn m) (get_hash m k) k (buckets m ! p)"
    using stored_props(3) [OF assms(1,4,5)] assms(6) by blast
  have "\<not> (dib (buckets m ! q) \<noteq> 0 \<and> key_match (compare_fn m) (get_hash m k) k (buckets m ! q))"
    if "q < p" for q
  proof
    assume q: "dib (buckets m ! q) \<noteq> 0 \<and> key_match (compare_fn m) (get_hash m k) k (buckets m ! q)"
    have lt: "q < nbuckets m" using that assms(4) by simp
    have "eqv m k (bitem (buckets m ! q))"
      using stored_props(3) [OF assms(1) lt] q by blast
    then have "q = p" using match_unique [OF assms(1-3) lt _ _ assms(4-6)] q by blast
    then show False using that by simp
  qed
  then have "List.find (\<lambda>b. dib b \<noteq> 0 \<and> key_match (compare_fn m) (get_hash m k) k b) (buckets m)
      = Some (buckets m ! p)"
    unfolding find_Some_iff using hit assms(4,5) len by (intro exI [of _ p]) simp
  then show ?thesis by (simp add: alpha_def len)
qed

lemma alpha_None:
  assumes "wf_map m"
    and "\<And>j. j < nbuckets m \<Longrightarrow> dib (buckets m ! j) \<noteq> 0 \<Longrightarrow> \<not> eqv m k (bitem (buckets m ! j))"
  shows "alpha m k = None"
proof -
  have len: "length (buckets m) = nbuckets m" using assms(1) by (simp add: wf_map_def)
  then show ?thesis
    using assms(2) stored_props(3) [OF assms(1)]
    by (auto simp: alpha_def find_None_iff in_set_conv_nth)
qed

text \<open>The two cases every operation distinguishes.\<close>

lemma alpha_cases:
  assumes "wf_map m" and "callbacks_ok m" and "length k = elsize m"
  obtains (found) p where "p < nbuckets m" and "dib (buckets m ! p) \<noteq> 0"
      and "eqv m k (bitem (buckets m ! p))" and "alpha m k = Some (bitem (buckets m ! p))"
    | (absent) "alpha m k = None"
      and "\<And>j. j < nbuckets m \<Longrightarrow> dib (buckets m ! j) \<noteq> 0 \<Longrightarrow> \<not> eqv m k (bitem (buckets m ! j))"
  using alpha_Some [OF assms] alpha_None [OF assms(1), of k] by metis

text \<open>\<open>alpha\<close> in terms of the stored entries.\<close>

lemma alpha_ents:
  assumes "wf_map m" and "callbacks_ok m" and "length k = elsize m"
  shows "alpha m k = Some it \<longleftrightarrow> (\<exists>h. (h, it) \<in># ents (buckets m)) \<and> eqv m k it"
proof -
  have len: "length (buckets m) = nbuckets m" using assms(1) by (simp add: wf_map_def)
  have *: "(\<exists>h. (h, it) \<in># ents (buckets m)) \<longleftrightarrow>
      (\<exists>j < nbuckets m. dib (buckets m ! j) \<noteq> 0 \<and> it = bitem (buckets m ! j))"
    by (auto simp: ents_in_conv len unat_eq_0)
  show ?thesis
    unfolding *
  proof (rule alpha_cases [OF assms])
    fix p assume "p < nbuckets m" "dib (buckets m ! p) \<noteq> 0" "eqv m k (bitem (buckets m ! p))"
      "alpha m k = Some (bitem (buckets m ! p))"
    then show "alpha m k = Some it \<longleftrightarrow>
        (\<exists>j<nbuckets m. dib (buckets m ! j) \<noteq> 0 \<and> it = bitem (buckets m ! j)) \<and> eqv m k it"
      using alpha_Some [OF assms] by (metis option.inject)
  next
    assume "alpha m k = None"
      "\<And>j. j < nbuckets m \<Longrightarrow> dib (buckets m ! j) \<noteq> 0 \<Longrightarrow> \<not> eqv m k (bitem (buckets m ! j))"
    then show "alpha m k = Some it \<longleftrightarrow>
        (\<exists>j<nbuckets m. dib (buckets m ! j) \<noteq> 0 \<and> it = bitem (buckets m ! j)) \<and> eqv m k it"
      by auto
  qed
qed

section \<open>Creation and resizing\<close>

lemma align_ptr_ge: "n \<le> align_ptr n"
proof (induction n rule: align_ptr.induct)
  case (1 n)
  then show ?case by (subst align_ptr.simps) (auto dest: Suc_leD)
qed

lemma next_cap_pow:
  assumes "c \<le> 2 ^ 63" and "a \<le> 63"
  shows "\<exists>j. next_cap (2 ^ a) c = Some (2 ^ j) \<and> a \<le> j \<and> j \<le> 63 \<and> c \<le> 2 ^ j \<and>
     (j = a \<or> 2 ^ (j - 1) < c)"
  using assms(2)
proof (induction "63 - a" arbitrary: a)
  case 0
  then have "a = 63" by simp
  with assms(1) show ?case by (subst next_cap.simps) (auto intro!: exI [of _ 63])
next
  case (Suc d)
  show ?case
  proof (cases "(2 :: nat) ^ a < c")
    case True
    have a: "Suc a \<le> 63" using Suc.hyps(2) by simp
    then have "(2 :: nat) ^ Suc a \<le> 2 ^ 63" by (rule power_increasing) simp
    then have "(2 :: nat) ^ a * 2 mod 2 ^ 64 = 2 ^ Suc a" by simp
    with True have "next_cap (2 ^ a) c = next_cap (2 ^ Suc a) c"
      by (subst next_cap.simps) simp
    moreover have "d = 63 - Suc a" using Suc.hyps(2) by simp
    from Suc.hyps(1) [OF this a]
    obtain j where "next_cap (2 ^ Suc a) c = Some (2 ^ j)" "Suc a \<le> j" "j \<le> 63" "c \<le> 2 ^ j"
      "j = Suc a \<or> 2 ^ (j - 1) < c"
      by blast
    ultimately show ?thesis using True by (intro exI [of _ j]) auto
  next
    case False
    then show ?thesis using Suc.prems by (subst next_cap.simps) (auto intro: exI [of _ a])
  qed
qed

lemma next_cap_exact:
  assumes "4 \<le> k" and "k \<le> 63"
  shows "next_cap 16 (2 ^ k) = Some (2 ^ k)"
proof -
  obtain j where j: "next_cap (2 ^ 4) (2 ^ k) = Some (2 ^ j)" "4 \<le> j" "(2::nat) ^ k \<le> 2 ^ j"
    "j = 4 \<or> (2::nat) ^ (j - 1) < 2 ^ k"
  proof -
    have "(2::nat) ^ k \<le> 2 ^ 63" using assms(2) by (rule power_increasing) simp
    from next_cap_pow [OF this, of 4] that show thesis by auto
  qed
  have "k \<le> j" using j(3) by simp
  moreover have "j \<le> k" using j(2,4) assms(1) by auto
  ultimately show ?thesis using j(1) by simp
qed

lemma robin_ok_zero:
  assumes "n = 2 ^ k" and "k < 64" and "1 < n"
  shows "robin_ok (replicate n (zero_bucket sz))"
proof -
  have "dd (replicate n (zero_bucket sz)) j = 0" if "j < n" for j
    using that by (simp add: zero_bucket_def)
  then show ?thesis using assms by (auto simp: robin_ok_def chain_def homes_def)
qed

lemma ents_zero [simp]: "ents (replicate n (zero_bucket sz)) = {#}"
  by (simp add: ents_def zero_bucket_def)

lemma alloc_buckets_eq:
  "bsz * nb < 2 ^ 64 \<Longrightarrow> 0 < bsz \<Longrightarrow> alloc_buckets bsz nb sz = replicate nb (zero_bucket sz)"
  by (simp add: alloc_buckets_def)

lemma percent_GROW_AT: "percent (clamp_load_factor GROW_AT GROW_AT) = 60"
  by (simp add: clamp_load_factor_def GROW_AT_def dbl_050_def dbl_095_def round_even_def)

lemma growat_of_60: "growat_of nb 60 = nat (int nb * 5404319552844595 div 2 ^ 53)"
  by (simp add: growat_of_def round_even_def)

lemma growat_60_less: "0 < nb \<Longrightarrow> growat_of nb 60 < nb"
  unfolding growat_of_60 by (simp add: nat_less_iff)

lemma shrinkat_bound: "16 \<le> nb \<Longrightarrow> 2 * shrinkat_of nb < nb"
  unfolding shrinkat_of_def by (simp add: nat_mult_distrib)

lemma new_ok:
  assumes "c \<le> 2 ^ 63" and "align_ptr (8 + sz) * (2 * c + 16) < 2 ^ 64"
  shows "\<exists>m. hashmap_new (True, True) sz c s0 s1 hash cmp elfree = Some (Some m) \<and> wf_map m \<and>
     ents (buckets m) = {#} \<and> elsize m = sz \<and> compare_fn m = cmp \<and> hash_fn m = hash \<and>
     seed0 m = s0 \<and> seed1 m = s1 \<and> c \<le> nbuckets m \<and> nbuckets m \<le> 2 * c + 16"
proof -
  define bsz where "bsz = align_ptr (8 + sz)"
  have b0: "0 < bsz" using align_ptr_ge [of "8 + sz"] by (simp add: bsz_def)
  obtain j where j: "(if c < 16 then Some 16 else next_cap 16 c) = Some (2 ^ j)"
    "4 \<le> j" "j \<le> 63" "c \<le> 2 ^ j" "(2::nat) ^ j \<le> 2 * c + 16"
  proof (cases "c < 16")
    case True
    then show thesis using that [of 4] by simp
  next
    case False
    obtain j where j: "next_cap (2 ^ 4) c = Some (2 ^ j)" "4 \<le> j" "j \<le> 63" "c \<le> 2 ^ j"
      "j = 4 \<or> 2 ^ (j - 1) < c"
      using next_cap_pow [OF assms(1), of 4] by auto
    have "(2::nat) ^ j = 2 * 2 ^ (j - 1)" using j(2) by (simp flip: power_Suc)
    then have "(2::nat) ^ j \<le> 2 * c + 16" using j(5) by auto
    with j False show thesis using that [of j] by simp
  qed
  define nb :: nat where "nb = 2 ^ j"
  have nb: "16 \<le> nb" using power_increasing [OF j(2), of "2::nat"] by (simp add: nb_def)
  have sz: "bsz * nb < 2 ^ 64"
    using assms(2) j(5) le_less_trans [OF mult_le_mono2 [of nb "2 * c + 16" bsz]]
    by (simp add: bsz_def nb_def)
  have "robin_ok (replicate nb (zero_bucket sz))"
    by (rule robin_ok_zero [of _ j]) (use j nb in \<open>auto simp: nb_def\<close>)
  moreover have "\<exists>k. nb = 2 ^ k" by (auto simp: nb_def)
  ultimately show ?thesis
    using j nb sz b0 growat_60_less [of nb]
    by (auto simp: hashmap_new_def hashmap_new_with_allocator_def Let_def wf_map_def percent_GROW_AT
        alloc_buckets_eq nomatch_def simp flip: bsz_def nb_def)
qed

text \<open>The fields that only creation sets.\<close>

definition same_config :: "hashmap \<Rightarrow> hashmap \<Rightarrow> bool" where
  "same_config m m' \<longleftrightarrow> elsize m' = elsize m \<and> cap m' = cap m \<and> seed0 m' = seed0 m \<and>
     seed1 m' = seed1 m \<and> hash_fn m' = hash_fn m \<and> compare_fn m' = compare_fn m \<and>
     has_elfree m' = has_elfree m \<and> bucketsz m' = bucketsz m \<and>
     loadfactor m' = loadfactor m \<and> growpower m' = growpower m"

lemma same_config_refl [simp]: "same_config m m"
  by (simp add: same_config_def)

lemma same_config_trans: "same_config a b \<Longrightarrow> same_config b c \<Longrightarrow> same_config a c"
  by (simp add: same_config_def)

lemma same_config_eqv:
  assumes "same_config m m'"
  shows "eqv m' = eqv m" and "get_hash m' = get_hash m" and "callbacks_ok m' = callbacks_ok m"
  using assms by (auto simp: same_config_def eqv_def get_hash_def fun_eq_iff callbacks_ok_def)

lemma wf_mapD:
  assumes "wf_map m"
  shows "robin_ok (buckets m)" and "length (buckets m) = nbuckets m"
    and "mask m = of_nat (length (buckets m)) - 1" and "count m = size (ents (buckets m))"
    and "size (ents (buckets m)) < length (buckets m)" and "16 \<le> nbuckets m"
    and "nomatch (compare_fn m) (ents (buckets m))"
    and "\<And>x. x \<in># ents (buckets m) \<Longrightarrow> fst x = get_hash m (snd x) \<and> length (snd x) = elsize m"
  using assms by (auto simp: wf_map_def)

text \<open>Changing the buckets and their number consistently keeps a map well-formed.\<close>

lemma wf_map_buckets:
  assumes "wf_map m" and "robin_ok bs" and "length bs = nbuckets m" and "ents bs = M"
    and "c = size M" and "c < nbuckets m" and "nomatch (compare_fn m) M"
    and "\<And>x. x \<in># M \<Longrightarrow> fst x = get_hash m (snd x) \<and> length (snd x) = elsize m"
  shows "wf_map (m\<lparr>buckets := bs, count := c, oom := b\<rparr>)"
proof -
  have "align_ptr (8 + elsize m) * nbuckets m < 2 ^ 64" using assms(1) unfolding wf_map_def by metis
  with assms show ?thesis by (simp add: wf_map_def get_hash_def)
qed

lemma resize_ok:
  assumes wf: "wf_map m" and nb: "nb = 2 ^ k" "k \<le> 63" "cap m \<le> nb"
    and sz: "bucketsz m * nb < 2 ^ 64" and room: "count m < nb" "count m < 2 ^ 16"
  shows "\<exists>m'. resize (True, True) m nb = Some (m', True) \<and> wf_map m' \<and> same_config m m' \<and>
     ents (buckets m') = ents (buckets m) \<and> nbuckets m' = nb \<and> growat m' = growat_of nb 60 \<and>
     count m' = count m \<and> oom m' = oom m"
proof -
  note d = wf_mapD [OF wf]
  have nb16: "16 \<le> nb" using wf nb(3) by (simp add: wf_map_def)
  have "4 \<le> k"
  proof (rule ccontr)
    assume "\<not> 4 \<le> k"
    then have "(2::nat) ^ k \<le> 2 ^ 3" by (intro power_increasing) auto
    with nb16 nb(1) show False by simp
  qed
  then have cap: "next_cap 16 nb = Some nb" using next_cap_exact nb(1,2) by simp
  have bsz: "bucketsz m = align_ptr (8 + elsize m)" using wf by (simp add: wf_map_def)
  have b0: "0 < bucketsz m" using align_ptr_ge [of "8 + elsize m"] bsz by simp
  have rz: "robin_ok (replicate nb (zero_bucket (elsize m)))"
    by (rule robin_ok_zero [of _ k]) (use nb nb16 in auto)
  obtain bs where bs: "rehash (of_nat nb - 1) (buckets m) (replicate nb (zero_bucket (elsize m))) = Some bs"
    "robin_ok bs" "length bs = nb" "ents bs = ents (buckets m)"
    using rehash_ok [OF rz, of "buckets m" "of_nat nb - 1"] room d(4) by auto
  let ?m = "m\<lparr>buckets := bs, nbuckets := nb, mask := of_nat nb - 1, growat := growat_of nb 60,
     shrinkat := shrinkat_of nb\<rparr>"
  have "resize (True, True) m nb = Some (?m, True)"
    using nb16 cap bs(1) d(2) alloc_buckets_eq [OF sz b0]
    by (simp add: resize_def resize0_def hashmap_new_with_allocator_def Let_def percent_GROW_AT
        flip: bsz)
  moreover have "wf_map ?m"
    using wf nb bs sz room growat_60_less [of nb] nb16 by (auto simp: wf_map_def get_hash_def)
  ultimately show ?thesis using bs by (auto simp: same_config_def)
qed

section \<open>Lookup\<close>

lemma clip_hash_idem [simp]: "clip_hash (clip_hash h) = clip_hash h"
  by (simp add: clip_hash_def and.assoc)

lemma clip_get_hash [simp]: "clip_hash (get_hash m k) = get_hash m k"
  by (simp add: get_hash_def)

lemma lookup_loop:
  assumes wf: "wf_map m" and cb: "callbacks_ok m" and k: "length k = elsize m"
  shows "(\<exists>i. unat i < nbuckets m \<and> dib (buckets m ! unat i) \<noteq> 0 \<and> eqv m k (bitem (buckets m ! unat i)) \<and>
      get_loop (compare_fn m) (mask m) (buckets m) k (get_hash m k) (get_hash m k AND mask m) = Some (Some i) \<and>
      alpha m k = Some (bitem (buckets m ! unat i))) \<or>
    get_loop (compare_fn m) (mask m) (buckets m) k (get_hash m k) (get_hash m k AND mask m) = Some None \<and>
      alpha m k = None"
proof -
  note d = wf_mapD [OF wf]
  have start: "unat (get_hash m k AND mask m) = hm (length (buckets m)) (get_hash m k)"
    unfolding d(3) by (rule home_index [OF d(1)])
  show ?thesis
  proof (rule alpha_cases [OF wf cb k])
    fix p assume p: "p < nbuckets m" "dib (buckets m ! p) \<noteq> 0" "eqv m k (bitem (buckets m ! p))"
      "alpha m k = Some (bitem (buckets m ! p))"
    have mt: "key_match (compare_fn m) (get_hash m k) k (buckets m ! p)"
      using stored_props(3) [OF wf p(1,2)] p(3) by blast
    have un: "j = p" if "j < length (buckets m)" "dib (buckets m ! j) \<noteq> 0"
        "key_match (compare_fn m) (get_hash m k) k (buckets m ! j)" for j
      using that stored_props(3) [OF wf] match_unique [OF wf cb k _ _ _ p(1-3)] d(2) by metis
    have "unat (get_hash m k AND mask m) =
        (hm (length (buckets m)) (get_hash m k) + (dd (buckets m) p - 1 - (dd (buckets m) p - 1)))
        mod length (buckets m)"
      using start robin_okD(4) [OF d(1)] by (simp add: hm_def)
    then obtain i where "get_loop (compare_fn m) (mask m) (buckets m) k (get_hash m k)
        (get_hash m k AND mask m) = Some (Some i)" "unat i = p"
      using get_loop_found [OF d(1) _ p(2) mt un d(3), of "dd (buckets m) p - 1"] p(1,2) d(2)
      by (auto simp: unat_gt_0)
    with p show ?thesis by auto
  next
    assume none: "alpha m k = None"
      "\<And>j. j < nbuckets m \<Longrightarrow> dib (buckets m ! j) \<noteq> 0 \<Longrightarrow> \<not> eqv m k (bitem (buckets m ! j))"
    obtain y where y: "y < length (buckets m)" "dd (buckets m) y = 0"
      using free_exists [OF d(5)] by blast
    obtain z where "(unat (get_hash m k AND mask m) + z) mod length (buckets m) = y"
      using ring_reach [OF _ y(1)] start robin_okD(4) [OF d(1)] hm_less by metis
    then have "get_loop (compare_fn m) (mask m) (buckets m) k (get_hash m k)
        (get_hash m k AND mask m) = Some None"
      using get_loop_absent [OF d(1,3), of "compare_fn m" "get_hash m k" k] none(2)
        stored_props(3) [OF wf] d(2) start y robin_okD(4) [OF d(1)] hm_less by metis
    with none(1) show ?thesis by blast
  qed
qed

lemma get_ok:
  assumes "wf_map m" and "callbacks_ok m" and "length k = elsize m"
  shows "hashmap_get m k = Some (alpha m k)"
  using lookup_loop [OF assms]
  by (auto simp: hashmap_get_def hashmap_get_with_hash_def Let_def)

section \<open>Insertion and deletion\<close>

lemma nomatch_add:
  assumes "nomatch cmp M" and "\<And>y. y \<in># M \<Longrightarrow> \<not> kmatch cmp x y \<and> \<not> kmatch cmp y x"
  shows "nomatch cmp (add_mset x M)"
  unfolding nomatch_def
proof (intro allI impI)
  fix a b R assume eq: "add_mset x M = add_mset a (add_mset b R)"
  then consider "x = a" "M = add_mset b R" | K where "M = add_mset a K" "add_mset b R = add_mset x K"
    by (auto simp: add_eq_conv_ex)
  then show "\<not> kmatch cmp a b"
  proof cases
    case 1
    then show ?thesis using assms(2) [of b] by simp
  next
    case 2
    then consider "b = x" | K' where "K = add_mset b K'"
      by (auto simp: add_eq_conv_ex)
    then show ?thesis
    proof cases
      case 1
      then show ?thesis using assms(2) [of a] 2 by simp
    next
      case (2 K')
      then have "M = add_mset a (add_mset b K')" using \<open>M = add_mset a K\<close> by simp
      then show ?thesis using assms(1) unfolding nomatch_def by blast
    qed
  qed
qed

lemma robin_ok_item: "robin_ok bs \<Longrightarrow> robin_ok (bs[p := (bs ! p)\<lparr>bitem := x\<rparr>])"
proof -
  assume ok: "robin_ok bs"
  have "dib (bs[p := (bs ! p)\<lparr>bitem := x\<rparr>] ! j) = dib (bs ! j)"
    "bhash (bs[p := (bs ! p)\<lparr>bitem := x\<rparr>] ! j) = bhash (bs ! j)" if "j < length bs" for j
    using that by (cases "j = p"; simp)+
  moreover have "nxt (length bs) j < length bs" for j
    using robin_okD(4) [OF ok] by (rule nxt_less)
  ultimately show ?thesis using ok by (simp add: robin_ok_def chain_def homes_def)
qed

text \<open>What a change of the stored entries means for the reference lookup.\<close>

lemma alpha_insert:
  assumes wf: "wf_map m" "wf_map m'" and cb: "callbacks_ok m" and cfg: "same_config m m'"
    and x: "length x = elsize m" and e': "ents (buckets m') = add_mset (h, x) R"
    and none: "\<And>y. y \<in># R \<Longrightarrow> \<not> eqv m x (snd y)"
    and e: "ents (buckets m) = R \<or> (\<exists>y. ents (buckets m) = add_mset y R \<and> eqv m x (snd y))"
    and k: "length k = elsize m"
  shows "alpha m' k = (if eqv m x k then Some x else alpha m k)"
proof -
  have k': "length k = elsize m'" and cb': "callbacks_ok m'" and eq: "eqv m' = eqv m"
    using k cb cfg same_config_eqv [OF cfg] by (auto simp: same_config_def)
  note A' = alpha_ents [OF wf(2) cb' k'] and A = alpha_ents [OF wf(1) cb k]
  have len: "length (snd y) = elsize m" if "y \<in># ents (buckets m)" for y
    using wf_mapD(8) [OF wf(1) that] by simp
  note sym = callbacks_sym [OF cb] and trans = callbacks_trans [OF cb]
  have "alpha m' k = Some it \<longleftrightarrow> (if eqv m x k then Some x else alpha m k) = Some it" for it
  proof (cases "eqv m x k")
    case True
    have "\<not> eqv m k it" if "(h', it) \<in># R" for h'
    proof
      assume "eqv m k it"
      moreover have "length it = elsize m" using e len [of "(h', it)"] that by auto
      ultimately have "eqv m x it" using trans [OF x k _ True] by blast
      with none [OF that] show False by simp
    qed
    moreover have "eqv m k x" using sym [OF x k True] .
    ultimately show ?thesis using True unfolding A' eq e' by auto
  next
    case False
    have "\<not> eqv m k x" using False sym [OF k x] by blast
    moreover have "\<not> eqv m k (snd y)" if "y \<in># ents (buckets m)" "eqv m x (snd y)" for y
      using False that len [OF that(1)] sym [OF k] trans [OF x _ k] by blast
    ultimately show ?thesis using False e A [of it] A' [of it] unfolding eq e' by auto
  qed
  then show ?thesis by (metis not_None_eq)
qed

lemma alpha_remove:
  assumes wf: "wf_map m" "wf_map m'" and cb: "callbacks_ok m" and cfg: "same_config m m'"
    and x: "length x = elsize m" and e: "ents (buckets m) = add_mset y (ents (buckets m'))"
    and y: "eqv m x (snd y)"
    and none: "\<And>y. y \<in># ents (buckets m') \<Longrightarrow> \<not> eqv m x (snd y)"
    and k: "length k = elsize m"
  shows "alpha m' k = (if eqv m x k then None else alpha m k)"
proof -
  have k': "length k = elsize m'" and cb': "callbacks_ok m'" and eq: "eqv m' = eqv m"
    using k cb cfg same_config_eqv [OF cfg] by (auto simp: same_config_def)
  note A' = alpha_ents [OF wf(2) cb' k'] and A = alpha_ents [OF wf(1) cb k]
  have len: "length (snd z) = elsize m" if "z \<in># ents (buckets m)" for z
    using wf_mapD(8) [OF wf(1) that] by simp
  note sym = callbacks_sym [OF cb] and trans = callbacks_trans [OF cb]
  have "alpha m' k = Some it \<longleftrightarrow> (if eqv m x k then None else alpha m k) = Some it" for it
  proof (cases "eqv m x k")
    case True
    have "\<not> eqv m k it" if "(h', it) \<in># ents (buckets m')" for h'
    proof
      assume "eqv m k it"
      moreover have "length it = elsize m" using e len [of "(h', it)"] that by auto
      ultimately have "eqv m x it" using trans [OF x k _ True] by blast
      with none [OF that] show False by simp
    qed
    then show ?thesis using True unfolding A' eq by auto
  next
    case False
    have "\<not> eqv m k (snd y)"
      using False y e len [of y] sym [OF k] trans [OF x _ k] by auto
    then show ?thesis using False A [of it] A' [of it] unfolding eq e by auto
  qed
  then show ?thesis by (metis not_None_eq)
qed

text \<open>The entries other than a stored one do not match a key that the stored one matches.\<close>

lemma others_not_eqv:
  assumes wf: "wf_map m" and cb: "callbacks_ok m" and x: "length x = elsize m"
    and e: "ents (buckets m) = add_mset z R" and z: "eqv m x (snd z)" and y: "y \<in># R"
  shows "\<not> eqv m x (snd y)"
proof
  assume "eqv m x (snd y)"
  have props: "fst z = get_hash m (snd z)" "length (snd z) = elsize m"
    "fst y = get_hash m (snd y)" "length (snd y) = elsize m"
    using wf_mapD(8) [OF wf, of z] wf_mapD(8) [OF wf, of y] y by (auto simp: e)
  have "eqv m (snd z) (snd y)"
    using callbacks_trans [OF cb props(2) x props(4)] callbacks_sym [OF cb x props(2) z]
      \<open>eqv m x (snd y)\<close> by blast
  then have "kmatch (compare_fn m) z y" unfolding eqv_def by (simp flip: props(1,3))
  with wf_mapD(7) [OF wf] y show False unfolding e by (auto dest: nomatchD)
qed

text \<open>A stored item that equals the new one is overwritten in place.\<close>

lemma set_entry_present:
  assumes wf: "wf_map m" and cb: "callbacks_ok m" and x: "length x = elsize m"
    and p: "p < nbuckets m" "dib (buckets m ! p) \<noteq> 0" "eqv m x (bitem (buckets m ! p))"
      "alpha m x = Some (bitem (buckets m ! p))"
  shows "\<exists>m'. set_entry m x (get_hash m x) = Some (m', alpha m x) \<and> wf_map m' \<and> same_config m m' \<and>
     count m' = (if alpha m x = None then count m + 1 else count m) \<and> oom m' = oom m \<and>
     (\<forall>k. length k = elsize m \<longrightarrow> alpha m' k = (if eqv m x k then Some x else alpha m k))"
proof -
  note d = wf_mapD [OF wf]
  let ?h = "get_hash m x" and ?bs = "buckets m"
  let ?e = "\<lparr>bhash = ?h, dib = 1, bitem = x\<rparr>"
  have start: "unat (?h AND mask m) = hm (length ?bs) ?h"
    unfolding d(3) by (rule home_index [OF d(1)])
  have pl: "p < length ?bs" using p(1) d(2) by simp
  have mt: "key_match (compare_fn m) ?h x (?bs ! p)"
    using stored_props(3) [OF wf p(1,2)] p(3) by blast
  have un: "j = p" if "j < length ?bs" "dib (?bs ! j) \<noteq> 0"
      "key_match (compare_fn m) ?h x (?bs ! j)" for j
    using that stored_props(3) [OF wf] match_unique [OF wf cb x _ _ _ p(1-3)] d(2) by metis
  let ?bs' = "?bs[p := (?bs ! p)\<lparr>bitem := x\<rparr>]"
  have pos: "0 < dd ?bs p" using p(2) by (simp add: unat_gt_0)
  have "unat (?h AND mask m) =
      (hm (length ?bs) ?h + (dd ?bs p - 1 - (dd ?bs p - 1))) mod length ?bs"
    using start robin_okD(4) [OF d(1)] by (simp add: hm_def)
  with set_loop_found [OF d(1) pl p(2) mt un d(3), of "dd ?bs p - 1" "?h AND mask m" ?e] pos
  have run: "set_loop (compare_fn m) (mask m) ?bs ?e (?h AND mask m) = Some (?bs', Some (bitem (?bs ! p)))"
    by simp
  obtain R where R: "ents ?bs = add_mset (pair (?bs ! p)) R" using ents_split [OF pl p(2)] by metis
  have bh: "bhash (?bs ! p) = ?h" using mt by (simp add: key_match_def)
  have R': "ents ?bs' = add_mset (?h, x) R"
    using ents_displace [OF pl p(2), of "(?bs ! p)\<lparr>bitem := x\<rparr>"] p(2) R bh by simp
  have none: "\<not> eqv m x (snd y)" if "y \<in># R" for y
    using others_not_eqv [OF wf cb x R _ that] p(3) by simp
  let ?m = "m\<lparr>buckets := ?bs', count := count m\<rparr>"
  have nm: "nomatch (compare_fn m) (add_mset (?h, x) R)"
  proof (rule nomatch_add)
    show "nomatch (compare_fn m) R" using d(7) R nomatch_mono by metis
    fix y assume y: "y \<in># R"
    then have "fst y = get_hash m (snd y)" "length (snd y) = elsize m" using d(8) [of y] R by auto
    with none [OF y] callbacks_sym [OF cb this(2) x] 
    show "\<not> kmatch (compare_fn m) (?h, x) y \<and> \<not> kmatch (compare_fn m) y (?h, x)"
      unfolding eqv_def by (metis prod.collapse)
  qed
  have props: "fst y = get_hash m (snd y) \<and> length (snd y) = elsize m"
    if "y \<in># add_mset (?h, x) R" for y
    using that d(8) [of y] R x by auto
  have "wf_map (m\<lparr>buckets := ?bs', count := count m, oom := oom m\<rparr>)"
    by (rule wf_map_buckets [OF wf robin_ok_item [OF d(1)] _ R' _ _ nm props]) (use d R in auto)
  then have wf': "wf_map ?m" by simp
  have cfg: "same_config m ?m" by (simp add: same_config_def)
  have "set_entry m x ?h = Some (?m, alpha m x)"
    using run x p(4) by (simp add: set_entry_def)
  moreover have "\<forall>k. length k = elsize m \<longrightarrow> alpha ?m k = (if eqv m x k then Some x else alpha m k)"
    using alpha_insert [OF wf wf' cb cfg x _ none] R R' p(3) by simp
  ultimately show ?thesis using wf' cfg p(4) by auto
qed

text \<open>Otherwise the item is inserted into the probe sequence.\<close>

lemma set_entry_absent:
  assumes wf: "wf_map m" and cb: "callbacks_ok m" and x: "length x = elsize m"
    and room: "count m + 1 < nbuckets m" "count m + 1 < 2 ^ 16"
    and none: "alpha m x = None"
      "\<And>j. j < nbuckets m \<Longrightarrow> dib (buckets m ! j) \<noteq> 0 \<Longrightarrow> \<not> eqv m x (bitem (buckets m ! j))"
  shows "\<exists>m'. set_entry m x (get_hash m x) = Some (m', alpha m x) \<and> wf_map m' \<and> same_config m m' \<and>
     count m' = (if alpha m x = None then count m + 1 else count m) \<and> oom m' = oom m \<and>
     (\<forall>k. length k = elsize m \<longrightarrow> alpha m' k = (if eqv m x k then Some x else alpha m k))"
proof -
  note d = wf_mapD [OF wf]
  let ?h = "get_hash m x" and ?bs = "buckets m"
  let ?e = "\<lparr>bhash = ?h, dib = 1, bitem = x\<rparr>"
  have start: "unat (?h AND mask m) = hm (length ?bs) ?h"
    unfolding d(3) by (rule home_index [OF d(1)])
  have fresh: "\<not> eqv m x (snd y)" if "y \<in># ents ?bs" for y
    using that none(2) d(2) by (auto simp: ents_in_conv unat_eq_0)
  have nm: "nomatch (compare_fn m) (add_mset (?h, x) (ents ?bs))"
  proof (rule nomatch_add [OF d(7)])
    fix y assume y: "y \<in># ents ?bs"
    then have "fst y = get_hash m (snd y)" "length (snd y) = elsize m" using d(8) [of y] by auto
    with fresh [OF y] callbacks_sym [OF cb this(2) x]
    show "\<not> kmatch (compare_fn m) (?h, x) y \<and> \<not> kmatch (compare_fn m) y (?h, x)"
      unfolding eqv_def by (metis prod.collapse)
  qed
  have sz: "size (ents ?bs) + 1 < 2 ^ 16" using room(2) d(4) by simp
  obtain bs' where bs': "place_loop (mask m) ?bs ?e (?h AND mask m) = Some bs'" "robin_ok bs'"
    "length bs' = length ?bs" "ents bs' = add_mset (?h, x) (ents ?bs)"
    using place_first_ok [OF d(1) _ sz d(5) d(3), of ?e] by auto
  obtain y where y: "y < length ?bs" "dd ?bs y = 0" using free_exists [OF d(5)] by blast
  obtain z where z: "(hm (length ?bs) ?h + z) mod length ?bs = y"
    using ring_reach [OF hm_less y(1)] robin_okD(4) [OF d(1)] by blast
  have "set_loop (compare_fn m) (mask m) ?bs ?e (?h AND mask m) = Some (bs', None)"
    using set_loop_fresh [OF d(1) _ sz d(5) d(3), of "?h AND mask m" ?e "compare_fn m" z]
      fits_first [OF d(1), of ?e] nm y z bs'(1) by (simp add: start)
  let ?m = "m\<lparr>buckets := bs', count := count m + 1\<rparr>"
  have "wf_map (m\<lparr>buckets := bs', count := count m + 1, oom := oom m\<rparr>)"
    using wf bs' nm d x room by (intro wf_map_buckets) auto
  then have wf': "wf_map ?m" by simp
  have cfg: "same_config m ?m" by (simp add: same_config_def)
  have "set_entry m x ?h = Some (?m, alpha m x)"
    using \<open>set_loop _ _ _ _ _ = _\<close> x none(1) by (simp add: set_entry_def)
  moreover have "\<forall>k. length k = elsize m \<longrightarrow> alpha ?m k = (if eqv m x k then Some x else alpha m k)"
    using alpha_insert [OF wf wf' cb cfg x _ fresh] bs'(4) by simp
  ultimately show ?thesis using wf' cfg none(1) by auto
qed

lemma set_entry_ok:
  assumes wf: "wf_map m" and cb: "callbacks_ok m" and x: "length x = elsize m"
    and room: "count m + 1 < nbuckets m" "count m + 1 < 2 ^ 16"
  shows "\<exists>m'. set_entry m x (get_hash m x) = Some (m', alpha m x) \<and> wf_map m' \<and> same_config m m' \<and>
     count m' = (if alpha m x = None then count m + 1 else count m) \<and> oom m' = oom m \<and>
     (\<forall>k. length k = elsize m \<longrightarrow> alpha m' k = (if eqv m x k then Some x else alpha m k))"
  by (rule alpha_cases [OF wf cb x])
    (blast intro: set_entry_present [OF wf cb x] set_entry_absent [OF wf cb x room])+

text \<open>What \<open>hashmap_set\<close> needs for its doubling: sizes that fit \<open>size_t\<close>, and distances that fit
  the 16-bit field.\<close>

definition can_grow :: "hashmap \<Rightarrow> bool" where
  "can_grow m \<longleftrightarrow> bucketsz m * (nbuckets m * 2 ^ growpower m) < 2 ^ 64 \<and> count m + 1 < 2 ^ 16"

lemma bucketsz_pos: "wf_map m \<Longrightarrow> 0 < bucketsz m"
  using align_ptr_ge [of "8 + elsize m"] by (auto simp: wf_map_def)

lemma grown_size:
  assumes "wf_map m" and "can_grow m"
  shows "\<exists>k. nbuckets m * 2 ^ growpower m mod 2 ^ 64 = 2 ^ k \<and> k \<le> 63 \<and>
     2 * nbuckets m \<le> 2 ^ k \<and> bucketsz m * 2 ^ k < 2 ^ 64"
proof -
  obtain a where a: "nbuckets m = 2 ^ a"
    using assms(1) by (auto simp: wf_map_def robin_ok_def)
  let ?k = "a + growpower m"
  have sz: "bucketsz m * 2 ^ ?k < 2 ^ 64" using assms(2) a by (simp add: can_grow_def power_add)
  then have "(2::nat) ^ ?k < 2 ^ 64"
    using bucketsz_pos [OF assms(1)] by (metis One_nat_def Suc_leI le_less_trans mult_le_mono1 nat_mult_1)
  then have "?k < 64" by (rule power_less_imp_less_exp [rotated]) simp
  then have k: "?k \<le> 63" by simp
  moreover have "2 * nbuckets m \<le> 2 ^ ?k"
  proof -
    have "1 \<le> growpower m" using assms(1) by (simp add: wf_map_def)
    then have "(2::nat) ^ Suc a \<le> 2 ^ ?k" by (intro power_increasing) auto
    then show ?thesis by (simp add: a)
  qed
  ultimately show ?thesis
    using sz \<open>2 ^ ?k < 2 ^ 64\<close> a by (intro exI [of _ ?k]) (simp add: power_add)
qed

lemma oom_irrelevant:
  shows "wf_map (m\<lparr>oom := b\<rparr>) = wf_map m" and "callbacks_ok (m\<lparr>oom := b\<rparr>) = callbacks_ok m"
    and "alpha (m\<lparr>oom := b\<rparr>) = alpha m" and "eqv (m\<lparr>oom := b\<rparr>) = eqv m"
    and "get_hash (m\<lparr>oom := b\<rparr>) = get_hash m" and "same_config (m\<lparr>oom := b\<rparr>) m'' = same_config m m''"
  by (auto simp: wf_map_def callbacks_ok_def alpha_def eqv_def get_hash_def fun_eq_iff same_config_def)

text \<open>The reference lookup depends on the stored entries only.\<close>

lemma alpha_cong:
  assumes "wf_map m" "wf_map m'" "callbacks_ok m" "same_config m m'"
    and "ents (buckets m') = ents (buckets m)" and "length k = elsize m"
  shows "alpha m' k = alpha m k"
proof -
  have "length k = elsize m'" "callbacks_ok m'" "eqv m' = eqv m"
    using assms(3,4,6) same_config_eqv [OF assms(4)] by (auto simp: same_config_def)
  then have "alpha m' k = Some it \<longleftrightarrow> alpha m k = Some it" for it
    using alpha_ents [OF assms(1,3,6)] alpha_ents [OF assms(2)] assms(5) by simp
  then show ?thesis by (metis not_None_eq)
qed

lemma set_ok:
  assumes wf: "wf_map m" and cb: "callbacks_ok m" and x: "length x = elsize m" and room: "can_grow m"
    and ok: "growat m \<le> count m \<Longrightarrow> ok = (True, True)"
  shows "\<exists>m'. hashmap_set ok m x = Some (m', alpha m x) \<and> wf_map m' \<and> same_config m m' \<and>
     count m' = (if alpha m x = None then count m + 1 else count m) \<and> \<not> oom m' \<and>
     (\<forall>k. length k = elsize m \<longrightarrow> alpha m' k = (if eqv m x k then Some x else alpha m k))"
proof -
  let ?m = "m\<lparr>oom := False\<rparr>"
  have wf0: "wf_map ?m" and cb0: "callbacks_ok ?m" and x0: "length x = elsize ?m"
    using wf cb x by (simp_all add: oom_irrelevant)
  note d = wf_mapD [OF wf]
  show ?thesis
  proof (cases "growat m \<le> count m")
    case False
    have "count ?m + 1 < nbuckets ?m" "count ?m + 1 < 2 ^ 16"
      using False wf room by (auto simp: wf_map_def can_grow_def)
    from set_entry_ok [OF wf0 cb0 x0 this] False show ?thesis
      by (simp add: hashmap_set_def hashmap_set_with_hash_def oom_irrelevant Let_def
          cong: if_cong split del: if_split)
  next
    case True
    obtain k where k: "nbuckets m * 2 ^ growpower m mod 2 ^ 64 = 2 ^ k" "k \<le> 63"
      "2 * nbuckets m \<le> 2 ^ k" "bucketsz m * 2 ^ k < 2 ^ 64" using grown_size [OF wf room] by blast
    have "\<exists>m1. resize (True, True) ?m (2 ^ k) = Some (m1, True) \<and> wf_map m1 \<and> same_config ?m m1 \<and>
       ents (buckets m1) = ents (buckets ?m) \<and> nbuckets m1 = 2 ^ k \<and> growat m1 = growat_of (2 ^ k) 60 \<and>
       count m1 = count ?m \<and> oom m1 = oom ?m"
      using wf0 k wf room by (intro resize_ok) (auto simp: wf_map_def can_grow_def)
    then obtain m1 where m1: "resize (True, True) ?m (2 ^ k) = Some (m1, True)" "wf_map m1"
      "same_config ?m m1" "ents (buckets m1) = ents (buckets ?m)" "nbuckets m1 = 2 ^ k"
      "count m1 = count m" "\<not> oom m1" by auto
    have cb1: "callbacks_ok m1" and x1: "length x = elsize m1" and h1: "get_hash m1 = get_hash m"
      and e1: "eqv m1 = eqv m"
      using cb0 x0 same_config_eqv [OF m1(3)] m1(3) by (auto simp: oom_irrelevant same_config_def)
    have a1: "alpha m1 k = alpha m k" if "length k = elsize m" for k
      using alpha_cong [OF wf0 m1(2) cb0 m1(3,4)] that by (simp add: oom_irrelevant)
    have "count m1 + 1 < nbuckets m1" "count m1 + 1 < 2 ^ 16"
      using m1 k(3) wf room by (auto simp: wf_map_def can_grow_def)
    from set_entry_ok [OF m1(2) cb1 x1 this] obtain m2 where
      "set_entry m1 x (get_hash m1 x) = Some (m2, alpha m1 x)" "wf_map m2" "same_config m1 m2"
      "count m2 = (if alpha m1 x = None then count m1 + 1 else count m1)" "oom m2 = oom m1"
      "\<forall>k. length k = elsize m1 \<longrightarrow> alpha m2 k = (if eqv m1 x k then Some x else alpha m1 k)"
      by blast
    moreover have "same_config m m2"
      using same_config_trans [OF m1(3) \<open>same_config m1 m2\<close>] by (simp add: oom_irrelevant)
    ultimately show ?thesis
      using True ok k(1) m1 a1 x x1 h1 e1
      by (auto simp: hashmap_set_def hashmap_set_with_hash_def Let_def)
  qed
qed

lemma set_oom:
  assumes wf: "wf_map m" and room: "can_grow m" and full: "growat m \<le> count m" and ok: "ok \<noteq> (True, True)"
  shows "hashmap_set ok m x = Some (m\<lparr>oom := True\<rparr>, None)"
proof -
  obtain k where k: "nbuckets m * 2 ^ growpower m mod 2 ^ 64 = 2 ^ k" "k \<le> 63" "2 * nbuckets m \<le> 2 ^ k"
    using grown_size [OF wf room] by blast
  have "(2::nat) ^ k \<le> 2 ^ 63" using k(2) by (rule power_increasing) simp
  then have "\<exists>c. next_cap 16 (2 ^ k) = Some c"
    using next_cap_pow [of "2 ^ k" 4] by auto
  moreover have "\<not> fst ok \<or> \<not> snd ok" using ok by (cases ok) auto
  ultimately show ?thesis
    using full k(1) by (auto simp: hashmap_set_def hashmap_set_with_hash_def Let_def resize_def
        resize0_def hashmap_new_with_allocator_def)
qed

section \<open>Deletion\<close>

lemma resize_fail:
  assumes "c \<le> 2 ^ 63" and "ok \<noteq> (True, True)"
  shows "resize ok m c = Some (m, False)"
proof -
  have "\<exists>d. next_cap 16 c = Some d" using next_cap_pow [OF assms(1), of 4] by auto
  moreover have "\<not> fst ok \<or> \<not> snd ok" using assms(2) by (cases ok) auto
  ultimately show ?thesis
    by (auto simp: resize_def resize0_def hashmap_new_with_allocator_def Let_def)
qed

lemma remove_bucket_ok:
  assumes wf: "wf_map m" and cb: "callbacks_ok m" and x: "length x = elsize m"
    and i: "unat i < nbuckets m" "dib (buckets m ! unat i) \<noteq> 0" "eqv m x (bitem (buckets m ! unat i))"
  shows "\<exists>bs. shift_loop (mask m) ((buckets m)[unat i := (buckets m ! unat i)\<lparr>dib := 0\<rparr>]) i = Some bs \<and>
     wf_map (m\<lparr>buckets := bs, count := count m - 1\<rparr>) \<and>
     (\<forall>k. length k = elsize m \<longrightarrow>
       alpha (m\<lparr>buckets := bs, count := count m - 1\<rparr>) k = (if eqv m x k then None else alpha m k))"
proof -
  note d = wf_mapD [OF wf]
  let ?q = "unat i" and ?bs = "buckets m"
  let ?h = "?bs[?q := (?bs ! ?q)\<lparr>dib := 0\<rparr>]"
  have q: "?q < length ?bs" using i(1) d(2) by simp
  have hh: "hole ?h ?q = hole ?bs ?q" using q by (simp add: hole_def)
  have hk: "hole_ok ?h ?q"
    using hole_ok_start [OF d(1) q i(2)] unfolding hole_ok_def hh by simp
  obtain y where y: "y < length ?bs" "dd ?bs y = 0" using free_exists [OF d(5)] by blast
  obtain t where t: "t < length ?bs" "(?q + t) mod length ?bs = y" using ring_reach [OF q y(1)] by blast
  have "t \<noteq> 0"
  proof
    assume "t = 0"
    then have "y = ?q" using t(2) q by simp
    then show False using y(2) i(2) by (simp add: unat_eq_0)
  qed
  then obtain z where z: "t = Suc z" by (cases t) auto
  have "dd ?h ((?q + Suc z) mod length ?h) = 0" using t z y(2) q by (cases "y = ?q") auto
  then obtain bs where bs: "shift_loop (mask m) ?h i = Some bs" "robin_ok bs" "length bs = length ?h"
    "ents bs = ents (hole ?bs ?q)"
    using shift_loop_ok [OF hk _ _ , of "mask m" z] t(1) z d(3) hh by auto
  have e: "ents ?bs = add_mset (pair (?bs ! ?q)) (ents bs)"
    using ents_split [OF q i(2)] bs(4) unfolding hole_def by metis
  let ?m = "m\<lparr>buckets := bs, count := count m - 1\<rparr>"
  have props: "fst z = get_hash m (snd z) \<and> length (snd z) = elsize m" if "z \<in># ents bs" for z
    using that d(8) [of z] e by simp
  have nm: "nomatch (compare_fn m) (ents bs)" using d(7) e nomatch_mono by metis
  have "wf_map (m\<lparr>buckets := bs, count := count m - 1, oom := oom m\<rparr>)"
    by (rule wf_map_buckets [OF wf bs(2) _ refl _ _ nm props]) (use d e bs(3) in auto)
  then have wf': "wf_map ?m" by simp
  have none: "\<not> eqv m x (snd z)" if "z \<in># ents bs" for z
    using others_not_eqv [OF wf cb x e _ that] i(3) by simp
  have cfg: "same_config m ?m" by (simp add: same_config_def)
  have "alpha ?m k = (if eqv m x k then None else alpha m k)" if "length k = elsize m" for k
    by (rule alpha_remove [OF wf wf' cb cfg x _ _ _ that, of "pair (?bs ! ?q)"])
      (use e i(3) none in simp_all)
  with wf' bs(1) show ?thesis by blast
qed

text \<open>Shrinking, or failing to, keeps the content.\<close>

lemma shrink_ok:
  assumes wf: "wf_map m" and cb: "callbacks_ok m" and small: "count m < 2 ^ 16"
    and cond: "cap m < nbuckets m" "count m \<le> shrinkat m"
  shows "\<exists>m' r. resize ok m (nbuckets m div 2) = Some (m', r) \<and> wf_map m' \<and> same_config m m' \<and>
     count m' = count m \<and> (\<forall>k. length k = elsize m \<longrightarrow> alpha m' k = alpha m k)"
proof -
  note d = wf_mapD [OF wf]
  obtain a b where a: "nbuckets m = 2 ^ a" "a < 64" and b: "cap m = 2 ^ b"
    using wf by (auto simp: wf_map_def robin_ok_def)
  have "b < a" using cond(1) a b by simp
  then obtain k where k: "a = Suc k" "b \<le> k" by (cases a) auto
  have half: "nbuckets m div 2 = 2 ^ k" using a k by simp
  have cap: "cap m \<le> 2 ^ k" using b k by simp
  have "shrinkat m = shrinkat_of (nbuckets m)" using wf by (simp add: wf_map_def)
  then have cnt: "count m < 2 ^ k"
    using cond(2) shrinkat_bound [OF d(6)] a k by simp
  have sz: "bucketsz m * 2 ^ k < 2 ^ 64"
    using wf a k le_less_trans [OF mult_le_mono2 [of "2 ^ k" "2 ^ a" "bucketsz m"]]
    by (auto simp: wf_map_def)
  show ?thesis
  proof (cases "ok = (True, True)")
    case True
    obtain m' where m': "resize (True, True) m (2 ^ k) = Some (m', True)" "wf_map m'" "same_config m m'"
      "ents (buckets m') = ents (buckets m)" "count m' = count m"
      using resize_ok [OF wf refl _ cap sz cnt small] a k by auto
    with True half alpha_cong [OF wf m'(2) cb m'(3,4)] show ?thesis by auto
  next
    case False
    have "(2::nat) ^ k \<le> 2 ^ 63" using a(2) k(1) by (intro power_increasing) auto
    with resize_fail [OF _ False, of "2 ^ k" m] half wf show ?thesis by auto
  qed
qed

lemma delete_ok:
  assumes wf: "wf_map m" and cb: "callbacks_ok m" and x: "length x = elsize m" and small: "count m < 2 ^ 16"
  shows "\<exists>m'. hashmap_delete ok m x = Some (m', alpha m x) \<and> wf_map m' \<and> same_config m m' \<and>
     count m' = (if alpha m x = None then count m else count m - 1) \<and>
     (\<forall>k. length k = elsize m \<longrightarrow> alpha m' k = (if eqv m x k then None else alpha m k))"
proof -
  let ?m = "m\<lparr>oom := False\<rparr>"
  have wf0: "wf_map ?m" and cb0: "callbacks_ok ?m" and x0: "length x = elsize ?m"
    using wf cb x by (simp_all add: oom_irrelevant)
  from lookup_loop [OF wf0 cb0 x0] show ?thesis
  proof (elim disjE exE conjE)
    fix i assume i: "unat i < nbuckets ?m" "dib (buckets ?m ! unat i) \<noteq> 0"
      "eqv ?m x (bitem (buckets ?m ! unat i))" "alpha ?m x = Some (bitem (buckets ?m ! unat i))"
      and g: "get_loop (compare_fn ?m) (mask ?m) (buckets ?m) x (get_hash ?m x)
        (get_hash ?m x AND mask ?m) = Some (Some i)"
    obtain bs where bs: "shift_loop (mask m) ((buckets m)[unat i := (buckets m ! unat i)\<lparr>dib := 0\<rparr>]) i = Some bs"
      and wf1: "wf_map (?m\<lparr>buckets := bs, count := count m - 1\<rparr>)"
      and al: "\<forall>k. length k = elsize m \<longrightarrow>
         alpha (?m\<lparr>buckets := bs, count := count m - 1\<rparr>) k = (if eqv m x k then None else alpha m k)"
      using remove_bucket_ok [OF wf0 cb0 x0 i(1-3)] by (auto simp: oom_irrelevant cong: if_cong)
    let ?m1 = "?m\<lparr>buckets := bs, count := count m - 1\<rparr>"
    have cfg: "same_config m ?m1" by (simp add: same_config_def)
    have cb1: "callbacks_ok ?m1" using cb same_config_eqv [OF cfg] by simp
    show ?thesis
    proof (cases "cap ?m1 < nbuckets ?m1 \<and> count ?m1 \<le> shrinkat ?m1")
      case True
      then have c: "cap ?m1 < nbuckets ?m1" "count ?m1 \<le> shrinkat ?m1" by auto
      have "count ?m1 < 2 ^ 16" using small by simp
      from shrink_ok [OF wf1 cb1 this c, of ok] obtain m2 r where
        "resize ok ?m1 (nbuckets ?m1 div 2) = Some (m2, r)" "wf_map m2" "same_config ?m1 m2"
        "count m2 = count ?m1" "\<forall>k. length k = elsize ?m1 \<longrightarrow> alpha m2 k = alpha ?m1 k" by blast
      with same_config_trans [OF cfg this(3)] True g i(4) bs al show ?thesis
        by (simp add: hashmap_delete_def hashmap_delete_with_hash_def Let_def oom_irrelevant)
    next
      case False
      with wf1 cfg g i(4) bs al show ?thesis
        by (auto simp add: hashmap_delete_def hashmap_delete_with_hash_def Let_def oom_irrelevant)
    qed
  next
    assume n: "alpha ?m x = None" and g: "get_loop (compare_fn ?m) (mask ?m) (buckets ?m) x (get_hash ?m x)
        (get_hash ?m x AND mask ?m) = Some None"
    have "alpha m k = None" if lk: "length k = elsize m" and xk: "eqv m x k" for k
    proof (rule ccontr)
      assume "alpha m k \<noteq> None"
      then obtain it where it: "alpha m k = Some it" by blast
      then obtain h where h: "(h, it) \<in># ents (buckets m)" "eqv m k it"
        using alpha_ents [OF wf cb lk] by blast
      have "length it = elsize m" using wf_mapD(8) [OF wf h(1)] by simp
      then have "eqv m x it" using callbacks_trans [OF cb x lk _ xk h(2)] by blast
      then have "alpha m x = Some it" using alpha_ents [OF wf cb x] h(1) by blast
      with n show False by (simp add: oom_irrelevant)
    qed
    with wf0 g n show ?thesis
      by (auto simp add: hashmap_delete_def hashmap_delete_with_hash_def Let_def oom_irrelevant same_config_def)
  qed
qed

section \<open>Iteration\<close>

text \<open>The stored items in bucket order: what a complete iteration visits.\<close>

definition stored_items :: "hashmap \<Rightarrow> bytes list" where
  "stored_items m = map bitem (filter (\<lambda>b. dib b \<noteq> 0) (buckets m))"

lemma mset_stored_items: "mset (stored_items m) = image_mset snd (ents (buckets m))"
  by (simp add: stored_items_def ents_def image_mset.compositionality comp_def)

lemma scan_loop_all:
  "scan_loop bs (\<lambda>x acc. (True, acc @ [x])) acc =
     (True, acc @ map bitem (filter (\<lambda>b. dib b \<noteq> 0) bs))"
  by (induction bs arbitrary: acc) auto

text \<open>Repeated calls of \<open>hashmap_iter\<close> from a cursor, at most \<open>fuel\<close> of them.\<close>

fun iter_from :: "nat \<Rightarrow> hashmap \<Rightarrow> nat \<Rightarrow> bytes list option" where
  "iter_from 0 m i = None"
| "iter_from (Suc fuel) m i =
     (case hashmap_iter m i of
        None \<Rightarrow> None
      | Some (_, None) \<Rightarrow> Some []
      | Some (i', Some x) \<Rightarrow> map_option ((#) x) (iter_from fuel m i'))"

lemma hashmap_iter_step:
  assumes "length (buckets m) = nbuckets m"
  shows "(\<exists>i'. hashmap_iter m i = Some (i', None) \<and> filter (\<lambda>b. dib b \<noteq> 0) (drop i (buckets m)) = []) \<or>
    (\<exists>i' b. hashmap_iter m i = Some (i', Some (bitem b)) \<and> i < i' \<and> i < nbuckets m \<and>
       filter (\<lambda>b. dib b \<noteq> 0) (drop i (buckets m)) = b # filter (\<lambda>b. dib b \<noteq> 0) (drop i' (buckets m)))"
  using assms
proof (induction m i rule: hashmap_iter.induct)
  case (1 m i)
  show ?case
  proof (cases "nbuckets m \<le> i")
    case True
    then show ?thesis using 1(2) by (subst hashmap_iter.simps) simp
  next
    case False
    then have i: "i < length (buckets m)" using 1(2) by simp
    note dr = Cons_nth_drop_Suc [OF i, symmetric]
    show ?thesis
    proof (cases "dib (buckets m ! i) = 0")
      case True
      have "hashmap_iter m i = hashmap_iter m (Suc i)"
        using False True i by (subst hashmap_iter.simps) (simp add: urd_in)
      with 1(1) [OF False urd_in [OF i] True 1(2)] show ?thesis
        unfolding dr using True False by (auto dest: Suc_lessD)
    next
      case nz: False
      have "hashmap_iter m i = Some (Suc i, Some (bitem (buckets m ! i)))"
        using False nz i by (subst hashmap_iter.simps) (simp add: urd_in)
      with nz False show ?thesis unfolding dr by auto
    qed
  qed
qed

lemma iter_from_all:
  assumes "length (buckets m) = nbuckets m" and "nbuckets m - i < fuel"
  shows "iter_from fuel m i = Some (map bitem (filter (\<lambda>b. dib b \<noteq> 0) (drop i (buckets m))))"
  using assms(2)
proof (induction fuel arbitrary: i)
  case 0
  then show ?case by simp
next
  case (Suc fuel)
  from hashmap_iter_step [OF assms(1), of i] show ?case
  proof (elim disjE exE conjE)
    fix i' assume "hashmap_iter m i = Some (i', None)" "filter (\<lambda>b. dib b \<noteq> 0) (drop i (buckets m)) = []"
    then show ?thesis by simp
  next
    fix i' b assume h: "hashmap_iter m i = Some (i', Some (bitem b))" "i < i'" "i < nbuckets m"
      "filter (\<lambda>b. dib b \<noteq> 0) (drop i (buckets m)) = b # filter (\<lambda>b. dib b \<noteq> 0) (drop i' (buckets m))"
    then have "iter_from fuel m i' = Some (map bitem (filter (\<lambda>b. dib b \<noteq> 0) (drop i' (buckets m))))"
      using Suc.prems by (intro Suc.IH) simp
    with h show ?thesis by simp
  qed
qed

lemma next_cap_diverges:
  assumes "2 ^ 63 < c"
  shows "next_cap 16 c = None"
proof -
  have stuck: "n = 0 \<longrightarrow> d = 0" if ret: "next_cap n d = Some r" for n d r
  proof (rule next_cap.raw_induct [where P = "\<lambda>n d r. n = 0 \<longrightarrow> d = 0", OF _ ret])
    fix f :: "nat \<Rightarrow> nat \<Rightarrow> nat option" and n d r :: nat
    assume IH: "\<And>n d r. f n d = Some r \<Longrightarrow> n = 0 \<longrightarrow> d = 0"
      and eq: "(if n < d then f (n * 2 mod 2 ^ 64) d else Some n) = Some r"
    show "n = 0 \<longrightarrow> d = 0"
      using eq IH [of "n * 2 mod 2 ^ 64" d r] by (cases "n < d") auto
  qed
  have z: "next_cap 0 c = None"
    using stuck [of 0 c] assms by (cases "next_cap 0 c") auto
  have "next_cap (2 ^ k) c = None" if "k \<le> 63" for k
    using that
  proof (induction "63 - k" arbitrary: k)
    case 0
    then have "k = 63" by simp
    with assms z show ?case by (subst next_cap.simps) simp
  next
    case (Suc d)
    have k: "Suc k \<le> 63" using Suc.hyps(2) by simp
    then have le: "(2 :: nat) ^ Suc k \<le> 2 ^ 63" by (rule power_increasing) simp
    then have "(2 :: nat) ^ k * 2 mod 2 ^ 64 = 2 ^ Suc k" by simp
    moreover have "(2 :: nat) ^ k < c" using le assms by simp
    ultimately have "next_cap (2 ^ k) c = next_cap (2 ^ Suc k) c"
      by (subst next_cap.simps) simp
    then show ?case using Suc.hyps(1) [of "Suc k"] Suc.hyps(2) k by simp
  qed
  from this [of 4] show ?thesis by simp
qed

section \<open>Properties\<close>

text \<open>A concrete map for the witnesses: one-byte items, all with the same hash.\<close>

definition sample_hash :: "bytes \<Rightarrow> u64 \<Rightarrow> u64 \<Rightarrow> u64" where
  "sample_hash x s0 s1 = 0xFFFF000000000007"

definition sample_compare :: "bytes \<Rightarrow> bytes \<Rightarrow> int" where
  "sample_compare x y = (if x = y then 0 else 1)"

definition sample_map :: hashmap where
  "sample_map = the (the (hashmap_new (True, True) 1 0 3 4 sample_hash (Some sample_compare) False))"

lemma sample_map_new:
  "hashmap_new (True, True) 1 0 3 4 sample_hash (Some sample_compare) False = Some (Some sample_map)"
  by (simp add: sample_map_def hashmap_new_def hashmap_new_with_allocator_def Let_def)

lemma align_ptr_9: "align_ptr 9 = 16"
  by (simp add: align_ptr.simps)

lemma sample_map_ok:
  "wf_map sample_map" "callbacks_ok sample_map" "can_grow sample_map" "elsize sample_map = 1"
  "count sample_map = 0" "growat sample_map = 9" "cap sample_map = 16"
proof -
  show "wf_map sample_map" "elsize sample_map = 1"
    using new_ok [of 0 1 3 4 sample_hash "Some sample_compare" False] sample_map_new align_ptr_9 by auto
  show "callbacks_ok sample_map"
    by (simp add: callbacks_ok_def eqv_def kmatch_def get_hash_def sample_hash_def sample_compare_def
        sample_map_def hashmap_new_def hashmap_new_with_allocator_def Let_def)
  show "can_grow sample_map" "count sample_map = 0" "growat sample_map = 9" "cap sample_map = 16"
    by (simp_all add: can_grow_def sample_map_def hashmap_new_def hashmap_new_with_allocator_def Let_def
        align_ptr_9 percent_GROW_AT growat_of_60)
qed

text \<open>
  C3: \<open>hashmap_get\<close> returns exactly what a linear scan over all buckets returns, and its probing
  loop always ends, for every well-formed map and every key.
\<close>

theorem hashmap_get_is_scan:
  assumes "wf_map m" and "callbacks_ok m" and "length k = elsize m"
  shows "hashmap_get m k = Some (alpha m k)"
  using assms by (rule get_ok)

theorem hashmap_get_is_scan_witness: "hashmap_get sample_map [5] = Some (alpha sample_map [5])"
  by (rule hashmap_get_is_scan) (simp_all add: sample_map_ok)

text \<open>
  C1: \<open>hashmap_set\<close> returns the item it replaces, stores the new item, keeps every other key's
  item, counts new keys, and keeps the map well-formed; its loops end. It may resize first, for
  which the allocator has to succeed.
\<close>

theorem hashmap_set_correct:
  assumes "wf_map m" and "callbacks_ok m" and "length x = elsize m" and "can_grow m"
    and "growat m \<le> count m \<Longrightarrow> ok = (True, True)"
  shows "\<exists>m'. hashmap_set ok m x = Some (m', alpha m x) \<and> wf_map m' \<and> same_config m m' \<and>
     count m' = (if alpha m x = None then count m + 1 else count m) \<and> \<not> oom m' \<and>
     (\<forall>k. length k = elsize m \<longrightarrow> alpha m' k = (if eqv m x k then Some x else alpha m k))"
  using assms by (rule set_ok)

theorem hashmap_set_correct_witness:
  "\<exists>m'. hashmap_set (False, False) sample_map [5] = Some (m', alpha sample_map [5]) \<and> wf_map m' \<and>
     same_config sample_map m' \<and>
     count m' = (if alpha sample_map [5] = None then count sample_map + 1 else count sample_map) \<and>
     \<not> oom m' \<and> (\<forall>k. length k = elsize sample_map \<longrightarrow>
       alpha m' k = (if eqv sample_map [5] k then Some [5] else alpha sample_map k))"
  by (rule hashmap_set_correct) (simp_all add: sample_map_ok)

text \<open>
  C2: \<open>hashmap_delete\<close> returns the item stored under the key, removes it, keeps every other key's
  item through the backward shift and the shrinking resize, whatever the allocator answers.
\<close>

theorem hashmap_delete_correct:
  assumes "wf_map m" and "callbacks_ok m" and "length x = elsize m" and "count m < 2 ^ 16"
  shows "\<exists>m'. hashmap_delete ok m x = Some (m', alpha m x) \<and> wf_map m' \<and> same_config m m' \<and>
     count m' = (if alpha m x = None then count m else count m - 1) \<and>
     (\<forall>k. length k = elsize m \<longrightarrow> alpha m' k = (if eqv m x k then None else alpha m k))"
  using assms by (rule delete_ok)

theorem hashmap_delete_correct_witness:
  "\<exists>m'. hashmap_delete (False, True) sample_map [5] = Some (m', alpha sample_map [5]) \<and> wf_map m' \<and>
     same_config sample_map m' \<and>
     count m' = (if alpha sample_map [5] = None then count sample_map else count sample_map - 1) \<and>
     (\<forall>k. length k = elsize sample_map \<longrightarrow>
       alpha m' k = (if eqv sample_map [5] k then None else alpha sample_map k))"
  by (rule hashmap_delete_correct) (simp_all add: sample_map_ok)

text \<open>
  C4: when the table has to grow and the allocator fails, \<open>hashmap_set\<close> returns NULL, sets the
  out-of-memory flag and changes nothing else.
\<close>

theorem hashmap_set_out_of_memory:
  assumes "wf_map m" and "can_grow m" and "growat m \<le> count m" and "ok \<noteq> (True, True)"
  shows "hashmap_set ok m x = Some (m\<lparr>oom := True\<rparr>, None)"
  using assms by (rule set_oom)

theorem hashmap_set_out_of_memory_witness:
  "hashmap_set (True, False) (sample_map\<lparr>growat := 0\<rparr>) [7] = Some (sample_map\<lparr>growat := 0, oom := True\<rparr>, None)"
proof -
  have "wf_map (sample_map\<lparr>growat := 0\<rparr>)" "can_grow (sample_map\<lparr>growat := 0\<rparr>)"
    using sample_map_ok(1,3) unfolding wf_map_def can_grow_def get_hash_def
    by (simp_all, metis)
  then show ?thesis
    using hashmap_set_out_of_memory [of "sample_map\<lparr>growat := 0\<rparr>" "(True, False)" "[7]"]
    by (simp add: sample_map_ok)
qed

text \<open>
  \<open>hashmap_new\<close> returns an empty well-formed map whose capacity is the least power of two
  from 16 that holds the requested one.
\<close>

theorem hashmap_new_correct:
  assumes "c \<le> 2 ^ 63" and "align_ptr (8 + sz) * (2 * c + 16) < 2 ^ 64"
  shows "\<exists>m. hashmap_new (True, True) sz c s0 s1 hash cmp elfree = Some (Some m) \<and> wf_map m \<and>
     ents (buckets m) = {#} \<and> elsize m = sz \<and> compare_fn m = cmp \<and> hash_fn m = hash \<and>
     seed0 m = s0 \<and> seed1 m = s1 \<and> c \<le> nbuckets m \<and> nbuckets m \<le> 2 * c + 16"
  using assms by (rule new_ok)

theorem hashmap_new_correct_witness:
  "\<exists>m. hashmap_new (True, True) 1 100 3 4 sample_hash (Some sample_compare) False = Some (Some m) \<and>
     wf_map m \<and> ents (buckets m) = {#} \<and> elsize m = 1 \<and> compare_fn m = Some sample_compare \<and>
     hash_fn m = sample_hash \<and> seed0 m = 3 \<and> seed1 m = 4 \<and> 100 \<le> nbuckets m \<and> nbuckets m \<le> 2 * 100 + 16"
  by (rule hashmap_new_correct) (simp_all add: align_ptr_9)

text \<open>
  C5: a capacity above \<open>2 ^ 63\<close> makes the doubling loop of \<open>hashmap_new\<close> wrap to 0 and run forever.
\<close>

theorem hashmap_new_diverges:
  assumes "2 ^ 63 < c"
  shows "hashmap_new ok sz c s0 s1 hash cmp elfree = None"
  using next_cap_diverges [OF assms] assms
  by (simp add: hashmap_new_def hashmap_new_with_allocator_def)

theorem hashmap_new_diverges_witness:
  "hashmap_new (True, True) 1 (2 ^ 63 + 1) 0 0 sample_hash None False = None"
  by (rule hashmap_new_diverges) simp

text \<open>
  C6: a successful resize keeps the stored entries and all settings but the growth threshold, which
  it resets to 60 per cent of the new size whatever load factor the user had set.
\<close>

theorem resize_keeps_entries_resets_growat:
  assumes "wf_map m" and "nb = 2 ^ k" and "k \<le> 63" and "cap m \<le> nb" and "bucketsz m * nb < 2 ^ 64"
    and "count m < nb" and "count m < 2 ^ 16"
  shows "\<exists>m'. resize (True, True) m nb = Some (m', True) \<and> wf_map m' \<and> same_config m m' \<and>
     ents (buckets m') = ents (buckets m) \<and> nbuckets m' = nb \<and> growat m' = growat_of nb 60 \<and>
     count m' = count m \<and> oom m' = oom m"
  using assms by (rule resize_ok)

theorem resize_keeps_entries_resets_growat_witness:
  "\<exists>m'. resize (True, True) sample_map 32 = Some (m', True) \<and> wf_map m' \<and> same_config sample_map m' \<and>
     ents (buckets m') = ents (buckets sample_map) \<and> nbuckets m' = 32 \<and> growat m' = growat_of 32 60 \<and>
     count m' = count sample_map \<and> oom m' = oom sample_map"
  by (rule resize_keeps_entries_resets_growat [of _ _ 5])
    (simp_all add: sample_map_ok, simp add: sample_map_def hashmap_new_def hashmap_new_with_allocator_def
      Let_def align_ptr_9)

text \<open>
  C7: calling \<open>hashmap_iter\<close> from cursor 0 until it returns false yields the same items in the same
  order as one \<open>hashmap_scan\<close>, each stored entry exactly once.
\<close>

theorem hashmap_iter_visits_all:
  assumes "wf_map m"
  shows "iter_from (nbuckets m + 1) m 0 = Some (stored_items m) \<and>
     hashmap_scan m (\<lambda>x acc. (True, acc @ [x])) [] = (True, stored_items m) \<and>
     mset (stored_items m) = image_mset snd (ents (buckets m))"
proof (intro conjI)
  show "iter_from (nbuckets m + 1) m 0 = Some (stored_items m)"
    using iter_from_all [OF wf_mapD(2) [OF assms], of 0 "nbuckets m + 1"] by (simp add: stored_items_def)
  show "hashmap_scan m (\<lambda>x acc. (True, acc @ [x])) [] = (True, stored_items m)"
    using wf_mapD(2) [OF assms] by (simp add: stored_items_def hashmap_scan_def scan_loop_all)
  show "mset (stored_items m) = image_mset snd (ents (buckets m))" by (rule mset_stored_items)
qed

theorem hashmap_iter_visits_all_witness:
  "iter_from (nbuckets sample_map + 1) sample_map 0 = Some (stored_items sample_map) \<and>
     hashmap_scan sample_map (\<lambda>x acc. (True, acc @ [x])) [] = (True, stored_items sample_map) \<and>
     mset (stored_items sample_map) = image_mset snd (ents (buckets sample_map))"
  by (rule hashmap_iter_visits_all) (rule sample_map_ok)

end
