(* ===== verification/HashFns.thy ===== *)
theory HashFns
  imports Prelude
begin

unbundle bit_operations_syntax

text \<open>
  The three hash functions of \<^verbatim>\<open>C/02_hash/02_hashmap/hashmap.c\<close>: SipHash-2-4
  (\<open>SIP64\<close>), Murmur3 (\<open>MM86128\<close>) and xxHash (\<open>xxh3\<close>), on the bytes of the data.
  Words are read from memory in little-endian order, as on the hosts the program is built for.
  In \<open>MM86128\<close> a tail byte shifted left by 24 as an \<open>int\<close> is taken as the 32-bit pattern.
\<close>

section \<open>Words in memory\<close>

text \<open>\<open>U8TO64_LE\<close> (also what \<open>XXH_read64\<close> reads) and \<open>XXH_read32\<close>.\<close>

definition U8TO64_LE :: "bytes \<Rightarrow> u64" where
  "U8TO64_LE p = ucast (p ! 0) OR push_bit 8 (ucast (p ! 1)) OR push_bit 16 (ucast (p ! 2)) OR
     push_bit 24 (ucast (p ! 3)) OR push_bit 32 (ucast (p ! 4)) OR push_bit 40 (ucast (p ! 5)) OR
     push_bit 48 (ucast (p ! 6)) OR push_bit 56 (ucast (p ! 7))"

definition XXH_read64 :: "bytes \<Rightarrow> u64" where
  "XXH_read64 p = U8TO64_LE p"

definition XXH_read32 :: "bytes \<Rightarrow> u32" where
  "XXH_read32 p = ucast (p ! 0) OR push_bit 8 (ucast (p ! 1)) OR push_bit 16 (ucast (p ! 2)) OR
     push_bit 24 (ucast (p ! 3))"

definition U32TO8_LE :: "u32 \<Rightarrow> bytes" where
  "U32TO8_LE v = [ucast v, ucast (drop_bit 8 v), ucast (drop_bit 16 v), ucast (drop_bit 24 v)]"

definition U64TO8_LE :: "u64 \<Rightarrow> bytes" where
  "U64TO8_LE v = U32TO8_LE (ucast v) @ U32TO8_LE (ucast (drop_bit 32 v))"

section \<open>SipHash\<close>

definition ROTL :: "u64 \<Rightarrow> nat \<Rightarrow> u64" where
  "ROTL x b = push_bit b x OR drop_bit (64 - b) x"

type_synonym sip = "u64 \<times> u64 \<times> u64 \<times> u64"

fun SIPROUND :: "sip \<Rightarrow> sip" where
  "SIPROUND (v0, v1, v2, v3) =
     (let v0 = v0 + v1; v1 = ROTL v1 13; v1 = v1 XOR v0; v0 = ROTL v0 32;
          v2 = v2 + v3; v3 = ROTL v3 16; v3 = v3 XOR v2;
          v0 = v0 + v3; v3 = ROTL v3 21; v3 = v3 XOR v0;
          v2 = v2 + v1; v1 = ROTL v1 17; v1 = v1 XOR v2; v2 = ROTL v2 32
      in (v0, v1, v2, v3))"

fun sip_absorb :: "u64 \<Rightarrow> sip \<Rightarrow> sip" where
  "sip_absorb m (v0, v1, v2, v3) =
     (case SIPROUND (SIPROUND (v0, v1, v2, v3 XOR m)) of (w0, w1, w2, w3) \<Rightarrow> (w0 XOR m, w1, w2, w3))"

text \<open>\<open>for (; in != end; in += 8)\<close>: \<open>n\<close> blocks; the rest of the input is returned.\<close>

fun sip_blocks :: "nat \<Rightarrow> bytes \<Rightarrow> sip \<Rightarrow> bytes \<times> sip" where
  "sip_blocks 0 inp v = (inp, v)"
| "sip_blocks (Suc n) inp v = sip_blocks n (drop 8 inp) (sip_absorb (U8TO64_LE inp) v)"

definition sip_tail :: "bytes \<Rightarrow> nat \<Rightarrow> u64 \<Rightarrow> u64" where
  "sip_tail inp left b =
     (let b = (if 7 \<le> left then b OR push_bit 48 (ucast (inp ! 6)) else b);
          b = (if 6 \<le> left then b OR push_bit 40 (ucast (inp ! 5)) else b);
          b = (if 5 \<le> left then b OR push_bit 32 (ucast (inp ! 4)) else b);
          b = (if 4 \<le> left then b OR push_bit 24 (ucast (inp ! 3)) else b);
          b = (if 3 \<le> left then b OR push_bit 16 (ucast (inp ! 2)) else b);
          b = (if 2 \<le> left then b OR push_bit 8 (ucast (inp ! 1)) else b)
      in (if 1 \<le> left then b OR ucast (inp ! 0) else b))"

definition SIP64 :: "bytes \<Rightarrow> u64 \<Rightarrow> u64 \<Rightarrow> u64" where
  "SIP64 inp seed0 seed1 =
     (let k0 = U8TO64_LE (U64TO8_LE seed0); k1 = U8TO64_LE (U64TO8_LE seed1);
          v3 = 0x7465646279746573 XOR k1; v2 = 0x6c7967656e657261 XOR k0;
          v1 = 0x646f72616e646f6d XOR k1; v0 = 0x736f6d6570736575 XOR k0;
          inlen = length inp;
          (rest, v) = sip_blocks (inlen div 8) inp (v0, v1, v2, v3);
          b = sip_tail rest (inlen mod 8) (push_bit 56 (of_nat inlen));
          (v0, v1, v2, v3) = sip_absorb b v;
          (v0, v1, v2, v3) = SIPROUND (SIPROUND (SIPROUND (SIPROUND (v0, v1, v2 XOR 0xff, v3))));
          b = v0 XOR v1 XOR v2 XOR v3
      in U8TO64_LE (U64TO8_LE b))"

section \<open>Murmur3\<close>

definition ROTL32 :: "u32 \<Rightarrow> nat \<Rightarrow> u32" where
  "ROTL32 x r = push_bit r x OR drop_bit (32 - r) x"

definition FMIX32 :: "u32 \<Rightarrow> u32" where
  "FMIX32 h = (let h = h XOR drop_bit 16 h; h = h * 0x85ebca6b; h = h XOR drop_bit 13 h;
                   h = h * 0xc2b2ae35 in h XOR drop_bit 16 h)"

type_synonym mur = "u32 \<times> u32 \<times> u32 \<times> u32"

definition mm_c1 :: u32 where "mm_c1 = 0x239b961b"
definition mm_c2 :: u32 where "mm_c2 = 0xab0e9789"
definition mm_c3 :: u32 where "mm_c3 = 0x38b34ae5"
definition mm_c4 :: u32 where "mm_c4 = 0xa1e38b93"

text \<open>\<open>k *= a; k = ROTL32(k, r); k *= b\<close>\<close>

definition mm_scramble :: "u32 \<Rightarrow> nat \<Rightarrow> u32 \<Rightarrow> u32 \<Rightarrow> u32" where
  "mm_scramble a r b k = ROTL32 (k * a) r * b"

fun mm_block :: "bytes \<Rightarrow> mur \<Rightarrow> mur" where
  "mm_block p (h1, h2, h3, h4) =
     (let k1 = XXH_read32 p; k2 = XXH_read32 (drop 4 p); k3 = XXH_read32 (drop 8 p);
          k4 = XXH_read32 (drop 12 p);
          h1 = h1 XOR mm_scramble mm_c1 15 mm_c2 k1;
          h1 = ROTL32 h1 19; h1 = h1 + h2; h1 = h1 * 5 + 0x561ccd1b;
          h2 = h2 XOR mm_scramble mm_c2 16 mm_c3 k2;
          h2 = ROTL32 h2 17; h2 = h2 + h3; h2 = h2 * 5 + 0x0bcaa747;
          h3 = h3 XOR mm_scramble mm_c3 17 mm_c4 k3;
          h3 = ROTL32 h3 15; h3 = h3 + h4; h3 = h3 * 5 + 0x96cd1c35;
          h4 = h4 XOR mm_scramble mm_c4 18 mm_c1 k4;
          h4 = ROTL32 h4 13; h4 = h4 + h1; h4 = h4 * 5 + 0x32ac3b17
      in (h1, h2, h3, h4))"

fun mm_blocks :: "nat \<Rightarrow> bytes \<Rightarrow> mur \<Rightarrow> bytes \<times> mur" where
  "mm_blocks 0 p h = (p, h)"
| "mm_blocks (Suc n) p h = mm_blocks n (drop 16 p) (mm_block p h)"

text \<open>One byte of the tail, shifted; absent bytes leave the word as it is.\<close>

definition tail_byte :: "bytes \<Rightarrow> nat \<Rightarrow> nat \<Rightarrow> u32 \<Rightarrow> u32" where
  "tail_byte rest i s k = (if i < length rest then k XOR push_bit s (ucast (rest ! i)) else k)"

text \<open>The \<open>switch (len & 15)\<close> with its fall-throughs, on the tail of less than 16 bytes.\<close>

fun mm_tail :: "bytes \<Rightarrow> mur \<Rightarrow> mur" where
  "mm_tail rest (h1, h2, h3, h4) =
     (let k4 = tail_byte rest 12 0 (tail_byte rest 13 8 (tail_byte rest 14 16 0));
          k3 = tail_byte rest 8 0 (tail_byte rest 9 8 (tail_byte rest 10 16 (tail_byte rest 11 24 0)));
          k2 = tail_byte rest 4 0 (tail_byte rest 5 8 (tail_byte rest 6 16 (tail_byte rest 7 24 0)));
          k1 = tail_byte rest 0 0 (tail_byte rest 1 8 (tail_byte rest 2 16 (tail_byte rest 3 24 0)))
      in (if 0 < length rest then h1 XOR mm_scramble mm_c1 15 mm_c2 k1 else h1,
          if 4 < length rest then h2 XOR mm_scramble mm_c2 16 mm_c3 k2 else h2,
          if 8 < length rest then h3 XOR mm_scramble mm_c3 17 mm_c4 k3 else h3,
          if 12 < length rest then h4 XOR mm_scramble mm_c4 18 mm_c1 k4 else h4))"

fun mm_finish :: "nat \<Rightarrow> mur \<Rightarrow> u64" where
  "mm_finish len (h1, h2, h3, h4) =
     (let h1 = h1 XOR of_nat len; h2 = h2 XOR of_nat len; h3 = h3 XOR of_nat len; h4 = h4 XOR of_nat len;
          h1 = h1 + h2; h1 = h1 + h3; h1 = h1 + h4;
          h2 = h2 + h1; h3 = h3 + h1; h4 = h4 + h1;
          h1 = FMIX32 h1; h2 = FMIX32 h2; h3 = FMIX32 h3; h4 = FMIX32 h4;
          h1 = h1 + h2; h1 = h1 + h3; h1 = h1 + h4;
          h2 = h2 + h1
      in push_bit 32 (ucast h2) OR ucast h1)"

definition MM86128 :: "bytes \<Rightarrow> u32 \<Rightarrow> u64" where
  "MM86128 key seed =
     (let len = length key; (rest, h) = mm_blocks (len div 16) key (seed, seed, seed, seed)
      in mm_finish len (mm_tail rest h))"

section \<open>xxHash\<close>

definition XXH_PRIME_1 :: u64 where "XXH_PRIME_1 = 11400714785074694791"
definition XXH_PRIME_2 :: u64 where "XXH_PRIME_2 = 14029467366897019727"
definition XXH_PRIME_3 :: u64 where "XXH_PRIME_3 = 1609587929392839161"
definition XXH_PRIME_4 :: u64 where "XXH_PRIME_4 = 9650029242287828579"
definition XXH_PRIME_5 :: u64 where "XXH_PRIME_5 = 2870177450012600261"

definition XXH_rotl64 :: "u64 \<Rightarrow> nat \<Rightarrow> u64" where
  "XXH_rotl64 x r = push_bit r x OR drop_bit (64 - r) x"

definition xx_round :: "bytes \<Rightarrow> u64 \<Rightarrow> u64" where
  "xx_round p v = XXH_rotl64 (v + XXH_read64 p * XXH_PRIME_2) 31 * XXH_PRIME_1"

text \<open>\<open>do \<dots> while (p <= limit)\<close>: a block is taken while 32 bytes are left.\<close>

function xx_stripes :: "bytes \<Rightarrow> sip \<Rightarrow> bytes \<times> sip" where
  "xx_stripes p (v1, v2, v3, v4) =
     (let v = (xx_round p v1, xx_round (drop 8 p) v2, xx_round (drop 16 p) v3, xx_round (drop 24 p) v4);
          p' = drop 32 p
      in if 32 \<le> length p' then xx_stripes p' v else (p', v))"
  by pat_completeness auto
termination
  by (relation "measure (\<lambda>(p, v). length p)") auto

declare xx_stripes.simps [simp del]

definition xx_merge :: "u64 \<Rightarrow> u64 \<Rightarrow> u64" where
  "xx_merge h v = (h XOR (XXH_rotl64 (v * XXH_PRIME_2) 31 * XXH_PRIME_1)) * XXH_PRIME_1 + XXH_PRIME_4"

function xx_words :: "bytes \<Rightarrow> u64 \<Rightarrow> bytes \<times> u64" where
  "xx_words p h =
     (if 8 \<le> length p
      then let k1 = XXH_rotl64 (XXH_read64 p * XXH_PRIME_2) 31 * XXH_PRIME_1
           in xx_words (drop 8 p) (XXH_rotl64 (h XOR k1) 27 * XXH_PRIME_1 + XXH_PRIME_4)
      else (p, h))"
  by pat_completeness auto
termination
  by (relation "measure (\<lambda>(p, h). length p)") auto

declare xx_words.simps [simp del]

fun xx_bytes :: "bytes \<Rightarrow> u64 \<Rightarrow> u64" where
  "xx_bytes [] h = h"
| "xx_bytes (b # p) h = xx_bytes p (XXH_rotl64 (h XOR (ucast b * XXH_PRIME_5)) 11 * XXH_PRIME_1)"

definition xxh3 :: "bytes \<Rightarrow> u64 \<Rightarrow> u64" where
  "xxh3 data seed =
     (let len = length data;
          (p, h64) =
            (if 32 \<le> len
             then case xx_stripes data (seed + XXH_PRIME_1 + XXH_PRIME_2, seed + XXH_PRIME_2, seed + 0,
                    seed - XXH_PRIME_1) of (p, v1, v2, v3, v4) \<Rightarrow>
                  (p, xx_merge (xx_merge (xx_merge (xx_merge
                     (XXH_rotl64 v1 1 + XXH_rotl64 v2 7 + XXH_rotl64 v3 12 + XXH_rotl64 v4 18) v1) v2) v3) v4)
             else (data, seed + XXH_PRIME_5));
          h64 = h64 + of_nat len;
          (p, h64) = xx_words p h64;
          (p, h64) =
            (if 4 \<le> length p
             then (drop 4 p,
                   XXH_rotl64 (h64 XOR (ucast (XXH_read32 p) * XXH_PRIME_1)) 23 * XXH_PRIME_2 + XXH_PRIME_3)
             else (p, h64));
          h64 = xx_bytes p h64;
          h64 = h64 XOR drop_bit 33 h64; h64 = h64 * XXH_PRIME_2;
          h64 = h64 XOR drop_bit 29 h64; h64 = h64 * XXH_PRIME_3
      in h64 XOR drop_bit 32 h64)"

section \<open>The public functions\<close>

definition hashmap_sip :: "bytes \<Rightarrow> u64 \<Rightarrow> u64 \<Rightarrow> u64" where
  "hashmap_sip data seed0 seed1 = SIP64 data seed0 seed1"

definition hashmap_murmur :: "bytes \<Rightarrow> u64 \<Rightarrow> u64 \<Rightarrow> u64" where
  "hashmap_murmur data seed0 seed1 = MM86128 data (ucast seed0)"

definition hashmap_xxhash3 :: "bytes \<Rightarrow> u64 \<Rightarrow> u64 \<Rightarrow> u64" where
  "hashmap_xxhash3 data seed0 seed1 = xxh3 data seed0"

section \<open>Reading back what was stored\<close>

lemma U8TO64_LE_U64TO8_LE: "U8TO64_LE (U64TO8_LE v) = v"
proof (rule bit_word_eqI)
  fix n assume "n < LENGTH(64)"
  then consider "n < 8" | "8 \<le> n" "n < 16" | "16 \<le> n" "n < 24" | "24 \<le> n" "n < 32"
    | "32 \<le> n" "n < 40" | "40 \<le> n" "n < 48" | "48 \<le> n" "n < 56" | "56 \<le> n" "n < 64"
    by fastforce
  then show "bit (U8TO64_LE (U64TO8_LE v)) n = bit v n"
    by cases (simp_all add: U8TO64_LE_def U64TO8_LE_def U32TO8_LE_def bit_simps less_diff_conv2)
qed

section \<open>SipHash as a fold\<close>

text \<open>The published definition: the padded message is cut into words that are absorbed in turn.\<close>

definition sip_pad :: "bytes \<Rightarrow> bytes" where
  "sip_pad data = data @ replicate (7 - length data mod 8) 0 @ [of_nat (length data)]"

fun sip_words :: "nat \<Rightarrow> bytes \<Rightarrow> u64 list" where
  "sip_words 0 p = []"
| "sip_words (Suc n) p = U8TO64_LE p # sip_words n (drop 8 p)"

fun sip_final :: "sip \<Rightarrow> u64" where
  "sip_final (v0, v1, v2, v3) =
     (case (SIPROUND ^^ 4) (v0, v1, v2 XOR 0xff, v3) of (w0, w1, w2, w3) \<Rightarrow> w0 XOR w1 XOR w2 XOR w3)"

definition siphash_2_4 :: "u64 \<Rightarrow> u64 \<Rightarrow> bytes \<Rightarrow> u64" where
  "siphash_2_4 k0 k1 data =
     sip_final (fold sip_absorb (sip_words (length data div 8 + 1) (sip_pad data))
       (0x736f6d6570736575 XOR k0, 0x646f72616e646f6d XOR k1,
        0x6c7967656e657261 XOR k0, 0x7465646279746573 XOR k1))"

lemma sip_blocks_fold:
  "sip_blocks n inp v = (drop (8 * n) inp, fold sip_absorb (sip_words n inp) v)"
  by (induction n inp v rule: sip_blocks.induct) (simp_all add: add.commute)

lemma U8TO64_LE_append: "8 \<le> length p \<Longrightarrow> U8TO64_LE (p @ q) = U8TO64_LE p"
  by (cases "p = []") (simp_all add: U8TO64_LE_def nth_append)

lemma sip_words_append: "8 * n \<le> length p \<Longrightarrow> sip_words n (p @ q) = sip_words n p"
  by (induction n p rule: sip_words.induct) (simp_all add: U8TO64_LE_append)

lemma sip_words_Suc: "sip_words (Suc n) p = sip_words n p @ [U8TO64_LE (drop (8 * n) p)]"
  by (induction n p rule: sip_words.induct) (simp_all add: add.commute)

lemma push_bit_56_of_nat: "push_bit 56 (of_nat n :: u64) = push_bit 56 (ucast (of_nat n :: u8))"
  by (rule bit_word_eqI) (auto simp: bit_simps)

lemma sip_tail_pad:
  assumes "length r < 8"
  shows "sip_tail r (length r) (push_bit 56 (of_nat n)) =
    U8TO64_LE (r @ replicate (7 - length r) 0 @ [of_nat n])"
proof -
  have "length r = 0 \<or> length r = 1 \<or> length r = 2 \<or> length r = 3 \<or> length r = 4 \<or>
      length r = 5 \<or> length r = 6 \<or> length r = 7" using assms by linarith
  then show ?thesis
    by (elim disjE) (simp_all add: sip_tail_def U8TO64_LE_def nth_append push_bit_56_of_nat or.commute or.left_commute)
qed

lemma sip_words_pad:
  "sip_words (length data div 8 + 1) (sip_pad data) =
   sip_words (length data div 8) data @
     [sip_tail (drop (8 * (length data div 8)) data) (length data mod 8) (push_bit 56 (of_nat (length data)))]"
proof -
  define n r where "n = length data div 8" and "r = drop (8 * n) data"
  have le: "8 * n \<le> length data" and len: "length r = length data mod 8" and "length r < 8"
    by (simp_all add: n_def r_def minus_mult_div_eq_mod)
  have "drop (8 * n) (sip_pad data) = r @ replicate (7 - length r) 0 @ [of_nat (length data)]"
    unfolding sip_pad_def len using le by (simp add: r_def)
  then have "sip_words (Suc n) (sip_pad data) =
      sip_words n (sip_pad data) @ [sip_tail r (length r) (push_bit 56 (of_nat (length data)))]"
    by (simp only: sip_words_Suc sip_tail_pad [OF \<open>length r < 8\<close>])
  also have "sip_words n (sip_pad data) = sip_words n data"
    unfolding sip_pad_def using le by (rule sip_words_append)
  finally show ?thesis
    unfolding len by (simp add: n_def r_def del: sip_words.simps(2))
qed

lemma funpow_4: "(f ^^ 4) x = f (f (f (f x)))"
  by (simp add: numeral_eq_Suc)

lemma SIP64_eq: "SIP64 data k0 k1 = siphash_2_4 k0 k1 data"
  unfolding SIP64_def siphash_2_4_def sip_words_pad
  by (simp add: U8TO64_LE_U64TO8_LE sip_blocks_fold Let_def funpow_4
        split: prod.splits del: SIPROUND.simps sip_absorb.simps)

section \<open>Property\<close>

text \<open>
  C31: \<open>hashmap_sip\<close> is SipHash-2-4: whatever the length of the data, the block loop, the
  fall-through switch on the last bytes and the length byte together absorb exactly the words of
  the padded message, in order, and four rounds finish.
\<close>

theorem hashmap_sip_is_siphash:
  "hashmap_sip data seed0 seed1 = siphash_2_4 seed0 seed1 data"
  by (simp only: hashmap_sip_def SIP64_eq)

end
