(* ===== verification/Loops.thy ===== *)
theory Loops
  imports Prelude
begin

text \<open>
  The C loops the components share, as executable combinators over the option monad, each with
  the rule that proves it total: an invariant, a measure and the value at the exit.
\<close>

section \<open>Loops with break and return\<close>

text \<open>\<open>while (1) { \<dots> }\<close>: the body answers \<open>Inl s\<close> to go round again and
  \<open>Inr r\<close> to leave the loop. A loop that does not end is \<open>None\<close>.\<close>

partial_function (option) loop :: "('s \<Rightarrow> ('s + 'r) option) \<Rightarrow> 's \<Rightarrow> 'r option" where
  [code]: "loop body s = Option.bind (body s) (\<lambda>x. case x of Inl t \<Rightarrow> loop body t | Inr r \<Rightarrow> Some r)"

lemma loop_stop: "body s = Some (Inr r) \<Longrightarrow> loop body s = Some r"
  by (subst loop.simps) simp

lemma loop_next: "body s = Some (Inl t) \<Longrightarrow> loop body s = loop body t"
  by (subst loop.simps) simp

lemma loop_total:
  fixes m :: "'s \<Rightarrow> nat"
  assumes "P s"
    and step: "\<And>s. P s \<Longrightarrow>
      (\<exists>r. body s = Some (Inr r) \<and> Q r) \<or> (\<exists>t. body s = Some (Inl t) \<and> P t \<and> m t < m s)"
  shows "\<exists>r. loop body s = Some r \<and> Q r"
  using assms(1)
proof (induction "m s" arbitrary: s rule: less_induct)
  case less
  from step [OF less.prems] show ?case
    using less.hyps by (auto simp: loop.simps [of body s])
qed

text \<open>What a loop that returned has established.\<close>

lemma loop_partial:
  assumes "loop body s = Some r" and "P s"
    and "\<And>s t. P s \<Longrightarrow> body s = Some (Inl t) \<Longrightarrow> P t"
    and "\<And>s r. P s \<Longrightarrow> body s = Some (Inr r) \<Longrightarrow> Q r"
  shows "Q r"
proof -
  have "body = body \<longrightarrow> P s \<longrightarrow> Q r"
  proof (rule loop.raw_induct [where P = "\<lambda>b s r. b = body \<longrightarrow> P s \<longrightarrow> Q r", OF _ assms(1)])
    fix lp b s r
    assume IH: "\<And>b s r. lp b s = Some r \<Longrightarrow> b = body \<longrightarrow> P s \<longrightarrow> Q r"
      and eq: "Option.bind (b s) (\<lambda>x. case x of Inl t \<Rightarrow> lp b t | Inr r \<Rightarrow> Some r) = Some r"
    show "b = body \<longrightarrow> P s \<longrightarrow> Q r"
    proof (intro impI)
      assume "b = body" and "P s"
      with eq obtain y where y: "body s = Some y" "(case y of Inl t \<Rightarrow> lp b t | Inr r \<Rightarrow> Some r) = Some r"
        by (auto simp: bind_eq_Some_conv)
      then show "Q r"
        using IH [of b] assms(3,4) \<open>P s\<close> \<open>b = body\<close> by (cases y) auto
    qed
  qed
  then show ?thesis using assms(2) by simp
qed

section \<open>Counting loops\<close>

text \<open>\<open>for (i = lo; i < hi; i++)\<close> and \<open>for (i = hi; i >= lo; i--)\<close>, where the body does
  not change the bounds.\<close>

function for_up :: "int \<Rightarrow> int \<Rightarrow> (int \<Rightarrow> 's \<Rightarrow> 's option) \<Rightarrow> 's \<Rightarrow> 's option" where
  "for_up i hi body s =
     (if i < hi then Option.bind (body i s) (for_up (i + 1) hi body) else Some s)"
  by pat_completeness auto
termination
  by (relation "measure (\<lambda>(i, hi, _). nat (hi - i))") auto

function for_down :: "int \<Rightarrow> int \<Rightarrow> (int \<Rightarrow> 's \<Rightarrow> 's option) \<Rightarrow> 's \<Rightarrow> 's option" where
  "for_down i lo body s =
     (if lo \<le> i then Option.bind (body i s) (for_down (i - 1) lo body) else Some s)"
  by pat_completeness auto
termination
  by (relation "measure (\<lambda>(i, lo, _). nat (i - lo + 1))") auto

declare for_up.simps [simp del] for_down.simps [simp del]

lemma for_up_total:
  assumes "P i s" and "i \<le> hi"
    and "\<And>j t. i \<le> j \<Longrightarrow> j < hi \<Longrightarrow> P j t \<Longrightarrow> \<exists>u. body j t = Some u \<and> P (j + 1) u"
  shows "\<exists>t. for_up i hi body s = Some t \<and> P hi t"
  using assms
proof (induction i hi body s rule: for_up.induct)
  case (1 i hi body s)
  show ?case
  proof (cases "i < hi")
    case True
    with "1.prems" obtain u where u: "body i s = Some u" "P (i + 1) u" by blast
    have "\<exists>t. for_up (i + 1) hi body u = Some t \<and> P hi t"
      using "1.IH" [OF True, of u] u "1.prems"(3) True by simp
    with u True show ?thesis by (subst for_up.simps) simp
  next
    case False
    with "1.prems" show ?thesis by (subst for_up.simps) auto
  qed
qed

lemma for_down_total:
  assumes "P i s" and "lo \<le> i + 1"
    and "\<And>j t. lo \<le> j \<Longrightarrow> j \<le> i \<Longrightarrow> P j t \<Longrightarrow> \<exists>u. body j t = Some u \<and> P (j - 1) u"
  shows "\<exists>t. for_down i lo body s = Some t \<and> P (lo - 1) t"
  using assms
proof (induction i lo body s rule: for_down.induct)
  case (1 i lo body s)
  show ?case
  proof (cases "lo \<le> i")
    case True
    with "1.prems" obtain u where u: "body i s = Some u" "P (i - 1) u" by blast
    have "\<exists>t. for_down (i - 1) lo body u = Some t \<and> P (lo - 1) t"
      using "1.IH" [OF True, of u] u "1.prems"(3) True by simp
    with u True show ?thesis by (subst for_down.simps) simp
  next
    case False
    with "1.prems" have "i = lo - 1" by simp
    with "1.prems" False show ?thesis by (subst for_down.simps) auto
  qed
qed

lemma for_up_empty: "hi \<le> i \<Longrightarrow> for_up i hi body s = Some s"
  by (subst for_up.simps) simp

lemma for_up_step: "i < hi \<Longrightarrow> for_up i hi body s = Option.bind (body i s) (for_up (i + 1) hi body)"
  by (subst for_up.simps) simp

lemma for_down_empty: "i < lo \<Longrightarrow> for_down i lo body s = Some s"
  by (subst for_down.simps) simp

lemma for_down_step: "lo \<le> i \<Longrightarrow> for_down i lo body s = Option.bind (body i s) (for_down (i - 1) lo body)"
  by (subst for_down.simps) simp

end
