(* ===== verification/Sorting.thy ===== *)
theory Sorting
  imports Loops
begin

text \<open>
  The array sorts: bubble, insertion and shell sort of
  \<^verbatim>\<open>C/00_data_structure_and_algorithms/01_sort\<close>, quick sort and heap sort of
  \<^verbatim>\<open>C/job_interview/13_quick_sort.c\<close> and \<^verbatim>\<open>22_heap_sort.c\<close>.
  An array is a list read and written through \<open>rd\<close> and \<open>wr\<close>, so that a
  result \<open>Some ys\<close> also says that no access was out of bounds; indices are C integers.
  Quick sort takes the partition function as an argument, because the file holds two of them.
\<close>

section \<open>Bubble, insertion and shell sort\<close>

definition bubble_pass :: "int \<Rightarrow> int list \<Rightarrow> int list option" where
  "bubble_pass bound data =
     for_up 0 bound (\<lambda>j data. do {
       a \<leftarrow> rd data j;
       b \<leftarrow> rd data (j + 1);
       if b < a then do {
         data \<leftarrow> wr data (j + 1) a;
         wr data j b }
       else Some data }) data"

definition bubble_sort :: "int list \<Rightarrow> int \<Rightarrow> int list option" where
  "bubble_sort data tot = for_up 0 (tot - 1) (\<lambda>i. bubble_pass (tot - 1 - i)) data"

text \<open>The inner loop of insertion (step 1) and shell sort: larger elements move up by a step,
  then \<open>tmp\<close> is put into the gap.\<close>

definition insert_elem :: "int \<Rightarrow> int \<Rightarrow> int list \<Rightarrow> int list option" where
  "insert_elem step i data = do {
     tmp \<leftarrow> rd data i;
     (j, data) \<leftarrow> loop (\<lambda>(j, data).
       if j < 0 then Some (Inr (j, data))
       else do {
         d \<leftarrow> rd data j;
         if tmp < d then do {
           data \<leftarrow> wr data (j + step) d;
           Some (Inl (j - step, data)) }
         else Some (Inr (j, data)) }) (i - step, data);
     wr data (j + step) tmp }"

definition insert_sort :: "int list \<Rightarrow> int \<Rightarrow> int list option" where
  "insert_sort data tot = for_up 1 tot (\<lambda>i. insert_elem 1 i) data"

definition shell_sort :: "int list \<Rightarrow> int \<Rightarrow> int list option" where
  "shell_sort data tot = do {
     step \<leftarrow> cdiv tot 2;
     loop (\<lambda>(step, data).
       if 0 < step then do {
         data \<leftarrow> for_up step tot (\<lambda>i. insert_elem step i) data;
         step \<leftarrow> cdiv step 2;
         Some (Inl (step, data)) }
       else Some (Inr data)) (step, data) }"

text \<open>\<open>check_sort\<close>: the number of errors it prints. It reads \<open>data[i + 1]\<close> before it
  tests the bound.\<close>

definition check_sort :: "int list \<Rightarrow> int \<Rightarrow> nat option" where
  "check_sort data tot =
     for_up 0 tot (\<lambda>i errs. do {
       a \<leftarrow> rd data i;
       b \<leftarrow> rd data (i + 1);
       Some (if b < a \<and> i + 1 < tot then errs + 1 else errs) }) 0"

section \<open>Quick sort\<close>

text \<open>\<open>partition\<close>, with the array of its two swaps, undeclared in the source, read as
  \<open>nums\<close>. The two inner loops stop at the first element that is out of place.\<close>

definition scan_left :: "int list \<Rightarrow> int \<Rightarrow> int \<Rightarrow> int \<Rightarrow> int option" where
  "scan_left nums left i j = loop (\<lambda>j.
     if i < j then do {
       a \<leftarrow> rd nums j;
       p \<leftarrow> rd nums left;
       Some (if p \<le> a then Inl (j - 1) else Inr j) }
     else Some (Inr j)) j"

definition scan_right :: "int list \<Rightarrow> int \<Rightarrow> int \<Rightarrow> int \<Rightarrow> int option" where
  "scan_right nums left i j = loop (\<lambda>i.
     if i < j then do {
       a \<leftarrow> rd nums i;
       p \<leftarrow> rd nums left;
       Some (if a \<le> p then Inl (i + 1) else Inr i) }
     else Some (Inr i)) i"

definition partition1 :: "int list \<Rightarrow> int \<Rightarrow> int \<Rightarrow> (int list \<times> int) option" where
  "partition1 nums left right = do {
     (nums, i) \<leftarrow> loop (\<lambda>(nums, i, j).
       if i < j then do {
         j \<leftarrow> scan_left nums left i j;
         i \<leftarrow> scan_right nums left i j;
         nums \<leftarrow> swap nums i j;
         Some (Inl (nums, i, j)) }
       else Some (Inr (nums, i))) (nums, left, right);
     nums \<leftarrow> swap nums i left;
     Some (nums, i) }"

definition partition_2 :: "int list \<Rightarrow> int \<Rightarrow> int \<Rightarrow> (int list \<times> int) option" where
  "partition_2 arr low high = do {
     pivot \<leftarrow> rd arr high;
     (arr, i) \<leftarrow> for_up low high (\<lambda>j (arr, i). do {
       a \<leftarrow> rd arr j;
       if a < pivot then do {
         arr \<leftarrow> swap arr (i + 1) j;
         Some (arr, i + 1) }
       else Some (arr, i) }) (arr, low - 1);
     arr \<leftarrow> swap arr (i + 1) high;
     Some (arr, i + 1) }"

partial_function (option) quickSort_with ::
  "('a list \<Rightarrow> int \<Rightarrow> int \<Rightarrow> ('a list \<times> int) option) \<Rightarrow> 'a list \<Rightarrow> int \<Rightarrow> int \<Rightarrow> 'a list option" where
  [code]: "quickSort_with part arr low high =
     (if high \<le> low then Some arr
      else do {
        (arr, pi) \<leftarrow> part arr low high;
        arr \<leftarrow> quickSort_with part arr low (pi - 1);
        quickSort_with part arr (pi + 1) high })"

definition quickSort :: "int list \<Rightarrow> int \<Rightarrow> int \<Rightarrow> int list option" where
  "quickSort = quickSort_with partition1"

section \<open>Heap sort\<close>

text \<open>\<open>gt a b\<close> is the comparison that makes \<open>a\<close> the larger one: \<open>a > b\<close> here,
  \<open>camp(a, b) > 0\<close> for the frequencies of the top-k program. The index arithmetic is checked
  to stay in \<open>int\<close>.\<close>

partial_function (option) heapify :: "('a \<Rightarrow> 'a \<Rightarrow> bool) \<Rightarrow> 'a list \<Rightarrow> int \<Rightarrow> int \<Rightarrow> 'a list option" where
  [code]: "heapify gt arr n i = do {
     left \<leftarrow> chk32 (i * 2 + 1);
     right \<leftarrow> chk32 (i * 2 + 2);
     large \<leftarrow> (if left < n then do {
       a \<leftarrow> rd arr left; b \<leftarrow> rd arr i; Some (if gt a b then left else i) } else Some i);
     large \<leftarrow> (if right < n then do {
       a \<leftarrow> rd arr right; b \<leftarrow> rd arr large; Some (if gt a b then right else large) } else Some large);
     if large \<noteq> i then do {
       arr \<leftarrow> swap arr i large;
       heapify gt arr n large }
     else Some arr }"

definition heapify_sort_with :: "('a \<Rightarrow> 'a \<Rightarrow> bool) \<Rightarrow> 'a list \<Rightarrow> int \<Rightarrow> 'a list option" where
  "heapify_sort_with gt arr n = do {
     half \<leftarrow> cdiv n 2;
     arr \<leftarrow> for_down (half - 1) 0 (\<lambda>i arr. heapify gt arr n i) arr;
     for_down (n - 1) 1 (\<lambda>i arr. do {
       arr \<leftarrow> swap arr i 0;
       heapify gt arr i 0 }) arr }"

definition heapify_sort :: "int list \<Rightarrow> int \<Rightarrow> int list option" where
  "heapify_sort = heapify_sort_with (\<lambda>a b. b < a)"

end
