(* ===== verification/Arrays.thy ===== *)
theory Arrays
  imports Prelude
begin

text \<open>
  Facts about array ranges in C index arithmetic: ordered ranges and rearrangements inside a
  range, used by the sorts and the searches.
\<close>

lemma nth_upd_int [simp]:
  "0 \<le> i \<Longrightarrow> i < int (length xs) \<Longrightarrow> 0 \<le> k \<Longrightarrow> xs[nat i := v] ! nat k = (if k = i then v else xs ! nat k)"
  by (auto simp: nth_list_update eq_nat_nat_iff)

section \<open>Ordered ranges\<close>

text \<open>Ordered from \<open>l\<close> to \<open>h\<close>, both included.\<close>

definition inc :: "'a::linorder list \<Rightarrow> int \<Rightarrow> int \<Rightarrow> bool" where
  "inc xs l h = (\<forall>a b. l \<le> a \<longrightarrow> a < b \<longrightarrow> b \<le> h \<longrightarrow> xs ! nat a \<le> xs ! nat b)"

lemma incD: "inc xs l h \<Longrightarrow> l \<le> a \<Longrightarrow> a \<le> b \<Longrightarrow> b \<le> h \<Longrightarrow> xs ! nat a \<le> xs ! nat b"
  by (cases "a = b") (simp_all add: inc_def)

lemma inc_trivial: "h \<le> l \<Longrightarrow> inc xs l h"
  by (auto simp: inc_def)

lemma inc_sorted_take:
  assumes "inc xs 0 (int n - 1)" and "n \<le> length xs"
  shows "sorted (take n xs)"
  unfolding sorted_iff_nth_mono_less
proof (intro allI impI)
  fix a b assume "a < b" and "b < length (take n xs)"
  then show "take n xs ! a \<le> take n xs ! b"
    using assms(1) [unfolded inc_def, rule_format, of "int a" "int b"] by simp
qed

lemma sorted_inc: "sorted xs \<Longrightarrow> 0 \<le> l \<Longrightarrow> h < int (length xs) \<Longrightarrow> inc xs l h"
  by (auto simp: inc_def sorted_iff_nth_mono_less)

section \<open>Rearranging a range\<close>

definition perm_within :: "int \<Rightarrow> int \<Rightarrow> 'a list \<Rightarrow> 'a list \<Rightarrow> bool" where
  "perm_within l h xs ys \<longleftrightarrow> mset ys = mset xs \<and>
     (\<forall>k. 0 \<le> k \<longrightarrow> k < int (length xs) \<longrightarrow> k < l \<or> h < k \<longrightarrow> ys ! nat k = xs ! nat k)"

lemma perm_within_refl [simp]: "perm_within l h xs xs"
  by (simp add: perm_within_def)

lemma perm_within_mset: "perm_within l h xs ys \<Longrightarrow> mset ys = mset xs"
  by (simp add: perm_within_def)

lemma perm_within_length: "perm_within l h xs ys \<Longrightarrow> length ys = length xs"
  by (metis perm_within_def mset_eq_length)

lemma perm_within_out:
  "perm_within l h xs ys \<Longrightarrow> 0 \<le> k \<Longrightarrow> k < int (length xs) \<Longrightarrow> k < l \<or> h < k \<Longrightarrow> ys ! nat k = xs ! nat k"
  by (auto simp: perm_within_def)

lemma perm_within_trans [trans]:
  assumes "perm_within l h xs ys" and "perm_within l h ys zs"
  shows "perm_within l h xs zs"
  using assms perm_within_length [OF assms(1)] by (simp add: perm_within_def)

lemma perm_within_mono: "perm_within l h xs ys \<Longrightarrow> l' \<le> l \<Longrightarrow> h \<le> h' \<Longrightarrow> perm_within l' h' xs ys"
  by (auto simp: perm_within_def)

lemma perm_within_swap:
  assumes "0 \<le> l" and "h < int (length xs)" and "l \<le> i" and "i \<le> h" and "l \<le> j" and "j \<le> h"
  shows "perm_within l h xs (xs[nat i := xs ! nat j, nat j := xs ! nat i])"
  using assms mset_swap_nth [of "nat i" xs "nat j"] by (auto simp: perm_within_def)

lemma perm_within_drop:
  assumes "perm_within l (int n - 1) xs ys"
  shows "drop n ys = drop n xs"
proof (rule nth_equalityI)
  show "length (drop n ys) = length (drop n xs)"
    using perm_within_length [OF assms] by simp
  fix i assume "i < length (drop n ys)"
  then show "drop n ys ! i = drop n xs ! i"
    using perm_within_out [OF assms, of "int (n + i)"] perm_within_length [OF assms]
    by (simp add: nat_add_distrib)
qed

lemma perm_within_take:
  assumes "perm_within l h xs ys" and "0 \<le> l" and "l \<le> int (length xs)"
  shows "take (nat l) ys = take (nat l) xs"
proof (rule nth_equalityI)
  show "length (take (nat l) ys) = length (take (nat l) xs)"
    using perm_within_length [OF assms(1)] by simp
  fix i assume "i < length (take (nat l) ys)"
  then have "int i < l" "i < nat l" by auto
  then show "take (nat l) ys ! i = take (nat l) xs ! i"
    using perm_within_out [OF assms(1), of "int i"] perm_within_length [OF assms(1)] assms by auto
qed

text \<open>The cells of the range hold the same elements.\<close>

lemma perm_within_elem:
  assumes "perm_within l h xs ys" and "0 \<le> l" and "h < int (length xs)" and "l \<le> a" and "a \<le> h"
  shows "\<exists>c. l \<le> c \<and> c \<le> h \<and> ys ! nat a = xs ! nat c"
proof -
  let ?seg = "\<lambda>zs. take (nat h + 1 - nat l) (drop (nat l) zs)"
  have len: "length ys = length xs"
    using assms(1) by (rule perm_within_length)
  have cut: "zs = take (nat l) zs @ ?seg zs @ drop (nat h + 1) zs" for zs :: "'a list"
  proof -
    have "drop (nat h + 1) zs = drop (nat h + 1 - nat l) (drop (nat l) zs)"
      using assms by simp
    then show ?thesis by (simp only: append_take_drop_id)
  qed
  have "take (nat l) ys = take (nat l) xs"
    using perm_within_take assms by fastforce
  moreover have "drop (nat h + 1) ys = drop (nat h + 1) xs"
    using perm_within_drop [of l "nat h + 1"] assms by simp
  moreover have "mset (take (nat l) ys @ ?seg ys @ drop (nat h + 1) ys) =
      mset (take (nat l) xs @ ?seg xs @ drop (nat h + 1) xs)"
    using perm_within_mset [OF assms(1)] cut [of xs] cut [of ys] by simp
  ultimately have "mset (?seg ys) = mset (?seg xs)"
    by simp
  then have seg: "set (?seg ys) = set (?seg xs)"
    by (rule mset_eq_setD)
  have "ys ! nat a = ?seg ys ! (nat a - nat l)"
    using assms len by (simp add: nat_le_eq_zle)
  moreover have "nat a - nat l < length (?seg ys)"
    using assms len by auto
  ultimately have "ys ! nat a \<in> set (?seg xs)"
    unfolding seg [symmetric] by (metis nth_mem)
  then obtain i where i: "i < length (?seg xs)" "ys ! nat a = ?seg xs ! i"
    by (metis in_set_conv_nth)
  then have "ys ! nat a = xs ! nat (l + int i)"
    using assms by (simp add: nat_add_distrib)
  moreover have "l + int i \<le> h"
    using i(1) assms by auto
  ultimately show ?thesis
    by (metis le_add_same_cancel1 of_nat_0_le_iff)
qed

text \<open>A bound on the range survives its rearrangement, and so does an ordered range outside.\<close>

lemma perm_within_le:
  assumes "perm_within l h xs ys" and "0 \<le> l" and "h < int (length xs)" and "l \<le> a" and "a \<le> h"
    and "\<And>c. l \<le> c \<Longrightarrow> c \<le> h \<Longrightarrow> xs ! nat c \<le> v"
  shows "ys ! nat a \<le> (v :: 'a::linorder)"
  using perm_within_elem [OF assms(1-5)] assms(6) by auto

lemma perm_within_ge:
  assumes "perm_within l h xs ys" and "0 \<le> l" and "h < int (length xs)" and "l \<le> a" and "a \<le> h"
    and "\<And>c. l \<le> c \<Longrightarrow> c \<le> h \<Longrightarrow> v \<le> xs ! nat c"
  shows "(v :: 'a::linorder) \<le> ys ! nat a"
  using perm_within_elem [OF assms(1-5)] assms(6) by auto

lemma inc_outside:
  assumes "perm_within l h xs ys" and "inc xs l' h'" and "0 \<le> l'" and "h' < int (length xs)"
    and "h' < l \<or> h < l'"
  shows "inc ys l' h'"
  using assms by (auto simp: inc_def perm_within_def)

end
