(* ===== verification/Interfaces.thy ===== *)
theory Interfaces
  imports Arrays
begin

text \<open>
  The contracts several components share, as locales: what a client may rely on, with the facts
  that follow from it. Every locale is interpreted, in the theory of the component that provides
  the operations, on the model of the code.
\<close>

section \<open>Sorting an array prefix\<close>

text \<open>\<open>srt xs n\<close> sorts the first \<open>n\<close> cells of the array in place; \<open>ok n\<close> bounds the
  lengths it is good for.\<close>

locale prefix_sorter =
  fixes srt :: "'a::linorder list \<Rightarrow> int \<Rightarrow> 'a list option"
    and ok :: "nat \<Rightarrow> bool"
  assumes sorts: "ok n \<Longrightarrow> n \<le> length xs \<Longrightarrow>
    \<exists>ys. srt xs (int n) = Some ys \<and> perm_within 0 (int n - 1) xs ys \<and> inc ys 0 (int n - 1)"
begin

text \<open>The contract leaves no freedom: the result is the library's sort of the prefix.\<close>

lemma eq_sort:
  assumes "ok n" and "n \<le> length xs"
  shows "srt xs (int n) = Some (sort (take n xs) @ drop n xs)"
proof -
  from sorts [OF assms] obtain ys where ys: "srt xs (int n) = Some ys" "mset ys = mset xs"
    "drop n ys = drop n xs" "sorted (take n ys)"
    using perm_within_mset perm_within_drop inc_sorted_take perm_within_length by (metis assms(2))
  have "mset (take n ys) + mset (drop n ys) = mset (take n xs) + mset (drop n xs)"
    using ys(2) by (simp only: mset_append [symmetric] append_take_drop_id)
  then have "mset (take n ys) = mset (take n xs)"
    by (simp add: ys(3))
  then have "sort (take n xs) = take n ys"
    using ys(4) by (rule properties_for_sort)
  then have "sort (take n xs) @ drop n xs = ys"
    using ys(3) by (metis append_take_drop_id)
  then show ?thesis by (simp add: ys(1))
qed

lemma whole: "ok (length xs) \<Longrightarrow> srt xs (int (length xs)) = Some (sort xs)"
  using eq_sort [of "length xs" xs] by simp

lemma same_elements:
  "ok (length xs) \<Longrightarrow> mset xs = mset ys \<Longrightarrow> srt xs (int (length xs)) = srt ys (int (length ys))"
  using whole [of xs] whole [of ys] properties_for_sort [of "sort ys" xs]
  by (simp add: mset_eq_length [of xs ys])

end

text \<open>Two sorters of the same cells agree.\<close>

locale two_sorters = one: prefix_sorter srt1 ok1 + two: prefix_sorter srt2 ok2
  for srt1 :: "'a::linorder list \<Rightarrow> int \<Rightarrow> 'a list option" and ok1
    and srt2 :: "'a list \<Rightarrow> int \<Rightarrow> 'a list option" and ok2
begin

lemma agree: "ok1 n \<Longrightarrow> ok2 n \<Longrightarrow> n \<le> length xs \<Longrightarrow> srt1 xs (int n) = srt2 xs (int n)"
  by (simp add: one.eq_sort two.eq_sort)

end

section \<open>Partitioning around a pivot\<close>

text \<open>What quick sort relies on: \<open>part xs low high\<close> permutes the cells from \<open>low\<close> to \<open>high\<close>
  and returns an index that separates the smaller from the larger ones.\<close>

locale partitioner =
  fixes part :: "'a::linorder list \<Rightarrow> int \<Rightarrow> int \<Rightarrow> ('a list \<times> int) option"
  assumes part: "0 \<le> low \<Longrightarrow> low < high \<Longrightarrow> high < int (length xs) \<Longrightarrow>
    \<exists>ys p. part xs low high = Some (ys, p) \<and> low \<le> p \<and> p \<le> high \<and> perm_within low high xs ys \<and>
      (\<forall>k. low \<le> k \<longrightarrow> k \<le> p \<longrightarrow> ys ! nat k \<le> ys ! nat p) \<and>
      (\<forall>k. p \<le> k \<longrightarrow> k \<le> high \<longrightarrow> ys ! nat p \<le> ys ! nat k)"

section \<open>Containers\<close>

text \<open>
  A container holds a sequence \<open>abs s\<close>; \<open>put\<close> inserts by \<open>ins\<close> while there is room,
  \<open>get\<close> removes the first element. A queue and a stack differ in \<open>ins\<close> only.
\<close>

datatype 'a cop = Put 'a | Get

text \<open>Sequences of operations, on the program's state and on the abstract sequence; the outputs are
  what the \<open>Get\<close>s return.\<close>

fun exec :: "('a \<Rightarrow> 's \<Rightarrow> 's option) \<Rightarrow> ('s \<Rightarrow> ('a \<times> 's) option) \<Rightarrow> 'a cop list \<Rightarrow> 's \<Rightarrow> ('a list \<times> 's) option" where
  "exec put get [] s = Some ([], s)"
| "exec put get (Put x # ops) s = do { s \<leftarrow> put x s; exec put get ops s }"
| "exec put get (Get # ops) s = do { (x, s) \<leftarrow> get s; (out, s) \<leftarrow> exec put get ops s; Some (x # out, s) }"

fun spec_exec :: "('a \<Rightarrow> 'a list \<Rightarrow> 'a list) \<Rightarrow> ('a list \<Rightarrow> bool) \<Rightarrow> 'a cop list \<Rightarrow> 'a list \<Rightarrow> ('a list \<times> 'a list) option" where
  "spec_exec ins room [] xs = Some ([], xs)"
| "spec_exec ins room (Put x # ops) xs = (if room xs then spec_exec ins room ops (ins x xs) else None)"
| "spec_exec ins room (Get # ops) [] = None"
| "spec_exec ins room (Get # ops) (x # xs) = do { (out, ys) \<leftarrow> spec_exec ins room ops xs; Some (x # out, ys) }"

lemma exec_append:
  "exec put get (ops @ ops') s =
   do { (out, s) \<leftarrow> exec put get ops s; (out', s) \<leftarrow> exec put get ops' s; Some (out @ out', s) }"
proof (induction put get ops s rule: exec.induct)
  case (1 put get s)
  then show ?case by (cases "exec put get ops' s") auto
qed (auto simp: bind_assoc split: bind_splits)

lemma spec_drain: "spec_exec ins room (replicate (length xs) Get) xs = Some (xs, [])"
  by (induction xs) auto

locale container =
  fixes ins :: "'a \<Rightarrow> 'a list \<Rightarrow> 'a list"
    and inv :: "'s \<Rightarrow> bool"
    and abs :: "'s \<Rightarrow> 'a list"
    and room :: "'a list \<Rightarrow> bool"
    and put :: "'a \<Rightarrow> 's \<Rightarrow> 's option"
    and get :: "'s \<Rightarrow> ('a \<times> 's) option"
  assumes put: "inv s \<Longrightarrow> room (abs s) \<Longrightarrow> \<exists>t. put x s = Some t \<and> inv t \<and> abs t = ins x (abs s)"
    and get: "inv s \<Longrightarrow> abs s = x # xs \<Longrightarrow> \<exists>t. get s = Some (x, t) \<and> inv t \<and> abs t = xs"
begin

text \<open>The program's run produces the outputs of the abstract run.\<close>

lemma exec_refines:
  assumes "inv s" and "spec_exec ins room ops (abs s) = Some (out, ys)"
  shows "\<exists>t. exec put get ops s = Some (out, t) \<and> inv t \<and> abs t = ys"
  using assms
proof (induction ops arbitrary: s out)
  case Nil
  then show ?case by simp
next
  case (Cons p ops)
  show ?case
  proof (cases p)
    case (Put x)
    then have "room (abs s)" using Cons.prems by (auto split: if_splits)
    with put [OF Cons.prems(1)] obtain t where t: "put x s = Some t" "inv t" "abs t = ins x (abs s)" by blast
    then show ?thesis
      using Cons.IH [of t] Cons.prems Put \<open>room (abs s)\<close> by simp
  next
    case Get
    then obtain x xs where x: "abs s = x # xs" using Cons.prems by (cases "abs s") auto
    with get [OF Cons.prems(1)] obtain t where t: "get s = Some (x, t)" "inv t" "abs t = xs" by blast
    from Cons.prems Get x obtain out' where "spec_exec ins room ops xs = Some (out', ys)" "out = x # out'"
      by (auto simp: bind_eq_Some_conv)
    then show ?thesis
      using Cons.IH [of t out'] t Get by auto
  qed
qed

lemma drain:
  assumes "inv s"
  shows "\<exists>t. exec put get (replicate (length (abs s)) Get) s = Some (abs s, t) \<and> inv t \<and> abs t = []"
  using exec_refines [OF assms spec_drain] .

end

locale fifo = container "\<lambda>x xs. xs @ [x]" inv abs room put get
  for inv :: "'s \<Rightarrow> bool" and abs :: "'s \<Rightarrow> 'a list" and room put get
begin

text \<open>What went in comes out in the same order.\<close>

lemma first_in_first_out:
  assumes "inv s" and "abs s = []" and "\<And>ys. length ys < length xs \<Longrightarrow> room ys"
  shows "\<exists>t. exec put get (map Put xs @ replicate (length xs) Get) s = Some (xs, t) \<and> inv t \<and> abs t = []"
proof -
  have fill: "spec_exec (\<lambda>x xs. xs @ [x]) room (map Put zs) ys = Some ([], ys @ zs)" if "length ys + length zs \<le> length xs" for ys zs
    using that assms(3) by (induction zs arbitrary: ys) auto
  obtain t where t: "exec put get (map Put xs) s = Some ([], t)" "inv t" "abs t = xs"
    using exec_refines [OF assms(1), of "map Put xs"] fill [of "[]" xs] assms(2) by auto
  then show ?thesis
    using drain [OF t(2)] by (simp add: exec_append)
qed

end

locale lifo = container "(#)" inv abs room put get
  for inv :: "'s \<Rightarrow> bool" and abs :: "'s \<Rightarrow> 'a list" and room put get
begin

text \<open>What went in comes out in the opposite order.\<close>

lemma last_in_first_out:
  assumes "inv s" and "abs s = []" and "\<And>ys. length ys < length xs \<Longrightarrow> room ys"
  shows "\<exists>t. exec put get (map Put xs @ replicate (length xs) Get) s = Some (rev xs, t) \<and> inv t \<and> abs t = []"
proof -
  have fill: "spec_exec (#) room (map Put zs) ys = Some ([], rev zs @ ys)" if "length ys + length zs \<le> length xs" for ys zs
    using that assms(3) by (induction zs arbitrary: ys) auto
  obtain t where t: "exec put get (map Put xs) s = Some ([], t)" "inv t" "abs t = rev xs"
    using exec_refines [OF assms(1), of "map Put xs"] fill [of "[]" xs] assms(2) by auto
  then show ?thesis
    using drain [OF t(2)] by (simp add: exec_append)
qed

end

text \<open>A stack that also answers its minimum.\<close>

locale min_lifo = lifo inv abs room put get
  for inv :: "'s \<Rightarrow> bool" and abs :: "'s \<Rightarrow> 'a::linorder list" and room put get +
  fixes smallest :: "'s \<Rightarrow> 'a option"
  assumes smallest: "inv s \<Longrightarrow> abs s \<noteq> [] \<Longrightarrow> smallest s = Some (Min (set (abs s)))"
begin

text \<open>The minimum after any run of the operations.\<close>

lemma smallest_after:
  assumes "inv s" and "spec_exec (#) room ops (abs s) = Some (out, ys)" and "ys \<noteq> []"
  shows "\<exists>t. exec put get ops s = Some (out, t) \<and> smallest t = Some (Min (set ys))"
  using exec_refines [OF assms(1,2)] smallest assms(3) by blast

end

section \<open>Bounded byte streams\<close>

text \<open>The contract of a bounded buffer that accepts and delivers several elements at a time: a write
  takes what fits and answers how many elements it took, a read delivers at most what is there.\<close>

datatype 'a sop = Write "'a list" | Read nat
datatype 'a sres = Accepted int | Delivered "'a list"

fun stream_exec :: "('s \<Rightarrow> 'a list \<Rightarrow> (int \<times> 's) option) \<Rightarrow> ('s \<Rightarrow> nat \<Rightarrow> ('a list \<times> 's) option) \<Rightarrow> 'a sop list \<Rightarrow> 's \<Rightarrow> ('a sres list \<times> 's) option" where
  "stream_exec write read [] s = Some ([], s)"
| "stream_exec write read (Write xs # ops) s = do {
     (n, s) \<leftarrow> write s xs;
     (rs, s) \<leftarrow> stream_exec write read ops s;
     Some (Accepted n # rs, s) }"
| "stream_exec write read (Read n # ops) s = do {
     (xs, s) \<leftarrow> read s n;
     (rs, s) \<leftarrow> stream_exec write read ops s;
     Some (Delivered xs # rs, s) }"

fun stream_spec :: "nat \<Rightarrow> 'a sop list \<Rightarrow> 'a list \<Rightarrow> 'a sres list \<times> 'a list" where
  "stream_spec cap [] q = ([], q)"
| "stream_spec cap (Write xs # ops) q =
     (let k = min (length xs) (cap - length q); (rs, r) = stream_spec cap ops (q @ take k xs)
      in (Accepted (int k) # rs, r))"
| "stream_spec cap (Read n # ops) q =
     (let (rs, r) = stream_spec cap ops (drop n q) in (Delivered (take n q) # rs, r))"

text \<open>What the writes of a run put in and what its reads took out.\<close>

fun taken :: "'a sop list \<Rightarrow> 'a sres list \<Rightarrow> 'a list" where
  "taken (Write xs # ops) (Accepted n # rs) = take (nat n) xs @ taken ops rs"
| "taken (_ # ops) (_ # rs) = taken ops rs"
| "taken _ _ = []"

fun delivered :: "'a sres list \<Rightarrow> 'a list" where
  "delivered [] = []"
| "delivered (Delivered xs # rs) = xs @ delivered rs"
| "delivered (Accepted n # rs) = delivered rs"

lemma stream_spec_fifo: "stream_spec cap ops q = (rs, r) \<Longrightarrow> delivered rs @ r = q @ taken ops rs"
  by (induction cap ops q arbitrary: rs r rule: stream_spec.induct) (auto simp: Let_def split: prod.splits)

lemma stream_spec_bounded: "stream_spec cap ops q = (rs, r) \<Longrightarrow> length q \<le> cap \<Longrightarrow> length r \<le> cap"
  by (induction cap ops q arbitrary: rs r rule: stream_spec.induct) (auto simp: Let_def min_def split: prod.splits if_splits)

locale stream =
  fixes inv :: "nat \<Rightarrow> 's \<Rightarrow> bool"
    and abs :: "'s \<Rightarrow> 'a list"
    and writes :: "'s \<Rightarrow> 'a list \<Rightarrow> (int \<times> 's) option"
    and reads :: "'s \<Rightarrow> nat \<Rightarrow> ('a list \<times> 's) option"
    and small :: "'a list \<Rightarrow> bool"
    and short :: "nat \<Rightarrow> bool"
  assumes writes: "inv cap s \<Longrightarrow> small xs \<Longrightarrow> k = min (length xs) (cap - length (abs s)) \<Longrightarrow>
      \<exists>t. writes s xs = Some (int k, t) \<and> inv cap t \<and> abs t = abs s @ take k xs"
    and reads: "inv cap s \<Longrightarrow> short n \<Longrightarrow> \<exists>t. reads s n = Some (take n (abs s), t) \<and> inv cap t \<and> abs t = drop n (abs s)"
begin

lemma stream_refines:
  assumes "inv cap s" and "\<And>xs. Write xs \<in> set ops \<Longrightarrow> small xs" and "\<And>n. Read n \<in> set ops \<Longrightarrow> short n"
  shows "\<exists>t. stream_exec writes reads ops s = Some (fst (stream_spec cap ops (abs s)), t) \<and> inv cap t
     \<and> abs t = snd (stream_spec cap ops (abs s))"
  using assms
proof (induction ops arbitrary: s)
  case Nil
  then show ?case by simp
next
  case (Cons p ops)
  show ?case
  proof (cases p)
    case (Write xs)
    obtain t where t: "writes s xs = Some (int (min (length xs) (cap - length (abs s))), t)" "inv cap t"
      "abs t = abs s @ take (min (length xs) (cap - length (abs s))) xs"
      using writes [OF Cons.prems(1) _ refl, of xs] Cons.prems(2) Write by auto
    then show ?thesis
      using Cons.IH [of t] Cons.prems Write by (auto simp: Let_def split: prod.split)
  next
    case (Read n)
    obtain t where "reads s n = Some (take n (abs s), t)" "inv cap t" "abs t = drop n (abs s)"
      using reads [OF Cons.prems(1), of n] Cons.prems(3) Read by auto
    then show ?thesis
      using Cons.IH [of t] Cons.prems Read by (auto simp: split: prod.split)
  qed
qed

end

section \<open>Maps\<close>

text \<open>The contract of a table that stores values under keys: an insertion, a removal and a lookup, which
  answers what the code returns for a stored value and for a missing key. A run of operations gives
  the answers of a map.\<close>

datatype ('k, 'v) mop = Insert 'k 'v | Remove 'k | Lookup 'k

fun map_exec :: "('s \<Rightarrow> 'k \<Rightarrow> 'v \<Rightarrow> 's option) \<Rightarrow> ('s \<Rightarrow> 'k \<Rightarrow> 's option) \<Rightarrow> ('s \<Rightarrow> 'k \<Rightarrow> 'r option)
    \<Rightarrow> ('k, 'v) mop list \<Rightarrow> 's \<Rightarrow> ('r list \<times> 's) option" where
  "map_exec put del look [] s = Some ([], s)"
| "map_exec put del look (Insert k v # ops) s = do { s \<leftarrow> put s k v; map_exec put del look ops s }"
| "map_exec put del look (Remove k # ops) s = do { s \<leftarrow> del s k; map_exec put del look ops s }"
| "map_exec put del look (Lookup k # ops) s = do {
     r \<leftarrow> look s k;
     (rs, s) \<leftarrow> map_exec put del look ops s;
     Some (r # rs, s) }"

fun map_spec :: "('v option \<Rightarrow> 'r) \<Rightarrow> ('k, 'v) mop list \<Rightarrow> ('k \<Rightarrow> 'v option) \<Rightarrow> 'r list \<times> ('k \<Rightarrow> 'v option)" where
  "map_spec ans [] m = ([], m)"
| "map_spec ans (Insert k v # ops) m = map_spec ans ops (m(k \<mapsto> v))"
| "map_spec ans (Remove k # ops) m = map_spec ans ops (m(k := None))"
| "map_spec ans (Lookup k # ops) m = (let (rs, m') = map_spec ans ops m in (ans (m k) # rs, m'))"

locale store =
  fixes inv :: "'s \<Rightarrow> bool"
    and abs :: "'s \<Rightarrow> 'k \<Rightarrow> 'v option"
    and ans :: "'v option \<Rightarrow> 'r"
    and put :: "'s \<Rightarrow> 'k \<Rightarrow> 'v \<Rightarrow> 's option"
    and del :: "'s \<Rightarrow> 'k \<Rightarrow> 's option"
    and look :: "'s \<Rightarrow> 'k \<Rightarrow> 'r option"
  assumes put: "inv s \<Longrightarrow> \<exists>t. put s k v = Some t \<and> inv t \<and> abs t = (abs s)(k \<mapsto> v)"
    and del: "inv s \<Longrightarrow> \<exists>t. del s k = Some t \<and> inv t \<and> abs t = (abs s)(k := None)"
    and look: "inv s \<Longrightarrow> look s k = Some (ans (abs s k))"
begin

lemma map_refines:
  assumes "inv s"
  shows "\<exists>t. map_exec put del look ops s = Some (fst (map_spec ans ops (abs s)), t) \<and> inv t
    \<and> abs t = snd (map_spec ans ops (abs s))"
  using assms
proof (induction ops arbitrary: s)
  case Nil
  then show ?case by simp
next
  case (Cons p ops)
  show ?case
  proof (cases p)
    case (Insert k v)
    obtain t where "put s k v = Some t" "inv t" "abs t = (abs s)(k \<mapsto> v)"
      using put [OF Cons.prems] by blast
    with Cons.IH [of t] Insert show ?thesis by (auto simp: fun_upd_def)
  next
    case (Remove k)
    obtain t where "del s k = Some t" "inv t" "abs t = (abs s)(k := None)"
      using del [OF Cons.prems] by blast
    with Cons.IH [of t] Remove show ?thesis by (auto simp: fun_upd_def)
  next
    case (Lookup k)
    with Cons.IH [OF Cons.prems] look [OF Cons.prems, of k] show ?thesis
      by (auto split: prod.splits)
  qed
qed

text \<open>What was inserted last is found, whatever came before, and it changes nothing under another key.\<close>

lemma look_put:
  assumes "inv s"
  shows "\<exists>t. put s k v = Some t \<and> inv t \<and> look t k = Some (ans (Some v)) \<and> (\<forall>j. j \<noteq> k \<longrightarrow> look t j = look s j)"
  using put [OF assms, of k v] look assms by fastforce

end

end
