(* ===== verification/SortingCorrect.thy ===== *)
theory SortingCorrect
  imports Sorting Interfaces
begin

text \<open>
  Correctness of the array sorts. Each is shown total (in bounds, terminating) with the
  \<open>prefix_sorter\<close> contract, which the interpretations at the end of each section
  discharge; both partition functions of quick sort satisfy \<open>partitioner\<close>.
\<close>

section \<open>Bubble sort\<close>

lemma bubble_pass_total:
  assumes "0 \<le> m" and "m < int (length xs)"
  shows "\<exists>ys. bubble_pass m xs = Some ys \<and> perm_within 0 m xs ys \<and>
    (\<forall>k. 0 \<le> k \<longrightarrow> k \<le> m \<longrightarrow> ys ! nat k \<le> ys ! nat m)"
proof -
  let ?P = "\<lambda>j ys. perm_within 0 m xs ys \<and> (\<forall>k. 0 \<le> k \<longrightarrow> k \<le> j \<longrightarrow> ys ! nat k \<le> ys ! nat j)"
  show ?thesis
    unfolding bubble_pass_def
  proof (rule for_up_total [where P = ?P])
    fix j ys assume j: "0 \<le> j" "j < m" and P: "?P j ys"
    then have len: "length ys = length xs" using perm_within_length by blast
    have sw: "perm_within 0 m xs (ys[nat (j + 1) := ys ! nat j, nat j := ys ! nat (j + 1)])"
      using P perm_within_swap [of 0 m ys "j + 1" j] j assms len by (auto intro: perm_within_trans)
    have le: "k \<le> j + 1 \<longleftrightarrow> k \<le> j \<or> k = j + 1" for k :: int by auto
    show "\<exists>zs. (do { a \<leftarrow> rd ys j; b \<leftarrow> rd ys (j + 1);
        if b < a then do { data \<leftarrow> wr ys (j + 1) a; wr data j b } else Some ys }) = Some zs \<and> ?P (j + 1) zs"
      using j P assms len sw by (auto simp: mem_simps le intro: order.trans)
  qed (use assms in auto)
qed

lemma bubble_sort_total:
  assumes "n \<le> length xs"
  shows "\<exists>ys. bubble_sort xs (int n) = Some ys \<and> perm_within 0 (int n - 1) xs ys \<and> inc ys 0 (int n - 1)"
proof (cases "n = 0")
  case True
  then show ?thesis by (simp add: bubble_sort_def for_up_empty inc_trivial)
next
  case False
  let ?P = "\<lambda>i ys. perm_within 0 (int n - 1) xs ys \<and> inc ys (int n - i) (int n - 1) \<and>
    (\<forall>a b. 0 \<le> a \<longrightarrow> a < int n - i \<longrightarrow> int n - i \<le> b \<longrightarrow> b < int n \<longrightarrow> ys ! nat a \<le> ys ! nat b)"
  have "\<exists>ys. bubble_sort xs (int n) = Some ys \<and> ?P (int n - 1) ys"
    unfolding bubble_sort_def
  proof (rule for_up_total [where P = ?P])
    fix i ys assume i: "0 \<le> i" "i < int n - 1" and P: "?P i ys"
    let ?m = "int n - 1 - i"
    have len: "length ys = length xs" using P perm_within_length by blast
    have m: "0 \<le> ?m" "?m < int (length ys)" using i assms len by auto
    then obtain zs where zs: "bubble_pass ?m ys = Some zs" and perm: "perm_within 0 ?m ys zs"
      and max: "\<And>k. 0 \<le> k \<Longrightarrow> k \<le> ?m \<Longrightarrow> zs ! nat k \<le> zs ! nat ?m"
      using bubble_pass_total [of ?m ys] by auto
    have out: "zs ! nat k = ys ! nat k" if "?m < k" "k < int n" for k
      using perm_within_out [OF perm, of k] that m assms len by simp
    have le: "zs ! nat a \<le> ys ! nat b" if "0 \<le> a" "a \<le> ?m" "?m < b" "b < int n" for a b
      using perm_within_le [OF perm _ m(2), of a "ys ! nat b"] P that by simp
    have "perm_within 0 (int n - 1) xs zs"
      using P perm_within_mono [OF perm, of 0 "int n - 1"] i by (auto intro: perm_within_trans)
    moreover have "inc zs ?m (int n - 1)"
      unfolding inc_def
    proof (intro allI impI)
      fix a b assume ab: "?m \<le> a" "a < b" "b \<le> int n - 1"
      then have "zs ! nat b = ys ! nat b" and "a \<noteq> ?m \<Longrightarrow> zs ! nat a = ys ! nat a"
        using out [of a] out [of b] by auto
      moreover have "a \<noteq> ?m \<Longrightarrow> ys ! nat a \<le> ys ! nat b"
        using P incD [of ys "int n - i" "int n - 1" a b] ab by simp
      ultimately show "zs ! nat a \<le> zs ! nat b"
        using le [of a b] ab m by (cases "a = ?m") auto
    qed
    moreover have "zs ! nat a \<le> zs ! nat b" if "0 \<le> a" "a < ?m" "?m \<le> b" "b < int n" for a b
      using that max [of a] le [of a b] out [of b] by (cases "b = ?m") auto
    moreover have eq: "int n - (i + 1) = ?m" by simp
    ultimately show "\<exists>zs. bubble_pass ?m ys = Some zs \<and> ?P (i + 1) zs"
      using zs eq by metis
  qed (use assms False in \<open>auto simp: inc_def\<close>)
  then obtain ys where ys: "bubble_sort xs (int n) = Some ys" "?P (int n - 1) ys" by blast
  have "ys ! nat a \<le> ys ! nat b" if "0 \<le> a" "a < b" "b \<le> int n - 1" for a b
    using ys(2) that by (cases "a < 1") (auto simp: inc_def)
  then show ?thesis
    using ys by (auto simp: inc_def)
qed

section \<open>Insertion and shell sort\<close>

text \<open>Moving the gap is a swap once \<open>tmp\<close> is imagined in it.\<close>

lemma gap_swap:
  "i < length xs \<Longrightarrow> j < length xs \<Longrightarrow> i \<noteq> j \<Longrightarrow>
   (xs[j := xs ! i])[i := t] = (xs[j := t])[j := xs[j := t] ! i, i := xs[j := t] ! j]"
  by (simp add: list_update_swap)

definition gap_inv :: "int \<Rightarrow> int \<Rightarrow> int list \<Rightarrow> int \<Rightarrow> int \<Rightarrow> int list \<Rightarrow> bool" where
  "gap_inv step i xs tmp j ys \<longleftrightarrow> - step \<le> j \<and> j + step \<le> i \<and> length ys = length xs \<and>
     perm_within 0 i xs (ys[nat (j + step) := tmp])"

lemma gap_inv_step:
  assumes "gap_inv step i xs tmp j ys" and "0 < step" and "0 \<le> j" and "i < int (length xs)"
  shows "gap_inv step i xs tmp (j - step) (ys[nat (j + step) := ys ! nat j])"
proof -
  let ?zs = "ys[nat (j + step) := tmp]"
  have b: "0 \<le> j + step" "j + step \<le> i" "length ys = length xs" and p: "perm_within 0 i xs ?zs"
    using assms by (auto simp: gap_inv_def)
  have "perm_within 0 i ?zs (?zs[nat (j + step) := ?zs ! nat j, nat j := ?zs ! nat (j + step)])"
    using assms b by (intro perm_within_swap) auto
  moreover have "?zs[nat (j + step) := ?zs ! nat j, nat j := ?zs ! nat (j + step)] =
      (ys[nat (j + step) := ys ! nat j])[nat j := tmp]"
    using gap_swap [of "nat j" ys "nat (j + step)" tmp] assms b by simp
  ultimately have "perm_within 0 i xs ((ys[nat (j + step) := ys ! nat j])[nat j := tmp])"
    using p by (metis perm_within_trans)
  then show ?thesis
    using assms b by (auto simp: gap_inv_def)
qed

text \<open>One step of the inner loop, for any predicate that the shifting preserves.\<close>

lemma insert_elem_total:
  assumes "0 < step" and "step \<le> i" and "i < int (length xs)"
    and I0: "I (i - step) xs"
    and I: "\<And>j ys. gap_inv step i xs (xs ! nat i) j ys \<Longrightarrow> I j ys \<Longrightarrow> 0 \<le> j \<Longrightarrow> xs ! nat i < ys ! nat j \<Longrightarrow>
      I (j - step) (ys[nat (j + step) := ys ! nat j])"
  shows "\<exists>j ys. insert_elem step i xs = Some (ys[nat (j + step) := xs ! nat i]) \<and>
    gap_inv step i xs (xs ! nat i) j ys \<and> I j ys \<and> (j < 0 \<or> ys ! nat j \<le> xs ! nat i)"
proof -
  let ?t = "xs ! nat i"
  let ?body = "\<lambda>(j, data). if j < 0 then Some (Inr (j, data))
       else do {
         d \<leftarrow> rd data j;
         if ?t < d then do {
           data \<leftarrow> wr data (j + step) d;
           Some (Inl (j - step, data)) }
         else Some (Inr (j, data)) }"
  let ?P = "\<lambda>(j, ys). gap_inv step i xs ?t j ys \<and> I j ys"
  have "\<exists>r. loop ?body (i - step, xs) = Some r \<and>
      (case r of (j, ys) \<Rightarrow> ?P (j, ys) \<and> (j < 0 \<or> ys ! nat j \<le> ?t))"
  proof (rule loop_total [where P = ?P and m = "\<lambda>(j, ys). nat (j + step)"])
    show "?P (i - step, xs)"
      using assms(1-3) I0 by (simp add: gap_inv_def)
    fix s assume "?P s"
    then obtain j ys where s: "s = (j, ys)" and P: "gap_inv step i xs ?t j ys" "I j ys" by (cases s) auto
    show "(\<exists>r. ?body s = Some (Inr r) \<and> (case r of (j, ys) \<Rightarrow> ?P (j, ys) \<and> (j < 0 \<or> ys ! nat j \<le> ?t))) \<or>
        (\<exists>t. ?body s = Some (Inl t) \<and> ?P t \<and> (case t of (j, ys) \<Rightarrow> nat (j + step)) < (case s of (j, ys) \<Rightarrow> nat (j + step)))"
    proof (cases "j < 0 \<or> ys ! nat j \<le> ?t")
      case True
      then show ?thesis
        using P assms(1,3) by (auto simp: s mem_simps gap_inv_def)
    next
      case False
      then show ?thesis
        using gap_inv_step [OF P(1)] I [OF P] P(1) assms(1,3) by (auto simp: s mem_simps gap_inv_def)
    qed
  qed
  then obtain j ys where r: "loop ?body (i - step, xs) = Some (j, ys)" "?P (j, ys)"
      "j < 0 \<or> ys ! nat j \<le> ?t" by auto
  moreover have "wr ys (j + step) ?t = Some (ys[nat (j + step) := ?t])"
    using r(2) assms(3) by (simp add: mem_simps gap_inv_def)
  ultimately have "insert_elem step i xs = Some (ys[nat (j + step) := ?t])"
    using assms(1-3) by (simp add: insert_elem_def mem_simps)
  then show ?thesis
    using r by blast
qed

lemma insert_elem_perm:
  assumes "0 < step" and "step \<le> i" and "i < int (length xs)"
  shows "\<exists>ys. insert_elem step i xs = Some ys \<and> perm_within 0 i xs ys"
  using insert_elem_total [OF assms, of "\<lambda>_ _. True"] by (auto simp: gap_inv_def)

lemma gap_pass_perm:
  assumes "0 < step" and "step \<le> int n" and "n \<le> length xs"
  shows "\<exists>ys. for_up step (int n) (\<lambda>i. insert_elem step i) xs = Some ys \<and> perm_within 0 (int n - 1) xs ys"
proof (rule for_up_total [where P = "\<lambda>_ ys. perm_within 0 (int n - 1) xs ys"])
  fix i ys assume i: "step \<le> i" "i < int n" and p: "perm_within 0 (int n - 1) xs ys"
  then obtain zs where "insert_elem step i ys = Some zs" "perm_within 0 i ys zs"
    using insert_elem_perm [of step i ys] assms perm_within_length [OF p] by auto
  with p i show "\<exists>zs. insert_elem step i ys = Some zs \<and> perm_within 0 (int n - 1) xs zs"
    by (metis perm_within_mono perm_within_trans order.refl zle_diff1_eq)
qed (use assms in auto)

text \<open>With step 1 every pair is ordered but those that end in the gap.\<close>

definition ins_inv :: "int \<Rightarrow> int \<Rightarrow> int \<Rightarrow> int list \<Rightarrow> bool" where
  "ins_inv i t j ys \<longleftrightarrow> (\<forall>a b. 0 \<le> a \<longrightarrow> a < b \<longrightarrow> b \<le> i \<longrightarrow> b \<noteq> j + 1 \<longrightarrow>
     ys[nat (j + 1) := t] ! nat a \<le> ys[nat (j + 1) := t] ! nat b)"

lemma ins_inv_step:
  assumes "ins_inv i t j ys" and "0 \<le> j" and "j + 1 \<le> i" and "i < int (length ys)" and "t < ys ! nat j"
  shows "ins_inv i t (j - 1) (ys[nat (j + 1) := ys ! nat j])"
proof -
  let ?z = "\<lambda>a. ys[nat (j + 1) := t] ! nat a"
  have z: "?z a = (if a = j + 1 then t else ys ! nat a)" if "0 \<le> a" for a
    using assms that by simp
  have old: "?z a \<le> ?z b" if "0 \<le> a" "a < b" "b \<le> i" "b \<noteq> j + 1" for a b
    using assms(1) that by (auto simp: ins_inv_def)
  have new: "(if a = j then t else if a = j + 1 then ys ! nat j else ys ! nat a) \<le>
      (if b = j + 1 then ys ! nat j else ys ! nat b)" if "0 \<le> a" "a < b" "b \<le> i" "b \<noteq> j" for a b
    using old [of a b] old [of a j] old [of "j + 1" b] old [of j b] z [of a] z [of b] z [of j] z [of "j + 1"]
      that assms(2,5) by (auto split: if_splits)
  show ?thesis
    unfolding ins_inv_def
  proof (intro allI impI)
    fix a b assume ab: "0 \<le> a" "a < b" "b \<le> i" "b \<noteq> j - 1 + 1"
    then show "(ys[nat (j + 1) := ys ! nat j])[nat (j - 1 + 1) := t] ! nat a \<le>
        (ys[nat (j + 1) := ys ! nat j])[nat (j - 1 + 1) := t] ! nat b"
      using new [of a b] assms(2-4) by (simp split: if_splits)
  qed
qed

lemma insert_elem_inc:
  assumes "1 \<le> i" and "i < int (length xs)" and "inc xs 0 (i - 1)"
  shows "\<exists>ys. insert_elem 1 i xs = Some ys \<and> perm_within 0 i xs ys \<and> inc ys 0 i"
proof -
  let ?t = "xs ! nat i"
  have "ins_inv i ?t (i - 1) xs"
    using assms by (auto simp: ins_inv_def inc_def)
  then obtain j ys where r: "insert_elem 1 i xs = Some (ys[nat (j + 1) := ?t])"
    "gap_inv 1 i xs ?t j ys" "ins_inv i ?t j ys" "j < 0 \<or> ys ! nat j \<le> ?t"
    using insert_elem_total [of 1 i xs "ins_inv i ?t"] ins_inv_step assms(1,2)
    by (force simp: gap_inv_def)
  have "ys[nat (j + 1) := ?t] ! nat a \<le> ys[nat (j + 1) := ?t] ! nat b" if "0 \<le> a" "a < b" "b \<le> i" for a b
  proof (cases "b = j + 1")
    case True
    then have "a = j \<or> ys ! nat a \<le> ys ! nat j"
      using r(3) [unfolded ins_inv_def, rule_format, of a j] r(2) that assms(2)
      by (cases "a = j") (auto simp: gap_inv_def)
    then show ?thesis
      using True r(2,4) that assms(2) by (auto simp: gap_inv_def)
  next
    case False
    then show ?thesis using r(3) that by (simp add: ins_inv_def)
  qed
  then show ?thesis
    using r by (auto simp: inc_def gap_inv_def)
qed

lemma gap_pass_1_sorts:
  assumes "n \<le> length xs"
  shows "\<exists>ys. for_up 1 (int n) (\<lambda>i. insert_elem 1 i) xs = Some ys \<and> perm_within 0 (int n - 1) xs ys \<and>
    inc ys 0 (int n - 1)"
proof (cases "n = 0")
  case True
  then show ?thesis by (simp add: for_up_empty inc_trivial)
next
  case False
  show ?thesis
  proof (rule for_up_total [where P = "\<lambda>i ys. perm_within 0 (int n - 1) xs ys \<and> inc ys 0 (i - 1)"])
    fix i ys assume i: "1 \<le> i" "i < int n" and p: "perm_within 0 (int n - 1) xs ys \<and> inc ys 0 (i - 1)"
    then obtain zs where "insert_elem 1 i ys = Some zs" "perm_within 0 i ys zs" "inc zs 0 i"
      using insert_elem_inc [of i ys] assms perm_within_length [of 0 "int n - 1" xs ys] by auto
    with p i show "\<exists>zs. insert_elem 1 i ys = Some zs \<and> perm_within 0 (int n - 1) xs zs \<and> inc zs 0 (i + 1 - 1)"
      by (metis perm_within_mono perm_within_trans order.refl zle_diff1_eq add_diff_cancel_right')
  qed (use False in \<open>auto simp: inc_trivial\<close>)
qed

text \<open>Shell sort: the passes with larger steps only rearrange, and the last pass has step 1.\<close>

lemma shell_sort_total:
  assumes "n \<le> length xs"
  shows "\<exists>ys. shell_sort xs (int n) = Some ys \<and> perm_within 0 (int n - 1) xs ys \<and> inc ys 0 (int n - 1)"
proof -
  let ?body = "\<lambda>(step, data). if 0 < step then do {
         data \<leftarrow> for_up step (int n) (\<lambda>i. insert_elem step i) data;
         step \<leftarrow> cdiv step 2;
         Some (Inl (step, data)) }
       else Some (Inr data)"
  let ?P = "\<lambda>(step, ys). 0 \<le> step \<and> step \<le> int n \<and> perm_within 0 (int n - 1) xs ys \<and>
    (step = 0 \<longrightarrow> inc ys 0 (int n - 1))"
  have "\<exists>ys. loop ?body (int n div 2, xs) = Some ys \<and> perm_within 0 (int n - 1) xs ys \<and> inc ys 0 (int n - 1)"
  proof (rule loop_total [where P = ?P and m = "nat \<circ> fst"])
    show "?P (int n div 2, xs)"
      by (auto simp: inc_trivial)
    fix s assume "?P s"
    then obtain step ys where s: "s = (step, ys)" and P: "0 \<le> step" "step \<le> int n"
      "perm_within 0 (int n - 1) xs ys" "step = 0 \<longrightarrow> inc ys 0 (int n - 1)" by (cases s) auto
    have len: "n \<le> length ys" using perm_within_length [OF P(3)] assms by simp
    show "(\<exists>r. ?body s = Some (Inr r) \<and> perm_within 0 (int n - 1) xs r \<and> inc r 0 (int n - 1)) \<or>
        (\<exists>t. ?body s = Some (Inl t) \<and> ?P t \<and> (nat \<circ> fst) t < (nat \<circ> fst) s)"
    proof (cases "step = 0")
      case True
      then show ?thesis using P by (simp add: s)
    next
      case False
      have "\<exists>zs. for_up step (int n) (\<lambda>i. insert_elem step i) ys = Some zs \<and> perm_within 0 (int n - 1) ys zs \<and>
          (step = 1 \<longrightarrow> inc zs 0 (int n - 1))"
        using gap_pass_1_sorts [OF len] gap_pass_perm [of step n ys] False P len by (cases "step = 1") auto
      then obtain zs where zs: "for_up step (int n) (\<lambda>i. insert_elem step i) ys = Some zs"
        "perm_within 0 (int n - 1) ys zs" "step = 1 \<longrightarrow> inc zs 0 (int n - 1)" by blast
      moreover have "step div 2 = 0 \<longleftrightarrow> step = 1" using P False by linarith
      ultimately show ?thesis
        using P False by (auto simp: s cdiv_nonneg intro: perm_within_trans)
    qed
  qed
  then show ?thesis
    by (simp add: shell_sort_def cdiv_nonneg)
qed

interpretation bubble: prefix_sorter bubble_sort "\<lambda>_. True"
  by unfold_locales (rule bubble_sort_total)

interpretation insertion: prefix_sorter insert_sort "\<lambda>_. True"
  by unfold_locales (simp add: insert_sort_def gap_pass_1_sorts)

interpretation shell: prefix_sorter shell_sort "\<lambda>_. True"
  by unfold_locales (rule shell_sort_total)

section \<open>Quick sort\<close>

context partitioner
begin

lemma quickSort_with_total:
  assumes "0 \<le> low" and "high < int (length xs)"
  shows "\<exists>ys. quickSort_with part xs low high = Some ys \<and> perm_within low high xs ys \<and> inc ys low high"
  using assms
proof (induction "nat (high - low + 1)" arbitrary: xs low high rule: less_induct)
  case less
  show ?case
  proof (cases "high \<le> low")
    case True
    then show ?thesis
      by (subst quickSort_with.simps) (simp add: inc_trivial)
  next
    case False
    then obtain ys p where ys: "part xs low high = Some (ys, p)" and p: "low \<le> p" "p \<le> high"
      and perm: "perm_within low high xs ys"
      and small: "\<And>k. low \<le> k \<Longrightarrow> k \<le> p \<Longrightarrow> ys ! nat k \<le> ys ! nat p"
      and large: "\<And>k. p \<le> k \<Longrightarrow> k \<le> high \<Longrightarrow> ys ! nat p \<le> ys ! nat k"
      using part [of low high xs] less.prems by auto
    have len: "length ys = length xs" using perm by (rule perm_within_length)
    obtain us where us: "quickSort_with part ys low (p - 1) = Some us" "perm_within low (p - 1) ys us"
      "inc us low (p - 1)"
      using less.hyps [of "p - 1" low ys] less.prems p False len by auto
    have len': "length us = length xs" using us(2) len by (simp add: perm_within_length)
    obtain zs where zs: "quickSort_with part us (p + 1) high = Some zs" "perm_within (p + 1) high us zs"
      "inc zs (p + 1) high"
      using less.hyps [of high "p + 1" us] less.prems p False len' by auto
    have left: "inc zs low (p - 1)"
      using inc_outside [OF zs(2) us(3)] less.prems p len' by simp
    have at_p: "zs ! nat p = ys ! nat p"
      using perm_within_out [OF zs(2), of p] perm_within_out [OF us(2), of p] less.prems p len len' by simp
    have le_p: "zs ! nat k \<le> ys ! nat p" if "low \<le> k" "k < p" for k
      using perm_within_out [OF zs(2), of k] perm_within_le [OF us(2), of k "ys ! nat p"] small
        less.prems p len len' that by simp
    have ge_p: "ys ! nat p \<le> zs ! nat k" if "p < k" "k \<le> high" for k
    proof (rule perm_within_ge [OF zs(2)])
      fix c assume c: "p + 1 \<le> c" "c \<le> high"
      then show "ys ! nat p \<le> us ! nat c"
        using perm_within_out [OF us(2), of c] large [of c] less.prems p len by simp
    qed (use that less.prems p len' in auto)
    have "inc zs low high"
      unfolding inc_def
    proof (intro allI impI)
      fix a b assume ab: "low \<le> a" "a < b" "b \<le> high"
      consider "b < p" | "b = p" | "a < p" "p < b" | "a = p" | "p < a" using ab by linarith
      then show "zs ! nat a \<le> zs ! nat b"
        using ab left zs(3) le_p [of a] ge_p [of b] at_p
        by cases (auto simp: inc_def intro: order.trans)
    qed
    moreover have "perm_within low high xs zs"
      using perm perm_within_mono [OF us(2), of low high] perm_within_mono [OF zs(2), of low high] p
      by (auto intro: perm_within_trans)
    ultimately show ?thesis
      using False ys us(1) zs(1) by (subst quickSort_with.simps) simp
  qed
qed

end

lemma partition_2_total:
  assumes "0 \<le> low" and "low < high" and "high < int (length xs)"
  shows "\<exists>ys p. partition_2 xs low high = Some (ys, p) \<and> low \<le> p \<and> p \<le> high \<and> perm_within low high xs ys \<and>
      (\<forall>k. low \<le> k \<longrightarrow> k \<le> p \<longrightarrow> ys ! nat k \<le> ys ! nat p) \<and>
      (\<forall>k. p \<le> k \<longrightarrow> k \<le> high \<longrightarrow> ys ! nat p \<le> ys ! nat k)"
proof -
  let ?v = "xs ! nat high"
  let ?P = "\<lambda>j (ys, i). low - 1 \<le> i \<and> i < j \<and> perm_within low (high - 1) xs ys \<and>
    (\<forall>k. low \<le> k \<longrightarrow> k \<le> i \<longrightarrow> ys ! nat k < ?v) \<and> (\<forall>k. i < k \<longrightarrow> k < j \<longrightarrow> ?v \<le> ys ! nat k)"
  let ?body = "\<lambda>j (arr, i). do { a \<leftarrow> rd arr j;
       if a < ?v then do { arr \<leftarrow> swap arr (i + 1) j; Some (arr, i + 1) } else Some (arr, i) }"
  have "\<exists>r. for_up low high ?body (xs, low - 1) = Some r \<and> ?P high r"
  proof (rule for_up_total [where P = ?P])
    fix j s assume j: "low \<le> j" "j < high" and "?P j s"
    then obtain ys i where s: "s = (ys, i)" and P: "low - 1 \<le> i" "i < j" "perm_within low (high - 1) xs ys"
      "\<And>k. low \<le> k \<Longrightarrow> k \<le> i \<Longrightarrow> ys ! nat k < ?v" "\<And>k. i < k \<Longrightarrow> k < j \<Longrightarrow> ?v \<le> ys ! nat k"
      by (cases s) auto
    have len: "length ys = length xs" using P(3) by (rule perm_within_length)
    show "\<exists>t. ?body j s = Some t \<and> ?P (j + 1) t"
    proof (cases "ys ! nat j < ?v")
      case True
      let ?zs = "ys[nat (i + 1) := ys ! nat j, nat j := ys ! nat (i + 1)]"
      have "perm_within low (high - 1) xs ?zs"
        using perm_within_swap [of low "high - 1" ys "i + 1" j] P(1-3) assms j len
        by (auto intro: perm_within_trans)
      moreover have "?zs ! nat k < ?v" if "low \<le> k" "k \<le> i + 1" for k
        using that P(1,2) P(4) [of k] True assms j len by auto
      moreover have "?v \<le> ?zs ! nat k" if "i + 1 < k" "k < j + 1" for k
        using that P(1,2) P(5) [of k] P(5) [of "i + 1"] assms j len by auto
      ultimately show ?thesis
        using P(1,2) True j assms len by (simp add: s mem_simps)
    next
      case False
      then have "?v \<le> ys ! nat k" if "i < k" "k < j + 1" for k
        using P(5) [of k] that by (cases "k = j") auto
      then show ?thesis
        using False P(1-4) j assms len by (simp add: s mem_simps)
    qed
  qed (use assms in auto)
  then obtain ys i where r: "for_up low high ?body (xs, low - 1) = Some (ys, i)" "?P high (ys, i)" by auto
  have len: "length ys = length xs" and v: "ys ! nat high = ?v"
    using r(2) assms perm_within_length perm_within_out [of low "high - 1" xs ys high] by auto
  let ?zs = "ys[nat (i + 1) := ys ! nat high, nat high := ys ! nat (i + 1)]"
  have "perm_within low high xs ?zs"
    using r(2) perm_within_swap [of low high ys "i + 1" high] assms len
      perm_within_mono [of low "high - 1" xs ys low high] by (auto intro: perm_within_trans)
  moreover have "partition_2 xs low high = Some (?zs, i + 1)"
    using r assms len by (simp add: partition_2_def mem_simps)
  moreover have "?zs ! nat k = (if k = i + 1 then ?v else if k = high then ys ! nat (i + 1) else ys ! nat k)"
    if "0 \<le> k" for k
    using r(2) assms len v that by auto
  ultimately show ?thesis
    using r(2) assms by (intro exI [of _ ?zs] exI [of _ "i + 1"]) (auto simp: less_imp_le)
qed

lemma scan_left_total:
  assumes "0 \<le> left" and "left < int (length xs)" and "0 \<le> i" and "i \<le> j" and "j < int (length xs)"
  shows "\<exists>j'. scan_left xs left i j = Some j' \<and> i \<le> j' \<and> j' \<le> j \<and>
    (\<forall>k. j' < k \<longrightarrow> k \<le> j \<longrightarrow> xs ! nat left \<le> xs ! nat k) \<and> (j' = i \<or> xs ! nat j' < xs ! nat left)"
  unfolding scan_left_def
proof (rule loop_total [where m = nat and P = "\<lambda>j'. i \<le> j' \<and> j' \<le> j \<and>
    (\<forall>k. j' < k \<longrightarrow> k \<le> j \<longrightarrow> xs ! nat left \<le> xs ! nat k)"])
  fix s assume s: "i \<le> s \<and> s \<le> j \<and> (\<forall>k. s < k \<longrightarrow> k \<le> j \<longrightarrow> xs ! nat left \<le> xs ! nat k)"
  have "s - 1 < k \<longleftrightarrow> k = s \<or> s < k" for k by auto
  with s show "(\<exists>r. (if i < s then do { a \<leftarrow> rd xs s; p \<leftarrow> rd xs left; Some (if p \<le> a then Inl (s - 1) else Inr s) }
        else Some (Inr s)) = Some (Inr r) \<and> i \<le> r \<and> r \<le> j \<and>
        (\<forall>k. r < k \<longrightarrow> k \<le> j \<longrightarrow> xs ! nat left \<le> xs ! nat k) \<and> (r = i \<or> xs ! nat r < xs ! nat left)) \<or>
      (\<exists>t. (if i < s then do { a \<leftarrow> rd xs s; p \<leftarrow> rd xs left; Some (if p \<le> a then Inl (s - 1) else Inr s) }
        else Some (Inr s)) = Some (Inl t) \<and> (i \<le> t \<and> t \<le> j \<and>
        (\<forall>k. t < k \<longrightarrow> k \<le> j \<longrightarrow> xs ! nat left \<le> xs ! nat k)) \<and> nat t < nat s)"
    using assms by (auto simp: mem_simps not_le)
qed (use assms in auto)

lemma scan_right_total:
  assumes "0 \<le> left" and "left < int (length xs)" and "0 \<le> i" and "i \<le> j" and "j < int (length xs)"
  shows "\<exists>i'. scan_right xs left i j = Some i' \<and> i \<le> i' \<and> i' \<le> j \<and>
    (\<forall>k. i \<le> k \<longrightarrow> k < i' \<longrightarrow> xs ! nat k \<le> xs ! nat left) \<and> (i' = j \<or> xs ! nat left < xs ! nat i')"
  unfolding scan_right_def
proof (rule loop_total [where m = "\<lambda>i'. nat (j - i')" and P = "\<lambda>i'. i \<le> i' \<and> i' \<le> j \<and>
    (\<forall>k. i \<le> k \<longrightarrow> k < i' \<longrightarrow> xs ! nat k \<le> xs ! nat left)"])
  fix s assume s: "i \<le> s \<and> s \<le> j \<and> (\<forall>k. i \<le> k \<longrightarrow> k < s \<longrightarrow> xs ! nat k \<le> xs ! nat left)"
  have "k < s + 1 \<longleftrightarrow> k = s \<or> k < s" for k by auto
  with s show "(\<exists>r. (if s < j then do { a \<leftarrow> rd xs s; p \<leftarrow> rd xs left; Some (if a \<le> p then Inl (s + 1) else Inr s) }
        else Some (Inr s)) = Some (Inr r) \<and> i \<le> r \<and> r \<le> j \<and>
        (\<forall>k. i \<le> k \<longrightarrow> k < r \<longrightarrow> xs ! nat k \<le> xs ! nat left) \<and> (r = j \<or> xs ! nat left < xs ! nat r)) \<or>
      (\<exists>t. (if s < j then do { a \<leftarrow> rd xs s; p \<leftarrow> rd xs left; Some (if a \<le> p then Inl (s + 1) else Inr s) }
        else Some (Inr s)) = Some (Inl t) \<and> (i \<le> t \<and> t \<le> j \<and>
        (\<forall>k. i \<le> k \<longrightarrow> k < t \<longrightarrow> xs ! nat k \<le> xs ! nat left)) \<and> nat (j - t) < nat (j - s))"
    using assms by (cases "s < j"; cases "xs ! nat s \<le> xs ! nat left") (auto simp: mem_simps not_le)
qed (use assms in auto)

text \<open>The state between two rounds of the outer loop: up to \<open>i\<close> nothing is larger than the pivot,
  from \<open>j + 1\<close> on nothing is smaller, and the pivot is still in its place.\<close>

definition part_inv :: "int list \<Rightarrow> int \<Rightarrow> int \<Rightarrow> int list \<times> int \<times> int \<Rightarrow> bool" where
  "part_inv xs left right = (\<lambda>(ys, i, j). left \<le> i \<and> i \<le> j \<and> j \<le> right \<and> perm_within left right xs ys \<and>
     ys ! nat left = xs ! nat left \<and>
     (\<forall>k. left \<le> k \<longrightarrow> k \<le> i \<longrightarrow> ys ! nat k \<le> xs ! nat left) \<and>
     (\<forall>k. j < k \<longrightarrow> k \<le> right \<longrightarrow> xs ! nat left \<le> ys ! nat k))"

lemma part_round:
  assumes inv: "part_inv xs left right (ys, i, j)" and "i < j" and "0 \<le> left" and "right < int (length xs)"
  shows "\<exists>j' i' zs. scan_left ys left i j = Some j' \<and> scan_right ys left i j' = Some i' \<and>
    swap ys i' j' = Some zs \<and> part_inv xs left right (zs, i', j') \<and> j' - i' < j - i"
proof -
  let ?v = "xs ! nat left"
  from inv have I: "left \<le> i" "j \<le> right" "perm_within left right xs ys" "ys ! nat left = ?v"
    "\<And>k. left \<le> k \<Longrightarrow> k \<le> i \<Longrightarrow> ys ! nat k \<le> ?v" "\<And>k. j < k \<Longrightarrow> k \<le> right \<Longrightarrow> ?v \<le> ys ! nat k"
    by (auto simp: part_inv_def)
  have len: "length ys = length xs" using I(3) by (rule perm_within_length)
  obtain j' where j': "scan_left ys left i j = Some j'" "i \<le> j'" "j' \<le> j"
    "\<And>k. j' < k \<Longrightarrow> k \<le> j \<Longrightarrow> ?v \<le> ys ! nat k" "j' = i \<or> ys ! nat j' < ?v"
    using scan_left_total [of left ys i j] assms(2-4) I(1,2,4) len by auto
  obtain i' where i': "scan_right ys left i j' = Some i'" "i \<le> i'" "i' \<le> j'"
    "\<And>k. i \<le> k \<Longrightarrow> k < i' \<Longrightarrow> ys ! nat k \<le> ?v" "i' = j' \<or> ?v < ys ! nat i'"
    using scan_right_total [of left ys i j'] assms(2-4) I(1,2,4) len j'(2,3) by auto
  let ?zs = "ys[nat i' := ys ! nat j', nat j' := ys ! nat i']"
  have moved: "i' \<noteq> i \<or> j' = i"
    using i'(2,3,5) I(1) I(5) [of i] j'(2) by auto
  have zk: "?zs ! nat k = (if k = j' then ys ! nat i' else if k = i' then ys ! nat j' else ys ! nat k)"
    if "0 \<le> k" for k
    using that I(1,2) i'(2,3) j'(2,3) assms(3,4) len by simp
  have "swap ys i' j' = Some ?zs"
    using I(1,2) i'(2,3) j'(2,3) assms(3,4) len by (simp add: mem_simps)
  moreover have "perm_within left right xs ?zs"
    using perm_within_swap [of left right ys i' j'] I(1-3) i'(2,3) j'(2,3) assms(3,4) len
    by (auto intro: perm_within_trans)
  moreover have "?zs ! nat left = ?v"
    using zk [of left] moved I(1,4) i'(2,3) j'(2) assms(3) by auto
  moreover have "?zs ! nat k \<le> ?v" if "left \<le> k" "k \<le> i'" for k
    using that zk [of k] i'(3) i'(4) [of k] I(5) [of k] I(5) [of i] j'(5) assms(3) by (cases "k \<le> i") auto
  moreover have "?v \<le> ?zs ! nat k" if "j' < k" "k \<le> right" for k
    using that zk [of k] i'(2,3) j'(4) [of k] I(6) [of k] I(1) assms(3) by (cases "k \<le> j") auto
  ultimately have "part_inv xs left right (?zs, i', j')"
    using I(1,2) i'(2,3) j'(2,3) by (simp add: part_inv_def)
  then show ?thesis
    using \<open>swap ys i' j' = Some ?zs\<close> i'(1-3) j'(1-3) moved assms(2) by (intro exI conjI) auto
qed

lemma partition1_total:
  assumes "0 \<le> left" and "left < right" and "right < int (length xs)"
  shows "\<exists>ys p. partition1 xs left right = Some (ys, p) \<and> left \<le> p \<and> p \<le> right \<and> perm_within left right xs ys \<and>
      (\<forall>k. left \<le> k \<longrightarrow> k \<le> p \<longrightarrow> ys ! nat k \<le> ys ! nat p) \<and>
      (\<forall>k. p \<le> k \<longrightarrow> k \<le> right \<longrightarrow> ys ! nat p \<le> ys ! nat k)"
proof -
  let ?body = "\<lambda>(nums, i, j). if i < j then do {
         j \<leftarrow> scan_left nums left i j;
         i \<leftarrow> scan_right nums left i j;
         nums \<leftarrow> swap nums i j;
         Some (Inl (nums, i, j)) }
       else Some (Inr (nums, i))"
  have "\<exists>r. loop ?body (xs, left, right) = Some r \<and> (case r of (ys, i) \<Rightarrow> part_inv xs left right (ys, i, i))"
  proof (rule loop_total [where P = "part_inv xs left right" and m = "\<lambda>(_, i, j). nat (j - i)"])
    show "part_inv xs left right (xs, left, right)"
      using assms by (auto simp: part_inv_def)
    fix s assume inv: "part_inv xs left right s"
    obtain ys i j where s: "s = (ys, i, j)" by (cases s) auto
    show "(\<exists>r. ?body s = Some (Inr r) \<and> (case r of (ys, i) \<Rightarrow> part_inv xs left right (ys, i, i))) \<or>
        (\<exists>t. ?body s = Some (Inl t) \<and> part_inv xs left right t \<and>
          (case t of (_, i, j) \<Rightarrow> nat (j - i)) < (case s of (_, i, j) \<Rightarrow> nat (j - i)))"
    proof (cases "i < j")
      case True
      with part_round [of xs left right ys i j] inv assms show ?thesis
        by (auto simp: s)
    next
      case False
      with inv have "i = j" by (auto simp: s part_inv_def)
      with inv show ?thesis by (simp add: s)
    qed
  qed
  then obtain ys p where r: "loop ?body (xs, left, right) = Some (ys, p)" "part_inv xs left right (ys, p, p)"
    by auto
  have len: "length ys = length xs" using r(2) perm_within_length by (auto simp: part_inv_def)
  let ?zs = "ys[nat p := ys ! nat left, nat left := ys ! nat p]"
  have zk: "?zs ! nat k = (if k = left then ys ! nat p else if k = p then ys ! nat left else ys ! nat k)"
    if "0 \<le> k" for k
    using that r(2) assms len by (auto simp: part_inv_def)
  have "perm_within left right xs ?zs"
    using perm_within_swap [of left right ys p left] r(2) assms len
    by (auto simp: part_inv_def intro: perm_within_trans)
  moreover have "partition1 xs left right = Some (?zs, p)"
    using r assms len by (auto simp: partition1_def part_inv_def mem_simps)
  ultimately show ?thesis
    using r(2) assms zk by (intro exI [of _ ?zs] exI [of _ p]) (auto simp: part_inv_def)
qed

interpretation lomuto: partitioner "partition_2 :: int list \<Rightarrow> int \<Rightarrow> int \<Rightarrow> _"
  by unfold_locales (rule partition_2_total)

interpretation hoare: partitioner "partition1 :: int list \<Rightarrow> int \<Rightarrow> int \<Rightarrow> _"
  by unfold_locales (rule partition1_total)

interpretation quick: prefix_sorter "\<lambda>xs n. quickSort xs 0 (n - 1)" "\<lambda>_. True"
  by unfold_locales (simp add: quickSort_def hoare.quickSort_with_total)

section \<open>Heap sort\<close>

text \<open>Every cell from \<open>l\<close> on, but \<open>hole\<close>, is at least as large as its children
  below \<open>n\<close>, and the parent of \<open>hole\<close> at least as large as the children of \<open>hole\<close>.
  With \<open>hole = -1\<close> this is a heap.\<close>

definition child :: "int \<Rightarrow> int \<Rightarrow> bool" where
  "child k c \<longleftrightarrow> c = k * 2 + 1 \<or> c = k * 2 + 2"

definition hp :: "int \<Rightarrow> int \<Rightarrow> int \<Rightarrow> 'a::linorder list \<Rightarrow> bool" where
  "hp l n hole xs \<longleftrightarrow>
     (\<forall>k c. l \<le> k \<longrightarrow> k \<noteq> hole \<longrightarrow> child k c \<longrightarrow> c < n \<longrightarrow> xs ! nat c \<le> xs ! nat k) \<and>
     (\<forall>k c. l \<le> k \<longrightarrow> child k hole \<longrightarrow> child hole c \<longrightarrow> c < n \<longrightarrow> xs ! nat c \<le> xs ! nat k)"

lemma hp_le: "hp l n hole xs \<Longrightarrow> l \<le> k \<Longrightarrow> k \<noteq> hole \<Longrightarrow> child k c \<Longrightarrow> c < n \<Longrightarrow> xs ! nat c \<le> xs ! nat k"
  by (auto simp: hp_def)

lemma hp_le2: "hp l n hole xs \<Longrightarrow> l \<le> k \<Longrightarrow> child k hole \<Longrightarrow> child hole c \<Longrightarrow> c < n \<Longrightarrow> xs ! nat c \<le> xs ! nat k"
  by (auto simp: hp_def)

lemma child_unique: "child k c \<Longrightarrow> child k' c \<Longrightarrow> k = k'"
  by (auto simp: child_def)

lemma child_gt: "child k c \<Longrightarrow> 0 \<le> k \<Longrightarrow> k < c"
  by (auto simp: child_def)

lemma hp_closed:
  assumes "hp l n i xs" and "\<And>c. child i c \<Longrightarrow> c < n \<Longrightarrow> xs ! nat c \<le> xs ! nat i" and "0 \<le> l"
  shows "hp l n (-1) xs"
  unfolding hp_def
proof (intro conjI allI impI)
  fix k c assume "l \<le> k" "child k c" "c < n"
  then show "xs ! nat c \<le> xs ! nat k"
    using assms(2) [of c] hp_le [OF assms(1), of k c] by (cases "k = i") auto
qed (use assms(3) in \<open>auto simp: child_def\<close>)

lemma hp_sift:
  assumes hp: "hp l n i xs" and l: "0 \<le> l" "l \<le> i" and g: "child i g" "g < n" and n: "n \<le> int (length xs)"
    and lt: "xs ! nat i < xs ! nat g" and max: "\<And>c. child i c \<Longrightarrow> c < n \<Longrightarrow> xs ! nat c \<le> xs ! nat g"
  shows "hp l n g (xs[nat i := xs ! nat g, nat g := xs ! nat i])"
proof -
  let ?ys = "xs[nat i := xs ! nat g, nat g := xs ! nat i]"
  have ig: "i < g" using child_gt [OF g(1)] l by simp
  have y: "?ys ! nat k = (if k = g then xs ! nat i else if k = i then xs ! nat g else xs ! nat k)" if "0 \<le> k" for k
    using that l ig g n by simp
  have one: "?ys ! nat c \<le> ?ys ! nat k" if k: "l \<le> k" "k \<noteq> g" "child k c" "c < n" for k c
  proof -
    have pos: "0 \<le> k" "0 \<le> c" using k l by (auto simp: child_def)
    consider "k = i" "c = g" | "k = i" "c \<noteq> g" | "k \<noteq> i" "c = i" | "k \<noteq> i" "c \<noteq> i" by blast
    then show ?thesis
    proof cases
      case 1
      then show ?thesis using y [of g] y [of i] pos lt ig by simp
    next
      case 2
      then show ?thesis using y [of c] y [of k] pos max [of c] k child_gt [of i c] ig by simp
    next
      case 3
      then show ?thesis using y [of c] y [of k] pos hp_le2 [OF hp k(1) _ g] k ig by simp
    next
      case 4
      then have "c \<noteq> g" using child_unique [OF g(1)] k(3) by auto
      then show ?thesis using 4 y [of c] y [of k] pos hp_le [OF hp k(1) _ k(3,4)] k(2) by simp
    qed
  qed
  have two: "?ys ! nat c \<le> ?ys ! nat k" if k: "l \<le> k" "child k g" "child g c" "c < n" for k c
  proof -
    have "k = i" using child_unique k(2) g(1) by blast
    moreover have "g < c" using child_gt [OF k(3)] ig l by simp
    moreover have "xs ! nat c \<le> xs ! nat g"
      using hp_le [OF hp _ _ k(3,4)] ig l by simp
    ultimately show ?thesis using y [of c] y [of k] ig l by simp
  qed
  show ?thesis
    unfolding hp_def using one two by blast
qed

lemma heapify_total:
  fixes xs :: "'a::linorder list"
  assumes "0 \<le> l" and "l \<le> i" and "i < n" and "n \<le> int (length xs)" and "n < 2 ^ 30" and "hp l n i xs"
  shows "\<exists>ys. heapify (\<lambda>a b. b < a) xs n i = Some ys \<and> perm_within i (n - 1) xs ys \<and> hp l n (-1) ys"
  using assms
proof (induction "nat (n - i)" arbitrary: i xs rule: less_induct)
  case less
  note prems = less.prems
  define g where "g = (let c = (if i * 2 + 1 < n \<and> xs ! nat i < xs ! nat (i * 2 + 1) then i * 2 + 1 else i)
    in if i * 2 + 2 < n \<and> xs ! nat c < xs ! nat (i * 2 + 2) then i * 2 + 2 else c)"
  have rec: "heapify (\<lambda>a b. b < a) xs n i =
      (if g \<noteq> i then do { arr \<leftarrow> swap xs i g; heapify (\<lambda>a b. b < a) arr n g } else Some xs)"
  proof -
    have "chk32 (i * 2 + 1) = Some (i * 2 + 1)" "chk32 (i * 2 + 2) = Some (i * 2 + 2)"
      using prems(1-3,5) by (simp_all add: chk32_def)
    moreover have "rd xs k = Some (xs ! nat k)" if "0 \<le> k" "k < n" for k
      using that prems(4) by (simp add: rd_def)
    ultimately show ?thesis
      using prems(1-3) by (subst heapify.simps) (simp add: g_def)
  qed
  have max: "xs ! nat c \<le> xs ! nat g" if "child i c" "c < n" for c
    using that by (auto simp: child_def g_def Let_def)
  show ?case
  proof (cases "g = i")
    case True
    then have "hp l n (-1) xs"
      using hp_closed [OF prems(6)] max prems(1) by simp
    then show ?thesis by (simp add: rec True)
  next
    case False
    then have g: "child i g" "g < n" "xs ! nat i < xs ! nat g"
      by (auto simp: g_def Let_def child_def split: if_splits)
    then have ig: "i < g" using child_gt prems by auto
    let ?ys = "xs[nat i := xs ! nat g, nat g := xs ! nat i]"
    have "hp l n g ?ys"
      using hp_sift [OF prems(6,1,2) g(1,2) prems(4) g(3) max] .
    then obtain zs where zs: "heapify (\<lambda>a b. b < a) ?ys n g = Some zs" "perm_within g (n - 1) ?ys zs" "hp l n (-1) zs"
      using less.hyps [of g ?ys] prems ig g(2) by auto
    have "perm_within i (n - 1) xs ?ys"
      using perm_within_swap [of i "n - 1" xs i g] prems ig g(2) by simp
    moreover have "perm_within i (n - 1) ?ys zs"
      using zs(2) ig by (auto intro: perm_within_mono)
    ultimately have "perm_within i (n - 1) xs zs"
      by (rule perm_within_trans)
    then show ?thesis
      using zs False prems ig g(2) by (simp add: rec mem_simps)
  qed
qed

lemma heap_root:
  assumes "hp 0 n (-1) xs" and "0 \<le> k" and "k < n"
  shows "xs ! nat k \<le> xs ! 0"
  using assms(2,3)
proof (induction "nat k" arbitrary: k rule: less_induct)
  case less
  show ?case
  proof (cases "k = 0")
    case False
    let ?p = "(k - 1) div 2"
    have "child ?p k" unfolding child_def using False less.prems by presburger
    then have "xs ! nat k \<le> xs ! nat ?p"
      using hp_le [OF assms(1), of ?p k] less.prems False by simp
    also have "\<dots> \<le> xs ! 0"
      using less.hyps [of ?p] less.prems False by simp
    finally show ?thesis .
  qed simp
qed

text \<open>The first loop builds a heap.\<close>

lemma heap_build:
  fixes xs :: "'a::linorder list"
  assumes "n < 2 ^ 30" and "n \<le> length xs"
  shows "\<exists>ys. for_down (int n div 2 - 1) 0 (\<lambda>i arr. heapify (\<lambda>a b. b < a) arr (int n) i) xs = Some ys \<and>
    perm_within 0 (int n - 1) xs ys \<and> hp 0 (int n) (-1) ys"
proof -
  let ?n = "int n" and ?gt = "\<lambda>a b. (b::'a) < a"
  let ?B = "\<lambda>i ys. perm_within 0 (?n - 1) xs ys \<and> hp (i + 1) ?n (-1) ys"
  have "\<exists>ys. for_down (?n div 2 - 1) 0 (\<lambda>i arr. heapify ?gt arr ?n i) xs = Some ys \<and> ?B (0 - 1) ys"
  proof (rule for_down_total [where P = ?B])
    show "?B (?n div 2 - 1) xs"
      by (auto simp: hp_def child_def)
    fix i ys assume i: "0 \<le> i" "i \<le> ?n div 2 - 1" and B: "?B i ys"
    have len: "length ys = length xs" using B perm_within_length by blast
    have "hp i ?n i ys"
      unfolding hp_def
    proof (intro conjI allI impI)
      fix k c assume k: "i \<le> k" "k \<noteq> i" "child k c" "c < ?n"
      then show "ys ! nat c \<le> ys ! nat k"
        using hp_le [of "i + 1" ?n "-1" ys k c] B i by simp
    qed (use i in \<open>auto simp: child_def\<close>)
    moreover have "i < ?n" using i by presburger
    ultimately obtain zs where "heapify ?gt ys ?n i = Some zs" "perm_within i (?n - 1) ys zs" "hp i ?n (-1) zs"
      using heapify_total [of i i ?n ys] i assms len by auto
    with B i show "\<exists>zs. heapify ?gt ys ?n i = Some zs \<and> ?B (i - 1) zs"
      using perm_within_mono [of i "?n - 1" ys zs 0 "?n - 1"] by (auto intro: perm_within_trans)
  qed auto
  then show ?thesis by simp
qed

text \<open>The second loop: a heap up to \<open>i\<close>, below an ordered rest.\<close>

definition heap_below :: "int \<Rightarrow> int \<Rightarrow> 'a::linorder list \<Rightarrow> bool" where
  "heap_below n i ys \<longleftrightarrow> hp 0 (i + 1) (-1) ys \<and> inc ys (i + 1) (n - 1) \<and>
    (\<forall>a b. 0 \<le> a \<longrightarrow> a \<le> i \<longrightarrow> i < b \<longrightarrow> b < n \<longrightarrow> ys ! nat a \<le> ys ! nat b)"

lemma hp_root_replaced:
  assumes hp: "hp 0 (i + 1) (-1) ys" and "1 \<le> i" and "i < int (length ys)"
  shows "hp 0 i 0 (ys[nat i := ys ! 0, 0 := ys ! nat i])" (is "hp 0 i 0 ?zs")
  unfolding hp_def
proof (intro conjI allI impI)
  fix k c assume k: "0 \<le> k" "k \<noteq> 0" "child k c" "c < i"
  then have "k < c" using child_gt by blast
  then have "?zs ! nat k = ys ! nat k" "?zs ! nat c = ys ! nat c"
    using k assms(2,3) by (simp_all add: nth_list_update)
  then show "?zs ! nat c \<le> ?zs ! nat k"
    using hp_le [OF hp k(1) _ k(3)] k by simp
qed (auto simp: child_def)

lemma heap_extract:
  fixes ys :: "'a::linorder list"
  assumes "1 \<le> i" and "i < n" and "n \<le> int (length ys)" and "n < 2 ^ 30" and E: "heap_below n i ys"
  shows "\<exists>us. (do { arr \<leftarrow> swap ys i 0; heapify (\<lambda>a b. b < a) arr i 0 }) = Some us \<and>
    perm_within 0 (n - 1) ys us \<and> heap_below n (i - 1) us"
proof -
  let ?gt = "\<lambda>a b. (b::'a) < a" and ?zs = "ys[nat i := ys ! 0, 0 := ys ! nat i]"
  have hp: "hp 0 (i + 1) (-1) ys" and inc: "inc ys (i + 1) (n - 1)"
    and low: "\<And>a b. 0 \<le> a \<Longrightarrow> a \<le> i \<Longrightarrow> i < b \<Longrightarrow> b < n \<Longrightarrow> ys ! nat a \<le> ys ! nat b"
    using E by (auto simp: heap_below_def)
  have len: "0 < length ys" using assms(1-3) by (intro length_pos_if_in_set [of "ys ! nat i"]) simp
  have sw: "swap ys i 0 = Some ?zs" using swap_in [of i ys 0] assms(1-3) len by simp
  obtain us where us: "heapify ?gt ?zs i 0 = Some us" "perm_within 0 (i - 1) ?zs us" "hp 0 i (-1) us"
    using heapify_total [OF _ _ _ _ _ hp_root_replaced [OF hp]] assms(1-4) by auto
  have rest: "us ! nat b = (if b = i then ys ! 0 else ys ! nat b)" if "i \<le> b" "b < n" for b
    using perm_within_out [OF us(2), of b] that assms(1-3) by (simp add: nth_list_update)
  have zs0: "?zs ! nat c \<le> ys ! 0" if "0 \<le> c" "c \<le> i - 1" for c
    using heap_root [OF hp, of c] heap_root [OF hp, of i] that assms(1-3) len
    by (cases "c = 0") (simp_all add: nth_list_update)
  have top: "us ! nat a \<le> ys ! 0" if "0 \<le> a" "a < i" for a
    using perm_within_le [OF us(2), of a "ys ! 0"] zs0 that assms(1-3) by simp
  have "perm_within 0 (n - 1) ys us"
    using perm_within_swap [of 0 "n - 1" ys i 0] perm_within_mono [OF us(2), of 0 "n - 1"] assms(1-3)
    by (auto intro: perm_within_trans)
  moreover have "inc us i (n - 1)"
    unfolding inc_def
  proof (intro allI impI)
    fix a b assume ab: "i \<le> a" "a < b" "b \<le> n - 1"
    then show "us ! nat a \<le> us ! nat b"
      using rest [of a] rest [of b] low [of 0 b] incD [OF inc, of a b] assms(1) by auto
  qed
  moreover have "us ! nat a \<le> us ! nat b" if "0 \<le> a" "a \<le> i - 1" "i - 1 < b" "b < n" for a b
    using top [of a] rest [of b] low [of 0 b] that by auto
  ultimately show ?thesis
    using us sw by (auto simp: heap_below_def)
qed

lemma heapify_sort_total:
  fixes xs :: "'a::linorder list"
  assumes "n < 2 ^ 30" and "n \<le> length xs"
  shows "\<exists>ys. heapify_sort_with (\<lambda>a b. b < a) xs (int n) = Some ys \<and> perm_within 0 (int n - 1) xs ys \<and>
    inc ys 0 (int n - 1)"
proof (cases "n = 0")
  case True
  then show ?thesis by (simp add: heapify_sort_with_def cdiv_def for_down_empty inc_trivial)
next
  case False
  obtain hs where hs: "for_down (int n div 2 - 1) 0 (\<lambda>i arr. heapify (\<lambda>a b. b < a) arr (int n) i) xs = Some hs"
    "perm_within 0 (int n - 1) xs hs" "hp 0 (int n) (-1) hs"
    using heap_build [OF assms] by blast
  have "\<exists>ys. for_down (int n - 1) 1 (\<lambda>i arr. do { arr \<leftarrow> swap arr i 0; heapify (\<lambda>a b. b < a) arr i 0 }) hs = Some ys \<and>
      (perm_within 0 (int n - 1) xs ys \<and> heap_below (int n) (1 - 1) ys)"
  proof (rule for_down_total [where P = "\<lambda>i ys. perm_within 0 (int n - 1) xs ys \<and> heap_below (int n) i ys"])
    show "perm_within 0 (int n - 1) xs hs \<and> heap_below (int n) (int n - 1) hs"
      using hs by (simp add: heap_below_def inc_trivial)
    fix i ys assume "1 \<le> i" "i \<le> int n - 1" and E: "perm_within 0 (int n - 1) xs ys \<and> heap_below (int n) i ys"
    then show "\<exists>zs. (do { arr \<leftarrow> swap ys i 0; heapify (\<lambda>a b. b < a) arr i 0 }) = Some zs \<and>
        (perm_within 0 (int n - 1) xs zs \<and> heap_below (int n) (i - 1) zs)"
      using heap_extract [of i "int n" ys] assms perm_within_length [of 0 "int n - 1" xs ys]
      by (force intro: perm_within_trans)
  qed (use False in simp)
  then obtain ys where ys: "for_down (int n - 1) 1 (\<lambda>i arr. do { arr \<leftarrow> swap arr i 0; heapify (\<lambda>a b. b < a) arr i 0 }) hs = Some ys"
    "perm_within 0 (int n - 1) xs ys" "heap_below (int n) 0 ys" by auto
  have "inc ys 0 (int n - 1)"
    unfolding inc_def
  proof (intro allI impI)
    fix a b assume ab: "0 \<le> a" "a < b" "b \<le> int n - 1"
    then show "ys ! nat a \<le> ys ! nat b"
      using ys(3) incD [of ys 1 "int n - 1" a b] by (cases "a = 0") (auto simp: heap_below_def)
  qed
  then show ?thesis
    using hs(1) ys(1,2) by (simp add: heapify_sort_with_def cdiv_nonneg)
qed

interpretation heap: prefix_sorter heapify_sort "\<lambda>n. n < 2 ^ 30"
  by unfold_locales (simp add: heapify_sort_def heapify_sort_total)

section \<open>Properties\<close>

interpretation shell_insertion: two_sorters shell_sort "\<lambda>_. True" insert_sort "\<lambda>_. True" ..

text \<open>
  \<open>shell_sort\<close> sorts the first \<open>n\<close> cells of the array in place, leaves the others as
  they are, stays in bounds and ends.
\<close>

theorem shell_sort_sorts:
  assumes "n \<le> length data"
  shows "shell_sort data (int n) = Some (sort (take n data) @ drop n data)"
  by (rule shell.eq_sort [OF TrueI assms])

theorem shell_sort_sorts_witness: "shell_sort [5, 3, 1, 4, 0] 4 = Some [1, 3, 4, 5, 0]"
  using shell_sort_sorts [of 4 "[5, 3, 1, 4, 0]"] by simp

text \<open>
  The three sorts of the program, which its driver runs on the same data, give the same
  array.
\<close>

theorem array_sorts_agree:
  assumes "n \<le> length data"
  shows "bubble_sort data (int n) = insert_sort data (int n) \<and> shell_sort data (int n) = insert_sort data (int n)"
  using bubble.eq_sort [OF TrueI assms] insertion.eq_sort [OF TrueI assms] shell_insertion.agree [OF _ _ assms]
  by simp

theorem array_sorts_agree_witness:
  "bubble_sort [2, 1, 3] (int 3) = insert_sort [2, 1, 3] (int 3) \<and> shell_sort [2, 1, 3] (int 3) = insert_sort [2, 1, 3] (int 3)"
  using array_sorts_agree [of 3 "[2, 1, 3]"] by simp

text \<open>
  \<open>quickSort(arr, 0, n - 1)\<close> sorts the first \<open>n\<close> cells, in bounds and with a
  recursion that ends, whatever the order and the repetitions of the elements. The file does not compile as
  it is: \<open>partition\<close> names its array \<open>arr\<close> where the parameter is \<open>nums\<close>, which is how it is read here.
\<close>

theorem quickSort_sorts:
  assumes "n \<le> length arr"
  shows "quickSort arr 0 (int n - 1) = Some (sort (take n arr) @ drop n arr)"
  by (rule quick.eq_sort [OF TrueI assms])

theorem quickSort_sorts_witness: "quickSort [1, 7, 2, 10, 8, 5] 0 5 = Some [1, 2, 5, 7, 8, 10]"
  using quickSort_sorts [of 6 "[1, 7, 2, 10, 8, 5]"] by simp

text \<open>
  C33: \<open>heapify_sort\<close> of C/job_interview/22_heap_sort.c sorts the first \<open>n\<close> cells for every \<open>n < 2 ^ 30\<close>, the bound up to
  which the index arithmetic of \<open>heapify\<close> stays in \<open>int\<close>, reads and writes no cell outside them, leaves the
  cells behind as they are, and its recursion ends.
\<close>

theorem heapify_sort_sorts:
  assumes "n < 2 ^ 30" and "n \<le> length arr"
  shows "heapify_sort arr (int n) = Some (sort (take n arr) @ drop n arr)"
  by (rule heap.eq_sort [OF assms])

theorem heapify_sort_sorts_witness: "heapify_sort [1, 7, 2, 10, 8, 5] 6 = Some [1, 2, 5, 7, 8, 10]"
  using heapify_sort_sorts [of 6 "[1, 7, 2, 10, 8, 5]"] by simp

text \<open>
  \<open>check_sort\<close> on a whole non-empty array reads the cell after its end.
\<close>

theorem check_sort_out_of_bounds:
  assumes "data \<noteq> []"
  shows "check_sort data (int (length data)) = None"
proof -
  let ?n = "int (length data)"
  let ?body = "\<lambda>i errs. do {
       a \<leftarrow> rd data i;
       b \<leftarrow> rd data (i + 1);
       Some (if b < a \<and> i + 1 < ?n then errs + 1 else errs) }"
  have "for_up i ?n ?body (e :: nat) = None" if "0 \<le> i" "i < ?n" for i e
    using that
  proof (induction "nat (?n - i)" arbitrary: i e rule: less_induct)
    case less
    have "for_up i ?n ?body e = Option.bind (?body i e) (for_up (i + 1) ?n ?body)"
      using less.prems by (intro for_up_step)
    also have "\<dots> = None"
      using less by (cases "i + 1 < ?n") (simp_all add: rd_def)
    finally show ?case .
  qed
  from this [of 0 0] assms show ?thesis
    by (simp add: check_sort_def)
qed

theorem check_sort_out_of_bounds_witness: "check_sort [1, 2] 2 = None"
  using check_sort_out_of_bounds [of "[1, 2]"] by simp

end
