(* ===== verification/Search.thy ===== *)
theory Search
  imports Loops Arrays
begin

text \<open>
  Searching: the recursive binary search of
  \<^verbatim>\<open>C/00_data_structure_and_algorithms/02_search\<close> and the searches in a rotated
  sorted array of \<^verbatim>\<open>C/job_interview/09_rotate_array_find_minmax.c\<close> and
  \<^verbatim>\<open>10_rotate_array_find_target.c\<close>.
\<close>

section \<open>The programs\<close>

text \<open>The sum of the two bounds may overflow.\<close>

partial_function (option) b_search :: "int list \<Rightarrow> int \<Rightarrow> int \<Rightarrow> int \<Rightarrow> int option" where
  [code]: "b_search list left right target =
     (if right < left then Some (-1)
      else do {
        sum \<leftarrow> chk32 (left + right);
        mid \<leftarrow> cdiv sum 2;
        x \<leftarrow> rd list mid;
        if target = x then Some mid
        else if target < x then b_search list left (mid - 1) target
        else b_search list (mid + 1) right target })"

definition search :: "int list \<Rightarrow> int \<Rightarrow> int \<Rightarrow> int option" where
  "search list num target = (if num = 0 then Some (-1) else b_search list 0 (num - 1) target)"

text \<open>\<open>left + (right - left) / 2\<close>, here for \<open>left <= right\<close>.\<close>

definition midpoint :: "int \<Rightarrow> int \<Rightarrow> int option" where
  "midpoint left right = do { h \<leftarrow> cdiv (right - left) 2; Some (left + h) }"

definition find_min :: "int list \<Rightarrow> int \<Rightarrow> int option" where
  "find_min arr len =
     (if len = 0 then Some (-1)
      else do {
        left \<leftarrow> loop (\<lambda>(left, right).
          if left < right then do {
            mid \<leftarrow> midpoint left right;
            m \<leftarrow> rd arr mid;
            r \<leftarrow> rd arr right;
            Some (Inl (if r < m then (mid + 1, right) else (left, mid))) }
          else Some (Inr left)) (0, len - 1);
        rd arr left })"

definition find_max :: "int list \<Rightarrow> int \<Rightarrow> int option" where
  "find_max arr len =
     (if len = 0 then Some (-1)
      else do {
        first \<leftarrow> rd arr 0;
        final \<leftarrow> rd arr (len - 1);
        if first < final then Some final
        else do {
          left \<leftarrow> loop (\<lambda>(left, right).
            if left < right then do {
              mid \<leftarrow> midpoint left right;
              m \<leftarrow> rd arr mid;
              r \<leftarrow> rd arr right;
              let (left, right) = (if r < m then (mid, right) else (left, mid));
              Some (if right = left + 1 then Inr left else Inl (left, right)) }
            else Some (Inr left)) (0, len - 1);
          rd arr left } })"

definition search1 :: "int list \<Rightarrow> int \<Rightarrow> int \<Rightarrow> int option" where
  "search1 nums numsSize target =
     loop (\<lambda>(left, right).
       if left \<le> right then do {
         mid \<leftarrow> midpoint left right;
         m \<leftarrow> rd nums mid;
         if m = target then Some (Inr mid)
         else do {
           l \<leftarrow> rd nums left;
           if l \<le> m
           then Some (Inl (if l \<le> target \<and> target < m then (left, mid - 1) else (mid + 1, right)))
           else do {
             r \<leftarrow> rd nums right;
             Some (Inl (if m < target \<and> target \<le> r then (mid + 1, right) else (left, mid - 1))) } } }
       else Some (Inr (-1))) (0, numsSize - 1)"

definition search2 :: "int list \<Rightarrow> int \<Rightarrow> int \<Rightarrow> int option" where
  "search2 arr len target =
     (if len = 0 then Some (-1)
      else loop (\<lambda>(left, right).
       if left < right then do {
         mid \<leftarrow> midpoint left right;
         l \<leftarrow> rd arr left;
         m \<leftarrow> rd arr mid;
         let (left, right) =
           (if l < m \<and> (l \<le> target \<and> target \<le> m) then (left, mid)
            else if m < l \<and> (l \<le> target \<or> target \<le> m) then (left, mid)
            else (mid + 1, right));
         x \<leftarrow> rd arr left;
         Some (if x = target then Inr left else Inl (left, right)) }
       else Some (Inr (-1))) (0, len - 1))"

section \<open>Binary search\<close>

lemma b_search_total:
  assumes "sorted xs" and "0 \<le> left" and "right < int (length xs)" and "int (length xs) \<le> 2 ^ 30"
    and "left \<le> right + 1"
  shows "\<exists>r. b_search xs left right t = Some r \<and>
    (if t \<in> (\<lambda>i. xs ! nat i) ` {left..right} then left \<le> r \<and> r \<le> right \<and> xs ! nat r = t else r = -1)"
  using assms(2,3,5)
proof (induction "nat (right + 1 - left)" arbitrary: left right rule: less_induct)
  case less
  note prems = less.prems
  show ?case
  proof (cases "right < left")
    case True
    then show ?thesis by (subst b_search.simps) auto
  next
    case False
    define mid where "mid = (left + right) div 2"
    have mid: "left \<le> mid" "mid \<le> right" using False by (auto simp: mid_def)
    let ?x = "xs ! nat mid"
    have rec: "b_search xs left right t =
        (if t = ?x then Some mid else if t < ?x then b_search xs left (mid - 1) t else b_search xs (mid + 1) right t)"
      using False prems assms(4) mid
      by (subst b_search.simps) (simp add: mem_simps mid_def [symmetric])
    have ord: "xs ! nat a \<le> xs ! nat b" if "left \<le> a" "a \<le> b" "b \<le> right" for a b
      using incD [OF sorted_inc [OF assms(1) prems(1,2)]] that by blast
    have hi: "t \<in> (\<lambda>i. xs ! nat i) ` {left..right} \<longleftrightarrow> t \<in> (\<lambda>i. xs ! nat i) ` {left..mid - 1}" if "t < ?x"
      using that ord [of mid] mid by (fastforce simp: image_iff not_le)
    have lo: "t \<in> (\<lambda>i. xs ! nat i) ` {left..right} \<longleftrightarrow> t \<in> (\<lambda>i. xs ! nat i) ` {mid + 1..right}" if "?x < t"
      using that ord [of _ mid] mid by (fastforce simp: image_iff not_le)
    consider "t = ?x" | "t < ?x" | "?x < t" by linarith
    then show ?thesis
    proof cases
      case 1
      then have "b_search xs left right t = Some mid" using rec by metis
      then show ?thesis using 1 mid by auto
    next
      case 2
      then show ?thesis
        using less.hyps [of "mid - 1" left] mid prems hi by (auto simp: rec)
    next
      case 3
      then show ?thesis
        using less.hyps [of right "mid + 1"] mid prems lo by (auto simp: rec)
    qed
  qed
qed

section \<open>Rotated arrays\<close>

text \<open>The position in the sorted order of the element at index \<open>i\<close>, when the smallest of
  \<open>n\<close> elements is at index \<open>c\<close>.\<close>

definition pos :: "int \<Rightarrow> int \<Rightarrow> int \<Rightarrow> int" where
  "pos c n i = (if i < c then i + (n - c) else i - c)"

definition rotated :: "int \<Rightarrow> int list \<Rightarrow> bool" where
  "rotated c arr \<longleftrightarrow> 0 \<le> c \<and> c < int (length arr) \<and>
     (\<forall>i j. 0 \<le> i \<longrightarrow> i < int (length arr) \<longrightarrow> 0 \<le> j \<longrightarrow> j < int (length arr) \<longrightarrow>
        (arr ! nat i < arr ! nat j \<longleftrightarrow> pos c (int (length arr)) i < pos c (int (length arr)) j))"

lemma rotated_less:
  "rotated c arr \<Longrightarrow> 0 \<le> i \<Longrightarrow> i < int (length arr) \<Longrightarrow> 0 \<le> j \<Longrightarrow> j < int (length arr) \<Longrightarrow>
   arr ! nat i < arr ! nat j \<longleftrightarrow> pos c (int (length arr)) i < pos c (int (length arr)) j"
  by (simp add: rotated_def)

lemma rotated_le:
  "rotated c arr \<Longrightarrow> 0 \<le> i \<Longrightarrow> i < int (length arr) \<Longrightarrow> 0 \<le> j \<Longrightarrow> j < int (length arr) \<Longrightarrow>
   arr ! nat i \<le> arr ! nat j \<longleftrightarrow> pos c (int (length arr)) i \<le> pos c (int (length arr)) j"
  using rotated_less [of c arr j i] by (simp add: linorder_not_less [symmetric])

lemma rotate_rotated:
  assumes "sorted_wrt (<) s" and "s \<noteq> []"
  shows "rotated (int ((length s - k mod length s) mod length s)) (rotate k s)"
proof -
  define m where "m = k mod length s"
  have m: "m < length s" using assms(2) by (simp add: m_def)
  define c where "c = (length s - m) mod length s"
  have c: "c < length s" using assms(2) by (simp add: c_def)
  have nth: "rotate k s ! nat i = s ! nat (pos (int c) (int (length s)) i)"
    and pos: "0 \<le> pos (int c) (int (length s)) i" "pos (int c) (int (length s)) i < int (length s)"
    if i: "0 \<le> i" "i < int (length s)" for i
  proof -
    obtain j where j: "i = int j" "j < length s" using i by (metis int_nat_eq nat_less_iff of_nat_less_iff)
    have "rotate k s ! j = s ! ((m + j) mod length s)"
      using j(2) by (simp add: nth_rotate m_def mod_add_left_eq)
    moreover have "int ((m + j) mod length s) = pos (int c) (int (length s)) i"
    proof (cases "m = 0")
      case True
      then show ?thesis using j by (simp add: c_def pos_def)
    next
      case False
      then have "c = length s - m" using m by (simp add: c_def)
      then show ?thesis using j m False
        by (cases "m + j < length s") (auto simp: pos_def mod_if)
    qed
    ultimately show "rotate k s ! nat i = s ! nat (pos (int c) (int (length s)) i)"
      using j(1) by (metis nat_int)
    show "0 \<le> pos (int c) (int (length s)) i" "pos (int c) (int (length s)) i < int (length s)"
      using i c by (auto simp: pos_def)
  qed
  have "s ! a < s ! b \<longleftrightarrow> a < b" if "a < length s" "b < length s" for a b
    using sorted_wrt_nth_less [OF assms(1), of a b] sorted_wrt_nth_less [OF assms(1), of b a] that
    by (cases a b rule: linorder_cases) auto
  then have "s ! nat p < s ! nat q \<longleftrightarrow> p < q" if "0 \<le> p" "p < int (length s)" "0 \<le> q" "q < int (length s)" for p q
    using that by (auto simp: nat_less_eq_zless nat_less_iff)
  then show ?thesis
    using c nth pos by (simp add: rotated_def c_def [symmetric] m_def [symmetric])
qed

lemma midpoint_in [simp]: "left \<le> right \<Longrightarrow> midpoint left right = Some (left + (right - left) div 2)"
  by (simp add: midpoint_def cdiv_nonneg)

lemma find_min_total:
  assumes rot: "rotated c arr"
  shows "find_min arr (int (length arr)) = Some (arr ! nat c)"
proof -
  let ?n = "int (length arr)"
  have c: "0 \<le> c" "c < ?n" using rot by (auto simp: rotated_def)
  let ?body = "\<lambda>(left, right). if left < right then do {
            mid \<leftarrow> midpoint left right;
            m \<leftarrow> rd arr mid;
            r \<leftarrow> rd arr right;
            Some (Inl (if r < m then (mid + 1, right) else (left, mid))) }
          else Some (Inr left)"
  let ?P = "\<lambda>(left, right). 0 \<le> left \<and> left \<le> c \<and> c \<le> right \<and> right < ?n"
  have "\<exists>r. loop ?body (0, ?n - 1) = Some r \<and> r = c"
  proof (rule loop_total [where P = ?P and m = "\<lambda>(left, right). nat (right - left)"])
    show "?P (0, ?n - 1)" using c by simp
    fix s assume "?P s"
    then obtain left right where s: "s = (left, right)" and P: "0 \<le> left" "left \<le> c" "c \<le> right" "right < ?n"
      by (cases s) auto
    define mid where "mid = left + (right - left) div 2"
    show "(\<exists>r. ?body s = Some (Inr r) \<and> r = c) \<or> (\<exists>t. ?body s = Some (Inl t) \<and> ?P t \<and>
        (case t of (left, right) \<Rightarrow> nat (right - left)) < (case s of (left, right) \<Rightarrow> nat (right - left)))"
    proof (cases "left < right")
      case True
      have mid: "left \<le> mid" "mid < right" using True by (auto simp: mid_def)
      have "arr ! nat right < arr ! nat mid \<longleftrightarrow> mid < c"
        using rotated_less [OF rot, of right mid] P mid by (auto simp: pos_def)
      then show ?thesis
        using True P mid by (simp add: s mem_simps mid_def [symmetric])
    qed (use P in \<open>simp add: s\<close>)
  qed
  then show ?thesis
    using c by (auto simp: find_min_def mem_simps)
qed

lemma find_max_total:
  assumes rot: "rotated c arr"
  shows "find_max arr (int (length arr)) = Some (arr ! nat (if c = 0 then int (length arr) - 1 else c - 1))"
proof -
  let ?n = "int (length arr)"
  have c: "0 \<le> c" "c < ?n" using rot by (auto simp: rotated_def)
  have first: "arr ! 0 < arr ! nat (?n - 1) \<longleftrightarrow> c = 0 \<and> 1 < ?n"
  proof -
    have "arr \<noteq> []" using c by auto
    then show ?thesis
      using rotated_less [OF rot, of 0 "?n - 1"] c by (auto simp: pos_def split: if_splits)
  qed
  let ?body = "\<lambda>(left, right). if left < right then do {
              mid \<leftarrow> midpoint left right;
              m \<leftarrow> rd arr mid;
              r \<leftarrow> rd arr right;
              let (left, right) = (if r < m then (mid, right) else (left, mid));
              Some (if right = left + 1 then Inr left else Inl (left, right)) }
            else Some (Inr left)"
  let ?P = "\<lambda>(left, right). 0 \<le> left \<and> left \<le> c - 1 \<and> c \<le> right \<and> right < ?n"
  have "\<exists>r. loop ?body (0, ?n - 1) = Some r \<and> r = c - 1" if "0 < c"
  proof (rule loop_total [where P = ?P and m = "\<lambda>(left, right). nat (right - left)"])
    show "?P (0, ?n - 1)" using c that by simp
    fix s assume "?P s"
    then obtain left right where s: "s = (left, right)" and P: "0 \<le> left" "left \<le> c - 1" "c \<le> right" "right < ?n"
      by (cases s) auto
    define mid where "mid = left + (right - left) div 2"
    have mid: "left \<le> mid" "mid < right" "right - left = 1 \<or> left < mid" using P by (auto simp: mid_def)
    have "arr ! nat right < arr ! nat mid \<longleftrightarrow> mid < c"
      using rotated_less [OF rot, of right mid] P mid by (auto simp: pos_def)
    then show "(\<exists>r. ?body s = Some (Inr r) \<and> r = c - 1) \<or> (\<exists>t. ?body s = Some (Inl t) \<and> ?P t \<and>
        (case t of (left, right) \<Rightarrow> nat (right - left)) < (case s of (left, right) \<Rightarrow> nat (right - left)))"
      using P mid by (cases "mid < c") (auto simp: s mem_simps mid_def [symmetric])
  qed
  moreover have "rd arr 0 = Some (arr ! 0)" "rd arr (?n - 1) = Some (arr ! nat (?n - 1))"
    using c by (auto simp: rd_def)
  moreover have "loop ?body (0, ?n - 1) = Some 0" if "\<not> 1 < ?n"
    using that c by (subst loop.simps) simp
  ultimately show ?thesis
    using c first by (cases "c = 0") (auto simp: find_max_def mem_simps)
qed

text \<open>One round of \<open>search1\<close> never discards an index that holds the target.\<close>

lemma search1_narrow:
  assumes rot: "rotated c arr" and b: "0 \<le> left" "left \<le> mid" "mid \<le> right" "right < int (length arr)"
    and i: "left \<le> i" "i \<le> right" "i \<noteq> mid" and t: "t = arr ! nat i"
  shows "arr ! nat left \<le> arr ! nat mid \<Longrightarrow> (arr ! nat left \<le> t \<and> t < arr ! nat mid \<longleftrightarrow> i < mid)"
    and "\<not> arr ! nat left \<le> arr ! nat mid \<Longrightarrow> (arr ! nat mid < t \<and> t \<le> arr ! nat right \<longleftrightarrow> mid < i)"
proof -
  have c: "0 \<le> c" "c < int (length arr)" using rot by (auto simp: rotated_def)
  note cmp = rotated_le [OF rot, of left mid] rotated_le [OF rot, of left i] rotated_less [OF rot, of i mid]
    rotated_less [OF rot, of mid i] rotated_le [OF rot, of i right]
  show "arr ! nat left \<le> arr ! nat mid \<Longrightarrow> (arr ! nat left \<le> t \<and> t < arr ! nat mid \<longleftrightarrow> i < mid)"
    using cmp b i c unfolding t by (auto simp: pos_def split: if_splits)
  show "\<not> arr ! nat left \<le> arr ! nat mid \<Longrightarrow> (arr ! nat mid < t \<and> t \<le> arr ! nat right \<longleftrightarrow> mid < i)"
    using cmp b i c unfolding t by (auto simp: pos_def split: if_splits)
qed

lemma search1_total:
  assumes rot: "rotated c arr"
  shows "\<exists>r. search1 arr (int (length arr)) t = Some r \<and>
    (0 \<le> r \<and> r < int (length arr) \<and> arr ! nat r = t \<or> r = -1 \<and> t \<notin> set arr)"
proof -
  let ?n = "int (length arr)"
  let ?Q = "\<lambda>r. 0 \<le> r \<and> r < ?n \<and> arr ! nat r = t \<or> r = -1 \<and> t \<notin> set arr"
  let ?P = "\<lambda>(left, right). 0 \<le> left \<and> right < ?n \<and>
    (\<forall>i. 0 \<le> i \<longrightarrow> i < ?n \<longrightarrow> arr ! nat i = t \<longrightarrow> left \<le> i \<and> i \<le> right)"
  show ?thesis
    unfolding search1_def
  proof (rule loop_total [where P = ?P and m = "\<lambda>(left, right). nat (right + 1 - left)"], goal_cases)
    case 1
    show ?case by simp
  next
    case (2 s)
    then obtain left right where s: "s = (left, right)" and P: "0 \<le> left" "right < ?n"
      and all: "\<And>i. 0 \<le> i \<Longrightarrow> i < ?n \<Longrightarrow> arr ! nat i = t \<Longrightarrow> left \<le> i \<and> i \<le> right" by (cases s) auto
    show ?case
    proof (cases "left \<le> right")
      case False
      then have "t \<notin> set arr"
        using all by (force simp: in_set_conv_nth dest: spec [of _ "int _"])
      then show ?thesis using False by (simp add: s)
    next
      case True
      define mid where "mid = left + (right - left) div 2"
      have mid: "left \<le> mid" "mid \<le> right" using True by (auto simp: mid_def)
      let ?m = "arr ! nat mid" and ?l = "arr ! nat left" and ?r = "arr ! nat right"
      show ?thesis
      proof (cases "?m = t")
        case eq: True
        then show ?thesis
          using True P mid by (simp add: s mem_simps mid_def [symmetric])
      next
        case ne: False
        define next' where "next' = (if ?l \<le> ?m then (if ?l \<le> t \<and> t < ?m then (left, mid - 1) else (mid + 1, right))
          else (if ?m < t \<and> t \<le> ?r then (mid + 1, right) else (left, mid - 1)))"
        have narrow: "left \<le> i \<and> i \<le> right \<and> i \<noteq> mid \<and> (?l \<le> ?m \<longrightarrow> (?l \<le> t \<and> t < ?m \<longleftrightarrow> i < mid)) \<and>
            (\<not> ?l \<le> ?m \<longrightarrow> (?m < t \<and> t \<le> ?r \<longleftrightarrow> mid < i))" if "0 \<le> i" "i < ?n" "arr ! nat i = t" for i
          using all [OF that] search1_narrow [OF rot P(1) mid P(2), of i t] that ne by auto
        then have "?P next'"
          using P mid by (auto simp: next'_def dest: narrow)
        moreover have "(case next' of (left, right) \<Rightarrow> nat (right + 1 - left)) < nat (right + 1 - left)"
          using mid by (auto simp: next'_def)
        moreover have "midpoint left right = Some mid" "rd arr mid = Some ?m" "rd arr left = Some ?l"
            "rd arr right = Some ?r"
          using True P mid by (simp_all add: mid_def rd_def)
        ultimately show ?thesis
          using True ne by (intro disjI2 exI [of _ next']) (simp add: s next'_def)
      qed
    qed
  qed
qed

section \<open>Properties\<close>

text \<open>
  On a sorted array whose indices can be added without overflow, \<open>search\<close> returns an index
  that holds the target, and -1 exactly when the target does not occur.
\<close>

theorem search_correct:
  assumes "sorted list" and "length list \<le> 2 ^ 30"
  shows "\<exists>r. search list (int (length list)) target = Some r \<and>
    (if target \<in> set list then 0 \<le> r \<and> r < int (length list) \<and> list ! nat r = target else r = -1)"
proof -
  let ?n = "int (length list)"
  have n: "?n \<le> 2 ^ 30" using assms(2) by simp
  have "set list = (\<lambda>i. list ! nat i) ` {0..?n - 1}"
    by (auto simp: in_set_conv_nth image_iff intro!: bexI [of _ "int _"]) (metis nat_less_iff)
  then show ?thesis
    using b_search_total [OF assms(1) order.refl _ n, of "?n - 1" target]
    by (cases "list = []") (auto simp: search_def split: if_splits)
qed

theorem search_correct_witness: "\<exists>r. search [1, 3, 4, 6, 7, 9] 6 7 = Some r \<and> [1, 3, 4, 6, 7, 9] ! nat r = (7::int)"
  using search_correct [of "[1, 3, 4, 6, 7, 9]" 7] by auto

text \<open>
  On a sorted array of distinct elements rotated by any \<open>k\<close>, \<open>find_min\<close> and
  \<open>find_max\<close> return the minimum and the maximum.
\<close>

theorem find_min_max_correct:
  assumes "sorted_wrt (<) s" and "s \<noteq> []"
  shows "find_min (rotate k s) (int (length s)) = Some (Min (set s)) \<and>
    find_max (rotate k s) (int (length s)) = Some (Max (set s))"
proof -
  let ?arr = "rotate k s" and ?n = "int (length s)"
  obtain c where rot: "rotated c ?arr" using rotate_rotated [OF assms] by blast
  have c: "0 \<le> c" "c < ?n" using rot by (auto simp: rotated_def)
  let ?d = "if c = 0 then ?n - 1 else c - 1"
  have "?arr ! nat c \<le> x" "x \<le> ?arr ! nat ?d" if "x \<in> set s" for x
  proof -
    have "x \<in> set ?arr" using that by simp
    then obtain i where i: "i < length ?arr" "x = ?arr ! i" by (metis in_set_conv_nth)
    show "?arr ! nat c \<le> x"
      using rotated_le [OF rot, of c "int i"] i c by (simp add: pos_def)
    show "x \<le> ?arr ! nat ?d"
      using rotated_le [OF rot, of "int i" ?d] i c by (auto simp: pos_def)
  qed
  moreover have "?arr ! nat c \<in> set s" "?arr ! nat ?d \<in> set s"
    using nth_mem [of "nat c" ?arr] nth_mem [of "nat ?d" ?arr] c by (auto simp: nat_less_iff)
  ultimately have "Min (set s) = ?arr ! nat c" "Max (set s) = ?arr ! nat ?d"
    by (auto intro: Min_eqI Max_eqI)
  then show ?thesis
    using find_min_total [OF rot] find_max_total [OF rot] by simp
qed

theorem find_min_max_correct_witness:
  "find_min [4, 5, 1, 2, 3] 5 = Some 1 \<and> find_max [4, 5, 1, 2, 3] 5 = Some 5"
proof -
  have "rotate 3 [1, 2, 3, 4, 5 :: int] = [4, 5, 1, 2, 3]"
    by (simp add: rotate_def numeral_eq_Suc)
  then show ?thesis
    using find_min_max_correct [of "[1, 2, 3, 4, 5]" 3] by simp
qed

text \<open>
  On a sorted array of distinct elements rotated by any \<open>k\<close>, \<open>search1\<close> ends and
  returns an index that holds the target, and -1 exactly when the target does not occur.
\<close>

theorem search1_correct:
  assumes "sorted_wrt (<) s"
  shows "\<exists>r. search1 (rotate k s) (int (length s)) target = Some r \<and>
    (if target \<in> set s then 0 \<le> r \<and> r < int (length s) \<and> rotate k s ! nat r = target else r = -1)"
proof (cases "s = []")
  case True
  then show ?thesis by (simp add: search1_def) (subst loop.simps, simp)
next
  case False
  obtain c where "rotated c (rotate k s)" using rotate_rotated [OF assms False] by blast
  from search1_total [OF this, of target] show ?thesis
    by (metis length_rotate nat_less_iff nth_mem set_rotate)
qed

theorem search1_correct_witness:
  "\<exists>r. search1 [4, 5, 1, 2, 3] 5 2 = Some r \<and> [4, 5, 1, 2, 3] ! nat r = (2::int)"
proof -
  have "rotate 3 [1, 2, 3, 4, 5 :: int] = [4, 5, 1, 2, 3]"
    by (simp add: rotate_def numeral_eq_Suc)
  then show ?thesis
    using search1_correct [of "[1, 2, 3, 4, 5]" 3 2] by auto
qed

text \<open>
  \<open>search2\<close>, the program's other version, misses a target that is there: in an array of
  two ascending elements it never finds the first one.
\<close>

theorem search2_misses_first:
  assumes "x < y"
  shows "search2 [x, y] 2 x = Some (-1)"
proof -
  let ?body = "\<lambda>(left, right).
       if left < right then do {
         mid \<leftarrow> midpoint left right;
         l \<leftarrow> rd [x, y] left;
         m \<leftarrow> rd [x, y] mid;
         let (left, right) =
           (if l < m \<and> (l \<le> x \<and> x \<le> m) then (left, mid)
            else if m < l \<and> (l \<le> x \<or> x \<le> m) then (left, mid)
            else (mid + 1, right));
         z \<leftarrow> rd [x, y] left;
         Some (if z = x then Inr left else Inl (left, right)) }
       else Some (Inr (-1))"
  have "loop ?body (0, 1) = loop ?body (1, 1)"
    using assms by (subst loop.simps) (simp add: rd_def)
  also have "\<dots> = Some (-1)"
    by (subst loop.simps) simp
  finally show ?thesis by (simp add: search2_def)
qed

theorem search2_misses_first_witness: "search2 [1, 2] 2 1 = Some (-1)"
  using search2_misses_first [of 1 2] by simp

end
