(* ===== verification/Stacks.thy ===== *)
theory Stacks
  imports Loops Interfaces
begin

text \<open>
  The stacks and queues of \<^verbatim>\<open>C/job_interview\<close>: the growing array stack and the queue
  made of two of them (\<^verbatim>\<open>19_stack_implemented_queue.c\<close>), the minimum stacks
  (\<^verbatim>\<open>21_minimum_stack.c\<close>, \<^verbatim>\<open>27_minimum_stack2.c\<close>) and the stack
  made of two array queues (\<^verbatim>\<open>20_queue_implemented_stack.c\<close>). Each interprets the
  container contract it implements. \<open>alloc c\<close> tells whether \<open>realloc\<close> to a capacity
  \<open>c\<close> succeeds; \<open>exit(EXIT_FAILURE)\<close> is the value \<open>Inl 1\<close>.
\<close>

section \<open>The growing stack\<close>

record stack =
  sdata :: "int option list"
  stop :: int
  capacity :: int

definition stackInit :: "bool \<Rightarrow> stack" where
  "stackInit ok = \<lparr>sdata = (if ok then replicate 4 None else []), stop = -1, capacity = 4\<rparr>"

definition stackEmpty :: "stack \<Rightarrow> bool" where
  "stackEmpty s \<longleftrightarrow> stop s = -1"

definition stackResize :: "(int \<Rightarrow> bool) \<Rightarrow> stack \<Rightarrow> (int + stack) option" where
  "stackResize alloc s = do {
     c \<leftarrow> chk32 (capacity s * 2);
     Some (if alloc c
       then Inr (s\<lparr>capacity := c, sdata := sdata s @ replicate (nat c - length (sdata s)) None\<rparr>)
       else Inl 1) }"

definition stackPush :: "(int \<Rightarrow> bool) \<Rightarrow> stack \<Rightarrow> int \<Rightarrow> (int + stack) option" where
  "stackPush alloc s val =
     bindE (if stop s = capacity s - 1 then stackResize alloc s else Some (Inr s)) (\<lambda>s. do {
       d \<leftarrow> wr (sdata s) (stop s + 1) (Some val);
       Some (Inr (s\<lparr>sdata := d, stop := stop s + 1\<rparr>)) })"

definition stackPop :: "stack \<Rightarrow> (int + int \<times> stack) option" where
  "stackPop s =
     (if stackEmpty s then Some (Inl 1)
      else do {
        v \<leftarrow> cell (sdata s) (stop s);
        Some (Inr (v, s\<lparr>stop := stop s - 1\<rparr>)) })"

definition stackPeek :: "stack \<Rightarrow> (int + int) option" where
  "stackPeek s =
     (if stackEmpty s then Some (Inl 1)
      else do { v \<leftarrow> cell (sdata s) (stop s); Some (Inr v) })"

text \<open>The elements, the top first.\<close>

definition stack_abs :: "stack \<Rightarrow> int list" where
  "stack_abs s = rev (map the (take (nat (stop s + 1)) (sdata s)))"

definition stack_ok :: "stack \<Rightarrow> bool" where
  "stack_ok s \<longleftrightarrow> capacity s = int (length (sdata s)) \<and> 4 \<le> capacity s \<and> -1 \<le> stop s \<and> stop s < capacity s \<and>
     None \<notin> set (take (nat (stop s + 1)) (sdata s))"

lemma stackInit_ok: "stack_ok (stackInit True)" "stack_abs (stackInit True) = []"
  by (simp_all add: stack_ok_def stackInit_def stack_abs_def)

lemma stack_abs_length: "stack_ok s \<Longrightarrow> int (length (stack_abs s)) = stop s + 1"
  by (auto simp: stack_ok_def stack_abs_def min_def)

lemma stackEmpty_iff: "stack_ok s \<Longrightarrow> stackEmpty s \<longleftrightarrow> stack_abs s = []"
  using stack_abs_length [of s] by (auto simp: stackEmpty_def)

lemma write_top:
  assumes "0 \<le> k" and "k < int (length d)"
  shows "take (nat (k + 1)) (d[nat k := v]) = take (nat k) d @ [v]"
proof -
  obtain n where n: "k = int n" "n < length d" using assms by (metis nat_0_le nat_less_iff)
  then show ?thesis
    by (simp add: nat_add_distrib take_Suc_conv_app_nth)
qed

lemma stackPush_ok:
  assumes "stack_ok s" and "length (stack_abs s) < 2 ^ 30"
  shows "\<exists>t. stackPush (\<lambda>_. True) s x = Some (Inr t) \<and> stack_ok t \<and> stack_abs t = x # stack_abs s"
proof -
  define u where "u = (if stop s = capacity s - 1
    then s\<lparr>capacity := capacity s * 2, sdata := sdata s @ replicate (nat (capacity s * 2) - length (sdata s)) None\<rparr> else s)"
  have len: "stop s + 1 < 2 ^ 30" using stack_abs_length [OF assms(1)] assms(2) by simp
  have s: "capacity s = int (length (sdata s))" "4 \<le> capacity s" "-1 \<le> stop s" "stop s < capacity s"
    "None \<notin> set (take (nat (stop s + 1)) (sdata s))"
    using assms(1) by (auto simp: stack_ok_def)
  have grow: "(if stop s = capacity s - 1 then stackResize (\<lambda>_. True) s else Some (Inr s)) = Some (Inr u)"
    using len s(2) by (auto simp: stackResize_def u_def chk32_def)
  have u: "capacity u = int (length (sdata u))" "4 \<le> capacity u" "stop u = stop s" "stop s + 1 < capacity u"
    "take (nat (stop s + 1)) (sdata u) = take (nat (stop s + 1)) (sdata s)"
    using s by (auto simp: u_def)
  let ?d = "(sdata u)[nat (stop s + 1) := Some x]"
  have top: "take (nat (stop s + 1 + 1)) ?d = take (nat (stop s + 1)) (sdata s) @ [Some x]"
    using write_top [of "stop s + 1" "sdata u" "Some x"] u s(3) by simp
  have "stackPush (\<lambda>_. True) s x = Some (Inr (u\<lparr>sdata := ?d, stop := stop s + 1\<rparr>))"
    unfolding stackPush_def grow using u s(3) by (simp add: mem_simps)
  moreover have "stack_ok (u\<lparr>sdata := ?d, stop := stop s + 1\<rparr>)"
    using u(1,2,4) s(3,5) top by (simp add: stack_ok_def)
  moreover have "stack_abs (u\<lparr>sdata := ?d, stop := stop s + 1\<rparr>) = x # stack_abs s"
    using top by (simp add: stack_abs_def)
  ultimately show ?thesis by blast
qed

lemma stack_top:
  assumes "stack_ok s" and "stack_abs s = x # xs"
  shows "cell (sdata s) (stop s) = Some x" and "0 \<le> stop s"
    and "stack_ok (s\<lparr>stop := stop s - 1\<rparr>)" and "stack_abs (s\<lparr>stop := stop s - 1\<rparr>) = xs"
proof -
  have s: "capacity s = int (length (sdata s))" "stop s < capacity s" "None \<notin> set (take (nat (stop s + 1)) (sdata s))"
    using assms(1) by (auto simp: stack_ok_def)
  show pos: "0 \<le> stop s"
    using stack_abs_length [OF assms(1)] assms(2) by simp
  then obtain n where n: "stop s = int n" using nonneg_int_cases by blast
  have take: "take (Suc n) (sdata s) = take n (sdata s) @ [sdata s ! n]"
    using s(1,2) n by (simp add: take_Suc_conv_app_nth)
  have nat: "nat (int n + 1) = Suc n" by simp
  have "None \<noteq> sdata s ! n" and low: "None \<notin> set (take n (sdata s))"
    using s(3) unfolding n nat take by (simp_all del: not_None_eq)
  moreover have x: "the (sdata s ! n) = x" "rev (map the (take n (sdata s))) = xs"
    using assms(2) unfolding stack_abs_def n nat take by auto
  ultimately show "cell (sdata s) (stop s) = Some x"
    using s(1,2) n by (cases "sdata s ! n") (simp_all add: mem_simps)
  show "stack_ok (s\<lparr>stop := stop s - 1\<rparr>)" "stack_abs (s\<lparr>stop := stop s - 1\<rparr>) = xs"
    using assms(1) low x n by (simp_all add: stack_ok_def stack_abs_def)
qed

lemma stackPop_ok:
  assumes "stack_ok s" and "stack_abs s = x # xs"
  shows "\<exists>t. stackPop s = Some (Inr (x, t)) \<and> stack_ok t \<and> stack_abs t = xs"
  using stack_top [OF assms] by (simp add: stackPop_def stackEmpty_def)

lemma stackPeek_ok: "stack_ok s \<Longrightarrow> stack_abs s = x # xs \<Longrightarrow> stackPeek s = Some (Inr x)"
  using stack_top [of s x xs] by (simp add: stackPeek_def stackEmpty_def)

lemma stackPop_empty: "stack_ok s \<Longrightarrow> stack_abs s = [] \<Longrightarrow> stackPop s = Some (Inl 1)"
  by (simp add: stackPop_def stackEmpty_iff)

interpretation array_stack: lifo stack_ok stack_abs "\<lambda>xs. length xs < 2 ^ 30"
  "\<lambda>x s. okv (stackPush (\<lambda>_. True) s x)" "\<lambda>s. okv (stackPop s)"
  by unfold_locales (use stackPush_ok stackPop_ok in \<open>simp_all\<close>)

section \<open>A queue made of two stacks\<close>

record myqueue =
  qin :: stack
  qout :: stack

definition myQueueCreate :: "bool \<Rightarrow> myqueue" where
  "myQueueCreate ok = \<lparr>qin = stackInit ok, qout = stackInit ok\<rparr>"

definition myQueuePush :: "(int \<Rightarrow> bool) \<Rightarrow> myqueue \<Rightarrow> int \<Rightarrow> (int + myqueue) option" where
  "myQueuePush alloc q x = bindE (stackPush alloc (qin q) x) (\<lambda>s. Some (Inr (q\<lparr>qin := s\<rparr>)))"

definition transfer :: "(int \<Rightarrow> bool) \<Rightarrow> myqueue \<Rightarrow> (int + myqueue) option" where
  "transfer alloc = loop (\<lambda>q.
     if stackEmpty (qin q) then Some (Inr (Inr q))
     else do {
       r \<leftarrow> bindE (stackPop (qin q)) (\<lambda>(v, s).
              bindE (stackPush alloc (qout q) v) (\<lambda>t. Some (Inr (q\<lparr>qin := s, qout := t\<rparr>))));
       Some (case r of Inl e \<Rightarrow> Inr (Inl e) | Inr q \<Rightarrow> Inl q) })"

definition refill :: "(int \<Rightarrow> bool) \<Rightarrow> myqueue \<Rightarrow> (int + myqueue) option" where
  "refill alloc q = (if stackEmpty (qout q) then transfer alloc q else Some (Inr q))"

definition myQueuePop :: "(int \<Rightarrow> bool) \<Rightarrow> myqueue \<Rightarrow> (int + int \<times> myqueue) option" where
  "myQueuePop alloc q = bindE (refill alloc q) (\<lambda>q.
     bindE (stackPop (qout q)) (\<lambda>(v, s). Some (Inr (v, q\<lparr>qout := s\<rparr>))))"

definition myQueuePeek :: "(int \<Rightarrow> bool) \<Rightarrow> myqueue \<Rightarrow> (int + int \<times> myqueue) option" where
  "myQueuePeek alloc q = bindE (refill alloc q) (\<lambda>q. bindE (stackPeek (qout q)) (\<lambda>v. Some (Inr (v, q))))"

definition myQueueEmpty :: "myqueue \<Rightarrow> bool" where
  "myQueueEmpty q \<longleftrightarrow> stackEmpty (qin q) \<and> stackEmpty (qout q)"

definition queue_abs :: "myqueue \<Rightarrow> int list" where
  "queue_abs q = stack_abs (qout q) @ rev (stack_abs (qin q))"

definition queue_ok :: "myqueue \<Rightarrow> bool" where
  "queue_ok q \<longleftrightarrow> stack_ok (qin q) \<and> stack_ok (qout q) \<and> length (queue_abs q) \<le> 2 ^ 30"

lemma myQueueCreate_ok: "queue_ok (myQueueCreate True)" "queue_abs (myQueueCreate True) = []"
  by (simp_all add: queue_ok_def queue_abs_def myQueueCreate_def stackInit_ok)

lemma transfer_ok:
  assumes "queue_ok q" and "stack_abs (qout q) = []"
  shows "\<exists>t. transfer (\<lambda>_. True) q = Some (Inr t) \<and> queue_ok t \<and> queue_abs t = queue_abs q \<and> stack_abs (qin t) = []"
proof -
  let ?P = "\<lambda>t. stack_ok (qin t) \<and> stack_ok (qout t) \<and> rev (stack_abs (qin t)) @ stack_abs (qout t) = queue_abs q"
  have "\<exists>r. transfer (\<lambda>_. True) q = Some r \<and> (\<exists>t. r = Inr t \<and> ?P t \<and> stack_abs (qin t) = [])"
    unfolding transfer_def
  proof (rule loop_total [where P = ?P and m = "\<lambda>t. length (stack_abs (qin t))"], goal_cases)
    case 1
    show ?case using assms by (simp add: queue_ok_def queue_abs_def)
  next
    case (2 t)
    then have ok: "stack_ok (qin t)" "stack_ok (qout t)" by auto
    have "length (stack_abs (qin t)) + length (stack_abs (qout t)) = length (queue_abs q)"
      using 2 by (metis length_append length_rev)
    then have len: "length (stack_abs (qin t)) + length (stack_abs (qout t)) \<le> 2 ^ 30"
      using assms(1) by (simp add: queue_ok_def)
    show ?case
    proof (cases "stack_abs (qin t)")
      case Nil
      then show ?thesis using 2 stackEmpty_iff [OF ok(1)] by simp
    next
      case (Cons x xs)
      obtain a where a: "stackPop (qin t) = Some (Inr (x, a))" "stack_ok a" "stack_abs a = xs"
        using stackPop_ok [OF ok(1) Cons] by blast
      obtain b where b: "stackPush (\<lambda>_. True) (qout t) x = Some (Inr b)" "stack_ok b" "stack_abs b = x # stack_abs (qout t)"
        using stackPush_ok [OF ok(2), of x] len Cons by auto
      show ?thesis
        using 2 a b stackEmpty_iff [OF ok(1)] Cons by auto
    qed
  qed
  then show ?thesis using assms(1) by (auto simp: queue_ok_def queue_abs_def)
qed

lemma refill_ok:
  assumes "queue_ok q"
  shows "\<exists>t. refill (\<lambda>_. True) q = Some (Inr t) \<and> queue_ok t \<and> queue_abs t = queue_abs q \<and>
    (queue_abs q \<noteq> [] \<longrightarrow> stack_abs (qout t) \<noteq> [])"
proof (cases "stackEmpty (qout q)")
  case True
  then have "stack_abs (qout q) = []"
    using assms stackEmpty_iff [of "qout q"] by (simp add: queue_ok_def)
  then show ?thesis
    using transfer_ok [OF assms] True by (force simp: refill_def queue_abs_def)
next
  case False
  then show ?thesis
    using assms stackEmpty_iff [of "qout q"] by (auto simp: refill_def queue_ok_def)
qed

lemma myQueuePush_ok:
  assumes "queue_ok q" and "length (queue_abs q) < 2 ^ 30"
  shows "\<exists>t. myQueuePush (\<lambda>_. True) q x = Some (Inr t) \<and> queue_ok t \<and> queue_abs t = queue_abs q @ [x]"
  using stackPush_ok [of "qin q" x] assms by (auto simp: myQueuePush_def queue_ok_def queue_abs_def)

lemma myQueuePop_ok:
  assumes "queue_ok q" and "queue_abs q = x # xs"
  shows "\<exists>t. myQueuePop (\<lambda>_. True) q = Some (Inr (x, t)) \<and> queue_ok t \<and> queue_abs t = xs"
proof -
  obtain t where t: "refill (\<lambda>_. True) q = Some (Inr t)" "queue_ok t" "queue_abs t = x # xs" "stack_abs (qout t) \<noteq> []"
    using refill_ok [OF assms(1)] assms(2) by auto
  then obtain ys where ys: "stack_abs (qout t) = x # ys" "xs = ys @ rev (stack_abs (qin t))"
    by (cases "stack_abs (qout t)") (auto simp: queue_abs_def)
  moreover have "stack_ok (qout t)" using t(2) by (simp add: queue_ok_def)
  ultimately obtain s where "stackPop (qout t) = Some (Inr (x, s))" "stack_ok s" "stack_abs s = ys"
    using stackPop_ok by blast
  then show ?thesis
    using t ys by (auto simp: myQueuePop_def queue_ok_def queue_abs_def)
qed

interpretation two_stacks: fifo queue_ok queue_abs "\<lambda>xs. length xs < 2 ^ 30"
  "\<lambda>x q. okv (myQueuePush (\<lambda>_. True) q x)" "\<lambda>q. okv (myQueuePop (\<lambda>_. True) q)"
  by unfold_locales (use myQueuePush_ok myQueuePop_ok in \<open>simp_all\<close>)

section \<open>The minimum stack with an auxiliary stack\<close>

record minstack =
  data_stack :: stack
  min_stack :: stack

definition minStackCreate :: "bool \<Rightarrow> minstack" where
  "minStackCreate ok = \<lparr>data_stack = stackInit ok, min_stack = stackInit ok\<rparr>"

definition minStackPush :: "(int \<Rightarrow> bool) \<Rightarrow> minstack \<Rightarrow> int \<Rightarrow> (int + minstack) option" where
  "minStackPush alloc m val =
     bindE (stackPush alloc (data_stack m) val) (\<lambda>s.
     let m = m\<lparr>data_stack := s\<rparr> in
     bindE (if stackEmpty (min_stack m) then Some (Inr True)
            else bindE (stackPeek (min_stack m)) (\<lambda>p. Some (Inr (val \<le> p)))) (\<lambda>smaller.
     if smaller then bindE (stackPush alloc (min_stack m) val) (\<lambda>t. Some (Inr (m\<lparr>min_stack := t\<rparr>)))
     else Some (Inr m)))"

definition minStackPop :: "minstack \<Rightarrow> (int + minstack) option" where
  "minStackPop m =
     (if stackEmpty (data_stack m) then Some (Inr m)
      else bindE (stackPop (data_stack m)) (\<lambda>(val, s).
        let m = m\<lparr>data_stack := s\<rparr> in
        bindE (stackPeek (min_stack m)) (\<lambda>p.
        if val = p then bindE (stackPop (min_stack m)) (\<lambda>(_, t). Some (Inr (m\<lparr>min_stack := t\<rparr>)))
        else Some (Inr m))))"

definition minStackTop :: "minstack \<Rightarrow> (int + int) option" where
  "minStackTop m = stackPeek (data_stack m)"

definition minStackGetMin :: "minstack \<Rightarrow> (int + int) option" where
  "minStackGetMin m = stackPeek (min_stack m)"

text \<open>The auxiliary stack holds the elements not larger than all below them.\<close>

fun minima :: "int list \<Rightarrow> int list" where
  "minima [] = []"
| "minima (x # xs) = (if xs = [] \<or> x \<le> hd (minima xs) then x # minima xs else minima xs)"

lemma minima_empty [simp]: "minima xs = [] \<longleftrightarrow> xs = []"
  by (induction xs) auto

lemma minima_Cons_ex: "\<exists>y ys. minima (x # xs) = y # ys"
  using minima_empty [of "x # xs"] by (cases "minima (x # xs)") (auto simp del: minima.simps)

lemma hd_minima: "xs \<noteq> [] \<Longrightarrow> hd (minima xs) = Min (set xs)"
proof (induction xs)
  case (Cons x xs)
  then show ?case
    using Min_insert [of "set xs" x] by (cases "xs = []") (auto simp: min_def simp del: Min_insert Min_ge_iff)
qed simp

lemma length_minima: "length (minima xs) \<le> length xs"
  by (induction xs) auto

lemma minima_tl: "minima xs = (if hd (minima (x # xs)) = x then tl (minima (x # xs)) else minima (x # xs))"
  by (cases xs) auto

declare minima.simps(2) [simp del]

definition minstack_ok :: "minstack \<Rightarrow> bool" where
  "minstack_ok m \<longleftrightarrow> stack_ok (data_stack m) \<and> stack_ok (min_stack m) \<and>
     stack_abs (min_stack m) = minima (stack_abs (data_stack m))"

definition minstack_abs :: "minstack \<Rightarrow> int list" where
  "minstack_abs m = stack_abs (data_stack m)"

lemma minStackPush_ok:
  assumes "minstack_ok m" and "length (minstack_abs m) < 2 ^ 30"
  shows "\<exists>t. minStackPush (\<lambda>_. True) m x = Some (Inr t) \<and> minstack_ok t \<and> minstack_abs t = x # minstack_abs m"
proof -
  have ok: "stack_ok (data_stack m)" "stack_ok (min_stack m)" "stack_abs (min_stack m) = minima (stack_abs (data_stack m))"
    using assms(1) by (auto simp: minstack_ok_def)
  let ?xs = "stack_abs (data_stack m)"
  have small: "length (stack_abs (min_stack m)) < 2 ^ 30"
    using assms(2) length_minima [of ?xs] by (simp add: ok(3) minstack_abs_def)
  obtain s where s: "stackPush (\<lambda>_. True) (data_stack m) x = Some (Inr s)" "stack_ok s" "stack_abs s = x # ?xs"
    using stackPush_ok [OF ok(1), of x] assms(2) by (auto simp: minstack_abs_def)
  obtain t where t: "stackPush (\<lambda>_. True) (min_stack m) x = Some (Inr t)" "stack_ok t" "stack_abs t = x # minima ?xs"
    using stackPush_ok [OF ok(2) small, of x] ok(3) by auto
  show ?thesis
  proof (cases "?xs")
    case Nil
    then show ?thesis
      using s t ok stackEmpty_iff [OF ok(2)]
      by (auto simp: minStackPush_def minstack_ok_def minstack_abs_def minima.simps(2))
  next
    case (Cons y ys)
    then obtain z zs where z: "minima ?xs = z # zs" using minima_Cons_ex by metis
    then have "minima (x # ?xs) = (if x \<le> z then x # minima ?xs else minima ?xs)"
      using Cons by (simp add: minima.simps(2))
    moreover have "stackPeek (min_stack m) = Some (Inr z)" "\<not> stackEmpty (min_stack m)"
      using stackPeek_ok [OF ok(2), of z zs] stackEmpty_iff [OF ok(2)] ok(3) z by auto
    ultimately show ?thesis
      using s t ok by (simp add: minStackPush_def minstack_ok_def minstack_abs_def Let_def)
  qed
qed

lemma minStackPop_ok:
  assumes "minstack_ok m" and "minstack_abs m = x # xs"
  shows "\<exists>t. minStackPop m = Some (Inr t) \<and> minstack_ok t \<and> minstack_abs t = xs"
    and "minStackTop m = Some (Inr x)"
    and "minStackGetMin m = Some (Inr (Min (set (x # xs))))"
proof -
  have ok: "stack_ok (data_stack m)" "stack_ok (min_stack m)" "stack_abs (min_stack m) = minima (x # xs)"
    and x: "stack_abs (data_stack m) = x # xs"
    using assms by (auto simp: minstack_ok_def minstack_abs_def)
  obtain s where s: "stackPop (data_stack m) = Some (Inr (x, s))" "stack_ok s" "stack_abs s = xs"
    using stackPop_ok [OF ok(1) x] by blast
  obtain y ys where y: "stack_abs (min_stack m) = y # ys" using ok(3) minima_Cons_ex by metis
  obtain t where t: "stackPop (min_stack m) = Some (Inr (y, t))" "stack_ok t" "stack_abs t = ys"
    using stackPop_ok [OF ok(2) y] by blast
  have xy: "minima (x # xs) = y # ys" using ok(3) y by simp
  then have "minima xs = (if y = x then ys else y # ys)"
    using minima_tl [of xs x] by simp
  then show "\<exists>t. minStackPop m = Some (Inr t) \<and> minstack_ok t \<and> minstack_abs t = xs"
    using s t y ok(1,2) stackEmpty_iff [OF ok(1)] x stackPeek_ok [OF ok(2) y]
    by (cases "x = y") (auto simp: minStackPop_def minstack_ok_def minstack_abs_def Let_def)
  show "minStackTop m = Some (Inr x)"
    using stackPeek_ok [OF ok(1) x] by (simp add: minStackTop_def)
  show "minStackGetMin m = Some (Inr (Min (set (x # xs))))"
    using stackPeek_ok [OF ok(2) y] hd_minima [of "x # xs"] by (simp add: minStackGetMin_def xy)
qed

definition min_get :: "minstack \<Rightarrow> (int \<times> minstack) option" where
  "min_get m = do { v \<leftarrow> okv (minStackTop m); m \<leftarrow> okv (minStackPop m); Some (v, m) }"

interpretation minimum_stack: min_lifo minstack_ok minstack_abs "\<lambda>xs. length xs < 2 ^ 30"
  "\<lambda>x m. okv (minStackPush (\<lambda>_. True) m x)" min_get "\<lambda>m. okv (minStackGetMin m)"
proof unfold_locales
  fix m :: minstack and x xs
  assume "minstack_ok m" "minstack_abs m = x # xs"
  from minStackPop_ok [OF this] show "\<exists>t. min_get m = Some (x, t) \<and> minstack_ok t \<and> minstack_abs t = xs"
    by (auto simp: min_get_def)
next
  fix m :: minstack
  assume "minstack_ok m" "minstack_abs m \<noteq> []"
  then show "okv (minStackGetMin m) = Some (Min (set (minstack_abs m)))"
    by (cases "minstack_abs m") (auto simp: minStackPop_ok(3))
qed (use minStackPush_ok in \<open>simp\<close>)

section \<open>The minimum stack with two arrays\<close>

text \<open>Both arrays have \<open>MAX_SIZE\<close> cells and \<open>minStackPush\<close> does not look whether there is room.\<close>

record minstack2 =
  data2 :: "int option list"
  min_data2 :: "int option list"
  top2 :: int

definition minStackCreate2 :: minstack2 where
  "minStackCreate2 = \<lparr>data2 = replicate 30000 None, min_data2 = replicate 30000 None, top2 = 0\<rparr>"

definition minStackPush2 :: "int \<Rightarrow> minstack2 \<Rightarrow> minstack2 option" where
  "minStackPush2 val m = do {
     d \<leftarrow> wr (data2 m) (top2 m) (Some val);
     e \<leftarrow> (if top2 m = 0 then wr (min_data2 m) (top2 m) (Some val)
          else do {
            p \<leftarrow> cell (min_data2 m) (top2 m - 1);
            wr (min_data2 m) (top2 m) (Some (if p < val then p else val)) });
     Some (m\<lparr>data2 := d, min_data2 := e, top2 := top2 m + 1\<rparr>) }"

definition minStackPop2 :: "minstack2 \<Rightarrow> minstack2" where
  "minStackPop2 m = (if 0 < top2 m then m\<lparr>top2 := top2 m - 1\<rparr> else m)"

definition minStackTop2 :: "minstack2 \<Rightarrow> int option" where
  "minStackTop2 m = cell (data2 m) (top2 m - 1)"

definition minStackGetMin2 :: "minstack2 \<Rightarrow> int option" where
  "minStackGetMin2 m = cell (min_data2 m) (top2 m - 1)"

text \<open>Cell \<open>i\<close> of the second array is the minimum of the first \<open>i + 1\<close> elements.\<close>

fun prefix_minima :: "int list \<Rightarrow> int list" where
  "prefix_minima [] = []"
| "prefix_minima (x # xs) = (if xs = [] then x else min (hd (prefix_minima xs)) x) # prefix_minima xs"

lemma prefix_minima_length [simp]: "length (prefix_minima xs) = length xs"
  by (induction xs) auto

lemma hd_prefix_minima: "xs \<noteq> [] \<Longrightarrow> hd (prefix_minima xs) = Min (set xs)"
  by (induction xs) (auto simp: min.commute)

definition minstack2_abs :: "minstack2 \<Rightarrow> int list" where
  "minstack2_abs m = rev (map the (take (nat (top2 m)) (data2 m)))"

definition minstack2_ok :: "minstack2 \<Rightarrow> bool" where
  "minstack2_ok m \<longleftrightarrow> length (data2 m) = 30000 \<and> length (min_data2 m) = 30000 \<and> 0 \<le> top2 m \<and> top2 m \<le> 30000 \<and>
     None \<notin> set (take (nat (top2 m)) (data2 m)) \<and>
     take (nat (top2 m)) (min_data2 m) = map Some (rev (prefix_minima (minstack2_abs m)))"

lemma minStackCreate2_ok: "minstack2_ok minStackCreate2" "minstack2_abs minStackCreate2 = []"
  by (simp_all add: minstack2_ok_def minstack2_abs_def minStackCreate2_def)

lemma minstack2_abs_length: "minstack2_ok m \<Longrightarrow> int (length (minstack2_abs m)) = top2 m"
  by (auto simp: minstack2_ok_def minstack2_abs_def)

lemma last_of_take:
  assumes "take n xs = ys @ [y]" and "n \<le> length xs"
  shows "0 < n \<and> xs ! (n - 1) = y \<and> take (n - 1) xs = ys"
proof -
  have "n = Suc (length ys)"
    using arg_cong [OF assms(1), of length] assms(2) by simp
  then show ?thesis
    using assms by (simp add: take_Suc_conv_app_nth)
qed

lemma minstack2_nonempty:
  assumes "minstack2_ok m" and "minstack2_abs m = x # xs"
  shows "minStackTop2 m = Some x" and "minStackGetMin2 m = Some (Min (set (x # xs)))"
    and "minstack2_ok (minStackPop2 m)" and "minstack2_abs (minStackPop2 m) = xs"
proof -
  obtain n where n: "top2 m = int n" "n \<le> length (data2 m)" "n \<le> length (min_data2 m)"
    using assms(1) by (metis minstack2_ok_def nonneg_int_cases of_nat_le_iff of_nat_numeral)
  have nat: "nat (int n - 1) = n - 1" by simp
  have "map the (take n (data2 m)) = rev xs @ [x]"
    using assms(2) n(1) by (simp add: minstack2_abs_def rev_swap)
  then obtain ys v where v: "take n (data2 m) = ys @ [v]" "map the ys = rev xs" "the v = x"
    by (auto simp: map_eq_append_conv)
  have d: "0 < n" "data2 m ! (n - 1) = v" "take (n - 1) (data2 m) = ys"
    using last_of_take [OF v(1) n(2)] by auto
  have "None \<notin> set (ys @ [v])"
    using assms(1) v(1) n(1) by (simp add: minstack2_ok_def)
  then have x: "v = Some x" and low: "None \<notin> set ys" using v(3) by (cases v; simp)+
  let ?p = "hd (prefix_minima (x # xs))"
  have "take n (min_data2 m) = map Some (rev (prefix_minima xs)) @ [Some ?p]"
    using assms n(1) by (simp add: minstack2_ok_def)
  then have e: "min_data2 m ! (n - 1) = Some ?p" "take (n - 1) (min_data2 m) = map Some (rev (prefix_minima xs))"
    using last_of_take [OF _ n(3)] by auto
  show "minStackTop2 m = Some x"
    using d n x by (simp add: minStackTop2_def mem_simps nat)
  have "minStackGetMin2 m = Some ?p"
    using d e n x by (simp add: minStackGetMin2_def mem_simps nat)
  then show "minStackGetMin2 m = Some (Min (set (x # xs)))"
    by (metis hd_prefix_minima list.distinct(1))
  have abs: "minstack2_abs (minStackPop2 m) = xs"
    using d v(2) n(1) by (simp add: minstack2_abs_def minStackPop2_def nat)
  then show "minstack2_abs (minStackPop2 m) = xs" .
  show "minstack2_ok (minStackPop2 m)"
    using assms(1) d(1,3) e(2) low abs n(1) by (simp add: minstack2_ok_def minStackPop2_def nat)
qed

lemma minStackPush2_ok:
  assumes "minstack2_ok m" and "length (minstack2_abs m) < 30000"
  shows "\<exists>t. minStackPush2 x m = Some t \<and> minstack2_ok t \<and> minstack2_abs t = x # minstack2_abs m"
proof -
  have top: "0 \<le> top2 m" "top2 m < 30000" and len: "length (data2 m) = 30000" "length (min_data2 m) = 30000"
    using assms minstack2_abs_length [OF assms(1)] by (auto simp: minstack2_ok_def)
  let ?xs = "minstack2_abs m" and ?p = "hd (prefix_minima (x # minstack2_abs m))"
  let ?t = "m\<lparr>data2 := (data2 m)[nat (top2 m) := Some x], min_data2 := (min_data2 m)[nat (top2 m) := Some ?p], top2 := top2 m + 1\<rparr>"
  have push: "minStackPush2 x m = Some ?t"
  proof (cases ?xs)
    case Nil
    then have "top2 m = 0" using minstack2_abs_length [OF assms(1)] by simp
    then show ?thesis using len Nil by (simp add: minStackPush2_def mem_simps)
  next
    case (Cons y ys)
    have "0 < top2 m" using minstack2_abs_length [OF assms(1)] Cons by simp
    moreover have "cell (min_data2 m) (top2 m - 1) = Some (hd (prefix_minima ?xs))"
      using minstack2_nonempty(2) [OF assms(1) Cons] Cons by (metis hd_prefix_minima list.distinct(1) minStackGetMin2_def)
    moreover have "(if hd (prefix_minima ?xs) < x then hd (prefix_minima ?xs) else x) = ?p"
      using Cons by (auto simp: min_def)
    ultimately show ?thesis
      using top len by (simp add: minStackPush2_def mem_simps)
  qed
  have d: "take (nat (top2 m + 1)) (data2 ?t) = take (nat (top2 m)) (data2 m) @ [Some x]"
    using write_top [of "top2 m" "data2 m"] top len by simp
  have e: "take (nat (top2 m + 1)) (min_data2 ?t) = take (nat (top2 m)) (min_data2 m) @ [Some ?p]"
    using write_top [of "top2 m" "min_data2 m"] top len by simp
  have abs: "minstack2_abs ?t = x # ?xs"
    using d by (simp add: minstack2_abs_def)
  have "minstack2_ok ?t"
    using assms(1) d e abs top by (auto simp: minstack2_ok_def)
  then show ?thesis using push abs by blast
qed

definition min_get2 :: "minstack2 \<Rightarrow> (int \<times> minstack2) option" where
  "min_get2 m = do { v \<leftarrow> minStackTop2 m; Some (v, minStackPop2 m) }"

interpretation array_minimum: min_lifo minstack2_ok minstack2_abs "\<lambda>xs. length xs < 30000"
  minStackPush2 min_get2 minStackGetMin2
proof unfold_locales
  fix m :: minstack2 and x xs
  assume "minstack2_ok m" "minstack2_abs m = x # xs"
  from minstack2_nonempty [OF this] show "\<exists>t. min_get2 m = Some (x, t) \<and> minstack2_ok t \<and> minstack2_abs t = xs"
    by (simp add: min_get2_def)
next
  fix m :: minstack2
  assume "minstack2_ok m" "minstack2_abs m \<noteq> []"
  then show "minStackGetMin2 m = Some (Min (set (minstack2_abs m)))"
    by (cases "minstack2_abs m") (auto simp: minstack2_nonempty(2))
qed (rule minStackPush2_ok)

section \<open>Properties\<close>

text \<open>
  The queue made of two stacks behaves as a queue: every sequence of pushes and pops that a queue
  of less than \<open>2 ^ 30\<close> elements allows runs to the end, with the stacks growing as needed, and
  pops the same values in the same order.
\<close>

theorem stack_queue_is_queue:
  assumes "spec_exec (\<lambda>x xs. xs @ [x]) (\<lambda>xs. length xs < 2 ^ 30) ops [] = Some (out, ys)"
  shows "\<exists>q. exec (\<lambda>x q. okv (myQueuePush (\<lambda>_. True) q x)) (\<lambda>q. okv (myQueuePop (\<lambda>_. True) q)) ops (myQueueCreate True) =
    Some (out, q) \<and> queue_ok q \<and> queue_abs q = ys"
  by (rule two_stacks.exec_refines) (use assms in \<open>simp_all add: myQueueCreate_ok\<close>)

theorem stack_queue_is_queue_witness:
  "\<exists>q. exec (\<lambda>x q. okv (myQueuePush (\<lambda>_. True) q x)) (\<lambda>q. okv (myQueuePop (\<lambda>_. True) q))
     [Put 1, Put 2, Get, Put 3, Get] (myQueueCreate True) = Some ([1, 2], q) \<and> queue_ok q \<and> queue_abs q = [3]"
  using stack_queue_is_queue [of "[Put 1, Put 2, Get, Put 3, Get]" "[1, 2]" "[3]"] by simp

text \<open>
  The two minimum stacks, with the auxiliary stack that only keeps new minima and with the array
  of prefix minima, pop the same values and both answer the minimum of what is left, after every
  sequence of operations on less than 30000 elements.
\<close>

theorem min_stacks_correct:
  assumes "spec_exec (#) (\<lambda>xs. length xs < 30000) ops [] = Some (out, ys)" and "ys \<noteq> []"
  shows "\<exists>m n. exec (\<lambda>x m. okv (minStackPush (\<lambda>_. True) m x)) min_get ops (minStackCreate True) = Some (out, m) \<and>
    exec minStackPush2 min_get2 ops minStackCreate2 = Some (out, n) \<and>
    minStackGetMin m = Some (Inr (Min (set ys))) \<and> minStackGetMin2 n = Some (Min (set ys))"
proof -
  have "spec_exec (#) (\<lambda>xs. length xs < 2 ^ 30) ops xs = Some (out, ys)"
    if "spec_exec (#) (\<lambda>xs. length xs < 30000) ops xs = Some (out, ys)" for xs :: "int list" and out
    using that
  proof (induction ops arbitrary: xs out)
    case (Cons p ops)
    then show ?case by (cases p; cases xs) (auto simp: bind_eq_Some_conv split: if_splits)
  qed simp
  from this [OF assms(1)] show ?thesis
    using minimum_stack.smallest_after [of "minStackCreate True" ops out ys] assms
      array_minimum.smallest_after [of minStackCreate2 ops out ys] minStackCreate2_ok stackInit_ok
    by (auto simp: minStackCreate_def minstack_ok_def minstack_abs_def)
qed

theorem min_stacks_correct_witness:
  "\<exists>m n. exec (\<lambda>x m. okv (minStackPush (\<lambda>_. True) m x)) min_get [Put (-2), Put 0, Put (-3), Get] (minStackCreate True) = Some ([-3], m) \<and>
    exec minStackPush2 min_get2 [Put (-2), Put 0, Put (-3), Get] minStackCreate2 = Some ([-3], n) \<and>
    minStackGetMin m = Some (Inr (-2)) \<and> minStackGetMin2 n = Some (-2)"
  using min_stacks_correct [of "[Put (-2), Put 0, Put (-3), Get]" "[-3]" "[0, -2]"] by simp

end
