(* ===== verification/QueueStack.thy ===== *)
theory QueueStack
  imports Stacks
begin

text \<open>
  The stack made of two array queues, \<^verbatim>\<open>C/job_interview/20_queue_implemented_stack.c\<close>.
  A queue fills its array from the left and is full when \<open>rear\<close> reaches the last cell, even if
  cells at the front are free; the stack keeps its elements in \<open>q1\<close> from cell 0 on, so that all
  100 cells serve.
\<close>

record queue =
  qdata :: "int option list"
  front :: int
  rear :: int

definition initQueue :: queue where
  "initQueue = \<lparr>qdata = replicate 100 None, front = -1, rear = -1\<rparr>"

definition isEmptyQ :: "queue \<Rightarrow> bool" where
  "isEmptyQ q \<longleftrightarrow> front q = -1"

text \<open>A value that finds no room is dropped with a message.\<close>

definition enqueue :: "queue \<Rightarrow> int \<Rightarrow> queue option" where
  "enqueue q value =
     (if rear q = 99 then Some q
      else let q = (if isEmptyQ q then q\<lparr>front := 0, rear := 0\<rparr> else q\<lparr>rear := rear q + 1\<rparr>)
        in do { d \<leftarrow> wr (qdata q) (rear q) (Some value); Some (q\<lparr>qdata := d\<rparr>) })"

definition dequeue :: "queue \<Rightarrow> (int \<times> queue) option" where
  "dequeue q =
     (if isEmptyQ q then Some (-1, q)
      else do {
        value \<leftarrow> cell (qdata q) (front q);
        Some (value, if front q = rear q then q\<lparr>front := -1, rear := -1\<rparr> else q\<lparr>front := front q + 1\<rparr>) })"

record qstack =
  q1 :: queue
  q2 :: queue

definition push :: "int \<Rightarrow> qstack \<Rightarrow> qstack option" where
  "push value s = do { q \<leftarrow> enqueue (q1 s) value; Some (s\<lparr>q1 := q\<rparr>) }"

definition pop :: "qstack \<Rightarrow> (int \<times> qstack) option" where
  "pop s =
     (if isEmptyQ (q1 s) then Some (-1, s)
      else do {
        s \<leftarrow> loop (\<lambda>s.
          if front (q1 s) \<noteq> rear (q1 s) then do {
            (v, a) \<leftarrow> dequeue (q1 s);
            b \<leftarrow> enqueue (q2 s) v;
            Some (Inl (s\<lparr>q1 := a, q2 := b\<rparr>)) }
          else Some (Inr s)) s;
        (value, a) \<leftarrow> dequeue (q1 s);
        Some (value, s\<lparr>q1 := q2 s, q2 := a\<rparr>) })"

section \<open>The array queue\<close>

definition qlist :: "queue \<Rightarrow> int list" where
  "qlist q = (if isEmptyQ q then [] else map the (take (nat (rear q - front q + 1)) (drop (nat (front q)) (qdata q))))"

definition q_ok :: "queue \<Rightarrow> bool" where
  "q_ok q \<longleftrightarrow> length (qdata q) = 100 \<and>
     (front q = -1 \<and> rear q = -1 \<or>
      0 \<le> front q \<and> front q \<le> rear q \<and> rear q < 100 \<and>
      None \<notin> set (take (nat (rear q - front q + 1)) (drop (nat (front q)) (qdata q))))"

lemma q_ok_length: "q_ok q \<Longrightarrow> int (length (qlist q)) = (if isEmptyQ q then 0 else rear q - front q + 1)"
  by (auto simp: q_ok_def qlist_def isEmptyQ_def)

lemma qlist_empty_iff: "q_ok q \<Longrightarrow> qlist q = [] \<longleftrightarrow> isEmptyQ q"
  using q_ok_length [of q] by (auto simp: q_ok_def isEmptyQ_def split: if_splits)

text \<open>The occupied cells, as natural numbers.\<close>

lemma q_ok_cells:
  assumes "q_ok q" and "\<not> isEmptyQ q"
  obtains f m where "front q = int f" and "rear q = int (f + m)" and "f + m < 100"
    and "qlist q = map the (take (Suc m) (drop f (qdata q)))" and "None \<notin> set (take (Suc m) (drop f (qdata q)))"
proof -
  obtain f where f: "front q = int f" using assms by (metis isEmptyQ_def q_ok_def nonneg_int_cases)
  obtain m where m: "rear q = int (f + m)"
    using assms f by (metis isEmptyQ_def q_ok_def zle_iff_zadd of_nat_add)
  have "nat (rear q - front q + 1) = Suc m" using f m by simp
  then show ?thesis
    using that [of f m] assms f m by (auto simp: q_ok_def qlist_def isEmptyQ_def)
qed

lemma enqueue_ok:
  assumes ok: "q_ok q" and room: "rear q < 99"
  shows "\<exists>r. enqueue q x = Some r \<and> q_ok r \<and> qlist r = qlist q @ [x] \<and> front r = (if isEmptyQ q then 0 else front q)"
proof (cases "isEmptyQ q")
  case True
  have "qdata q \<noteq> []" using ok by (auto simp: q_ok_def)
  then show ?thesis
    using True ok room by (cases "qdata q") (auto simp: enqueue_def q_ok_def qlist_def isEmptyQ_def mem_simps)
next
  case False
  then obtain f m where q: "front q = int f" "rear q = int (f + m)" "f + m < 100"
    "qlist q = map the (take (Suc m) (drop f (qdata q)))" "None \<notin> set (take (Suc m) (drop f (qdata q)))"
    using q_ok_cells [OF ok] by metis
  have len: "length (qdata q) = 100" using ok by (simp add: q_ok_def)
  let ?d = "(qdata q)[Suc (f + m) := Some x]"
  have d: "take (Suc (Suc m)) (drop f ?d) = take (Suc m) (drop f (qdata q)) @ [Some x]"
    using q(2,3) room len by (simp add: take_Suc_conv_app_nth [of "Suc m"] drop_update_swap)
  have "enqueue q x = Some (q\<lparr>rear := rear q + 1, qdata := ?d\<rparr>)"
    using False room q(2,3) len by (auto simp: enqueue_def mem_simps isEmptyQ_def nat_add_distrib)
  moreover have "q_ok (q\<lparr>rear := rear q + 1, qdata := ?d\<rparr>)"
    using d q len room by (simp add: q_ok_def nat_add_distrib)
  moreover have "qlist (q\<lparr>rear := rear q + 1, qdata := ?d\<rparr>) = qlist q @ [x]"
    using d q by (simp add: qlist_def isEmptyQ_def nat_add_distrib)
  ultimately show ?thesis using False by auto
qed

lemma dequeue_ok:
  assumes ok: "q_ok q" and x: "qlist q = x # xs"
  shows "\<exists>r. dequeue q = Some (x, r) \<and> q_ok r \<and> qlist r = xs \<and> rear r = (if xs = [] then -1 else rear q)"
proof -
  have ne: "\<not> isEmptyQ q" using qlist_empty_iff [OF ok] x by simp
  then obtain f m where q: "front q = int f" "rear q = int (f + m)" "f + m < 100"
    "qlist q = map the (take (Suc m) (drop f (qdata q)))" "None \<notin> set (take (Suc m) (drop f (qdata q)))"
    using q_ok_cells [OF ok] by metis
  have len: "length (qdata q) = 100" using ok by (simp add: q_ok_def)
  have hd: "take (Suc m) (drop f (qdata q)) = qdata q ! f # take m (drop (Suc f) (qdata q))"
    using q(3) len by (simp add: Cons_nth_drop_Suc [symmetric])
  then have "the (qdata q ! f) = x" "qdata q ! f \<noteq> None"
    and xs: "xs = map the (take m (drop (Suc f) (qdata q)))"
    and some: "None \<notin> set (take m (drop (Suc f) (qdata q)))"
    using q(4,5) x by (simp_all add: eq_commute [of _ None] del: not_None_eq)
  then have c: "qdata q ! f = Some x" by (cases "qdata q ! f") auto
  have m: "xs = [] \<longleftrightarrow> m = 0" using xs q(3) len by auto
  show ?thesis
  proof (cases "m = 0")
    case True
    then show ?thesis
      using ne q c m len by (simp add: dequeue_def mem_simps q_ok_def qlist_def isEmptyQ_def)
  next
    case False
    let ?r = "q\<lparr>front := front q + 1\<rparr>"
    have "dequeue q = Some (x, ?r)"
      using ne q c False len by (simp add: dequeue_def mem_simps)
    moreover have n: "nat (rear ?r - front ?r + 1) = m" "nat (front ?r) = Suc f" using q by simp_all
    moreover have "q_ok ?r"
      using q(1-3) len some False n by (simp add: q_ok_def)
    moreover have "qlist ?r = xs"
      unfolding qlist_def n xs using q(1) by (simp add: isEmptyQ_def)
    ultimately show ?thesis using False m by auto
  qed
qed

section \<open>The stack\<close>

definition qstack_ok :: "qstack \<Rightarrow> bool" where
  "qstack_ok s \<longleftrightarrow> q_ok (q1 s) \<and> q_ok (q2 s) \<and> qlist (q2 s) = [] \<and> front (q1 s) \<le> 0"

definition qstack_abs :: "qstack \<Rightarrow> int list" where
  "qstack_abs s = rev (qlist (q1 s))"

lemma front_0_rear: "q_ok q \<Longrightarrow> front q \<le> 0 \<Longrightarrow> rear q = int (length (qlist q)) - 1"
  using q_ok_length [of q] by (auto simp: q_ok_def isEmptyQ_def split: if_splits)

lemma push_ok:
  assumes "qstack_ok s" and "length (qstack_abs s) < 100"
  shows "\<exists>t. push x s = Some t \<and> qstack_ok t \<and> qstack_abs t = x # qstack_abs s"
proof -
  have "q_ok (q1 s)" "front (q1 s) \<le> 0" using assms(1) by (auto simp: qstack_ok_def)
  then show ?thesis
    using enqueue_ok [of "q1 s" x] front_0_rear [of "q1 s"] assms
    by (auto simp: push_def qstack_ok_def qstack_abs_def)
qed

text \<open>When all 100 cells are in use a push changes nothing, and a pop of the empty stack answers -1.\<close>

lemma push_full: "qstack_ok s \<Longrightarrow> length (qstack_abs s) = 100 \<Longrightarrow> push x s = Some s"
  using front_0_rear [of "q1 s"] by (simp add: push_def enqueue_def qstack_ok_def qstack_abs_def)

lemma pop_empty: "qstack_ok s \<Longrightarrow> qstack_abs s = [] \<Longrightarrow> pop s = Some (-1, s)"
  using qlist_empty_iff [of "q1 s"] by (simp add: pop_def qstack_ok_def qstack_abs_def)

lemma qstack_abs_le_100:
  assumes "qstack_ok s"
  shows "length (qstack_abs s) \<le> 100"
proof -
  have "q_ok (q1 s)" "front (q1 s) \<le> 0" using assms by (auto simp: qstack_ok_def)
  moreover have "rear (q1 s) < 100" using calculation(1) by (auto simp: q_ok_def)
  ultimately show ?thesis
    using front_0_rear [of "q1 s"] by (simp add: qstack_abs_def)
qed

lemma pop_ok:
  assumes "qstack_ok s" and "qstack_abs s = x # xs"
  shows "\<exists>t. pop s = Some (x, t) \<and> qstack_ok t \<and> qstack_abs t = xs"
proof -
  let ?all = "rev xs @ [x]"
  let ?body = "\<lambda>s. if front (q1 s) \<noteq> rear (q1 s) then do {
            (v, a) \<leftarrow> dequeue (q1 s); b \<leftarrow> enqueue (q2 s) v; Some (Inl (s\<lparr>q1 := a, q2 := b\<rparr>)) }
          else Some (Inr s)"
  let ?P = "\<lambda>t. q_ok (q1 t) \<and> q_ok (q2 t) \<and> front (q2 t) \<le> 0 \<and> qlist (q1 t) \<noteq> [] \<and> qlist (q2 t) @ qlist (q1 t) = ?all"
  have q: "qlist (q1 s) = ?all" using assms(2) by (simp add: qstack_abs_def rev_swap)
  have small: "length ?all \<le> 100" using qstack_abs_le_100 [OF assms(1)] assms(2) by simp
  have "\<exists>t. loop ?body s = Some t \<and> (?P t \<and> length (qlist (q1 t)) = 1)"
  proof (rule loop_total [where P = ?P and m = "\<lambda>t. length (qlist (q1 t))"])
    show "?P s"
      using assms(1) q qlist_empty_iff [of "q2 s"] by (auto simp: qstack_ok_def isEmptyQ_def)
    fix t assume P: "?P t"
    then obtain y ys where y: "qlist (q1 t) = y # ys" by (cases "qlist (q1 t)") auto
    have ok: "q_ok (q1 t)" "q_ok (q2 t)" using P by auto
    have one: "front (q1 t) = rear (q1 t) \<longleftrightarrow> ys = []"
      using q_ok_length [OF ok(1)] qlist_empty_iff [OF ok(1)] y by (auto split: if_splits)
    obtain a where a: "dequeue (q1 t) = Some (y, a)" "q_ok a" "qlist a = ys"
      using dequeue_ok [OF ok(1) y] by blast
    show "(\<exists>r. ?body t = Some (Inr r) \<and> (?P r \<and> length (qlist (q1 r)) = 1)) \<or>
        (\<exists>u. ?body t = Some (Inl u) \<and> ?P u \<and> length (qlist (q1 u)) < length (qlist (q1 t)))"
    proof (cases "ys = []")
      case True
      then show ?thesis using P one y by simp
    next
      case False
      have "length (qlist (q2 t)) + Suc (length ys) \<le> 100"
        using P small y by (metis length_Cons length_append)
      then have "rear (q2 t) < 99"
        using front_0_rear [OF ok(2)] P False by (cases ys) auto
      then obtain b where "enqueue (q2 t) y = Some b" "q_ok b" "qlist b = qlist (q2 t) @ [y]" "front b \<le> 0"
        using enqueue_ok [OF ok(2), of y] P by force
      then show ?thesis using False P one y a by auto
    qed
  qed
  then obtain t where t: "loop ?body s = Some t" "?P t" "length (qlist (q1 t)) = 1" by blast
  then have "qlist (q1 t) = [x]" "qlist (q2 t) = rev xs"
    by (auto simp: length_Suc_conv)
  moreover from this(1) t(2) obtain a where "dequeue (q1 t) = Some (x, a)" "q_ok a" "qlist a = []"
    using dequeue_ok [of "q1 t" x "[]"] by auto
  moreover have "\<not> isEmptyQ (q1 s)"
    using qlist_empty_iff [of "q1 s"] assms(1) q by (simp add: qstack_ok_def)
  ultimately show ?thesis
    using t(1,2) by (auto simp: pop_def qstack_ok_def qstack_abs_def)
qed

interpretation queue_stack: lifo qstack_ok qstack_abs "\<lambda>xs. length xs < 100" push pop
  by unfold_locales (use push_ok pop_ok in auto)

section \<open>Properties\<close>

text \<open>
  The stack made of two queues behaves as a stack of at most 100 elements: every sequence of
  pushes and pops that is possible there runs without leaving the arrays and pops the same values.
\<close>

theorem queue_stack_is_stack:
  assumes "spec_exec (#) (\<lambda>xs. length xs < 100) ops [] = Some (out, ys)"
  shows "\<exists>s. exec push pop ops \<lparr>q1 = initQueue, q2 = initQueue\<rparr> = Some (out, s) \<and> qstack_ok s \<and> qstack_abs s = ys"
proof (rule queue_stack.exec_refines)
  show "qstack_ok \<lparr>q1 = initQueue, q2 = initQueue\<rparr>"
    by (simp add: qstack_ok_def q_ok_def qlist_def initQueue_def isEmptyQ_def)
  show "spec_exec (#) (\<lambda>xs. length xs < 100) ops (qstack_abs \<lparr>q1 = initQueue, q2 = initQueue\<rparr>) = Some (out, ys)"
    using assms by (simp add: qstack_abs_def qlist_def initQueue_def isEmptyQ_def)
qed

theorem queue_stack_is_stack_witness:
  "\<exists>s. exec push pop [Put 1, Put 2, Get, Put 3, Get] \<lparr>q1 = initQueue, q2 = initQueue\<rparr> = Some ([2, 3], s) \<and>
    qstack_ok s \<and> qstack_abs s = [1]"
  using queue_stack_is_stack [of "[Put 1, Put 2, Get, Put 3, Get]" "[2, 3]" "[1]"] by simp

end
