(* ===== verification/Brackets.thy ===== *)
theory Brackets
  imports Prelude
begin

text \<open>
  Bracket matching with an array stack, \<^verbatim>\<open>C/job_interview/26_valid_parentheses.c\<close>, against the
  grammar of balanced strings.
\<close>

section \<open>The program\<close>

record cstack =
  cdata :: "char option list"
  ctop :: int
  ccapacity :: int

definition createStack :: "int \<Rightarrow> cstack" where
  "createStack n = \<lparr>cdata = replicate (nat n) None, ctop = -1, ccapacity = n\<rparr>"

definition isEmpty :: "cstack \<Rightarrow> bool" where
  "isEmpty s \<longleftrightarrow> ctop s = -1"

definition push_char :: "cstack \<Rightarrow> char \<Rightarrow> cstack option" where
  "push_char s c = do {
     d \<leftarrow> wr (cdata s) (ctop s + 1) (Some c);
     Some (s\<lparr>cdata := d, ctop := ctop s + 1\<rparr>) }"

definition pop_char :: "cstack \<Rightarrow> (char \<times> cstack) option" where
  "pop_char s = do { c \<leftarrow> cell (cdata s) (ctop s); Some (c, s\<lparr>ctop := ctop s - 1\<rparr>) }"

definition peek :: "cstack \<Rightarrow> char option" where
  "peek s = cell (cdata s) (ctop s)"

definition opens :: "char \<Rightarrow> bool" where
  "opens c \<longleftrightarrow> c = CHR ''('' \<or> c = CHR ''{'' \<or> c = CHR ''[''"

definition mismatch :: "char \<Rightarrow> char \<Rightarrow> bool" where
  "mismatch c t \<longleftrightarrow> c = CHR '')'' \<and> t \<noteq> CHR ''('' \<or> c = CHR ''}'' \<and> t \<noteq> CHR ''{'' \<or>
     c = CHR '']'' \<and> t \<noteq> CHR ''[''"

text \<open>The loop over the characters; \<open>None\<close> inside is the early \<open>return false\<close>.\<close>

fun brackets_loop :: "string \<Rightarrow> cstack \<Rightarrow> cstack option option" where
  "brackets_loop [] s = Some (Some s)"
| "brackets_loop (c # cs) s =
     (if opens c then do { s \<leftarrow> push_char s c; brackets_loop cs s }
      else if isEmpty s then Some None
      else do {
        t \<leftarrow> peek s;
        if mismatch c t then Some None
        else do { (_, s) \<leftarrow> pop_char s; brackets_loop cs s } })"

definition isValid :: "string \<Rightarrow> bool option" where
  "isValid s =
     (if length s mod 2 \<noteq> 0 then Some False
      else do {
        r \<leftarrow> brackets_loop s (createStack (int (length s)));
        Some (case r of None \<Rightarrow> False | Some st \<Rightarrow> isEmpty st) })"

section \<open>Balanced strings\<close>

inductive pair :: "char \<Rightarrow> char \<Rightarrow> bool" where
  "pair CHR ''('' CHR '')''"
| "pair CHR ''{'' CHR ''}''"
| "pair CHR ''['' CHR '']''"

inductive balanced :: "string \<Rightarrow> bool" where
  empty: "balanced []"
| wrap: "pair a b \<Longrightarrow> balanced u \<Longrightarrow> balanced v \<Longrightarrow> balanced (a # u @ b # v)"

inductive_cases pair_closingE: "pair a b"

inductive_simps pair_simps [simp]: "pair CHR ''('' b" "pair CHR ''{'' b" "pair CHR ''['' b"

definition bracket :: "char \<Rightarrow> bool" where
  "bracket c \<longleftrightarrow> c \<in> set ''(){}[]''"

text \<open>The algorithm on a list as stack.\<close>

fun check :: "string \<Rightarrow> string \<Rightarrow> bool" where
  "check [] st \<longleftrightarrow> st = []"
| "check (c # cs) st \<longleftrightarrow>
     (if opens c then check cs (c # st)
      else st \<noteq> [] \<and> \<not> mismatch c (hd st) \<and> check cs (tl st))"

text \<open>\<open>s\<close> closes the open brackets \<open>st\<close>, the innermost first.\<close>

fun closes :: "string \<Rightarrow> string \<Rightarrow> bool" where
  "closes [] s \<longleftrightarrow> balanced s"
| "closes (a # st) s \<longleftrightarrow> (\<exists>u b v. s = u @ b # v \<and> pair a b \<and> balanced u \<and> closes st v)"

lemma pair_opens: "pair a b \<Longrightarrow> opens a \<and> \<not> opens b \<and> \<not> mismatch b a"
  by (auto simp: opens_def mismatch_def elim: pair_closingE)

lemma mismatch_pair: "bracket c \<Longrightarrow> \<not> opens c \<Longrightarrow> opens a \<Longrightarrow> \<not> mismatch c a \<Longrightarrow> pair a c"
  by (auto simp: bracket_def opens_def mismatch_def)

lemma check_balanced: "balanced u \<Longrightarrow> check (u @ w) st = check w st"
  by (induction u arbitrary: w st rule: balanced.induct) (auto dest: pair_opens)

lemma balanced_append: "balanced u \<Longrightarrow> balanced v \<Longrightarrow> balanced (u @ v)"
  by (induction u rule: balanced.induct) (auto intro: balanced.intros)

lemma closes_prepend: "balanced u \<Longrightarrow> closes st s \<Longrightarrow> closes st (u @ s)"
  by (cases st) (auto intro: balanced_append, metis append_assoc balanced_append)

lemma check_closes:
  "list_all bracket s \<Longrightarrow> list_all opens st \<Longrightarrow> check s st \<Longrightarrow> closes st s"
proof (induction s st rule: check.induct)
  case (2 c cs st)
  show ?case
  proof (cases "opens c")
    case True
    with 2 obtain u b v where uv: "cs = u @ b # v" "pair c b" "balanced u" "closes st v" by auto
    then have "closes st ((c # u @ [b]) @ v)"
      using wrap [OF uv(2,3) empty] by (intro closes_prepend) simp_all
    then show ?thesis by (simp add: uv(1))
  next
    case False
    with 2 obtain a st' where st: "st = a # st'" by (cases st) auto
    then have "pair a c" "closes st' cs"
      using 2 False mismatch_pair [of c a] by auto
    then show ?thesis using st empty by fastforce
  qed
qed (auto intro: empty)

lemma check_iff_balanced: "list_all bracket s \<Longrightarrow> check s [] \<longleftrightarrow> balanced s"
  using check_closes [of s "[]"] check_balanced [of s "[]" "[]"] by auto

lemma balanced_even: "balanced s \<Longrightarrow> even (length s)"
  by (induction rule: balanced.induct) auto

section \<open>The array stack holds the open brackets\<close>

definition cstack_holds :: "cstack \<Rightarrow> string \<Rightarrow> bool" where
  "cstack_holds s st \<longleftrightarrow> ctop s = int (length st) - 1 \<and> length st \<le> length (cdata s) \<and>
     take (length st) (cdata s) = map Some (rev st)"

lemma push_char_holds:
  assumes "cstack_holds s st" and "length st < length (cdata s)"
  shows "\<exists>t. push_char s c = Some t \<and> cstack_holds t (c # st) \<and> length (cdata t) = length (cdata s)"
  using assms by (auto simp: push_char_def cstack_holds_def mem_simps take_Suc_conv_app_nth)

lemma top_holds:
  assumes "cstack_holds s (c # st)"
  shows "peek s = Some c" and "pop_char s = Some (c, s\<lparr>ctop := ctop s - 1\<rparr>)" and "cstack_holds (s\<lparr>ctop := ctop s - 1\<rparr>) st"
proof -
  have len: "length st < length (cdata s)" "ctop s = int (length st)"
    and take: "take (Suc (length st)) (cdata s) = map Some (rev st) @ [Some c]"
    using assms by (auto simp: cstack_holds_def)
  then have "cdata s ! length st = Some c" "take (length st) (cdata s) = map Some (rev st)"
    by (simp_all add: take_Suc_conv_app_nth)
  then show "peek s = Some c" "pop_char s = Some (c, s\<lparr>ctop := ctop s - 1\<rparr>)" "cstack_holds (s\<lparr>ctop := ctop s - 1\<rparr>) st"
    using len by (simp_all add: peek_def pop_char_def cstack_holds_def mem_simps)
qed

lemma isEmpty_holds: "cstack_holds s st \<Longrightarrow> isEmpty s \<longleftrightarrow> st = []"
  by (auto simp: cstack_holds_def isEmpty_def)

lemma brackets_loop_check:
  assumes "cstack_holds s st" and "length st + length cs \<le> length (cdata s)"
  shows "\<exists>r. brackets_loop cs s = Some r \<and> (case r of None \<Rightarrow> False | Some t \<Rightarrow> isEmpty t) = check cs st"
  using assms
proof (induction cs arbitrary: s st)
  case Nil
  then show ?case using isEmpty_holds by auto
next
  case (Cons c cs)
  show ?case
  proof (cases "opens c")
    case True
    then show ?thesis
      using push_char_holds [OF Cons.prems(1), of c] Cons.IH [of _ "c # st"] Cons.prems(2) by force
  next
    case False
    then show ?thesis
      using isEmpty_holds [OF Cons.prems(1)] top_holds [of s "hd st" "tl st"] Cons.IH [of _ "tl st"] Cons.prems
      by (cases st) auto
  qed
qed

section \<open>Property\<close>

text \<open>
  On a string of brackets \<open>isValid\<close> never leaves its stack array and accepts exactly the
  balanced strings.
\<close>

theorem isValid_iff_balanced:
  assumes "list_all bracket s"
  shows "isValid s = Some (balanced s)"
proof -
  have "cstack_holds (createStack (int (length s))) []" "length s = length (cdata (createStack (int (length s))))"
    by (simp_all add: cstack_holds_def createStack_def)
  then obtain r where "brackets_loop s (createStack (int (length s))) = Some r"
      "(case r of None \<Rightarrow> False | Some t \<Rightarrow> isEmpty t) = balanced s"
    using brackets_loop_check [of _ "[]" s] check_iff_balanced [OF assms] by fastforce
  then show ?thesis
    using balanced_even [of s] by (auto simp: isValid_def even_iff_mod_2_eq_zero)
qed

theorem isValid_iff_balanced_witness: "isValid ''([)]'' = Some False \<and> \<not> balanced ''([)]''"
proof -
  have "isValid ''([)]'' = Some False" by code_simp
  then show ?thesis
    using isValid_iff_balanced [of "''([)]''"] by (simp add: bracket_def)
qed

end
