(* ===== verification/IdGenerator.thy ===== *)
theory IdGenerator
  imports Prelude
begin

unbundle bit_operations_syntax

text \<open>
  The distributed ID generator, \<^verbatim>\<open>C/job_interview/24_distributed_ID_generator.c\<close>. The system
  clock is a parameter: \<open>clock k\<close> is what the \<open>k\<close>-th call of \<open>gettimeofday\<close> gives, in
  milliseconds, and the state carries the number of calls so far. The mutex makes \<open>generate_id\<close>
  atomic, so that the calls of several threads are one sequence of calls.
\<close>

definition EPOCH :: u64 where "EPOCH = 1609459200000"
definition MAX_WORKER_ID :: nat where "MAX_WORKER_ID = 1023"
definition MAX_SEQUENCE :: u32 where "MAX_SEQUENCE = 4095"

record generator =
  last_timestamp :: u64
  worker_id :: u16
  seqno :: u32

definition id_generator_init :: "u16 \<Rightarrow> int + generator" where
  "id_generator_init worker =
     (if MAX_WORKER_ID < unat worker then Inl (-1)
      else Inr \<lparr>last_timestamp = 0, worker_id = worker, seqno = 0\<rparr>)"

partial_function (option) wait_next_millis :: "(nat \<Rightarrow> u64) \<Rightarrow> nat \<Rightarrow> u64 \<Rightarrow> (u64 \<times> nat) option" where
  [code]: "wait_next_millis clock now lst =
     (let timestamp = clock now in
      if timestamp \<le> lst then wait_next_millis clock (now + 1) lst else Some (timestamp, now + 1))"

definition make_id :: "u64 \<Rightarrow> u16 \<Rightarrow> u32 \<Rightarrow> u64" where
  "make_id timestamp worker s =
     push_bit 22 (timestamp - EPOCH) OR push_bit 12 (ucast worker) OR ucast s"

definition generate_id :: "(nat \<Rightarrow> u64) \<Rightarrow> nat \<Rightarrow> generator \<Rightarrow> (u64 \<times> generator \<times> nat) option" where
  "generate_id clock now gen = do {
     let (timestamp, now) = (clock now, now + 1);
     (timestamp, now) \<leftarrow> (if timestamp < last_timestamp gen
        then wait_next_millis clock now (last_timestamp gen) else Some (timestamp, now));
     (timestamp, now, s) \<leftarrow> (if last_timestamp gen = timestamp
        then let s = (seqno gen + 1) AND MAX_SEQUENCE in
          if s = 0 then do { (timestamp, now) \<leftarrow> wait_next_millis clock now (last_timestamp gen); Some (timestamp, now, s) }
          else Some (timestamp, now, s)
        else Some (timestamp, now, 0));
     Some (make_id timestamp (worker_id gen) s,
       gen\<lparr>last_timestamp := timestamp, seqno := s\<rparr>, now) }"

text \<open>\<open>n\<close> calls in a row.\<close>

fun generate_ids :: "nat \<Rightarrow> (nat \<Rightarrow> u64) \<Rightarrow> nat \<Rightarrow> generator \<Rightarrow> (u64 list \<times> generator \<times> nat) option" where
  "generate_ids 0 clock now gen = Some ([], gen, now)"
| "generate_ids (Suc n) clock now gen = do {
     (i, gen, now) \<leftarrow> generate_id clock now gen;
     (is, gen, now) \<leftarrow> generate_ids n clock now gen;
     Some (i # is, gen, now) }"

section \<open>The three fields of an identifier\<close>

lemma bit_less: "unat (x :: 'a::len word) < 2 ^ k \<Longrightarrow> bit x n \<Longrightarrow> n < k"
proof (rule ccontr)
  assume x: "unat x < 2 ^ k" and "bit x n" and "\<not> n < k"
  then have "bit (unat x) n"
    by (simp add: bit_unsigned_iff bit_imp_le_length)
  then have "2 ^ n \<le> unat x"
    by (metis bit_iff_odd div_less even_zero not_le)
  moreover have "(2::nat) ^ k \<le> 2 ^ n"
    using \<open>\<not> n < k\<close> by (intro power_increasing) simp_all
  ultimately show False using x by simp
qed

lemma or_low: "unat (b :: u64) < 2 ^ k \<Longrightarrow> push_bit k a OR b = push_bit k a + b"
  by (rule disjunctive_add [symmetric]) (auto simp: bit_simps dest: bit_less)

lemma unat_push_bit:
  assumes "unat (a :: u64) * 2 ^ k < 2 ^ 64"
  shows "unat (push_bit k a) = unat a * 2 ^ k"
  unfolding unsigned_push_bit_eq using assms by (simp add: take_bit_nat_eq_self push_bit_eq_mult)

lemma unat_make_id:
  assumes "EPOCH \<le> timestamp" and "unat timestamp < unat EPOCH + 2 ^ 42"
    and "unat worker \<le> MAX_WORKER_ID" and "unat s \<le> 4095"
  shows "unat (make_id timestamp worker s) = (unat timestamp - unat EPOCH) * 2 ^ 22 + unat worker * 2 ^ 12 + unat s"
proof -
  let ?a = "timestamp - EPOCH" and ?w = "ucast worker :: u64" and ?s = "ucast s :: u64"
  have a: "unat ?a = unat timestamp - unat EPOCH" "unat ?a < 2 ^ 42"
    using assms(1,2) by (simp_all add: unat_sub_if_size word_le_nat_alt)
  have w: "unat ?w = unat worker" "unat worker < 1024" using assms(3)
    by (simp_all add: unsigned_ucast_eq take_bit_nat_eq_self MAX_WORKER_ID_def)
  have s: "unat ?s = unat s" "unat s < 2 ^ 12" using assms(4)
    by (simp_all add: unsigned_ucast_eq take_bit_nat_eq_self)
  have pw: "unat (push_bit 12 ?w) = unat worker * 2 ^ 12"
    using w by (subst unat_push_bit) simp_all
  have low: "unat (push_bit 12 ?w OR ?s) = unat worker * 2 ^ 12 + unat s"
    using or_low [of ?s 12 ?w] s w(2) pw by (simp add: unat_word_ariths)
  have pa: "unat (push_bit 22 ?a) = unat ?a * 2 ^ 22"
    using a by (intro unat_push_bit) simp
  have "unat (push_bit 12 ?w OR ?s) < 2 ^ 22"
    using low s w(2) by simp
  then have "push_bit 22 ?a OR (push_bit 12 ?w OR ?s) = push_bit 22 ?a + (push_bit 12 ?w OR ?s)"
    by (rule or_low)
  then have "unat (make_id timestamp worker s) = unat (push_bit 22 ?a + (push_bit 12 ?w OR ?s))"
    by (simp add: make_id_def or.assoc)
  also have "\<dots> = unat ?a * 2 ^ 22 + (unat worker * 2 ^ 12 + unat s)"
    using a(2) low s w(2) pa by (simp add: unat_word_ariths)
  finally show ?thesis using a(1) by simp
qed

section \<open>Every call goes forward\<close>

definition gen_ok :: "generator \<Rightarrow> bool" where
  "gen_ok gen \<longleftrightarrow> unat (worker_id gen) \<le> MAX_WORKER_ID \<and> unat (seqno gen) \<le> 4095"

lemma wait_later:
  assumes "wait_next_millis clock now lst = Some (t, m)"
  shows "lst < t \<and> (\<exists>k. t = clock k)"
proof -
  have "case r of (t, m) \<Rightarrow> lst < t \<and> (\<exists>k. t = clock k)"
    if "wait_next_millis clock now lst = Some r" for r
    by (rule wait_next_millis.raw_induct [where P = "\<lambda>clock now lst r. case r of (t, m) \<Rightarrow> lst < t \<and> (\<exists>k. t = clock k)", OF _ that])
      (auto simp: Let_def split: if_splits)
  from this [OF assms] show ?thesis by simp
qed

lemma seqno_next: "unat ((s + 1) AND MAX_SEQUENCE) = (unat (s :: u32) + 1) mod 4096"
proof -
  have "(s + 1) AND MAX_SEQUENCE = take_bit 12 (s + 1)"
    by (simp add: take_bit_eq_mask MAX_SEQUENCE_def mask_eq_exp_minus_1)
  moreover have "unat (s + 1) mod 4096 = (unat s + 1) mod 4096"
    by (simp add: unat_word_ariths mod_mod_cancel)
  ultimately show ?thesis
    by (simp only: unsigned_take_bit_eq) (simp add: take_bit_eq_mod)
qed

lemma generate_id_forward:
  assumes ok: "gen_ok gen" and run: "generate_id clock now gen = Some (i, gen', now')"
  shows "gen_ok gen' \<and> worker_id gen' = worker_id gen \<and> i = make_id (last_timestamp gen') (worker_id gen') (seqno gen') \<and>
    (\<exists>k. last_timestamp gen' = clock k) \<and>
    (last_timestamp gen < last_timestamp gen' \<or>
     last_timestamp gen = last_timestamp gen' \<and> unat (seqno gen') = unat (seqno gen) + 1)"
proof -
  obtain t m where t: "(if clock now < last_timestamp gen
        then wait_next_millis clock (Suc now) (last_timestamp gen) else Some (clock now, Suc now)) = Some (t, m)"
    using run by (auto simp: generate_id_def bind_eq_Some_conv)
  then have t_ge: "last_timestamp gen \<le> t" "\<exists>k. t = clock k"
    using wait_later [of clock "Suc now" "last_timestamp gen" t m] by (auto split: if_splits)
  define s where "s = (seqno gen + 1) AND MAX_SEQUENCE"
  have s: "unat s = (unat (seqno gen) + 1) mod 4096" by (simp add: s_def seqno_next)
  show ?thesis
  proof (cases "last_timestamp gen = t")
    case False
    then show ?thesis
      using run t t_ge ok by (auto simp: generate_id_def gen_ok_def)
  next
    case same: True
    show ?thesis
    proof (cases "s = 0")
      case False
      then have "unat s \<noteq> 0" by (simp add: unat_eq_0)
      then have "unat s = unat (seqno gen) + 1"
        using s ok by (auto simp: gen_ok_def mod_if split: if_splits)
      moreover have "i = make_id t (worker_id gen) s" "gen' = gen\<lparr>last_timestamp := t, seqno := s\<rparr>"
        using run t same False by (auto simp: generate_id_def s_def [symmetric] Let_def)
      ultimately show ?thesis
        using same t_ge ok s by (auto simp: gen_ok_def)
    next
      case True
      then obtain t' m' where "wait_next_millis clock m (last_timestamp gen) = Some (t', m')"
        "i = make_id t' (worker_id gen) 0" "gen' = gen\<lparr>last_timestamp := t', seqno := 0\<rparr>"
        using run t same by (auto simp: generate_id_def s_def [symmetric] Let_def bind_eq_Some_conv)
      then show ?thesis
        using wait_later [of clock m "last_timestamp gen" t' m'] ok by (auto simp: gen_ok_def)
    qed
  qed
qed

definition clock_in_range :: "(nat \<Rightarrow> u64) \<Rightarrow> bool" where
  "clock_in_range clock \<longleftrightarrow> (\<forall>k. EPOCH \<le> clock k \<and> unat (clock k) < unat EPOCH + 2 ^ 42)"

definition id_of :: "generator \<Rightarrow> nat" where
  "id_of gen = (unat (last_timestamp gen) - unat EPOCH) * 2 ^ 22 + unat (worker_id gen) * 2 ^ 12 + unat (seqno gen)"

lemma id_of_less:
  assumes "gen_ok g" and "gen_ok h" and "worker_id h = worker_id g" and "EPOCH \<le> last_timestamp g"
    and "last_timestamp g < last_timestamp h \<or>
     last_timestamp g = last_timestamp h \<and> unat (seqno h) = unat (seqno g) + 1"
  shows "id_of g < id_of h"
  using assms(5)
proof
  assume lt: "last_timestamp g < last_timestamp h"
  define a b where "a = unat (last_timestamp g) - unat EPOCH" and "b = unat (last_timestamp h) - unat EPOCH"
  have "a < b" using lt assms(4) by (simp add: a_def b_def word_less_nat_alt word_le_nat_alt)
  then have "a * 4194304 + 4194304 \<le> b * 4194304" by linarith
  then show ?thesis
    using assms(1-3) by (simp add: id_of_def gen_ok_def a_def b_def MAX_WORKER_ID_def)
qed (simp add: id_of_def assms(3))

lemma generate_ids_increasing:
  assumes "clock_in_range clock" and "gen_ok gen" and "generate_ids n clock now gen = Some (ids, gen', now')"
  shows "sorted_wrt (<) (map unat ids) \<and> (EPOCH \<le> last_timestamp gen \<longrightarrow> (\<forall>i\<in>set ids. id_of gen < unat i)) \<and>
    (\<forall>i\<in>set ids. (unat i div 2 ^ 12) mod 2 ^ 10 = unat (worker_id gen))"
  using assms(2,3)
proof (induction n arbitrary: now gen ids)
  case 0
  then show ?case by simp
next
  case (Suc n)
  then obtain i g m ids' where i: "generate_id clock now gen = Some (i, g, m)"
    and ids: "generate_ids n clock m g = Some (ids', gen', now')" "ids = i # ids'"
    by (auto simp: bind_eq_Some_conv)
  note fw = generate_id_forward [OF Suc.prems(1) i]
  then have g: "gen_ok g" "worker_id g = worker_id gen" "EPOCH \<le> last_timestamp g"
    "unat (last_timestamp g) < unat EPOCH + 2 ^ 42"
    using assms(1) by (auto simp: clock_in_range_def)
  have id: "unat i = id_of g"
    using fw unat_make_id [OF g(3,4), of "worker_id g" "seqno g"] g(1) by (simp add: gen_ok_def id_of_def)
  note IH = Suc.IH [OF g(1) ids(1)]
  have "id_of gen < id_of g" if "EPOCH \<le> last_timestamp gen"
    using id_of_less [OF Suc.prems(1) g(1,2) that] fw by blast
  moreover have "(id_of g div 2 ^ 12) mod 2 ^ 10 = unat (worker_id gen)"
  proof -
    have "id_of g div 2 ^ 12 = (unat (last_timestamp g) - unat EPOCH) * 2 ^ 10 + unat (worker_id g)"
    proof -
      have "(a * 4194304 + w * 4096 + q) div 4096 = a * 1024 + w" if "q \<le> 4095" for a w q :: nat
        using that by presburger
      then show ?thesis using g(1) by (simp add: id_of_def gen_ok_def)
    qed
    then show ?thesis using g(1,2) by (simp add: gen_ok_def MAX_WORKER_ID_def)
  qed
  ultimately show ?case
    using IH g(2,3) id by (auto simp: ids(2))
qed

section \<open>Properties\<close>

text \<open>
  C35: as long as the clock stays in the 42 bits after the epoch, the identifiers of one generator
  strictly increase over any number of calls, also when the clock stands still, goes back or the
  sequence number of a millisecond runs out, and every one carries the worker number; so no
  identifier is given twice, by one generator or by generators with different worker numbers.
\<close>

theorem ids_unique:
  assumes "clock_in_range clock" and "id_generator_init worker = Inr gen"
    and "generate_ids n clock now gen = Some (ids, gen', now')"
  shows "sorted_wrt (<) ids \<and> distinct ids \<and> (\<forall>i\<in>set ids. (unat i div 2 ^ 12) mod 2 ^ 10 = unat worker)"
proof -
  have gen: "gen_ok gen" "worker_id gen = worker"
    using assms(2) by (auto simp: id_generator_init_def gen_ok_def split: if_splits)
  have "sorted_wrt (\<lambda>x y. unat x < unat y) ids"
    using generate_ids_increasing [OF assms(1) gen(1) assms(3)] by (simp add: sorted_wrt_map)
  then have "sorted_wrt (<) ids"
    by (rule sorted_wrt_mono_rel [rotated]) (simp add: word_less_nat_alt)
  then show ?thesis
    using generate_ids_increasing [OF assms(1) gen(1) assms(3)] gen(2)
    by (auto simp: strict_sorted_iff)
qed

definition sample_clock :: "nat \<Rightarrow> u64" where
  "sample_clock k = EPOCH + (if k \<le> 3 then 7 else 8)"

lemma sample_clock_in_range: "clock_in_range sample_clock"
  by (simp add: clock_in_range_def sample_clock_def EPOCH_def)

definition sample_gen :: generator where
  "sample_gen = \<lparr>last_timestamp = 0, worker_id = 5, seqno = 0\<rparr>"

lemma sample_ids:
  "generate_ids 2 sample_clock 0 sample_gen =
   Some ([make_id (EPOCH + 7) 5 0, make_id (EPOCH + 7) 5 1],
     sample_gen\<lparr>last_timestamp := EPOCH + 7, seqno := 1\<rparr>, 2)"
proof -
  let ?g = "sample_gen\<lparr>last_timestamp := EPOCH + 7, seqno := 0\<rparr>"
  have "generate_id sample_clock 0 sample_gen = Some (make_id (EPOCH + 7) 5 0, ?g, 1)"
    by (simp add: generate_id_def sample_gen_def sample_clock_def EPOCH_def)
  moreover have "generate_id sample_clock 1 ?g = Some (make_id (EPOCH + 7) 5 1, ?g\<lparr>seqno := 1\<rparr>, 2)"
    by (simp add: generate_id_def sample_gen_def sample_clock_def EPOCH_def MAX_SEQUENCE_def)
  ultimately show ?thesis
    by (simp add: numeral_2_eq_2)
qed

theorem ids_unique_witness: "make_id (EPOCH + 7) 5 0 < make_id (EPOCH + 7) 5 1"
proof -
  have "id_generator_init 5 = Inr sample_gen"
    by (simp add: id_generator_init_def sample_gen_def MAX_WORKER_ID_def)
  from ids_unique [OF sample_clock_in_range this sample_ids] show ?thesis by simp
qed

text \<open>
  \<open>generate_id\<close> returns whenever the clock gets past the generator's last timestamp at some
  later reading; its busy waiting ends.
\<close>

theorem generate_id_returns:
  assumes "\<forall>m. \<exists>k\<ge>m. last_timestamp gen < clock k"
  shows "\<exists>r. generate_id clock now gen = Some r"
proof -
  have wait: "\<exists>t m. wait_next_millis clock now (last_timestamp gen) = Some (t, m)" for now
  proof -
    obtain k where k: "now \<le> k" "last_timestamp gen < clock k" using assms by blast
    then show ?thesis
    proof (induction "k - now" arbitrary: now)
      case 0
      then show ?case by (subst wait_next_millis.simps) (auto simp: Let_def)
    next
      case (Suc d)
      then have "d = k - (now + 1)" "now + 1 \<le> k" by simp_all
      from Suc.hyps(1) [OF this Suc.prems(2)] show ?case
        by (subst wait_next_millis.simps) (auto simp: Let_def)
    qed
  qed
  obtain t m where first: "(if clock now < last_timestamp gen then wait_next_millis clock (Suc now) (last_timestamp gen)
      else Some (clock now, Suc now)) = Some (t, m)"
    using wait [of "Suc now"] by (cases "clock now < last_timestamp gen") auto
  obtain t' m' where "wait_next_millis clock m (last_timestamp gen) = Some (t', m')"
    using wait by blast
  then show ?thesis
    using first by (auto simp: generate_id_def Let_def)
qed

theorem generate_id_returns_witness: "\<exists>r. generate_id (\<lambda>k. of_nat (k mod 4)) 0 \<lparr>last_timestamp = 2, worker_id = 0, seqno = 9\<rparr> = Some r"
proof (rule generate_id_returns, intro allI)
  fix m :: nat
  have "4 * m + 3 \<ge> m" "(4 * m + 3) mod 4 = 3" by (simp_all add: mod_mult_self4)
  then show "\<exists>k\<ge>m. last_timestamp \<lparr>last_timestamp = 2, worker_id = 0, seqno = 9\<rparr> < of_nat (k mod 4)"
    by (intro exI [of _ "4 * m + 3"]) simp
qed

end
