(* ===== verification/TopK.thy ===== *)
theory TopK
  imports SortingCorrect
begin

text \<open>
  The most frequent elements, \<^verbatim>\<open>C/job_interview/23_top_k_in_list.c\<close>: counting into an array of 100
  cells, then heap sort of the (value, frequency) pairs by falling frequency and rising value.
  The result is the list of pairs the program prints.
\<close>

datatype num_freq = NumFreq (nval: int) (freq: int)

text \<open>The order of \<open>camp\<close>, as an instance of the library's linear orders.\<close>

instantiation num_freq :: linorder
begin

definition less_eq_num_freq :: "num_freq \<Rightarrow> num_freq \<Rightarrow> bool" where
  "a \<le> b \<longleftrightarrow> freq b < freq a \<or> freq a = freq b \<and> nval a \<le> nval b"

definition less_num_freq :: "num_freq \<Rightarrow> num_freq \<Rightarrow> bool" where
  "a < b \<longleftrightarrow> freq b < freq a \<or> freq a = freq b \<and> nval a < nval b"

instance
  by standard (auto simp: less_eq_num_freq_def less_num_freq_def intro: num_freq.expand)

end

definition camp :: "num_freq \<Rightarrow> num_freq \<Rightarrow> int" where
  "camp a b = (if freq a \<noteq> freq b then freq b - freq a else nval a - nval b)"

lemma camp_less: "(\<lambda>a b. 0 < camp a b) = (\<lambda>a b. b < a)"
  by (auto simp: camp_def less_num_freq_def fun_eq_iff)

definition MAX_NUM :: nat where "MAX_NUM = 100"

definition heapify_freq :: "num_freq list \<Rightarrow> int \<Rightarrow> int \<Rightarrow> num_freq list option" where
  "heapify_freq = heapify (\<lambda>a b. 0 < camp a b)"

definition heapify_sort_freq :: "num_freq list \<Rightarrow> int \<Rightarrow> num_freq list option" where
  "heapify_sort_freq = heapify_sort_with (\<lambda>a b. 0 < camp a b)"

definition count_freq :: "int list \<Rightarrow> int \<Rightarrow> int list option" where
  "count_freq arr len = for_up 0 len (\<lambda>i freq. do {
     x \<leftarrow> rd arr i;
     n \<leftarrow> rd freq x;
     n \<leftarrow> chk32 (n + 1);
     wr freq x n }) (replicate MAX_NUM 0)"

definition fill_freq_arr :: "int list \<Rightarrow> num_freq list \<Rightarrow> (num_freq list \<times> int) option" where
  "fill_freq_arr freqs freq_arr = for_up 0 (int MAX_NUM) (\<lambda>i (freq_arr, idx). do {
     n \<leftarrow> rd freqs i;
     if 0 < n then do {
       freq_arr \<leftarrow> wr freq_arr idx (NumFreq i n);
       Some (freq_arr, idx + 1) }
     else Some (freq_arr, idx) }) (freq_arr, 0)"

text \<open>\<open>alloc\<close> tells whether \<open>calloc\<close> succeeds.\<close>

definition top_m_num :: "bool \<Rightarrow> int list \<Rightarrow> int \<Rightarrow> int \<Rightarrow> num_freq list option" where
  "top_m_num alloc arr len m =
     (if len = 0 then Some []
      else do {
        freqs \<leftarrow> count_freq arr len;
        num \<leftarrow> for_up 0 (int MAX_NUM) (\<lambda>i num. do { n \<leftarrow> rd freqs i; Some (if 0 < n then num + 1 else num) }) 0;
        if \<not> alloc then Some []
        else do {
          (freq_arr, idx) \<leftarrow> fill_freq_arr freqs (replicate (nat num) (NumFreq 0 0));
          freq_arr \<leftarrow> heapify_sort_freq freq_arr num;
          for_up 0 m (\<lambda>i out. do { e \<leftarrow> rd freq_arr i; Some (out @ [e]) }) [] } })"

section \<open>Counting\<close>

lemma heapify_sort_freq_eq: "heapify_sort_freq = heapify_sort_with (\<lambda>a b. b < a)"
  by (simp add: heapify_sort_freq_def camp_less)

interpretation freq_heap: prefix_sorter heapify_sort_freq "\<lambda>n. n < 2 ^ 30"
  by unfold_locales (simp add: heapify_sort_freq_eq heapify_sort_total)

text \<open>The frequency table of a list of elements below 100, and the pairs it stands for.\<close>

definition freqs_of :: "int list \<Rightarrow> int list" where
  "freqs_of xs = map (\<lambda>v. int (count (mset xs) (int v))) [0..<MAX_NUM]"

definition pairs_upto :: "int list \<Rightarrow> nat \<Rightarrow> num_freq list" where
  "pairs_upto xs n = map (\<lambda>v. NumFreq (int v) (int (count (mset xs) (int v))))
     (filter (\<lambda>v. int v \<in> set xs) [0..<n])"

lemma freqs_of_length [simp]: "length (freqs_of xs) = MAX_NUM"
  by (simp add: freqs_of_def)

lemma freqs_of_nth: "v < MAX_NUM \<Longrightarrow> freqs_of xs ! v = int (count (mset xs) (int v))"
  by (simp add: freqs_of_def)

lemma freqs_of_snoc:
  assumes "0 \<le> x" and "x < int MAX_NUM"
  shows "(freqs_of xs)[nat x := freqs_of xs ! nat x + 1] = freqs_of (xs @ [x])"
proof (rule nth_equalityI)
  fix v assume "v < length ((freqs_of xs)[nat x := freqs_of xs ! nat x + 1])"
  then have v: "v < MAX_NUM" by simp
  then show "(freqs_of xs)[nat x := freqs_of xs ! nat x + 1] ! v = freqs_of (xs @ [x]) ! v"
    using assms by (cases "v = nat x") (auto simp: freqs_of_nth nth_list_update)
qed simp

lemma count_freq_total:
  assumes "n \<le> length arr" and "length arr < 2 ^ 31" and "\<forall>x\<in>set arr. 0 \<le> x \<and> x < int MAX_NUM"
  shows "count_freq arr (int n) = Some (freqs_of (take n arr))"
proof -
  let ?P = "\<lambda>i fs. fs = freqs_of (take (nat i) arr)"
  have "\<exists>fs. count_freq arr (int n) = Some fs \<and> ?P (int n) fs"
    unfolding count_freq_def
  proof (rule for_up_total [where P = ?P])
    show "?P 0 (replicate MAX_NUM 0)"
      by (simp add: freqs_of_def map_replicate_const)
    fix i fs assume i: "0 \<le> i" "i < int n" and fs: "?P i fs"
    obtain k where k: "i = int k" "k < length arr" using i assms(1) by (metis nonneg_int_cases of_nat_less_iff order_less_le_trans)
    have x: "0 \<le> arr ! k" "arr ! k < int MAX_NUM" using assms(3) k(2) by auto
    have "freqs_of (take k arr) ! nat (arr ! k) = int (count (mset (take k arr)) (arr ! k))"
      using x by (simp add: freqs_of_nth nat_less_iff)
    moreover have "count (mset (take k arr)) (arr ! k) \<le> k"
      using count_le_length [of "take k arr" "arr ! k"] k(2) by (simp add: count_mset)
    ultimately have small: "freqs_of (take k arr) ! nat (arr ! k) + 1 < 2 ^ 31" "0 \<le> freqs_of (take k arr) ! nat (arr ! k)"
      using k(2) assms(2) by auto
    have "take (Suc k) arr = take k arr @ [arr ! k]"
      using k(2) by (rule take_Suc_conv_app_nth)
    moreover have "nat (i + 1) = Suc k" using k by simp
    ultimately show "\<exists>gs. (do { x \<leftarrow> rd arr i; n \<leftarrow> rd fs x; n \<leftarrow> chk32 (n + 1); wr fs x n }) = Some gs \<and> ?P (i + 1) gs"
      using k x small freqs_of_snoc [OF x, of "take k arr"] fs by (simp add: mem_simps)
  qed simp
  then show ?thesis by simp
qed

lemma pairs_upto_Suc:
  "pairs_upto xs (Suc n) = pairs_upto xs n @
     (if int n \<in> set xs then [NumFreq (int n) (int (count (mset xs) (int n)))] else [])"
  by (simp add: pairs_upto_def)

lemma pairs_upto_mono: "m \<le> n \<Longrightarrow> length (pairs_upto xs m) \<le> length (pairs_upto xs n)"
  by (induction n rule: dec_induct) (auto simp: pairs_upto_Suc)

lemma freqs_of_pos: "v < MAX_NUM \<Longrightarrow> 0 < freqs_of xs ! v \<longleftrightarrow> int v \<in> set xs"
  by (simp add: freqs_of_nth)

lemma count_distinct_total:
  "for_up 0 (int MAX_NUM) (\<lambda>i num. do { n \<leftarrow> rd (freqs_of xs) i; Some (if 0 < n then num + 1 else num) }) 0 =
   Some (int (length (pairs_upto xs MAX_NUM)))"
proof -
  let ?P = "\<lambda>i num. num = int (length (pairs_upto xs (nat i)))"
  have "\<exists>num. for_up 0 (int MAX_NUM) (\<lambda>i num. do { n \<leftarrow> rd (freqs_of xs) i; Some (if 0 < n then num + 1 else num) }) 0 = Some num \<and>
      ?P (int MAX_NUM) num"
  proof (rule for_up_total [where P = ?P])
    fix i num assume i: "0 \<le> i" "i < int MAX_NUM" and num: "?P i num"
    obtain k where k: "i = int k" "k < MAX_NUM" using i by (metis nonneg_int_cases of_nat_less_iff)
    moreover have "nat (i + 1) = Suc k" using k by simp
    ultimately show "\<exists>t. (do { n \<leftarrow> rd (freqs_of xs) i; Some (if 0 < n then num + 1 else num) }) = Some t \<and> ?P (i + 1) t"
      using num by (simp add: mem_simps freqs_of_pos pairs_upto_Suc)
  qed (simp_all add: pairs_upto_def)
  then show ?thesis by simp
qed

lemma fill_freq_arr_total:
  assumes "length fa = length (pairs_upto xs MAX_NUM)"
  shows "\<exists>idx. fill_freq_arr (freqs_of xs) fa = Some (pairs_upto xs MAX_NUM, idx)"
proof -
  let ?P = "\<lambda>i (ys, idx). length ys = length fa \<and> idx = int (length (pairs_upto xs (nat i))) \<and>
    take (nat idx) ys = pairs_upto xs (nat i)"
  have "\<exists>r. fill_freq_arr (freqs_of xs) fa = Some r \<and> ?P (int MAX_NUM) r"
    unfolding fill_freq_arr_def
  proof (rule for_up_total [where P = ?P])
    fix i s assume i: "0 \<le> i" "i < int MAX_NUM" and P: "?P i s"
    obtain k where k: "i = int k" "k < MAX_NUM" using i by (metis nonneg_int_cases of_nat_less_iff)
    obtain ys where s: "s = (ys, int (length (pairs_upto xs k)))" "length ys = length fa"
      "take (length (pairs_upto xs k)) ys = pairs_upto xs k"
      using P k by (cases s) auto
    have "nat (i + 1) = Suc k" using k by simp
    moreover have "length (pairs_upto xs (Suc k)) \<le> length fa"
      using k(2) assms by (simp add: pairs_upto_mono)
    ultimately show "\<exists>t. (case s of (freq_arr, idx) \<Rightarrow> do { n \<leftarrow> rd (freqs_of xs) i;
        if 0 < n then do { freq_arr \<leftarrow> wr freq_arr idx (NumFreq i n); Some (freq_arr, idx + 1) }
        else Some (freq_arr, idx) }) = Some t \<and> ?P (i + 1) t"
      using s k by (auto simp: mem_simps freqs_of_pos pairs_upto_Suc freqs_of_nth nat_add_distrib take_Suc_conv_app_nth split: if_splits)
  qed (simp_all add: pairs_upto_def)
  then show ?thesis using assms by auto
qed

lemma print_total:
  assumes "m \<le> length xs"
  shows "for_up 0 (int m) (\<lambda>i out. do { e \<leftarrow> rd xs i; Some (out @ [e]) }) [] = Some (take m xs)"
proof -
  let ?P = "\<lambda>i out. out = take (nat i) xs"
  have "\<exists>out. for_up 0 (int m) (\<lambda>i out. do { e \<leftarrow> rd xs i; Some (out @ [e]) }) [] = Some out \<and> ?P (int m) out"
  proof (rule for_up_total [where P = ?P])
    fix i out assume i: "0 \<le> i" "i < int m" and out: "?P i out"
    obtain k where k: "i = int k" "k < length xs" using i assms by (metis nonneg_int_cases of_nat_less_iff order_less_le_trans)
    moreover have "nat (i + 1) = Suc k" using k by simp
    ultimately show "\<exists>t. (do { e \<leftarrow> rd xs i; Some (out @ [e]) }) = Some t \<and> ?P (i + 1) t"
      using out by (simp add: mem_simps take_Suc_conv_app_nth)
  qed simp_all
  then show ?thesis by simp
qed

section \<open>Property\<close>

text \<open>
  For elements from 0 to 99 and \<open>m\<close> at most the number of different elements,
  \<open>top_m_num\<close> prints the \<open>m\<close> most frequent elements with their frequencies, by falling
  frequency and, among equal frequencies, by rising value.
\<close>

theorem top_m_num_correct:
  assumes "\<forall>x\<in>set arr. 0 \<le> x \<and> x < 100" and "arr \<noteq> []" and "length arr < 2 ^ 31"
    and "m \<le> length (pairs_upto arr 100)"
  shows "top_m_num True arr (int (length arr)) (int m) = Some (take m (sort (pairs_upto arr 100)))"
proof -
  have "length (pairs_upto arr 100) \<le> 100"
    using length_filter_le [of "\<lambda>v. int v \<in> set arr" "[0..<100]"] by (simp add: pairs_upto_def)
  then have "heapify_sort_freq (pairs_upto arr 100) (int (length (pairs_upto arr 100))) = Some (sort (pairs_upto arr 100))"
    by (intro freq_heap.whole) simp
  then show ?thesis
    using count_freq_total [of "length arr" arr] count_distinct_total [of arr] assms
      fill_freq_arr_total [of "replicate (length (pairs_upto arr 100)) (NumFreq 0 0)" arr]
      print_total [of m "sort (pairs_upto arr 100)"]
    by (auto simp: top_m_num_def MAX_NUM_def)
qed

theorem top_m_num_correct_witness: "top_m_num True [7, 3, 7] 3 1 = Some [NumFreq 7 2]"
proof -
  have "[0..<100::nat] = [0..<3] @ [3] @ [4..<7] @ [7] @ [8..<100]"
    by (simp add: upt_conv_Cons upt_add_eq_append [symmetric])
  then have "pairs_upto [7, 3, 7] 100 = [NumFreq 3 1, NumFreq 7 2]"
    by (auto simp: pairs_upto_def filter_empty_conv)
  then show ?thesis
    using top_m_num_correct [of "[7, 3, 7]" 1] by (simp add: less_eq_num_freq_def)
qed

end
