(* ===== verification/LinkedLists.thy ===== *)
theory LinkedLists
  imports Loops
begin

text \<open>
  Singly linked lists in a heap: reversal (\<^verbatim>\<open>C/job_interview/01_reverse_list.c\<close>), merge sort
  (\<^verbatim>\<open>02_single_list_sort.c\<close>), cycle detection (\<^verbatim>\<open>08_cycle_list_check.c\<close>) and the shared
  constructor (\<^verbatim>\<open>comm.c\<close>). A pointer is a natural number, 0 is \<open>NULL\<close>; the heap maps the
  addresses of live nodes to their contents, and using any other pointer is undefined.
\<close>

section \<open>Nodes and pointers\<close>

record node =
  nd_val :: int
  nd_next :: nat

type_synonym nheap = "nat \<Rightarrow> node option"

definition get_next :: "nheap \<Rightarrow> nat \<Rightarrow> nat option" where
  "get_next h p = map_option nd_next (h p)"

definition set_next :: "nheap \<Rightarrow> nat \<Rightarrow> nat \<Rightarrow> nheap option" where
  "set_next h p q = do { n \<leftarrow> h p; Some (h(p \<mapsto> n\<lparr>nd_next := q\<rparr>)) }"

text \<open>\<open>lst h p as\<close>: from \<open>p\<close> the nodes \<open>as\<close> lead to \<open>NULL\<close>; \<open>path\<close> ends anywhere.\<close>

fun path :: "nheap \<Rightarrow> nat \<Rightarrow> nat list \<Rightarrow> nat \<Rightarrow> bool" where
  "path h p [] q \<longleftrightarrow> p = q"
| "path h p (a # as) q \<longleftrightarrow> p = a \<and> a \<noteq> 0 \<and> (\<exists>n. h a = Some n \<and> path h (nd_next n) as q)"

abbreviation lst :: "nheap \<Rightarrow> nat \<Rightarrow> nat list \<Rightarrow> bool" where
  "lst h p as \<equiv> path h p as 0"

text \<open>The value stored at a node.\<close>

definition val :: "nheap \<Rightarrow> nat \<Rightarrow> int" where
  "val h a = (case h a of Some n \<Rightarrow> nd_val n | None \<Rightarrow> 0)"

section \<open>The programs\<close>

text \<open>\<open>init_linked_list\<close> lays the nodes out one after the other from the address \<open>base\<close> that
  \<open>calloc\<close> returned.\<close>

definition init_linked_list :: "nheap \<Rightarrow> nat \<Rightarrow> int list \<Rightarrow> int \<Rightarrow> (nheap \<times> nat) option" where
  "init_linked_list h base data num =
     (if num < 1 then Some (h, 0)
      else do {
        (h, tmp) \<leftarrow> for_up 0 (num - 1) (\<lambda>i (h, tmp). do {
          x \<leftarrow> rd data i;
          Some (h(tmp \<mapsto> \<lparr>nd_val = x, nd_next = tmp + 1\<rparr>), tmp + 1) }) (h, base);
        x \<leftarrow> rd data (num - 1);
        Some (h(tmp \<mapsto> \<lparr>nd_val = x, nd_next = 0\<rparr>), base) })"

text \<open>The three bodies of \<open>reverse\<close>, chosen at compile time; the third is the default.\<close>

definition reverse_M1 :: "nheap \<Rightarrow> nat \<Rightarrow> (nheap \<times> nat) option" where
  "reverse_M1 h head =
     (if head = 0 then Some (h, 0)
      else loop (\<lambda>(h, pre, pos).
        if pos = 0 then Some (Inr (h, pre))
        else do {
          nxt \<leftarrow> get_next h pos;
          h \<leftarrow> set_next h pos pre;
          Some (Inl (h, pos, nxt)) }) (h, 0, head))"

definition reverse_M2 :: "nheap \<Rightarrow> nat \<Rightarrow> (nheap \<times> nat) option" where
  "reverse_M2 h head =
     (if head = 0 then Some (h, 0)
      else loop (\<lambda>(h, pre, pos).
        if pos = 0 then Some (Inr (h, pre))
        else do {
          let curr = pos;
          pos \<leftarrow> get_next h pos;
          h \<leftarrow> set_next h curr pre;
          Some (Inl (h, curr, pos)) }) (h, 0, head))"

definition reverse :: "nheap \<Rightarrow> nat \<Rightarrow> (nheap \<times> nat) option" where
  "reverse h head =
     (if head = 0 then Some (h, 0)
      else do {
        curr \<leftarrow> get_next h head;
        h \<leftarrow> set_next h head 0;
        loop (\<lambda>(h, pre, curr).
          if curr = 0 then Some (Inr (h, pre))
          else do {
            nxt \<leftarrow> get_next h curr;
            h \<leftarrow> set_next h curr pre;
            Some (Inl (h, curr, nxt)) }) (h, head, curr) })"

partial_function (option) merge_by_recursive :: "nheap \<Rightarrow> nat \<Rightarrow> nat \<Rightarrow> (nheap \<times> nat) option" where
  [code]: "merge_by_recursive h head1 head2 =
     (if head1 = 0 then Some (h, head2)
      else if head2 = 0 then Some (h, head1)
      else do {
        a \<leftarrow> h head1;
        b \<leftarrow> h head2;
        if nd_val a \<le> nd_val b then do {
          (h, r) \<leftarrow> merge_by_recursive h (nd_next a) head2;
          h \<leftarrow> set_next h head1 r;
          Some (h, head1) }
        else do {
          (h, r) \<leftarrow> merge_by_recursive h head1 (nd_next b);
          h \<leftarrow> set_next h head2 r;
          Some (h, head2) } })"

text \<open>\<open>tail->next = q\<close> in the iterative merge, where \<open>tail\<close> is a node or, as 0, the dummy node
  on the stack, whose link is \<open>d\<close>.\<close>

definition link_tail :: "nheap \<Rightarrow> nat \<Rightarrow> nat \<Rightarrow> nat \<Rightarrow> (nheap \<times> nat) option" where
  "link_tail h d tail q = (if tail = 0 then Some (h, q) else do { h \<leftarrow> set_next h tail q; Some (h, d) })"

definition merge_step :: "nheap \<times> nat \<times> nat \<times> nat \<times> nat \<Rightarrow>
    (nheap \<times> nat \<times> nat \<times> nat \<times> nat + nheap \<times> nat \<times> nat \<times> nat \<times> nat) option" where
  "merge_step = (\<lambda>(h, d, tail, l1, l2).
     if l1 \<noteq> 0 \<and> l2 \<noteq> 0 then do {
       a \<leftarrow> h l1;
       b \<leftarrow> h l2;
       if nd_val a \<le> nd_val b then do {
         (h, d) \<leftarrow> link_tail h d tail l1;
         Some (Inl (h, d, l1, nd_next a, l2)) }
       else do {
         (h, d) \<leftarrow> link_tail h d tail l2;
         Some (Inl (h, d, l2, l1, nd_next b)) } }
     else Some (Inr (h, d, tail, l1, l2)))"

definition merge_by_loop :: "nheap \<Rightarrow> nat \<Rightarrow> nat \<Rightarrow> (nheap \<times> nat) option" where
  "merge_by_loop h l1 l2 = do {
     (h, d, tail, l1, l2) \<leftarrow> loop merge_step (h, 0, 0, l1, l2);
     link_tail h d tail (if l1 \<noteq> 0 then l1 else l2) }"

definition find_slow :: "nheap \<Rightarrow> nat \<Rightarrow> nat \<Rightarrow> nat option" where
  "find_slow h slow fast = loop (\<lambda>(slow, fast).
     if fast = 0 then Some (Inr slow)
     else do {
       f \<leftarrow> get_next h fast;
       if f = 0 then Some (Inr slow)
       else do {
         slow \<leftarrow> get_next h slow;
         fast \<leftarrow> get_next h f;
         Some (Inl (slow, fast)) } }) (slow, fast)"

partial_function (option) merge_sort :: "nheap \<Rightarrow> nat \<Rightarrow> (nheap \<times> nat) option" where
  [code]: "merge_sort h head =
     (if head = 0 then Some (h, head)
      else do {
        second \<leftarrow> get_next h head;
        if second = 0 then Some (h, head)
        else do {
          slow \<leftarrow> find_slow h head second;
          mid \<leftarrow> get_next h slow;
          h \<leftarrow> set_next h slow 0;
          (h, left) \<leftarrow> merge_sort h head;
          (h, right) \<leftarrow> merge_sort h mid;
          merge_by_recursive h left right } })"

definition cycle_step :: "nheap \<Rightarrow> nat \<times> nat \<Rightarrow> (nat \<times> nat + bool) option" where
  "cycle_step h = (\<lambda>(slow, fast).
     if slow = fast then Some (Inr True)
     else if fast = 0 then Some (Inr False)
     else do {
       f \<leftarrow> get_next h fast;
       if f = 0 then Some (Inr False)
       else do {
         slow \<leftarrow> get_next h slow;
         fast \<leftarrow> get_next h f;
         Some (Inl (slow, fast)) } })"

definition hasCycle :: "nheap \<Rightarrow> nat \<Rightarrow> bool option" where
  "hasCycle h head =
     (if head = 0 then Some False
      else do {
        second \<leftarrow> get_next h head;
        if second = 0 then Some False
        else loop (cycle_step h) (head, second) })"

text \<open>\<open>freeList\<close> returns the heap without the freed nodes.\<close>

definition freeList :: "nheap \<Rightarrow> nat \<Rightarrow> nheap option" where
  "freeList h head = loop (\<lambda>(h, current).
     if current = 0 then Some (Inr h)
     else do {
       nxt \<leftarrow> get_next h current;
       Some (Inl (h(current := None), nxt)) }) (h, head)"

section \<open>Paths\<close>

lemma path_append [simp]: "path h p (as @ bs) q \<longleftrightarrow> (\<exists>r. path h p as r \<and> path h r bs q)"
  by (induction as arbitrary: p) auto

lemma lst_unique: "lst h p as \<Longrightarrow> lst h p bs \<Longrightarrow> as = bs"
  by (induction as arbitrary: p bs) (case_tac bs, auto)+

lemma lst_0 [simp]: "lst h 0 as \<longleftrightarrow> as = []"
  by (cases as) auto

lemma lst_nonempty: "lst h p as \<Longrightarrow> p \<noteq> 0 \<Longrightarrow> \<exists>n bs. as = p # bs \<and> h p = Some n \<and> lst h (nd_next n) bs"
  by (cases as) auto

lemma lst_distinct: "lst h p as \<Longrightarrow> distinct as"
proof (induction as arbitrary: p)
  case (Cons a as)
  then obtain n where n: "h a = Some n" "lst h (nd_next n) as" "lst h a (a # as)" by auto
  have "a \<notin> set as"
  proof
    assume "a \<in> set as"
    then obtain us vs where uv: "as = us @ a # vs" by (meson split_list)
    then have "lst h a (a # vs)" using n(2) by auto
    then have "vs = as" using n(3) lst_unique by blast
    then have "length as = length (us @ a # as)" using uv by simp
    then show False by simp
  qed
  then show ?case using Cons.IH n(2) by simp
qed simp

lemma path_frame: "path h p as q \<Longrightarrow> \<forall>a\<in>set as. g a = h a \<Longrightarrow> path g p as q"
  by (induction as arbitrary: p) auto

lemma path_dom: "path h p as q \<Longrightarrow> a \<in> set as \<Longrightarrow> \<exists>n. h a = Some n \<and> a \<noteq> 0"
  by (induction as arbitrary: p) auto

lemma path_upd_out [simp]: "a \<notin> set as \<Longrightarrow> path (h(a := v)) p as q \<longleftrightarrow> path h p as q"
  by (rule iffI; erule path_frame) auto

text \<open>Two heaps with the same values that differ on the links of \<open>A\<close> only.\<close>

definition relinked :: "nat set \<Rightarrow> nheap \<Rightarrow> nheap \<Rightarrow> bool" where
  "relinked A h g \<longleftrightarrow> (\<forall>a. a \<notin> A \<longrightarrow> g a = h a) \<and> (\<forall>a. val g a = val h a) \<and> dom g = dom h"

lemma relinked_refl [simp]: "relinked A h h"
  by (simp add: relinked_def)

lemma relinked_trans: "relinked A h g \<Longrightarrow> relinked A g k \<Longrightarrow> relinked A h k"
  by (simp add: relinked_def)

lemma relinked_mono: "relinked A h g \<Longrightarrow> A \<subseteq> B \<Longrightarrow> relinked B h g"
  by (auto simp: relinked_def)

lemma relinked_set: "h p = Some n \<Longrightarrow> p \<in> A \<Longrightarrow> relinked A h (h(p \<mapsto> n\<lparr>nd_next := q\<rparr>))"
  by (auto simp: relinked_def val_def)

lemma relinked_path: "relinked A h g \<Longrightarrow> A \<inter> set as = {} \<Longrightarrow> path g p as q \<longleftrightarrow> path h p as q"
  by (rule iffI; erule path_frame) (auto simp: relinked_def)

text \<open>The list determines the heap.\<close>

lemma relinked_unique:
  assumes "relinked A h g" and "relinked A h k" and "lst g p as" and "lst k p as" and "A = set as"
  shows "g = k"
proof
  fix a
  have same: "g a = k a" if "lst g p bs" "lst k p bs" "a \<in> set bs" for p bs
    using that
  proof (induction bs arbitrary: p)
    case (Cons b bs)
    then obtain n m where n: "g b = Some n" "lst g (nd_next n) bs" and m: "k b = Some m" "lst k (nd_next m) bs" by auto
    have "nd_next n = nd_next m"
      using n(2) m(2) by (cases bs) auto
    moreover have "nd_val n = nd_val m"
      using assms(1,2) n(1) m(1) by (metis option.simps(5) relinked_def val_def)
    ultimately have "n = m" by simp
    then show ?case using Cons n m by auto
  qed simp
  show "g a = k a"
    using same [OF assms(3,4)] assms(1,2,5) by (cases "a \<in> A") (auto simp: relinked_def)
qed

section \<open>Reversal\<close>

lemma reverse_loop:
  assumes "lst h pos bs" and "lst h pre as" and "set as \<inter> set bs = {}"
  shows "\<exists>g p. loop (\<lambda>(h, pre, pos).
        if pos = 0 then Some (Inr (h, pre))
        else do { nxt \<leftarrow> get_next h pos; h \<leftarrow> set_next h pos pre; Some (Inl (h, pos, nxt)) }) (h, pre, pos) = Some (g, p) \<and>
      lst g p (rev bs @ as) \<and> relinked (set bs) h g"
  using assms
proof (induction bs arbitrary: h pre pos as)
  case Nil
  then show ?case by (subst loop.simps) simp
next
  case (Cons b bs)
  then obtain n where n: "pos = b" "b \<noteq> 0" "h b = Some n" "lst h (nd_next n) bs" by auto
  have nb: "b \<notin> set bs" "b \<notin> set as" using lst_distinct [OF Cons.prems(1)] Cons.prems(3) by auto
  let ?h = "h(b \<mapsto> n\<lparr>nd_next := pre\<rparr>)"
  have "lst ?h (nd_next n) bs" "lst ?h b (b # as)"
    using n nb Cons.prems(2) by simp_all
  moreover have "set (b # as) \<inter> set bs = {}" using nb Cons.prems(3) by auto
  ultimately obtain g p where g: "loop (\<lambda>(h, pre, pos).
        if pos = 0 then Some (Inr (h, pre))
        else do { nxt \<leftarrow> get_next h pos; h \<leftarrow> set_next h pos pre; Some (Inl (h, pos, nxt)) }) (?h, b, nd_next n) = Some (g, p)"
      "lst g p (rev bs @ b # as)" "relinked (set bs) ?h g"
    using Cons.IH by blast
  have "relinked (set (b # bs)) h g"
    using relinked_set [of h b n "set (b # bs)" pre] n(3) relinked_mono [OF g(3), of "set (b # bs)"]
    by (auto intro: relinked_trans)
  then show ?case
    using g(1,2) n by (subst loop.simps) (simp add: get_next_def set_next_def)
qed

lemma reverse_M1_ok:
  assumes "lst h p as"
  shows "\<exists>g q. reverse_M1 h p = Some (g, q) \<and> lst g q (rev as) \<and> relinked (set as) h g"
  using reverse_loop [OF assms, of 0 "[]"] assms by (auto simp: reverse_M1_def)

lemma reverse_ok:
  assumes "lst h p as"
  shows "\<exists>g q. reverse h p = Some (g, q) \<and> lst g q (rev as) \<and> relinked (set as) h g"
proof (cases as)
  case Nil
  then show ?thesis using assms by (auto simp: reverse_def)
next
  case (Cons a bs)
  then obtain n where n: "p = a" "a \<noteq> 0" "h a = Some n" "lst h (nd_next n) bs" using assms by auto
  have nb: "a \<notin> set bs" using lst_distinct [OF assms] Cons by simp
  let ?h = "h(a \<mapsto> n\<lparr>nd_next := 0\<rparr>)"
  have "lst ?h (nd_next n) bs" "lst ?h a [a]" using n nb by simp_all
  then obtain g q where g: "loop (\<lambda>(h, pre, pos).
        if pos = 0 then Some (Inr (h, pre))
        else do { nxt \<leftarrow> get_next h pos; h \<leftarrow> set_next h pos pre; Some (Inl (h, pos, nxt)) }) (?h, a, nd_next n) = Some (g, q)"
      "lst g q (rev bs @ [a])" "relinked (set bs) ?h g"
    using reverse_loop [of ?h "nd_next n" bs a "[a]"] nb by auto
  have "relinked (set as) h g"
    using relinked_set [of h a n "set as" 0] n(3) relinked_mono [OF g(3), of "set as"] Cons
    by (auto intro: relinked_trans)
  then show ?thesis
    using g(1,2) n Cons by (simp add: reverse_def get_next_def set_next_def)
qed

lemma reverse_M2_eq: "reverse_M2 h p = reverse_M1 h p"
  unfolding reverse_M1_def reverse_M2_def Let_def by (rule refl)

section \<open>Merging\<close>

fun amerge :: "('a \<Rightarrow> int) \<Rightarrow> 'a list \<Rightarrow> 'a list \<Rightarrow> 'a list" where
  "amerge v [] bs = bs"
| "amerge v as [] = as"
| "amerge v (a # as) (b # bs) =
     (if v a \<le> v b then a # amerge v as (b # bs) else b # amerge v (a # as) bs)"

lemma amerge_Nil2 [simp]: "amerge v as [] = as"
  by (cases as) auto

lemma mset_amerge [simp]: "mset (amerge v as bs) = mset as + mset bs"
  by (induction v as bs rule: amerge.induct) auto

lemma set_amerge [simp]: "set (amerge v as bs) = set as \<union> set bs"
  by (induction v as bs rule: amerge.induct) auto

lemma sorted_amerge: "sorted (map v as) \<Longrightarrow> sorted (map v bs) \<Longrightarrow> sorted (map v (amerge v as bs))"
  by (induction v as bs rule: amerge.induct) (auto simp: less_imp_le intro: order.trans)

lemma filter_amerge:
  "sorted (map v as) \<Longrightarrow> sorted (map v bs) \<Longrightarrow>
   filter (\<lambda>x. v x = c) (amerge v as bs) = filter (\<lambda>x. v x = c) as @ filter (\<lambda>x. v x = c) bs"
proof (induction v as bs rule: amerge.induct)
  case (3 v a as b bs)
  then show ?case
  proof (cases "v a \<le> v b")
    case False
    then have "\<forall>x\<in>set (a # as). v x \<noteq> v b" using 3(3) by fastforce
    then have "c = v b \<Longrightarrow> filter (\<lambda>x. v x = c) (a # as) = []" by (auto simp: filter_empty_conv)
    then show ?thesis using 3 False by auto
  qed auto
qed auto

text \<open>Merging sorted lists, the left one first, is the stable sort of their concatenation.\<close>

lemma amerge_sort_key: "amerge v (sort_key v as) (sort_key v bs) = sort_key v (as @ bs)"
proof (rule sym, rule properties_for_sort_key)
  fix k
  have "filter (\<lambda>x. v x = v k) (amerge v (sort_key v as) (sort_key v bs)) = filter (\<lambda>x. v x = v k) (as @ bs)"
    by (simp add: filter_amerge sort_key_stable)
  then show "filter (\<lambda>x. v k = v x) (amerge v (sort_key v as) (sort_key v bs)) = filter (\<lambda>x. v k = v x) (as @ bs)"
    by (simp only: eq_commute [of "v k"])
qed (simp_all add: sorted_amerge)

lemma amerge_cong: "\<forall>x\<in>set as \<union> set bs. v x = w x \<Longrightarrow> amerge v as bs = amerge w as bs"
  by (induction v as bs rule: amerge.induct) auto

lemma merge_by_recursive_ok:
  assumes "lst h p as" and "lst h q bs" and "set as \<inter> set bs = {}"
  shows "\<exists>g r. merge_by_recursive h p q = Some (g, r) \<and> lst g r (amerge (val h) as bs) \<and> relinked (set as \<union> set bs) h g"
  using assms
proof (induction "val h" as bs arbitrary: p q rule: amerge.induct)
  case (1 bs)
  then show ?case by (subst merge_by_recursive.simps) simp
next
  case (2 a as)
  then show ?case by (subst merge_by_recursive.simps) auto
next
  case (3 a as b bs)
  then obtain n m where n: "p = a" "a \<noteq> 0" "h a = Some n" "lst h (nd_next n) as"
    and m: "q = b" "b \<noteq> 0" "h b = Some m" "lst h (nd_next m) bs" by auto
  have dist: "a \<notin> set as" "b \<notin> set bs" "a \<noteq> b" "a \<notin> set bs" "b \<notin> set as"
    using lst_distinct [OF "3.prems"(1)] lst_distinct [OF "3.prems"(2)] "3.prems"(3) by auto
  have v: "val h a = nd_val n" "val h b = nd_val m" using n m by (simp_all add: val_def)
  have glue: "lst (g(c \<mapsto> k\<lparr>nd_next := r\<rparr>)) c (c # cs) \<and> relinked (set (a # as) \<union> set (b # bs)) h (g(c \<mapsto> k\<lparr>nd_next := r\<rparr>))"
    if "lst g r cs" "relinked A h g" "A \<subseteq> set (a # as) \<union> set (b # bs)" "g c = Some k" "c \<noteq> 0" "c \<notin> set cs"
      "c \<in> set (a # as) \<union> set (b # bs)" for g r cs A c k
    using that relinked_set [of g c k "set (a # as) \<union> set (b # bs)" r] relinked_mono [OF that(2,3)]
    by (auto intro: relinked_trans)
  show ?case
  proof (cases "val h a \<le> val h b")
    case True
    obtain g r where g: "merge_by_recursive h (nd_next n) q = Some (g, r)" "lst g r (amerge (val h) as (b # bs))"
      "relinked (set as \<union> set (b # bs)) h g"
      using "3.hyps"(1) [OF True n(4) "3.prems"(2)] "3.prems"(3) by auto
    have "g a = Some n" using g(3) dist n(3) by (simp add: relinked_def)
    then show ?thesis
      using glue [OF g(2,3), of a n] g(1) n m v True dist
      by (subst merge_by_recursive.simps) (auto simp: set_next_def)
  next
    case False
    obtain g r where g: "merge_by_recursive h p (nd_next m) = Some (g, r)" "lst g r (amerge (val h) (a # as) bs)"
      "relinked (set (a # as) \<union> set bs) h g"
      using "3.hyps"(2) [OF False "3.prems"(1) m(4)] "3.prems"(3) by auto
    have "g b = Some m" using g(3) dist m(3) by (simp add: relinked_def)
    then show ?thesis
      using glue [OF g(2,3), of b m] g(1) n m v False dist
      by (subst merge_by_recursive.simps) (auto simp: set_next_def)
  qed
qed

text \<open>The iterative merge: \<open>ds\<close> is what is linked so far, \<open>tail\<close> its last node.\<close>

definition linked :: "nheap \<Rightarrow> nat \<Rightarrow> nat \<Rightarrow> nat list \<Rightarrow> bool" where
  "linked h d tail ds \<longleftrightarrow> (if ds = [] then tail = 0 else tail = last ds \<and> distinct ds \<and> (\<exists>e. path h d ds e))"

lemma link_tail_ok:
  assumes "linked h d tail ds"
  shows "\<exists>g c. link_tail h d tail q = Some (g, c) \<and> path g c ds q \<and> relinked (set ds) h g"
proof (cases ds rule: rev_cases)
  case Nil
  then show ?thesis using assms by (simp add: linked_def link_tail_def)
next
  case (snoc us t)
  then obtain n where n: "tail = t" "t \<noteq> 0" "h t = Some n" "path h d us t" "t \<notin> set us"
    using assms by (auto simp: linked_def)
  then show ?thesis
    using relinked_set [of h t n "set ds" q] n(3) snoc by (simp add: link_tail_def set_next_def)
qed

lemma merge_loop_ok:
  assumes "lst h p as" and "lst h q bs" and "set as \<inter> set bs = {}" and "linked h d tail ds"
    and "set ds \<inter> (set as \<union> set bs) = {}"
  shows "\<exists>g c. (do { (h, d, tail, l1, l2) \<leftarrow> loop merge_step (h, d, tail, p, q);
       link_tail h d tail (if l1 \<noteq> 0 then l1 else l2) }) = Some (g, c) \<and>
     lst g c (ds @ amerge (val h) as bs) \<and> relinked (set ds \<union> set as \<union> set bs) h g"
  using assms
proof (induction "val h" as bs arbitrary: h p q d tail ds rule: amerge.induct)
  case (1 bs)
  obtain g c where "link_tail h d tail q = Some (g, c)" "path g c ds q" "relinked (set ds) h g"
    using link_tail_ok [OF "1.prems"(4)] by blast
  moreover have "lst g q bs" using calculation(3) relinked_path [of "set ds" h g bs q 0] "1.prems" by auto
  ultimately show ?case
    using "1.prems"(1) relinked_mono [of "set ds" h g "set ds \<union> set bs"]
    by (subst loop.simps) (auto simp: merge_step_def)
next
  case (2 a as)
  obtain g c where "link_tail h d tail p = Some (g, c)" "path g c ds p" "relinked (set ds) h g"
    using link_tail_ok [OF "2.prems"(4)] by blast
  moreover have "lst g p (a # as)"
    using calculation(3) relinked_path [of "set ds" h g "a # as" p 0] "2.prems" by auto
  ultimately show ?case
    using "2.prems"(1,2) relinked_mono [of "set ds" h g "set ds \<union> set (a # as)"]
    by (subst loop.simps) (auto simp: merge_step_def)
next
  case (3 a as b bs)
  then obtain n m where n: "p = a" "a \<noteq> 0" "h a = Some n" "lst h (nd_next n) as"
    and m: "q = b" "b \<noteq> 0" "h b = Some m" "lst h (nd_next m) bs" by auto
  have dist: "a \<notin> set as" "b \<notin> set bs" "a \<noteq> b" "a \<notin> set bs" "b \<notin> set as" "distinct ds"
    using lst_distinct [OF "3.prems"(1)] lst_distinct [OF "3.prems"(2)] "3.prems"(3,4)
    by (auto simp: linked_def split: if_splits)
  have v: "val h a = nd_val n" "val h b = nd_val m" using n m by (simp_all add: val_def)
  have next': "linked g c x (ds @ [x])" if "path g c ds x" "g x = Some k" "x \<noteq> 0" "x \<notin> set ds" for g c x k
    using that dist(6) by (auto simp: linked_def)
  show ?case
  proof (cases "val h a \<le> val h b")
    case True
    obtain g c where g: "link_tail h d tail a = Some (g, c)" "path g c ds a" "relinked (set ds) h g"
      using link_tail_ok [OF "3.prems"(4)] by blast
    have vg: "val h = val g" using g(3) by (auto simp: relinked_def)
    have l1: "lst g (nd_next n) as"
      by (subst relinked_path [OF g(3)]) (use n(4) "3.prems"(5) in auto)
    have l2: "lst g q (b # bs)"
      by (subst relinked_path [OF g(3)]) (use "3.prems"(2,5) in auto)
    have "g a = Some n" using g(3) n(3) "3.prems"(5) by (auto simp: relinked_def)
    then have lk: "linked g c a (ds @ [a])" using next' [OF g(2)] n(2) "3.prems"(5) by auto
    have "set as \<inter> set (b # bs) = {}" "set (ds @ [a]) \<inter> (set as \<union> set (b # bs)) = {}"
      using "3.prems"(3,5) dist by auto
    then obtain g' c' where g': "(do { (h, d, tail, l1, l2) \<leftarrow> loop merge_step (g, c, a, nd_next n, q);
          link_tail h d tail (if l1 \<noteq> 0 then l1 else l2) }) = Some (g', c')"
        "lst g' c' ((ds @ [a]) @ amerge (val h) as (b # bs))" "relinked (set (ds @ [a]) \<union> set as \<union> set (b # bs)) g g'"
      using "3.hyps"(1) [OF True vg l1 l2 _ lk] unfolding vg by blast
    have "loop merge_step (h, d, tail, p, q) = loop merge_step (g, c, a, nd_next n, q)"
      using n m True v g(1) by (subst loop.simps) (simp add: merge_step_def)
    moreover have "relinked (set ds \<union> set (a # as) \<union> set (b # bs)) h g'"
      by (rule relinked_trans [OF relinked_mono [OF g(3)] relinked_mono [OF g'(3)]]) auto
    ultimately show ?thesis
      using g'(1,2) True by auto
  next
    case False
    obtain g c where g: "link_tail h d tail b = Some (g, c)" "path g c ds b" "relinked (set ds) h g"
      using link_tail_ok [OF "3.prems"(4)] by blast
    have vg: "val h = val g" using g(3) by (auto simp: relinked_def)
    have l1: "lst g p (a # as)"
      by (subst relinked_path [OF g(3)]) (use "3.prems"(1,5) in auto)
    have l2: "lst g (nd_next m) bs"
      by (subst relinked_path [OF g(3)]) (use m(4) "3.prems"(5) in auto)
    have "g b = Some m" using g(3) m(3) "3.prems"(5) by (auto simp: relinked_def)
    then have lk: "linked g c b (ds @ [b])" using next' [OF g(2)] m(2) "3.prems"(5) by auto
    have "set (a # as) \<inter> set bs = {}" "set (ds @ [b]) \<inter> (set (a # as) \<union> set bs) = {}"
      using "3.prems"(3,5) dist by auto
    then obtain g' c' where g': "(do { (h, d, tail, l1, l2) \<leftarrow> loop merge_step (g, c, b, p, nd_next m);
          link_tail h d tail (if l1 \<noteq> 0 then l1 else l2) }) = Some (g', c')"
        "lst g' c' ((ds @ [b]) @ amerge (val h) (a # as) bs)" "relinked (set (ds @ [b]) \<union> set (a # as) \<union> set bs) g g'"
      using "3.hyps"(2) [OF False vg l1 l2 _ lk] unfolding vg by blast
    have "loop merge_step (h, d, tail, p, q) = loop merge_step (g, c, b, p, nd_next m)"
      using n m False v g(1) by (subst loop.simps) (simp add: merge_step_def)
    moreover have "relinked (set ds \<union> set (a # as) \<union> set (b # bs)) h g'"
      by (rule relinked_trans [OF relinked_mono [OF g(3)] relinked_mono [OF g'(3)]]) auto
    ultimately show ?thesis
      using g'(1,2) False by auto
  qed
qed

lemma merge_by_loop_eq:
  assumes "lst h p as" and "lst h q bs" and "set as \<inter> set bs = {}"
  shows "merge_by_loop h p q = merge_by_recursive h p q"
proof -
  obtain g r where g: "merge_by_recursive h p q = Some (g, r)" "lst g r (amerge (val h) as bs)"
      "relinked (set as \<union> set bs) h g"
    using merge_by_recursive_ok [OF assms] by blast
  obtain k c where k: "merge_by_loop h p q = Some (k, c)" "lst k c (amerge (val h) as bs)"
      "relinked (set as \<union> set bs) h k"
    using merge_loop_ok [OF assms, of 0 0 "[]"] by (auto simp: linked_def merge_by_loop_def)
  have "r = c" using g(2) k(2) by (cases "amerge (val h) as bs") auto
  then have "g = k" using relinked_unique [OF g(3) k(3) g(2)] k(2) by simp
  then show ?thesis using g(1) k(1) \<open>r = c\<close> by simp
qed

section \<open>Merge sort\<close>

text \<open>The node at position \<open>i\<close> of the list, \<open>NULL\<close> past its end.\<close>

definition at :: "nat list \<Rightarrow> nat \<Rightarrow> nat" where
  "at as i = (if i < length as then as ! i else 0)"

lemma at_next:
  assumes "lst h p as" and "i < length as"
  shows "get_next h (at as i) = Some (at as (Suc i)) \<and> at as i \<noteq> 0"
  using assms
proof (induction as arbitrary: p i)
  case (Cons a as)
  then obtain n where n: "h a = Some n" "lst h (nd_next n) as" "a \<noteq> 0" by auto
  show ?case
  proof (cases i)
    case 0
    have "nd_next n = at as 0" using n(2) by (cases as) (auto simp: at_def)
    then show ?thesis using 0 n by (simp add: get_next_def at_def)
  next
    case (Suc j)
    then show ?thesis using Cons.IH [OF n(2), of j] Cons.prems by (simp add: at_def)
  qed
qed simp

lemma at_eq_0: "lst h p as \<Longrightarrow> at as i = 0 \<longleftrightarrow> length as \<le> i"
  using at_next [of h p as i] by (auto simp: at_def)

lemma find_slow_rec:
  "find_slow h slow fast =
     (if fast = 0 then Some slow
      else do {
        f \<leftarrow> get_next h fast;
        if f = 0 then Some slow
        else do { slow \<leftarrow> get_next h slow; fast \<leftarrow> get_next h f; find_slow h slow fast } })"
  unfolding find_slow_def
  by (subst loop.simps)
    (cases "get_next h fast"; cases "get_next h slow"; cases "get_next h (the (get_next h fast))"; simp)

lemma find_slow_ok:
  assumes "lst h p as" and "Suc k < length as"
  shows "\<exists>j. find_slow h (at as k) (at as (2 * k + 1)) = Some (at as j) \<and> Suc j < length as"
  using assms(2)
proof (induction "length as - k" arbitrary: k rule: less_induct)
  case less
  show ?case
  proof (cases "2 * k + 2 < length as")
    case False
    then show ?thesis
      using less.prems at_next [OF assms(1), of "2 * k + 1"] at_eq_0 [OF assms(1)]
      by (subst find_slow_rec) auto
  next
    case True
    then have "find_slow h (at as k) (at as (2 * k + 1)) = find_slow h (at as (Suc k)) (at as (2 * Suc k + 1))"
      using less.prems at_next [OF assms(1), of "2 * k + 1"] at_next [OF assms(1), of "2 * k + 2"] at_next [OF assms(1), of k]
        at_eq_0 [OF assms(1)]
      by (subst find_slow_rec) simp
    then show ?thesis using less.hyps [of "Suc k"] True by simp
  qed
qed

lemma cut_ok:
  assumes "lst h p as" and "Suc j < length as"
  shows "\<exists>g. get_next h (at as j) = Some (at as (Suc j)) \<and> set_next h (at as j) 0 = Some g \<and>
    lst g p (take (Suc j) as) \<and> lst g (at as (Suc j)) (drop (Suc j) as) \<and> relinked (set as) h g"
proof -
  have nx: "get_next h (at as j) = Some (at as (Suc j))" "at as j \<noteq> 0"
    using at_next [OF assms(1)] assms(2) by auto
  then obtain n where n: "h (at as j) = Some n" "nd_next n = at as (Suc j)" by (auto simp: get_next_def)
  let ?g = "h(at as j \<mapsto> n\<lparr>nd_next := 0\<rparr>)"
  have split: "as = take j as @ at as j # drop (Suc j) as"
    using assms(2) by (simp add: at_def id_take_nth_drop)
  have p: "path h p (take j as) (at as j)" "lst h (at as (Suc j)) (drop (Suc j) as)"
    using assms(1) n nx(2) by (subst (asm) split, auto)+
  have "distinct (take j as @ at as j # drop (Suc j) as)"
    using lst_distinct [OF assms(1)] split by simp
  then have out: "at as j \<notin> set (take j as)" "at as j \<notin> set (drop (Suc j) as)" by auto
  have "take (Suc j) as = take j as @ [at as j]"
    using assms(2) by (simp add: at_def take_Suc_conv_app_nth)
  then have "lst ?g p (take (Suc j) as)" using p(1) out nx(2) by simp
  moreover have "lst ?g (at as (Suc j)) (drop (Suc j) as)" using p(2) out by simp
  moreover have "relinked (set as) h ?g"
    using relinked_set [of h "at as j" n "set as" 0] n(1) assms(2) by (simp add: at_def)
  ultimately show ?thesis
    using nx n by (simp add: set_next_def)
qed

lemma val_relinked: "relinked A h g \<Longrightarrow> val g = val h"
  by (auto simp: relinked_def)

lemma merge_sort_ok:
  assumes "lst h p as"
  shows "\<exists>g r. merge_sort h p = Some (g, r) \<and> lst g r (sort_key (val h) as) \<and> relinked (set as) h g"
  using assms
proof (induction "length as" arbitrary: h p as rule: less_induct)
  case less
  have p: "p = at as 0" using less.prems by (cases as) (auto simp: at_def)
  show ?case
  proof (cases "2 \<le> length as")
    case False
    then consider "as = []" | a where "as = [a]" by (cases as rule: list.exhaust [case_names Nil Cons]; cases "tl as") auto
    then show ?thesis
    proof cases
      case 1
      then show ?thesis using less.prems by (subst merge_sort.simps) simp
    next
      case (2 a)
      then show ?thesis using less.prems by (subst merge_sort.simps) (auto simp: get_next_def)
    qed
  next
    case True
    obtain j where j: "find_slow h p (at as 1) = Some (at as j)" "Suc j < length as"
      using find_slow_ok [OF less.prems, of 0] True p by auto
    obtain g where g: "get_next h (at as j) = Some (at as (Suc j))" "set_next h (at as j) 0 = Some g"
      "lst g p (take (Suc j) as)" "lst g (at as (Suc j)) (drop (Suc j) as)" "relinked (set as) h g"
      using cut_ok [OF less.prems j(2)] by blast
    let ?ls = "take (Suc j) as" and ?rs = "drop (Suc j) as"
    have sub: "set ?ls \<subseteq> set as" "set ?rs \<subseteq> set as" by (auto dest: in_set_takeD in_set_dropD)
    have disj: "set ?ls \<inter> set ?rs = {}"
      using lst_distinct [OF less.prems] by (metis append_take_drop_id distinct_append)
    obtain g1 l where g1: "merge_sort g p = Some (g1, l)" "lst g1 l (sort_key (val g) ?ls)" "relinked (set ?ls) g g1"
      using less.hyps [OF _ g(3)] j(2) by auto
    have rs: "lst g1 (at as (Suc j)) ?rs"
      using relinked_path [OF g1(3), of ?rs] g(4) disj by blast
    obtain g2 r where g2: "merge_sort g1 (at as (Suc j)) = Some (g2, r)" "lst g2 r (sort_key (val g1) ?rs)" "relinked (set ?rs) g1 g2"
    proof -
      have "length ?rs < length as" unfolding length_drop using j(2) by linarith
      then show ?thesis using less.hyps [OF _ rs] that by blast
    qed
    have ls: "lst g2 l (sort_key (val g) ?ls)"
      using relinked_path [OF g2(3), of "sort_key (val g) ?ls"] g1(2) disj by auto
    note vals = val_relinked [OF g(5)] val_relinked [OF g1(3)] val_relinked [OF g2(3)]
    obtain g3 q where g3: "merge_by_recursive g2 l r = Some (g3, q)"
      "lst g3 q (amerge (val h) (sort_key (val h) ?ls) (sort_key (val h) ?rs))" "relinked (set ?ls \<union> set ?rs) g2 g3"
      using merge_by_recursive_ok [OF ls g2(2)] disj by (auto simp: vals)
    have "relinked (set as) h g3"
      using g(5) relinked_mono [OF g1(3) sub(1)] relinked_mono [OF g2(3) sub(2)] relinked_mono [OF g3(3), of "set as"] sub
      by (meson Un_least relinked_trans)
    moreover have "as \<noteq> []" using True by auto
    then have "get_next h p = Some (at as 1) \<and> p \<noteq> 0" "at as 1 \<noteq> 0"
      unfolding p using at_next [OF less.prems, of 0] at_eq_0 [OF less.prems, of 1] True by auto
    then have "merge_sort h p = Some (g3, q)"
      using j(1) g(1,2) g1(1) g2(1) g3(1) by (subst merge_sort.simps) simp
    ultimately show ?thesis
      using g3(2) by (simp add: amerge_sort_key)
  qed
qed

section \<open>Cycles\<close>

text \<open>The pointer after \<open>k\<close> steps; \<open>NULL\<close> leads nowhere else.\<close>

definition step :: "nheap \<Rightarrow> nat \<Rightarrow> nat" where
  "step h p = (if p = 0 then 0 else case h p of Some n \<Rightarrow> nd_next n | None \<Rightarrow> 0)"

definition steps :: "nheap \<Rightarrow> nat \<Rightarrow> nat \<Rightarrow> nat" where
  "steps h k p = (step h ^^ k) p"

text \<open>Every link of a live node is \<open>NULL\<close> or a live node.\<close>

definition closed :: "nheap \<Rightarrow> bool" where
  "closed h \<longleftrightarrow> finite (dom h) \<and> 0 \<notin> dom h \<and> (\<forall>a n. h a = Some n \<longrightarrow> nd_next n = 0 \<or> nd_next n \<in> dom h)"

lemma steps_add: "steps h (j + k) p = steps h j (steps h k p)"
  by (simp add: steps_def funpow_add)

lemma step_0 [simp]: "step h 0 = 0"
  by (simp add: step_def)

lemma steps_0 [simp]: "steps h k 0 = 0"
  by (induction k) (simp_all add: steps_def)

lemma steps_simps: "steps h 0 p = p" "steps h (Suc k) p = step h (steps h k p)"
  by (simp_all add: steps_def)

lemma steps_live:
  assumes "closed h" and "p = 0 \<or> p \<in> dom h"
  shows "steps h k p = 0 \<or> steps h k p \<in> dom h"
proof (induction k)
  case (Suc k)
  show ?case
  proof (cases "steps h k p = 0")
    case False
    then obtain n where "h (steps h k p) = Some n" using Suc by auto
    then show ?thesis using assms(1) False unfolding closed_def steps_simps step_def by simp
  qed (simp add: steps_simps)
qed (use assms in \<open>simp add: steps_simps\<close>)

lemma get_next_step: "p \<in> dom h \<Longrightarrow> 0 \<notin> dom h \<Longrightarrow> get_next h p = Some (step h p)"
  by (auto simp: get_next_def step_def)

lemma steps_null_mono: "steps h j p = 0 \<Longrightarrow> j \<le> k \<Longrightarrow> steps h k p = 0"
  using steps_add [of h "k - j" j p] by simp

text \<open>Meeting away from \<open>NULL\<close> means that the list never ends.\<close>

lemma steps_meet:
  assumes "steps h i p = steps h j p" and "i < j" and "steps h i p \<noteq> 0"
  shows "steps h k p \<noteq> 0"
proof
  assume "steps h k p = 0"
  obtain d where d: "j = i + d" "0 < d" using assms(2) less_imp_add_positive by blast
  have rep: "steps h (i + m * d) p = steps h i p" for m
  proof (induction m)
    case (Suc m)
    have "steps h (i + Suc m * d) p = steps h d (steps h (i + m * d) p)"
      by (simp add: steps_add [symmetric] add.commute add.left_commute)
    also have "\<dots> = steps h j p" using Suc d(1) by (simp add: steps_add [symmetric] add.commute)
    finally show ?case using assms(1) by simp
  qed simp
  have "k \<le> i + k * d" using d(2) by (cases d) auto
  then have "steps h i p = 0" using steps_null_mono [OF \<open>steps h k p = 0\<close>] rep by metis
  then show False using assms(3) by simp
qed

text \<open>If the list never ends, the two pointers meet within a bounded number of rounds.\<close>

lemma endless_meet:
  assumes "closed h" and "p \<in> dom h" and "\<forall>k. steps h k p \<noteq> 0"
  shows "\<exists>i. steps h i p = steps h (2 * i + 1) p"
proof -
  have "range (\<lambda>k. steps h k p) \<subseteq> dom h"
    using steps_live [OF assms(1)] assms(2,3) by blast
  then have "\<not> inj (\<lambda>k. steps h k p)"
    using assms(1) by (metis closed_def finite_imageD infinite_UNIV_nat rev_finite_subset)
  then obtain a b where ab: "a < b" "steps h a p = steps h b p"
    by (auto simp: inj_def) (metis linorder_neqE_nat)
  define l where "l = b - a"
  have rep: "steps h (k + l) p = steps h k p" if "a \<le> k" for k
  proof -
    have "steps h (k + l) p = steps h (k - a) (steps h b p)"
      using that ab(1) by (simp add: steps_add [symmetric] l_def)
    also have "\<dots> = steps h (k - a) (steps h a p)" by (simp only: ab(2))
    finally show ?thesis using that by (simp add: steps_add [symmetric])
  qed
  have rep': "steps h (k + m * l) p = steps h k p" if "a \<le> k" for k m
    using that by (induction m) (auto simp: rep add.assoc [symmetric] add.commute [of l] )
  define i where "i = (a + 1) * l - 1"
  have "0 < l" using ab(1) by (simp add: l_def)
  then have i: "a \<le> i" "2 * i + 1 = i + (a + 1) * l"
    by (cases l; simp add: i_def)+
  have "steps h (2 * i + 1) p = steps h i p"
    unfolding i(2) by (rule rep' [OF i(1)])
  then show ?thesis by metis
qed

lemma cycle_step_moves:
  assumes "closed h" and "p \<in> dom h" and "steps h k p \<noteq> steps h (2 * k + 1) p"
    and "steps h (2 * k + 1) p \<noteq> 0" and "steps h (2 * k + 2) p \<noteq> 0"
  shows "cycle_step h (steps h k p, steps h (2 * k + 1) p) = Some (Inl (steps h (Suc k) p, steps h (2 * Suc k + 1) p))"
proof -
  have dom: "steps h j p \<in> dom h" if "steps h j p \<noteq> 0" for j
    using steps_live [OF assms(1), of p j] assms(2) that by blast
  have "steps h k p \<noteq> 0"
    using steps_null_mono [of h k p "2 * k + 1"] assms(4) by auto
  have nx: "get_next h (steps h j p) = Some (steps h (Suc j) p)" if "steps h j p \<noteq> 0" for j
    using get_next_step [OF dom [OF that]] assms(1) by (simp add: closed_def steps_simps)
  have "get_next h (steps h k p) = Some (steps h (Suc k) p)"
      "get_next h (steps h (2 * k + 1) p) = Some (steps h (2 * k + 2) p)"
      "get_next h (steps h (2 * k + 2) p) = Some (steps h (2 * Suc k + 1) p)"
    using nx [OF \<open>steps h k p \<noteq> 0\<close>] nx [OF assms(4)] nx [OF assms(5)] by simp_all
  then show ?thesis
    using assms(3-5) unfolding cycle_step_def by simp
qed

lemma cycle_loop_endless:
  assumes "closed h" and "p \<in> dom h" and "\<forall>k. steps h k p \<noteq> 0" and "k \<le> N" and "steps h N p = steps h (2 * N + 1) p"
  shows "loop (cycle_step h) (steps h k p, steps h (2 * k + 1) p) = Some True"
  using assms(4)
proof (induction "N - k" arbitrary: k rule: less_induct)
  case less
  show ?case
  proof (cases "steps h k p = steps h (2 * k + 1) p")
    case True
    then show ?thesis by (subst loop.simps) (simp add: cycle_step_def)
  next
    case False
    then have "k < N" using less.prems assms(5) by (cases "k = N") auto
    then have "loop (cycle_step h) (steps h (Suc k) p, steps h (2 * Suc k + 1) p) = Some True"
      using less.hyps [of "Suc k"] by simp
    then show ?thesis
      using cycle_step_moves [OF assms(1,2) False] assms(3) by (subst loop.simps) simp
  qed
qed

lemma cycle_loop_ends:
  assumes "closed h" and "p \<in> dom h" and "steps h K p = 0" and "steps h k p \<noteq> 0"
  shows "loop (cycle_step h) (steps h k p, steps h (2 * k + 1) p) = Some False"
  using assms(4)
proof (induction "K - k" arbitrary: k rule: less_induct)
  case less
  have ne: "steps h k p \<noteq> steps h (2 * k + 1) p"
    using steps_meet [of h k p "2 * k + 1" K] less.prems assms(3) by auto
  have nx: "get_next h (steps h (2 * k + 1) p) = Some (steps h (2 * k + 2) p)" if "steps h (2 * k + 1) p \<noteq> 0"
    using get_next_step [of "steps h (2 * k + 1) p" h] steps_live [OF assms(1), of p "2 * k + 1"] assms(1,2) that
    by (simp add: closed_def steps_simps)
  show ?case
  proof (cases "steps h (2 * k + 1) p = 0 \<or> steps h (2 * k + 2) p = 0")
    case True
    then show ?thesis
      using ne nx by (subst loop.simps) (auto simp: cycle_step_def)
  next
    case False
    have "steps h (Suc k) p \<noteq> 0"
      using False steps_null_mono [of h "Suc k" p "2 * k + 2"] by auto
    moreover have "2 * k + 2 < K"
      using False steps_null_mono [OF assms(3), of "2 * k + 2"] by (meson not_le)
    ultimately have "loop (cycle_step h) (steps h (Suc k) p, steps h (2 * Suc k + 1) p) = Some False"
      using less.hyps [of "Suc k"] by simp
    then show ?thesis
      using cycle_step_moves [OF assms(1,2) ne] False by (subst loop.simps) simp
  qed
qed

lemma hasCycle_ok:
  assumes "closed h" and "head = 0 \<or> head \<in> dom h"
  shows "hasCycle h head = Some (\<forall>k. steps h k head \<noteq> 0)"
proof (cases "head = 0")
  case True
  then show ?thesis by (simp add: hasCycle_def)
next
  case False
  then have dom: "head \<in> dom h" using assms(2) by simp
  have second: "get_next h head = Some (steps h 1 head)"
    using get_next_step [OF dom] assms(1) by (simp add: closed_def steps_def)
  have start: "loop (cycle_step h) (steps h 0 head, steps h (2 * 0 + 1) head) = Some (\<forall>k. steps h k head \<noteq> 0)"
  proof (cases "\<forall>k. steps h k head \<noteq> 0")
    case True
    then show ?thesis
      using endless_meet [OF assms(1) dom True] cycle_loop_endless [OF assms(1) dom True, of 0] by auto
  next
    case False
    then show ?thesis
      using cycle_loop_ends [OF assms(1) dom, of _ 0] \<open>head \<noteq> 0\<close> by (auto simp: steps_simps)
  qed
  show ?thesis
  proof (cases "steps h 1 head = 0")
    case True
    then show ?thesis using False second by (auto simp: hasCycle_def)
  next
    case ne: False
    then show ?thesis using False second start by (simp add: hasCycle_def steps_simps(1))
  qed
qed

section \<open>Construction and release\<close>

lemma init_linked_list_ok:
  assumes "data \<noteq> []" and "base \<noteq> 0"
  shows "\<exists>g. init_linked_list h base data (int (length data)) = Some (g, base) \<and>
    lst g base [base..<base + length data] \<and> map (val g) [base..<base + length data] = data \<and>
    (\<forall>a. a < base \<or> base + length data \<le> a \<longrightarrow> g a = h a)"
proof -
  let ?n = "length data"
  let ?P = "\<lambda>i (g, tmp). tmp = base + nat i \<and>
    (\<forall>j < nat i. g (base + j) = Some \<lparr>nd_val = data ! j, nd_next = base + j + 1\<rparr>) \<and>
    (\<forall>a. a < base \<or> base + nat i \<le> a \<longrightarrow> g a = h a)"
  have "\<exists>r. for_up 0 (int ?n - 1) (\<lambda>i (h, tmp). do {
          x \<leftarrow> rd data i;
          Some (h(tmp \<mapsto> \<lparr>nd_val = x, nd_next = tmp + 1\<rparr>), tmp + 1) }) (h, base) = Some r \<and> ?P (int ?n - 1) r"
  proof (rule for_up_total [where P = ?P])
    show "0 \<le> int ?n - 1" using assms(1) by (cases data) auto
    fix i s assume i: "0 \<le> i" "i < int ?n - 1" and P: "?P i s"
    obtain k where k: "i = int k" "k < ?n" using i by (metis nonneg_int_cases of_nat_less_iff zle_diff1_eq less_imp_le order.strict_trans1 nat_less_iff nat_int)
    have "nat (i + 1) = Suc k" using k by simp
    then show "\<exists>t. (case s of (h, tmp) \<Rightarrow> do { x \<leftarrow> rd data i;
          Some (h(tmp \<mapsto> \<lparr>nd_val = x, nd_next = tmp + 1\<rparr>), tmp + 1) }) = Some t \<and> ?P (i + 1) t"
      using k P by (auto simp: mem_simps less_Suc_eq)
  qed simp
  then obtain g tmp where r: "for_up 0 (int ?n - 1) (\<lambda>i (h, tmp). do {
          x \<leftarrow> rd data i;
          Some (h(tmp \<mapsto> \<lparr>nd_val = x, nd_next = tmp + 1\<rparr>), tmp + 1) }) (h, base) = Some (g, tmp)"
      "?P (int ?n - 1) (g, tmp)"
    by (elim exE conjE) (rename_tac r, case_tac r, simp only:)
  have n: "nat (int ?n - 1) = ?n - 1" by simp
  have g: "tmp = base + (?n - 1)"
      "\<And>j. j < ?n - 1 \<Longrightarrow> g (base + j) = Some \<lparr>nd_val = data ! j, nd_next = base + j + 1\<rparr>"
      "\<And>a. a < base \<or> base + (?n - 1) \<le> a \<Longrightarrow> g a = h a"
    using r(2) unfolding n by auto
  let ?g = "g(base + (?n - 1) \<mapsto> \<lparr>nd_val = data ! (?n - 1), nd_next = 0\<rparr>)"
  have cell: "?g (base + j) = Some \<lparr>nd_val = data ! j, nd_next = (if Suc j = ?n then 0 else base + j + 1)\<rparr>" if "j < ?n" for j
  proof (cases "Suc j = ?n")
    case True
    then have "j = ?n - 1" by simp
    then show ?thesis using True by simp
  next
    case False
    then show ?thesis using g(2) [of j] that by simp
  qed
  have "lst ?g (base + j) [base + j..<base + ?n]" if "j < ?n" for j
    using that
  proof (induction "?n - j" arbitrary: j rule: less_induct)
    case less
    have upt: "[base + j..<base + ?n] = (base + j) # [base + Suc j..<base + ?n]"
      using less.prems by (simp add: upt_conv_Cons)
    have "lst ?g (if Suc j = ?n then 0 else base + j + 1) [base + Suc j..<base + ?n]"
    proof (cases "Suc j = ?n")
      case False
      then show ?thesis using less.hyps [of "Suc j"] less.prems by simp
    qed simp
    then show ?case
      using cell [OF less.prems] assms(2) unfolding upt by (simp only: path.simps) simp
  qed
  from this [of 0] have "lst ?g base [base..<base + ?n]" using assms(1) by simp
  moreover have "map (val ?g) [base..<base + ?n] = data"
    using cell by (intro nth_equalityI) (auto simp: val_def)
  moreover have "\<forall>a. a < base \<or> base + ?n \<le> a \<longrightarrow> ?g a = h a"
    using g(3) assms(1) by (cases data) auto
  moreover have "init_linked_list h base data (int ?n) = Some (?g, base)"
  proof -
    have "rd data (int ?n - 1) = Some (data ! (?n - 1))" "\<not> int ?n < 1"
      using assms(1) by (cases data; simp add: rd_def nat_diff_distrib)+
    then show ?thesis
      unfolding init_linked_list_def r(1) using g(1) by simp
  qed
  ultimately show ?thesis by blast
qed

lemma freeList_ok: "lst h p as \<Longrightarrow> freeList h p = Some (\<lambda>a. if a \<in> set as then None else h a)"
proof (induction as arbitrary: h p)
  case Nil
  then show ?case unfolding freeList_def by (subst loop.simps) simp
next
  case (Cons a as)
  then obtain n where n: "p = a" "a \<noteq> 0" "h a = Some n" "lst h (nd_next n) as" by auto
  have "a \<notin> set as" using lst_distinct [OF Cons.prems] by simp
  then have "lst (h(a := None)) (nd_next n) as" using n(4) by simp
  then have "freeList (h(a := None)) (nd_next n) = Some (\<lambda>x. if x \<in> set as then None else (h(a := None)) x)"
    by (rule Cons.IH)
  moreover have "freeList h p = freeList (h(a := None)) (nd_next n)"
    unfolding freeList_def using n by (subst loop.simps) (simp add: get_next_def)
  ultimately show ?case by (auto simp: fun_eq_iff)
qed

section \<open>Properties\<close>

text \<open>
  Each of the three bodies of \<open>reverse\<close> ends, reverses the list in place and leaves values and
  all other nodes as they are; the three leave the same heap.
\<close>

theorem reverse_correct:
  assumes "lst h p as"
  shows "\<exists>g q. reverse h p = Some (g, q) \<and> reverse_M1 h p = Some (g, q) \<and> reverse_M2 h p = Some (g, q) \<and>
    lst g q (rev as) \<and> relinked (set as) h g"
proof -
  obtain g q where g: "reverse h p = Some (g, q)" "lst g q (rev as)" "relinked (set as) h g"
    using reverse_ok [OF assms] by blast
  obtain k r where k: "reverse_M1 h p = Some (k, r)" "lst k r (rev as)" "relinked (set as) h k"
    using reverse_M1_ok [OF assms] by blast
  have "q = r" using g(2) k(2) by (cases "rev as") auto
  then have "g = k" using relinked_unique [OF g(3) k(3) g(2)] k(2) by simp
  then show ?thesis using g k \<open>q = r\<close> by (simp add: reverse_M2_eq)
qed

definition sample_heap :: nheap where
  "sample_heap = [8 \<mapsto> \<lparr>nd_val = 5, nd_next = 16\<rparr>, 16 \<mapsto> \<lparr>nd_val = 3, nd_next = 24\<rparr>, 24 \<mapsto> \<lparr>nd_val = 4, nd_next = 0\<rparr>]"

lemma sample_heap_lst: "lst sample_heap 8 [8, 16, 24]"
  by (simp add: sample_heap_def)

theorem reverse_correct_witness: "\<exists>g q. reverse sample_heap 8 = Some (g, q) \<and> lst g q [24, 16, 8]"
  using reverse_correct [OF sample_heap_lst] by auto

text \<open>
  C34: \<open>merge_sort\<close> ends on every list that reaches \<open>NULL\<close> and relinks its nodes, and nothing
  else, into their stable sort by value.
\<close>

theorem merge_sort_correct:
  assumes "lst h p as"
  shows "\<exists>g r. merge_sort h p = Some (g, r) \<and> lst g r (sort_key (val h) as) \<and> relinked (set as) h g"
  using assms by (rule merge_sort_ok)

theorem merge_sort_correct_witness: "\<exists>g r. merge_sort sample_heap 8 = Some (g, r) \<and> lst g r [16, 24, 8]"
proof -
  have "sort_key (val sample_heap) [8, 16, 24] = [16, 24, 8]"
    by (simp add: sample_heap_def val_def)
  then show ?thesis
    using merge_sort_correct [OF sample_heap_lst] by auto
qed

text \<open>
  The iterative merge, with its dummy head and tail pointer, gives the same list head and the
  same heap as the recursive one, for any two disjoint lists.
\<close>

theorem merge_by_loop_is_recursive:
  assumes "lst h p as" and "lst h q bs" and "set as \<inter> set bs = {}"
  shows "merge_by_loop h p q = merge_by_recursive h p q"
  using assms by (rule merge_by_loop_eq)

theorem merge_by_loop_is_recursive_witness: "merge_by_loop sample_heap 8 0 = merge_by_recursive sample_heap 8 0"
  by (rule merge_by_loop_is_recursive [OF sample_heap_lst, of 0 "[]"]) simp_all

text \<open>
  \<open>hasCycle\<close> ends on every well-formed heap, cyclic or not, and answers true exactly when
  following the links from the head never reaches \<open>NULL\<close>.
\<close>

theorem hasCycle_correct:
  assumes "closed h" and "head = 0 \<or> head \<in> dom h"
  shows "hasCycle h head = Some (\<forall>k. steps h k head \<noteq> 0)"
  using assms by (rule hasCycle_ok)

definition sample_cycle :: nheap where
  "sample_cycle = sample_heap(24 \<mapsto> \<lparr>nd_val = 4, nd_next = 16\<rparr>)"

theorem hasCycle_correct_witness: "\<forall>k. steps sample_cycle k 8 \<noteq> 0"
proof -
  have "closed sample_cycle"
    by (auto simp: closed_def sample_cycle_def sample_heap_def split: if_splits)
  moreover have "(8::nat) = 0 \<or> 8 \<in> dom sample_cycle"
    by (simp add: sample_cycle_def sample_heap_def)
  moreover have "hasCycle sample_cycle 8 = Some True"
    by code_simp
  ultimately show ?thesis
    using hasCycle_correct [of sample_cycle 8] by simp
qed

end
