(* ===== verification/RingBuffer.thy ===== *)
theory RingBuffer
  imports Interfaces Arrays
begin

text \<open>
  The ring buffer of C/rudp_self/ring_buffer.c: the receive and send buffers of the reliable
  datagram protocol. One cell always stays free, so that a full buffer differs from an empty one;
  a write takes what fits and a read delivers what is there. The theory shows that the buffer is a
  bounded byte stream.
\<close>

section \<open>The program\<close>

record ringbuffer =
  rb_size :: int
  wr_point :: int
  rd_point :: int
  rb_buffer :: bytes

text \<open>\<open>assert(size > 0)\<close> stops the program otherwise: no result. The allocation, which is not checked, is taken to succeed.\<close>

definition ringbuff_init :: "int \<Rightarrow> ringbuffer option" where
  "ringbuff_init n =
     (if 0 < n then Some \<lparr>rb_size = n, wr_point = 0, rd_point = 0, rb_buffer = replicate (nat n) 0\<rparr> else None)"

definition ringbuff_data_size :: "ringbuffer \<Rightarrow> int" where
  "ringbuff_data_size rb =
     (let n = wr_point rb - rd_point rb in if 0 \<le> n then n else n + rb_size rb)"

definition ringbuff_free_size :: "ringbuffer \<Rightarrow> int" where
  "ringbuff_free_size rb = rb_size rb - 1 - ringbuff_data_size rb"

definition is_ringbuff_full :: "ringbuffer \<Rightarrow> bool" where
  "is_ringbuff_full rb \<longleftrightarrow> ringbuff_data_size rb = rb_size rb - 1"

definition is_ringbuff_empty :: "ringbuffer \<Rightarrow> bool" where
  "is_ringbuff_empty rb \<longleftrightarrow> wr_point rb = rd_point rb"

definition ringbuff_write :: "ringbuffer \<Rightarrow> bytes \<Rightarrow> int \<Rightarrow> (int \<times> ringbuffer) option" where
  "ringbuff_write rb buff len = do {
     let free_size = ringbuff_free_size rb;
     let len = (if free_size < len then free_size else len);
     let point = wr_point rb;
     n \<leftarrow> chk32 (point + len);
     if rb_size rb - 1 < n then do {
       let firstpart_len = rb_size rb - point;
       b \<leftarrow> mcpy (rb_buffer rb) point buff 0 firstpart_len;
       let len = len - firstpart_len;
       b \<leftarrow> mcpy b 0 buff firstpart_len len;
       Some (firstpart_len + len, rb\<lparr>rb_buffer := b, wr_point := len\<rparr>) }
     else do {
       b \<leftarrow> mcpy (rb_buffer rb) point buff 0 len;
       Some (len, rb\<lparr>rb_buffer := b, wr_point := point + len\<rparr>) } }"

text \<open>\<open>ringbuff_read\<close> returns the caller's buffer as well.\<close>

definition ringbuff_read :: "ringbuffer \<Rightarrow> bytes \<Rightarrow> int \<Rightarrow> (int \<times> bytes \<times> ringbuffer) option" where
  "ringbuff_read rb buff len = do {
     let data_size = ringbuff_data_size rb;
     let len = (if data_size < len then data_size else len);
     let point = rd_point rb;
     n \<leftarrow> chk32 (point + len);
     if rb_size rb - 1 < n then do {
       let firstpart_len = rb_size rb - point;
       buff \<leftarrow> mcpy buff 0 (rb_buffer rb) point firstpart_len;
       let len = len - firstpart_len;
       buff \<leftarrow> mcpy buff firstpart_len (rb_buffer rb) 0 len;
       Some (firstpart_len + len, buff, rb\<lparr>rd_point := len\<rparr>) }
     else do {
       buff \<leftarrow> mcpy buff 0 (rb_buffer rb) point len;
       Some (len, buff, rb\<lparr>rd_point := point + len\<rparr>) } }"

text \<open>The cells that \<open>ringbuff_dump\<close> prints; the others stay blank.\<close>

definition dump_shows :: "ringbuffer \<Rightarrow> int \<Rightarrow> bool" where
  "dump_shows rb i \<longleftrightarrow> \<not> is_ringbuff_empty rb \<and>
     \<not> (rd_point rb < wr_point rb \<and> wr_point rb \<le> i \<or>
        rd_point rb < wr_point rb \<and> i < rd_point rb \<or>
        wr_point rb < rd_point rb \<and> i < rd_point rb \<and> wr_point rb \<le> i)"

definition ringbuff_dump :: "ringbuffer \<Rightarrow> (int \<times> u8 option) list" where
  "ringbuff_dump rb =
     map (\<lambda>i. (i, if dump_shows rb i
                  then Some (let c = rb_buffer rb ! nat i in if c = 0 then 42 else c) else None))
       [0..rb_size rb - 1]"

section \<open>The bytes a ring buffer holds\<close>

definition ring_abs :: "ringbuffer \<Rightarrow> bytes" where
  "ring_abs rb = (let r = nat (rd_point rb); w = nat (wr_point rb); b = rb_buffer rb in
     if r \<le> w then take (w - r) (drop r b) else drop r b @ take w b)"

text \<open>The indices are added as \<open>int\<close>, hence the bound on the size.\<close>

definition ring_ok :: "nat \<Rightarrow> ringbuffer \<Rightarrow> bool" where
  "ring_ok cap rb \<longleftrightarrow> rb_size rb = int cap + 1 \<and> cap < 2 ^ 30 \<and> length (rb_buffer rb) = Suc cap \<and>
     0 \<le> wr_point rb \<and> wr_point rb \<le> int cap \<and> 0 \<le> rd_point rb \<and> rd_point rb \<le> int cap"

lemma ringbuff_init_ok:
  assumes "0 < n" and "n \<le> 2 ^ 30"
  shows "\<exists>rb. ringbuff_init n = Some rb \<and> ring_ok (nat (n - 1)) rb \<and> ring_abs rb = []"
  using assms by (auto simp: ringbuff_init_def ring_ok_def ring_abs_def)

lemma ring_data_size: "ring_ok cap rb \<Longrightarrow> ringbuff_data_size rb = int (length (ring_abs rb))"
  by (auto simp: ring_ok_def ring_abs_def ringbuff_data_size_def Let_def)

lemma ring_free_size: "ring_ok cap rb \<Longrightarrow> ringbuff_free_size rb = int (cap - length (ring_abs rb))"
  by (auto simp: ring_ok_def ring_abs_def ringbuff_free_size_def ringbuff_data_size_def Let_def)

lemma ring_abs_bounded: "ring_ok cap rb \<Longrightarrow> length (ring_abs rb) \<le> cap"
  by (auto simp: ring_ok_def ring_abs_def Let_def)

lemma ring_empty_iff: "ring_ok cap rb \<Longrightarrow> is_ringbuff_empty rb \<longleftrightarrow> ring_abs rb = []"
  by (auto simp: ring_ok_def ring_abs_def is_ringbuff_empty_def Let_def)

lemma ring_full_iff: "ring_ok cap rb \<Longrightarrow> is_ringbuff_full rb \<longleftrightarrow> length (ring_abs rb) = cap"
  by (simp add: is_ringbuff_full_def ring_data_size) (simp add: ring_ok_def)

text \<open>The cells of a ring as natural numbers.\<close>

lemma ring_cases:
  assumes "ring_ok cap rb"
  obtains r w b where "rb = \<lparr>rb_size = int cap + 1, wr_point = int w, rd_point = int r, rb_buffer = b\<rparr>"
    and "r \<le> cap" and "w \<le> cap" and "length b = Suc cap" and "cap < 2 ^ 30"
proof (rule that)
  show "rb = \<lparr>rb_size = int cap + 1, wr_point = int (nat (wr_point rb)), rd_point = int (nat (rd_point rb)), rb_buffer = rb_buffer rb\<rparr>"
    using assms by (simp add: ring_ok_def)
qed (use assms in \<open>auto simp: ring_ok_def\<close>)

lemma ring_write_ok:
  assumes "ring_ok cap rb" and "n < 2 ^ 30" and "n \<le> length xs"
    and k: "k = min n (cap - length (ring_abs rb))"
  shows "\<exists>t. ringbuff_write rb xs (int n) = Some (int k, t) \<and> ring_ok cap t \<and> ring_abs t = ring_abs rb @ take k xs"
proof -
  obtain r w b where rb: "rb = \<lparr>rb_size = int cap + 1, wr_point = int w, rd_point = int r, rb_buffer = b\<rparr>"
    and le: "r \<le> cap" "w \<le> cap" "length b = Suc cap" "cap < 2 ^ 30"
    using ring_cases [OF assms(1)] .
  have len: "(if ringbuff_free_size rb < int n then ringbuff_free_size rb else int n) = int k"
    by (simp add: ring_free_size [OF assms(1)] k min_def)
  have k_le: "k \<le> n" "k \<le> length xs" "k \<le> cap - length (ring_abs rb)"
    using assms(3) by (simp_all add: k)
  have chk: "chk32 (int w + int k) = Some (int w + int k)"
    using le assms(2) k_le by (intro chk32_in) auto
  show ?thesis
  proof (cases "cap < w + k")
    case True
    define f where "f = Suc cap - w"
    define m where "m = k - f"
    have nums: "k = f + m" "w + f = Suc cap" "m < r" "r \<le> w" "f + m \<le> length xs"
      using True le k_le by (auto simp: f_def m_def rb ring_abs_def Let_def split: if_splits)
    have sub: "int cap + 1 - int w = int f" "int k - int f = int m" "int cap < int w + int k" "int f + int m = int k"
      using nums by linarith+
    have c1: "mcpy b (int w) xs 0 (int f) = Some (take w b @ take f xs)"
      using mcpy_nat [of w f b 0 xs] nums le by simp
    have c2: "mcpy (take w b @ take f xs) 0 xs (int f) (int m) = Some (take m (drop f xs) @ drop m (take w b @ take f xs))"
      using mcpy_nat [of 0 m "take w b @ take f xs" f xs] nums le by simp
    have "ringbuff_write rb xs (int n) =
        Some (int k, rb\<lparr>wr_point := int m, rb_buffer := take m (drop f xs) @ drop m (take w b @ take f xs)\<rparr>)"
      by (simp only: ringbuff_write_def Let_def len) (simp add: rb chk sub c1 c2)
    moreover obtain X where X: "take m (drop f xs) = X" "length X = m" "take k xs = take f xs @ X"
      using nums by (simp add: take_add)
    ultimately show ?thesis
      using nums le by (simp add: rb ring_ok_def ring_abs_def Let_def drop_take)
  next
    case False
    have c: "mcpy b (int w) xs 0 (int k) = Some (take w b @ take k xs @ drop (w + k) b)"
      using mcpy_nat [of w k b 0 xs] False le k_le by simp
    have "ringbuff_write rb xs (int n) =
        Some (int k, rb\<lparr>wr_point := int (w + k), rb_buffer := take w b @ take k xs @ drop (w + k) b\<rparr>)"
      using False by (simp only: ringbuff_write_def Let_def len) (simp add: rb chk c)
    moreover have "w + k < r" if "w < r"
      using that k_le le by (auto simp: rb ring_abs_def Let_def)
    moreover have "drop r (take w b @ take k xs @ drop (w + k) b) = drop r b" if "w + k < r"
      using that k_le le by simp
    moreover have "take (w + k - r) (drop r (take w b @ take k xs @ drop (w + k) b)) = take (w - r) (drop r b) @ take k xs" if "r \<le> w"
      using that k_le le False by (simp add: drop_take)
    ultimately show ?thesis
      using False le k_le nat_int_add [of w k] by (cases "r \<le> w") (simp_all add: rb ring_ok_def ring_abs_def Let_def)
  qed
qed

lemma ring_read_ok:
  assumes "ring_ok cap rb" and "n \<le> length out" and "n < 2 ^ 30"
    and k: "k = min n (length (ring_abs rb))"
  shows "\<exists>t. ringbuff_read rb out (int n) = Some (int k, take k (ring_abs rb) @ drop k out, t) \<and> ring_ok cap t
     \<and> ring_abs t = drop k (ring_abs rb)"
proof -
  obtain r w b where rb: "rb = \<lparr>rb_size = int cap + 1, wr_point = int w, rd_point = int r, rb_buffer = b\<rparr>"
    and le: "r \<le> cap" "w \<le> cap" "length b = Suc cap" "cap < 2 ^ 30"
    using ring_cases [OF assms(1)] .
  have len: "(if ringbuff_data_size rb < int n then ringbuff_data_size rb else int n) = int k"
    by (simp add: ring_data_size [OF assms(1)] k min_def)
  have k_le: "k \<le> n" "k \<le> length (ring_abs rb)"
    by (simp_all add: k)
  have chk: "chk32 (int r + int k) = Some (int r + int k)"
    using le assms(3) k_le by (intro chk32_in) auto
  show ?thesis
  proof (cases "cap < r + k")
    case True
    define f where "f = Suc cap - r"
    define m where "m = k - f"
    have nums: "k = f + m" "r + f = Suc cap" "m \<le> w" "w < r" "f + m \<le> length out"
      using True le k_le assms(2) by (auto simp: f_def m_def rb ring_abs_def Let_def split: if_splits)
    have sub: "int cap + 1 - int r = int f" "int k - int f = int m" "int cap < int r + int k" "int f + int m = int k"
      and f: "Suc cap - r = f"
      using nums by linarith+
    have c1: "mcpy out 0 b (int r) (int f) = Some (drop r b @ drop f out)"
      using mcpy_nat [of 0 f out r b] nums le by simp
    have c2: "mcpy (drop r b @ drop f out) (int f) b 0 (int m) = Some (drop r b @ take m b @ drop k out)"
      using mcpy_nat [of f m "drop r b @ drop f out" 0 b] nums(3,5) le f by (simp add: nums(1) add.commute)
    have "ringbuff_read rb out (int n) = Some (int k, drop r b @ take m b @ drop k out, rb\<lparr>rd_point := int m\<rparr>)"
      by (simp only: ringbuff_read_def Let_def len) (simp add: rb chk sub c1 c2)
    moreover have "f + m + r - Suc cap = m" "Suc (w + cap) - (f + m + r) = w - m"
      using nums by linarith+
    ultimately show ?thesis
      using nums le by (auto simp: rb ring_ok_def ring_abs_def Let_def drop_take)
  next
    case False
    have c: "mcpy out 0 b (int r) (int k) = Some (take k (drop r b) @ drop k out)"
      using mcpy_nat [of 0 k out r b] False le k_le assms(2) by simp
    have "ringbuff_read rb out (int n) = Some (int k, take k (drop r b) @ drop k out, rb\<lparr>rd_point := int (r + k)\<rparr>)"
      using False by (simp only: ringbuff_read_def Let_def len) (simp add: rb chk c)
    moreover have "k + r \<le> w" if "r \<le> w"
      using that k_le by (auto simp: rb ring_abs_def)
    ultimately show ?thesis
      using False le k_le nat_int_add [of k r] by (cases "r \<le> w") (simp_all add: rb ring_ok_def ring_abs_def Let_def drop_take add.commute)
  qed
qed

section \<open>The ring buffer is a bounded byte stream\<close>

text \<open>A read into a fresh buffer of \<open>n\<close> bytes, and what it delivers.\<close>

definition ring_reads :: "ringbuffer \<Rightarrow> nat \<Rightarrow> (bytes \<times> ringbuffer) option" where
  "ring_reads rb n = do {
     (k, out, rb) \<leftarrow> ringbuff_read rb (replicate n 0) (int n);
     Some (take (nat k) out, rb) }"

definition ring_writes :: "ringbuffer \<Rightarrow> bytes \<Rightarrow> (int \<times> ringbuffer) option" where
  "ring_writes rb xs = ringbuff_write rb xs (int (length xs))"

text \<open>Lengths are \<open>int\<close>, so a single transfer stays below \<open>2 ^ 30\<close> bytes.\<close>

definition short_read :: "nat \<Rightarrow> bool" where
  "short_read n \<longleftrightarrow> n < 2 ^ 30"

interpretation ring: stream ring_ok ring_abs ring_writes ring_reads "\<lambda>xs. length xs < 2 ^ 30" short_read
proof
  fix cap :: nat and s :: ringbuffer and xs :: bytes and k :: nat
  assume "ring_ok cap s" "length xs < 2 ^ 30" "k = min (length xs) (cap - length (ring_abs s))"
  then show "\<exists>t. ring_writes s xs = Some (int k, t) \<and> ring_ok cap t \<and> ring_abs t = ring_abs s @ take k xs"
    unfolding ring_writes_def by (intro ring_write_ok) simp_all
next
  fix cap :: nat and s :: ringbuffer and n :: nat
  assume "ring_ok cap s" "short_read n"
  then show "\<exists>t. ring_reads s n = Some (take n (ring_abs s), t) \<and> ring_ok cap t \<and> ring_abs t = drop n (ring_abs s)"
    using ring_read_ok [of cap s n "replicate n 0", OF _ _ _ refl]
    by (auto simp: ring_reads_def short_read_def min_def)
qed

text \<open>What \<open>ringbuff_dump\<close> shows: the bytes of the buffer in the cells from the read point on.\<close>

lemma dump_shows_data:
  assumes "ring_ok cap rb" and "0 \<le> i" and "i \<le> int cap"
  shows "dump_shows rb i \<longleftrightarrow> (i - rd_point rb) mod rb_size rb < ringbuff_data_size rb"
proof -
  obtain r w b where rb: "rb = \<lparr>rb_size = int cap + 1, wr_point = int w, rd_point = int r, rb_buffer = b\<rparr>"
    and le: "r \<le> cap" "w \<le> cap"
    using ring_cases [OF assms(1)] by metis
  have "(i - int r) mod (int cap + 1) = (if int r \<le> i then i - int r else i - int r + (int cap + 1))"
    using assms le mod_add_self2 [of "i - int r" "int cap + 1"] by (auto simp: mod_pos_pos_trivial simp del: mod_add_self2)
  then show ?thesis
    using assms le by (auto simp: rb dump_shows_def is_ringbuff_empty_def ringbuff_data_size_def Let_def)
qed

text \<open>
  C29: the ring buffer is a bounded first-in-first-out byte stream. After \<open>ringbuff_init(n)\<close> every
  sequence of writes and reads, of any lengths below \<open>2 ^ 30\<close>, stays inside the buffer; a write
  takes exactly what fits in \<open>n - 1\<close> bytes and answers its length, a read delivers the oldest bytes,
  and the bytes read together with the ones left are those that were accepted, in order.
\<close>

theorem ring_buffer_is_stream:
  assumes "0 < n" and "n \<le> 2 ^ 30"
    and "\<And>xs. Write xs \<in> set ops \<Longrightarrow> length xs < 2 ^ 30" and "\<And>k. Read k \<in> set ops \<Longrightarrow> k < 2 ^ 30"
  shows "\<exists>rb rs rb'. ringbuff_init n = Some rb \<and> stream_exec ring_writes ring_reads ops rb = Some (rs, rb')
    \<and> (rs, ring_abs rb') = stream_spec (nat (n - 1)) ops []
    \<and> delivered rs @ ring_abs rb' = taken ops rs \<and> length (ring_abs rb') \<le> nat (n - 1)
    \<and> ringbuff_data_size rb' = int (length (ring_abs rb'))"
proof -
  obtain rb where rb: "ringbuff_init n = Some rb" "ring_ok (nat (n - 1)) rb" "ring_abs rb = []"
    using ringbuff_init_ok [OF assms(1,2)] by blast
  obtain rb' where rb': "stream_exec ring_writes ring_reads ops rb = Some (fst (stream_spec (nat (n - 1)) ops []), rb')"
    "ring_ok (nat (n - 1)) rb'" "ring_abs rb' = snd (stream_spec (nat (n - 1)) ops [])"
    using ring.stream_refines [OF rb(2), of ops] assms(3,4) rb(3) by (auto simp: short_read_def)
  then show ?thesis
    using rb stream_spec_fifo [of "nat (n - 1)" ops "[]"] stream_spec_bounded [of "nat (n - 1)" ops "[]"] ring_data_size [OF rb'(2)]
    by (metis append_Nil le0 list.size(3) prod.collapse)
qed

theorem ring_buffer_is_stream_witness:
  "\<exists>rb rs rb'. ringbuff_init 3 = Some rb \<and> stream_exec ring_writes ring_reads [Write [1, 2, 3], Read 1, Write [4]] rb = Some (rs, rb')
    \<and> rs = [Accepted 2, Delivered [1], Accepted 1] \<and> ring_abs rb' = [2, 4]"
proof -
  have "length xs < 2 ^ 30" if "Write xs \<in> set [Write [1, 2, 3 :: u8], Read 1, Write [4]]" for xs
    using that by auto
  then show ?thesis
    using ring_buffer_is_stream [of 3 "[Write [1, 2, 3], Read 1, Write [4]]"]
    by (auto simp: Let_def simp del: stream_exec.simps)
qed

end
