(* ===== verification/Rudp.thy ===== *)
theory Rudp
  imports RingBuffer Loops
begin

text \<open>
  The reliable datagram protocol of C/rudp_self/protocol.c: segmentation of the send buffer, the
  send and flight queues, retransmission, acknowledgements and the receiver. The packet queues are
  HOL lists from the first to the last node (theory \<open>DList\<close> shows that the list functions insert
  and remove like that). The two workers are functions for one round of their loop; what the code
  hands to \<open>sendto\<close> is appended to \<open>sent\<close>. The clock is the parameter \<open>clk\<close>, read once per call of
  \<open>get_current\<close>. The threads share the state without a lock; a data race is not modelled: a round,
  a call of \<open>rdt_send\<close> and a call of \<open>rdt_recv\<close> are atomic steps here.
\<close>

section \<open>State\<close>

datatype rdt_cmd = RDT_CMD_NULL | RDT_CMD_ACK | RDT_CMD_SEND | RDT_CMD_TEST

text \<open>A field that \<open>malloc\<close> leaves uninitialised is \<open>None\<close>.\<close>

record packet =
  pk_cmd :: rdt_cmd
  pk_size :: int
  pk_len :: int
  pk_seq :: "u32 option"
  pk_ack :: "u32 option"
  pk_ts :: u32
  pk_data :: bytes

definition sizeof_packet :: int where "sizeof_packet = 56"
definition RDT_MTU :: int where "RDT_MTU = 1024"
definition SEQ_NUM_MAX :: int where "SEQ_NUM_MAX = 4294967295"
definition MAX_PROTOCOL_BUFF_LEN :: int where "MAX_PROTOCOL_BUFF_LEN = 4 * 1024 * 1024"
definition RDT_WINDOW_SIZE :: u32 where "RDT_WINDOW_SIZE = 10"
definition PACKET_EXPIRE_TIME :: u32 where "PACKET_EXPIRE_TIME = 100"
definition PACKET_RESEND_RETRY_MAX :: int where "PACKET_RESEND_RETRY_MAX = 10"

text \<open>
  \<open>blame\<close> is the global \<open>blame_packet_for_expire\<close>; \<open>clock_reads\<close> counts the calls of \<open>get_current\<close>.

  \<open>unack_block\<close> belongs to the C library and never changes: the number of bytes that can be used of a block
  that \<open>malloc(sizeof(unack))\<close> returns. \<open>flush_queue\<close> asks for the 8 bytes of a pointer there and stores an
  \<open>unack_t\<close> in the block, of which it writes \<open>UNACK_BYTES\<close>: the two links of the list node and the number.
\<close>

definition UNACK_BYTES :: nat where "UNACK_BYTES = 20"

record rdt =
  mtu :: int
  resend_retry :: int
  current :: u32
  current_send_seq :: u32
  wnd_size :: u32
  send_wnd_base :: u32
  send_queue :: "packet list"
  flight_send_queue :: "packet list"
  unack_list :: "u32 list"
  send_buffer :: ringbuffer
  recv_buffer :: ringbuffer
  blame :: u32
  clock_reads :: nat
  sent :: "packet list"
  unack_block :: nat

text \<open>\<open>rand\<close> is the answer of \<open>rand()\<close>; the two threads that \<open>create_rdt\<close> starts are the worker
  rounds below.\<close>

definition create_rdt :: "nat \<Rightarrow> int \<Rightarrow> rdt option" where
  "create_rdt block rand = do {
     sb \<leftarrow> ringbuff_init MAX_PROTOCOL_BUFF_LEN;
     rb \<leftarrow> ringbuff_init MAX_PROTOCOL_BUFF_LEN;
     r \<leftarrow> cmod rand SEQ_NUM_MAX;
     let seq = word_of_int r + 1;
     Some \<lparr>mtu = RDT_MTU, resend_retry = 0, current = 0, current_send_seq = seq, wnd_size = RDT_WINDOW_SIZE,
       send_wnd_base = seq, send_queue = [], flight_send_queue = [], unack_list = [],
       send_buffer = sb, recv_buffer = rb, blame = 0, clock_reads = 0, sent = [], unack_block = block\<rparr> }"

section \<open>Sending\<close>

definition time_diff :: "u32 \<Rightarrow> u32 \<Rightarrow> u32" where
  "time_diff now past = now - past"

definition get_current :: "(nat \<Rightarrow> u32) \<Rightarrow> rdt \<Rightarrow> u32 \<times> rdt" where
  "get_current clk rdt = (clk (clock_reads rdt), rdt\<lparr>clock_reads := Suc (clock_reads rdt)\<rparr>)"

definition get_and_update_current :: "(nat \<Rightarrow> u32) \<Rightarrow> rdt \<Rightarrow> u32 \<times> rdt" where
  "get_and_update_current clk rdt = (let (t, rdt) = get_current clk rdt in (t, rdt\<lparr>current := t\<rparr>))"

text \<open>\<open>x = ++ x % SEQ_NUM_MAX\<close>, where the increment is one of \<open>u_int32_t\<close> and the remainder is taken
  in \<open>long\<close>.\<close>

definition next_seq :: "u32 \<Rightarrow> u32" where
  "next_seq s = word_of_int (uint (s + 1) mod SEQ_NUM_MAX)"

definition get_and_update_seq :: "rdt \<Rightarrow> u32 \<times> rdt" where
  "get_and_update_seq rdt = (current_send_seq rdt, rdt\<lparr>current_send_seq := next_seq (current_send_seq rdt)\<rparr>)"

definition make_packet :: "(nat \<Rightarrow> u32) \<Rightarrow> rdt \<Rightarrow> bytes option \<Rightarrow> int \<Rightarrow> rdt_cmd \<Rightarrow> (packet \<times> rdt) option" where
  "make_packet clk rdt buff len cmd = do {
     let (ts, rdt) = get_and_update_current clk rdt;
     let (seq, rdt) = (if cmd = RDT_CMD_SEND then let (s, rdt) = get_and_update_seq rdt in (Some s, rdt) else (None, rdt));
     data \<leftarrow> (case buff of None \<Rightarrow> Some [] | Some b \<Rightarrow> mcpy (replicate (nat len) 0) 0 b 0 len);
     Some (\<lparr>pk_cmd = cmd, pk_size = sizeof_packet + len, pk_len = len, pk_seq = seq, pk_ack = None, pk_ts = ts,
            pk_data = data\<rparr>, rdt) }"

text \<open>\<open>flush_buffer\<close> moves the bytes of the send buffer into packets at the front of the send queue;
  the bytes of its stack buffer that \<open>ringbuff_read\<close> did not write are never read.\<close>

definition flush_round :: "(nat \<Rightarrow> u32) \<Rightarrow> rdt \<times> bytes \<Rightarrow> (rdt \<times> bytes + rdt) option" where
  "flush_round clk = (\<lambda>(rdt, buff). do {
     (numbytes, buff, sb) \<leftarrow> ringbuff_read (send_buffer rdt) buff (mtu rdt);
     let rdt = rdt\<lparr>send_buffer := sb\<rparr>;
     if 0 < numbytes then do {
       (packet, rdt) \<leftarrow> make_packet clk rdt (Some buff) numbytes RDT_CMD_SEND;
       Some (Inl (rdt\<lparr>send_queue := packet # send_queue rdt\<rparr>, buff)) }
     else Some (Inr rdt) })"

definition flush_buffer :: "(nat \<Rightarrow> u32) \<Rightarrow> rdt \<Rightarrow> rdt option" where
  "flush_buffer clk rdt = loop (flush_round clk) (rdt, replicate (nat (mtu rdt)) 0)"

fun insert_to_unack_list :: "u32 list \<Rightarrow> u32 \<Rightarrow> u32 list" where
  "insert_to_unack_list [] seq = [seq]"
| "insert_to_unack_list (s # ss) seq = (if seq < s then seq # s # ss else s # insert_to_unack_list ss seq)"

definition udt_send :: "rdt \<Rightarrow> packet \<Rightarrow> rdt" where
  "udt_send rdt p = rdt\<lparr>sent := sent rdt @ [p]\<rparr>"

text \<open>
  One packet, taken from the tail of the send queue; a SEND packet has its number. A block in which
  the entry of the list of unacknowledged numbers does not fit is overrun: undefined.
\<close>

definition queue_round :: "rdt \<Rightarrow> (rdt + rdt) option" where
  "queue_round rdt =
     (if send_queue rdt = [] then Some (Inr rdt)
      else do {
        let packet = last (send_queue rdt);
        let rdt = rdt\<lparr>send_queue := butlast (send_queue rdt)\<rparr>;
        rdt \<leftarrow> (if pk_cmd packet = RDT_CMD_SEND then do {
                   let rdt = rdt\<lparr>flight_send_queue := packet # flight_send_queue rdt\<rparr>;
                   seq \<leftarrow> pk_seq packet;
                   if UNACK_BYTES \<le> unack_block rdt
                   then Some (rdt\<lparr>unack_list := insert_to_unack_list (unack_list rdt) seq\<rparr>) else None }
                 else Some rdt);
        Some (Inl (udt_send rdt packet)) })"

definition flush_queue :: "rdt \<Rightarrow> rdt option" where
  "flush_queue rdt =
     (let last_wnd = send_wnd_base rdt + wnd_size rdt - 1 in
      if last_wnd < current_send_seq rdt then Some rdt
      else loop queue_round rdt)"

text \<open>\<open>resend_expire_packet\<close> walks over the flight queue; \<open>Inl e\<close> is \<open>exit(e)\<close>.\<close>

fun resend_loop :: "(nat \<Rightarrow> u32) \<Rightarrow> rdt \<Rightarrow> packet list \<Rightarrow> packet list \<Rightarrow> (int + rdt) option" where
  "resend_loop clk rdt passed [] = Some (Inr (rdt\<lparr>flight_send_queue := passed\<rparr>))"
| "resend_loop clk rdt passed (p # ps) =
     (let (now, rdt) = get_current clk rdt in
      if PACKET_EXPIRE_TIME < time_diff now (pk_ts p) then do {
        let (ts, rdt) = get_and_update_current clk rdt;
        let p = p\<lparr>pk_ts := ts\<rparr>;
        let rdt = udt_send rdt p;
        seq \<leftarrow> pk_seq p;
        let rdt = (if blame rdt = 0 then rdt\<lparr>blame := seq\<rparr> else rdt);
        if blame rdt \<noteq> 0 \<and> blame rdt = seq then
          let rdt = rdt\<lparr>resend_retry := resend_retry rdt + 1\<rparr> in
          if PACKET_RESEND_RETRY_MAX < resend_retry rdt then Some (Inl (-1))
          else resend_loop clk rdt (passed @ [p]) ps
        else resend_loop clk rdt (passed @ [p]) ps }
      else resend_loop clk rdt (passed @ [p]) ps)"

definition resend_expire_packet :: "(nat \<Rightarrow> u32) \<Rightarrow> rdt \<Rightarrow> (int + rdt) option" where
  "resend_expire_packet clk rdt = resend_loop clk rdt [] (flight_send_queue rdt)"

text \<open>One round of \<open>send_worker_thread\<close>.\<close>

definition send_worker :: "(nat \<Rightarrow> u32) \<Rightarrow> rdt \<Rightarrow> (int + rdt) option" where
  "send_worker clk rdt = do {
     rdt \<leftarrow> flush_buffer clk rdt;
     rdt \<leftarrow> (if send_queue rdt \<noteq> [] then flush_queue rdt else Some rdt);
     resend_expire_packet clk rdt }"

section \<open>Receiving\<close>

fun find_packet :: "packet list \<Rightarrow> u32 \<Rightarrow> nat option" where
  "find_packet [] ack = None"
| "find_packet (p # ps) ack = (if pk_seq p = Some ack then Some 0 else map_option Suc (find_packet ps ack))"

definition list_unlink :: "'a list \<Rightarrow> nat \<Rightarrow> 'a list" where
  "list_unlink xs i = take i xs @ drop (Suc i) xs"

definition recv_ack :: "rdt \<Rightarrow> u32 \<Rightarrow> rdt" where
  "recv_ack rdt ack =
     (case find_packet (flight_send_queue rdt) ack of
        None \<Rightarrow> rdt
      | Some i \<Rightarrow>
          let rdt = (if blame rdt \<noteq> 0 \<and> blame rdt = ack then rdt\<lparr>resend_retry := 0, blame := 0\<rparr> else rdt);
              rdt = (if ack = send_wnd_base rdt then rdt\<lparr>send_wnd_base := send_wnd_base rdt + 1\<rparr> else rdt)
          in rdt\<lparr>flight_send_queue := list_unlink (flight_send_queue rdt) i\<rparr>)"

text \<open>The receive buffer has \<open>mtu + sizeof(packet_t)\<close> bytes, of which the first 52 are the header,
  and is cleared before each datagram.\<close>

definition recv_data_area :: "rdt \<Rightarrow> packet \<Rightarrow> bytes" where
  "recv_data_area rdt p = (let n = nat (mtu rdt + 4) in take n (pk_data p @ replicate n 0))"

definition recv_data :: "rdt \<Rightarrow> packet \<Rightarrow> rdt option" where
  "recv_data rdt p = do {
     data \<leftarrow> wr (recv_data_area rdt p) (pk_len p) 0;
     if ringbuff_free_size (recv_buffer rdt) = 0 then Some rdt
     else do {
       (_, rb) \<leftarrow> ringbuff_write (recv_buffer rdt) data (pk_len p);
       Some (rdt\<lparr>recv_buffer := rb\<rparr>) } }"

text \<open>One round of \<open>recv_worker_thread\<close>, given what \<open>recvfrom\<close> delivered; \<open>None\<close> is its error.\<close>

definition recv_worker :: "(nat \<Rightarrow> u32) \<Rightarrow> rdt \<Rightarrow> packet option \<Rightarrow> rdt option" where
  "recv_worker clk rdt datagram =
     (case datagram of
        None \<Rightarrow> Some rdt
      | Some p \<Rightarrow>
          if pk_cmd p = RDT_CMD_ACK then map_option (recv_ack rdt) (pk_ack p)
          else if pk_cmd p = RDT_CMD_SEND \<or> pk_cmd p = RDT_CMD_TEST then do {
            rdt \<leftarrow> (if pk_cmd p = RDT_CMD_SEND then do {
                       (packet, rdt) \<leftarrow> make_packet clk rdt None 0 RDT_CMD_ACK;
                       Some (rdt\<lparr>send_queue := packet\<lparr>pk_ack := pk_seq p\<rparr> # send_queue rdt\<rparr>) }
                     else Some rdt);
            recv_data rdt p }
          else Some rdt)"

section \<open>The user's calls\<close>

text \<open>\<open>rdt_send\<close> flushes and sleeps until the buffer has room for all of the data.\<close>

definition rdt_send :: "(nat \<Rightarrow> u32) \<Rightarrow> rdt \<Rightarrow> bytes \<Rightarrow> int \<Rightarrow> (int \<times> rdt) option" where
  "rdt_send clk rdt buff len = do {
     rdt \<leftarrow> loop (\<lambda>rdt. if ringbuff_free_size (send_buffer rdt) < len
                        then do { rdt \<leftarrow> flush_buffer clk rdt; Some (Inl rdt) } else Some (Inr rdt)) rdt;
     (numbytes, sb) \<leftarrow> ringbuff_write (send_buffer rdt) buff len;
     Some (numbytes, rdt\<lparr>send_buffer := sb\<rparr>) }"

text \<open>\<open>rdt_recv\<close> waits until the receiver has data; while there is none it does not return.\<close>

definition rdt_recv :: "rdt \<Rightarrow> bytes \<Rightarrow> int \<Rightarrow> (int \<times> bytes \<times> rdt) option" where
  "rdt_recv rdt buff len =
     (if ringbuff_data_size (recv_buffer rdt) = 0 then None
      else do {
        (numbytes, buff, rb) \<leftarrow> ringbuff_read (recv_buffer rdt) buff len;
        Some (numbytes, buff, rdt\<lparr>recv_buffer := rb\<rparr>) })"

end
