(* ===== verification/RudpCorrect.thy ===== *)
theory RudpCorrect
  imports Rudp
begin

text \<open>
  Correctness of the reliable datagram protocol: segmentation keeps the byte stream, the queues are
  drained in order, the receiver appends what it is sent, acknowledgements clear the flight queue;
  together, a write of up to nine packets crosses a channel that loses nothing and is read as
  the same bytes. Beyond that the window check stalls the sender for good.
\<close>

section \<open>Numbering\<close>

lemma next_seq_plus: "uint s + 1 < SEQ_NUM_MAX \<Longrightarrow> next_seq s = s + 1"
  by (auto simp: next_seq_def SEQ_NUM_MAX_def uint_word_ariths word_of_int_uint)

lemma next_seq_Suc: "uint s + 1 < SEQ_NUM_MAX \<Longrightarrow> uint (next_seq s) = uint s + 1"
  by (auto simp: next_seq_def SEQ_NUM_MAX_def uint_word_ariths word_of_int_uint)

definition seq_after :: "nat \<Rightarrow> u32 \<Rightarrow> u32" where
  "seq_after n s = (next_seq ^^ n) s"

lemma seq_after_simps [simp]: "seq_after 0 s = s" "seq_after (Suc n) s = seq_after n (next_seq s)"
  by (simp_all add: seq_after_def funpow_swap1)

lemma seq_after_uint: "uint s + int n < SEQ_NUM_MAX \<Longrightarrow> uint (seq_after n s) = uint s + int n"
  by (induction n arbitrary: s) (auto simp: next_seq_Suc)

lemma seq_after_add: "uint s + int n < SEQ_NUM_MAX \<Longrightarrow> seq_after n s = s + of_nat n"
proof (induction n arbitrary: s)
  case (Suc n)
  then have s: "uint s + 1 < SEQ_NUM_MAX"
    by simp
  have "seq_after n (next_seq s) = next_seq s + of_nat n"
    using Suc next_seq_Suc [OF s] by simp
  then show ?case
    by (simp add: next_seq_plus [OF s])
qed simp

section \<open>Segmentation\<close>

definition data_packet :: "bytes \<Rightarrow> u32 \<Rightarrow> packet \<Rightarrow> bool" where
  "data_packet bs s p \<longleftrightarrow> pk_cmd p = RDT_CMD_SEND \<and> pk_data p = bs \<and> pk_len p = int (length bs) \<and> pk_seq p = Some s"

text \<open>Packets that cut \<open>bs\<close> into pieces of \<open>m\<close> bytes, numbered from \<open>s\<close>.\<close>

fun carries :: "nat \<Rightarrow> u32 \<Rightarrow> bytes \<Rightarrow> packet list \<Rightarrow> bool" where
  "carries m s bs [] \<longleftrightarrow> bs = []"
| "carries m s bs (p # ps) \<longleftrightarrow> bs \<noteq> [] \<and> data_packet (take m bs) s p \<and> carries m (next_seq s) (drop m bs) ps"

lemma carries_data: "carries m s bs ps \<Longrightarrow> concat (map pk_data ps) = bs"
  by (induction m s bs ps rule: carries.induct) (auto simp: data_packet_def)

lemma carries_length: "carries m s bs ps \<Longrightarrow> 0 < m \<Longrightarrow> length ps \<le> length bs \<and> length bs \<le> length ps * m"
proof (induction m s bs ps rule: carries.induct)
  case (2 m s bs p ps)
  then have "length ps \<le> length bs - m \<and> length bs - m \<le> length ps * m" "0 < length bs"
    by auto
  then have "Suc (length ps) \<le> length bs" "length bs \<le> m + length ps * m"
    using "2.prems"(2) by linarith+
  then show ?case by simp
qed simp

lemma carries_count: "carries m s bs ps \<Longrightarrow> 0 < m \<Longrightarrow> length bs \<le> k * m \<Longrightarrow> length ps \<le> k"
proof (induction m s bs ps arbitrary: k rule: carries.induct)
  case (2 m s bs p ps)
  then obtain j where k: "k = Suc j"
    by (cases k) auto
  have "length ps \<le> j"
    using "2.prems" k by (intro "2.IH") auto
  with k show ?case by simp
qed simp

lemma carries_send: "carries m s bs ps \<Longrightarrow> p \<in> set ps \<Longrightarrow> pk_cmd p = RDT_CMD_SEND \<and> pk_seq p \<noteq> None"
  by (induction m s bs ps rule: carries.induct) (auto simp: data_packet_def)

lemma carries_seq:
  "carries m s bs ps \<Longrightarrow> uint s + int (length ps) \<le> SEQ_NUM_MAX \<Longrightarrow> p \<in> set ps \<Longrightarrow> \<exists>t. pk_seq p = Some t \<and> s \<le> t"
proof (induction m s bs ps rule: carries.induct)
  case (2 m s bs q ps)
  show ?case
  proof (cases "p = q")
    case False
    with "2.prems"(3) have p: "p \<in> set ps" by simp
    then have "1 \<le> length ps" by (cases ps) auto
    with "2.prems"(2) have "uint s + 1 < SEQ_NUM_MAX" by simp
    note n = next_seq_Suc [OF this]
    obtain t where "pk_seq p = Some t" "next_seq s \<le> t"
      using "2.IH" "2.prems" p n by auto
    moreover have "s \<le> next_seq s"
      using n by (simp add: word_le_def)
    ultimately show ?thesis by auto
  qed (use "2.prems" in \<open>auto simp: data_packet_def\<close>)
qed simp

text \<open>What \<open>flush_buffer\<close> changes.\<close>

definition flushed :: "nat \<Rightarrow> rdt \<Rightarrow> packet list \<Rightarrow> rdt \<Rightarrow> bool" where
  "flushed cap rdt ps rdt' \<longleftrightarrow> ring_ok cap (send_buffer rdt') \<and> ring_abs (send_buffer rdt') = [] \<and>
     rdt' = rdt\<lparr>send_buffer := send_buffer rdt', send_queue := rev ps @ send_queue rdt,
       current_send_seq := seq_after (length ps) (current_send_seq rdt), current := current rdt', clock_reads := clock_reads rdt'\<rparr>"

text \<open>Every timestamp is a reading of the clock during the run.\<close>

definition stamped :: "(nat \<Rightarrow> u32) \<Rightarrow> rdt \<Rightarrow> packet \<Rightarrow> bool" where
  "stamped clk rdt p \<longleftrightarrow> (\<exists>i<clock_reads rdt. pk_ts p = clk i)"

lemma make_packet_send:
  assumes "n \<le> length buff"
  shows "\<exists>p rdt'. make_packet clk rdt (Some buff) (int n) RDT_CMD_SEND = Some (p, rdt')
    \<and> data_packet (take n buff) (current_send_seq rdt) p \<and> pk_ts p = clk (clock_reads rdt)
    \<and> rdt' = rdt\<lparr>current_send_seq := next_seq (current_send_seq rdt), current := clk (clock_reads rdt), clock_reads := Suc (clock_reads rdt)\<rparr>"
  using assms mcpy_nat [of 0 n "replicate n 0" 0 buff]
  by (simp add: make_packet_def get_and_update_current_def get_current_def get_and_update_seq_def data_packet_def)

lemma make_packet_ack:
  "make_packet clk rdt None 0 RDT_CMD_ACK = Some (\<lparr>pk_cmd = RDT_CMD_ACK, pk_size = sizeof_packet, pk_len = 0,
     pk_seq = None, pk_ack = None, pk_ts = clk (clock_reads rdt), pk_data = []\<rparr>,
     rdt\<lparr>current := clk (clock_reads rdt), clock_reads := Suc (clock_reads rdt)\<rparr>)"
  by (simp add: make_packet_def get_and_update_current_def get_current_def)

lemma flush_loop_ok:
  assumes "ring_ok cap (send_buffer rdt)" and "length buff = m" and "mtu rdt = int m" and "0 < m" and "m < 2 ^ 30"
  shows "\<exists>rdt' ps. loop (flush_round clk) (rdt, buff) = Some rdt'
    \<and> carries m (current_send_seq rdt) (ring_abs (send_buffer rdt)) ps \<and> flushed cap rdt ps rdt'
    \<and> clock_reads rdt \<le> clock_reads rdt' \<and> (\<forall>p\<in>set ps. stamped clk rdt' p)"
  using assms
proof (induction "length (ring_abs (send_buffer rdt))" arbitrary: rdt buff rule: less_induct)
  case less
  define bs where "bs = ring_abs (send_buffer rdt)"
  define k where "k = min m (length bs)"
  obtain sb where sb: "ringbuff_read (send_buffer rdt) buff (int m) = Some (int k, take k bs @ drop k buff, sb)"
    "ring_ok cap sb" "ring_abs sb = drop k bs"
    using ring_read_ok [of cap "send_buffer rdt" m buff k] less.prems by (auto simp: bs_def k_def)
  show ?case
  proof (cases "bs = []")
    case True
    then have "loop (flush_round clk) (rdt, buff) = Some (rdt\<lparr>send_buffer := sb\<rparr>)"
      using sb(1) less.prems(3) by (intro loop_stop) (simp add: flush_round_def k_def)
    moreover have "flushed cap rdt [] (rdt\<lparr>send_buffer := sb\<rparr>)"
      using sb(2,3) True by (simp add: flushed_def)
    ultimately show ?thesis
      using True by (intro exI [of _ "rdt\<lparr>send_buffer := sb\<rparr>"] exI [of _ "[]"]) (simp add: bs_def)
  next
    case False
    then have k: "0 < k" "k \<le> length bs" "k \<le> m"
      using less.prems(4) by (auto simp: k_def)
    have take_k: "take k (take k bs @ drop k buff) = take m bs" "drop k bs = drop m bs"
      using k less.prems(2) by (auto simp: k_def min_def)
    obtain p rdt1 where p: "make_packet clk (rdt\<lparr>send_buffer := sb\<rparr>) (Some (take k bs @ drop k buff)) (int k) RDT_CMD_SEND = Some (p, rdt1)"
      "data_packet (take m bs) (current_send_seq rdt) p" "pk_ts p = clk (clock_reads rdt)"
      "rdt1 = rdt\<lparr>send_buffer := sb, current_send_seq := next_seq (current_send_seq rdt), current := clk (clock_reads rdt), clock_reads := Suc (clock_reads rdt)\<rparr>"
      using make_packet_send [of k "take k bs @ drop k buff" clk "rdt\<lparr>send_buffer := sb\<rparr>"] k take_k by auto
    define rdt2 where "rdt2 = rdt1\<lparr>send_queue := p # send_queue rdt1\<rparr>"
    have step: "loop (flush_round clk) (rdt, buff) = loop (flush_round clk) (rdt2, take k bs @ drop k buff)"
      using sb(1) less.prems(3) k p(1) by (intro loop_next) (simp add: flush_round_def rdt2_def)
    have fields: "send_buffer rdt2 = sb" "mtu rdt2 = int m" "current_send_seq rdt2 = next_seq (current_send_seq rdt)"
      "clock_reads rdt2 = Suc (clock_reads rdt)"
      using p(4) less.prems(3) by (simp_all add: rdt2_def)
    have abs2: "ring_abs (send_buffer rdt2) = drop m bs"
      using fields(1) sb(3) take_k(2) by simp
    then have "length (ring_abs (send_buffer rdt2)) < length (ring_abs (send_buffer rdt))"
      using less.prems(4) False by (simp add: bs_def)
    from less.hyps [OF this, of "take k bs @ drop k buff"]
    obtain rdt' ps where IH: "loop (flush_round clk) (rdt2, take k bs @ drop k buff) = Some rdt'"
      "carries m (next_seq (current_send_seq rdt)) (drop m bs) ps" "flushed cap rdt2 ps rdt'"
      "clock_reads rdt2 \<le> clock_reads rdt'" "\<forall>p\<in>set ps. stamped clk rdt' p"
      using sb(2) fields k less.prems(2,4,5) abs2 by auto
    have "flushed cap rdt (p # ps) rdt'"
      using IH(3) p(4) by (simp add: flushed_def rdt2_def)
    moreover have "carries m (current_send_seq rdt) bs (p # ps)"
      using False p(2) IH(2) by simp
    moreover have "stamped clk rdt' p"
      using IH(4) fields(4) p(3) by (auto simp: stamped_def intro!: exI [of _ "clock_reads rdt"])
    ultimately show ?thesis
      using step IH(1,4,5) fields(4) by (intro exI [of _ rdt'] exI [of _ "p # ps"]) (simp add: bs_def)
  qed
qed

lemma flush_buffer_ok:
  assumes "ring_ok cap (send_buffer rdt)" and "mtu rdt = int m" and "0 < m" and "m < 2 ^ 30"
  shows "\<exists>rdt' ps. flush_buffer clk rdt = Some rdt'
    \<and> carries m (current_send_seq rdt) (ring_abs (send_buffer rdt)) ps \<and> flushed cap rdt ps rdt'
    \<and> clock_reads rdt \<le> clock_reads rdt' \<and> (\<forall>p\<in>set ps. stamped clk rdt' p)"
  using flush_loop_ok [of cap rdt "replicate m 0" m clk] assms by (simp add: flush_buffer_def)

section \<open>The send queue\<close>

definition sends :: "packet list \<Rightarrow> packet list" where
  "sends ps = filter (\<lambda>p. pk_cmd p = RDT_CMD_SEND) ps"

definition unacked :: "packet list \<Rightarrow> u32 list \<Rightarrow> u32 list" where
  "unacked ps ss = fold (\<lambda>p ss. insert_to_unack_list ss (the (pk_seq p))) (rev (sends ps)) ss"

lemma insert_to_unack_sorted: "sorted ss \<Longrightarrow> sorted (insert_to_unack_list ss s)"
proof (induction ss s rule: insert_to_unack_list.induct)
  case (2 x ss s)
  have "set (insert_to_unack_list ss s) = insert s (set ss)" for ss
    by (induction ss s rule: insert_to_unack_list.induct) auto
  with 2 show ?case by auto
qed simp

lemma unacked_sorted: "sorted ss \<Longrightarrow> sorted (unacked ps ss)"
  unfolding unacked_def by (rule fold_invariant [where Q = "\<lambda>_. True"]) (auto intro: insert_to_unack_sorted)

lemma queue_loop_ok:
  assumes "\<forall>p\<in>set (sends (send_queue rdt)). pk_seq p \<noteq> None"
    and "sends (send_queue rdt) = [] \<or> UNACK_BYTES \<le> unack_block rdt"
  shows "loop queue_round rdt = Some (rdt\<lparr>send_queue := [], sent := sent rdt @ rev (send_queue rdt),
     flight_send_queue := sends (send_queue rdt) @ flight_send_queue rdt, unack_list := unacked (send_queue rdt) (unack_list rdt)\<rparr>)"
  using assms
proof (induction "send_queue rdt" arbitrary: rdt rule: rev_induct)
  case Nil
  then have "queue_round rdt = Some (Inr rdt)"
    by (simp add: queue_round_def)
  then show ?case
    using Nil by (simp add: loop_stop sends_def unacked_def)
next
  case (snoc p q)
  note q = snoc.hyps(2) [symmetric]
  define rdt1 where "rdt1 = udt_send (if pk_cmd p = RDT_CMD_SEND
      then rdt\<lparr>send_queue := q, flight_send_queue := p # flight_send_queue rdt, unack_list := insert_to_unack_list (unack_list rdt) (the (pk_seq p))\<rparr>
      else rdt\<lparr>send_queue := q\<rparr>) p"
  have "pk_cmd p = RDT_CMD_SEND \<Longrightarrow> \<exists>s. pk_seq p = Some s"
    using snoc.prems by (auto simp: q sends_def)
  moreover have "pk_cmd p = RDT_CMD_SEND \<Longrightarrow> UNACK_BYTES \<le> unack_block rdt"
    using snoc.prems(2) by (auto simp: q sends_def)
  ultimately have "queue_round rdt = Some (Inl rdt1)"
    by (cases "pk_cmd p = RDT_CMD_SEND") (auto simp: queue_round_def q rdt1_def Let_def)
  then have "loop queue_round rdt = loop queue_round rdt1"
    by (rule loop_next)
  moreover have "send_queue rdt1 = q" "unack_block rdt1 = unack_block rdt"
    by (simp_all add: rdt1_def udt_send_def)
  moreover have "sends q = [] \<or> UNACK_BYTES \<le> unack_block rdt"
    using snoc.prems(2) by (auto simp: q sends_def)
  ultimately show ?case
    using snoc.hyps(1) [of rdt1] snoc.prems
    by (simp add: q) (simp add: rdt1_def udt_send_def sends_def unacked_def)
qed

text \<open>With a smaller block the first data packet in the queue is the end.\<close>

lemma queue_loop_overrun:
  assumes "unack_block rdt < UNACK_BYTES" and "sends (send_queue rdt) \<noteq> []"
  shows "loop queue_round rdt = None"
  using assms
proof (induction "send_queue rdt" arbitrary: rdt rule: rev_induct)
  case Nil
  then show ?case
    by (simp add: sends_def)
next
  case (snoc p q)
  note q = snoc.hyps(2) [symmetric]
  show ?case
  proof (cases "pk_cmd p = RDT_CMD_SEND")
    case True
    then have "queue_round rdt = None"
      using snoc.prems(1) by (simp add: queue_round_def q Let_def bind_eq_None_conv split: option.split)
    then show ?thesis
      by (simp add: loop.simps [of queue_round rdt])
  next
    case False
    define rdt1 where "rdt1 = udt_send (rdt\<lparr>send_queue := q\<rparr>) p"
    have "queue_round rdt = Some (Inl rdt1)"
      using False by (simp add: queue_round_def q rdt1_def)
    then have "loop queue_round rdt = loop queue_round rdt1"
      by (rule loop_next)
    moreover have "send_queue rdt1 = q" "unack_block rdt1 = unack_block rdt" "sends q \<noteq> []"
      using snoc.prems(2) False by (simp_all add: rdt1_def udt_send_def q sends_def)
    ultimately show ?thesis
      using snoc.hyps(1) [of rdt1] snoc.prems(1) by simp
  qed
qed

definition window_open :: "rdt \<Rightarrow> bool" where
  "window_open rdt \<longleftrightarrow> current_send_seq rdt \<le> send_wnd_base rdt + wnd_size rdt - 1"

lemma flush_queue_ok:
  assumes "\<forall>p\<in>set (sends (send_queue rdt)). pk_seq p \<noteq> None" and "window_open rdt"
    and "sends (send_queue rdt) = [] \<or> UNACK_BYTES \<le> unack_block rdt"
  shows "flush_queue rdt = Some (rdt\<lparr>send_queue := [], sent := sent rdt @ rev (send_queue rdt),
     flight_send_queue := sends (send_queue rdt) @ flight_send_queue rdt, unack_list := unacked (send_queue rdt) (unack_list rdt)\<rparr>)"
  using queue_loop_ok [OF assms(1,3)] assms(2) by (simp add: flush_queue_def window_open_def not_less)

lemma flush_queue_overrun:
  "window_open rdt \<Longrightarrow> unack_block rdt < UNACK_BYTES \<Longrightarrow> sends (send_queue rdt) \<noteq> [] \<Longrightarrow> flush_queue rdt = None"
  by (simp add: flush_queue_def window_open_def not_less queue_loop_overrun)

lemma flush_queue_closed: "\<not> window_open rdt \<Longrightarrow> flush_queue rdt = Some rdt"
  by (simp add: flush_queue_def window_open_def not_le)

section \<open>Retransmission\<close>

text \<open>Within 100 clock units of the last transmission nothing is sent again.\<close>

definition calm :: "(nat \<Rightarrow> u32) \<Rightarrow> bool" where
  "calm clk \<longleftrightarrow> (\<forall>i j. i \<le> j \<longrightarrow> clk j - clk i \<le> PACKET_EXPIRE_TIME)"

lemma resend_loop_quiet:
  assumes "calm clk" and "\<forall>p\<in>set ps. stamped clk rdt p"
  shows "resend_loop clk rdt passed ps =
    Some (Inr (rdt\<lparr>flight_send_queue := passed @ ps, clock_reads := clock_reads rdt + length ps\<rparr>))"
  using assms
proof (induction ps arbitrary: rdt passed)
  case (Cons p ps)
  let ?rdt = "rdt\<lparr>clock_reads := Suc (clock_reads rdt)\<rparr>"
  obtain i where "i < clock_reads rdt" "pk_ts p = clk i"
    using Cons.prems(2) by (auto simp: stamped_def)
  then have "\<not> PACKET_EXPIRE_TIME < time_diff (clk (clock_reads rdt)) (pk_ts p)"
    using Cons.prems(1) by (simp add: calm_def time_diff_def not_less)
  moreover have "\<forall>q\<in>set ps. stamped clk ?rdt q"
    using Cons.prems(2) by (auto simp: stamped_def less_Suc_eq)
  ultimately show ?case
    using Cons.IH [of ?rdt "passed @ [p]"] Cons.prems(1) by (simp add: get_current_def)
qed simp

section \<open>The receiver\<close>

lemma recv_data_ok:
  assumes "ring_ok cap (recv_buffer rdt)" and "pk_len p = int n" and "n < nat (mtu rdt + 4)"
    and "mtu rdt < 2 ^ 29" and "k = min n (cap - length (ring_abs (recv_buffer rdt)))"
  shows "\<exists>rb. recv_data rdt p = Some (rdt\<lparr>recv_buffer := rb\<rparr>) \<and> ring_ok cap rb
    \<and> ring_abs rb = ring_abs (recv_buffer rdt) @ take k (recv_data_area rdt p)"
proof -
  define area where "area = (recv_data_area rdt p)[n := 0]"
  have n: "n < nat (mtu rdt + 4)" "n < 2 ^ 30" "pk_len p = int n"
    using assms by simp_all
  have wr: "wr (recv_data_area rdt p) (pk_len p) 0 = Some area"
    using n by (simp add: wr_def recv_data_area_def area_def Let_def)
  have area: "n \<le> length area" "take k area = take k (recv_data_area rdt p)"
    using n assms(5) by (simp_all add: area_def) (simp add: recv_data_area_def Let_def)
  obtain rb where rb: "ringbuff_write (recv_buffer rdt) area (int n) = Some (int k, rb)" "ring_ok cap rb"
    "ring_abs rb = ring_abs (recv_buffer rdt) @ take k area"
    using ring_write_ok [OF assms(1) n(2) area(1), of k] assms(5) by auto
  show ?thesis
  proof (cases "ringbuff_free_size (recv_buffer rdt) = 0")
    case True
    then have "cap - length (ring_abs (recv_buffer rdt)) = 0"
      using ring_free_size [OF assms(1)] by simp
    then have "k = 0"
      using assms(5) by simp
    with True wr assms(1) show ?thesis
      by (intro exI [of _ "recv_buffer rdt"]) (simp add: recv_data_def)
  next
    case False
    with wr rb n(3) area(2) show ?thesis
      by (auto simp: recv_data_def)
  qed
qed

text \<open>A length that leaves the buffer is undefined.\<close>

lemma recv_data_outside:
  assumes "\<not> (0 \<le> pk_len p \<and> pk_len p < mtu rdt + 4)" and "0 \<le> mtu rdt"
  shows "recv_data rdt p = None"
proof -
  have "length (recv_data_area rdt p) = nat (mtu rdt + 4)"
    by (simp add: recv_data_area_def Let_def)
  then show ?thesis
    using assms by (auto simp: recv_data_def wr_def)
qed

text \<open>The acknowledgement of a data packet.\<close>

definition acks :: "packet \<Rightarrow> packet \<Rightarrow> bool" where
  "acks a p \<longleftrightarrow> pk_cmd a = RDT_CMD_ACK \<and> pk_ack a = pk_seq p"

lemma recv_worker_send:
  assumes "ring_ok cap (recv_buffer rdt)" and "data_packet bs s p" and "length bs < nat (mtu rdt + 4)"
    and "mtu rdt < 2 ^ 29" and "k = min (length bs) (cap - length (ring_abs (recv_buffer rdt)))"
  shows "\<exists>a rb. recv_worker clk rdt (Some p) =
      Some (rdt\<lparr>current := clk (clock_reads rdt), clock_reads := Suc (clock_reads rdt), send_queue := a # send_queue rdt,
        recv_buffer := rb\<rparr>) \<and> ring_ok cap rb \<and> acks a p
    \<and> ring_abs rb = ring_abs (recv_buffer rdt) @ take k bs"
proof -
  define a where "a = \<lparr>pk_cmd = RDT_CMD_ACK, pk_size = sizeof_packet, pk_len = 0, pk_seq = None, pk_ack = pk_seq p,
     pk_ts = clk (clock_reads rdt), pk_data = []\<rparr>"
  define rdt1 where "rdt1 = rdt\<lparr>current := clk (clock_reads rdt), clock_reads := Suc (clock_reads rdt), send_queue := a # send_queue rdt\<rparr>"
  have "take k (recv_data_area rdt1 p) = take k bs"
    using assms(2,3,5) by (simp add: recv_data_area_def Let_def data_packet_def rdt1_def min_def)
  then obtain rb where "recv_data rdt1 p = Some (rdt1\<lparr>recv_buffer := rb\<rparr>)" "ring_ok cap rb"
    "ring_abs rb = ring_abs (recv_buffer rdt) @ take k bs"
    using recv_data_ok [of cap rdt1 p "length bs" k] assms by (auto simp: rdt1_def data_packet_def)
  moreover have "recv_worker clk rdt (Some p) = recv_data rdt1 p"
    using assms(2) by (simp add: recv_worker_def data_packet_def make_packet_ack rdt1_def a_def)
  ultimately show ?thesis
    by (intro exI [of _ a] exI [of _ rb]) (simp add: rdt1_def acks_def a_def)
qed

fun recv_all :: "(nat \<Rightarrow> u32) \<Rightarrow> rdt \<Rightarrow> packet list \<Rightarrow> rdt option" where
  "recv_all clk rdt [] = Some rdt"
| "recv_all clk rdt (p # ps) = do { rdt \<leftarrow> recv_worker clk rdt (Some p); recv_all clk rdt ps }"

lemma recv_all_data:
  assumes "carries m s bs ps" and "0 < m" and "ring_ok cap (recv_buffer rdt)" and "mtu rdt = int m" and "m < 2 ^ 29"
    and "length (ring_abs (recv_buffer rdt)) + length bs \<le> cap"
  shows "\<exists>as rb c n. recv_all clk rdt ps =
      Some (rdt\<lparr>current := c, clock_reads := n, send_queue := rev as @ send_queue rdt, recv_buffer := rb\<rparr>)
    \<and> ring_ok cap rb \<and> list_all2 acks as ps \<and> ring_abs rb = ring_abs (recv_buffer rdt) @ bs"
  using assms
proof (induction m s bs ps arbitrary: rdt rule: carries.induct)
  case (1 m s bs)
  then show ?case
    by (intro exI [of _ "[]"] exI [of _ "recv_buffer rdt"] exI [of _ "current rdt"] exI [of _ "clock_reads rdt"]) simp
next
  case (2 m s bs p ps)
  have len: "length (take m bs) = min (length (take m bs)) (cap - length (ring_abs (recv_buffer rdt)))"
    using "2.prems"(6) by simp
  have all: "take (length (take m bs)) (take m bs) = take m bs"
    by (rule take_all) simp
  have "data_packet (take m bs) s p" "length (take m bs) < nat (mtu rdt + 4)" "mtu rdt < 2 ^ 29"
    using "2.prems"(1,4,5) by simp_all
  note recv_worker_send [OF "2.prems"(3) this len, of clk]
  then obtain a rb where a: "recv_worker clk rdt (Some p) =
      Some (rdt\<lparr>current := clk (clock_reads rdt), clock_reads := Suc (clock_reads rdt), send_queue := a # send_queue rdt,
        recv_buffer := rb\<rparr>)" "ring_ok cap rb" "acks a p" "ring_abs rb = ring_abs (recv_buffer rdt) @ take m bs"
    unfolding all by blast
  define rdt1 where "rdt1 = rdt\<lparr>current := clk (clock_reads rdt), clock_reads := Suc (clock_reads rdt),
    send_queue := a # send_queue rdt, recv_buffer := rb\<rparr>"
  have "length (ring_abs (recv_buffer rdt1)) + length (drop m bs) \<le> cap" "recv_buffer rdt1 = rb" "mtu rdt1 = int m"
    using "2.prems"(4,6) by (simp_all add: a(4) rdt1_def)
  then obtain as rb' c n where IH: "recv_all clk rdt1 ps =
      Some (rdt1\<lparr>current := c, clock_reads := n, send_queue := rev as @ send_queue rdt1, recv_buffer := rb'\<rparr>)"
    "ring_ok cap rb'" "list_all2 acks as ps" "ring_abs rb' = ring_abs rb @ drop m bs"
    using "2.IH" [of rdt1] "2.prems"(1,2,5) a(2) by auto
  have "recv_all clk rdt (p # ps) =
      Some (rdt\<lparr>current := c, clock_reads := n, send_queue := rev (a # as) @ send_queue rdt, recv_buffer := rb'\<rparr>)"
    using a(1) IH(1) by (simp add: rdt1_def)
  moreover have "ring_abs rb' = ring_abs (recv_buffer rdt) @ bs"
    using a(4) IH(4) by simp
  ultimately show ?case
    using a(3) IH(2,3) by (metis list.rel_intros(2))
qed

section \<open>Acknowledgements\<close>

lemma find_packet_last:
  "\<forall>q\<in>set ps. pk_seq q \<noteq> Some s \<Longrightarrow> pk_seq p = Some s \<Longrightarrow> find_packet (ps @ [p]) s = Some (length ps)"
  by (induction ps) auto

lemma recv_ack_oldest:
  assumes "flight_send_queue rdt = ps @ [p]" and "pk_seq p = Some s" and "\<forall>q\<in>set ps. pk_seq q \<noteq> Some s"
    and "send_wnd_base rdt = s"
  shows "\<exists>b r. recv_ack rdt s = rdt\<lparr>flight_send_queue := ps, send_wnd_base := s + 1, blame := b, resend_retry := r\<rparr>"
proof -
  have "\<exists>b r. recv_ack rdt s = rdt\<lparr>flight_send_queue := ps, send_wnd_base := s + 1, blame := b, resend_retry := r\<rparr>"
    if "rdt = \<lparr>mtu = m, resend_retry = y, current = c, current_send_seq = q, wnd_size = w, send_wnd_base = s, send_queue = sq,
       flight_send_queue = ps @ [p], unack_list = u, send_buffer = sb, recv_buffer = rb, blame = bl, clock_reads = n, sent = se, unack_block = ub\<rparr>"
    for m y c q w sq u sb rb bl n se ub
    using find_packet_last [OF assms(3,2)] that by (auto simp: recv_ack_def Let_def list_unlink_def)
  then show ?thesis
    using assms(1,4) by (cases rdt) auto
qed

lemma recv_acks:
  assumes "carries m s bs ps" and "list_all2 acks as ps" and "flight_send_queue rdt = rev ps"
    and "send_wnd_base rdt = s" and "uint s + int (length ps) < SEQ_NUM_MAX"
  shows "\<exists>b r. recv_all clk rdt as = Some (rdt\<lparr>flight_send_queue := [], send_wnd_base := seq_after (length ps) s,
     blame := b, resend_retry := r\<rparr>)"
  using assms
proof (induction m s bs ps arbitrary: rdt as rule: carries.induct)
  case (1 m s bs)
  then show ?case by (intro exI [of _ "blame rdt"] exI [of _ "resend_retry rdt"]) simp
next
  case (2 m s bs p ps)
  obtain a as' where as: "as = a # as'" "acks a p" "list_all2 acks as' ps"
    using "2.prems"(2) by (cases as) auto
  have p: "pk_seq p = Some s" "carries m (next_seq s) (drop m bs) ps" and s: "uint s + 1 < SEQ_NUM_MAX"
    using "2.prems" by (auto simp: data_packet_def)
  have "pk_seq q \<noteq> Some s" if q: "q \<in> set ps" for q
  proof -
    obtain t where "pk_seq q = Some t" "next_seq s \<le> t"
      using carries_seq [OF p(2), of q] q next_seq_Suc [OF s] "2.prems"(5) by auto
    moreover have "s < next_seq s"
      using next_seq_Suc [OF s] by (simp add: word_less_def)
    ultimately show ?thesis by auto
  qed
  then obtain b r where rdt1: "recv_ack rdt s = rdt\<lparr>flight_send_queue := rev ps, send_wnd_base := next_seq s, blame := b, resend_retry := r\<rparr>"
    using recv_ack_oldest [of rdt "rev ps" p s] p(1) "2.prems"(3,4) by (auto simp: next_seq_plus [OF s])
  have "recv_worker clk rdt (Some a) = Some (recv_ack rdt s)"
    using as(2) p(1) by (simp add: recv_worker_def acks_def)
  moreover obtain b' r' where "recv_all clk (recv_ack rdt s) as' = Some ((recv_ack rdt s)\<lparr>flight_send_queue := [],
     send_wnd_base := seq_after (length ps) (next_seq s), blame := b', resend_retry := r'\<rparr>)"
    using "2.IH" [of as' "recv_ack rdt s"] p(2) as(3) "2.prems"(5) next_seq_Suc [OF s] by (auto simp: rdt1)
  ultimately show ?case
    using as(1) by (intro exI [of _ b'] exI [of _ r']) (simp add: rdt1)
qed

section \<open>A burst and its acknowledgements\<close>

text \<open>An endpoint that has nothing in flight; it may have acknowledgements to send.\<close>

definition settled :: "nat \<Rightarrow> nat \<Rightarrow> rdt \<Rightarrow> bool" where
  "settled cap m rdt \<longleftrightarrow> ring_ok cap (send_buffer rdt) \<and> mtu rdt = int m \<and> 0 < m \<and> m < 2 ^ 29
     \<and> sends (send_queue rdt) = [] \<and> flight_send_queue rdt = [] \<and> sent rdt = []
     \<and> send_wnd_base rdt = current_send_seq rdt \<and> wnd_size rdt = RDT_WINDOW_SIZE
     \<and> uint (current_send_seq rdt) + 10 < SEQ_NUM_MAX"

lemma window_open_within:
  assumes "uint (send_wnd_base rdt) + 10 < SEQ_NUM_MAX" and "wnd_size rdt = RDT_WINDOW_SIZE"
    and "current_send_seq rdt = seq_after n (send_wnd_base rdt)" and "n \<le> 10"
  shows "window_open rdt \<longleftrightarrow> n \<le> 9"
proof -
  have "uint (current_send_seq rdt) = uint (send_wnd_base rdt) + int n"
    using assms seq_after_uint [of "send_wnd_base rdt" n] by simp
  moreover have "uint (9 + send_wnd_base rdt) = uint (send_wnd_base rdt) + 9"
    using assms(1) by (simp add: uint_word_ariths SEQ_NUM_MAX_def)
  ultimately show ?thesis
    by (simp add: window_open_def assms(2) RDT_WINDOW_SIZE_def word_le_def add.commute)
qed

lemma sends_data: "carries m s bs ps \<Longrightarrow> sends ps = ps"
  using carries_send by (fastforce simp: sends_def)

lemma send_worker_ok:
  assumes "settled cap m rdt" and "length (ring_abs (send_buffer rdt)) \<le> 9 * m" and "calm clk"
    and "ring_abs (send_buffer rdt) = [] \<or> UNACK_BYTES \<le> unack_block rdt"
  shows "\<exists>rdt' ps. send_worker clk rdt = Some (Inr rdt') \<and> carries m (send_wnd_base rdt) (ring_abs (send_buffer rdt)) ps
    \<and> sent rdt' = rev (send_queue rdt) @ ps \<and> flight_send_queue rdt' = rev ps \<and> send_queue rdt' = []
    \<and> send_wnd_base rdt' = send_wnd_base rdt \<and> current_send_seq rdt' = seq_after (length ps) (send_wnd_base rdt)
    \<and> ring_abs (send_buffer rdt') = [] \<and> recv_buffer rdt' = recv_buffer rdt \<and> mtu rdt' = mtu rdt"
proof -
  note s = assms(1) [unfolded settled_def]
  obtain rdt1 ps where fl: "flush_buffer clk rdt = Some rdt1"
    "carries m (current_send_seq rdt) (ring_abs (send_buffer rdt)) ps" "flushed cap rdt ps rdt1"
    "\<forall>p\<in>set ps. stamped clk rdt1 p"
    using flush_buffer_ok [of cap rdt m clk] s by auto
  have ps: "length ps \<le> 9" "sends ps = ps" "sends (rev ps @ send_queue rdt) = rev ps"
    using carries_count [OF fl(2)] sends_data [OF fl(2)] s assms(2) by (simp_all add: sends_def flip: rev_filter)
  have rdt1: "send_queue rdt1 = rev ps @ send_queue rdt" "flight_send_queue rdt1 = []" "sent rdt1 = []"
    "send_wnd_base rdt1 = send_wnd_base rdt" "current_send_seq rdt1 = seq_after (length ps) (send_wnd_base rdt)"
    "wnd_size rdt1 = RDT_WINDOW_SIZE" "ring_abs (send_buffer rdt1) = []" "recv_buffer rdt1 = recv_buffer rdt" "mtu rdt1 = mtu rdt"
    "unack_block rdt1 = unack_block rdt"
    using fl(3) s by (auto simp: flushed_def elim: ssubst)
  have "window_open rdt1"
    using window_open_within [of rdt1 "length ps"] rdt1 ps(1) s by simp
  moreover have "\<forall>p\<in>set (sends (send_queue rdt1)). pk_seq p \<noteq> None"
    using carries_send [OF fl(2)] ps(3) rdt1(1) by auto
  moreover have "sends (send_queue rdt1) = [] \<or> UNACK_BYTES \<le> unack_block rdt1"
    using assms(4) fl(2) ps(3) rdt1(1,10) by (cases ps) auto
  ultimately obtain rdt2 where rdt2: "flush_queue rdt1 = Some rdt2" "rdt2 = rdt1\<lparr>send_queue := [], sent := rev (send_queue rdt) @ ps,
     flight_send_queue := rev ps, unack_list := unack_list rdt2\<rparr>"
    using flush_queue_ok [of rdt1] by (simp add: rdt1 ps(3))
  have idle: "(if send_queue rdt1 \<noteq> [] then flush_queue rdt1 else Some rdt1) = Some (if send_queue rdt1 \<noteq> [] then rdt2 else rdt1)"
    using rdt2(1) by simp
  define rdt3 where "rdt3 = (if send_queue rdt1 \<noteq> [] then rdt2 else rdt1)"
  have rdt3: "flight_send_queue rdt3 = rev ps" "sent rdt3 = rev (send_queue rdt) @ ps" "send_queue rdt3 = []"
    "send_wnd_base rdt3 = send_wnd_base rdt" "current_send_seq rdt3 = seq_after (length ps) (send_wnd_base rdt)"
    "ring_abs (send_buffer rdt3) = []" "recv_buffer rdt3 = recv_buffer rdt" "mtu rdt3 = mtu rdt" "clock_reads rdt3 = clock_reads rdt1"
    using rdt1 arg_cong [OF rdt2(2), of flight_send_queue] arg_cong [OF rdt2(2), of sent] arg_cong [OF rdt2(2), of send_queue]
      arg_cong [OF rdt2(2), of send_wnd_base] arg_cong [OF rdt2(2), of current_send_seq] arg_cong [OF rdt2(2), of send_buffer]
      arg_cong [OF rdt2(2), of recv_buffer] arg_cong [OF rdt2(2), of mtu] arg_cong [OF rdt2(2), of clock_reads]
    by (auto simp: rdt3_def)
  have "\<forall>p\<in>set (rev ps). stamped clk rdt3 p"
    using fl(4) rdt3(9) by (simp add: stamped_def)
  then have "resend_loop clk rdt3 [] (rev ps) = Some (Inr (rdt3\<lparr>flight_send_queue := rev ps, clock_reads := clock_reads rdt3 + length ps\<rparr>))"
    using resend_loop_quiet [OF assms(3), of "rev ps" rdt3 "[]"] by simp
  then have "send_worker clk rdt = Some (Inr (rdt3\<lparr>flight_send_queue := rev ps, clock_reads := clock_reads rdt3 + length ps\<rparr>))"
    using fl(1) idle rdt3(1) by (simp add: send_worker_def resend_expire_packet_def flip: rdt3_def)
  then show ?thesis
    using rdt3 fl(2) s by (intro exI [of _ "rdt3\<lparr>flight_send_queue := rev ps, clock_reads := clock_reads rdt3 + length ps\<rparr>"] exI [of _ ps]) simp
qed

text \<open>What the user's write does on an endpoint whose send buffer has room for it.\<close>

lemma rdt_send_fits:
  assumes "settled cap m rdt" and "ring_abs (send_buffer rdt) = []" and "length bs \<le> cap" and "length bs < 2 ^ 30"
  shows "\<exists>sb. rdt_send clk rdt bs (int (length bs)) = Some (int (length bs), rdt\<lparr>send_buffer := sb\<rparr>)
    \<and> settled cap m (rdt\<lparr>send_buffer := sb\<rparr>) \<and> ring_abs sb = bs"
proof -
  have ok: "ring_ok cap (send_buffer rdt)"
    using assms(1) by (simp add: settled_def)
  obtain sb where sb: "ringbuff_write (send_buffer rdt) bs (int (length bs)) = Some (int (length bs), sb)"
    "ring_ok cap sb" "ring_abs sb = bs"
    using ring_write_ok [OF ok assms(4) order_refl, of "length bs"] assms(2,3) by auto
  have "\<not> ringbuff_free_size (send_buffer rdt) < int (length bs)"
    using ring_free_size [OF ok] assms(2,3) by simp
  then have "rdt_send clk rdt bs (int (length bs)) = Some (int (length bs), rdt\<lparr>send_buffer := sb\<rparr>)"
    by (simp add: rdt_send_def loop_stop sb(1))
  moreover have "settled cap m (rdt\<lparr>send_buffer := sb\<rparr>)"
    using assms(1) sb(2) by (simp add: settled_def)
  ultimately show ?thesis
    using sb(3) by blast
qed

lemma rdt_recv_all:
  assumes "ring_ok cap (recv_buffer rdt)" and "ring_abs (recv_buffer rdt) = bs" and "bs \<noteq> []"
    and "length bs \<le> length buff" and "length buff < 2 ^ 30"
  shows "\<exists>rb. rdt_recv rdt buff (int (length buff)) = Some (int (length bs), bs @ drop (length bs) buff, rdt\<lparr>recv_buffer := rb\<rparr>)
    \<and> ring_abs rb = []"
proof -
  have "ringbuff_data_size (recv_buffer rdt) \<noteq> 0"
    using ring_data_size [OF assms(1)] assms(2,3) by simp
  then show ?thesis
    using ring_read_ok [OF assms(1) order_refl assms(5), of "length bs"] assms(2,4) by (auto simp: rdt_recv_def)
qed

text \<open>
  C12: over a channel that loses and reorders nothing, what \<open>rdt_send\<close> is given at one end, \<open>rdt_recv\<close>
  returns at the other, when it is at most nine packets of data and fits the buffers. One round of the
  sender's worker cuts the data into packets and sends them, the receiver appends their bytes to its
  receive buffer in order and answers each with an acknowledgement, and these empty the sender's flight
  queue and move its window up to the next number. No byte is lost, repeated or left behind on either
  side. Both ends are idle before with empty buffers, their sequence numbers do not wrap around
  meanwhile, their clocks stay within 100 units, so that nothing is sent again, and the blocks of the
  sender's C library hold an entry of the list of unacknowledged numbers.
\<close>

theorem burst_round_trip:
  assumes "settled ca m A" and "send_queue A = []" and "ring_abs (send_buffer A) = []" and "UNACK_BYTES \<le> unack_block A"
    and "settled cb m B" and "send_queue B = []" and "ring_abs (send_buffer B) = []"
    and "ring_ok cr (recv_buffer B)" and "ring_abs (recv_buffer B) = []"
    and "bs \<noteq> []" and "length bs \<le> 9 * m" and "length bs \<le> ca" and "length bs \<le> cr"
    and "length bs \<le> length buff" and "length buff < 2 ^ 30" and "calm clkA" and "calm clkB"
  shows "\<exists>A0 A1 B1 B2 A2 B3. rdt_send clkA A bs (int (length bs)) = Some (int (length bs), A0)
    \<and> send_worker clkA A0 = Some (Inr A1) \<and> recv_all clkB B (sent A1) = Some B1
    \<and> send_worker clkB B1 = Some (Inr B2) \<and> recv_all clkA A1 (sent B2) = Some A2
    \<and> rdt_recv B2 buff (int (length buff)) = Some (int (length bs), bs @ drop (length bs) buff, B3)
    \<and> ring_abs (send_buffer A2) = [] \<and> send_queue A2 = [] \<and> flight_send_queue A2 = []
    \<and> send_wnd_base A2 = current_send_seq A2
    \<and> ring_abs (recv_buffer B3) = [] \<and> send_queue B3 = [] \<and> flight_send_queue B3 = []"
proof -
  have "length bs < 2 ^ 30"
    using assms(14,15) by simp
  then obtain sb where A0: "rdt_send clkA A bs (int (length bs)) = Some (int (length bs), A\<lparr>send_buffer := sb\<rparr>)"
    "settled ca m (A\<lparr>send_buffer := sb\<rparr>)" "ring_abs sb = bs"
    using rdt_send_fits [OF assms(1,3,12), of clkA] by blast
  obtain A1 ps where A1: "send_worker clkA (A\<lparr>send_buffer := sb\<rparr>) = Some (Inr A1)" "carries m (send_wnd_base A) bs ps"
    "sent A1 = ps" "flight_send_queue A1 = rev ps" "send_queue A1 = []" "send_wnd_base A1 = send_wnd_base A"
    "current_send_seq A1 = seq_after (length ps) (send_wnd_base A)" "ring_abs (send_buffer A1) = []"
    using send_worker_ok [OF A0(2) _ assms(16)] A0(3) assms(2,4,11) by auto
  obtain as rb c n where B: "recv_all clkB B ps = Some (B\<lparr>current := c, clock_reads := n, send_queue := rev as, recv_buffer := rb\<rparr>)"
    "ring_ok cr rb" "list_all2 acks as ps" "ring_abs rb = bs"
    using recv_all_data [OF A1(2), of cr B clkB] assms(5,6,8,9,13) by (auto simp: settled_def)
  define B1 where "B1 = B\<lparr>current := c, clock_reads := n, send_queue := rev as, recv_buffer := rb\<rparr>"
  have "sends (rev as) = []"
    using B(3) by (auto simp: sends_def filter_empty_conv acks_def list_all2_conv_all_nth in_set_conv_nth)
  then have "settled cb m B1" "ring_abs (send_buffer B1) = []"
    using assms(5,7) by (simp_all add: settled_def B1_def)
  then obtain B2 where B2: "send_worker clkB B1 = Some (Inr B2)" "sent B2 = as" "flight_send_queue B2 = []" "send_queue B2 = []"
    "recv_buffer B2 = rb"
    using send_worker_ok [of cb m B1 clkB] assms(17) by (fastforce simp: B1_def elim: carries.elims)
  have "length ps \<le> 9"
    using carries_count [OF A1(2)] assms(1,11) by (simp add: settled_def)
  then have "uint (send_wnd_base A) + int (length ps) < SEQ_NUM_MAX"
    using assms(1) by (simp add: settled_def)
  then obtain b r where A2: "recv_all clkA A1 as = Some (A1\<lparr>flight_send_queue := [], send_wnd_base := seq_after (length ps) (send_wnd_base A),
     blame := b, resend_retry := r\<rparr>)"
    using recv_acks [OF A1(2) B(3), of A1 clkA] A1(4,6) by auto
  obtain rb' where B3: "rdt_recv B2 buff (int (length buff)) = Some (int (length bs), bs @ drop (length bs) buff, B2\<lparr>recv_buffer := rb'\<rparr>)"
    "ring_abs rb' = []"
    using rdt_recv_all [of cr B2 bs buff] B2(5) B(2,4) assms(10,14,15) by auto
  have "recv_all clkB B (sent A1) = Some B1" "recv_all clkA A1 (sent B2) = Some (A1\<lparr>flight_send_queue := [],
     send_wnd_base := seq_after (length ps) (send_wnd_base A), blame := b, resend_retry := r\<rparr>)"
    using A1(3) B(1) B2(2) A2 by (simp_all add: B1_def)
  then show ?thesis
    using A0(1) A1(1) B2(1) B3(1) by (intro exI conjI) (assumption | simp add: A1 B2 B3(2))+
qed

definition sample_end :: rdt where
  "sample_end = \<lparr>mtu = 4, resend_retry = 0, current = 0, current_send_seq = 9, wnd_size = RDT_WINDOW_SIZE,
     send_wnd_base = 9, send_queue = [], flight_send_queue = [], unack_list = [],
     send_buffer = \<lparr>rb_size = 8, wr_point = 5, rd_point = 5, rb_buffer = replicate 8 0\<rparr>,
     recv_buffer = \<lparr>rb_size = 8, wr_point = 6, rd_point = 6, rb_buffer = replicate 8 0\<rparr>,
     blame = 0, clock_reads = 0, sent = [], unack_block = 24\<rparr>"

theorem burst_round_trip_witness:
  "\<exists>A0 A1 B1 B2 B3. rdt_send (\<lambda>_. 0) sample_end [1, 2, 3, 4, 5] 5 = Some (5, A0) \<and> send_worker (\<lambda>_. 0) A0 = Some (Inr A1)
    \<and> recv_all (\<lambda>_. 0) sample_end (sent A1) = Some B1 \<and> send_worker (\<lambda>_. 0) B1 = Some (Inr B2)
    \<and> rdt_recv B2 [0, 0, 0, 0, 0, 0] 6 = Some (5, [1, 2, 3, 4, 5, 0], B3)"
proof -
  have "settled 7 4 sample_end" "ring_ok 7 (recv_buffer sample_end)" "ring_abs (send_buffer sample_end) = []"
    "ring_abs (recv_buffer sample_end) = []" "send_queue sample_end = []" "UNACK_BYTES \<le> unack_block sample_end"
    by (simp_all add: settled_def sample_end_def ring_ok_def ring_abs_def sends_def SEQ_NUM_MAX_def UNACK_BYTES_def)
  then show ?thesis
    using burst_round_trip [of 7 4 sample_end 7 sample_end 7 "[1, 2, 3, 4, 5]" "[0, 0, 0, 0, 0, 0]" "\<lambda>_. 0" "\<lambda>_. 0"]
    by (simp add: calm_def PACKET_EXPIRE_TIME_def) blast
qed

end
