(* ===== verification/RudpSession.thy ===== *)
theory RudpSession
  imports RudpCorrect
begin

text \<open>
  An endpoint of the reliable datagram protocol in a session: the user's calls, the rounds of its two
  workers and the datagrams that arrive, in any order. The theory shows the invariant of the reachable
  states, which two steps are undefined in them and that no other one is, and that a large write stalls
  the endpoint.
\<close>

section \<open>Steps\<close>

datatype rdt_event = User_send bytes | User_recv nat | Send_round | Datagram "packet option"

text \<open>A call of \<open>rdt_recv\<close> that has to wait leaves the state as it is.\<close>

fun rdt_do :: "(nat \<Rightarrow> u32) \<Rightarrow> rdt_event \<Rightarrow> rdt \<Rightarrow> (int + rdt) option" where
  "rdt_do clk (User_send bs) rdt = do { (_, rdt) \<leftarrow> rdt_send clk rdt bs (int (length bs)); Some (Inr rdt) }"
| "rdt_do clk (User_recv n) rdt =
     (if ringbuff_data_size (recv_buffer rdt) = 0 then Some (Inr rdt)
      else do { (_, _, rdt) \<leftarrow> rdt_recv rdt (replicate n 0) (int n); Some (Inr rdt) })"
| "rdt_do clk Send_round rdt = send_worker clk rdt"
| "rdt_do clk (Datagram d) rdt = map_option Inr (recv_worker clk rdt d)"

text \<open>The user's calls have lengths that fit the buffers. A datagram may hold anything; its bytes always
  give an acknowledgement a number.\<close>

fun proper :: "rdt_event \<Rightarrow> bool" where
  "proper (User_send bs) \<longleftrightarrow> int (length bs) < MAX_PROTOCOL_BUFF_LEN"
| "proper (User_recv n) \<longleftrightarrow> n < 2 ^ 30"
| "proper Send_round \<longleftrightarrow> True"
| "proper (Datagram None) \<longleftrightarrow> True"
| "proper (Datagram (Some p)) \<longleftrightarrow> (pk_cmd p = RDT_CMD_ACK \<longrightarrow> pk_ack p \<noteq> None)"

text \<open>A packet of data whose length field leaves the receive buffer, which the receiver does not check.\<close>

fun bad_length :: "rdt_event \<Rightarrow> bool" where
  "bad_length (Datagram (Some p)) \<longleftrightarrow> (pk_cmd p = RDT_CMD_SEND \<or> pk_cmd p = RDT_CMD_TEST) \<and> \<not> (0 \<le> pk_len p \<and> pk_len p < RDT_MTU + 4)"
| "bad_length (Datagram None) \<longleftrightarrow> False"
| "bad_length (User_send bs) \<longleftrightarrow> False"
| "bad_length (User_recv n) \<longleftrightarrow> False"
| "bad_length Send_round \<longleftrightarrow> False"

text \<open>A round of the sender that stores an entry of the list of unacknowledged numbers in too small a block.\<close>

definition overruns :: "(nat \<Rightarrow> u32) \<Rightarrow> rdt \<Rightarrow> bool" where
  "overruns clk rdt \<longleftrightarrow> unack_block rdt < UNACK_BYTES
     \<and> (case flush_buffer clk rdt of None \<Rightarrow> False | Some rdt1 \<Rightarrow> window_open rdt1 \<and> sends (send_queue rdt1) \<noteq> [])"

inductive reach :: "(nat \<Rightarrow> u32) \<Rightarrow> rdt \<Rightarrow> bool" for clk where
  start: "create_rdt block r = Some rdt \<Longrightarrow> 0 \<le> r \<Longrightarrow> reach clk rdt"
| step: "reach clk rdt \<Longrightarrow> proper ev \<Longrightarrow> rdt_do clk ev rdt = Some (Inr rdt') \<Longrightarrow> reach clk rdt'"

section \<open>The invariant\<close>

abbreviation buff_cap :: nat where "buff_cap \<equiv> 4194303"

definition numbered :: "packet \<Rightarrow> bool" where
  "numbered p \<longleftrightarrow> pk_cmd p = RDT_CMD_SEND \<and> pk_seq p \<noteq> None"

definition rdt_wf :: "rdt \<Rightarrow> bool" where
  "rdt_wf rdt \<longleftrightarrow> mtu rdt = RDT_MTU \<and> wnd_size rdt = RDT_WINDOW_SIZE
     \<and> ring_ok buff_cap (send_buffer rdt) \<and> ring_ok buff_cap (recv_buffer rdt)
     \<and> list_all numbered (sends (send_queue rdt)) \<and> list_all numbered (flight_send_queue rdt)
     \<and> sorted (unack_list rdt) \<and> 0 \<le> resend_retry rdt \<and> resend_retry rdt \<le> PACKET_RESEND_RETRY_MAX"

lemma create_rdt_wf:
  assumes "create_rdt block r = Some rdt"
  shows "rdt_wf rdt"
proof -
  obtain rb where "ringbuff_init MAX_PROTOCOL_BUFF_LEN = Some rb" "ring_ok buff_cap rb"
    using ringbuff_init_ok [of MAX_PROTOCOL_BUFF_LEN] by (auto simp: MAX_PROTOCOL_BUFF_LEN_def)
  then show ?thesis
    using assms by (auto simp: create_rdt_def rdt_wf_def PACKET_RESEND_RETRY_MAX_def sends_def bind_eq_Some_conv Let_def)
qed

lemma flushed_wf:
  assumes "rdt_wf rdt" and "carries m s bs ps" and "flushed buff_cap rdt ps rdt'"
  shows "rdt_wf rdt'"
proof -
  have "list_all numbered (sends (rev ps))"
    using carries_send [OF assms(2)] by (auto simp: list_all_iff numbered_def sends_def)
  then show ?thesis
    using assms(1) assms(3)[unfolded flushed_def]
    by (elim conjE ssubst) (auto simp: rdt_wf_def sends_def)
qed

lemma flush_buffer_wf:
  assumes "rdt_wf rdt"
  shows "\<exists>rdt' ps. flush_buffer clk rdt = Some rdt' \<and> rdt_wf rdt' \<and> flushed buff_cap rdt ps rdt'
    \<and> carries 1024 (current_send_seq rdt) (ring_abs (send_buffer rdt)) ps"
proof -
  have "mtu rdt = int 1024" "ring_ok buff_cap (send_buffer rdt)"
    using assms by (simp_all add: rdt_wf_def RDT_MTU_def)
  then obtain rdt' ps where "flush_buffer clk rdt = Some rdt'" "flushed buff_cap rdt ps rdt'"
    "carries 1024 (current_send_seq rdt) (ring_abs (send_buffer rdt)) ps"
    using flush_buffer_ok [of buff_cap rdt 1024 clk] by auto
  then show ?thesis
    using flushed_wf [OF assms] by blast
qed

lemma flush_queue_wf:
  assumes "rdt_wf rdt"
  shows "(flush_queue rdt = None \<longleftrightarrow> unack_block rdt < UNACK_BYTES \<and> window_open rdt \<and> sends (send_queue rdt) \<noteq> [])
    \<and> (\<forall>rdt'. flush_queue rdt = Some rdt' \<longrightarrow> rdt_wf rdt')"
proof (cases "window_open rdt")
  case True
  show ?thesis
  proof (cases "sends (send_queue rdt) = [] \<or> UNACK_BYTES \<le> unack_block rdt")
    case fits: True
    have "\<forall>p\<in>set (sends (send_queue rdt)). pk_seq p \<noteq> None"
      using assms by (auto simp: rdt_wf_def list_all_iff numbered_def)
    then show ?thesis
      using flush_queue_ok [OF _ True fits] assms fits by (auto simp: rdt_wf_def sends_def unacked_sorted)
  next
    case False
    then show ?thesis
      using flush_queue_overrun [OF True] True by simp
  qed
next
  case False
  with assms show ?thesis by (simp add: flush_queue_closed)
qed

lemma resend_loop_wf:
  assumes "rdt_wf rdt" and "list_all numbered passed" and "list_all numbered ps"
  shows "\<exists>r. resend_loop clk rdt passed ps = Some r \<and> (\<forall>rdt'. r = Inr rdt' \<longrightarrow> rdt_wf rdt')"
  using assms
proof (induction ps arbitrary: rdt passed)
  case Nil
  then show ?case by (simp add: rdt_wf_def)
next
  case (Cons p ps)
  obtain s where s: "pk_seq p = Some s"
    using Cons.prems(3) by (auto simp: numbered_def)
  define rdt1 where "rdt1 = rdt\<lparr>clock_reads := Suc (clock_reads rdt)\<rparr>"
  define q where "q = p\<lparr>pk_ts := clk (Suc (clock_reads rdt))\<rparr>"
  define rdt2 where "rdt2 = udt_send (rdt1\<lparr>clock_reads := Suc (Suc (clock_reads rdt)), current := clk (Suc (clock_reads rdt))\<rparr>) q"
  define rdt3 where "rdt3 = (if blame rdt2 = 0 then rdt2\<lparr>blame := s\<rparr> else rdt2)"
  define rdt4 where "rdt4 = rdt3\<lparr>resend_retry := resend_retry rdt3 + 1\<rparr>"
  have unfold: "resend_loop clk rdt passed (p # ps) =
    (if PACKET_EXPIRE_TIME < time_diff (clk (clock_reads rdt)) (pk_ts p)
     then if blame rdt3 \<noteq> 0 \<and> blame rdt3 = s
          then if PACKET_RESEND_RETRY_MAX < resend_retry rdt4 then Some (Inl (-1)) else resend_loop clk rdt4 (passed @ [q]) ps
          else resend_loop clk rdt3 (passed @ [q]) ps
     else resend_loop clk rdt1 (passed @ [p]) ps)"
    by (simp add: get_current_def get_and_update_current_def s rdt1_def q_def rdt2_def rdt3_def rdt4_def Let_def)
  have wf: "rdt_wf rdt1" "rdt_wf rdt3" "\<not> PACKET_RESEND_RETRY_MAX < resend_retry rdt4 \<Longrightarrow> rdt_wf rdt4"
    using Cons.prems(1) by (auto simp: rdt_wf_def rdt1_def rdt2_def rdt3_def rdt4_def udt_send_def)
  have "numbered q"
    using Cons.prems(3) by (simp add: q_def numbered_def)
  then have q: "list_all numbered (passed @ [q])" "list_all numbered (passed @ [p])" "list_all numbered ps"
    using Cons.prems(2,3) \<open>numbered q\<close> by simp_all
  show ?case
    unfolding unfold using Cons.IH [OF wf(1) q(2,3)] Cons.IH [OF wf(2) q(1,3)] Cons.IH [OF wf(3) q(1,3)] by auto
qed

lemma flushed_block: "flushed cap rdt ps rdt' \<Longrightarrow> unack_block rdt' = unack_block rdt"
  by (auto simp: flushed_def elim: ssubst)

lemma send_worker_wf:
  assumes "rdt_wf rdt"
  shows "(send_worker clk rdt = None \<longleftrightarrow> overruns clk rdt) \<and> (\<forall>rdt'. send_worker clk rdt = Some (Inr rdt') \<longrightarrow> rdt_wf rdt')"
proof -
  obtain rdt1 where rdt1: "flush_buffer clk rdt = Some rdt1" "rdt_wf rdt1" "unack_block rdt1 = unack_block rdt"
    using flush_buffer_wf [OF assms] flushed_block by blast
  define m where "m = (if send_queue rdt1 \<noteq> [] then flush_queue rdt1 else Some rdt1)"
  have undef: "m = None \<longleftrightarrow> overruns clk rdt"
    using flush_queue_wf [OF rdt1(2)] rdt1(1,3) by (simp add: m_def overruns_def sends_def)
  have worker: "send_worker clk rdt = Option.bind m (resend_expire_packet clk)"
    using rdt1(1) by (simp add: send_worker_def flip: m_def)
  show ?thesis
  proof (cases m)
    case None
    then show ?thesis
      using undef worker by simp
  next
    case (Some rdt2)
    then have rdt2: "rdt_wf rdt2"
      using flush_queue_wf [OF rdt1(2)] rdt1(2) by (auto simp: m_def split: if_splits)
    then have "list_all numbered (flight_send_queue rdt2)"
      by (simp add: rdt_wf_def)
    then show ?thesis
      using resend_loop_wf [OF rdt2, of "[]" "flight_send_queue rdt2" clk] undef worker Some
      by (auto simp: resend_expire_packet_def)
  qed
qed

lemma recv_ack_wf: "rdt_wf rdt \<Longrightarrow> rdt_wf (recv_ack rdt s)"
  by (auto simp: rdt_wf_def recv_ack_def Let_def list_unlink_def PACKET_RESEND_RETRY_MAX_def list_all_iff
      dest: in_set_takeD in_set_dropD split: option.split)

lemma recv_worker_wf:
  assumes "rdt_wf rdt" and "proper (Datagram d)"
  shows "(recv_worker clk rdt d = None \<longleftrightarrow> bad_length (Datagram d)) \<and> (\<forall>rdt'. recv_worker clk rdt d = Some rdt' \<longrightarrow> rdt_wf rdt')"
proof (cases d)
  case None
  with assms(1) show ?thesis by (simp add: recv_worker_def)
next
  case (Some p)
  have data: "(recv_data rdt1 p = None \<longleftrightarrow> \<not> (0 \<le> pk_len p \<and> pk_len p < RDT_MTU + 4)) \<and> (\<forall>rdt'. recv_data rdt1 p = Some rdt' \<longrightarrow> rdt_wf rdt')"
    if wf: "rdt_wf rdt1" for rdt1
  proof (cases "0 \<le> pk_len p \<and> pk_len p < RDT_MTU + 4")
    case True
    then obtain n where n: "pk_len p = int n"
      using nonneg_int_cases by blast
    have "ring_ok buff_cap (recv_buffer rdt1)" "n < nat (mtu rdt1 + 4)" "mtu rdt1 < 2 ^ 29"
      using wf True n by (simp_all add: rdt_wf_def RDT_MTU_def)
    from recv_data_ok [OF this(1) n this(2,3) refl] show ?thesis
      using wf True by (auto simp: rdt_wf_def)
  next
    case False
    then show ?thesis
      using recv_data_outside [of p rdt1] wf by (simp add: rdt_wf_def RDT_MTU_def)
  qed
  show ?thesis
  proof (cases "pk_cmd p")
    case RDT_CMD_ACK
    then obtain s where "pk_ack p = Some s"
      using assms(2) Some by auto
    then show ?thesis
      using RDT_CMD_ACK Some recv_ack_wf [OF assms(1)] by (simp add: recv_worker_def)
  next
    case RDT_CMD_SEND
    define a where "a = \<lparr>pk_cmd = RDT_CMD_ACK, pk_size = sizeof_packet, pk_len = 0, pk_seq = None, pk_ack = pk_seq p,
      pk_ts = clk (clock_reads rdt), pk_data = []\<rparr>"
    define rdt1 where "rdt1 = rdt\<lparr>current := clk (clock_reads rdt), clock_reads := Suc (clock_reads rdt), send_queue := a # send_queue rdt\<rparr>"
    have "rdt_wf rdt1"
      using assms(1) by (simp add: rdt_wf_def sends_def rdt1_def a_def)
    moreover have "recv_worker clk rdt d = recv_data rdt1 p"
      using RDT_CMD_SEND Some by (simp add: recv_worker_def make_packet_ack rdt1_def a_def)
    ultimately show ?thesis
      using data [of rdt1] RDT_CMD_SEND Some by simp
  qed (use assms(1) data Some in \<open>simp_all add: recv_worker_def\<close>)
qed

lemma flushed_room: "flushed buff_cap rdt ps rdt' \<Longrightarrow> ringbuff_free_size (send_buffer rdt') = int buff_cap"
  using ring_free_size [of buff_cap "send_buffer rdt'"] by (simp add: flushed_def)

text \<open>\<open>rdt_send\<close> takes all of the data: it writes at once or after one flush.\<close>

lemma rdt_send_ok:
  assumes "rdt_wf rdt" and "length bs \<le> buff_cap"
  shows "\<exists>rdt1 sb. rdt_send clk rdt bs (int (length bs)) = Some (int (length bs), rdt1\<lparr>send_buffer := sb\<rparr>)
    \<and> rdt_wf (rdt1\<lparr>send_buffer := sb\<rparr>) \<and> ring_abs sb = ring_abs (send_buffer rdt1) @ bs
    \<and> (rdt1 = rdt \<or> ringbuff_free_size (send_buffer rdt) < int (length bs) \<and> flush_buffer clk rdt = Some rdt1)"
proof -
  let ?body = "\<lambda>rdt. if ringbuff_free_size (send_buffer rdt) < int (length bs)
      then do { rdt \<leftarrow> flush_buffer clk rdt; Some (Inl rdt) } else Some (Inr rdt)"
  obtain rdt1 where rdt1: "loop ?body rdt = Some rdt1" "rdt_wf rdt1" "rdt1 = rdt \<or> ringbuff_free_size (send_buffer rdt) < int (length bs) \<and> flush_buffer clk rdt = Some rdt1"
    "int (length bs) \<le> ringbuff_free_size (send_buffer rdt1)"
  proof (cases "ringbuff_free_size (send_buffer rdt) < int (length bs)")
    case True
    obtain rdt1 ps where f: "flush_buffer clk rdt = Some rdt1" "rdt_wf rdt1" "flushed buff_cap rdt ps rdt1"
      using flush_buffer_wf [OF assms(1)] by blast
    have "loop ?body rdt = loop ?body rdt1"
      using True f(1) by (intro loop_next) simp
    also have "\<dots> = Some rdt1"
      using flushed_room [OF f(3)] assms(2) by (intro loop_stop) simp
    finally show ?thesis
      using that [of rdt1] f True flushed_room [OF f(3)] assms(2) by simp
  next
    case False
    then have "loop ?body rdt = Some rdt"
      by (intro loop_stop) simp
    with False that [of rdt] assms(1) show ?thesis by simp
  qed
  have ok: "ring_ok buff_cap (send_buffer rdt1)"
    using rdt1(2) by (simp add: rdt_wf_def)
  have "length bs = min (length bs) (buff_cap - length (ring_abs (send_buffer rdt1)))"
    using rdt1(4) ring_free_size [OF ok] by simp
  then obtain sb where sb: "ringbuff_write (send_buffer rdt1) bs (int (length bs)) = Some (int (length bs), sb)"
    "ring_ok buff_cap sb" "ring_abs sb = ring_abs (send_buffer rdt1) @ bs"
    using ring_write_ok [OF ok, of "length bs" bs "length bs"] assms(2) by auto
  have "rdt_wf (rdt1\<lparr>send_buffer := sb\<rparr>)"
    using rdt1(2) sb(2) by (simp add: rdt_wf_def)
  moreover have "rdt_send clk rdt bs (int (length bs)) = Some (int (length bs), rdt1\<lparr>send_buffer := sb\<rparr>)"
    using rdt1(1) sb(1) by (simp add: rdt_send_def)
  ultimately show ?thesis
    using rdt1(3) sb(3) by blast
qed

lemma rdt_do_wf:
  assumes "rdt_wf rdt" and "proper ev"
  shows "(rdt_do clk ev rdt = None \<longleftrightarrow> bad_length ev \<or> ev = Send_round \<and> overruns clk rdt)
    \<and> (\<forall>rdt'. rdt_do clk ev rdt = Some (Inr rdt') \<longrightarrow> rdt_wf rdt')"
proof (cases ev)
  case (User_send bs)
  then have "length bs \<le> buff_cap"
    using assms(2) by (simp add: MAX_PROTOCOL_BUFF_LEN_def)
  then obtain rdt' where "rdt_send clk rdt bs (int (length bs)) = Some (int (length bs), rdt')" "rdt_wf rdt'"
    using rdt_send_ok [OF assms(1), of bs clk] by blast
  then have "rdt_do clk (User_send bs) rdt = Some (Inr rdt')"
    by simp
  with User_send \<open>rdt_wf rdt'\<close> show ?thesis by simp
next
  case (User_recv n)
  have "ring_ok buff_cap (recv_buffer rdt)" "n \<le> length (replicate n (0::u8))" "n < 2 ^ 30"
    using assms User_recv by (simp_all add: rdt_wf_def)
  from ring_read_ok [OF this refl] obtain k out rb where "ringbuff_read (recv_buffer rdt) (replicate n 0) (int n) = Some (k, out, rb)"
    "ring_ok buff_cap rb"
    by blast
  with User_recv assms(1) show ?thesis
    by (simp add: rdt_recv_def) (simp add: rdt_wf_def)
next
  case Send_round
  with send_worker_wf [OF assms(1)] show ?thesis by simp
next
  case (Datagram d)
  with recv_worker_wf [OF assms(1), of d clk] assms(2) show ?thesis by auto
qed

lemma reach_wf: "reach clk rdt \<Longrightarrow> rdt_wf rdt"
proof (induction rule: reach.induct)
  case (start r rdt)
  then show ?case by (blast intro: create_rdt_wf)
next
  case (step rdt ev rdt')
  then show ?case using rdt_do_wf [of rdt ev clk] by auto
qed

text \<open>
  C11: in every state an endpoint reaches from \<open>create_rdt\<close> by calls of its user, rounds of its workers
  and datagrams of any contents, in any order, exactly two kinds of steps are undefined: to receive a
  data packet whose length field is negative or leaves the receive buffer (protocol.c:487 does not check
  it), and a round of the sender that has data to send and an open window when the blocks that \<open>malloc\<close>
  returns for 8 bytes have less than the 20 bytes that are written there (protocol.c:207 allocates the
  size of a pointer). All other steps are defined: the ring buffers are never overrun, every loop ends,
  no uninitialised sequence number is read. The packets in flight are numbered data packets, the list of
  unacknowledged numbers is sorted and the retry count stays at most \<open>PACKET_RESEND_RETRY_MAX\<close>. The user
  writes less than the size of the buffer at once; a longer \<open>rdt_send\<close> would wait for ever.
\<close>

theorem session_invariant:
  assumes "reach clk rdt" and "proper ev"
  shows "(rdt_do clk ev rdt = None \<longleftrightarrow> bad_length ev \<or> ev = Send_round \<and> overruns clk rdt)
    \<and> ring_ok buff_cap (send_buffer rdt) \<and> ring_ok buff_cap (recv_buffer rdt)
    \<and> (\<forall>p\<in>set (flight_send_queue rdt). pk_cmd p = RDT_CMD_SEND \<and> pk_seq p \<noteq> None)
    \<and> sorted (unack_list rdt) \<and> 0 \<le> resend_retry rdt \<and> resend_retry rdt \<le> PACKET_RESEND_RETRY_MAX"
  using reach_wf [OF assms(1)] rdt_do_wf [OF _ assms(2), of rdt clk]
  by (auto simp: rdt_wf_def list_all_iff numbered_def)

section \<open>The stalled window\<close>

text \<open>All of the window is used up and nothing is in flight that an acknowledgement could release.\<close>

definition stalled :: "u32 \<Rightarrow> rdt \<Rightarrow> bool" where
  "stalled base rdt \<longleftrightarrow> rdt_wf rdt \<and> flight_send_queue rdt = [] \<and> send_wnd_base rdt = base
     \<and> uint base + 10 \<le> uint (current_send_seq rdt)"

text \<open>The numbers that the data at hand can still use up: at most one for each byte.\<close>

definition used :: "rdt \<Rightarrow> int" where
  "used rdt = uint (current_send_seq rdt) + int (length (ring_abs (send_buffer rdt)))"

fun event_bytes :: "rdt_event \<Rightarrow> int" where
  "event_bytes (User_send bs) = int (length bs)"
| "event_bytes _ = 0"

lemma stalled_closed: "stalled base rdt \<Longrightarrow> \<not> window_open rdt"
proof -
  assume st: "stalled base rdt"
  then have "uint base + 10 < 2 ^ 32"
    using uint_lt2p [of "current_send_seq rdt"] by (simp add: stalled_def)
  then have "uint (9 + base) = uint base + 9"
    by (simp add: uint_word_ariths)
  with st show ?thesis
    by (simp add: window_open_def stalled_def rdt_wf_def RDT_WINDOW_SIZE_def word_le_def add.commute)
qed

lemma flushed_used:
  assumes "carries m (current_send_seq rdt) (ring_abs (send_buffer rdt)) ps" and "0 < m" and "flushed cap rdt ps rdt'"
    and "used rdt < SEQ_NUM_MAX"
  shows "uint (current_send_seq rdt') = uint (current_send_seq rdt) + int (length ps)"
    and "used rdt' \<le> used rdt"
proof -
  have n: "length ps \<le> length (ring_abs (send_buffer rdt))"
    using carries_length [OF assms(1,2)] by simp
  have fields: "current_send_seq rdt' = seq_after (length ps) (current_send_seq rdt)" "ring_abs (send_buffer rdt') = []"
    using assms(3) by (auto simp: flushed_def elim: ssubst)
  show "uint (current_send_seq rdt') = uint (current_send_seq rdt) + int (length ps)"
    using n assms(4) seq_after_uint [of "current_send_seq rdt" "length ps"] by (simp add: fields used_def)
  then show "used rdt' \<le> used rdt"
    using n by (simp add: used_def fields)
qed

lemma flushed_stalled:
  assumes "stalled base rdt" and "flush_buffer clk rdt = Some rdt'" and "used rdt < SEQ_NUM_MAX"
  shows "stalled base rdt' \<and> sent rdt' = sent rdt \<and> used rdt' \<le> used rdt"
proof -
  obtain ps where f: "rdt_wf rdt'" "flushed buff_cap rdt ps rdt'"
    "carries 1024 (current_send_seq rdt) (ring_abs (send_buffer rdt)) ps"
    using flush_buffer_wf [of rdt clk] assms(1,2) by (auto simp: stalled_def)
  have "flight_send_queue rdt' = flight_send_queue rdt" "send_wnd_base rdt' = send_wnd_base rdt" "sent rdt' = sent rdt"
    using f(2) by (auto simp: flushed_def elim: ssubst)
  then show ?thesis
    using assms(1) f(1) flushed_used [OF f(3) _ f(2) assms(3)] by (simp add: stalled_def)
qed

lemma send_worker_idle:
  assumes "flush_buffer clk rdt = Some rdt1" and "flush_queue rdt1 = Some rdt1" and "flight_send_queue rdt1 = []"
  shows "send_worker clk rdt = Some (Inr rdt1)"
proof -
  have "(if send_queue rdt1 \<noteq> [] then flush_queue rdt1 else Some rdt1) = Some rdt1"
    using assms(2) by simp
  moreover have "rdt1\<lparr>flight_send_queue := []\<rparr> = rdt1"
    using assms(3) by (cases rdt1) simp
  ultimately show ?thesis
    using assms(1,3) by (simp add: send_worker_def resend_expire_packet_def)
qed

definition quiet :: "rdt \<Rightarrow> rdt \<Rightarrow> bool" where
  "quiet rdt rdt' \<longleftrightarrow> flight_send_queue rdt' = flight_send_queue rdt \<and> send_wnd_base rdt' = send_wnd_base rdt
     \<and> current_send_seq rdt' = current_send_seq rdt \<and> send_buffer rdt' = send_buffer rdt \<and> sent rdt' = sent rdt"

lemma recv_data_quiet: "recv_data rdt p = Some rdt' \<Longrightarrow> quiet rdt rdt'"
  by (auto simp: recv_data_def bind_eq_Some_conv quiet_def split: if_splits)

lemma recv_worker_quiet:
  assumes "recv_worker clk rdt d = Some rdt'" and "flight_send_queue rdt = []"
  shows "quiet rdt rdt'"
proof (cases d)
  case None
  with assms(1) show ?thesis by (simp add: recv_worker_def quiet_def)
next
  case (Some p)
  show ?thesis
  proof (cases "pk_cmd p")
    case RDT_CMD_ACK
    with assms Some show ?thesis by (auto simp: recv_worker_def recv_ack_def quiet_def)
  next
    case RDT_CMD_SEND
    with assms(1) Some obtain a c n where "recv_data (rdt\<lparr>current := c, clock_reads := n, send_queue := a\<rparr>) p = Some rdt'"
      by (auto simp: recv_worker_def make_packet_ack)
    from recv_data_quiet [OF this] show ?thesis by (simp add: quiet_def)
  next
    case RDT_CMD_TEST
    with assms(1) Some have "recv_data rdt p = Some rdt'" by (simp add: recv_worker_def)
    then show ?thesis by (rule recv_data_quiet)
  qed (use assms(1) Some in \<open>simp add: recv_worker_def quiet_def\<close>)
qed

lemma stalled_step:
  assumes "stalled base rdt" and "proper ev" and "rdt_do clk ev rdt = Some (Inr rdt')" and "used rdt + event_bytes ev < SEQ_NUM_MAX"
  shows "stalled base rdt' \<and> sent rdt' = sent rdt \<and> used rdt' \<le> used rdt + event_bytes ev"
proof -
  have wf: "rdt_wf rdt" "rdt_wf rdt'"
    using assms(1,3) rdt_do_wf [of rdt ev clk] assms(2) by (auto simp: stalled_def)
  show ?thesis
  proof (cases ev)
    case (User_send bs)
    then have len: "length bs \<le> buff_cap" "used rdt < SEQ_NUM_MAX"
      using assms(2,4) by (simp_all add: MAX_PROTOCOL_BUFF_LEN_def)
    obtain rdt1 sb where s: "rdt1 = rdt \<or> flush_buffer clk rdt = Some rdt1"
      "rdt_send clk rdt bs (int (length bs)) = Some (int (length bs), rdt1\<lparr>send_buffer := sb\<rparr>)"
      "ring_abs sb = ring_abs (send_buffer rdt1) @ bs"
      using rdt_send_ok [OF wf(1) len(1), of clk] by blast
    have rdt': "rdt' = rdt1\<lparr>send_buffer := sb\<rparr>"
      using assms(3) s(2) User_send by simp
    from s(1) have "stalled base rdt1 \<and> sent rdt1 = sent rdt \<and> used rdt1 \<le> used rdt"
      using flushed_stalled [OF assms(1) _ len(2)] assms(1) by auto
    then show ?thesis
      using s(3) rdt' wf(2) User_send by (simp add: stalled_def used_def)
  next
    case (User_recv n)
    then have "\<exists>rb. rdt' = rdt\<lparr>recv_buffer := rb\<rparr>"
      using assms(3) by (auto simp: rdt_recv_def bind_eq_Some_conv split: if_splits) (metis rdt.surjective rdt.update_convs(11))
    then show ?thesis
      using assms(1) wf(2) User_recv by (auto simp: stalled_def used_def)
  next
    case Send_round
    obtain rdt1 where f: "flush_buffer clk rdt = Some rdt1"
      using flush_buffer_wf [OF wf(1)] by blast
    then have st: "stalled base rdt1" "sent rdt1 = sent rdt" "used rdt1 \<le> used rdt"
      using flushed_stalled [OF assms(1) f] assms(4) Send_round by simp_all
    have "flush_queue rdt1 = Some rdt1" "flight_send_queue rdt1 = []"
      using flush_queue_closed [OF stalled_closed [OF st(1)]] st(1) by (simp_all add: stalled_def)
    then have "rdt' = rdt1"
      using assms(3) Send_round send_worker_idle [OF f] by simp
    with st Send_round show ?thesis by simp
  next
    case (Datagram d)
    have "quiet rdt rdt'"
      using recv_worker_quiet [of clk rdt d] assms(1,3) Datagram by (auto simp: stalled_def)
    then show ?thesis
      using assms(1) wf(2) Datagram by (simp add: stalled_def used_def quiet_def)
  qed
qed

fun rdt_run :: "(nat \<Rightarrow> u32) \<Rightarrow> rdt_event list \<Rightarrow> rdt \<Rightarrow> (int + rdt) option" where
  "rdt_run clk [] rdt = Some (Inr rdt)"
| "rdt_run clk (ev # evs) rdt = bindE (rdt_do clk ev rdt) (rdt_run clk evs)"

lemma bindE_Inr: "bindE m f = Some (Inr y) \<longleftrightarrow> (\<exists>x. m = Some (Inr x) \<and> f x = Some (Inr y))"
  by (cases m) (auto simp: bindE_def split: sum.splits)

lemma stalled_run:
  assumes "stalled base rdt" and "\<forall>ev\<in>set evs. proper ev" and "rdt_run clk evs rdt = Some (Inr rdt')"
    and "used rdt + sum_list (map event_bytes evs) < SEQ_NUM_MAX"
  shows "sent rdt' = sent rdt"
  using assms
proof (induction evs arbitrary: rdt)
  case (Cons ev evs)
  obtain rdt1 where rdt1: "rdt_do clk ev rdt = Some (Inr rdt1)" "rdt_run clk evs rdt1 = Some (Inr rdt')"
    using Cons.prems(3) by (auto simp: bindE_Inr)
  have pos: "0 \<le> sum_list (map event_bytes evs)"
  proof (rule sum_list_nonneg)
    fix x
    assume "x \<in> set (map event_bytes evs)"
    then obtain e where "x = event_bytes e" by auto
    then show "0 \<le> x" by (cases e) auto
  qed
  then have st: "stalled base rdt1" "sent rdt1 = sent rdt" "used rdt1 \<le> used rdt + event_bytes ev"
    using stalled_step [OF Cons.prems(1) _ rdt1(1)] Cons.prems(2,4) by simp_all
  then show ?case
    using Cons.IH [OF st(1) _ rdt1(2)] Cons.prems(2,4) by simp
qed simp

text \<open>A fresh endpoint that was given more than nine packets of data at once.\<close>

lemma large_write_stalled:
  assumes "rdt_wf rdt" and "send_queue rdt = []" and "flight_send_queue rdt = []" and "send_wnd_base rdt = current_send_seq rdt"
    and "9 * 1024 < length (ring_abs (send_buffer rdt))" and "used rdt < SEQ_NUM_MAX"
  shows "\<exists>rdt'. send_worker clk rdt = Some (Inr rdt') \<and> stalled (send_wnd_base rdt) rdt' \<and> sent rdt' = sent rdt
    \<and> used rdt' \<le> used rdt"
proof -
  obtain rdt1 ps where f: "flush_buffer clk rdt = Some rdt1" "rdt_wf rdt1" "flushed buff_cap rdt ps rdt1"
    "carries 1024 (current_send_seq rdt) (ring_abs (send_buffer rdt)) ps"
    using flush_buffer_wf [OF assms(1)] by blast
  have "10 \<le> length ps"
    using carries_length [OF f(4)] assms(5) by simp
  moreover have same: "flight_send_queue rdt1 = []" "send_wnd_base rdt1 = send_wnd_base rdt" "sent rdt1 = sent rdt"
    using f(3) assms(3) by (auto simp: flushed_def elim: ssubst)
  ultimately have st: "stalled (send_wnd_base rdt) rdt1"
    using flushed_used(1) [OF f(4) _ f(3) assms(6)] f(2) assms(4) by (simp add: stalled_def)
  show ?thesis
    using send_worker_idle [OF f(1) flush_queue_closed [OF stalled_closed [OF st]] same(1)]
      st same flushed_used(2) [OF f(4) _ f(3) assms(6)] by simp
qed

lemma create_rdt_fresh:
  assumes "create_rdt block r = Some rdt" and "0 \<le> r" and "r + 1 < SEQ_NUM_MAX"
  shows "send_queue rdt = []" "flight_send_queue rdt = []" "sent rdt = []" "send_wnd_base rdt = current_send_seq rdt"
    "ring_abs (send_buffer rdt) = []" "unack_block rdt = block" "uint (current_send_seq rdt) = r + 1"
proof -
  show f: "send_queue rdt = []" "flight_send_queue rdt = []" "sent rdt = []" "send_wnd_base rdt = current_send_seq rdt"
    "ring_abs (send_buffer rdt) = []" "unack_block rdt = block"
    using assms(1)
    by (auto simp: create_rdt_def bind_eq_Some_conv Let_def ringbuff_init_def ring_abs_def split: if_splits)
  have "current_send_seq rdt = word_of_int r + 1"
    using assms
    by (auto simp: create_rdt_def bind_eq_Some_conv Let_def cmod_nonneg SEQ_NUM_MAX_def)
  then show "uint (current_send_seq rdt) = r + 1"
    using assms(2,3) by (simp add: uint_word_ariths uint_word_of_int SEQ_NUM_MAX_def)
qed

lemma create_rdt_ok: "0 \<le> r \<Longrightarrow> \<exists>rdt. create_rdt block r = Some rdt"
  using ringbuff_init_ok [of MAX_PROTOCOL_BUFF_LEN]
  by (auto simp: create_rdt_def MAX_PROTOCOL_BUFF_LEN_def cmod_nonneg SEQ_NUM_MAX_def Let_def)

lemma large_write_round:
  assumes "create_rdt block r = Some rdt" and "0 \<le> r" and "9 * 1024 < length bs" and "proper (User_send bs)"
    and "r + 1 + int (length bs) < SEQ_NUM_MAX"
  shows "\<exists>rdt1 rdt2. rdt_do clk (User_send bs) rdt = Some (Inr rdt1) \<and> send_worker clk rdt1 = Some (Inr rdt2)
    \<and> stalled (send_wnd_base rdt) rdt2 \<and> sent rdt2 = [] \<and> used rdt2 \<le> r + 1 + int (length bs)"
proof -
  have "r + 1 < SEQ_NUM_MAX"
    using assms(5) by simp
  note fresh = create_rdt_fresh [OF assms(1,2) this]
  have wf: "rdt_wf rdt"
    by (rule create_rdt_wf [OF assms(1)])
  have len: "length bs \<le> buff_cap"
    using assms(4) by (simp add: MAX_PROTOCOL_BUFF_LEN_def)
  obtain rdt0 sb where s: "rdt_send clk rdt bs (int (length bs)) = Some (int (length bs), rdt0\<lparr>send_buffer := sb\<rparr>)"
    "rdt_wf (rdt0\<lparr>send_buffer := sb\<rparr>)" "ring_abs sb = ring_abs (send_buffer rdt0) @ bs"
    "rdt0 = rdt \<or> ringbuff_free_size (send_buffer rdt) < int (length bs)"
    using rdt_send_ok [OF wf len, of clk] by blast
  have "ringbuff_free_size (send_buffer rdt) = int buff_cap"
    using ring_free_size [of buff_cap "send_buffer rdt"] wf fresh(5) by (simp add: rdt_wf_def)
  then have rdt0: "rdt0 = rdt" "ring_abs sb = bs"
    using s(3,4) len fresh(5) by auto
  define rdt1 where "rdt1 = rdt\<lparr>send_buffer := sb\<rparr>"
  have "used rdt1 = r + 1 + int (length bs)"
    using fresh(7) rdt0(2) by (simp add: used_def rdt1_def)
  then show ?thesis
    using large_write_stalled [of rdt1 clk] s(1,2) rdt0 fresh assms(3,5) by (auto simp: rdt1_def)
qed

lemma event_bytes_nonneg: "0 \<le> sum_list (map event_bytes evs)"
proof (rule sum_list_nonneg)
  fix x
  assume "x \<in> set (map event_bytes evs)"
  then obtain e where "x = event_bytes e" by auto
  then show "0 \<le> x" by (cases e) auto
qed

text \<open>
  C13: a write of more than nine packets stalls a fresh endpoint for good. \<open>flush_buffer\<close> numbers all of
  the data before \<open>flush_queue\<close> compares the next number with the window, so the window is exceeded
  before the first packet has left; no acknowledgement can come, and whatever the user, the workers and
  the peer do afterwards, no datagram is ever handed to \<open>sendto\<close> (as long as the 32-bit sequence
  numbers do not come round).
\<close>

theorem large_write_stalls:
  assumes "create_rdt block r = Some rdt" and "0 \<le> r" and "9 * 1024 < length bs" and "\<forall>ev\<in>set (User_send bs # evs). proper ev"
    and "r + 1 + int (length bs) + sum_list (map event_bytes evs) < SEQ_NUM_MAX"
    and "rdt_run clk (User_send bs # Send_round # evs) rdt = Some (Inr rdt')"
  shows "sent rdt' = []"
proof -
  have "r + 1 + int (length bs) < SEQ_NUM_MAX"
    using assms(5) event_bytes_nonneg [of evs] by simp
  then obtain rdt1 rdt2 where r: "rdt_do clk (User_send bs) rdt = Some (Inr rdt1)" "send_worker clk rdt1 = Some (Inr rdt2)"
    "stalled (send_wnd_base rdt) rdt2" "sent rdt2 = []" "used rdt2 \<le> r + 1 + int (length bs)"
    using large_write_round [OF assms(1-3), of clk] assms(4) by auto
  have "rdt_run clk evs rdt2 = Some (Inr rdt')"
    using assms(6) r(1,2) by (simp del: rdt_do.simps(1))
  from stalled_run [OF r(3) _ this] show ?thesis
    using assms(4,5) r(4,5) by auto
qed

theorem large_write_stalls_witness:
  "\<exists>rdt rdt'. create_rdt 24 7 = Some rdt
    \<and> rdt_run (\<lambda>_. 0) [User_send (replicate 9217 0), Send_round, Datagram None] rdt = Some (Inr rdt') \<and> sent rdt' = []"
proof -
  obtain rdt where rdt: "create_rdt 24 7 = Some rdt"
    using create_rdt_ok [of 7 24] by auto
  obtain rdt1 rdt2 where "rdt_do (\<lambda>_. 0) (User_send (replicate 9217 0)) rdt = Some (Inr rdt1)" "send_worker (\<lambda>_. 0) rdt1 = Some (Inr rdt2)"
    using large_write_round [OF rdt, of "replicate 9217 0" "\<lambda>_. 0"] by (auto simp: MAX_PROTOCOL_BUFF_LEN_def SEQ_NUM_MAX_def)
  then have run: "rdt_run (\<lambda>_. 0) (User_send (replicate 9217 0) # Send_round # [Datagram None]) rdt = Some (Inr rdt2)"
    by (simp add: recv_worker_def del: rdt_do.simps(1))
  have "sent rdt2 = []"
    by (rule large_write_stalls [OF rdt _ _ _ _ run]) (simp_all add: MAX_PROTOCOL_BUFF_LEN_def SEQ_NUM_MAX_def)
  with rdt run show ?thesis by blast
qed

theorem session_invariant_witness:
  "\<exists>rdt. create_rdt 24 7 = Some rdt \<and> rdt_do (\<lambda>_. 0) Send_round rdt \<noteq> None \<and> sorted (unack_list rdt)"
proof -
  obtain rdt where rdt: "create_rdt 24 7 = Some rdt"
    using create_rdt_ok [of 7 24] by auto
  then have "reach (\<lambda>_. 0) rdt"
    by (rule reach.start) simp
  moreover have "\<not> overruns (\<lambda>_. 0) rdt"
    using create_rdt_fresh(6) [OF rdt] by (simp add: overruns_def UNACK_BYTES_def SEQ_NUM_MAX_def)
  ultimately show ?thesis
    using session_invariant [of "\<lambda>_. 0" rdt Send_round] rdt by auto
qed

section \<open>The overrun block\<close>

text \<open>
  C19: when \<open>malloc\<close> returns blocks of the size it is asked for, as protocol.c:207 may rely on, nothing can
  ever be sent: on a fresh endpoint the first round of the sender after any write of up to nine packets
  writes beyond the end of a block.
\<close>

theorem first_packet_overruns:
  assumes "create_rdt block r = Some rdt" and "0 \<le> r" and "r + 11 < SEQ_NUM_MAX" and "block < UNACK_BYTES"
    and "bs \<noteq> []" and "length bs \<le> 9 * 1024"
  shows "rdt_run clk [User_send bs, Send_round] rdt = None"
proof -
  have "r + 1 < SEQ_NUM_MAX" "length bs \<le> buff_cap"
    using assms(3,6) by simp_all
  note fresh = create_rdt_fresh [OF assms(1,2) this(1)] and len = this(2)
  have wf: "rdt_wf rdt"
    by (rule create_rdt_wf [OF assms(1)])
  obtain rdt0 sb where s: "rdt_send clk rdt bs (int (length bs)) = Some (int (length bs), rdt0\<lparr>send_buffer := sb\<rparr>)"
    "rdt_wf (rdt0\<lparr>send_buffer := sb\<rparr>)" "ring_abs sb = ring_abs (send_buffer rdt0) @ bs"
    "rdt0 = rdt \<or> ringbuff_free_size (send_buffer rdt) < int (length bs)"
    using rdt_send_ok [OF wf len, of clk] by blast
  have "ringbuff_free_size (send_buffer rdt) = int buff_cap"
    using ring_free_size [of buff_cap "send_buffer rdt"] wf fresh(5) by (simp add: rdt_wf_def)
  then have rdt0: "rdt0 = rdt" "ring_abs sb = bs"
    using s(3,4) len fresh(5) by auto
  define rdt1 where "rdt1 = rdt\<lparr>send_buffer := sb\<rparr>"
  have rdt1: "rdt_wf rdt1" "ring_abs (send_buffer rdt1) = bs" "current_send_seq rdt1 = send_wnd_base rdt1"
    "uint (send_wnd_base rdt1) = r + 1" "send_queue rdt1 = []" "unack_block rdt1 = block" "wnd_size rdt1 = RDT_WINDOW_SIZE"
    using s(2) rdt0 fresh wf by (simp_all add: rdt1_def rdt_wf_def)
  obtain rdt2 ps where f: "flush_buffer clk rdt1 = Some rdt2" "flushed buff_cap rdt1 ps rdt2" "carries 1024 (send_wnd_base rdt1) bs ps"
    using flush_buffer_wf [OF rdt1(1), of clk] rdt1(2,3) by auto
  have ps: "length ps \<le> 9" "ps \<noteq> []"
    using carries_count [OF f(3), of 9] assms(5,6) f(3) by auto
  have rdt2: "send_queue rdt2 = rev ps" "send_wnd_base rdt2 = send_wnd_base rdt1" "wnd_size rdt2 = RDT_WINDOW_SIZE"
    "current_send_seq rdt2 = seq_after (length ps) (send_wnd_base rdt1)"
    using f(2) rdt1(3,5,7) by (auto simp: flushed_def elim: ssubst)
  have "sends (send_queue rdt2) \<noteq> []"
    using sends_data [OF f(3)] ps(2) rdt2(1) by (simp add: sends_def flip: rev_filter)
  moreover have "window_open rdt2"
    using window_open_within [of rdt2 "length ps"] rdt2(2-4) rdt1(4) ps(1) assms(3) by simp
  ultimately have "overruns clk rdt1"
    using f(1) rdt1(6) assms(4) by (simp add: overruns_def)
  then have "send_worker clk rdt1 = None"
    using send_worker_wf [OF rdt1(1), of clk] by simp
  then show ?thesis
    using s(1) rdt0(1) by (simp add: bindE_def flip: rdt1_def)
qed

theorem first_packet_overruns_witness:
  "\<exists>rdt. create_rdt 8 7 = Some rdt \<and> rdt_run (\<lambda>_. 0) [User_send [1, 2, 3], Send_round] rdt = None"
proof -
  obtain rdt where rdt: "create_rdt 8 7 = Some rdt"
    using create_rdt_ok [of 7 8] by auto
  with first_packet_overruns [OF rdt, of "[1, 2, 3]" "\<lambda>_. 0"] show ?thesis
    by (simp add: SEQ_NUM_MAX_def UNACK_BYTES_def del: rdt_run.simps)
qed

end
