(* ===== verification/DLinks.thy ===== *)
theory DLinks
  imports Loops
begin

text \<open>
  Doubly linked chains: what the \<open>next\<close> and \<open>prev\<close> fields of the nodes of a list say, as two
  partial maps from addresses to addresses, and how relinking two neighbours inserts or removes
  a node. The circular lists and the caches share these facts.
\<close>

type_synonym links = "nat \<Rightarrow> nat option"

text \<open>\<open>seg N P a xs b\<close>: from \<open>a\<close> the \<open>next\<close> links \<open>N\<close> lead through \<open>xs\<close> to \<open>b\<close>, and the
  \<open>prev\<close> links \<open>P\<close> lead back.\<close>

fun seg :: "links \<Rightarrow> links \<Rightarrow> nat \<Rightarrow> nat list \<Rightarrow> nat \<Rightarrow> bool" where
  "seg N P a [] b \<longleftrightarrow> N a = Some b \<and> P b = Some a"
| "seg N P a (x # xs) b \<longleftrightarrow> N a = Some x \<and> P x = Some a \<and> seg N P x xs b"

lemma seg_append: "seg N P a (xs @ y # ys) b \<longleftrightarrow> seg N P a xs y \<and> seg N P y ys b"
  by (induction xs arbitrary: a) auto

lemma seg_cong:
  "seg N P a xs b \<Longrightarrow> \<forall>x\<in>set (a # xs). N' x = N x \<Longrightarrow> \<forall>x\<in>set (b # xs). P' x = P x \<Longrightarrow> seg N' P' a xs b"
  by (induction xs arbitrary: a) auto

lemma seg_ends:
  "seg N P a xs b \<Longrightarrow> N a = Some (hd (xs @ [b])) \<and> P b = Some (last (a # xs))"
  by (induction xs arbitrary: a) auto

lemma seg_dom: "seg N P a xs b \<Longrightarrow> x \<in> set (a # xs) \<Longrightarrow> x \<in> dom N"
  by (induction xs arbitrary: a) auto

lemma seg_dom_P: "seg N P a xs b \<Longrightarrow> x \<in> set (b # xs) \<Longrightarrow> x \<in> dom P"
  by (induction xs arbitrary: a) auto

lemma seg_unique: "seg N P a xs b \<Longrightarrow> seg N P a ys b \<Longrightarrow> b \<notin> set xs \<Longrightarrow> b \<notin> set ys \<Longrightarrow> xs = ys"
  proof (induction xs arbitrary: a ys)
  case Nil
  then show ?case by (cases ys) auto
next
  case (Cons x xs)
  then show ?case by (cases ys) auto
qed

text \<open>The neighbours of a node, and those of a gap between two nodes.\<close>

lemma seg_mid:
  assumes "seg N P a (ys @ x # zs) b"
  shows "P x = Some (last (a # ys))" and "N x = Some (hd (zs @ [b]))"
  using assms seg_ends [of N P a ys x] seg_ends [of N P x zs b] by (auto simp: seg_append)

lemma seg_gap:
  assumes "seg N P a (ys @ zs) b"
  shows "P (hd (zs @ [b])) = Some (last (a # ys))" and "N (last (a # ys)) = Some (hd (zs @ [b]))"
  using assms by (induction ys arbitrary: a) (cases zs; auto)+

text \<open>Linking a node into a gap, and taking one out.\<close>

lemma seg_insert:
  assumes "seg N P a (ys @ zs) b" and "distinct (a # ys @ zs)" and "b \<notin> set (ys @ zs)"
    and "x \<notin> set (a # b # ys @ zs)" and "l = last (a # ys)" and "r = hd (zs @ [b])"
  shows "seg (N(x \<mapsto> r, l \<mapsto> x)) (P(x \<mapsto> l, r \<mapsto> x)) a (ys @ x # zs) b"
  using assms
proof (induction ys arbitrary: a)
  case Nil
  show ?case
  proof (cases zs)
    case (Cons z zs')
    have "seg (N(x \<mapsto> r, l \<mapsto> x)) (P(x \<mapsto> l, r \<mapsto> x)) z zs' b"
      by (rule seg_cong [of N P z zs' b]) (use Nil Cons in auto)
    then show ?thesis
      using Nil(1,2,4,5,6) unfolding Cons by (simp add: fun_upd_def)
  next
    case zs: Nil
    show ?thesis
      using Nil(4,5,6) unfolding zs by simp
  qed
next
  case (Cons y ys)
  have l: "l = last (y # ys)" and "l \<in> set (y # ys)"
    using Cons.prems(5) last_in_set [of "y # ys"] by simp_all
  then have "a \<noteq> l" "a \<noteq> x" "y \<noteq> x"
    using Cons.prems(2,4) by auto
  moreover have "r \<in> set (zs @ [b])"
    using Cons.prems(6) hd_in_set [of "zs @ [b]"] by simp
  then have "y \<noteq> r"
    using Cons.prems(2,3) by auto
  moreover have "seg (N(x \<mapsto> r, l \<mapsto> x)) (P(x \<mapsto> l, r \<mapsto> x)) y (ys @ x # zs) b"
    using Cons.prems l by (intro Cons.IH) simp_all
  ultimately show ?case
    using Cons.prems(1) by (simp add: fun_upd_def)
qed

lemma seg_remove:
  assumes "seg N P a (ys @ x # zs) b" and "distinct (a # ys @ x # zs)" and "b \<notin> set (ys @ x # zs)"
    and "l = last (a # ys)" and "r = hd (zs @ [b])"
  shows "seg (N(l \<mapsto> r)) (P(r \<mapsto> l)) a (ys @ zs) b"
  using assms
proof (induction ys arbitrary: a)
  case Nil
  show ?case
  proof (cases zs)
    case (Cons z zs')
    have "seg (N(l \<mapsto> r)) (P(r \<mapsto> l)) z zs' b"
      by (rule seg_cong [of N P z zs' b]) (use Nil Cons in auto)
    then show ?thesis
      using Nil(4,5) unfolding Cons by (simp add: fun_upd_def)
  next
    case zs: Nil
    show ?thesis
      using Nil(4,5) unfolding zs by simp
  qed
next
  case (Cons y ys)
  have l: "l = last (y # ys)" and "l \<in> set (y # ys)"
    using Cons.prems(4) last_in_set [of "y # ys"] by simp_all
  then have "a \<noteq> l"
    using Cons.prems(2) by auto
  moreover have "r \<in> set (zs @ [b])"
    using Cons.prems(5) hd_in_set [of "zs @ [b]"] by simp
  then have "y \<noteq> r"
    using Cons.prems(2,3) by auto
  moreover have "seg (N(l \<mapsto> r)) (P(r \<mapsto> l)) y (ys @ zs) b"
    using Cons.prems l by (intro Cons.IH) simp_all
  ultimately show ?case
    using Cons.prems(1) by (simp add: fun_upd_def)
qed

text \<open>Hanging a chain between two other nodes.\<close>

lemma seg_new_end:
  assumes "seg N P a xs b" and "distinct (a # xs)" and "b' \<notin> set xs" and "l = last (a # xs)"
  shows "seg (N(l \<mapsto> b')) (P(b' \<mapsto> l)) a xs b'"
  using assms
proof (induction xs arbitrary: a)
  case Nil
  then show ?case by simp
next
  case (Cons y ys)
  have l: "l = last (y # ys)" "l \<in> set (y # ys)"
    using Cons.prems(4) last_in_set [of "y # ys"] by simp_all
  then have "a \<noteq> l"
    using Cons.prems(2) by auto
  moreover have "seg (N(l \<mapsto> b')) (P(b' \<mapsto> l)) y ys b'"
    using Cons.prems l by (intro Cons.IH) simp_all
  ultimately show ?case
    using Cons.prems(1,3) by (auto simp: fun_upd_def)
qed

lemma seg_rehang:
  assumes "seg N P a (x # xs) b" and "distinct (x # xs)" and "a' \<notin> set (x # xs)" and "b' \<notin> set (x # xs)"
    and "l = last (x # xs)"
  shows "seg (N(a' \<mapsto> x, l \<mapsto> b')) (P(x \<mapsto> a', b' \<mapsto> l)) a' (x # xs) b'"
proof -
  have "seg (N(l \<mapsto> b')) (P(b' \<mapsto> l)) x xs b'"
    using assms by (intro seg_new_end [of N P x xs b]) auto
  then have "seg (N(a' \<mapsto> x, l \<mapsto> b')) (P(x \<mapsto> a', b' \<mapsto> l)) x xs b'"
    by (rule seg_cong) (use assms in auto)
  moreover have "l \<in> set (x # xs)"
    using assms(5) last_in_set [of "x # xs"] by simp
  then have "a' \<noteq> l" "x \<noteq> b'"
    using assms(3,4) by auto
  ultimately show ?thesis
    by (simp add: fun_upd_def)
qed

text \<open>A circle: the nodes \<open>xs\<close> between a head and itself.\<close>

definition circ :: "links \<Rightarrow> links \<Rightarrow> nat \<Rightarrow> nat list \<Rightarrow> bool" where
  "circ N P h xs \<longleftrightarrow> seg N P h xs h \<and> distinct (h # xs)"

lemma circ_insert:
  assumes "circ N P h (ys @ zs)" and "x \<notin> set (h # ys @ zs)" and "l = last (h # ys)" and "r = hd (zs @ [h])"
  shows "circ (N(x \<mapsto> r, l \<mapsto> x)) (P(x \<mapsto> l, r \<mapsto> x)) h (ys @ x # zs)"
  using assms seg_insert [of N P h ys zs h x l r] by (auto simp: circ_def)

lemma circ_remove:
  assumes "circ N P h (ys @ x # zs)" and "l = last (h # ys)" and "r = hd (zs @ [h])"
  shows "circ (N(l \<mapsto> r)) (P(r \<mapsto> l)) h (ys @ zs)"
  using assms seg_remove [of N P h ys x zs h l r] by (auto simp: circ_def)

lemma circ_frame:
  assumes "circ N P h xs" and "\<forall>x\<in>set (h # xs). N' x = N x \<and> P' x = P x"
  shows "circ N' P' h xs"
  using assms by (auto simp: circ_def intro!: seg_cong [of N P h xs h])

lemma circ_empty: "circ N P h [] \<longleftrightarrow> N h = Some h \<and> P h = Some h"
  by (simp add: circ_def)

lemma circ_first: "circ N P h xs \<Longrightarrow> N h = Some (hd (xs @ [h])) \<and> P h = Some (last (h # xs))"
  using seg_ends [of N P h xs h] by (simp add: circ_def)

lemma circ_unique: "circ N P h xs \<Longrightarrow> circ N P h ys \<Longrightarrow> xs = ys"
  by (auto simp: circ_def intro: seg_unique)

lemma circ_splice:
  assumes "circ N P c (x # xs)" and "circ N P d ys" and "set (c # x # xs) \<inter> set (d # ys) = {}"
    and "l = last (x # xs)" and "r = hd (ys @ [d])"
  shows "circ (N(d \<mapsto> x, l \<mapsto> r)) (P(x \<mapsto> d, r \<mapsto> l)) d ((x # xs) @ ys)"
proof -
  have r: "r \<in> set (d # ys)"
    using assms(5) hd_in_set [of "ys @ [d]"] by auto
  have l: "l \<in> set (x # xs)"
    using assms(4) last_in_set [of "x # xs"] by simp
  have first: "seg (N(d \<mapsto> x, l \<mapsto> r)) (P(x \<mapsto> d, r \<mapsto> l)) d (x # xs) r"
    using assms r by (intro seg_rehang [of N P c x xs c]) (auto simp: circ_def)
  have "seg (N(d \<mapsto> x, l \<mapsto> r)) (P(x \<mapsto> d, r \<mapsto> l)) d ((x # xs) @ ys) d"
  proof (cases ys)
    case Nil
    then show ?thesis
      using first assms(5) by simp
  next
    case (Cons y ys')
    then have "r = y" and "seg N P y ys' d" and "distinct (d # y # ys')"
      using assms(2,5) by (auto simp: circ_def)
    moreover have "l \<notin> set (d # y # ys')" "x \<notin> set (d # y # ys')"
      using l assms(3) unfolding Cons by auto
    ultimately have "seg (N(d \<mapsto> x, l \<mapsto> r)) (P(x \<mapsto> d, r \<mapsto> l)) y ys' d"
      by (elim seg_cong) auto
    then show ?thesis
      using first unfolding Cons \<open>r = y\<close> seg_append by blast
  qed
  moreover have "distinct (c # x # xs)" "distinct (d # ys)"
    using assms(1,2) unfolding circ_def by blast+
  then have "distinct (d # (x # xs) @ ys)"
    using assms(3) by auto
  ultimately show ?thesis
    unfolding circ_def by blast
qed

end
