(* ===== verification/DList.thy ===== *)
theory DList
  imports DLinks
begin

text \<open>
  The two circular doubly linked lists of the repository: C/rudp_self/list.c, on which the packet
  queues of the reliable datagram protocol are built, and the list part of
  C/07_listhead/list_head.h. A heap maps the address of a node to its two links; 0 is \<open>NULL\<close> and
  an address that is not allocated has no node, so following it is undefined. The theory shows that
  both implement one contract, insertion before a position and removal, and what moving and splicing
  do on top of it.
\<close>

section \<open>Nodes\<close>

record dnode =
  dn_next :: nat
  dn_prev :: nat

type_synonym dheap = "nat \<Rightarrow> dnode option"

definition nxt :: "dheap \<Rightarrow> links" where
  "nxt h a = map_option dn_next (h a)"

definition prv :: "dheap \<Rightarrow> links" where
  "prv h a = map_option dn_prev (h a)"

definition set_nxt :: "dheap \<Rightarrow> nat \<Rightarrow> nat \<Rightarrow> dheap option" where
  "set_nxt h a b = do { n \<leftarrow> h a; Some (h(a \<mapsto> n\<lparr>dn_next := b\<rparr>)) }"

definition set_prv :: "dheap \<Rightarrow> nat \<Rightarrow> nat \<Rightarrow> dheap option" where
  "set_prv h a b = do { n \<leftarrow> h a; Some (h(a \<mapsto> n\<lparr>dn_prev := b\<rparr>)) }"

section \<open>C/rudp_self/list.c\<close>

definition list_init :: "dheap \<Rightarrow> nat \<Rightarrow> dheap option" where
  "list_init h head = do { h \<leftarrow> set_nxt h head head; set_prv h head head }"

definition list_insert :: "dheap \<Rightarrow> nat \<Rightarrow> nat \<Rightarrow> (dheap \<times> nat) option" where
  "list_insert h position result = do {
     p \<leftarrow> prv h position;
     h \<leftarrow> set_prv h result p;
     h \<leftarrow> set_nxt h result position;
     p \<leftarrow> prv h position;
     h \<leftarrow> set_nxt h p result;
     h \<leftarrow> set_prv h position result;
     Some (h, result) }"

definition list_remove :: "dheap \<Rightarrow> nat \<Rightarrow> (dheap \<times> nat) option" where
  "list_remove h position = do {
     n \<leftarrow> nxt h position;
     p \<leftarrow> prv h position;
     h \<leftarrow> set_prv h n p;
     n \<leftarrow> nxt h position;
     p \<leftarrow> prv h position;
     h \<leftarrow> set_nxt h p n;
     Some (h, position) }"

text \<open>\<open>last\<close> is initialised from itself instead of from \<open>data_last\<close>: it is whatever the stack slot
  held, a parameter here.\<close>

definition rdt_list_move :: "nat \<Rightarrow> dheap \<Rightarrow> nat \<Rightarrow> nat \<Rightarrow> nat \<Rightarrow> (dheap \<times> nat) option" where
  "rdt_list_move garbage h position data_first data_last = do {
     let first = data_first;
     let lst = garbage;
     p \<leftarrow> prv h first;
     n \<leftarrow> nxt h lst;
     h \<leftarrow> set_nxt h p n;
     n \<leftarrow> nxt h lst;
     p \<leftarrow> prv h first;
     h \<leftarrow> set_prv h n p;
     p \<leftarrow> prv h position;
     h \<leftarrow> set_prv h first p;
     h \<leftarrow> set_nxt h lst position;
     p \<leftarrow> prv h first;
     h \<leftarrow> set_nxt h p first;
     h \<leftarrow> set_prv h position lst;
     Some (h, first) }"

definition list_size :: "dheap \<Rightarrow> nat \<Rightarrow> nat option" where
  "list_size h head = do {
     p \<leftarrow> nxt h head;
     loop (\<lambda>(k, p). if p = head then Some (Inr k)
                       else do { q \<leftarrow> nxt h p; Some (Inl (Suc k, q)) }) (0, p) }"

section \<open>C/07_listhead/list_head.h\<close>

definition INIT_LIST_HEAD :: "dheap \<Rightarrow> nat \<Rightarrow> dheap option" where
  "INIT_LIST_HEAD h ptr = do { h \<leftarrow> set_nxt h ptr ptr; set_prv h ptr ptr }"

definition list_add_between :: "dheap \<Rightarrow> nat \<Rightarrow> nat \<Rightarrow> nat \<Rightarrow> dheap option" where
  "list_add_between h new prev nex = do {
     h \<leftarrow> set_prv h nex new;
     h \<leftarrow> set_nxt h new nex;
     h \<leftarrow> set_prv h new prev;
     set_nxt h prev new }"

definition list_head_add :: "dheap \<Rightarrow> nat \<Rightarrow> nat \<Rightarrow> dheap option" where
  "list_head_add h new head = do { n \<leftarrow> nxt h head; list_add_between h new head n }"

definition list_add_tail :: "dheap \<Rightarrow> nat \<Rightarrow> nat \<Rightarrow> dheap option" where
  "list_add_tail h new head = do { p \<leftarrow> prv h head; list_add_between h new p head }"

definition list_del_between :: "dheap \<Rightarrow> nat \<Rightarrow> nat \<Rightarrow> dheap option" where
  "list_del_between h prev nex = do { h \<leftarrow> set_prv h nex prev; set_nxt h prev nex }"

definition LIST_POISON1 :: nat where "LIST_POISON1 = 1048832"
definition LIST_POISON2 :: nat where "LIST_POISON2 = 2097664"

definition list_head_del :: "dheap \<Rightarrow> nat \<Rightarrow> dheap option" where
  "list_head_del h entry = do {
     p \<leftarrow> prv h entry;
     n \<leftarrow> nxt h entry;
     h \<leftarrow> list_del_between h p n;
     h \<leftarrow> set_nxt h entry LIST_POISON1;
     set_prv h entry LIST_POISON2 }"

definition list_del_init :: "dheap \<Rightarrow> nat \<Rightarrow> dheap option" where
  "list_del_init h entry = do {
     p \<leftarrow> prv h entry;
     n \<leftarrow> nxt h entry;
     h \<leftarrow> list_del_between h p n;
     INIT_LIST_HEAD h entry }"

definition list_move :: "dheap \<Rightarrow> nat \<Rightarrow> nat \<Rightarrow> dheap option" where
  "list_move h lst head = do {
     p \<leftarrow> prv h lst;
     n \<leftarrow> nxt h lst;
     h \<leftarrow> list_del_between h p n;
     list_head_add h lst head }"

definition list_move_tail :: "dheap \<Rightarrow> nat \<Rightarrow> nat \<Rightarrow> dheap option" where
  "list_move_tail h lst head = do {
     p \<leftarrow> prv h lst;
     n \<leftarrow> nxt h lst;
     h \<leftarrow> list_del_between h p n;
     list_add_tail h lst head }"

definition list_is_first :: "dheap \<Rightarrow> nat \<Rightarrow> nat \<Rightarrow> bool option" where
  "list_is_first h lst head = map_option (\<lambda>p. p = head) (prv h lst)"

definition list_is_last :: "dheap \<Rightarrow> nat \<Rightarrow> nat \<Rightarrow> bool option" where
  "list_is_last h lst head = map_option (\<lambda>n. n = head) (nxt h lst)"

definition list_empty :: "dheap \<Rightarrow> nat \<Rightarrow> bool option" where
  "list_empty h head = map_option (\<lambda>n. n = head) (nxt h head)"

definition list_copy :: "dheap \<Rightarrow> nat \<Rightarrow> nat \<Rightarrow> dheap option" where
  "list_copy h dst src = do {
     e \<leftarrow> list_empty h src;
     if e then INIT_LIST_HEAD h dst
     else do {
       _ \<leftarrow> h dst;
       s \<leftarrow> h src;
       let h = h(dst \<mapsto> s);
       n \<leftarrow> nxt h dst;
       h \<leftarrow> set_prv h n dst;
       p \<leftarrow> prv h dst;
       set_nxt h p dst } }"

definition list_splice_between :: "dheap \<Rightarrow> nat \<Rightarrow> nat \<Rightarrow> dheap option" where
  "list_splice_between h lst head = do {
     first \<leftarrow> nxt h lst;
     final \<leftarrow> prv h lst;
     at \<leftarrow> nxt h head;
     h \<leftarrow> set_prv h first head;
     h \<leftarrow> set_nxt h head first;
     h \<leftarrow> set_nxt h final at;
     set_prv h at final }"

definition list_splice :: "dheap \<Rightarrow> nat \<Rightarrow> nat \<Rightarrow> dheap option" where
  "list_splice h lst head = do {
     e \<leftarrow> list_empty h lst;
     if e then Some h else list_splice_between h lst head }"

definition list_splice_init :: "dheap \<Rightarrow> nat \<Rightarrow> nat \<Rightarrow> dheap option" where
  "list_splice_init h lst head = do {
     e \<leftarrow> list_empty h lst;
     if e then Some h
     else do { h \<leftarrow> list_splice_between h lst head; INIT_LIST_HEAD h lst } }"

section \<open>Circular lists on the heap\<close>

definition circle :: "dheap \<Rightarrow> nat \<Rightarrow> nat list \<Rightarrow> bool" where
  "circle h head xs \<longleftrightarrow> circ (nxt h) (prv h) head xs"

text \<open>What an operation on the nodes \<open>A\<close> leaves alone.\<close>

definition framed :: "nat set \<Rightarrow> dheap \<Rightarrow> dheap \<Rightarrow> bool" where
  "framed A h g \<longleftrightarrow> dom g = dom h \<and> (\<forall>a. a \<notin> A \<longrightarrow> g a = h a)"

lemma framed_trans: "framed A h g \<Longrightarrow> framed B g k \<Longrightarrow> framed (A \<union> B) h k"
  by (auto simp: framed_def)

lemma framed_mono: "framed A h g \<Longrightarrow> A \<subseteq> B \<Longrightarrow> framed B h g"
  by (auto simp: framed_def)

lemma circle_frame: "circle h head xs \<Longrightarrow> framed A h g \<Longrightarrow> A \<inter> set (head # xs) = {} \<Longrightarrow> circle g head xs"
  unfolding circle_def by (erule circ_frame) (auto simp: framed_def nxt_def prv_def)

text \<open>The writes, by their effect on the two link maps: one step of a chain of writes.\<close>

lemma dom_nxt [simp]: "dom (nxt h) = dom h" "dom (prv h) = dom h"
  by (auto simp: nxt_def prv_def dom_def)

definition relinks :: "dheap \<Rightarrow> links \<Rightarrow> links \<Rightarrow> nat set \<Rightarrow> dheap \<Rightarrow> bool" where
  "relinks h N P A g \<longleftrightarrow> nxt g = N \<and> prv g = P \<and> framed A h g"

lemma relinks_refl: "relinks h (nxt h) (prv h) {} h"
  by (simp add: relinks_def framed_def)

lemma relinks_mono: "relinks h N P A g \<Longrightarrow> A \<subseteq> B \<Longrightarrow> relinks h N P B g"
  by (auto simp: relinks_def framed_def)

lemma relinks_dom: "relinks h N P A g \<Longrightarrow> dom g = dom h"
  by (simp add: relinks_def framed_def)

lemma relinks_nxt: "relinks h N P A g \<Longrightarrow> nxt g a = N a"
  by (simp add: relinks_def)

lemma relinks_prv: "relinks h N P A g \<Longrightarrow> prv g a = P a"
  by (simp add: relinks_def)

lemma set_nxt_ok:
  assumes "relinks h N P A g" and "a \<in> dom h"
  shows "\<exists>k. set_nxt g a b = Some k \<and> relinks h (N(a \<mapsto> b)) P (insert a A) k"
proof -
  obtain n where n: "g a = Some n"
    using assms by (auto simp: relinks_def framed_def)
  have "nxt (g(a \<mapsto> n\<lparr>dn_next := b\<rparr>)) = (nxt g)(a \<mapsto> b)" "prv (g(a \<mapsto> n\<lparr>dn_next := b\<rparr>)) = prv g"
    using n by (simp_all add: nxt_def prv_def fun_eq_iff)
  moreover have "framed (insert a A) h (g(a \<mapsto> n\<lparr>dn_next := b\<rparr>))"
    using assms by (auto simp: relinks_def framed_def)
  ultimately show ?thesis
    using n assms(1) by (simp add: set_nxt_def relinks_def)
qed

lemma set_prv_ok:
  assumes "relinks h N P A g" and "a \<in> dom h"
  shows "\<exists>k. set_prv g a b = Some k \<and> relinks h N (P(a \<mapsto> b)) (insert a A) k"
proof -
  obtain n where n: "g a = Some n"
    using assms by (auto simp: relinks_def framed_def)
  have "prv (g(a \<mapsto> n\<lparr>dn_prev := b\<rparr>)) = (prv g)(a \<mapsto> b)" "nxt (g(a \<mapsto> n\<lparr>dn_prev := b\<rparr>)) = nxt g"
    using n by (simp_all add: nxt_def prv_def fun_eq_iff)
  moreover have "framed (insert a A) h (g(a \<mapsto> n\<lparr>dn_prev := b\<rparr>))"
    using assms by (auto simp: relinks_def framed_def)
  ultimately show ?thesis
    using n assms(1) by (simp add: set_prv_def relinks_def)
qed

text \<open>One step of a chain of reads and writes.\<close>

lemma reads_nxt: "relinks h N P A g \<Longrightarrow> N a = Some b \<Longrightarrow> Q b \<Longrightarrow> returns (nxt g a) Q"
  by (simp add: relinks_def returns_def)

lemma reads_prv: "relinks h N P A g \<Longrightarrow> P a = Some b \<Longrightarrow> Q b \<Longrightarrow> returns (prv g a) Q"
  by (simp add: relinks_def returns_def)

lemma writes_nxt:
  "relinks h N P A g \<Longrightarrow> a \<in> dom h \<Longrightarrow> (\<And>k. relinks h (N(a \<mapsto> b)) P (insert a A) k \<Longrightarrow> Q k) \<Longrightarrow> returns (set_nxt g a b) Q"
  unfolding returns_def using set_nxt_ok [of h N P A g a b] by blast

lemma writes_prv:
  "relinks h N P A g \<Longrightarrow> a \<in> dom h \<Longrightarrow> (\<And>k. relinks h N (P(a \<mapsto> b)) (insert a A) k \<Longrightarrow> Q k) \<Longrightarrow> returns (set_prv g a b) Q"
  unfolding returns_def using set_prv_ok [of h N P A g a b] by blast

lemmas link_steps = reads_nxt reads_prv writes_nxt writes_prv

lemma circle_dom: "circle h c xs \<Longrightarrow> x \<in> set (c # xs) \<Longrightarrow> x \<in> dom h"
  using seg_dom [of "nxt h" "prv h" c xs c x] by (simp add: circle_def circ_def)

lemma circle_distinct: "circle h c xs \<Longrightarrow> distinct (c # xs)"
  by (simp add: circle_def circ_def)

text \<open>The neighbours in a list around a gap, and around a node.\<close>

lemma circle_gap:
  assumes "circle h c (ys @ zs)"
  shows "prv h (hd (zs @ [c])) = Some (last (c # ys))" and "nxt h (last (c # ys)) = Some (hd (zs @ [c]))"
    and "last (c # ys) \<in> dom h" and "hd (zs @ [c]) \<in> dom h"
proof -
  show g: "prv h (hd (zs @ [c])) = Some (last (c # ys))" "nxt h (last (c # ys)) = Some (hd (zs @ [c]))"
    using assms seg_gap [of "nxt h" "prv h" c ys zs c] by (auto simp: circle_def circ_def)
  have "last (c # ys) \<in> dom (nxt h)" "hd (zs @ [c]) \<in> dom (prv h)"
    using g by blast+
  then show "last (c # ys) \<in> dom h" "hd (zs @ [c]) \<in> dom h"
    by simp_all
qed

lemma circle_node:
  assumes "circle h c (ys @ x # zs)"
  shows "prv h x = Some (last (c # ys))" and "nxt h x = Some (hd (zs @ [c]))"
    and "last (c # ys) \<in> dom h" and "hd (zs @ [c]) \<in> dom h" and "x \<in> dom h"
proof -
  show g: "prv h x = Some (last (c # ys))" "nxt h x = Some (hd (zs @ [c]))"
    using assms seg_mid [of "nxt h" "prv h" c ys x zs c] by (auto simp: circle_def circ_def)
  show "x \<in> dom h"
    using circle_dom [OF assms, of x] by simp
  show "last (c # ys) \<in> dom h"
    using circle_dom [OF assms, of "last (c # ys)"] last_in_set [of "c # ys"] by auto
  show "hd (zs @ [c]) \<in> dom h"
    using circle_dom [OF assms, of "hd (zs @ [c])"] hd_in_set [of "zs @ [c]"] by auto
qed

section \<open>The contract of both lists\<close>

text \<open>Insertion before a position and removal; \<open>x\<close> may be any allocated node outside the list.\<close>

locale circular_list =
  fixes insert_before :: "dheap \<Rightarrow> nat \<Rightarrow> nat \<Rightarrow> dheap option"
    and unlink :: "dheap \<Rightarrow> nat \<Rightarrow> dheap option"
  assumes insert_before: "circle h c (ys @ zs) \<Longrightarrow> x \<in> dom h \<Longrightarrow> x \<notin> set (c # ys @ zs) \<Longrightarrow>
      \<exists>g. insert_before h (hd (zs @ [c])) x = Some g \<and> circle g c (ys @ x # zs) \<and> framed (set (x # c # ys @ zs)) h g"
    and unlink: "circle h c (ys @ x # zs) \<Longrightarrow>
      \<exists>g. unlink h x = Some g \<and> circle g c (ys @ zs) \<and> framed (set (x # c # ys @ zs)) h g"
begin

text \<open>Moving a node inside a list and from one list to another.\<close>

lemma move_within:
  assumes "circle h c (ys @ x # zs)" and "ys @ zs = us @ vs"
  shows "\<exists>g k. unlink h x = Some g \<and> insert_before g (hd (vs @ [c])) x = Some k \<and> circle k c (us @ x # vs)
     \<and> framed (set (x # c # ys @ zs)) h k"
proof -
  obtain g where g: "unlink h x = Some g" "circle g c (us @ vs)" "framed (set (x # c # ys @ zs)) h g"
    using unlink [OF assms(1)] assms(2) by auto
  have "x \<in> dom g" "x \<notin> set (c # us @ vs)"
    using circle_node(5) [OF assms(1)] circle_distinct [OF assms(1)] g(3) arg_cong [OF assms(2), of set]
    by (auto simp: framed_def)
  then obtain k where k: "insert_before g (hd (vs @ [c])) x = Some k" "circle k c (us @ x # vs)"
    "framed (set (x # c # us @ vs)) g k"
    using insert_before [OF g(2)] by blast
  show ?thesis
    using g k framed_trans [OF g(3) k(3)] assms(2) by (auto intro: framed_mono)
qed

lemma move_across:
  assumes "circle h c (ys @ x # zs)" and "circle h d (us @ vs)" and "set (c # ys @ x # zs) \<inter> set (d # us @ vs) = {}"
  shows "\<exists>g k. unlink h x = Some g \<and> insert_before g (hd (vs @ [d])) x = Some k
     \<and> circle k c (ys @ zs) \<and> circle k d (us @ x # vs)"
proof -
  obtain g where g: "unlink h x = Some g" "circle g c (ys @ zs)" "framed (set (x # c # ys @ zs)) h g"
    using unlink [OF assms(1)] by auto
  have d: "circle g d (us @ vs)"
    using assms(2,3) by (intro circle_frame [OF _ g(3)]) auto
  have "x \<in> dom g" "x \<notin> set (d # us @ vs)"
    using circle_node(5) [OF assms(1)] assms(3) g(3) by (auto simp: framed_def)
  then obtain k where k: "insert_before g (hd (vs @ [d])) x = Some k" "circle k d (us @ x # vs)"
    "framed (set (x # d # us @ vs)) g k"
    using insert_before [OF d] by blast
  have "circle k c (ys @ zs)"
    using assms(3) circle_distinct [OF assms(1)] by (intro circle_frame [OF g(2) k(3)]) auto
  with g k show ?thesis by blast
qed

text \<open>Removing what was inserted gives the list back.\<close>

lemma insert_unlink:
  assumes "circle h c (ys @ zs)" and "x \<in> dom h" and "x \<notin> set (c # ys @ zs)"
  shows "\<exists>g k. insert_before h (hd (zs @ [c])) x = Some g \<and> circle g c (ys @ x # zs) \<and>
     unlink g x = Some k \<and> circle k c (ys @ zs) \<and> framed (set (x # c # ys @ zs)) h k"
proof -
  obtain g where g: "insert_before h (hd (zs @ [c])) x = Some g" "circle g c (ys @ x # zs)" "framed (set (x # c # ys @ zs)) h g"
    using insert_before [OF assms] by blast
  obtain k where k: "unlink g x = Some k" "circle k c (ys @ zs)" "framed (set (x # c # ys @ zs)) g k"
    using unlink [OF g(2)] by blast
  show ?thesis
    using g k framed_trans [OF g(3) k(3)] by auto
qed

end

section \<open>Both lists keep it\<close>

lemma list_insert_ok:
  assumes "circle h c (ys @ zs)" and "x \<in> dom h" and "x \<notin> set (c # ys @ zs)"
  shows "\<exists>g. list_insert h (hd (zs @ [c])) x = Some (g, x) \<and> circle g c (ys @ x # zs) \<and> framed (set (x # c # ys @ zs)) h g"
proof -
  define l where "l = last (c # ys)"
  define r where "r = hd (zs @ [c])"
  have gap: "prv h r = Some l" "l \<in> dom h" "r \<in> dom h"
    using circle_gap [OF assms(1)] by (simp_all add: l_def r_def)
  have in_list: "l \<in> set (c # ys @ zs)" "r \<in> set (c # ys @ zs)"
    using last_in_set [of "c # ys"] hd_in_set [of "zs @ [c]"] by (auto simp: l_def r_def)
  then have "x \<noteq> r" "x \<noteq> l"
    using assms(3) by metis+
  have "returns (list_insert h r x)
      (\<lambda>(g, y). y = x \<and> relinks h ((nxt h)(x \<mapsto> r, l \<mapsto> x)) ((prv h)(x \<mapsto> l, r \<mapsto> x)) {x, l, r} g)"
    using gap assms(2) \<open>x \<noteq> r\<close> relinks_refl [of h]
    by (simp only: list_insert_def returns_simps prod.case)
       (rule link_steps conjI refl | assumption | simp | erule relinks_mono)+
  then obtain g where g: "list_insert h r x = Some (g, x)"
    "relinks h ((nxt h)(x \<mapsto> r, l \<mapsto> x)) ((prv h)(x \<mapsto> l, r \<mapsto> x)) {x, l, r} g"
    by (auto simp: returns_def)
  have "circle g c (ys @ x # zs)"
    using circ_insert [of "nxt h" "prv h" c ys zs x l r] assms g(2) by (simp add: circle_def relinks_def l_def r_def)
  moreover have "framed (set (x # c # ys @ zs)) h g"
    using g(2) in_list by (auto simp: relinks_def intro: framed_mono)
  ultimately show ?thesis
    using g(1) by (simp add: r_def)
qed

lemma list_remove_ok:
  assumes "circle h c (ys @ x # zs)"
  shows "\<exists>g. list_remove h x = Some (g, x) \<and> circle g c (ys @ zs) \<and> framed (set (c # ys @ zs)) h g"
proof -
  define l where "l = last (c # ys)"
  define r where "r = hd (zs @ [c])"
  have node: "prv h x = Some l" "nxt h x = Some r" "l \<in> dom h" "r \<in> dom h"
    using circle_node [OF assms] by (simp_all add: l_def r_def)
  have in_list: "l \<in> set (c # ys @ zs)" "r \<in> set (c # ys @ zs)"
    using last_in_set [of "c # ys"] hd_in_set [of "zs @ [c]"] by (auto simp: l_def r_def)
  then have "x \<noteq> r" "x \<noteq> l"
    using circle_distinct [OF assms] by auto
  then have "returns (list_remove h x)
      (\<lambda>(g, y). y = x \<and> relinks h ((nxt h)(l \<mapsto> r)) ((prv h)(r \<mapsto> l)) {l, r} g)"
    using node relinks_refl [of h]
    by (simp only: list_remove_def returns_simps prod.case)
       (rule link_steps conjI refl | assumption | simp | erule relinks_mono)+
  then obtain g where g: "list_remove h x = Some (g, x)" "relinks h ((nxt h)(l \<mapsto> r)) ((prv h)(r \<mapsto> l)) {l, r} g"
    by (auto simp: returns_def)
  have "circle g c (ys @ zs)"
    using circ_remove [of "nxt h" "prv h" c ys x zs l r] assms g(2) by (simp add: circle_def relinks_def l_def r_def)
  moreover have "framed (set (c # ys @ zs)) h g"
    using g(2) in_list by (auto simp: relinks_def intro: framed_mono)
  ultimately show ?thesis
    using g(1) by simp
qed

lemma list_add_tail_ok:
  assumes "circle h c (ys @ zs)" and "x \<in> dom h" and "x \<notin> set (c # ys @ zs)"
  shows "\<exists>g. list_add_tail h x (hd (zs @ [c])) = Some g \<and> circle g c (ys @ x # zs) \<and> framed (set (x # c # ys @ zs)) h g"
proof -
  define l where "l = last (c # ys)"
  define r where "r = hd (zs @ [c])"
  have gap: "prv h r = Some l" "l \<in> dom h" "r \<in> dom h"
    using circle_gap [OF assms(1)] by (simp_all add: l_def r_def)
  have in_list: "l \<in> set (c # ys @ zs)" "r \<in> set (c # ys @ zs)"
    using last_in_set [of "c # ys"] hd_in_set [of "zs @ [c]"] by (auto simp: l_def r_def)
  then have "x \<noteq> r"
    using assms(3) by metis
  then have twist: "(prv h)(r \<mapsto> x, x \<mapsto> l) = (prv h)(x \<mapsto> l, r \<mapsto> x)"
    by (rule fun_upd_twist [symmetric])
  have "returns (list_add_tail h x r) (relinks h ((nxt h)(x \<mapsto> r, l \<mapsto> x)) ((prv h)(x \<mapsto> l, r \<mapsto> x)) {x, l, r})"
    using gap assms(2) relinks_refl [of h]
    by (simp only: list_add_tail_def list_add_between_def returns_simps flip: twist)
       (rule link_steps | assumption | simp | erule relinks_mono)+
  then obtain g where g: "list_add_tail h x r = Some g"
    "relinks h ((nxt h)(x \<mapsto> r, l \<mapsto> x)) ((prv h)(x \<mapsto> l, r \<mapsto> x)) {x, l, r} g"
    by (auto simp: returns_def)
  have "circle g c (ys @ x # zs)"
    using circ_insert [of "nxt h" "prv h" c ys zs x l r] assms g(2) by (simp add: circle_def relinks_def l_def r_def)
  moreover have "framed (set (x # c # ys @ zs)) h g"
    using g(2) in_list by (auto simp: relinks_def intro: framed_mono)
  ultimately show ?thesis
    using g(1) by (simp add: r_def)
qed

text \<open>\<open>list_head_add\<close> after a node is insertion before its successor.\<close>

lemma list_head_add_eq:
  assumes "circle h c (ys @ zs)"
  shows "list_head_add h x (last (c # ys)) = list_add_tail h x (hd (zs @ [c]))"
  using circle_gap(1,2) [OF assms] by (simp add: list_head_add_def list_add_tail_def)

text \<open>The three ways to take a node out differ in what they leave in it.\<close>

lemma list_del_between_ok:
  assumes "circle h c (ys @ x # zs)"
  shows "\<exists>p n g. prv h x = Some p \<and> nxt h x = Some n \<and> list_del_between h p n = Some g \<and> circle g c (ys @ zs)
     \<and> framed (set (c # ys @ zs)) h g"
proof -
  define l where "l = last (c # ys)"
  define r where "r = hd (zs @ [c])"
  have node: "prv h x = Some l" "nxt h x = Some r" "l \<in> dom h" "r \<in> dom h"
    using circle_node [OF assms] by (simp_all add: l_def r_def)
  have in_list: "l \<in> set (c # ys @ zs)" "r \<in> set (c # ys @ zs)"
    using last_in_set [of "c # ys"] hd_in_set [of "zs @ [c]"] by (auto simp: l_def r_def)
  have "returns (list_del_between h l r) (relinks h ((nxt h)(l \<mapsto> r)) ((prv h)(r \<mapsto> l)) {l, r})"
    using node relinks_refl [of h]
    by (simp only: list_del_between_def returns_simps) (rule link_steps | assumption | simp | erule relinks_mono)+
  then obtain g where g: "list_del_between h l r = Some g" "relinks h ((nxt h)(l \<mapsto> r)) ((prv h)(r \<mapsto> l)) {l, r} g"
    by (auto simp: returns_def)
  have "circle g c (ys @ zs)"
    using circ_remove [of "nxt h" "prv h" c ys x zs l r] assms g(2) by (simp add: circle_def relinks_def l_def r_def)
  moreover have "framed (set (c # ys @ zs)) h g"
    using g(2) in_list by (auto simp: relinks_def intro: framed_mono)
  ultimately show ?thesis
    using g(1) node by blast
qed

lemma set_links_ok:
  assumes "x \<in> dom h"
  shows "\<exists>g. do { h \<leftarrow> set_nxt h x a; set_prv h x b } = Some g \<and> framed {x} h g \<and> nxt g x = Some a \<and> prv g x = Some b"
  using assms by (auto simp: set_nxt_def set_prv_def framed_def nxt_def prv_def)

lemma list_head_del_ok:
  assumes "circle h c (ys @ x # zs)"
  shows "\<exists>g. list_head_del h x = Some g \<and> circle g c (ys @ zs) \<and> framed (set (x # c # ys @ zs)) h g"
    and "\<exists>g. list_del_init h x = Some g \<and> circle g c (ys @ zs) \<and> circle g x [] \<and> framed (set (x # c # ys @ zs)) h g"
proof -
  obtain p n g where g: "prv h x = Some p" "nxt h x = Some n" "list_del_between h p n = Some g" "circle g c (ys @ zs)"
    "framed (set (c # ys @ zs)) h g"
    using list_del_between_ok [OF assms] by blast
  have x: "x \<in> dom g" "x \<notin> set (c # ys @ zs)"
    using circle_node(5) [OF assms] circle_distinct [OF assms] g(5) by (auto simp: framed_def)
  obtain k where k: "do { h \<leftarrow> set_nxt g x LIST_POISON1; set_prv h x LIST_POISON2 } = Some k" "framed {x} g k"
    using set_links_ok [OF x(1)] by blast
  show "\<exists>g. list_head_del h x = Some g \<and> circle g c (ys @ zs) \<and> framed (set (x # c # ys @ zs)) h g"
    using g k x framed_trans [OF g(5) k(2)] circle_frame [OF g(4) k(2)]
    by (auto simp: list_head_del_def intro: framed_mono)
  obtain k' where k': "do { h \<leftarrow> set_nxt g x x; set_prv h x x } = Some k'" "framed {x} g k'" "nxt k' x = Some x" "prv k' x = Some x"
    using set_links_ok [OF x(1)] by blast
  show "\<exists>g. list_del_init h x = Some g \<and> circle g c (ys @ zs) \<and> circle g x [] \<and> framed (set (x # c # ys @ zs)) h g"
    using g k' x framed_trans [OF g(5) k'(2)] circle_frame [OF g(4) k'(2)]
    by (auto simp: list_del_init_def INIT_LIST_HEAD_def circle_def [of _ x] circ_empty intro: framed_mono)
qed

interpretation rdt_list: circular_list "\<lambda>h p x. map_option fst (list_insert h p x)" "\<lambda>h x. map_option fst (list_remove h x)"
proof
  fix h c ys zs x
  assume "circle h c (ys @ zs)" "x \<in> dom h" "x \<notin> set (c # ys @ zs)"
  then show "\<exists>g. map_option fst (list_insert h (hd (zs @ [c])) x) = Some g \<and> circle g c (ys @ x # zs) \<and> framed (set (x # c # ys @ zs)) h g"
    using list_insert_ok by fastforce
next
  fix h c ys x zs
  assume "circle h c (ys @ x # zs)"
  then show "\<exists>g. map_option fst (list_remove h x) = Some g \<and> circle g c (ys @ zs) \<and> framed (set (x # c # ys @ zs)) h g"
    using list_remove_ok [of h c ys x zs] by (auto intro: framed_mono)
qed

interpretation kernel_list: circular_list "\<lambda>h p x. list_add_tail h x p" list_head_del
proof
  fix h c ys zs x
  assume "circle h c (ys @ zs)" "x \<in> dom h" "x \<notin> set (c # ys @ zs)"
  then show "\<exists>g. list_add_tail h x (hd (zs @ [c])) = Some g \<and> circle g c (ys @ x # zs) \<and> framed (set (x # c # ys @ zs)) h g"
    by (rule list_add_tail_ok)
next
  fix h c ys x zs
  assume "circle h c (ys @ x # zs)"
  then show "\<exists>g. list_head_del h x = Some g \<and> circle g c (ys @ zs) \<and> framed (set (x # c # ys @ zs)) h g"
    by (rule list_head_del_ok(1))
qed

text \<open>The inserting half of a move works on the list without the node, whatever took it out.\<close>

interpretation kernel_init: circular_list "\<lambda>h p x. list_add_tail h x p" list_del_init
proof
  fix h c ys x zs
  assume "circle h c (ys @ x # zs)"
  then show "\<exists>g. list_del_init h x = Some g \<and> circle g c (ys @ zs) \<and> framed (set (x # c # ys @ zs)) h g"
    using list_head_del_ok(2) by blast
qed (rule list_add_tail_ok)

section \<open>The remaining operations\<close>

lemma list_init_ok: "c \<in> dom h \<Longrightarrow> \<exists>g. list_init h c = Some g \<and> circle g c [] \<and> framed {c} h g"
  using set_links_ok [of c h c c] by (auto simp: list_init_def circle_def circ_empty)

lemma INIT_LIST_HEAD_ok: "c \<in> dom h \<Longrightarrow> \<exists>g. INIT_LIST_HEAD h c = Some g \<and> circle g c [] \<and> framed {c} h g"
  using set_links_ok [of c h c c] by (auto simp: INIT_LIST_HEAD_def circle_def circ_empty)

lemma circle_empty_iff: "circle h c xs \<Longrightarrow> list_empty h c = Some (xs = [])"
  using circ_first [of "nxt h" "prv h" c xs] circle_distinct [of h c xs]
  by (cases xs) (auto simp: list_empty_def circle_def)

lemma list_size_ok:
  assumes "circle h c xs"
  shows "list_size h c = Some (length xs)"
proof -
  have "\<exists>r. loop (\<lambda>(k, p). if p = c then Some (Inr k)
                       else do { q \<leftarrow> nxt h p; Some (Inl (Suc k, q)) }) (0, hd (xs @ [c])) = Some r \<and> r = length xs"
  proof (rule loop_total [where P = "\<lambda>(k, p). \<exists>ys zs. xs = ys @ zs \<and> k = length ys \<and> p = hd (zs @ [c])"
        and m = "\<lambda>(k, p). length xs - k"])
    fix s
    assume "case s of (k, p) \<Rightarrow> \<exists>ys zs. xs = ys @ zs \<and> k = length ys \<and> p = hd (zs @ [c])"
    then obtain ys zs where s: "xs = ys @ zs" "s = (length ys, hd (zs @ [c]))"
      by auto
    show "(\<exists>r. (case s of (k, p) \<Rightarrow> if p = c then Some (Inr k) else do { q \<leftarrow> nxt h p; Some (Inl (Suc k, q)) }) = Some (Inr r)
          \<and> r = length xs) \<or>
      (\<exists>t. (case s of (k, p) \<Rightarrow> if p = c then Some (Inr k) else do { q \<leftarrow> nxt h p; Some (Inl (Suc k, q)) }) = Some (Inl t)
          \<and> (case t of (k, p) \<Rightarrow> \<exists>ys zs. xs = ys @ zs \<and> k = length ys \<and> p = hd (zs @ [c]))
          \<and> (case t of (k, p) \<Rightarrow> length xs - k) < (case s of (k, p) \<Rightarrow> length xs - k))"
    proof (cases zs)
      case Nil
      with s show ?thesis by simp
    next
      case (Cons z zs')
      then have "nxt h z = Some (hd (zs' @ [c]))" "z \<noteq> c"
        using circle_node(2) [of h c ys z zs'] circle_distinct [OF assms] assms s by auto
      moreover have "\<exists>us vs. xs = us @ vs \<and> Suc (length ys) = length us \<and> hd (zs' @ [c]) = hd (vs @ [c])"
        using s Cons by (intro exI [of _ "ys @ [z]"] exI [of _ zs']) simp
      ultimately show ?thesis
        using s Cons by simp
    qed
  qed (use assms in auto)
  then show ?thesis
    using circ_first [of "nxt h" "prv h" c xs] assms by (simp add: list_size_def circle_def)
qed

text \<open>Moving an entry to the front or the tail of another list, and of its own.\<close>

lemma list_move_ok:
  assumes "circle h c (ys @ x # zs)" and "circle h d us" and "set (c # ys @ x # zs) \<inter> set (d # us) = {}"
  shows "\<exists>k. list_move h x d = Some k \<and> circle k c (ys @ zs) \<and> circle k d (x # us)
      \<and> framed (set (c # ys @ x # zs) \<union> set (d # us)) h k"
    and "\<exists>k. list_move_tail h x d = Some k \<and> circle k c (ys @ zs) \<and> circle k d (us @ [x])
      \<and> framed (set (c # ys @ x # zs) \<union> set (d # us)) h k"
proof -
  have touched: "framed (set (c # ys @ x # zs) \<union> set (d # us)) h k"
    if "framed (set (c # ys @ zs)) h g" "framed (set (x # d # us)) g k" for g k
    using framed_trans [OF that] by (rule framed_mono) auto
  obtain p n g where g: "prv h x = Some p" "nxt h x = Some n" "list_del_between h p n = Some g" "circle g c (ys @ zs)"
    "framed (set (c # ys @ zs)) h g"
    using list_del_between_ok [OF assms(1)] by blast
  have d: "circle g d us"
    using assms(2,3) by (intro circle_frame [OF _ g(5)]) auto
  have x: "x \<in> dom g" "x \<notin> set (d # us)" "set (x # d # us) \<inter> set (c # ys @ zs) = {}"
    using circle_node(5) [OF assms(1)] circle_distinct [OF assms(1)] assms(3) g(5) by (auto simp: framed_def)
  obtain k where k: "list_add_tail g x (hd (us @ [d])) = Some k" "circle k d (x # us)" "framed (set (x # d # us)) g k"
    using list_add_tail_ok [of g d "[]" us x] d x by auto
  show "\<exists>k. list_move h x d = Some k \<and> circle k c (ys @ zs) \<and> circle k d (x # us)
      \<and> framed (set (c # ys @ x # zs) \<union> set (d # us)) h k"
    using g(1,2,3) k(1,2) list_head_add_eq [of g d "[]" us x] d circle_frame [OF g(4) k(3)] x touched [OF g(5) k(3)]
    by (simp add: list_move_def)
  obtain k' where k': "list_add_tail g x d = Some k'" "circle k' d (us @ [x])" "framed (set (x # d # us)) g k'"
    using list_add_tail_ok [of g d us "[]" x] d x by auto
  show "\<exists>k. list_move_tail h x d = Some k \<and> circle k c (ys @ zs) \<and> circle k d (us @ [x])
      \<and> framed (set (c # ys @ x # zs) \<union> set (d # us)) h k"
    using g(1,2,3) k'(1,2) circle_frame [OF g(4) k'(3)] x touched [OF g(5) k'(3)] by (simp add: list_move_tail_def)
qed

lemma list_move_within_ok:
  assumes "circle h c (ys @ x # zs)"
  shows "\<exists>k. list_move h x c = Some k \<and> circle k c (x # ys @ zs)"
    and "\<exists>k. list_move_tail h x c = Some k \<and> circle k c (ys @ zs @ [x])"
proof -
  obtain p n g where g: "prv h x = Some p" "nxt h x = Some n" "list_del_between h p n = Some g" "circle g c (ys @ zs)"
    "framed (set (c # ys @ zs)) h g"
    using list_del_between_ok [OF assms(1)] by blast
  have x: "x \<in> dom g" "x \<notin> set (c # ys @ zs)"
    using circle_node(5) [OF assms(1)] circle_distinct [OF assms(1)] g(5) by (auto simp: framed_def)
  show "\<exists>k. list_move h x c = Some k \<and> circle k c (x # ys @ zs)"
    using g list_add_tail_ok [of g c "[]" "ys @ zs" x] list_head_add_eq [of g c "[]" "ys @ zs" x] x
    by (auto simp: list_move_def)
  show "\<exists>k. list_move_tail h x c = Some k \<and> circle k c (ys @ zs @ [x])"
    using g list_add_tail_ok [of g c "ys @ zs" "[]" x] x by (auto simp: list_move_tail_def)
qed

lemma list_splice_between_ok:
  assumes "circle h c (x # xs)" and "circle h d ys" and "set (c # x # xs) \<inter> set (d # ys) = {}"
  shows "\<exists>g. list_splice_between h c d = Some g \<and> circle g d ((x # xs) @ ys) \<and> framed (set (x # xs @ d # ys)) h g"
proof -
  define l where "l = last (x # xs)"
  define r where "r = hd (ys @ [d])"
  have r: "r \<in> set (d # ys)" "r \<in> dom h" "nxt h d = Some r"
    using circle_gap [of h d "[]" ys] assms(2) hd_in_set [of "ys @ [d]"] by (auto simp: r_def)
  have l: "l \<in> set (x # xs)" "l \<in> dom h" "prv h c = Some l" "nxt h c = Some x" "x \<in> dom h" "d \<in> dom h"
    using last_in_set [of "x # xs"] circle_dom [OF assms(1), of l] circ_first [of "nxt h" "prv h" c "x # xs"] assms(1)
      circle_dom [OF assms(1), of x] circle_dom [OF assms(2), of d]
    by (auto simp: l_def circle_def)
  have "returns (list_splice_between h c d) (relinks h ((nxt h)(d \<mapsto> x, l \<mapsto> r)) ((prv h)(x \<mapsto> d, r \<mapsto> l)) {x, d, l, r})"
    using l r relinks_refl [of h]
    by (simp only: list_splice_between_def returns_simps) (rule link_steps | assumption | simp | erule relinks_mono)+
  then obtain g where g: "list_splice_between h c d = Some g"
    "relinks h ((nxt h)(d \<mapsto> x, l \<mapsto> r)) ((prv h)(x \<mapsto> d, r \<mapsto> l)) {x, d, l, r} g"
    by (auto simp: returns_def)
  have "circle g d ((x # xs) @ ys)"
    using circ_splice [of "nxt h" "prv h" c x xs d ys l r] assms g(2) by (simp add: circle_def relinks_def l_def r_def)
  moreover have "framed (set (x # xs @ d # ys)) h g"
    using g(2) l(1) r(1) by (auto simp: relinks_def intro: framed_mono)
  ultimately show ?thesis
    using g(1) by blast
qed

lemma list_splice_init_ok:
  assumes "circle h c xs" and "circle h d ys" and "set (c # xs) \<inter> set (d # ys) = {}"
  shows "\<exists>g. list_splice_init h c d = Some g \<and> circle g d (xs @ ys) \<and> circle g c []
    \<and> framed (set (c # xs) \<union> set (d # ys)) h g"
proof (cases xs)
  case Nil
  then show ?thesis
    using assms circle_empty_iff [OF assms(1)] by (simp add: list_splice_init_def framed_def)
next
  case (Cons x xs')
  obtain g where g: "list_splice_between h c d = Some g" "circle g d ((x # xs') @ ys)" "framed (set (x # xs' @ d # ys)) h g"
    using list_splice_between_ok [of h c x xs' d ys] assms Cons by auto
  have "c \<in> dom g"
    using circle_dom [OF assms(1), of c] g(3) by (simp add: framed_def)
  then obtain k where k: "INIT_LIST_HEAD g c = Some k" "circle k c []" "framed {c} g k"
    using INIT_LIST_HEAD_ok by blast
  have "circle k d ((x # xs') @ ys)"
    using circle_distinct [OF assms(1)] assms(3) Cons by (intro circle_frame [OF g(2) k(3)]) auto
  moreover have "framed (set (c # xs) \<union> set (d # ys)) h k"
    using framed_trans [OF g(3) k(3)] by (rule framed_mono) (auto simp: Cons)
  ultimately show ?thesis
    using g(1) k circle_empty_iff [OF assms(1)] Cons by (simp add: list_splice_init_def)
qed

section \<open>What the lists do\<close>

text \<open>
  In C/rudp_self/list.c, inserting a node before any position of a circular list puts it there,
  counts it in \<open>list_size\<close> and touches no node outside the list; removing it again gives the list
  that was there before.
\<close>

theorem list_insert_remove:
  assumes "circle h c (ys @ zs)" and "x \<in> dom h" and "x \<notin> set (c # ys @ zs)"
  shows "\<exists>g k. list_insert h (hd (zs @ [c])) x = Some (g, x) \<and> circle g c (ys @ x # zs)
    \<and> list_size g c = Some (Suc (length ys + length zs))
    \<and> list_remove g x = Some (k, x) \<and> circle k c (ys @ zs) \<and> framed (set (x # c # ys @ zs)) h k"
proof -
  obtain g k where g: "map_option fst (list_insert h (hd (zs @ [c])) x) = Some g" "circle g c (ys @ x # zs)"
    "map_option fst (list_remove g x) = Some k" "circle k c (ys @ zs)" "framed (set (x # c # ys @ zs)) h k"
    using rdt_list.insert_unlink [OF assms] by blast
  then show ?thesis
    using list_insert_ok [OF assms] list_remove_ok [OF g(2)] list_size_ok [OF g(2)] by auto
qed

definition sample_ring :: dheap where
  "sample_ring = [8 \<mapsto> \<lparr>dn_next = 16, dn_prev = 16\<rparr>, 16 \<mapsto> \<lparr>dn_next = 8, dn_prev = 8\<rparr>,
     24 \<mapsto> \<lparr>dn_next = 0, dn_prev = 0\<rparr>, 32 \<mapsto> \<lparr>dn_next = 24, dn_prev = 24\<rparr>]"

lemma sample_ring_circle: "circle sample_ring 8 [16]"
  by (simp add: circle_def circ_def nxt_def prv_def sample_ring_def)

theorem list_insert_remove_witness:
  "\<exists>g k. list_insert sample_ring 8 24 = Some (g, 24) \<and> circle g 8 [16, 24] \<and> list_remove g 24 = Some (k, 24)
    \<and> circle k 8 [16]"
  using list_insert_remove [of sample_ring 8 "[16]" "[]" 24] sample_ring_circle
  by (force simp: sample_ring_def)

text \<open>
  C30: in C/07_listhead/list_head.h, moving an entry to the head or the tail of another list takes it
  out of its own and changes the order of nothing else, and splicing a list into another puts its
  entries in order at the head of that list and leaves the first one empty. The two lists are
  disjoint. Nothing is allocated or freed, and every node outside the two lists, in whatever other
  lists it is, keeps both its links.
\<close>

theorem list_head_moves_and_splices:
  assumes "circle h c (ys @ x # zs)" and "circle h d us" and "set (c # ys @ x # zs) \<inter> set (d # us) = {}"
  shows "(\<exists>k. list_move h x d = Some k \<and> circle k c (ys @ zs) \<and> circle k d (x # us)
      \<and> framed (set (c # ys @ x # zs) \<union> set (d # us)) h k) \<and>
    (\<exists>k. list_move_tail h x d = Some k \<and> circle k c (ys @ zs) \<and> circle k d (us @ [x])
      \<and> framed (set (c # ys @ x # zs) \<union> set (d # us)) h k) \<and>
    (\<exists>k. list_splice_init h c d = Some k \<and> circle k d (ys @ x # zs @ us) \<and> circle k c []
      \<and> framed (set (c # ys @ x # zs) \<union> set (d # us)) h k)"
  using list_move_ok [OF assms] list_splice_init_ok [OF assms] by auto

theorem list_head_moves_and_splices_witness:
  "\<exists>h k. list_splice_init h 8 32 = Some k \<and> circle k 32 [16] \<and> circle k 8 [] \<and> k 24 = h 24"
proof -
  let ?h = "sample_ring(32 \<mapsto> \<lparr>dn_next = 32, dn_prev = 32\<rparr>)"
  have "circle ?h 8 ([] @ 16 # [])" "circle ?h 32 []"
    by (simp_all add: circle_def circ_def nxt_def prv_def sample_ring_def)
  then obtain k where "list_splice_init ?h 8 32 = Some k" "circle k 32 [16]" "circle k 8 []" "framed {32, 8, 16} ?h k"
    using list_head_moves_and_splices [of ?h 8 "[]" 16 "[]" 32 "[]"] by auto
  moreover from this have "k 24 = ?h 24"
    by (simp add: framed_def)
  ultimately show ?thesis
    by blast
qed

end
