(* ===== verification/Dictionary.thy ===== *)
theory Dictionary
  imports Interfaces Loops
begin

text \<open>
  The string dictionary of C/04_tools/07_ini_parser/dictionary.c: three parallel arrays of keys,
  values and hashes, searched linearly, grown by doubling. A C string is a HOL string without the
  terminating zero; a null pointer in the arrays is \<open>None\<close>. The answers of the allocator are
  parameters: \<open>mal s\<close> says whether a copy of the string \<open>s\<close> can be allocated, \<open>cal n\<close> whether the
  three arrays of \<open>n\<close> entries can. The theory shows that the dictionary is a finite map.
\<close>

section \<open>The program\<close>

record dictionary =
  d_n :: nat
  d_size :: nat
  d_val :: "string option list"
  d_key :: "string option list"
  d_hash :: "u32 list"

definition DICTMINSZ :: nat where "DICTMINSZ = 128"

definition xstrdup :: "(string \<Rightarrow> bool) \<Rightarrow> string option \<Rightarrow> string option" where
  "xstrdup mal s = (case s of None \<Rightarrow> None | Some t \<Rightarrow> if mal t then Some t else None)"

text \<open>\<open>size * 2\<close> stays far below the range of \<open>size_t\<close>: the arrays exist.\<close>

definition dictionary_grow :: "(nat \<Rightarrow> bool) \<Rightarrow> dictionary \<Rightarrow> (int \<times> dictionary) option" where
  "dictionary_grow cal d =
     (let n = d_size d * 2 in
      if \<not> cal n then Some (-1, d)
      else do {
        new_val \<leftarrow> mcpy (replicate n None) 0 (d_val d) 0 (int (d_size d));
        new_key \<leftarrow> mcpy (replicate n None) 0 (d_key d) 0 (int (d_size d));
        new_hash \<leftarrow> mcpy (replicate n 0) 0 (d_hash d) 0 (int (d_size d));
        Some (0, d\<lparr>d_size := n, d_val := new_val, d_key := new_key, d_hash := new_hash\<rparr>) })"

text \<open>\<open>(unsigned)key[i]\<close> extends the sign of a \<open>char\<close>.\<close>

definition hash_char :: "char \<Rightarrow> u32" where
  "hash_char c = word_of_int (sint (of_char c :: u8))"

definition hash_step :: "char \<Rightarrow> u32 \<Rightarrow> u32" where
  "hash_step c hash =
     (let hash = hash + hash_char c;
          hash = hash + push_bit 10 hash
      in hash XOR drop_bit 6 hash)"

definition dictionary_hash :: "string option \<Rightarrow> u32" where
  "dictionary_hash key =
     (case key of None \<Rightarrow> 0
      | Some k \<Rightarrow>
          let hash = fold hash_step k 0;
              hash = hash + push_bit 3 hash;
              hash = hash XOR drop_bit 11 hash
          in hash + push_bit 15 hash)"

definition dictionary_new :: "(nat \<Rightarrow> bool) \<Rightarrow> nat \<Rightarrow> dictionary option" where
  "dictionary_new cal sz =
     (let sz = (if sz < DICTMINSZ then DICTMINSZ else sz) in
      if cal sz then Some \<lparr>d_n = 0, d_size = sz, d_val = replicate sz None, d_key = replicate sz None,
        d_hash = replicate sz 0\<rparr>
      else None)"

text \<open>The search that \<open>dictionary_get\<close>, \<open>dictionary_set\<close> and \<open>dictionary_unset\<close> share, from cell \<open>i\<close>
  on: the index of the key, or \<open>size\<close>.\<close>

function dict_search :: "dictionary \<Rightarrow> string \<Rightarrow> u32 \<Rightarrow> nat \<Rightarrow> nat option" where
  "dict_search d key hash i =
     (if i < d_size d then do {
        k \<leftarrow> urd (d_key d) i;
        case k of None \<Rightarrow> dict_search d key hash (i + 1)
        | Some k \<Rightarrow> do {
            h \<leftarrow> urd (d_hash d) i;
            if hash = h \<and> key = k then Some i else dict_search d key hash (i + 1) } }
      else Some i)"
  by pat_completeness auto
termination
  by (relation "measure (\<lambda>(d, _, _, i). d_size d - i)") auto

declare dict_search.simps [simp del]

text \<open>The pointers the accessors return: null, a string, or the caller's own \<open>(char*)-1\<close>, which is no
  string. The outer \<open>option\<close> is \<open>None\<close> when the call is undefined.\<close>

datatype cstr = Null | Str string | Invalid_key

definition ptr :: "string option \<Rightarrow> cstr" where
  "ptr v = (case v of None \<Rightarrow> Null | Some s \<Rightarrow> Str s)"

definition dictionary_get :: "dictionary option \<Rightarrow> string option \<Rightarrow> cstr \<Rightarrow> cstr option" where
  "dictionary_get d key def =
     (case (d, key) of
        (Some d, Some k) \<Rightarrow> do {
          i \<leftarrow> dict_search d k (dictionary_hash key) 0;
          if i < d_size d then map_option ptr (urd (d_val d) i) else Some def }
      | _ \<Rightarrow> Some def)"

text \<open>The first empty slot from \<open>n\<close> on, wrapping at \<open>size\<close>; when there is none the loop does not end.\<close>

definition empty_slot :: "dictionary \<Rightarrow> nat option" where
  "empty_slot d = loop (\<lambda>i. do {
     k \<leftarrow> urd (d_key d) i;
     case k of None \<Rightarrow> Some (Inr i)
     | Some _ \<Rightarrow> Some (Inl (if i + 1 = d_size d then 0 else i + 1)) }) (d_n d)"

definition dictionary_set :: "(string \<Rightarrow> bool) \<Rightarrow> (nat \<Rightarrow> bool) \<Rightarrow> dictionary option \<Rightarrow> string option \<Rightarrow> string option
    \<Rightarrow> (int \<times> dictionary option) option" where
  "dictionary_set mal cal d key val =
     (case (d, key) of
        (Some d, Some k) \<Rightarrow> do {
          let hash = dictionary_hash key;
          i \<leftarrow> (if 0 < d_n d then dict_search d k hash 0 else Some (d_size d));
          if i < d_size d then do {
            vs \<leftarrow> uwr (d_val d) i (xstrdup mal val);
            Some (0, Some (d\<lparr>d_val := vs\<rparr>)) }
          else do {
            (r, d) \<leftarrow> (if d_n d = d_size d then dictionary_grow cal d else Some (0, d));
            if r \<noteq> 0 then Some (-1, Some d)
            else do {
              i \<leftarrow> empty_slot d;
              ks \<leftarrow> uwr (d_key d) i (xstrdup mal key);
              vs \<leftarrow> uwr (d_val d) i (xstrdup mal val);
              hs \<leftarrow> uwr (d_hash d) i hash;
              Some (0, Some (d\<lparr>d_key := ks, d_val := vs, d_hash := hs, d_n := d_n d + 1\<rparr>)) } } }
      | _ \<Rightarrow> Some (-1, d))"

definition dictionary_unset :: "dictionary option \<Rightarrow> string option \<Rightarrow> dictionary option option" where
  "dictionary_unset d key =
     (case (d, key) of
        (Some d, Some k) \<Rightarrow> do {
          i \<leftarrow> dict_search d k (dictionary_hash key) 0;
          if d_size d \<le> i then Some (Some d)
          else do {
            ks \<leftarrow> uwr (d_key d) i None;
            vs \<leftarrow> uwr (d_val d) i None;
            hs \<leftarrow> uwr (d_hash d) i 0;
            Some (Some (d\<lparr>d_key := ks, d_val := vs, d_hash := hs, d_n := d_n d - 1\<rparr>)) } }
      | _ \<Rightarrow> Some d)"

text \<open>The lines that \<open>dictionary_dump\<close> prints: a key and its value, or the note that there is none.\<close>

definition dictionary_dump :: "dictionary option \<Rightarrow> (string \<times> string) list" where
  "dictionary_dump d =
     (case d of None \<Rightarrow> []
      | Some d \<Rightarrow>
          if d_n d < 1 then [(''empty dictionary'', '''')]
          else [(k, case v of Some s \<Rightarrow> s | None \<Rightarrow> ''UNDEF''). (Some k, v) \<leftarrow> zip (d_key d) (d_val d)])"

section \<open>The map a dictionary stands for\<close>

definition entries :: "dictionary \<Rightarrow> (string \<times> string option) list" where
  "entries d = [(k, v). (Some k, v) \<leftarrow> zip (d_key d) (d_val d)]"

definition dict_map :: "dictionary \<Rightarrow> string \<Rightarrow> string option option" where
  "dict_map d = map_of (entries d)"

definition occupied :: "dictionary \<Rightarrow> nat set" where
  "occupied d = {i. i < d_size d \<and> d_key d ! i \<noteq> None}"

definition dict_ok :: "dictionary \<Rightarrow> bool" where
  "dict_ok d \<longleftrightarrow> 0 < d_size d \<and> length (d_key d) = d_size d \<and> length (d_val d) = d_size d \<and> length (d_hash d) = d_size d
     \<and> d_n d = card (occupied d)
     \<and> (\<forall>i<d_size d. \<forall>k. d_key d ! i = Some k \<longrightarrow> d_hash d ! i = dictionary_hash (Some k))
     \<and> (\<forall>i<d_size d. \<forall>j<d_size d. \<forall>k. d_key d ! i = Some k \<longrightarrow> d_key d ! j = Some k \<longrightarrow> i = j)"

lemma finite_occupied [simp]: "finite (occupied d)"
  by (simp add: occupied_def)

lemma card_occupied_le: "card (occupied d) \<le> d_size d"
  using card_mono [of "{..<d_size d}" "occupied d"] by (auto simp: occupied_def)

text \<open>The entries as a relation between the cells.\<close>

lemma entries_iff:
  "length (d_key d) = length (d_val d) \<Longrightarrow>
   (k, v) \<in> set (entries d) \<longleftrightarrow> (\<exists>i<length (d_key d). d_key d ! i = Some k \<and> d_val d ! i = v)"
  by (force simp: entries_def set_zip split: option.splits)

lemma dict_ok_functional:
  assumes "dict_ok d" and "(k, v) \<in> set (entries d)" and "(k, w) \<in> set (entries d)"
  shows "v = w"
  using assms by (auto simp: dict_ok_def entries_iff)

lemma dict_map_iff:
  assumes "dict_ok d"
  shows "dict_map d k = Some v \<longleftrightarrow> (\<exists>i<d_size d. d_key d ! i = Some k \<and> d_val d ! i = v)"
proof -
  have "dict_map d k = Some v \<longleftrightarrow> (k, v) \<in> set (entries d)"
    unfolding dict_map_def using dict_ok_functional [OF assms, of k] weak_map_of_SomeI [of k v "entries d"]
    by (auto dest: map_of_SomeD)
  then show ?thesis
    using assms by (simp add: entries_iff dict_ok_def)
qed

lemma dict_map_None:
  assumes "dict_ok d"
  shows "dict_map d k = None \<longleftrightarrow> (\<forall>i<d_size d. d_key d ! i \<noteq> Some k)"
  using dict_map_iff [OF assms, of k] by (metis not_None_eq)

section \<open>The operations\<close>

lemma dict_search_ok:
  assumes "dict_ok d"
  shows "\<exists>j. dict_search d k (dictionary_hash (Some k)) i = Some j
    \<and> (if j < d_size d then d_key d ! j = Some k else \<forall>l. i \<le> l \<and> l < d_size d \<longrightarrow> d_key d ! l \<noteq> Some k)"
  using assms
proof (induction d k "dictionary_hash (Some k)" i rule: dict_search.induct)
  case (1 d k i)
  show ?case
  proof (cases "i < d_size d")
    case True
    then have len: "i < length (d_key d)" "i < length (d_hash d)"
      using "1.prems" by (simp_all add: dict_ok_def)
    show ?thesis
    proof (cases "d_key d ! i = Some k")
      case found: True
      then have "d_hash d ! i = dictionary_hash (Some k)"
        using "1.prems" True by (simp add: dict_ok_def)
      then show ?thesis
        using True len found by (subst dict_search.simps) (simp add: urd_in)
    next
      case False
      then have "\<exists>j. dict_search d k (dictionary_hash (Some k)) (i + 1) = Some j
        \<and> (if j < d_size d then d_key d ! j = Some k else \<forall>l. i + 1 \<le> l \<and> l < d_size d \<longrightarrow> d_key d ! l \<noteq> Some k)"
        using "1.hyps" True len "1.prems" by (cases "d_key d ! i") (auto simp: urd_in)
      moreover have "dict_search d k (dictionary_hash (Some k)) i = dict_search d k (dictionary_hash (Some k)) (i + 1)"
        using True len False by (subst dict_search.simps) (auto simp: urd_in split: option.split)
      moreover have "l = i \<or> i + 1 \<le> l" if "i \<le> l" for l
        using that by auto
      ultimately show ?thesis
        using False by fastforce
    qed
  next
    case False
    then show ?thesis by (subst dict_search.simps) auto
  qed
qed

lemma dict_search_found:
  assumes "dict_ok d" and "i < d_size d" and "d_key d ! i = Some k"
  shows "dict_search d k (dictionary_hash (Some k)) 0 = Some i"
  using dict_search_ok [OF assms(1), of k 0] assms by (auto simp: dict_ok_def split: if_splits)

lemma dictionary_get_ok:
  assumes "dict_ok d"
  shows "dictionary_get (Some d) (Some k) def = Some (case dict_map d k of Some v \<Rightarrow> ptr v | None \<Rightarrow> def)"
proof -
  obtain j where j: "dict_search d k (dictionary_hash (Some k)) 0 = Some j"
    "if j < d_size d then d_key d ! j = Some k else \<forall>l. 0 \<le> l \<and> l < d_size d \<longrightarrow> d_key d ! l \<noteq> Some k"
    using dict_search_ok [OF assms] by blast
  show ?thesis
  proof (cases "j < d_size d")
    case True
    then have "dict_map d k = Some (d_val d ! j)"
      using j(2) assms by (subst dict_map_iff) auto
    then show ?thesis
      using j(1) True assms by (simp add: dictionary_get_def urd_in dict_ok_def)
  next
    case False
    then have "dict_map d k = None"
      using j(2) assms by (simp add: dict_map_None)
    then show ?thesis
      using j(1) False by (simp add: dictionary_get_def)
  qed
qed

lemma dictionary_new_ok:
  assumes "cal (max DICTMINSZ n)"
  shows "\<exists>d. dictionary_new cal n = Some d \<and> dict_ok d \<and> dict_map d = (\<lambda>_. None)"
proof -
  have "dictionary_new cal n = Some \<lparr>d_n = 0, d_size = max DICTMINSZ n, d_val = replicate (max DICTMINSZ n) None,
     d_key = replicate (max DICTMINSZ n) None, d_hash = replicate (max DICTMINSZ n) 0\<rparr>" (is "_ = Some ?d")
    using assms by (cases "n < DICTMINSZ") (simp_all add: dictionary_new_def max_def)
  moreover have "dict_ok ?d"
    by (auto simp: dict_ok_def occupied_def DICTMINSZ_def)
  moreover have "dict_map ?d k = None" for k
    by (simp add: dict_map_None [OF \<open>dict_ok ?d\<close>])
  ultimately show ?thesis by auto
qed

lemma dictionary_grow_ok:
  assumes "dict_ok d" and "cal (d_size d * 2)"
  shows "\<exists>g. dictionary_grow cal d = Some (0, g) \<and> dict_ok g \<and> dict_map g = dict_map d \<and> d_size g = 2 * d_size d \<and> d_n g = d_n d"
proof -
  define n where "n = d_size d"
  note ok = assms(1) [unfolded dict_ok_def, folded n_def]
  define g where "g = d\<lparr>d_size := n * 2, d_val := d_val d @ replicate n None, d_key := d_key d @ replicate n None,
     d_hash := d_hash d @ replicate n 0\<rparr>"
  have grow: "dictionary_grow cal d = Some (0, g)"
    using assms(2) ok mcpy_nat [of 0 n "replicate (n * 2) None" 0 "d_val d"] mcpy_nat [of 0 n "replicate (n * 2) None" 0 "d_key d"]
      mcpy_nat [of 0 n "replicate (n * 2) 0" 0 "d_hash d"]
    by (simp add: dictionary_grow_def g_def flip: n_def)
  have cells: "i < n * 2 \<Longrightarrow> d_key g ! i = (if i < n then d_key d ! i else None)"
    "i < n \<Longrightarrow> d_val g ! i = d_val d ! i" "i < n \<Longrightarrow> d_hash g ! i = d_hash d ! i" for i
    using ok by (simp_all add: g_def nth_append)
  have sz: "d_size g = n * 2" "length (d_key g) = n * 2" "length (d_val g) = n * 2" "length (d_hash g) = n * 2" "d_n g = d_n d"
    using ok by (simp_all add: g_def)
  have "occupied g = occupied d"
    using cells(1) sz by (auto simp: occupied_def simp flip: n_def split: if_splits)
  have key: "i < n \<and> d_key d ! i = Some k" if "i < d_size g" "d_key g ! i = Some k" for i k
    using that cells(1) [of i] sz(1) by (simp split: if_splits)
  have "d_n g = card (occupied g)"
    using ok \<open>occupied g = occupied d\<close> sz(5) by simp
  moreover have "d_hash g ! i = dictionary_hash (Some k)" if "i < d_size g" "d_key g ! i = Some k" for i k
    using key [OF that] cells(3) ok by simp
  moreover have "i = j" if "i < d_size g" "j < d_size g" "d_key g ! i = Some k" "d_key g ! j = Some k" for i j k
    using key [OF that(1,3)] key [OF that(2,4)] ok by blast
  ultimately have okg: "dict_ok g"
    using sz ok unfolding dict_ok_def by simp
  have same: "dict_map g k = Some v \<longleftrightarrow> dict_map d k = Some v" for k v
  proof
    assume "dict_map g k = Some v"
    then obtain i where "i < d_size g" "d_key g ! i = Some k" "d_val g ! i = v"
      using dict_map_iff [OF okg] by blast
    then show "dict_map d k = Some v"
      using key [of i k] cells(2) [of i] dict_map_iff [OF assms(1)] by (auto simp: n_def)
  next
    assume "dict_map d k = Some v"
    then obtain i where "i < n" "d_key d ! i = Some k" "d_val d ! i = v"
      using dict_map_iff [OF assms(1)] by (auto simp: n_def)
    then show "dict_map g k = Some v"
      using cells [of i] sz(1) by (subst dict_map_iff [OF okg]) (auto intro!: exI [of _ i])
  qed
  have "dict_map g = dict_map d"
  proof
    show "dict_map g k = dict_map d k" for k
      using same [of k] by (cases "dict_map d k"; cases "dict_map g k") auto
  qed
  then show ?thesis
    using grow okg sz by (auto simp: n_def)
qed

lemma empty_slot_ok:
  assumes "dict_ok d" and "d_n d < d_size d"
  shows "\<exists>i<d_size d. empty_slot d = Some i \<and> d_key d ! i = None"
proof -
  have len: "length (d_key d) = d_size d"
    using assms(1) by (simp add: dict_ok_def)
  have "occupied d \<noteq> {..<d_size d}"
    using assms by (auto simp: dict_ok_def)
  then obtain e where e: "e < d_size d" "d_key d ! e = None"
    by (auto simp: occupied_def)
  define dist where "dist i = (if i \<le> e then e - i else d_size d - i + e)" for i
  have "\<exists>r. empty_slot d = Some r \<and> r < d_size d \<and> d_key d ! r = None"
    unfolding empty_slot_def
  proof (rule loop_total [where P = "\<lambda>i. i < d_size d" and m = dist])
    fix i
    assume i: "i < d_size d"
    show "(\<exists>r. do { k \<leftarrow> urd (d_key d) i; case k of None \<Rightarrow> Some (Inr i)
          | Some _ \<Rightarrow> Some (Inl (if i + 1 = d_size d then 0 else i + 1)) } = Some (Inr r) \<and> r < d_size d \<and> d_key d ! r = None) \<or>
      (\<exists>t. do { k \<leftarrow> urd (d_key d) i; case k of None \<Rightarrow> Some (Inr i)
          | Some _ \<Rightarrow> Some (Inl (if i + 1 = d_size d then 0 else i + 1)) } = Some (Inl t) \<and> t < d_size d \<and> dist t < dist i)"
    proof (cases "d_key d ! i")
      case None
      with i len show ?thesis by (simp add: urd_in)
    next
      case (Some k)
      then have "i \<noteq> e" using e by auto
      with Some i len e show ?thesis by (auto simp: urd_in dist_def)
    qed
  qed (use assms(2) in simp)
  then show ?thesis by auto
qed

text \<open>Changing one cell: a new value, a new entry, no entry.\<close>

lemma dict_map_eqI:
  assumes "dict_ok d" and "\<And>k v. m k = Some v \<longleftrightarrow> (\<exists>i<d_size d. d_key d ! i = Some k \<and> d_val d ! i = v)"
  shows "dict_map d = m"
proof
  have "dict_map d k = Some v \<longleftrightarrow> m k = Some v" for k v
    using dict_map_iff [OF assms(1)] assms(2) by simp
  then show "dict_map d k = m k" for k
    by (rule option_eqI)
qed

lemma set_value_ok:
  assumes "dict_ok d" and "i < d_size d" and "d_key d ! i = Some k"
  shows "dict_ok (d\<lparr>d_val := (d_val d)[i := v]\<rparr>) \<and> dict_map (d\<lparr>d_val := (d_val d)[i := v]\<rparr>) = (dict_map d)(k \<mapsto> v)"
proof
  show ok: "dict_ok (d\<lparr>d_val := (d_val d)[i := v]\<rparr>)"
    using assms(1) by (simp add: dict_ok_def occupied_def)
  have uniq: "j = i" if "j < d_size d" "d_key d ! j = Some k" for j
    using assms that by (simp add: dict_ok_def)
  have len: "length (d_val d) = d_size d"
    using assms(1) by (simp add: dict_ok_def)
  show "dict_map (d\<lparr>d_val := (d_val d)[i := v]\<rparr>) = (dict_map d)(k \<mapsto> v)"
  proof (rule dict_map_eqI [OF ok])
    fix k' w
    show "((dict_map d)(k \<mapsto> v)) k' = Some w \<longleftrightarrow>
      (\<exists>j<d_size (d\<lparr>d_val := (d_val d)[i := v]\<rparr>). d_key (d\<lparr>d_val := (d_val d)[i := v]\<rparr>) ! j = Some k' \<and>
          d_val (d\<lparr>d_val := (d_val d)[i := v]\<rparr>) ! j = w)"
    proof (cases "k' = k")
      case True
      have "(\<exists>j<d_size d. d_key d ! j = Some k \<and> (d_val d)[i := v] ! j = w) \<longleftrightarrow> v = w"
      proof
        assume "\<exists>j<d_size d. d_key d ! j = Some k \<and> (d_val d)[i := v] ! j = w"
        then obtain j where "j < d_size d" "d_key d ! j = Some k" "(d_val d)[i := v] ! j = w"
          by blast
        with uniq [of j] len show "v = w" by simp
      next
        assume "v = w"
        with assms(2,3) len show "\<exists>j<d_size d. d_key d ! j = Some k \<and> (d_val d)[i := v] ! j = w"
          by (intro exI [of _ i]) simp
      qed
      with True show ?thesis by simp
    next
      case False
      then have ne: "j \<noteq> i" if "d_key d ! j = Some k'" for j
        using that assms(3) by auto
      have "(d_key d ! j = Some k' \<and> (d_val d)[i := v] ! j = w) = (d_key d ! j = Some k' \<and> d_val d ! j = w)" for j
        using ne [of j] by (cases "d_key d ! j = Some k'") simp_all
      with False show ?thesis
        using dict_map_iff [OF assms(1), of k' w] by simp
    qed
  qed
qed

lemma dictionary_set_old:
  assumes "dict_ok d" and "dict_map d k \<noteq> None"
  shows "\<exists>e. dictionary_set mal cal (Some d) (Some k) val = Some (0, Some e) \<and> dict_ok e \<and> dict_map e = (dict_map d)(k \<mapsto> xstrdup mal val)"
proof -
  obtain i where i: "i < d_size d" "d_key d ! i = Some k"
    using dict_map_None [OF assms(1), of k] assms(2) by blast
  then have "i \<in> occupied d"
    by (simp add: occupied_def)
  then have "0 < d_n d"
    using assms(1) card_gt_0_iff [of "occupied d"] by (auto simp: dict_ok_def)
  moreover have "i < length (d_val d)"
    using assms(1) i by (simp add: dict_ok_def)
  ultimately show ?thesis
    using dict_search_found [OF assms(1) i] i(1) set_value_ok [OF assms(1) i]
    by (simp add: dictionary_set_def uwr_in)
qed

definition put_cell :: "dictionary \<Rightarrow> nat \<Rightarrow> string \<Rightarrow> string option \<Rightarrow> dictionary" where
  "put_cell d i k v = d\<lparr>d_key := (d_key d)[i := Some k], d_val := (d_val d)[i := v],
     d_hash := (d_hash d)[i := dictionary_hash (Some k)], d_n := d_n d + 1\<rparr>"

lemma put_cell_ok:
  assumes "dict_ok d" and "i < d_size d" and "d_key d ! i = None" and "dict_map d k = None"
  shows "dict_ok (put_cell d i k v) \<and> dict_map (put_cell d i k v) = (dict_map d)(k \<mapsto> v)"
proof
  note ok = assms(1) [unfolded dict_ok_def]
  have fresh: "d_key d ! j \<noteq> Some k" if "j < d_size d" for j
    using assms(1,4) that by (simp add: dict_map_None)
  have sz: "d_size (put_cell d i k v) = d_size d"
    by (simp add: put_cell_def)
  have key: "d_key (put_cell d i k v) ! j = (if j = i then Some k else d_key d ! j)"
    and val: "d_val (put_cell d i k v) ! j = (if j = i then v else d_val d ! j)"
    and hash: "d_hash (put_cell d i k v) ! j = (if j = i then dictionary_hash (Some k) else d_hash d ! j)" if "j < d_size d" for j
    using that ok by (auto simp: put_cell_def)
  have "occupied (put_cell d i k v) = insert i (occupied d)"
    using assms(2) key by (auto simp: occupied_def sz)
  moreover have "i \<notin> occupied d"
    using assms(3) by (simp add: occupied_def)
  ultimately have "card (occupied (put_cell d i k v)) = Suc (card (occupied d))"
    by simp
  then show ok': "dict_ok (put_cell d i k v)"
    using ok fresh key hash unfolding dict_ok_def sz by (auto simp: put_cell_def split: if_splits)
  show "dict_map (put_cell d i k v) = (dict_map d)(k \<mapsto> v)"
  proof (rule dict_map_eqI [OF ok'])
    fix k' w
    have "(\<exists>j<d_size d. d_key (put_cell d i k v) ! j = Some k' \<and> d_val (put_cell d i k v) ! j = w) \<longleftrightarrow>
      (if k' = k then w = v else \<exists>j<d_size d. d_key d ! j = Some k' \<and> d_val d ! j = w)"
      using assms(2,3) fresh key val by (auto split: if_splits) (metis option.distinct(1))+
    then show "((dict_map d)(k \<mapsto> v)) k' = Some w \<longleftrightarrow>
      (\<exists>j<d_size (put_cell d i k v). d_key (put_cell d i k v) ! j = Some k' \<and> d_val (put_cell d i k v) ! j = w)"
      using dict_map_iff [OF assms(1), of k' w] unfolding sz by auto
  qed
qed

text \<open>A new key grows a full dictionary first; when that fails nothing is changed.\<close>

lemma dictionary_set_new:
  assumes "dict_ok d" and "dict_map d k = None" and "mal k"
  shows "if d_n d = d_size d \<and> \<not> cal (d_size d * 2) then dictionary_set mal cal (Some d) (Some k) val = Some (-1, Some d)
    else \<exists>e. dictionary_set mal cal (Some d) (Some k) val = Some (0, Some e) \<and> dict_ok e
      \<and> dict_map e = (dict_map d)(k \<mapsto> xstrdup mal val) \<and> d_n e = d_n d + 1"
proof -
  obtain j where j: "dict_search d k (dictionary_hash (Some k)) 0 = Some j" "d_size d \<le> j"
    using dict_search_ok [OF assms(1), of k 0] assms(1,2) by (auto simp: dict_map_None split: if_splits)
  then have search: "(if 0 < d_n d then dict_search d k (dictionary_hash (Some k)) 0 else Some (d_size d)) = Some j \<or>
     (if 0 < d_n d then dict_search d k (dictionary_hash (Some k)) 0 else Some (d_size d)) = Some (d_size d)"
    by simp
  have put: "\<exists>e. do { i \<leftarrow> empty_slot g; ks \<leftarrow> uwr (d_key g) i (xstrdup mal (Some k)); vs \<leftarrow> uwr (d_val g) i (xstrdup mal val);
       hs \<leftarrow> uwr (d_hash g) i (dictionary_hash (Some k));
       Some (0 :: int, Some (g\<lparr>d_key := ks, d_val := vs, d_hash := hs, d_n := d_n g + 1\<rparr>)) } = Some (0, Some e)
     \<and> dict_ok e \<and> dict_map e = (dict_map d)(k \<mapsto> xstrdup mal val) \<and> d_n e = d_n g + 1"
    if g: "dict_ok g" "dict_map g = dict_map d" "d_n g < d_size g" for g
  proof -
    obtain i where i: "i < d_size g" "empty_slot g = Some i" "d_key g ! i = None"
      using empty_slot_ok [OF g(1,3)] by blast
    then have "i < length (d_key g)" "i < length (d_val g)" "i < length (d_hash g)"
      using g(1) by (simp_all add: dict_ok_def)
    with i put_cell_ok [OF g(1) i(1,3), of k "xstrdup mal val"] g(2) assms(2,3) show ?thesis
      by (simp add: uwr_in xstrdup_def put_cell_def)
  qed
  show ?thesis
  proof (cases "d_n d = d_size d")
    case True
    then have "0 < d_n d"
      using assms(1) by (simp add: dict_ok_def)
    show ?thesis
    proof (cases "cal (d_size d * 2)")
      case False
      then show ?thesis
        using True \<open>0 < d_n d\<close> j by (simp add: dictionary_set_def dictionary_grow_def)
    next
      case cal: True
      obtain g where g: "dictionary_grow cal d = Some (0, g)" "dict_ok g" "dict_map g = dict_map d" "d_size g = 2 * d_size d" "d_n g = d_n d"
        using dictionary_grow_ok [OF assms(1), of cal] cal by blast
      have "d_n g < d_size g"
        using g(4,5) True \<open>0 < d_n d\<close> by simp
      from put [OF g(2,3) this] show ?thesis
        using True cal \<open>0 < d_n d\<close> j g(1,5) by (simp add: dictionary_set_def)
    qed
  next
    case False
    then have "d_n d < d_size d"
      using card_occupied_le [of d] assms(1) by (simp add: dict_ok_def)
    from put [OF assms(1) refl this] show ?thesis
      using False search j by (auto simp: dictionary_set_def split: if_splits)
  qed
qed

lemma dictionary_unset_ok:
  assumes "dict_ok d"
  shows "\<exists>e. dictionary_unset (Some d) (Some k) = Some (Some e) \<and> dict_ok e \<and> dict_map e = (dict_map d)(k := None)"
proof (cases "dict_map d k")
  case None
  then have "\<exists>j. dict_search d k (dictionary_hash (Some k)) 0 = Some j \<and> d_size d \<le> j"
    using dict_search_ok [OF assms, of k 0] assms by (auto simp: dict_map_None split: if_splits)
  then show ?thesis
    using assms None by (auto simp: dictionary_unset_def fun_upd_idem)
next
  case (Some v)
  then obtain i where i: "i < d_size d" "d_key d ! i = Some k"
    using dict_map_iff [OF assms] by blast
  note ok = assms [unfolded dict_ok_def]
  define e where "e = d\<lparr>d_key := (d_key d)[i := None], d_val := (d_val d)[i := None], d_hash := (d_hash d)[i := 0], d_n := d_n d - 1\<rparr>"
  have run: "dictionary_unset (Some d) (Some k) = Some (Some e)"
    using dict_search_found [OF assms i] i ok by (simp add: dictionary_unset_def uwr_in e_def)
  have key: "d_key e ! j = (if j = i then None else d_key d ! j)" and val: "j \<noteq> i \<Longrightarrow> d_val e ! j = d_val d ! j"
    and hash: "j \<noteq> i \<Longrightarrow> d_hash e ! j = d_hash d ! j" if "j < d_size d" for j
    using that ok by (auto simp: e_def)
  have sz: "d_size e = d_size d"
    by (simp add: e_def)
  have "occupied e = occupied d - {i}"
    using key by (auto simp: occupied_def sz split: if_splits)
  moreover have "i \<in> occupied d"
    using i by (simp add: occupied_def)
  ultimately have "card (occupied e) = card (occupied d) - 1"
    by simp
  then have ok': "dict_ok e"
    using ok key hash unfolding dict_ok_def sz by (auto simp: e_def split: if_splits)
  have uniq: "j = i" if "j < d_size d" "d_key d ! j = Some k" for j
    using ok i that by blast
  have "dict_map e = (dict_map d)(k := None)"
  proof (rule dict_map_eqI [OF ok'])
    fix k' w
    have cell: "d_key e ! j = Some k' \<and> d_val e ! j = w \<longleftrightarrow> k' \<noteq> k \<and> d_key d ! j = Some k' \<and> d_val d ! j = w"
      if "j < d_size d" for j
      using that uniq [of j] key [of j] val [of j] i(2) by (cases "j = i") auto
    have "(\<exists>j<d_size d. d_key e ! j = Some k' \<and> d_val e ! j = w) \<longleftrightarrow>
      k' \<noteq> k \<and> (\<exists>j<d_size d. d_key d ! j = Some k' \<and> d_val d ! j = w)"
      using cell by blast
    then show "((dict_map d)(k := None)) k' = Some w \<longleftrightarrow> (\<exists>j<d_size e. d_key e ! j = Some k' \<and> d_val e ! j = w)"
      using dict_map_iff [OF assms, of k' w] unfolding sz by auto
  qed
  with run ok' show ?thesis by blast
qed

section \<open>A dictionary is a map\<close>

text \<open>The three operations while the allocator succeeds, with the default \<open>def\<close> of the lookups.\<close>

abbreviation put_entry :: "dictionary \<Rightarrow> string \<Rightarrow> string option \<Rightarrow> dictionary option" where
  "put_entry d k v \<equiv> Option.bind (dictionary_set (\<lambda>_. True) (\<lambda>_. True) (Some d) (Some k) v)
     (\<lambda>(r, d). if r = 0 then d else None)"

abbreviation del_entry :: "dictionary \<Rightarrow> string \<Rightarrow> dictionary option" where
  "del_entry d k \<equiv> Option.bind (dictionary_unset (Some d) (Some k)) id"

abbreviation answer :: "cstr \<Rightarrow> string option option \<Rightarrow> cstr" where
  "answer def v \<equiv> (case v of Some w \<Rightarrow> ptr w | None \<Rightarrow> def)"

lemma xstrdup_all [simp]: "xstrdup (\<lambda>_. True) v = v"
  by (simp add: xstrdup_def split: option.split)

interpretation dict: store dict_ok dict_map "answer def" put_entry del_entry "\<lambda>d k. dictionary_get (Some d) (Some k) def" for def
proof
  fix d k v
  assume ok: "dict_ok d"
  have "\<exists>e. dictionary_set (\<lambda>_. True) (\<lambda>_. True) (Some d) (Some k) v = Some (0, Some e) \<and> dict_ok e \<and> dict_map e = (dict_map d)(k \<mapsto> v)"
    using dictionary_set_old [OF ok, of k "\<lambda>_. True" "\<lambda>_. True" v] dictionary_set_new [OF ok, of k "\<lambda>_. True" "\<lambda>_. True" v]
    by (cases "dict_map d k") auto
  then show "\<exists>t. put_entry d k v = Some t \<and> dict_ok t \<and> dict_map t = (dict_map d)(k \<mapsto> v)"
    by auto
next
  fix d k
  assume "dict_ok d"
  then show "\<exists>t. del_entry d k = Some t \<and> dict_ok t \<and> dict_map t = (dict_map d)(k := None)"
    using dictionary_unset_ok [of d k] by auto
next
  fix d k def
  assume "dict_ok d"
  then show "dictionary_get (Some d) (Some k) def = Some (answer def (dict_map d k))"
    by (rule dictionary_get_ok)
qed

text \<open>
  C28: a dictionary is a map from strings to strings and null. On a new dictionary, of any initial size,
  every sequence of \<open>dictionary_set\<close>, \<open>dictionary_unset\<close> and \<open>dictionary_get\<close> with default \<open>def\<close> ends,
  stays inside the arrays, grows them as needed and returns what a map returns.
\<close>

theorem dictionary_is_map:
  "\<exists>d e. dictionary_new (\<lambda>_. True) n = Some d
    \<and> map_exec put_entry del_entry (\<lambda>d k. dictionary_get (Some d) (Some k) def) ops d
        = Some (fst (map_spec (answer def) ops (\<lambda>_. None)), e)
    \<and> dict_map e = snd (map_spec (answer def) ops (\<lambda>_. None)) \<and> d_n e = card (occupied e)"
proof -
  obtain d where d: "dictionary_new (\<lambda>_. True) n = Some d" "dict_ok d" "dict_map d = (\<lambda>_. None)"
    using dictionary_new_ok [of "\<lambda>_. True" n] by auto
  then show ?thesis
    using dict.map_refines [OF d(2), of def ops] by (auto simp: dict_ok_def)
qed

text \<open>
  When the dictionary is full and cannot grow, \<open>dictionary_set\<close> of a new key returns -1 and leaves
  the dictionary unchanged, while a key that is already there can still be set.
\<close>

theorem dictionary_set_full:
  assumes "dict_ok d" and "d_n d = d_size d" and "\<not> cal (d_size d * 2)" and "mal k" and "\<And>s. val = Some s \<Longrightarrow> mal s"
  shows "if dict_map d k = None then dictionary_set mal cal (Some d) (Some k) val = Some (-1, Some d)
    else \<exists>e. dictionary_set mal cal (Some d) (Some k) val = Some (0, Some e) \<and> dict_map e = (dict_map d)(k \<mapsto> val)"
proof (cases "dict_map d k")
  case None
  then show ?thesis
    using dictionary_set_new [of d k mal cal val] assms(1-4) by simp
next
  case (Some v)
  moreover have "xstrdup mal val = val"
    using assms(5) by (cases val) (simp_all add: xstrdup_def)
  ultimately show ?thesis
    using dictionary_set_old [OF assms(1), of k mal cal val] by auto
qed

definition one_entry :: dictionary where
  "one_entry = \<lparr>d_n = 1, d_size = 1, d_val = [None], d_key = [Some ''a''], d_hash = [dictionary_hash (Some ''a'')]\<rparr>"

theorem dictionary_set_full_witness:
  "dictionary_set (\<lambda>_. True) (\<lambda>_. False) (Some one_entry) (Some ''b'') (Some ''x'') = Some (-1, Some one_entry)"
proof -
  have ok: "dict_ok one_entry"
    by (simp add: dict_ok_def occupied_def) (simp add: one_entry_def Collect_conv_if)
  moreover have "dict_map one_entry ''b'' = None"
    by (simp add: dict_map_None [OF ok]) (simp add: one_entry_def)
  moreover have "d_n one_entry = d_size one_entry"
    by (simp add: one_entry_def)
  ultimately show ?thesis
    using dictionary_set_full [of one_entry "\<lambda>_. False" "\<lambda>_. True" "''b''" "Some ''x''"] by simp
qed

end
