(* ===== verification/Ini.thy ===== *)
theory Ini
  imports Dictionary
begin

text \<open>
  The parser of ini files, C/04_tools/07_ini_parser/iniparser.c: string functions, the accessors of a
  loaded dictionary, the printer and the parser. Strings are HOL strings without the terminating zero;
  a file is the string of its bytes. The parts of the C library the code uses are modelled here as the
  standard describes them in the C locale: \<open>tolower\<close>, \<open>isspace\<close>, \<open>fgets\<close>, \<open>sscanf\<close> with the formats that
  occur, \<open>strtol\<close> and its relatives, and \<open>%-30s\<close>. Conversion to \<open>double\<close> and the error messages are not
  modelled.
\<close>

section \<open>Characters and strings\<close>

definition isspace :: "char \<Rightarrow> bool" where
  "isspace c \<longleftrightarrow> c = CHR '' '' \<or> (9 \<le> (of_char c :: nat) \<and> (of_char c :: nat) \<le> 13)"

definition tolower :: "char \<Rightarrow> char" where
  "tolower c = (if 65 \<le> (of_char c :: nat) \<and> (of_char c :: nat) \<le> 90 then char_of ((of_char c :: nat) + 32) else c)"

definition ASCIILINESZ :: nat where "ASCIILINESZ = 1024"

definition strlwc :: "string \<Rightarrow> nat \<Rightarrow> string option" where
  "strlwc s len = (if len = 0 then None else Some (map tolower (take (len - 1) s)))"

definition strstrip :: "string \<Rightarrow> string" where
  "strstrip s = rev (dropWhile isspace (rev (dropWhile isspace s)))"

abbreviation backslash :: char where "backslash \<equiv> CHR 92"
abbreviation dquote :: char where "dquote \<equiv> CHR 34"
abbreviation squote :: char where "squote \<equiv> CHR 39"
abbreviation newline :: char where "newline \<equiv> CHR 10"

text \<open>\<open>escape_value\<close> leaves its buffer as it was when there is no value.\<close>

definition escape_value :: "string \<Rightarrow> string option \<Rightarrow> string" where
  "escape_value escaped v =
     (case v of None \<Rightarrow> escaped
      | Some s \<Rightarrow> concat (map (\<lambda>c. if c = backslash \<or> c = dquote then [backslash, c] else [c]) s))"

fun unquote :: "char \<Rightarrow> bool \<Rightarrow> string \<Rightarrow> string" where
  "unquote quote esc [] = []"
| "unquote quote esc (c # s) =
     (if \<not> esc \<and> c = backslash then unquote quote True s
      else if \<not> esc \<and> c = quote then []
      else c # unquote quote False s)"

definition parse_quoted_value :: "(string \<Rightarrow> bool) \<Rightarrow> string \<Rightarrow> char \<Rightarrow> string" where
  "parse_quoted_value mal v quote = (if mal v then unquote quote False v else [])"

section \<open>The accessors\<close>

definition iniparser_getstring :: "dictionary option \<Rightarrow> string option \<Rightarrow> cstr \<Rightarrow> cstr option" where
  "iniparser_getstring d key def =
     (case (d, key) of
        (Some _, Some k) \<Rightarrow> dictionary_get d (strlwc k (ASCIILINESZ + 1)) def
      | _ \<Rightarrow> Some def)"

definition iniparser_find_entry :: "dictionary option \<Rightarrow> string option \<Rightarrow> bool option" where
  "iniparser_find_entry ini entry = map_option (\<lambda>p. p \<noteq> Invalid_key) (iniparser_getstring ini entry Invalid_key)"

definition iniparser_set :: "(string \<Rightarrow> bool) \<Rightarrow> (nat \<Rightarrow> bool) \<Rightarrow> dictionary option \<Rightarrow> string \<Rightarrow> string option
    \<Rightarrow> (int \<times> dictionary option) option" where
  "iniparser_set mal cal ini entry val =
     dictionary_set mal cal ini (strlwc entry (ASCIILINESZ + 1)) (map_option (take ASCIILINESZ) val)"

definition iniparser_unset :: "dictionary option \<Rightarrow> string \<Rightarrow> dictionary option option" where
  "iniparser_unset ini entry = dictionary_unset ini (strlwc entry (ASCIILINESZ + 1))"

text \<open>The keys of the dictionary in the order of its cells.\<close>

definition keys_of :: "dictionary \<Rightarrow> string list" where
  "keys_of d = [k. Some k \<leftarrow> d_key d]"

definition is_section :: "string \<Rightarrow> bool" where
  "is_section k \<longleftrightarrow> CHR '':'' \<notin> set k"

definition iniparser_getnsec :: "dictionary option \<Rightarrow> int" where
  "iniparser_getnsec d = (case d of None \<Rightarrow> -1 | Some d \<Rightarrow> int (length (filter is_section (keys_of d))))"

definition iniparser_getsecname :: "dictionary option \<Rightarrow> int \<Rightarrow> string option" where
  "iniparser_getsecname d n =
     (case d of None \<Rightarrow> None
      | Some d \<Rightarrow>
          let secs = filter is_section (keys_of d) in
          if n < 0 \<or> int (length secs) \<le> n then None else Some (secs ! nat n))"

text \<open>\<open>strncmp(k, keym, seclen + 1) == 0\<close> for a \<open>keym\<close> whose first \<open>seclen + 1\<close> bytes are \<open>pre\<close>.\<close>

definition starts_with :: "string \<Rightarrow> string \<Rightarrow> bool" where
  "starts_with pre k \<longleftrightarrow> take (length pre) k = pre"

text \<open>The buffer of the section name has \<open>ASCIILINESZ + 1\<close> bytes; a longer name writes its colon
  outside.\<close>

definition section_prefix :: "string \<Rightarrow> string option" where
  "section_prefix s = (if length s \<le> ASCIILINESZ then Some (map tolower s @ [CHR '':'']) else None)"

definition iniparser_getseckeys :: "dictionary option \<Rightarrow> string \<Rightarrow> string list option option" where
  "iniparser_getseckeys d s =
     (case d of None \<Rightarrow> Some None
      | Some e \<Rightarrow> do {
          found \<leftarrow> iniparser_find_entry d (Some s);
          if \<not> found then Some None
          else do {
            keym \<leftarrow> section_prefix s;
            Some (Some (filter (starts_with keym) (keys_of e))) } })"

definition iniparser_getsecnkeys :: "dictionary option \<Rightarrow> string \<Rightarrow> int option" where
  "iniparser_getsecnkeys d s =
     (case d of None \<Rightarrow> Some 0
      | Some e \<Rightarrow> do {
          found \<leftarrow> iniparser_find_entry d (Some s);
          if \<not> found then Some 0
          else do {
            keym \<leftarrow> section_prefix s;
            Some (int (length (filter (starts_with keym) (keys_of e)))) } })"

text \<open>\<open>strtol(s, NULL, 0)\<close>: white space, a sign, \<open>0x\<close> before a hexadecimal digit or \<open>0\<close> for octal, then
  the digits of the base.\<close>

definition digit_value :: "char \<Rightarrow> nat option" where
  "digit_value c = (let n = of_char c :: nat in
     if 48 \<le> n \<and> n \<le> 57 then Some (n - 48)
     else if 97 \<le> n \<and> n \<le> 122 then Some (n - 87)
     else if 65 \<le> n \<and> n \<le> 90 then Some (n - 55) else None)"

definition is_digit :: "nat \<Rightarrow> char \<Rightarrow> bool" where
  "is_digit base c = (case digit_value c of Some v \<Rightarrow> v < base | None \<Rightarrow> False)"

definition digits_value :: "nat \<Rightarrow> string \<Rightarrow> nat" where
  "digits_value base s = foldl (\<lambda>n c. n * base + the (digit_value c)) 0 (takeWhile (is_digit base) s)"

definition based_value :: "string \<Rightarrow> nat" where
  "based_value s =
     (case s of
        z # x # d # rest \<Rightarrow>
          if z = CHR ''0'' \<and> (x = CHR ''x'' \<or> x = CHR ''X'') \<and> is_digit 16 d then digits_value 16 (d # rest)
          else if z = CHR ''0'' then digits_value 8 s else digits_value 10 s
      | z # _ \<Rightarrow> if z = CHR ''0'' then digits_value 8 s else digits_value 10 s
      | [] \<Rightarrow> 0)"

definition strto :: "string \<Rightarrow> int" where
  "strto s =
     (case dropWhile isspace s of
        c # t \<Rightarrow> if c = CHR ''-'' then - int (based_value t) else if c = CHR ''+'' then int (based_value t) else int (based_value (c # t))
      | [] \<Rightarrow> 0)"

definition strtol :: "string \<Rightarrow> int" where
  "strtol s = max (- (2 ^ 63)) (min (2 ^ 63 - 1) (strto s))"

text \<open>\<open>strtoumax\<close> clamps the digits to \<open>UINTMAX_MAX\<close> and negates modulo \<open>2 ^ 64\<close>.\<close>

definition strtoumax :: "string \<Rightarrow> u64" where
  "strtoumax s = (let n = strto s in
     if 2 ^ 64 \<le> \<bar>n\<bar> then - 1 else word_of_int n)"

definition iniparser_getlongint :: "dictionary option \<Rightarrow> string option \<Rightarrow> int \<Rightarrow> int option" where
  "iniparser_getlongint d key notfound =
     map_option (\<lambda>p. case p of Str s \<Rightarrow> strtol s | _ \<Rightarrow> notfound) (iniparser_getstring d key Invalid_key)"

definition iniparser_getint64 :: "dictionary option \<Rightarrow> string option \<Rightarrow> int \<Rightarrow> int option" where
  "iniparser_getint64 d key notfound =
     map_option (\<lambda>p. case p of Str s \<Rightarrow> strtol s | _ \<Rightarrow> notfound) (iniparser_getstring d key Invalid_key)"

definition iniparser_getuint64 :: "dictionary option \<Rightarrow> string option \<Rightarrow> u64 \<Rightarrow> u64 option" where
  "iniparser_getuint64 d key notfound =
     map_option (\<lambda>p. case p of Str s \<Rightarrow> strtoumax s | _ \<Rightarrow> notfound) (iniparser_getstring d key Invalid_key)"

definition iniparser_getint :: "dictionary option \<Rightarrow> string option \<Rightarrow> int \<Rightarrow> int option" where
  "iniparser_getint d key notfound =
     map_option (\<lambda>n. sint (word_of_int n :: u32)) (iniparser_getlongint d key notfound)"

text \<open>The first byte of an empty string is its terminating zero.\<close>

definition iniparser_getboolean :: "dictionary option \<Rightarrow> string option \<Rightarrow> int \<Rightarrow> int option" where
  "iniparser_getboolean d key notfound =
     map_option (\<lambda>p. case p of
         Str (c # _) \<Rightarrow> if c \<in> set ''yY1tT'' then 1 else if c \<in> set ''nN0fF'' then 0 else notfound
       | _ \<Rightarrow> notfound) (iniparser_getstring d key Invalid_key)"

section \<open>The printer\<close>

definition iniparser_dump :: "dictionary option \<Rightarrow> string" where
  "iniparser_dump d =
     (case d of None \<Rightarrow> []
      | Some d \<Rightarrow> concat [case v of Some s \<Rightarrow> ''['' @ k @ '']=['' @ s @ '']'' @ [newline]
                                | None \<Rightarrow> ''['' @ k @ '']=UNDEF'' @ [newline]. (k, v) \<leftarrow> entries d])"

text \<open>The lines of entries. The buffer \<open>escaped\<close> has \<open>2 * ASCIILINESZ + 2\<close> bytes, keeps the last value when
  there is none, and a value that escapes to more is written outside.\<close>

fun dump_entries :: "(string \<Rightarrow> string) \<Rightarrow> string \<Rightarrow> (string \<times> string option) list \<Rightarrow> string option" where
  "dump_entries name escaped [] = Some []"
| "dump_entries name escaped ((k, v) # es) =
     (let escaped = escape_value escaped v in
      if 2 * ASCIILINESZ + 1 < length escaped then None
      else do {
        rest \<leftarrow> dump_entries name escaped es;
        Some (name k @ '' = '' @ [dquote] @ escaped @ [dquote, newline] @ rest) })"

definition pad30 :: "string \<Rightarrow> string" where
  "pad30 s = s @ replicate (30 - length s) CHR '' ''"

definition iniparser_dumpsection_ini :: "dictionary option \<Rightarrow> string \<Rightarrow> string option" where
  "iniparser_dumpsection_ini d s =
     (case d of None \<Rightarrow> Some []
      | Some e \<Rightarrow> do {
          found \<leftarrow> iniparser_find_entry d (Some s);
          if \<not> found then Some []
          else if ASCIILINESZ + 1 < length s then Some []
          else if ASCIILINESZ \<le> length s then None
          else do {
            out \<leftarrow> dump_entries (\<lambda>k. pad30 (drop (length s + 1) k)) []
              (filter (\<lambda>(k, v). starts_with (s @ [CHR '':'']) k) (entries e));
            Some ([newline] @ ''['' @ s @ '']'' @ [newline] @ out @ [newline]) } })"

definition iniparser_dump_ini :: "dictionary option \<Rightarrow> string option" where
  "iniparser_dump_ini d =
     (case d of None \<Rightarrow> Some []
      | Some e \<Rightarrow>
          if iniparser_getnsec d < 1 then dump_entries id [] (entries e)
          else do {
            out \<leftarrow> foldr (\<lambda>i rest. do {
                s \<leftarrow> iniparser_getsecname d i;
                x \<leftarrow> iniparser_dumpsection_ini d s;
                y \<leftarrow> rest;
                Some (x @ y) }) [0..iniparser_getnsec d - 1] (Some []);
            Some (out @ [newline]) })"

section \<open>The parser\<close>

datatype line_status = LINE_UNPROCESSED | LINE_ERROR | LINE_EMPTY | LINE_COMMENT | LINE_SECTION | LINE_VALUE

text \<open>The directives of the \<open>sscanf\<close> formats: white space, a literal, a non-empty run of a scanset.\<close>

definition scan_lit :: "char \<Rightarrow> string \<Rightarrow> string option" where
  "scan_lit c s = (case s of x # t \<Rightarrow> if x = c then Some t else None | [] \<Rightarrow> None)"

definition scan_set :: "(char \<Rightarrow> bool) \<Rightarrow> string \<Rightarrow> (string \<times> string) option" where
  "scan_set P s = (let t = takeWhile P s in if t = [] then None else Some (t, dropWhile P s))"

definition scan_quoted :: "char \<Rightarrow> string \<Rightarrow> (string \<times> string) option" where
  "scan_quoted quote line = do {
     (key, s) \<leftarrow> scan_set (\<lambda>c. c \<noteq> CHR ''='') line;
     s \<leftarrow> scan_lit CHR ''='' (dropWhile isspace s);
     s \<leftarrow> scan_lit quote (dropWhile isspace s);
     (val, _) \<leftarrow> scan_set (\<lambda>c. c \<noteq> newline) s;
     Some (key, val) }"

definition scan_plain :: "string \<Rightarrow> (string \<times> string) option" where
  "scan_plain line = do {
     (key, s) \<leftarrow> scan_set (\<lambda>c. c \<noteq> CHR ''='') line;
     s \<leftarrow> scan_lit CHR ''='' (dropWhile isspace s);
     (val, _) \<leftarrow> scan_set (\<lambda>c. c \<noteq> CHR '';'' \<and> c \<noteq> CHR ''#'') (dropWhile isspace s);
     Some (key, val) }"

definition scan_no_value :: "string \<Rightarrow> string option" where
  "scan_no_value line =
     (case do {
        (key, s) \<leftarrow> scan_set (\<lambda>c. c \<noteq> CHR ''='') line;
        s \<leftarrow> scan_lit CHR ''='' (dropWhile isspace s);
        _ \<leftarrow> scan_set (\<lambda>c. c = CHR '';'' \<or> c = CHR ''#'') (dropWhile isspace s);
        Some key } of
      Some key \<Rightarrow> Some key
    | None \<Rightarrow> do {
        (key, s) \<leftarrow> scan_set (\<lambda>c. c \<noteq> CHR ''='') line;
        _ \<leftarrow> scan_set (\<lambda>c. c = CHR ''='') (dropWhile isspace s);
        Some key })"

definition lower_key :: "string \<Rightarrow> nat \<Rightarrow> string" where
  "lower_key key len = (case strlwc (strstrip key) len of Some k \<Rightarrow> k | None \<Rightarrow> strstrip key)"

text \<open>One line; the buffers \<open>section\<close>, \<open>key\<close> and \<open>value\<close> are returned. A key that a failed \<open>sscanf\<close> left in
  its buffer is never used.\<close>

definition iniparser_line :: "(string \<Rightarrow> bool) \<Rightarrow> string \<Rightarrow> string \<Rightarrow> string \<Rightarrow> string \<Rightarrow> line_status \<times> string \<times> string \<times> string" where
  "iniparser_line mal input_line sec key val =
     (let line = (if mal input_line then strstrip input_line else []); len = length line in
      if len < 1 then (LINE_EMPTY, sec, key, val)
      else if hd line = CHR ''#'' \<or> hd line = CHR '';'' then (LINE_COMMENT, sec, key, val)
      else if hd line = CHR ''['' \<and> last line = CHR '']'' then
        (let sec = (case scan_set (\<lambda>c. c \<noteq> newline) (tl line) of Some (s, _) \<Rightarrow> s | None \<Rightarrow> sec);
             len = length sec;
             sec = (if sec \<noteq> [] \<and> last sec = CHR '']'' then butlast sec else sec)
         in (LINE_SECTION, lower_key sec len, key, val))
      else case scan_quoted dquote line of
        Some (key, val) \<Rightarrow> (LINE_VALUE, sec, lower_key key len, parse_quoted_value mal val dquote)
      | None \<Rightarrow>
        (case scan_quoted squote line of
          Some (key, val) \<Rightarrow> (LINE_VALUE, sec, lower_key key len, parse_quoted_value mal val squote)
        | None \<Rightarrow>
          (case scan_plain line of
            Some (key, val) \<Rightarrow>
              (let val = strstrip val in
               (LINE_VALUE, sec, lower_key key len, if val = [dquote, dquote] \<or> val = [squote, squote] then [] else val))
          | None \<Rightarrow>
            (case scan_no_value line of
              Some key \<Rightarrow> (LINE_VALUE, sec, lower_key key len, [])
            | None \<Rightarrow> (LINE_ERROR, sec, key, val)))))"

text \<open>\<open>fgets\<close> into \<open>n\<close> bytes: what it read, whether it ran into the end of the file, and the rest.\<close>

definition fgets :: "nat \<Rightarrow> string \<Rightarrow> (string \<times> bool \<times> string) option" where
  "fgets n file =
     (if file = [] then None
      else
        let upto_nl = takeWhile (\<lambda>c. c \<noteq> newline) file;
            whole = (if length upto_nl < length file then upto_nl @ [newline] else upto_nl)
        in if length whole \<le> n - 1 then Some (whole, length upto_nl = length file \<and> length whole < n - 1, drop (length whole) file)
           else Some (take (n - 1) file, False, drop (n - 1) file))"

record ini_state =
  ini_line :: string
  ini_section :: string
  ini_key :: string
  ini_value :: string
  ini_errs :: nat
  ini_dict :: dictionary

text \<open>What happens with a line after it was read: \<open>Inr\<close> ends the loop. \<open>ini_line\<close> is the part of the line
  buffer that the next \<open>fgets\<close> appends to.\<close>

definition ini_round :: "(string \<Rightarrow> bool) \<Rightarrow> (nat \<Rightarrow> bool) \<Rightarrow> ini_state \<times> string \<Rightarrow> (ini_state \<times> string + dictionary option) option" where
  "ini_round mal cal = (\<lambda>(st, file).
     let finish = (if 0 < ini_errs st then None else Some (ini_dict st)) in
     case fgets (ASCIILINESZ - length (ini_line st)) file of
       None \<Rightarrow> Some (Inr finish)
     | Some (got, eof, file) \<Rightarrow>
         let line = ini_line st @ got in
         if length line \<le> 1 then Some (Inl (st, file))
         else if last line \<noteq> newline \<and> \<not> eof then Some (Inr None)
         else
           let line = rev (dropWhile isspace (rev line)) in
           if line \<noteq> [] \<and> last line = backslash then Some (Inl (st\<lparr>ini_line := butlast line\<rparr>, file))
           else
             let (sta, sec, key, val) = iniparser_line mal line (ini_section st) (ini_key st) (ini_value st);
                 st = st\<lparr>ini_line := [], ini_section := sec, ini_key := key, ini_value := val\<rparr>
             in (case sta of
                   LINE_SECTION \<Rightarrow> do {
                     (r, d) \<leftarrow> dictionary_set mal cal (Some (ini_dict st)) (Some sec) None;
                     d \<leftarrow> d;
                     let st = st\<lparr>ini_dict := d\<rparr>;
                     Some (if r < 0 then Inr (if 0 < ini_errs st then None else Some d) else Inl (st, file)) }
                 | LINE_VALUE \<Rightarrow> do {
                     (r, d) \<leftarrow> dictionary_set mal cal (Some (ini_dict st)) (Some (sec @ '':'' @ key)) (Some val);
                     d \<leftarrow> d;
                     let st = st\<lparr>ini_dict := d\<rparr>;
                     Some (if r < 0 then Inr (if 0 < ini_errs st then None else Some d) else Inl (st, file)) }
                 | LINE_ERROR \<Rightarrow> Some (Inl (st\<lparr>ini_errs := ini_errs st + 1\<rparr>, file))
                 | _ \<Rightarrow> Some (Inl (st, file))))"

definition iniparser_load_file :: "(string \<Rightarrow> bool) \<Rightarrow> (nat \<Rightarrow> bool) \<Rightarrow> string \<Rightarrow> dictionary option option" where
  "iniparser_load_file mal cal file =
     (case dictionary_new cal 0 of
        None \<Rightarrow> Some None
      | Some d \<Rightarrow> loop (ini_round mal cal)
          (\<lparr>ini_line = [], ini_section = [], ini_key = [], ini_value = [], ini_errs = 0, ini_dict = d\<rparr>, file))"

text \<open>\<open>iniparser_load\<close>: \<open>None\<close> is a file that cannot be opened.\<close>

definition iniparser_load :: "(string \<Rightarrow> bool) \<Rightarrow> (nat \<Rightarrow> bool) \<Rightarrow> string option \<Rightarrow> dictionary option option" where
  "iniparser_load mal cal file =
     (case file of None \<Rightarrow> Some None | Some f \<Rightarrow> iniparser_load_file mal cal f)"

end
