(* ===== verification/IniCorrect.thy ===== *)
theory IniCorrect
  imports Ini
begin

text \<open>
  The correctness of the ini parser: a printed line is read back as it was printed, a file that
  \<open>iniparser_dump_ini\<close> wrote is loaded into the same map, and what \<open>iniparser_set\<close> stores is what
  \<open>iniparser_getstring\<close> returns.
\<close>

section \<open>Strings\<close>

lemma not_space [simp]: "\<not> isspace dquote" "\<not> isspace CHR ''=''" "\<not> isspace CHR ''[''" "\<not> isspace CHR '']''"
  "isspace CHR '' ''" "isspace newline"
  by (simp_all add: isspace_def)

lemma dropWhile_id: "s = [] \<or> \<not> P (hd s) \<Longrightarrow> dropWhile P s = s"
  by (cases s) auto

lemma strstrip_id: "s = [] \<or> \<not> isspace (hd s) \<and> \<not> isspace (last s) \<Longrightarrow> strstrip s = s"
  by (auto simp: strstrip_def dropWhile_id hd_rev)

lemma strstrip_blanks:
  assumes "s \<noteq> []" and "\<not> isspace (hd s)" and "\<not> isspace (last s)"
  shows "strstrip (s @ replicate n CHR '' '') = s"
proof -
  have "rev (s @ replicate n CHR '' '') = replicate n CHR '' '' @ rev s"
    by simp
  moreover have "dropWhile isspace (replicate n CHR '' '' @ t) = dropWhile isspace t" for t
    by (induction n) simp_all
  ultimately show ?thesis
    using assms by (simp add: strstrip_def dropWhile_id hd_rev)
qed

lemma unquote_escape: "unquote dquote False (escape_value e (Some v) @ [dquote]) = v"
  by (induction v) (simp_all add: escape_value_def)

lemma newline_escape: "newline \<in> set (escape_value e (Some v)) \<longleftrightarrow> newline \<in> set v"
  by (induction v) (simp_all add: escape_value_def)

section \<open>One line\<close>

text \<open>A name that survives printing and reading, and the line that \<open>iniparser_dumpsection_ini\<close> prints.\<close>

definition plain_key :: "string \<Rightarrow> bool" where
  "plain_key k \<longleftrightarrow> k \<noteq> [] \<and> \<not> isspace (hd k) \<and> \<not> isspace (last k) \<and> map tolower k = k
     \<and> CHR ''='' \<notin> set k \<and> newline \<notin> set k \<and> hd k \<noteq> CHR ''#'' \<and> hd k \<noteq> CHR '';''"

definition plain_section :: "string \<Rightarrow> bool" where
  "plain_section s \<longleftrightarrow> (s = [] \<or> \<not> isspace (hd s) \<and> \<not> isspace (last s)) \<and> map tolower s = s \<and> newline \<notin> set s"

definition entry_line :: "string \<Rightarrow> string \<Rightarrow> string" where
  "entry_line k v = pad30 k @ '' = '' @ [dquote] @ escape_value [] (Some v) @ [dquote]"

lemma lower_key_plain:
  assumes "plain_key k" and "length k < n"
  shows "lower_key (k @ replicate m CHR '' '') n = k"
  using assms strstrip_blanks [of k m] by (auto simp: lower_key_def strlwc_def plain_key_def)

lemma scan_entry_line:
  assumes "plain_key k" and "newline \<notin> set v"
  shows "scan_quoted dquote (entry_line k v) = Some (k @ replicate (Suc (30 - length k)) CHR '' '', escape_value [] (Some v) @ [dquote])"
proof -
  let ?pad = "replicate (Suc (30 - length k)) CHR '' ''"
  let ?val = "escape_value [] (Some v) @ [dquote]"
  have line: "entry_line k v = (k @ ?pad) @ CHR ''='' # CHR '' '' # dquote # ?val"
    by (simp add: entry_line_def pad30_def replicate_append_same)
  have key: "\<forall>c\<in>set (k @ ?pad). c \<noteq> CHR ''=''"
    using assms(1) by (auto simp: plain_key_def)
  have "takeWhile (\<lambda>c. c \<noteq> CHR ''='') (entry_line k v) = k @ ?pad"
    unfolding line using takeWhile_append2 [of "k @ ?pad" "\<lambda>c. c \<noteq> CHR ''=''"] key by simp
  moreover have "dropWhile (\<lambda>c. c \<noteq> CHR ''='') (entry_line k v) = CHR ''='' # CHR '' '' # dquote # ?val"
    unfolding line using dropWhile_append2 [of "k @ ?pad" "\<lambda>c. c \<noteq> CHR ''=''"] key by simp
  moreover have "k @ ?pad \<noteq> []"
    by simp
  moreover have "takeWhile (\<lambda>c. c \<noteq> newline) ?val = ?val"
    using assms(2) newline_escape [of "[]" v] by (auto simp: takeWhile_eq_all_conv)
  ultimately show ?thesis
    by (simp add: scan_quoted_def scan_set_def scan_lit_def del: replicate_Suc)
qed

lemma hd_entry_line: "plain_key k \<Longrightarrow> entry_line k v \<noteq> [] \<and> hd (entry_line k v) = hd k \<and> last (entry_line k v) = dquote"
  by (simp add: entry_line_def pad30_def plain_key_def)

lemma iniparser_line_entry:
  assumes "plain_key k" and "newline \<notin> set v"
  shows "iniparser_line (\<lambda>_. True) (entry_line k v) sec key val = (LINE_VALUE, sec, k, v)"
proof -
  have strip: "strstrip (entry_line k v) = entry_line k v"
    using hd_entry_line [OF assms(1), of v] assms(1) by (simp add: strstrip_id plain_key_def)
  have len: "length k < length (entry_line k v)"
    by (simp add: entry_line_def pad30_def)
  have "lower_key (k @ replicate (Suc (30 - length k)) CHR '' '') (length (entry_line k v)) = k"
    by (rule lower_key_plain [OF assms(1) len])
  moreover have "parse_quoted_value (\<lambda>_. True) (escape_value [] (Some v) @ [dquote]) dquote = v"
    by (simp add: parse_quoted_value_def unquote_escape)
  ultimately show ?thesis
    using scan_entry_line [OF assms] hd_entry_line [OF assms(1), of v] assms(1)
    by (simp add: iniparser_line_def strip plain_key_def del: replicate_Suc)
qed

lemma iniparser_line_section:
  assumes "plain_section s"
  shows "iniparser_line (\<lambda>_. True) (''['' @ s @ '']'') sec key val = (LINE_SECTION, s, key, val)"
proof -
  have strip: "strstrip (''['' @ s @ '']'') = ''['' @ s @ '']''"
    by (simp add: strstrip_id)
  have scan: "scan_set (\<lambda>c. c \<noteq> newline) (s @ '']'') = Some (s @ '']'', [])"
  proof -
    have "\<forall>c\<in>set (s @ '']''). c \<noteq> newline"
      using assms by (auto simp: plain_section_def)
    then have "takeWhile (\<lambda>c. c \<noteq> newline) (s @ '']'') = s @ '']''" and "dropWhile (\<lambda>c. c \<noteq> newline) (s @ '']'') = []"
      by (simp_all only: takeWhile_eq_all_conv dropWhile_eq_Nil_conv)
    then show ?thesis
      unfolding scan_set_def Let_def by simp
  qed
  have low: "lower_key s (Suc (length s)) = s"
    using assms by (simp add: lower_key_def strlwc_def plain_section_def strstrip_id)
  show ?thesis
    unfolding iniparser_line_def by (simp add: strip [simplified] scan [simplified] low)
qed

section \<open>A file\<close>

abbreviation load_round :: "ini_state \<times> string \<Rightarrow> (ini_state \<times> string + dictionary option) option" where
  "load_round \<equiv> ini_round (\<lambda>_. True) (\<lambda>_. True)"

definition ini_at :: "string \<Rightarrow> string \<Rightarrow> string \<Rightarrow> dictionary \<Rightarrow> ini_state" where
  "ini_at sec key val d = \<lparr>ini_line = [], ini_section = sec, ini_key = key, ini_value = val, ini_errs = 0, ini_dict = d\<rparr>"

lemma fgets_line:
  assumes "newline \<notin> set l" and "length l + 2 \<le> n"
  shows "fgets n (l @ newline # rest) = Some (l @ [newline], False, rest)"
proof -
  have "takeWhile (\<lambda>c. c \<noteq> newline) (l @ newline # rest) = l"
    by (subst takeWhile_append2) (use assms(1) in auto)
  then show ?thesis
    using assms(2) by (simp add: fgets_def Let_def)
qed

lemma load_blank: "loop load_round (ini_at sec key val d, newline # rest) = loop load_round (ini_at sec key val d, rest)"
  using fgets_line [of "[]" 1024 rest] by (intro loop_next) (simp add: ini_round_def ini_at_def ASCIILINESZ_def)

lemma load_end: "loop load_round (ini_at sec key val d, []) = Some (Some d)"
  by (intro loop_stop) (simp add: ini_round_def ini_at_def fgets_def)

text \<open>A line that ends in a printed character is handed to \<open>iniparser_line\<close> as it is.\<close>

lemma load_line:
  assumes "newline \<notin> set l" and "length l \<le> 1022" and "l \<noteq> []" and "\<not> isspace (last l)" and "last l \<noteq> backslash"
    and "iniparser_line (\<lambda>_. True) l sec key val = (sta, s, k, v)"
    and "sta = LINE_SECTION \<and> put_entry d s None = Some e \<or> sta = LINE_VALUE \<and> put_entry d (s @ '':'' @ k) (Some v) = Some e"
  shows "loop load_round (ini_at sec key val d, l @ newline # rest) = loop load_round (ini_at s k v e, rest)"
proof -
  have got: "fgets 1024 (l @ newline # rest) = Some (l @ [newline], False, rest)"
    by (rule fgets_line) (use assms(1,2) in simp_all)
  have strip: "rev (dropWhile isspace (rev (l @ [newline]))) = l"
    using assms(3,4) by (simp add: dropWhile_id hd_rev)
  show ?thesis
    using assms(3-7) strip by (intro loop_next) (auto simp: ini_round_def ini_at_def ASCIILINESZ_def got bind_eq_Some_conv split: if_splits)
qed

lemma load_section:
  assumes "plain_section s" and "length s \<le> 1020" and "put_entry d s None = Some e"
  shows "loop load_round (ini_at sec key val d, (''['' @ s @ '']'') @ newline # rest) = loop load_round (ini_at s key val e, rest)"
  by (rule load_line [OF _ _ _ _ _ iniparser_line_section [OF assms(1)]])
    (use assms in \<open>simp_all add: plain_section_def\<close>)

lemma load_entry:
  assumes "plain_key k" and "newline \<notin> set v" and "length (entry_line k v) \<le> 1022" and "put_entry d (sec @ '':'' @ k) (Some v) = Some e"
  shows "loop load_round (ini_at sec key val d, entry_line k v @ newline # rest) = loop load_round (ini_at sec k v e, rest)"
proof (rule load_line [OF _ assms(3) _ _ _ iniparser_line_entry [OF assms(1,2)]])
  show "newline \<notin> set (entry_line k v)"
    using assms(1,2) newline_escape [of "[]" v] by (auto simp: entry_line_def pad30_def plain_key_def)
qed (use hd_entry_line [OF assms(1), of v] assms(4) in simp_all)

section \<open>The entries of a section\<close>

lemma put_entryE:
  assumes "dict_ok d"
  obtains e where "put_entry d k v = Some e" and "dict_ok e" and "dict_map e = (dict_map d)(k \<mapsto> v)"
  using dict.put [OF assms, of k v] by blast

definition printable_entry :: "string \<Rightarrow> string \<times> string option \<Rightarrow> bool" where
  "printable_entry s kv =
     (starts_with (s @ '':'') (fst kv)
      \<and> (case snd kv of None \<Rightarrow> False
         | Some w \<Rightarrow> (let n = drop (length s + 1) (fst kv) in
             plain_key n \<and> newline \<notin> set w \<and> length (entry_line n w) \<le> 1022)))"

lemma printable_entryE:
  assumes "printable_entry s kv"
  obtains n w where "kv = (s @ '':'' @ n, Some w)" and "plain_key n" and "newline \<notin> set w" and "length (entry_line n w) \<le> 1022"
proof -
  obtain w where w: "snd kv = Some w"
    using assms by (auto simp: printable_entry_def split: option.splits)
  have "take (length (s @ '':'')) (fst kv) = s @ '':''"
    using assms unfolding printable_entry_def starts_with_def by blast
  then have "fst kv = (s @ '':'') @ drop (length (s @ '':'')) (fst kv)"
    by (metis append_take_drop_id)
  then have "fst kv = s @ '':'' @ drop (length s + 1) (fst kv)"
    by simp
  with w have "kv = (s @ '':'' @ drop (length s + 1) (fst kv), Some w)"
    by (metis prod.collapse)
  with that assms w show ?thesis
    by (simp add: printable_entry_def Let_def)
qed

lemma load_entries:
  assumes "\<forall>kv\<in>set es. printable_entry s kv" and "dict_ok d"
  shows "\<exists>out e key' val'. dump_entries (\<lambda>k. pad30 (drop (length s + 1) k)) esc es = Some out
    \<and> (\<forall>rest. loop load_round (ini_at s key val d, out @ rest) = loop load_round (ini_at s key' val' e, rest))
    \<and> dict_ok e \<and> dict_map e = dict_map d ++ map_of (rev es)"
  using assms
proof (induction es arbitrary: esc d key val)
  case Nil
  then show ?case by auto
next
  case (Cons kv es)
  obtain n w where kv: "kv = (s @ '':'' @ n, Some w)" and n: "plain_key n" "newline \<notin> set w" "length (entry_line n w) \<le> 1022"
    using Cons.prems(1) by (auto elim: printable_entryE)
  obtain d' where d': "put_entry d (s @ '':'' @ n) (Some w) = Some d'" "dict_ok d'" "dict_map d' = (dict_map d)(s @ '':'' @ n \<mapsto> Some w)"
    using put_entryE [OF Cons.prems(2)] by blast
  have es: "\<forall>kv\<in>set es. printable_entry s kv"
    using Cons.prems(1) by simp
  obtain out e key' val' where out: "dump_entries (\<lambda>k. pad30 (drop (length s + 1) k)) (escape_value [] (Some w)) es = Some out"
    and e: "\<forall>rest. loop load_round (ini_at s n w d', out @ rest) = loop load_round (ini_at s key' val' e, rest)"
      "dict_ok e" "dict_map e = dict_map d' ++ map_of (rev es)"
    using Cons.IH [OF es d'(2)] by blast
  have esc: "escape_value esc (Some w) = escape_value [] (Some w)"
    by (simp add: escape_value_def)
  have "length (escape_value [] (Some w)) \<le> 2 * ASCIILINESZ + 1"
    using n(3) by (simp add: entry_line_def ASCIILINESZ_def)
  then have "dump_entries (\<lambda>k. pad30 (drop (length s + 1) k)) esc (kv # es) = Some (entry_line n w @ newline # out)"
    using out by (simp add: kv esc entry_line_def)
  moreover have "loop load_round (ini_at s key val d, (entry_line n w @ newline # out) @ rest) = loop load_round (ini_at s key' val' e, rest)" for rest
    using load_entry [OF n d'(1), of key val "out @ rest"] e(1) by simp
  moreover have "dict_map e = dict_map d ++ map_of (rev (kv # es))"
    by (simp add: e(3) d'(3) kv map_add_assoc [symmetric])
  ultimately show ?case
    using e(2) by blast
qed

text \<open>The entries a section prints, in their order.\<close>

definition block :: "dictionary \<Rightarrow> string \<Rightarrow> (string \<times> string option) list" where
  "block d s = (s, None) # filter (\<lambda>(k, v). starts_with (s @ '':'') k) (entries d)"

lemma load_block:
  assumes "dict_ok D" and "dict_map D s = Some None" and "plain_section s" and "length s \<le> 1020"
    and "\<forall>(k, v)\<in>set (entries D). starts_with (s @ '':'') k \<longrightarrow> printable_entry s (k, v)" and "dict_ok d"
  shows "\<exists>out e sec' key' val'. iniparser_dumpsection_ini (Some D) s = Some out
    \<and> (\<forall>rest. loop load_round (ini_at sec key val d, out @ rest) = loop load_round (ini_at sec' key' val' e, rest))
    \<and> dict_ok e \<and> dict_map e = dict_map d ++ map_of (rev (block D s))"
proof -
  let ?es = "filter (\<lambda>(k, v). starts_with (s @ '':'') k) (entries D)"
  obtain d' where d': "put_entry d s None = Some d'" "dict_ok d'" "dict_map d' = (dict_map d)(s \<mapsto> None)"
    using put_entryE [OF assms(6)] by blast
  have "\<forall>kv\<in>set ?es. printable_entry s kv"
    using assms(5) by auto
  from load_entries [OF this d'(2), of "[]" key val]
  obtain out e key' val' where out: "dump_entries (\<lambda>k. pad30 (drop (length s + 1) k)) [] ?es = Some out"
    and e: "\<forall>rest. loop load_round (ini_at s key val d', out @ rest) = loop load_round (ini_at s key' val' e, rest)"
      "dict_ok e" "dict_map e = dict_map d' ++ map_of (rev ?es)"
    by blast
  have "strlwc s (ASCIILINESZ + 1) = Some s"
    using assms(3,4) by (simp add: strlwc_def plain_section_def ASCIILINESZ_def)
  then have "iniparser_find_entry (Some D) (Some s) = Some True"
    using dictionary_get_ok [OF assms(1)] assms(2) by (simp add: iniparser_find_entry_def iniparser_getstring_def ptr_def)
  then have "iniparser_dumpsection_ini (Some D) s = Some (newline # (''['' @ s @ '']'') @ newline # out @ [newline])"
    using assms(4) out by (simp add: iniparser_dumpsection_ini_def ASCIILINESZ_def)
  moreover have "loop load_round (ini_at sec key val d, (newline # (''['' @ s @ '']'') @ newline # out @ [newline]) @ rest)
    = loop load_round (ini_at s key' val' e, rest)" for rest
    using load_blank [of sec key val d "(''['' @ s @ '']'') @ newline # out @ newline # rest"]
      load_section [OF assms(3,4) d'(1), of sec key val "out @ newline # rest"] e(1) load_blank [of s key' val' e rest] by simp
  moreover have "dict_map e = dict_map d ++ map_of (rev (block D s))"
    by (simp add: e(3) d'(3) block_def map_add_assoc [symmetric])
  ultimately show ?thesis
    using e(2) by blast
qed

section \<open>Loading a printed dictionary\<close>

definition printable :: "dictionary \<Rightarrow> bool" where
  "printable d \<longleftrightarrow> (\<forall>(k, v)\<in>set (entries d).
     if is_section k then v = None \<and> plain_section k \<and> length k \<le> 1020
     else dict_map d (takeWhile (\<lambda>c. c \<noteq> CHR '':'') k) = Some None \<and> printable_entry (takeWhile (\<lambda>c. c \<noteq> CHR '':'') k) (k, v))"

lemma some_fst: "length ks = length vs \<Longrightarrow> [k. Some k \<leftarrow> ks] = map fst [(k, v). (Some k, v) \<leftarrow> zip ks vs]"
  by (induction rule: list_induct2) (simp_all split: option.split)

lemma keys_of_entries: "length (d_key d) = length (d_val d) \<Longrightarrow> keys_of d = map fst (entries d)"
  unfolding keys_of_def entries_def by (rule some_fst)

lemma starts_with_section:
  assumes "is_section s" and "starts_with (s @ '':'') k"
  shows "takeWhile (\<lambda>c. c \<noteq> CHR '':'') k = s" and "\<not> is_section k"
proof -
  have "s @ CHR '':'' # drop (Suc (length s)) k = k"
    using assms(2) append_take_drop_id [of "Suc (length s)" k] by (simp add: starts_with_def)
  then obtain n where k: "k = s @ CHR '':'' # n"
    by metis
  have "takeWhile (\<lambda>c. c \<noteq> CHR '':'') (s @ CHR '':'' # n) = s"
    by (subst takeWhile_append2) (use assms(1) in \<open>auto simp: is_section_def\<close>)
  with k show "takeWhile (\<lambda>c. c \<noteq> CHR '':'') k = s" and "\<not> is_section k"
    by (simp_all add: is_section_def)
qed

fun dump_sections :: "dictionary \<Rightarrow> string list \<Rightarrow> string option" where
  "dump_sections d [] = Some []"
| "dump_sections d (s # secs) = do { x \<leftarrow> iniparser_dumpsection_ini (Some d) s; y \<leftarrow> dump_sections d secs; Some (x @ y) }"

lemma load_blocks:
  assumes "dict_ok D" and "printable D" and "set secs \<subseteq> {s. is_section s \<and> s \<in> fst ` set (entries D)}" and "dict_ok d"
  shows "\<exists>out e sec' key' val'. dump_sections D secs = Some out
    \<and> (\<forall>rest. loop load_round (ini_at sec key val d, out @ rest) = loop load_round (ini_at sec' key' val' e, rest))
    \<and> dict_ok e \<and> dict_map e = dict_map d ++ map_of (rev (concat (map (block D) secs)))"
  using assms(3,4)
proof (induction secs arbitrary: sec key val d)
  case Nil
  then show ?case by auto
next
  case (Cons s secs)
  obtain v where s: "is_section s" "(s, v) \<in> set (entries D)"
    using Cons.prems(1) by auto
  then have sec: "plain_section s" "length s \<le> 1020" "v = None"
    using assms(2) by (force simp: printable_def)+
  have "dict_map D s = Some None"
    using s(2) sec(3) weak_map_of_SomeI [of s v "entries D"] dict_ok_functional [OF assms(1), of s v] unfolding dict_map_def
    by (metis map_of_SomeD)
  moreover have "\<forall>(k, v)\<in>set (entries D). starts_with (s @ '':'') k \<longrightarrow> printable_entry s (k, v)"
    using assms(2) starts_with_section [OF s(1)] unfolding printable_def by fastforce
  ultimately obtain x e1 sec1 key1 val1 where x: "iniparser_dumpsection_ini (Some D) s = Some x"
    and e1: "\<forall>rest. loop load_round (ini_at sec key val d, x @ rest) = loop load_round (ini_at sec1 key1 val1 e1, rest)"
      "dict_ok e1" "dict_map e1 = dict_map d ++ map_of (rev (block D s))"
    using load_block [OF assms(1) _ sec(1,2), of d sec key val] Cons.prems(2) by blast
  have "set secs \<subseteq> {s. is_section s \<and> s \<in> fst ` set (entries D)}"
    using Cons.prems(1) by simp
  then obtain y e sec' key' val' where y: "dump_sections D secs = Some y"
    and e: "\<forall>rest. loop load_round (ini_at sec1 key1 val1 e1, y @ rest) = loop load_round (ini_at sec' key' val' e, rest)"
      "dict_ok e" "dict_map e = dict_map e1 ++ map_of (rev (concat (map (block D) secs)))"
    using Cons.IH [OF _ e1(2)] by blast
  have "dump_sections D (s # secs) = Some (x @ y)"
    using x y by simp
  moreover have "\<forall>rest. loop load_round (ini_at sec key val d, (x @ y) @ rest) = loop load_round (ini_at sec' key' val' e, rest)"
    using e(1) e1(1) by simp
  moreover have "dict_map e = dict_map d ++ map_of (rev (concat (map (block D) (s # secs))))"
    by (simp add: e(3) e1(3) map_add_assoc)
  ultimately show ?case
    using e(2) by blast
qed

lemma block_entries:
  assumes "dict_ok D" and "printable D"
  shows "map_of (rev (concat (map (block D) (filter is_section (keys_of D))))) = dict_map D"
proof -
  let ?L = "concat (map (block D) (filter is_section (keys_of D)))"
  have keys: "keys_of D = map fst (entries D)"
    using assms(1) by (simp add: keys_of_entries dict_ok_def)
  have "kv \<in> set ?L \<longleftrightarrow> kv \<in> set (entries D)" for kv
  proof -
    obtain k v where kv: "kv = (k, v)"
      by (cases kv)
    have "(k, v) \<in> set (entries D)" if "(k, v) \<in> set ?L"
      using that assms(2) by (force simp: keys block_def printable_def)
    moreover have "(k, v) \<in> set ?L" if kv: "(k, v) \<in> set (entries D)"
    proof (cases "is_section k")
      case True
      with kv assms(2) have "v = None"
        by (force simp: printable_def)
      with kv True show ?thesis
        by (force simp: keys block_def)
    next
      case False
      define s where "s = takeWhile (\<lambda>c. c \<noteq> CHR '':'') k"
      have "dict_map D s = Some None" and "printable_entry s (k, v)"
        using kv assms(2) False unfolding s_def by (force simp: printable_def)+
      then have "s \<in> fst ` set (entries D)" and "starts_with (s @ '':'') k"
        using map_of_SomeD [of "entries D" s None] by (force simp: dict_map_def printable_entry_def)+
      moreover have "is_section s"
        unfolding s_def is_section_def by (auto dest: set_takeWhileD)
      ultimately show ?thesis
        using kv by (force simp: keys block_def)
    qed
    ultimately show ?thesis
      using kv by blast
  qed
  then have same: "set (rev ?L) = set (entries D)"
    by auto
  show ?thesis
  proof
    fix k
    show "map_of (rev ?L) k = dict_map D k"
    proof (cases "map_of (rev ?L) k")
      case None
      then show ?thesis
        using same by (metis dict_map_def map_of_eq_None_iff)
    next
      case (Some v)
      then have "(k, v) \<in> set (entries D)"
        using same map_of_SomeD by fastforce
      then show ?thesis
        using Some weak_map_of_SomeI [of k v "entries D"] dict_ok_functional [OF assms(1), of k v] unfolding dict_map_def
        by (metis map_of_SomeD)
    qed
  qed
qed

lemma dump_ini_sections:
  assumes "filter is_section (keys_of D) \<noteq> []"
  shows "iniparser_dump_ini (Some D) = map_option (\<lambda>out. out @ [newline]) (dump_sections D (filter is_section (keys_of D)))"
proof -
  let ?secs = "filter is_section (keys_of D)"
  have name: "iniparser_getsecname (Some D) (int i) = Some (?secs ! i)" if "i < length ?secs" for i
    using that by (simp add: iniparser_getsecname_def Let_def)
  have ints: "[0..int (length ?secs) - 1] = map int [0..<length ?secs]"
    by (rule nth_equalityI) simp_all
  have "foldr (\<lambda>i rest. do { s \<leftarrow> iniparser_getsecname (Some D) i; x \<leftarrow> iniparser_dumpsection_ini (Some D) s; y \<leftarrow> rest; Some (x @ y) })
      (map int [m..<length ?secs]) (Some []) = dump_sections D (drop m ?secs)" if "m \<le> length ?secs" for m
    using that
  proof (induction rule: inc_induct)
    case base
    then show ?case by simp
  next
    case (step n)
    then show ?case
      by (simp add: upt_conv_Cons Cons_nth_drop_Suc [symmetric] name)
  qed
  from this [of 0] show ?thesis
    using assms by (simp add: iniparser_dump_ini_def iniparser_getnsec_def ints map_option_case
      split: option.split)
qed

text \<open>
  C18: what \<open>iniparser_dump_ini\<close> writes, \<open>iniparser_load_file\<close> reads back. For every dictionary whose keys
  are sections or keys of one of its sections with a value, whose names are in lower case, without
  newlines and without blanks at their ends, and whose lines fit the line buffer, the printer succeeds
  and loading its output gives a dictionary with the same keys and values: quotes, backslashes, comment
  characters, equals signs and blanks in values survive.
\<close>

theorem dump_load_round_trip:
  assumes "dict_ok d" and "printable d"
  shows "\<exists>file e. iniparser_dump_ini (Some d) = Some file \<and> iniparser_load (\<lambda>_. True) (\<lambda>_. True) (Some file) = Some (Some e)
    \<and> dict_ok e \<and> dict_map e = dict_map d"
proof -
  let ?secs = "filter is_section (keys_of d)"
  obtain d0 where d0: "dictionary_new (\<lambda>_. True) 0 = Some d0" "dict_ok d0" "dict_map d0 = (\<lambda>_. None)"
    using dictionary_new_ok [of "\<lambda>_. True" 0] by auto
  have load: "iniparser_load (\<lambda>_. True) (\<lambda>_. True) (Some printed) = loop load_round (ini_at [] [] [] d0, printed)" for printed
    by (simp add: iniparser_load_def iniparser_load_file_def d0(1) ini_at_def)
  show ?thesis
  proof (cases "?secs = []")
    case True
    then have "dict_map d = (\<lambda>_. None)"
      using block_entries [OF assms] by simp
    moreover from this have "iniparser_dump_ini (Some d) = Some []"
      using True by (simp add: iniparser_dump_ini_def iniparser_getnsec_def dict_map_def)
    ultimately show ?thesis
      using d0(2,3) load [of "[]"] load_end [of "[]" "[]" "[]" d0] by auto
  next
    case False
    have "set ?secs \<subseteq> {s. is_section s \<and> s \<in> fst ` set (entries d)}"
      using assms(1) by (auto simp: keys_of_entries dict_ok_def)
    from load_blocks [OF assms this d0(2), of "[]" "[]" "[]"]
    obtain out e sec key val where out: "dump_sections d ?secs = Some out"
      and e: "loop load_round (ini_at [] [] [] d0, out @ [newline]) = loop load_round (ini_at sec key val e, [newline])" "dict_ok e"
        "dict_map e = dict_map d0 ++ map_of (rev (concat (map (block d) ?secs)))"
      by blast
    have "loop load_round (ini_at [] [] [] d0, out @ [newline]) = Some (Some e)"
      using e(1) load_blank [of sec key val e "[]"] load_end by simp
    moreover have "dict_map e = dict_map d"
      by (simp add: e(3) d0(3) block_entries [OF assms] flip: empty_def)
    ultimately show ?thesis
      using dump_ini_sections [OF False] out e(2) load by auto
  qed
qed

definition sample_dict :: dictionary where
  "sample_dict = \<lparr>d_n = 2, d_size = 2, d_val = [None, Some [CHR ''a'', dquote, CHR '';'']], d_key = [Some ''s'', Some ''s:k''],
     d_hash = [dictionary_hash (Some ''s''), dictionary_hash (Some ''s:k'')]\<rparr>"

theorem dump_load_round_trip_witness:
  "\<exists>file e. iniparser_dump_ini (Some sample_dict) = Some file
    \<and> iniparser_load (\<lambda>_. True) (\<lambda>_. True) (Some file) = Some (Some e) \<and> dict_map e ''s:k'' = Some (Some [CHR ''a'', dquote, CHR '';''])"
proof -
  have "occupied sample_dict = {0, 1}"
    by (auto simp: occupied_def sample_dict_def less_2_cases_iff)
  then have "dict_ok sample_dict"
    by (simp add: dict_ok_def) (simp add: sample_dict_def All_less_Suc numeral_2_eq_2)
  moreover have "printable sample_dict"
    by code_simp
  moreover have "dict_map sample_dict ''s:k'' = Some (Some [CHR ''a'', dquote, CHR '';''])"
    by code_simp
  ultimately show ?thesis
    using dump_load_round_trip [of sample_dict] by auto
qed

text \<open>
  A value set with \<open>iniparser_set\<close> is returned by \<open>iniparser_getstring\<close> under every spelling of the
  name that has the same first 1024 lower-case characters; it is cut to its first 1024 bytes, and the
  entries under every other name are unchanged.
\<close>

theorem iniparser_set_get:
  assumes "dict_ok d"
  shows "\<exists>e. iniparser_set (\<lambda>_. True) (\<lambda>_. True) (Some d) entry val = Some (0, Some e) \<and> dict_ok e
    \<and> (\<forall>name def. iniparser_getstring (Some e) (Some name) def =
        (if map tolower (take 1024 name) = map tolower (take 1024 entry) then Some (ptr (map_option (take 1024) val))
         else iniparser_getstring (Some d) (Some name) def))"
proof -
  have low: "strlwc s 1025 = Some (map tolower (take 1024 s))" for s
    by (simp add: strlwc_def)
  let ?k = "map tolower (take 1024 entry)"
  obtain e where e: "put_entry d ?k (map_option (take 1024) val) = Some e" "dict_ok e"
      "dict_map e = (dict_map d)(?k \<mapsto> map_option (take 1024) val)"
    using put_entryE [OF assms] by blast
  then have "iniparser_set (\<lambda>_. True) (\<lambda>_. True) (Some d) entry val = Some (0, Some e)"
    by (auto simp: iniparser_set_def low ASCIILINESZ_def bind_eq_Some_conv split: if_splits)
  moreover have "iniparser_getstring (Some e) (Some name) def =
        (if map tolower (take 1024 name) = ?k then Some (ptr (map_option (take 1024) val))
         else iniparser_getstring (Some d) (Some name) def)" for name def
    using dictionary_get_ok [OF e(2)] dictionary_get_ok [OF assms] by (simp add: iniparser_getstring_def low ASCIILINESZ_def e(3))
  ultimately show ?thesis
    using e(2) by blast
qed

theorem iniparser_set_get_witness:
  "\<exists>e. iniparser_set (\<lambda>_. True) (\<lambda>_. True) (Some sample_dict) ''S:Port'' (Some ''80'') = Some (0, Some e)
    \<and> iniparser_getstring (Some e) (Some ''s:PORT'') Null = Some (Str ''80'')"
proof -
  have "occupied sample_dict = {0, 1}"
    by (auto simp: occupied_def sample_dict_def less_2_cases_iff)
  then have "dict_ok sample_dict"
    by (simp add: dict_ok_def) (simp add: sample_dict_def All_less_Suc numeral_2_eq_2)
  moreover have "map tolower ''S:Port'' = map tolower ''s:PORT''"
    by code_simp
  ultimately show ?thesis
    using iniparser_set_get [of sample_dict "''S:Port''" "Some ''80''"] by (fastforce simp: ptr_def)
qed

end
