(* ===== verification/CacheNodes.thy ===== *)
theory CacheNodes
  imports DLinks Arrays
begin

text \<open>
  What the two caches of C/job_interview share: nodes with a key, a value and two links in a heap, the
  effect of relinking them, the allocator, and the contract of a cache as a locale: whatever the
  sequence of lookups and stores, the program answers what the abstract cache answers.
\<close>

section \<open>Nodes\<close>

record cache_node =
  cn_key :: int
  cn_val :: int
  cn_prev :: nat
  cn_next :: nat

type_synonym 'z cheap = "nat \<Rightarrow> 'z cache_node_scheme option"

definition cnext :: "'z cheap \<Rightarrow> links" where
  "cnext h a = map_option cn_next (h a)"

definition cprev :: "'z cheap \<Rightarrow> links" where
  "cprev h a = map_option cn_prev (h a)"

definition set_cnext :: "'z cheap \<Rightarrow> nat \<Rightarrow> nat \<Rightarrow> 'z cheap option" where
  "set_cnext h a b = do { n \<leftarrow> h a; Some (h(a \<mapsto> n\<lparr>cn_next := b\<rparr>)) }"

definition set_cprev :: "'z cheap \<Rightarrow> nat \<Rightarrow> nat \<Rightarrow> 'z cheap option" where
  "set_cprev h a b = do { n \<leftarrow> h a; Some (h(a \<mapsto> n\<lparr>cn_prev := b\<rparr>)) }"

text \<open>All of a node but its links.\<close>

definition payload :: "'z cheap \<Rightarrow> nat \<Rightarrow> (int \<times> int \<times> 'z) option" where
  "payload h a = map_option (\<lambda>n. (cn_key n, cn_val n, cache_node.more n)) (h a)"

definition relinked :: "'z cheap \<Rightarrow> links \<Rightarrow> links \<Rightarrow> 'z cheap \<Rightarrow> bool" where
  "relinked h N P h' \<longleftrightarrow> cnext h' = N \<and> cprev h' = P \<and> payload h' = payload h"

lemma dom_links [simp]: "dom (cnext h) = dom h" "dom (cprev h) = dom h" "dom (payload h) = dom h"
  by (auto simp: cnext_def cprev_def payload_def dom_def)

lemma relinked_dom: "relinked h N P h' \<Longrightarrow> dom h' = dom h"
  unfolding relinked_def by (metis dom_links(3))

lemma payload_node: "payload h a = Some (k, v, z) \<longleftrightarrow> (\<exists>n. h a = Some n \<and> cn_key n = k \<and> cn_val n = v \<and> cache_node.more n = z)"
  by (auto simp: payload_def)

lemma returns_set_cnext:
  assumes "a \<in> dom h" and "\<And>h'. relinked h ((cnext h)(a \<mapsto> b)) (cprev h) h' \<Longrightarrow> Q h'"
  shows "returns (set_cnext h a b) Q"
proof -
  obtain n where n: "h a = Some n"
    using assms(1) by blast
  show ?thesis
    using assms(2) [of "h(a \<mapsto> n\<lparr>cn_next := b\<rparr>)"] n
    by (simp add: set_cnext_def returns_simps relinked_def cnext_def cprev_def payload_def fun_eq_iff)
qed

lemma returns_set_cprev:
  assumes "a \<in> dom h" and "\<And>h'. relinked h (cnext h) ((cprev h)(a \<mapsto> b)) h' \<Longrightarrow> Q h'"
  shows "returns (set_cprev h a b) Q"
proof -
  obtain n where n: "h a = Some n"
    using assms(1) by blast
  show ?thesis
    using assms(2) [of "h(a \<mapsto> n\<lparr>cn_prev := b\<rparr>)"] n
    by (simp add: set_cprev_def returns_simps relinked_def cnext_def cprev_def payload_def fun_eq_iff)
qed

lemma returns_read: "x = Some b \<Longrightarrow> Q b \<Longrightarrow> returns x Q"
  by (simp add: returns_def)

section \<open>Relinking\<close>

definition remove_node :: "'z cheap \<Rightarrow> nat \<Rightarrow> 'z cheap option" where
  "remove_node h node = do {
     p \<leftarrow> cprev h node;
     n \<leftarrow> cnext h node;
     h \<leftarrow> set_cnext h p n;
     n \<leftarrow> cnext h node;
     p \<leftarrow> cprev h node;
     set_cprev h n p }"

lemma remove_node_returns:
  assumes "cprev h x = Some p" and "cnext h x = Some n" and "p \<noteq> x" and "p \<in> dom h" and "n \<in> dom h"
  shows "\<exists>h'. remove_node h x = Some h' \<and> relinked h ((cnext h)(p \<mapsto> n)) ((cprev h)(n \<mapsto> p)) h'"
proof -
  have "returns (remove_node h x) (relinked h ((cnext h)(p \<mapsto> n)) ((cprev h)(n \<mapsto> p)))"
    unfolding remove_node_def returns_simps
    apply (rule returns_read [OF assms(1)], rule returns_read [OF assms(2)])
    apply (rule returns_set_cnext [OF assms(4)])
    apply (rule returns_read [of _ n], use assms in \<open>simp add: relinked_def\<close>)
    apply (rule returns_read [of _ p], use assms in \<open>simp add: relinked_def\<close>)
    apply (rule returns_set_cprev, use assms(5) relinked_dom in blast)
    by (simp add: relinked_def)
  then show ?thesis
    by (simp add: returns_def)
qed

text \<open>A node taken out of a chain.\<close>

lemma remove_node_seg:
  assumes "seg (cnext h) (cprev h) a (ys @ x # zs) b" and "distinct (a # ys @ x # zs)" and "b \<notin> set (ys @ x # zs)"
  shows "\<exists>h' N P. remove_node h x = Some h' \<and> relinked h N P h' \<and> seg N P a (ys @ zs) b
    \<and> (\<forall>i. i \<notin> set (a # b # ys @ zs) \<longrightarrow> N i = cnext h i \<and> P i = cprev h i)"
proof -
  let ?l = "last (a # ys)" and ?r = "hd (zs @ [b])"
  have l: "?l \<in> set (a # ys)" and r: "?r \<in> set (zs @ [b])"
    using last_in_set [of "a # ys"] hd_in_set [of "zs @ [b]"] by blast+
  have "?l \<in> dom h"
    using seg_dom [OF assms(1), of ?l] l by auto
  moreover have "?r \<in> dom h"
    using seg_dom_P [OF assms(1), of ?r] r by auto
  moreover have "?l \<noteq> x"
    using assms(2) l by auto
  ultimately obtain h' where "remove_node h x = Some h'" "relinked h ((cnext h)(?l \<mapsto> ?r)) ((cprev h)(?r \<mapsto> ?l)) h'"
    using remove_node_returns [OF seg_mid [OF assms(1)]] by blast
  moreover have "seg ((cnext h)(?l \<mapsto> ?r)) ((cprev h)(?r \<mapsto> ?l)) a (ys @ zs) b"
    using assms by (intro seg_remove) auto
  moreover have "\<forall>i. i \<notin> set (a # b # ys @ zs) \<longrightarrow> i \<noteq> ?l \<and> i \<noteq> ?r"
    using l r by auto
  ultimately show ?thesis
    by (metis fun_upd_other)
qed

lemma seg_other_node:
  assumes "seg (cnext h) (cprev h) a xs b" and "x \<notin> set (a # b # xs)"
  shows "seg (cnext (h(x := n))) (cprev (h(x := n))) a xs b"
proof -
  have "\<forall>y\<in>set (a # b # xs). y \<noteq> x"
    using assms(2) by blast
  then show ?thesis
    by (intro seg_cong [OF assms(1)]) (simp_all add: cnext_def cprev_def)
qed

text \<open>The allocator: \<open>fresh h\<close> is the address that \<open>malloc\<close> answers when \<open>h\<close> is allocated. It is not
  null (the code does not look) and not in use.\<close>

definition allocates :: "('z cheap \<Rightarrow> nat) \<Rightarrow> bool" where
  "allocates fresh \<longleftrightarrow> (\<forall>h. finite (dom h) \<longrightarrow> fresh h \<noteq> 0 \<and> h (fresh h) = None)"

definition first_free :: "'z cheap \<Rightarrow> nat" where
  "first_free h = (LEAST a. a \<noteq> 0 \<and> h a = None)"

lemma allocates_first_free: "allocates first_free"
  unfolding allocates_def
proof (intro allI impI)
  fix h :: "'z cheap" assume "finite (dom h)"
  then obtain a where "a \<notin> insert 0 (dom h)"
    using ex_new_if_finite [of "insert 0 (dom h)"] infinite_UNIV_nat by auto
  then have "a \<noteq> 0 \<and> h a = None"
    by auto
  then have "first_free h \<noteq> 0 \<and> h (first_free h) = None"
    unfolding first_free_def by (rule LeastI)
  then show "first_free h \<noteq> 0 \<and> h (first_free h) = None" .
qed

section \<open>A table from keys to nodes\<close>

text \<open>The table \<open>c\<close> holds the address of the node of every triple of key, value and address in \<open>T\<close> at its
  key, and null elsewhere.\<close>

definition indexed :: "nat list \<Rightarrow> (int \<times> int \<times> nat) set \<Rightarrow> bool" where
  "indexed c T \<longleftrightarrow> (\<forall>(k, v, a)\<in>T. 0 \<le> k \<and> k < int (length c) \<and> c ! nat k = a)
     \<and> (\<forall>i<length c. c ! i \<noteq> 0 \<longrightarrow> (\<exists>v. (int i, v, c ! i) \<in> T))"

lemma indexedD: "indexed c T \<Longrightarrow> (k, v, a) \<in> T \<Longrightarrow> 0 \<le> k \<and> k < int (length c) \<and> c ! nat k = a"
  by (auto simp: indexed_def)

lemma indexed_key:
  assumes "indexed c T" and "\<forall>(k, v, a)\<in>T. a \<noteq> 0" and "0 \<le> k" and "k < int (length c)"
  shows "rd c k = Some (c ! nat k)"
    and "c ! nat k = 0 \<Longrightarrow> \<forall>(j, v, a)\<in>T. j \<noteq> k"
    and "c ! nat k \<noteq> 0 \<Longrightarrow> \<exists>v. (k, v, c ! nat k) \<in> T"
proof -
  show "rd c k = Some (c ! nat k)"
    using assms(1,3,4) by (simp add: rd_def)
  show "c ! nat k = 0 \<Longrightarrow> \<forall>(j, v, a)\<in>T. j \<noteq> k"
    using assms(1,2) unfolding indexed_def by fastforce
  have "nat k < length c" "int (nat k) = k"
    using assms(3,4) by auto
  then show "c ! nat k \<noteq> 0 \<Longrightarrow> \<exists>v. (k, v, c ! nat k) \<in> T"
    using assms(1) unfolding indexed_def by metis
qed

lemma indexed_set_val: "indexed c (insert (k, v, a) T) \<Longrightarrow> indexed c (insert (k, w, a) T)"
  unfolding indexed_def by (fastforce simp: Ball_def)

lemma indexed_insert:
  assumes "indexed c T" and "0 \<le> k" and "k < int (length c)" and "\<forall>(j, v, a)\<in>T. j \<noteq> k"
  shows "indexed (c[nat k := x]) (insert (k, v, x) T)"
proof -
  note c = assms(1) [unfolded indexed_def]
  have "nat k < length c"
    using assms(2,3) by simp
  then have here: "c[nat k := x] ! nat k = x"
    by simp
  have "0 \<le> j \<and> j < int (length c) \<and> c[nat k := x] ! nat j = a" if "(j, u, a) \<in> T" for j u a
  proof -
    have "0 \<le> j" "j < int (length c)" "c ! nat j = a" "j \<noteq> k"
      using indexedD [OF assms(1) that] assms(4) that by auto
    then show ?thesis
      using assms(2) by (simp add: eq_nat_nat_iff)
  qed
  moreover have "\<exists>u. (int i, u, c[nat k := x] ! i) \<in> insert (k, v, x) T" if "i < length c" "c[nat k := x] ! i \<noteq> 0" for i
  proof (cases "i = nat k")
    case True
    then show ?thesis
      using here assms(2) by auto
  next
    case False
    then show ?thesis
      using c that by (metis insertCI nth_list_update_neq)
  qed
  ultimately show ?thesis
    using c here assms(2,3) unfolding indexed_def by auto
qed

lemma indexed_remove:
  assumes "indexed c (insert (k, v, x) T)" and "\<forall>(j, w, a)\<in>T. j \<noteq> k"
  shows "indexed (c[nat k := 0]) T"
proof -
  note c = assms(1) [unfolded indexed_def]
  have k: "0 \<le> k" "k < int (length c)"
    using c by auto
  have "0 \<le> j \<and> j < int (length c) \<and> c[nat k := 0] ! nat j = a" if "(j, u, a) \<in> T" for j u a
  proof -
    have "0 \<le> j" "j < int (length c)" "c ! nat j = a" "j \<noteq> k"
      using indexedD [OF assms(1), of j u a] assms(2) that by auto
    then show ?thesis
      using k by (simp add: eq_nat_nat_iff)
  qed
  moreover have "\<exists>u. (int i, u, c[nat k := 0] ! i) \<in> T" if cell: "i < length c" "c[nat k := 0] ! i \<noteq> 0" for i
  proof -
    have "i \<noteq> nat k"
      using cell k by auto
    then have i: "int i \<noteq> k" "c[nat k := 0] ! i = c ! i"
      by auto
    then obtain u where "(int i, u, c ! i) \<in> insert (k, v, x) T"
      using c cell i(2) by auto
    then show ?thesis
      using i by auto
  qed
  ultimately show ?thesis
    unfolding indexed_def by (auto simp: split_beta)
qed

section \<open>The contract of a cache\<close>

datatype cache_op = Fetch int | Store int int

fun op_key :: "cache_op \<Rightarrow> int" where
  "op_key (Fetch k) = k"
| "op_key (Store k v) = k"

fun cache_run :: "('s \<Rightarrow> int \<Rightarrow> (int \<times> 's) option) \<Rightarrow> ('s \<Rightarrow> int \<Rightarrow> int \<Rightarrow> 's option) \<Rightarrow> cache_op list \<Rightarrow> 's
    \<Rightarrow> (int list \<times> 's) option" where
  "cache_run get put [] s = Some ([], s)"
| "cache_run get put (Fetch k # ops) s = do {
     (v, s) \<leftarrow> get s k;
     (vs, s) \<leftarrow> cache_run get put ops s;
     Some (v # vs, s) }"
| "cache_run get put (Store k v # ops) s = do { s \<leftarrow> put s k v; cache_run get put ops s }"

fun cache_spec :: "(int \<Rightarrow> 'a \<Rightarrow> int \<times> 'a) \<Rightarrow> (int \<Rightarrow> int \<Rightarrow> 'a \<Rightarrow> 'a) \<Rightarrow> cache_op list \<Rightarrow> 'a \<Rightarrow> int list \<times> 'a" where
  "cache_spec sget sput [] a = ([], a)"
| "cache_spec sget sput (Fetch k # ops) a =
     (let (v, a) = sget k a; (vs, a) = cache_spec sget sput ops a in (v # vs, a))"
| "cache_spec sget sput (Store k v # ops) a = cache_spec sget sput ops (sput k v a)"

text \<open>\<open>rep n s a\<close>: the state \<open>s\<close> stands for the abstract cache \<open>a\<close> and is good for \<open>n\<close> more operations.\<close>

locale cache =
  fixes rep :: "nat \<Rightarrow> 's \<Rightarrow> 'a \<Rightarrow> bool"
    and keys :: "int set"
    and get :: "'s \<Rightarrow> int \<Rightarrow> (int \<times> 's) option"
    and put :: "'s \<Rightarrow> int \<Rightarrow> int \<Rightarrow> 's option"
    and sget :: "int \<Rightarrow> 'a \<Rightarrow> int \<times> 'a"
    and sput :: "int \<Rightarrow> int \<Rightarrow> 'a \<Rightarrow> 'a"
  assumes get: "rep (Suc n) s a \<Longrightarrow> k \<in> keys \<Longrightarrow> \<exists>t. get s k = Some (fst (sget k a), t) \<and> rep n t (snd (sget k a))"
    and put: "rep (Suc n) s a \<Longrightarrow> k \<in> keys \<Longrightarrow> \<exists>t. put s k v = Some t \<and> rep n t (sput k v a)"
begin

lemma run_refines:
  assumes "rep (length ops + n) s a" and "op_key ` set ops \<subseteq> keys"
  shows "\<exists>t. cache_run get put ops s = Some (fst (cache_spec sget sput ops a), t) \<and> rep n t (snd (cache_spec sget sput ops a))"
  using assms
proof (induction ops arbitrary: s a)
  case Nil
  then show ?case by simp
next
  case (Cons p ops)
  show ?case
  proof (cases p)
    case (Fetch k)
    then obtain t where "get s k = Some (fst (sget k a), t)" "rep (length ops + n) t (snd (sget k a))"
      using get [of "length ops + n" s a k] Cons.prems by auto
    with Cons.IH [of t "snd (sget k a)"] Cons.prems(2) Fetch show ?thesis
      by (auto simp: split_beta)
  next
    case (Store k v)
    then obtain t where "put s k v = Some t" "rep (length ops + n) t (sput k v a)"
      using put [of "length ops + n" s a k v] Cons.prems by auto
    with Cons.IH [of t "sput k v a"] Cons.prems(2) Store show ?thesis
      by simp
  qed
qed

end

end
