(* ===== verification/Lru.thy ===== *)
theory Lru
  imports CacheNodes Loops
begin

text \<open>
  The least recently used cache of C/job_interview/14_LRU.c: an array from keys to nodes and a doubly
  linked list of the nodes between two dummies, the most recently used first. The heap of nodes is
  part of the state. The theory shows that every sequence of operations answers what the abstract cache
  does, a list of pairs with the most recent first that is cut to the capacity.
\<close>

section \<open>The program\<close>

type_synonym lru_heap = "unit cheap"

record lru =
  lru_capacity :: int
  lru_size :: int
  lru_head :: nat
  lru_tail :: nat
  lru_cache :: "nat list"

definition create_node :: "(lru_heap \<Rightarrow> nat) \<Rightarrow> lru_heap \<Rightarrow> int \<Rightarrow> int \<Rightarrow> lru_heap \<times> nat" where
  "create_node fresh h key value =
     (let node = fresh h in (h(node \<mapsto> \<lparr>cn_key = key, cn_val = value, cn_prev = 0, cn_next = 0\<rparr>), node))"

definition create_lru :: "(lru_heap \<Rightarrow> nat) \<Rightarrow> lru_heap \<Rightarrow> int \<Rightarrow> (lru_heap \<times> lru) option" where
  "create_lru fresh h capacity = do {
     let (h, head) = create_node fresh h 0 0;
     let (h, tail) = create_node fresh h 0 0;
     h \<leftarrow> set_cnext h head tail;
     h \<leftarrow> set_cprev h tail head;
     Some (h, \<lparr>lru_capacity = capacity, lru_size = 0, lru_head = head, lru_tail = tail, lru_cache = replicate 10000 0\<rparr>) }"

definition add_to_head :: "lru_heap \<Rightarrow> lru \<Rightarrow> nat \<Rightarrow> lru_heap option" where
  "add_to_head h obj node = do {
     h \<leftarrow> set_cprev h node (lru_head obj);
     n \<leftarrow> cnext h (lru_head obj);
     h \<leftarrow> set_cnext h node n;
     n \<leftarrow> cnext h (lru_head obj);
     h \<leftarrow> set_cprev h n node;
     set_cnext h (lru_head obj) node }"

definition move_to_head :: "lru_heap \<Rightarrow> lru \<Rightarrow> nat \<Rightarrow> lru_heap option" where
  "move_to_head h obj node = do { h \<leftarrow> remove_node h node; add_to_head h obj node }"

definition remove_tail :: "lru_heap \<Rightarrow> lru \<Rightarrow> (lru_heap \<times> nat) option" where
  "remove_tail h obj = do {
     node \<leftarrow> cprev h (lru_tail obj);
     h \<leftarrow> remove_node h node;
     Some (h, node) }"

definition lru_get :: "lru_heap \<times> lru \<Rightarrow> int \<Rightarrow> (int \<times> lru_heap \<times> lru) option" where
  "lru_get = (\<lambda>(h, obj) key. do {
     node \<leftarrow> rd (lru_cache obj) key;
     if node = 0 then Some (-1, h, obj)
     else do {
       h \<leftarrow> move_to_head h obj node;
       n \<leftarrow> h node;
       Some (cn_val n, h, obj) } })"

definition lru_put :: "(lru_heap \<Rightarrow> nat) \<Rightarrow> lru_heap \<times> lru \<Rightarrow> int \<Rightarrow> int \<Rightarrow> (lru_heap \<times> lru) option" where
  "lru_put fresh = (\<lambda>(h, obj) key value. do {
     node \<leftarrow> rd (lru_cache obj) key;
     if node \<noteq> 0 then do {
       n \<leftarrow> h node;
       let h = h(node \<mapsto> n\<lparr>cn_val := value\<rparr>);
       h \<leftarrow> move_to_head h obj node;
       Some (h, obj) }
     else do {
       let (h, node) = create_node fresh h key value;
       c \<leftarrow> wr (lru_cache obj) key node;
       let obj = obj\<lparr>lru_cache := c\<rparr>;
       h \<leftarrow> add_to_head h obj node;
       size \<leftarrow> chk32 (lru_size obj + 1);
       let obj = obj\<lparr>lru_size := size\<rparr>;
       if lru_capacity obj < size then do {
         (h, removed) \<leftarrow> remove_tail h obj;
         r \<leftarrow> h removed;
         c \<leftarrow> wr (lru_cache obj) (cn_key r) 0;
         Some (h(removed := None), obj\<lparr>lru_cache := c, lru_size := size - 1\<rparr>) }
       else Some (h, obj) } })"

text \<open>\<open>free_lru\<close> leaves the heap without the nodes, \<open>print_cache\<close> prints the pairs.\<close>

definition free_lru :: "lru_heap \<times> lru \<Rightarrow> lru_heap option" where
  "free_lru = (\<lambda>(h, obj). do {
     curr \<leftarrow> cnext h (lru_head obj);
     h \<leftarrow> loop (\<lambda>(h, curr).
       if curr = lru_tail obj then Some (Inr h)
       else do { n \<leftarrow> cnext h curr; Some (Inl (h(curr := None), n)) }) (h, curr);
     Some (h(lru_head obj := None, lru_tail obj := None)) })"

definition print_cache :: "lru_heap \<times> lru \<Rightarrow> (int \<times> int) list option" where
  "print_cache = (\<lambda>(h, obj). do {
     curr \<leftarrow> cnext h (lru_head obj);
     loop (\<lambda>(curr, out).
       if curr = lru_tail obj then Some (Inr out)
       else do { n \<leftarrow> h curr; Some (Inl (cn_next n, out @ [(cn_key n, cn_val n)])) }) (curr, []) })"

section \<open>The abstract cache\<close>

definition spec_get :: "int \<Rightarrow> (int \<times> int) list \<Rightarrow> int \<times> (int \<times> int) list" where
  "spec_get k xs =
     (case map_of xs k of None \<Rightarrow> (-1, xs) | Some v \<Rightarrow> (v, (k, v) # filter (\<lambda>(j, w). j \<noteq> k) xs))"

definition spec_put :: "int \<Rightarrow> int \<Rightarrow> int \<Rightarrow> (int \<times> int) list \<Rightarrow> (int \<times> int) list" where
  "spec_put c k v xs =
     (case map_of xs k of
        None \<Rightarrow> take (nat c) ((k, v) # xs)
      | Some w \<Rightarrow> (k, v) # filter (\<lambda>(j, w). j \<noteq> k) xs)"

section \<open>The state and the list it stands for\<close>

text \<open>The triples of key, value and address, from the head to the tail.\<close>

definition kv :: "int \<times> int \<times> nat \<Rightarrow> int \<times> int" where
  "kv = (\<lambda>(k, v, a). (k, v))"

definition adr :: "int \<times> int \<times> nat \<Rightarrow> nat" where
  "adr = (\<lambda>(k, v, a). a)"

definition chain :: "lru_heap \<Rightarrow> lru \<Rightarrow> (int \<times> int \<times> nat) list \<Rightarrow> bool" where
  "chain h obj ts \<longleftrightarrow> seg (cnext h) (cprev h) (lru_head obj) (map adr ts) (lru_tail obj)
     \<and> distinct (lru_head obj # lru_tail obj # map adr ts) \<and> 0 \<notin> set (map adr ts)
     \<and> (\<forall>(k, v, a)\<in>set ts. payload h a = Some (k, v, ())) \<and> finite (dom h)"

definition lru_ok :: "lru_heap \<times> lru \<Rightarrow> (int \<times> int \<times> nat) list \<Rightarrow> bool" where
  "lru_ok s ts \<longleftrightarrow> chain (fst s) (snd s) ts \<and> indexed (lru_cache (snd s)) (set ts) \<and> length (lru_cache (snd s)) = 10000
     \<and> lru_size (snd s) = int (length ts) \<and> length ts \<le> nat (lru_capacity (snd s))"

definition lru_rep :: "int \<Rightarrow> nat \<Rightarrow> lru_heap \<times> lru \<Rightarrow> (int \<times> int) list \<Rightarrow> bool" where
  "lru_rep c n s xs \<longleftrightarrow> lru_capacity (snd s) = c \<and> (\<exists>ts. lru_ok s ts \<and> xs = map kv ts)"

lemma add_to_head_chain:
  assumes "chain h obj ts" and "payload h x = Some (k, v, ())" and "x \<noteq> 0"
    and "x \<notin> set (lru_head obj # lru_tail obj # map adr ts)"
  shows "\<exists>h'. add_to_head h obj x = Some h' \<and> chain h' obj ((k, v, x) # ts) \<and> payload h' = payload h"
proof -
  let ?a = "lru_head obj" and ?b = "lru_tail obj" and ?r = "hd (map adr ts @ [lru_tail obj])"
  note ch = assms(1) [unfolded chain_def]
  have nx: "cnext h ?a = Some ?r" and "?r \<in> dom h"
    using seg_ends [of "cnext h" "cprev h" ?a "map adr ts" ?b] seg_dom_P [of "cnext h" "cprev h" ?a "map adr ts" ?b ?r]
      hd_in_set [of "map adr ts @ [?b]"] ch by auto
  have x: "x \<in> dom h" "x \<noteq> ?a" "x \<noteq> ?r"
    using assms(2,4) hd_in_set [of "map adr ts @ [?b]"] by (auto simp: payload_node)
  have a: "?a \<in> dom h"
    using nx by (auto simp: cnext_def)
  let ?N = "(cnext h)(x \<mapsto> ?r, ?a \<mapsto> x)" and ?P = "(cprev h)(x \<mapsto> ?a, ?r \<mapsto> x)"
  have "returns (add_to_head h obj x) (relinked h ?N ?P)"
    unfolding add_to_head_def returns_simps
    apply (rule returns_set_cprev [OF x(1)])
    apply (rule returns_read [of _ ?r], use nx in \<open>simp add: relinked_def\<close>)
    apply (rule returns_set_cnext, use x(1) relinked_dom in blast)
    apply (rule returns_read [of _ ?r], use nx x(2) in \<open>simp add: relinked_def\<close>)
    apply (rule returns_set_cprev, use \<open>?r \<in> dom h\<close> relinked_dom in blast)
    apply (rule returns_set_cnext, use a relinked_dom in blast)
    by (simp add: relinked_def)
  then obtain h' where h': "add_to_head h obj x = Some h'" "relinked h ?N ?P h'"
    by (auto simp: returns_def)
  moreover have "seg ?N ?P ?a (map adr ((k, v, x) # ts)) ?b"
    using seg_insert [of "cnext h" "cprev h" ?a "[]" "map adr ts" ?b x ?a ?r] ch assms(4) by (simp add: adr_def)
  moreover have "dom h' = dom h"
    using h'(2) by (rule relinked_dom)
  ultimately have "chain h' obj ((k, v, x) # ts)"
    using ch assms(2-4) by (simp add: chain_def relinked_def adr_def)
  with h' show ?thesis
    by (auto simp: relinked_def)
qed

lemma remove_node_chain:
  assumes "chain h obj (ys @ (k, v, x) # zs)"
  shows "\<exists>h'. remove_node h x = Some h' \<and> chain h' obj (ys @ zs) \<and> payload h' = payload h"
proof -
  note ch = assms [unfolded chain_def]
  have "seg (cnext h) (cprev h) (lru_head obj) (map adr ys @ x # map adr zs) (lru_tail obj)"
    using ch by (simp add: adr_def)
  from remove_node_seg [OF this] obtain h' N P where h': "remove_node h x = Some h'" "relinked h N P h'"
      "seg N P (lru_head obj) (map adr ys @ map adr zs) (lru_tail obj)"
    using ch by (auto simp: adr_def)
  moreover have "dom h' = dom h"
    using h'(2) by (rule relinked_dom)
  ultimately show ?thesis
    using ch by (auto simp: chain_def relinked_def)
qed

lemma move_to_head_chain:
  assumes "chain h obj (ys @ (k, v, x) # zs)"
  shows "\<exists>h'. move_to_head h obj x = Some h' \<and> chain h' obj ((k, v, x) # ys @ zs)"
proof -
  obtain h1 where h1: "remove_node h x = Some h1" "chain h1 obj (ys @ zs)" "payload h1 = payload h"
    using remove_node_chain [OF assms] by blast
  moreover have "payload h x = Some (k, v, ())" "x \<noteq> 0" "x \<notin> set (lru_head obj # lru_tail obj # map adr (ys @ zs))"
    using assms by (auto simp: chain_def adr_def)
  ultimately show ?thesis
    using add_to_head_chain [OF h1(2), of x k v] by (auto simp: move_to_head_def)
qed

lemma chain_set_val:
  assumes "chain h obj (ys @ (k, v, x) # zs)"
  shows "\<exists>n. h x = Some n \<and> chain (h(x \<mapsto> n\<lparr>cn_val := w\<rparr>)) obj (ys @ (k, w, x) # zs)"
proof -
  note ch = assms [unfolded chain_def]
  obtain n where n: "h x = Some n" "cn_key n = k"
    using ch by (auto simp: payload_node)
  let ?h = "h(x \<mapsto> n\<lparr>cn_val := w\<rparr>)"
  have links: "cnext ?h = cnext h" "cprev ?h = cprev h"
    using n by (auto simp: cnext_def cprev_def fun_eq_iff)
  have payload: "payload ?h = (payload h)(x \<mapsto> (k, w, ()))"
    using n by (auto simp: payload_def fun_eq_iff)
  have other: "a \<noteq> x" if "(j, u, a) \<in> set ys \<union> set zs" for j u a
    using that ch by (force simp: adr_def image_iff)
  have "\<forall>(j, u, a)\<in>set (ys @ (k, w, x) # zs). payload ?h a = Some (j, u, ())"
    using ch other unfolding payload by fastforce
  then have "chain ?h obj (ys @ (k, w, x) # zs)"
    using ch by (simp add: chain_def links adr_def)
  with n show ?thesis by blast
qed

text \<open>The keys are different, so there are at most 10000 of them.\<close>

lemma lru_keys:
  assumes "lru_ok s ts"
  shows "distinct (map (fst \<circ> kv) ts)" and "length ts \<le> 10000"
proof -
  have inj: "t = u" if "t \<in> set ts" "u \<in> set ts" "fst (kv t) = fst (kv u)" for t u
  proof -
    obtain k v a k' v' a' where tu: "t = (k, v, a)" "u = (k', v', a')"
      by (cases t, cases u)
    then have "a = a'"
      using that assms indexedD [of "lru_cache (snd s)" "set ts" k v a] indexedD [of "lru_cache (snd s)" "set ts" k' v' a']
      by (simp add: lru_ok_def kv_def)
    moreover have "payload (fst s) a = Some (k, v, ())" "payload (fst s) a' = Some (k', v', ())"
      using that assms unfolding tu lru_ok_def chain_def by blast+
    ultimately show ?thesis
      using tu by simp
  qed
  have "distinct ts"
    using assms by (simp add: lru_ok_def chain_def distinct_map)
  then show keys: "distinct (map (fst \<circ> kv) ts)"
    using inj by (auto simp: distinct_map inj_on_def)
  have "fst (kv t) \<in> {0..<10000}" if "t \<in> set ts" for t
  proof -
    obtain k v a where "t = (k, v, a)"
      by (cases t)
    with that assms indexedD [of "lru_cache (snd s)" "set ts" k v a] show ?thesis
      by (simp add: lru_ok_def kv_def)
  qed
  then have "set (map (fst \<circ> kv) ts) \<subseteq> {0..<10000}"
    by auto
  then have "card (set (map (fst \<circ> kv) ts)) \<le> card {0..<10000 :: int}"
    by (rule card_mono [rotated]) simp
  then show "length ts \<le> 10000"
    using distinct_card [OF keys] by simp
qed

lemma spec_of_split:
  assumes "distinct (map (fst \<circ> kv) (ys @ (k, v, a) # zs))"
  shows "map_of (map kv (ys @ (k, v, a) # zs)) k = Some v"
    and "filter (\<lambda>(j, w). j \<noteq> k) (map kv (ys @ (k, v, a) # zs)) = map kv (ys @ zs)"
proof -
  have "k \<notin> fst ` kv ` set ys" "k \<notin> fst ` kv ` set zs"
    using assms by (auto simp: kv_def image_image)
  then have other: "\<forall>t\<in>set ys \<union> set zs. fst (kv t) \<noteq> k"
    by blast
  then have "map_of (map kv ys) k = None"
    by (auto simp: map_of_eq_None_iff)
  then show "map_of (map kv (ys @ (k, v, a) # zs)) k = Some v"
    by (simp add: map_add_Some_iff kv_def)
  have "filter (\<lambda>(j, w). j \<noteq> k) (map kv ys) = map kv ys" "filter (\<lambda>(j, w). j \<noteq> k) (map kv zs) = map kv zs"
    using other by (auto simp: filter_id_conv split_beta)
  then show "filter (\<lambda>(j, w). j \<noteq> k) (map kv (ys @ (k, v, a) # zs)) = map kv (ys @ zs)"
    by (simp add: kv_def)
qed

section \<open>The operations\<close>

lemma lru_ok_lookup:
  assumes "lru_ok (h, obj) ts" and "0 \<le> k" and "k < 10000"
  shows "rd (lru_cache obj) k = Some (lru_cache obj ! nat k)"
    and "lru_cache obj ! nat k = 0 \<Longrightarrow> map_of (map kv ts) k = None \<and> (\<forall>(j, v, a)\<in>set ts. j \<noteq> k)"
    and "lru_cache obj ! nat k \<noteq> 0 \<Longrightarrow> \<exists>ys v zs. ts = ys @ (k, v, lru_cache obj ! nat k) # zs"
proof -
  have "\<forall>(k, v, a)\<in>set ts. a \<noteq> 0"
    using assms(1) by (force simp: lru_ok_def chain_def adr_def)
  moreover have "indexed (lru_cache obj) (set ts)" "k < int (length (lru_cache obj))"
    using assms by (simp_all add: lru_ok_def)
  ultimately have cell: "rd (lru_cache obj) k = Some (lru_cache obj ! nat k)"
      "lru_cache obj ! nat k = 0 \<Longrightarrow> \<forall>(j, v, a)\<in>set ts. j \<noteq> k"
      "lru_cache obj ! nat k \<noteq> 0 \<Longrightarrow> \<exists>v. (k, v, lru_cache obj ! nat k) \<in> set ts"
    using indexed_key [of "lru_cache obj" "set ts" k] assms(2) by blast+
  show "rd (lru_cache obj) k = Some (lru_cache obj ! nat k)"
    by (rule cell(1))
  show "map_of (map kv ts) k = None \<and> (\<forall>(j, v, a)\<in>set ts. j \<noteq> k)" if "lru_cache obj ! nat k = 0"
    using cell(2) [OF that] by (force simp: map_of_eq_None_iff kv_def)
  show "\<exists>ys v zs. ts = ys @ (k, v, lru_cache obj ! nat k) # zs" if "lru_cache obj ! nat k \<noteq> 0"
    using cell(3) [OF that] split_list by fast
qed

lemma lru_get_ok:
  assumes "lru_rep c (Suc n) s xs" and "k \<in> {0..<10000}"
  shows "\<exists>t. lru_get s k = Some (fst (spec_get k xs), t) \<and> lru_rep c n t (snd (spec_get k xs))"
proof -
  obtain h obj ts where s: "s = (h, obj)" "lru_ok (h, obj) ts" "xs = map kv ts" "lru_capacity obj = c"
    using assms(1) by (cases s) (auto simp: lru_rep_def)
  have k: "0 \<le> k" "k < 10000"
    using assms(2) by auto
  show ?thesis
  proof (cases "lru_cache obj ! nat k = 0")
    case True
    then show ?thesis
      using lru_ok_lookup(1,2) [OF s(2) k] assms(1) s by (auto simp: lru_get_def spec_get_def lru_rep_def)
  next
    case False
    then obtain ys v zs where ts: "ts = ys @ (k, v, lru_cache obj ! nat k) # zs"
      using lru_ok_lookup(3) [OF s(2) k] by blast
    let ?x = "lru_cache obj ! nat k"
    obtain h' where h': "move_to_head h obj ?x = Some h'" "chain h' obj ((k, v, ?x) # ys @ zs)"
      using move_to_head_chain [of h obj ys k v ?x zs] s(2) unfolding ts lru_ok_def by auto
    then have "\<exists>n. h' ?x = Some n \<and> cn_val n = v"
      by (auto simp: chain_def payload_node)
    moreover have ok: "lru_ok (h', obj) ((k, v, ?x) # ys @ zs)"
      using s(2) h'(2) indexed_set_val [of "lru_cache obj" k v ?x "set ys \<union> set zs" v] unfolding lru_ok_def ts by simp
    moreover have sp: "spec_get k xs = (v, map kv ((k, v, ?x) # ys @ zs))"
      using spec_of_split [of ys k v ?x zs] lru_keys(1) [OF s(2)] unfolding ts s(3) spec_get_def by (simp add: kv_def)
    moreover have "lru_rep c n (h', obj) (snd (spec_get k xs))"
      using s(4) ok unfolding lru_rep_def sp snd_conv by blast
    ultimately show ?thesis
      using lru_ok_lookup(1) [OF s(2) k] False h'(1) s(1) by (auto simp: lru_get_def)
  qed
qed

text \<open>Taking out the last node.\<close>

lemma remove_tail_chain:
  assumes "chain h obj (ts @ [(k, v, x)])"
  shows "\<exists>h' r. remove_tail h obj = Some (h', x) \<and> h' x = Some r \<and> cn_key r = k \<and> chain (h'(x := None)) obj ts"
proof -
  have "cprev h (lru_tail obj) = Some x"
    using seg_ends [of "cnext h" "cprev h" "lru_head obj" "map adr (ts @ [(k, v, x)])" "lru_tail obj"] assms
    by (simp add: chain_def adr_def)
  moreover obtain h' where h': "remove_node h x = Some h'" "chain h' obj (ts @ [])" "payload h' = payload h"
    using remove_node_chain [OF assms] by blast
  moreover have "payload h' x = Some (k, v, ())"
    using h'(3) assms by (simp add: chain_def)
  then obtain r where "h' x = Some r" "cn_key r = k"
    by (auto simp: payload_node)
  moreover have "chain (h'(x := None)) obj ts"
  proof -
    have x: "x \<notin> set (lru_head obj # lru_tail obj # map adr ts)"
      using assms by (auto simp: chain_def adr_def)
    have "seg (cnext (h'(x := None))) (cprev (h'(x := None))) (lru_head obj) (map adr ts) (lru_tail obj)"
      using seg_other_node [OF _ x, of h' None] h'(2) by (simp add: chain_def del: fun_upd_apply)
    moreover have "a \<noteq> x" if "(j, u, a) \<in> set ts" for j u a
      using that x by (force simp: adr_def)
    then have "\<forall>(j, u, a)\<in>set ts. payload (h'(x := None)) a = Some (j, u, ())"
      using h'(2) by (auto simp: chain_def payload_def)
    ultimately show ?thesis
      using h'(2) by (simp add: chain_def)
  qed
  ultimately show ?thesis
    by (auto simp: remove_tail_def)
qed

text \<open>Storing under a key that is there, and under a new one.\<close>

lemma lru_put_old:
  assumes "lru_ok (h, obj) (ys @ (k, w, x) # zs)" and "0 \<le> k" and "k < 10000"
  shows "\<exists>h'. lru_put fresh (h, obj) k v = Some (h', obj) \<and> lru_ok (h', obj) ((k, v, x) # ys @ zs)"
proof -
  note ok = assms(1) [unfolded lru_ok_def fst_conv snd_conv]
  obtain n where n: "h x = Some n" "chain (h(x \<mapsto> n\<lparr>cn_val := v\<rparr>)) obj (ys @ (k, v, x) # zs)"
    using chain_set_val [of h obj ys k w x zs v] ok by blast
  obtain h' where h': "move_to_head (h(x \<mapsto> n\<lparr>cn_val := v\<rparr>)) obj x = Some h'" "chain h' obj ((k, v, x) # ys @ zs)"
    using move_to_head_chain [OF n(2)] by blast
  have "lru_cache obj ! nat k = x" "x \<noteq> 0"
    using ok indexedD [of "lru_cache obj" "set (ys @ (k, w, x) # zs)" k w x] by (auto simp: chain_def adr_def)
  moreover have "lru_ok (h', obj) ((k, v, x) # ys @ zs)"
    using ok h'(2) indexed_set_val [of "lru_cache obj" k w x "set ys \<union> set zs" v] by (simp add: lru_ok_def)
  ultimately show ?thesis
    using lru_ok_lookup(1) [OF assms] n(1) h'(1) by (simp add: lru_put_def)
qed

lemma chain_fresh:
  assumes "chain h obj ts" and "allocates fresh"
  shows "fresh h \<noteq> 0 \<and> fresh h \<notin> set (lru_head obj # lru_tail obj # map adr ts)
    \<and> chain (h(fresh h \<mapsto> n)) obj ts \<and> payload (h(fresh h \<mapsto> n)) (fresh h) = Some (cn_key n, cn_val n, ())"
proof -
  note ch = assms(1) [unfolded chain_def]
  have new: "fresh h \<noteq> 0" "fresh h \<notin> dom h"
    using assms(2) ch by (auto simp: allocates_def)
  have "set (lru_head obj # map adr ts) \<subseteq> dom h" "set (lru_tail obj # map adr ts) \<subseteq> dom h"
    using seg_dom [of "cnext h" "cprev h" "lru_head obj" "map adr ts" "lru_tail obj"]
      seg_dom_P [of "cnext h" "cprev h" "lru_head obj" "map adr ts" "lru_tail obj"] ch unfolding dom_links by blast+
  then have out: "fresh h \<notin> set (lru_head obj # lru_tail obj # map adr ts)"
    using new(2) by auto
  have "seg (cnext (h(fresh h \<mapsto> n))) (cprev (h(fresh h \<mapsto> n))) (lru_head obj) (map adr ts) (lru_tail obj)"
    using seg_other_node [OF _ out] ch by blast
  moreover have "a \<noteq> fresh h" if "(j, u, a) \<in> set ts" for j u a
    using that out by (force simp: adr_def)
  then have "\<forall>(j, u, a)\<in>set ts. payload (h(fresh h \<mapsto> n)) a = Some (j, u, ())"
    using ch by (auto simp: payload_def)
  ultimately have "chain (h(fresh h \<mapsto> n)) obj ts"
    using ch by (simp add: chain_def)
  with new out show ?thesis
    by (simp add: payload_def)
qed

lemma lru_put_new:
  assumes "lru_ok (h, obj) ts" and "0 \<le> k" and "k < 10000" and "lru_cache obj ! nat k = 0" and "allocates fresh"
  shows "\<exists>h' obj' us. lru_put fresh (h, obj) k v = Some (h', obj') \<and> lru_ok (h', obj') us
    \<and> map kv us = take (nat (lru_capacity obj)) ((k, v) # map kv ts) \<and> lru_capacity obj' = lru_capacity obj"
proof -
  note ok = assms(1) [unfolded lru_ok_def fst_conv snd_conv]
  have absent: "\<forall>(j, v, a)\<in>set ts. j \<noteq> k"
    using lru_ok_lookup(2) [OF assms(1-4)] by blast
  let ?x = "fresh h" and ?h = "h(fresh h \<mapsto> \<lparr>cn_key = k, cn_val = v, cn_prev = 0, cn_next = 0\<rparr>)"
  define c where "c = (lru_cache obj)[nat k := ?x]"
  define obj1 where "obj1 = obj\<lparr>lru_cache := c, lru_size := lru_size obj + 1\<rparr>"
  have x: "?x \<noteq> 0" "?x \<notin> set (lru_head obj # lru_tail obj # map adr ts)" "chain ?h obj ts" "payload ?h ?x = Some (k, v, ())"
    using chain_fresh [OF _ assms(5), of h obj ts "\<lparr>cn_key = k, cn_val = v, cn_prev = 0, cn_next = 0\<rparr>"] ok by auto
  have same: "chain g obj' us \<longleftrightarrow> chain g obj us" "add_to_head g obj' = add_to_head g obj" "remove_tail g obj' = remove_tail g obj"
    if "lru_head obj' = lru_head obj" "lru_tail obj' = lru_tail obj" for g obj' us
    using that by (simp_all add: chain_def add_to_head_def remove_tail_def fun_eq_iff)
  obtain h1 where h1: "add_to_head ?h obj ?x = Some h1" "chain h1 obj ((k, v, ?x) # ts)"
    using add_to_head_chain [OF x(3,4,1,2)] by blast
  have wr: "wr (lru_cache obj) k ?x = Some c"
    using ok assms(2,3) by (simp add: wr_def c_def)
  have index: "indexed c (set ((k, v, ?x) # ts))" "length c = 10000"
    using indexed_insert [of "lru_cache obj" "set ts" k ?x v] ok assms(2,3) absent by (simp_all add: c_def)
  have size: "chk32 (lru_size obj + 1) = Some (lru_size obj + 1)"
    using lru_keys(2) [OF assms(1)] ok by (simp add: chk32_def)
  show ?thesis
  proof (cases "lru_capacity obj < lru_size obj + 1")
    case False
    have "lru_ok (h1, obj1) ((k, v, ?x) # ts)"
      using ok h1(2) same(1) [of obj1] index False by (simp add: lru_ok_def obj1_def)
    moreover have "lru_put fresh (h, obj) k v = Some (h1, obj1)"
      using lru_ok_lookup(1) [OF assms(1-3)] assms(4) wr size h1(1) same(2) [of "obj\<lparr>lru_cache := c\<rparr>"] False
      by (simp add: lru_put_def create_node_def Let_def obj1_def)
    moreover have "map kv ((k, v, ?x) # ts) = take (nat (lru_capacity obj)) ((k, v) # map kv ts)"
      using False ok by (simp add: kv_def take_Cons')
    ultimately show ?thesis
      unfolding obj1_def by fastforce
  next
    case True
    obtain us k' v' y where us: "(k, v, ?x) # ts = us @ [(k', v', y)]"
      by (metis append_butlast_last_id list.distinct(1) prod_cases3)
    obtain h2 r where h2: "remove_tail h1 obj = Some (h2, y)" "h2 y = Some r" "cn_key r = k'" "chain (h2(y := None)) obj us"
      using remove_tail_chain [of h1 obj us k' v' y] h1(2) unfolding us by blast
    define obj2 where "obj2 = obj\<lparr>lru_cache := c[nat k' := 0], lru_size := lru_size obj\<rparr>"
    have len: "length us = length ts"
      using arg_cong [OF us, of length] by simp
    have k': "0 \<le> k'" "k' < 10000"
      using indexedD [OF index(1), of k' v' y] index(2) unfolding us by auto
    have "j \<noteq> k'" if "(j, w, a) \<in> set us" for j w a
    proof
      assume "j = k'"
      then have "a = y"
        using indexedD [OF index(1), of j w a] indexedD [OF index(1), of k' v' y] that unfolding us by simp
      moreover have "y \<notin> adr ` set us"
        using h1(2) unfolding us by (simp add: chain_def adr_def)
      ultimately show False
        using that by (force simp: adr_def)
    qed
    then have "\<forall>(j, w, a)\<in>set us. j \<noteq> k'"
      by blast
    then have "indexed (c[nat k' := 0]) (set us)"
      using indexed_remove [of c k' v' y "set us"] index(1) unfolding us by simp
    moreover have small: "length ts \<le> nat (lru_capacity obj)"
      using ok by simp
    ultimately have "lru_ok (h2(y := None), obj2) us"
      using ok same(1) [of obj2] h2(4) index(2) len by (simp add: lru_ok_def obj2_def)
    moreover have "wr c k' 0 = Some (c[nat k' := 0])"
      using k' index(2) by (simp add: wr_def)
    then have "lru_put fresh (h, obj) k v = Some (h2(y := None), obj2)"
      using lru_ok_lookup(1) [OF assms(1-3)] assms(4) wr size h1(1) h2(1-3) same(2) [of "obj\<lparr>lru_cache := c\<rparr>"]
        same(3) [of "obj\<lparr>lru_cache := c, lru_size := lru_size obj + 1\<rparr>"] True
      by (simp add: lru_put_def create_node_def Let_def obj2_def)
    moreover have "map kv us = take (nat (lru_capacity obj)) ((k, v) # map kv ts)"
    proof -
      have "(k, v) # map kv ts = map kv us @ [kv (k', v', y)]"
        using arg_cong [OF us, of "map kv"] by (simp add: kv_def)
      moreover have "nat (lru_capacity obj) = length us"
        using True ok small len by simp
      ultimately show ?thesis
        by simp
    qed
    ultimately show ?thesis
      unfolding obj2_def by fastforce
  qed
qed

lemma lru_put_ok:
  assumes "lru_rep c (Suc n) s xs" and "k \<in> {0..<10000}" and "allocates fresh"
  shows "\<exists>t. lru_put fresh s k v = Some t \<and> lru_rep c n t (spec_put c k v xs)"
proof -
  obtain h obj ts where s: "s = (h, obj)" "lru_ok (h, obj) ts" "xs = map kv ts" "lru_capacity obj = c"
    using assms(1) by (cases s) (auto simp: lru_rep_def)
  have k: "0 \<le> k" "k < 10000"
    using assms(2) by auto
  show ?thesis
  proof (cases "lru_cache obj ! nat k = 0")
    case True
    then have "spec_put c k v xs = take (nat c) ((k, v) # map kv ts)"
      using lru_ok_lookup(2) [OF s(2) k] s(3) by (simp add: spec_put_def)
    moreover obtain h' obj' us where "lru_put fresh (h, obj) k v = Some (h', obj')" "lru_ok (h', obj') us"
        "map kv us = take (nat c) ((k, v) # map kv ts)" "lru_capacity obj' = c"
      using lru_put_new [OF s(2) k True assms(3), of v] s(4) by blast
    ultimately show ?thesis
      unfolding lru_rep_def s(1) by (metis snd_conv)
  next
    case False
    let ?x = "lru_cache obj ! nat k"
    obtain ys w zs where ts: "ts = ys @ (k, w, ?x) # zs"
      using lru_ok_lookup(3) [OF s(2) k False] by blast
    obtain h' where h': "lru_put fresh (h, obj) k v = Some (h', obj)" "lru_ok (h', obj) ((k, v, ?x) # ys @ zs)"
      using lru_put_old [of h obj ys k w ?x zs fresh v] s(2) k unfolding ts by blast
    have sp: "spec_put c k v xs = map kv ((k, v, ?x) # ys @ zs)"
      using spec_of_split [of ys k w ?x zs] lru_keys(1) [OF s(2)] unfolding ts s(3) spec_put_def by (simp add: kv_def)
    have "lru_rep c n (h', obj) (spec_put c k v xs)"
      using h'(2) s(4) unfolding lru_rep_def sp snd_conv by blast
    with h'(1) s(1) show ?thesis
      by blast
  qed
qed

section \<open>Creating, printing and freeing\<close>

lemma create_lru_ok:
  assumes "allocates fresh" and "finite (dom h)"
  shows "\<exists>s. create_lru fresh h c = Some s \<and> lru_rep c n s []"
proof -
  define h1 where "h1 = h(fresh h \<mapsto> \<lparr>cn_key = 0, cn_val = 0, cn_prev = 0, cn_next = 0\<rparr>)"
  define h2 where "h2 = h1(fresh h1 \<mapsto> \<lparr>cn_key = 0, cn_val = 0, cn_prev = 0, cn_next = 0\<rparr>)"
  have "finite (dom h1)"
    using assms(2) by (simp add: h1_def)
  then have new: "h1 (fresh h1) = None" "fresh h1 \<noteq> fresh h"
    using assms(1) unfolding allocates_def by (fastforce simp: h1_def)+
  have doms: "fresh h \<in> dom h2" "fresh h1 \<in> dom h2" "finite (dom h2)"
    using \<open>finite (dom h1)\<close> by (auto simp: h1_def h2_def)
  let ?N = "(cnext h2)(fresh h \<mapsto> fresh h1)" and ?P = "(cprev h2)(fresh h1 \<mapsto> fresh h)"
  have "returns (do { g \<leftarrow> set_cnext h2 (fresh h) (fresh h1); set_cprev g (fresh h1) (fresh h) }) (relinked h2 ?N ?P)"
    unfolding returns_simps
    apply (rule returns_set_cnext [OF doms(1)])
    apply (rule returns_set_cprev, use doms(2) relinked_dom in blast)
    by (simp add: relinked_def)
  then obtain g where g: "do { g \<leftarrow> set_cnext h2 (fresh h) (fresh h1); set_cprev g (fresh h1) (fresh h) } = Some g" "relinked h2 ?N ?P g"
    by (auto simp: returns_def)
  define obj where "obj = \<lparr>lru_capacity = c, lru_size = 0, lru_head = fresh h, lru_tail = fresh h1, lru_cache = replicate 10000 0\<rparr>"
  have "create_lru fresh h c = Some (g, obj)"
    using g(1) by (auto simp: create_lru_def create_node_def Let_def h1_def h2_def obj_def bind_eq_Some_conv)
  moreover have "chain g obj []"
    using g(2) new(2) relinked_dom [OF g(2)] doms(3) by (simp add: chain_def relinked_def obj_def)
  then have "lru_ok (g, obj) []"
    by (simp add: lru_ok_def indexed_def obj_def)
  ultimately show ?thesis
    unfolding lru_rep_def obj_def by fastforce
qed

lemma print_loop:
  assumes "seg (cnext h) (cprev h) a (map adr ts) b" and "b \<notin> set (map adr ts)" and "\<forall>(k, v, a)\<in>set ts. payload h a = Some (k, v, ())"
  shows "\<exists>c. cnext h a = Some c \<and> loop (\<lambda>(curr, out).
       if curr = b then Some (Inr out)
       else do { n \<leftarrow> h curr; Some (Inl (cn_next n, out @ [(cn_key n, cn_val n)])) }) (c, out) = Some (out @ map kv ts)"
  using assms
proof (induction ts arbitrary: a out)
  case Nil
  then show ?case
    by (auto intro!: loop_stop)
next
  case (Cons t ts)
  obtain k v x where t: "t = (k, v, x)"
    by (cases t)
  obtain n where n: "h x = Some n" "cn_key n = k" "cn_val n = v"
    using Cons.prems(3) t by (auto simp: payload_node)
  have "seg (cnext h) (cprev h) x (map adr ts) b"
    using Cons.prems(1) t by (simp add: adr_def)
  from Cons.IH [OF this, of "out @ [(k, v)]"] obtain c where c: "cnext h x = Some c"
    "loop (\<lambda>(curr, out).
       if curr = b then Some (Inr out)
       else do { n \<leftarrow> h curr; Some (Inl (cn_next n, out @ [(cn_key n, cn_val n)])) }) (c, out @ [(k, v)]) = Some (out @ [(k, v)] @ map kv ts)"
    using Cons.prems(2,3) by auto
  have "cn_next n = c"
    using c(1) n(1) by (simp add: cnext_def)
  moreover have "x \<noteq> b" "cnext h a = Some x"
    using Cons.prems(1,2) t by (auto simp: adr_def)
  ultimately show ?case
    using n c(2) by (subst loop.simps) (simp add: t kv_def)
qed

lemma print_cache_ok: "lru_ok (h, obj) ts \<Longrightarrow> print_cache (h, obj) = Some (map kv ts)"
  using print_loop [of h "lru_head obj" ts "lru_tail obj" "[]"] by (auto simp: print_cache_def lru_ok_def chain_def)

text \<open>\<open>free_lru\<close> returns every node.\<close>

lemma free_loop:
  assumes "seg (cnext h) (cprev h) a xs b" and "distinct (a # b # xs)" and "dom h' = dom h - Z" and "Z \<inter> set (b # xs) = {}"
    and "\<forall>x\<in>set (b # xs). h' x = h x"
  shows "\<exists>c g. cnext h a = Some c \<and> loop (\<lambda>(h, curr).
       if curr = b then Some (Inr h)
       else do { n \<leftarrow> cnext h curr; Some (Inl (h(curr := None), n)) }) (h', c) = Some g \<and> dom g = dom h - Z - set xs"
  using assms
proof (induction xs arbitrary: a h' Z)
  case Nil
  then show ?case
    by (auto intro!: exI [of _ b] exI [of _ h'] loop_stop)
next
  case (Cons x xs)
  have hx: "h' x = h x" "cnext h a = Some x" "seg (cnext h) (cprev h) x xs b" "x \<noteq> b"
    using Cons.prems by auto
  have "\<exists>c g. cnext h x = Some c \<and> loop (\<lambda>(h, curr).
       if curr = b then Some (Inr h)
       else do { n \<leftarrow> cnext h curr; Some (Inl (h(curr := None), n)) }) (h'(x := None), c) = Some g \<and> dom g = dom h - insert x Z - set xs"
  proof (rule Cons.IH [OF hx(3)])
    show "dom (h'(x := None)) = dom h - insert x Z"
      using Cons.prems(3) by auto
  qed (use Cons.prems in auto)
  then obtain c g where c: "cnext h x = Some c" "loop (\<lambda>(h, curr).
       if curr = b then Some (Inr h)
       else do { n \<leftarrow> cnext h curr; Some (Inl (h(curr := None), n)) }) (h'(x := None), c) = Some g" "dom g = dom h - insert x Z - set xs"
    by blast
  have "cnext h' x = Some c"
    using c(1) hx(1) by (simp add: cnext_def)
  then have "loop (\<lambda>(h, curr).
       if curr = b then Some (Inr h)
       else do { n \<leftarrow> cnext h curr; Some (Inl (h(curr := None), n)) }) (h', x) = Some g"
    using hx(4) c(2) by (subst loop.simps) simp
  moreover have "dom g = dom h - Z - set (x # xs)"
    using c(3) by auto
  ultimately show ?case
    using hx(2) by blast
qed

lemma free_lru_ok:
  assumes "lru_ok (h, obj) ts"
  shows "\<exists>g. free_lru (h, obj) = Some g \<and> dom g = dom h - set (lru_head obj # lru_tail obj # map adr ts)"
  using free_loop [of h "lru_head obj" "map adr ts" "lru_tail obj" h "{}"] assms
  by (auto simp: free_lru_def lru_ok_def chain_def bind_eq_Some_conv)

section \<open>A least recently used cache\<close>

interpretation lru: cache "\<lambda>n s a. allocates fresh \<and> lru_rep c n s a" "{0..<10000}" lru_get "lru_put fresh" spec_get "spec_put c"
  for c fresh
proof
  fix n s a and k :: int
  assume "allocates fresh \<and> lru_rep c (Suc n) s a" and "k \<in> {0..<10000}"
  then show "\<exists>t. lru_get s k = Some (fst (spec_get k a), t) \<and> allocates fresh \<and> lru_rep c n t (snd (spec_get k a))"
    using lru_get_ok by blast
next
  fix n s a and k v :: int
  assume "allocates fresh \<and> lru_rep c (Suc n) s a" and "k \<in> {0..<10000}"
  then show "\<exists>t. lru_put fresh s k v = Some t \<and> allocates fresh \<and> lru_rep c n t (spec_put c k v a)"
    using lru_put_ok by blast
qed

text \<open>
  C21: the program is a least recently used cache. For every capacity and every sequence of
  \<open>get\<close> and \<open>put\<close> with keys below 10000, on a cache made by \<open>create_lru\<close>, the run follows no bad
  pointer, answers each \<open>get\<close> like the list of pairs that is kept in the order of use and cut to the
  capacity, and leaves exactly that list to \<open>print_cache\<close>; \<open>free_lru\<close> then walks the whole list.
\<close>

theorem lru_cache_correct:
  assumes "allocates fresh" and "finite (dom h)" and "op_key ` set ops \<subseteq> {0..<10000}"
  shows "\<exists>s t. create_lru fresh h c = Some s
    \<and> cache_run lru_get (lru_put fresh) ops s = Some (fst (cache_spec spec_get (spec_put c) ops []), t)
    \<and> print_cache t = Some (snd (cache_spec spec_get (spec_put c) ops [])) \<and> free_lru t \<noteq> None"
proof -
  obtain s where s: "create_lru fresh h c = Some s" "lru_rep c (length ops + 0) s []"
    using create_lru_ok [OF assms(1,2)] by blast
  then obtain t where t: "cache_run lru_get (lru_put fresh) ops s = Some (fst (cache_spec spec_get (spec_put c) ops []), t)"
      "lru_rep c 0 t (snd (cache_spec spec_get (spec_put c) ops []))"
    using lru.run_refines [of fresh c ops 0 s "[]"] assms(1,3) by auto
  obtain h' obj ts where ts: "t = (h', obj)" "lru_ok (h', obj) ts" "snd (cache_spec spec_get (spec_put c) ops []) = map kv ts"
    using t(2) by (cases t) (auto simp: lru_rep_def)
  then have "print_cache t = Some (map kv ts)" "free_lru t \<noteq> None"
    using print_cache_ok free_lru_ok [OF ts(2)] by auto
  with s(1) t(1) ts(3) show ?thesis
    by metis
qed

theorem lru_cache_correct_witness:
  "\<exists>s t. create_lru first_free (\<lambda>_. None) 2 = Some s
    \<and> cache_run lru_get (lru_put first_free) [Store 1 10, Store 2 20, Fetch 1, Store 3 30, Fetch 2, Fetch 1] s = Some ([10, -1, 10], t)
    \<and> print_cache t = Some [(1, 10), (3, 30)]"
proof -
  let ?ops = "[Store 1 10, Store 2 20, Fetch 1, Store 3 30, Fetch 2, Fetch 1]"
  have "cache_spec spec_get (spec_put 2) ?ops [] = ([10, -1, 10], [(1, 10), (3, 30)])"
    by (simp add: spec_get_def spec_put_def)
  then show ?thesis
    using lru_cache_correct [OF allocates_first_free, of "\<lambda>_. None" ?ops 2] by auto
qed

end
