(* ===== verification/Lfu.thy ===== *)
theory Lfu
  imports CacheNodes Loops
begin

text \<open>
  The least frequently used cache of C/job_interview/17_LFU.c: a hash table with linear probing from keys
  to nodes, and one doubly linked list per frequency, the most recently used node first. The pointer
  to a \<open>FreqList\<close> occurs in one cell of the table only, so the cell holds its two sentinels, \<open>None\<close> for
  \<open>NULL\<close>. The heap of nodes is passed along.
\<close>

section \<open>The program\<close>

record lfu_node = cache_node +
  ln_freq :: int

type_synonym lfu_heap = "nat \<Rightarrow> lfu_node option"
type_synonym freq_list = "nat \<times> nat"

definition HASH_SIZE :: int where "HASH_SIZE = 20001"

record lfu =
  lf_capacity :: int
  lf_size :: int
  lf_minFreq :: int
  lf_key_map :: "nat list"
  lf_freq_map :: "freq_list option list"

definition getHashIndex :: "int \<Rightarrow> int option" where
  "getHashIndex key = do { r \<leftarrow> cmod key HASH_SIZE; cmod (r + HASH_SIZE) HASH_SIZE }"

definition createNode :: "(lfu_heap \<Rightarrow> nat) \<Rightarrow> lfu_heap \<Rightarrow> int \<Rightarrow> int \<Rightarrow> int \<Rightarrow> lfu_heap \<times> nat" where
  "createNode fresh h key val freq =
     (let node = fresh h
      in (h(node \<mapsto> \<lparr>cn_key = key, cn_val = val, cn_prev = 0, cn_next = 0, ln_freq = freq\<rparr>), node))"

definition createFreqList :: "(lfu_heap \<Rightarrow> nat) \<Rightarrow> lfu_heap \<Rightarrow> (lfu_heap \<times> freq_list) option" where
  "createFreqList fresh h = do {
     let (h, head) = createNode fresh h 0 0 0;
     let (h, tail) = createNode fresh h 0 0 0;
     h \<leftarrow> set_cnext h head tail;
     h \<leftarrow> set_cprev h tail head;
     Some (h, (head, tail)) }"

definition removeNode :: "lfu_heap \<Rightarrow> nat \<Rightarrow> lfu_heap option" where
  "removeNode h node = do {
     p \<leftarrow> cprev h node;
     n \<leftarrow> cnext h node;
     h \<leftarrow> set_cnext h p n;
     n \<leftarrow> cnext h node;
     p \<leftarrow> cprev h node;
     set_cprev h n p }"

definition addNodeToHead :: "lfu_heap \<Rightarrow> freq_list \<Rightarrow> nat \<Rightarrow> lfu_heap option" where
  "addNodeToHead h = (\<lambda>(head, tail) node. do {
     n \<leftarrow> cnext h head;
     h \<leftarrow> set_cnext h node n;
     h \<leftarrow> set_cprev h node head;
     n \<leftarrow> cnext h head;
     h \<leftarrow> set_cprev h n node;
     set_cnext h head node })"

definition lFUCacheCreate :: "int \<Rightarrow> lfu" where
  "lFUCacheCreate capacity = \<lparr>lf_capacity = capacity, lf_size = 0, lf_minFreq = 0,
     lf_key_map = replicate (nat HASH_SIZE) 0, lf_freq_map = replicate (nat HASH_SIZE) None\<rparr>"

text \<open>The list of a frequency, made when there is none.\<close>

definition get_list :: "(lfu_heap \<Rightarrow> nat) \<Rightarrow> lfu_heap \<Rightarrow> lfu \<Rightarrow> int \<Rightarrow> (lfu_heap \<times> lfu \<times> freq_list) option" where
  "get_list fresh h obj freq = do {
     i \<leftarrow> getHashIndex freq;
     l \<leftarrow> rd (lf_freq_map obj) i;
     case l of
       Some l \<Rightarrow> Some (h, obj, l)
     | None \<Rightarrow> do {
         (h, l) \<leftarrow> createFreqList fresh h;
         fm \<leftarrow> wr (lf_freq_map obj) i (Some l);
         Some (h, obj\<lparr>lf_freq_map := fm\<rparr>, l) } }"

definition increaseFreq :: "(lfu_heap \<Rightarrow> nat) \<Rightarrow> lfu_heap \<Rightarrow> lfu \<Rightarrow> nat \<Rightarrow> (lfu_heap \<times> lfu) option" where
  "increaseFreq fresh h obj node = do {
     n \<leftarrow> h node;
     let oldFreq = ln_freq n;
     newFreq \<leftarrow> chk32 (oldFreq + 1);
     i \<leftarrow> getHashIndex oldFreq;
     oldList \<leftarrow> rd (lf_freq_map obj) i;
     h \<leftarrow> removeNode h node;
     (head, tail) \<leftarrow> oldList;
     first \<leftarrow> cnext h head;
     (h, obj) \<leftarrow> (if first = tail then do {
         fm \<leftarrow> wr (lf_freq_map obj) i None;
         Some (h(head := None, tail := None),
           obj\<lparr>lf_minFreq := (if lf_minFreq obj = oldFreq then newFreq else lf_minFreq obj), lf_freq_map := fm\<rparr>) }
       else Some (h, obj));
     (h, obj, newList) \<leftarrow> get_list fresh h obj newFreq;
     h \<leftarrow> addNodeToHead h newList node;
     n \<leftarrow> h node;
     Some (h(node \<mapsto> n\<lparr>ln_freq := newFreq\<rparr>), obj) }"

text \<open>Probing from a cell: to the node of a key or to \<open>NULL\<close>, to the cell of a node's key, to a free cell.\<close>

definition find_key :: "lfu_heap \<Rightarrow> nat list \<Rightarrow> int \<Rightarrow> int \<Rightarrow> nat option" where
  "find_key h km key idx = loop (\<lambda>idx. do {
     p \<leftarrow> rd km idx;
     if p = 0 then Some (Inr 0)
     else do {
       n \<leftarrow> h p;
       if cn_key n = key then Some (Inr p)
       else do { i \<leftarrow> cmod (idx + 1) HASH_SIZE; Some (Inl i) } } }) idx"

definition find_cell :: "lfu_heap \<Rightarrow> nat list \<Rightarrow> int \<Rightarrow> int \<Rightarrow> int option" where
  "find_cell h km key idx = loop (\<lambda>idx. do {
     p \<leftarrow> rd km idx;
     n \<leftarrow> h p;
     if cn_key n = key then Some (Inr idx) else do { i \<leftarrow> cmod (idx + 1) HASH_SIZE; Some (Inl i) } }) idx"

definition find_free :: "nat list \<Rightarrow> int \<Rightarrow> int option" where
  "find_free km idx = loop (\<lambda>idx. do {
     p \<leftarrow> rd km idx;
     if p = 0 then Some (Inr idx) else do { i \<leftarrow> cmod (idx + 1) HASH_SIZE; Some (Inl i) } }) idx"

definition lFUCacheGet :: "(lfu_heap \<Rightarrow> nat) \<Rightarrow> lfu_heap \<times> lfu \<Rightarrow> int \<Rightarrow> (int \<times> lfu_heap \<times> lfu) option" where
  "lFUCacheGet fresh = (\<lambda>(h, obj) key.
     if lf_capacity obj = 0 then Some (-1, h, obj)
     else do {
       idx \<leftarrow> getHashIndex key;
       node \<leftarrow> find_key h (lf_key_map obj) key idx;
       if node = 0 then Some (-1, h, obj)
       else do {
         (h, obj) \<leftarrow> increaseFreq fresh h obj node;
         n \<leftarrow> h node;
         Some (cn_val n, h, obj) } })"

text \<open>Making room: the last node of the list of the least frequency leaves.\<close>

definition evict :: "lfu_heap \<Rightarrow> lfu \<Rightarrow> (lfu_heap \<times> lfu) option" where
  "evict h obj = do {
     i \<leftarrow> getHashIndex (lf_minFreq obj);
     minList \<leftarrow> rd (lf_freq_map obj) i;
     (head, tail) \<leftarrow> minList;
     evictNode \<leftarrow> cprev h tail;
     h \<leftarrow> removeNode h evictNode;
     n \<leftarrow> h evictNode;
     idx \<leftarrow> getHashIndex (cn_key n);
     idx \<leftarrow> find_cell h (lf_key_map obj) (cn_key n) idx;
     km \<leftarrow> wr (lf_key_map obj) idx 0;
     Some (h(evictNode := None), obj\<lparr>lf_key_map := km, lf_size := lf_size obj - 1\<rparr>) }"

definition lFUCachePut :: "(lfu_heap \<Rightarrow> nat) \<Rightarrow> lfu_heap \<times> lfu \<Rightarrow> int \<Rightarrow> int \<Rightarrow> (lfu_heap \<times> lfu) option" where
  "lFUCachePut fresh = (\<lambda>(h, obj) key value.
     if lf_capacity obj = 0 then Some (h, obj)
     else do {
       idx \<leftarrow> getHashIndex key;
       existNode \<leftarrow> find_key h (lf_key_map obj) key idx;
       if existNode \<noteq> 0 then do {
         n \<leftarrow> h existNode;
         increaseFreq fresh (h(existNode \<mapsto> n\<lparr>cn_val := value\<rparr>)) obj existNode }
       else do {
         (h, obj) \<leftarrow> (if lf_capacity obj \<le> lf_size obj then evict h obj else Some (h, obj));
         let (h, newNode) = createNode fresh h key value 1;
         idx \<leftarrow> getHashIndex key;
         idx \<leftarrow> find_free (lf_key_map obj) idx;
         km \<leftarrow> wr (lf_key_map obj) idx newNode;
         (h, obj, l) \<leftarrow> get_list fresh h (obj\<lparr>lf_key_map := km\<rparr>) 1;
         h \<leftarrow> addNodeToHead h l newNode;
         size \<leftarrow> chk32 (lf_size obj + 1);
         Some (h, obj\<lparr>lf_minFreq := 1, lf_size := size\<rparr>) } })"

definition lFUCacheFree :: "lfu_heap \<times> lfu \<Rightarrow> lfu_heap option" where
  "lFUCacheFree = (\<lambda>(h, obj). for_up 0 HASH_SIZE (\<lambda>i h. do {
     l \<leftarrow> rd (lf_freq_map obj) i;
     case l of
       None \<Rightarrow> Some h
     | Some (head, tail) \<Rightarrow> loop (\<lambda>(h, cur).
         if cur = 0 then Some (Inr h)
         else do { n \<leftarrow> cnext h cur; Some (Inl (h(cur := None), n)) }) (h, head) }) h)"

section \<open>The abstract cache\<close>

text \<open>Triples of key, value and frequency, the most recently used first. The entry that has to leave is
  the least recently used one among those of the least frequency.\<close>

type_synonym entry = "int \<times> int \<times> int"

definition freq :: "entry \<Rightarrow> int" where
  "freq = (\<lambda>(k, v, f). f)"

definition find_entry :: "int \<Rightarrow> entry list \<Rightarrow> (int \<times> int) option" where
  "find_entry k xs = map_of xs k"

definition touch :: "int \<Rightarrow> int \<Rightarrow> int \<Rightarrow> entry list \<Rightarrow> entry list" where
  "touch k v f xs = (k, v, f + 1) # filter (\<lambda>e. fst e \<noteq> k) xs"

fun drop_last :: "('a \<Rightarrow> bool) \<Rightarrow> 'a list \<Rightarrow> 'a list" where
  "drop_last P [] = []"
| "drop_last P (x # xs) = (if P x \<and> (\<forall>y\<in>set xs. \<not> P y) then xs else x # drop_last P xs)"

definition make_room :: "int \<Rightarrow> entry list \<Rightarrow> entry list" where
  "make_room c xs = (if c \<le> int (length xs) then drop_last (\<lambda>e. freq e = Min (set (map freq xs))) xs else xs)"

definition lfu_spec_get :: "int \<Rightarrow> entry list \<Rightarrow> int \<times> entry list" where
  "lfu_spec_get k xs = (case find_entry k xs of None \<Rightarrow> (-1, xs) | Some (v, f) \<Rightarrow> (v, touch k v f xs))"

definition lfu_spec_put :: "int \<Rightarrow> int \<Rightarrow> int \<Rightarrow> entry list \<Rightarrow> entry list" where
  "lfu_spec_put c k v xs =
     (if c = 0 then xs
      else case find_entry k xs of
        Some (w, f) \<Rightarrow> touch k v f xs
      | None \<Rightarrow> (k, v, 1) # make_room c xs)"

end
