(* ===== verification/LfuCorrect.thy ===== *)
theory LfuCorrect
  imports Lfu
begin

text \<open>
  The least frequently used cache implements its specification. First the lists of the frequencies as a
  whole, with the effect of each pointer operation on them; then the nodes with the table of the keys;
  then the operations.
\<close>

section \<open>The lists of the frequencies\<close>

text \<open>A cell of the frequency table, the nodes of its list, and the addresses they take up.\<close>

definition bucket_ok :: "lfu_heap \<Rightarrow> freq_list option \<Rightarrow> nat list \<Rightarrow> bool" where
  "bucket_ok h b xs \<longleftrightarrow>
     (case b of None \<Rightarrow> xs = [] | Some (a, z) \<Rightarrow> seg (cnext h) (cprev h) a xs z \<and> distinct (a # z # xs))"

definition cells :: "freq_list option \<Rightarrow> nat list \<Rightarrow> nat set" where
  "cells b xs = (case b of None \<Rightarrow> {} | Some (a, z) \<Rightarrow> set (a # z # xs))"

definition same_links :: "lfu_heap \<Rightarrow> lfu_heap \<Rightarrow> nat set \<Rightarrow> bool" where
  "same_links h h' X \<longleftrightarrow> (\<forall>x\<in>X. cnext h' x = cnext h x \<and> cprev h' x = cprev h x)"

definition lists_ok :: "lfu_heap \<Rightarrow> freq_list option list \<Rightarrow> (nat \<Rightarrow> nat list) \<Rightarrow> bool" where
  "lists_ok h fm B \<longleftrightarrow> (\<forall>i<length fm. bucket_ok h (fm ! i) (B i))
     \<and> (\<forall>i<length fm. \<forall>j<length fm. i \<noteq> j \<longrightarrow> cells (fm ! i) (B i) \<inter> cells (fm ! j) (B j) = {})"

definition taken :: "freq_list option list \<Rightarrow> (nat \<Rightarrow> nat list) \<Rightarrow> nat set" where
  "taken fm B = (\<Union>i<length fm. cells (fm ! i) (B i))"

lemma cells_simps [simp]: "cells None xs = {}" "cells (Some (a, z)) xs = set (a # z # xs)"
  by (simp_all add: cells_def)

lemma bucket_ok_simps [simp]:
  "bucket_ok h None xs \<longleftrightarrow> xs = []"
  "bucket_ok h (Some (a, z)) xs \<longleftrightarrow> seg (cnext h) (cprev h) a xs z \<and> distinct (a # z # xs)"
  by (simp_all add: bucket_ok_def)

lemma bucket_frame:
  assumes "bucket_ok h b xs" and "same_links h h' (cells b xs)"
  shows "bucket_ok h' b xs"
proof (cases b)
  case (Some l)
  obtain a z where l: "l = (a, z)"
    by (cases l)
  have "seg (cnext h) (cprev h) a xs z"
    using assms(1) Some l by simp
  moreover have "\<forall>x\<in>set (a # xs). cnext h' x = cnext h x" "\<forall>x\<in>set (z # xs). cprev h' x = cprev h x"
    using assms(2) Some l unfolding same_links_def by auto
  ultimately have "seg (cnext h') (cprev h') a xs z"
    by (rule seg_cong)
  with assms(1) Some l show ?thesis
    by simp
qed (use assms in simp)

lemma bucket_cells_dom: "bucket_ok h b xs \<Longrightarrow> cells b xs \<subseteq> dom h"
proof (cases b)
  case (Some l)
  obtain a z where l: "l = (a, z)"
    by (cases l)
  assume "bucket_ok h b xs"
  with Some l have "seg (cnext h) (cprev h) a xs z"
    by simp
  from seg_dom [OF this] seg_dom_P [OF this] show ?thesis
    using Some l by auto
qed simp

lemma taken_dom: "lists_ok h fm B \<Longrightarrow> taken fm B \<subseteq> dom h"
  using bucket_cells_dom by (fastforce simp: lists_ok_def taken_def)

lemma cells_taken: "i < length fm \<Longrightarrow> cells (fm ! i) (B i) \<subseteq> taken fm B"
  by (auto simp: taken_def)

lemma same_links_mono: "same_links h h' X \<Longrightarrow> Y \<subseteq> X \<Longrightarrow> same_links h h' Y"
  by (auto simp: same_links_def)

lemma lists_frame:
  assumes "lists_ok h fm B" and "same_links h h' (taken fm B)"
  shows "lists_ok h' fm B"
proof -
  have "bucket_ok h' (fm ! i) (B i)" if "i < length fm" for i
    using assms(1) that bucket_frame same_links_mono [OF assms(2) cells_taken [OF that]] unfolding lists_ok_def by blast
  with assms(1) show ?thesis
    by (simp add: lists_ok_def)
qed

text \<open>One list changes.\<close>

lemma lists_upd:
  assumes "lists_ok h fm B" and "i < length fm" and "bucket_ok h' b xs"
    and "\<And>j. j < length fm \<Longrightarrow> j \<noteq> i \<Longrightarrow> cells b xs \<inter> cells (fm ! j) (B j) = {}"
    and "\<And>j. j < length fm \<Longrightarrow> j \<noteq> i \<Longrightarrow> same_links h h' (cells (fm ! j) (B j))"
  shows "lists_ok h' (fm[i := b]) (B(i := xs))"
proof -
  have "bucket_ok h' (fm[i := b] ! j) ((B(i := xs)) j)" if "j < length fm" for j
    using assms that bucket_frame unfolding lists_ok_def by (cases "j = i") auto
  moreover have "cells (fm[i := b] ! j) ((B(i := xs)) j) \<inter> cells (fm[i := b] ! m) ((B(i := xs)) m) = {}"
    if "j < length fm" "m < length fm" "j \<noteq> m" for j m
    using assms(1,2) that assms(4) [of j] assms(4) [of m] unfolding lists_ok_def by (cases "j = i"; cases "m = i") auto
  ultimately show ?thesis
    by (simp add: lists_ok_def)
qed

lemma other_cells:
  "lists_ok h fm B \<Longrightarrow> i < length fm \<Longrightarrow> j < length fm \<Longrightarrow> j \<noteq> i \<Longrightarrow> cells (fm ! i) (B i) \<inter> cells (fm ! j) (B j) = {}"
  unfolding lists_ok_def by blast

section \<open>The pointer operations on the lists\<close>

lemma removeNode_remove: "removeNode = remove_node"
  by (simp add: fun_eq_iff removeNode_def remove_node_def)

lemma removeNode_lists:
  assumes "lists_ok h fm B" and "i < length fm" and "B i = ys @ x # zs"
  shows "\<exists>h'. removeNode h x = Some h' \<and> lists_ok h' fm (B(i := ys @ zs)) \<and> payload h' = payload h"
proof -
  obtain a z where l: "fm ! i = Some (a, z)"
    using assms unfolding lists_ok_def by (cases "fm ! i") fastforce+
  have b: "seg (cnext h) (cprev h) a (ys @ x # zs) z" "distinct (a # z # ys @ x # zs)"
    using assms l unfolding lists_ok_def by fastforce+
  obtain h' N P where h': "removeNode h x = Some h'" "relinked h N P h'" "seg N P a (ys @ zs) z"
      "\<forall>i. i \<notin> set (a # z # ys @ zs) \<longrightarrow> N i = cnext h i \<and> P i = cprev h i"
    using remove_node_seg [OF b(1)] b(2) unfolding removeNode_remove by auto
  have "lists_ok h' (fm[i := Some (a, z)]) (B(i := ys @ zs))"
  proof (rule lists_upd [OF assms(1,2)])
    show "bucket_ok h' (Some (a, z)) (ys @ zs)"
      using h'(2,3) b(2) by (simp add: relinked_def)
    fix j assume j: "j < length fm" "j \<noteq> i"
    then have "set (a # z # ys @ x # zs) \<inter> cells (fm ! j) (B j) = {}"
      using other_cells [OF assms(1,2)] assms(3) l by simp
    then show "cells (Some (a, z)) (ys @ zs) \<inter> cells (fm ! j) (B j) = {}" and "same_links h h' (cells (fm ! j) (B j))"
      using h'(2,4) by (auto simp: same_links_def relinked_def)
  qed
  with h'(1,2) l show ?thesis
    by (metis list_update_id relinked_def)
qed

lemma addNodeToHead_lists:
  assumes "lists_ok h fm B" and "i < length fm" and "fm ! i = Some l" and "x \<in> dom h" and "x \<notin> taken fm B"
  shows "\<exists>h'. addNodeToHead h l x = Some h' \<and> lists_ok h' fm (B(i := x # B i)) \<and> payload h' = payload h"
proof -
  obtain a z where l: "l = (a, z)"
    by (cases l)
  have b: "seg (cnext h) (cprev h) a (B i) z" "distinct (a # z # B i)" and fresh: "x \<notin> set (a # z # B i)"
    using assms l cells_taken [OF assms(2), of B] unfolding lists_ok_def by fastforce+
  let ?r = "hd (B i @ [z])"
  have nx: "cnext h a = Some ?r" and r: "?r \<in> set (z # B i)"
    using seg_ends [OF b(1)] hd_in_set [of "B i @ [z]"] by auto
  have doms: "a \<in> dom h" "?r \<in> dom h"
    using seg_dom [OF b(1), of a] seg_dom_P [OF b(1) r] by simp_all
  have x: "x \<noteq> a" "x \<noteq> ?r"
    using fresh r by auto
  let ?N = "(cnext h)(x \<mapsto> ?r, a \<mapsto> x)" and ?P = "(cprev h)(x \<mapsto> a, ?r \<mapsto> x)"
  have "returns (addNodeToHead h l x) (relinked h ?N ?P)"
    unfolding addNodeToHead_def l prod.case returns_simps
    apply (rule returns_read [OF nx])
    apply (rule returns_set_cnext [OF assms(4)])
    apply (rule returns_set_cprev, use assms(4) relinked_dom in blast)
    apply (rule returns_read [of _ ?r], use nx x(1) in \<open>simp add: relinked_def\<close>)
    apply (rule returns_set_cprev, use doms(2) relinked_dom in blast)
    apply (rule returns_set_cnext, use doms(1) relinked_dom in blast)
    by (simp add: relinked_def)
  then obtain h' where h': "addNodeToHead h l x = Some h'" "relinked h ?N ?P h'"
    by (auto simp: returns_def)
  have "lists_ok h' (fm[i := Some (a, z)]) (B(i := x # B i))"
  proof (rule lists_upd [OF assms(1,2)])
    show "bucket_ok h' (Some (a, z)) (x # B i)"
      using seg_insert [of "cnext h" "cprev h" a "[]" "B i" z x a ?r] b fresh h'(2) by (simp add: relinked_def)
    fix j assume j: "j < length fm" "j \<noteq> i"
    then have "set (a # z # B i) \<inter> cells (fm ! j) (B j) = {}" "x \<notin> cells (fm ! j) (B j)"
      using other_cells [OF assms(1,2)] assms(3,5) cells_taken [OF j(1), of B] l by auto
    then show "cells (Some (a, z)) (x # B i) \<inter> cells (fm ! j) (B j) = {}" and "same_links h h' (cells (fm ! j) (B j))"
      using h'(2) r by (auto simp: same_links_def relinked_def)
  qed
  with h' l assms(3) show ?thesis
    by (metis list_update_id relinked_def)
qed

lemma taken_upd:
  assumes "x \<notin> taken fm B" and "x \<notin> cells b (B i)"
  shows "x \<notin> taken (fm[i := b]) B"
proof
  assume "x \<in> taken (fm[i := b]) B"
  then obtain j where "j < length fm" "x \<in> cells (fm[i := b] ! j) (B j)"
    by (auto simp: taken_def)
  with assms cells_taken [of j fm B] show False
    by (cases "j = i") auto
qed

text \<open>The list of a frequency that became empty is freed.\<close>

lemma free_list_lists:
  assumes "lists_ok h fm B" and "i < length fm" and "fm ! i = Some (a, z)" and "B i = []"
  shows "lists_ok (h(a := None, z := None)) (fm[i := None]) B"
    and "x \<notin> taken fm B \<Longrightarrow> x \<notin> taken (fm[i := None]) B"
proof -
  have "lists_ok (h(a := None, z := None)) (fm[i := None]) (B(i := []))"
  proof (rule lists_upd [OF assms(1,2)])
    fix j assume j: "j < length fm" "j \<noteq> i"
    then have "{a, z} \<inter> cells (fm ! j) (B j) = {}"
      using other_cells [OF assms(1,2) j] assms(3,4) by simp
    then have "\<forall>x\<in>cells (fm ! j) (B j). x \<noteq> a \<and> x \<noteq> z"
      by blast
    then show "same_links h (h(a := None, z := None)) (cells (fm ! j) (B j))"
      by (simp add: same_links_def cnext_def cprev_def)
  qed simp_all
  then show "lists_ok (h(a := None, z := None)) (fm[i := None]) B"
    using assms(4) by (simp add: fun_upd_idem)
  show "x \<notin> taken fm B \<Longrightarrow> x \<notin> taken (fm[i := None]) B"
    by (rule taken_upd) simp_all
qed

text \<open>A node that is in no list may be allocated, changed or freed.\<close>

lemma lists_other_node:
  assumes "lists_ok h fm B" and "x \<notin> taken fm B"
  shows "lists_ok (h(x := n)) fm B"
proof -
  have "\<forall>y\<in>taken fm B. y \<noteq> x"
    using assms(2) by blast
  then show ?thesis
    by (intro lists_frame [OF assms(1)]) (simp add: same_links_def cnext_def cprev_def)
qed

lemma lists_same_links:
  assumes "lists_ok h fm B" and "h x = Some n" and "cn_next m = cn_next n" and "cn_prev m = cn_prev n"
  shows "lists_ok (h(x \<mapsto> m)) fm B"
  using assms(2-4) by (intro lists_frame [OF assms(1)]) (auto simp: same_links_def cnext_def cprev_def)

lemma createFreqList_ok:
  assumes "allocates fresh" and "finite (dom h)"
  shows "\<exists>h' a z. createFreqList fresh h = Some (h', (a, z)) \<and> a \<notin> dom h \<and> z \<notin> dom h \<and> a \<noteq> z
    \<and> cnext h' a = Some z \<and> cprev h' z = Some a \<and> (\<forall>x. x \<noteq> a \<longrightarrow> x \<noteq> z \<longrightarrow> h' x = h x) \<and> dom h' = insert a (insert z (dom h))"
proof -
  let ?n = "\<lparr>cn_key = 0, cn_val = 0, cn_prev = 0, cn_next = 0, ln_freq = 0\<rparr> :: lfu_node"
  define a where "a = fresh h"
  define z where "z = fresh (h(a \<mapsto> ?n))"
  have "finite (dom (h(a \<mapsto> ?n)))"
    using assms(2) by simp
  then have new: "h a = None" "(h(a \<mapsto> ?n)) z = None"
    using assms unfolding allocates_def a_def z_def by blast+
  then have "z \<noteq> a" "h z = None"
    by (auto split: if_splits)
  then have "createFreqList fresh h = Some (h(a \<mapsto> ?n\<lparr>cn_next := z\<rparr>, z \<mapsto> ?n\<lparr>cn_prev := a\<rparr>), (a, z))"
    by (simp add: createFreqList_def createNode_def Let_def a_def [symmetric] z_def [symmetric] set_cnext_def set_cprev_def
        fun_upd_twist)
  with new(1) \<open>z \<noteq> a\<close> \<open>h z = None\<close> show ?thesis
    by (auto simp: cnext_def cprev_def dom_def)
qed

lemma getHashIndex_in: "0 \<le> k \<Longrightarrow> k < HASH_SIZE \<Longrightarrow> getHashIndex k = Some k"
  by (simp add: getHashIndex_def cmod_nonneg HASH_SIZE_def)

lemma get_list_ok:
  assumes "allocates fresh" and "finite (dom h)" and "lists_ok h (lf_freq_map obj) B" and "length (lf_freq_map obj) = nat HASH_SIZE"
    and "0 \<le> f" and "f < HASH_SIZE"
  shows "\<exists>h' fm l. get_list fresh h obj f = Some (h', obj\<lparr>lf_freq_map := fm\<rparr>, l) \<and> length fm = nat HASH_SIZE \<and> fm ! nat f = Some l
    \<and> lists_ok h' fm B \<and> (\<forall>x\<in>dom h. h' x = h x) \<and> finite (dom h') \<and> (\<forall>x\<in>dom h. x \<notin> taken (lf_freq_map obj) B \<longrightarrow> x \<notin> taken fm B)"
proof -
  let ?fm = "lf_freq_map obj"
  have i: "nat f < length ?fm" "f < int (length ?fm)" "getHashIndex f = Some f"
    using assms(4-6) by (auto simp: getHashIndex_in)
  show ?thesis
  proof (cases "?fm ! nat f")
    case (Some l)
    then have "get_list fresh h obj f = Some (h, obj\<lparr>lf_freq_map := ?fm\<rparr>, l)"
      using i assms(5) by (simp add: get_list_def rd_in)
    with Some assms(2-4) show ?thesis
      by blast
  next
    case None
    then have empty: "B (nat f) = []"
      using assms(3) i(1) unfolding lists_ok_def by fastforce
    obtain h' a z where h': "createFreqList fresh h = Some (h', (a, z))" "a \<notin> dom h" "z \<notin> dom h" "a \<noteq> z"
        "cnext h' a = Some z" "cprev h' z = Some a" "\<forall>x. x \<noteq> a \<longrightarrow> x \<noteq> z \<longrightarrow> h' x = h x" "dom h' = insert a (insert z (dom h))"
      using createFreqList_ok [OF assms(1,2)] by blast
    let ?fm' = "?fm[nat f := Some (a, z)]"
    have free: "a \<notin> taken ?fm B" "z \<notin> taken ?fm B"
      using taken_dom [OF assms(3)] h'(2,3) by blast+
    have "lists_ok h' ?fm' (B(nat f := []))"
    proof (rule lists_upd [OF assms(3) i(1)])
      fix j assume j: "j < length ?fm" "j \<noteq> nat f"
      then have out: "a \<notin> cells (?fm ! j) (B j)" "z \<notin> cells (?fm ! j) (B j)"
        using free cells_taken [OF j(1), of B] by blast+
      then show "cells (Some (a, z)) [] \<inter> cells (?fm ! j) (B j) = {}"
        by auto
      have "\<forall>x\<in>cells (?fm ! j) (B j). h' x = h x"
        using out h'(7) by metis
      then show "same_links h h' (cells (?fm ! j) (B j))"
        by (simp add: same_links_def cnext_def cprev_def)
    qed (use h'(4-6) in simp)
    then have "lists_ok h' ?fm' B"
      using empty by (simp add: fun_upd_idem)
    moreover have "get_list fresh h obj f = Some (h', obj\<lparr>lf_freq_map := ?fm'\<rparr>, (a, z))"
      using i assms(5) None h'(1) by (simp add: get_list_def rd_in wr_in)
    moreover have "x \<notin> taken ?fm' B" if "x \<in> dom h" "x \<notin> taken ?fm B" for x
      by (rule taken_upd) (use that h'(2,3) empty in auto)
    moreover have "\<forall>x\<in>dom h. h' x = h x"
      using h'(2,3,7) by metis
    ultimately show ?thesis
      using h'(8) assms(2,4) i(1) by (intro exI [of _ h'] exI [of _ ?fm'] exI [of _ "(a, z)"]) simp
  qed
qed

section \<open>The nodes\<close>

text \<open>The entries with the addresses of their nodes, the most recently used first, and the list of a frequency.\<close>

definition info :: "lfu_heap \<Rightarrow> nat \<Rightarrow> entry option" where
  "info h a = map_option (\<lambda>n. (cn_key n, cn_val n, ln_freq n)) (h a)"

definition listed :: "(entry \<times> nat) list \<Rightarrow> nat \<Rightarrow> nat list" where
  "listed es i = map snd (filter (\<lambda>(e, a). freq e = int i) es)"

definition nodes_ok :: "lfu_heap \<Rightarrow> (entry \<times> nat) list \<Rightarrow> bool" where
  "nodes_ok h es \<longleftrightarrow> (\<forall>(e, a)\<in>set es. info h a = Some e \<and> a \<noteq> 0 \<and> 1 \<le> freq e \<and> freq e < HASH_SIZE) \<and> distinct (map snd es)"

definition heap_ok :: "lfu_heap \<Rightarrow> lfu \<Rightarrow> (entry \<times> nat) list \<Rightarrow> bool" where
  "heap_ok h obj es \<longleftrightarrow> finite (dom h) \<and> length (lf_freq_map obj) = nat HASH_SIZE
     \<and> lists_ok h (lf_freq_map obj) (listed es) \<and> nodes_ok h es"

lemma lfu_node_eqI:
  fixes n m :: lfu_node
  shows "cache_node.more n = cache_node.more m \<Longrightarrow> ln_freq n = ln_freq m"
  by (cases n, cases m) simp

lemma info_payload: "payload h' = payload h \<Longrightarrow> info h' = info h"
proof
  fix a
  assume "payload h' = payload h"
  then have "payload h' a = payload h a"
    by simp
  then show "info h' a = info h a"
  proof (cases "h a"; cases "h' a")
    fix n m
    assume "h a = Some n" and "h' a = Some m"
    with \<open>payload h' a = payload h a\<close> lfu_node_eqI [of m n] show ?thesis
      by (simp add: payload_def info_def)
  qed (simp_all add: payload_def info_def)
qed

lemma info_dom: "info h y = Some e \<Longrightarrow> y \<in> dom h"
  by (auto simp: info_def)

lemma info_cong: "h' a = h a \<Longrightarrow> info h' a = info h a"
  by (simp add: info_def)

lemma listed_cons: "0 \<le> f \<Longrightarrow> listed (((k, v, f), x) # es) = (listed es)(nat f := x # listed es (nat f))"
  by (auto simp: listed_def freq_def fun_eq_iff)

lemma listed_split:
  assumes "0 \<le> f"
  shows "listed (ys @ ((k, v, f), x) # zs) (nat f) = listed ys (nat f) @ x # listed zs (nat f)"
    and "(listed (ys @ ((k, v, f), x) # zs))(nat f := listed ys (nat f) @ listed zs (nat f)) = listed (ys @ zs)"
  using assms by (auto simp: listed_def freq_def fun_eq_iff)

lemma listed_empty:
  assumes "0 \<le> f"
  shows "listed es (nat f) = [] \<longleftrightarrow> f \<notin> freq ` fst ` set es"
proof -
  have "listed es (nat f) = [] \<longleftrightarrow> (\<forall>t\<in>set es. freq (fst t) \<noteq> f)"
    using assms by (simp add: listed_def filter_empty_conv split_beta)
  also have "\<dots> \<longleftrightarrow> f \<notin> freq ` fst ` set es"
    by blast
  finally show ?thesis .
qed

text \<open>A node that was taken out is in no list any more, and the nodes that are in one are no sentinels.\<close>

lemma removed_free:
  assumes "lists_ok h fm B" and "i < length fm" and "B i = ys @ x # zs"
  shows "x \<notin> taken fm (B(i := ys @ zs))"
proof
  assume "x \<in> taken fm (B(i := ys @ zs))"
  then obtain j where j: "j < length fm" "x \<in> cells (fm ! j) ((B(i := ys @ zs)) j)"
    by (auto simp: taken_def)
  obtain a z where l: "fm ! i = Some (a, z)" "distinct (a # z # ys @ x # zs)"
    using assms unfolding lists_ok_def by (cases "fm ! i") fastforce+
  show False
  proof (cases "j = i")
    case True
    then show ?thesis
      using j l by auto
  next
    case False
    then show ?thesis
      using other_cells [OF assms(1,2) j(1)] j(2) assms(3) l(1) by auto
  qed
qed

lemma listed_in:
  assumes "nodes_ok h es" and "((e :: entry), y) \<in> set es" and "length fm = nat HASH_SIZE"
  shows "nat (freq e) < length fm" and "y \<in> set (listed es (nat (freq e)))"
proof -
  have "1 \<le> freq e" "freq e < HASH_SIZE"
    using assms(1,2) by (auto simp: nodes_ok_def)
  then show "nat (freq e) < length fm" and "y \<in> set (listed es (nat (freq e)))"
    using assms(2,3) by (force simp: listed_def)+
qed

lemma not_sentinel:
  assumes "lists_ok h fm (listed es)" and "nodes_ok h es" and "length fm = nat HASH_SIZE" and "(e, y) \<in> set es"
    and "i < length fm" and "fm ! i = Some (a, z)"
  shows "y \<noteq> a \<and> y \<noteq> z"
proof -
  let ?j = "nat (freq e)"
  have j: "?j < length fm" "y \<in> set (listed es ?j)"
    using listed_in [OF assms(2,4,3)] .
  have b: "bucket_ok h (fm ! ?j) (listed es ?j)"
    using assms(1) j(1) by (simp add: lists_ok_def)
  with j(2) obtain a' z' where l: "fm ! ?j = Some (a', z')" "distinct (a' # z' # listed es ?j)"
    by (cases "fm ! ?j") auto
  show ?thesis
  proof (cases "?j = i")
    case True
    then show ?thesis
      using l assms(6) j(2) by auto
  next
    case False
    then show ?thesis
      using other_cells [OF assms(1) j(1) assms(5)] l(1) j(2) assms(6) by auto
  qed
qed

section \<open>Linking a node into the list of a frequency\<close>

lemma link_node:
  assumes "allocates fresh" and "heap_ok h obj es" and "x \<in> dom h" and "x \<notin> taken (lf_freq_map obj) (listed es)"
    and "1 \<le> f" and "f < HASH_SIZE"
  shows "\<exists>h1 fm l h2. get_list fresh h obj f = Some (h1, obj\<lparr>lf_freq_map := fm\<rparr>, l) \<and> addNodeToHead h1 l x = Some h2
    \<and> length fm = nat HASH_SIZE \<and> lists_ok h2 fm (listed (((k, v, f), x) # es)) \<and> finite (dom h2)
    \<and> (\<forall>y\<in>dom h. info h2 y = info h y \<and> y \<in> dom h2)"
proof -
  note ok = assms(2) [unfolded heap_ok_def]
  have f: "0 \<le> f" "nat f < nat HASH_SIZE"
    using assms(5,6) by auto
  obtain h1 fm l where g: "get_list fresh h obj f = Some (h1, obj\<lparr>lf_freq_map := fm\<rparr>, l)" "length fm = nat HASH_SIZE" "fm ! nat f = Some l"
      "lists_ok h1 fm (listed es)" "\<forall>x\<in>dom h. h1 x = h x" "finite (dom h1)" "x \<notin> taken fm (listed es)"
    using get_list_ok [OF assms(1), of h obj "listed es" f] ok f(1) assms(3,4,6) by blast
  have "x \<in> dom h1"
    using g(5) assms(3) by (metis domIff)
  then obtain h2 where h2: "addNodeToHead h1 l x = Some h2" "lists_ok h2 fm ((listed es)(nat f := x # listed es (nat f)))"
      "payload h2 = payload h1"
    using addNodeToHead_lists [OF g(4) _ g(3)] g(2,7) f(2) by metis
  have "dom h2 = dom h1"
    using h2(3) by (metis dom_links(3))
  moreover have "\<forall>y\<in>dom h. info h2 y = info h y"
    using info_payload [OF h2(3)] g(5) info_cong by metis
  moreover have "\<forall>y\<in>dom h. y \<in> dom h1"
    using g(5) by (metis domIff)
  ultimately show ?thesis
    using g(1,2,6) h2(1,2) listed_cons [OF f(1), of k v x es]
    by (intro exI [of _ h1] exI [of _ fm] exI [of _ l] exI [of _ h2]) simp
qed

section \<open>A higher frequency\<close>

lemma nodes_ok_cong:
  assumes "nodes_ok h es" and "\<And>e y. (e, y) \<in> set es \<Longrightarrow> info h' y = info h y"
  shows "nodes_ok h' es"
  using assms unfolding nodes_ok_def by fastforce

lemma nodes_ok_split:
  assumes "nodes_ok h (ys @ (e, x) # zs)"
  shows "nodes_ok h (ys @ zs)" and "info h x = Some e" and "x \<noteq> 0" and "1 \<le> freq e" and "freq e < HASH_SIZE"
    and "\<And>e' y. (e', y) \<in> set (ys @ zs) \<Longrightarrow> y \<noteq> x"
proof -
  have "x \<notin> snd ` set (ys @ zs)"
    using assms by (auto simp: nodes_ok_def)
  then show "\<And>e' y. (e', y) \<in> set (ys @ zs) \<Longrightarrow> y \<noteq> x"
    by (metis image_eqI snd_conv)
qed (use assms in \<open>auto simp: nodes_ok_def\<close>)

lemma nodes_ok_cons:
  assumes "nodes_ok h es" and "\<And>e' y. (e', y) \<in> set es \<Longrightarrow> y \<noteq> x" and "info h x = Some e" and "x \<noteq> 0"
    and "1 \<le> freq e" and "freq e < HASH_SIZE"
  shows "nodes_ok h ((e, x) # es)"
proof -
  have "x \<notin> set (map snd es)"
    using assms(2) by force
  then show ?thesis
    using assms(1,3-6) by (simp add: nodes_ok_def)
qed

lemma unlink:
  assumes "heap_ok h obj (ys @ ((k, v, f), x) # zs)"
  shows "\<exists>h1 a z. removeNode h x = Some h1 \<and> lf_freq_map obj ! nat f = Some (a, z) \<and> heap_ok h1 obj (ys @ zs) \<and> info h1 = info h
    \<and> dom h1 = dom h \<and> x \<in> dom h1 \<and> x \<notin> taken (lf_freq_map obj) (listed (ys @ zs)) \<and> x \<noteq> a \<and> x \<noteq> z"
proof -
  let ?fm = "lf_freq_map obj" and ?es = "ys @ ((k, v, f), x) # zs"
  note ok = assms [unfolded heap_ok_def]
  have L: "lists_ok h ?fm (listed ?es)"
    using ok by blast
  have f: "1 \<le> f" "f < HASH_SIZE" "nat f < length ?fm" "info h x = Some (k, v, f)"
    using ok nodes_ok_split [of h ys "(k, v, f)" x zs] by (auto simp: freq_def)
  have here: "listed ?es (nat f) = listed ys (nat f) @ x # listed zs (nat f)"
    and gone: "(listed ?es)(nat f := listed ys (nat f) @ listed zs (nat f)) = listed (ys @ zs)"
    using listed_split [of f ys k v x zs] f(1) by simp_all
  obtain h1 where h1: "removeNode h x = Some h1" "lists_ok h1 ?fm (listed (ys @ zs))" "payload h1 = payload h"
    using removeNode_lists [OF L f(3) here] unfolding gone by blast
  moreover obtain a z where l: "?fm ! nat f = Some (a, z)"
    using L f(3) here by (cases "?fm ! nat f") (auto simp: lists_ok_def)
  moreover have "info h1 = info h" "dom h1 = dom h"
    using info_payload [OF h1(3)] h1(3) by (simp, metis dom_links(3))
  moreover have "x \<notin> taken ?fm (listed (ys @ zs))"
    using removed_free [OF L f(3) here] unfolding gone by blast
  moreover have "nodes_ok h1 (ys @ zs)"
    using nodes_ok_cong [of h "ys @ zs" h1] nodes_ok_split(1) ok \<open>info h1 = info h\<close> by metis
  moreover have "x \<in> dom h"
    using f(4) by (auto simp: info_def)
  moreover have "x \<noteq> a" "x \<noteq> z"
    using not_sentinel [of h ?fm ?es "(k, v, f)" x "nat f" a z] ok f(3) l by auto
  ultimately show ?thesis
    using ok unfolding heap_ok_def by (intro exI [of _ h1] exI [of _ a] exI [of _ z]) simp
qed

lemma free_empty_list:
  assumes "heap_ok h obj es" and "lf_freq_map obj ! i = Some (a, z)" and "i < nat HASH_SIZE" and "listed es i = []"
    and "x \<notin> taken (lf_freq_map obj) (listed es)" and "obj' = obj\<lparr>lf_minFreq := m, lf_freq_map := (lf_freq_map obj)[i := None]\<rparr>"
  shows "heap_ok (h(a := None, z := None)) obj' es \<and> x \<notin> taken (lf_freq_map obj') (listed es)"
proof -
  let ?fm = "lf_freq_map obj" and ?h = "h(a := None, z := None)"
  note ok = assms(1) [unfolded heap_ok_def]
  have i: "i < length ?fm"
    using ok assms(3) by simp
  have "lists_ok ?h (?fm[i := None]) (listed es)"
    using free_list_lists(1) [of h ?fm "listed es" i a z] i assms(2,4) ok by blast
  moreover have "y \<noteq> a \<and> y \<noteq> z" if "(e, y) \<in> set es" for e y
    using not_sentinel [OF _ _ _ that i assms(2)] ok by blast
  then have "info ?h y = info h y" if "(e, y) \<in> set es" for e y
    using that by (simp add: info_def)
  then have "nodes_ok ?h es"
    using nodes_ok_cong [of h es ?h] ok by blast
  moreover have "x \<notin> taken (?fm[i := None]) (listed es)"
    using free_list_lists(2) [of h ?fm "listed es" i a z x] i assms(2,4,5) ok by blast
  ultimately show ?thesis
    using ok by (simp add: heap_ok_def assms(6))
qed

lemma increaseFreq_ok:
  assumes "allocates fresh" and "heap_ok h obj (ys @ ((k, v, f), x) # zs)" and "f + 1 < HASH_SIZE"
  shows "\<exists>h' obj'. increaseFreq fresh h obj x = Some (h', obj') \<and> heap_ok h' obj' (((k, v, f + 1), x) # ys @ zs)
    \<and> lf_key_map obj' = lf_key_map obj \<and> lf_size obj' = lf_size obj \<and> lf_capacity obj' = lf_capacity obj
    \<and> lf_minFreq obj' = (if listed (ys @ zs) (nat f) = [] \<and> lf_minFreq obj = f then f + 1 else lf_minFreq obj)"
proof -
  let ?fm = "lf_freq_map obj" and ?es = "ys @ zs"
  let ?L = "listed ?es (nat f)"
  obtain h1 a z where h1: "removeNode h x = Some h1" "?fm ! nat f = Some (a, z)" "heap_ok h1 obj ?es" "info h1 = info h"
      "x \<in> dom h1" "x \<notin> taken ?fm (listed ?es)" "x \<noteq> a" "x \<noteq> z"
    using unlink [OF assms(2)] by blast
  note old = nodes_ok_split [of h ys "(k, v, f)" x zs]
  have nodes: "nodes_ok h (ys @ ((k, v, f), x) # zs)"
    using assms(2) by (simp add: heap_ok_def)
  have f: "1 \<le> f" "0 \<le> f" "f < HASH_SIZE" "nat f < nat HASH_SIZE" "length ?fm = nat HASH_SIZE"
    using old(4,5) [OF nodes] assms(2) by (auto simp: freq_def heap_ok_def)
  have x: "info h x = Some (k, v, f)"
    using old(2) [OF nodes] .
  have others: "y \<noteq> x" if "(e, y) \<in> set ?es" for e y
    using old(6) [OF nodes that] .
  have "bucket_ok h1 (Some (a, z)) ?L"
    using h1(2,3) f(4,5) unfolding heap_ok_def lists_ok_def by metis
  then have first: "cnext h1 a = Some (hd (?L @ [z]))" "hd (?L @ [z]) = z \<longleftrightarrow> ?L = []"
    using seg_ends [of "cnext h1" "cprev h1" a ?L z] by (auto simp: hd_append)
  define h2 where "h2 = (if ?L = [] then h1(a := None, z := None) else h1)"
  define obj2 where "obj2 = (if ?L = [] then obj\<lparr>lf_minFreq := (if lf_minFreq obj = f then f + 1 else lf_minFreq obj),
    lf_freq_map := ?fm[nat f := None]\<rparr> else obj)"
  have h2: "heap_ok h2 obj2 ?es" "x \<notin> taken (lf_freq_map obj2) (listed ?es)"
    using free_empty_list [OF h1(3,2) f(4) _ h1(6)] h1(3,6) by (auto simp: h2_def obj2_def)
  have x2: "info h2 x = Some (k, v, f)" "x \<in> dom h2"
  proof -
    have "h2 x = h1 x"
      using h1(7,8) by (simp add: h2_def)
    then show "info h2 x = Some (k, v, f)" "x \<in> dom h2"
      using x h1(4,5) info_cong [of h2 x h1] by auto
  qed
  have f': "1 \<le> f + 1" "f + 1 < HASH_SIZE"
    using f(1) assms(3) by simp_all
  obtain h3 fm l h4 where h4: "get_list fresh h2 obj2 (f + 1) = Some (h3, obj2\<lparr>lf_freq_map := fm\<rparr>, l)"
      "addNodeToHead h3 l x = Some h4" "length fm = nat HASH_SIZE" "lists_ok h4 fm (listed (((k, v, f + 1), x) # ?es))"
      "finite (dom h4)" "\<forall>y\<in>dom h2. info h4 y = info h2 y \<and> y \<in> dom h4"
    using link_node [OF assms(1) h2(1) x2(2) h2(2) f', of k v] by blast
  obtain n where n: "h4 x = Some n" "cn_key n = k" "cn_val n = v"
    using h4(6) x2 by (force simp: info_def)
  let ?h5 = "h4(x \<mapsto> n\<lparr>ln_freq := f + 1\<rparr>)" and ?obj = "obj2\<lparr>lf_freq_map := fm\<rparr>"
  have chk: "chk32 (f + 1) = Some (f + 1)"
    using f(2) assms(3) by (simp add: chk32_def HASH_SIZE_def)
  obtain n0 where n0: "h x = Some n0" "ln_freq n0 = f"
    using x by (auto simp: info_def)
  have "increaseFreq fresh h obj x = Some (?h5, ?obj)"
    using n0 chk getHashIndex_in [OF f(2,3)] f h1(1,2) first h4(1,2) n(1)
    by (simp add: increaseFreq_def rd_in wr_in h2_def obj2_def Let_def split: if_splits)
  moreover have "heap_ok ?h5 ?obj (((k, v, f + 1), x) # ?es)"
  proof -
    have "lists_ok ?h5 fm (listed (((k, v, f + 1), x) # ?es))"
      using lists_same_links [OF h4(4) n(1)] by simp
    moreover have "info ?h5 y = info h2 y" if "(e, y) \<in> set ?es" for e y
    proof -
      have "info h2 y = Some e"
        using h2(1) that by (auto simp: heap_ok_def nodes_ok_def)
      then have "y \<in> dom h2"
        by (auto simp: info_def)
      then show ?thesis
        using h4(6) others [OF that] by (simp add: info_def)
    qed
    then have "nodes_ok ?h5 ?es"
      using h2(1) nodes_ok_cong [of h2 ?es ?h5] by (simp add: heap_ok_def)
    then have "nodes_ok ?h5 (((k, v, f + 1), x) # ?es)"
      using others old(3) [OF nodes] f' n by (intro nodes_ok_cons) (auto simp: info_def freq_def)
    ultimately show ?thesis
      using h4(3,5) by (simp add: heap_ok_def)
  qed
  ultimately show ?thesis
    by (intro exI [of _ ?h5] exI [of _ ?obj]) (simp add: obj2_def)
qed

section \<open>The state and the list it stands for\<close>

definition triple :: "entry \<times> nat \<Rightarrow> int \<times> int \<times> nat" where
  "triple = (\<lambda>((k, v, f), a). (k, v, a))"

abbreviation freqs :: "(entry \<times> nat) list \<Rightarrow> int set" where
  "freqs es \<equiv> set (map freq (map fst es))"

definition table_ok :: "lfu \<Rightarrow> (entry \<times> nat) list \<Rightarrow> bool" where
  "table_ok obj es \<longleftrightarrow> indexed (lf_key_map obj) (triple ` set es) \<and> length (lf_key_map obj) = nat HASH_SIZE"

text \<open>\<open>n\<close> more operations keep the frequencies inside the table.\<close>

definition lfu_ok :: "nat \<Rightarrow> lfu_heap \<times> lfu \<Rightarrow> (entry \<times> nat) list \<Rightarrow> bool" where
  "lfu_ok n s es \<longleftrightarrow> heap_ok (fst s) (snd s) es \<and> table_ok (snd s) es
     \<and> lf_size (snd s) = int (length es) \<and> lf_size (snd s) \<le> lf_capacity (snd s)
     \<and> (\<forall>f\<in>freqs es. f + int n < HASH_SIZE) \<and> int n + 1 < HASH_SIZE
     \<and> (es \<noteq> [] \<longrightarrow> lf_minFreq (snd s) = Min (freqs es))"

definition lfu_rep :: "int \<Rightarrow> nat \<Rightarrow> lfu_heap \<times> lfu \<Rightarrow> entry list \<Rightarrow> bool" where
  "lfu_rep c n s xs \<longleftrightarrow> lf_capacity (snd s) = c \<and> (\<exists>es. lfu_ok n s es \<and> xs = map fst es)"

lemma table_keys:
  assumes "heap_ok h obj es" and "table_ok obj es"
  shows "distinct (map fst (map fst es))" and "length es \<le> nat HASH_SIZE"
proof -
  have dist: "distinct (map snd es)" and node: "\<And>e a. (e, a) \<in> set es \<Longrightarrow> info h a = Some e"
    using assms(1) by (auto simp: heap_ok_def nodes_ok_def)
  have key: "0 \<le> fst e \<and> fst e < HASH_SIZE \<and> lf_key_map obj ! nat (fst e) = a" if "(e, a) \<in> set es" for e a
  proof -
    obtain k v f where e: "e = (k, v, f)"
      by (cases e)
    have "(k, v, a) \<in> triple ` set es"
      using that e by (force simp: triple_def)
    then have "0 \<le> k \<and> k < int (length (lf_key_map obj)) \<and> lf_key_map obj ! nat k = a"
      using indexedD assms(2) unfolding table_ok_def by blast
    then show ?thesis
      using assms(2) e by (simp add: table_ok_def HASH_SIZE_def)
  qed
  have "t = u" if "t \<in> set es" "u \<in> set es" "fst (fst t) = fst (fst u)" for t u
  proof -
    obtain e a e' a' where tu: "t = (e, a)" "u = (e', a')"
      by (cases t, cases u)
    then have "a = a'"
      using key [of e a] key [of e' a'] that by simp
    then show ?thesis
      using node [of e a] node [of e' a'] that tu by simp
  qed
  moreover have "distinct es"
    using dist by (simp add: distinct_map)
  ultimately show d: "distinct (map fst (map fst es))"
    by (simp add: distinct_map inj_on_def)
  have "set (map fst (map fst es)) \<subseteq> {0..<HASH_SIZE}"
    using key by auto
  then have "card (set (map fst (map fst es))) \<le> card {0..<HASH_SIZE}"
    by (rule card_mono [rotated]) simp
  then show "length es \<le> nat HASH_SIZE"
    using distinct_card [OF d] by simp
qed

lemma lookup:
  assumes "heap_ok h obj es" and "table_ok obj es" and "0 \<le> k" and "k < HASH_SIZE"
  shows "rd (lf_key_map obj) k = Some (lf_key_map obj ! nat k)"
    and "find_key h (lf_key_map obj) k k = Some (lf_key_map obj ! nat k)"
    and "lf_key_map obj ! nat k = 0 \<Longrightarrow> find_entry k (map fst es) = None"
    and "lf_key_map obj ! nat k \<noteq> 0 \<Longrightarrow> \<exists>ys v f zs. es = ys @ ((k, v, f), lf_key_map obj ! nat k) # zs"
proof -
  let ?p = "lf_key_map obj ! nat k" and ?T = "triple ` set es"
  have T: "\<forall>(k, v, a)\<in>?T. a \<noteq> 0"
    using assms(1) by (auto simp: heap_ok_def nodes_ok_def triple_def)
  have k: "k < int (length (lf_key_map obj))" "indexed (lf_key_map obj) ?T"
    using assms(2,4) by (auto simp: table_ok_def)
  note cell = indexed_key [OF k(2) T assms(3) k(1)]
  show rd: "rd (lf_key_map obj) k = Some ?p"
    by (rule cell(1))
  show "find_entry k (map fst es) = None" if "?p = 0"
    using cell(2) [OF that] unfolding find_entry_def by (force simp: map_of_eq_None_iff triple_def)
  show split: "\<exists>ys v f zs. es = ys @ ((k, v, f), ?p) # zs" if p: "?p \<noteq> 0"
  proof -
    obtain v where "(k, v, ?p) \<in> ?T"
      using cell(3) [OF p] by blast
    then obtain f where "((k, v, f), ?p) \<in> set es"
      by (force simp: triple_def)
    then show ?thesis
      using split_list by fast
  qed
  show "find_key h (lf_key_map obj) k k = Some ?p"
  proof (cases "?p = 0")
    case True
    then show ?thesis
      using rd by (simp add: find_key_def loop_stop)
  next
    case False
    then obtain ys v f zs where es: "es = ys @ ((k, v, f), ?p) # zs"
      using split by blast
    then have "info h ?p = Some (k, v, f)"
      using assms(1) nodes_ok_split(2) [of h ys "(k, v, f)" ?p zs] by (simp add: heap_ok_def)
    then show ?thesis
      using rd False by (auto simp: find_key_def info_def intro!: loop_stop)
  qed
qed

lemma spec_split:
  assumes "distinct (map fst (map fst (ys @ ((k, v, f), a) # zs)))"
  shows "find_entry k (map fst (ys @ ((k, v, f), a) # zs)) = Some (v, f)"
    and "touch k w f (map fst (ys @ ((k, v, f), a) # zs)) = (k, w, f + 1) # map fst (ys @ zs)"
proof -
  have "k \<notin> fst ` set (map fst (ys @ zs))"
    using assms by (simp add: image_Un image_image)
  then have other: "\<forall>e\<in>set (map fst (ys @ zs)). fst e \<noteq> k"
    by blast
  then have "map_of (map fst ys) k = None"
    by (auto simp: map_of_eq_None_iff)
  then show "find_entry k (map fst (ys @ ((k, v, f), a) # zs)) = Some (v, f)"
    by (simp add: find_entry_def map_add_Some_iff)
  have "filter (\<lambda>e. fst e \<noteq> k) (map fst ys) = map fst ys" "filter (\<lambda>e. fst e \<noteq> k) (map fst zs) = map fst zs"
    using other by (auto simp: filter_id_conv)
  then show "touch k w f (map fst (ys @ ((k, v, f), a) # zs)) = (k, w, f + 1) # map fst (ys @ zs)"
    by (simp add: touch_def)
qed

text \<open>The least frequency after one of them went up.\<close>

lemma min_step:
  fixes f :: int
  assumes "finite F"
  shows "(if f \<notin> F \<and> Min (insert f F) = f then f + 1 else Min (insert f F)) = Min (insert (f + 1) F)"
proof (cases "F = {}")
  case False
  have ins: "Min (insert a F) = min a (Min F)" for a
    using False assms by simp
  show ?thesis
  proof (cases "f \<in> F")
    case True
    then have "Min F \<le> f"
      using assms by simp
    then show ?thesis
      using True by (simp add: ins)
  next
    case out: False
    then have "Min F \<noteq> f"
      using Min_in [OF assms False] by metis
    then show ?thesis
      using out by (auto simp: ins min_def)
  qed
qed simp

section \<open>Lookups and stores under a key that is there\<close>

lemma lfu_touch:
  assumes "allocates fresh" and "lfu_ok (Suc n) (h, obj) (ys @ ((k, v, f), x) # zs)"
  shows "\<exists>h' obj'. increaseFreq fresh h obj x = Some (h', obj') \<and> lfu_ok n (h', obj') (((k, v, f + 1), x) # ys @ zs)
    \<and> lf_capacity obj' = lf_capacity obj \<and> (\<exists>m. h' x = Some m \<and> cn_val m = v)"
proof -
  let ?es = "ys @ ((k, v, f), x) # zs" and ?es' = "((k, v, f + 1), x) # ys @ zs"
  note ok = assms(2) [unfolded lfu_ok_def fst_conv snd_conv]
  have f: "f + 1 < HASH_SIZE" "\<forall>g\<in>freqs (ys @ zs). g + int n < HASH_SIZE" "f + 1 + int n < HASH_SIZE"
  proof -
    have "\<forall>g\<in>insert f (freqs (ys @ zs)). g + int (Suc n) < HASH_SIZE"
      using ok by (simp add: freq_def)
    then show "f + 1 < HASH_SIZE" "\<forall>g\<in>freqs (ys @ zs). g + int n < HASH_SIZE" "f + 1 + int n < HASH_SIZE"
      by force+
  qed
  obtain h' obj' where r: "increaseFreq fresh h obj x = Some (h', obj')" "heap_ok h' obj' ?es'"
      "lf_key_map obj' = lf_key_map obj" "lf_size obj' = lf_size obj" "lf_capacity obj' = lf_capacity obj"
      "lf_minFreq obj' = (if listed (ys @ zs) (nat f) = [] \<and> lf_minFreq obj = f then f + 1 else lf_minFreq obj)"
    using increaseFreq_ok [OF assms(1) _ f(1), of h obj ys k v x zs] ok by blast
  have "triple ` set ?es' = triple ` set ?es"
    by (auto simp: triple_def)
  then have "table_ok obj' ?es'"
    using ok r(3) by (simp add: table_ok_def)
  moreover have "lf_minFreq obj' = Min (freqs ?es')"
  proof -
    have "1 \<le> f"
      using ok nodes_ok_split(4) [of h ys "(k, v, f)" x zs] by (simp add: heap_ok_def freq_def)
    then have "listed (ys @ zs) (nat f) = [] \<longleftrightarrow> f \<notin> freqs (ys @ zs)"
      using listed_empty [of f "ys @ zs"] by (simp only: set_map)
    moreover have "lf_minFreq obj = Min (insert f (freqs (ys @ zs)))"
      using ok by (simp add: freq_def)
    ultimately have "lf_minFreq obj' = (if f \<notin> freqs (ys @ zs) \<and> Min (insert f (freqs (ys @ zs))) = f then f + 1
        else Min (insert f (freqs (ys @ zs))))"
      using r(6) by (simp only:)
    also have "\<dots> = Min (insert (f + 1) (freqs (ys @ zs)))"
      by (rule min_step) simp
    finally show ?thesis
      by (simp add: freq_def)
  qed
  ultimately have "lfu_ok n (h', obj') ?es'"
    using r(2,4,5) ok f(2,3) by (simp add: lfu_ok_def freq_def)
  moreover have "\<exists>m. h' x = Some m \<and> cn_val m = v"
    using r(2) by (auto simp: heap_ok_def nodes_ok_def info_def)
  ultimately show ?thesis
    using r(1,5) by blast
qed

lemma lfu_get_ok:
  assumes "lfu_rep c (Suc n) s xs" and "k \<in> {0..<HASH_SIZE}" and "allocates fresh"
  shows "\<exists>t. lFUCacheGet fresh s k = Some (fst (lfu_spec_get k xs), t) \<and> lfu_rep c n t (snd (lfu_spec_get k xs))"
proof -
  obtain h obj es where s: "s = (h, obj)" "lfu_ok (Suc n) (h, obj) es" "xs = map fst es" "lf_capacity obj = c"
    using assms(1) by (cases s) (auto simp: lfu_rep_def)
  note ok = s(2) [unfolded lfu_ok_def fst_conv snd_conv]
  have down: "lfu_ok n (h, obj) es"
    using ok unfolding lfu_ok_def by force
  have k: "0 \<le> k" "k < HASH_SIZE"
    using assms(2) by auto
  note look = lookup [of h obj es k, OF _ _ k]
  let ?p = "lf_key_map obj ! nat k"
  have miss: "lfu_spec_get k xs = (-1, xs)" if "?p = 0"
    using look(3) ok that s(3) by (simp add: lfu_spec_get_def)
  show ?thesis
  proof (cases "c = 0 \<or> ?p = 0")
    case True
    then have "es = [] \<or> ?p = 0"
      using ok s(4) by auto
    then have "lfu_spec_get k xs = (-1, xs)"
      using miss s(3) by (auto simp: lfu_spec_get_def find_entry_def)
    moreover have "lFUCacheGet fresh s k = Some (-1, s)"
      using True look(2) ok s(1,4) getHashIndex_in [OF k] by (auto simp: lFUCacheGet_def)
    ultimately show ?thesis
      using down s(1,3,4) unfolding lfu_rep_def by auto
  next
    case False
    then obtain ys v f zs where es: "es = ys @ ((k, v, f), ?p) # zs"
      using look(4) ok by blast
    obtain h' obj' where r: "increaseFreq fresh h obj ?p = Some (h', obj')" "lfu_ok n (h', obj') (((k, v, f + 1), ?p) # ys @ zs)"
        "lf_capacity obj' = c" "\<exists>m. h' ?p = Some m \<and> cn_val m = v"
      using lfu_touch [OF assms(3), of n h obj ys k v f ?p zs] s(2,4) unfolding es by blast
    have "distinct (map fst (map fst es))"
      using table_keys(1) ok by blast
    from spec_split(1) [OF this [unfolded es]] spec_split(2) [OF this [unfolded es], of v] have sp: "lfu_spec_get k xs = (v, map fst (((k, v, f + 1), ?p) # ys @ zs))"
      unfolding s(3) es lfu_spec_get_def by simp
    have "lFUCacheGet fresh s k = Some (v, h', obj')"
      using False look(2) ok s(1,4) getHashIndex_in [OF k] r(1,4) by (auto simp: lFUCacheGet_def)
    moreover have "lfu_rep c n (h', obj') (snd (lfu_spec_get k xs))"
      using r(2,3) unfolding lfu_rep_def sp snd_conv by blast
    ultimately show ?thesis
      unfolding sp by auto
  qed
qed

text \<open>A new value in a node.\<close>

lemma set_val_ok:
  assumes "lfu_ok n (h, obj) (ys @ ((k, v, f), x) # zs)"
  shows "\<exists>m. h x = Some m \<and> lfu_ok n (h(x \<mapsto> m\<lparr>cn_val := w\<rparr>), obj) (ys @ ((k, w, f), x) # zs)"
proof -
  let ?es = "ys @ ((k, v, f), x) # zs" and ?es' = "ys @ ((k, w, f), x) # zs"
  note ok = assms(1) [unfolded lfu_ok_def fst_conv snd_conv heap_ok_def]
  have nodes: "nodes_ok h ?es"
    using ok by blast
  obtain m where m: "h x = Some m" "cn_key m = k" "ln_freq m = f"
    using nodes_ok_split(2) [OF nodes] by (auto simp: info_def)
  let ?h = "h(x \<mapsto> m\<lparr>cn_val := w\<rparr>)"
  have "listed ?es' = listed ?es"
    by (auto simp: listed_def freq_def fun_eq_iff)
  then have "lists_ok ?h (lf_freq_map obj) (listed ?es')"
    using lists_same_links [of h "lf_freq_map obj" "listed ?es" x m "m\<lparr>cn_val := w\<rparr>"] ok m(1) by simp
  moreover have "nodes_ok ?h ?es'"
  proof -
    have "info ?h y = info h y" if "(e, y) \<in> set (ys @ zs)" for e y
      using nodes_ok_split(6) [OF nodes that] by (simp add: info_def)
    then have "nodes_ok ?h (ys @ zs)"
      using nodes_ok_split(1) [OF nodes] nodes_ok_cong by blast
    then have "nodes_ok ?h (((k, w, f), x) # ys @ zs)"
      using nodes_ok_split(3-6) [OF nodes] m by (intro nodes_ok_cons) (auto simp: info_def freq_def)
    then show ?thesis
      by (auto simp: nodes_ok_def)
  qed
  moreover have "table_ok obj ?es'"
    using ok indexed_set_val [of "lf_key_map obj" k v x "triple ` set (ys @ zs)" w] by (simp add: table_ok_def triple_def)
  moreover have "freqs ?es' = freqs ?es"
    by (simp add: freq_def)
  ultimately have "lfu_ok n (?h, obj) ?es'"
    using ok by (simp add: lfu_ok_def heap_ok_def)
  with m(1) show ?thesis
    by blast
qed

section \<open>Making room\<close>

lemma drop_last_split: "P x \<Longrightarrow> \<forall>z\<in>set zs. \<not> P z \<Longrightarrow> drop_last P (ys @ x # zs) = ys @ zs"
  by (induction ys) auto

lemma evict_ok:
  assumes "lfu_ok n (h, obj) es" and "es \<noteq> []"
  shows "\<exists>h' obj' es'. evict h obj = Some (h', obj') \<and> heap_ok h' obj' es' \<and> table_ok obj' es' \<and> lf_size obj' = int (length es')
    \<and> length es' < length es \<and> set es' \<subseteq> set es \<and> map fst es' = drop_last (\<lambda>e. freq e = Min (freqs es)) (map fst es)
    \<and> lf_capacity obj' = lf_capacity obj \<and> lf_freq_map obj' = lf_freq_map obj"
proof -
  note ok = assms(1) [unfolded lfu_ok_def fst_conv snd_conv]
  let ?m = "Min (freqs es)" and ?fm = "lf_freq_map obj"
  have "?m \<in> freqs es"
    using assms(2) by (intro Min_in) simp_all
  then have "\<exists>t\<in>set es. freq (fst t) = ?m"
    by (force simp del: Min_in)
  from split_list_last_prop [OF this] obtain ys t zs where "es = ys @ t # zs" "freq (fst t) = ?m" "\<forall>z\<in>set zs. freq (fst z) \<noteq> ?m"
    by blast
  then obtain k v x where es: "es = ys @ ((k, v, ?m), x) # zs" and after: "\<forall>z\<in>set zs. freq (fst z) \<noteq> ?m"
    by (cases t) (auto simp: freq_def)
  define m where "m = ?m"
  note es = es [folded m_def] and after = after [folded m_def]
  have nodes: "nodes_ok h (ys @ ((k, v, m), x) # zs)"
    using ok es by (simp add: heap_ok_def)
  note old = nodes_ok_split [OF nodes]
  have m: "0 \<le> m" "m < HASH_SIZE" "nat m < length ?fm" "m < int (length ?fm)"
    using old(4,5) ok by (auto simp: freq_def heap_ok_def)
  obtain h1 a z where h1: "removeNode h x = Some h1" "?fm ! nat m = Some (a, z)" "heap_ok h1 obj (ys @ zs)" "info h1 = info h"
      "x \<notin> taken ?fm (listed (ys @ zs))"
    using unlink [of h obj ys k v m x zs] ok unfolding es by blast
  have "listed zs (nat m) = []"
    using listed_empty [OF m(1), of zs] after by blast
  then have "listed es (nat m) = listed ys (nat m) @ [x]"
    using listed_split(1) [OF m(1), of ys k v x zs] es by simp
  moreover have "bucket_ok h (Some (a, z)) (listed es (nat m))"
    using ok h1(2) m(3) unfolding heap_ok_def lists_ok_def by metis
  ultimately have tail: "cprev h z = Some x"
    using seg_ends [of "cnext h" "cprev h" a "listed ys (nat m) @ [x]" z] by simp
  obtain nd where nd: "h1 x = Some nd" "cn_key nd = k"
    using h1(4) old(2) by (auto simp: info_def fun_eq_iff) (metis (mono_tags, lifting) map_option_eq_Some prod.inject)
  have T: "triple ` set es = insert (k, v, x) (triple ` set (ys @ zs))"
    by (simp add: es triple_def)
  have km: "length (lf_key_map obj) = nat HASH_SIZE" "indexed (lf_key_map obj) (insert (k, v, x) (triple ` set (ys @ zs)))"
    using ok T by (simp_all add: table_ok_def)
  have k: "0 \<le> k" "k < HASH_SIZE" "lf_key_map obj ! nat k = x"
    using indexedD [OF km(2), of k v x] km(1) by (auto simp: HASH_SIZE_def)
  have cell: "find_cell h1 (lf_key_map obj) k k = Some k"
    using k km(1) nd by (auto simp: find_cell_def rd_in intro!: loop_stop)
  let ?km = "(lf_key_map obj)[nat k := 0]"
  let ?obj = "obj\<lparr>lf_key_map := ?km, lf_size := lf_size obj - 1\<rparr>" and ?h = "h1(x := None)"
  have "evict h obj = Some (?h, ?obj)"
    using m h1(1,2) tail nd cell k(1,2) km(1) ok assms(2) getHashIndex_in [OF m(1,2)] getHashIndex_in [OF k(1,2)]
    by (simp add: evict_def rd_in wr_in m_def)
  moreover have "heap_ok ?h ?obj (ys @ zs)"
  proof -
    have "lists_ok ?h ?fm (listed (ys @ zs))"
      using lists_other_node [OF _ h1(5)] h1(3) by (simp add: heap_ok_def)
    moreover have "info ?h y = info h1 y" if "(e, y) \<in> set (ys @ zs)" for e y
      using old(6) [OF that] by (simp add: info_def)
    then have "nodes_ok ?h (ys @ zs)"
      using h1(3) nodes_ok_cong [of h1 "ys @ zs" ?h] by (simp add: heap_ok_def)
    ultimately show ?thesis
      using h1(3) by (simp add: heap_ok_def)
  qed
  moreover have "table_ok ?obj (ys @ zs)"
  proof -
    have "distinct (map fst (map fst es))"
      using table_keys(1) ok by blast
    then have "k \<notin> fst ` fst ` set (ys @ zs)"
      by (simp add: es image_Un image_image)
    then have "\<forall>(j, w, a)\<in>triple ` set (ys @ zs). j \<noteq> k"
      by (force simp: triple_def)
    then show ?thesis
      using indexed_remove [OF km(2)] km(1) by (simp add: table_ok_def)
  qed
  moreover have "map fst (ys @ zs) = drop_last (\<lambda>e. freq e = ?m) (map fst es)"
  proof -
    have "freq (k, v, m) = m" "\<forall>z\<in>set (map fst zs). freq z \<noteq> m"
      using after by (simp_all add: freq_def)
    from drop_last_split [of "\<lambda>e. freq e = m", OF this, of "map fst ys"] show ?thesis
      unfolding m_def [symmetric] by (simp add: es)
  qed
  moreover have "set (ys @ zs) \<subseteq> set es" "length (ys @ zs) < length es" "lf_size obj - 1 = int (length (ys @ zs))"
    using ok by (auto simp: es)
  ultimately show ?thesis
    by (intro exI [of _ ?h] exI [of _ ?obj] exI [of _ "ys @ zs"]) simp
qed

section \<open>Stores\<close>

lemma lfu_put_new:
  assumes "allocates fresh" and "lfu_ok (Suc n) (h, obj) es" and "0 \<le> k" and "k < HASH_SIZE" and "find_entry k (map fst es) = None"
    and "lf_key_map obj ! nat k = 0" and "lf_capacity obj \<noteq> 0"
  shows "\<exists>h' obj' es'. lFUCachePut fresh (h, obj) k v = Some (h', obj') \<and> lfu_ok n (h', obj') es' \<and> lf_capacity obj' = lf_capacity obj
    \<and> map fst es' = (k, v, 1) # make_room (lf_capacity obj) (map fst es)"
proof -
  note ok = assms(2) [unfolded lfu_ok_def fst_conv snd_conv]
  have absent: "\<forall>(e, a)\<in>set es. fst e \<noteq> k"
    using assms(5) by (force simp: find_entry_def map_of_eq_None_iff)
  obtain h1 obj1 es1 where r: "(if lf_capacity obj \<le> lf_size obj then evict h obj else Some (h, obj)) = Some (h1, obj1)"
      "heap_ok h1 obj1 es1" "table_ok obj1 es1" "lf_size obj1 = int (length es1)" "int (length es1) < lf_capacity obj"
      "set es1 \<subseteq> set es" "map fst es1 = make_room (lf_capacity obj) (map fst es)" "lf_capacity obj1 = lf_capacity obj"
  proof (cases "lf_capacity obj \<le> lf_size obj")
    case True
    then have "es \<noteq> []" "lf_size obj = int (length es)"
      using ok assms(7) by auto
    with evict_ok [OF assms(2)] True that show ?thesis
      using ok by (auto simp: make_room_def)
  next
    case False
    then show ?thesis
      using ok by (intro that [of h obj es]) (simp_all add: make_room_def)
  qed
  define x where "x = fresh h1"
  let ?n = "\<lparr>cn_key = k, cn_val = v, cn_prev = 0, cn_next = 0, ln_freq = 1\<rparr> :: lfu_node"
  let ?h2 = "h1(x \<mapsto> ?n)" and ?km = "(lf_key_map obj1)[nat k := x]"
  let ?obj2 = "obj1\<lparr>lf_key_map := ?km\<rparr>"
  have new: "x \<noteq> 0" "x \<notin> dom h1"
    using assms(1) r(2) by (auto simp: allocates_def heap_ok_def x_def)
  have out: "x \<notin> taken (lf_freq_map obj1) (listed es1)"
    using taken_dom [of h1 "lf_freq_map obj1" "listed es1"] r(2) new(2) unfolding heap_ok_def by blast
  have nodes1: "y \<noteq> x" if "(e, y) \<in> set es1" for e y
    using that r(2) new(2) by (auto simp: heap_ok_def nodes_ok_def info_def)
  have heap2: "heap_ok ?h2 ?obj2 es1"
  proof -
    have "lists_ok ?h2 (lf_freq_map obj1) (listed es1)"
      using lists_other_node [OF _ out] r(2) by (simp add: heap_ok_def)
    moreover have "nodes_ok ?h2 es1"
      using nodes_ok_cong [of h1 es1 ?h2] nodes1 r(2) by (simp add: heap_ok_def info_def)
    ultimately show ?thesis
      using r(2) by (simp add: heap_ok_def)
  qed
  have keys: "\<forall>(j, w, a)\<in>triple ` set es1. j \<noteq> k"
    using absent r(6) by (force simp: triple_def)
  have km1: "length (lf_key_map obj1) = nat HASH_SIZE" "indexed (lf_key_map obj1) (triple ` set es1)" "k < int (length (lf_key_map obj1))"
    using r(3) assms(4) by (auto simp: table_ok_def)
  have "lf_key_map obj1 ! nat k = 0"
  proof (rule ccontr)
    assume p: "lf_key_map obj1 ! nat k \<noteq> 0"
    have "\<forall>(j, w, a)\<in>triple ` set es1. a \<noteq> 0"
      using r(2) by (auto simp: heap_ok_def nodes_ok_def triple_def)
    from indexed_key(3) [OF km1(2) this assms(3) km1(3) p] show False
      using keys by blast
  qed
  then have free: "find_free (lf_key_map obj1) k = Some k"
    using km1(1) assms(3,4) by (auto simp: find_free_def rd_in intro!: loop_stop)
  have one: "1 \<le> (1 :: int)" "(1 :: int) < HASH_SIZE"
    by (simp_all add: HASH_SIZE_def)
  have in2: "x \<in> dom ?h2" and out2: "x \<notin> taken (lf_freq_map ?obj2) (listed es1)"
    using out by simp_all
  obtain h3 fm l h4 where l: "get_list fresh ?h2 ?obj2 1 = Some (h3, ?obj2\<lparr>lf_freq_map := fm\<rparr>, l)" "addNodeToHead h3 l x = Some h4"
      "length fm = nat HASH_SIZE" "lists_ok h4 fm (listed (((k, v, 1), x) # es1))" "finite (dom h4)"
      "\<forall>y\<in>dom ?h2. info h4 y = info ?h2 y \<and> y \<in> dom h4"
    using link_node [OF assms(1) heap2 in2 out2 one, of k v] by blast
  let ?es = "((k, v, 1), x) # es1"
  let ?obj = "?obj2\<lparr>lf_freq_map := fm, lf_minFreq := 1, lf_size := lf_size obj1 + 1\<rparr>"
  have nodes4: "nodes_ok h4 ?es"
  proof (rule nodes_ok_cons)
    have "info h4 y = info ?h2 y" if "(e, y) \<in> set es1" for e y
    proof -
      have "info ?h2 y = Some e"
        using heap2 that by (auto simp: heap_ok_def nodes_ok_def)
      then have "y \<in> dom ?h2"
        by (rule info_dom)
      with l(6) show ?thesis
        by blast
    qed
    then show "nodes_ok h4 es1"
      using heap2 nodes_ok_cong [of ?h2 es1 h4] unfolding heap_ok_def by blast
    show "info h4 x = Some (k, v, 1)"
      using l(6) by (simp add: info_def)
  qed (use nodes1 new(1) one in \<open>auto simp: freq_def\<close>)
  have table: "table_ok ?obj ?es"
    using indexed_insert [OF km1(2) assms(3) km1(3) keys, of x v] km1(1) by (simp add: table_ok_def triple_def)
  have heap: "heap_ok h4 ?obj ?es"
    using l(3-5) nodes4 by (simp add: heap_ok_def)
  have "int (length es1) \<le> HASH_SIZE"
    using table_keys(2) [OF r(2,3)] by (simp add: HASH_SIZE_def)
  then have chk: "chk32 (lf_size obj1 + 1) = Some (lf_size obj1 + 1)"
    using r(4) by (simp add: chk32_def HASH_SIZE_def)
  have "lFUCachePut fresh (h, obj) k v = Some (h4, ?obj)"
    using lookup(2) [of h obj es k] ok assms(3,4,6,7) getHashIndex_in [OF assms(3,4)] r(1) free km1(1) l(1,2) chk
    by (simp add: lFUCachePut_def createNode_def Let_def wr_in x_def [symmetric])
  moreover have "lfu_ok n (h4, ?obj) ?es"
  proof -
    have fs: "freqs es1 \<subseteq> freqs es"
      using r(6) by auto
    have "\<forall>f\<in>freqs es. f + int n < HASH_SIZE"
      using ok by force
    then have "\<forall>f\<in>freqs es1. f + int n < HASH_SIZE"
      using fs by blast
    then have "\<forall>f\<in>insert 1 (freqs es1). f + int n < HASH_SIZE"
      using ok by simp
    moreover have "\<forall>f\<in>freqs es1. 1 \<le> f"
      using r(2) by (auto simp: heap_ok_def nodes_ok_def)
    then have "1 = Min (insert 1 (freqs es1))"
      by (intro Min_eqI [symmetric]) auto
    ultimately show ?thesis
      using heap table r(4,5,8) ok by (simp add: lfu_ok_def freq_def)
  qed
  ultimately show ?thesis
    using r(7,8) by (intro exI [of _ h4] exI [of _ ?obj] exI [of _ ?es]) simp
qed

lemma lfu_put_ok:
  assumes "lfu_rep c (Suc n) s xs" and "k \<in> {0..<HASH_SIZE}" and "allocates fresh"
  shows "\<exists>t. lFUCachePut fresh s k v = Some t \<and> lfu_rep c n t (lfu_spec_put c k v xs)"
proof -
  obtain h obj es where s: "s = (h, obj)" "lfu_ok (Suc n) (h, obj) es" "xs = map fst es" "lf_capacity obj = c"
    using assms(1) by (cases s) (auto simp: lfu_rep_def)
  note ok = s(2) [unfolded lfu_ok_def fst_conv snd_conv]
  have k: "0 \<le> k" "k < HASH_SIZE"
    using assms(2) by auto
  note look = lookup [of h obj es k, OF _ _ k]
  let ?p = "lf_key_map obj ! nat k"
  show ?thesis
  proof (cases "c = 0")
    case True
    have "lfu_ok n (h, obj) es"
      using ok unfolding lfu_ok_def by force
    with True s show ?thesis
      unfolding lfu_rep_def lfu_spec_put_def lFUCachePut_def by auto
  next
    case c: False
    show ?thesis
    proof (cases "?p = 0")
      case True
      have none: "find_entry k (map fst es) = None"
        using look(3) ok True by blast
      obtain h' obj' es' where r: "lFUCachePut fresh (h, obj) k v = Some (h', obj')" "lfu_ok n (h', obj') es'" "lf_capacity obj' = c"
          "map fst es' = (k, v, 1) # make_room c (map fst es)"
        using lfu_put_new [OF assms(3) s(2) k none True, unfolded s(4), OF c, of v] by (elim exE conjE) (rule that)
      then have "lfu_spec_put c k v xs = map fst es'"
        using none c s(3) by (simp add: lfu_spec_put_def)
      with r(1-3) s(1) show ?thesis
        unfolding lfu_rep_def by (metis snd_conv)
    next
      case False
      then obtain ys w f zs where es: "es = ys @ ((k, w, f), ?p) # zs"
        using look(4) ok by blast
      obtain m where m: "h ?p = Some m" "lfu_ok (Suc n) (h(?p \<mapsto> m\<lparr>cn_val := v\<rparr>), obj) (ys @ ((k, v, f), ?p) # zs)"
        using set_val_ok [of "Suc n" h obj ys k w f ?p zs v] s(2) unfolding es by blast
      obtain h' obj' where r: "increaseFreq fresh (h(?p \<mapsto> m\<lparr>cn_val := v\<rparr>)) obj ?p = Some (h', obj')"
          "lfu_ok n (h', obj') (((k, v, f + 1), ?p) # ys @ zs)" "lf_capacity obj' = c"
        using lfu_touch [OF assms(3) m(2)] s(4) by blast
      have "distinct (map fst (map fst es))"
        using table_keys(1) ok by blast
      from spec_split(1) [OF this [unfolded es]] spec_split(2) [OF this [unfolded es], of v]
      have sp: "lfu_spec_put c k v xs = map fst (((k, v, f + 1), ?p) # ys @ zs)"
        unfolding s(3) es lfu_spec_put_def using c by simp
      have "lFUCachePut fresh s k v = Some (h', obj')"
        using False look(2) ok c s(1,4) getHashIndex_in [OF k] r(1) m(1) by (simp add: lFUCachePut_def)
      moreover have "lfu_rep c n (h', obj') (lfu_spec_put c k v xs)"
        using r(2,3) unfolding lfu_rep_def sp snd_conv by blast
      ultimately show ?thesis
        by blast
    qed
  qed
qed

section \<open>A least frequently used cache\<close>

lemma lfu_create_ok:
  assumes "finite (dom h)" and "0 \<le> c" and "int n + 1 < HASH_SIZE"
  shows "lfu_rep c n (h, lFUCacheCreate c) []"
proof -
  have "lists_ok h (replicate (nat HASH_SIZE) None) (listed [])"
    by (simp add: lists_ok_def listed_def)
  then have "lfu_ok n (h, lFUCacheCreate c) []"
    using assms by (simp add: lfu_ok_def heap_ok_def nodes_ok_def table_ok_def indexed_def lFUCacheCreate_def)
  then show ?thesis
    unfolding lfu_rep_def by (fastforce simp: lFUCacheCreate_def)
qed

interpretation lfu: cache "\<lambda>n s a. allocates fresh \<and> lfu_rep c n s a" "{0..<HASH_SIZE}" "lFUCacheGet fresh" "lFUCachePut fresh"
    lfu_spec_get "lfu_spec_put c"
  for c fresh
proof
  fix n s a and k :: int
  assume "allocates fresh \<and> lfu_rep c (Suc n) s a" and "k \<in> {0..<HASH_SIZE}"
  then show "\<exists>t. lFUCacheGet fresh s k = Some (fst (lfu_spec_get k a), t) \<and> allocates fresh \<and> lfu_rep c n t (snd (lfu_spec_get k a))"
    using lfu_get_ok by blast
next
  fix n s a and k v :: int
  assume "allocates fresh \<and> lfu_rep c (Suc n) s a" and "k \<in> {0..<HASH_SIZE}"
  then show "\<exists>t. lFUCachePut fresh s k v = Some t \<and> allocates fresh \<and> lfu_rep c n t (lfu_spec_put c k v a)"
    using lfu_put_ok by blast
qed

text \<open>
  C20: the program is a least frequently used cache. For every capacity that is not negative and every
  sequence of fewer than 20000 calls of \<open>lFUCacheGet\<close> and \<open>lFUCachePut\<close> with keys from 0 to 20000, which
  share no cell of the tables, the run follows no bad pointer and answers every call like the list of
  triples in which an access raises the frequency of an entry and, when there is no room, the least
  recently used one among those of the least frequency leaves.
\<close>

theorem lfu_cache_correct:
  assumes "allocates fresh" and "finite (dom h)" and "op_key ` set ops \<subseteq> {0..20000}" and "length ops < 20000" and "0 \<le> c"
  shows "\<exists>t. cache_run (lFUCacheGet fresh) (lFUCachePut fresh) ops (h, lFUCacheCreate c)
      = Some (fst (cache_spec lfu_spec_get (lfu_spec_put c) ops []), t)
    \<and> lf_size (snd t) = int (length (snd (cache_spec lfu_spec_get (lfu_spec_put c) ops []))) \<and> lf_size (snd t) \<le> c"
proof -
  have "lfu_rep c (length ops + 0) (h, lFUCacheCreate c) []"
    using assms(4) by (intro lfu_create_ok [OF assms(2,5)]) (simp add: HASH_SIZE_def)
  moreover have "op_key ` set ops \<subseteq> {0..<HASH_SIZE}"
    using assms(3) by (auto simp: HASH_SIZE_def)
  ultimately obtain t where t: "cache_run (lFUCacheGet fresh) (lFUCachePut fresh) ops (h, lFUCacheCreate c)
      = Some (fst (cache_spec lfu_spec_get (lfu_spec_put c) ops []), t)"
      "lfu_rep c 0 t (snd (cache_spec lfu_spec_get (lfu_spec_put c) ops []))"
    using lfu.run_refines [of fresh c ops 0 "(h, lFUCacheCreate c)" "[]"] assms(1) by auto
  from t(2) have "lf_size (snd t) = int (length (snd (cache_spec lfu_spec_get (lfu_spec_put c) ops [])))" "lf_size (snd t) \<le> c"
    by (auto simp: lfu_rep_def lfu_ok_def)
  with t(1) show ?thesis
    by blast
qed

theorem lfu_cache_correct_witness:
  "\<exists>t. cache_run (lFUCacheGet first_free) (lFUCachePut first_free)
      [Store 1 10, Store 2 20, Fetch 1, Store 3 30, Fetch 2, Fetch 3, Store 4 40, Fetch 1, Fetch 3, Fetch 4] (\<lambda>_. None, lFUCacheCreate 2)
    = Some ([10, -1, 30, -1, 30, 40], t)"
proof -
  let ?ops = "[Store 1 10, Store 2 20, Fetch 1, Store 3 30, Fetch 2, Fetch 3, Store 4 40, Fetch 1, Fetch 3, Fetch 4]"
  have "fst (cache_spec lfu_spec_get (lfu_spec_put 2) ?ops []) = [10, -1, 30, -1, 30, 40]"
    by (simp add: lfu_spec_get_def lfu_spec_put_def find_entry_def touch_def make_room_def freq_def)
  then show ?thesis
    using lfu_cache_correct [OF allocates_first_free, of "\<lambda>_. None" ?ops 2] by auto
qed

end
