(* ===== verification/RbTree.thy ===== *)
theory RbTree
  imports Loops
begin

text \<open>
  The red-black trees of C/05_rbtree (rbtree.c, rbtree.h, rbtree_augmented.h, rbtree_ka.h): nodes in memory
  with a word that packs the parent's address and the colour, and the operations that link, insert,
  erase, replace and walk. Addresses are 64-bit words; the memory and the root are one state, which
  a client extends with the structures the nodes are embedded in.
\<close>

section \<open>Nodes\<close>

record rb_node =
  rb_parent_color :: u64
  rb_right :: u64
  rb_left :: u64

record rb_tree =
  rb_mem :: "u64 \<Rightarrow> rb_node option"
  rb_root :: u64

definition RB_RED :: u64 where "RB_RED = 0"

definition RB_BLACK :: u64 where "RB_BLACK = 1"

definition pc_parent :: "u64 \<Rightarrow> u64" where
  "pc_parent pc = pc AND NOT 3"

definition pc_color :: "u64 \<Rightarrow> u64" where
  "pc_color pc = pc AND 1"

definition pc_is_black :: "u64 \<Rightarrow> bool" where
  "pc_is_black pc \<longleftrightarrow> pc_color pc \<noteq> 0"

definition pc_is_red :: "u64 \<Rightarrow> bool" where
  "pc_is_red pc \<longleftrightarrow> pc_color pc = 0"

definition parent_color :: "'z rb_tree_scheme \<Rightarrow> u64 \<Rightarrow> u64 option" where
  "parent_color s a = do { n \<leftarrow> rb_mem s a; Some (rb_parent_color n) }"

definition left :: "'z rb_tree_scheme \<Rightarrow> u64 \<Rightarrow> u64 option" where
  "left s a = do { n \<leftarrow> rb_mem s a; Some (rb_left n) }"

definition right :: "'z rb_tree_scheme \<Rightarrow> u64 \<Rightarrow> u64 option" where
  "right s a = do { n \<leftarrow> rb_mem s a; Some (rb_right n) }"

definition set_parent_color :: "'z rb_tree_scheme \<Rightarrow> u64 \<Rightarrow> u64 \<Rightarrow> 'z rb_tree_scheme option" where
  "set_parent_color s a v = do { n \<leftarrow> rb_mem s a; Some (s\<lparr>rb_mem := (rb_mem s)(a \<mapsto> n\<lparr>rb_parent_color := v\<rparr>)\<rparr>) }"

definition set_left :: "'z rb_tree_scheme \<Rightarrow> u64 \<Rightarrow> u64 \<Rightarrow> 'z rb_tree_scheme option" where
  "set_left s a v = do { n \<leftarrow> rb_mem s a; Some (s\<lparr>rb_mem := (rb_mem s)(a \<mapsto> n\<lparr>rb_left := v\<rparr>)\<rparr>) }"

definition set_right :: "'z rb_tree_scheme \<Rightarrow> u64 \<Rightarrow> u64 \<Rightarrow> 'z rb_tree_scheme option" where
  "set_right s a v = do { n \<leftarrow> rb_mem s a; Some (s\<lparr>rb_mem := (rb_mem s)(a \<mapsto> n\<lparr>rb_right := v\<rparr>)\<rparr>) }"

definition rb_parent :: "'z rb_tree_scheme \<Rightarrow> u64 \<Rightarrow> u64 option" where
  "rb_parent s a = do { pc \<leftarrow> parent_color s a; Some (pc_parent pc) }"

definition rb_red_parent :: "'z rb_tree_scheme \<Rightarrow> u64 \<Rightarrow> u64 option" where
  "rb_red_parent s red = parent_color s red"

definition rb_is_red :: "'z rb_tree_scheme \<Rightarrow> u64 \<Rightarrow> bool option" where
  "rb_is_red s a = do { pc \<leftarrow> parent_color s a; Some (pc_is_red pc) }"

definition rb_is_black :: "'z rb_tree_scheme \<Rightarrow> u64 \<Rightarrow> bool option" where
  "rb_is_black s a = do { pc \<leftarrow> parent_color s a; Some (pc_is_black pc) }"

text \<open>\<open>tmp && rb_is_red(tmp)\<close> and \<open>!tmp || rb_is_black(tmp)\<close>.\<close>

definition is_red_node :: "'z rb_tree_scheme \<Rightarrow> u64 \<Rightarrow> bool option" where
  "is_red_node s a = (if a \<noteq> 0 then rb_is_red s a else Some False)"

definition is_black_or_null :: "'z rb_tree_scheme \<Rightarrow> u64 \<Rightarrow> bool option" where
  "is_black_or_null s a = (if a = 0 then Some True else rb_is_black s a)"

definition rb_set_black :: "'z rb_tree_scheme \<Rightarrow> u64 \<Rightarrow> 'z rb_tree_scheme option" where
  "rb_set_black s rb = do { pc \<leftarrow> parent_color s rb; set_parent_color s rb (pc OR RB_BLACK) }"

definition rb_set_parent :: "'z rb_tree_scheme \<Rightarrow> u64 \<Rightarrow> u64 \<Rightarrow> 'z rb_tree_scheme option" where
  "rb_set_parent s rb p = do { pc \<leftarrow> parent_color s rb; set_parent_color s rb (pc_color pc OR p) }"

definition rb_set_parent_color :: "'z rb_tree_scheme \<Rightarrow> u64 \<Rightarrow> u64 \<Rightarrow> u64 \<Rightarrow> 'z rb_tree_scheme option" where
  "rb_set_parent_color s rb p color = set_parent_color s rb (p OR color)"

text \<open>\<open>if (tmp) rb_set_parent_color(tmp, p, color)\<close>, and the same for \<open>rb_set_parent\<close>.\<close>

definition set_parent_color_if :: "'z rb_tree_scheme \<Rightarrow> u64 \<Rightarrow> u64 \<Rightarrow> u64 \<Rightarrow> 'z rb_tree_scheme option" where
  "set_parent_color_if s tmp p color = (if tmp \<noteq> 0 then rb_set_parent_color s tmp p color else Some s)"

definition set_parent_if :: "'z rb_tree_scheme \<Rightarrow> u64 \<Rightarrow> u64 \<Rightarrow> 'z rb_tree_scheme option" where
  "set_parent_if s tmp p = (if tmp \<noteq> 0 then rb_set_parent s tmp p else Some s)"

definition rb_change_child :: "'z rb_tree_scheme \<Rightarrow> u64 \<Rightarrow> u64 \<Rightarrow> u64 \<Rightarrow> 'z rb_tree_scheme option" where
  "rb_change_child s old new parent =
     (if parent \<noteq> 0 then do {
        l \<leftarrow> left s parent;
        if l = old then set_left s parent new else set_right s parent new }
      else Some (s\<lparr>rb_root := new\<rparr>))"

definition rb_rotate_set_parents :: "'z rb_tree_scheme \<Rightarrow> u64 \<Rightarrow> u64 \<Rightarrow> u64 \<Rightarrow> 'z rb_tree_scheme option" where
  "rb_rotate_set_parents s old new color = do {
     parent \<leftarrow> rb_parent s old;
     pc \<leftarrow> parent_color s old;
     s \<leftarrow> set_parent_color s new pc;
     s \<leftarrow> rb_set_parent_color s old new color;
     rb_change_child s old new parent }"

section \<open>Insertion\<close>

text \<open>The callbacks of augmented trees; without augmentation they do nothing.\<close>

type_synonym 'z callback = "u64 \<Rightarrow> u64 \<Rightarrow> 'z rb_tree_scheme \<Rightarrow> 'z rb_tree_scheme option"

record 'z rb_augment_callbacks =
  propagate :: "'z callback"
  copy_aug :: "'z callback"
  rotate :: "'z callback"

definition dummy_callback :: "'z callback" where
  "dummy_callback old new s = Some s"

definition dummy_callbacks :: "'z rb_augment_callbacks" where
  "dummy_callbacks = \<lparr>propagate = dummy_callback, copy_aug = dummy_callback, rotate = dummy_callback\<rparr>"

text \<open>One round of the loop, when the parent is the left child of the grandparent and when it is the right
  one. \<open>Inl\<close> goes on with the next node and its parent.\<close>

definition insert_left :: "'z callback \<Rightarrow> u64 \<Rightarrow> u64 \<Rightarrow> u64 \<Rightarrow> u64 \<Rightarrow> 'z rb_tree_scheme
    \<Rightarrow> ((u64 \<times> u64 \<times> 'z rb_tree_scheme) + 'z rb_tree_scheme) option" where
  "insert_left augment_rotate node parent gparent tmp s = do {
     red \<leftarrow> is_red_node s tmp;
     if red then do {
       s \<leftarrow> rb_set_parent_color s tmp gparent RB_BLACK;
       s \<leftarrow> rb_set_parent_color s parent gparent RB_BLACK;
       let node = gparent;
       parent \<leftarrow> rb_parent s node;
       s \<leftarrow> rb_set_parent_color s node parent RB_RED;
       Some (Inl (node, parent, s)) }
     else do {
       tmp \<leftarrow> right s parent;
       (parent, tmp, s) \<leftarrow>
         (if node = tmp then do {
            tmp \<leftarrow> left s node;
            s \<leftarrow> set_right s parent tmp;
            s \<leftarrow> set_left s node parent;
            s \<leftarrow> set_parent_color_if s tmp parent RB_BLACK;
            s \<leftarrow> rb_set_parent_color s parent node RB_RED;
            s \<leftarrow> augment_rotate parent node s;
            let parent = node;
            tmp \<leftarrow> right s node;
            Some (parent, tmp, s) }
          else Some (parent, tmp, s));
       s \<leftarrow> set_left s gparent tmp;
       s \<leftarrow> set_right s parent gparent;
       s \<leftarrow> set_parent_color_if s tmp gparent RB_BLACK;
       s \<leftarrow> rb_rotate_set_parents s gparent parent RB_RED;
       s \<leftarrow> augment_rotate gparent parent s;
       Some (Inr s) } }"

definition insert_right :: "'z callback \<Rightarrow> u64 \<Rightarrow> u64 \<Rightarrow> u64 \<Rightarrow> 'z rb_tree_scheme
    \<Rightarrow> ((u64 \<times> u64 \<times> 'z rb_tree_scheme) + 'z rb_tree_scheme) option" where
  "insert_right augment_rotate node parent gparent s = do {
     tmp \<leftarrow> left s gparent;
     red \<leftarrow> is_red_node s tmp;
     if red then do {
       s \<leftarrow> rb_set_parent_color s tmp gparent RB_BLACK;
       s \<leftarrow> rb_set_parent_color s parent gparent RB_BLACK;
       let node = gparent;
       parent \<leftarrow> rb_parent s node;
       s \<leftarrow> rb_set_parent_color s node parent RB_RED;
       Some (Inl (node, parent, s)) }
     else do {
       tmp \<leftarrow> left s parent;
       (parent, tmp, s) \<leftarrow>
         (if node = tmp then do {
            tmp \<leftarrow> right s node;
            s \<leftarrow> set_left s parent tmp;
            s \<leftarrow> set_right s node parent;
            s \<leftarrow> set_parent_color_if s tmp parent RB_BLACK;
            s \<leftarrow> rb_set_parent_color s parent node RB_RED;
            s \<leftarrow> augment_rotate parent node s;
            let parent = node;
            tmp \<leftarrow> left s node;
            Some (parent, tmp, s) }
          else Some (parent, tmp, s));
       s \<leftarrow> set_right s gparent tmp;
       s \<leftarrow> set_left s parent gparent;
       s \<leftarrow> set_parent_color_if s tmp gparent RB_BLACK;
       s \<leftarrow> rb_rotate_set_parents s gparent parent RB_RED;
       s \<leftarrow> augment_rotate gparent parent s;
       Some (Inr s) } }"

definition insert_round :: "'z callback \<Rightarrow> u64 \<times> u64 \<times> 'z rb_tree_scheme
    \<Rightarrow> ((u64 \<times> u64 \<times> 'z rb_tree_scheme) + 'z rb_tree_scheme) option" where
  "insert_round augment_rotate = (\<lambda>(node, parent, s).
     if parent = 0 then do { s \<leftarrow> rb_set_parent_color s node 0 RB_BLACK; Some (Inr s) }
     else do {
       black \<leftarrow> rb_is_black s parent;
       if black then Some (Inr s)
       else do {
         gparent \<leftarrow> rb_red_parent s parent;
         tmp \<leftarrow> right s gparent;
         if parent \<noteq> tmp then insert_left augment_rotate node parent gparent tmp s
         else insert_right augment_rotate node parent gparent s } })"

definition rb_insert_augmented :: "'z callback \<Rightarrow> u64 \<Rightarrow> 'z rb_tree_scheme \<Rightarrow> 'z rb_tree_scheme option" where
  "rb_insert_augmented augment_rotate node s = do {
     parent \<leftarrow> rb_red_parent s node;
     loop (insert_round augment_rotate) (node, parent, s) }"

definition rb_insert_color :: "u64 \<Rightarrow> 'z rb_tree_scheme \<Rightarrow> 'z rb_tree_scheme option" where
  "rb_insert_color node s = rb_insert_augmented dummy_callback node s"

text \<open>The link that a new node goes to: the root, or the left or right link of a node.\<close>

datatype link = Root | Left u64 | Right u64

fun read_link :: "'z rb_tree_scheme \<Rightarrow> link \<Rightarrow> u64 option" where
  "read_link s Root = Some (rb_root s)"
| "read_link s (Left a) = left s a"
| "read_link s (Right a) = right s a"

fun write_link :: "'z rb_tree_scheme \<Rightarrow> link \<Rightarrow> u64 \<Rightarrow> 'z rb_tree_scheme option" where
  "write_link s Root v = Some (s\<lparr>rb_root := v\<rparr>)"
| "write_link s (Left a) v = set_left s a v"
| "write_link s (Right a) v = set_right s a v"

definition rb_link_node :: "'z rb_tree_scheme \<Rightarrow> u64 \<Rightarrow> u64 \<Rightarrow> link \<Rightarrow> 'z rb_tree_scheme option" where
  "rb_link_node s node parent rb_link = do {
     s \<leftarrow> set_parent_color s node parent;
     s \<leftarrow> set_right s node 0;
     s \<leftarrow> set_left s node 0;
     write_link s rb_link node }"

text \<open>One step of the descents of \<open>rb_add\<close> and \<open>rb_find_add\<close>, from a link and its owner.\<close>

definition add_step :: "(u64 \<Rightarrow> u64 \<Rightarrow> bool) \<Rightarrow> u64 \<Rightarrow> 'z rb_tree_scheme \<Rightarrow> link \<times> u64
    \<Rightarrow> ((link \<times> u64) + (link \<times> u64)) option" where
  "add_step lt node s = (\<lambda>(link, parent). do {
     a \<leftarrow> read_link s link;
     if a \<noteq> 0 then Some (Inl (if lt node a then Left a else Right a, a))
     else Some (Inr (link, parent)) })"

definition rb_add :: "(u64 \<Rightarrow> u64 \<Rightarrow> bool) \<Rightarrow> u64 \<Rightarrow> 'z rb_tree_scheme \<Rightarrow> 'z rb_tree_scheme option" where
  "rb_add lt node s = do {
     (link, parent) \<leftarrow> loop (add_step lt node s) (Root, 0);
     s \<leftarrow> rb_link_node s node parent link;
     rb_insert_color node s }"

text \<open>The comparison answers a negative, zero or positive number; \<open>Inl\<close> is the node found equal.\<close>

definition find_add_step :: "(u64 \<Rightarrow> u64 \<Rightarrow> int) \<Rightarrow> u64 \<Rightarrow> 'z rb_tree_scheme \<Rightarrow> link \<times> u64
    \<Rightarrow> ((link \<times> u64) + (u64 + (link \<times> u64))) option" where
  "find_add_step cmp node s = (\<lambda>(link, parent). do {
     a \<leftarrow> read_link s link;
     if a \<noteq> 0 then
       (let c = cmp node a in
        if c < 0 then Some (Inl (Left a, a))
        else if 0 < c then Some (Inl (Right a, a))
        else Some (Inr (Inl a)))
     else Some (Inr (Inr (link, parent))) })"

definition rb_find_add :: "(u64 \<Rightarrow> u64 \<Rightarrow> int) \<Rightarrow> u64 \<Rightarrow> 'z rb_tree_scheme \<Rightarrow> (u64 \<times> 'z rb_tree_scheme) option" where
  "rb_find_add cmp node s = do {
     r \<leftarrow> loop (find_add_step cmp node s) (Root, 0);
     case r of
       Inl a \<Rightarrow> Some (a, s)
     | Inr (link, parent) \<Rightarrow> do {
         s \<leftarrow> rb_link_node s node parent link;
         s \<leftarrow> rb_insert_color node s;
         Some (0, s) } }"

section \<open>Removal\<close>

definition erase_case4_left :: "'z callback \<Rightarrow> u64 \<Rightarrow> u64 \<Rightarrow> u64 \<Rightarrow> 'z rb_tree_scheme \<Rightarrow> 'z rb_tree_scheme option" where
  "erase_case4_left augment_rotate parent sibling tmp1 s = do {
     tmp2 \<leftarrow> left s sibling;
     s \<leftarrow> set_right s parent tmp2;
     s \<leftarrow> set_left s sibling parent;
     s \<leftarrow> rb_set_parent_color s tmp1 sibling RB_BLACK;
     s \<leftarrow> set_parent_if s tmp2 parent;
     s \<leftarrow> rb_rotate_set_parents s parent sibling RB_BLACK;
     augment_rotate parent sibling s }"

definition erase_case4_right :: "'z callback \<Rightarrow> u64 \<Rightarrow> u64 \<Rightarrow> u64 \<Rightarrow> 'z rb_tree_scheme \<Rightarrow> 'z rb_tree_scheme option" where
  "erase_case4_right augment_rotate parent sibling tmp1 s = do {
     tmp2 \<leftarrow> right s sibling;
     s \<leftarrow> set_left s parent tmp2;
     s \<leftarrow> set_right s sibling parent;
     s \<leftarrow> rb_set_parent_color s tmp1 sibling RB_BLACK;
     s \<leftarrow> set_parent_if s tmp2 parent;
     s \<leftarrow> rb_rotate_set_parents s parent sibling RB_BLACK;
     augment_rotate parent sibling s }"

text \<open>The colour flip of case 2, the same on both sides.\<close>

definition erase_case2 :: "u64 \<Rightarrow> u64 \<Rightarrow> 'z rb_tree_scheme
    \<Rightarrow> ((u64 \<times> u64 \<times> 'z rb_tree_scheme) + 'z rb_tree_scheme) option" where
  "erase_case2 parent sibling s = do {
     s \<leftarrow> rb_set_parent_color s sibling parent RB_RED;
     red \<leftarrow> rb_is_red s parent;
     if red then do { s \<leftarrow> rb_set_black s parent; Some (Inr s) }
     else do {
       let node = parent;
       parent \<leftarrow> rb_parent s node;
       if parent \<noteq> 0 then Some (Inl (node, parent, s)) else Some (Inr s) } }"

text \<open>A round once the sibling is black: cases 2 to 4. \<open>tmp1\<close> is the outer, \<open>tmp2\<close> the inner child of the sibling.\<close>

definition erase_black_left :: "'z callback \<Rightarrow> u64 \<Rightarrow> u64 \<Rightarrow> 'z rb_tree_scheme
    \<Rightarrow> ((u64 \<times> u64 \<times> 'z rb_tree_scheme) + 'z rb_tree_scheme) option" where
  "erase_black_left augment_rotate parent sibling s = do {
     tmp1 \<leftarrow> right s sibling;
     black1 \<leftarrow> is_black_or_null s tmp1;
     if black1 then do {
       tmp2 \<leftarrow> left s sibling;
       black2 \<leftarrow> is_black_or_null s tmp2;
       if black2 then erase_case2 parent sibling s
       else do {
         tmp1 \<leftarrow> right s tmp2;
         s \<leftarrow> set_left s sibling tmp1;
         s \<leftarrow> set_right s tmp2 sibling;
         s \<leftarrow> set_right s parent tmp2;
         s \<leftarrow> set_parent_color_if s tmp1 sibling RB_BLACK;
         s \<leftarrow> augment_rotate sibling tmp2 s;
         let tmp1 = sibling;
         let sibling = tmp2;
         s \<leftarrow> erase_case4_left augment_rotate parent sibling tmp1 s;
         Some (Inr s) } }
     else do {
       s \<leftarrow> erase_case4_left augment_rotate parent sibling tmp1 s;
       Some (Inr s) } }"

text \<open>A whole round: a red sibling is rotated away first (case 1).\<close>

definition erase_left :: "'z callback \<Rightarrow> u64 \<Rightarrow> u64 \<Rightarrow> 'z rb_tree_scheme
    \<Rightarrow> ((u64 \<times> u64 \<times> 'z rb_tree_scheme) + 'z rb_tree_scheme) option" where
  "erase_left augment_rotate parent sibling s = do {
     red \<leftarrow> rb_is_red s sibling;
     (sibling, s) \<leftarrow>
       (if red then do {
          tmp1 \<leftarrow> left s sibling;
          s \<leftarrow> set_right s parent tmp1;
          s \<leftarrow> set_left s sibling parent;
          s \<leftarrow> rb_set_parent_color s tmp1 parent RB_BLACK;
          s \<leftarrow> rb_rotate_set_parents s parent sibling RB_RED;
          s \<leftarrow> augment_rotate parent sibling s;
          Some (tmp1, s) }
        else Some (sibling, s));
     erase_black_left augment_rotate parent sibling s }"

definition erase_black_right :: "'z callback \<Rightarrow> u64 \<Rightarrow> u64 \<Rightarrow> 'z rb_tree_scheme
    \<Rightarrow> ((u64 \<times> u64 \<times> 'z rb_tree_scheme) + 'z rb_tree_scheme) option" where
  "erase_black_right augment_rotate parent sibling s = do {
     tmp1 \<leftarrow> left s sibling;
     black1 \<leftarrow> is_black_or_null s tmp1;
     if black1 then do {
       tmp2 \<leftarrow> right s sibling;
       black2 \<leftarrow> is_black_or_null s tmp2;
       if black2 then erase_case2 parent sibling s
       else do {
         tmp1 \<leftarrow> left s tmp2;
         s \<leftarrow> set_right s sibling tmp1;
         s \<leftarrow> set_left s tmp2 sibling;
         s \<leftarrow> set_left s parent tmp2;
         s \<leftarrow> set_parent_color_if s tmp1 sibling RB_BLACK;
         s \<leftarrow> augment_rotate sibling tmp2 s;
         let tmp1 = sibling;
         let sibling = tmp2;
         s \<leftarrow> erase_case4_right augment_rotate parent sibling tmp1 s;
         Some (Inr s) } }
     else do {
       s \<leftarrow> erase_case4_right augment_rotate parent sibling tmp1 s;
       Some (Inr s) } }"

definition erase_right :: "'z callback \<Rightarrow> u64 \<Rightarrow> 'z rb_tree_scheme
    \<Rightarrow> ((u64 \<times> u64 \<times> 'z rb_tree_scheme) + 'z rb_tree_scheme) option" where
  "erase_right augment_rotate parent s = do {
     sibling \<leftarrow> left s parent;
     red \<leftarrow> rb_is_red s sibling;
     (sibling, s) \<leftarrow>
       (if red then do {
          tmp1 \<leftarrow> right s sibling;
          s \<leftarrow> set_left s parent tmp1;
          s \<leftarrow> set_right s sibling parent;
          s \<leftarrow> rb_set_parent_color s tmp1 parent RB_BLACK;
          s \<leftarrow> rb_rotate_set_parents s parent sibling RB_RED;
          s \<leftarrow> augment_rotate parent sibling s;
          Some (tmp1, s) }
        else Some (sibling, s));
     erase_black_right augment_rotate parent sibling s }"

definition erase_round :: "'z callback \<Rightarrow> u64 \<times> u64 \<times> 'z rb_tree_scheme
    \<Rightarrow> ((u64 \<times> u64 \<times> 'z rb_tree_scheme) + 'z rb_tree_scheme) option" where
  "erase_round augment_rotate = (\<lambda>(node, parent, s). do {
     sibling \<leftarrow> right s parent;
     if node \<noteq> sibling then erase_left augment_rotate parent sibling s
     else erase_right augment_rotate parent s })"

definition rb_erase_color :: "'z callback \<Rightarrow> u64 \<Rightarrow> 'z rb_tree_scheme \<Rightarrow> 'z rb_tree_scheme option" where
  "rb_erase_color augment_rotate parent s = loop (erase_round augment_rotate) (0, parent, s)"

text \<open>\<open>__rb_erase_augmented\<close> takes the node out of the tree and answers the node to rebalance from. Its three
  cases: at most one child, two children with the right child as the successor, two children with a successor
  further down.\<close>

definition erase_no_left :: "u64 \<Rightarrow> u64 \<Rightarrow> 'z rb_tree_scheme \<Rightarrow> (u64 \<times> u64 \<times> 'z rb_tree_scheme) option" where
  "erase_no_left node child s = do {
     pc \<leftarrow> parent_color s node;
     let parent = pc_parent pc;
     s \<leftarrow> rb_change_child s node child parent;
     if child \<noteq> 0 then do { s \<leftarrow> set_parent_color s child pc; Some (0, parent, s) }
     else Some (if pc_is_black pc then parent else 0, parent, s) }"

definition erase_no_right :: "u64 \<Rightarrow> u64 \<Rightarrow> 'z rb_tree_scheme \<Rightarrow> (u64 \<times> u64 \<times> 'z rb_tree_scheme) option" where
  "erase_no_right node tmp s = do {
     pc \<leftarrow> parent_color s node;
     s \<leftarrow> set_parent_color s tmp pc;
     let parent = pc_parent pc;
     s \<leftarrow> rb_change_child s node tmp parent;
     Some (0, parent, s) }"

text \<open>The successor further down, with its parent.\<close>

definition find_successor :: "'z rb_tree_scheme \<Rightarrow> u64 \<Rightarrow> u64 \<Rightarrow> (u64 \<times> u64) option" where
  "find_successor s child tmp = loop (\<lambda>(successor, tmp). do {
     let parent = successor;
     let successor = tmp;
     tmp \<leftarrow> left s tmp;
     Some (if tmp \<noteq> 0 then Inl (successor, tmp) else Inr (parent, successor)) }) (child, tmp)"

definition erase_both :: "'z rb_augment_callbacks \<Rightarrow> u64 \<Rightarrow> u64 \<Rightarrow> 'z rb_tree_scheme
    \<Rightarrow> (u64 \<times> u64 \<times> 'z rb_tree_scheme) option" where
  "erase_both augment node child s = do {
     tmp \<leftarrow> left s child;
     (successor, parent, child2, s) \<leftarrow>
       (if tmp = 0 then do {
          let successor = child;
          let parent = successor;
          child2 \<leftarrow> right s successor;
          s \<leftarrow> copy_aug augment node successor s;
          Some (successor, parent, child2, s) }
        else do {
          (parent, successor) \<leftarrow> find_successor s child tmp;
          child2 \<leftarrow> right s successor;
          s \<leftarrow> set_left s parent child2;
          s \<leftarrow> set_right s successor child;
          s \<leftarrow> rb_set_parent s child successor;
          s \<leftarrow> copy_aug augment node successor s;
          s \<leftarrow> propagate augment parent successor s;
          Some (successor, parent, child2, s) });
     tmp \<leftarrow> left s node;
     s \<leftarrow> set_left s successor tmp;
     s \<leftarrow> rb_set_parent s tmp successor;
     pc \<leftarrow> parent_color s node;
     let tmp = pc_parent pc;
     s \<leftarrow> rb_change_child s node successor tmp;
     (rebalance, s) \<leftarrow>
       (if child2 \<noteq> 0 then do { s \<leftarrow> rb_set_parent_color s child2 parent RB_BLACK; Some (0, s) }
        else do { black \<leftarrow> rb_is_black s successor; Some (if black then parent else 0, s) });
     s \<leftarrow> set_parent_color s successor pc;
     Some (rebalance, successor, s) }"

definition rb_unlink_augmented :: "'z rb_augment_callbacks \<Rightarrow> u64 \<Rightarrow> 'z rb_tree_scheme \<Rightarrow> (u64 \<times> 'z rb_tree_scheme) option" where
  "rb_unlink_augmented augment node s = do {
     child \<leftarrow> right s node;
     tmp \<leftarrow> left s node;
     (rebalance, tmp, s) \<leftarrow>
       (if tmp = 0 then erase_no_left node child s
        else if child = 0 then erase_no_right node tmp s
        else erase_both augment node child s);
     s \<leftarrow> propagate augment tmp 0 s;
     Some (rebalance, s) }"

definition rb_erase_augmented :: "'z rb_augment_callbacks \<Rightarrow> u64 \<Rightarrow> 'z rb_tree_scheme \<Rightarrow> 'z rb_tree_scheme option" where
  "rb_erase_augmented augment node s = do {
     (rebalance, s) \<leftarrow> rb_unlink_augmented augment node s;
     if rebalance \<noteq> 0 then rb_erase_color (rotate augment) rebalance s else Some s }"

definition rb_erase :: "u64 \<Rightarrow> 'z rb_tree_scheme \<Rightarrow> 'z rb_tree_scheme option" where
  "rb_erase node s = do {
     (rebalance, s) \<leftarrow> rb_unlink_augmented dummy_callbacks node s;
     if rebalance \<noteq> 0 then rb_erase_color dummy_callback rebalance s else Some s }"

definition rb_replace_node :: "u64 \<Rightarrow> u64 \<Rightarrow> 'z rb_tree_scheme \<Rightarrow> 'z rb_tree_scheme option" where
  "rb_replace_node victim new s = do {
     parent \<leftarrow> rb_parent s victim;
     v \<leftarrow> rb_mem s victim;
     _ \<leftarrow> rb_mem s new;
     let s = s\<lparr>rb_mem := (rb_mem s)(new \<mapsto> v)\<rparr>;
     l \<leftarrow> left s victim;
     s \<leftarrow> set_parent_if s l new;
     r \<leftarrow> right s victim;
     s \<leftarrow> set_parent_if s r new;
     rb_change_child s victim new parent }"

section \<open>Walking the tree\<close>

definition down_left :: "'z rb_tree_scheme \<Rightarrow> u64 \<Rightarrow> u64 option" where
  "down_left s n = loop (\<lambda>n. do { l \<leftarrow> left s n; Some (if l \<noteq> 0 then Inl l else Inr n) }) n"

definition down_right :: "'z rb_tree_scheme \<Rightarrow> u64 \<Rightarrow> u64 option" where
  "down_right s n = loop (\<lambda>n. do { r \<leftarrow> right s n; Some (if r \<noteq> 0 then Inl r else Inr n) }) n"

definition rb_first :: "'z rb_tree_scheme \<Rightarrow> u64 option" where
  "rb_first s = (if rb_root s = 0 then Some 0 else down_left s (rb_root s))"

definition rb_last :: "'z rb_tree_scheme \<Rightarrow> u64 option" where
  "rb_last s = (if rb_root s = 0 then Some 0 else down_right s (rb_root s))"

definition RB_EMPTY_NODE :: "'z rb_tree_scheme \<Rightarrow> u64 \<Rightarrow> bool option" where
  "RB_EMPTY_NODE s node = do { pc \<leftarrow> parent_color s node; Some (pc = node) }"

definition RB_CLEAR_NODE :: "'z rb_tree_scheme \<Rightarrow> u64 \<Rightarrow> 'z rb_tree_scheme option" where
  "RB_CLEAR_NODE s node = set_parent_color s node node"

text \<open>Up the tree for as long as the node is a right (left) child; the answer is the first other ancestor.\<close>

definition up_while_right :: "'z rb_tree_scheme \<Rightarrow> u64 \<Rightarrow> u64 option" where
  "up_while_right s node = loop (\<lambda>node. do {
     parent \<leftarrow> rb_parent s node;
     if parent = 0 then Some (Inr parent)
     else do { r \<leftarrow> right s parent; Some (if node = r then Inl parent else Inr parent) } }) node"

definition up_while_left :: "'z rb_tree_scheme \<Rightarrow> u64 \<Rightarrow> u64 option" where
  "up_while_left s node = loop (\<lambda>node. do {
     parent \<leftarrow> rb_parent s node;
     if parent = 0 then Some (Inr parent)
     else do { l \<leftarrow> left s parent; Some (if node = l then Inl parent else Inr parent) } }) node"

definition rb_next :: "'z rb_tree_scheme \<Rightarrow> u64 \<Rightarrow> u64 option" where
  "rb_next s node = do {
     empty \<leftarrow> RB_EMPTY_NODE s node;
     if empty then Some 0
     else do {
       r \<leftarrow> right s node;
       if r \<noteq> 0 then down_left s r else up_while_right s node } }"

definition rb_prev :: "'z rb_tree_scheme \<Rightarrow> u64 \<Rightarrow> u64 option" where
  "rb_prev s node = do {
     empty \<leftarrow> RB_EMPTY_NODE s node;
     if empty then Some 0
     else do {
       l \<leftarrow> left s node;
       if l \<noteq> 0 then down_right s l else up_while_left s node } }"

definition rb_left_deepest_node :: "'z rb_tree_scheme \<Rightarrow> u64 \<Rightarrow> u64 option" where
  "rb_left_deepest_node s node = loop (\<lambda>node. do {
     l \<leftarrow> left s node;
     r \<leftarrow> right s node;
     Some (if l \<noteq> 0 then Inl l else if r \<noteq> 0 then Inl r else Inr node) }) node"

definition rb_next_postorder :: "'z rb_tree_scheme \<Rightarrow> u64 \<Rightarrow> u64 option" where
  "rb_next_postorder s node =
     (if node = 0 then Some 0
      else do {
        parent \<leftarrow> rb_parent s node;
        if parent = 0 then Some parent
        else do {
          l \<leftarrow> left s parent;
          r \<leftarrow> right s parent;
          if node = l \<and> r \<noteq> 0 then rb_left_deepest_node s r else Some parent } })"

definition rb_first_postorder :: "'z rb_tree_scheme \<Rightarrow> u64 option" where
  "rb_first_postorder s = (if rb_root s = 0 then Some 0 else rb_left_deepest_node s (rb_root s))"

section \<open>Searching\<close>

definition find_step :: "('k \<Rightarrow> u64 \<Rightarrow> int) \<Rightarrow> 'k \<Rightarrow> 'z rb_tree_scheme \<Rightarrow> u64 \<Rightarrow> (u64 + u64) option" where
  "find_step cmp key s node =
     (if node \<noteq> 0 then
        (let c = cmp key node in
         if c < 0 then do { l \<leftarrow> left s node; Some (Inl l) }
         else if 0 < c then do { r \<leftarrow> right s node; Some (Inl r) }
         else Some (Inr node))
      else Some (Inr 0))"

definition rb_find :: "('k \<Rightarrow> u64 \<Rightarrow> int) \<Rightarrow> 'k \<Rightarrow> 'z rb_tree_scheme \<Rightarrow> u64 option" where
  "rb_find cmp key s = loop (find_step cmp key s) (rb_root s)"

definition find_first_step :: "('k \<Rightarrow> u64 \<Rightarrow> int) \<Rightarrow> 'k \<Rightarrow> 'z rb_tree_scheme \<Rightarrow> u64 \<times> u64 \<Rightarrow> ((u64 \<times> u64) + u64) option" where
  "find_first_step cmp key s = (\<lambda>(node, match).
     if node \<noteq> 0 then
       (let c = cmp key node in
        if c \<le> 0 then do { l \<leftarrow> left s node; Some (Inl (l, if c = 0 then node else match)) }
        else do { r \<leftarrow> right s node; Some (Inl (r, match)) })
     else Some (Inr match))"

definition rb_find_first :: "('k \<Rightarrow> u64 \<Rightarrow> int) \<Rightarrow> 'k \<Rightarrow> 'z rb_tree_scheme \<Rightarrow> u64 option" where
  "rb_find_first cmp key s = loop (find_first_step cmp key s) (rb_root s, 0)"

definition rb_next_match :: "('k \<Rightarrow> u64 \<Rightarrow> int) \<Rightarrow> 'k \<Rightarrow> 'z rb_tree_scheme \<Rightarrow> u64 \<Rightarrow> u64 option" where
  "rb_next_match cmp key s node = do {
     node \<leftarrow> rb_next s node;
     Some (if node \<noteq> 0 \<and> cmp key node \<noteq> 0 then 0 else node) }"

text \<open>The iteration macros, as the list of the nodes visited: \<open>start\<close> is the first node and \<open>onward\<close> goes on.\<close>

definition for_each :: "u64 option \<Rightarrow> (u64 \<Rightarrow> u64 option) \<Rightarrow> u64 list option" where
  "for_each start onward = do {
     n \<leftarrow> start;
     loop (\<lambda>(n, out).
       if n \<noteq> 0 then do { m \<leftarrow> onward n; Some (Inl (m, out @ [n])) }
       else Some (Inr out)) (n, []) }"

definition rb_for_each_entry :: "'z rb_tree_scheme \<Rightarrow> u64 list option" where
  "rb_for_each_entry s = for_each (rb_first s) (rb_next s)"

definition rb_for_each :: "('k \<Rightarrow> u64 \<Rightarrow> int) \<Rightarrow> 'k \<Rightarrow> 'z rb_tree_scheme \<Rightarrow> u64 list option" where
  "rb_for_each cmp key s = for_each (rb_find_first cmp key s) (rb_next_match cmp key s)"

definition rbtree_postorder_for_each_entry :: "'z rb_tree_scheme \<Rightarrow> u64 list option" where
  "rbtree_postorder_for_each_entry s = for_each (rb_first_postorder s) (rb_next_postorder s)"

section \<open>Trees that remember their first node\<close>

record rb_root_cached = rb_tree +
  rb_leftmost :: u64

definition rb_first_cached :: "'z rb_root_cached_scheme \<Rightarrow> u64" where
  "rb_first_cached s = rb_leftmost s"

definition rb_insert_color_cached :: "u64 \<Rightarrow> bool \<Rightarrow> 'z rb_root_cached_scheme \<Rightarrow> 'z rb_root_cached_scheme option" where
  "rb_insert_color_cached node leftmost s = do {
     let s = (if leftmost then s\<lparr>rb_leftmost := node\<rparr> else s);
     rb_insert_color node s }"

definition rb_erase_cached :: "u64 \<Rightarrow> 'z rb_root_cached_scheme \<Rightarrow> (u64 \<times> 'z rb_root_cached_scheme) option" where
  "rb_erase_cached node s = do {
     (leftmost, s) \<leftarrow>
       (if rb_leftmost s = node then do {
          n \<leftarrow> rb_next s node;
          Some (n, s\<lparr>rb_leftmost := n\<rparr>) }
        else Some (0, s));
     s \<leftarrow> rb_erase node s;
     Some (leftmost, s) }"

definition rb_replace_node_cached :: "u64 \<Rightarrow> u64 \<Rightarrow> 'z rb_root_cached_scheme \<Rightarrow> 'z rb_root_cached_scheme option" where
  "rb_replace_node_cached victim new s = do {
     let s = (if rb_leftmost s = victim then s\<lparr>rb_leftmost := new\<rparr> else s);
     rb_replace_node victim new s }"

definition add_cached_step :: "(u64 \<Rightarrow> u64 \<Rightarrow> bool) \<Rightarrow> u64 \<Rightarrow> 'z rb_root_cached_scheme \<Rightarrow> link \<times> u64 \<times> bool
    \<Rightarrow> ((link \<times> u64 \<times> bool) + (link \<times> u64 \<times> bool)) option" where
  "add_cached_step lt node s = (\<lambda>(link, parent, leftmost). do {
     a \<leftarrow> read_link s link;
     if a \<noteq> 0 then Some (Inl (if lt node a then (Left a, a, leftmost) else (Right a, a, False)))
     else Some (Inr (link, parent, leftmost)) })"

definition rb_add_cached :: "(u64 \<Rightarrow> u64 \<Rightarrow> bool) \<Rightarrow> u64 \<Rightarrow> 'z rb_root_cached_scheme \<Rightarrow> (u64 \<times> 'z rb_root_cached_scheme) option" where
  "rb_add_cached lt node s = do {
     (link, parent, leftmost) \<leftarrow> loop (add_cached_step lt node s) (Root, 0, True);
     s \<leftarrow> rb_link_node s node parent link;
     s \<leftarrow> rb_insert_color_cached node leftmost s;
     Some (if leftmost then node else 0, s) }"

definition rb_move_cached :: "(u64 \<Rightarrow> u64 \<Rightarrow> bool) \<Rightarrow> u64 \<Rightarrow> 'z rb_root_cached_scheme \<Rightarrow> 'z rb_root_cached_scheme option" where
  "rb_move_cached lt node s = do {
     prev_node \<leftarrow> rb_prev s node;
     next_node \<leftarrow> rb_next s node;
     if (prev_node \<noteq> 0 \<or> next_node \<noteq> 0)
       \<and> (prev_node \<noteq> 0 \<and> lt node prev_node \<or> next_node \<noteq> 0 \<and> lt next_node node)
     then do {
       (_, s) \<leftarrow> rb_erase_cached node s;
       (_, s) \<leftarrow> rb_add_cached lt node s;
       Some s }
     else Some s }"

section \<open>Augmented trees\<close>

definition rb_insert_augmented_cached :: "'z rb_root_cached_ext rb_augment_callbacks \<Rightarrow> bool \<Rightarrow> u64
    \<Rightarrow> 'z rb_root_cached_scheme \<Rightarrow> 'z rb_root_cached_scheme option" where
  "rb_insert_augmented_cached augment newleft node s = do {
     let s = (if newleft then s\<lparr>rb_leftmost := node\<rparr> else s);
     rb_insert_augmented (rotate augment) node s }"

definition rb_erase_augmented_cached :: "'z rb_root_cached_ext rb_augment_callbacks \<Rightarrow> u64
    \<Rightarrow> 'z rb_root_cached_scheme \<Rightarrow> 'z rb_root_cached_scheme option" where
  "rb_erase_augmented_cached augment node s = do {
     s \<leftarrow> (if rb_leftmost s = node then do { n \<leftarrow> rb_next s node; Some (s\<lparr>rb_leftmost := n\<rparr>) } else Some s);
     rb_erase_augmented augment node s }"

text \<open>The callbacks that \<open>RB_DECLARE_CALLBACKS\<close> generates. A node has a field with the data of its subtree;
  \<open>compute\<close> renews it and answers whether, with its flag set, it was already right.\<close>

record 'v rb_augmented = rb_tree +
  rb_data :: "u64 \<Rightarrow> 'v"

type_synonym ('v, 'y) compute = "u64 \<Rightarrow> bool \<Rightarrow> ('v, 'y) rb_augmented_scheme \<Rightarrow> (bool \<times> ('v, 'y) rb_augmented_scheme) option"

definition callback_propagate :: "('v, 'y) compute \<Rightarrow> u64 \<Rightarrow> u64 \<Rightarrow> ('v, 'y) rb_augmented_scheme \<Rightarrow> ('v, 'y) rb_augmented_scheme option" where
  "callback_propagate compute rb stop s = loop (\<lambda>(rb, s).
     if rb \<noteq> stop then do {
       (found, s) \<leftarrow> compute rb True s;
       if found then Some (Inr s)
       else do { rb \<leftarrow> rb_parent s rb; Some (Inl (rb, s)) } }
     else Some (Inr s)) (rb, s)"

definition callback_copy :: "u64 \<Rightarrow> u64 \<Rightarrow> ('v, 'y) rb_augmented_scheme \<Rightarrow> ('v, 'y) rb_augmented_scheme option" where
  "callback_copy old new s = Some (s\<lparr>rb_data := (rb_data s)(new := rb_data s old)\<rparr>)"

definition callback_rotate :: "('v, 'y) compute \<Rightarrow> u64 \<Rightarrow> u64 \<Rightarrow> ('v, 'y) rb_augmented_scheme \<Rightarrow> ('v, 'y) rb_augmented_scheme option" where
  "callback_rotate compute old new s = do {
     s \<leftarrow> callback_copy old new s;
     (_, s) \<leftarrow> compute old False s;
     Some s }"

definition declare_callbacks :: "('v, 'y) compute \<Rightarrow> ('v, 'y) rb_augmented_ext rb_augment_callbacks" where
  "declare_callbacks compute =
     \<lparr>propagate = callback_propagate compute, copy_aug = callback_copy, rotate = callback_rotate compute\<rparr>"

text \<open>\<open>RB_DECLARE_CALLBACKS_MAX\<close>: the data is the maximum of \<open>own\<close> over the subtree.\<close>

definition compute_max :: "(u64 \<Rightarrow> 'v) \<Rightarrow> ('v :: linorder, 'y) compute" where
  "compute_max own node exit s = do {
     let m = own node;
     l \<leftarrow> left s node;
     let m = (if l \<noteq> 0 \<and> m < rb_data s l then rb_data s l else m);
     r \<leftarrow> right s node;
     let m = (if r \<noteq> 0 \<and> m < rb_data s r then rb_data s r else m);
     if exit \<and> rb_data s node = m then Some (True, s)
     else Some (False, s\<lparr>rb_data := (rb_data s)(node := m)\<rparr>) }"

end
