(* ===== verification/RbShape.thy ===== *)
theory RbShape
  imports RbTree
begin

text \<open>
  What a red-black tree in memory is: a tree of addresses and colours that the words of the memory encode,
  the way from a node up to the root, the red-black invariants of both, and the simplification rules by which the
  rebalancing code is executed on them.
\<close>

section \<open>The packed word\<close>

text \<open>Addresses of nodes are aligned, so the two low bits are free.\<close>

definition aligned :: "u64 \<Rightarrow> bool" where
  "aligned a \<longleftrightarrow> a AND 3 = 0"

datatype color = Red | Black

fun col :: "color \<Rightarrow> u64" where
  "col Red = RB_RED"
| "col Black = RB_BLACK"

named_theorems rb_simps "symbolic execution of the tree code"

lemma aligned_0 [simp]: "aligned 0"
  by (simp add: aligned_def)

lemma low_bits: "bit (1::u64) n \<longleftrightarrow> n = 0" "bit (3::u64) n \<longleftrightarrow> n = 0 \<or> n = 1"
proof -
  have "(3::u64) = Bit_Operations.mask 2"
    by (simp add: mask_eq_exp_minus_1)
  then have "bit (3::u64) n \<longleftrightarrow> n < 2"
    by (simp only: bit_mask_iff) auto
  then show "bit (3::u64) n \<longleftrightarrow> n = 0 \<or> n = 1"
    by auto
  show "bit (1::u64) n \<longleftrightarrow> n = 0"
    by (simp add: bit_1_iff)
qed

lemma aligned_bits: "aligned a \<Longrightarrow> bit a n \<Longrightarrow> 0 < n \<and> n \<noteq> Suc 0"
  unfolding aligned_def using low_bits(2) [of n] by (metis One_nat_def bit_0_eq bit_and_iff bot_apply bot_bool_def neq0_conv)

lemma pc_parent_col [rb_simps]: "aligned p \<Longrightarrow> pc_parent (p OR col c) = p"
  unfolding pc_parent_def
  by (cases c; intro bit_word_eqI; unfold bit_and_iff bit_or_iff bit_not_iff low_bits)
    (auto simp: RB_RED_def RB_BLACK_def low_bits dest: aligned_bits)

lemma pc_color_col [rb_simps]: "aligned p \<Longrightarrow> pc_color (p OR col c) = col c"
  unfolding pc_color_def
  by (cases c; intro bit_word_eqI; unfold bit_and_iff bit_or_iff low_bits)
    (auto simp: RB_RED_def RB_BLACK_def low_bits dest: aligned_bits)

lemma col_Red_0 [rb_simps]: "p OR RB_RED = p"
  by (simp add: RB_RED_def)

lemma pc_parent_simps [rb_simps]:
  "aligned p \<Longrightarrow> pc_parent p = p"
  "aligned p \<Longrightarrow> pc_parent (p OR RB_BLACK) = p"
  using pc_parent_col [of p Red] pc_parent_col [of p Black] by (simp_all add: col_Red_0)

lemma pc_color_simps [rb_simps]:
  "aligned p \<Longrightarrow> pc_color p = 0"
  "aligned p \<Longrightarrow> pc_color (p OR RB_BLACK) = RB_BLACK"
  using pc_color_col [of p Red] pc_color_col [of p Black] by (simp_all add: col_Red_0) (simp add: RB_RED_def)

lemma pc_is_red_simps [rb_simps]:
  assumes "aligned p"
  shows "pc_is_red p" "\<not> pc_is_red (p OR RB_BLACK)" "pc_is_red (p OR col c) \<longleftrightarrow> c = Red"
proof -
  show "pc_is_red (p OR col c) \<longleftrightarrow> c = Red" for c
    using pc_color_col [OF assms, of c] by (cases c) (simp_all add: pc_is_red_def RB_RED_def RB_BLACK_def)
  from this [of Red] this [of Black] show "pc_is_red p" "\<not> pc_is_red (p OR RB_BLACK)"
    by (simp_all add: col_Red_0)
qed

lemma black_not_red: "pc_is_black pc \<longleftrightarrow> \<not> pc_is_red pc"
  by (simp add: pc_is_red_def pc_is_black_def)

lemma pc_is_black_simps [rb_simps]:
  assumes "aligned p"
  shows "\<not> pc_is_black p" "pc_is_black (p OR RB_BLACK)" "pc_is_black (p OR col c) \<longleftrightarrow> c = Black"
    apply (simp add: black_not_red pc_is_red_simps assms)
   apply (simp add: black_not_red pc_is_red_simps assms)
  by (cases c; simp add: black_not_red pc_is_red_simps assms del: col.simps)

lemma pc_root_simps [rb_simps]:
  "pc_parent RB_BLACK = 0" "pc_color RB_BLACK = RB_BLACK" "pc_is_red RB_BLACK = False" "pc_is_black RB_BLACK = True"
  "pc_parent (col c) = 0" "pc_color (col c) = col c" "pc_is_red (col c) \<longleftrightarrow> c = Red" "pc_is_black (col c) \<longleftrightarrow> c = Black"
  using pc_parent_simps(2) [of 0] pc_color_simps(2) [of 0] pc_is_red_simps(2) [of 0] pc_is_black_simps(2) [of 0]
    pc_parent_col [of 0 c] pc_color_col [of 0 c] pc_is_red_simps(3) [of 0 c] pc_is_black_simps(3) [of 0 c]
  by simp_all

lemma col_or [rb_simps]: "col c OR p = p OR col c" "RB_BLACK OR p = p OR RB_BLACK" "RB_RED OR p = p"
  by (rule or.commute, rule or.commute, simp add: RB_RED_def)

lemma or_black [rb_simps]: "(p OR col c) OR RB_BLACK = p OR RB_BLACK" "(p OR RB_BLACK) OR RB_BLACK = p OR RB_BLACK"
  by (cases c; simp add: or.assoc RB_RED_def)+

section \<open>Trees\<close>

datatype rbt = Tip | Nd rbt u64 color rbt

fun rt :: "rbt \<Rightarrow> u64" where
  "rt Tip = 0"
| "rt (Nd l x c r) = x"

fun hue :: "rbt \<Rightarrow> color" where
  "hue Tip = Black"
| "hue (Nd l x c r) = c"

fun nodes :: "rbt \<Rightarrow> u64 list" where
  "nodes Tip = []"
| "nodes (Nd l x c r) = nodes l @ x # nodes r"

text \<open>\<open>tree_at m p t\<close>: the memory holds the nodes of \<open>t\<close>, the root of \<open>t\<close> below \<open>p\<close>.\<close>

fun tree_at :: "(u64 \<Rightarrow> rb_node option) \<Rightarrow> u64 \<Rightarrow> rbt \<Rightarrow> bool" where
  "tree_at m p Tip \<longleftrightarrow> True"
| "tree_at m p (Nd l x c r) \<longleftrightarrow> x \<noteq> 0 \<and> aligned x
     \<and> m x = Some \<lparr>rb_parent_color = p OR col c, rb_right = rt r, rb_left = rt l\<rparr>
     \<and> tree_at m x l \<and> tree_at m x r"

text \<open>The red-black invariant with black height \<open>n\<close>.\<close>

fun red_black :: "nat \<Rightarrow> rbt \<Rightarrow> bool" where
  "red_black n Tip \<longleftrightarrow> n = 0"
| "red_black n (Nd l x Red r) \<longleftrightarrow> red_black n l \<and> red_black n r \<and> hue l = Black \<and> hue r = Black"
| "red_black n (Nd l x Black r) \<longleftrightarrow> (\<exists>k. n = Suc k \<and> red_black k l \<and> red_black k r)"

section \<open>The way up\<close>

text \<open>A step upwards: \<open>UpL x c s\<close> from the left child of \<open>x\<close>, whose right child is \<open>s\<close>; \<open>UpR s x c\<close> from
  the right child.\<close>

datatype up = UpL u64 color rbt | UpR rbt u64 color

fun step_up :: "rbt \<Rightarrow> up \<Rightarrow> rbt" where
  "step_up t (UpL x c s) = Nd t x c s"
| "step_up t (UpR s x c) = Nd s x c t"

definition fill :: "up list \<Rightarrow> rbt \<Rightarrow> rbt" where
  "fill us t = foldl step_up t us"

lemma fill_simps [simp]: "fill [] t = t" "fill (u # us) t = fill us (step_up t u)" "fill (us @ vs) t = fill vs (fill us t)"
  by (simp_all add: fill_def)

fun upper :: "up list \<Rightarrow> u64" where
  "upper [] = 0"
| "upper (UpL x c s # us) = x"
| "upper (UpR s x c # us) = x"

fun lefts :: "up list \<Rightarrow> u64 list" where
  "lefts [] = []"
| "lefts (UpL x c s # us) = lefts us"
| "lefts (UpR s x c # us) = lefts us @ nodes s @ [x]"

fun rights :: "up list \<Rightarrow> u64 list" where
  "rights [] = []"
| "rights (UpL x c s # us) = x # nodes s @ rights us"
| "rights (UpR s x c # us) = rights us"

lemma nodes_fill [simp]: "nodes (fill us t) = lefts us @ nodes t @ rights us"
  by (induction us arbitrary: t rule: lefts.induct) simp_all

text \<open>\<open>way_at m r a us\<close>: the memory, with the root \<open>r\<close>, holds the nodes of the way up from the child \<open>a\<close>.\<close>

fun way_at :: "(u64 \<Rightarrow> rb_node option) \<Rightarrow> u64 \<Rightarrow> u64 \<Rightarrow> up list \<Rightarrow> bool" where
  "way_at m r a [] \<longleftrightarrow> r = a"
| "way_at m r a (UpL x c s # us) \<longleftrightarrow> x \<noteq> 0 \<and> aligned x
     \<and> m x = Some \<lparr>rb_parent_color = upper us OR col c, rb_right = rt s, rb_left = a\<rparr>
     \<and> tree_at m x s \<and> way_at m r x us"
| "way_at m r a (UpR s x c # us) \<longleftrightarrow> x \<noteq> 0 \<and> aligned x
     \<and> m x = Some \<lparr>rb_parent_color = upper us OR col c, rb_right = a, rb_left = rt s\<rparr>
     \<and> tree_at m x s \<and> way_at m r x us"

lemma fill_at: "tree_at m 0 (fill us t) \<and> rt (fill us t) = r \<longleftrightarrow> tree_at m (upper us) t \<and> way_at m r (rt t) us"
proof (induction us arbitrary: t)
  case Nil
  then show ?case by auto
next
  case (Cons u us)
  then show ?case by (cases u) auto
qed

lemma upper_aligned [simp]: "way_at m r a us \<Longrightarrow> aligned (upper us)"
  by (cases us rule: upper.cases) auto

lemma tree_at_upd [simp]: "x \<notin> set (nodes t) \<Longrightarrow> tree_at (m(x := n)) p t = tree_at m p t"
  by (induction t arbitrary: p) auto

lemma way_at_upd [simp]: "x \<notin> set (lefts us) \<Longrightarrow> x \<notin> set (rights us) \<Longrightarrow> way_at (m(x := n)) r a us = way_at m r a us"
  by (induction m r a us rule: way_at.induct) auto

lemma rt_other [simp]: "x \<notin> set (nodes t) \<Longrightarrow> x \<noteq> 0 \<Longrightarrow> rt t \<noteq> x \<and> x \<noteq> rt t"
  by (cases t) auto

text \<open>The invariant of the way: filled with a tree of black height \<open>n\<close> it gives a red-black tree.\<close>

fun above :: "up list \<Rightarrow> color" where
  "above [] = Red"
| "above (UpL x c s # us) = c"
| "above (UpR s x c # us) = c"

fun way_ok :: "nat \<Rightarrow> up list \<Rightarrow> bool" where
  "way_ok n [] \<longleftrightarrow> True"
| "way_ok n (UpL x Red s # us) \<longleftrightarrow> red_black n s \<and> hue s = Black \<and> above us = Black \<and> way_ok n us"
| "way_ok n (UpL x Black s # us) \<longleftrightarrow> red_black n s \<and> way_ok (Suc n) us"
| "way_ok n (UpR s x Red # us) \<longleftrightarrow> red_black n s \<and> hue s = Black \<and> above us = Black \<and> way_ok n us"
| "way_ok n (UpR s x Black # us) \<longleftrightarrow> red_black n s \<and> way_ok (Suc n) us"

definition rb_ok :: "rbt \<Rightarrow> bool" where
  "rb_ok t \<longleftrightarrow> hue t = Black \<and> (\<exists>n. red_black n t)"

lemma rb_ok_fill: "rb_ok (fill us t) \<longleftrightarrow> (\<exists>n. red_black n t \<and> way_ok n us \<and> (hue t = Red \<longrightarrow> above us = Black))"
proof (induction us arbitrary: t)
  case Nil
  then show ?case
    by (cases "hue t") (auto simp: rb_ok_def)
next
  case (Cons u us)
  show ?case
  proof (cases u)
    case (UpL x c s)
    then show ?thesis
      using Cons.IH [of "Nd t x c s"] by (cases c; cases "hue t"; auto)
  next
    case (UpR s x c)
    then show ?thesis
      using Cons.IH [of "Nd s x c t"] by (cases c; cases "hue t"; auto)
  qed
qed

text \<open>The tree that a state holds.\<close>

definition holds :: "'z rb_tree_scheme \<Rightarrow> rbt \<Rightarrow> bool" where
  "holds s t \<longleftrightarrow> tree_at (rb_mem s) 0 t \<and> rb_root s = rt t \<and> distinct (nodes t)"

lemma holds_fill:
  "holds s (fill us t) \<longleftrightarrow> tree_at (rb_mem s) (upper us) t \<and> way_at (rb_mem s) (rb_root s) (rt t) us
     \<and> distinct (lefts us @ nodes t @ rights us)"
  using fill_at [of "rb_mem s" us t "rb_root s"] by (auto simp: holds_def)

section \<open>Executing the code\<close>

lemmas node_ops = parent_color_def left_def right_def set_parent_color_def set_left_def set_right_def rb_parent_def
  rb_red_parent_def rb_is_red_def rb_is_black_def rb_set_black_def rb_set_parent_def rb_set_parent_color_def
  set_parent_color_if_def set_parent_if_def rb_rotate_set_parents_def dummy_callback_def

text \<open>Run a command before what comes after it.\<close>

lemma bind_weak_cong: "m = m' \<Longrightarrow> Option.bind m f = Option.bind m' f"
  by simp

lemma black_root:
  assumes "tree_at (rb_mem s) p t" and "hue t = Black" and "aligned p"
  shows "is_red_node s (rt t) = Some False" "is_black_or_null s (rt t) = Some True"
  using assms by (cases t; simp add: is_red_node_def is_black_or_null_def node_ops rb_simps)+

lemma null_checks [rb_simps]:
  "is_red_node s 0 = Some False" "is_black_or_null s 0 = Some True"
  "a \<noteq> 0 \<Longrightarrow> is_red_node s a = rb_is_red s a" "a \<noteq> 0 \<Longrightarrow> is_black_or_null s a = rb_is_black s a"
  by (simp_all add: is_red_node_def is_black_or_null_def)

text \<open>\<open>hang s us a\<close>: the state with \<open>a\<close> as the child at the lower end of the way.\<close>

fun hang :: "'z rb_tree_scheme \<Rightarrow> up list \<Rightarrow> u64 \<Rightarrow> 'z rb_tree_scheme" where
  "hang s [] a = s\<lparr>rb_root := a\<rparr>"
| "hang s (UpL x c t # us) a =
     s\<lparr>rb_mem := (rb_mem s)(x \<mapsto> \<lparr>rb_parent_color = upper us OR col c, rb_right = rt t, rb_left = a\<rparr>)\<rparr>"
| "hang s (UpR t x c # us) a =
     s\<lparr>rb_mem := (rb_mem s)(x \<mapsto> \<lparr>rb_parent_color = upper us OR col c, rb_right = a, rb_left = rt t\<rparr>)\<rparr>"

lemma hang_node [simp]: "y \<noteq> upper us \<Longrightarrow> rb_mem (hang s us a) y = rb_mem s y"
  by (cases us rule: upper.cases) auto

lemma hang_more [simp]: "rb_tree.more (hang s us a) = rb_tree.more s"
  by (cases us rule: upper.cases) auto

lemma upper_other [simp]:
  "x \<noteq> 0 \<Longrightarrow> x \<notin> set (lefts us) \<Longrightarrow> x \<notin> set (rights us) \<Longrightarrow> upper us \<noteq> x \<and> x \<noteq> upper us"
  by (cases us rule: upper.cases) auto

lemma hang_tree [simp]:
  "set (lefts us) \<inter> set (nodes t) = {} \<Longrightarrow> set (nodes t) \<inter> set (rights us) = {} \<Longrightarrow>
   tree_at (rb_mem (hang s us a)) p t = tree_at (rb_mem s) p t"
  by (cases us rule: upper.cases) auto

lemma hang_way:
  "way_at (rb_mem s) (rb_root s) b us \<Longrightarrow> distinct (lefts us @ rights us) \<Longrightarrow>
   way_at (rb_mem (hang s us a)) (rb_root (hang s us a)) a us"
  by (cases us rule: upper.cases) auto

lemma change_child_hang:
  assumes "way_at (rb_mem s) (rb_root s) old us" and "old \<noteq> 0" and "old \<notin> set (lefts us)"
  shows "rb_change_child s old new (upper us) = Some (hang s us new)"
  using assms by (cases us rule: upper.cases) (auto simp: rb_change_child_def node_ops)

end
