(* ===== verification/RbInsert.thy ===== *)
theory RbInsert
  imports RbShape
begin

text \<open>
  Insertion keeps the red-black invariant and the order of the nodes. Every round of the colour fix-up is
  executed on the tree it works on; the loop is an induction on the way up.
\<close>

section \<open>One round\<close>

lemmas insert_exec = insert_round_def insert_left_def insert_right_def node_ops rb_simps change_child_hang

lemmas splits_disjoint = Int_Un_distrib Int_Un_distrib2

lemmas holds_exec = holds_fill hang_way rb_simps splits_disjoint

text \<open>Case 1: the uncle is red.\<close>

lemma recolor_left_left:
  assumes "holds s (fill (UpL p Red b # UpL g Black (Nd ul u Red ur) # us) (Nd l x Red r))"
  shows "\<exists>s'. insert_round dummy_callback (x, p, s) = Some (Inl (g, upper us, s'))
    \<and> holds s' (fill us (Nd (Nd (Nd l x Red r) p Black b) g Red (Nd ul u Black ur))) \<and> rb_tree.more s' = rb_tree.more s"
  by (insert assms [unfolded holds_fill] upper_aligned [of "rb_mem s" "rb_root s" g us];
    simp del: fill_simps add: splits_disjoint; elim conjE;
    simp (no_asm_simp) add: insert_exec cong: bind_weak_cong;
    simp (no_asm_simp) add: holds_exec)

lemma recolor_left_right:
  assumes "holds s (fill (UpR b p Red # UpL g Black (Nd ul u Red ur) # us) (Nd l x Red r))"
  shows "\<exists>s'. insert_round dummy_callback (x, p, s) = Some (Inl (g, upper us, s'))
    \<and> holds s' (fill us (Nd (Nd b p Black (Nd l x Red r)) g Red (Nd ul u Black ur))) \<and> rb_tree.more s' = rb_tree.more s"
  by (insert assms [unfolded holds_fill] upper_aligned [of "rb_mem s" "rb_root s" g us];
    simp del: fill_simps add: splits_disjoint; elim conjE;
    simp (no_asm_simp) add: insert_exec cong: bind_weak_cong;
    simp (no_asm_simp) add: holds_exec)

lemma recolor_right_left:
  assumes "holds s (fill (UpL p Red b # UpR (Nd ul u Red ur) g Black # us) (Nd l x Red r))"
  shows "\<exists>s'. insert_round dummy_callback (x, p, s) = Some (Inl (g, upper us, s'))
    \<and> holds s' (fill us (Nd (Nd ul u Black ur) g Red (Nd (Nd l x Red r) p Black b))) \<and> rb_tree.more s' = rb_tree.more s"
  by (insert assms [unfolded holds_fill] upper_aligned [of "rb_mem s" "rb_root s" g us];
    simp del: fill_simps add: splits_disjoint; elim conjE;
    simp (no_asm_simp) add: insert_exec cong: bind_weak_cong;
    simp (no_asm_simp) add: holds_exec)

lemma recolor_right_right:
  assumes "holds s (fill (UpR b p Red # UpR (Nd ul u Red ur) g Black # us) (Nd l x Red r))"
  shows "\<exists>s'. insert_round dummy_callback (x, p, s) = Some (Inl (g, upper us, s'))
    \<and> holds s' (fill us (Nd (Nd ul u Black ur) g Red (Nd b p Black (Nd l x Red r)))) \<and> rb_tree.more s' = rb_tree.more s"
  by (insert assms [unfolded holds_fill] upper_aligned [of "rb_mem s" "rb_root s" g us];
    simp del: fill_simps add: splits_disjoint; elim conjE;
    simp (no_asm_simp) add: insert_exec cong: bind_weak_cong;
    simp (no_asm_simp) add: holds_exec)

text \<open>Cases 2 and 3: the uncle is black.\<close>

lemma rotate_left_left:
  assumes "holds s (fill (UpL p Red b # UpL g Black u # us) (Nd l x Red r))" and "hue u = Black" and "hue b = Black"
  shows "\<exists>s'. insert_round dummy_callback (x, p, s) = Some (Inr s')
    \<and> holds s' (fill us (Nd (Nd l x Red r) p Black (Nd b g Red u))) \<and> rb_tree.more s' = rb_tree.more s"
  by (insert assms [unfolded holds_fill] black_root [of s g u] upper_aligned [of "rb_mem s" "rb_root s" g us];
    cases b; simp del: fill_simps add: splits_disjoint; elim conjE;
    simp (no_asm_simp) add: insert_exec cong: bind_weak_cong;
    simp (no_asm_simp) add: holds_exec)

lemma rotate_left_right:
  assumes "holds s (fill (UpR b p Red # UpL g Black u # us) (Nd l x Red r))" and "hue u = Black" and "hue l = Black" and "hue r = Black"
  shows "\<exists>s'. insert_round dummy_callback (x, p, s) = Some (Inr s')
    \<and> holds s' (fill us (Nd (Nd b p Red l) x Black (Nd r g Red u))) \<and> rb_tree.more s' = rb_tree.more s"
  by (insert assms [unfolded holds_fill] black_root [of s g u] upper_aligned [of "rb_mem s" "rb_root s" g us];
    cases l; cases r; simp del: fill_simps add: splits_disjoint; elim conjE;
    simp (no_asm_simp) add: insert_exec cong: bind_weak_cong;
    simp (no_asm_simp) add: holds_exec)

lemma rotate_right_left:
  assumes "holds s (fill (UpL p Red b # UpR u g Black # us) (Nd l x Red r))" and "hue u = Black" and "hue l = Black" and "hue r = Black"
  shows "\<exists>s'. insert_round dummy_callback (x, p, s) = Some (Inr s')
    \<and> holds s' (fill us (Nd (Nd u g Red l) x Black (Nd r p Red b))) \<and> rb_tree.more s' = rb_tree.more s"
  by (insert assms [unfolded holds_fill] black_root [of s g u] upper_aligned [of "rb_mem s" "rb_root s" g us];
    cases l; cases r; simp del: fill_simps add: splits_disjoint; elim conjE;
    simp (no_asm_simp) add: insert_exec cong: bind_weak_cong;
    simp (no_asm_simp) add: holds_exec)

lemma rotate_right_right:
  assumes "holds s (fill (UpR b p Red # UpR u g Black # us) (Nd l x Red r))" and "hue u = Black" and "hue b = Black"
  shows "\<exists>s'. insert_round dummy_callback (x, p, s) = Some (Inr s')
    \<and> holds s' (fill us (Nd (Nd u g Red b) p Black (Nd l x Red r))) \<and> rb_tree.more s' = rb_tree.more s"
  by (insert assms [unfolded holds_fill] black_root [of s g u] upper_aligned [of "rb_mem s" "rb_root s" g us];
    cases b; simp del: fill_simps add: splits_disjoint; elim conjE;
    simp (no_asm_simp) add: insert_exec cong: bind_weak_cong;
    simp (no_asm_simp) add: holds_exec)

section \<open>The loop\<close>

text \<open>What a fix-up that started with the nodes \<open>xs\<close> leaves behind.\<close>

definition balanced :: "u64 list \<Rightarrow> 'z \<Rightarrow> 'z rb_tree_scheme \<Rightarrow> bool" where
  "balanced xs z s \<longleftrightarrow> (\<exists>t. holds s t \<and> rb_ok t \<and> nodes t = xs) \<and> rb_tree.more s = z"

lemma balancedI: "holds s t \<Longrightarrow> rb_ok t \<Longrightarrow> nodes t = xs \<Longrightarrow> rb_tree.more s = z \<Longrightarrow> balanced xs z s"
  unfolding balanced_def by blast

text \<open>A red node below the way, which may have a red parent: the state before a round.\<close>

definition red_below :: "u64 list \<Rightarrow> 'z \<Rightarrow> up list \<Rightarrow> u64 \<Rightarrow> 'z rb_tree_scheme \<Rightarrow> bool" where
  "red_below xs z us x s \<longleftrightarrow> (\<exists>l r n. holds s (fill us (Nd l x Red r)) \<and> red_black n (Nd l x Red r) \<and> way_ok n us
     \<and> nodes (fill us (Nd l x Red r)) = xs) \<and> rb_tree.more s = z"

definition round_ok :: "u64 list \<Rightarrow> 'z \<Rightarrow> up list \<Rightarrow> ((u64 \<times> u64 \<times> 'z rb_tree_scheme) + 'z rb_tree_scheme) option \<Rightarrow> bool" where
  "round_ok xs z us m \<longleftrightarrow> (\<exists>s. m = Some (Inr s) \<and> balanced xs z s)
     \<or> (\<exists>g vs s. m = Some (Inl (g, upper vs, s)) \<and> length vs < length us \<and> red_below xs z vs g s)"

lemma round_stop:
  assumes "\<exists>s'. m = Some (Inr s') \<and> holds s' (fill vs t) \<and> rb_tree.more s' = z"
    and "red_black n t" and "way_ok n vs" and "hue t = Red \<longrightarrow> above vs = Black" and "nodes (fill vs t) = xs"
  shows "round_ok xs z us m"
  using assms unfolding round_ok_def balanced_def rb_ok_fill by (metis rb_ok_fill)

lemma round_next:
  assumes "\<exists>s'. m = Some (Inl (g, upper vs, s')) \<and> holds s' (fill vs (Nd l g Red r)) \<and> rb_tree.more s' = z"
    and "red_black n (Nd l g Red r)" and "way_ok n vs" and "length vs < length us" and "nodes (fill vs (Nd l g Red r)) = xs"
  shows "round_ok xs z us m"
  using assms unfolding round_ok_def red_below_def by metis

lemma insert_round_ok:
  assumes "red_below xs z us x s"
  shows "round_ok xs z us (insert_round dummy_callback (x, upper us, s))"
proof -
  from assms obtain l r n where at: "holds s (fill us (Nd l x Red r))"
    and t: "red_black n l" "red_black n r" "hue l = Black" "hue r = Black" and us: "way_ok n us"
    and xs: "nodes (fill us (Nd l x Red r)) = xs" and z: "rb_tree.more s = z"
    unfolding red_below_def by auto
  note simps = t xs z xs [symmetric]
  consider (root) "us = []" | (stop) "us \<noteq> []" "above us = Black"
    | (LL) p b g u vs where "us = UpL p Red b # UpL g Black u # vs"
    | (LR) p b g u vs where "us = UpR b p Red # UpL g Black u # vs"
    | (RL) p b g u vs where "us = UpL p Red b # UpR u g Black # vs"
    | (RR) p b g u vs where "us = UpR b p Red # UpR u g Black # vs"
    using us by (cases us rule: above.cases; cases "tl us" rule: above.cases; cases "above us"; cases "above (tl us)") auto
  then show ?thesis
  proof cases
    case root
    then show ?thesis
      using at simps
      by (intro round_stop [where t = "Nd l x Black r" and vs = "[]" and n = "Suc n"])
        (auto simp: insert_round_def holds_def node_ops rb_simps)
  next
    case stop
    then show ?thesis
      using at us simps
      by (intro round_stop [where t = "Nd l x Red r" and vs = us and n = n])
        (auto simp: insert_round_def holds_fill node_ops rb_simps neq_Nil_conv elim!: above.elims)
  next
    case LL
    show ?thesis
    proof (cases "hue u")
      case Red
      then obtain ul y ur where "u = Nd ul y Red ur"
        by (cases u) auto
      then show ?thesis
        using recolor_left_left [of s p b g ul y ur vs l x r] at us simps LL
        by (intro round_next [of _ g vs "Nd (Nd l x Red r) p Black b" "Nd ul y Black ur" _ "Suc n"]) auto
    next
      case Black
      then show ?thesis
        using rotate_left_left [of s p b g u vs l x r] at us simps LL
        by (intro round_stop [where t = "Nd (Nd l x Red r) p Black (Nd b g Red u)" and vs = vs and n = "Suc n"]) auto
    qed
  next
    case LR
    show ?thesis
    proof (cases "hue u")
      case Red
      then obtain ul y ur where "u = Nd ul y Red ur"
        by (cases u) auto
      then show ?thesis
        using recolor_left_right [of s b p g ul y ur vs l x r] at us simps LR
        by (intro round_next [of _ g vs "Nd b p Black (Nd l x Red r)" "Nd ul y Black ur" _ "Suc n"]) auto
    next
      case Black
      then show ?thesis
        using rotate_left_right [of s b p g u vs l x r] at us simps LR
        by (intro round_stop [where t = "Nd (Nd b p Red l) x Black (Nd r g Red u)" and vs = vs and n = "Suc n"]) auto
    qed
  next
    case RL
    show ?thesis
    proof (cases "hue u")
      case Red
      then obtain ul y ur where "u = Nd ul y Red ur"
        by (cases u) auto
      then show ?thesis
        using recolor_right_left [of s p b ul y ur g vs l x r] at us simps RL
        by (intro round_next [of _ g vs "Nd ul y Black ur" "Nd (Nd l x Red r) p Black b" _ "Suc n"]) auto
    next
      case Black
      then show ?thesis
        using rotate_right_left [of s p b u g vs l x r] at us simps RL
        by (intro round_stop [where t = "Nd (Nd u g Red l) x Black (Nd r p Red b)" and vs = vs and n = "Suc n"]) auto
    qed
  next
    case RR
    show ?thesis
    proof (cases "hue u")
      case Red
      then obtain ul y ur where "u = Nd ul y Red ur"
        by (cases u) auto
      then show ?thesis
        using recolor_right_right [of s b p ul y ur g vs l x r] at us simps RR
        by (intro round_next [of _ g vs "Nd ul y Black ur" "Nd b p Black (Nd l x Red r)" _ "Suc n"]) auto
    next
      case Black
      then show ?thesis
        using rotate_right_right [of s b p u g vs l x r] at us simps RR
        by (intro round_stop [where t = "Nd (Nd u g Red b) p Black (Nd l x Red r)" and vs = vs and n = "Suc n"]) auto
    qed
  qed
qed

lemma insert_loop_ok:
  assumes "red_below xs z us x s"
  shows "\<exists>s'. loop (insert_round dummy_callback) (x, upper us, s) = Some s' \<and> balanced xs z s'"
  using assms
proof (induction us arbitrary: x s rule: length_induct)
  case (1 us)
  then consider s' where "insert_round dummy_callback (x, upper us, s) = Some (Inr s')" "balanced xs z s'"
    | g vs s' where "insert_round dummy_callback (x, upper us, s) = Some (Inl (g, upper vs, s'))" "length vs < length us"
        "red_below xs z vs g s'"
    using insert_round_ok [OF "1.prems"] unfolding round_ok_def by blast
  then show ?case
  proof cases
    case 1
    then show ?thesis
      by (simp add: loop_stop)
  next
    case 2
    then show ?thesis
      using "1.IH" by (simp add: loop_next)
  qed
qed

end
