(* ===== verification/RbErase.thy ===== *)
theory RbErase
  imports RbInsert
begin

text \<open>
  The colour fix-up after a removal: every round is executed on the tree it works on, with the removed
  black height on the left of the parent and on its right.
\<close>

section \<open>One round\<close>

lemmas erase_exec = erase_round_def erase_left_def erase_right_def erase_black_left_def erase_black_right_def erase_case2_def erase_case4_left_def erase_case4_right_def
  node_ops rb_simps change_child_hang

text \<open>Case 2: the sibling and its children are black.\<close>

lemma flip_red_left:
  assumes "holds s (fill (UpL p Red (Nd a y Black b) # us) t)" and "hue a = Black" and "hue b = Black"
  shows "\<exists>s'. erase_round dummy_callback (rt t, p, s) = Some (Inr s')
    \<and> holds s' (fill us (Nd t p Black (Nd a y Red b))) \<and> rb_tree.more s' = rb_tree.more s"
  by (insert assms [unfolded holds_fill] black_root [of s y a] black_root [of s y b] upper_aligned [of "rb_mem s" "rb_root s" p us];
    simp del: fill_simps add: splits_disjoint; elim conjE;
    simp (no_asm_simp) add: erase_exec cong: bind_weak_cong;
    simp (no_asm_simp) add: holds_exec)

lemma flip_black_left:
  assumes "holds s (fill (UpL p Black (Nd a y Black b) # us) t)" and "hue a = Black" and "hue b = Black"
  shows "\<exists>s'. erase_round dummy_callback (rt t, p, s) =
      Some (if upper us = 0 then Inr s' else Inl (p, upper us, s'))
    \<and> holds s' (fill us (Nd t p Black (Nd a y Red b))) \<and> rb_tree.more s' = rb_tree.more s"
  by (insert assms [unfolded holds_fill] black_root [of s y a] black_root [of s y b] upper_aligned [of "rb_mem s" "rb_root s" p us];
    simp del: fill_simps add: splits_disjoint; elim conjE;
    simp (no_asm_simp) add: erase_exec cong: bind_weak_cong;
    simp (no_asm_simp) add: holds_exec)

lemma inner_left:
  assumes "holds s (fill (UpL p c (Nd (Nd al x Red ar) y Black b) # us) t)" and "hue b = Black" and "hue al = Black" and "hue ar = Black"
  shows "\<exists>s'. erase_round dummy_callback (rt t, p, s) = Some (Inr s')
    \<and> holds s' (fill us (Nd (Nd t p Black al) x c (Nd ar y Black b))) \<and> rb_tree.more s' = rb_tree.more s"
  by (insert assms [unfolded holds_fill] black_root [of s y b] upper_aligned [of "rb_mem s" "rb_root s" p us];
    cases al; cases ar; simp del: fill_simps add: splits_disjoint; elim conjE;
    simp (no_asm_simp) add: erase_exec cong: bind_weak_cong;
    simp (no_asm_simp) add: holds_exec)

lemma outer_left:
  assumes "holds s (fill (UpL p c (Nd a y Black (Nd bl z Red br)) # us) t)"
  shows "\<exists>s'. erase_round dummy_callback (rt t, p, s) = Some (Inr s')
    \<and> holds s' (fill us (Nd (Nd t p Black a) y c (Nd bl z Black br))) \<and> rb_tree.more s' = rb_tree.more s"
  by (insert assms [unfolded holds_fill] upper_aligned [of "rb_mem s" "rb_root s" p us];
    cases a; simp del: fill_simps add: splits_disjoint; elim conjE;
    simp (no_asm_simp) add: erase_exec cong: bind_weak_cong;
    simp (no_asm_simp) add: holds_exec)

text \<open>The same rounds on the right.\<close>

lemma flip_red_right:
  assumes "holds s (fill (UpR (Nd b y Black a) p Red # us) t)" and "hue a = Black" and "hue b = Black"
  shows "\<exists>s'. erase_round dummy_callback (rt t, p, s) = Some (Inr s')
    \<and> holds s' (fill us (Nd (Nd b y Red a) p Black t)) \<and> rb_tree.more s' = rb_tree.more s"
  by (insert assms [unfolded holds_fill] black_root [of s y a] black_root [of s y b] upper_aligned [of "rb_mem s" "rb_root s" p us];
    simp del: fill_simps add: splits_disjoint; elim conjE;
    simp (no_asm_simp) add: erase_exec cong: bind_weak_cong;
    simp (no_asm_simp) add: holds_exec)

lemma flip_black_right:
  assumes "holds s (fill (UpR (Nd b y Black a) p Black # us) t)" and "hue a = Black" and "hue b = Black"
  shows "\<exists>s'. erase_round dummy_callback (rt t, p, s) =
      Some (if upper us = 0 then Inr s' else Inl (p, upper us, s'))
    \<and> holds s' (fill us (Nd (Nd b y Red a) p Black t)) \<and> rb_tree.more s' = rb_tree.more s"
  by (insert assms [unfolded holds_fill] black_root [of s y a] black_root [of s y b] upper_aligned [of "rb_mem s" "rb_root s" p us];
    simp del: fill_simps add: splits_disjoint; elim conjE;
    simp (no_asm_simp) add: erase_exec cong: bind_weak_cong;
    simp (no_asm_simp) add: holds_exec)

lemma inner_right:
  assumes "holds s (fill (UpR (Nd b y Black (Nd ar x Red al)) p c # us) t)" and "hue b = Black" and "hue al = Black" and "hue ar = Black"
  shows "\<exists>s'. erase_round dummy_callback (rt t, p, s) = Some (Inr s')
    \<and> holds s' (fill us (Nd (Nd b y Black ar) x c (Nd al p Black t))) \<and> rb_tree.more s' = rb_tree.more s"
  by (insert assms [unfolded holds_fill] black_root [of s y b] upper_aligned [of "rb_mem s" "rb_root s" p us];
    cases al; cases ar; simp del: fill_simps add: splits_disjoint; elim conjE;
    simp (no_asm_simp) add: erase_exec cong: bind_weak_cong;
    simp (no_asm_simp) add: holds_exec)

lemma outer_right:
  assumes "holds s (fill (UpR (Nd (Nd br z Red bl) y Black a) p c # us) t)"
  shows "\<exists>s'. erase_round dummy_callback (rt t, p, s) = Some (Inr s')
    \<and> holds s' (fill us (Nd (Nd br z Black bl) y c (Nd a p Black t))) \<and> rb_tree.more s' = rb_tree.more s"
  by (insert assms [unfolded holds_fill] upper_aligned [of "rb_mem s" "rb_root s" p us];
    cases a; simp del: fill_simps add: splits_disjoint; elim conjE;
    simp (no_asm_simp) add: erase_exec cong: bind_weak_cong;
    simp (no_asm_simp) add: holds_exec)

text \<open>Case 1: a red sibling is rotated away, and the round goes on below it.\<close>

lemma rotated_left:
  assumes "holds s (fill (UpL p Black (Nd (Nd a q Black e) y Red b) # us) t)"
  shows "\<exists>s'. erase_round dummy_callback (rt t, p, s) = erase_black_left dummy_callback p q s'
    \<and> holds s' (fill (UpL p Red (Nd a q Black e) # UpL y Black (b) # us) t) \<and> rb_tree.more s' = rb_tree.more s"
  by (insert assms [unfolded holds_fill] upper_aligned [of "rb_mem s" "rb_root s" p us];
    simp del: fill_simps add: splits_disjoint; elim conjE;
    simp (no_asm_simp) add: erase_round_def erase_left_def node_ops rb_simps change_child_hang cong: bind_weak_cong;
    (rule exI, rule conjI, rule refl, simp (no_asm_simp) add: holds_exec))

lemma plain_left:
  assumes "holds s (fill (UpL p c (Nd a q Black e) # us) t)"
  shows "erase_round dummy_callback (rt t, p, s) = erase_black_left dummy_callback p q s"
  by (insert assms [unfolded holds_fill]; simp del: fill_simps add: splits_disjoint; elim conjE;
    simp (no_asm_simp) add: erase_round_def erase_left_def node_ops rb_simps cong: bind_weak_cong)

lemma rotated_right:
  assumes "holds s (fill (UpR (Nd b y Red (Nd a q Black e)) p Black # us) t)"
  shows "\<exists>s'. erase_round dummy_callback (rt t, p, s) = erase_black_right dummy_callback p q s'
    \<and> holds s' (fill (UpR (Nd a q Black e) p Red # UpR (b) y Black # us) t) \<and> rb_tree.more s' = rb_tree.more s"
  by (insert assms [unfolded holds_fill] upper_aligned [of "rb_mem s" "rb_root s" p us];
    simp del: fill_simps add: splits_disjoint; elim conjE;
    simp (no_asm_simp) add: erase_round_def erase_right_def node_ops rb_simps change_child_hang cong: bind_weak_cong;
    (rule exI, rule conjI, rule refl, simp (no_asm_simp) add: holds_exec))

lemma plain_right:
  assumes "holds s (fill (UpR (Nd a q Black e) p c # us) t)"
  shows "erase_round dummy_callback (rt t, p, s) = erase_black_right dummy_callback p q s"
  by (insert assms [unfolded holds_fill]; simp del: fill_simps add: splits_disjoint; elim conjE;
    simp (no_asm_simp) add: erase_round_def erase_right_def node_ops rb_simps cong: bind_weak_cong)

section \<open>The loop\<close>

text \<open>Below the way hangs a black tree that is one black level short; \<open>a\<close> is its root, null for the empty tree.\<close>

definition short_below :: "u64 list \<Rightarrow> 'z \<Rightarrow> up list \<Rightarrow> u64 \<Rightarrow> 'z rb_tree_scheme \<Rightarrow> bool" where
  "short_below xs z us a s \<longleftrightarrow> (\<exists>t n. holds s (fill us t) \<and> rt t = a \<and> red_black n t \<and> hue t = Black
     \<and> way_ok (Suc n) us \<and> nodes (fill us t) = xs) \<and> us \<noteq> [] \<and> rb_tree.more s = z"

definition erased :: "u64 list \<Rightarrow> 'z \<Rightarrow> ((u64 \<times> u64 \<times> 'z rb_tree_scheme) + 'z rb_tree_scheme) option \<Rightarrow> bool" where
  "erased xs z m \<longleftrightarrow> (\<exists>s. m = Some (Inr s) \<and> balanced xs z s)"

definition shifted :: "u64 list \<Rightarrow> 'z \<Rightarrow> up list \<Rightarrow> ((u64 \<times> u64 \<times> 'z rb_tree_scheme) + 'z rb_tree_scheme) option \<Rightarrow> bool" where
  "shifted xs z vs m \<longleftrightarrow> (\<exists>p s. m = Some (Inl (p, upper vs, s)) \<and> short_below xs z vs p s)"

lemma erasedI:
  assumes "\<exists>s'. m = Some (Inr s') \<and> holds s' (fill vs t) \<and> rb_tree.more s' = z"
    and "red_black n t" and "way_ok n vs" and "hue t = Red \<longrightarrow> above vs = Black" and "nodes (fill vs t) = xs"
  shows "erased xs z m"
  using assms unfolding erased_def balanced_def by (metis rb_ok_fill)

text \<open>A flip below a black parent ends at the root and goes on below any other node.\<close>

lemma flip_up:
  assumes "\<exists>s'. m = Some (if upper vs = 0 then Inr s' else Inl (rt t, upper vs, s')) \<and> holds s' (fill vs t) \<and> rb_tree.more s' = z"
    and "red_black n t" and "way_ok (Suc n) vs" and "hue t = Black" and "nodes (fill vs t) = xs"
  shows "erased xs z m \<or> shifted xs z vs m"
proof -
  obtain s' where s': "m = Some (if upper vs = 0 then Inr s' else Inl (rt t, upper vs, s'))" "holds s' (fill vs t)" "rb_tree.more s' = z"
    using assms(1) by blast
  have "upper vs = 0 \<longleftrightarrow> vs = []"
    using s'(2) by (cases vs rule: upper.cases) (auto simp: holds_fill)
  then show ?thesis
    using s' assms(2-5) erasedI [of m "[]" t z n xs] unfolding shifted_def short_below_def by (cases vs) (auto simp del: nodes_fill)
qed

lemma erase_left_ok:
  assumes "holds s (fill (UpL p c (Nd a y Black b) # us) t)" and "red_black n t" and "hue t = Black"
    and "way_ok (Suc n) (UpL p c (Nd a y Black b) # us)" and "rb_tree.more s = z"
    and "nodes (fill (UpL p c (Nd a y Black b) # us) t) = xs"
  shows "erased xs z (erase_round dummy_callback (rt t, p, s)) \<or> c = Black \<and> shifted xs z us (erase_round dummy_callback (rt t, p, s))"
proof -
  have sub: "red_black n a" "red_black n b" and up: "c = Red \<Longrightarrow> above us = Black"
    using assms(4) by (cases c; auto)+
  note simps = sub assms(2-5) assms(6) [symmetric]
  show ?thesis
  proof (cases "hue b")
    case Red
    then obtain bl w br where "b = Nd bl w Red br"
      by (cases b) auto
    then show ?thesis
      using outer_left [of s p c a y bl w br us t] assms(1) simps up
      by (intro disjI1 erasedI [where t = "Nd (Nd t p Black a) y c (Nd bl w Black br)" and vs = us and n = "if c = Red then Suc n else Suc (Suc n)"])
        (cases c; auto)+
  next
    case b: Black
    show ?thesis
    proof (cases "hue a")
      case Red
      then obtain al x ar where "a = Nd al x Red ar"
        by (cases a) auto
      then show ?thesis
        using inner_left [of s p c al x ar y b us t] assms(1) simps up b
        by (intro disjI1 erasedI [where t = "Nd (Nd t p Black al) x c (Nd ar y Black b)" and vs = us and n = "if c = Red then Suc n else Suc (Suc n)"])
          (cases c; auto)+
    next
      case Black
      show ?thesis
      proof (cases c)
        case Red
        then show ?thesis
          using flip_red_left [of s p a y b us t] assms(1) simps up b Black
          by (intro disjI1 erasedI [where t = "Nd t p Black (Nd a y Red b)" and vs = us and n = "Suc n"]) auto
      next
        case c: Black
        have "erased xs z (erase_round dummy_callback (rt t, p, s)) \<or> shifted xs z us (erase_round dummy_callback (rt t, p, s))"
          by (rule flip_up [where t = "Nd t p Black (Nd a y Red b)" and n = "Suc n"])
            (use flip_black_left [of s p a y b us t] assms(1) simps b c Black in auto)
        then show ?thesis
          using c by blast
      qed
    qed
  qed
qed

lemma erase_right_ok:
  assumes "holds s (fill (UpR (Nd b y Black a) p c # us) t)" and "red_black n t" and "hue t = Black"
    and "way_ok (Suc n) (UpR (Nd b y Black a) p c # us)" and "rb_tree.more s = z"
    and "nodes (fill (UpR (Nd b y Black a) p c # us) t) = xs"
  shows "erased xs z (erase_round dummy_callback (rt t, p, s)) \<or> c = Black \<and> shifted xs z us (erase_round dummy_callback (rt t, p, s))"
proof -
  have sub: "red_black n a" "red_black n b" and up: "c = Red \<Longrightarrow> above us = Black"
    using assms(4) by (cases c; auto)+
  note simps = sub assms(2-5) assms(6) [symmetric]
  show ?thesis
  proof (cases "hue b")
    case Red
    then obtain bl w br where "b = Nd bl w Red br"
      by (cases b) auto
    then show ?thesis
      using outer_right [of s bl w br y a p c us t] assms(1) simps up
      by (intro disjI1 erasedI [where t = "Nd (Nd bl w Black br) y c (Nd a p Black t)" and vs = us and n = "if c = Red then Suc n else Suc (Suc n)"])
        (cases c; auto)+
  next
    case b: Black
    show ?thesis
    proof (cases "hue a")
      case Red
      then obtain al x ar where "a = Nd al x Red ar"
        by (cases a) auto
      then show ?thesis
        using inner_right [of s b y al x ar p c us t] assms(1) simps up b
        by (intro disjI1 erasedI [where t = "Nd (Nd b y Black al) x c (Nd ar p Black t)" and vs = us and n = "if c = Red then Suc n else Suc (Suc n)"])
          (cases c; auto)+
    next
      case Black
      show ?thesis
      proof (cases c)
        case Red
        then show ?thesis
          using flip_red_right [of s b y a p us t] assms(1) simps up b Black
          by (intro disjI1 erasedI [where t = "Nd (Nd b y Red a) p Black t" and vs = us and n = "Suc n"]) auto
      next
        case c: Black
        have "erased xs z (erase_round dummy_callback (rt t, p, s)) \<or> shifted xs z us (erase_round dummy_callback (rt t, p, s))"
          by (rule flip_up [where t = "Nd (Nd b y Red a) p Black t" and n = "Suc n"])
            (use flip_black_right [of s b y a p us t] assms(1) simps b c Black in auto)
        then show ?thesis
          using c by blast
      qed
    qed
  qed
qed

lemma erase_red_left_ok:
  assumes "holds s (fill (UpL p Black (Nd (Nd a q Black e) y Red b) # vs) t)" and "red_black n t" and "hue t = Black"
    and "way_ok (Suc n) (UpL p Black (Nd (Nd a q Black e) y Red b) # vs)" and "rb_tree.more s = z"
    and "nodes (fill (UpL p Black (Nd (Nd a q Black e) y Red b) # vs) t) = xs"
  shows "erased xs z (erase_round dummy_callback (rt t, p, s))"
proof -
  obtain s' where s': "erase_round dummy_callback (rt t, p, s) = erase_black_left dummy_callback p q s'"
    "holds s' (fill (UpL p Red (Nd a q Black e) # UpL y Black b # vs) t)" "rb_tree.more s' = rb_tree.more s"
    using rotated_left [OF assms(1)] by blast
  then have "erase_round dummy_callback (rt t, p, s) = erase_round dummy_callback (rt t, p, s')"
    using plain_left [OF s'(2)] by simp
  moreover have "erased xs z (erase_round dummy_callback (rt t, p, s')) \<or> Red = Black
      \<and> shifted xs z (UpL y Black b # vs) (erase_round dummy_callback (rt t, p, s'))"
    by (rule erase_left_ok [OF s'(2) assms(2,3)]) (use s'(3) assms(4-6) in auto)
  ultimately show ?thesis
    by simp
qed

lemma erase_red_right_ok:
  assumes "holds s (fill (UpR (Nd b y Red (Nd e q Black a)) p Black # vs) t)" and "red_black n t" and "hue t = Black"
    and "way_ok (Suc n) (UpR (Nd b y Red (Nd e q Black a)) p Black # vs)" and "rb_tree.more s = z"
    and "nodes (fill (UpR (Nd b y Red (Nd e q Black a)) p Black # vs) t) = xs"
  shows "erased xs z (erase_round dummy_callback (rt t, p, s))"
proof -
  obtain s' where s': "erase_round dummy_callback (rt t, p, s) = erase_black_right dummy_callback p q s'"
    "holds s' (fill (UpR (Nd e q Black a) p Red # UpR b y Black # vs) t)" "rb_tree.more s' = rb_tree.more s"
    using rotated_right [OF assms(1)] by blast
  then have "erase_round dummy_callback (rt t, p, s) = erase_round dummy_callback (rt t, p, s')"
    using plain_right [OF s'(2)] by simp
  moreover have "erased xs z (erase_round dummy_callback (rt t, p, s')) \<or> Red = Black
      \<and> shifted xs z (UpR b y Black # vs) (erase_round dummy_callback (rt t, p, s'))"
    by (rule erase_right_ok [OF s'(2) assms(2,3)]) (use s'(3) assms(4-6) in auto)
  ultimately show ?thesis
    by simp
qed

text \<open>A red sibling has a black parent and black children that are there.\<close>

lemma red_siblingE:
  assumes "red_black (Suc n) (Nd a y Red b)"
  obtains al q ar bl r br where "a = Nd al q Black ar" and "b = Nd bl r Black br"
  using assms by (cases a; cases b) auto

lemma erase_round_ok:
  assumes "short_below xs z us a s"
  shows "erased xs z (erase_round dummy_callback (a, upper us, s))
    \<or> (\<exists>vs. length vs < length us \<and> shifted xs z vs (erase_round dummy_callback (a, upper us, s)))"
proof -
  from assms obtain t n where t: "holds s (fill us t)" "rt t = a" "red_black n t" "hue t = Black" "way_ok (Suc n) us"
    "nodes (fill us t) = xs" "rb_tree.more s = z" and us: "us \<noteq> []"
    unfolding short_below_def by blast
  consider p c l y r vs where "us = UpL p c (Nd l y Black r) # vs" | p c l y r vs where "us = UpR (Nd l y Black r) p c # vs"
    | p l y r vs where "us = UpL p Black (Nd l y Red r) # vs" | p l y r vs where "us = UpR (Nd l y Red r) p Black # vs"
  proof -
    obtain u vs where u: "us = u # vs"
      using us by (cases us) auto
    show ?thesis
    proof (cases u)
      case (UpL p c w)
      then show ?thesis
        using t(5) u that(1) [of p c _ _ _ vs] that(3) [of p _ _ _ vs] by (cases w rule: hue.cases; cases c; cases "hue w") auto
    next
      case (UpR w p c)
      then show ?thesis
        using t(5) u that(2) [of _ _ _ p c vs] that(4) [of _ _ _ p vs] by (cases w rule: hue.cases; cases c; cases "hue w") auto
    qed
  qed
  then show ?thesis
  proof cases
    case 1
    then show ?thesis
      using erase_left_ok [of s p c l y r vs t n z xs] t by auto
  next
    case 2
    then show ?thesis
      using erase_right_ok [of s l y r p c vs t n z xs] t by auto
  next
    case 3
    then have "red_black (Suc n) (Nd l y Red r)"
      using t(5) by auto
    then obtain e q f where "l = Nd e q Black f"
      by (rule red_siblingE)
    then show ?thesis
      using erase_red_left_ok [of s p e q f y r vs t n z xs] t 3 by auto
  next
    case 4
    then have "red_black (Suc n) (Nd l y Red r)"
      using t(5) by auto
    then obtain e q f where "r = Nd e q Black f"
      by (rule red_siblingE)
    then show ?thesis
      using erase_red_right_ok [of s l y e q f p vs t n z xs] t 4 by auto
  qed
qed

lemma erase_loop_ok:
  assumes "short_below xs z us a s"
  shows "\<exists>s'. loop (erase_round dummy_callback) (a, upper us, s) = Some s' \<and> balanced xs z s'"
  using assms
proof (induction us arbitrary: a s rule: length_induct)
  case (1 us)
  from erase_round_ok [OF "1.prems"] show ?case
  proof (elim disjE exE conjE)
    assume "erased xs z (erase_round dummy_callback (a, upper us, s))"
    then obtain s' where "erase_round dummy_callback (a, upper us, s) = Some (Inr s')" "balanced xs z s'"
      unfolding erased_def by blast
    then show ?thesis
      by (simp add: loop_stop)
  next
    fix vs assume shorter: "length vs < length us" and "shifted xs z vs (erase_round dummy_callback (a, upper us, s))"
    then obtain p s' where "erase_round dummy_callback (a, upper us, s) = Some (Inl (p, upper vs, s'))" "short_below xs z vs p s'"
      unfolding shifted_def by blast
    then show ?thesis
      using "1.IH" shorter by (simp add: loop_next)
  qed
qed

end
