(* ===== verification/RbUnlink.thy ===== *)
theory RbUnlink
  imports RbErase
begin

text \<open>
  Taking a node out: the three cases of \<open>__rb_erase_augmented\<close> and the whole of \<open>rb_erase\<close>. When the node has
  two children its successor, the leftmost node of the right subtree, takes its place.
\<close>

section \<open>Ways in pieces\<close>

definition above_of :: "up list \<Rightarrow> u64 \<Rightarrow> u64" where
  "above_of ws p = (if ws = [] then p else upper ws)"

definition summit :: "up list \<Rightarrow> u64 \<Rightarrow> u64" where
  "summit ws a = (if ws = [] then a else upper [last ws])"

fun piece_at :: "(u64 \<Rightarrow> rb_node option) \<Rightarrow> u64 \<Rightarrow> u64 \<Rightarrow> up list \<Rightarrow> bool" where
  "piece_at m p a [] \<longleftrightarrow> True"
| "piece_at m p a (UpL x c s # ws) \<longleftrightarrow> x \<noteq> 0 \<and> aligned x
     \<and> m x = Some \<lparr>rb_parent_color = above_of ws p OR col c, rb_right = rt s, rb_left = a\<rparr>
     \<and> tree_at m x s \<and> piece_at m p x ws"
| "piece_at m p a (UpR s x c # ws) \<longleftrightarrow> x \<noteq> 0 \<and> aligned x
     \<and> m x = Some \<lparr>rb_parent_color = above_of ws p OR col c, rb_right = a, rb_left = rt s\<rparr>
     \<and> tree_at m x s \<and> piece_at m p x ws"

lemma above_of_simps [simp]: "above_of [] p = p" "above_of (w # ws) p = upper (w # ws)"
  by (simp_all add: above_of_def)

lemma upper_append [simp]: "upper (ws @ us) = above_of ws (upper us)"
  by (cases ws rule: upper.cases) auto

lemma above_of_append [simp]: "above_of (ws @ vs) p = above_of ws (above_of vs p)"
  by (cases ws rule: upper.cases) auto

lemma summit_simps [simp]: "summit [] a = a" "summit (UpL x c s # ws) a = summit ws x" "summit (UpR s x c # ws) a = summit ws x"
  by (simp_all add: summit_def)

lemma summit_append [simp]: "summit (ws @ vs) a = summit vs (summit ws a)"
  by (simp add: summit_def)

lemma way_at_append [simp]: "way_at m r a (ws @ us) \<longleftrightarrow> piece_at m (upper us) a ws \<and> way_at m r (summit ws a) us"
  by (induction m "upper us" a ws rule: piece_at.induct) auto

lemma piece_at_append [simp]: "piece_at m p a (ws @ vs) \<longleftrightarrow> piece_at m (above_of vs p) a ws \<and> piece_at m p (summit ws a) vs"
  by (induction m "above_of vs p" a ws rule: piece_at.induct) auto

lemma piece_at_upd [simp]: "x \<notin> set (lefts ws) \<Longrightarrow> x \<notin> set (rights ws) \<Longrightarrow> piece_at (m(x := n)) p a ws = piece_at m p a ws"
  by (induction m p a ws rule: piece_at.induct) auto

lemma hang_piece [simp]:
  assumes "set (lefts us) \<inter> set (lefts ws) = {}" and "set (lefts us) \<inter> set (rights ws) = {}"
    and "set (lefts ws) \<inter> set (rights us) = {}" and "set (rights ws) \<inter> set (rights us) = {}"
  shows "piece_at (rb_mem (hang s us b)) p a ws = piece_at (rb_mem s) p a ws"
  using assms by (cases us rule: upper.cases; simp; intro piece_at_upd; auto)

lemma sides_append [simp]: "lefts (ws @ us) = lefts us @ lefts ws" "rights (ws @ us) = rights ws @ rights us"
  by (induction ws rule: lefts.induct) auto

text \<open>The invariant of a way does not see which node stands where.\<close>

lemma way_ok_rename: "way_ok n (ws @ UpR l x c # us) = way_ok n (ws @ UpR l y c # us)"
  and above_rename: "above (ws @ UpR l x c # us) = above (ws @ UpR l y c # us)"
proof -
  show above: "above (ws @ UpR l x c # us) = above (ws @ UpR l y c # us)" for ws
    by (cases ws rule: above.cases) auto
  show "way_ok n (ws @ UpR l x c # us) = way_ok n (ws @ UpR l y c # us)"
  proof (induction ws arbitrary: n)
    case Nil
    then show ?case by (cases c) auto
  next
    case (Cons w ws)
    then show ?case
      using above [of ws] by (cases w; cases "case w of UpL _ c _ \<Rightarrow> c | UpR _ _ c \<Rightarrow> c") auto
  qed
qed

text \<open>The leftmost node of a tree.\<close>

lemma leftmostE:
  assumes "r \<noteq> Tip"
  obtains ws q d e where "r = fill ws (Nd Tip q d e)" and "lefts ws = []"
proof -
  have "\<exists>ws q d e. r = fill ws (Nd Tip q d e) \<and> lefts ws = []"
    using assms
  proof (induction r)
    case Tip
    then show ?case by simp
  next
    case (Nd rl y c rr)
    show ?case
    proof (cases rl)
      case Tip
      then show ?thesis
        by (intro exI [of _ "[]"]) auto
    next
      case Nd
      then obtain ws q d e where "rl = fill ws (Nd Tip q d e)" "lefts ws = []"
        using Nd.IH(1) by auto
      then show ?thesis
        by (intro exI [of _ "ws @ [UpL y c rr]"] exI [of _ q] exI [of _ d] exI [of _ e]) simp
    qed
  qed
  then show ?thesis
    using that by blast
qed

section \<open>At most one child\<close>

lemmas unlink_exec = rb_unlink_augmented_def erase_no_left_def erase_no_right_def dummy_callbacks_def node_ops rb_simps
  change_child_hang Let_def

lemma erase_leaf:
  assumes "holds s (fill us (Nd Tip x c Tip))"
  shows "\<exists>s'. rb_unlink_augmented dummy_callbacks x s = Some (if c = Black then upper us else 0, s')
    \<and> holds s' (fill us Tip) \<and> rb_tree.more s' = rb_tree.more s"
  by (insert assms [unfolded holds_fill] upper_aligned [of "rb_mem s" "rb_root s" x us];
    cases c; simp del: fill_simps add: splits_disjoint; elim conjE;
    simp (no_asm_simp) add: unlink_exec cong: bind_weak_cong;
    simp (no_asm_simp) add: holds_exec)

lemma erase_right_child:
  assumes "holds s (fill us (Nd Tip x Black (Nd Tip y Red Tip)))"
  shows "\<exists>s'. rb_unlink_augmented dummy_callbacks x s = Some (0, s')
    \<and> holds s' (fill us (Nd Tip y Black Tip)) \<and> rb_tree.more s' = rb_tree.more s"
  by (insert assms [unfolded holds_fill] upper_aligned [of "rb_mem s" "rb_root s" x us];
    simp del: fill_simps add: splits_disjoint; elim conjE;
    simp (no_asm_simp) add: unlink_exec cong: bind_weak_cong;
    simp (no_asm_simp) add: holds_exec)

lemma erase_left_child:
  assumes "holds s (fill us (Nd (Nd Tip y Red Tip) x Black Tip))"
  shows "\<exists>s'. rb_unlink_augmented dummy_callbacks x s = Some (0, s')
    \<and> holds s' (fill us (Nd Tip y Black Tip)) \<and> rb_tree.more s' = rb_tree.more s"
  by (insert assms [unfolded holds_fill] upper_aligned [of "rb_mem s" "rb_root s" x us];
    simp del: fill_simps add: splits_disjoint; elim conjE;
    simp (no_asm_simp) add: unlink_exec cong: bind_weak_cong;
    simp (no_asm_simp) add: holds_exec)

section \<open>Two children\<close>

lemma summit_nonzero: "piece_at m p a ws \<Longrightarrow> a \<noteq> 0 \<Longrightarrow> summit ws a \<noteq> 0"
  by (induction m p a ws rule: piece_at.induct) auto

lemma find_successor_ok:
  assumes "piece_at (rb_mem s) p q ws" and "lefts ws = []" and "ws \<noteq> []" and "q \<noteq> 0" and "left s q = Some 0"
    and "left s (summit ws q) = Some b"
  shows "find_successor s (summit ws q) b = Some (upper ws, q)"
  using assms
proof (induction ws arbitrary: p b rule: rev_induct)
  case Nil
  then show ?case by simp
next
  case (snoc w ws)
  obtain y c sy where w: "w = UpL y c sy"
    using snoc.prems(2) by (cases w) auto
  have b: "b = summit ws q"
    using snoc.prems(1,6) by (auto simp: w node_ops)
  show ?case
  proof (cases "ws = []")
    case True
    then show ?thesis
      using snoc.prems(4,5) b w by (simp add: find_successor_def loop_stop)
  next
    case False
    have piece: "piece_at (rb_mem s) y q ws" "lefts ws = []"
      using snoc.prems(1,2) by (simp_all add: w)
    obtain y' c' s' ws' where last: "ws = ws' @ [UpL y' c' s']"
      using False piece(2) by (cases ws rule: rev_cases; cases "last ws") auto
    then have "left s y' = Some (summit ws' q)" "summit ws' q \<noteq> 0"
      using piece(1) snoc.prems(4) summit_nonzero by (auto simp: node_ops)
    then have "find_successor s (summit (ws @ [w]) q) b = find_successor s (summit ws q) (summit ws' q)"
      unfolding find_successor_def by (intro loop_next) (simp add: b w last)
    then show ?thesis
      using snoc.IH [OF piece False snoc.prems(4,5), of "summit ws' q"] \<open>left s y' = _\<close> by (simp add: w last)
  qed
qed

lemma erase_both_direct:
  assumes "holds s (fill us (Nd l x c (Nd Tip q d e)))" and "l \<noteq> Tip" and "e = Tip \<or> d = Black \<and> e = Nd Tip z Red Tip"
  shows "\<exists>s'. rb_unlink_augmented dummy_callbacks x s = Some (if e = Tip \<and> d = Black then q else 0, s')
    \<and> holds s' (fill us (Nd l q c (if e = Tip then Tip else Nd Tip z Black Tip))) \<and> rb_tree.more s' = rb_tree.more s"
  by (insert assms [unfolded holds_fill] upper_aligned [of "rb_mem s" "rb_root s" x us];
    cases l; elim disjE; cases d; simp del: fill_simps add: splits_disjoint; elim conjE;
    simp (no_asm_simp) add: unlink_exec erase_both_def cong: bind_weak_cong;
    simp (no_asm_simp) add: holds_exec)

lemma erase_both_near:
  assumes "holds s (fill us (Nd l x c (Nd (Nd Tip q d e) y cy sy)))" and "l \<noteq> Tip" and "e = Tip \<or> d = Black \<and> e = Nd Tip z Red Tip"
  shows "\<exists>s'. rb_unlink_augmented dummy_callbacks x s = Some (if e = Tip \<and> d = Black then y else 0, s')
    \<and> holds s' (fill us (Nd l q c (Nd (if e = Tip then Tip else Nd Tip z Black Tip) y cy sy))) \<and> rb_tree.more s' = rb_tree.more s"
  by (insert assms [unfolded holds_fill] upper_aligned [of "rb_mem s" "rb_root s" x us] find_successor_ok [of s x q "[UpL y cy sy]" q];
    cases l; elim disjE; cases d; simp del: fill_simps add: splits_disjoint node_ops; elim conjE;
    simp (no_asm_simp) add: unlink_exec erase_both_def cong: bind_weak_cong;
    simp (no_asm_simp) add: holds_exec)

lemma erase_both_far:
  assumes "holds s (fill (UpL p cp sp # mid @ UpL y cy sy # UpR l x c # us) (Nd Tip q d e))" and "l \<noteq> Tip"
    and "lefts mid = []" and "e = Tip \<or> d = Black \<and> e = Nd Tip z Red Tip"
  shows "\<exists>s'. rb_unlink_augmented dummy_callbacks x s = Some (if e = Tip \<and> d = Black then p else 0, s')
    \<and> holds s' (fill (UpL p cp sp # mid @ UpL y cy sy # UpR l q c # us) (if e = Tip then Tip else Nd Tip z Black Tip))
    \<and> rb_tree.more s' = rb_tree.more s"
  by (insert assms [unfolded holds_fill] upper_aligned [of "rb_mem s" "rb_root s" x us]
      find_successor_ok [of s x q "UpL p cp sp # mid @ [UpL y cy sy]" "summit mid p"] summit_nonzero [of "rb_mem s" y p mid];
    cases l; elim disjE; cases d; simp del: fill_simps add: splits_disjoint node_ops; elim conjE;
    simp (no_asm_simp) del: fill_simps add: unlink_exec erase_both_def cong: bind_weak_cong;
    simp (no_asm_simp) del: fill_simps add: holds_exec)

section \<open>Removal\<close>

text \<open>What unlinking leaves behind: a red-black tree, or one that is a level short below the node to rebalance from.\<close>

definition unlinked :: "u64 list \<Rightarrow> 'z \<Rightarrow> (u64 \<times> 'z rb_tree_scheme) option \<Rightarrow> bool" where
  "unlinked xs z m \<longleftrightarrow> (\<exists>s. m = Some (0, s) \<and> balanced xs z s)
     \<or> (\<exists>us s. m = Some (upper us, s) \<and> upper us \<noteq> 0 \<and> short_below xs z us 0 s)"

lemma unlinked_level:
  assumes "\<exists>s'. m = Some (0, s') \<and> holds s' (fill us t) \<and> rb_tree.more s' = z"
    and "red_black n t" and "way_ok n us" and "hue t = Black" and "nodes (fill us t) = xs"
  shows "unlinked xs z m"
  using assms unfolding unlinked_def balanced_def by (metis color.distinct(1) rb_ok_fill)

lemma unlinked_short:
  assumes "\<exists>s'. m = Some (upper us, s') \<and> holds s' (fill us Tip) \<and> rb_tree.more s' = z"
    and "way_ok (Suc 0) us" and "nodes (fill us Tip) = xs"
  shows "unlinked xs z m"
proof (cases "us = []")
  case True
  then show ?thesis
    using assms by (intro unlinked_level [where us = "[]" and t = Tip and n = 0]) auto
next
  case False
  obtain s' where s': "m = Some (upper us, s')" "holds s' (fill us Tip)" "rb_tree.more s' = z"
    using assms(1) by blast
  then have "upper us \<noteq> 0"
    using False by (cases us rule: upper.cases) (auto simp: holds_fill)
  moreover have "short_below xs z us 0 s'"
    unfolding short_below_def using s' False assms(2,3) by (intro conjI exI [of _ Tip] exI [of _ 0]) auto
  ultimately show ?thesis
    unfolding unlinked_def using s'(1) by blast
qed

lemma nodeE:
  assumes "x \<in> set (nodes t)"
  obtains us l c r where "t = fill us (Nd l x c r)"
proof -
  have "\<exists>us l c r. t = fill us (Nd l x c r)"
    using assms
  proof (induction t)
    case Tip
    then show ?case by simp
  next
    case (Nd l y d r)
    then consider "x = y" | us l' c r' where "l = fill us (Nd l' x c r')" | us l' c r' where "r = fill us (Nd l' x c r')"
      by auto
    then show ?case
    proof cases
      case 1
      then show ?thesis
        by (intro exI [of _ "[]"]) auto
    next
      case 2
      then show ?thesis
        by (intro exI [of _ "us @ [UpL y d r]"] exI [of _ l'] exI [of _ c] exI [of _ r']) simp
    next
      case 3
      then show ?thesis
        by (intro exI [of _ "us @ [UpR l y d]"] exI [of _ l'] exI [of _ c] exI [of _ r']) simp
    qed
  qed
  then show ?thesis
    using that by blast
qed

text \<open>Next to an empty subtree there is at most a red leaf.\<close>

lemma lonely:
  assumes "red_black n (Nd l x c r)"
  shows "l = Tip \<Longrightarrow> r = Tip \<or> c = Black \<and> (\<exists>z. r = Nd Tip z Red Tip)"
    and "r = Tip \<Longrightarrow> l = Tip \<or> c = Black \<and> (\<exists>z. l = Nd Tip z Red Tip)"
proof -
  have leaf: "t = Tip \<or> c = Black \<and> (\<exists>z. t = Nd Tip z Red Tip)"
    if "red_black 0 t" "c = Red \<longrightarrow> hue t = Black" for t
  proof (cases t)
    case (Nd a y d b)
    then have "d = Red" "a = Tip" "b = Tip"
      using that by (cases d; cases a; cases b; auto)+
    then show ?thesis
      using that Nd by (cases c) auto
  qed simp
  show "l = Tip \<Longrightarrow> r = Tip \<or> c = Black \<and> (\<exists>z. r = Nd Tip z Red Tip)"
    using assms leaf [of r] by (cases c) auto
  show "r = Tip \<Longrightarrow> l = Tip \<or> c = Black \<and> (\<exists>z. l = Nd Tip z Red Tip)"
    using assms leaf [of l] by (cases c) auto
qed

lemma erase_both_ok:
  assumes "holds s (fill (ws @ UpR l x c # us) (Nd Tip q d e))" and "l \<noteq> Tip" and "lefts ws = []"
    and "e = Tip \<or> d = Black \<and> e = Nd Tip z Red Tip"
  shows "\<exists>s'. rb_unlink_augmented dummy_callbacks x s = Some (if e = Tip \<and> d = Black then upper (ws @ UpR l q c # us) else 0, s')
    \<and> holds s' (fill (ws @ UpR l q c # us) (if e = Tip then Tip else Nd Tip z Black Tip)) \<and> rb_tree.more s' = rb_tree.more s"
proof -
  consider "ws = []" | y cy sy where "ws = [UpL y cy sy]" | p cp sp mid y cy sy where "ws = UpL p cp sp # mid @ [UpL y cy sy]"
    using assms(3) by (cases ws rule: lefts.cases; cases "tl ws" rule: rev_cases; cases "last ws") auto
  then show ?thesis
  proof cases
    case 1
    then show ?thesis
      using erase_both_direct [of s us l x c q d e z] assms by (cases "e = Tip"; cases d) simp_all
  next
    case 2
    then show ?thesis
      using erase_both_near [of s us l x c q d e y cy sy z] assms by (cases "e = Tip"; cases d) simp_all
  next
    case 3
    then show ?thesis
      using erase_both_far [of s p cp sp mid y cy sy l x c us q d e z] assms by (cases "e = Tip"; cases d) (simp_all del: fill_simps)
  qed
qed

lemma rb_unlink_ok:
  assumes "holds s t" and "rb_ok t" and "x \<in> set (nodes t)"
  shows "unlinked (remove1 x (nodes t)) (rb_tree.more s) (rb_unlink_augmented dummy_callbacks x s)"
proof -
  obtain us l c r where t: "t = fill us (Nd l x c r)"
    using nodeE [OF assms(3)] by blast
  obtain n where rb: "red_black n (Nd l x c r)" "way_ok n us" "c = Red \<longrightarrow> above us = Black"
    using assms(2) by (auto simp: t rb_ok_fill)
  have "x \<notin> set (lefts us)" "x \<notin> set (nodes l)"
    using assms(1) by (auto simp: t holds_fill)
  then have xs: "remove1 x (nodes t) = lefts us @ nodes l @ nodes r @ rights us"
    by (simp add: t remove1_append)
  consider (leaf) "l = Tip" "r = Tip" | (right) y where "l = Tip" "r = Nd Tip y Red Tip" "c = Black"
    | (left) y where "r = Tip" "l = Nd Tip y Red Tip" "c = Black" | (both) "l \<noteq> Tip" "r \<noteq> Tip"
    using lonely [OF rb(1)] by blast
  then show ?thesis
  proof cases
    case leaf
    show ?thesis
    proof (cases c)
      case Red
      then show ?thesis
        using erase_leaf [of s us x c] assms(1) t rb xs leaf
        by (intro unlinked_level [where us = us and t = Tip and n = 0]) auto
    next
      case Black
      then show ?thesis
        using erase_leaf [of s us x c] assms(1) t rb xs leaf
        by (intro unlinked_short [where us = us]) auto
    qed
  next
    case right
    then show ?thesis
      using erase_right_child [of s us x y] assms(1) t rb xs
      by (intro unlinked_level [where us = us and t = "Nd Tip y Black Tip" and n = n]) auto
  next
    case left
    then show ?thesis
      using erase_left_child [of s us y x] assms(1) t rb xs
      by (intro unlinked_level [where us = us and t = "Nd Tip y Black Tip" and n = n]) auto
  next
    case both
    obtain ws q d e where r: "r = fill ws (Nd Tip q d e)" "lefts ws = []"
      using leftmostE [OF both(2)] by blast
    let ?us = "ws @ UpR l q c # us"
    have at: "holds s (fill (ws @ UpR l x c # us) (Nd Tip q d e))"
      using assms(1) by (simp add: t r)
    obtain k where k: "red_black k (Nd Tip q d e)" "way_ok k ?us"
      using assms(2) way_ok_rename [of _ ws l x c us q] rb_ok_fill [of "ws @ UpR l x c # us" "Nd Tip q d e"]
      by (auto simp: t r)
    have order: "remove1 x (nodes t) = nodes (fill ?us e)"
      by (simp add: xs r)
    have "e = Tip \<or> d = Black \<and> (\<exists>z. e = Nd Tip z Red Tip)"
      using lonely(1) [OF k(1)] by simp
    then consider z where "d = Black" "e = Nd Tip z Red Tip" | "d = Black" "e = Tip" | "d = Red" "e = Tip"
      by (cases d) auto
    then show ?thesis
    proof cases
      case 1
      then show ?thesis
        using erase_both_ok [OF at both(1) r(2), of z] k order
        by (intro unlinked_level [where us = ?us and t = "Nd Tip z Black Tip" and n = k]) (auto simp del: fill_simps)
    next
      case 2
      then show ?thesis
        using erase_both_ok [OF at both(1) r(2)] k order
        by (intro unlinked_short [where us = ?us]) (auto simp del: fill_simps)
    next
      case 3
      then show ?thesis
        using erase_both_ok [OF at both(1) r(2)] k order
        by (intro unlinked_level [where us = ?us and t = Tip and n = 0]) (auto simp del: fill_simps)
    qed
  qed
qed

lemma rb_erase_ok:
  assumes "holds s t" and "rb_ok t" and "x \<in> set (nodes t)"
  shows "\<exists>s'. rb_erase x s = Some s' \<and> balanced (remove1 x (nodes t)) (rb_tree.more s) s'"
proof -
  from rb_unlink_ok [OF assms] show ?thesis
    unfolding unlinked_def
  proof (elim disjE exE conjE)
    fix s' assume "rb_unlink_augmented dummy_callbacks x s = Some (0, s')" "balanced (remove1 x (nodes t)) (rb_tree.more s) s'"
    then show ?thesis
      by (simp add: rb_erase_def)
  next
    fix us s' assume s': "rb_unlink_augmented dummy_callbacks x s = Some (upper us, s')" "upper us \<noteq> 0"
      and "short_below (remove1 x (nodes t)) (rb_tree.more s) us 0 s'"
    from erase_loop_ok [OF this(3)] s' show ?thesis
      by (simp add: rb_erase_def rb_erase_color_def)
  qed
qed

end
