(* ===== verification/RbAdd.thy ===== *)
theory RbAdd
  imports RbInsert
begin

text \<open>
  Searching a place for a node and linking it there: the descent from the root along the order of the client,
  and \<open>rb_add\<close> and \<open>rb_find_add\<close>, which link a node and fix the colours.
\<close>

section \<open>Linking a node\<close>

fun link_of :: "up list \<Rightarrow> link" where
  "link_of [] = Root"
| "link_of (UpL x c s # us) = Left x"
| "link_of (UpR s x c # us) = Right x"

lemma read_link_of: "holds s (fill us t) \<Longrightarrow> read_link s (link_of us) = Some (rt t)"
  unfolding holds_fill by (cases us rule: link_of.cases) (auto simp: node_ops)

lemma write_link_of:
  assumes "way_at (rb_mem s) (rb_root s) a us"
  shows "write_link s (link_of us) b = Some (hang s us b)"
  using assms by (cases us rule: link_of.cases) (auto simp: node_ops)

lemma rb_link_node_ok:
  assumes "holds s (fill us Tip)" and "x \<notin> set (nodes (fill us Tip))" and "x \<noteq> 0" and "aligned x" and "rb_mem s x \<noteq> None"
  shows "\<exists>s'. rb_link_node s x (upper us) (link_of us) = Some s' \<and> holds s' (fill us (Nd Tip x Red Tip))
    \<and> rb_tree.more s' = rb_tree.more s"
proof -
  obtain n where n: "rb_mem s x = Some n"
    using assms(5) by blast
  define s1 where "s1 = s\<lparr>rb_mem := (rb_mem s)(x \<mapsto> \<lparr>rb_parent_color = upper us, rb_right = 0, rb_left = 0\<rparr>)\<rparr>"
  have "way_at (rb_mem s1) (rb_root s1) 0 us" and d: "distinct (lefts us @ rights us)"
    using assms(1,2) by (auto simp: s1_def holds_fill)
  moreover have "rb_link_node s x (upper us) (link_of us) = write_link s1 (link_of us) x"
    by (cases n) (simp add: rb_link_node_def node_ops n s1_def)
  ultimately have "rb_link_node s x (upper us) (link_of us) = Some (hang s1 us x)" "way_at (rb_mem (hang s1 us x)) (rb_root (hang s1 us x)) x us"
    by (simp_all add: write_link_of hang_way)
  moreover have "rb_mem (hang s1 us x) x = rb_mem s1 x"
    using assms(2,3) by (intro hang_node) simp
  ultimately show ?thesis
    using assms d by (auto simp: holds_fill s1_def rb_simps)
qed

lemma rb_ok_Tip: "rb_ok (fill us Tip) \<longleftrightarrow> (\<exists>n. n = 0 \<and> way_ok n us)"
  by (simp add: rb_ok_fill)

lemma fix_linked:
  assumes "holds s (fill us (Nd Tip x Red Tip))" and "rb_ok (fill us Tip)"
  shows "\<exists>s'. rb_insert_color x s = Some s' \<and> balanced (lefts us @ x # rights us) (rb_tree.more s) s'"
proof -
  have "red_below (lefts us @ x # rights us) (rb_tree.more s) us x s"
    unfolding red_below_def using assms by (intro conjI exI [of _ Tip] exI [of _ 0]) (auto simp: rb_ok_Tip)
  from insert_loop_ok [OF this] obtain s' where "loop (insert_round dummy_callback) (x, upper us, s) = Some s'"
    "balanced (lefts us @ x # rights us) (rb_tree.more s) s'"
    by blast
  moreover have "rb_red_parent s x = Some (upper us)"
    using assms(1) by (auto simp: holds_fill node_ops rb_simps)
  ultimately show ?thesis
    by (auto simp: rb_insert_color_def rb_insert_augmented_def)
qed

lemma link_and_fix:
  assumes "holds s (fill us Tip)" and "rb_ok (fill us Tip)"
    and "x \<notin> set (nodes (fill us Tip))" and "x \<noteq> 0" and "aligned x" and "rb_mem s x \<noteq> None"
  shows "\<exists>s1 s'. rb_link_node s x (upper us) (link_of us) = Some s1 \<and> rb_insert_color x s1 = Some s'
    \<and> balanced (lefts us @ x # rights us) (rb_tree.more s) s'"
  using rb_link_node_ok [OF assms(1,3-6)] fix_linked [OF _ assms(2), of _ x] by metis

section \<open>The descent\<close>

text \<open>The order of the client as the descent sees it: \<open>before\<close> holds of the nodes that the new node
  goes before, and they follow those it goes behind.\<close>

definition insert_before :: "('a \<Rightarrow> bool) \<Rightarrow> 'a \<Rightarrow> 'a list \<Rightarrow> 'a list" where
  "insert_before before x xs = takeWhile (\<lambda>y. \<not> before y) xs @ x # dropWhile (\<lambda>y. \<not> before y) xs"

lemma insert_before_cut: "\<forall>a\<in>set as. \<not> before a \<Longrightarrow> \<forall>b\<in>set bs. before b \<Longrightarrow> insert_before before x (as @ bs) = as @ x # bs"
  by (cases bs) (simp_all add: insert_before_def takeWhile_append dropWhile_append)

definition rising :: "('a \<Rightarrow> bool) \<Rightarrow> 'a list \<Rightarrow> bool" where
  "rising before xs \<longleftrightarrow> sorted_wrt (\<lambda>a b. before a \<longrightarrow> before b) xs"

lemma rising_split:
  assumes "rising before (as @ y # bs)"
  shows "before y \<Longrightarrow> \<forall>b\<in>set bs. before b" and "\<not> before y \<Longrightarrow> \<forall>a\<in>set as. \<not> before a"
  using assms by (simp_all add: rising_def sorted_wrt_append)

definition cut :: "('a \<Rightarrow> bool) \<Rightarrow> 'a list \<Rightarrow> 'a list \<Rightarrow> bool" where
  "cut before as bs \<longleftrightarrow> (\<forall>a\<in>set as. \<not> before a) \<and> (\<forall>b\<in>set bs. before b)"

lemma add_descent:
  assumes "holds s (fill us t)" and "rising (lt x) (nodes (fill us t))" and "cut (lt x) (lefts us) (rights us)"
  shows "\<exists>vs. loop (add_step lt x s) (link_of us, upper us) = Some (link_of vs, upper vs)
     \<and> fill vs Tip = fill us t \<and> cut (lt x) (lefts vs) (rights vs)"
  using assms
proof (induction t arbitrary: us)
  case Tip
  then show ?case
    by (intro exI [of _ us]) (simp add: loop_stop add_step_def read_link_of)
next
  case (Nd l y c r)
  note y = read_link_of [OF Nd.prems(1)] Nd.prems(1) [unfolded holds_fill]
  have order: "rising (lt x) ((lefts us @ nodes l) @ y # (nodes r @ rights us))"
    using Nd.prems(2) by simp
  show ?case
  proof (cases "lt x y")
    case True
    then have "cut (lt x) (lefts (UpL y c r # us)) (rights (UpL y c r # us))"
      using rising_split(1) [OF order] Nd.prems(3) by (simp add: cut_def)
    moreover have "loop (add_step lt x s) (link_of us, upper us) = loop (add_step lt x s) (link_of (UpL y c r # us), upper (UpL y c r # us))"
      by (rule loop_next) (use y True in \<open>simp add: add_step_def\<close>)
    ultimately show ?thesis
      using Nd.IH(1) [of "UpL y c r # us"] Nd.prems(1,2) by simp
  next
    case False
    then have "cut (lt x) (lefts (UpR l y c # us)) (rights (UpR l y c # us))"
      using rising_split(2) [OF order] Nd.prems(3) by (simp add: cut_def ball_Un)
    moreover have "loop (add_step lt x s) (link_of us, upper us) = loop (add_step lt x s) (link_of (UpR l y c # us), upper (UpR l y c # us))"
      by (rule loop_next) (use y False in \<open>simp add: add_step_def\<close>)
    ultimately show ?thesis
      using Nd.IH(2) [of "UpR l y c # us"] Nd.prems(1,2) by simp
  qed
qed

lemma rb_add_ok:
  assumes "holds s t" and "rb_ok t" and "x \<notin> set (nodes t)" and "x \<noteq> 0" and "aligned x" and "rb_mem s x \<noteq> None"
    and "rising (lt x) (nodes t)"
  shows "\<exists>s'. rb_add lt x s = Some s' \<and> balanced (insert_before (lt x) x (nodes t)) (rb_tree.more s) s'"
proof -
  obtain vs where vs: "loop (add_step lt x s) (Root, 0) = Some (link_of vs, upper vs)"
     "fill vs Tip = t" "cut (lt x) (lefts vs) (rights vs)"
    using add_descent [of s "[]" t lt x] assms(1,7) by (auto simp: cut_def)
  have "insert_before (lt x) x (nodes t) = lefts vs @ x # rights vs"
    using vs(2,3) insert_before_cut [of "lefts vs" "lt x" "rights vs" x] by (auto simp: cut_def)
  then show ?thesis
    using link_and_fix [of s vs x] assms vs(1,2) by (auto simp: rb_add_def)
qed

section \<open>Three-way comparisons\<close>

text \<open>Along the nodes the comparison with the key is positive, then zero, then negative.\<close>

definition falling :: "('a \<Rightarrow> int) \<Rightarrow> 'a list \<Rightarrow> bool" where
  "falling c xs \<longleftrightarrow> sorted_wrt (\<lambda>a b. sgn (c b) \<le> sgn (c a)) xs"

lemma falling_split:
  assumes "falling c (as @ y # bs)"
  shows "c y < 0 \<Longrightarrow> \<forall>b\<in>set bs. c b < 0" and "0 < c y \<Longrightarrow> \<forall>a\<in>set as. 0 < c a"
    and "c y \<le> 0 \<Longrightarrow> \<forall>b\<in>set bs. c b \<le> 0"
  using assms by (force simp: falling_def sorted_wrt_append sgn_if split: if_splits)+

lemma falling_parts: "falling c (as @ y # bs) \<Longrightarrow> falling c as \<and> falling c bs"
  by (simp add: falling_def sorted_wrt_append)

definition around :: "('a \<Rightarrow> int) \<Rightarrow> 'a list \<Rightarrow> 'a list \<Rightarrow> bool" where
  "around c as bs \<longleftrightarrow> (\<forall>a\<in>set as. 0 < c a) \<and> (\<forall>b\<in>set bs. c b < 0)"

lemma find_add_descent:
  assumes "holds s (fill us t)" and "falling (cmp x) (nodes (fill us t))" and "around (cmp x) (lefts us) (rights us)"
  shows "(\<exists>a\<in>set (nodes (fill us t)). cmp x a = 0 \<and> loop (find_add_step cmp x s) (link_of us, upper us) = Some (Inl a))
    \<or> (\<exists>vs. loop (find_add_step cmp x s) (link_of us, upper us) = Some (Inr (link_of vs, upper vs))
        \<and> fill vs Tip = fill us t \<and> around (cmp x) (lefts vs) (rights vs))"
  using assms
proof (induction t arbitrary: us)
  case Tip
  then show ?case
    by (intro disjI2 exI [of _ us]) (simp add: loop_stop find_add_step_def read_link_of)
next
  case (Nd l y c r)
  note y = read_link_of [OF Nd.prems(1)] Nd.prems(1) [unfolded holds_fill]
  have order: "falling (cmp x) ((lefts us @ nodes l) @ y # (nodes r @ rights us))"
    using Nd.prems(2) by simp
  consider "cmp x y < 0" | "0 < cmp x y" | "cmp x y = 0"
    by linarith
  then show ?case
  proof cases
    case 1
    then have "around (cmp x) (lefts (UpL y c r # us)) (rights (UpL y c r # us))"
      using falling_split(1) [OF order] Nd.prems(3) by (simp add: around_def)
    moreover have "loop (find_add_step cmp x s) (link_of us, upper us) =
        loop (find_add_step cmp x s) (link_of (UpL y c r # us), upper (UpL y c r # us))"
      by (rule loop_next) (use y 1 in \<open>simp add: find_add_step_def\<close>)
    ultimately show ?thesis
      using Nd.IH(1) [of "UpL y c r # us"] Nd.prems(1,2) by simp
  next
    case 2
    then have "around (cmp x) (lefts (UpR l y c # us)) (rights (UpR l y c # us))"
      using falling_split(2) [OF order] Nd.prems(3) by (simp add: around_def ball_Un)
    moreover have "loop (find_add_step cmp x s) (link_of us, upper us) =
        loop (find_add_step cmp x s) (link_of (UpR l y c # us), upper (UpR l y c # us))"
      by (rule loop_next) (use y 2 in \<open>simp add: find_add_step_def\<close>)
    ultimately show ?thesis
      using Nd.IH(2) [of "UpR l y c # us"] Nd.prems(1,2) by simp
  next
    case 3
    then have "loop (find_add_step cmp x s) (link_of us, upper us) = Some (Inl y)"
      using y by (intro loop_stop) (simp add: find_add_step_def)
    then show ?thesis
      using 3 by (intro disjI1 bexI [of _ y]) simp_all
  qed
qed

lemma find_add_loop:
  assumes "holds s t" and "rb_ok t" and "x \<notin> set (nodes t)" and "x \<noteq> 0" and "aligned x" and "rb_mem s x \<noteq> None"
    and "falling (cmp x) (nodes t)"
  shows "if \<exists>a\<in>set (nodes t). cmp x a = 0
    then \<exists>a\<in>set (nodes t). cmp x a = 0 \<and> loop (find_add_step cmp x s) (Root, 0) = Some (Inl a)
    else \<exists>link p s1 s'. loop (find_add_step cmp x s) (Root, 0) = Some (Inr (link, p)) \<and> rb_link_node s x p link = Some s1
      \<and> rb_insert_color x s1 = Some s' \<and> balanced (insert_before (\<lambda>a. cmp x a < 0) x (nodes t)) (rb_tree.more s) s'"
proof -
  consider a where "a \<in> set (nodes t)" "cmp x a = 0" "loop (find_add_step cmp x s) (Root, 0) = Some (Inl a)"
    | vs where "loop (find_add_step cmp x s) (Root, 0) = Some (Inr (link_of vs, upper vs))"
        "fill vs Tip = t" "around (cmp x) (lefts vs) (rights vs)"
    using find_add_descent [of s "[]" t cmp x] assms(1,7) by (auto simp: around_def)
  then show ?thesis
  proof cases
    case 1
    then show ?thesis
      by auto
  next
    case 2
    have "nodes t = lefts vs @ rights vs"
      using 2(2) by auto
    moreover have "\<forall>a\<in>set (nodes t). cmp x a \<noteq> 0"
      using 2(3) by (auto simp: around_def calculation)
    moreover have "insert_before (\<lambda>a. cmp x a < 0) x (lefts vs @ rights vs) = lefts vs @ x # rights vs"
      using 2(3) by (intro insert_before_cut) (auto simp: around_def)
    ultimately show ?thesis
      using link_and_fix [of s vs x] assms 2(1,2) by auto
  qed
qed

text \<open>A node that compares equal is answered and nothing changes; otherwise the new node goes to its place.\<close>

lemma rb_find_add_ok:
  assumes "holds s t" and "rb_ok t" and "x \<notin> set (nodes t)" and "x \<noteq> 0" and "aligned x" and "rb_mem s x \<noteq> None"
    and "falling (cmp x) (nodes t)"
  shows "if \<exists>a\<in>set (nodes t). cmp x a = 0
    then \<exists>a\<in>set (nodes t). cmp x a = 0 \<and> rb_find_add cmp x s = Some (a, s)
    else \<exists>s'. rb_find_add cmp x s = Some (0, s') \<and> balanced (insert_before (\<lambda>a. cmp x a < 0) x (nodes t)) (rb_tree.more s) s'"
  using find_add_loop [OF assms(1-6), of cmp] assms(7) unfolding rb_find_add_def by (auto split: if_splits)

end
