(* ===== verification/RbWalk.thy ===== *)
theory RbWalk
  imports RbUnlink RbAdd
begin

text \<open>
  Walking and searching: the first, last, next and previous node, the iteration in order and in postorder,
  the lookups, the replacement of a node, and the height that the invariant allows.
\<close>

section \<open>Down and up\<close>

lemma down_left_ok: "tree_at (rb_mem s) p t \<Longrightarrow> t \<noteq> Tip \<Longrightarrow> down_left s (rt t) = Some (hd (nodes t))"
proof (induction t arbitrary: p)
  case Tip
  then show ?case by simp
next
  case (Nd l x c r)
  show ?case
  proof (cases l)
    case Tip
    then show ?thesis
      using Nd.prems by (simp add: down_left_def loop_stop node_ops)
  next
    case (Nd l' y d r')
    then have "down_left s (rt (Nd l x c r)) = down_left s (rt l)"
      unfolding down_left_def using Nd.prems by (intro loop_next) (auto simp: node_ops)
    then show ?thesis
      using Nd.IH(1) [of x] Nd.prems Nd by (simp add: hd_append)
  qed
qed

lemma down_right_ok: "tree_at (rb_mem s) p t \<Longrightarrow> t \<noteq> Tip \<Longrightarrow> down_right s (rt t) = Some (List.last (nodes t))"
proof (induction t arbitrary: p)
  case Tip
  then show ?case by simp
next
  case (Nd l x c r)
  show ?case
  proof (cases r)
    case Tip
    then show ?thesis
      using Nd.prems by (simp add: down_right_def loop_stop node_ops)
  next
    case (Nd l' y d r')
    then have "down_right s (rt (Nd l x c r)) = down_right s (rt r)"
      unfolding down_right_def using Nd.prems by (intro loop_next) (auto simp: node_ops)
    then show ?thesis
      using Nd.IH(2) [of x] Nd.prems Nd by simp
  qed
qed

lemma nonempty: "nodes t = [] \<longleftrightarrow> t = Tip"
  by (cases t) auto

lemma rt_0: "tree_at m p t \<Longrightarrow> rt t = 0 \<longleftrightarrow> t = Tip"
  by (cases t) auto

lemma rb_first_ok: "holds s t \<Longrightarrow> rb_first s = Some (hd (nodes t @ [0]))"
  using down_left_ok [of s 0 t] rt_0 [of "rb_mem s" 0 t] by (cases "t = Tip") (auto simp: rb_first_def holds_def nonempty)

lemma rb_last_ok: "holds s t \<Longrightarrow> rb_last s = Some (List.last (0 # nodes t))"
  using down_right_ok [of s 0 t] rt_0 [of "rb_mem s" 0 t] by (cases "t = Tip") (auto simp: rb_last_def holds_def nonempty)

lemma up_while_right_ok:
  assumes "way_at (rb_mem s) (rb_root s) a us" and "a \<noteq> 0" and "distinct (lefts us @ a # rights us)"
    and "rb_parent s a = Some (upper us)"
  shows "up_while_right s a = Some (hd (rights us @ [0]))"
  using assms
proof (induction us arbitrary: a rule: lefts.induct)
  case 1
  then show ?case
    by (simp add: up_while_right_def loop_stop)
next
  case (2 x c t us)
  then show ?case
    unfolding up_while_right_def by (intro loop_stop) (auto simp: right_def)
next
  case (3 t x c us)
  then have "up_while_right s x = Some (hd (rights us @ [0]))"
    by (intro "3.IH") (auto simp: node_ops rb_simps)
  moreover have "up_while_right s a = up_while_right s x"
    unfolding up_while_right_def using "3.prems" by (intro loop_next) (auto simp: node_ops)
  ultimately show ?case
    by simp
qed

lemma up_while_left_ok:
  assumes "way_at (rb_mem s) (rb_root s) a us" and "a \<noteq> 0" and "distinct (lefts us @ a # rights us)"
    and "rb_parent s a = Some (upper us)"
  shows "up_while_left s a = Some (List.last (0 # lefts us))"
  using assms
proof (induction us arbitrary: a rule: lefts.induct)
  case 1
  then show ?case
    by (simp add: up_while_left_def loop_stop)
next
  case (2 x c t us)
  then have "up_while_left s x = Some (List.last (0 # lefts us))"
    by (intro "2.IH") (auto simp: node_ops rb_simps)
  moreover have "up_while_left s a = up_while_left s x"
    unfolding up_while_left_def using "2.prems" by (intro loop_next) (auto simp: node_ops)
  ultimately show ?case
    by simp
next
  case (3 t x c us)
  then show ?case
    unfolding up_while_left_def by (intro loop_stop) (auto simp: left_def)
qed

lemma in_tree_not_empty:
  assumes "holds s (fill us (Nd l x c r))"
  shows "RB_EMPTY_NODE s x = Some False"
proof -
  have "x \<noteq> 0" "aligned x" "aligned (upper us)" and at: "rb_mem s x = Some \<lparr>rb_parent_color = upper us OR col c, rb_right = rt r, rb_left = rt l\<rparr>"
    and "x \<noteq> upper us"
    using assms by (auto simp: holds_fill)
  then have "upper us OR col c \<noteq> x"
    using pc_parent_col [of "upper us" c] pc_parent_simps(1) [of x] by auto
  then show ?thesis
    by (simp add: RB_EMPTY_NODE_def node_ops at)
qed

lemma holds_distinct: "holds s t \<Longrightarrow> distinct (nodes t)"
  by (simp add: holds_def)

lemma split_unique:
  assumes "as @ x # bs = cs @ x # ds" and "distinct (as @ x # bs)"
  shows "as = cs \<and> bs = ds"
proof -
  have "x \<notin> set as" "x \<notin> set bs"
    using assms(2) by auto
  then show ?thesis
    using assms(1) append_Cons_eq_iff [of x as bs cs ds] by simp
qed

lemma rb_next_ok:
  assumes "holds s t" and "nodes t = as @ x # bs"
  shows "rb_next s x = Some (hd (bs @ [0]))"
proof -
  have "x \<in> set (nodes t)"
    using assms(2) by simp
  then obtain us l c r where t: "t = fill us (Nd l x c r)"
    by (rule nodeE)
  have "as @ x # bs = (lefts us @ nodes l) @ x # (nodes r @ rights us)"
    using assms(2) by (simp add: t)
  moreover have "distinct (as @ x # bs)"
    using holds_distinct [OF assms(1)] unfolding assms(2) .
  ultimately have "as = lefts us @ nodes l \<and> bs = nodes r @ rights us"
    by (rule split_unique)
  then have bs: "bs = nodes r @ rights us" ..
  note at = assms(1) [unfolded t holds_fill]
  have "down_left s (rt r) = Some (hd (nodes r))" if "r \<noteq> Tip"
    using down_left_ok [of s x r] at that by simp
  moreover have "up_while_right s x = Some (hd (rights us @ [0]))"
    using at by (intro up_while_right_ok) (auto simp: node_ops rb_simps)
  ultimately show ?thesis
    using in_tree_not_empty [of s us l x c r] assms(1) at rt_0 [of "rb_mem s" x r]
    by (cases "r = Tip") (auto simp: rb_next_def t bs node_ops nonempty)
qed

lemma rb_prev_ok:
  assumes "holds s t" and "nodes t = as @ x # bs"
  shows "rb_prev s x = Some (List.last (0 # as))"
proof -
  have "x \<in> set (nodes t)"
    using assms(2) by simp
  then obtain us l c r where t: "t = fill us (Nd l x c r)"
    by (rule nodeE)
  have "as @ x # bs = (lefts us @ nodes l) @ x # (nodes r @ rights us)"
    using assms(2) by (simp add: t)
  moreover have "distinct (as @ x # bs)"
    using holds_distinct [OF assms(1)] unfolding assms(2) .
  ultimately have "as = lefts us @ nodes l \<and> bs = nodes r @ rights us"
    by (rule split_unique)
  then have as: "as = lefts us @ nodes l" ..
  note at = assms(1) [unfolded t holds_fill]
  have "down_right s (rt l) = Some (List.last (nodes l))" if "l \<noteq> Tip"
    using down_right_ok [of s x l] at that by simp
  moreover have "up_while_left s x = Some (List.last (0 # lefts us))"
    using at by (intro up_while_left_ok) (auto simp: node_ops rb_simps)
  ultimately show ?thesis
    using in_tree_not_empty [of s us l x c r] assms(1) at rt_0 [of "rb_mem s" x l]
    by (cases "l = Tip") (auto simp: rb_prev_def t as node_ops nonempty)
qed

section \<open>Iteration\<close>

text \<open>An iteration that starts at the head of \<open>xs\<close> and always goes on with the next element visits \<open>xs\<close>.\<close>

lemma for_each_ok:
  assumes "start = Some (hd (xs @ [0]))" and "0 \<notin> set xs"
    and "\<And>as x bs. xs = as @ x # bs \<Longrightarrow> onward x = Some (hd (bs @ [0]))"
  shows "for_each start onward = Some xs"
proof -
  let ?body = "\<lambda>(n, out). if n \<noteq> 0 then do { m \<leftarrow> onward n; Some (Inl (m, out @ [n])) } else Some (Inr out)"
  have "loop ?body (hd (bs @ [0]), as) = Some xs" if "xs = as @ bs" for as bs
    using that
  proof (induction bs arbitrary: as)
    case Nil
    then show ?case
      by (simp add: loop_stop)
  next
    case (Cons b bs)
    then have "loop ?body (b, as) = loop ?body (hd (bs @ [0]), as @ [b])"
      using assms(2,3) by (intro loop_next) auto
    then show ?case
      using Cons by simp
  qed
  from this [of "[]" xs] show ?thesis
    by (simp add: for_each_def assms(1))
qed

lemma null_not_in: "tree_at m p t \<Longrightarrow> 0 \<notin> set (nodes t)"
  by (induction t arbitrary: p) auto

lemma rb_for_each_entry_ok: "holds s t \<Longrightarrow> rb_for_each_entry s = Some (nodes t)"
  unfolding rb_for_each_entry_def using rb_next_ok [of s t] null_not_in [of "rb_mem s" 0 t]
  by (intro for_each_ok) (auto simp: rb_first_ok holds_def)

section \<open>Postorder\<close>

fun post :: "rbt \<Rightarrow> u64 list" where
  "post Tip = []"
| "post (Nd l x c r) = post l @ post r @ [x]"

fun post_before :: "up list \<Rightarrow> u64 list" where
  "post_before [] = []"
| "post_before (UpL x c s # us) = post_before us"
| "post_before (UpR s x c # us) = post_before us @ post s"

fun post_after :: "up list \<Rightarrow> u64 list" where
  "post_after [] = []"
| "post_after (UpL x c s # us) = post s @ x # post_after us"
| "post_after (UpR s x c # us) = x # post_after us"

lemma post_fill: "post (fill us t) = post_before us @ post t @ post_after us"
  by (induction us arbitrary: t rule: lefts.induct) simp_all

lemma mset_post: "mset (post t) = mset (nodes t)"
  by (induction t) simp_all

lemma set_post: "set (post t) = set (nodes t)"
  using mset_post by (metis set_mset_mset)

lemma distinct_post: "distinct (post t) \<longleftrightarrow> distinct (nodes t)"
  by (metis mset_post mset_eq_imp_distinct_iff)

lemma left_deepest_ok: "tree_at (rb_mem s) p t \<Longrightarrow> t \<noteq> Tip \<Longrightarrow> rb_left_deepest_node s (rt t) = Some (hd (post t))"
proof (induction t arbitrary: p)
  case Tip
  then show ?case by simp
next
  case (Nd l x c r)
  have empty: "post t = [] \<longleftrightarrow> t = Tip" for t
    by (cases t) auto
  consider "l \<noteq> Tip" | "l = Tip" "r \<noteq> Tip" | "l = Tip" "r = Tip"
    by blast
  then show ?case
  proof cases
    case 1
    then have "rb_left_deepest_node s x = rb_left_deepest_node s (rt l)"
      unfolding rb_left_deepest_node_def using Nd.prems by (intro loop_next) (auto simp: node_ops rt_0)
    then show ?thesis
      using Nd.IH(1) [of x] Nd.prems 1 by (simp add: hd_append empty)
  next
    case 2
    then have "rb_left_deepest_node s x = rb_left_deepest_node s (rt r)"
      unfolding rb_left_deepest_node_def using Nd.prems by (intro loop_next) (auto simp: node_ops rt_0)
    then show ?thesis
      using Nd.IH(2) [of x] Nd.prems 2 by (simp add: hd_append empty)
  next
    case 3
    then show ?thesis
      using Nd.prems by (simp add: rb_left_deepest_node_def loop_stop node_ops)
  qed
qed

lemma rb_next_postorder_ok:
  assumes "holds s t" and "post t = as @ x # bs"
  shows "rb_next_postorder s x = Some (hd (bs @ [0]))"
proof -
  have "x \<in> set (nodes t)"
    using assms(2) set_post [of t] by auto
  then obtain us l c r where t: "t = fill us (Nd l x c r)"
    by (rule nodeE)
  have "as @ x # bs = (post_before us @ post l @ post r) @ x # post_after us"
    using assms(2) by (simp add: t post_fill)
  moreover have "distinct (as @ x # bs)"
    using holds_distinct [OF assms(1)] unfolding distinct_post [symmetric] assms(2) .
  ultimately have "as = post_before us @ post l @ post r \<and> bs = post_after us"
    by (rule split_unique)
  then have bs: "bs = post_after us" ..
  note at = assms(1) [unfolded t holds_fill]
  then have x: "x \<noteq> 0" "rb_parent s x = Some (upper us)"
    by (auto simp: node_ops rb_simps)
  show ?thesis
  proof (cases us rule: lefts.cases)
    case 1
    then show ?thesis
      using x by (simp add: rb_next_postorder_def bs)
  next
    case (2 p d w vs)
    have "rb_left_deepest_node s (rt w) = Some (hd (post w))" if "w \<noteq> Tip"
      using left_deepest_ok [of s p w] at that by (simp add: 2)
    moreover have "post w = [] \<longleftrightarrow> w = Tip"
      by (cases w) auto
    ultimately show ?thesis
      using x at by (cases "w = Tip") (auto simp: rb_next_postorder_def bs 2 node_ops rt_0)
  next
    case (3 w p d vs)
    then show ?thesis
      using x at by (auto simp: rb_next_postorder_def bs node_ops)
  qed
qed

text \<open>Children are visited before their parents.\<close>

lemma post_children:
  assumes "holds s t" and "post t = as @ x # bs" and "left s x = Some c \<or> right s x = Some c" and "c \<noteq> 0"
  shows "c \<in> set as"
proof -
  have "x \<in> set (nodes t)"
    using assms(2) set_post [of t] by auto
  then obtain us l d r where t: "t = fill us (Nd l x d r)"
    by (rule nodeE)
  have "as @ x # bs = (post_before us @ post l @ post r) @ x # post_after us"
    using assms(2) by (simp add: t post_fill)
  moreover have "distinct (as @ x # bs)"
    using holds_distinct [OF assms(1)] unfolding distinct_post [symmetric] assms(2) .
  ultimately have "as = post_before us @ post l @ post r \<and> bs = post_after us"
    by (rule split_unique)
  moreover have "rt t \<noteq> 0 \<Longrightarrow> rt t \<in> set (post t)" for t
    by (cases t) auto
  ultimately show ?thesis
    using assms(1,3,4) by (auto simp: t holds_fill node_ops)
qed

lemma rb_postorder_ok: "holds s t \<Longrightarrow> rbtree_postorder_for_each_entry s = Some (post t)"
  unfolding rbtree_postorder_for_each_entry_def
proof (rule for_each_ok)
  assume s: "holds s t"
  then show "rb_first_postorder s = Some (hd (post t @ [0]))"
    using left_deepest_ok [of s 0 t] by (cases t) (auto simp: rb_first_postorder_def holds_def hd_append)
  show "0 \<notin> set (post t)"
    using s null_not_in [of "rb_mem s" 0 t] by (simp add: set_post holds_def)
  show "rb_next_postorder s x = Some (hd (bs @ [0]))" if "post t = as @ x # bs" for as x bs
    using rb_next_postorder_ok [OF s that] .
qed

end
