(* ===== verification/RbSearch.thy ===== *)
theory RbSearch
  imports RbWalk
begin

text \<open>
  Lookups by a three-way comparison, the iteration over the nodes equal to a key, the replacement of a node in
  place, and the height of the trees.
\<close>

section \<open>Lookups\<close>

lemma rb_find_from:
  assumes "tree_at (rb_mem s) p t" and "falling (cmp k) (nodes t)"
  shows "\<exists>a. loop (find_step cmp k s) (rt t) = Some a
    \<and> (if \<exists>y\<in>set (nodes t). cmp k y = 0 then a \<in> set (nodes t) \<and> cmp k a = 0 else a = 0)"
  using assms
proof (induction t arbitrary: p)
  case Tip
  then show ?case
    by (simp add: loop_stop find_step_def)
next
  case (Nd l x c r)
  have parts: "falling (cmp k) (nodes l)" "falling (cmp k) (nodes r)"
    using falling_parts [of "cmp k" "nodes l" x "nodes r"] Nd.prems(2) by auto
  consider "cmp k x < 0" | "0 < cmp k x" | "cmp k x = 0"
    by linarith
  then show ?case
  proof cases
    case 1
    then have "loop (find_step cmp k s) x = loop (find_step cmp k s) (rt l)"
      using Nd.prems(1) by (intro loop_next) (auto simp: find_step_def node_ops)
    moreover have "\<forall>y\<in>set (nodes r). cmp k y \<noteq> 0"
      using falling_split(1) [of "cmp k" "nodes l" x "nodes r"] Nd.prems(2) 1 by force
    ultimately show ?thesis
      using Nd.IH(1) [of x] Nd.prems(1) parts 1 by (auto split: if_splits)
  next
    case 2
    then have "loop (find_step cmp k s) x = loop (find_step cmp k s) (rt r)"
      using Nd.prems(1) by (intro loop_next) (auto simp: find_step_def node_ops)
    moreover have "\<forall>y\<in>set (nodes l). cmp k y \<noteq> 0"
      using falling_split(2) [of "cmp k" "nodes l" x "nodes r"] Nd.prems(2) 2 by force
    ultimately show ?thesis
      using Nd.IH(2) [of x] Nd.prems(1) parts 2 by (auto split: if_splits)
  next
    case 3
    then show ?thesis
      using Nd.prems(1) by (simp add: loop_stop find_step_def)
  qed
qed

lemma rb_find_ok:
  assumes "holds s t" and "falling (cmp k) (nodes t)"
  shows "\<exists>a. rb_find cmp k s = Some a
    \<and> (if \<exists>y\<in>set (nodes t). cmp k y = 0 then a \<in> set (nodes t) \<and> cmp k a = 0 else a = 0)"
  using rb_find_from [of s 0 t cmp k] assms by (simp add: rb_find_def holds_def)

text \<open>The nodes that compare equal.\<close>

definition matches :: "('k \<Rightarrow> u64 \<Rightarrow> int) \<Rightarrow> 'k \<Rightarrow> u64 list \<Rightarrow> u64 list" where
  "matches cmp k xs = filter (\<lambda>y. cmp k y = 0) xs"

lemma matches_simps [simp]:
  "matches cmp k [] = []" "matches cmp k (xs @ ys) = matches cmp k xs @ matches cmp k ys"
  "matches cmp k (y # ys) = (if cmp k y = 0 then y # matches cmp k ys else matches cmp k ys)"
  by (simp_all add: matches_def)

lemma no_matches: "(\<And>y. y \<in> set xs \<Longrightarrow> cmp k y \<noteq> 0) \<Longrightarrow> matches cmp k xs = []"
  by (simp add: matches_def)

lemma rb_find_first_from:
  assumes "tree_at (rb_mem s) p t" and "falling (cmp k) (nodes t)"
  shows "loop (find_first_step cmp k s) (rt t, m) = Some (hd (matches cmp k (nodes t) @ [m]))"
  using assms
proof (induction t arbitrary: p m)
  case Tip
  then show ?case
    by (simp add: loop_stop find_first_step_def)
next
  case (Nd l x c r)
  have parts: "falling (cmp k) (nodes l)" "falling (cmp k) (nodes r)"
    using falling_parts [of "cmp k" "nodes l" x "nodes r"] Nd.prems(2) by auto
  note split = falling_split [of "cmp k" "nodes l" x "nodes r"]
  show ?case
  proof (cases "cmp k x \<le> 0")
    case True
    have "matches cmp k (nodes r) = []" if "cmp k x < 0"
      using split(1) Nd.prems(2) that by (intro no_matches) force
    moreover have "loop (find_first_step cmp k s) (x, m) = loop (find_first_step cmp k s) (rt l, if cmp k x = 0 then x else m)"
      using Nd.prems(1) True by (intro loop_next) (auto simp: find_first_step_def node_ops)
    ultimately show ?thesis
      using Nd.IH(1) [of x] Nd.prems(1) parts True by (auto simp: hd_append)
  next
    case False
    have "matches cmp k (nodes l) = []"
      using split(2) Nd.prems(2) False by (intro no_matches) force
    moreover have "loop (find_first_step cmp k s) (x, m) = loop (find_first_step cmp k s) (rt r, m)"
      using Nd.prems(1) False by (intro loop_next) (auto simp: find_first_step_def node_ops)
    ultimately show ?thesis
      using Nd.IH(2) [of x] Nd.prems(1) parts False by auto
  qed
qed

lemma rb_find_first_ok:
  assumes "holds s t" and "falling (cmp k) (nodes t)"
  shows "rb_find_first cmp k s = Some (hd (matches cmp k (nodes t) @ [0]))"
  using rb_find_first_from [of s 0 t cmp k 0] assms by (simp add: rb_find_first_def holds_def)

text \<open>In a list with the order of the comparison the matches stand together.\<close>

lemma falling_matches:
  assumes "falling (cmp k) xs"
  obtains as bs where "xs = as @ matches cmp k xs @ bs" and "\<forall>b\<in>set bs. cmp k b \<noteq> 0"
proof -
  have "\<exists>as bs. xs = as @ matches cmp k xs @ bs \<and> (\<forall>b\<in>set bs. cmp k b \<noteq> 0) \<and> (\<forall>a\<in>set as. 0 < cmp k a)"
    using assms
  proof (induction xs)
    case Nil
    then show ?case by simp
  next
    case (Cons x xs)
    then obtain as bs where xs: "xs = as @ matches cmp k xs @ bs" "\<forall>b\<in>set bs. cmp k b \<noteq> 0" "\<forall>a\<in>set as. 0 < cmp k a"
      by (auto simp: falling_def)
    note order = falling_split [of "cmp k" "[]" x xs]
    consider "cmp k x < 0" | "0 < cmp k x" | "cmp k x = 0"
      by linarith
    then show ?case
    proof cases
      case 1
      then have "\<forall>y\<in>set xs. cmp k y \<noteq> 0"
        using order(1) Cons.prems by force
      then show ?thesis
        using 1 no_matches [of xs cmp k] by (intro exI [of _ "[]"] exI [of _ "x # xs"]) simp
    next
      case 2
      then show ?thesis
        using xs by (intro exI [of _ "x # as"] exI [of _ bs]) simp
    next
      case 3
      have "\<forall>a\<in>set xs. cmp k a \<le> 0"
        using order(3) Cons.prems 3 by simp
      moreover have "set as \<subseteq> set xs"
        using xs(1) by (metis Un_upper1 set_append)
      ultimately have "as = []"
        using xs(3) by (cases as) force+
      then show ?thesis
        using xs 3 by (intro exI [of _ "[]"] exI [of _ bs]) simp
    qed
  qed
  then show ?thesis
    using that by blast
qed

lemma rb_for_each_ok:
  assumes "holds s t" and "falling (cmp k) (nodes t)"
  shows "rb_for_each cmp k s = Some (matches cmp k (nodes t))"
  unfolding rb_for_each_def
proof (rule for_each_ok)
  show "rb_find_first cmp k s = Some (hd (matches cmp k (nodes t) @ [0]))"
    using rb_find_first_ok [of s t cmp k] assms by blast
  have "0 \<notin> set (nodes t)"
    using assms(1) null_not_in [of "rb_mem s" 0 t] by (simp add: holds_def)
  then show "0 \<notin> set (matches cmp k (nodes t))"
    by (simp add: matches_def)
  fix as x bs assume ms: "matches cmp k (nodes t) = as @ x # bs"
  obtain bef aft where t: "nodes t = bef @ matches cmp k (nodes t) @ aft" and aft: "\<forall>b\<in>set aft. cmp k b \<noteq> 0"
    using falling_matches [of cmp k "nodes t"] assms(2) by blast
  have "nodes t = (bef @ as) @ x # (bs @ aft)"
    using t ms by simp
  then have "rb_next s x = Some (hd (bs @ aft @ [0]))"
    using rb_next_ok [OF assms(1), of "bef @ as" x "bs @ aft"] by simp
  moreover have "cmp k b = 0 \<and> b \<noteq> 0" if "b \<in> set bs" for b
  proof -
    have "b \<in> set (matches cmp k (nodes t))"
      using that by (simp add: ms)
    then show ?thesis
      using \<open>0 \<notin> set (nodes t)\<close> by (auto simp: matches_def)
  qed
  ultimately show "rb_next_match cmp k s x = Some (hd (bs @ [0]))"
    using aft by (cases bs; cases aft) (auto simp: rb_next_match_def)
qed

section \<open>Replacing a node\<close>

lemma replace_at:
  assumes "holds s (fill us (Nd l x c r))" and "y \<notin> set (nodes (fill us (Nd l x c r)))" and "y \<noteq> 0" and "aligned y"
    and "rb_mem s y \<noteq> None"
  shows "\<exists>s'. rb_replace_node x y s = Some s' \<and> holds s' (fill us (Nd l y c r)) \<and> rb_tree.more s' = rb_tree.more s"
  by (insert assms [unfolded holds_fill] upper_aligned [of "rb_mem s" "rb_root s" x us];
    cases "rb_mem s y"; cases l; cases r; simp del: fill_simps add: splits_disjoint; elim conjE;
    simp (no_asm_simp) add: rb_replace_node_def Let_def node_ops rb_simps change_child_hang cong: bind_weak_cong;
    simp (no_asm_simp) add: holds_exec)

lemma rb_ok_rename: "rb_ok (fill us (Nd l x c r)) = rb_ok (fill us (Nd l y c r))"
  by (cases c) (simp_all add: rb_ok_fill)

lemma rb_replace_ok:
  assumes "holds s t" and "rb_ok t" and "nodes t = as @ x # bs" and "y \<notin> set (nodes t)" and "y \<noteq> 0" and "aligned y"
    and "rb_mem s y \<noteq> None"
  shows "\<exists>s'. rb_replace_node x y s = Some s' \<and> balanced (as @ y # bs) (rb_tree.more s) s'"
proof -
  have "x \<in> set (nodes t)"
    using assms(3) by simp
  then obtain us l c r where t: "t = fill us (Nd l x c r)"
    by (rule nodeE)
  have "as @ x # bs = (lefts us @ nodes l) @ x # (nodes r @ rights us)"
    using assms(3) by (simp add: t)
  moreover have "distinct (as @ x # bs)"
    using holds_distinct [OF assms(1)] unfolding assms(3) .
  ultimately have "as = lefts us @ nodes l \<and> bs = nodes r @ rights us"
    by (rule split_unique)
  then have order: "nodes (fill us (Nd l y c r)) = as @ y # bs"
    by simp
  obtain s' where "rb_replace_node x y s = Some s'" "holds s' (fill us (Nd l y c r))" "rb_tree.more s' = rb_tree.more s"
    using replace_at [of s us l x c r y] assms(1,4-7) unfolding t by blast
  moreover have "rb_ok (fill us (Nd l y c r))"
    using assms(2) rb_ok_rename [of us l x c r y] by (simp add: t)
  ultimately show ?thesis
    using order balancedI by metis
qed

section \<open>The height\<close>

text \<open>The parent links from a node up; \<open>climb s a k\<close> follows \<open>k\<close> of them.\<close>

fun climb :: "'z rb_tree_scheme \<Rightarrow> u64 \<Rightarrow> nat \<Rightarrow> u64 option" where
  "climb s a 0 = Some a"
| "climb s a (Suc k) = do { p \<leftarrow> rb_parent s a; climb s p k }"

lemma climb_way:
  assumes "way_at (rb_mem s) (rb_root s) a us" and "rb_parent s a = Some (upper us)"
  shows "climb s a (Suc (length us)) = Some 0"
  using assms
proof (induction us arbitrary: a)
  case Nil
  then show ?case by simp
next
  case (Cons u us)
  have at: "way_at (rb_mem s) (rb_root s) (upper (u # us)) us" "rb_parent s (upper (u # us)) = Some (upper us)"
    using Cons.prems(1) by (cases u; auto simp: node_ops rb_simps)+
  show ?case
    using Cons.IH [OF at] Cons.prems(2) by simp
qed

lemma red_black_size: "red_black n t \<Longrightarrow> 2 ^ n \<le> length (nodes t) + 1"
proof (induction n t rule: red_black.induct)
  case (3 n l x r)
  then obtain k where k: "n = Suc k" "red_black k l" "red_black k r"
    by auto
  have "2 ^ k \<le> length (nodes l) + 1" "2 ^ k \<le> length (nodes r) + 1"
    using 3 k by auto
  then show ?case
    using k by simp
qed auto

text \<open>Of two steps up one at least leaves a black node, so a way is at most twice as long as the black height.\<close>

lemma step_up_level:
  assumes "way_ok n (u # us)" and "red_black n t" and "hue t = Red \<longrightarrow> above (u # us) = Black" and "above (u # us) = c"
  shows "hue (step_up t u) = c" "c = Red \<Longrightarrow> hue t = Black \<and> above us = Black"
    "red_black (if c = Red then n else Suc n) (step_up t u)" "way_ok (if c = Red then n else Suc n) us"
  using assms by (cases u; cases c; cases "hue t"; simp)+

lemma way_length:
  assumes "way_ok n us" and "red_black n t" and "hue t = Red \<longrightarrow> above us = Black"
  shows "\<exists>m. red_black m (fill us t) \<and> length us + 2 * n + (if hue t = Red then 1 else 0) \<le> 2 * m"
  using assms
proof (induction us arbitrary: n t)
  case Nil
  then show ?case by auto
next
  case (Cons u us)
  note step = step_up_level [OF Cons.prems refl]
  show ?case
    using Cons.IH [OF step(4,3)] step(1,2) by (cases "above (u # us)") (auto intro: exI le_trans)
qed

lemma rb_height_ok:
  assumes "holds s t" and "rb_ok t" and "x \<in> set (nodes t)"
  shows "\<exists>k. climb s x k = Some 0 \<and> 2 ^ k \<le> (length (nodes t) + 1)\<^sup>2"
proof -
  obtain us l c r where t: "t = fill us (Nd l x c r)"
    using nodeE [OF assms(3)] by blast
  obtain n where rb: "red_black n (Nd l x c r)" "way_ok n us" "c = Red \<longrightarrow> above us = Black"
    using assms(2) by (auto simp: t rb_ok_fill)
  then obtain m where m: "red_black m t" "length us + 2 * n + (if c = Red then 1 else 0) \<le> 2 * m"
    using way_length [of n us "Nd l x c r"] by (auto simp: t)
  have up: "climb s x (Suc (length us)) = Some 0"
    using assms(1) by (intro climb_way) (auto simp: t holds_fill node_ops rb_simps)
  have "Suc (length us) \<le> 2 * m"
    using m(2) rb(1) by (cases c) auto
  then have "(2::nat) ^ Suc (length us) \<le> 2 ^ (2 * m)"
    by (rule power_increasing) simp
  also have "\<dots> = (2 ^ m)\<^sup>2"
    by (simp add: power_even_eq)
  also have "\<dots> \<le> (length (nodes t) + 1)\<^sup>2"
    using red_black_size [OF m(1)] by (rule power_mono) simp
  finally show ?thesis
    using up by blast
qed

end
