(* ===== verification/RbMemory.thy ===== *)
theory RbMemory
  imports RbTree
begin

text \<open>
  The operations of the tree neither allocate nor free: the allocated addresses stay the same.
\<close>

definition allocated :: "'z rb_tree_scheme \<Rightarrow> u64 set" where
  "allocated s = dom (rb_mem s)"

text \<open>\<open>keeps pr D m\<close>: if \<open>m\<close> returns, the allocated addresses of the state in its result are \<open>D\<close>.\<close>

definition keeps :: "('r \<Rightarrow> 'z rb_tree_scheme) \<Rightarrow> u64 set \<Rightarrow> 'r option \<Rightarrow> bool" where
  "keeps pr D m \<longleftrightarrow> (\<forall>r. m = Some r \<longrightarrow> allocated (pr r) = D)"

named_theorems keeps_rules "taking a chain of operations apart"

lemma keeps_Some [keeps_rules]: "allocated (pr r) = D \<Longrightarrow> keeps pr D (Some r)"
  by (simp add: keeps_def)

lemma keeps_if [keeps_rules]: "keeps pr D x \<Longrightarrow> keeps pr D y \<Longrightarrow> keeps pr D (if b then x else y)"
  by simp

lemma keeps_let [keeps_rules]: "(\<And>x. keeps pr D (f x)) \<Longrightarrow> keeps pr D (let x = v in f x)"
  by simp

lemma keeps_bind:
  assumes "keeps id D m" and "\<And>s. allocated s = D \<Longrightarrow> keeps pr D (f s)"
  shows "keeps pr D (Option.bind m f)"
  using assms by (auto simp: keeps_def bind_eq_Some_conv)

lemma keeps_bind_pair:
  assumes "keeps snd D m" and "\<And>a s. allocated s = D \<Longrightarrow> keeps pr D (f (a, s))"
  shows "keeps pr D (Option.bind m f)"
  using assms by (auto simp: keeps_def bind_eq_Some_conv)

lemma keeps_bind_triple:
  assumes "keeps (\<lambda>(a, b, s). s) D m" and "\<And>a b s. allocated s = D \<Longrightarrow> keeps pr D (f (a, b, s))"
  shows "keeps pr D (Option.bind m f)"
  using assms by (auto simp: keeps_def bind_eq_Some_conv)

text \<open>Reads do not change the state.\<close>

lemma keeps_read: "(\<And>x. keeps pr D (f x)) \<Longrightarrow> keeps pr D (Option.bind m f)"
  by (auto simp: keeps_def bind_eq_Some_conv)

lemmas keeps_reads [keeps_rules] =
  keeps_read [of _ _ _ "left s a" for s a] keeps_read [of _ _ _ "right s a" for s a]
  keeps_read [of _ _ _ "rb_parent s a" for s a] keeps_read [of _ _ _ "parent_color s a" for s a]
  keeps_read [of _ _ _ "rb_is_red s a" for s a] keeps_read [of _ _ _ "rb_is_black s a" for s a]
  keeps_read [of _ _ _ "is_red_node s a" for s a] keeps_read [of _ _ _ "is_black_or_null s a" for s a]
  keeps_read [of _ _ _ "rb_red_parent s a" for s a] keeps_read [of _ _ _ "rb_mem s a" for s a]

lemma keeps_set:
  "allocated s = D \<Longrightarrow> keeps id D (set_parent_color s a v)"
  "allocated s = D \<Longrightarrow> keeps id D (set_left s a v)"
  "allocated s = D \<Longrightarrow> keeps id D (set_right s a v)"
  by (auto simp: keeps_def allocated_def set_parent_color_def set_left_def set_right_def bind_eq_Some_conv split: if_splits)

lemmas keeps_bind_set [keeps_rules] = keeps_set keeps_set [THEN keeps_bind]

lemma keeps_ops:
  assumes "allocated s = D"
  shows "keeps id D (rb_set_black s a)" "keeps id D (rb_set_parent s a p)" "keeps id D (rb_set_parent_color s a p c)"
    "keeps id D (set_parent_color_if s a p c)" "keeps id D (set_parent_if s a p)" "keeps id D (rb_change_child s a b p)"
    "keeps id D (dummy_callback a b s)"
  unfolding rb_set_black_def rb_set_parent_def rb_set_parent_color_def set_parent_color_if_def set_parent_if_def
    rb_change_child_def dummy_callback_def
  by (intro keeps_rules; use assms in \<open>simp add: allocated_def\<close>)+

lemmas keeps_bind_ops [keeps_rules] = keeps_ops keeps_ops [THEN keeps_bind]

lemma keeps_rotate: "allocated s = D \<Longrightarrow> keeps id D (rb_rotate_set_parents s a b c)"
  unfolding rb_rotate_set_parents_def by (intro keeps_rules; assumption?)

lemmas keeps_bind_rotate [keeps_rules] = keeps_rotate keeps_rotate [THEN keeps_bind]

section \<open>The rounds\<close>

lemma keeps_dummy_callbacks [simp]:
  "propagate dummy_callbacks = dummy_callback" "copy_aug dummy_callbacks = dummy_callback"
  by (simp_all add: dummy_callbacks_def)

fun loop_state :: "((u64 \<times> u64 \<times> 'z rb_tree_scheme) + 'z rb_tree_scheme) \<Rightarrow> 'z rb_tree_scheme" where
  "loop_state (Inl (n, p, s)) = s"
| "loop_state (Inr s) = s"

lemma keeps_insert_sides:
  assumes "allocated s = D"
  shows "keeps loop_state D (insert_left dummy_callback n p g t s)" "keeps loop_state D (insert_right dummy_callback n p g s)"
  unfolding insert_left_def insert_right_def split_beta
  by (intro keeps_rules keeps_bind_triple; use assms in simp)+

lemma keeps_insert_round:
  assumes "allocated s = D"
  shows "keeps loop_state D (insert_round dummy_callback (n, p, s))"
  unfolding insert_round_def prod.case
  by (intro keeps_rules keeps_insert_sides; use assms in simp)

lemma keeps_erase_case4:
  assumes "allocated s = D"
  shows "keeps id D (erase_case4_left dummy_callback p x t s)" "keeps id D (erase_case4_right dummy_callback p x t s)"
  unfolding erase_case4_left_def erase_case4_right_def
  by (intro keeps_rules; use assms in simp)+

lemmas keeps_bind_case4 [keeps_rules] = keeps_erase_case4 keeps_erase_case4 [THEN keeps_bind]

lemma keeps_erase_black:
  assumes "allocated s = D"
  shows "keeps loop_state D (erase_black_left dummy_callback p x s)" "keeps loop_state D (erase_black_right dummy_callback p x s)"
  unfolding erase_black_left_def erase_black_right_def erase_case2_def
  by (intro keeps_rules; use assms in simp)+

lemma keeps_erase_sides:
  assumes "allocated s = D"
  shows "keeps loop_state D (erase_left dummy_callback p x s)" "keeps loop_state D (erase_right dummy_callback p s)"
  unfolding erase_left_def erase_right_def split_beta
  by (intro keeps_rules keeps_bind_pair keeps_erase_black; use assms in simp)+

lemma keeps_erase_round:
  assumes "allocated s = D"
  shows "keeps loop_state D (erase_round dummy_callback (n, p, s))"
  unfolding erase_round_def prod.case
  by (intro keeps_rules keeps_erase_sides; use assms in simp)

section \<open>The operations\<close>

lemma keeps_loop:
  assumes "\<And>n p s. allocated s = D \<Longrightarrow> keeps loop_state D (round (n, p, s))" and "allocated s = D"
  shows "keeps id D (loop round (n, p, s))"
  unfolding keeps_def
proof (intro allI impI)
  fix r
  assume r: "loop round (n, p, s) = Some r"
  show "allocated (id r) = D"
  proof (rule loop_partial [OF r, where P = "\<lambda>(n, p, s). allocated s = D"])
    show "case (n, p, s) of (n, p, s) \<Rightarrow> allocated s = D"
      using assms(2) by simp
  qed (use assms(1) in \<open>fastforce simp: keeps_def\<close>)+
qed

lemma keeps_insert_color:
  assumes "allocated s = D"
  shows "keeps id D (rb_insert_color a s)"
  unfolding rb_insert_color_def rb_insert_augmented_def
  by (intro keeps_rules keeps_loop keeps_insert_round assms)

lemma keeps_erase_color:
  assumes "allocated s = D"
  shows "keeps id D (rb_erase_color dummy_callback a s)"
  unfolding rb_erase_color_def
  by (intro keeps_loop keeps_erase_round assms)

lemma keeps_link_node:
  assumes "allocated s = D"
  shows "keeps id D (rb_link_node s a p l)"
proof -
  have "keeps id D (write_link s l a)" if "allocated s = D" for s :: "'a rb_tree_scheme"
    using that by (cases l) (auto intro!: keeps_set keeps_Some simp: allocated_def)
  then show ?thesis
    unfolding rb_link_node_def by (intro keeps_rules assms)
qed


lemma keeps_unlink_cases:
  assumes "allocated s = D"
  shows "keeps (\<lambda>(a, b, s). s) D (erase_no_left n c s)" "keeps (\<lambda>(a, b, s). s) D (erase_no_right n t s)"
  unfolding erase_no_left_def erase_no_right_def
  by (intro keeps_rules; use assms in simp)+

lemma keeps_bind_fourth:
  assumes "keeps (\<lambda>(a, b, c, s). s) D m" and "\<And>a b c s. allocated s = D \<Longrightarrow> keeps pr D (f (a, b, c, s))"
  shows "keeps pr D (Option.bind m f)"
  using assms by (auto simp: keeps_def bind_eq_Some_conv)

lemma keeps_erase_both:
  assumes "allocated s = D"
  shows "keeps (\<lambda>(a, b, s). s) D (erase_both dummy_callbacks n c s)"
  unfolding erase_both_def split_beta keeps_dummy_callbacks
  by (intro keeps_rules keeps_read [of _ _ _ "find_successor s c t" for s c t] keeps_bind_fourth keeps_bind_pair; use assms in simp)

lemma keeps_unlink:
  assumes "allocated s = D"
  shows "keeps snd D (rb_unlink_augmented dummy_callbacks n s)"
  unfolding rb_unlink_augmented_def split_beta keeps_dummy_callbacks
  by (intro keeps_rules keeps_bind_triple keeps_unlink_cases keeps_erase_both; use assms in simp)

lemma keeps_erase:
  assumes "allocated s = D"
  shows "keeps id D (rb_erase n s)"
  unfolding rb_erase_def split_beta
  by (intro keeps_rules keeps_bind_pair keeps_unlink keeps_erase_color; use assms in simp)

lemma keeps_replace:
  assumes "allocated s = D"
  shows "keeps id D (rb_replace_node a b s)"
proof -
  have copy: "allocated (s\<lparr>rb_mem := (rb_mem s)(b \<mapsto> v)\<rparr>) = D" if "rb_mem s b \<noteq> None" for v
    using assms that by (auto simp: allocated_def)
  have known: "keeps pr D (Option.bind (rb_mem s b) (\<lambda>_. m))" if "rb_mem s b \<noteq> None \<Longrightarrow> keeps pr D m"
    for m and pr :: "'a rb_tree_scheme \<Rightarrow> 'a rb_tree_scheme"
    using that by (cases "rb_mem s b") (simp_all add: keeps_def)
  show ?thesis
    unfolding rb_replace_node_def Let_def
    by (rule keeps_reads, rule keeps_reads, rule known) (intro keeps_rules copy; assumption)
qed

text \<open>What they keep, for a run that returned.\<close>

lemma erase_allocated: "rb_erase a s = Some s' \<Longrightarrow> allocated s' = allocated s"
  using keeps_erase [OF refl, of s a] by (simp add: keeps_def)

lemma replace_allocated: "rb_replace_node a b s = Some s' \<Longrightarrow> allocated s' = allocated s"
  using keeps_replace [OF refl, of s a b] by (simp add: keeps_def)

lemma insert_allocated: "rb_link_node s x p l = Some s1 \<Longrightarrow> rb_insert_color x s1 = Some s' \<Longrightarrow> allocated s' = allocated s"
  using keeps_link_node [OF refl, of s x p l] keeps_insert_color [OF refl, of s1 x] by (simp add: keeps_def)

end
