(* ===== verification/RbTreeCorrect.thy ===== *)
theory RbTreeCorrect
  imports RbSearch RbMemory
begin

text \<open>
  What the red-black trees promise their clients, stated over the nodes in order: insertion, removal, replacement,
  lookup, iteration and height, for plain trees and for trees that cache their first node.
\<close>

section \<open>The tree as a list\<close>

definition rb_rep :: "'z rb_tree_scheme \<Rightarrow> u64 list \<Rightarrow> bool" where
  "rb_rep s xs \<longleftrightarrow> (\<exists>t. holds s t \<and> rb_ok t \<and> nodes t = xs)"

lemma balanced_rep: "balanced xs z s \<longleftrightarrow> rb_rep s xs \<and> rb_tree.more s = z"
  by (simp add: balanced_def rb_rep_def)

lemma rb_repE: assumes "rb_rep s xs" obtains t where "holds s t" "rb_ok t" "nodes t = xs"
  using assms by (auto simp: rb_rep_def)

text \<open>A node to insert: allocated, aligned and not in the tree.\<close>

definition loose :: "'z rb_tree_scheme \<Rightarrow> u64 list \<Rightarrow> u64 \<Rightarrow> bool" where
  "loose s xs x \<longleftrightarrow> x \<notin> set xs \<and> x \<noteq> 0 \<and> aligned x \<and> rb_mem s x \<noteq> None"

lemma rep_erase: "rb_rep s xs \<Longrightarrow> x \<in> set xs \<Longrightarrow>
  \<exists>s'. rb_erase x s = Some s' \<and> rb_rep s' (remove1 x xs) \<and> rb_tree.more s' = rb_tree.more s"
  using rb_erase_ok [of s _ x] by (force simp: balanced_rep elim!: rb_repE)

lemma rep_replace: "rb_rep s (as @ x # bs) \<Longrightarrow> loose s (as @ x # bs) y \<Longrightarrow>
  \<exists>s'. rb_replace_node x y s = Some s' \<and> rb_rep s' (as @ y # bs) \<and> rb_tree.more s' = rb_tree.more s"
  using rb_replace_ok [of s _ as x bs y] by (force simp: balanced_rep loose_def elim!: rb_repE)

section \<open>Orders\<close>

text \<open>What the comparison of a client has to be, and nodes in its order.\<close>

definition weak_order :: "(u64 \<Rightarrow> u64 \<Rightarrow> bool) \<Rightarrow> bool" where
  "weak_order lt \<longleftrightarrow> (\<forall>a b. lt a b \<longrightarrow> \<not> lt b a) \<and> (\<forall>a b c. lt a c \<longrightarrow> lt a b \<or> lt b c)"

definition ascending :: "(u64 \<Rightarrow> u64 \<Rightarrow> bool) \<Rightarrow> u64 list \<Rightarrow> bool" where
  "ascending lt xs \<longleftrightarrow> sorted_wrt (\<lambda>a b. \<not> lt b a) xs"

lemma ascending_rising:
  assumes "weak_order lt" and "ascending lt xs"
  shows "rising (lt x) xs"
  unfolding rising_def
proof (rule sorted_wrt_mono_rel [OF _ assms(2) [unfolded ascending_def]])
  fix a b assume "\<not> lt b a"
  then show "lt x a \<longrightarrow> lt x b"
    using assms(1) unfolding weak_order_def by blast
qed

lemma insert_beforeE:
  assumes "rising before xs"
  obtains as bs where "xs = as @ bs" and "cut before as bs" and "insert_before before x xs = as @ x # bs"
proof -
  let ?as = "takeWhile (\<lambda>y. \<not> before y) xs" and ?bs = "dropWhile (\<lambda>y. \<not> before y) xs"
  have "before b" if "b \<in> set ?bs" for b
  proof (cases ?bs)
    case (Cons y ys)
    then have "before y"
      using hd_dropWhile [of "\<lambda>y. \<not> before y" xs] by simp
    moreover have "rising before (?as @ y # ys)"
      using assms Cons by (metis takeWhile_dropWhile_id)
    moreover have "b = y \<or> b \<in> set ys"
      using that Cons by simp
    ultimately show ?thesis
      using rising_split(1) [of before ?as y ys] by blast
  next
    case Nil
    show ?thesis
      using that unfolding Nil by simp
  qed
  moreover have "\<not> before a" if "a \<in> set ?as" for a
    using set_takeWhileD [OF that] by simp
  ultimately have "cut before ?as ?bs"
    unfolding cut_def by blast
  then show ?thesis
    using that [of ?as ?bs] by (simp add: insert_before_def)
qed

lemma ascending_insert:
  assumes "weak_order lt" and "ascending lt xs"
  shows "ascending lt (insert_before (lt x) x xs)"
proof -
  obtain as bs where "xs = as @ bs" "cut (lt x) as bs" "insert_before (lt x) x xs = as @ x # bs"
    by (rule insert_beforeE [OF ascending_rising [OF assms]])
  then show ?thesis
    using assms by (auto simp: ascending_def sorted_wrt_append cut_def weak_order_def)
qed

lemma rep_add:
  assumes "weak_order lt" and "rb_rep s xs" and "ascending lt xs" and "loose s xs x"
  shows "\<exists>s'. rb_add lt x s = Some s' \<and> rb_rep s' (insert_before (lt x) x xs) \<and> rb_tree.more s' = rb_tree.more s"
  using rb_add_ok [of s _ x lt] ascending_rising [OF assms(1,3), of x] assms(2,4)
  by (force simp: balanced_rep loose_def elim!: rb_repE)

section \<open>Cached trees\<close>

definition cached_rep :: "'z rb_root_cached_scheme \<Rightarrow> u64 list \<Rightarrow> bool" where
  "cached_rep s xs \<longleftrightarrow> rb_rep s xs \<and> rb_leftmost s = hd (xs @ [0])"

lemma more_leftmost: "rb_tree.more (s' :: 'z rb_root_cached_scheme) = rb_tree.more s \<Longrightarrow> rb_leftmost s' = rb_leftmost s"
  by (cases s; cases s') simp

lemma holds_leftmost [simp]: "holds (s\<lparr>rb_leftmost := a\<rparr>) t = holds s t" for s :: "'z rb_root_cached_scheme"
  by (simp add: holds_def)

lemma rb_rep_leftmost [simp]: "rb_rep (s\<lparr>rb_leftmost := a\<rparr>) xs = rb_rep s xs" for s :: "'z rb_root_cached_scheme"
  by (simp add: rb_rep_def)

lemma cached_erase:
  assumes "cached_rep s xs" and "x \<in> set xs"
  shows "\<exists>s'. rb_erase_cached x s = Some (if x = hd xs then hd (tl xs @ [0]) else 0, s') \<and> cached_rep s' (remove1 x xs)"
proof -
  obtain t where t: "holds s t" "rb_ok t" "nodes t = xs"
    using assms(1) by (auto simp: cached_rep_def elim: rb_repE)
  obtain y ys where xs: "xs = y # ys"
    using assms(2) by (cases xs) auto
  have left: "rb_leftmost s = y"
    using assms(1) by (simp add: cached_rep_def xs)
  define s1 where "s1 = (if x = y then s\<lparr>rb_leftmost := hd (ys @ [0])\<rparr> else s)"
  have "rb_rep s1 xs"
    using t by (auto simp: s1_def rb_rep_def)
  then obtain s' where s': "rb_erase x s1 = Some s'" "rb_rep s' (remove1 x xs)" "rb_tree.more s' = rb_tree.more s1"
    using rep_erase assms(2) by blast
  have "rb_next s y = Some (hd (ys @ [0]))"
    using rb_next_ok [of s t "[]" y ys] t xs by simp
  then have "rb_erase_cached x s = Some (if x = y then hd (ys @ [0]) else 0, s')"
    using s'(1) left by (auto simp: rb_erase_cached_def s1_def)
  moreover have "rb_leftmost s' = hd (remove1 x xs @ [0])"
    using more_leftmost [OF s'(3)] left by (auto simp: s1_def xs)
  ultimately show ?thesis
    using s'(2) by (auto simp: cached_rep_def xs)
qed

lemma cached_descent:
  assumes "holds s (fill us t)" and "rising (lt x) (nodes (fill us t))" and "cut (lt x) (lefts us) (rights us)"
  shows "\<exists>vs. loop (add_cached_step lt x s) (link_of us, upper us, lefts us = []) = Some (link_of vs, upper vs, lefts vs = [])
     \<and> fill vs Tip = fill us t \<and> cut (lt x) (lefts vs) (rights vs)"
  using assms
proof (induction t arbitrary: us)
  case Tip
  then show ?case
    by (intro exI [of _ us]) (simp add: loop_stop add_cached_step_def read_link_of)
next
  case (Nd l y c r)
  let ?us = "if lt x y then UpL y c r # us else UpR l y c # us" and ?t = "if lt x y then l else r"
  have "rising (lt x) ((lefts us @ nodes l) @ y # (nodes r @ rights us))"
    using Nd.prems(2) by simp
  note order = rising_split [OF this]
  have "cut (lt x) (lefts ?us) (rights ?us)"
    using order Nd.prems(3) by (cases "lt x y") (simp_all add: cut_def ball_Un)
  moreover have "fill ?us ?t = fill us (Nd l y c r)"
    by simp
  moreover have "loop (add_cached_step lt x s) (link_of us, upper us, lefts us = []) =
      loop (add_cached_step lt x s) (link_of ?us, upper ?us, lefts ?us = [])"
    by (rule loop_next) (use read_link_of [OF Nd.prems(1)] Nd.prems(1) [unfolded holds_fill] in \<open>simp add: add_cached_step_def\<close>)
  ultimately show ?case
    using Nd.IH(1) [of ?us] Nd.IH(2) [of ?us] Nd.prems(1,2) by (cases "lt x y") simp_all
qed

lemma cached_add:
  assumes "weak_order lt" and "cached_rep s xs" and "ascending lt xs" and "loose s xs x"
  shows "\<exists>s'. rb_add_cached lt x s = Some (if hd (insert_before (lt x) x xs) = x then x else 0, s')
    \<and> cached_rep s' (insert_before (lt x) x xs)"
proof -
  obtain t where t: "holds s t" "rb_ok t" "nodes t = xs"
    using assms(2) by (auto simp: cached_rep_def elim: rb_repE)
  obtain vs where vs: "loop (add_cached_step lt x s) (Root, 0, True) = Some (link_of vs, upper vs, lefts vs = [])"
     "fill vs Tip = t" "cut (lt x) (lefts vs) (rights vs)"
    using cached_descent [of s "[]" t lt x] t ascending_rising [OF assms(1,3), of x] by (auto simp: cut_def)
  have xs: "xs = lefts vs @ rights vs"
    using t(3) vs(2) by auto
  have new: "insert_before (lt x) x xs = lefts vs @ x # rights vs"
    using vs(3) insert_before_cut [of "lefts vs" "lt x" "rights vs" x] by (simp add: xs cut_def)
  obtain s1 where s1: "rb_link_node s x (upper vs) (link_of vs) = Some s1" "holds s1 (fill vs (Nd Tip x Red Tip))"
    "rb_tree.more s1 = rb_tree.more s"
    using rb_link_node_ok [of s vs x] t vs(2) assms(4) by (auto simp: loose_def)
  define s2 where "s2 = (if lefts vs = [] then s1\<lparr>rb_leftmost := x\<rparr> else s1)"
  obtain s' where s': "rb_insert_color x s2 = Some s'" "balanced (lefts vs @ x # rights vs) (rb_tree.more s2) s'"
  proof -
    have "holds s2 (fill vs (Nd Tip x Red Tip))"
      using s1(2) by (simp add: s2_def)
    from fix_linked [OF this] t(2) vs(2) that show ?thesis
      by auto
  qed
  have "rb_add_cached lt x s = Some (if lefts vs = [] then x else 0, s')"
    using s'(1) s1(1) vs(1) by (simp add: rb_add_cached_def rb_insert_color_cached_def s2_def)
  moreover have "rb_leftmost s' = hd (insert_before (lt x) x xs @ [0])"
    using more_leftmost [of s' s2] more_leftmost [OF s1(3)] s'(2) assms(2) unfolding new
    by (auto simp: balanced_rep s2_def cached_rep_def xs hd_append)
  moreover have "hd (insert_before (lt x) x xs) = x \<longleftrightarrow> lefts vs = []"
    using assms(4) unfolding new by (auto simp: hd_append loose_def xs)
  ultimately show ?thesis
    using s'(2) unfolding cached_rep_def balanced_rep new by auto
qed

lemma cached_replace:
  assumes "cached_rep s (as @ x # bs)" and "loose s (as @ x # bs) y"
  shows "\<exists>s'. rb_replace_node_cached x y s = Some s' \<and> cached_rep s' (as @ y # bs)"
proof -
  define s1 where "s1 = (if rb_leftmost s = x then s\<lparr>rb_leftmost := y\<rparr> else s)"
  have "rb_rep s1 (as @ x # bs)" "loose s1 (as @ x # bs) y"
    using assms by (auto simp: s1_def cached_rep_def loose_def)
  then obtain s' where s': "rb_replace_node x y s1 = Some s'" "rb_rep s' (as @ y # bs)" "rb_tree.more s' = rb_tree.more s1"
    using rep_replace by blast
  have "distinct (as @ x # bs)"
    using assms(1) holds_distinct unfolding cached_rep_def rb_rep_def by metis
  then have "rb_leftmost s' = hd (as @ y # bs @ [0])"
    using more_leftmost [OF s'(3)] assms(1) by (cases as) (auto simp: s1_def cached_rep_def)
  then show ?thesis
    using s' by (simp add: rb_replace_node_cached_def s1_def cached_rep_def)
qed

text \<open>Moving a node to its place. It may stay when it is in order with both its neighbours.\<close>

lemma in_order:
  assumes "weak_order lt" and "ascending lt (as @ bs)"
    and "as \<noteq> [] \<longrightarrow> \<not> lt x (List.last as)" and "bs \<noteq> [] \<longrightarrow> \<not> lt (hd bs) x"
  shows "ascending lt (as @ x # bs)"
proof -
  have trans: "\<not> lt c a" if "\<not> lt b a" "\<not> lt c b" for a b c
    using assms(1) that unfolding weak_order_def by blast
  have "\<not> lt x a" if "a \<in> set as" for a
  proof (cases as rule: rev_cases)
    case (snoc cs y)
    moreover have "a = y \<or> \<not> lt y a"
      using assms(2) that unfolding snoc by (auto simp: ascending_def sorted_wrt_append)
    ultimately show ?thesis
      using assms(3) trans by auto
  qed (use that in simp)
  moreover have "\<not> lt b x" if "b \<in> set bs" for b
  proof (cases bs)
    case (Cons y cs)
    moreover have "b = y \<or> \<not> lt b y"
      using assms(2) that unfolding Cons by (auto simp: ascending_def sorted_wrt_append)
    ultimately show ?thesis
      using assms(4) trans by auto
  qed (use that in simp)
  ultimately show ?thesis
    using assms(2) by (auto simp: ascending_def sorted_wrt_append)
qed

lemma cached_nodes:
  assumes "cached_rep s (as @ x # bs)"
  shows "x \<noteq> 0" "aligned x" "rb_mem s x \<noteq> None" "rb_prev s x = Some (List.last (0 # as))" "rb_next s x = Some (hd (bs @ [0]))"
    "0 \<notin> set as" "0 \<notin> set bs" "x \<notin> set as" "x \<notin> set bs"
proof -
  obtain t where t: "holds s t" "nodes t = as @ x # bs"
    using assms by (auto simp: cached_rep_def elim: rb_repE)
  have node: "tree_at m p t \<Longrightarrow> a \<in> set (nodes t) \<Longrightarrow> a \<noteq> 0 \<and> aligned a \<and> m a \<noteq> None" for m p t a
    by (induction t arbitrary: p) auto
  have "a \<noteq> 0 \<and> aligned a \<and> rb_mem s a \<noteq> None" if "a \<in> set (as @ x # bs)" for a
    using node [of "rb_mem s" 0 t a] t that by (simp add: holds_def)
  then show "x \<noteq> 0" "aligned x" "rb_mem s x \<noteq> None" "0 \<notin> set as" "0 \<notin> set bs"
    by auto
  show "x \<notin> set as" "x \<notin> set bs"
    using holds_distinct [OF t(1)] t(2) by auto
  show "rb_prev s x = Some (List.last (0 # as))" "rb_next s x = Some (hd (bs @ [0]))"
    using rb_prev_ok [OF t] rb_next_ok [OF t] by auto
qed

lemma cached_move:
  assumes "weak_order lt" and "cached_rep s (as @ x # bs)" and "ascending lt (as @ bs)"
  shows "\<exists>s' ys. rb_move_cached lt x s = Some s' \<and> cached_rep s' ys \<and> ascending lt ys
    \<and> x \<in> set ys \<and> remove1 x ys = as @ bs"
proof -
  note nodes = cached_nodes [OF assms(2)]
  let ?moves = "as \<noteq> [] \<and> lt x (List.last as) \<or> bs \<noteq> [] \<and> lt (hd bs) x"
  have moves: "(List.last (0 # as) \<noteq> 0 \<or> hd (bs @ [0]) \<noteq> 0)
      \<and> (List.last (0 # as) \<noteq> 0 \<and> lt x (List.last (0 # as)) \<or> hd (bs @ [0]) \<noteq> 0 \<and> lt (hd (bs @ [0])) x) \<longleftrightarrow> ?moves"
    using nodes(6,7) by (cases as rule: rev_cases; cases bs) auto
  have run: "rb_move_cached lt x s =
      (if ?moves then do { (_, s) \<leftarrow> rb_erase_cached x s; (_, s) \<leftarrow> rb_add_cached lt x s; Some s } else Some s)"
    unfolding rb_move_cached_def nodes(4,5) by (simp only: Option.bind.simps moves)
  show ?thesis
  proof (cases ?moves)
    case False
    then have "rb_move_cached lt x s = Some s"
      unfolding run by (rule if_not_P)
    then show ?thesis
      using assms(2) in_order [OF assms(1,3), of x] False nodes(8) by (auto simp: remove1_append)
  next
    case True
    obtain s1 r where s1: "rb_erase_cached x s = Some (r, s1)" "cached_rep s1 (as @ bs)"
      using cached_erase [OF assms(2), of x] nodes(8) by (auto simp: remove1_append)
    have "allocated s1 = allocated s"
    proof -
      obtain s0 where "rb_erase x s0 = Some s1" "allocated s0 = allocated s"
        using s1(1) nodes(5) by (auto simp: rb_erase_cached_def allocated_def bind_eq_Some_conv split: if_splits)
      then show ?thesis
        using erase_allocated [of x s0] by simp
    qed
    then have "loose s1 (as @ bs) x"
      using nodes by (auto simp: loose_def allocated_def)
    then obtain s' r' where s': "rb_add_cached lt x s1 = Some (r', s')" "cached_rep s' (insert_before (lt x) x (as @ bs))"
      using cached_add [OF assms(1) s1(2) assms(3)] by blast
    moreover have "rb_move_cached lt x s = Some s'"
      using run True s1(1) s'(1) by simp
    moreover have "x \<in> set (insert_before (lt x) x (as @ bs)) \<and> remove1 x (insert_before (lt x) x (as @ bs)) = as @ bs"
    proof -
      obtain us vs where "as @ bs = us @ vs" "insert_before (lt x) x (as @ bs) = us @ x # vs"
        by (rule insert_beforeE [OF ascending_rising [OF assms(1,3)], of x])
      moreover from this have "x \<notin> set us"
        using nodes(8,9) by (metis Un_iff set_append)
      ultimately show ?thesis
        by (simp add: remove1_append)
    qed
    ultimately show ?thesis
      using ascending_insert [OF assms(1,3)] by blast
  qed
qed

section \<open>A sample\<close>

text \<open>A tree of three nodes and a fourth node that is not linked yet; nodes are ordered by their addresses.\<close>

definition sample_mem :: "u64 \<Rightarrow> rb_node option" where
  "sample_mem = [16 \<mapsto> \<lparr>rb_parent_color = 1, rb_right = 24, rb_left = 8\<rparr>,
     8 \<mapsto> \<lparr>rb_parent_color = 16, rb_right = 0, rb_left = 0\<rparr>,
     24 \<mapsto> \<lparr>rb_parent_color = 16, rb_right = 0, rb_left = 0\<rparr>,
     32 \<mapsto> \<lparr>rb_parent_color = 32, rb_right = 0, rb_left = 0\<rparr>]"

definition sample_tree :: rb_tree where
  "sample_tree = \<lparr>rb_mem = sample_mem, rb_root = 16\<rparr>"

definition sample_cached :: rb_root_cached where
  "sample_cached = \<lparr>rb_mem = sample_mem, rb_root = 16, rb_leftmost = 8\<rparr>"

lemma sample_holds:
  assumes "rb_mem s = sample_mem" and "rb_root s = 16"
  shows "rb_rep s [8, 16, 24]" "loose s [8, 16, 24] 32"
proof -
  let ?t = "Nd (Nd Tip 8 Red Tip) 16 Black (Nd Tip 24 Red Tip)"
  have "holds s ?t"
    using assms by (simp add: holds_def sample_mem_def aligned_def RB_RED_def RB_BLACK_def)
  moreover have "rb_ok ?t"
    by (simp add: rb_ok_def)
  moreover have "nodes ?t = [8, 16, 24]"
    by simp
  ultimately show "rb_rep s [8, 16, 24]"
    unfolding rb_rep_def by blast
  show "loose s [8, 16, 24] 32"
    using assms by (simp add: loose_def sample_mem_def aligned_def)
qed

lemmas sample_rep = sample_holds [of sample_tree, unfolded sample_tree_def, simplified, folded sample_tree_def]

lemma sample_cached_rep: "cached_rep sample_cached [8, 16, 24]"
  using sample_holds(1) [of sample_cached] by (simp add: cached_rep_def sample_cached_def)

lemma less_weak_order: "weak_order (<)"
  by (auto simp: weak_order_def)

section \<open>Properties\<close>

text \<open>C8: For any comparison that is a strict weak order and any red-black tree whose nodes are in its order,
  \<open>rb_add\<close> returns, the result is a red-black tree, and its nodes are the old ones in their order with the new one
  behind all those that it is not less than; everything the client keeps beside the tree is unchanged.\<close>

theorem rb_add_correct:
  assumes "weak_order lt" and "rb_rep s xs" and "ascending lt xs" and "loose s xs x"
  shows "\<exists>s'. rb_add lt x s = Some s' \<and> rb_rep s' (insert_before (lt x) x xs)
    \<and> ascending lt (insert_before (lt x) x xs) \<and> rb_tree.more s' = rb_tree.more s"
  using rep_add [OF assms] ascending_insert [OF assms(1,3)] by blast

theorem rb_add_correct_witness:
  "\<exists>s'. rb_add (<) 32 sample_tree = Some s' \<and> rb_rep s' [8, 16, 24, 32]"
  using rb_add_correct [OF less_weak_order sample_rep(1) _ sample_rep(2)]
  by (auto simp: ascending_def insert_before_def)

text \<open>C9: \<open>rb_erase\<close> of any node of a red-black tree returns, the result is a red-black tree, and its nodes are the
  others in their order.\<close>

theorem rb_erase_correct:
  assumes "rb_rep s xs" and "x \<in> set xs"
  shows "\<exists>s'. rb_erase x s = Some s' \<and> rb_rep s' (remove1 x xs) \<and> rb_tree.more s' = rb_tree.more s"
  by (rule rep_erase [OF assms])

theorem rb_erase_correct_witness: "\<exists>s'. rb_erase 16 sample_tree = Some s' \<and> rb_rep s' [8, 24]"
  using rb_erase_correct [OF sample_rep(1), of 16] by auto

text \<open>C22: The walks agree with the order of the nodes: \<open>rb_first\<close> and \<open>rb_last\<close> are its ends, \<open>rb_next\<close> and
  \<open>rb_prev\<close> go from a node to its neighbours and to \<open>NULL\<close> at the ends, \<open>rb_for_each_entry\<close> visits every node once and in
  order, and the postorder iteration visits every node once and after its children.\<close>

theorem rb_walks_correct:
  assumes "rb_rep s xs"
  shows "rb_first s = Some (hd (xs @ [0])) \<and> rb_last s = Some (List.last (0 # xs))
    \<and> rb_for_each_entry s = Some xs
    \<and> (\<forall>as x bs. xs = as @ x # bs \<longrightarrow> rb_next s x = Some (hd (bs @ [0])) \<and> rb_prev s x = Some (List.last (0 # as)))
    \<and> (\<exists>ys. rbtree_postorder_for_each_entry s = Some ys \<and> mset ys = mset xs
        \<and> (\<forall>as x bs c. ys = as @ x # bs \<longrightarrow> left s x = Some c \<or> right s x = Some c \<longrightarrow> c \<noteq> 0 \<longrightarrow> c \<in> set as))"
proof -
  obtain t where t: "holds s t" "nodes t = xs"
    using assms by (auto elim: rb_repE)
  have "c \<in> set as" if "post t = as @ x # bs" "left s x = Some c \<or> right s x = Some c" "c \<noteq> 0" for as x bs c
    using post_children [OF t(1) that] .
  then show ?thesis
    using t rb_first_ok [OF t(1)] rb_last_ok [OF t(1)] rb_for_each_entry_ok [OF t(1)] rb_next_ok [OF t(1)] rb_prev_ok [OF t(1)]
      rb_postorder_ok [OF t(1)] mset_post [of t] by metis
qed

theorem rb_walks_correct_witness: "rb_for_each_entry sample_tree = Some [8, 16, 24] \<and> rb_prev sample_tree 24 = Some 16"
  using rb_walks_correct [OF sample_rep(1)] by (metis append_Cons append_Nil last.simps list.distinct(1))

text \<open>C23: With a three-way comparison in whose order the nodes are, \<open>rb_find\<close> returns a node equal to the key and
  \<open>NULL\<close> exactly when there is none, and \<open>rb_for_each\<close> visits exactly the nodes equal to the key, in order.\<close>

theorem rb_lookups_correct:
  assumes "rb_rep s xs" and "falling (cmp k) xs"
  shows "(\<exists>a. rb_find cmp k s = Some a \<and> (if \<exists>y\<in>set xs. cmp k y = 0 then a \<in> set xs \<and> cmp k a = 0 else a = 0))
    \<and> rb_for_each cmp k s = Some (filter (\<lambda>y. cmp k y = 0) xs)"
proof -
  obtain t where t: "holds s t" and xs: "xs = nodes t"
    using assms(1) by (auto elim: rb_repE)
  show ?thesis
    using rb_find_ok [of s t cmp k] rb_for_each_ok [of s t cmp k] t assms(2) unfolding xs matches_def by blast
qed

theorem rb_lookups_correct_witness:
  "rb_for_each (\<lambda>k a. int k - uint a) 24 sample_tree = Some [24]"
  using rb_lookups_correct [OF sample_rep(1), of "\<lambda>k a. int k - uint a" 24] by (simp add: falling_def)

text \<open>The tree is balanced: from any of its \<open>n\<close> nodes, \<open>k\<close> parent links lead out of the tree with
  \<open>2 ^ k \<le> (n + 1)\<^sup>2\<close>, so that no path is longer than \<open>2 log (n + 1)\<close>.\<close>

theorem rb_height_bound:
  assumes "rb_rep s xs" and "x \<in> set xs"
  shows "\<exists>k. climb s x k = Some 0 \<and> 2 ^ k \<le> (length xs + 1)\<^sup>2"
  using assms rb_height_ok [of s _ x] by (auto elim!: rb_repE)

theorem rb_height_bound_witness: "\<exists>k. climb sample_tree 8 k = Some 0 \<and> 2 ^ k \<le> (16 :: nat)"
  using rb_height_bound [OF sample_rep(1), of 8] by (simp add: eval_nat_numeral)

text \<open>A tree that caches its first node keeps doing so under \<open>rb_add_cached\<close>, \<open>rb_erase_cached\<close> and
  \<open>rb_replace_node_cached\<close>: \<open>rb_first_cached\<close> is the first node in order, \<open>rb_add_cached\<close> returns the new node exactly when
  it is the first, and \<open>rb_erase_cached\<close> returns the new first node exactly when the first one went.\<close>

theorem cached_tree_correct:
  assumes "cached_rep s xs"
  shows "rb_first_cached s = hd (xs @ [0])
    \<and> (\<forall>lt x. weak_order lt \<and> ascending lt xs \<and> loose s xs x \<longrightarrow>
        (\<exists>s'. rb_add_cached lt x s = Some (if hd (insert_before (lt x) x xs) = x then x else 0, s')
          \<and> cached_rep s' (insert_before (lt x) x xs)))
    \<and> (\<forall>x\<in>set xs. \<exists>s'. rb_erase_cached x s = Some (if x = hd xs then hd (tl xs @ [0]) else 0, s') \<and> cached_rep s' (remove1 x xs))
    \<and> (\<forall>as x bs y. xs = as @ x # bs \<and> loose s xs y \<longrightarrow>
        (\<exists>s'. rb_replace_node_cached x y s = Some s' \<and> cached_rep s' (as @ y # bs)))"
proof (intro conjI allI ballI impI)
  show "rb_first_cached s = hd (xs @ [0])"
    using assms by (simp add: rb_first_cached_def cached_rep_def)
next
  fix lt x assume "weak_order lt \<and> ascending lt xs \<and> loose s xs x"
  then show "\<exists>s'. rb_add_cached lt x s = Some (if hd (insert_before (lt x) x xs) = x then x else 0, s')
      \<and> cached_rep s' (insert_before (lt x) x xs)"
    using cached_add assms by blast
next
  fix x assume "x \<in> set xs"
  then show "\<exists>s'. rb_erase_cached x s = Some (if x = hd xs then hd (tl xs @ [0]) else 0, s') \<and> cached_rep s' (remove1 x xs)"
    by (rule cached_erase [OF assms])
next
  fix as x bs y assume "xs = as @ x # bs \<and> loose s xs y"
  then show "\<exists>s'. rb_replace_node_cached x y s = Some s' \<and> cached_rep s' (as @ y # bs)"
    using cached_replace assms by blast
qed

theorem cached_tree_correct_witness:
  "\<exists>s'. rb_erase_cached 8 sample_cached = Some (16, s') \<and> cached_rep s' [16, 24]"
  using cached_tree_correct [OF sample_cached_rep] by auto

text \<open>C25: After the key of one node has changed, \<open>rb_move_cached\<close> puts the tree in order again: if the other nodes
  are in the order of the comparison, so are all nodes afterwards, none is lost, the others keep their order, and the first
  node is still cached.\<close>

theorem rb_move_cached_correct:
  assumes "weak_order lt" and "cached_rep s (as @ x # bs)" and "ascending lt (as @ bs)"
  shows "\<exists>s' ys. rb_move_cached lt x s = Some s' \<and> cached_rep s' ys \<and> ascending lt ys
    \<and> x \<in> set ys \<and> remove1 x ys = as @ bs"
  by (rule cached_move [OF assms])

text \<open>The middle node of the sample is moved behind the last one by a comparison that makes it the greatest.\<close>

definition middle_last :: "u64 \<Rightarrow> u64 \<Rightarrow> bool" where
  "middle_last a b \<longleftrightarrow> (if a = 16 then 100 else a) < (if b = 16 then 100 else b)"

theorem rb_move_cached_correct_witness:
  "\<exists>s' ys. rb_move_cached middle_last 16 sample_cached = Some s' \<and> cached_rep s' ys \<and> ascending middle_last ys
    \<and> 16 \<in> set ys \<and> remove1 16 ys = [8, 24]"
proof -
  have "weak_order middle_last"
    unfolding weak_order_def middle_last_def by (meson less_asym less_trans not_less le_less_trans)
  moreover have "cached_rep sample_cached ([8] @ 16 # [24])"
    using sample_cached_rep by simp
  moreover have "ascending middle_last ([8] @ [24])"
    by (simp add: ascending_def middle_last_def)
  ultimately show ?thesis
    using rb_move_cached_correct [of middle_last sample_cached "[8]" 16 "[24]"] by simp
qed

end
