(* ===== verification/RbClient.thy ===== *)
theory RbClient
  imports RbTreeCorrect RbMemory
begin

text \<open>
  The client of the red-black tree, C/05_rbtree/test_main.c: structures with a key and a string that are searched,
  inserted, erased, replaced, printed and freed. \<open>calloc\<close> and \<open>atol\<close> are parameters; \<open>calloc\<close> may answer \<open>NULL\<close>. What is
  printed is part of the model, line by line; of \<open>perror\<close>, the text the program gives it.
\<close>

section \<open>The program\<close>

text \<open>The members of the structure at an address. The node is the first member, so both have one address.\<close>

record mytypes = rb_tree +
  my_string :: "u64 \<Rightarrow> string"
  my_key :: "u64 \<Rightarrow> int"

definition ENOMEM :: int where "ENOMEM = 12"

definition EPERM :: int where "EPERM = 1"

definition NAME_MAX :: nat where "NAME_MAX = 255"

text \<open>\<open>sprintf\<close> into a member of \<open>NAME_MAX\<close> bytes, the last one for the zero; a longer string is written beyond it.\<close>

definition sprintf_name :: "string \<Rightarrow> string option" where
  "sprintf_name str = (if length str < NAME_MAX then Some str else None)"

text \<open>The conversion \<open>%ld\<close>.\<close>

fun digits :: "nat \<Rightarrow> string" where
  "digits n = (if n < 10 then [char_of (48 + n)] else digits (n div 10) @ [char_of (48 + n mod 10)])"

definition decimal :: "int \<Rightarrow> string" where
  "decimal k = (if k < 0 then ''-'' @ digits (nat (- k)) else digits (nat k))"

definition compare_keys :: "int \<Rightarrow> int \<Rightarrow> int" where
  "compare_keys a b = (if a = b then 0 else if a < b then -1 else 1)"

definition mytype_search :: "(string \<Rightarrow> int) \<Rightarrow> string \<Rightarrow> mytypes \<Rightarrow> u64 option" where
  "mytype_search atol str s = loop (\<lambda>node.
     if node \<noteq> 0 then
       (let result = compare_keys (atol str) (my_key s node) in
        if result < 0 then do { l \<leftarrow> left s node; Some (Inl l) }
        else if 0 < result then do { r \<leftarrow> right s node; Some (Inl r) }
        else Some (Inr node))
     else Some (Inr 0)) (rb_root s)"

definition mytype_insert :: "u64 \<Rightarrow> mytypes \<Rightarrow> (bool \<times> mytypes) option" where
  "mytype_insert data s = do {
     r \<leftarrow> loop (\<lambda>(new, parent). do {
       this \<leftarrow> read_link s new;
       if this \<noteq> 0 then
         (let result = compare_keys (my_key s data) (my_key s this) in
          if result < 0 then Some (Inl (Left this, this))
          else if 0 < result then Some (Inl (Right this, this))
          else Some (Inr (Inl this)))
       else Some (Inr (Inr (new, parent))) }) (Root, 0);
     case r of
       Inl this \<Rightarrow> Some (False, s)
     | Inr (new, parent) \<Rightarrow> do {
         s \<leftarrow> rb_link_node s data parent new;
         s \<leftarrow> rb_insert_color data s;
         Some (True, s) } }"

text \<open>A structure from \<open>calloc\<close>, after its string and its key have been stored.\<close>

definition my_calloc :: "u64 \<Rightarrow> string \<Rightarrow> int \<Rightarrow> mytypes \<Rightarrow> mytypes" where
  "my_calloc a str key s =
     s\<lparr>rb_mem := (rb_mem s)(a \<mapsto> \<lparr>rb_parent_color = 0, rb_right = 0, rb_left = 0\<rparr>),
       my_string := (my_string s)(a := str), my_key := (my_key s)(a := key)\<rparr>"

definition my_free :: "u64 \<Rightarrow> mytypes \<Rightarrow> mytypes" where
  "my_free a s = s\<lparr>rb_mem := (rb_mem s)(a := None)\<rparr>"

definition test_inster_mynode ::
  "((u64 \<Rightarrow> rb_node option) \<Rightarrow> u64) \<Rightarrow> int \<Rightarrow> mytypes \<Rightarrow> (int \<times> string list \<times> mytypes) option" where
  "test_inster_mynode fresh key s = do {
     let mynode = fresh (rb_mem s);
     if mynode = 0 then Some (- ENOMEM, [''no memory''], s)
     else do {
       keystring \<leftarrow> sprintf_name (decimal key);
       (inserted, s) \<leftarrow> mytype_insert mynode (my_calloc mynode keystring key s);
       if \<not> inserted then Some (- EPERM, [''inster '' @ my_string s mynode @ '' error''], my_free mynode s)
       else Some (0, [], s) } }"

definition test_search_mytree :: "(string \<Rightarrow> int) \<Rightarrow> string \<Rightarrow> mytypes \<Rightarrow> string list option" where
  "test_search_mytree atol str s = do {
     node \<leftarrow> mytype_search atol str s;
     Some [if node = 0 then ''not find ley '' @ str else ''find key '' @ my_string s node] }"

definition test_erase_mynode :: "(string \<Rightarrow> int) \<Rightarrow> string \<Rightarrow> mytypes \<Rightarrow> mytypes option" where
  "test_erase_mynode atol str s = do {
     data \<leftarrow> mytype_search atol str s;
     if data \<noteq> 0 then do { s \<leftarrow> rb_erase data s; Some (my_free data s) } else Some s }"

definition test_replace_mynode ::
  "((u64 \<Rightarrow> rb_node option) \<Rightarrow> u64) \<Rightarrow> (string \<Rightarrow> int) \<Rightarrow> string \<Rightarrow> mytypes \<Rightarrow> (string list \<times> mytypes) option" where
  "test_replace_mynode fresh atol str s = do {
     data \<leftarrow> mytype_search atol str s;
     if data = 0 then Some ([''not find ley '' @ str], s)
     else do {
       let new_node = fresh (rb_mem s);
       if new_node = 0 then Some ([''no memory''], s)
       else do {
         keystring \<leftarrow> sprintf_name (str @ ''333'');
         s \<leftarrow> rb_replace_node data new_node (my_calloc new_node keystring (atol str) s);
         Some ([], my_free data s) } } }"

definition test_iter_mytree :: "mytypes \<Rightarrow> string list option" where
  "test_iter_mytree s = do {
     xs \<leftarrow> rb_for_each_entry s;
     Some (map (\<lambda>my. ''key='' @ my_string s my) xs @ [''--------------------'']) }"

text \<open>\<open>rb_for_each_entry_safe\<close>: the next node is taken before the body runs.\<close>

definition free_round :: "u64 \<times> string list \<times> mytypes \<Rightarrow> (u64 \<times> string list \<times> mytypes + string list \<times> mytypes) option" where
  "free_round = (\<lambda>(my, printed, s).
     if my \<noteq> 0 then do {
       my_next \<leftarrow> rb_next s my;
       let printed = printed @ [''key='' @ my_string s my];
       s \<leftarrow> rb_erase my s;
       Some (Inl (my_next, printed, my_free my s)) }
     else Some (Inr (printed, s)))"

definition test_free_all :: "mytypes \<Rightarrow> (string list \<times> mytypes) option" where
  "test_free_all s = do {
     my \<leftarrow> rb_first s;
     (printed, s) \<leftarrow> loop free_round (my, [], s);
     Some (printed @ [''x-------------------''], s) }"

section \<open>Sequences of operations\<close>

datatype my_op = MInsert int | MSearch string | MErase string | MReplace string | MIter

text \<open>What an operation returns and the lines it prints; 0 for the operations without a result.\<close>

type_synonym my_result = "int \<times> string list"

fun my_do :: "((u64 \<Rightarrow> rb_node option) \<Rightarrow> u64) \<Rightarrow> (string \<Rightarrow> int) \<Rightarrow> my_op \<Rightarrow> mytypes \<Rightarrow> (my_result \<times> mytypes) option" where
  "my_do fresh atol (MInsert k) s = do { (c, ls, s) \<leftarrow> test_inster_mynode fresh k s; Some ((c, ls), s) }"
| "my_do fresh atol (MSearch str) s = do { ls \<leftarrow> test_search_mytree atol str s; Some ((0, ls), s) }"
| "my_do fresh atol (MErase str) s = do { s \<leftarrow> test_erase_mynode atol str s; Some ((0, []), s) }"
| "my_do fresh atol (MReplace str) s = do { (ls, s) \<leftarrow> test_replace_mynode fresh atol str s; Some ((0, ls), s) }"
| "my_do fresh atol MIter s = do { ls \<leftarrow> test_iter_mytree s; Some ((0, ls), s) }"

fun my_run :: "((u64 \<Rightarrow> rb_node option) \<Rightarrow> u64) \<Rightarrow> (string \<Rightarrow> int) \<Rightarrow> my_op list \<Rightarrow> mytypes \<Rightarrow> (my_result list \<times> mytypes) option" where
  "my_run fresh atol [] s = Some ([], s)"
| "my_run fresh atol (op # ops) s = do {
     (r, s) \<leftarrow> my_do fresh atol op s;
     (rs, s) \<leftarrow> my_run fresh atol ops s;
     Some (r # rs, s) }"

definition main :: "((u64 \<Rightarrow> rb_node option) \<Rightarrow> u64) \<Rightarrow> (string \<Rightarrow> int) \<Rightarrow> mytypes \<Rightarrow> (my_result list \<times> string list \<times> mytypes) option" where
  "main fresh atol s = do {
     let s = s\<lparr>rb_root := 0\<rparr>;
     (rs, s) \<leftarrow> my_run fresh atol
       [MInsert 10, MInsert 1, MInsert 11111, MInsert 5, MInsert 27, MInsert 5, MSearch ''10'', MIter,
        MErase ''10'', MIter, MReplace ''11111'', MIter] s;
     (ls, s) \<leftarrow> test_free_all s;
     Some (rs, ls, s) }"

section \<open>A map from keys to strings\<close>

text \<open>The answers that a map of the keys to their strings gives: \<open>None\<close> when an answer is wrong. An operation that allocates
  may fail for want of memory when the map has \<open>N\<close> keys or more.\<close>

definition key_lines :: "(int \<rightharpoonup> string) \<Rightarrow> string list" where
  "key_lines M = map (\<lambda>k. ''key='' @ the (M k)) (sorted_list_of_set (dom M))"

fun map_step :: "nat \<Rightarrow> (string \<Rightarrow> int) \<Rightarrow> my_op \<Rightarrow> my_result \<Rightarrow> (int \<rightharpoonup> string) \<Rightarrow> (int \<rightharpoonup> string) option" where
  "map_step N atol (MInsert k) r M =
     (if r = (- ENOMEM, [''no memory'']) then (if N \<le> card (dom M) then Some M else None)
      else if k \<in> dom M then (if r = (- EPERM, [''inster '' @ decimal k @ '' error'']) then Some M else None)
      else if r = (0, []) then Some (M(k \<mapsto> decimal k)) else None)"
| "map_step N atol (MSearch str) r M =
     (if r = (0, [case M (atol str) of None \<Rightarrow> ''not find ley '' @ str | Some w \<Rightarrow> ''find key '' @ w]) then Some M else None)"
| "map_step N atol (MErase str) r M = (if r = (0, []) then Some (M(atol str := None)) else None)"
| "map_step N atol (MReplace str) r M =
     (if atol str \<notin> dom M then (if r = (0, [''not find ley '' @ str]) then Some M else None)
      else if r = (0, [''no memory'']) then (if N \<le> card (dom M) then Some M else None)
      else if r = (0, []) then Some (M(atol str \<mapsto> str @ ''333'')) else None)"
| "map_step N atol MIter r M = (if r = (0, key_lines M @ [''--------------------'']) then Some M else None)"

fun map_run :: "nat \<Rightarrow> (string \<Rightarrow> int) \<Rightarrow> my_op list \<Rightarrow> my_result list \<Rightarrow> (int \<rightharpoonup> string) \<Rightarrow> (int \<rightharpoonup> string) option" where
  "map_run N atol [] [] M = Some M"
| "map_run N atol (op # ops) (r # rs) M = do { M \<leftarrow> map_step N atol op r M; map_run N atol ops rs M }"
| "map_run N atol _ _ M = None"

text \<open>The keys are values of \<open>long int\<close>; the string of a replacement fits its member with the suffix.\<close>

fun op_ok :: "my_op \<Rightarrow> bool" where
  "op_ok (MInsert k) \<longleftrightarrow> - (2 ^ 63) \<le> k \<and> k < 2 ^ 63"
| "op_ok (MReplace str) \<longleftrightarrow> length str + 3 < NAME_MAX"
| "op_ok (MSearch str) \<longleftrightarrow> True"
| "op_ok (MErase str) \<longleftrightarrow> True"
| "op_ok MIter \<longleftrightarrow> True"

section \<open>The tree is the map\<close>

text \<open>What is assumed of \<open>calloc\<close>: it answers an aligned address that is not in use, or fails; it does not fail before
  \<open>N\<close> structures are allocated.\<close>

definition callocs :: "nat \<Rightarrow> ((u64 \<Rightarrow> rb_node option) \<Rightarrow> u64) \<Rightarrow> bool" where
  "callocs N fresh \<longleftrightarrow>
     (\<forall>m. if fresh m = 0 then N \<le> card (dom m) else aligned (fresh m) \<and> m (fresh m) = None)"

definition keyed :: "mytypes \<Rightarrow> u64 list \<Rightarrow> bool" where
  "keyed s xs \<longleftrightarrow> rb_rep s xs \<and> sorted_wrt (<) (map (my_key s) xs)"

text \<open>The keys of the tree and their strings, when no other node is allocated.\<close>

definition strings_of :: "mytypes \<Rightarrow> u64 list \<Rightarrow> (int \<rightharpoonup> string) \<Rightarrow> bool" where
  "strings_of s xs M \<longleftrightarrow> dom M = my_key s ` set xs \<and> (\<forall>a\<in>set xs. M (my_key s a) = Some (my_string s a))"

definition key_map :: "mytypes \<Rightarrow> (int \<rightharpoonup> string) \<Rightarrow> bool" where
  "key_map s M \<longleftrightarrow> (\<exists>xs. keyed s xs \<and> allocated s = set xs \<and> strings_of s xs M)"

text \<open>The decimal form of a \<open>long int\<close> has at most twenty characters.\<close>

lemma digits_length: "n < 10 ^ Suc k \<Longrightarrow> length (digits n) \<le> Suc k"
proof (induction k arbitrary: n)
  case (Suc k)
  show ?case
  proof (cases "n < 10")
    case False
    have "n div 10 < 10 ^ Suc k"
      using Suc.prems by (simp add: div_less_iff_less_mult)
    then show ?thesis
      using Suc.IH [of "n div 10"] False by simp
  qed simp
qed simp

lemma decimal_fits: "- (2 ^ 63) \<le> k \<Longrightarrow> k < 2 ^ 63 \<Longrightarrow> sprintf_name (decimal k) = Some (decimal k)"
proof -
  assume "- (2 ^ 63) \<le> k" "k < 2 ^ 63"
  then have "nat k < 10 ^ Suc 18" "nat (- k) < 10 ^ Suc 18"
    by simp_all
  then have "length (digits (nat k)) \<le> 19" "length (digits (nat (- k))) \<le> 19"
    using digits_length [of _ 18] by simp_all
  then show ?thesis
    by (simp add: sprintf_name_def decimal_def NAME_MAX_def del: digits.simps)
qed

abbreviation by_key :: "mytypes \<Rightarrow> int \<Rightarrow> u64 \<Rightarrow> int" where
  "by_key s k a \<equiv> compare_keys k (my_key s a)"

lemma mytype_search_find: "mytype_search atol str s = rb_find (by_key s) (atol str) s"
  unfolding mytype_search_def rb_find_def find_step_def ..

lemma mytype_insert_loop:
  "mytype_insert x s = do {
     r \<leftarrow> loop (find_add_step (\<lambda>y. by_key s (my_key s y)) x s) (Root, 0);
     case r of
       Inl this \<Rightarrow> Some (False, s)
     | Inr (new, parent) \<Rightarrow> do {
         s \<leftarrow> rb_link_node s x parent new;
         s \<leftarrow> rb_insert_color x s;
         Some (True, s) } }"
  unfolding mytype_insert_def find_add_step_def ..

lemma keyed_falling: "sorted_wrt (<) (map (my_key s) xs) \<Longrightarrow> falling (by_key s k) xs"
  unfolding falling_def sorted_wrt_map
  by (erule sorted_wrt_mono_rel [rotated]) (auto simp: compare_keys_def)

lemma rb_rep_cong: "rb_mem s' = rb_mem s \<Longrightarrow> rb_root s' = rb_root s \<Longrightarrow> rb_rep s' xs = rb_rep s xs"
  by (simp add: rb_rep_def holds_def)

lemma rb_rep_other:
  assumes "rb_rep s xs" and "a \<notin> set xs" and "rb_mem s' = (rb_mem s)(a := n)" and "rb_root s' = rb_root s"
  shows "rb_rep s' xs"
proof -
  obtain t where "holds s t" "rb_ok t" "nodes t = xs"
    using assms(1) by (rule rb_repE)
  moreover from this have "holds s' t"
    using assms(2-4) by (simp add: holds_def)
  ultimately show ?thesis
    unfolding rb_rep_def by blast
qed

lemma rep_allocated: "rb_rep s xs \<Longrightarrow> a \<in> set xs \<Longrightarrow> rb_mem s a \<noteq> None \<and> a \<noteq> 0"
proof -
  have "tree_at m p t \<Longrightarrow> a \<in> set (nodes t) \<Longrightarrow> m a \<noteq> None \<and> a \<noteq> 0" for m p t
    by (induction t arbitrary: p) auto
  then show "rb_rep s xs \<Longrightarrow> a \<in> set xs \<Longrightarrow> rb_mem s a \<noteq> None \<and> a \<noteq> 0"
    unfolding rb_rep_def holds_def by blast
qed

lemma more_key: "rb_tree.more (s' :: mytypes) = rb_tree.more s \<Longrightarrow> my_key s' = my_key s \<and> my_string s' = my_string s"
  by (cases s; cases s') simp

lemma rep_distinct: "rb_rep s xs \<Longrightarrow> distinct xs"
  unfolding rb_rep_def using holds_distinct by blast

lemma compare_keys_0 [simp]: "compare_keys a b = 0 \<longleftrightarrow> a = b"
  by (simp add: compare_keys_def)

lemma mytype_search_ok:
  assumes "keyed s xs"
  shows "\<exists>a. mytype_search atol str s = Some a
    \<and> (if atol str \<in> my_key s ` set xs then a \<in> set xs \<and> my_key s a = atol str else a = 0)"
proof -
  obtain t where t: "holds s t" "nodes t = xs"
    using assms by (auto simp: keyed_def elim: rb_repE)
  have "falling (by_key s (atol str)) xs"
    using assms keyed_falling by (simp add: keyed_def)
  then obtain a where "rb_find (by_key s) (atol str) s = Some a"
    "if \<exists>y\<in>set xs. atol str = my_key s y then a \<in> set xs \<and> atol str = my_key s a else a = 0"
    using rb_find_ok [of s t "by_key s" "atol str"] t unfolding compare_keys_0 by auto
  then show ?thesis
    by (auto simp: mytype_search_find image_iff)
qed

text \<open>A fresh structure.\<close>

lemma calloc_ok:
  assumes "keyed s xs" and "callocs N fresh" and "fresh (rb_mem s) = a" and "a \<noteq> 0"
  shows "keyed (my_calloc a w k s) xs" "loose (my_calloc a w k s) xs a" "allocated (my_calloc a w k s) = insert a (allocated s)"
    "\<forall>x\<in>set xs. my_key (my_calloc a w k s) x = my_key s x \<and> my_string (my_calloc a w k s) x = my_string s x"
    "my_key (my_calloc a w k s) a = k" "my_string (my_calloc a w k s) a = w"
proof -
  have a: "aligned a" "rb_mem s a = None" "a \<notin> set xs"
    using assms rep_allocated [of s xs a] unfolding callocs_def keyed_def by (metis, metis, metis)
  show same: "\<forall>x\<in>set xs. my_key (my_calloc a w k s) x = my_key s x \<and> my_string (my_calloc a w k s) x = my_string s x"
    using a(3) by (auto simp: my_calloc_def)
  then have map: "map (my_key (my_calloc a w k s)) xs = map (my_key s) xs"
    by simp
  have "rb_rep (my_calloc a w k s) xs"
    by (rule rb_rep_other [of s _ a]) (use assms(1) a in \<open>auto simp: keyed_def my_calloc_def\<close>)
  then show "keyed (my_calloc a w k s) xs"
    using assms(1) unfolding keyed_def map by simp
  show "loose (my_calloc a w k s) xs a"
    using a assms(4) by (simp add: loose_def my_calloc_def)
  show "allocated (my_calloc a w k s) = insert a (allocated s)"
    by (auto simp: allocated_def my_calloc_def)
qed (simp_all add: my_calloc_def)

lemma strings_of_cong:
  "\<forall>x\<in>set xs. my_key s' x = my_key s x \<and> my_string s' x = my_string s x \<Longrightarrow> strings_of s' xs M = strings_of s xs M"
  by (simp add: strings_of_def)

lemma strings_of_more: "my_key s' = my_key s \<and> my_string s' = my_string s \<Longrightarrow> strings_of s' xs M = strings_of s xs M"
  by (simp add: strings_of_def)

lemma card_keys:
  assumes "keyed s xs" and "strings_of s xs M"
  shows "card (dom M) = card (set xs)"
proof -
  have "distinct (map (my_key s) xs)"
    using assms(1) strict_sorted_iff by (auto simp: keyed_def)
  then show ?thesis
    using assms(2) by (simp add: strings_of_def card_image distinct_map)
qed

lemma calloc_fails:
  assumes "keyed s xs" and "allocated s = set xs" and "strings_of s xs M" and "callocs N fresh" and "fresh (rb_mem s) = 0"
  shows "N \<le> card (dom M)"
proof -
  have "N \<le> card (dom (rb_mem s))"
    using assms(4,5) unfolding callocs_def by metis
  then show ?thesis
    using card_keys [OF assms(1,3)] assms(2) by (simp add: allocated_def)
qed

lemma free_ok:
  assumes "keyed s xs" and "a \<notin> set xs"
  shows "keyed (my_free a s) xs" "my_key (my_free a s) = my_key s \<and> my_string (my_free a s) = my_string s"
  using assms rb_rep_other [of s xs a "my_free a s" None] by (auto simp: keyed_def my_free_def)

lemma allocated_free: "allocated (my_free a s) = allocated s - {a}"
  by (auto simp: allocated_def my_free_def)

text \<open>A new key goes to its place in the order of the keys.\<close>

lemma insert_sorted_key:
  assumes "sorted_wrt (<) (map f xs)" and "f x \<notin> f ` set xs"
  shows "sorted_wrt (<) (map f (insert_before (\<lambda>a. compare_keys (f x) (f a) < 0) x xs))"
    and "set (insert_before (\<lambda>a. compare_keys (f x) (f a) < 0) x xs) = insert x (set xs)"
proof -
  have "rising (\<lambda>a. compare_keys (f x) (f a) < 0) xs"
    unfolding rising_def
    by (rule sorted_wrt_mono_rel [OF _ assms(1) [unfolded sorted_wrt_map]]) (auto simp: compare_keys_def split: if_splits)
  then obtain as bs where xs: "xs = as @ bs" and cut: "cut (\<lambda>a. compare_keys (f x) (f a) < 0) as bs"
    and new: "insert_before (\<lambda>a. compare_keys (f x) (f a) < 0) x xs = as @ x # bs"
    by (rule insert_beforeE)
  have "f a < f x" if "a \<in> set as" for a
  proof -
    have "\<not> f x < f a" "f x \<noteq> f a"
      using cut assms(2) that by (auto simp: cut_def compare_keys_def xs split: if_splits)
    then show ?thesis
      by simp
  qed
  moreover have "f x < f b" if "b \<in> set bs" for b
    using cut that by (auto simp: cut_def compare_keys_def split: if_splits)
  moreover note xs new
  ultimately show "sorted_wrt (<) (map f (insert_before (\<lambda>a. compare_keys (f x) (f a) < 0) x xs))"
    and "set (insert_before (\<lambda>a. compare_keys (f x) (f a) < 0) x xs) = insert x (set xs)"
    using assms(1) by (auto simp: sorted_wrt_append)
qed

lemma mytype_insert_ok:
  assumes "keyed s xs" and "loose s xs x"
  shows "if my_key s x \<in> my_key s ` set xs then mytype_insert x s = Some (False, s)
    else \<exists>s' ys. mytype_insert x s = Some (True, s') \<and> keyed s' ys \<and> my_key s' = my_key s \<and> my_string s' = my_string s
      \<and> set ys = insert x (set xs) \<and> allocated s' = allocated s"
proof -
  let ?c = "\<lambda>y. by_key s (my_key s y)" and ?ys = "insert_before (\<lambda>a. compare_keys (my_key s x) (my_key s a) < 0) x xs"
  obtain t where t: "holds s t" "rb_ok t" "nodes t = xs"
    using assms(1) by (auto simp: keyed_def elim: rb_repE)
  have "falling (?c x) xs"
    using assms(1) keyed_falling by (simp add: keyed_def)
  then have found: "if \<exists>a\<in>set xs. my_key s x = my_key s a
    then \<exists>a\<in>set xs. my_key s x = my_key s a \<and> loop (find_add_step ?c x s) (Root, 0) = Some (Inl a)
    else \<exists>link p s1 s'. loop (find_add_step ?c x s) (Root, 0) = Some (Inr (link, p)) \<and> rb_link_node s x p link = Some s1
      \<and> rb_insert_color x s1 = Some s' \<and> balanced ?ys (rb_tree.more s) s'"
    using find_add_loop [OF t(1,2), of x ?c] assms(2) unfolding t(3) loose_def compare_keys_0 by blast
  show ?thesis
  proof (cases "my_key s x \<in> my_key s ` set xs")
    case True
    then obtain a where "loop (find_add_step ?c x s) (Root, 0) = Some (Inl a)"
      using found by (auto split: if_splits)
    then show ?thesis
      using True by (simp add: mytype_insert_loop)
  next
    case False
    then obtain link p s1 s' where s': "loop (find_add_step ?c x s) (Root, 0) = Some (Inr (link, p))"
      "rb_link_node s x p link = Some s1" "rb_insert_color x s1 = Some s'" "balanced ?ys (rb_tree.more s) s'"
      using found by (auto split: if_splits)
    then have "mytype_insert x s = Some (True, s')" "rb_rep s' ?ys" "my_key s' = my_key s" "my_string s' = my_string s" "allocated s' = allocated s"
      using more_key [of s' s] insert_allocated [OF s'(2,3)] by (simp_all add: mytype_insert_loop balanced_rep)
    then show ?thesis
      using insert_sorted_key [of "my_key s" xs x] assms(1) False by (auto simp: keyed_def)
  qed
qed

lemma insert_step:
  assumes "key_map s M" and "callocs N fresh" and "- (2 ^ 63) \<le> k" and "k < 2 ^ 63"
  shows "\<exists>r s' M'. my_do fresh atol (MInsert k) s = Some (r, s') \<and> map_step N atol (MInsert k) r M = Some M' \<and> key_map s' M'"
proof -
  obtain xs where xs: "keyed s xs" and mem: "allocated s = set xs" and M: "strings_of s xs M"
    using assms(1) by (auto simp: key_map_def)
  let ?a = "fresh (rb_mem s)" and ?s = "my_calloc (fresh (rb_mem s)) (decimal k) k s"
  show ?thesis
  proof (cases "?a = 0")
    case True
    then show ?thesis
      using calloc_fails [OF xs mem M assms(2) True] assms(1) by (simp add: test_inster_mynode_def)
  next
    case False
    note new = calloc_ok [OF xs assms(2) refl False, of "decimal k" k]
    note inserted = mytype_insert_ok [OF new(1,2), unfolded new(5)]
    have M': "strings_of ?s xs M"
      using M strings_of_cong [OF new(4)] by blast
    then have keys: "my_key ?s ` set xs = dom M"
      by (simp add: strings_of_def)
    show ?thesis
    proof (cases "k \<in> dom M")
      case True
      then have "test_inster_mynode fresh k s = Some (- EPERM, [''inster '' @ decimal k @ '' error''], my_free ?a ?s)"
        using inserted False new(6) decimal_fits [OF assms(3,4)] by (simp add: test_inster_mynode_def Let_def keys)
      moreover have "key_map (my_free ?a ?s) M"
        using free_ok [OF new(1), of ?a] new(2,3) mem M' strings_of_more [of "my_free ?a ?s" ?s]
        unfolding key_map_def loose_def allocated_free by (intro exI [of _ xs]) auto
      ultimately show ?thesis
        using True by (auto simp: EPERM_def ENOMEM_def)
    next
      case k: False
      then obtain s' ys where s': "mytype_insert ?a ?s = Some (True, s')" "keyed s' ys" "my_key s' = my_key ?s"
        "my_string s' = my_string ?s" "set ys = insert ?a (set xs)" "allocated s' = allocated ?s"
        using inserted by (auto simp: keys split: if_splits)
      then have "test_inster_mynode fresh k s = Some (0, [], s')"
        using False decimal_fits [OF assms(3,4)] by (simp add: test_inster_mynode_def Let_def)
      moreover have "strings_of s' ys (M(k \<mapsto> decimal k))"
        unfolding strings_of_def
      proof (intro conjI ballI)
        show "dom (M(k \<mapsto> decimal k)) = my_key s' ` set ys"
          using s'(3,5) new(5) keys by simp
        show "(M(k \<mapsto> decimal k)) (my_key s' x) = Some (my_string s' x)" if x: "x \<in> set ys" for x
        proof (cases "x = ?a")
          case False
          then have "x \<in> set xs"
            using x s'(5) by simp
          then have "M (my_key ?s x) = Some (my_string ?s x)"
            using M' by (simp add: strings_of_def)
          moreover from this have "my_key ?s x \<noteq> k"
            using k by (metis domI)
          ultimately show ?thesis
            using s'(3,4) by simp
        qed (use s'(3,4) new(5,6) in simp)
      qed
      then have "key_map s' (M(k \<mapsto> decimal k))"
        unfolding key_map_def using s' new(3) mem by (intro exI [of _ ys]) simp
      ultimately show ?thesis
        using k by (simp add: ENOMEM_def)
    qed
  qed
qed

lemma search_found:
  assumes "keyed s xs" and "strings_of s xs M"
  shows "\<exists>a. mytype_search atol str s = Some a
    \<and> (case M (atol str) of None \<Rightarrow> a = 0 | Some w \<Rightarrow> a \<noteq> 0 \<and> a \<in> set xs \<and> my_key s a = atol str \<and> my_string s a = w)"
proof -
  obtain a where a: "mytype_search atol str s = Some a"
    "if atol str \<in> dom M then a \<in> set xs \<and> my_key s a = atol str else a = 0"
    using mytype_search_ok [OF assms(1), of atol str] assms(2) [unfolded strings_of_def, THEN conjunct1] by metis
  have "a \<in> set xs \<Longrightarrow> a \<noteq> 0 \<and> M (my_key s a) = Some (my_string s a)"
    using assms rep_allocated by (auto simp: keyed_def strings_of_def)
  then show ?thesis
    using a by (auto split: option.split if_splits)
qed

lemma search_step:
  assumes "key_map s M"
  shows "\<exists>r. my_do fresh atol (MSearch str) s = Some (r, s) \<and> map_step N atol (MSearch str) r M = Some M"
proof -
  obtain xs where "keyed s xs" "strings_of s xs M"
    using assms by (auto simp: key_map_def)
  from search_found [OF this, of atol str] show ?thesis
    by (auto simp: test_search_mytree_def split: option.splits)
qed

lemma erase_step:
  assumes "key_map s M"
  shows "\<exists>s'. my_do fresh atol (MErase str) s = Some ((0, []), s') \<and> key_map s' (M(atol str := None))"
proof -
  obtain xs where xs: "keyed s xs" and mem: "allocated s = set xs" and M: "strings_of s xs M"
    using assms(1) by (auto simp: key_map_def)
  obtain a where a: "mytype_search atol str s = Some a"
    "case M (atol str) of None \<Rightarrow> a = 0 | Some w \<Rightarrow> a \<noteq> 0 \<and> a \<in> set xs \<and> my_key s a = atol str \<and> my_string s a = w"
    using search_found [OF xs M, of atol str] by blast
  show ?thesis
  proof (cases "M (atol str)")
    case Some
    then have "a \<in> set xs" "a \<noteq> 0" and key: "my_key s a = atol str"
      using a(2) by simp_all
    then obtain s' where s': "rb_erase a s = Some s'" "rb_rep s' (remove1 a xs)" and "rb_tree.more s' = rb_tree.more s"
      using rep_erase [of s xs a] xs unfolding keyed_def by blast
    note same = more_key [OF this(3)]
    have d: "distinct (map (my_key s) xs)"
      using xs strict_sorted_iff by (auto simp: keyed_def)
    then have "distinct xs"
      by (simp add: distinct_map)
    moreover have "sorted_wrt (\<lambda>x y. my_key s x < my_key s y) (filter (\<lambda>x. a \<noteq> x) xs)"
      by (rule sorted_wrt_filter) (use xs in \<open>simp add: keyed_def sorted_wrt_map\<close>)
    then have "sorted_wrt (<) (map (my_key s) (remove1 a xs))"
      using \<open>distinct xs\<close> by (simp add: sorted_wrt_map distinct_remove1_removeAll removeAll_filter_not_eq)
    ultimately have "keyed s' (remove1 a xs)" "a \<notin> set (remove1 a xs)"
      using s' same by (simp_all add: keyed_def)
    note free = free_ok [OF this]
    have "my_key s ` (set xs - {a}) = dom M - {atol str}"
      using inj_on_image_set_diff [of "my_key s" "set xs" "set xs" "{a}"] d \<open>a \<in> set xs\<close> key M
      by (simp add: strings_of_def distinct_map)
    moreover have "my_key s x \<noteq> atol str" if "x \<in> set xs - {a}" for x
      using that calculation by blast
    ultimately have "strings_of s (remove1 a xs) (M(atol str := None))"
      using M \<open>distinct xs\<close> by (simp add: strings_of_def)
    then have "key_map (my_free a s') (M(atol str := None))"
      using free same strings_of_more [of "my_free a s'" s] \<open>distinct xs\<close> erase_allocated [OF s'(1)] mem
      unfolding key_map_def allocated_free by (intro exI [of _ "remove1 a xs"]) simp
    then show ?thesis
      using a(1) s'(1) \<open>a \<noteq> 0\<close> by (simp add: test_erase_mynode_def)
  next
    case None
    then show ?thesis
      using a assms by (simp add: test_erase_mynode_def fun_upd_idem)
  qed
qed

lemma replace_step:
  assumes "key_map s M" and "callocs N fresh" and "length str + 3 < NAME_MAX"
  shows "\<exists>r s' M'. my_do fresh atol (MReplace str) s = Some (r, s') \<and> map_step N atol (MReplace str) r M = Some M' \<and> key_map s' M'"
proof -
  obtain xs where xs: "keyed s xs" and mem: "allocated s = set xs" and M: "strings_of s xs M"
    using assms(1) by (auto simp: key_map_def)
  obtain a where a: "mytype_search atol str s = Some a"
    "case M (atol str) of None \<Rightarrow> a = 0 | Some w \<Rightarrow> a \<noteq> 0 \<and> a \<in> set xs \<and> my_key s a = atol str \<and> my_string s a = w"
    using search_found [OF xs M, of atol str] by blast
  let ?w = "str @ ''333''"
  let ?y = "fresh (rb_mem s)" and ?s = "my_calloc (fresh (rb_mem s)) ?w (atol str) s"
  show ?thesis
  proof (cases "M (atol str) \<noteq> None \<and> ?y \<noteq> 0")
    case True
    then have "a \<in> set xs" "a \<noteq> 0" and key: "my_key s a = atol str" and y: "?y \<noteq> 0"
      using a(2) by auto
    then obtain as bs where split: "xs = as @ a # bs"
      by (meson split_list)
    note new = calloc_ok [OF xs assms(2) refl y, of ?w "atol str"]
    obtain s' where s': "rb_replace_node a ?y ?s = Some s'" "rb_rep s' (as @ ?y # bs)" and "rb_tree.more s' = rb_tree.more ?s"
      using rep_replace [of ?s as a bs ?y] new(1,2) unfolding keyed_def split by blast
    note same = more_key [OF this(3)]
    have keys: "map (my_key ?s) (as @ ?y # bs) = map (my_key s) xs"
      using new(4,5) key by (simp add: split)
    have "keyed s' (as @ ?y # bs)"
      unfolding keyed_def same [THEN conjunct1] keys using s'(2) xs by (simp add: keyed_def)
    moreover have "a \<notin> set (as @ ?y # bs)"
      using rep_distinct [of s xs] xs new(2) by (auto simp: keyed_def split loose_def)
    ultimately have "keyed (my_free a s') (as @ ?y # bs)" "my_key (my_free a s') = my_key ?s \<and> my_string (my_free a s') = my_string ?s"
      using free_ok [of s' "as @ ?y # bs" a] same by auto
    moreover have "strings_of ?s (as @ ?y # bs) (M(atol str \<mapsto> ?w))"
    proof -
      have "distinct (map (my_key s) xs)"
        using xs strict_sorted_iff by (auto simp: keyed_def)
      then have "atol str \<notin> my_key s ` set as \<union> my_key s ` set bs"
        using key by (simp add: split)
      then have "\<forall>x\<in>set as \<union> set bs. my_key s x \<noteq> atol str"
        by (metis Un_iff imageI)
      moreover have "my_key ?s ` set (as @ ?y # bs) = dom M"
        using keys M unfolding strings_of_def by (metis list.set_map)
      ultimately show ?thesis
        using M new(4-6) True unfolding strings_of_def by (auto simp: split)
    qed
    moreover have "allocated (my_free a s') = set (as @ ?y # bs)"
      using replace_allocated [OF s'(1)] new(3) mem \<open>a \<notin> set (as @ ?y # bs)\<close> by (auto simp: allocated_free split)
    ultimately have "key_map (my_free a s') (M(atol str \<mapsto> ?w))"
      unfolding key_map_def using strings_of_more by blast
    moreover have "sprintf_name ?w = Some ?w"
      using assms(3) by (simp add: sprintf_name_def)
    ultimately show ?thesis
      using a(1) s'(1) \<open>a \<noteq> 0\<close> y True by (auto simp: test_replace_mynode_def Let_def)
  next
    case False
    then show ?thesis
      using a assms(1) calloc_fails [OF xs mem M assms(2)] by (auto simp: test_replace_mynode_def Let_def split: option.splits)
  qed
qed

text \<open>A longer string is written beyond its member.\<close>

lemma replace_overruns:
  assumes "mytype_search atol str s = Some data" and "data \<noteq> 0" and "fresh (rb_mem s) \<noteq> 0" and "NAME_MAX \<le> length str + 3"
  shows "test_replace_mynode fresh atol str s = None"
  using assms by (simp add: test_replace_mynode_def sprintf_name_def Let_def)

lemma key_lines_of:
  assumes "sorted_wrt (<) (map (my_key s) xs)" and "strings_of s xs M"
  shows "key_lines M = map (\<lambda>my. ''key='' @ my_string s my) xs"
proof -
  have "sorted_list_of_set (set (map (my_key s) xs)) = map (my_key s) xs"
    using assms(1) strict_sorted_iff sorted_list_of_set.idem_if_sorted_distinct by blast
  then show ?thesis
    using assms(2) by (simp add: key_lines_def strings_of_def)
qed

lemma iter_step:
  assumes "key_map s M"
  shows "my_do fresh atol MIter s = Some ((0, key_lines M @ [''--------------------'']), s)"
proof -
  obtain xs where xs: "rb_rep s xs" "sorted_wrt (<) (map (my_key s) xs)" and M: "strings_of s xs M"
    using assms by (auto simp: key_map_def keyed_def)
  obtain t where "holds s t" "nodes t = xs"
    using xs(1) by (auto elim: rb_repE)
  then have "rb_for_each_entry s = Some xs"
    using rb_for_each_entry_ok by blast
  then show ?thesis
    using key_lines_of [OF xs(2) M] by (simp add: test_iter_mytree_def)
qed

text \<open>Freeing the nodes in order, each after the next one has been read.\<close>

lemma free_loop_ok:
  assumes "rb_rep s xs" and "allocated s = set xs"
  shows "\<exists>s'. loop free_round (hd (xs @ [0]), ls, s) = Some (ls @ map (\<lambda>my. ''key='' @ my_string s my) xs, s')
    \<and> rb_root s' = 0 \<and> rb_mem s' = Map.empty"
  using assms
proof (induction xs arbitrary: s ls)
  case Nil
  then obtain t where "holds s t" "nodes t = []"
    by (auto elim: rb_repE)
  then have "rb_root s = 0"
    by (cases t) (auto simp: holds_def)
  moreover have "loop free_round (0, ls, s) = Some (ls, s)"
    by (rule loop_stop) (simp add: free_round_def)
  ultimately show ?case
    using Nil(2) by (simp add: allocated_def)
next
  case (Cons x xs)
  obtain t where t: "holds s t" "nodes t = x # xs"
    using Cons.prems(1) by (auto elim: rb_repE)
  have "x \<noteq> 0" "x \<notin> set xs"
    using rep_allocated [OF Cons.prems(1)] rep_distinct [OF Cons.prems(1)] by auto
  have next': "rb_next s x = Some (hd (xs @ [0]))"
    using rb_next_ok [of s t "[]" x xs] t by simp
  obtain s1 where s1: "rb_erase x s = Some s1" "rb_rep s1 xs" "rb_tree.more s1 = rb_tree.more s"
    using rep_erase [OF Cons.prems(1), of x] by auto
  have step: "loop free_round (x, ls, s) = loop free_round (hd (xs @ [0]), ls @ [''key='' @ my_string s x], my_free x s1)"
    using next' s1(1) \<open>x \<noteq> 0\<close> by (intro loop_next) (simp add: free_round_def)
  have "rb_rep (my_free x s1) xs"
    by (rule rb_rep_other [OF s1(2) \<open>x \<notin> set xs\<close>, of _ None]) (simp_all add: my_free_def)
  moreover have "allocated (my_free x s1) = set xs"
    using erase_allocated [OF s1(1)] Cons.prems(2) \<open>x \<notin> set xs\<close> by (simp add: allocated_free)
  moreover have "my_string (my_free x s1) = my_string s"
    using more_key [OF s1(3)] by (simp add: my_free_def)
  ultimately show ?case
    using Cons.IH [of "my_free x s1" "ls @ [''key='' @ my_string s x]"] step by simp
qed

lemma free_all_ok:
  assumes "key_map s M"
  shows "\<exists>s'. test_free_all s = Some (key_lines M @ [''x-------------------''], s') \<and> rb_root s' = 0 \<and> rb_mem s' = Map.empty"
proof -
  obtain xs where xs: "rb_rep s xs" "sorted_wrt (<) (map (my_key s) xs)" "allocated s = set xs" and M: "strings_of s xs M"
    using assms by (auto simp: key_map_def keyed_def)
  obtain t where "holds s t" "nodes t = xs"
    using xs(1) by (auto elim: rb_repE)
  then show ?thesis
    using rb_first_ok [of s t] free_loop_ok [OF xs(1,3), of "[]"] key_lines_of [OF xs(2) M] by (auto simp: test_free_all_def)
qed

lemma my_do_ok:
  assumes "key_map s M" and "callocs N fresh" and "op_ok op"
  shows "\<exists>r s' M'. my_do fresh atol op s = Some (r, s') \<and> map_step N atol op r M = Some M' \<and> key_map s' M'"
proof (cases op)
  case (MInsert k)
  then show ?thesis
    using insert_step [OF assms(1,2)] assms(3) by simp
next
  case (MSearch str)
  then show ?thesis
    using search_step [OF assms(1)] assms(1) by blast
next
  case (MErase str)
  then show ?thesis
    using erase_step [OF assms(1), of fresh atol str] by auto
next
  case (MReplace str)
  then show ?thesis
    using replace_step [OF assms(1,2)] assms(3) by simp
next
  case MIter
  then show ?thesis
    using iter_step [OF assms(1), of fresh atol] assms(1) by auto
qed

lemma my_run_ok:
  assumes "key_map s M" and "callocs N fresh" and "list_all op_ok ops"
  shows "\<exists>rs s' M'. my_run fresh atol ops s = Some (rs, s') \<and> map_run N atol ops rs M = Some M' \<and> key_map s' M'"
  using assms(1,3)
proof (induction ops arbitrary: s M)
  case (Cons op ops)
  obtain r s1 M1 where r: "my_do fresh atol op s = Some (r, s1)" "map_step N atol op r M = Some M1" "key_map s1 M1"
    using my_do_ok [OF Cons.prems(1) assms(2), of op atol] Cons.prems(2) by auto
  obtain rs s' M' where "my_run fresh atol ops s1 = Some (rs, s')" "map_run N atol ops rs M1 = Some M'" "key_map s' M'"
    using Cons.IH [OF r(3)] Cons.prems(2) by auto
  then show ?case
    using r(1,2) by (intro exI [of _ "r # rs"] exI [of _ s'] exI [of _ M']) (simp del: my_do.simps map_step.simps)
qed simp

text \<open>C10: The test program's tree behaves as a map from keys to the strings it prints. From an empty tree every sequence of
  insertions, searches, removals, replacements and iterations ends, whatever \<open>atol\<close> makes of the strings; each result and each
  line printed is the one the map gives. An insertion maps its key to the key's decimal form and answers 0, or answers \<open>-EPERM\<close> and prints
  an error when the key is there; a search prints the string that is found, a replacement maps the key to the text given to it with 333 behind
  it, and an iteration prints the strings in the ascending order of their keys. Only with \<open>N\<close> or more keys in the tree may an operation
  fail for want of memory. No structure is leaked: those allocated are those in the tree, and \<open>test_free_all\<close> prints them and frees them
  all. The keys are values of \<open>long int\<close>, and the text of a replacement has at most 251 characters: a longer one is written beyond
  \<open>keystring\<close>, which \<open>replace_overruns\<close> shows.\<close>

theorem test_tree_is_map:
  assumes "callocs N fresh" and "rb_root s = 0" and "rb_mem s = Map.empty" and "list_all op_ok ops"
  shows "\<exists>rs s' s'' M. my_run fresh atol ops s = Some (rs, s') \<and> map_run N atol ops rs Map.empty = Some M \<and> key_map s' M
    \<and> test_free_all s' = Some (key_lines M @ [''x-------------------''], s'') \<and> rb_root s'' = 0 \<and> rb_mem s'' = Map.empty"
proof -
  have "holds s Tip"
    using assms(2) by (simp add: holds_def)
  then have "keyed s []"
    by (auto simp: keyed_def rb_rep_def rb_ok_def intro!: exI [of _ Tip])
  then have "key_map s Map.empty"
    using assms(3) by (auto simp: key_map_def allocated_def strings_of_def)
  from my_run_ok [OF this assms(1,4)] free_all_ok show ?thesis
    by metis
qed

text \<open>An allocator with room for two structures, and the empty tree.\<close>

definition two_places :: "(u64 \<Rightarrow> rb_node option) \<Rightarrow> u64" where
  "two_places m = (if m 8 = None then 8 else if m 16 = None then 16 else 0)"

definition empty_tree :: mytypes where
  "empty_tree = \<lparr>rb_mem = Map.empty, rb_root = 0, my_string = (\<lambda>_. []), my_key = (\<lambda>_. 0)\<rparr>"

lemma two_places_callocs: "callocs 2 two_places"
  unfolding callocs_def
proof
  fix m :: "u64 \<Rightarrow> rb_node option"
  have "2 \<le> card (dom m)" if "m 8 \<noteq> None" "m 16 \<noteq> None"
  proof -
    have "card {8, 16 :: u64} \<le> card (dom m)"
      using that by (intro card_mono) auto
    then show ?thesis
      by simp
  qed
  then show "if two_places m = 0 then 2 \<le> card (dom m) else aligned (two_places m) \<and> m (two_places m) = None"
    by (simp add: two_places_def aligned_def)
qed

theorem test_tree_is_map_witness:
  "\<exists>rs s' s'' M. my_run two_places (\<lambda>str. int (length str)) [MInsert 5, MInsert 3, MInsert 4, MSearch ''345'', MErase ''five5'', MReplace ''7-7'', MIter]
      empty_tree = Some (rs, s')
    \<and> map_run 2 (\<lambda>str. int (length str)) [MInsert 5, MInsert 3, MInsert 4, MSearch ''345'', MErase ''five5'', MReplace ''7-7'', MIter] rs Map.empty = Some M
    \<and> key_map s' M \<and> test_free_all s' = Some (key_lines M @ [''x-------------------''], s'') \<and> rb_root s'' = 0 \<and> rb_mem s'' = Map.empty"
  by (rule test_tree_is_map [OF two_places_callocs]) (simp_all add: empty_tree_def NAME_MAX_def)

end
