(* ===== verification/RbSessions.thy ===== *)
theory RbSessions
  imports RbTreeCorrect
begin

text \<open>
  Sequences of insertions and removals, for plain trees and for trees that cache their first node: both keep the nodes
  that a list in the order of the comparison keeps, and so they agree.
\<close>

section \<open>The contract of an ordered collection of nodes\<close>

datatype 'a node_op = Add 'a | Del 'a

fun node_exec :: "('a \<Rightarrow> 's \<Rightarrow> 's option) \<Rightarrow> ('a \<Rightarrow> 's \<Rightarrow> 's option) \<Rightarrow> 'a node_op list \<Rightarrow> 's \<Rightarrow> 's option" where
  "node_exec add del [] s = Some s"
| "node_exec add del (Add x # ops) s = do { s \<leftarrow> add x s; node_exec add del ops s }"
| "node_exec add del (Del x # ops) s = do { s \<leftarrow> del x s; node_exec add del ops s }"

text \<open>The list of the nodes; \<open>None\<close> when a node is added that cannot be or removed that is not there.\<close>

fun node_spec :: "('a \<Rightarrow> 'a list \<Rightarrow> 'a list) \<Rightarrow> ('a \<Rightarrow> bool) \<Rightarrow> 'a node_op list \<Rightarrow> 'a list \<Rightarrow> 'a list option" where
  "node_spec place spare [] xs = Some xs"
| "node_spec place spare (Add x # ops) xs = (if spare x \<and> x \<notin> set xs then node_spec place spare ops (place x xs) else None)"
| "node_spec place spare (Del x # ops) xs = (if x \<in> set xs then node_spec place spare ops (remove1 x xs) else None)"

locale ordered_nodes =
  fixes inv :: "'s \<Rightarrow> 'a list \<Rightarrow> bool"
    and spare :: "'s \<Rightarrow> 'a \<Rightarrow> bool"
    and place :: "'a \<Rightarrow> 'a list \<Rightarrow> 'a list"
    and add :: "'a \<Rightarrow> 's \<Rightarrow> 's option"
    and del :: "'a \<Rightarrow> 's \<Rightarrow> 's option"
  assumes add: "inv s xs \<Longrightarrow> spare s x \<Longrightarrow> x \<notin> set xs \<Longrightarrow> \<exists>t. add x s = Some t \<and> inv t (place x xs) \<and> spare t = spare s"
    and del: "inv s xs \<Longrightarrow> x \<in> set xs \<Longrightarrow> \<exists>t. del x s = Some t \<and> inv t (remove1 x xs) \<and> spare t = spare s"
begin

lemma exec_refines:
  assumes "inv s xs" and "node_spec place (spare s) ops xs = Some ys"
  shows "\<exists>t. node_exec add del ops s = Some t \<and> inv t ys"
  using assms
proof (induction ops arbitrary: s xs)
  case Nil
  then show ?case by simp
next
  case (Cons p ops)
  show ?case
  proof (cases p)
    case (Add x)
    then obtain t where "add x s = Some t" "inv t (place x xs)" "spare t = spare s"
      using add [OF Cons.prems(1), of x] Cons.prems(2) by (auto split: if_splits)
    then show ?thesis
      using Cons.IH [of t "place x xs"] Cons.prems(2) Add by (auto split: if_splits)
  next
    case (Del x)
    then obtain t where "del x s = Some t" "inv t (remove1 x xs)" "spare t = spare s"
      using del [OF Cons.prems(1), of x] Cons.prems(2) by (auto split: if_splits)
    then show ?thesis
      using Cons.IH [of t "remove1 x xs"] Cons.prems(2) Del by (auto split: if_splits)
  qed
qed

end

section \<open>The two trees\<close>

definition usable :: "'z rb_tree_scheme \<Rightarrow> u64 \<Rightarrow> bool" where
  "usable s x \<longleftrightarrow> x \<noteq> 0 \<and> aligned x \<and> x \<in> allocated s"

lemma loose_usable: "loose s xs x \<longleftrightarrow> usable s x \<and> x \<notin> set xs"
  by (auto simp: loose_def usable_def allocated_def)

lemma usable_cong: "allocated s = allocated t \<Longrightarrow> usable s = usable t"
  by (simp add: usable_def fun_eq_iff)

lemma add_allocated: "rb_add lt x s = Some t \<Longrightarrow> allocated t = allocated s"
  by (auto simp: rb_add_def bind_eq_Some_conv dest: insert_allocated)

lemma allocated_leftmost [simp]: "allocated (s\<lparr>rb_leftmost := a\<rparr>) = allocated s" for s :: "'z rb_root_cached_scheme"
  by (simp add: allocated_def)

lemma insert_cached_allocated:
  assumes "rb_link_node s x p l = Some s1" and "rb_insert_color_cached x b s1 = Some t"
  shows "allocated t = allocated s"
proof -
  define s2 where "s2 = (if b then s1\<lparr>rb_leftmost := x\<rparr> else s1)"
  have "allocated s2 = allocated s1"
    by (simp add: s2_def)
  moreover have "rb_insert_color x s2 = Some t"
    using assms(2) unfolding rb_insert_color_cached_def s2_def Let_def .
  ultimately show ?thesis
    using keeps_link_node [OF refl, of s x p l] keeps_insert_color [OF refl, of s2 x] assms(1) unfolding keeps_def by simp
qed

lemma add_cached_allocated: "rb_add_cached lt x s = Some (r, t) \<Longrightarrow> allocated t = allocated s"
  by (auto simp: rb_add_cached_def bind_eq_Some_conv dest: insert_cached_allocated)

lemma erase_cached_allocated:
  assumes "rb_erase_cached x s = Some (r, t)"
  shows "allocated t = allocated s"
proof -
  obtain s1 where "rb_erase x s1 = Some t" "allocated s1 = allocated s"
    using assms by (auto simp: rb_erase_cached_def bind_eq_Some_conv split: if_splits)
  then show ?thesis
    using erase_allocated [of x s1] by simp
qed

lemma ascending_remove1: "ascending lt xs \<Longrightarrow> ascending lt (remove1 x xs)"
proof (induction xs)
  case (Cons y ys)
  moreover have "set (remove1 x ys) \<subseteq> set ys"
    by (rule set_remove1_subset)
  ultimately show ?case
    by (auto simp: ascending_def)
qed simp

abbreviation placed :: "(u64 \<Rightarrow> u64 \<Rightarrow> bool) \<Rightarrow> u64 \<Rightarrow> u64 list \<Rightarrow> u64 list" where
  "placed lt x \<equiv> insert_before (lt x) x"

interpretation plain: ordered_nodes "\<lambda>s xs. weak_order lt \<and> rb_rep s xs \<and> ascending lt xs" usable "placed lt"
  "rb_add lt" rb_erase for lt :: "u64 \<Rightarrow> u64 \<Rightarrow> bool"
proof
  fix s :: "'z rb_tree_scheme" and xs x
  assume inv: "weak_order lt \<and> rb_rep s xs \<and> ascending lt xs"
  {
    assume "usable s x" "x \<notin> set xs"
    then show "\<exists>t. rb_add lt x s = Some t \<and> (weak_order lt \<and> rb_rep t (placed lt x xs) \<and> ascending lt (placed lt x xs))
        \<and> usable t = usable s"
      using rep_add [of lt s xs x] inv ascending_insert loose_usable add_allocated usable_cong by metis
  next
    assume "x \<in> set xs"
    then show "\<exists>t. rb_erase x s = Some t \<and> (weak_order lt \<and> rb_rep t (remove1 x xs) \<and> ascending lt (remove1 x xs))
        \<and> usable t = usable s"
      using rep_erase [of s xs x] inv ascending_remove1 erase_allocated usable_cong by metis
  }
qed

interpretation cached: ordered_nodes "\<lambda>s xs. weak_order lt \<and> cached_rep s xs \<and> ascending lt xs" usable "placed lt"
  "\<lambda>x s. map_option snd (rb_add_cached lt x s)" "\<lambda>x s. map_option snd (rb_erase_cached x s)"
  for lt :: "u64 \<Rightarrow> u64 \<Rightarrow> bool"
proof
  fix s :: "'z rb_root_cached_scheme" and xs x
  assume inv: "weak_order lt \<and> cached_rep s xs \<and> ascending lt xs"
  {
    assume "usable s x" "x \<notin> set xs"
    then obtain r t where "rb_add_cached lt x s = Some (r, t)" "cached_rep t (placed lt x xs)"
      using cached_add [of lt s xs x] inv loose_usable by metis
    then show "\<exists>t. map_option snd (rb_add_cached lt x s) = Some t
        \<and> (weak_order lt \<and> cached_rep t (placed lt x xs) \<and> ascending lt (placed lt x xs)) \<and> usable t = usable s"
      using inv ascending_insert [of lt xs x] usable_cong [OF add_cached_allocated [of lt x s r t]] by simp
  next
    assume "x \<in> set xs"
    then obtain r t where "rb_erase_cached x s = Some (r, t)" "cached_rep t (remove1 x xs)"
      using cached_erase [of s xs x] inv by metis
    then show "\<exists>t. map_option snd (rb_erase_cached x s) = Some t
        \<and> (weak_order lt \<and> cached_rep t (remove1 x xs) \<and> ascending lt (remove1 x xs)) \<and> usable t = usable s"
      using inv ascending_remove1 [of lt xs x] usable_cong [OF erase_cached_allocated [of x s r t]] by simp
  }
qed

section \<open>Agreement\<close>

text \<open>C24: Any sequence of \<open>rb_add\<close> and \<open>rb_erase\<close> on a red-black tree, and the same sequence of \<open>rb_add_cached\<close> and
  \<open>rb_erase_cached\<close> on a cached tree over the same nodes, ends; both trees then have the nodes that a list in the order of
  the comparison has, and \<open>rb_first_cached\<close> is what \<open>rb_first\<close> finds in the plain tree.\<close>

theorem cached_tree_agrees:
  assumes "weak_order lt" and "ascending lt xs" and "rb_rep s xs" and "cached_rep c xs" and "rb_mem c = rb_mem s"
    and "node_spec (placed lt) (usable s) ops xs = Some ys"
  shows "\<exists>s' c'. node_exec (rb_add lt) rb_erase ops s = Some s'
    \<and> node_exec (\<lambda>x c. map_option snd (rb_add_cached lt x c)) (\<lambda>x c. map_option snd (rb_erase_cached x c)) ops c = Some c'
    \<and> rb_for_each_entry s' = Some ys \<and> rb_for_each_entry c' = Some ys \<and> rb_first s' = Some (rb_first_cached c')"
proof -
  have entries: "rb_for_each_entry s = Some xs" "rb_first s = Some (hd (xs @ [0]))" if "rb_rep s xs" for s :: "'x rb_tree_scheme" and xs
    using that rb_for_each_entry_ok rb_first_ok by (auto elim!: rb_repE)
  obtain s' where "node_exec (rb_add lt) rb_erase ops s = Some s'" "rb_rep s' ys"
    using plain.exec_refines [of lt s xs ops ys] assms by blast
  moreover have "usable c = usable s"
    using assms(5) by (intro ext) (simp add: usable_def allocated_def)
  then obtain c' where "node_exec (\<lambda>x c. map_option snd (rb_add_cached lt x c)) (\<lambda>x c. map_option snd (rb_erase_cached x c)) ops c = Some c'"
    "cached_rep c' ys"
    using cached.exec_refines [of lt c xs ops ys] assms by auto
  moreover from this have "rb_rep c' ys" "rb_first_cached c' = hd (ys @ [0])"
    by (simp_all add: cached_rep_def rb_first_cached_def)
  ultimately show ?thesis
    using entries(1) [of s' ys] entries(2) [of s' ys] rb_for_each_entry_ok [of c'] by (auto elim!: rb_repE)
qed

theorem cached_tree_agrees_witness:
  "\<exists>s' c'. node_exec (rb_add (<)) rb_erase [Add 32, Del 8, Del 24] sample_tree = Some s'
    \<and> node_exec (\<lambda>x c. map_option snd (rb_add_cached (<) x c)) (\<lambda>x c. map_option snd (rb_erase_cached x c)) [Add 32, Del 8, Del 24] sample_cached = Some c'
    \<and> rb_for_each_entry s' = Some [16, 32] \<and> rb_for_each_entry c' = Some [16, 32] \<and> rb_first s' = Some (rb_first_cached c')"
proof (rule cached_tree_agrees [OF less_weak_order _ sample_rep(1) sample_cached_rep])
  show "node_spec (placed (<)) (usable sample_tree) [Add 32, Del 8, Del 24] [8, 16, 24] = Some [16, 32]"
    using sample_rep(2) by (simp add: loose_usable insert_before_def)
qed (simp_all add: ascending_def sample_tree_def sample_cached_def)

end
