(* ===== verification/LockfreeQueue.thy ===== *)
theory LockfreeQueue
  imports Loops
begin

text \<open>
  The lock-free queue of C/09_lockfree_queue/lockfree_queue.c: a list of nodes with a dummy node at its head, whose
  operations are cut into their accesses to shared memory, so that the steps of several threads interleave in any order.
  A step that reads, writes or frees memory that is not allocated is \<open>None\<close>. The memory is sequentially consistent; a
  weak compare-and-exchange may fail although the values agree.
\<close>

section \<open>The program\<close>

record lf_node =
  lf_data :: int
  lf_next :: u64

record queue_ctr =
  lf_count :: u64
  total_enqueue :: u64
  lf_shutdown :: int

record lf_queue = queue_ctr +
  lf_mem :: "u64 \<Rightarrow> lf_node option"
  lf_head :: u64
  lf_tail :: u64

text \<open>The malloc of the queue answers an address for the memory as it is.\<close>

type_synonym lf_malloc = "(u64 \<Rightarrow> lf_node option) \<Rightarrow> u64"

definition init_lockfree_queue :: "lf_malloc \<Rightarrow> lf_queue option" where
  "init_lockfree_queue malloc = do {
     let node = malloc Map.empty;
     if node = 0 then None
     else Some \<lparr>lf_count = 0, total_enqueue = 0, lf_shutdown = 0,
       lf_mem = [node \<mapsto> \<lparr>lf_data = -1, lf_next = 0\<rparr>], lf_head = node, lf_tail = node\<rparr> }"

definition load_next :: "lf_queue \<Rightarrow> u64 \<Rightarrow> u64 option" where
  "load_next q a = map_option lf_next (lf_mem q a)"

definition load_data :: "lf_queue \<Rightarrow> u64 \<Rightarrow> int option" where
  "load_data q a = map_option lf_data (lf_mem q a)"

definition store_next :: "lf_queue \<Rightarrow> u64 \<Rightarrow> u64 \<Rightarrow> lf_queue option" where
  "store_next q a v = do { n \<leftarrow> lf_mem q a; Some (q\<lparr>lf_mem := (lf_mem q)(a \<mapsto> n\<lparr>lf_next := v\<rparr>)\<rparr>) }"

text \<open>Where a thread is, with its local variables: in \<open>lockfree_en_queue\<close> the value, the new node, \<open>prev_tail\<close> and
  \<open>expected_node\<close>; in \<open>lockfree_de_queue\<close> \<open>prev_head\<close>, \<open>next\<close> and \<open>data\<close>.\<close>

datatype lf_pc =
    Idle
  | EnqTail int u64
  | EnqNext int u64 u64
  | EnqLink int u64 u64 u64
  | EnqHelp int u64 u64
  | EnqSwing int u64 u64 u64
  | EnqDone int u64 u64
  | DeqHead
  | DeqNext u64
  | DeqData u64 u64
  | DeqSwing u64 u64 int
  | DeqFree u64 int

text \<open>What the rest of the program may observe: a value is in the queue, a value is out of it, the queue was empty.\<close>

datatype lf_event = Linked int | Taken int | Empty

text \<open>One step; \<open>weak\<close> lets a compare-and-exchange fail.\<close>

fun lf_step :: "bool \<Rightarrow> lf_pc \<Rightarrow> lf_queue \<Rightarrow> (lf_event list \<times> lf_pc \<times> lf_queue) option" where
  "lf_step weak Idle q = Some ([], Idle, q)"
| "lf_step weak (EnqTail val node) q = Some ([], EnqNext val node (lf_tail q), q)"
| "lf_step weak (EnqNext val node prev_tail) q = do {
     expected \<leftarrow> load_next q prev_tail;
     Some ([], EnqLink val node prev_tail expected, q) }"
| "lf_step weak (EnqLink val node prev_tail expected) q = do {
     found \<leftarrow> load_next q prev_tail;
     if found = expected \<and> \<not> weak then do {
       q \<leftarrow> store_next q prev_tail node;
       Some ([Linked val], EnqDone val node prev_tail, q) }
     else Some ([], EnqHelp val node prev_tail, q) }"
| "lf_step weak (EnqHelp val node prev_tail) q = do {
     desired \<leftarrow> load_next q prev_tail;
     Some ([], EnqSwing val node prev_tail desired, q) }"
| "lf_step weak (EnqSwing val node prev_tail desired) q =
     Some ([], EnqTail val node, if lf_tail q = prev_tail \<and> \<not> weak then q\<lparr>lf_tail := desired\<rparr> else q)"
| "lf_step weak (EnqDone val node prev_tail) q =
     Some ([], Idle, if lf_tail q = prev_tail \<and> \<not> weak then q\<lparr>lf_tail := node\<rparr> else q)"
| "lf_step weak DeqHead q = Some ([], DeqNext (lf_head q), q)"
| "lf_step weak (DeqNext prev_head) q = do {
     x \<leftarrow> load_next q prev_head;
     if x = 0 then Some ([Empty], Idle, q) else Some ([], DeqData prev_head x, q) }"
| "lf_step weak (DeqData prev_head x) q = do {
     data \<leftarrow> load_data q x;
     Some ([], DeqSwing prev_head x data, q) }"
| "lf_step weak (DeqSwing prev_head x data) q =
     (if lf_head q = prev_head \<and> \<not> weak then Some ([Taken data], DeqFree prev_head data, q\<lparr>lf_head := x\<rparr>)
      else Some ([], DeqHead, q))"
| "lf_step weak (DeqFree prev_head data) q =
     (if lf_mem q prev_head = None then None
      else Some ([], Idle, q\<lparr>lf_mem := (lf_mem q)(prev_head := None)\<rparr>))"

text \<open>The call of \<open>lockfree_en_queue\<close> makes the new node, which no other thread sees yet.\<close>

definition call_en_queue :: "lf_malloc \<Rightarrow> int \<Rightarrow> lf_queue \<Rightarrow> (lf_pc \<times> lf_queue) option" where
  "call_en_queue malloc val q = do {
     let node = malloc (lf_mem q);
     if node = 0 then None
     else Some (EnqTail val node, q\<lparr>lf_mem := (lf_mem q)(node \<mapsto> \<lparr>lf_data = val, lf_next = 0\<rparr>)\<rparr>) }"

text \<open>A schedule names the thread that moves. A call by a busy thread is no step.\<close>

datatype lf_action = CallEnq int | CallDeq | Go bool

fun lf_move :: "lf_malloc \<Rightarrow> nat \<times> lf_action \<Rightarrow> (nat \<Rightarrow> lf_pc) \<times> lf_queue
    \<Rightarrow> (lf_event list \<times> (nat \<Rightarrow> lf_pc) \<times> lf_queue) option" where
  "lf_move malloc (i, CallEnq val) (pcs, q) =
     (if pcs i = Idle then do { (pc, q) \<leftarrow> call_en_queue malloc val q; Some ([], pcs(i := pc), q) } else Some ([], pcs, q))"
| "lf_move malloc (i, CallDeq) (pcs, q) = Some ([], if pcs i = Idle then pcs(i := DeqHead) else pcs, q)"
| "lf_move malloc (i, Go weak) (pcs, q) = do {
     (es, pc, q) \<leftarrow> lf_step weak (pcs i) q;
     Some (es, pcs(i := pc), q) }"

fun lf_exec :: "lf_malloc \<Rightarrow> (nat \<times> lf_action) list \<Rightarrow> (nat \<Rightarrow> lf_pc) \<times> lf_queue
    \<Rightarrow> (lf_event list \<times> (nat \<Rightarrow> lf_pc) \<times> lf_queue) option" where
  "lf_exec malloc [] g = Some ([], g)"
| "lf_exec malloc (m # ms) g = do {
     (es, g) \<leftarrow> lf_move malloc m g;
     (fs, g) \<leftarrow> lf_exec malloc ms g;
     Some (es @ fs, g) }"

text \<open>The program from its start.\<close>

definition lf_run :: "lf_malloc \<Rightarrow> (nat \<times> lf_action) list \<Rightarrow> (lf_event list \<times> (nat \<Rightarrow> lf_pc) \<times> lf_queue) option" where
  "lf_run malloc ms = do { q \<leftarrow> init_lockfree_queue malloc; lf_exec malloc ms (\<lambda>_. Idle, q) }"

text \<open>The condition of the loops of \<open>lockfree_queue_produce_func\<close> and \<open>lockfree_queue_consume_func\<close>.\<close>

definition produce_again :: "u64 \<Rightarrow> lf_queue \<Rightarrow> bool" where
  "produce_again total_nodes q \<longleftrightarrow> total_enqueue q < total_nodes"

definition consume_again :: "u64 \<Rightarrow> lf_queue \<Rightarrow> bool" where
  "consume_again total_nodes q \<longleftrightarrow> lf_shutdown q = 0 \<and> total_nodes \<noteq> 0"

section \<open>What a queue may do\<close>

fun fifo_history :: "int list \<Rightarrow> lf_event list \<Rightarrow> int list option" where
  "fifo_history xs [] = Some xs"
| "fifo_history xs (Linked v # es) = fifo_history (xs @ [v]) es"
| "fifo_history xs (Taken v # es) = (case xs of [] \<Rightarrow> None | x # ys \<Rightarrow> if x = v then fifo_history ys es else None)"
| "fifo_history xs (Empty # es) = (if xs = [] then fifo_history [] es else None)"

lemma fifo_history_append: "fifo_history xs (es @ fs) = Option.bind (fifo_history xs es) (\<lambda>ys. fifo_history ys fs)"
  by (induction xs es rule: fifo_history.induct) (auto split: list.splits)

section \<open>One producer and one consumer\<close>

text \<open>\<open>chained m ps\<close>: the nodes \<open>ps\<close>, with their data, each linked to the next one and the last one to \<open>NULL\<close>.\<close>

fun chained :: "(u64 \<Rightarrow> lf_node option) \<Rightarrow> (u64 \<times> int) list \<Rightarrow> bool" where
  "chained m [] \<longleftrightarrow> False"
| "chained m [(a, d)] \<longleftrightarrow> m a = Some \<lparr>lf_data = d, lf_next = 0\<rparr>"
| "chained m ((a, d) # (b, e) # ps) \<longleftrightarrow> m a = Some \<lparr>lf_data = d, lf_next = b\<rparr> \<and> chained m ((b, e) # ps)"

lemma chained_other: "x \<notin> fst ` set ps \<Longrightarrow> chained (m(x := n)) ps = chained m ps"
  by (induction m ps rule: chained.induct) auto

lemma chained_snoc:
  assumes "chained m ps" and "fst (List.last ps) = t" and "m x = Some \<lparr>lf_data = v, lf_next = 0\<rparr>"
    and "distinct (map fst ps)" and "x \<notin> fst ` set ps"
  shows "\<exists>d. m t = Some \<lparr>lf_data = d, lf_next = 0\<rparr> \<and> chained (m(t \<mapsto> \<lparr>lf_data = d, lf_next = x\<rparr>)) (ps @ [(x, v)])"
  using assms by (induction m ps rule: chained.induct) (auto simp: chained_other split: if_splits)

lemma chained_dom: "chained m ps \<Longrightarrow> a \<in> fst ` set ps \<Longrightarrow> m a \<noteq> None"
  by (induction m ps rule: chained.induct) auto

text \<open>The nodes that a thread has to itself.\<close>

fun owned :: "lf_pc \<Rightarrow> u64 list" where
  "owned (EnqTail v n) = [n]"
| "owned (EnqNext v n t) = [n]"
| "owned (EnqLink v n t e) = [n]"
| "owned (DeqFree h d) = [h]"
| "owned _ = []"

fun producer_at :: "lf_pc \<Rightarrow> lf_queue \<Rightarrow> u64 \<Rightarrow> bool" where
  "producer_at Idle q l \<longleftrightarrow> lf_tail q = l"
| "producer_at (EnqTail v n) q l \<longleftrightarrow> lf_tail q = l \<and> lf_mem q n = Some \<lparr>lf_data = v, lf_next = 0\<rparr>"
| "producer_at (EnqNext v n t) q l \<longleftrightarrow> lf_tail q = l \<and> t = l \<and> lf_mem q n = Some \<lparr>lf_data = v, lf_next = 0\<rparr>"
| "producer_at (EnqLink v n t e) q l \<longleftrightarrow> lf_tail q = l \<and> t = l \<and> e = 0 \<and> lf_mem q n = Some \<lparr>lf_data = v, lf_next = 0\<rparr>"
| "producer_at (EnqDone v n t) q l \<longleftrightarrow> lf_tail q = t \<and> n = l"
| "producer_at _ q l \<longleftrightarrow> False"

fun consumer_at :: "lf_pc \<Rightarrow> lf_queue \<Rightarrow> (u64 \<times> int) list \<Rightarrow> bool" where
  "consumer_at Idle q ps \<longleftrightarrow> True"
| "consumer_at DeqHead q ps \<longleftrightarrow> True"
| "consumer_at (DeqNext h) q ps \<longleftrightarrow> lf_head q = h"
| "consumer_at (DeqData h x) q ps \<longleftrightarrow> lf_head q = h \<and> (\<exists>d rs. ps = (x, d) # rs)"
| "consumer_at (DeqSwing h x d) q ps \<longleftrightarrow> lf_head q = h \<and> (\<exists>rs. ps = (x, d) # rs)"
| "consumer_at (DeqFree h d) q ps \<longleftrightarrow> lf_mem q h \<noteq> None"
| "consumer_at _ q ps \<longleftrightarrow> False"

text \<open>The producer is thread 0, the consumer thread 1; \<open>ps\<close> are the nodes behind the dummy node.\<close>

definition spsc_at :: "lf_pc \<Rightarrow> lf_pc \<Rightarrow> lf_queue \<Rightarrow> int \<Rightarrow> (u64 \<times> int) list \<Rightarrow> bool" where
  "spsc_at p c q d ps \<longleftrightarrow> chained (lf_mem q) ((lf_head q, d) # ps)
     \<and> distinct (owned p @ owned c @ lf_head q # map fst ps) \<and> 0 \<notin> set (owned p @ owned c @ lf_head q # map fst ps)
     \<and> producer_at p q (fst (List.last ((lf_head q, d) # ps))) \<and> consumer_at c q ps"

definition spsc :: "(nat \<Rightarrow> lf_pc) \<times> lf_queue \<Rightarrow> int list \<Rightarrow> bool" where
  "spsc g xs \<longleftrightarrow> (\<exists>d ps. spsc_at (fst g 0) (fst g 1) (snd g) d ps \<and> xs = map snd ps)"

lemmas store_defs = load_next_def load_data_def store_next_def

lemma chained_last: "chained m ps \<Longrightarrow> \<exists>d. m (fst (List.last ps)) = Some \<lparr>lf_data = d, lf_next = 0\<rparr>"
  by (induction m ps rule: chained.induct) auto

lemma last_in_nodes: "fst (List.last ((a, d) # ps)) \<in> insert a (fst ` set ps)"
  by (induction ps arbitrary: a d) auto

text \<open>How many steps a call still has to go.\<close>

fun lf_rank :: "lf_pc \<Rightarrow> nat" where
  "lf_rank (EnqTail v n) = 4"
| "lf_rank (EnqNext v n t) = 3"
| "lf_rank (EnqLink v n t e) = 2"
| "lf_rank (EnqDone v n t) = 1"
| "lf_rank DeqHead = 5"
| "lf_rank (DeqNext h) = 4"
| "lf_rank (DeqData h x) = 3"
| "lf_rank (DeqSwing h x d) = 2"
| "lf_rank (DeqFree h d) = 1"
| "lf_rank _ = 0"

text \<open>A step of the producer leaves the consumer where it is.\<close>

lemma producer_step:
  assumes "spsc_at p c q d ps"
  shows "\<exists>es p' q' ps'. lf_step False p q = Some (es, p', q') \<and> spsc_at p' c q' d ps'
    \<and> fifo_history (map snd ps) es = Some (map snd ps') \<and> dom (lf_mem q') = dom (lf_mem q)
    \<and> lf_rank p' \<le> lf_rank p - 1"
proof (cases p)
  case (EnqLink v n t e)
  have inv: "chained (lf_mem q) ((lf_head q, d) # ps)" "t = fst (List.last ((lf_head q, d) # ps))"
    "lf_mem q n = Some \<lparr>lf_data = v, lf_next = 0\<rparr>" "lf_tail q = t" "e = 0"
    "n \<notin> fst ` set ((lf_head q, d) # ps)" "distinct (map fst ((lf_head q, d) # ps))"
    using assms by (auto simp: spsc_at_def EnqLink)
  obtain b where b: "lf_mem q t = Some \<lparr>lf_data = b, lf_next = 0\<rparr>"
    "chained ((lf_mem q)(t \<mapsto> \<lparr>lf_data = b, lf_next = n\<rparr>)) ((lf_head q, d) # ps @ [(n, v)])"
    using chained_snoc [OF inv(1) inv(2) [symmetric] inv(3,7,6)] by auto
  let ?q = "q\<lparr>lf_mem := (lf_mem q)(t \<mapsto> \<lparr>lf_data = b, lf_next = n\<rparr>)\<rparr>"
  have "lf_step False p q = Some ([Linked v], EnqDone v n t, ?q)"
    using b(1) inv(5) by (simp add: EnqLink store_defs)
  moreover have "consumer_at c ?q (ps @ [(n, v)])"
    using assms by (cases c) (auto simp: spsc_at_def)
  moreover have "dom (lf_mem ?q) = dom (lf_mem q)"
    using b(1) by auto
  ultimately have "spsc_at (EnqDone v n t) c ?q d (ps @ [(n, v)])" "dom (lf_mem ?q) = dom (lf_mem q)"
    using assms b(2) inv(4) by (auto simp: spsc_at_def EnqLink)
  moreover have "fifo_history (map snd ps) [Linked v] = Some (map snd (ps @ [(n, v)]))" "lf_rank (EnqDone v n t) \<le> lf_rank p - 1"
    by (simp_all add: EnqLink)
  ultimately show ?thesis
    using \<open>lf_step False p q = _\<close> by blast
next
  case (EnqNext v n t)
  then show ?thesis
    using assms chained_last [of "lf_mem q" "(lf_head q, d) # ps"] by (auto simp: spsc_at_def store_defs)
next
  case (EnqDone v n t)
  have "consumer_at c (q\<lparr>lf_tail := n\<rparr>) ps"
    using assms by (cases c) (auto simp: spsc_at_def)
  then show ?thesis
    using assms by (auto simp: spsc_at_def EnqDone)
qed (use assms in \<open>auto simp: spsc_at_def\<close>)

lemma consumer_step:
  assumes "spsc_at p c q d ps"
  shows "\<exists>es c' q' d' ps'. lf_step False c q = Some (es, c', q') \<and> spsc_at p c' q' d' ps'
    \<and> fifo_history (map snd ps) es = Some (map snd ps') \<and> dom (lf_mem q') \<subseteq> dom (lf_mem q)
    \<and> lf_rank c' \<le> lf_rank c - 1"
proof (cases c)
  case (DeqFree h b)
  let ?q = "q\<lparr>lf_mem := (lf_mem q)(h := None)\<rparr>"
  have own: "h \<notin> insert (lf_head q) (fst ` set ps)" "h \<notin> set (owned p)" "lf_mem q h \<noteq> None"
    using assms by (auto simp: spsc_at_def DeqFree)
  then have "chained (lf_mem ?q) ((lf_head q, d) # ps)"
    using assms chained_other [of h "(lf_head q, d) # ps" "lf_mem q" None] by (simp add: spsc_at_def)
  moreover have "producer_at p ?q l" if "producer_at p q l" for l
    using that own(2) by (cases p) auto
  ultimately have "spsc_at p Idle ?q d ps"
    using assms by (simp add: spsc_at_def DeqFree)
  moreover have "lf_step False c q = Some ([], Idle, ?q)" "dom (lf_mem ?q) \<subseteq> dom (lf_mem q)"
    using own(3) by (auto simp: DeqFree)
  moreover have "fifo_history (map snd ps) [] = Some (map snd ps)" "lf_rank Idle \<le> lf_rank c - 1"
    by (simp_all add: DeqFree)
  ultimately show ?thesis
    by blast
next
  case (DeqNext h)
  show ?thesis
  proof (cases ps)
    case Nil
    then show ?thesis
      using assms by (auto simp: spsc_at_def store_defs DeqNext)
  next
    case (Cons e rs)
    then have "spsc_at p (DeqData h (fst e)) q d ps" "lf_step False c q = Some ([], DeqData h (fst e), q)"
      using assms by (cases e; auto simp: spsc_at_def store_defs DeqNext)+
    moreover have "lf_rank (DeqData h (fst e)) \<le> lf_rank c - 1"
      by (simp add: DeqNext)
    ultimately show ?thesis
      by (metis fifo_history.simps(1) order_refl)
  qed
next
  case (DeqData h x)
  then obtain b rs where ps: "ps = (x, b) # rs" and h: "lf_head q = h"
    using assms by (auto simp: spsc_at_def)
  then have "lf_mem q x \<noteq> None" "map_option lf_data (lf_mem q x) = Some b"
    using assms by (cases rs; auto simp: spsc_at_def)+
  then have "spsc_at p (DeqSwing h x b) q d ps" "lf_step False c q = Some ([], DeqSwing h x b, q)"
    using assms by (auto simp: spsc_at_def store_defs DeqData ps h)
  moreover have "lf_rank (DeqSwing h x b) \<le> lf_rank c - 1"
    by (simp add: DeqData)
  ultimately show ?thesis
    by (metis fifo_history.simps(1) order_refl)
next
  case (DeqSwing h x b)
  then obtain rs where ps: "ps = (x, b) # rs" and h: "lf_head q = h"
    using assms by (auto simp: spsc_at_def)
  have "producer_at p (q\<lparr>lf_head := x\<rparr>) l" if "producer_at p q l" for l
    using that by (cases p) auto
  moreover have "lf_mem q h \<noteq> None"
    using assms by (auto simp: spsc_at_def ps h)
  ultimately have "spsc_at p (DeqFree h b) (q\<lparr>lf_head := x\<rparr>) b rs"
    using assms by (auto simp: spsc_at_def DeqSwing ps h)
  moreover have "lf_step False c q = Some ([Taken b], DeqFree h b, q\<lparr>lf_head := x\<rparr>)"
    by (simp add: DeqSwing h)
  moreover have "fifo_history (map snd ps) [Taken b] = Some (map snd rs)" "dom (lf_mem (q\<lparr>lf_head := x\<rparr>)) \<subseteq> dom (lf_mem q)"
    by (simp_all add: ps)
  moreover have "lf_rank (DeqFree h b) \<le> lf_rank c - 1"
    by (simp add: DeqSwing)
  ultimately show ?thesis
    by blast
next
  case Idle
  then have "lf_step False c q = Some ([], c, q)" "lf_rank c \<le> lf_rank c - 1"
    by simp_all
  then show ?thesis
    using assms by (metis fifo_history.simps(1) order_refl)
next
  case DeqHead
  then have "lf_step False c q = Some ([], DeqNext (lf_head q), q)" "spsc_at p (DeqNext (lf_head q)) q d ps"
    "lf_rank (DeqNext (lf_head q)) \<le> lf_rank c - 1"
    using assms by (simp_all add: spsc_at_def)
  then show ?thesis
    by (metis fifo_history.simps(1) order_refl)
qed (use assms in \<open>auto simp: spsc_at_def\<close>)

text \<open>What is assumed of \<open>malloc\<close>: a new address, or a failure when \<open>N\<close> nodes or more are allocated.\<close>

definition mallocs :: "nat \<Rightarrow> lf_malloc \<Rightarrow> bool" where
  "mallocs N malloc \<longleftrightarrow> (\<forall>m. if malloc m = 0 then N \<le> card (dom m) else m (malloc m) = None)"

lemma call_step:
  assumes "spsc_at Idle c q d ps" and "mallocs N malloc" and "card (dom (lf_mem q)) < N"
  shows "\<exists>p' q'. call_en_queue malloc v q = Some (p', q') \<and> spsc_at p' c q' d ps
    \<and> card (dom (lf_mem q')) \<le> card (dom (lf_mem q)) + 1"
proof -
  let ?n = "malloc (lf_mem q)" and ?q = "q\<lparr>lf_mem := (lf_mem q)(malloc (lf_mem q) \<mapsto> \<lparr>lf_data = v, lf_next = 0\<rparr>)\<rparr>"
  have new: "?n \<noteq> 0" "lf_mem q ?n = None"
    using assms(2,3) unfolding mallocs_def by (metis not_le)+
  then have "?n \<notin> fst ` set ((lf_head q, d) # ps)" "?n \<notin> set (owned c)"
    using assms(1) chained_dom [of "lf_mem q" "(lf_head q, d) # ps" ?n] by (force simp: spsc_at_def, cases c, auto simp: spsc_at_def)
  moreover from this have "chained (lf_mem ?q) ((lf_head q, d) # ps)"
    using assms(1) chained_other [of ?n "(lf_head q, d) # ps"] by (simp add: spsc_at_def)
  moreover have "consumer_at c ?q ps"
    using assms(1) by (cases c) (auto simp: spsc_at_def)
  ultimately have "spsc_at (EnqTail v ?n) c ?q d ps"
    using assms(1) new by (auto simp: spsc_at_def)
  moreover have "call_en_queue malloc v q = Some (EnqTail v ?n, ?q)"
    using new(1) by (simp add: call_en_queue_def Let_def)
  moreover have "card (dom (lf_mem ?q)) \<le> card (dom (lf_mem q)) + 1"
    by (simp add: card_insert_if)
  ultimately show ?thesis
    by blast
qed

text \<open>The moves of one producer, thread 0, and one consumer, thread 1, when no compare-and-exchange fails without
  a reason.\<close>

fun spsc_move :: "nat \<times> lf_action \<Rightarrow> bool" where
  "spsc_move (i, CallEnq v) \<longleftrightarrow> i = 0"
| "spsc_move (i, CallDeq) \<longleftrightarrow> i = 1"
| "spsc_move (i, Go weak) \<longleftrightarrow> i \<le> 1 \<and> \<not> weak"

fun enqs :: "(nat \<times> lf_action) list \<Rightarrow> nat" where
  "enqs [] = 0"
| "enqs ((i, CallEnq v) # ms) = Suc (enqs ms)"
| "enqs (m # ms) = enqs ms"

abbreviation nodes_of :: "(nat \<Rightarrow> lf_pc) \<times> lf_queue \<Rightarrow> nat" where
  "nodes_of g \<equiv> card (dom (lf_mem (snd g)))"

lemma spsc_step:
  assumes "spsc g xs" and "i \<le> 1"
  shows "\<exists>es g' ys. lf_move malloc (i, Go False) g = Some (es, g') \<and> spsc g' ys \<and> fifo_history xs es = Some ys
    \<and> nodes_of g' \<le> nodes_of g \<and> lf_rank (fst g' i) \<le> lf_rank (fst g i) - 1 \<and> (\<forall>j. j \<noteq> i \<longrightarrow> fst g' j = fst g j)"
proof -
  obtain pcs q d ps where g: "g = (pcs, q)" and at: "spsc_at (pcs 0) (pcs 1) q d ps" and xs: "xs = map snd ps"
    using assms(1) by (cases g) (auto simp: spsc_def)
  consider "i = 0" | "i = 1"
    using assms(2) by linarith
  then show ?thesis
  proof cases
    case 1
    obtain es p' q' ps' where step: "lf_step False (pcs 0) q = Some (es, p', q')" "spsc_at p' (pcs 1) q' d ps'"
      "fifo_history (map snd ps) es = Some (map snd ps')" "dom (lf_mem q') = dom (lf_mem q)" "lf_rank p' \<le> lf_rank (pcs 0) - 1"
      using producer_step [OF at] by blast
    then have "spsc (pcs(0 := p'), q') (map snd ps')"
      by (auto simp: spsc_def)
    then show ?thesis
      using step by (simp add: g xs 1)
  next
    case 2
    obtain es c' q' d' ps' where step: "lf_step False (pcs 1) q = Some (es, c', q')" "spsc_at (pcs 0) c' q' d' ps'"
      "fifo_history (map snd ps) es = Some (map snd ps')" "dom (lf_mem q') \<subseteq> dom (lf_mem q)" "lf_rank c' \<le> lf_rank (pcs 1) - 1"
      using consumer_step [OF at] by blast
    then have "spsc (pcs(1 := c'), q') (map snd ps')"
      by (auto simp: spsc_def)
    moreover have "nodes_of (pcs, q') \<le> nodes_of (pcs, q)"
      using step(4) by (simp add: card_mono)
    ultimately show ?thesis
      using step by (simp add: g xs 2)
  qed
qed

lemma spsc_call:
  assumes "spsc g xs" and "spsc_move (i, a)" and "\<And>w. a \<noteq> Go w" and "mallocs N malloc" and "nodes_of g + enqs [(i, a)] \<le> N"
  shows "\<exists>g'. lf_move malloc (i, a) g = Some ([], g') \<and> spsc g' xs \<and> nodes_of g' \<le> nodes_of g + enqs [(i, a)]
    \<and> (\<forall>j. j \<noteq> i \<longrightarrow> fst g' j = fst g j)"
proof -
  obtain pcs q d ps where g: "g = (pcs, q)" and at: "spsc_at (pcs 0) (pcs 1) q d ps" and xs: "xs = map snd ps"
    using assms(1) by (cases g) (auto simp: spsc_def)
  show ?thesis
  proof (cases a)
    case (CallEnq v)
    show ?thesis
    proof (cases "pcs 0 = Idle")
      case True
      then obtain p' q' where "call_en_queue malloc v q = Some (p', q')" "spsc_at p' (pcs 1) q' d ps"
        "card (dom (lf_mem q')) \<le> card (dom (lf_mem q)) + 1"
        using call_step [of "pcs 1" q d ps N malloc v] at assms(4,5) by (auto simp: CallEnq g)
      then show ?thesis
        using assms(2) True by (auto simp: CallEnq g spsc_def xs)
    qed (use assms(1,2) in \<open>auto simp: CallEnq g\<close>)
  next
    case CallDeq
    show ?thesis
      using assms(1,2) by (auto simp: CallDeq g spsc_def spsc_at_def split: if_splits)
  qed (use assms(3) in blast)
qed

lemma enqs_Cons: "enqs (m # ms) = enqs [m] + enqs ms"
  by (cases m; cases "snd m") auto

lemma spsc_exec:
  assumes "spsc g xs" and "\<forall>m\<in>set ms. spsc_move m" and "mallocs N malloc" and "nodes_of g + enqs ms \<le> N"
  shows "\<exists>es g' ys. lf_exec malloc ms g = Some (es, g') \<and> spsc g' ys \<and> fifo_history xs es = Some ys \<and> nodes_of g' \<le> nodes_of g + enqs ms
    \<and> (\<forall>i. (\<forall>a. (i, a) \<in> set ms \<longrightarrow> a = Go False) \<longrightarrow> lf_rank (fst g' i) \<le> lf_rank (fst g i) - count_list ms (i, Go False))"
  using assms
proof (induction ms arbitrary: g xs)
  case Nil
  then show ?case by simp
next
  case (Cons m ms)
  obtain i a where m: "m = (i, a)"
    by fastforce
  have "\<exists>es g1 ys. lf_move malloc m g = Some (es, g1) \<and> spsc g1 ys \<and> fifo_history xs es = Some ys
      \<and> nodes_of g1 \<le> nodes_of g + enqs [m] \<and> (a = Go False \<longrightarrow> lf_rank (fst g1 i) \<le> lf_rank (fst g i) - 1)
      \<and> (\<forall>j. j \<noteq> i \<longrightarrow> fst g1 j = fst g j)"
  proof (cases "\<exists>w. a = Go w")
    case True
    then have "a = Go False" "i \<le> 1"
      using Cons.prems(2) by (auto simp: m)
    then show ?thesis
      using spsc_step [OF Cons.prems(1), of i malloc] unfolding m by fastforce
  next
    case False
    moreover have "nodes_of g + enqs [m] \<le> N"
      using Cons.prems(4) enqs_Cons [of m ms] by linarith
    ultimately obtain g1 where "lf_move malloc m g = Some ([], g1)" "spsc g1 xs" "nodes_of g1 \<le> nodes_of g + enqs [m]"
      "\<forall>j. j \<noteq> i \<longrightarrow> fst g1 j = fst g j"
      using spsc_call [OF Cons.prems(1), of i a N malloc] Cons.prems(2,3) by (auto simp: m)
    then show ?thesis
      using False by (intro exI [of _ "[]"] exI [of _ g1] exI [of _ xs]) auto
  qed
  then obtain es g1 ys where step: "lf_move malloc m g = Some (es, g1)" "spsc g1 ys" "fifo_history xs es = Some ys"
      "nodes_of g1 \<le> nodes_of g + enqs [m]" "a = Go False \<longrightarrow> lf_rank (fst g1 i) \<le> lf_rank (fst g i) - 1"
      "\<forall>j. j \<noteq> i \<longrightarrow> fst g1 j = fst g j"
    by blast
  have "nodes_of g1 + enqs ms \<le> N"
    using Cons.prems(4) enqs_Cons [of m ms] step(4) by linarith
  then obtain fs g' zs where rest: "lf_exec malloc ms g1 = Some (fs, g')" "spsc g' zs" "fifo_history ys fs = Some zs"
    "nodes_of g' \<le> nodes_of g1 + enqs ms"
    "\<forall>j. (\<forall>a. (j, a) \<in> set ms \<longrightarrow> a = Go False) \<longrightarrow> lf_rank (fst g' j) \<le> lf_rank (fst g1 j) - count_list ms (j, Go False)"
    using Cons.IH [OF step(2)] Cons.prems(2,3) by auto
  have "lf_rank (fst g' j) \<le> lf_rank (fst g j) - count_list (m # ms) (j, Go False)"
    if "\<forall>a. (j, a) \<in> set (m # ms) \<longrightarrow> a = Go False" for j
  proof (cases "j = i")
    case True
    then have "a = Go False" "lf_rank (fst g' i) \<le> lf_rank (fst g1 i) - count_list ms (i, Go False)"
      using that rest(5) by (auto simp: m)
    then show ?thesis
      using step(5) True by (simp add: m)
  next
    case False
    then have "fst g1 j = fst g j" "\<forall>a. (j, a) \<in> set ms \<longrightarrow> a = Go False"
      using step(6) that by auto
    then show ?thesis
      using rest(5) [rule_format, of j] False by (auto simp: m)
  qed
  moreover have "nodes_of g' \<le> nodes_of g + enqs (m # ms)"
    using rest(4) step(4) enqs_Cons [of m ms] by linarith
  moreover have "lf_exec malloc (m # ms) g = Some (es @ fs, g')" "fifo_history xs (es @ fs) = Some zs"
    using step(1,3) rest(1,3) by (simp_all add: fifo_history_append)
  ultimately show ?case
    using rest(2) by blast
qed

lemma spsc_start:
  assumes "mallocs N malloc" and "0 < N"
  shows "\<exists>q. init_lockfree_queue malloc = Some q \<and> spsc (\<lambda>_. Idle, q) [] \<and> card (dom (lf_mem q)) = 1"
proof -
  have "malloc Map.empty \<noteq> 0"
    using assms unfolding mallocs_def by (metis card.empty dom_empty not_less)
  then show ?thesis
    by (auto simp: init_lockfree_queue_def Let_def spsc_def spsc_at_def)
qed

lemma spsc_run:
  assumes "mallocs N malloc" and "\<forall>m\<in>set ms. spsc_move m" and "enqs ms < N"
  shows "\<exists>es g ys. lf_run malloc ms = Some (es, g) \<and> spsc g ys \<and> fifo_history [] es = Some ys \<and> nodes_of g \<le> 1 + enqs ms"
proof -
  have "0 < N"
    using assms(3) by simp
  then obtain q where q: "init_lockfree_queue malloc = Some q" "spsc (\<lambda>_. Idle, q) []" "card (dom (lf_mem q)) = 1"
    using spsc_start [OF assms(1)] by blast
  then show ?thesis
    using spsc_exec [OF q(2) assms(2,1)] assms(3) by (auto simp: lf_run_def)
qed

lemma lf_exec_append:
  "lf_exec malloc (ms @ ns) g = do { (es, g) \<leftarrow> lf_exec malloc ms g; (fs, g) \<leftarrow> lf_exec malloc ns g; Some (es @ fs, g) }"
  by (induction malloc ms g rule: lf_exec.induct) (auto simp: split_beta split: Option.bind_split)

lemma enqs_append: "enqs (ms @ ns) = enqs ms + enqs ns"
  by (induction ms rule: enqs.induct) auto

lemma lf_rank_le: "lf_rank pc \<le> 5"
  by (cases pc) auto

lemma spsc_idle: "spsc g xs \<Longrightarrow> i \<le> 1 \<Longrightarrow> lf_rank (fst g i) = 0 \<Longrightarrow> fst g i = Idle"
proof -
  assume "spsc g xs" "i \<le> 1" "lf_rank (fst g i) = 0"
  moreover have "p = Idle" if "lf_rank p = 0" "producer_at p q l \<or> consumer_at p q ps" for p q l ps
    using that by (cases p) auto
  ultimately show "fst g i = Idle"
    unfolding spsc_def spsc_at_def by (metis One_nat_def le_Suc_eq le_zero_eq)
qed

section \<open>The counters\<close>

text \<open>No operation of the queue writes \<open>queue_ctr\<close>.\<close>

lemma step_counters: "lf_step w pc q = Some (es, pc', q') \<Longrightarrow> total_enqueue q' = total_enqueue q \<and> lf_shutdown q' = lf_shutdown q"
  by (cases "(w, pc, q)" rule: lf_step.cases) (auto simp: store_defs bind_eq_Some_conv split: if_splits)

lemma move_counters:
  "lf_move malloc m g = Some (es, g') \<Longrightarrow> total_enqueue (snd g') = total_enqueue (snd g) \<and> lf_shutdown (snd g') = lf_shutdown (snd g)"
  by (cases "(malloc, m, g)" rule: lf_move.cases)
    (auto simp: call_en_queue_def Let_def bind_eq_Some_conv split: if_splits dest: step_counters)

lemma exec_counters:
  "lf_exec malloc ms g = Some (es, g') \<Longrightarrow> total_enqueue (snd g') = total_enqueue (snd g) \<and> lf_shutdown (snd g') = lf_shutdown (snd g)"
  by (induction ms arbitrary: g es) (fastforce simp: bind_eq_Some_conv dest: move_counters)+

section \<open>A heap of a few nodes\<close>

definition arena :: "u64 list \<Rightarrow> lf_malloc" where
  "arena as m = (case filter (\<lambda>a. m a = None) as of [] \<Rightarrow> 0 | a # _ \<Rightarrow> a)"

lemma arena_mallocs:
  assumes "distinct as" and "0 \<notin> set as"
  shows "mallocs (length as) (arena as)"
  unfolding mallocs_def
proof
  fix m :: "u64 \<Rightarrow> lf_node option"
  show "if arena as m = 0 then length as \<le> card (dom m) else m (arena as m) = None"
  proof (cases "filter (\<lambda>a. m a = None) as")
    case Nil
    then have "set as \<subseteq> dom m"
      by (auto simp: filter_empty_conv)
    then have "card (set as) \<le> card (dom m)"
      by (simp add: card_mono)
    then show ?thesis
      using assms(1) Nil by (simp add: arena_def distinct_card)
  next
    case (Cons a bs)
    have "a \<in> set (filter (\<lambda>a. m a = None) as)"
      unfolding Cons by simp
    then have "m a = None" "a \<noteq> 0"
      using assms(2) by auto
    then show ?thesis
      using Cons by (simp add: arena_def)
  qed
qed

definition small_arena :: lf_malloc where
  "small_arena = arena [8, 16, 24, 32]"

lemma small_arena_mallocs: "mallocs 4 small_arena"
proof -
  have "length [8, 16, 24, 32 :: u64] = 4"
    by simp
  then show ?thesis
    unfolding small_arena_def using arena_mallocs [of "[8, 16, 24, 32]", unfolded \<open>length _ = 4\<close>] by simp
qed

abbreviation go :: "nat \<Rightarrow> nat \<times> lf_action" where
  "go i \<equiv> (i, Go False)"

section \<open>Properties\<close>

text \<open>C16: With one producer and one consumer, compare-and-exchanges that fail only when the values differ, and enough
  memory, every interleaving of the steps of \<open>lockfree_en_queue\<close> and \<open>lockfree_de_queue\<close> is memory safe, frees each node
  after its last use although its address may be allocated again, and behaves as a first-in-first-out queue: each value
  taken is the oldest one that was linked, and the answer "empty" is given only when nothing is in the queue.\<close>

theorem spsc_is_fifo:
  assumes "mallocs N malloc" and "\<forall>m\<in>set ms. spsc_move m" and "enqs ms < N"
  shows "\<exists>es pcs q xs. lf_run malloc ms = Some (es, pcs, q) \<and> fifo_history [] es = Some xs"
  using spsc_run [OF assms] by fastforce

theorem spsc_is_fifo_witness:
  "\<exists>es pcs q xs. lf_run small_arena [(0, CallEnq 5), (1, CallDeq), go 0, go 1, go 0, go 0, go 1, go 1, go 1, go 0, go 1] = Some (es, pcs, q)
    \<and> fifo_history [] es = Some xs"
  by (rule spsc_is_fifo [OF small_arena_mallocs]) simp_all

text \<open>C17: In the same setting both operations are wait-free: whatever has happened before, a thread that takes five more
  steps without a new call has returned from the call it was in, wherever the other thread is and however its steps
  fall in between.\<close>

theorem spsc_wait_free:
  assumes "mallocs N malloc" and "\<forall>m\<in>set (ms @ ns). spsc_move m" and "enqs (ms @ ns) < N"
    and "i \<le> 1" and "\<forall>a. (i, a) \<in> set ns \<longrightarrow> a = Go False" and "5 \<le> count_list ns (go i)"
  shows "\<exists>es pcs q. lf_run malloc (ms @ ns) = Some (es, pcs, q) \<and> pcs i = Idle"
proof -
  obtain es g ys where g: "lf_run malloc ms = Some (es, g)" "spsc g ys" "nodes_of g \<le> 1 + enqs ms"
    using spsc_run [of N malloc ms] assms(1,2,3) by (auto simp: enqs_append)
  then have "nodes_of g + enqs ns \<le> N"
    using assms(3) by (simp add: enqs_append)
  then obtain fs g' zs where g': "lf_exec malloc ns g = Some (fs, g')" "spsc g' zs"
    "lf_rank (fst g' i) \<le> lf_rank (fst g i) - count_list ns (go i)"
    using spsc_exec [OF g(2), of ns N malloc] assms(1,2,5) by auto
  then have "fst g' i = Idle"
    using spsc_idle [OF g'(2) assms(4)] lf_rank_le [of "fst g i"] assms(6) by auto
  moreover have "lf_run malloc (ms @ ns) = Some (es @ fs, g')"
    using g(1) g'(1) by (cases g; cases g') (auto simp: lf_run_def bind_eq_Some_conv lf_exec_append)
  ultimately show ?thesis
    by (cases g') auto
qed

theorem spsc_wait_free_witness:
  "\<exists>es pcs q. lf_run small_arena ([(0, CallEnq 5), go 0, (1, CallDeq)] @ [go 1, go 0, go 0, go 1, go 0, go 1, go 0, go 0]) = Some (es, pcs, q)
    \<and> pcs 0 = Idle"
  by (rule spsc_wait_free [OF small_arena_mallocs]) auto

text \<open>Outside that setting the queue is broken. Two producers lose a value: the second one replaces the link that the
  first one has just set, because the compare-and-exchange expects the link it has read instead of \<open>NULL\<close>. Two consumers
  read a node that one of them has freed. And a producer whose compare-and-exchange fails without a reason sets the
  tail to \<open>NULL\<close> and follows it.\<close>

theorem lockfree_queue_hazards:
  "(\<exists>g. lf_run small_arena
       ([(0, CallEnq 1), go 0, go 0, go 0, (2, CallEnq 2), go 2, go 2, go 2, go 0, go 2]
        @ [(1, CallDeq), go 1, go 1, go 1, go 1, go 1, (1, CallDeq), go 1, go 1]) = Some ([Linked 1, Linked 2, Taken 2, Empty], g))
   \<and> fifo_history [] [Linked 1, Linked 2, Taken 2, Empty] = None
   \<and> lf_run small_arena
       ([(0, CallEnq 1), go 0, go 0, go 0, go 0] @ [(1, CallDeq), go 1] @ [(2, CallDeq), go 2, go 2, go 2, go 2, go 2] @ [go 1]) = None
   \<and> lf_run small_arena [(0, CallEnq 1), go 0, go 0, (0, Go True), go 0, go 0, go 0, go 0] = None"
  by (simp add: lf_run_def init_lockfree_queue_def small_arena_def arena_def Let_def call_en_queue_def store_defs)

text \<open>The loops of the producer and consumer threads never end: \<open>lockfree_en_queue\<close> does not count in
  \<open>total_enqueue\<close> and nothing sets \<open>shutdown\<close>, so in every reachable state both loop conditions hold.\<close>

theorem lockfree_threads_never_stop:
  assumes "lf_run malloc ms = Some (es, pcs, q)" and "0 < total_nodes"
  shows "produce_again total_nodes q \<and> consume_again total_nodes q"
proof -
  obtain q0 where "init_lockfree_queue malloc = Some q0" "lf_exec malloc ms (\<lambda>_. Idle, q0) = Some (es, pcs, q)"
    using assms(1) by (auto simp: lf_run_def bind_eq_Some_conv)
  moreover from this have "total_enqueue q0 = 0" "lf_shutdown q0 = 0"
    by (auto simp: init_lockfree_queue_def Let_def split: if_splits)
  ultimately show ?thesis
    using exec_counters [of malloc ms "(\<lambda>_. Idle, q0)" es "(pcs, q)"] assms(2) by (auto simp: produce_again_def consume_again_def)
qed

theorem lockfree_threads_never_stop_witness:
  "\<exists>es pcs q. lf_run small_arena [(0, CallEnq 1), go 0, go 0, go 0, go 0] = Some (es, pcs, q) \<and> produce_again 1 q \<and> consume_again 1 q"
proof -
  obtain es pcs q where "lf_run small_arena [(0, CallEnq 1), go 0, go 0, go 0, go 0] = Some (es, pcs, q)"
    by (simp add: lf_run_def init_lockfree_queue_def small_arena_def arena_def Let_def call_en_queue_def store_defs)
  then show ?thesis
    using lockfree_threads_never_stop [of small_arena _ es pcs q 1] by auto
qed

end
