(* ===== verification/MutexQueue.thy ===== *)
theory MutexQueue
  imports LockfreeQueue DList
begin

text \<open>
  The queue with a mutex and a condition variable, C/09_lockfree_queue/mutex_queue.c, and its producer and consumer
  threads as a step relation. A critical section is one step; a thread that waits for the condition sleeps until it is
  signalled, or wakes up without a reason.
\<close>

section \<open>The queue\<close>

record mutex_queue = queue_ctr +
  mq_heap :: dheap
  mq_data :: "nat \<Rightarrow> int"
  mq_head :: nat

text \<open>The queue is a global variable, so its head has an address before the program starts.\<close>

definition init_mutex_queue :: "nat \<Rightarrow> mutex_queue" where
  "init_mutex_queue head =
     \<lparr>lf_count = 0, total_enqueue = 0, lf_shutdown = 0,
      mq_heap = [head \<mapsto> \<lparr>dn_next = head, dn_prev = head\<rparr>], mq_data = (\<lambda>_. 0)(head := -1), mq_head = head\<rparr>"

text \<open>The walks, as the list of the values printed.\<close>

definition iter_queue :: "mutex_queue \<Rightarrow> int list option" where
  "iter_queue q = do {
     node \<leftarrow> nxt (mq_heap q) (mq_head q);
     loop (\<lambda>(node, out).
       if node \<noteq> mq_head q then do { n \<leftarrow> nxt (mq_heap q) node; Some (Inl (n, out @ [mq_data q node])) }
       else Some (Inr out)) (node, []) }"

definition reverse_iter_queue :: "mutex_queue \<Rightarrow> int list option" where
  "reverse_iter_queue q = do {
     node \<leftarrow> prv (mq_heap q) (mq_head q);
     loop (\<lambda>(node, out).
       if node \<noteq> mq_head q then do { n \<leftarrow> prv (mq_heap q) node; Some (Inl (n, out @ [mq_data q node])) }
       else Some (Inr out)) (node, []) }"

text \<open>\<open>node\<close> is what \<open>calloc\<close> answered, not \<open>NULL\<close>. The flag tells whether the condition was signalled.\<close>

definition mutex_en_queue :: "nat \<Rightarrow> int \<Rightarrow> u64 \<Rightarrow> mutex_queue \<Rightarrow> (bool \<times> mutex_queue) option" where
  "mutex_en_queue node val total_nodes q = do {
     let q = q\<lparr>mq_heap := (mq_heap q)(node \<mapsto> \<lparr>dn_next = 0, dn_prev = 0\<rparr>), mq_data := (mq_data q)(node := val)\<rparr>;
     if total_nodes \<le> total_enqueue q then Some (False, q\<lparr>mq_heap := (mq_heap q)(node := None)\<rparr>)
     else do {
       let h = mq_heap q;
       n \<leftarrow> nxt h (mq_head q);
       h \<leftarrow> set_prv h n node;
       n \<leftarrow> nxt h (mq_head q);
       h \<leftarrow> set_nxt h node n;
       h \<leftarrow> set_prv h node (mq_head q);
       h \<leftarrow> set_nxt h (mq_head q) node;
       Some (True, q\<lparr>mq_heap := h, lf_count := lf_count q + 1, total_enqueue := total_enqueue q + 1\<rparr>) } }"

text \<open>One pass through the critical section of \<open>mutex_de_queue\<close>: it waits, it finds nothing, or it takes a node and
  says whether it has woken up everybody.\<close>

datatype dequeue_result = Waits | Nothing | Node nat bool

definition mutex_de_queue :: "u64 \<Rightarrow> mutex_queue \<Rightarrow> (dequeue_result \<times> mutex_queue) option" where
  "mutex_de_queue total_nodes q =
     (if lf_count q = 0 \<and> lf_shutdown q = 0 then Some (Waits, q)
      else do {
        p \<leftarrow> prv (mq_heap q) (mq_head q);
        if p = mq_head q then Some (Nothing, q)
        else do {
          let node = p;
          let h = mq_heap q;
          p \<leftarrow> prv h node;
          n \<leftarrow> nxt h node;
          h \<leftarrow> set_nxt h p n;
          n \<leftarrow> nxt h node;
          p \<leftarrow> prv h node;
          h \<leftarrow> set_prv h n p;
          let q = q\<lparr>mq_heap := h, lf_count := lf_count q - 1\<rparr>;
          let stop = (total_enqueue q = total_nodes \<and> lf_count q = 0);
          Some (Node node stop, if stop then q\<lparr>lf_shutdown := 1\<rparr> else q) } })"

definition mq_free :: "nat \<Rightarrow> mutex_queue \<Rightarrow> mutex_queue option" where
  "mq_free node q = (if mq_heap q node = None then None else Some (q\<lparr>mq_heap := (mq_heap q)(node := None)\<rparr>))"

section \<open>The threads\<close>

datatype mq_pc = ProdLoop | ProdCall int | ConLoop | ConCall | ConSleep | ConFree nat | Finished

type_synonym mq_state = "(nat \<Rightarrow> mq_pc) \<times> mutex_queue"

text \<open>A signal wakes up one sleeping thread, if there is one, and a broadcast all of them. A thread that has been woken
  up evaluates the condition again.\<close>

definition signals :: "(nat \<Rightarrow> mq_pc) \<Rightarrow> (nat \<Rightarrow> mq_pc) \<Rightarrow> bool" where
  "signals pcs pcs' \<longleftrightarrow> (\<exists>j. pcs j = ConSleep \<and> pcs' = pcs(j := ConCall)) \<or> (ConSleep \<notin> range pcs \<and> pcs' = pcs)"

definition wake_all :: "(nat \<Rightarrow> mq_pc) \<Rightarrow> nat \<Rightarrow> mq_pc" where
  "wake_all pcs j = (if pcs j = ConSleep then ConCall else pcs j)"

inductive mq_step :: "u64 \<Rightarrow> mq_state \<Rightarrow> lf_event list \<Rightarrow> mq_state \<Rightarrow> bool" for N :: u64 where
  prod_go: "pcs i = ProdLoop \<Longrightarrow> total_enqueue q < N \<Longrightarrow> mq_step N (pcs, q) [] (pcs(i := ProdCall val), q)"
| prod_end: "pcs i = ProdLoop \<Longrightarrow> \<not> total_enqueue q < N \<Longrightarrow> mq_step N (pcs, q) [] (pcs(i := Finished), q)"
| prod_nomem: "pcs i = ProdCall val \<Longrightarrow> mq_step N (pcs, q) [] (pcs(i := ProdLoop), q)"
| prod_late: "pcs i = ProdCall val \<Longrightarrow> node \<noteq> 0 \<Longrightarrow> mq_heap q node = None \<Longrightarrow>
    mutex_en_queue node val N q = Some (False, q') \<Longrightarrow> mq_step N (pcs, q) [] (pcs(i := ProdLoop), q')"
| prod_put: "pcs i = ProdCall val \<Longrightarrow> node \<noteq> 0 \<Longrightarrow> mq_heap q node = None \<Longrightarrow>
    mutex_en_queue node val N q = Some (True, q') \<Longrightarrow> signals (pcs(i := ProdLoop)) pcs' \<Longrightarrow>
    mq_step N (pcs, q) [Linked val] (pcs', q')"
| con_go: "pcs i = ConLoop \<Longrightarrow> lf_shutdown q = 0 \<Longrightarrow> N \<noteq> 0 \<Longrightarrow> mq_step N (pcs, q) [] (pcs(i := ConCall), q)"
| con_end: "pcs i = ConLoop \<Longrightarrow> lf_shutdown q \<noteq> 0 \<or> N = 0 \<Longrightarrow> mq_step N (pcs, q) [] (pcs(i := Finished), q)"
| con_wait: "pcs i = ConCall \<Longrightarrow> mutex_de_queue N q = Some (Waits, q') \<Longrightarrow> mq_step N (pcs, q) [] (pcs(i := ConSleep), q')"
| con_none: "pcs i = ConCall \<Longrightarrow> mutex_de_queue N q = Some (Nothing, q') \<Longrightarrow> mq_step N (pcs, q) [] (pcs(i := ConLoop), q')"
| con_take: "pcs i = ConCall \<Longrightarrow> mutex_de_queue N q = Some (Node node stop, q') \<Longrightarrow>
    pcs' = (if stop then wake_all (pcs(i := ConFree node)) else pcs(i := ConFree node)) \<Longrightarrow>
    mq_step N (pcs, q) [Taken (mq_data q node)] (pcs', q')"
| con_free: "pcs i = ConFree node \<Longrightarrow> mq_free node q = Some q' \<Longrightarrow> mq_step N (pcs, q) [] (pcs(i := ConLoop), q')"
| spurious: "pcs i = ConSleep \<Longrightarrow> mq_step N (pcs, q) [] (pcs(i := ConCall), q)"

inductive mq_run :: "u64 \<Rightarrow> mq_state \<Rightarrow> lf_event list \<Rightarrow> mq_state \<Rightarrow> bool" for N :: u64 where
  mq_refl: "mq_run N s [] s"
| mq_more: "mq_run N s es t \<Longrightarrow> mq_step N t fs u \<Longrightarrow> mq_run N s (es @ fs) u"

text \<open>The producers \<open>P\<close> and the consumers \<open>C\<close> are started.\<close>

definition mq_start :: "nat set \<Rightarrow> nat set \<Rightarrow> nat \<Rightarrow> mq_state" where
  "mq_start P C head = (\<lambda>i. if i \<in> P then ProdLoop else if i \<in> C then ConLoop else Finished, init_mutex_queue head)"

inductive_cases mq_stepE: "mq_step N s es t"

section \<open>The critical sections\<close>

text \<open>The nodes of the queue, the newest first.\<close>

definition mq_rep :: "mutex_queue \<Rightarrow> nat list \<Rightarrow> bool" where
  "mq_rep q ns \<longleftrightarrow> circle (mq_heap q) (mq_head q) ns \<and> lf_count q = of_nat (length ns) \<and> length ns \<le> unat (total_enqueue q)"

definition values_of :: "mutex_queue \<Rightarrow> nat list \<Rightarrow> int list" where
  "values_of q ns = map (mq_data q) (rev ns)"

lemma circle_other:
  assumes "circle h c xs" and "x \<notin> set (c # xs)"
  shows "circle (h(x := n)) c xs"
  using assms(1) unfolding circle_def
  by (rule circ_frame) (use assms(2) in \<open>auto simp: nxt_def prv_def\<close>)

text \<open>The writes of the two operations are those of the list functions, up to their order.\<close>

lemma enqueue_writes:
  assumes "circle h c xs" and "x \<in> dom h" and "x \<notin> set (c # xs)"
  shows "\<exists>g. do { n \<leftarrow> nxt h c; h \<leftarrow> set_prv h n x; n \<leftarrow> nxt h c; h \<leftarrow> set_nxt h x n; h \<leftarrow> set_prv h x c; set_nxt h c x } = Some g
    \<and> circle g c (x # xs) \<and> dom g = dom h"
proof -
  define r where "r = hd (xs @ [c])"
  have gap: "nxt h c = Some r" "r \<in> dom h" "c \<in> dom h"
    using circle_gap [of h c "[]" xs] assms(1) by (simp_all add: r_def)
  have "returns (do { n \<leftarrow> nxt h c; h \<leftarrow> set_prv h n x; n \<leftarrow> nxt h c; h \<leftarrow> set_nxt h x n; h \<leftarrow> set_prv h x c; set_nxt h c x })
     (relinks h ((nxt h)(x \<mapsto> r, c \<mapsto> x)) ((prv h)(r \<mapsto> x, x \<mapsto> c)) {x, c, r})"
    using gap assms(2) relinks_refl [of h]
    by (simp only: returns_simps) (rule link_steps | assumption | simp | erule relinks_mono)+
  then obtain g where g: "do { n \<leftarrow> nxt h c; h \<leftarrow> set_prv h n x; n \<leftarrow> nxt h c; h \<leftarrow> set_nxt h x n; h \<leftarrow> set_prv h x c; set_nxt h c x } = Some g"
      "relinks h ((nxt h)(x \<mapsto> r, c \<mapsto> x)) ((prv h)(r \<mapsto> x, x \<mapsto> c)) {x, c, r} g"
    by (auto simp: returns_def)
  have "r \<noteq> x"
    using assms(3) hd_in_set [of "xs @ [c]"] by (auto simp: r_def)
  then have "circle g c (x # xs)"
    using circ_insert [of "nxt h" "prv h" c "[]" xs x c r] assms(1,3) g(2)
    by (simp add: circle_def relinks_def r_def fun_upd_twist)
  then show ?thesis
    using g relinks_dom by blast
qed

lemma dequeue_writes:
  assumes "circle h c (xs @ [x])"
  shows "\<exists>g p n. prv h c = Some x \<and> prv h x = Some p \<and> nxt h x = Some n \<and>
    do { h \<leftarrow> set_nxt h p n; n \<leftarrow> nxt h x; p \<leftarrow> prv h x; set_prv h n p } = Some g \<and> circle g c xs \<and> dom g = dom h"
proof -
  define l where "l = List.last (c # xs)"
  have node: "prv h x = Some l" "nxt h x = Some c" "l \<in> dom h" "c \<in> dom h" "prv h c = Some x"
    using circle_node [of h c xs x "[]"] circle_gap [of h c "xs @ [x]" "[]"] assms by (simp_all add: l_def)
  have "l \<noteq> x" "c \<noteq> x"
    using circle_distinct [OF assms] last_in_set [of "c # xs"] by (auto simp: l_def split: if_splits)
  then have "returns (do { h \<leftarrow> set_nxt h l c; n \<leftarrow> nxt h x; p \<leftarrow> prv h x; set_prv h n p })
     (relinks h ((nxt h)(l \<mapsto> c)) ((prv h)(c \<mapsto> l)) {l, c})"
    using node relinks_refl [of h]
    by (simp only: returns_simps) (rule link_steps | assumption | simp | erule relinks_mono)+
  then obtain g where g: "do { h \<leftarrow> set_nxt h l c; n \<leftarrow> nxt h x; p \<leftarrow> prv h x; set_prv h n p } = Some g"
      "relinks h ((nxt h)(l \<mapsto> c)) ((prv h)(c \<mapsto> l)) {l, c} g"
    by (auto simp: returns_def)
  have "circle g c xs"
    using circ_remove [of "nxt h" "prv h" c xs x "[]" l c] assms g(2) by (simp add: circle_def relinks_def l_def)
  then show ?thesis
    using g node relinks_dom by blast
qed

lemma unat_64: "unat (x :: u64) < 2 ^ 64"
  using unsigned_less [of x, where ?'a = nat] by simp

lemma rep_empty: "mq_rep q ns \<Longrightarrow> lf_count q = 0 \<longleftrightarrow> ns = []"
proof -
  assume rep: "mq_rep q ns"
  then have "length ns < 2 ^ 64"
    using unat_64 [of "total_enqueue q"] unfolding mq_rep_def by linarith
  then have "unat (of_nat (length ns) :: u64) = length ns"
    by (simp add: unat_of_nat take_bit_nat_eq_self)
  moreover have "lf_count q = of_nat (length ns)"
    using rep by (simp add: mq_rep_def)
  ultimately have "lf_count q = 0 \<longleftrightarrow> length ns = 0"
    using unat_eq_zero [of "lf_count q"] by simp
  then show ?thesis
    by simp
qed

lemma en_queue_ok:
  assumes "mq_rep q ns" and "mq_heap q node = None" and "total_enqueue q < N"
  shows "\<exists>q'. mutex_en_queue node val N q = Some (True, q') \<and> mq_rep q' (node # ns)
    \<and> values_of q' (node # ns) = values_of q ns @ [val] \<and> mq_head q' = mq_head q
    \<and> dom (mq_heap q') = insert node (dom (mq_heap q)) \<and> total_enqueue q' = total_enqueue q + 1 \<and> lf_shutdown q' = lf_shutdown q"
proof -
  let ?h = "(mq_heap q)(node \<mapsto> \<lparr>dn_next = 0, dn_prev = 0\<rparr>)"
  have fresh: "node \<notin> set (mq_head q # ns)"
    using circle_dom [of "mq_heap q" "mq_head q" ns node] assms(1,2) unfolding mq_rep_def by blast
  then have "circle ?h (mq_head q) ns"
    using circle_other assms(1) unfolding mq_rep_def by blast
  then obtain g where g: "do { n \<leftarrow> nxt ?h (mq_head q); h \<leftarrow> set_prv ?h n node; n \<leftarrow> nxt h (mq_head q); h \<leftarrow> set_nxt h node n;
      h \<leftarrow> set_prv h node (mq_head q); set_nxt h (mq_head q) node } = Some g" "circle g (mq_head q) (node # ns)" "dom g = dom ?h"
    using enqueue_writes [of ?h "mq_head q" ns node] fresh by auto
  let ?q = "q\<lparr>mq_heap := g, mq_data := (mq_data q)(node := val), lf_count := lf_count q + 1, total_enqueue := total_enqueue q + 1\<rparr>"
  have "unat (total_enqueue q + 1) = unat (total_enqueue q) + 1"
    using assms(3) unat_64 [of N] by (simp add: unat_word_ariths word_less_nat_alt)
  then have "mq_rep ?q (node # ns)"
    using assms(1) g(2) by (simp add: mq_rep_def)
  moreover have "mutex_en_queue node val N q = Some (True, ?q)"
    using g(1) assms(3) by (auto simp: mutex_en_queue_def Let_def bind_eq_Some_conv)
  moreover have "values_of ?q (node # ns) = values_of q ns @ [val]"
    using fresh by (auto simp: values_of_def)
  moreover have "dom g = insert node (dom (mq_heap q))"
    using g(3) by simp
  ultimately show ?thesis
    by (intro exI [of _ ?q]) simp
qed

lemma en_queue_late:
  assumes "mq_heap q node = None" and "\<not> total_enqueue q < N"
  shows "mutex_en_queue node val N q = Some (False, q\<lparr>mq_data := (mq_data q)(node := val)\<rparr>)"
proof -
  have "((mq_heap q)(node \<mapsto> n))(node := None) = mq_heap q" for n
    using assms(1) by auto
  then show ?thesis
    using assms(2) by (simp add: mutex_en_queue_def Let_def not_less)
qed

lemma de_queue_ok:
  assumes "mq_rep q (ns @ [x])"
  shows "\<exists>q'. mutex_de_queue N q = Some (Node x (total_enqueue q = N \<and> ns = []), q') \<and> mq_rep q' ns
    \<and> mq_data q' = mq_data q \<and> mq_head q' = mq_head q \<and> dom (mq_heap q') = dom (mq_heap q) \<and> total_enqueue q' = total_enqueue q
    \<and> lf_shutdown q' = (if total_enqueue q = N \<and> ns = [] then 1 else lf_shutdown q)"
proof -
  obtain g p n where g: "prv (mq_heap q) (mq_head q) = Some x" "prv (mq_heap q) x = Some p" "nxt (mq_heap q) x = Some n"
    "do { h \<leftarrow> set_nxt (mq_heap q) p n; n \<leftarrow> nxt h x; p \<leftarrow> prv h x; set_prv h n p } = Some g"
    "circle g (mq_head q) ns" "dom g = dom (mq_heap q)"
    using dequeue_writes [of "mq_heap q" "mq_head q" ns x] assms unfolding mq_rep_def by blast
  let ?q = "q\<lparr>mq_heap := g, lf_count := lf_count q - 1\<rparr>"
  have rep: "mq_rep ?q ns"
    using assms g(5) by (simp add: mq_rep_def)
  note empty = rep_empty [OF rep]
  have "lf_count q \<noteq> 0" "x \<noteq> mq_head q"
    using rep_empty [OF assms] assms circle_distinct [of "mq_heap q" "mq_head q" "ns @ [x]"] by (auto simp: mq_rep_def)
  then have "mutex_de_queue N q = Some (Node x (total_enqueue q = N \<and> ns = []), if total_enqueue q = N \<and> ns = [] then ?q\<lparr>lf_shutdown := 1\<rparr> else ?q)"
    using g(1-4) empty by (auto simp: mutex_de_queue_def Let_def bind_eq_Some_conv)
  moreover have "mq_rep (?q\<lparr>lf_shutdown := 1\<rparr>) ns"
    using rep by (simp add: mq_rep_def)
  ultimately show ?thesis
    using rep g(6) by (intro exI [of _ "if total_enqueue q = N \<and> ns = [] then ?q\<lparr>lf_shutdown := 1\<rparr> else ?q"]) auto
qed

lemma de_queue_empty:
  assumes "mq_rep q []"
  shows "mutex_de_queue N q = Some (if lf_shutdown q = 0 then Waits else Nothing, q)"
  using assms circle_gap(1) [of "mq_heap q" "mq_head q" "[]" "[]"] by (simp add: mq_rep_def mutex_de_queue_def)

section \<open>The invariants\<close>

text \<open>Memory: what is allocated is the head, the nodes of the queue and those that consumers are about to free.\<close>

definition mq_memory :: "mq_state \<Rightarrow> nat list \<Rightarrow> bool" where
  "mq_memory s ns \<longleftrightarrow> (case s of (pcs, q) \<Rightarrow> mq_rep q ns
     \<and> dom (mq_heap q) = {mq_head q} \<union> set ns \<union> {a. \<exists>i. pcs i = ConFree a}
     \<and> (\<forall>i a. pcs i = ConFree a \<longrightarrow> a \<noteq> mq_head q \<and> a \<notin> set ns)
     \<and> (\<forall>i j a. pcs i = ConFree a \<longrightarrow> pcs j = ConFree a \<longrightarrow> i = j))"

text \<open>Control: nobody sleeps after the end or while a value is left that nobody is awake for.\<close>

definition awake :: "mq_pc \<Rightarrow> bool" where
  "awake pc \<longleftrightarrow> pc = ConLoop \<or> pc = ConCall \<or> (\<exists>a. pc = ConFree a)"

definition producing :: "mq_pc \<Rightarrow> bool" where
  "producing pc \<longleftrightarrow> pc = ProdLoop \<or> (\<exists>v. pc = ProdCall v)"

definition mq_control :: "u64 \<Rightarrow> nat set \<Rightarrow> nat set \<Rightarrow> mq_state \<Rightarrow> bool" where
  "mq_control N P C s \<longleftrightarrow> (case s of (pcs, q) \<Rightarrow>
     (\<forall>i. producing (pcs i) \<longrightarrow> i \<in> P) \<and> (\<forall>i. awake (pcs i) \<or> pcs i = ConSleep \<longrightarrow> i \<in> C)
     \<and> total_enqueue q \<le> N
     \<and> (\<forall>i\<in>P. pcs i = Finished \<longrightarrow> total_enqueue q = N)
     \<and> (\<forall>i\<in>C. pcs i = Finished \<longrightarrow> lf_shutdown q \<noteq> 0 \<or> N = 0)
     \<and> (N = 0 \<longrightarrow> (\<forall>i. pcs i \<noteq> ConCall \<and> pcs i \<noteq> ConSleep))
     \<and> (lf_shutdown q \<noteq> 0 \<longrightarrow> total_enqueue q = N \<and> lf_count q = 0 \<and> (\<forall>i. pcs i \<noteq> ConSleep))
     \<and> (total_enqueue q = N \<longrightarrow> lf_count q = 0 \<longrightarrow> N \<noteq> 0 \<longrightarrow> lf_shutdown q \<noteq> 0)
     \<and> (lf_count q \<noteq> 0 \<longrightarrow> (\<exists>i. pcs i = ConSleep) \<longrightarrow> (\<exists>i. awake (pcs i))))"

lemma memory_threads:
  "(\<And>i a. pcs' i = ConFree a \<longleftrightarrow> pcs i = ConFree a) \<Longrightarrow> mq_memory (pcs', q) ns = mq_memory (pcs, q) ns"
  unfolding mq_memory_def by simp

lemma memory_moved:
  assumes "mq_memory (pcs, q) ns" and "\<And>a. pcs i \<noteq> ConFree a" and "\<And>a. pc \<noteq> ConFree a"
  shows "mq_memory (pcs(i := pc), q) ns"
proof -
  have "mq_memory (pcs(i := pc), q) ns = mq_memory (pcs, q) ns"
    by (rule memory_threads) (use assms(2,3) in auto)
  then show ?thesis
    using assms(1) by simp
qed

lemma signals_frees: "signals pcs pcs' \<Longrightarrow> pcs' i = ConFree a \<longleftrightarrow> pcs i = ConFree a"
  by (auto simp: signals_def split: if_splits)

lemma wake_all_frees: "wake_all pcs i = ConFree a \<longleftrightarrow> pcs i = ConFree a"
  by (simp add: wake_all_def)

lemma memory_enqueued:
  assumes "mq_memory (pcs, q) ns" and "mq_rep q' (node # ns)" and "dom (mq_heap q') = insert node (dom (mq_heap q))"
    and "mq_head q' = mq_head q" and "mq_heap q node = None"
  shows "mq_memory (pcs, q') (node # ns)"
  using assms by (auto simp: mq_memory_def)

lemma memory_dequeued:
  assumes "mq_memory (pcs, q) (ns @ [x])" and "mq_rep q' ns" and "dom (mq_heap q') = dom (mq_heap q)"
    and "mq_head q' = mq_head q" and "\<And>a. pcs i \<noteq> ConFree a"
  shows "mq_memory (pcs(i := ConFree x), q') ns"
proof -
  have "distinct (mq_head q # ns @ [x])"
    using assms(1) circle_distinct unfolding mq_memory_def mq_rep_def by blast
  moreover have "{b. \<exists>j. (pcs(i := ConFree x)) j = ConFree b} = insert x {b. \<exists>j. pcs j = ConFree b}"
    using assms(5) by (auto split: if_splits) metis
  ultimately show ?thesis
    using assms unfolding mq_memory_def by (auto split: if_splits)
qed

lemma memory_freed:
  assumes "mq_memory (pcs, q) ns" and "pcs i = ConFree a" and "mq_free a q = Some q'"
  shows "mq_memory (pcs(i := ConLoop), q') ns"
proof -
  have q': "q' = q\<lparr>mq_heap := (mq_heap q)(a := None)\<rparr>"
    using assms(3) by (auto simp: mq_free_def split: if_splits)
  have a: "a \<noteq> mq_head q" "a \<notin> set ns" "\<And>j. pcs j = ConFree a \<Longrightarrow> j = i"
    using assms(1,2) by (auto simp: mq_memory_def)
  have "circle ((mq_heap q)(a := None)) (mq_head q) ns"
    using assms(1) circle_other [of "mq_heap q" "mq_head q" ns a] a(1,2) by (simp add: mq_memory_def mq_rep_def)
  then have "mq_rep q' ns"
    using assms(1) by (simp add: q' mq_memory_def mq_rep_def)
  moreover have "{b. \<exists>j. (pcs(i := ConLoop)) j = ConFree b} = {b. \<exists>j. pcs j = ConFree b} - {a}"
  proof (intro set_eqI iffI)
    fix b assume "b \<in> {b. \<exists>j. (pcs(i := ConLoop)) j = ConFree b}"
    then obtain j where "j \<noteq> i" "pcs j = ConFree b"
      by (auto split: if_splits)
    then show "b \<in> {b. \<exists>j. pcs j = ConFree b} - {a}"
      using a(3) by blast
  next
    fix b assume "b \<in> {b. \<exists>j. pcs j = ConFree b} - {a}"
    then obtain j where j: "pcs j = ConFree b" and "b \<noteq> a"
      by auto
    then have "j \<noteq> i"
      using assms(2) by auto
    with j show "b \<in> {b. \<exists>j. (pcs(i := ConLoop)) j = ConFree b}"
      by auto
  qed
  ultimately show ?thesis
    using assms(1) a(1,2) unfolding mq_memory_def q' by (auto split: if_splits)
qed

lemma step_memory:
  assumes "mq_step N s es t" and "mq_memory s ns"
  shows "\<exists>ms. mq_memory t ms \<and> fifo_history (values_of (snd s) ns) es = Some (values_of (snd t) ms)"
  using assms
proof cases
  case (prod_late pcs i val node q q')
  have "q' = q\<lparr>mq_data := (mq_data q)(node := val)\<rparr>"
  proof (cases "total_enqueue q < N")
    case True
    then show ?thesis
      using en_queue_ok [of q ns node N val] prod_late assms(2) by (simp add: mq_memory_def)
  qed (use en_queue_late [of q node N val] prod_late in simp)
  moreover have "node \<notin> set ns"
    using assms(2) prod_late by (auto simp: mq_memory_def)
  ultimately have "mq_memory (pcs, q') ns" "values_of q' ns = values_of q ns"
    using assms(2) prod_late(1) by (auto simp: mq_memory_def mq_rep_def values_of_def)
  then show ?thesis
    using prod_late memory_moved [of pcs q' ns i ProdLoop] by auto
next
  case (prod_put pcs i val node q q' pcs')
  then have "total_enqueue q < N"
    using en_queue_late [of q node N val] by fastforce
  then have q': "mq_rep q' (node # ns)" "values_of q' (node # ns) = values_of q ns @ [val]" "mq_head q' = mq_head q"
      "dom (mq_heap q') = insert node (dom (mq_heap q))"
    using en_queue_ok [of q ns node N val] prod_put assms(2) by (auto simp: mq_memory_def)
  have "mq_memory (pcs, q') (node # ns)"
    using memory_enqueued [of pcs q ns q' node] assms(2) prod_put q' by simp
  then have "mq_memory (pcs(i := ProdLoop), q') (node # ns)"
    using memory_moved [of pcs q' "node # ns" i ProdLoop] prod_put(4) by simp
  then have "mq_memory (pcs', q') (node # ns)"
    using memory_threads [of pcs' "pcs(i := ProdLoop)" q' "node # ns"] signals_frees prod_put by blast
  then show ?thesis
    using q'(2) prod_put by auto
next
  case (con_take pcs i q node stop q' pcs')
  obtain ms where ns: "ns = ms @ [node]"
    and q': "mq_rep q' ms" "mq_data q' = mq_data q" "mq_head q' = mq_head q" "dom (mq_heap q') = dom (mq_heap q)"
  proof (cases ns rule: rev_cases)
    case Nil
    then show ?thesis
      using de_queue_empty [of q N] con_take assms(2) by (auto simp: mq_memory_def split: if_splits)
  next
    case (snoc ms x)
    then show ?thesis
      using that de_queue_ok [of q ms x N] con_take assms(2) by (auto simp: mq_memory_def)
  qed
  have "mq_memory (pcs(i := ConFree node), q') ms"
    using memory_dequeued [of pcs q ms node q' i] con_take assms(2) q' ns by simp
  then have "mq_memory (pcs', q') ms"
    using memory_threads [of pcs' "pcs(i := ConFree node)" q' ms] wake_all_frees con_take by simp
  then show ?thesis
    using q'(2) con_take by (auto simp: ns values_of_def)
next
  case (con_free pcs i node q q')
  then have "mq_memory (pcs(i := ConLoop), q') ns" "mq_data q' = mq_data q"
    using memory_freed assms(2) by (auto simp: mq_free_def split: if_splits)
  then show ?thesis
    using con_free by (auto simp: values_of_def)
next
  case (con_wait pcs i q q')
  then have "q' = q"
    by (auto simp: mutex_de_queue_def Let_def bind_eq_Some_conv split: if_splits)
  then show ?thesis
    using con_wait memory_moved [of pcs q ns i ConSleep] assms(2) by auto
next
  case (con_none pcs i q q')
  then have "q' = q"
    by (auto simp: mutex_de_queue_def Let_def bind_eq_Some_conv split: if_splits)
  then show ?thesis
    using con_none memory_moved [of pcs q ns i ConLoop] assms(2) by auto
qed (use assms(2) memory_moved in force)+

lemma pc_classes [simp]:
  "producing ProdLoop" "producing (ProdCall v)" "awake ConLoop" "awake ConCall" "awake (ConFree a)"
  "\<not> awake ProdLoop" "\<not> awake (ProdCall v)" "\<not> awake ConSleep" "\<not> awake Finished"
  "\<not> producing ConLoop" "\<not> producing ConCall" "\<not> producing (ConFree a)" "\<not> producing ConSleep" "\<not> producing Finished"
  by (auto simp: producing_def awake_def)

lemma controlI:
  assumes "\<And>i. producing (pcs i) \<Longrightarrow> i \<in> P" and "\<And>i. awake (pcs i) \<Longrightarrow> i \<in> C" and "\<And>i. pcs i = ConSleep \<Longrightarrow> i \<in> C"
    and "total_enqueue q \<le> N" and "\<And>i. i \<in> P \<Longrightarrow> pcs i = Finished \<Longrightarrow> total_enqueue q = N"
    and "\<And>i. i \<in> C \<Longrightarrow> pcs i = Finished \<Longrightarrow> N \<noteq> 0 \<Longrightarrow> lf_shutdown q \<noteq> 0"
    and "\<And>i. N = 0 \<Longrightarrow> pcs i \<noteq> ConCall" and "\<And>i. N = 0 \<Longrightarrow> pcs i \<noteq> ConSleep"
    and "lf_shutdown q \<noteq> 0 \<Longrightarrow> total_enqueue q = N" and "lf_shutdown q \<noteq> 0 \<Longrightarrow> lf_count q = 0"
    and "\<And>i. lf_shutdown q \<noteq> 0 \<Longrightarrow> pcs i \<noteq> ConSleep"
    and "total_enqueue q = N \<Longrightarrow> lf_count q = 0 \<Longrightarrow> N \<noteq> 0 \<Longrightarrow> lf_shutdown q \<noteq> 0"
    and "\<And>i. lf_count q \<noteq> 0 \<Longrightarrow> pcs i = ConSleep \<Longrightarrow> \<exists>j. awake (pcs j)"
  shows "mq_control N P C (pcs, q)"
  using assms unfolding mq_control_def prod.case by blast

lemma controlD:
  assumes "mq_control N P C (pcs, q)"
  shows "producing (pcs i) \<Longrightarrow> i \<in> P" and "awake (pcs i) \<Longrightarrow> i \<in> C" and "pcs i = ConSleep \<Longrightarrow> i \<in> C"
    and "total_enqueue q \<le> N" and "i \<in> P \<Longrightarrow> pcs i = Finished \<Longrightarrow> total_enqueue q = N"
    and "i \<in> C \<Longrightarrow> pcs i = Finished \<Longrightarrow> N \<noteq> 0 \<Longrightarrow> lf_shutdown q \<noteq> 0"
    and "N = 0 \<Longrightarrow> pcs i \<noteq> ConCall" and "N = 0 \<Longrightarrow> pcs i \<noteq> ConSleep"
    and "lf_shutdown q \<noteq> 0 \<Longrightarrow> total_enqueue q = N" and "lf_shutdown q \<noteq> 0 \<Longrightarrow> lf_count q = 0"
    and "lf_shutdown q \<noteq> 0 \<Longrightarrow> pcs i \<noteq> ConSleep"
    and "total_enqueue q = N \<Longrightarrow> lf_count q = 0 \<Longrightarrow> N \<noteq> 0 \<Longrightarrow> lf_shutdown q \<noteq> 0"
    and "lf_count q \<noteq> 0 \<Longrightarrow> pcs i = ConSleep \<Longrightarrow> \<exists>j. awake (pcs j)"
  using assms unfolding mq_control_def prod.case by blast+

text \<open>A thread moves and the queue stays.\<close>

lemma control_thread:
  assumes inv: "mq_control N P C (pcs, q)"
    and place: "producing pc \<Longrightarrow> i \<in> P" "awake pc \<Longrightarrow> i \<in> C" "pc = ConSleep \<Longrightarrow> i \<in> C"
    and finish: "pc = Finished \<Longrightarrow> i \<in> P \<Longrightarrow> total_enqueue q = N" "pc = Finished \<Longrightarrow> i \<in> C \<Longrightarrow> N \<noteq> 0 \<Longrightarrow> lf_shutdown q \<noteq> 0"
    and call: "N = 0 \<Longrightarrow> pc \<noteq> ConCall" "N = 0 \<Longrightarrow> pc \<noteq> ConSleep" "lf_shutdown q \<noteq> 0 \<Longrightarrow> pc \<noteq> ConSleep"
    and rest: "lf_count q \<noteq> 0 \<Longrightarrow> N \<noteq> 0 \<Longrightarrow> pc \<noteq> ConSleep \<and> (awake pc \<or> \<not> awake (pcs i))"
  shows "mq_control N P C (pcs(i := pc), q)"
proof (rule controlI)
  fix k
  assume some: "lf_count q \<noteq> 0" "(pcs(i := pc)) k = ConSleep"
  then have "N \<noteq> 0"
    using call(2) controlD(8) [OF inv, of k] by (auto split: if_splits)
  moreover from this have "pcs k = ConSleep"
    using some rest by (auto split: if_splits)
  ultimately obtain j where j: "awake (pcs j)"
    using controlD(13) [OF inv some(1)] by blast
  then show "\<exists>j. awake ((pcs(i := pc)) j)"
    using rest [OF some(1) \<open>N \<noteq> 0\<close>] by (metis fun_upd_apply)
next
  fix k assume "producing ((pcs(i := pc)) k)"
  then show "k \<in> P"
    using place(1) controlD(1) [OF inv, of k] by (cases "k = i") simp_all
next
  fix k assume "awake ((pcs(i := pc)) k)"
  then show "k \<in> C"
    using place(2) controlD(2) [OF inv, of k] by (cases "k = i") simp_all
next
  fix k assume "(pcs(i := pc)) k = ConSleep"
  then show "k \<in> C"
    using place(3) controlD(3) [OF inv, of k] by (cases "k = i") simp_all
next
  fix k assume "k \<in> P" "(pcs(i := pc)) k = Finished"
  then show "total_enqueue q = N"
    using finish(1) controlD(5) [OF inv, of k] by (cases "k = i") simp_all
next
  fix k assume "k \<in> C" "(pcs(i := pc)) k = Finished" "N \<noteq> 0"
  then show "lf_shutdown q \<noteq> 0"
    using finish(2) controlD(6) [OF inv, of k] by (cases "k = i") simp_all
next
  fix k assume "N = 0"
  then show "(pcs(i := pc)) k \<noteq> ConCall" "(pcs(i := pc)) k \<noteq> ConSleep"
    using call(1,2) controlD(7,8) [OF inv, of k] by (cases "k = i"; simp)+
next
  fix k assume "lf_shutdown q \<noteq> 0"
  then show "(pcs(i := pc)) k \<noteq> ConSleep"
    using call(3) controlD(11) [OF inv, of k] by (cases "k = i") simp_all
qed (fact controlD [OF inv])+

lemma control_place:
  assumes "mq_control N P C (pcs, q)"
  shows "producing (pcs i) \<Longrightarrow> i \<in> P" and "awake (pcs i) \<Longrightarrow> i \<in> C" and "pcs i = ConSleep \<Longrightarrow> i \<in> C"
  using controlD(1-3) [OF assms] by blast+

text \<open>The queue as the control sees it.\<close>

lemma control_queue:
  assumes "mq_control N P C (pcs, q)" and "total_enqueue q' = total_enqueue q" and "lf_count q' = lf_count q" and "lf_shutdown q' = lf_shutdown q"
  shows "mq_control N P C (pcs, q')"
  using assms(1) unfolding mq_control_def prod.case assms(2-4) .

lemma control_put:
  assumes inv: "mq_control N P C (pcs, q)" and less: "total_enqueue q < N" and more: "total_enqueue q' = total_enqueue q + 1"
    and some: "lf_count q' \<noteq> 0" and same: "lf_shutdown q' = lf_shutdown q" and "signals pcs pcs'"
  shows "mq_control N P C (pcs', q')"
proof -
  have old: "lf_shutdown q = 0" "\<And>i. i \<in> P \<Longrightarrow> pcs i \<noteq> Finished" "N \<noteq> 0"
    using controlD(5,9) [OF inv] less by auto
  have le: "total_enqueue q' \<le> N"
    using less inc_le [of "total_enqueue q" N] by (simp add: more add.commute)
  have pcs': "pcs' i = pcs i \<or> pcs i = ConSleep \<and> pcs' i = ConCall" for i
    using assms(6) by (auto simp: signals_def split: if_splits)
  show ?thesis
  proof (rule controlI)
    fix k assume k: "pcs' k = ConSleep"
    from assms(6) obtain j where "pcs' j = ConCall"
      using pcs' [of k] k unfolding signals_def by (metis fun_upd_same mq_pc.distinct(27) rangeI)
    then show "\<exists>j. awake (pcs' j)"
      by (intro exI [of _ j]) simp
  next
    fix k assume "awake (pcs' k)"
    then show "k \<in> C"
      using pcs' [of k] controlD(2,3) [OF inv, of k] by auto
  next
    fix k assume "k \<in> C" "pcs' k = Finished" "N \<noteq> 0"
    then show "lf_shutdown q' \<noteq> 0"
      using pcs' [of k] controlD(6) [OF inv, of k] same by auto
  next
    fix k assume "producing (pcs' k)"
    then show "k \<in> P"
      using pcs' [of k] controlD(1) [OF inv, of k] by auto
  next
    fix k assume "pcs' k = ConSleep"
    then show "k \<in> C"
      using pcs' [of k] controlD(3) [OF inv, of k] by auto
  next
    fix k assume "k \<in> P" "pcs' k = Finished"
    then show "total_enqueue q' = N"
      using pcs' [of k] old(2) [of k] by auto
  qed (use le old(1,3) some same in simp_all)
qed

lemma control_take:
  assumes inv: "mq_control N P C (pcs, q)" and i: "awake (pcs i)" and some: "lf_count q \<noteq> 0"
    and same: "total_enqueue q' = total_enqueue q" and stop: "stop \<longleftrightarrow> total_enqueue q = N \<and> lf_count q' = 0"
    and shutdown: "lf_shutdown q' = (if stop then 1 else lf_shutdown q)"
    and pcs': "pcs' = (if stop then wake_all (pcs(i := ConFree a)) else pcs(i := ConFree a))"
  shows "mq_control N P C (pcs', q')"
proof -
  have old: "lf_shutdown q = 0" "i \<in> C"
    using controlD(2,10) [OF inv] i some by auto
  have pcs'_i: "awake (pcs' i)"
    by (simp add: pcs' wake_all_def)
  have pcs'_k: "pcs' k = pcs k \<or> stop \<and> pcs k = ConSleep \<and> pcs' k = ConCall" if "k \<noteq> i" for k
    using that by (simp add: pcs' wake_all_def)
  have asleep: "\<not> stop" if "pcs' k = ConSleep" for k
    using that by (auto simp: pcs' wake_all_def split: if_splits)
  show ?thesis
  proof (rule controlI)
    show "\<exists>j. awake (pcs' j)"
      using pcs'_i by blast
  next
    fix k assume "awake (pcs' k)"
    then show "k \<in> C"
      using pcs'_k [of k] controlD(2,3) [OF inv, of k] old(2) by (cases "k = i") auto
  next
    fix k assume "producing (pcs' k)"
    then show "k \<in> P"
      using pcs'_k [of k] controlD(1) [OF inv, of k] pcs'_i by (cases "k = i") (auto simp: producing_def awake_def)
  next
    fix k assume "pcs' k = ConSleep"
    then show "k \<in> C"
      using pcs'_k [of k] controlD(3) [OF inv, of k] old(2) by (cases "k = i") auto
  next
    fix k assume "k \<in> P" "pcs' k = Finished"
    then show "total_enqueue q' = N"
      using pcs'_k [of k] pcs'_i controlD(5) [OF inv, of k] same by (cases "k = i") auto
  next
    fix k assume "k \<in> C" "pcs' k = Finished" "N \<noteq> 0"
    then show "lf_shutdown q' \<noteq> 0"
      using pcs'_k [of k] pcs'_i controlD(6) [OF inv, of k] old(1) by (cases "k = i") auto
  next
    fix k assume "N = 0"
    then show "pcs' k \<noteq> ConCall" "pcs' k \<noteq> ConSleep"
      using pcs'_k [of k] controlD(7,8) [OF inv, of k] by (cases "k = i"; simp add: pcs' wake_all_def)+
  next
    fix k assume "lf_shutdown q' \<noteq> 0"
    then show "pcs' k \<noteq> ConSleep"
      using asleep old(1) shutdown by auto
  qed (use same stop shutdown old(1) controlD(4) [OF inv] in \<open>auto split: if_splits\<close>)
qed

lemma step_control:
  assumes "mq_step N s es t" and "mq_memory s ns" and "mq_control N P C s" and "P \<inter> C = {}"
  shows "mq_control N P C t"
  using assms(1)
proof cases
  case (prod_go pcs i q val)
  have inv: "mq_control N P C (pcs, q)"
    using assms(3) prod_go(1) by simp
  then show ?thesis
    unfolding prod_go(3) by (rule control_thread) (use prod_go control_place [OF inv, of i] in simp_all)
next
  case (prod_end pcs i q)
  have inv: "mq_control N P C (pcs, q)"
    using assms(3) prod_end by simp
  have "total_enqueue q = N" "i \<in> P" "i \<notin> C"
    using controlD(4) [OF inv] prod_end(4,5) control_place(1) [OF inv, of i] assms(4) by auto
  then have "mq_control N P C (pcs(i := Finished), q)"
    by (intro control_thread [OF inv]) (simp_all add: prod_end(4))
  then show ?thesis
    using prod_end by simp
next
  case (prod_nomem pcs i val q)
  have inv: "mq_control N P C (pcs, q)"
    using assms(3) prod_nomem(1) by simp
  then show ?thesis
    unfolding prod_nomem(3) by (rule control_thread) (use prod_nomem control_place [OF inv, of i] in simp_all)
next
  case (prod_late pcs i val node q q')
  have "total_enqueue q' = total_enqueue q" "lf_count q' = lf_count q" "lf_shutdown q' = lf_shutdown q"
    using prod_late(7) by (auto simp: mutex_en_queue_def Let_def bind_eq_Some_conv split: if_splits)
  then have "mq_control N P C (pcs, q')"
    using control_queue assms(3) prod_late(1) by blast
  note inv = this
  then show ?thesis
    unfolding prod_late(3) by (rule control_thread) (use prod_late control_place [OF inv, of i] in simp_all)
next
  case (prod_put pcs i val node q q' pcs')
  then have less: "total_enqueue q < N"
    using en_queue_late [of q node N val] by fastforce
  then have q': "mq_rep q' (node # ns)" "total_enqueue q' = total_enqueue q + 1" "lf_shutdown q' = lf_shutdown q"
    using en_queue_ok [of q ns node N val] prod_put assms(2) by (auto simp: mq_memory_def)
  have inv: "mq_control N P C (pcs, q)"
    using assms(3) prod_put(1) by simp
  then have "mq_control N P C (pcs(i := ProdLoop), q)"
    by (rule control_thread) (use prod_put control_place [OF inv, of i] in simp_all)
  then show ?thesis
    using control_put [of N P C "pcs(i := ProdLoop)" q q' pcs'] less q' rep_empty [OF q'(1)] prod_put by simp
next
  case (con_go pcs i q)
  have inv: "mq_control N P C (pcs, q)"
    using assms(3) con_go(1) by simp
  then show ?thesis
    unfolding con_go(3) by (rule control_thread) (use con_go control_place [OF inv, of i] in simp_all)
next
  case (con_end pcs i q)
  have inv: "mq_control N P C (pcs, q)"
    using assms(3) con_end(1) by simp
  have "i \<in> C" "i \<notin> P"
    using con_end(4) control_place(2) [OF inv, of i] assms(4) by auto
  with inv show ?thesis
    unfolding con_end(3) by (intro control_thread) (use con_end controlD(10) [OF inv] in auto)
next
  case (con_wait pcs i q q')
  have inv: "mq_control N P C (pcs, q)"
    using assms(3) con_wait(1) by simp
  have "q' = q" "lf_count q = 0" "lf_shutdown q = 0"
    using con_wait(5) by (auto simp: mutex_de_queue_def Let_def bind_eq_Some_conv split: if_splits)
  moreover have "N \<noteq> 0"
    using con_wait(4) controlD(7) [OF inv, of i] by auto
  ultimately show ?thesis
    unfolding con_wait(3) by (simp only:) (rule control_thread [OF inv], use con_wait(4) control_place [OF inv, of i] in simp_all)
next
  case (con_none pcs i q q')
  have inv: "mq_control N P C (pcs, q)"
    using assms(3) con_none(1) by simp
  have "q' = q"
    using con_none(5) by (auto simp: mutex_de_queue_def Let_def bind_eq_Some_conv split: if_splits)
  then show ?thesis
    unfolding con_none(3) by (simp only:) (rule control_thread [OF inv], use con_none(4) control_place [OF inv, of i] in simp_all)
next
  case (con_take pcs i q node stop q' pcs')
  obtain ms where ns: "ns = ms @ [node]" and stop: "stop \<longleftrightarrow> total_enqueue q = N \<and> ms = []"
    and q': "mq_rep q' ms" "total_enqueue q' = total_enqueue q" "lf_shutdown q' = (if stop then 1 else lf_shutdown q)"
  proof (cases ns rule: rev_cases)
    case Nil
    then show ?thesis
      using de_queue_empty [of q N] con_take assms(2) by (auto simp: mq_memory_def split: if_splits)
  next
    case (snoc ms x)
    then show ?thesis
      using that de_queue_ok [of q ms x N] con_take assms(2) by (auto simp: mq_memory_def)
  qed
  moreover have "lf_count q \<noteq> 0"
    using rep_empty [of q ns] assms(2) con_take(1) ns by (simp add: mq_memory_def)
  ultimately show ?thesis
    using control_take [of N P C pcs q i q' stop pcs' node] con_take assms(3) rep_empty [OF q'(1)] by simp
next
  case (con_free pcs i node q q')
  have "total_enqueue q' = total_enqueue q" "lf_count q' = lf_count q" "lf_shutdown q' = lf_shutdown q"
    using con_free(5) by (auto simp: mq_free_def split: if_splits)
  then have inv: "mq_control N P C (pcs, q')"
    using control_queue assms(3) con_free(1) by blast
  then show ?thesis
    unfolding con_free(3) by (rule control_thread) (use con_free(4) control_place [OF inv, of i] in simp_all)
next
  case (spurious pcs i q)
  have inv: "mq_control N P C (pcs, q)"
    using assms(3) spurious(1) by simp
  moreover have "N \<noteq> 0"
    using spurious(4) controlD(8) [OF inv, of i] by auto
  ultimately show ?thesis
    unfolding spurious(3) by (intro control_thread) (use spurious(4) control_place [OF inv, of i] in simp_all)
qed

section \<open>Runs\<close>

fun linked :: "lf_event list \<Rightarrow> nat" where
  "linked [] = 0"
| "linked (Linked v # es) = Suc (linked es)"
| "linked (e # es) = linked es"

lemma linked_append: "linked (es @ fs) = linked es + linked fs"
  by (induction es rule: linked.induct) auto

lemma step_linked:
  assumes "mq_step N s es t" and "mq_memory s ns"
  shows "unat (total_enqueue (snd t)) = unat (total_enqueue (snd s)) + linked es"
  using assms(1)
proof cases
  case (prod_put pcs i val node q q' pcs')
  then have less: "total_enqueue q < N"
    using en_queue_late [of q node N val] by fastforce
  then have "total_enqueue q' = total_enqueue q + 1"
    using en_queue_ok [of q ns node N val] prod_put assms(2) by (auto simp: mq_memory_def)
  moreover have "unat (total_enqueue q + 1) = unat (total_enqueue q) + 1"
    using less unat_64 [of N] by (simp add: unat_word_ariths word_less_nat_alt)
  ultimately show ?thesis
    using prod_put by simp
qed (auto simp: mutex_en_queue_def mutex_de_queue_def mq_free_def Let_def bind_eq_Some_conv split: if_splits)

lemma start_ok:
  assumes "P \<inter> C = {}"
  shows "mq_memory (mq_start P C head) []" "mq_control N P C (mq_start P C head)"
proof -
  have "circle [head \<mapsto> \<lparr>dn_next = head, dn_prev = head\<rparr>] head []"
    by (simp add: circle_def circ_empty nxt_def prv_def)
  then show "mq_memory (mq_start P C head) []"
    by (auto simp: mq_memory_def mq_start_def mq_rep_def init_mutex_queue_def)
  show "mq_control N P C (mq_start P C head)"
    unfolding mq_start_def
    by (rule controlI) (use assms in \<open>auto simp: init_mutex_queue_def split: if_splits\<close>)
qed

lemma run_ok:
  assumes "mq_run N s es t" and "s = mq_start P C head" and "P \<inter> C = {}"
  shows "\<exists>ns. mq_memory t ns \<and> mq_control N P C t \<and> fifo_history [] es = Some (values_of (snd t) ns)
    \<and> unat (total_enqueue (snd t)) = linked es \<and> mq_head (snd t) = head"
  using assms
proof (induction rule: mq_run.induct)
  case (mq_refl s)
  then show ?case
    using start_ok [of P C] by (auto simp: values_of_def mq_start_def init_mutex_queue_def)
next
  case (mq_more s es t fs u)
  then obtain ns where ns: "mq_memory t ns" "mq_control N P C t" "fifo_history [] es = Some (values_of (snd t) ns)"
    "unat (total_enqueue (snd t)) = linked es" "mq_head (snd t) = head"
    by blast
  obtain ms where "mq_memory u ms" "fifo_history (values_of (snd t) ns) fs = Some (values_of (snd u) ms)"
    using step_memory [OF mq_more.hyps(2) ns(1)] by blast
  moreover have "mq_head (snd u) = mq_head (snd t)"
    using mq_more.hyps(2)
    by cases (auto simp: mutex_en_queue_def mutex_de_queue_def mq_free_def Let_def bind_eq_Some_conv split: if_splits)
  ultimately show ?case
    using ns step_control [OF mq_more.hyps(2) ns(1,2)] mq_more.prems(2) step_linked [OF mq_more.hyps(2) ns(1)]
    by (auto simp: fifo_history_append linked_append)
qed

lemma section_ends:
  assumes "mq_memory (pcs, q) ns"
  shows "mutex_de_queue N q \<noteq> None" "pcs i = ConFree a \<Longrightarrow> mq_free a q \<noteq> None"
    "mq_heap q a = None \<Longrightarrow> mutex_en_queue a v N q \<noteq> None"
proof -
  show "mutex_de_queue N q \<noteq> None"
    using assms de_queue_empty [of q N] de_queue_ok [of q "butlast ns" "List.last ns" N]
    by (cases ns rule: rev_cases) (auto simp: mq_memory_def)
  show "mq_free a q \<noteq> None" if "pcs i = ConFree a"
  proof -
    have "a \<in> dom (mq_heap q)"
      using assms that unfolding mq_memory_def by auto
    then show ?thesis
      by (auto simp: mq_free_def)
  qed
  show "mutex_en_queue a v N q \<noteq> None" if "mq_heap q a = None"
    using that assms en_queue_ok [of q ns a N v] en_queue_late [of q a N v] by (cases "total_enqueue q < N") (auto simp: mq_memory_def)
qed

text \<open>Somebody is awake as long as somebody has not finished.\<close>

lemma somebody_awake:
  assumes inv: "mq_control N P C (pcs, q)" and "P \<inter> C = {}" and "p \<in> P" and "pcs i \<noteq> Finished"
  shows "\<exists>j. pcs j \<noteq> Finished \<and> pcs j \<noteq> ConSleep"
proof (rule ccontr)
  assume "\<not> ?thesis"
  then have all: "pcs j = Finished \<or> pcs j = ConSleep" for j
    by blast
  then have i: "pcs i = ConSleep"
    using assms(4) by blast
  have "lf_shutdown q = 0" "N \<noteq> 0"
    using controlD(8,11) [OF inv, of i] i by auto
  moreover have "lf_count q = 0"
    using controlD(13) [OF inv _ i] all by (metis pc_classes(8,9))
  moreover have "pcs p = Finished"
    using all [of p] controlD(3) [OF inv, of p] assms(2,3) by blast
  ultimately show False
    using controlD(5) [OF inv assms(3)] controlD(12) [OF inv] by blast
qed

text \<open>Who is awake and not done can move.\<close>

lemma awake_moves:
  assumes mem: "mq_memory (pcs, q) ns" and "pcs j \<noteq> Finished" and "pcs j \<noteq> ConSleep"
  shows "\<exists>es pcs' q'. mq_step N (pcs, q) es (pcs', q') \<and> pcs' j \<noteq> pcs j"
proof (cases "pcs j")
  case ProdLoop
  then show ?thesis
    using mq_step.prod_go [of pcs j q N 0] mq_step.prod_end [of pcs j q N] by (cases "total_enqueue q < N") fastforce+
next
  case (ProdCall v)
  then show ?thesis
    using mq_step.prod_nomem [of pcs j v N q] by fastforce
next
  case ConLoop
  then show ?thesis
    using mq_step.con_go [of pcs j q N] mq_step.con_end [of pcs j q N]
    by (cases "lf_shutdown q = 0 \<and> N \<noteq> 0") fastforce+
next
  case ConCall
  obtain r q' where r: "mutex_de_queue N q = Some (r, q')"
    using section_ends(1) [OF mem, of N] by fastforce
  show ?thesis
  proof (cases r)
    case Waits
    then show ?thesis
      using mq_step.con_wait [of pcs j N q q'] ConCall r by fastforce
  next
    case Nothing
    then show ?thesis
      using mq_step.con_none [of pcs j N q q'] ConCall r by fastforce
  next
    case (Node a stop)
    let ?pcs = "if stop then wake_all (pcs(j := ConFree a)) else pcs(j := ConFree a)"
    have "?pcs j = ConFree a"
      by (simp add: wake_all_def)
    then show ?thesis
      using mq_step.con_take [of pcs j N q a stop q' ?pcs] ConCall r Node by fastforce
  qed
next
  case (ConFree a)
  then obtain q' where "mq_free a q = Some q'"
    using section_ends(2) [OF mem, of j a] by blast
  then show ?thesis
    using mq_step.con_free [of pcs j a q q' N] ConFree by fastforce
qed (use assms in simp_all)

lemma all_done:
  assumes mem: "mq_memory (pcs, q) ns" and inv: "mq_control N P C (pcs, q)" and "p \<in> P" and "c \<in> C" and fin: "\<And>i. pcs i = Finished"
  shows "total_enqueue q = N" "ns = []" "dom (mq_heap q) = {mq_head q}"
proof -
  show total: "total_enqueue q = N"
    using controlD(5) [OF inv assms(3)] fin by blast
  have rep: "mq_rep q ns"
    using mem by (simp add: mq_memory_def)
  show ns: "ns = []"
  proof (cases "N = 0")
    case True
    then show ?thesis
      using rep total by (simp add: mq_rep_def)
  next
    case False
    then have "lf_count q = 0"
      using controlD(6) [OF inv assms(4)] controlD(10) [OF inv] fin by blast
    then show ?thesis
      using rep_empty [OF rep] by blast
  qed
  show "dom (mq_heap q) = {mq_head q}"
    using mem fin ns by (auto simp: mq_memory_def)
qed

section \<open>Properties\<close>

text \<open>C14: Whatever the producers and consumers do and however their critical sections follow each other, the queue is
  first-in-first-out: each value taken is the oldest one in the queue. The bound \<open>N\<close> on the number of values is kept,
  and in every reachable state each critical section that a thread may enter is memory safe.\<close>

theorem mutex_queue_is_fifo:
  assumes "mq_run N (mq_start P C head) es (pcs, q)" and "P \<inter> C = {}"
  shows "(\<exists>xs. fifo_history [] es = Some xs) \<and> linked es \<le> unat N
    \<and> mutex_de_queue N q \<noteq> None \<and> (\<forall>i a. pcs i = ConFree a \<longrightarrow> mq_free a q \<noteq> None)
    \<and> (\<forall>a v. mq_heap q a = None \<longrightarrow> mutex_en_queue a v N q \<noteq> None)"
proof -
  obtain ns where ns: "mq_memory (pcs, q) ns" "mq_control N P C (pcs, q)" "fifo_history [] es = Some (values_of q ns)"
    "unat (total_enqueue q) = linked es"
    using run_ok [OF assms(1) refl assms(2)] by auto
  have "linked es \<le> unat N"
    using controlD(4) [OF ns(2)] ns(4) by (simp add: word_le_nat_alt)
  then show ?thesis
    using ns(3) section_ends [OF ns(1)] by blast
qed

text \<open>C15: The threads do not deadlock and lose nothing. With at least one producer, as long as some thread has not
  returned there is one that is not asleep and can move, although a value is signalled to one consumer only; and when all
  threads have returned, with at least one consumer, exactly \<open>N\<close> values were put into the queue, all of them have been
  taken, and every node has been freed.\<close>

theorem mutex_queue_ends:
  assumes "mq_run N (mq_start P C head) es (pcs, q)" and "P \<inter> C = {}" and "p \<in> P" and "c \<in> C"
  shows "if \<forall>i. pcs i = Finished
    then linked es = unat N \<and> fifo_history [] es = Some [] \<and> dom (mq_heap q) = {head}
    else \<exists>j fs pcs' q'. pcs j \<noteq> ConSleep \<and> mq_step N (pcs, q) fs (pcs', q') \<and> pcs' j \<noteq> pcs j"
proof -
  obtain ns where ns: "mq_memory (pcs, q) ns" "mq_control N P C (pcs, q)" "fifo_history [] es = Some (values_of q ns)"
    "unat (total_enqueue q) = linked es" "mq_head q = head"
    using run_ok [OF assms(1) refl assms(2)] by auto
  show ?thesis
  proof (cases "\<forall>i. pcs i = Finished")
    case True
    then show ?thesis
      using all_done [OF ns(1,2) assms(3,4)] ns(3-5) by (auto simp: values_of_def)
  next
    case False
    then obtain j where "pcs j \<noteq> Finished" "pcs j \<noteq> ConSleep"
      using somebody_awake [OF ns(2) assms(2,3)] by blast
    then show ?thesis
      using awake_moves [OF ns(1), of j N] False by auto
  qed
qed

text \<open>A complete run: one producer puts the only value, one consumer takes it, and both return.\<close>

lemma sample_run:
  "\<exists>q. mq_run 1 (mq_start {0} {1} 8) [Linked 7, Taken 7] (\<lambda>_. Finished, q)"
proof -
  let ?s = "mq_start {0} {1} 8"
  obtain pcs q0 where s: "?s = (pcs, q0)" and pcs: "pcs 0 = ProdLoop" "pcs 1 = ConLoop" "\<And>i. i \<noteq> 0 \<Longrightarrow> i \<noteq> 1 \<Longrightarrow> pcs i = Finished"
    and q0: "total_enqueue q0 = 0" "lf_shutdown q0 = 0" "mq_heap q0 16 = None" "mq_rep q0 []" "mq_head q0 = 8"
    using start_ok(1) [of "{0}" "{1}" 8]
    by (auto simp: mq_start_def init_mutex_queue_def mq_memory_def)
  obtain q1 where q1: "mutex_en_queue 16 7 1 q0 = Some (True, q1)" "mq_rep q1 [16]" "values_of q1 [16] = [7]" "total_enqueue q1 = 1"
    "lf_shutdown q1 = 0" "dom (mq_heap q1) = insert 16 (dom (mq_heap q0))"
    using en_queue_ok [of q0 "[]" 16 1 7] q0 by (auto simp: values_of_def)
  obtain q2 where q2: "mutex_de_queue 1 q1 = Some (Node 16 True, q2)" "dom (mq_heap q2) = dom (mq_heap q1)" "lf_shutdown q2 = 1"
    "total_enqueue q2 = 1"
    using de_queue_ok [of q1 "[]" 16 1] q1 by auto
  obtain q3 where q3: "mq_free 16 q2 = Some q3" "lf_shutdown q3 = 1" "total_enqueue q3 = 1"
  proof -
    have "16 \<in> dom (mq_heap q2)"
      using q1(6) q2(2) by simp
    then show ?thesis
      using that q2(3,4) by (auto simp: mq_free_def)
  qed
  have no_sleep: "signals p p" if "\<And>i. p i \<noteq> ConSleep" for p
    using that unfolding signals_def by (metis rangeE)
  let ?p1 = "pcs(0 := ProdCall 7)" and ?p2 = "pcs(0 := ProdLoop)"
  have st1: "mq_step 1 (pcs, q0) [] (?p1, q0)"
    by (rule prod_go) (simp_all add: pcs q0)
  have st2: "mq_step 1 (?p1, q0) [Linked 7] (?p2, q1)"
  proof (rule prod_put [of ?p1 0 7 16 q0])
    show "signals (?p1(0 := ProdLoop)) ?p2"
    proof -
      have "pcs i \<noteq> ConSleep" for i
        using pcs(1,2) pcs(3) [of i] by (cases "i = 0"; cases "i = 1") simp_all
      then have "signals ?p2 ?p2"
        by (intro no_sleep) (simp split: if_splits)
      then show ?thesis
        by simp
    qed
  qed (use q0 q1 in simp_all)
  have st3: "mq_step 1 (?p2, q1) [] (?p2(1 := ConCall), q1)"
    by (rule con_go) (simp_all add: pcs(2) [unfolded One_nat_def] q1)
  have st4: "mq_step 1 (?p2(1 := ConCall), q1) [Taken 7] (wake_all (?p2(1 := ConFree 16)), q2)"
    using con_take [of "?p2(1 := ConCall)" 1 1 q1 16 True q2] q2 q1(3) by (simp add: values_of_def)
  have st5: "mq_step 1 (wake_all (?p2(1 := ConFree 16)), q2) [] ((wake_all (?p2(1 := ConFree 16)))(1 := ConLoop), q3)"
    using con_free [of "wake_all (?p2(1 := ConFree 16))" 1 16 q2 q3 1] q3(1) by (simp add: wake_all_def)
  have st6: "mq_step 1 ((wake_all (?p2(1 := ConFree 16)))(1 := ConLoop), q3) []
      ((wake_all (?p2(1 := ConFree 16)))(1 := Finished), q3)"
    using con_end [of "(wake_all (?p2(1 := ConFree 16)))(1 := ConLoop)" 1 q3 1] q3 by simp
  have st7: "mq_step 1 ((wake_all (?p2(1 := ConFree 16)))(1 := Finished), q3) []
      ((wake_all (?p2(1 := ConFree 16)))(1 := Finished, 0 := Finished), q3)"
    using prod_end [of "(wake_all (?p2(1 := ConFree 16)))(1 := Finished)" 0 q3 1] q3 by (simp add: wake_all_def)
  have fin: "(wake_all (?p2(1 := ConFree 16)))(1 := Finished, 0 := Finished) = (\<lambda>_. Finished)"
    using pcs by (auto simp: wake_all_def)
  have "mq_run 1 (pcs, q0) [Linked 7, Taken 7] (\<lambda>_. Finished, q3)"
    using mq_more [OF mq_more [OF mq_more [OF mq_more [OF mq_more [OF mq_more [OF mq_more [OF mq_refl st1] st2] st3] st4] st5] st6] st7] fin by simp
  then show ?thesis
    unfolding s by auto
qed

theorem mutex_queue_is_fifo_witness:
  "\<exists>q. mq_run 1 (mq_start {0} {1} 8) [Linked 7, Taken 7] (\<lambda>_. Finished, q) \<and> (\<exists>xs. fifo_history [] [Linked 7, Taken 7] = Some xs)
    \<and> mutex_de_queue 1 q \<noteq> None"
proof -
  obtain q where q: "mq_run 1 (mq_start {0} {1} 8) [Linked 7, Taken 7] (\<lambda>_. Finished, q)"
    using sample_run by blast
  then show ?thesis
    using mutex_queue_is_fifo [OF q] by auto
qed

theorem mutex_queue_ends_witness:
  "\<exists>q. mq_run 1 (mq_start {0} {1} 8) [Linked 7, Taken 7] (\<lambda>_. Finished, q) \<and> dom (mq_heap q) = {8}"
proof -
  obtain q where q: "mq_run 1 (mq_start {0} {1} 8) [Linked 7, Taken 7] (\<lambda>_. Finished, q)"
    using sample_run by blast
  then show ?thesis
    using mutex_queue_ends [OF q, of 0 1] by auto
qed

end
