(* ===== verification/Bloom.thy ===== *)
theory Bloom
  imports Loops
begin

text \<open>
  The Bloom filter of C/99_demo/11_bloom_filter/test_main.c. A string is the bytes of its array, up to a zero byte;
  without one the hash reads past the end.
\<close>

section \<open>The program\<close>

record BloomFilter =
  bit_array :: bytes
  bloom_size :: u64

definition HASH_SEED_1 :: u64 where "HASH_SEED_1 = 131"
definition HASH_SEED_2 :: u64 where "HASH_SEED_2 = 137"
definition NUM_HASHES :: int where "NUM_HASHES = 7"

text \<open>\<open>char\<close> is signed, so a byte above 127 is subtracted.\<close>

fun hash_from :: "u64 \<Rightarrow> bytes \<Rightarrow> u64 \<Rightarrow> u64 option" where
  "hash_from h [] seed = None"
| "hash_from h (c # str) seed = (if c = 0 then Some h else hash_from (h * seed + word_of_int (sint c)) str seed)"

definition hash_base :: "bytes \<Rightarrow> u64 \<Rightarrow> u64 option" where
  "hash_base str seed = hash_from 0 str seed"

text \<open>The flags are the answers of \<open>malloc\<close> and \<open>calloc\<close>; \<open>None\<close> is the \<open>NULL\<close> that is returned when one fails.\<close>

definition bloom_create :: "bool \<Rightarrow> bool \<Rightarrow> u64 \<Rightarrow> BloomFilter option" where
  "bloom_create malloc_ok calloc_ok sz =
     (if \<not> malloc_ok then None
      else if \<not> calloc_ok then None
      else Some \<lparr>bit_array = replicate (unat sz) 0, bloom_size = sz\<rparr>)"

definition bloom_index :: "BloomFilter \<Rightarrow> u64 \<Rightarrow> u64 \<Rightarrow> int \<Rightarrow> u64 option" where
  "bloom_index bf h1 h2 i =
     (if bloom_size bf * 8 = 0 then None else Some ((h1 + word_of_int i * h2) mod (bloom_size bf * 8)))"

text \<open>A round of the two loops.\<close>

definition add_round :: "u64 \<Rightarrow> u64 \<Rightarrow> int \<Rightarrow> BloomFilter \<Rightarrow> BloomFilter option" where
  "add_round h1 h2 i bf = do {
     index \<leftarrow> bloom_index bf h1 h2 i;
     b \<leftarrow> urd (bit_array bf) (unat (index div 8));
     bs \<leftarrow> uwr (bit_array bf) (unat (index div 8)) (b OR push_bit (unat (index mod 8)) 1);
     Some (bf\<lparr>bit_array := bs\<rparr>) }"

definition contains_round :: "BloomFilter \<Rightarrow> u64 \<Rightarrow> u64 \<Rightarrow> int \<Rightarrow> (int + int) option" where
  "contains_round bf h1 h2 i =
     (if i < NUM_HASHES then do {
        index \<leftarrow> bloom_index bf h1 h2 i;
        b \<leftarrow> urd (bit_array bf) (unat (index div 8));
        Some (if b AND push_bit (unat (index mod 8)) 1 = 0 then Inr 0 else Inl (i + 1)) }
      else Some (Inr 1))"

definition bloom_add :: "BloomFilter \<Rightarrow> bytes \<Rightarrow> BloomFilter option" where
  "bloom_add bf key = do {
     h1 \<leftarrow> hash_base key HASH_SEED_1;
     h2 \<leftarrow> hash_base key HASH_SEED_2;
     for_up 0 NUM_HASHES (add_round h1 h2) bf }"

definition bloom_contains :: "BloomFilter \<Rightarrow> bytes \<Rightarrow> int option" where
  "bloom_contains bf key = do {
     h1 \<leftarrow> hash_base key HASH_SEED_1;
     h2 \<leftarrow> hash_base key HASH_SEED_2;
     loop (contains_round bf h1 h2) 0 }"

text \<open>A sequence of additions to a new filter.\<close>

fun bloom_add_all :: "BloomFilter \<Rightarrow> bytes list \<Rightarrow> BloomFilter option" where
  "bloom_add_all bf [] = Some bf"
| "bloom_add_all bf (key # keys) = do { bf \<leftarrow> bloom_add bf key; bloom_add_all bf keys }"

section \<open>The filter as a set of bits\<close>

definition bloom_bits :: "BloomFilter \<Rightarrow> nat set" where
  "bloom_bits bf = {k. k div 8 < length (bit_array bf) \<and> bit (bit_array bf ! (k div 8)) (k mod 8)}"

text \<open>The bits of a key in a filter of \<open>sz\<close> bytes.\<close>

definition bloom_hash :: "u64 \<Rightarrow> u64 \<Rightarrow> u64 \<Rightarrow> nat \<Rightarrow> nat" where
  "bloom_hash sz h1 h2 i = unat ((h1 + of_nat i * h2) mod (sz * 8))"

definition bloom_key :: "u64 \<Rightarrow> bytes \<Rightarrow> nat set" where
  "bloom_key sz key = bloom_hash sz (the (hash_base key HASH_SEED_1)) (the (hash_base key HASH_SEED_2)) ` {..<7}"

definition bloom_ok :: "u64 \<Rightarrow> BloomFilter \<Rightarrow> bool" where
  "bloom_ok sz bf \<longleftrightarrow> bloom_size bf = sz \<and> length (bit_array bf) = unat sz \<and> sz * 8 \<noteq> 0"

lemma hash_from_ends: "0 \<in> set str \<Longrightarrow> \<exists>h'. hash_from h str seed = Some h'"
  by (induction str arbitrary: h) auto

lemma hash_base_ends: "0 \<in> set key \<Longrightarrow> hash_base key seed = Some (the (hash_base key seed))"
  using hash_from_ends unfolding hash_base_def by fastforce

lemma index_in:
  assumes "sz * 8 \<noteq> (0 :: u64)"
  shows "unat ((x mod (sz * 8)) div 8) < unat sz"
proof -
  have "unat (x mod (sz * 8)) < unat (sz * 8)"
    using assms by (simp add: unat_mod unat_gt_0)
  also have "unat (sz * 8) \<le> unat sz * 8"
    by (simp add: unat_word_ariths)
  finally show ?thesis
    by (simp add: unat_div)
qed

text \<open>One probe: its byte and its bit.\<close>

lemma probe:
  assumes "bloom_ok sz bf" and "0 \<le> i"
  shows "\<exists>index. bloom_index bf h1 h2 i = Some index \<and> unat index = bloom_hash sz h1 h2 (nat i)
    \<and> unat (index div 8) = bloom_hash sz h1 h2 (nat i) div 8 \<and> unat (index mod 8) = bloom_hash sz h1 h2 (nat i) mod 8
    \<and> bloom_hash sz h1 h2 (nat i) div 8 < length (bit_array bf)"
  using assms index_in [of sz "h1 + word_of_int i * h2"]
  by (auto simp: bloom_index_def bloom_ok_def bloom_hash_def unat_div unat_mod)

lemma bit_push: "k < 8 \<Longrightarrow> bit (b OR push_bit k 1 :: u8) j \<longleftrightarrow> bit b j \<or> j = k"
  by (auto simp: bit_simps)

lemma test_push:
  assumes "k < 8"
  shows "(b AND push_bit k 1 = (0 :: u8)) \<longleftrightarrow> \<not> bit b k"
proof -
  have "bit (b AND push_bit k 1) j \<longleftrightarrow> bit b k \<and> j = k" for j
    using assms by (auto simp: bit_simps)
  then show ?thesis
    by (metis bit_eq_iff bit_0_eq bot_apply bot_bool_def)
qed

lemma add_round_ok:
  assumes "bloom_ok sz bf" and "0 \<le> i"
  shows "\<exists>bf'. add_round h1 h2 i bf = Some bf' \<and> bloom_ok sz bf' \<and> bloom_bits bf' = insert (bloom_hash sz h1 h2 (nat i)) (bloom_bits bf)"
proof -
  let ?k = "bloom_hash sz h1 h2 (nat i)"
  obtain index where index: "bloom_index bf h1 h2 i = Some index" "unat (index div 8) = ?k div 8" "unat (index mod 8) = ?k mod 8"
    and len: "?k div 8 < length (bit_array bf)"
    using probe [OF assms] by blast
  let ?bf = "bf\<lparr>bit_array := (bit_array bf)[?k div 8 := bit_array bf ! (?k div 8) OR push_bit (?k mod 8) 1]\<rparr>"
  have same: "j div 8 = ?k div 8 \<and> j mod 8 = ?k mod 8 \<longleftrightarrow> j = ?k" for j :: nat
    by (metis div_mult_mod_eq)
  have "bloom_bits ?bf = insert ?k (bloom_bits bf)"
  proof (rule set_eqI)
    fix j
    show "j \<in> bloom_bits ?bf \<longleftrightarrow> j \<in> insert ?k (bloom_bits bf)"
      using len same [of j] bit_push [of "?k mod 8" "bit_array bf ! (?k div 8)" "j mod 8"]
      by (cases "j div 8 = ?k div 8") (auto simp: bloom_bits_def)
  qed
  then show ?thesis
    using index len assms(1) by (intro exI [of _ ?bf]) (simp add: add_round_def mem_simps bloom_ok_def)
qed

lemma bloom_add_ok:
  assumes "bloom_ok sz bf" and "0 \<in> set key"
  shows "\<exists>bf'. bloom_add bf key = Some bf' \<and> bloom_ok sz bf' \<and> bloom_bits bf' = bloom_bits bf \<union> bloom_key sz key"
proof -
  obtain h1 h2 where h: "hash_base key HASH_SEED_1 = Some h1" "hash_base key HASH_SEED_2 = Some h2"
    using hash_base_ends [OF assms(2)] by blast
  have "\<exists>bf'. for_up 0 7 (add_round h1 h2) bf = Some bf' \<and> (bloom_ok sz bf' \<and> bloom_bits bf' = bloom_bits bf \<union> bloom_hash sz h1 h2 ` {..<nat 7})"
  proof (rule for_up_total [where P = "\<lambda>i bf'. bloom_ok sz bf' \<and> bloom_bits bf' = bloom_bits bf \<union> bloom_hash sz h1 h2 ` {..<nat i}"])
    fix i bf'
    assume i: "0 \<le> (i :: int)" and bf': "bloom_ok sz bf' \<and> bloom_bits bf' = bloom_bits bf \<union> bloom_hash sz h1 h2 ` {..<nat i}"
    obtain bf2 where "add_round h1 h2 i bf' = Some bf2" "bloom_ok sz bf2" "bloom_bits bf2 = insert (bloom_hash sz h1 h2 (nat i)) (bloom_bits bf')"
      using add_round_ok [of sz bf' i h1 h2] bf' i by blast
    moreover have "nat (i + 1) = Suc (nat i)"
      using i by simp
    ultimately show "\<exists>u. add_round h1 h2 i bf' = Some u \<and> bloom_ok sz u \<and> bloom_bits u = bloom_bits bf \<union> bloom_hash sz h1 h2 ` {..<nat (i + 1)}"
      using bf' by (simp add: lessThan_Suc)
  qed (use assms(1) in simp_all)
  then show ?thesis
    using h by (simp add: bloom_add_def NUM_HASHES_def bloom_key_def)
qed

lemma bloom_contains_ok:
  assumes "bloom_ok sz bf" and "0 \<in> set key"
  shows "bloom_contains bf key = Some (if bloom_key sz key \<subseteq> bloom_bits bf then 1 else 0)"
proof -
  obtain h1 h2 where h: "hash_base key HASH_SEED_1 = Some h1" "hash_base key HASH_SEED_2 = Some h2"
    using hash_base_ends [OF assms(2)] by blast
  have key: "bloom_key sz key = bloom_hash sz h1 h2 ` {..<7}"
    using h by (simp add: bloom_key_def)
  have "\<exists>r. loop (contains_round bf h1 h2) 0 = Some r \<and> r = (if bloom_key sz key \<subseteq> bloom_bits bf then 1 else 0 :: int)"
  proof (rule loop_total [where P = "\<lambda>i. 0 \<le> i \<and> i \<le> 7 \<and> bloom_hash sz h1 h2 ` {..<nat i} \<subseteq> bloom_bits bf"
        and m = "\<lambda>i. nat (7 - i)"])
    fix i :: int
    assume i: "0 \<le> i \<and> i \<le> 7 \<and> bloom_hash sz h1 h2 ` {..<nat i} \<subseteq> bloom_bits bf"
    let ?k = "bloom_hash sz h1 h2 (nat i)"
    show "(\<exists>r. contains_round bf h1 h2 i = Some (Inr r) \<and> r = (if bloom_key sz key \<subseteq> bloom_bits bf then 1 else 0 :: int))
      \<or> (\<exists>t. contains_round bf h1 h2 i = Some (Inl t)
        \<and> (0 \<le> t \<and> t \<le> 7 \<and> bloom_hash sz h1 h2 ` {..<nat t} \<subseteq> bloom_bits bf) \<and> nat (7 - t) < nat (7 - i))"
    proof (cases "i < 7")
      case True
      obtain index where index: "bloom_index bf h1 h2 i = Some index" "unat (index div 8) = ?k div 8" "unat (index mod 8) = ?k mod 8"
        and len: "?k div 8 < length (bit_array bf)"
        using probe [OF assms(1), of i h1 h2] i by auto
      have "urd (bit_array bf) (unat (index div 8)) = Some (bit_array bf ! (?k div 8))"
        using index len by (simp add: mem_simps)
      moreover have "(bit_array bf ! (?k div 8) AND push_bit (unat (index mod 8)) 1 = 0) \<longleftrightarrow> ?k \<notin> bloom_bits bf"
        unfolding index(3) using test_push [of "?k mod 8" "bit_array bf ! (?k div 8)"] len by (simp add: bloom_bits_def)
      ultimately have round: "contains_round bf h1 h2 i = Some (if ?k \<in> bloom_bits bf then Inl (i + 1) else Inr 0)"
        unfolding contains_round_def index(1) using True by (simp add: NUM_HASHES_def del: push_bit_of_1)
      have "nat (i + 1) = Suc (nat i)"
        using i by linarith
      moreover have "?k \<in> bloom_key sz key"
        using True i unfolding key by simp
      ultimately show ?thesis
        using round True i by (auto simp: lessThan_Suc)
    next
      case False
      then have "i = 7"
        using i by simp
      then show ?thesis
        using i by (simp add: contains_round_def NUM_HASHES_def key)
    qed
  qed simp
  then show ?thesis
    using h by (simp add: bloom_contains_def)
qed

lemma bloom_add_all_ok:
  assumes "bloom_ok sz bf" and "\<forall>key\<in>set keys. 0 \<in> set key"
  shows "\<exists>bf'. bloom_add_all bf keys = Some bf' \<and> bloom_ok sz bf' \<and> bloom_bits bf' = bloom_bits bf \<union> (\<Union>key\<in>set keys. bloom_key sz key)"
  using assms
proof (induction keys arbitrary: bf)
  case (Cons key keys)
  then obtain bf1 where "bloom_add bf key = Some bf1" "bloom_ok sz bf1" "bloom_bits bf1 = bloom_bits bf \<union> bloom_key sz key"
    using bloom_add_ok [of sz bf key] by auto
  then show ?case
    using Cons.IH [of bf1] Cons.prems(2) by (auto simp: Un_assoc)
qed simp

lemma bloom_create_ok:
  assumes "sz * 8 \<noteq> 0"
  shows "\<exists>bf. bloom_create True True sz = Some bf \<and> bloom_ok sz bf \<and> bloom_bits bf = {}"
  using assms by (auto simp: bloom_create_def bloom_ok_def bloom_bits_def)

section \<open>Properties\<close>

text \<open>C32: A filter of any size for which \<open>sz * 8\<close> is not 0 modulo \<open>2 ^ 64\<close> stays in its array, and after any additions
  \<open>bloom_contains\<close> answers 1 exactly for the strings all of whose seven bits have been set by strings added: never 0 for one
  that was added, and 1 for another one only when its bits are covered.\<close>

theorem bloom_filter_correct:
  assumes "sz * 8 \<noteq> 0" and "\<forall>key\<in>set (k # keys). 0 \<in> set key"
  shows "\<exists>bf bf'. bloom_create True True sz = Some bf \<and> bloom_add_all bf keys = Some bf'
    \<and> bloom_contains bf' k = Some (if bloom_key sz k \<subseteq> (\<Union>key\<in>set keys. bloom_key sz key) then 1 else 0)
    \<and> (k \<in> set keys \<longrightarrow> bloom_contains bf' k = Some 1)"
proof -
  obtain bf where bf: "bloom_create True True sz = Some bf" "bloom_ok sz bf" "bloom_bits bf = {}"
    using bloom_create_ok [OF assms(1)] by blast
  then obtain bf' where bf': "bloom_add_all bf keys = Some bf'" "bloom_ok sz bf'" "bloom_bits bf' = (\<Union>key\<in>set keys. bloom_key sz key)"
    using bloom_add_all_ok [of sz bf keys] assms(2) by auto
  have "bloom_contains bf' k = Some (if bloom_key sz k \<subseteq> (\<Union>key\<in>set keys. bloom_key sz key) then 1 else 0)"
    using bloom_contains_ok [OF bf'(2), of k] assms(2) bf'(3) by simp
  moreover from this have "bloom_contains bf' k = Some 1" if "k \<in> set keys"
    using that by auto
  ultimately show ?thesis
    using bf(1) bf'(1) by blast
qed

theorem bloom_filter_correct_witness:
  "\<exists>bf bf'. bloom_create True True 4 = Some bf \<and> bloom_add_all bf [[97, 0], [98, 99, 0]] = Some bf' \<and> bloom_contains bf' [97, 0] = Some 1"
  using bloom_filter_correct [of 4 "[97, 0]" "[[97, 0], [98, 99, 0]]"] by auto

end
