(* ===== verification/Pool.thy ===== *)
theory Pool
  imports Loops
begin

text \<open>
  The memory pool of C/06_mempool/02_mempool/pool.c: elements of one size, cut from blocks that malloc provides; a freed
  element holds the link of the free list in its first word. An address is a natural number, 0 is \<open>NULL\<close>; the blocks
  that malloc has provided are \<open>regions\<close>, with their sizes in bytes. Alignment is not modelled: with an element size that is
  no multiple of 8 the links of the free list are stored at addresses that are none either.
\<close>

section \<open>The program\<close>

record pool =
  elementSize :: u32
  blockSize :: u32
  pl_used :: u32
  pl_block :: int
  pl_freed :: nat
  blocksUsed :: u32
  pl_blocks :: "nat list"
  regions :: "(nat \<times> nat) list"
  pl_mem :: "nat \<Rightarrow> 8 word"

definition POOL_BLOCKS_INITIAL :: u32 where "POOL_BLOCKS_INITIAL = 1"

text \<open>The size of a \<open>poolFreed\<close>, one pointer.\<close>

definition sizeof_poolFreed :: u32 where "sizeof_poolFreed = 8"

definition in_regions :: "pool \<Rightarrow> nat \<Rightarrow> nat \<Rightarrow> bool" where
  "in_regions p a n \<longleftrightarrow> (\<exists>(b, k)\<in>set (regions p). b \<le> a \<and> a + n \<le> b + k)"

text \<open>Numbers in memory, the low byte first.\<close>

fun get_bytes :: "(nat \<Rightarrow> 8 word) \<Rightarrow> nat \<Rightarrow> nat \<Rightarrow> nat" where
  "get_bytes m a 0 = 0"
| "get_bytes m a (Suc n) = unat (m a) + 256 * get_bytes m (Suc a) n"

fun put_bytes :: "(nat \<Rightarrow> 8 word) \<Rightarrow> nat \<Rightarrow> nat \<Rightarrow> nat \<Rightarrow> nat \<Rightarrow> 8 word" where
  "put_bytes m a 0 v = m"
| "put_bytes m a (Suc n) v = (put_bytes m (Suc a) n (v div 256))(a := of_nat v)"

definition load_link :: "pool \<Rightarrow> nat \<Rightarrow> nat option" where
  "load_link p a = (if in_regions p a 8 then Some (get_bytes (pl_mem p) a 8) else None)"

definition store_link :: "pool \<Rightarrow> nat \<Rightarrow> nat \<Rightarrow> pool option" where
  "store_link p a v = (if in_regions p a 8 then Some (p\<lparr>pl_mem := put_bytes (pl_mem p) a 8 v\<rparr>) else None)"

definition poolFreeAll :: "pool \<Rightarrow> pool" where
  "poolFreeAll p = p\<lparr>pl_used := blockSize p - 1, pl_block := -1, pl_freed := 0\<rparr>"

text \<open>The array of the blocks is not checked for \<open>NULL\<close>.\<close>

definition poolInitialize :: "bool \<Rightarrow> u32 \<Rightarrow> u32 \<Rightarrow> pool \<Rightarrow> pool option" where
  "poolInitialize malloc_ok esize bsize p = do {
     let p = p\<lparr>elementSize := max esize sizeof_poolFreed, blockSize := bsize\<rparr>;
     let p = poolFreeAll p;
     if malloc_ok
     then Some (p\<lparr>blocksUsed := POOL_BLOCKS_INITIAL, pl_blocks := replicate (unat POOL_BLOCKS_INITIAL) 0\<rparr>)
     else None }"

text \<open>The blocks are freed up to the first one that is \<open>NULL\<close>; freeing what is not allocated is \<open>None\<close>.\<close>

definition free_round :: "pool \<Rightarrow> int \<times> (nat \<times> nat) list \<Rightarrow> (int \<times> (nat \<times> nat) list + (nat \<times> nat) list) option" where
  "free_round p = (\<lambda>(i, rs).
     if i < uint (blocksUsed p) then do {
       b \<leftarrow> rd (pl_blocks p) i;
       if b = 0 then Some (Inr rs)
       else if b \<notin> fst ` set rs then None
       else Some (Inl (i + 1, filter (\<lambda>r. fst r \<noteq> b) rs)) }
     else Some (Inr rs))"

definition poolFreePool :: "pool \<Rightarrow> pool option" where
  "poolFreePool p = do {
     rs \<leftarrow> loop (free_round p) (0, regions p);
     Some (p\<lparr>regions := rs, pl_blocks := []\<rparr>) }"

text \<open>\<open>malloc\<close> answers an address for the regions there are and the size wanted.\<close>

type_synonym pool_malloc = "(nat \<times> nat) list \<Rightarrow> nat \<Rightarrow> nat"

text \<open>A block is begun: the array of the blocks doubles when it is full, and the block is allocated when it is not there.\<close>

definition grow_blocks :: "bool \<Rightarrow> pool \<Rightarrow> pool option" where
  "grow_blocks realloc_ok p = do {
     let n = push_bit 1 (blocksUsed p);
     if realloc_ok
     then Some (p\<lparr>blocksUsed := n, pl_blocks := take (unat (drop_bit 1 n)) (pl_blocks p) @ replicate (unat n - unat (drop_bit 1 n)) 0\<rparr>)
     else None }"

definition fill_block :: "pool_malloc \<Rightarrow> pool \<Rightarrow> pool option" where
  "fill_block malloc p = do {
     base \<leftarrow> rd (pl_blocks p) (pl_block p);
     if base = 0 then do {
       let n = unat (elementSize p * blockSize p);
       let a = malloc (regions p) n;
       bs \<leftarrow> wr (pl_blocks p) (pl_block p) a;
       Some (p\<lparr>pl_blocks := bs, regions := if a = 0 then regions p else regions p @ [(a, n)]\<rparr>) }
     else Some p }"

definition next_block :: "pool_malloc \<Rightarrow> bool \<Rightarrow> pool \<Rightarrow> pool option" where
  "next_block malloc realloc_ok p = do {
     b \<leftarrow> chk32 (pl_block p + 1);
     let p = p\<lparr>pl_used := 0, pl_block := b\<rparr>;
     p \<leftarrow> (if b = sint (blocksUsed p) then grow_blocks realloc_ok p else Some p);
     fill_block malloc p }"

definition poolMalloc :: "pool_malloc \<Rightarrow> bool \<Rightarrow> pool \<Rightarrow> (nat \<times> pool) option" where
  "poolMalloc malloc realloc_ok p =
     (if pl_freed p \<noteq> 0 then do {
        let recycle = pl_freed p;
        n \<leftarrow> load_link p recycle;
        Some (recycle, p\<lparr>pl_freed := n\<rparr>) }
      else do {
        let p = p\<lparr>pl_used := pl_used p + 1\<rparr>;
        p \<leftarrow> (if pl_used p = blockSize p then next_block malloc realloc_ok p else Some p);
        base \<leftarrow> rd (pl_blocks p) (pl_block p);
        Some (base + unat (pl_used p * elementSize p), p) })"

definition poolFree :: "nat \<Rightarrow> pool \<Rightarrow> pool option" where
  "poolFree ptr p = do {
     let freed = pl_freed p;
     let p = p\<lparr>pl_freed := ptr\<rparr>;
     store_link p ptr freed }"

section \<open>A client\<close>

text \<open>A client allocates, writes any byte of the elements it holds, frees them, and frees all at once. \<open>L\<close> are the elements
  it holds and \<open>c\<close> counts its allocations.\<close>

inductive pool_client :: "pool_malloc \<Rightarrow> u32 \<Rightarrow> u32 \<Rightarrow> pool \<Rightarrow> nat set \<Rightarrow> nat \<Rightarrow> bool" for malloc esize bsize where
  pool_init: "poolInitialize True esize bsize p0 = Some p \<Longrightarrow> regions p0 = [] \<Longrightarrow> pool_client malloc esize bsize p {} 0"
| pool_malloc: "pool_client malloc esize bsize p L c \<Longrightarrow> poolMalloc malloc True p = Some (a, q) \<Longrightarrow>
    pool_client malloc esize bsize q (insert a L) (Suc c)"
| pool_write: "pool_client malloc esize bsize p L c \<Longrightarrow> a \<in> L \<Longrightarrow> k < unat (elementSize p) \<Longrightarrow>
    pool_client malloc esize bsize (p\<lparr>pl_mem := (pl_mem p)(a + k := v)\<rparr>) L c"
| pool_free: "pool_client malloc esize bsize p L c \<Longrightarrow> a \<in> L \<Longrightarrow> poolFree a p = Some q \<Longrightarrow>
    pool_client malloc esize bsize q (L - {a}) c"
| pool_free_all: "pool_client malloc esize bsize p L c \<Longrightarrow> pool_client malloc esize bsize (poolFreeAll p) {} c"

text \<open>The blocks of \<open>n\<close> bytes that \<open>malloc\<close> answers, one after the other.\<close>

fun blocks_of :: "pool_malloc \<Rightarrow> nat \<Rightarrow> nat \<Rightarrow> nat list" where
  "blocks_of malloc n 0 = []"
| "blocks_of malloc n (Suc k) = blocks_of malloc n k @ [malloc (map (\<lambda>b. (b, n)) (blocks_of malloc n k)) n]"

definition apart :: "nat \<Rightarrow> nat \<Rightarrow> nat \<Rightarrow> bool" where
  "apart n a b \<longleftrightarrow> a + n \<le> b \<or> b + n \<le> a"

definition blocks_ok :: "nat \<Rightarrow> nat list \<Rightarrow> bool" where
  "blocks_ok n bs \<longleftrightarrow> (\<forall>b\<in>set bs. b \<noteq> 0 \<and> b + n \<le> 2 ^ 64) \<and> (\<forall>i j. i < j \<longrightarrow> j < length bs \<longrightarrow> apart n (bs ! i) (bs ! j))"

text \<open>What is assumed of \<open>malloc\<close>: the first \<open>N\<close> blocks it answers are not \<open>NULL\<close>, end before \<open>2 ^ 64\<close> and do not overlap.\<close>

definition pool_mallocs :: "nat \<Rightarrow> nat \<Rightarrow> pool_malloc \<Rightarrow> bool" where
  "pool_mallocs N n malloc \<longleftrightarrow> blocks_ok n (blocks_of malloc n N)"

section \<open>The invariant\<close>

text \<open>The address of the \<open>k\<close>th element of the blocks \<open>bs\<close> of \<open>B\<close> elements of \<open>E\<close> bytes.\<close>

definition elem :: "nat \<Rightarrow> nat \<Rightarrow> nat list \<Rightarrow> nat \<Rightarrow> nat" where
  "elem E B bs k = bs ! (k div B) + (k mod B) * E"

fun free_list :: "(nat \<Rightarrow> 8 word) \<Rightarrow> nat \<Rightarrow> nat list \<Rightarrow> bool" where
  "free_list m a [] \<longleftrightarrow> a = 0"
| "free_list m a (b # bs) \<longleftrightarrow> a = b \<and> b \<noteq> 0 \<and> free_list m (get_bytes m b 8) bs"

text \<open>\<open>bs\<close> are the blocks that have been allocated.\<close>

definition pool_blocks :: "nat \<Rightarrow> pool \<Rightarrow> nat list \<Rightarrow> bool" where
  "pool_blocks n p bs \<longleftrightarrow> (\<exists>m. pl_blocks p = bs @ replicate m 0) \<and> length (pl_blocks p) = unat (blocksUsed p)
     \<and> pl_blocks p \<noteq> [] \<and> regions p = map (\<lambda>b. (b, n)) bs"

text \<open>\<open>n\<close> elements have been cut from the blocks since the last \<open>poolFreeAll\<close>.\<close>

definition pool_cut :: "pool \<Rightarrow> nat \<Rightarrow> nat \<Rightarrow> nat \<Rightarrow> bool" where
  "pool_cut p B l n \<longleftrightarrow> -1 \<le> pl_block p \<and> pl_block p < int l \<and> unat (pl_used p) < B
     \<and> int n = pl_block p * int B + int (unat (pl_used p)) + 1"

definition pool_sizes :: "nat \<Rightarrow> nat \<Rightarrow> pool \<Rightarrow> bool" where
  "pool_sizes E B p \<longleftrightarrow> unat (elementSize p) = E \<and> unat (blockSize p) = B \<and> 8 \<le> E \<and> 0 < B \<and> E * B < 2 ^ 32"

text \<open>\<open>fs\<close> is the free list, and the client holds the other elements.\<close>

definition pool_held :: "nat \<Rightarrow> nat \<Rightarrow> pool \<Rightarrow> nat list \<Rightarrow> nat \<Rightarrow> nat list \<Rightarrow> nat set \<Rightarrow> bool" where
  "pool_held E B p bs n fs L \<longleftrightarrow> free_list (pl_mem p) (pl_freed p) fs \<and> distinct fs \<and> set fs \<subseteq> elem E B bs ` {..<n}
     \<and> L = elem E B bs ` {..<n} - set fs"

definition pool_inv :: "pool_malloc \<Rightarrow> nat \<Rightarrow> nat \<Rightarrow> pool \<Rightarrow> nat list \<Rightarrow> nat \<Rightarrow> nat list \<Rightarrow> nat set \<Rightarrow> nat \<Rightarrow> bool" where
  "pool_inv malloc E B p bs n fs L c \<longleftrightarrow> pool_sizes E B p \<and> bs = blocks_of malloc (E * B) (length bs)
     \<and> pool_blocks (E * B) p bs \<and> pool_cut p B (length bs) n \<and> pool_held E B p bs n fs L
     \<and> unat (blocksUsed p) \<le> 2 * c + 1 \<and> length bs \<le> c"

section \<open>Bytes\<close>

lemma put_bytes_outside: "x < a \<or> a + n \<le> x \<Longrightarrow> put_bytes m a n v x = m x"
  by (induction m a n v rule: put_bytes.induct) auto

lemma get_bytes_cong: "(\<And>x. a \<le> x \<Longrightarrow> x < a + n \<Longrightarrow> m x = m' x) \<Longrightarrow> get_bytes m a n = get_bytes m' a n"
  by (induction n arbitrary: a) auto

lemma get_put_bytes: "v < 256 ^ n \<Longrightarrow> get_bytes (put_bytes m a n v) a n = v"
proof (induction n arbitrary: a v)
  case (Suc n)
  have "v div 256 < 256 ^ n"
    using Suc.prems by (simp add: less_mult_imp_div_less mult.commute)
  then have "get_bytes (put_bytes m a (Suc n) v) (Suc a) n = v div 256"
    using Suc.IH [of "v div 256" "Suc a"] get_bytes_cong [of "Suc a" n "put_bytes m a (Suc n) v" "put_bytes m (Suc a) n (v div 256)"]
    by simp
  then show ?case
    unfolding get_bytes.simps(2) by (simp add: unat_of_nat)
qed simp

lemma free_list_cong:
  "(\<And>b x. b \<in> set fs \<Longrightarrow> b \<le> x \<Longrightarrow> x < b + 8 \<Longrightarrow> m x = m' x) \<Longrightarrow> free_list m a fs = free_list m' a fs"
proof (induction fs arbitrary: a)
  case (Cons b fs)
  have "get_bytes m b 8 = get_bytes m' b 8"
    by (rule get_bytes_cong) (use Cons.prems in auto)
  then show ?case
    using Cons.IH [of "get_bytes m' b 8"] Cons.prems by auto
qed simp

section \<open>The elements of the blocks\<close>

lemma blocks_ok_prefix: "blocks_ok n (xs @ ys) \<Longrightarrow> blocks_ok n xs"
proof -
  assume ok: "blocks_ok n (xs @ ys)"
  have "apart n (xs ! i) (xs ! j)" if "i < j" "j < length xs" for i j
    using ok that unfolding blocks_ok_def by (metis length_append less_trans nth_append trans_less_add1)
  then show ?thesis
    using ok by (auto simp: blocks_ok_def)
qed

lemma blocks_of_prefix: "k \<le> N \<Longrightarrow> \<exists>ys. blocks_of malloc n N = blocks_of malloc n k @ ys"
proof (induction N)
  case (Suc N)
  then show ?case by (cases "k = Suc N") auto
qed simp

lemma length_blocks_of [simp]: "length (blocks_of malloc n k) = k"
  by (induction k) auto

lemma mallocs_ok: "pool_mallocs N n malloc \<Longrightarrow> k \<le> N \<Longrightarrow> blocks_ok n (blocks_of malloc n k)"
  using blocks_of_prefix [of k N malloc n] blocks_ok_prefix by (auto simp: pool_mallocs_def)

lemma elem_append: "k < length bs * B \<Longrightarrow> elem E B (bs @ cs) k = elem E B bs k"
  by (simp add: elem_def nth_append less_mult_imp_div_less)

lemma elem_row: "0 < B \<Longrightarrow> (k mod B) * E + E \<le> E * (B :: nat)"
  by (metis Suc_leI add.commute mod_less_divisor mult.commute mult_Suc mult_le_mono2)

lemma elem_inside:
  assumes "0 < B" and "k < length bs * B"
  shows "k div B < length bs" and "bs ! (k div B) \<le> elem E B bs k" and "elem E B bs k + E \<le> bs ! (k div B) + E * B"
  using elem_row [OF assms(1), of k E] assms by (auto simp: elem_def less_mult_imp_div_less)

lemma elem_apart:
  assumes ok: "blocks_ok (E * B) bs" and B: "0 < B" and k: "k < length bs * B" and l: "l < length bs * B" and "k \<noteq> l"
  shows "apart E (elem E B bs k) (elem E B bs l)"
proof (cases "k div B = l div B")
  case True
  then have "k mod B \<noteq> l mod B"
    using \<open>k \<noteq> l\<close> by (metis div_mult_mod_eq)
  then have "Suc (k mod B) * E \<le> (l mod B) * E \<or> Suc (l mod B) * E \<le> (k mod B) * E"
    by (meson Suc_leI mult_le_mono1 nat_neq_iff)
  then show ?thesis
    using True by (auto simp: apart_def elem_def)
next
  case False
  have "apart (E * B) (bs ! (k div B)) (bs ! (l div B))"
    using ok False elem_inside(1) [OF B k] elem_inside(1) [OF B l]
    unfolding blocks_ok_def apart_def by (metis nat_neq_iff)
  then show ?thesis
    using elem_inside(2,3) [OF B k, where E = E] elem_inside(2,3) [OF B l, where E = E] by (auto simp: apart_def)
qed

section \<open>The pool\<close>

lemma pool_cut_bound: "pool_cut p B (length bs) n \<Longrightarrow> n \<le> length bs * B"
proof -
  assume "pool_cut p B (length bs) n"
  then have "pl_block p + 1 \<le> int (length bs)" and n: "int n = pl_block p * int B + int (unat (pl_used p)) + 1"
      and "int (unat (pl_used p)) + 1 \<le> int B"
    unfolding pool_cut_def by linarith+
  then have "(pl_block p + 1) * int B \<le> int (length bs) * int B"
    using mult_right_mono [of "pl_block p + 1" "int (length bs)" "int B"] by simp
  moreover have "int n \<le> (pl_block p + 1) * int B"
    using n \<open>int (unat (pl_used p)) + 1 \<le> int B\<close> by (simp add: distrib_right del: of_nat_unat)
  ultimately have "int n \<le> int (length bs * B)"
    unfolding of_nat_mult by linarith
  then show ?thesis
    by (simp only: of_nat_le_iff)
qed

lemma in_regionsI:
  assumes "pool_blocks (E * B) p bs" and "0 < B" and "k < length bs * B" and "i \<le> E"
  shows "in_regions p (elem E B bs k) i"
  using elem_inside(1) [OF assms(2,3)] elem_inside(2,3) [OF assms(2,3), where E = E] assms(1,4) unfolding in_regions_def pool_blocks_def
  by (intro bexI [of _ "(bs ! (k div B), E * B)"]) auto

lemma elem_inj:
  assumes "blocks_ok (E * B) bs" and "0 < B" and "0 < E"
  shows "inj_on (elem E B bs) {..<length bs * B}"
  using elem_apart [OF assms(1,2)] assms(3) by (fastforce simp: inj_on_def apart_def)

lemma pool_invD:
  assumes "pool_inv malloc E B p bs n fs L c"
  shows "pool_sizes E B p" and "bs = blocks_of malloc (E * B) (length bs)" and "pool_blocks (E * B) p bs"
    and "pool_cut p B (length bs) n" and "pool_held E B p bs n fs L" and "unat (blocksUsed p) \<le> 2 * c + 1"
    and "length bs \<le> c" and "n \<le> length bs * B" and "0 < B" and "8 \<le> E"
  using assms pool_cut_bound [of p B bs n] by (simp_all add: pool_inv_def pool_sizes_def)

lemma pool_recycle:
  assumes inv: "pool_inv malloc E B p bs n fs L c" and "pl_freed p \<noteq> 0"
  shows "\<exists>q fs'. poolMalloc malloc True p = Some (pl_freed p, q) \<and> pool_inv malloc E B q bs n fs' (insert (pl_freed p) L) (Suc c)
    \<and> pl_freed p \<notin> L"
proof -
  note D = pool_invD [OF inv]
  obtain f fs' where fs: "fs = f # fs'" "pl_freed p = f" "free_list (pl_mem p) (get_bytes (pl_mem p) f 8) fs'" "f \<notin> set fs'" "distinct fs'"
    and sub: "f \<in> elem E B bs ` {..<n}" "set fs' \<subseteq> elem E B bs ` {..<n}" "L = elem E B bs ` {..<n} - set (f # fs')"
    using D(5) assms(2) unfolding pool_held_def by (cases fs) auto
  obtain k where k: "k < n" "f = elem E B bs k"
    using sub(1) by blast
  have "in_regions p f 8"
    using in_regionsI [OF D(3,9), of k 8] k D(8,10) by simp
  then have "poolMalloc malloc True p = Some (f, p\<lparr>pl_freed := get_bytes (pl_mem p) f 8\<rparr>)"
    using fs(2) assms(2) by (simp add: poolMalloc_def load_link_def)
  moreover have "insert f L = elem E B bs ` {..<n} - set fs'"
    using sub fs(4) by auto
  then have "pool_inv malloc E B (p\<lparr>pl_freed := get_bytes (pl_mem p) f 8\<rparr>) bs n fs' (insert f L) (Suc c)"
    using D(1-7) fs(3,5) sub(2)
    by (simp add: pool_inv_def pool_sizes_def pool_blocks_def pool_cut_def pool_held_def)
  ultimately show ?thesis
    using fs(2) sub(3) by auto
qed

text \<open>A fresh element is cut from the block it belongs to.\<close>

lemma cut_next:
  assumes "blocks_ok (E * B) bs" and "0 < B" and "0 < E" and "n < length bs * B"
  shows "elem E B bs n \<notin> elem E B bs ` {..<n}"
  using elem_inj [OF assms(1-3)] assms(4) by (fastforce simp: inj_on_def)

lemma elem_used:
  assumes sizes: "pool_sizes E B p" and cut: "pool_cut p B (length bs) (Suc n)" and "pl_blocks p = bs @ replicate m 0" and "0 \<le> pl_block p"
  shows "\<exists>base. rd (pl_blocks p) (pl_block p) = Some base \<and> base + unat (pl_used p * elementSize p) = elem E B bs n"
proof -
  obtain b where b: "pl_block p = int b"
    using assms(4) zero_le_imp_eq_int by blast
  define u where "u = unat (pl_used p)"
  have "b < length bs" and u: "u < B" and "int n = int (b * B + u)"
    using cut b unfolding pool_cut_def u_def by (simp_all del: of_nat_unat)
  then have n: "n = b * B + u" and b: "pl_block p = int b" "b < length bs"
    using b by (simp_all only: of_nat_eq_iff)
  have "u * E < E * B" and "E * B < 2 ^ 32" and "unat (elementSize p) = E"
    using u sizes by (simp_all add: pool_sizes_def mult.commute)
  then have "u * E < 2 ^ 32" and "unat (elementSize p) = E"
    by linarith+
  then have "unat (pl_used p * elementSize p) = u * E"
    unfolding unat_word_ariths u_def [symmetric] by simp
  then show ?thesis
    using b u n assms(3) by (simp add: rd_of_nat elem_def nth_append)
qed

text \<open>The next element of the block in use.\<close>

lemma pool_same_block:
  assumes inv: "pool_inv malloc E B p bs n fs L c" and ok: "blocks_ok (E * B) bs" and "pl_freed p = 0" and u: "pl_used p + 1 \<noteq> blockSize p"
  shows "\<exists>a q. poolMalloc malloc True p = Some (a, q) \<and> pool_inv malloc E B q bs (Suc n) fs (insert a L) (Suc c) \<and> a \<notin> L"
proof -
  note D = pool_invD [OF inv]
  define q where "q = p\<lparr>pl_used := pl_used p + 1\<rparr>"
  have B: "unat (blockSize p) = B"
    using D(1) by (simp add: pool_sizes_def)
  have used: "unat (pl_used p) < B" "int n = pl_block p * int B + int (unat (pl_used p)) + 1" "-1 \<le> pl_block p" "pl_block p < int (length bs)"
    using D(4) by (simp_all add: pool_cut_def)
  have "Suc (unat (pl_used p)) < 2 ^ 32"
    using used(1) B unsigned_less [of "blockSize p", where ?'a = nat] by simp
  then have Suc: "unat (pl_used p + 1) = Suc (unat (pl_used p))"
    by (simp add: unat_word_ariths)
  then have less: "Suc (unat (pl_used p)) < B"
    using u used(1) B by (metis Suc_lessI word_unat_eq_iff)
  have "int (unat (pl_used p)) + 1 < int B"
    using less by linarith
  then have "pl_block p \<noteq> -1"
    using used(2) by (auto simp del: of_nat_unat)
  then have "0 \<le> pl_block p"
    using used(3) by simp
  have cut: "pool_cut q B (length bs) (Suc n)"
    using used less Suc by (simp add: q_def pool_cut_def del: of_nat_unat)
  have sizes: "pool_sizes E B q" and blocks: "pool_blocks (E * B) q bs"
    using D(1,3) by (simp_all add: q_def pool_sizes_def pool_blocks_def)
  obtain m where "pl_blocks q = bs @ replicate m 0"
    using blocks by (auto simp: pool_blocks_def)
  then obtain base where base: "rd (pl_blocks q) (pl_block q) = Some base" "base + unat (pl_used q * elementSize q) = elem E B bs n"
    using elem_used [OF sizes cut] \<open>0 \<le> pl_block p\<close> by (auto simp: q_def)
  have fs: "fs = []" and L: "L = elem E B bs ` {..<n}"
    using D(5) assms(3) by (cases fs; simp add: pool_held_def)+
  have "poolMalloc malloc True p = Some (elem E B bs n, q)"
    using assms(3) u base by (simp add: poolMalloc_def q_def)
  moreover have "pool_inv malloc E B q bs (Suc n) fs (insert (elem E B bs n) L) (Suc c)"
    using D(2,6,7) sizes blocks cut fs L assms(3)
    by (auto simp: pool_inv_def pool_held_def q_def lessThan_Suc)
  moreover have "elem E B bs n \<notin> L"
    using cut_next [OF ok D(9)] D(10) pool_cut_bound [OF cut] L by simp
  ultimately show ?thesis
    by blast
qed

text \<open>A new block.\<close>

lemma grow_ok:
  assumes blocks: "pool_blocks S p bs" and used: "unat (blocksUsed p) \<le> 2 * c + 1" and "c < 2 ^ 30" and "b \<le> length bs" and "length bs \<le> c"
  shows "\<exists>bu pb. (if int b = sint (blocksUsed p) then grow_blocks True p else Some p) = Some (p\<lparr>blocksUsed := bu, pl_blocks := pb\<rparr>)
    \<and> pool_blocks S (p\<lparr>blocksUsed := bu, pl_blocks := pb\<rparr>) bs \<and> unat bu \<le> 2 * Suc c + 1 \<and> b < length pb"
proof -
  obtain m where m: "pl_blocks p = bs @ replicate m 0" "length (pl_blocks p) = unat (blocksUsed p)"
    using blocks by (auto simp: pool_blocks_def)
  define U where "U = unat (blocksUsed p)"
  have U: "U < 2 ^ 31" "length bs \<le> U" "U = length bs + m"
    using used assms(3) m by (simp_all add: U_def)
  have sint: "sint (blocksUsed p) = int U"
  proof -
    have "uint (blocksUsed p) = int U"
      by (simp add: U_def)
    then show ?thesis
      unfolding sint_uint using U(1) by (simp add: signed_take_bit_int_eq_self)
  qed
  show ?thesis
  proof (cases "b = U")
    case True
    have n: "unat (push_bit 1 (blocksUsed p)) = 2 * U"
      using U(1) by (simp add: unat_word_ariths U_def)
    have half: "unat (drop_bit 1 (push_bit 1 (blocksUsed p))) = U"
      unfolding unat_drop_bit_eq n by (simp add: drop_bit_eq_div)
    define pb where "pb = bs @ replicate (m + U) 0"
    have "take U (pl_blocks p) @ replicate (2 * U - U) 0 = pb"
      using m U(3) by (simp add: pb_def replicate_add)
    then have "grow_blocks True p = Some (p\<lparr>blocksUsed := push_bit 1 (blocksUsed p), pl_blocks := pb\<rparr>)"
      unfolding grow_blocks_def Let_def half n by simp
    moreover have "length pb = 2 * U"
      using U(3) by (simp add: pb_def)
    moreover have "pl_blocks p \<noteq> []"
      using blocks by (simp add: pool_blocks_def)
    then have "0 < U"
      using m(2) by (metis U_def length_greater_0_conv)
    moreover have "pool_blocks S (p\<lparr>blocksUsed := push_bit 1 (blocksUsed p), pl_blocks := pb\<rparr>) bs"
      using blocks n \<open>length pb = 2 * U\<close> \<open>0 < U\<close> unfolding pool_blocks_def pb_def by simp
    ultimately show ?thesis
      using True sint n assms(4,5) by (intro exI [of _ "push_bit 1 (blocksUsed p)"] exI [of _ pb]) simp
  next
    case False
    then have "int b \<noteq> sint (blocksUsed p)" and "b < length (pl_blocks p)" and "unat (blocksUsed p) \<le> 2 * Suc c + 1"
      using sint U(2) assms(4) m(2) used by (simp_all only: of_nat_eq_iff) (simp_all add: U_def)
    moreover have same: "p\<lparr>blocksUsed := blocksUsed p, pl_blocks := pl_blocks p\<rparr> = p"
      by simp
    ultimately show ?thesis
      using blocks by (intro exI [of _ "blocksUsed p"] exI [of _ "pl_blocks p"]) (simp only: same if_False simp_thms)
  qed
qed

lemma fill_ok:
  assumes blocks: "pool_blocks S q bs" and bs: "bs = blocks_of malloc S (length bs)" and b: "pl_block q = int b" "b < length (pl_blocks q)" "b \<le> length bs"
    and S: "unat (elementSize q * blockSize q) = S" and ok: "blocks_ok S (blocks_of malloc S (Suc (length bs)))"
  shows "\<exists>bs' cs pb rs. fill_block malloc q = Some (q\<lparr>pl_blocks := pb, regions := rs\<rparr>) \<and> pool_blocks S (q\<lparr>pl_blocks := pb, regions := rs\<rparr>) bs'
    \<and> bs' = blocks_of malloc S (length bs') \<and> blocks_ok S bs' \<and> b < length bs' \<and> length bs' \<le> Suc (length bs) \<and> bs' = bs @ cs"
proof -
  obtain m where m: "pl_blocks q = bs @ replicate m 0" "length (pl_blocks q) = unat (blocksUsed q)" "pl_blocks q \<noteq> []" "regions q = map (\<lambda>b. (b, S)) bs"
    using blocks by (auto simp: pool_blocks_def)
  have rd: "rd (pl_blocks q) (pl_block q) = Some (pl_blocks q ! b)"
    using b by (simp add: rd_of_nat)
  define a where "a = malloc (regions q) S"
  have Suc: "blocks_of malloc S (Suc (length bs)) = bs @ [a]"
    using bs m(4) by (simp add: a_def)
  have "0 \<notin> set bs" "a \<noteq> 0" "blocks_ok S bs"
    using ok blocks_ok_prefix [of S bs "[a]"] unfolding Suc by (auto simp: blocks_ok_def)
  show ?thesis
  proof (cases "b = length bs")
    case True
    then obtain k where k: "m = Suc k"
      using b(2) m(1) by (cases m) auto
    have "pl_blocks q ! b = 0"
      using True k m(1) by simp
    then have "fill_block malloc q = Some (q\<lparr>pl_blocks := (pl_blocks q)[b := a], regions := regions q @ [(a, S)]\<rparr>)"
      using rd b S \<open>a \<noteq> 0\<close> by (simp add: fill_block_def Let_def wr_of_nat a_def)
    moreover have "pool_blocks S (q\<lparr>pl_blocks := (pl_blocks q)[b := a], regions := regions q @ [(a, S)]\<rparr>) (bs @ [a])"
      using True k m by (simp add: pool_blocks_def)
    moreover have "bs @ [a] = blocks_of malloc S (length (bs @ [a]))"
      by (simp only: length_append_singleton Suc)
    moreover have "blocks_ok S (bs @ [a])"
      using ok by (simp only: Suc)
    moreover have "b < length (bs @ [a])" and "length (bs @ [a]) \<le> Suc (length bs)"
      using True by simp_all
    ultimately show ?thesis
      by (intro exI conjI) (assumption | rule refl)+
  next
    case False
    then have "pl_blocks q ! b \<noteq> 0"
      using b(3) m(1) \<open>0 \<notin> set bs\<close> by (auto simp: nth_append in_set_conv_nth)
    then have "fill_block malloc q = Some (q\<lparr>pl_blocks := pl_blocks q, regions := regions q\<rparr>)"
      using rd by (simp add: fill_block_def)
    then show ?thesis
      using False blocks bs b(3) \<open>blocks_ok S bs\<close>
      by (intro exI [of _ bs] exI [of _ "[]"] exI [of _ "pl_blocks q"] exI [of _ "regions q"]) auto
  qed
qed

lemma pool_next_block:
  assumes inv: "pool_inv malloc E B p bs n fs L c" and N: "pool_mallocs N (E * B) malloc" "c < N" "c < 2 ^ 30"
    and "pl_freed p = 0" and u: "pl_used p + 1 = blockSize p"
  shows "\<exists>a q bs'. poolMalloc malloc True p = Some (a, q) \<and> pool_inv malloc E B q bs' (Suc n) fs (insert a L) (Suc c) \<and> a \<notin> L"
proof -
  note D = pool_invD [OF inv]
  have B: "unat (blockSize p) = B" and less: "E * B < 2 ^ 32" and E: "unat (elementSize p) = E"
    using D(1) by (simp_all add: pool_sizes_def)
  have used: "unat (pl_used p) < B" "int n = pl_block p * int B + int (unat (pl_used p)) + 1" "-1 \<le> pl_block p" "pl_block p < int (length bs)"
    using D(4) by (simp_all add: pool_cut_def)
  have "Suc (unat (pl_used p)) < 2 ^ 32"
    using used(1) B unsigned_less [of "blockSize p", where ?'a = nat] by simp
  then have "unat (pl_used p + 1) = Suc (unat (pl_used p))"
    by (simp add: unat_word_ariths)
  then have "Suc (unat (pl_used p)) = B"
    using B unfolding u by simp
  then have row: "int n = (pl_block p + 1) * int B"
    using used(2) by (simp add: distrib_right del: of_nat_unat)
  obtain b where b: "pl_block p + 1 = int b"
    using used(3) zero_le_imp_eq_int [of "pl_block p + 1"] by auto
  have "b \<le> length bs"
    using used(4) b by linarith
  have n: "n = b * B"
    using row unfolding b by (simp flip: of_nat_mult)
  have "chk32 (int b) = Some (int b)"
    using \<open>b \<le> length bs\<close> D(7) N(3) by (simp add: chk32_def)
  define p2 where "p2 = p\<lparr>pl_used := 0, pl_block := int b\<rparr>"
  have "pool_blocks (E * B) p2 bs" and "unat (blocksUsed p2) \<le> 2 * c + 1"
    using D(3,6) by (simp_all add: p2_def pool_blocks_def)
  from grow_ok [OF this N(3) \<open>b \<le> length bs\<close> D(7)] obtain bu pb where
    grow: "(if int b = sint (blocksUsed p2) then grow_blocks True p2 else Some p2) = Some (p2\<lparr>blocksUsed := bu, pl_blocks := pb\<rparr>)"
      "pool_blocks (E * B) (p2\<lparr>blocksUsed := bu, pl_blocks := pb\<rparr>) bs" "unat bu \<le> 2 * Suc c + 1" "b < length pb"
    by blast
  define p3 where "p3 = p2\<lparr>blocksUsed := bu, pl_blocks := pb\<rparr>"
  have "unat (elementSize p3 * blockSize p3) = E * B"
    using B E less by (simp add: p3_def p2_def unat_word_ariths)
  moreover have "blocks_ok (E * B) (blocks_of malloc (E * B) (Suc (length bs)))"
    using mallocs_ok [OF N(1), of "Suc (length bs)"] D(7) N(2) by (simp del: blocks_of.simps)
  ultimately obtain bs' cs pb' rs where fill: "fill_block malloc p3 = Some (p3\<lparr>pl_blocks := pb', regions := rs\<rparr>)"
      "pool_blocks (E * B) (p3\<lparr>pl_blocks := pb', regions := rs\<rparr>) bs'" "bs' = blocks_of malloc (E * B) (length bs')"
      "blocks_ok (E * B) bs'" "b < length bs'" "length bs' \<le> Suc (length bs)" "bs' = bs @ cs"
    using fill_ok [of "E * B" p3 bs malloc b] grow(2,4) D(2) \<open>b \<le> length bs\<close> unfolding p3_def p2_def by auto
  define q where "q = p3\<lparr>pl_blocks := pb', regions := rs\<rparr>"
  have "next_block malloc True (p\<lparr>pl_used := pl_used p + 1\<rparr>)
      = Option.bind (if int b = sint (blocksUsed p2) then grow_blocks True p2 else Some p2) (fill_block malloc)"
    unfolding p2_def using b \<open>chk32 (int b) = Some (int b)\<close> by (simp add: next_block_def Let_def)
  then have nb: "next_block malloc True (p\<lparr>pl_used := pl_used p + 1\<rparr>) = Some q"
    unfolding grow(1) using fill(1) by (simp add: p3_def q_def)
  have sizes: "pool_sizes E B q"
    using D(1) by (simp add: q_def p3_def p2_def pool_sizes_def)
  have cut: "pool_cut q B (length bs') (Suc n)"
    using fill(5) n D(9) by (simp add: q_def p3_def p2_def pool_cut_def)
  have blocks: "pool_blocks (E * B) q bs'"
    using fill(2) by (simp add: q_def)
  obtain m where "pl_blocks q = bs' @ replicate m 0"
    using blocks by (auto simp: pool_blocks_def)
  then obtain base where base: "rd (pl_blocks q) (pl_block q) = Some base" "base + unat (pl_used q * elementSize q) = elem E B bs' n"
    using elem_used [OF sizes cut] by (auto simp: q_def p3_def p2_def)
  have fs: "fs = []" and L: "L = elem E B bs ` {..<n}"
    using D(5) assms(5) by (cases fs; simp add: pool_held_def)+
  have L': "elem E B bs ` {..<n} = elem E B bs' ` {..<n}"
    using elem_append [of _ bs B E cs] D(8) fill(7) by (intro image_cong) auto
  have "poolMalloc malloc True p = Some (elem E B bs' n, q)"
    using assms(5) u base nb by (simp add: poolMalloc_def)
  moreover have "pool_held E B q bs' (Suc n) fs (insert (elem E B bs' n) L)"
    using fs L L' assms(5) by (simp add: pool_held_def q_def p3_def p2_def lessThan_Suc)
  then have "pool_inv malloc E B q bs' (Suc n) fs (insert (elem E B bs' n) L) (Suc c)"
    using fill(3,6) sizes blocks cut grow(3) D(7) unfolding pool_inv_def by (simp add: q_def p3_def p2_def)
  moreover have "elem E B bs' n \<notin> L"
    using cut_next [OF fill(4) D(9)] D(10) pool_cut_bound [OF cut] L L' by simp
  ultimately show ?thesis
    by blast
qed

lemma poolMalloc_ok:
  assumes inv: "pool_inv malloc E B p bs n fs L c" and N: "pool_mallocs N (E * B) malloc" "c < N" "c < 2 ^ 30"
  shows "\<exists>a q bs' n' fs'. poolMalloc malloc True p = Some (a, q) \<and> pool_inv malloc E B q bs' n' fs' (insert a L) (Suc c) \<and> a \<notin> L"
proof (cases "pl_freed p = 0")
  case True
  have "blocks_ok (E * B) bs"
    using mallocs_ok [OF N(1), of "length bs"] pool_invD(2,7) [OF inv] N(2) by simp
  then show ?thesis
    using pool_next_block [OF inv N True] pool_same_block [OF inv _ True] by blast
next
  case False
  then show ?thesis
    using pool_recycle [OF inv] by blast
qed

lemma held_apart:
  assumes inv: "pool_inv malloc E B p bs n fs L c" and ok: "blocks_ok (E * B) bs" and "a \<in> L \<union> set fs" "b \<in> L \<union> set fs" "a \<noteq> b"
  shows "apart E a b"
proof -
  note D = pool_invD [OF inv]
  have "L \<union> set fs \<subseteq> elem E B bs ` {..<n}"
    using D(5) by (auto simp: pool_held_def)
  then obtain k l where "k < n" "l < n" "a = elem E B bs k" "b = elem E B bs l"
    using assms(3,4) by blast
  then show ?thesis
    using elem_apart [OF ok D(9), of k l] D(8) \<open>a \<noteq> b\<close> by auto
qed

lemma held_in:
  assumes inv: "pool_inv malloc E B p bs n fs L c" and "a \<in> L \<union> set fs" and "i \<le> E"
  shows "in_regions p a i"
proof -
  note D = pool_invD [OF inv]
  have "L \<union> set fs \<subseteq> elem E B bs ` {..<n}"
    using D(5) by (auto simp: pool_held_def)
  then show ?thesis
    using in_regionsI [OF D(3,9) _ assms(3)] assms(2) D(8) by fastforce
qed

text \<open>Writing into an element that the client holds leaves the free list alone.\<close>

lemma free_list_frame:
  assumes inv: "pool_inv malloc E B p bs n fs L c" and ok: "blocks_ok (E * B) bs" and "a \<in> L"
    and same: "\<And>x. x < a \<or> a + E \<le> x \<Longrightarrow> m x = pl_mem p x"
  shows "free_list m (pl_freed p) fs"
proof -
  note D = pool_invD [OF inv]
  have "free_list (pl_mem p) (pl_freed p) fs" and "a \<notin> set fs"
    using D(5) \<open>a \<in> L\<close> by (auto simp: pool_held_def)
  moreover have "m x = pl_mem p x" if "b \<in> set fs" "b \<le> x" "x < b + 8" for b x
  proof -
    have "apart E a b"
      using held_apart [OF inv ok, of a b] that(1) \<open>a \<in> L\<close> \<open>a \<notin> set fs\<close> by auto
    then show ?thesis
      using same [of x] that D(10) by (auto simp: apart_def)
  qed
  ultimately show ?thesis
    using free_list_cong [of fs m "pl_mem p"] by blast
qed

lemma poolFree_ok:
  assumes inv: "pool_inv malloc E B p bs n fs L c" and ok: "blocks_ok (E * B) bs" and a: "a \<in> L"
  shows "\<exists>q. poolFree a p = Some q \<and> pool_inv malloc E B q bs n (a # fs) (L - {a}) c"
proof -
  note D = pool_invD [OF inv]
  define q where "q = p\<lparr>pl_freed := a, pl_mem := put_bytes (pl_mem p) a 8 (pl_freed p)\<rparr>"
  have held: "free_list (pl_mem p) (pl_freed p) fs" "distinct fs" "set fs \<subseteq> elem E B bs ` {..<n}" "L = elem E B bs ` {..<n} - set fs"
    using D(5) by (simp_all add: pool_held_def)
  have "in_regions p a 8"
    using held_in [OF inv, of a 8] a D(10) by simp
  then have free: "poolFree a p = Some q"
    by (simp add: poolFree_def store_link_def q_def in_regions_def)
  have small: "b + E \<le> 2 ^ 64 \<and> b \<noteq> 0" if b: "b \<in> elem E B bs ` {..<n}" for b
  proof -
    obtain k where "k < n" and k: "b = elem E B bs k"
      using b by blast
    then have k: "k < length bs * B" "b = elem E B bs k"
      using D(8) by simp_all
    have "bs ! (k div B) \<noteq> 0 \<and> bs ! (k div B) + E * B \<le> 2 ^ 64"
      using ok elem_inside(1) [OF D(9) k(1)] by (simp add: blocks_ok_def)
    then show ?thesis
      using elem_inside(2,3) [OF D(9) k(1), where E = E] k(2) by linarith
  qed
  have "pl_freed p < 2 ^ 64"
    using held(1,3) small D(10) by (cases fs) fastforce+
  then have "get_bytes (pl_mem q) a 8 = pl_freed p"
    using get_put_bytes [of "pl_freed p" 8 "pl_mem p" a] by (simp add: q_def)
  moreover have "free_list (pl_mem q) (pl_freed p) fs"
    using put_bytes_outside [of _ a 8] D(10) by (intro free_list_frame [OF inv ok a]) (auto simp: q_def)
  ultimately have "pool_held E B q bs n (a # fs) (L - {a})"
    using held a small by (auto simp: pool_held_def q_def)
  then have "pool_inv malloc E B q bs n (a # fs) (L - {a}) c"
    using D(1-4,6,7) by (simp add: pool_inv_def q_def pool_sizes_def pool_blocks_def pool_cut_def)
  then show ?thesis
    using free by blast
qed

lemma unat_pred: "0 < unat (w :: u32) \<Longrightarrow> unat (w - 1) = unat w - 1"
  by (rule unat_minus_one) auto

lemma poolFreeAll_ok:
  assumes inv: "pool_inv malloc E B p bs n fs L c"
  shows "pool_inv malloc E B (poolFreeAll p) bs 0 [] {} c"
proof -
  note D = pool_invD [OF inv]
  have "unat (blockSize p - 1) = B - 1" "0 < B"
    using D(1) by (auto simp: pool_sizes_def unat_pred)
  then have "pool_cut (poolFreeAll p) B (length bs) 0"
    by (simp add: pool_cut_def poolFreeAll_def of_nat_diff del: of_nat_unat)
  then show ?thesis
    using D(1-3,6,7) by (simp add: pool_inv_def pool_held_def poolFreeAll_def pool_sizes_def pool_blocks_def)
qed

lemma poolInitialize_ok:
  assumes "poolInitialize True esize bsize p0 = Some p" and "regions p0 = []" and "0 < bsize"
    and "unat (max esize sizeof_poolFreed) * unat bsize < 2 ^ 32"
  shows "pool_inv malloc (unat (max esize sizeof_poolFreed)) (unat bsize) p [] 0 [] {} 0"
proof -
  have p: "p = poolFreeAll (p0\<lparr>elementSize := max esize sizeof_poolFreed, blockSize := bsize\<rparr>)\<lparr>blocksUsed := 1, pl_blocks := [0]\<rparr>"
    using assms(1) by (simp add: poolInitialize_def Let_def POOL_BLOCKS_INITIAL_def)
  have "8 \<le> unat (max esize sizeof_poolFreed)"
    by (simp add: sizeof_poolFreed_def max_def word_le_nat_alt)
  moreover have "unat (bsize - 1) = unat bsize - 1" "0 < unat bsize"
    using assms(3) by (auto simp: word_less_nat_alt unat_pred)
  then have "pool_cut p (unat bsize) 0 0"
    by (simp add: p pool_cut_def poolFreeAll_def of_nat_diff del: of_nat_unat)
  moreover have "pool_blocks S p []" for S
    using assms(2) by (simp add: p poolFreeAll_def pool_blocks_def exI [of _ "1 :: nat"])
  ultimately show ?thesis
    using assms(4) \<open>0 < unat bsize\<close> by (simp add: pool_inv_def pool_sizes_def pool_held_def) (simp add: p poolFreeAll_def)
qed

text \<open>All the blocks are freed.\<close>

lemma free_all_blocks:
  assumes "pl_blocks p = ds @ bs @ replicate m 0" and "length (pl_blocks p) = unat (blocksUsed p)" and "0 \<notin> set bs" and "distinct bs"
  shows "loop (free_round p) (int (length ds), map (\<lambda>b. (b, S)) bs) = Some []"
  using assms
proof (induction bs arbitrary: ds)
  case Nil
  have "free_round p (int (length ds), []) = Some (Inr [])"
    using Nil.prems(1,2) by (cases m) (auto simp: free_round_def rd_of_nat nth_append)
  then show ?case
    by (simp add: loop_stop)
next
  case (Cons b bs)
  have "filter (\<lambda>r. fst r \<noteq> b) (map (\<lambda>b. (b, S)) bs) = map (\<lambda>b. (b, S)) bs"
    using Cons.prems(4) by (auto intro!: filter_True)
  moreover have "length ds < unat (blocksUsed p)"
    unfolding Cons.prems(2) [symmetric] Cons.prems(1) by simp
  then have "int (length ds) < uint (blocksUsed p)"
    using of_nat_less_iff [where ?'a = int, of "length ds" "unat (blocksUsed p)"] by simp
  ultimately have "free_round p (int (length ds), map (\<lambda>b. (b, S)) (b # bs)) = Some (Inl (int (length (ds @ [b])), map (\<lambda>b. (b, S)) bs))"
    using Cons.prems(1,3) by (simp add: free_round_def rd_of_nat nth_append)
  then show ?case
    using Cons.IH [of "ds @ [b]"] Cons.prems by (simp add: loop_next)
qed

lemma poolFreePool_ok:
  assumes inv: "pool_inv malloc E B p bs n fs L c" and ok: "blocks_ok (E * B) bs"
  shows "\<exists>q. poolFreePool p = Some q \<and> regions q = []"
proof -
  note D = pool_invD [OF inv]
  obtain m where m: "pl_blocks p = [] @ bs @ replicate m 0" "length (pl_blocks p) = unat (blocksUsed p)" "regions p = map (\<lambda>b. (b, E * B)) bs"
    using D(3) by (auto simp: pool_blocks_def)
  have "0 < E * B"
    using D(9,10) by simp
  then have "bs ! i \<noteq> bs ! j" if "i < j" "j < length bs" for i j
    using ok that unfolding blocks_ok_def apart_def by fastforce
  then have "distinct bs"
    unfolding distinct_conv_nth by (metis nat_neq_iff)
  moreover have "0 \<notin> set bs"
    using ok by (auto simp: blocks_ok_def)
  ultimately have "distinct bs" "0 \<notin> set bs"
    by simp_all
  then show ?thesis
    using free_all_blocks [OF m(1,2), of "E * B"] m(3) by (simp add: poolFreePool_def)
qed

section \<open>The results\<close>

definition pool_element :: "u32 \<Rightarrow> nat" where
  "pool_element esize = unat (max esize sizeof_poolFreed)"

lemma client_inv:
  assumes "pool_client malloc esize bsize p L c" and "0 < bsize" and "pool_element esize * unat bsize < 2 ^ 32"
    and N: "pool_mallocs N (pool_element esize * unat bsize) malloc" "c \<le> N" "c \<le> 2 ^ 30"
  shows "\<exists>bs n fs. pool_inv malloc (pool_element esize) (unat bsize) p bs n fs L c"
  using assms(1) N(2,3)
proof (induction rule: pool_client.induct)
  case (pool_init p0 p)
  then show ?case
    using poolInitialize_ok [of esize bsize p0 p malloc] assms(2,3) unfolding pool_element_def by blast
next
  case (pool_malloc p L c a q)
  then show ?case
    using poolMalloc_ok [OF _ N(1), of p _ _ _ L c] by fastforce
next
  case (pool_write p L c a k v)
  then obtain bs n fs where inv: "pool_inv malloc (pool_element esize) (unat bsize) p bs n fs L c"
    by blast
  note D = pool_invD [OF inv]
  have "blocks_ok (pool_element esize * unat bsize) bs"
    using mallocs_ok [OF N(1), of "length bs"] D(2,7) pool_write by simp
  then have "free_list ((pl_mem p)(a + k := v)) (pl_freed p) fs"
    using D(1) pool_write by (intro free_list_frame [OF inv]) (auto simp: pool_sizes_def)
  then have "pool_inv malloc (pool_element esize) (unat bsize) (p\<lparr>pl_mem := (pl_mem p)(a + k := v)\<rparr>) bs n fs L c"
    using D(1-7) by (simp add: pool_inv_def pool_sizes_def pool_blocks_def pool_cut_def pool_held_def)
  then show ?case
    by blast
next
  case (pool_free p L c a q)
  then obtain bs n fs where inv: "pool_inv malloc (pool_element esize) (unat bsize) p bs n fs L c"
    by blast
  then have "blocks_ok (pool_element esize * unat bsize) bs"
    using mallocs_ok [OF N(1), of "length bs"] pool_invD(2,7) [OF inv] pool_free by simp
  then show ?case
    using poolFree_ok [OF inv _ pool_free.hyps(2)] pool_free.hyps(3) by auto
next
  case (pool_free_all p L c)
  then show ?case
    using poolFreeAll_ok by blast
qed

text \<open>C27: Whatever a client has allocated, written into its elements and freed before, the next \<open>poolMalloc\<close> answers memory for a
  whole element that lies in a block and overlaps no element the client holds, every element it holds can be freed, and
  \<open>poolFreePool\<close> frees every block once. A block has less than \<open>2 ^ 32\<close> bytes, and fewer than \<open>2 ^ 30\<close> elements have been allocated.\<close>

theorem pool_correct:
  assumes "pool_client malloc esize bsize p L c" and "0 < bsize" and "pool_element esize * unat bsize < 2 ^ 32"
    and "pool_mallocs N (pool_element esize * unat bsize) malloc" and "c < N" and "c < 2 ^ 30"
  shows "(\<exists>a q. poolMalloc malloc True p = Some (a, q) \<and> in_regions q a (pool_element esize)
      \<and> a \<notin> L \<and> (\<forall>b\<in>L. apart (pool_element esize) a b))
    \<and> (\<forall>b\<in>L. poolFree b p \<noteq> None) \<and> (\<exists>q. poolFreePool p = Some q \<and> regions q = [])"
proof -
  obtain bs n fs where inv: "pool_inv malloc (pool_element esize) (unat bsize) p bs n fs L c"
    using client_inv [OF assms(1-4)] assms(5,6) by auto
  have ok: "blocks_ok (pool_element esize * unat bsize) bs"
    using mallocs_ok [OF assms(4), of "length bs"] pool_invD(2,7) [OF inv] assms(5) by simp
  obtain a q bs' n' fs' where new: "poolMalloc malloc True p = Some (a, q)" "a \<notin> L"
      "pool_inv malloc (pool_element esize) (unat bsize) q bs' n' fs' (insert a L) (Suc c)"
    using poolMalloc_ok [OF inv assms(4-6)] by blast
  have "blocks_ok (pool_element esize * unat bsize) bs'"
    using mallocs_ok [OF assms(4), of "length bs'"] pool_invD(2,7) [OF new(3)] assms(5) by simp
  then have "\<forall>b\<in>L. apart (pool_element esize) a b"
    using held_apart [OF new(3)] new(2) by blast
  moreover have "in_regions q a (pool_element esize)"
    using held_in [OF new(3)] by simp
  moreover have "\<forall>b\<in>L. poolFree b p \<noteq> None"
    using poolFree_ok [OF inv ok] by fastforce
  ultimately show ?thesis
    using new(1,2) poolFreePool_ok [OF inv ok] by blast
qed

definition bump :: pool_malloc where
  "bump rs n = 64 + length rs * n"

definition pool0 :: pool where
  "pool0 = \<lparr>elementSize = 0, blockSize = 0, pl_used = 0, pl_block = 0, pl_freed = 0, blocksUsed = 0, pl_blocks = [], regions = [],
     pl_mem = (\<lambda>_. 0)\<rparr>"

lemmas pool_defs = poolInitialize_def poolFreeAll_def poolMalloc_def poolFree_def next_block_def grow_blocks_def fill_block_def
  load_link_def store_link_def in_regions_def POOL_BLOCKS_INITIAL_def sizeof_poolFreed_def pool0_def bump_def pool_element_def Let_def

theorem pool_correct_witness:
  "\<exists>p q a b r. poolInitialize True 12 2 pool0 = Some p \<and> poolMalloc bump True p = Some (a, q) \<and> a = 64
    \<and> poolMalloc bump True q = Some (b, r) \<and> apart 12 b a"
proof -
  obtain p where p: "poolInitialize True 12 2 pool0 = Some p" "poolMalloc bump True p \<noteq> None"
      "fst (the (poolMalloc bump True p)) = 64"
    by (simp add: pool_defs chk32_def rd_def wr_def)
  then obtain q where q: "poolMalloc bump True p = Some (64, q)"
    by auto
  have "pool_client bump 12 2 q (insert 64 {}) (Suc 0)"
    using pool_client.pool_malloc [OF pool_init [OF p(1)] q] by (simp add: pool0_def)
  moreover have "pool_mallocs 3 (pool_element 12 * unat (2 :: u32)) bump"
    by (auto simp: pool_defs pool_mallocs_def blocks_ok_def apart_def numeral_3_eq_3 less_Suc_eq nth_Cons')
  moreover have "pool_element 12 = 12"
    by (simp add: pool_defs)
  ultimately have "\<exists>b r. poolMalloc bump True q = Some (b, r) \<and> apart 12 b 64"
    using pool_correct [of bump 12 2 q "insert 64 {}" "Suc 0" 3] by auto
  then show ?thesis
    using p(1) q by blast
qed

text \<open>When \<open>malloc\<close> fails, the pool hands out \<open>NULL\<close> and then small numbers as addresses.\<close>

lemma pool_malloc_unchecked:
  "\<exists>p q r. poolInitialize True 12 2 pool0 = Some p \<and> poolMalloc (\<lambda>_ _. 0) True p = Some (0, q)
    \<and> poolMalloc (\<lambda>_ _. 0) True q = Some (12, r)"
  by (simp add: pool_defs chk32_def rd_def wr_def)

end
