(* ===== verification/BinTrees.thy ===== *)
theory BinTrees
  imports Loops
begin

text \<open>
  The programs on binary trees of C/job_interview: 04_traverse_binary_tree_hierarchy.c (the levels of a tree, with a queue
  and by recursion), 06_tree_node_distance.c (the diameter), 07_two_node_distance_in_tree.c (the distance of two nodes) and
  16_tree_path_has_sum_target.c (paths to the leaves). No program changes a tree, so a tree is a value; the queue of the
  first program is on a heap.
\<close>

section \<open>The programs\<close>

datatype tnode = TNull | TNode (tn_val: int) (tn_left: tnode) (tn_right: tnode)

record queue_node =
  qn_tree :: tnode
  qn_next :: nat

record bfs_queue =
  q_front :: nat
  q_rear :: nat
  q_mem :: "nat \<Rightarrow> queue_node option"

type_synonym q_malloc = "(nat \<Rightarrow> queue_node option) \<Rightarrow> nat"

text \<open>The flag is the answer of \<open>malloc\<close>.\<close>

definition create_queue :: "bool \<Rightarrow> bfs_queue option" where
  "create_queue malloc_ok = (if malloc_ok then Some \<lparr>q_front = 0, q_rear = 0, q_mem = Map.empty\<rparr> else None)"

definition enqueue :: "q_malloc \<Rightarrow> bfs_queue \<Rightarrow> tnode \<Rightarrow> bfs_queue option" where
  "enqueue malloc q treeNode = do {
     let newNode = malloc (q_mem q);
     if newNode = 0 then None
     else do {
       let m = (q_mem q)(newNode \<mapsto> \<lparr>qn_tree = treeNode, qn_next = 0\<rparr>);
       if q_rear q = 0 then Some \<lparr>q_front = newNode, q_rear = newNode, q_mem = m\<rparr>
       else do {
         n \<leftarrow> m (q_rear q);
         Some \<lparr>q_front = q_front q, q_rear = newNode, q_mem = m(q_rear q \<mapsto> n\<lparr>qn_next := newNode\<rparr>)\<rparr> } } }"

definition dequeue :: "bfs_queue \<Rightarrow> (tnode \<times> bfs_queue) option" where
  "dequeue q =
     (if q_front q = 0 then Some (TNull, q)
      else do {
        let temp = q_front q;
        n \<leftarrow> q_mem q temp;
        let front = qn_next n;
        let rear = (if front = 0 then 0 else q_rear q);
        Some (qn_tree n, \<lparr>q_front = front, q_rear = rear, q_mem = (q_mem q)(temp := None)\<rparr>) })"

definition isQueueEmpty :: "bfs_queue \<Rightarrow> bool" where
  "isQueueEmpty q \<longleftrightarrow> q_front q = 0"

text \<open>The number of nodes in the queue.\<close>

definition level_size :: "bfs_queue \<Rightarrow> int option" where
  "level_size q = loop (\<lambda>(temp, levelSize).
     if temp = 0 then Some (Inr levelSize)
     else do {
       n \<leftarrow> q_mem q temp;
       levelSize \<leftarrow> chk32 (levelSize + 1);
       Some (Inl (qn_next n, levelSize)) }) (q_front q, 0)"

definition visit :: "q_malloc \<Rightarrow> int \<Rightarrow> int list \<times> bfs_queue \<Rightarrow> (int list \<times> bfs_queue) option" where
  "visit malloc i = (\<lambda>(line, q). do {
     (current, q) \<leftarrow> dequeue q;
     (case current of
       TNull \<Rightarrow> None
     | TNode v l r \<Rightarrow> do {
         q \<leftarrow> (if l \<noteq> TNull then enqueue malloc q l else Some q);
         q \<leftarrow> (if r \<noteq> TNull then enqueue malloc q r else Some q);
         Some (line @ [v], q) }) })"

text \<open>What is printed, line by line.\<close>

definition level_round :: "q_malloc \<Rightarrow> int list list \<times> bfs_queue \<Rightarrow> (int list list \<times> bfs_queue + int list list) option" where
  "level_round malloc = (\<lambda>(out, q).
     if isQueueEmpty q then Some (Inr out)
     else do {
       levelSize \<leftarrow> level_size q;
       (line, q) \<leftarrow> for_up 0 levelSize (visit malloc) ([], q);
       Some (Inl (out @ [line], q)) })"

definition level_order_traversal :: "q_malloc \<Rightarrow> bool \<Rightarrow> tnode \<Rightarrow> int list list option" where
  "level_order_traversal malloc malloc_ok root =
     (if root = TNull then Some []
      else case create_queue malloc_ok of
        None \<Rightarrow> Some []
      | Some q \<Rightarrow> do { q \<leftarrow> enqueue malloc q root; loop (level_round malloc) ([], q) })"

fun getHeight :: "tnode \<Rightarrow> int option" where
  "getHeight TNull = Some 0"
| "getHeight (TNode v l r) = do {
     leftHeight \<leftarrow> getHeight l;
     rightHeight \<leftarrow> getHeight r;
     if leftHeight > rightHeight then chk32 (leftHeight + 1) else chk32 (rightHeight + 1) }"

fun printGivenLevel :: "tnode \<Rightarrow> int \<Rightarrow> int list" where
  "printGivenLevel TNull level = []"
| "printGivenLevel (TNode v l r) level =
     (if level = 1 then [v]
      else if level > 1 then printGivenLevel l (level - 1) @ printGivenLevel r (level - 1)
      else [])"

definition level_order_recursive :: "tnode \<Rightarrow> int list list option" where
  "level_order_recursive root = do {
     h \<leftarrow> getHeight root;
     for_up 1 (h + 1) (\<lambda>i out. Some (out @ [printGivenLevel root i])) [] }"

fun diameterOfBinaryTreeHelper :: "tnode \<Rightarrow> int \<Rightarrow> (int \<times> int) option" where
  "diameterOfBinaryTreeHelper TNull maxDiameter = Some (0, maxDiameter)"
| "diameterOfBinaryTreeHelper (TNode v l r) maxDiameter = do {
     (leftHeight, maxDiameter) \<leftarrow> diameterOfBinaryTreeHelper l maxDiameter;
     (rightHeight, maxDiameter) \<leftarrow> diameterOfBinaryTreeHelper r maxDiameter;
     s \<leftarrow> chk32 (leftHeight + rightHeight);
     h \<leftarrow> chk32 (max leftHeight rightHeight + 1);
     Some (h, max maxDiameter s) }"

definition diameterOfBinaryTree :: "tnode \<Rightarrow> int option" where
  "diameterOfBinaryTree root = do { (_, maxDiameter) \<leftarrow> diameterOfBinaryTreeHelper root 0; Some maxDiameter }"

fun findLCA :: "tnode \<Rightarrow> int \<Rightarrow> int \<Rightarrow> tnode" where
  "findLCA TNull p q = TNull"
| "findLCA (TNode v l r) p q =
     (if v = p \<or> v = q then TNode v l r
      else let left = findLCA l p q; right = findLCA r p q
        in if left \<noteq> TNull \<and> right \<noteq> TNull then TNode v l r
           else if left \<noteq> TNull then left else right)"

fun findLevel :: "tnode \<Rightarrow> int \<Rightarrow> int \<Rightarrow> int option" where
  "findLevel TNull target level = Some (-1)"
| "findLevel (TNode v l r) target level =
     (if v = target then Some level
      else do {
        level' \<leftarrow> chk32 (level + 1);
        left \<leftarrow> findLevel l target level';
        if left \<noteq> -1 then Some left else findLevel r target level' })"

definition shortestDistance :: "tnode \<Rightarrow> int \<Rightarrow> int \<Rightarrow> int option" where
  "shortestDistance root p q = do {
     let lca = findLCA root p q;
     d1 \<leftarrow> findLevel lca p 0;
     d2 \<leftarrow> findLevel lca q 0;
     chk32 (d1 + d2) }"

fun hasPathSumHelper :: "tnode \<Rightarrow> int \<Rightarrow> int \<Rightarrow> bool option" where
  "hasPathSumHelper TNull targetSum currentSum = Some False"
| "hasPathSumHelper (TNode v l r) targetSum currentSum = do {
     currentSum \<leftarrow> chk32 (currentSum + v);
     if l = TNull \<and> r = TNull then Some (currentSum = targetSum)
     else do {
       b \<leftarrow> hasPathSumHelper l targetSum currentSum;
       if b then Some True else hasPathSumHelper r targetSum currentSum } }"

definition hasPathSum :: "tnode \<Rightarrow> int \<Rightarrow> bool option" where
  "hasPathSum root targetSum = hasPathSumHelper root targetSum 0"

section \<open>Positions and distances\<close>

text \<open>A node is named by the turns on the way to it.\<close>

fun positions :: "tnode \<Rightarrow> bool list set" where
  "positions TNull = {}"
| "positions (TNode v l r) = insert [] ((#) False ` positions l \<union> (#) True ` positions r)"

fun sub :: "tnode \<Rightarrow> bool list \<Rightarrow> tnode" where
  "sub t [] = t"
| "sub TNull (b # p) = TNull"
| "sub (TNode v l r) (b # p) = sub (if b then r else l) p"

fun fork :: "bool list \<Rightarrow> bool list \<Rightarrow> bool list" where
  "fork (a # p) (b # q) = (if a = b then a # fork p q else [])"
| "fork _ _ = []"

text \<open>The number of edges between two nodes: up to where the ways fork and down again.\<close>

definition edges :: "bool list \<Rightarrow> bool list \<Rightarrow> nat" where
  "edges p q = length p + length q - 2 * length (fork p q)"

fun tree_height :: "tnode \<Rightarrow> nat" where
  "tree_height TNull = 0"
| "tree_height (TNode v l r) = Suc (max (tree_height l) (tree_height r))"

definition value_at :: "tnode \<Rightarrow> bool list \<Rightarrow> int" where
  "value_at t p = tn_val (sub t p)"

definition distinct_values :: "tnode \<Rightarrow> bool" where
  "distinct_values t \<longleftrightarrow> inj_on (value_at t) (positions t)"

definition tree_values :: "tnode \<Rightarrow> int set" where
  "tree_values t = value_at t ` positions t"

text \<open>The sum of the values from the root to a node.\<close>

fun path_sum :: "tnode \<Rightarrow> bool list \<Rightarrow> int" where
  "path_sum TNull p = 0"
| "path_sum (TNode v l r) [] = v"
| "path_sum (TNode v l r) (b # p) = v + path_sum (if b then r else l) p"

definition is_leaf :: "tnode \<Rightarrow> bool" where
  "is_leaf t \<longleftrightarrow> (\<exists>v. t = TNode v TNull TNull)"

lemma positions_cons [simp]:
  "(b # p \<in> positions (TNode v l r)) = (p \<in> positions (if b then r else l))"
  by (cases b) auto

lemma root_position [simp]: "[] \<in> positions (TNode v l r)"
  by simp

lemma bex_positions:
  "(\<exists>p\<in>positions (TNode v l r). P p) \<longleftrightarrow> P [] \<or> (\<exists>p\<in>positions l. P (False # p)) \<or> (\<exists>p\<in>positions r. P (True # p))"
  unfolding positions.simps by blast

declare positions.simps(2) [simp del]

lemma positions_TNull [simp]: "(positions t = {}) = (t = TNull)"
  using root_position by (cases t) (simp, metis empty_iff tnode.distinct(1))

lemma fork_length: "length (fork p q) \<le> length p" "length (fork p q) \<le> length q"
  by (induction p q rule: fork.induct) auto

lemma fork_sym: "fork p q = fork q p"
  by (induction p q rule: fork.induct) auto

lemma edges_Cons [simp]: "edges (b # p) (b # q) = edges p q"
  using fork_length [of p q] by (simp add: edges_def)

lemma edges_split [simp]: "a \<noteq> b \<Longrightarrow> edges (a # p) (b # q) = length p + length q + 2"
  by (simp add: edges_def)

lemma edges_Nil [simp]: "edges [] p = length p" "edges p [] = length p"
  by (simp_all add: edges_def)

lemma edges_sym: "edges p q = edges q p"
  by (simp add: edges_def fork_sym [of p q])

lemma position_length: "p \<in> positions t \<Longrightarrow> length p < tree_height t"
proof (induction t arbitrary: p)
  case (TNode v l r)
  then show ?case
    by (cases p) (auto simp: less_max_iff_disj split: if_splits)
qed simp

lemma deepest: "t \<noteq> TNull \<Longrightarrow> \<exists>p\<in>positions t. Suc (length p) = tree_height t"
proof (induction t)
  case (TNode v l r)
  show ?case
  proof (cases "l = TNull \<and> r = TNull")
    case True
    then show ?thesis by simp
  next
    case False
    define b where "b \<longleftrightarrow> tree_height l \<le> tree_height r \<and> r \<noteq> TNull \<or> l = TNull"
    have "(if b then r else l) \<noteq> TNull" and h: "max (tree_height l) (tree_height r) = tree_height (if b then r else l)"
      using False by (auto simp: b_def)
    then obtain p where "p \<in> positions (if b then r else l)" "Suc (length p) = tree_height (if b then r else l)"
      using TNode.IH by (cases b) auto
    then show ?thesis
      using h by (intro bexI [of _ "b # p"]) auto
  qed
qed simp

section \<open>The diameter\<close>

fun diam :: "tnode \<Rightarrow> nat" where
  "diam TNull = 0"
| "diam (TNode v l r) = max (max (diam l) (diam r)) (tree_height l + tree_height r)"

lemma diam_height: "diam t \<le> 2 * tree_height t"
  by (induction t) auto

lemma helper_diam:
  "2 * tree_height t < 2 ^ 31 \<Longrightarrow> diameterOfBinaryTreeHelper t m = Some (int (tree_height t), if t = TNull then m else max m (int (diam t)))"
proof (induction t arbitrary: m)
  case (TNode v l r)
  have "diameterOfBinaryTreeHelper l m = Some (int (tree_height l), if l = TNull then m else max m (int (diam l)))"
    using TNode by simp
  moreover have "diameterOfBinaryTreeHelper r m' = Some (int (tree_height r), if r = TNull then m' else max m' (int (diam r)))" for m'
    using TNode by simp
  moreover have "chk32 (int (tree_height l) + int (tree_height r)) = Some (int (tree_height l) + int (tree_height r))"
      "chk32 (max (int (tree_height l)) (int (tree_height r)) + 1) = Some (max (int (tree_height l)) (int (tree_height r)) + 1)"
    using TNode.prems by (auto simp: chk32_def)
  ultimately show ?case
    by (auto simp: max_def)
qed simp

lemma diam_bound: "p \<in> positions t \<Longrightarrow> q \<in> positions t \<Longrightarrow> edges p q \<le> diam t"
proof (induction t arbitrary: p q)
  case (TNode v l r)
  have low: "Suc (length u) \<le> tree_height (if a then r else l)" if "a # u \<in> positions (TNode v l r)" for a u
    using position_length [of u "if a then r else l"] that by simp
  show ?case
  proof (cases p)
    case Nil
    have "length q \<le> max (tree_height l) (tree_height r)"
      using position_length [OF TNode.prems(2)] by simp
    then show ?thesis
      using Nil by simp
  next
    case (Cons a u)
    show ?thesis
    proof (cases q)
      case Nil
      have "length p \<le> max (tree_height l) (tree_height r)"
        using position_length [OF TNode.prems(1)] by simp
      then show ?thesis
        using Nil by simp
    next
      case C2: (Cons b w)
      show ?thesis
      proof (cases "a = b")
        case True
        then have "edges u w \<le> diam (if a then r else l)"
          using TNode Cons C2 by (cases a) auto
        then show ?thesis
          using True Cons C2 by (cases a) auto
      next
        case False
        then show ?thesis
          using low [of a u] low [of b w] TNode.prems Cons C2 by (cases a; cases b) auto
      qed
    qed
  qed
qed simp

lemma diam_reached: "t \<noteq> TNull \<Longrightarrow> \<exists>p\<in>positions t. \<exists>q\<in>positions t. edges p q = diam t"
proof (induction t)
  case (TNode v l r)
  have "diam (TNode v l r) = diam l \<or> diam (TNode v l r) = diam r \<or> diam (TNode v l r) = tree_height l + tree_height r"
    by (simp add: max_def)
  moreover have "diam (TNode v l r) = tree_height l + tree_height r" if "diam (TNode v l r) = 0"
    using that by simp
  ultimately consider (l) "l \<noteq> TNull" "diam (TNode v l r) = diam l" | (r) "r \<noteq> TNull" "diam (TNode v l r) = diam r"
    | (root) "diam (TNode v l r) = tree_height l + tree_height r"
    by (metis diam.simps(1))
  then show ?case
  proof cases
    case l
    then obtain p q where "p \<in> positions l" "q \<in> positions l" "edges p q = diam l"
      using TNode by blast
    then show ?thesis
      using l(2) by (intro bexI [of _ "False # p"] bexI [of _ "False # q"]) auto
  next
    case r
    then obtain p q where "p \<in> positions r" "q \<in> positions r" "edges p q = diam r"
      using TNode by blast
    then show ?thesis
      using r(2) by (intro bexI [of _ "True # p"] bexI [of _ "True # q"]) auto
  next
    case root
    have ends: "\<exists>p. p \<in> positions (TNode v l r) \<and> length p = tree_height (if b then r else l) \<and> (p = [] \<or> (\<exists>u. p = b # u))" for b
    proof (cases "(if b then r else l) = TNull")
      case True
      then show ?thesis
        by (intro exI [of _ "[]"]) simp
    next
      case False
      then obtain p where "p \<in> positions (if b then r else l)" "Suc (length p) = tree_height (if b then r else l)"
        using deepest by blast
      then show ?thesis
        by (intro exI [of _ "b # p"]) simp
    qed
    obtain p where p: "p \<in> positions (TNode v l r)" "p = [] \<or> (\<exists>u. p = False # u)" "length p = tree_height l"
      using ends [of False] by auto
    obtain q where q: "q \<in> positions (TNode v l r)" "q = [] \<or> (\<exists>u. q = True # u)" "length q = tree_height r"
      using ends [of True] by auto
    have "edges p q = length p + length q"
      using p(2) q(2) by auto
    then show ?thesis
      using p(1,3) q(1,3) root by auto
  qed
qed simp

text \<open>\<open>diameterOfBinaryTree\<close> answers the largest number of edges between two nodes: no two nodes are further apart, and two
  nodes are that far apart.\<close>

theorem diameter_correct:
  assumes "t \<noteq> TNull" and "2 * tree_height t < 2 ^ 31"
  shows "\<exists>d. diameterOfBinaryTree t = Some (int d) \<and> (\<forall>p\<in>positions t. \<forall>q\<in>positions t. edges p q \<le> d)
    \<and> (\<exists>p\<in>positions t. \<exists>q\<in>positions t. edges p q = d)"
  using helper_diam [OF assms(2), of 0] assms(1) diam_bound [of _ t] diam_reached [OF assms(1)]
  by (intro exI [of _ "diam t"]) (simp add: diameterOfBinaryTree_def)

section \<open>Distances\<close>

lemma sub_simps [simp]: "sub TNull p = TNull"
  by (cases p) auto

lemma value_at_simps [simp]: "value_at (TNode v l r) [] = v" "value_at (TNode v l r) (b # p) = value_at (if b then r else l) p"
  by (simp_all add: value_at_def)

lemma tree_values_simps [simp]: "tree_values TNull = {}" "tree_values (TNode v l r) = insert v (tree_values l \<union> tree_values r)"
  by (auto simp: tree_values_def positions.simps image_Un image_image)

lemma distinct_TNode:
  "distinct_values (TNode v l r) \<longleftrightarrow> distinct_values l \<and> distinct_values r \<and> v \<notin> tree_values l \<and> v \<notin> tree_values r
    \<and> tree_values l \<inter> tree_values r = {}" (is "?l = ?r")
proof
  assume d: ?l
  have eq: "value_at (TNode v l r) p = value_at (TNode v l r) q \<Longrightarrow> p = q"
    if "p \<in> positions (TNode v l r)" "q \<in> positions (TNode v l r)" for p q
    using d that by (auto simp: distinct_values_def inj_on_def)
  have "distinct_values l" "distinct_values r"
    using eq [of "False # _" "False # _"] eq [of "True # _" "True # _"] by (simp_all add: distinct_values_def inj_on_def)
  moreover have "v \<notin> tree_values l" "v \<notin> tree_values r"
    using eq [of "[]" "False # _"] eq [of "[]" "True # _"] by (auto simp: tree_values_def)
  moreover have "tree_values l \<inter> tree_values r = {}"
    using eq [of "False # _" "True # _"] by (auto simp: tree_values_def)
  ultimately show ?r
    by simp
next
  assume r: ?r
  show ?l
    unfolding distinct_values_def
  proof (rule inj_onI)
    fix p q assume p: "p \<in> positions (TNode v l r)" and q: "q \<in> positions (TNode v l r)"
      and eq: "value_at (TNode v l r) p = value_at (TNode v l r) q"
    have val: "value_at (TNode v l r) (b # u) \<in> tree_values (if b then r else l)" if "b # u \<in> positions (TNode v l r)" for b u
      using that by (simp add: tree_values_def)
    consider "p = []" "q = []" | b u where "p = []" "q = b # u" | a u where "p = a # u" "q = []"
      | a u b w where "p = a # u" "q = b # w"
      by (metis neq_Nil_conv)
    then show "p = q"
    proof cases
      case (2 b u)
      then show ?thesis
        using val [of b u] q eq r by (cases b) simp_all
    next
      case (3 a u)
      then show ?thesis
        using val [of a u] p eq [symmetric] r by (cases a) simp_all
    next
      case (4 a u b w)
      have "a = b"
        using val [of a u] val [of b w] p q eq r unfolding 4 by (cases a; cases b) auto
      then have "inj_on (value_at (if a then r else l)) (positions (if a then r else l))"
        using r by (simp add: distinct_values_def)
      then show ?thesis
        using p q eq \<open>a = b\<close> unfolding 4 by (simp add: inj_on_def)
    qed simp
  qed
qed

lemma findLCA_sym: "findLCA t p q = findLCA t q p"
  by (induction t) (auto simp: Let_def)

lemma findLCA_none: "findLCA t p q = TNull \<longleftrightarrow> p \<notin> tree_values t \<and> q \<notin> tree_values t"
  by (induction t) (auto simp: Let_def)

lemma findLCA_one:
  "distinct_values t \<Longrightarrow> u \<in> positions t \<Longrightarrow> q \<notin> tree_values t \<Longrightarrow> findLCA t (value_at t u) q = sub t u"
proof (induction t arbitrary: u)
  case (TNode v l r)
  show ?case
  proof (cases u)
    case (Cons b w)
    define p where "p = value_at (TNode v l r) u"
    have p: "p = value_at (if b then r else l) w" "w \<in> positions (if b then r else l)"
      using TNode.prems Cons by (auto simp: p_def)
    then have "p \<in> tree_values (if b then r else l)"
      by (auto simp: tree_values_def)
    then have "p \<noteq> v" "q \<noteq> v" "p \<notin> tree_values (if b then l else r)" "q \<notin> tree_values l" "q \<notin> tree_values r"
      using TNode.prems by (auto simp: distinct_TNode split: if_splits)
    moreover have "findLCA (if b then r else l) p q = sub (if b then r else l) w"
      using TNode p \<open>q \<notin> tree_values l\<close> \<open>q \<notin> tree_values r\<close> by (cases b) (auto simp: distinct_TNode)
    moreover have "findLCA (if b then l else r) p q = TNull"
      unfolding findLCA_none using calculation by auto
    ultimately show ?thesis
      unfolding p_def [symmetric] using Cons by (cases b) (simp_all add: Let_def)
  qed simp
qed simp

lemma findLCA_both:
  "distinct_values t \<Longrightarrow> u \<in> positions t \<Longrightarrow> w \<in> positions t \<Longrightarrow> findLCA t (value_at t u) (value_at t w) = sub t (fork u w)"
proof (induction t arbitrary: u w)
  case (TNode v l r)
  define p where "p = value_at (TNode v l r) u"
  define q where "q = value_at (TNode v l r) w"
  show ?case
  proof (cases "u = [] \<or> w = []")
    case True
    then show ?thesis
      by (cases u; cases w) auto
  next
    case False
    then obtain a u' b w' where uw: "u = a # u'" "w = b # w'"
      by (metis neq_Nil_conv)
    have pos: "u' \<in> positions (if a then r else l)" "w' \<in> positions (if b then r else l)"
        "p = value_at (if a then r else l) u'" "q = value_at (if b then r else l) w'"
      using TNode.prems uw by (auto simp: p_def q_def)
    then have mem: "p \<in> tree_values (if a then r else l)" "q \<in> tree_values (if b then r else l)"
      by (auto simp: tree_values_def)
    then have no: "p \<noteq> v" "q \<noteq> v" "p \<notin> tree_values (if a then l else r)" "q \<notin> tree_values (if b then l else r)"
      using TNode.prems by (auto simp: distinct_TNode split: if_splits)
    show ?thesis
    proof (cases "a = b")
      case True
      then have "findLCA (if a then r else l) p q = sub (if a then r else l) (fork u' w')"
        using TNode pos by (cases a) (auto simp: distinct_TNode)
      moreover have "findLCA (if a then l else r) p q = TNull" "findLCA (if a then r else l) p q \<noteq> TNull"
        using no mem True by (simp_all add: findLCA_none)
      ultimately show ?thesis
        unfolding p_def [symmetric] q_def [symmetric] using True no uw by (cases a) (simp_all add: Let_def)
    next
      case False
      then have "findLCA l p q \<noteq> TNull" "findLCA r p q \<noteq> TNull"
        using mem by (auto simp: findLCA_none split: if_splits)
      then show ?thesis
        unfolding p_def [symmetric] q_def [symmetric] using False no uw by (simp add: Let_def)
    qed
  qed
qed simp

lemma findLevel_none: "x \<notin> tree_values t \<Longrightarrow> 0 \<le> lv \<Longrightarrow> lv + int (tree_height t) < 2 ^ 31 \<Longrightarrow> findLevel t x lv = Some (-1)"
proof (induction t arbitrary: lv)
  case (TNode v l r)
  have "chk32 (lv + 1) = Some (lv + 1)"
    using TNode.prems by (simp add: chk32_def)
  moreover have "lv + 1 + int (tree_height l) < 2 ^ 31" "lv + 1 + int (tree_height r) < 2 ^ 31"
    using TNode.prems(3) by simp_all
  ultimately show ?case
    using TNode.IH(1) [of "lv + 1"] TNode.IH(2) [of "lv + 1"] TNode.prems(1,2) by simp
qed simp

lemma findLevel_at:
  "distinct_values t \<Longrightarrow> u \<in> positions t \<Longrightarrow> 0 \<le> lv \<Longrightarrow> lv + int (tree_height t) < 2 ^ 31
    \<Longrightarrow> findLevel t (value_at t u) lv = Some (lv + int (length u))"
proof (induction t arbitrary: u lv)
  case (TNode v l r)
  have step: "chk32 (lv + 1) = Some (lv + 1)" "lv + 1 + int (tree_height l) < 2 ^ 31" "lv + 1 + int (tree_height r) < 2 ^ 31"
    using TNode.prems by (simp_all add: chk32_def)
  show ?case
  proof (cases u)
    case (Cons b w)
    then have w: "w \<in> positions (if b then r else l)"
      using TNode.prems(2) by simp
    then have "value_at (if b then r else l) w \<in> tree_values (if b then r else l)"
      by (simp add: tree_values_def)
    then have "value_at (if b then r else l) w \<noteq> v" "b \<Longrightarrow> value_at r w \<notin> tree_values l"
      using TNode.prems(1) by (auto simp: distinct_TNode split: if_splits)
    then show ?thesis
      using TNode.IH(1) [of w "lv + 1"] TNode.IH(2) [of w "lv + 1"] findLevel_none [of _ l "lv + 1"] step w Cons TNode.prems(1,3)
      by (cases b) (simp_all add: distinct_TNode)
  qed simp
qed simp

lemma fork_prefix: "\<exists>p'. p = fork p q @ p'" "\<exists>q'. q = fork p q @ q'"
  by (induction p q rule: fork.induct) auto

lemma sub_position: "w @ u \<in> positions t \<Longrightarrow> u \<in> positions (sub t w) \<and> value_at t (w @ u) = value_at (sub t w) u"
proof (induction w arbitrary: t)
  case (Cons b w)
  then show ?case by (cases t) simp_all
qed simp

lemma sub_height: "tree_height (sub t w) \<le> tree_height t"
proof (induction w arbitrary: t)
  case (Cons b w)
  show ?case
  proof (cases t)
    case (TNode v l r)
    then show ?thesis
      using Cons [of l] Cons [of r] by (cases b) auto
  qed simp
qed simp

lemma sub_values: "tree_values (sub t w) \<subseteq> tree_values t"
proof (induction w arbitrary: t)
  case (Cons b w)
  show ?case
  proof (cases t)
    case (TNode v l r)
    then show ?thesis
      using Cons [of l] Cons [of r] by (cases b) auto
  qed simp
qed simp

lemma sub_distinct: "distinct_values t \<Longrightarrow> distinct_values (sub t w)"
proof (induction w arbitrary: t)
  case (Cons b w)
  then show ?case by (cases t; cases b) (simp_all add: distinct_TNode)
qed simp

lemma level_in_sub:
  assumes "distinct_values t" and "2 * tree_height t < 2 ^ 31" and "w @ u \<in> positions t"
  shows "findLevel (sub t w) (value_at t (w @ u)) 0 = Some (int (length u))"
  using findLevel_at [of "sub t w" u 0] sub_position [OF assms(3)] sub_distinct [OF assms(1), of w] sub_height [of t w] assms(2) by simp

lemma one_missing:
  assumes "distinct_values t" and "2 * tree_height t < 2 ^ 31" and "u \<in> positions t" and "q \<notin> tree_values t"
  shows "shortestDistance t (value_at t u) q = Some (-1)" "shortestDistance t q (value_at t u) = Some (-1)"
proof -
  have lca: "findLCA t (value_at t u) q = sub t u"
    using findLCA_one [OF assms(1,3,4)] .
  moreover have "findLevel (sub t u) (value_at t u) 0 = Some 0"
    using level_in_sub [of t u "[]"] assms by simp
  moreover have "findLevel (sub t u) q 0 = Some (-1)"
    using findLevel_none [of q "sub t u" 0] sub_values [of t u] sub_height [of t u] assms(2,4) by auto
  ultimately show "shortestDistance t (value_at t u) q = Some (-1)" "shortestDistance t q (value_at t u) = Some (-1)"
    using findLCA_sym [of t q "value_at t u"] by (simp_all add: shortestDistance_def Let_def chk32_def)
qed

text \<open>C37: In a tree with different values \<open>shortestDistance\<close> answers the number of edges between the nodes with the two values. When
  one of the values is not in the tree the answer is -1, and when both are missing it is -2.\<close>

theorem shortestDistance_correct:
  assumes "distinct_values t" and "2 * tree_height t < 2 ^ 31"
  shows "(\<forall>u\<in>positions t. \<forall>w\<in>positions t. shortestDistance t (value_at t u) (value_at t w) = Some (int (edges u w)))
    \<and> (\<forall>u\<in>positions t. \<forall>q. q \<notin> tree_values t \<longrightarrow> shortestDistance t (value_at t u) q = Some (-1) \<and> shortestDistance t q (value_at t u) = Some (-1))
    \<and> (\<forall>p q. p \<notin> tree_values t \<longrightarrow> q \<notin> tree_values t \<longrightarrow> shortestDistance t p q = Some (-2))"
proof -
  have "shortestDistance t (value_at t u) (value_at t w) = Some (int (edges u w))" if uw: "u \<in> positions t" "w \<in> positions t" for u w
  proof -
    obtain u' w' where f: "u = fork u w @ u'" "w = fork u w @ w'"
      using fork_prefix by blast
    have "findLevel (sub t (fork u w)) (value_at t u) 0 = Some (int (length u'))"
      "findLevel (sub t (fork u w)) (value_at t w) 0 = Some (int (length w'))"
      using level_in_sub [OF assms, of "fork u w" u'] level_in_sub [OF assms, of "fork u w" w'] uw by (simp_all flip: f)
    moreover have "length u = length (fork u w) + length u'" "length w = length (fork u w) + length w'"
      using f by (metis length_append)+
    moreover have "length u < tree_height t" "length w < tree_height t"
      using uw position_length by blast+
    ultimately show ?thesis
      using findLCA_both [OF assms(1) uw] assms(2) by (simp add: shortestDistance_def edges_def chk32_def)
  qed
  moreover have "shortestDistance t p q = Some (-2)" if "p \<notin> tree_values t" "q \<notin> tree_values t" for p q
    using that findLCA_none [of t p q] by (simp add: shortestDistance_def chk32_def)
  ultimately show ?thesis
    using one_missing [OF assms] by blast
qed

section \<open>Paths to the leaves\<close>

lemma hasPathSum_helper:
  "\<forall>p\<in>positions t. - (2 ^ 31) \<le> c + path_sum t p \<and> c + path_sum t p < 2 ^ 31
    \<Longrightarrow> hasPathSumHelper t target c = Some (\<exists>p\<in>positions t. is_leaf (sub t p) \<and> c + path_sum t p = target)"
proof (induction t arbitrary: c)
  case (TNode v l r)
  have c: "chk32 (c + v) = Some (c + v)"
    using bspec [OF TNode.prems root_position] by (simp add: chk32_def)
  show ?case
  proof (cases "l = TNull \<and> r = TNull")
    case True
    then show ?thesis
      using c by (auto simp: positions.simps is_leaf_def)
  next
    case False
    have below: "- (2 ^ 31) \<le> c + v + path_sum (if b then r else l) p \<and> c + v + path_sum (if b then r else l) p < 2 ^ 31"
      if "p \<in> positions (if b then r else l)" for b p
      using bspec [OF TNode.prems, of "b # p"] that by (simp add: add.assoc)
    have "hasPathSumHelper l target (c + v) = Some (\<exists>p\<in>positions l. is_leaf (sub l p) \<and> c + v + path_sum l p = target)"
      "hasPathSumHelper r target (c + v) = Some (\<exists>p\<in>positions r. is_leaf (sub r p) \<and> c + v + path_sum r p = target)"
      using TNode.IH below [of _ False] below [of _ True] by simp_all
    moreover have "\<not> is_leaf (TNode v l r)"
      using False by (auto simp: is_leaf_def)
    ultimately show ?thesis
      using False c by (auto simp: bex_positions add.assoc)
  qed
qed simp

text \<open>\<open>hasPathSum\<close> tells whether the values on the way from the root to some leaf add up to the target, for a tree in which no such
  sum overflows.\<close>

theorem hasPathSum_correct:
  assumes "\<forall>p\<in>positions t. - (2 ^ 31) \<le> path_sum t p \<and> path_sum t p < 2 ^ 31"
  shows "hasPathSum t target = Some (\<exists>p\<in>positions t. is_leaf (sub t p) \<and> path_sum t p = target)"
  using hasPathSum_helper [of t 0 target] assms by (simp add: hasPathSum_def)

section \<open>Levels\<close>

definition q_fresh :: "q_malloc \<Rightarrow> bool" where
  "q_fresh malloc \<longleftrightarrow> (\<forall>m. finite (dom m) \<longrightarrow> malloc m \<noteq> 0 \<and> m (malloc m) = None)"

fun chain :: "(nat \<Rightarrow> queue_node option) \<Rightarrow> nat \<Rightarrow> (nat \<times> tnode) list \<Rightarrow> bool" where
  "chain m a [] \<longleftrightarrow> a = 0"
| "chain m a ((b, t) # xs) \<longleftrightarrow> a = b \<and> b \<noteq> 0 \<and> (\<exists>n. m b = Some n \<and> qn_tree n = t \<and> chain m (qn_next n) xs)"

definition queue_rep :: "bfs_queue \<Rightarrow> (nat \<times> tnode) list \<Rightarrow> bool" where
  "queue_rep q xs \<longleftrightarrow> chain (q_mem q) (q_front q) xs \<and> distinct (map fst xs) \<and> dom (q_mem q) = fst ` set xs
     \<and> q_rear q = (if xs = [] then 0 else fst (List.last xs))"

lemma chain_frame: "b \<notin> fst ` set xs \<Longrightarrow> chain (m(b := v)) a xs = chain m a xs"
  by (induction m a xs rule: chain.induct) auto

lemma chain_nonzero: "chain m a xs \<Longrightarrow> 0 \<notin> fst ` set xs"
  by (induction m a xs rule: chain.induct) auto

lemma chain_snoc:
  assumes "chain m a xs" and "xs \<noteq> []" and "distinct (map fst xs)" and "c \<notin> fst ` set xs" and "c \<noteq> 0" and "m (fst (List.last xs)) = Some n"
  shows "chain (m(c \<mapsto> \<lparr>qn_tree = t, qn_next = 0\<rparr>, fst (List.last xs) \<mapsto> n\<lparr>qn_next := c\<rparr>)) a (xs @ [(c, t)])"
  using assms
proof (induction m a xs rule: chain.induct)
  case (2 m a b s xs)
  show ?case
  proof (cases "xs = []")
    case True
    then show ?thesis
      using 2 by auto
  next
    case False
    obtain k where k: "m b = Some k" "qn_tree k = s" "chain m (qn_next k) xs" "a = b" "b \<noteq> 0"
      using "2.prems"(1) by auto
    have "b \<noteq> fst (List.last xs)"
      using "2.prems"(3) False by (metis image_eqI last_in_set list.simps(9) distinct.simps(2) list.set_map fst_conv)
    then show ?thesis
      using "2.IH" [of k] k "2.prems" False by auto
  qed
qed simp

lemma tree_enqueue_ok:
  assumes "queue_rep q xs" and "q_fresh malloc"
  shows "\<exists>q' a. enqueue malloc q t = Some q' \<and> queue_rep q' (xs @ [(a, t)])"
proof -
  define a where "a = malloc (q_mem q)"
  have rep: "chain (q_mem q) (q_front q) xs" "distinct (map fst xs)" "dom (q_mem q) = fst ` set xs"
      "q_rear q = (if xs = [] then 0 else fst (List.last xs))"
    using assms(1) by (simp_all add: queue_rep_def)
  then have a: "a \<noteq> 0" "q_mem q a = None"
    using assms(2) by (simp_all add: q_fresh_def a_def)
  then have new: "a \<notin> fst ` set xs"
    using rep(3) by (metis domIff)
  show ?thesis
  proof (cases "xs = []")
    case True
    then show ?thesis
      using rep a(1) unfolding enqueue_def a_def [symmetric] Let_def by (simp add: queue_rep_def)
  next
    case False
    then have last: "fst (List.last xs) \<in> fst ` set xs"
      by simp
    then obtain n where n: "q_mem q (fst (List.last xs)) = Some n"
      using rep(3) by blast
    have nz: "q_rear q \<noteq> 0" "q_rear q \<noteq> a"
      using chain_nonzero [OF rep(1)] last new rep(4) False by auto
    have "chain ((q_mem q)(a \<mapsto> \<lparr>qn_tree = t, qn_next = 0\<rparr>, fst (List.last xs) \<mapsto> n\<lparr>qn_next := a\<rparr>)) (q_front q) (xs @ [(a, t)])"
      using chain_snoc [OF rep(1) False rep(2) new a(1) n] .
    moreover have "dom ((q_mem q)(a \<mapsto> \<lparr>qn_tree = t, qn_next = 0\<rparr>, fst (List.last xs) \<mapsto> n\<lparr>qn_next := a\<rparr>)) = insert a (fst ` set xs)"
      using rep(3) last by auto
    ultimately show ?thesis
      using nz n rep(2,4) new False a(1)
      by (intro exI [of _ "\<lparr>q_front = q_front q, q_rear = a,
          q_mem = (q_mem q)(a \<mapsto> \<lparr>qn_tree = t, qn_next = 0\<rparr>, fst (List.last xs) \<mapsto> n\<lparr>qn_next := a\<rparr>)\<rparr>"] exI [of _ a])
        (unfold enqueue_def a_def [symmetric] Let_def, simp add: queue_rep_def)
  qed
qed

lemma tree_dequeue_ok:
  assumes "queue_rep q ((a, t) # xs)"
  shows "\<exists>q'. dequeue q = Some (t, q') \<and> queue_rep q' xs"
proof -
  obtain n where n: "q_mem q a = Some n" "qn_tree n = t" "chain (q_mem q) (qn_next n) xs" "q_front q = a" "a \<noteq> 0"
    using assms by (auto simp: queue_rep_def)
  have "a \<notin> fst ` set xs" "distinct (map fst xs)"
    using assms by (auto simp: queue_rep_def)
  moreover have "qn_next n = 0 \<longleftrightarrow> xs = []"
    using n(3) by (cases xs) auto
  moreover have "dom ((q_mem q)(a := None)) = fst ` set xs"
    using assms \<open>a \<notin> fst ` set xs\<close> by (auto simp: queue_rep_def)
  ultimately show ?thesis
    using n assms chain_frame [of a xs "q_mem q" None "qn_next n"]
    by (simp add: dequeue_def queue_rep_def Let_def split: if_splits)
qed

lemma level_size_ok:
  assumes "queue_rep q xs" and "length xs < 2 ^ 31"
  shows "level_size q = Some (int (length xs))"
proof -
  define body where "body = (\<lambda>(temp, levelSize :: int). if temp = 0 then Some (Inr levelSize)
     else do { n \<leftarrow> q_mem q temp; levelSize \<leftarrow> chk32 (levelSize + 1); Some (Inl (qn_next n, levelSize)) })"
  have "chain (q_mem q) a ys \<Longrightarrow> k + length ys < 2 ^ 31 \<Longrightarrow> loop body (a, int k) = Some (int (k + length ys))" for a ys k
  proof (induction ys arbitrary: a k)
    case Nil
    then show ?case
      by (intro loop_stop) (simp add: body_def)
  next
    case (Cons y ys)
    obtain b t where y: "y = (b, t)" by (cases y)
    obtain n where n: "a = b" "b \<noteq> 0" "q_mem q b = Some n" "chain (q_mem q) (qn_next n) ys"
      using Cons.prems(1) y by auto
    have "body (a, int k) = Some (Inl (qn_next n, int (Suc k)))"
      using n Cons.prems(2) by (simp add: body_def chk32_def add.commute)
    then show ?case
      using Cons.IH [OF n(4), of "Suc k"] Cons.prems(2) by (simp add: loop_next)
  qed
  from this [of "q_front q" xs 0] assms show ?thesis
    by (simp add: level_size_def body_def [symmetric] queue_rep_def)
qed

text \<open>The children of a row of nodes, and the rows of a forest.\<close>

fun children :: "tnode \<Rightarrow> tnode list" where
  "children TNull = []"
| "children (TNode v l r) = filter (\<lambda>t. t \<noteq> TNull) [l, r]"

abbreviation next_row :: "tnode list \<Rightarrow> tnode list" where
  "next_row ts \<equiv> concat (map children ts)"

fun rows :: "nat \<Rightarrow> tnode list \<Rightarrow> int list list" where
  "rows 0 ts = []"
| "rows (Suc n) ts = (if ts = [] then [] else map tn_val ts # rows n (next_row ts))"

fun tree_size :: "tnode \<Rightarrow> nat" where
  "tree_size TNull = 0"
| "tree_size (TNode v l r) = Suc (tree_size l + tree_size r)"

definition forest :: "nat \<Rightarrow> tnode list \<Rightarrow> bool" where
  "forest n ts \<longleftrightarrow> TNull \<notin> set ts \<and> (\<forall>t\<in>set ts. tree_height t \<le> n)"

lemma forest_next: "forest (Suc n) ts \<Longrightarrow> forest n (next_row ts)"
proof -
  assume f: "forest (Suc n) ts"
  have "c \<noteq> TNull \<and> tree_height c \<le> n" if "t \<in> set ts" "c \<in> set (children t)" for t c
    using f that by (cases t) (fastforce simp: forest_def split: if_splits)+
  then show ?thesis
    by (auto simp: forest_def)
qed

lemma forest_size: "TNull \<notin> set ts \<Longrightarrow> sum_list (map tree_size (next_row ts)) + length ts \<le> sum_list (map tree_size ts)"
proof (induction ts)
  case (Cons t ts)
  then show ?case
    by (cases t) auto
qed simp

lemma visit_ok:
  assumes "queue_rep q ((a, TNode v l r) # xs)" and "q_fresh malloc"
  shows "\<exists>q' ys. visit malloc i (line, q) = Some (line @ [v], q') \<and> queue_rep q' (xs @ ys) \<and> map snd ys = children (TNode v l r)"
proof -
  obtain q1 where q1: "dequeue q = Some (TNode v l r, q1)" "queue_rep q1 xs"
    using tree_dequeue_ok [OF assms(1)] by blast
  have put: "\<exists>q' zs. (if t \<noteq> TNull then enqueue malloc p t else Some p) = Some q' \<and> queue_rep q' (ys @ zs) \<and> map snd zs = filter (\<lambda>t. t \<noteq> TNull) [t]"
    if p: "queue_rep p ys" for p ys t
  proof (cases "t = TNull")
    case True
    then show ?thesis
      using p by simp
  next
    case False
    obtain p' b where "enqueue malloc p t = Some p'" "queue_rep p' (ys @ [(b, t)])"
      using tree_enqueue_ok [OF p assms(2)] by blast
    then show ?thesis
      using False by (intro exI [of _ p'] exI [of _ "[(b, t)]"]) simp
  qed
  obtain q2 ys where q2: "(if l \<noteq> TNull then enqueue malloc q1 l else Some q1) = Some q2" "queue_rep q2 (xs @ ys)" "map snd ys = filter (\<lambda>t. t \<noteq> TNull) [l]"
    using put [OF q1(2)] by blast
  obtain q3 zs where q3: "(if r \<noteq> TNull then enqueue malloc q2 r else Some q2) = Some q3" "queue_rep q3 ((xs @ ys) @ zs)" "map snd zs = filter (\<lambda>t. t \<noteq> TNull) [r]"
    using put [OF q2(2)] by blast
  have "visit malloc i (line, q) = Some (line @ [v], q3)"
    unfolding visit_def using q1(1) q2(1) q3(1) by simp
  moreover have "map snd (ys @ zs) = children (TNode v l r)"
    using q2(3) q3(3) by simp
  ultimately show ?thesis
    using q3(2) by (metis append_assoc)
qed

lemma visit_row:
  assumes "q_fresh malloc"
  shows "queue_rep q (xs @ ys) \<Longrightarrow> TNull \<notin> snd ` set xs \<Longrightarrow> hi = i + int (length xs) \<Longrightarrow>
    \<exists>q' zs. for_up i hi (visit malloc) (line, q) = Some (line @ map tn_val (map snd xs), q') \<and> queue_rep q' (ys @ zs)
      \<and> map snd zs = next_row (map snd xs)"
proof (induction xs arbitrary: i line q ys)
  case Nil
  then show ?case
    by (intro exI [of _ q] exI [of _ "[]"]) (simp add: for_up_empty)
next
  case (Cons x xs)
  obtain a v l r where x: "x = (a, TNode v l r)"
    using Cons.prems(2) by (cases x; cases "snd x") auto
  obtain q1 cs where q1: "visit malloc i (line, q) = Some (line @ [v], q1)" "queue_rep q1 ((xs @ ys) @ cs)" "map snd cs = children (TNode v l r)"
    using visit_ok [OF _ assms] Cons.prems(1) x by (metis append_Cons)
  obtain q2 zs where q2: "for_up (i + 1) hi (visit malloc) (line @ [v], q1) = Some ((line @ [v]) @ map tn_val (map snd xs), q2)"
      "queue_rep q2 ((ys @ cs) @ zs)" "map snd zs = next_row (map snd xs)"
    using Cons.IH [of q1 "ys @ cs" "i + 1" "line @ [v]"] q1(2) Cons.prems(2,3) by auto
  have "for_up i hi (visit malloc) (line, q) = Some (line @ map tn_val (map snd (x # xs)), q2)"
    using q1(1) q2(1) x Cons.prems(3) by (simp add: for_up_step)
  moreover have "map snd (cs @ zs) = next_row (map snd (x # xs))"
    using q1(3) q2(3) x by simp
  ultimately show ?case
    using q2(2) by (metis append_assoc)
qed

lemma level_loop:
  assumes "q_fresh malloc"
  shows "forest n (map snd xs) \<Longrightarrow> queue_rep q xs \<Longrightarrow> sum_list (map tree_size (map snd xs)) < 2 ^ 31 \<Longrightarrow>
    loop (level_round malloc) (out, q) = Some (out @ rows n (map snd xs))"
proof (induction n arbitrary: xs q out)
  case 0
  have "tree_height t = 0 \<longleftrightarrow> t = TNull" for t
    by (cases t) auto
  then have "xs = []"
    using 0(1) unfolding forest_def by (cases xs) auto
  then have "level_round malloc (out, q) = Some (Inr out)"
    using 0(2) by (simp add: level_round_def isQueueEmpty_def queue_rep_def)
  then show ?case
    by (simp add: loop_stop)
next
  case (Suc n)
  show ?case
  proof (cases "xs = []")
    case True
    then have "level_round malloc (out, q) = Some (Inr out)"
      using Suc.prems(2) by (simp add: level_round_def isQueueEmpty_def queue_rep_def)
    then show ?thesis
      using True by (simp add: loop_stop)
  next
    case False
    have size: "sum_list (map tree_size (next_row (map snd xs))) + length xs \<le> sum_list (map tree_size (map snd xs))"
      using forest_size [of "map snd xs"] Suc.prems(1) by (simp add: forest_def)
    have front: "q_front q \<noteq> 0"
      using Suc.prems(2) False by (cases xs) (auto simp: queue_rep_def)
    have "level_size q = Some (int (length xs))"
      using level_size_ok [OF Suc.prems(2)] size Suc.prems(3) by simp
    moreover obtain q1 zs where q1: "for_up 0 (int (length xs)) (visit malloc) ([], q) = Some (map tn_val (map snd xs), q1)"
        "queue_rep q1 zs" "map snd zs = next_row (map snd xs)"
      using visit_row [OF assms, of q xs "[]" "int (length xs)" 0 "[]"] Suc.prems by (auto simp: forest_def)
    ultimately have "level_round malloc (out, q) = Some (Inl (out @ [map tn_val (map snd xs)], q1))"
      using front by (simp add: level_round_def isQueueEmpty_def)
    then show ?thesis
      using Suc.IH [of zs q1 "out @ [map tn_val (map snd xs)]"] q1 forest_next [OF Suc.prems(1)] size Suc.prems(3) False
      by (simp add: loop_next)
  qed
qed

text \<open>The recursive traversal.\<close>

lemma getHeight_eq: "tree_height t < 2 ^ 31 \<Longrightarrow> getHeight t = Some (int (tree_height t))"
  by (induction t) (auto simp: chk32_def max_def)

lemma print_first: "t \<noteq> TNull \<Longrightarrow> printGivenLevel t 1 = [tn_val t]"
  by (cases t) auto

lemma print_below: "printGivenLevel t (int (Suc (Suc k))) = concat (map (\<lambda>c. printGivenLevel c (int (Suc k))) (children t))"
  by (cases t) auto

lemma rows_eq: "forest n ts \<Longrightarrow> rows n ts = map (\<lambda>k. concat (map (\<lambda>t. printGivenLevel t (int (Suc k))) ts)) [0..<Max (insert 0 (tree_height ` set ts))]"
proof (induction n arbitrary: ts)
  case 0
  have "tree_height t = 0 \<longleftrightarrow> t = TNull" for t
    by (cases t) auto
  then have "ts = []"
    using 0 unfolding forest_def by (cases ts) auto
  then show ?case
    by simp
next
  case (Suc n)
  show ?case
  proof (cases "ts = []")
    case False
    have nn: "t \<noteq> TNull" if "t \<in> set ts" for t
      using Suc.prems that by (auto simp: forest_def)
    define M where "M = Max (insert 0 (tree_height ` set (next_row ts)))"
    have h: "tree_height t = Suc (Max (insert 0 (tree_height ` set (children t))))" if "t \<noteq> TNull" for t
      using that by (cases t) auto
    have "Max (insert 0 (tree_height ` set ts)) = Suc M"
    proof (rule Max_eqI)
      show "y \<le> Suc M" if y: "y \<in> insert 0 (tree_height ` set ts)" for y
      proof (cases "y = 0")
        case False
        then obtain t where t: "t \<in> set ts" "y = tree_height t"
          using y by auto
        have "Max (insert 0 (tree_height ` set (children t))) \<le> M"
          unfolding M_def using t by (intro Max_mono) auto
        then show ?thesis
          using h [OF nn [OF t(1)]] t(2) by simp
      qed simp
      show "Suc M \<in> insert 0 (tree_height ` set ts)"
      proof (cases "M = 0")
        case True
        obtain t where t: "t \<in> set ts"
          using False by (cases ts) auto
        have "Max (insert 0 (tree_height ` set (children t))) \<le> M"
          unfolding M_def using t by (intro Max_mono) auto
        then have "tree_height t = Suc M"
          using h [OF nn [OF t]] True by simp
        then show ?thesis
          using t by (metis imageI insertCI)
      next
        case nz: False
        have "M \<in> insert 0 (tree_height ` set (next_row ts))"
          unfolding M_def by (rule Max_in) auto
        then obtain t c where t: "t \<in> set ts" "c \<in> set (children t)" "tree_height c = M"
          using nz by auto
        have "M \<le> Max (insert 0 (tree_height ` set (children t)))"
          using t(2,3) by (intro Max_ge) auto
        moreover have "Max (insert 0 (tree_height ` set (children t))) \<le> M"
          unfolding M_def using t(1) by (intro Max_mono) auto
        ultimately have "tree_height t = Suc M"
          using h [OF nn [OF t(1)]] by simp
        then show ?thesis
          using t(1) by (metis imageI insertCI)
      qed
    qed simp
    moreover have "concat (map (\<lambda>t. printGivenLevel t (int (Suc 0))) ts) = map tn_val ts"
      using nn by (induction ts) (auto simp: print_first)
    moreover have "concat (map (\<lambda>t. printGivenLevel t (int (Suc (Suc k)))) ts)
        = concat (map (\<lambda>t. printGivenLevel t (int (Suc k))) (next_row ts))" for k
      by (induction ts) (auto simp only: print_below concat.simps list.simps map_append concat_append)
    ultimately show ?thesis
      using False Suc.IH [OF forest_next [OF Suc.prems]] unfolding M_def
      by (simp add: upt_conv_Cons map_Suc_upt [symmetric] del: upt_Suc of_nat_Suc)
  qed simp
qed

fun tree_row :: "nat \<Rightarrow> tnode \<Rightarrow> int list" where
  "tree_row k TNull = []"
| "tree_row 0 (TNode v l r) = [v]"
| "tree_row (Suc k) (TNode v l r) = tree_row k l @ tree_row k r"

lemma print_row: "printGivenLevel t (int (Suc k)) = tree_row k t"
  by (induction k t rule: tree_row.induct) auto

lemma tree_row_values: "set (tree_row k t) = value_at t ` {p \<in> positions t. length p = k}"
proof (induction k t rule: tree_row.induct)
  case (2 v l r)
  have "{p \<in> positions (TNode v l r). length p = 0} = {[]}"
    by auto
  then show ?case
    by simp
next
  case (3 k v l r)
  have "{p \<in> positions (TNode v l r). length p = Suc k} = (#) False ` {p \<in> positions l. length p = k} \<union> (#) True ` {p \<in> positions r. length p = k}"
    by (auto simp: positions.simps)
  then show ?case
    using 3 by (simp add: image_Un image_image)
qed simp

lemma for_up_lines:
  "for_up (int a) (int (a + n)) (\<lambda>i out. Some (out @ [f i])) out = Some (out @ map (\<lambda>k. f (int k)) [a..<a + n])"
proof (induction n arbitrary: a out)
  case 0
  then show ?case
    by (simp add: for_up_empty)
next
  case (Suc n)
  have "for_up (int a) (int (a + Suc n)) (\<lambda>i out. Some (out @ [f i])) out
      = for_up (int (Suc a)) (int (Suc a + n)) (\<lambda>i out. Some (out @ [f i])) (out @ [f (int a)])"
    by (simp add: for_up_step add.commute)
  also have "\<dots> = Some (out @ map (\<lambda>k. f (int k)) [a..<a + Suc n])"
    unfolding Suc.IH by (simp add: upt_conv_Cons del: upt_Suc)
  finally show ?case .
qed

lemma recursive_rows: "tree_height t < 2 ^ 30 \<Longrightarrow> level_order_recursive t = Some (map (\<lambda>k. tree_row k t) [0..<tree_height t])"
  using for_up_lines [of 1 "tree_height t" "printGivenLevel t" "[]"]
  by (simp add: level_order_recursive_def getHeight_eq print_row [symmetric] map_Suc_upt [symmetric] add.commute del: upt_Suc map_map)
    (simp add: comp_def)

lemma height_size: "tree_height t \<le> tree_size t"
  by (induction t) auto

text \<open>C36: The traversal with the queue and the recursive one print the same lines, one for each level from the root on; line \<open>k\<close> holds the
  values of the nodes at depth \<open>k\<close>, from left to right.\<close>

theorem levels_agree:
  assumes "q_fresh malloc" and "tree_size t < 2 ^ 30"
  shows "level_order_traversal malloc True t = level_order_recursive t
    \<and> level_order_recursive t = Some (map (\<lambda>k. tree_row k t) [0..<tree_height t])
    \<and> (\<forall>k. set (tree_row k t) = value_at t ` {p \<in> positions t. length p = k})"
proof (cases "t = TNull")
  case True
  then show ?thesis
    by (simp add: level_order_traversal_def level_order_recursive_def for_up_empty)
next
  case False
  define q0 :: bfs_queue where "q0 = \<lparr>q_front = 0, q_rear = 0, q_mem = Map.empty\<rparr>"
  have "queue_rep q0 []"
    by (simp add: queue_rep_def q0_def)
  then obtain q a where q: "enqueue malloc q0 t = Some q" "queue_rep q [(a, t)]"
    using tree_enqueue_ok [OF _ assms(1), of q0 "[]" t] by auto
  have forest: "forest (tree_height t) [t]"
    using False by (auto simp: forest_def)
  have "loop (level_round malloc) ([], q) = Some (rows (tree_height t) [t])"
    using level_loop [OF assms(1), of "tree_height t" "[(a, t)]" q "[]"] forest q(2) assms(2) by simp
  then have "level_order_traversal malloc True t = Some (rows (tree_height t) [t])"
    using False q(1) by (simp add: level_order_traversal_def create_queue_def q0_def [symmetric])
  moreover have "rows (tree_height t) [t] = map (\<lambda>k. tree_row k t) [0..<tree_height t]"
    using rows_eq [OF forest] by (simp add: print_row del: of_nat_Suc)
  ultimately show ?thesis
    using recursive_rows [of t] height_size [of t] assms(2) tree_row_values by simp
qed

section \<open>The trees of the demonstrations\<close>

text \<open>The tree that 04 and 06 build, and the malloc that answers the first free address.\<close>

definition sample_tree :: tnode where
  "sample_tree = TNode 1 (TNode 2 (TNode 4 TNull TNull) (TNode 5 TNull TNull)) (TNode 3 TNull (TNode 6 TNull (TNode 9 TNull TNull)))"

definition first_free :: q_malloc where
  "first_free m = (LEAST a. a \<noteq> 0 \<and> m a = None)"

lemma first_free_ok: "q_fresh first_free"
  unfolding q_fresh_def
proof (intro allI impI)
  fix m :: "nat \<Rightarrow> queue_node option" assume "finite (dom m)"
  then obtain a where "a \<notin> insert 0 (dom m)"
    using ex_new_if_finite [of "insert 0 (dom m)"] infinite_UNIV_nat by blast
  then have "a \<noteq> 0 \<and> m a = None"
    by (auto simp: domIff)
  then show "first_free m \<noteq> 0 \<and> m (first_free m) = None"
    unfolding first_free_def by (rule LeastI)
qed

theorem levels_agree_witness: "level_order_traversal first_free True sample_tree = Some [[1], [2, 3], [4, 5, 6], [9]]"
proof -
  have "tree_size sample_tree < 2 ^ 30" "level_order_recursive sample_tree = Some [[1], [2, 3], [4, 5, 6], [9]]"
    by (simp_all add: sample_tree_def level_order_recursive_def chk32_def for_up_step for_up_empty)
  then show ?thesis
    using levels_agree [OF first_free_ok] by simp
qed

theorem diameter_correct_witness:
  "diameterOfBinaryTree sample_tree = Some 5 \<and> edges [False, False] [True, True, True] = 5
    \<and> (\<forall>p\<in>positions sample_tree. \<forall>q\<in>positions sample_tree. edges p q \<le> 5)"
proof -
  have d: "diameterOfBinaryTree sample_tree = Some 5" "sample_tree \<noteq> TNull" "2 * tree_height sample_tree < 2 ^ 31"
    by (simp_all add: sample_tree_def diameterOfBinaryTree_def chk32_def)
  then show ?thesis
    using diameter_correct [OF d(2,3)] by auto
qed

theorem shortestDistance_correct_witness:
  "shortestDistance sample_tree 4 9 = Some 5 \<and> shortestDistance sample_tree 7 8 = Some (-2)"
proof -
  have t: "distinct_values sample_tree" "2 * tree_height sample_tree < 2 ^ 31"
    by (auto simp: sample_tree_def distinct_TNode) (simp_all add: distinct_values_def)
  have p: "[False, False] \<in> positions sample_tree" "[True, True, True] \<in> positions sample_tree"
      "value_at sample_tree [False, False] = 4" "value_at sample_tree [True, True, True] = 9"
    and none: "7 \<notin> tree_values sample_tree" "8 \<notin> tree_values sample_tree"
    by (simp_all add: sample_tree_def)
  have "shortestDistance sample_tree 4 9 = Some (int (edges [False, False] [True, True, True]))"
    using shortestDistance_correct [OF t] p by metis
  then show ?thesis
    using shortestDistance_correct [OF t] none by simp
qed

theorem hasPathSum_correct_witness: "hasPathSum sample_tree 19 = Some True \<and> hasPathSum sample_tree 3 = Some False"
proof -
  have range: "\<forall>p\<in>positions sample_tree. - (2 ^ 31) \<le> path_sum sample_tree p \<and> path_sum sample_tree p < 2 ^ 31"
    by (simp add: sample_tree_def positions.simps)
  have "(\<exists>p\<in>positions sample_tree. is_leaf (sub sample_tree p) \<and> path_sum sample_tree p = 19)"
    "\<not> (\<exists>p\<in>positions sample_tree. is_leaf (sub sample_tree p) \<and> path_sum sample_tree p = 3)"
    by (simp_all add: sample_tree_def bex_positions is_leaf_def)
  then show ?thesis
    using hasPathSum_correct [OF range] by simp
qed

end
