(* ===== verification/Windows.thy ===== *)
theory Windows
  imports Loops
begin

text \<open>
  The programs on strings of C/job_interview that count characters: 03_is_anagram.c, 15_min_coverage_substring.c (the shortest part of
  a string that contains the characters of another one, twice) and 25_longest_non_repeat_substr.c (the longest part without a
  repetition, twice). A string is the list of its characters before the terminating zero; \<open>char\<close> is signed, so a
  character above 127 is a negative index.
\<close>

section \<open>Anagrams\<close>

text \<open>\<open>count[(unsigned char) c] += d\<close>\<close>

definition bump_count :: "int \<Rightarrow> u8 \<Rightarrow> int list \<Rightarrow> int list option" where
  "bump_count d c cnt = do {
     x \<leftarrow> rd cnt (uint c);
     x \<leftarrow> chk32 (x + d);
     wr cnt (uint c) x }"

fun count_up :: "bytes \<Rightarrow> int list \<Rightarrow> int list option" where
  "count_up [] cnt = Some cnt"
| "count_up (c # s) cnt = do { cnt \<leftarrow> bump_count 1 c cnt; count_up s cnt }"

fun count_down :: "bytes \<Rightarrow> int list \<Rightarrow> bool option" where
  "count_down [] cnt = Some True"
| "count_down (c # s) cnt = do {
     cnt \<leftarrow> bump_count (-1) c cnt;
     x \<leftarrow> rd cnt (uint c);
     if x < 0 then Some False else count_down s cnt }"

definition isAnagram :: "bytes \<Rightarrow> bytes \<Rightarrow> bool option" where
  "isAnagram s1 s2 =
     (if length s1 \<noteq> length s2 then Some False
      else do {
        cnt \<leftarrow> count_up s1 (replicate 256 0);
        count_down s2 cnt })"

section \<open>The longest part without a repetition\<close>

text \<open>A string longer than the range of \<open>int\<close> has no length or no last index, and is undefined. A round of the two loops, for the character at \<open>end\<close>; the state is the table of the last positions, the start of the
  window and the greatest length.\<close>

definition longest_round_1 :: "bytes \<Rightarrow> int \<Rightarrow> int list \<times> int \<times> int \<Rightarrow> (int list \<times> int \<times> int) option" where
  "longest_round_1 s end = (\<lambda>(lastIndex, start, maxLen). do {
     c \<leftarrow> rd s end;
     k \<leftarrow> rd lastIndex (sint c);
     let start = (if k \<noteq> -1 \<and> k \<ge> start then k + 1 else start);
     lastIndex \<leftarrow> wr lastIndex (sint c) end;
     let currentLen = end - start + 1;
     Some (lastIndex, start, if currentLen > maxLen then currentLen else maxLen) })"

definition lengthOfLongestSubstring_1 :: "bytes \<Rightarrow> int option" where
  "lengthOfLongestSubstring_1 s =
     (if s = [] then Some 0
      else do {
        n \<leftarrow> chk32 (int (length s));
        (_, _, maxLen) \<leftarrow> for_up 0 n (longest_round_1 s) (replicate 256 (-1), 0, 0);
        Some maxLen })"

definition longest_round_2 :: "bytes \<Rightarrow> int \<Rightarrow> int list \<times> int \<times> int \<Rightarrow> (int list \<times> int \<times> int) option" where
  "longest_round_2 s right = (\<lambda>(index, left, max_len). do {
     c \<leftarrow> rd s right;
     k \<leftarrow> rd index (sint c);
     let left = (if k \<ge> left then k + 1 else left);
     index \<leftarrow> wr index (sint c) right;
     let current_len = right - left + 1;
     Some (index, left, if current_len > max_len then current_len else max_len) })"

definition lengthOfLongestSubstring_2 :: "bytes \<Rightarrow> int option" where
  "lengthOfLongestSubstring_2 s = do {
     n \<leftarrow> chk32 (int (length s));
     (_, _, max_len) \<leftarrow> for_up 0 n (longest_round_2 s) (replicate 128 (-1), 0, 0);
     Some max_len }"

section \<open>The shortest part that covers another string\<close>

text \<open>\<open>table[c] += d\<close>\<close>

definition tally :: "int \<Rightarrow> u8 \<Rightarrow> int list \<Rightarrow> int list option" where
  "tally d c cnt = do {
     x \<leftarrow> rd cnt (sint c);
     x \<leftarrow> chk32 (x + d);
     wr cnt (sint c) x }"

fun frequencies :: "bytes \<Rightarrow> int list \<Rightarrow> int list option" where
  "frequencies [] cnt = Some cnt"
| "frequencies (c # t) cnt = do { cnt \<leftarrow> tally 1 c cnt; frequencies t cnt }"

text \<open>The counter \<open>formed\<close> and the counts of the window when a character enters and when one leaves: in \<open>minWindow\<close> \<open>formed\<close>
  counts characters, in \<open>minWindow_self\<close> it counts the different characters that are there often enough.\<close>

definition enter_total :: "int list \<Rightarrow> u8 \<Rightarrow> int \<times> int list \<Rightarrow> (int \<times> int list) option" where
  "enter_total tCount c = (\<lambda>(formed, windowCount). do {
     windowCount \<leftarrow> tally 1 c windowCount;
     n \<leftarrow> rd tCount (sint c);
     w \<leftarrow> rd windowCount (sint c);
     Some (if n > 0 \<and> w \<le> n then formed + 1 else formed, windowCount) })"

definition enter_kinds :: "int list \<Rightarrow> u8 \<Rightarrow> int \<times> int list \<Rightarrow> (int \<times> int list) option" where
  "enter_kinds t_freq c = (\<lambda>(formed, window). do {
     window \<leftarrow> tally 1 c window;
     n \<leftarrow> rd t_freq (sint c);
     w \<leftarrow> rd window (sint c);
     Some (if n > 0 \<and> n = w then formed + 1 else formed, window) })"

definition leave_window :: "int list \<Rightarrow> u8 \<Rightarrow> int \<times> int list \<Rightarrow> (int \<times> int list) option" where
  "leave_window tCount c = (\<lambda>(formed, windowCount). do {
     windowCount \<leftarrow> tally (-1) c windowCount;
     n \<leftarrow> rd tCount (sint c);
     w \<leftarrow> rd windowCount (sint c);
     Some (if n > 0 \<and> w < n then formed - 1 else formed, windowCount) })"

type_synonym window = "int \<times> (int \<times> int list) \<times> int \<times> int"

text \<open>The two loops: a character enters on the right, and characters leave on the left while the window covers the string.\<close>

definition shrink_round :: "bytes \<Rightarrow> int list \<Rightarrow> int \<Rightarrow> int \<Rightarrow> window \<Rightarrow> (window + window) option" where
  "shrink_round s tCount required right = (\<lambda>(left, (formed, windowCount), minLen, minLeft).
     if left \<le> right \<and> formed = required then do {
       let (minLen, minLeft) = (if right - left + 1 < minLen then (right - left + 1, left) else (minLen, minLeft));
       c \<leftarrow> rd s left;
       st \<leftarrow> leave_window tCount c (formed, windowCount);
       Some (Inl (left + 1, st, minLen, minLeft)) }
     else Some (Inr (left, (formed, windowCount), minLen, minLeft)))"

definition grow_round :: "bytes \<Rightarrow> int list \<Rightarrow> int \<Rightarrow> (u8 \<Rightarrow> int \<times> int list \<Rightarrow> (int \<times> int list) option) \<Rightarrow> int \<Rightarrow> window \<Rightarrow> window option" where
  "grow_round s tCount required enter right = (\<lambda>(left, st, minLen, minLeft). do {
     c \<leftarrow> rd s right;
     st \<leftarrow> enter c st;
     loop (shrink_round s tCount required right) (left, st, minLen, minLeft) })"

definition part :: "bytes \<Rightarrow> int \<Rightarrow> int \<Rightarrow> bytes" where
  "part s from len = take (nat len) (drop (nat from) s)"

text \<open>\<open>NULL\<close> is \<open>None\<close>. A result that is not allocated is not modelled.\<close>

definition minWindow :: "bytes option \<Rightarrow> bytes option \<Rightarrow> bytes option" where
  "minWindow s t = (case (s, t) of
     (Some s, Some t) \<Rightarrow>
       (if length s < length t then Some []
        else do {
          tCount \<leftarrow> frequencies t (replicate 128 0);
          let required = int (length t);
          n \<leftarrow> chk32 (int (length s));
          (left, st, minLen, minLeft) \<leftarrow> for_up 0 n (grow_round s tCount required (enter_total tCount))
            (0, (0, replicate 128 0), 2147483647, 0);
          Some (if minLen = 2147483647 then [] else part s minLeft minLen) })
   | _ \<Rightarrow> Some [])"

definition kinds :: "int list \<Rightarrow> int" where
  "kinds t_freq = int (length (filter (\<lambda>n. n > 0) t_freq))"

definition minWindow_self :: "bytes option \<Rightarrow> bytes option \<Rightarrow> bytes option" where
  "minWindow_self s t = (case (s, t) of
     (Some s, Some t) \<Rightarrow>
       (if length s < length t then Some []
        else do {
          t_freq \<leftarrow> frequencies t (replicate 128 0);
          let require = kinds t_freq;
          n \<leftarrow> chk32 (int (length s));
          (left, st, min_len, min_left) \<leftarrow> for_up 0 n (grow_round s t_freq require (enter_kinds t_freq))
            (0, (0, replicate 128 0), 65535, 0);
          Some (if min_len = 65535 then [] else part s min_left min_len) })
   | _ \<Rightarrow> Some [])"

section \<open>Tables of counts\<close>

definition table :: "nat \<Rightarrow> int list \<Rightarrow> u8 multiset \<Rightarrow> bool" where
  "table n cnt W \<longleftrightarrow> length cnt = n \<and> (\<forall>c. unat c < n \<longrightarrow> cnt ! unat c = int (count W c))"

text \<open>The characters that are not negative.\<close>

definition ascii :: "u8 \<Rightarrow> bool" where
  "ascii c \<longleftrightarrow> unat c < 128"

lemma ascii_index: "ascii c \<Longrightarrow> sint c = uint c"
proof -
  assume "ascii c"
  then have "uint c < 128"
    using of_nat_less_iff [of "unat c" 128, where ?'a = int] by (simp add: ascii_def)
  moreover have "0 \<le> uint c"
    by simp
  then have "-128 \<le> uint c"
    by linarith
  ultimately show ?thesis
    using signed_take_bit_int_eq_self [of 7 "uint c"] by (simp add: sint_uint)
qed

lemma rd_uint: "unat c < length xs \<Longrightarrow> rd xs (uint c) = Some (xs ! unat c)"
  using rd_of_nat [of "unat c" xs] by simp

lemma wr_uint: "unat c < length xs \<Longrightarrow> wr xs (uint c) v = Some (xs[unat c := v])"
  using wr_of_nat [of "unat c" xs] by simp

lemma table_empty: "n \<le> 256 \<Longrightarrow> table n (replicate n 0) {#}"
  by (simp add: table_def)

lemma table_rd: "table n cnt W \<Longrightarrow> unat c < n \<Longrightarrow> rd cnt (uint c) = Some (int (count W c))"
  by (simp add: table_def rd_uint)

lemma table_wr:
  assumes "table n cnt W" and "unat c < n"
  shows "\<exists>cnt'. wr cnt (uint c) (int (count V c)) = Some cnt' \<and> ((\<forall>b. b \<noteq> c \<longrightarrow> count V b = count W b) \<longrightarrow> table n cnt' V)"
proof -
  have "unat c = unat b \<longleftrightarrow> b = c" for b :: u8
    by (auto simp: word_unat_eq_iff)
  then show ?thesis
    using assms by (simp add: table_def wr_uint nth_list_update)
qed

lemma count_small: "size W < N \<Longrightarrow> count W c < N"
  using count_le_size [of W c] by simp

lemma table_add:
  assumes "table n cnt W" and "unat c < n" and "size W < 2 ^ 31 - 1"
  shows "\<exists>cnt'. do { x \<leftarrow> rd cnt (uint c); x \<leftarrow> chk32 (x + 1); wr cnt (uint c) x } = Some cnt' \<and> table n cnt' (add_mset c W)"
proof -
  have "count W c < 2 ^ 31 - 1"
    using count_small [OF assms(3)] .
  then show ?thesis
    using table_rd [OF assms(1,2)] table_wr [OF assms(1,2), of "add_mset c W"] by (auto simp: chk32_def add.commute)
qed

lemma table_remove:
  assumes "table n cnt W" and "unat c < n" and "c \<in># W" and "size W < 2 ^ 31"
  shows "\<exists>cnt'. do { x \<leftarrow> rd cnt (uint c); x \<leftarrow> chk32 (x + (-1)); wr cnt (uint c) x } = Some cnt' \<and> table n cnt' (W - {#c#})"
proof -
  have "count W c < 2 ^ 31" "0 < count W c"
    using count_small [OF assms(4)] assms(3) by simp_all
  then show ?thesis
    using table_rd [OF assms(1,2)] table_wr [OF assms(1,2), of "W - {#c#}"] by (auto simp: chk32_def of_nat_diff)
qed

section \<open>Anagrams\<close>

lemma unat_8: "unat (c :: u8) < 256"
  using unsigned_less [of c, where ?'a = nat] by simp

lemma count_up_ok: "table 256 cnt W \<Longrightarrow> size W + length s < 2 ^ 31 \<Longrightarrow> \<exists>cnt'. count_up s cnt = Some cnt' \<and> table 256 cnt' (W + mset s)"
proof (induction s arbitrary: cnt W)
  case (Cons c s)
  obtain cnt' where cnt': "bump_count 1 c cnt = Some cnt'" "table 256 cnt' (add_mset c W)"
    using table_add [OF Cons.prems(1) unat_8, of c] Cons.prems(2) by (auto simp: bump_count_def)
  then show ?case
    using Cons.IH [OF cnt'(2)] Cons.prems(2) by simp
qed simp

lemma count_down_ok: "table 256 cnt W \<Longrightarrow> size W < 2 ^ 31 \<Longrightarrow> count_down s cnt = Some (mset s \<subseteq># W)"
proof (induction s arbitrary: cnt W)
  case (Cons c s)
  show ?case
  proof (cases "c \<in># W")
    case True
    then obtain cnt' where cnt': "bump_count (-1) c cnt = Some cnt'" "table 256 cnt' (W - {#c#})"
      using table_remove [OF Cons.prems(1) unat_8, of c] Cons.prems(2) by (auto simp: bump_count_def)
    moreover have "rd cnt' (uint c) = Some (int (count (W - {#c#}) c))"
      using table_rd [OF cnt'(2) unat_8, of c] by simp
    moreover obtain k where "count W c = Suc k"
      using True by (metis count_eq_zero_iff not0_implies_Suc)
    ultimately show ?thesis
      using Cons.IH [OF cnt'(2)] Cons.prems(2) True by (simp add: size_Diff_singleton insert_subset_eq_iff)
  next
    case False
    then have "count W c = 0"
      by (simp add: not_in_iff)
    then have "rd cnt (uint c) = Some 0" "unat c < length cnt"
      using table_rd [OF Cons.prems(1) unat_8, of c] Cons.prems(1) unat_8 [of c] by (simp_all add: table_def)
    then have "\<exists>cnt'. bump_count (-1) c cnt = Some cnt' \<and> rd cnt' (uint c) = Some (-1)"
      by (simp add: bump_count_def chk32_def wr_uint rd_uint)
    moreover have "\<not> mset (c # s) \<subseteq># W"
      using False by (metis insert_subset_eq_iff mset.simps(2))
    ultimately show ?thesis
      by auto
  qed
qed simp

text \<open>\<open>isAnagram\<close> tells whether the strings have the same characters, each as often.\<close>

theorem isAnagram_correct:
  assumes "length s1 < 2 ^ 31"
  shows "isAnagram s1 s2 = Some (mset s1 = mset s2)"
proof (cases "length s1 = length s2")
  case True
  obtain cnt where cnt: "count_up s1 (replicate 256 0) = Some cnt" "table 256 cnt (mset s1)"
    using count_up_ok [OF table_empty [of 256], of s1] assms by auto
  have "mset s2 \<subseteq># mset s1 \<longleftrightarrow> mset s1 = mset s2"
    using True mset_subset_size [of "mset s2" "mset s1"] by (auto simp: subset_mset.le_less)
  then show ?thesis
    using True cnt count_down_ok [OF cnt(2), of s2] assms by (simp add: isAnagram_def)
next
  case False
  then have "mset s1 \<noteq> mset s2"
    by (metis size_mset)
  then show ?thesis
    using False by (simp add: isAnagram_def)
qed

section \<open>No repetition\<close>

definition unrepeated :: "bytes \<Rightarrow> nat \<Rightarrow> nat \<Rightarrow> bool" where
  "unrepeated s i j \<longleftrightarrow> i \<le> j \<and> j \<le> length s \<and> distinct (take (j - i) (drop i s))"

lemma unrepeated_iff: "unrepeated s i j \<longleftrightarrow> i \<le> j \<and> j \<le> length s \<and> (\<forall>a b. i \<le> a \<longrightarrow> a < b \<longrightarrow> b < j \<longrightarrow> s ! a \<noteq> s ! b)"
proof (cases "i \<le> j \<and> j \<le> length s")
  case True
  have nth: "take (j - i) (drop i s) ! (a - i) = s ! a" if "i \<le> a" "a < j" for a
    using that True by simp
  show ?thesis
  proof
    assume d: "unrepeated s i j"
    have "s ! a \<noteq> s ! b" if "i \<le> a" "a < b" "b < j" for a b
      using d that True nth [of a] nth [of b] nth_eq_iff_index_eq [of "take (j - i) (drop i s)" "a - i" "b - i"]
      by (simp add: unrepeated_def)
    then show "i \<le> j \<and> j \<le> length s \<and> (\<forall>a b. i \<le> a \<longrightarrow> a < b \<longrightarrow> b < j \<longrightarrow> s ! a \<noteq> s ! b)"
      using True by simp
  next
    assume r: "i \<le> j \<and> j \<le> length s \<and> (\<forall>a b. i \<le> a \<longrightarrow> a < b \<longrightarrow> b < j \<longrightarrow> s ! a \<noteq> s ! b)"
    then have "s ! (i + a) \<noteq> s ! (i + b)" if "a < b" "b < j - i" for a b
      using that by simp
    then have "s ! (i + a) \<noteq> s ! (i + b)" if "a \<noteq> b" "a < j - i" "b < j - i" for a b
      using that by (metis nat_neq_iff)
    then have "distinct (take (j - i) (drop i s))"
      using True unfolding distinct_conv_nth by simp
    then show "unrepeated s i j"
      using True by (simp add: unrepeated_def)
  qed
qed (auto simp: unrepeated_def)

text \<open>The table of the last positions after \<open>e\<close> characters.\<close>

definition last_table :: "nat \<Rightarrow> int list \<Rightarrow> bytes \<Rightarrow> nat \<Rightarrow> bool" where
  "last_table n ix s e \<longleftrightarrow> length ix = n \<and> (\<forall>k<e. int k \<le> ix ! unat (s ! k))
     \<and> (\<forall>c. unat c < n \<longrightarrow> ix ! unat c = -1 \<or> (\<exists>k<e. ix ! unat c = int k \<and> s ! k = c))"

definition longest_inv :: "nat \<Rightarrow> bytes \<Rightarrow> nat \<Rightarrow> int list \<times> int \<times> int \<Rightarrow> bool" where
  "longest_inv n s e = (\<lambda>(ix, start, m). last_table n ix s e \<and> (\<exists>a b d. start = int a \<and> m = int b
     \<and> unrepeated s a e \<and> (a = 0 \<or> (\<exists>k. a \<le> k \<and> k < e \<and> s ! k = s ! (a - 1)))
     \<and> unrepeated s d (d + b) \<and> d + b \<le> e \<and> (\<forall>i j. j \<le> e \<longrightarrow> unrepeated s i j \<longrightarrow> j - i \<le> b)))"

lemma window_step:
  assumes "unrepeated s a e" and "a = 0 \<or> (\<exists>k. a \<le> k \<and> k < e \<and> s ! k = s ! (a - 1))" and "e < length s"
    and last: "\<forall>k<e. s ! k = s ! e \<longrightarrow> int k \<le> x" and x: "x = -1 \<or> (\<exists>k<e. x = int k \<and> s ! k = s ! e)"
    and a': "int a' = (if x \<ge> int a then x + 1 else int a)"
  shows "unrepeated s a' (Suc e)" and "a' = 0 \<or> (\<exists>k. a' \<le> k \<and> k < Suc e \<and> s ! k = s ! (a' - 1))"
    and "unrepeated s i (Suc e) \<Longrightarrow> a' \<le> i" and "a \<le> a'" and "a' \<le> e"
proof -
  have u: "a \<le> e" "\<And>i j. a \<le> i \<Longrightarrow> i < j \<Longrightarrow> j < e \<Longrightarrow> s ! i \<noteq> s ! j"
    using assms(1) by (auto simp: unrepeated_iff)
  show "a \<le> a'" "a' \<le> e"
    using a' x u(1) by (auto split: if_splits)
  have new: "s ! k \<noteq> s ! e" if "a' \<le> k" "k < e" for k
    using last that a' by (force split: if_splits)
  have "s ! i \<noteq> s ! j" if "a' \<le> i" "i < j" "j < Suc e" for i j
    using u(2) [of i j] new [of i] that \<open>a \<le> a'\<close> by (cases "j = e") auto
  then show "unrepeated s a' (Suc e)"
    using \<open>a' \<le> e\<close> assms(3) unfolding unrepeated_iff by simp
  show min: "a' = 0 \<or> (\<exists>k. a' \<le> k \<and> k < Suc e \<and> s ! k = s ! (a' - 1))"
  proof (cases "x \<ge> int a")
    case True
    then obtain k where k: "k < e" "x = int k" "s ! k = s ! e"
      using x by auto
    then have "a' = Suc k"
      using a' True by simp
    then show ?thesis
      using k by (intro disjI2 exI [of _ e]) simp
  next
    case False
    then show ?thesis
      using a' assms(2) less_SucI by (simp, blast)
  qed
  show "a' \<le> i" if i: "unrepeated s i (Suc e)"
  proof (rule ccontr)
    assume "\<not> a' \<le> i"
    then obtain k where "a' \<le> k" "k < Suc e" "s ! k = s ! (a' - 1)"
      using min by auto
    moreover have "s ! (a' - 1) \<noteq> s ! k"
      using i \<open>\<not> a' \<le> i\<close> \<open>a' \<le> k\<close> \<open>k < Suc e\<close> by (auto simp: unrepeated_iff)
    ultimately show False
      by simp
  qed
qed

lemma last_table_rd: "last_table n ix s e \<Longrightarrow> unat c < n \<Longrightarrow> rd ix (uint c) = Some (ix ! unat c)"
  by (simp add: last_table_def rd_uint)

lemma last_table_wr:
  assumes "last_table n ix s e" and "unat (s ! e) < n"
  shows "\<exists>ix'. wr ix (uint (s ! e)) (int e) = Some ix' \<and> last_table n ix' s (Suc e)"
proof -
  have eq: "unat c = unat b \<longleftrightarrow> b = c" for b c :: u8
    by (auto simp: word_unat_eq_iff)
  have "int k \<le> (if s ! k = s ! e then int e else ix ! unat (s ! k))" if "k < Suc e" for k
    using assms(1) that by (cases "k = e") (auto simp: last_table_def)
  moreover have "(if c = s ! e then int e else ix ! unat c) = -1 \<or> (\<exists>k<Suc e. (if c = s ! e then int e else ix ! unat c) = int k \<and> s ! k = c)"
    if "unat c < n" for c
    using assms(1) that by (cases "c = s ! e") (auto simp: last_table_def intro: less_SucI)
  ultimately show ?thesis
    using assms by (auto simp: last_table_def wr_uint nth_list_update eq)
qed

text \<open>Both rounds keep the invariant.\<close>

lemma longest_step:
  assumes inv: "longest_inv n s e (ix, start, m)" and "e < length s" and "unat (s ! e) < n"
    and k: "k = ix ! unat (s ! e)" and start': "start' = (if k \<ge> start then k + 1 else start)"
    and m': "m' = (if int e - start' + 1 > m then int e - start' + 1 else m)" and ix': "wr ix (uint (s ! e)) (int e) = Some ix'"
  shows "longest_inv n s (Suc e) (ix', start', m')" and "0 \<le> start"
proof -
  obtain a b d where ab: "last_table n ix s e" "start = int a" "m = int b" "unrepeated s a e"
      "a = 0 \<or> (\<exists>k. a \<le> k \<and> k < e \<and> s ! k = s ! (a - 1))" "unrepeated s d (d + b)" "d + b \<le> e"
      "\<forall>i j. j \<le> e \<longrightarrow> unrepeated s i j \<longrightarrow> j - i \<le> b"
    using inv by (auto simp: longest_inv_def)
  show "0 \<le> start"
    using ab(2) by simp
  have last: "\<forall>j<e. s ! j = s ! e \<longrightarrow> int j \<le> k" "k = -1 \<or> (\<exists>j<e. k = int j \<and> s ! j = s ! e)"
    using ab(1) assms(3) unfolding last_table_def k by metis+
  define a' where "a' = (if k \<ge> int a then Suc (nat k) else a)"
  have a': "int a' = (if k \<ge> int a then k + 1 else int a)" "start' = int a'"
    using start' ab(2) by (auto simp: a'_def)
  note W = window_step [OF ab(4,5) assms(2) last a'(1)]
  have tab: "last_table n ix' s (Suc e)"
    using last_table_wr [OF ab(1) assms(3)] ix' by auto
  define b' where "b' = max b (Suc e - a')"
  have m: "m' = int b'"
    using W(5) m' ab(3) a'(2) by (auto simp: b'_def max_def)
  have "\<exists>d. unrepeated s d (d + b') \<and> d + b' \<le> Suc e"
  proof (cases "b \<ge> Suc e - a'")
    case True
    then show ?thesis
      using ab(6,7) by (intro exI [of _ d]) (simp add: b'_def max_def)
  next
    case False
    then show ?thesis
      using W(1,5) by (intro exI [of _ a']) (simp add: b'_def max_def)
  qed
  moreover have "j - i \<le> b'" if "j \<le> Suc e" "unrepeated s i j" for i j
    using that ab(8) W(3) [of i] by (cases "j = Suc e") (auto simp: b'_def le_Suc_eq le_max_iff_disj)
  ultimately show "longest_inv n s (Suc e) (ix', start', m')"
    using tab W(1,2) a'(2) m unfolding longest_inv_def by blast
qed

lemma longest_start: "n \<le> 256 \<Longrightarrow> longest_inv n s 0 (replicate n (-1), 0, 0)"
  by (auto simp: longest_inv_def last_table_def unrepeated_iff intro!: exI [of _ "0 :: nat"])

lemma longest_end:
  assumes "longest_inv n s (length s) (ix, start, m)"
  shows "\<exists>b i j. m = int b \<and> unrepeated s i j \<and> j - i = b \<and> (\<forall>i j. unrepeated s i j \<longrightarrow> j - i \<le> b)"
proof -
  obtain b d where b: "m = int b" "unrepeated s d (d + b)" "\<forall>i j. j \<le> length s \<longrightarrow> unrepeated s i j \<longrightarrow> j - i \<le> b"
    using assms by (auto simp: longest_inv_def)
  moreover have "unrepeated s i j \<longrightarrow> j \<le> length s" for i j
    by (simp add: unrepeated_def)
  ultimately show ?thesis
    by (intro exI [of _ b] exI [of _ d] exI [of _ "d + b"]) simp
qed

lemma longest_run:
  assumes round: "\<And>e ix start m. longest_inv n s e (ix, start, m) \<Longrightarrow> e < length s \<Longrightarrow>
    \<exists>t. round (int e) (ix, start, m) = Some t \<and> longest_inv n s (Suc e) t" and "n \<le> 256"
  shows "\<exists>ix start m. for_up 0 (int (length s)) round (replicate n (-1), 0, 0) = Some (ix, start, m) \<and> longest_inv n s (length s) (ix, start, m)"
proof -
  have "\<exists>t. for_up 0 (int (length s)) round (replicate n (-1), 0, 0) = Some t \<and> 0 \<le> int (length s) \<and> longest_inv n s (nat (int (length s))) t"
  proof (rule for_up_total [where P = "\<lambda>i t. 0 \<le> i \<and> longest_inv n s (nat i) t"])
    show "\<exists>u. round j t = Some u \<and> 0 \<le> j + 1 \<and> longest_inv n s (nat (j + 1)) u"
      if "0 \<le> j" "j < int (length s)" "0 \<le> j \<and> longest_inv n s (nat j) t" for j t
      using round [of "nat j"] that by (cases t) (auto simp: nat_add_distrib)
  qed (use longest_start [OF assms(2)] in simp_all)
  then show ?thesis
    by auto
qed

lemma round_ok_1:
  assumes "longest_inv 256 s e (ix, start, m)" and "e < length s" and "ascii (s ! e)"
  shows "\<exists>t. longest_round_1 s (int e) (ix, start, m) = Some t \<and> longest_inv 256 s (Suc e) t"
proof -
  define k where "k = ix ! unat (s ! e)"
  have tab: "last_table 256 ix s e"
    using assms(1) by (simp add: longest_inv_def)
  obtain ix' where ix': "wr ix (uint (s ! e)) (int e) = Some ix'"
    using last_table_wr [OF tab unat_8] by blast
  note S = longest_step [OF assms(1,2) unat_8 k_def refl refl ix']
  have "k \<noteq> -1 \<and> start \<le> k \<longleftrightarrow> start \<le> k"
    using S(2) by auto
  then show ?thesis
    using S(1) last_table_rd [OF tab unat_8] ix' assms(2) ascii_index [OF assms(3)]
    by (auto simp: longest_round_1_def rd_of_nat Let_def k_def [symmetric] split: if_splits)
qed

lemma round_ok_2:
  assumes "longest_inv 128 s e (ix, left, m)" and "e < length s" and "ascii (s ! e)"
  shows "\<exists>t. longest_round_2 s (int e) (ix, left, m) = Some t \<and> longest_inv 128 s (Suc e) t"
proof -
  define k where "k = ix ! unat (s ! e)"
  have tab: "last_table 128 ix s e" and c: "unat (s ! e) < 128"
    using assms by (simp_all add: longest_inv_def ascii_def)
  obtain ix' where ix': "wr ix (uint (s ! e)) (int e) = Some ix'"
    using last_table_wr [OF tab c] by blast
  note S = longest_step [OF assms(1,2) c k_def refl refl ix']
  show ?thesis
    using S(1) last_table_rd [OF tab c] ix' assms(2) ascii_index [OF assms(3)]
    by (simp add: longest_round_2_def rd_of_nat Let_def k_def [symmetric])
qed

text \<open>For a string of fewer than \<open>2 ^ 31\<close> ASCII characters both functions answer the length of a longest part without a repetition.\<close>

theorem longest_substring_correct:
  assumes "\<forall>c\<in>set s. ascii c" and "length s < 2 ^ 31"
  shows "\<exists>b i j. lengthOfLongestSubstring_1 s = Some (int b) \<and> lengthOfLongestSubstring_2 s = Some (int b)
    \<and> unrepeated s i j \<and> j - i = b \<and> (\<forall>i j. unrepeated s i j \<longrightarrow> j - i \<le> b)"
proof -
  have c: "ascii (s ! e)" if "e < length s" for e
    using assms(1) that by simp
  have n: "chk32 (int (length s)) = Some (int (length s))"
    using assms(2) by (simp add: chk32_def)
  obtain ix start m where one: "for_up 0 (int (length s)) (longest_round_1 s) (replicate 256 (-1), 0, 0) = Some (ix, start, m)"
      "longest_inv 256 s (length s) (ix, start, m)"
    using longest_run [of 256 s "longest_round_1 s"] round_ok_1 c by blast
  obtain ix' left m' where two: "for_up 0 (int (length s)) (longest_round_2 s) (replicate 128 (-1), 0, 0) = Some (ix', left, m')"
      "longest_inv 128 s (length s) (ix', left, m')"
    using longest_run [of 128 s "longest_round_2 s"] round_ok_2 c by fastforce
  obtain b i j where b: "m = int b" "unrepeated s i j" "j - i = b" "\<forall>i j. unrepeated s i j \<longrightarrow> j - i \<le> b"
    using longest_end [OF one(2)] by blast
  obtain b' i' j' where b': "m' = int b'" "unrepeated s i' j'" "j' - i' = b'" "\<forall>i j. unrepeated s i j \<longrightarrow> j - i \<le> b'"
    using longest_end [OF two(2)] by blast
  have "b = b'"
    using b b' by (metis le_antisym)
  moreover have "lengthOfLongestSubstring_1 s = Some m"
    using one(1) n b by (cases "s = []") (auto simp: lengthOfLongestSubstring_1_def unrepeated_def)
  ultimately show ?thesis
    using two(1) n b b'(1) by (auto simp: lengthOfLongestSubstring_2_def)
qed

section \<open>Covering windows\<close>

definition stretch :: "bytes \<Rightarrow> nat \<Rightarrow> nat \<Rightarrow> bytes" where
  "stretch s i j = take (j - i) (drop i s)"

definition covers :: "bytes \<Rightarrow> u8 multiset \<Rightarrow> nat \<Rightarrow> nat \<Rightarrow> bool" where
  "covers s T i j \<longleftrightarrow> i \<le> j \<and> j \<le> length s \<and> T \<subseteq># mset (stretch s i j)"

lemma stretch_Suc: "i \<le> j \<Longrightarrow> j < length s \<Longrightarrow> mset (stretch s i (Suc j)) = add_mset (s ! j) (mset (stretch s i j))"
  by (simp add: stretch_def Suc_diff_le take_Suc_conv_app_nth)

lemma stretch_head: "i < j \<Longrightarrow> j \<le> length s \<Longrightarrow> mset (stretch s i j) = add_mset (s ! i) (mset (stretch s (Suc i) j))"
  by (simp add: stretch_def Cons_nth_drop_Suc [symmetric] Suc_diff_Suc [symmetric])

lemma stretch_length: "j \<le> length s \<Longrightarrow> length (stretch s i j) = j - i"
  by (simp add: stretch_def)

lemma stretch_grow: "i \<le> j \<Longrightarrow> j \<le> k \<Longrightarrow> k \<le> length s \<Longrightarrow> mset (stretch s i j) \<subseteq># mset (stretch s i k)"
proof (induction k)
  case (Suc k)
  then show ?case
    by (cases "j = Suc k") (auto simp: stretch_Suc intro: subset_mset.trans)
qed simp

lemma stretch_shift: "i \<le> j \<Longrightarrow> i \<le> k \<Longrightarrow> j \<le> k \<Longrightarrow> k \<le> length s \<Longrightarrow> mset (stretch s j k) \<subseteq># mset (stretch s i k)"
proof (induction "j - i" arbitrary: i)
  case (Suc d)
  then have "mset (stretch s j k) \<subseteq># mset (stretch s (Suc i) k)"
    by simp
  also have "mset (stretch s (Suc i) k) \<subseteq># mset (stretch s i k)"
    using stretch_head [of i k s] Suc by simp
  finally show ?case .
qed simp

lemma covers_grow: "covers s T i j \<Longrightarrow> j \<le> k \<Longrightarrow> k \<le> length s \<Longrightarrow> covers s T i k"
  using stretch_grow [of i j k s] by (auto simp: covers_def intro: subset_mset.trans)

lemma covers_shift: "covers s T j k \<Longrightarrow> i \<le> j \<Longrightarrow> covers s T i k"
  using stretch_shift [of i j k s] by (auto simp: covers_def intro: subset_mset.trans)

text \<open>What is known about the shortest covering window when the windows that begin before \<open>a\<close> have been seen.\<close>

definition best :: "bytes \<Rightarrow> u8 multiset \<Rightarrow> int \<Rightarrow> nat \<Rightarrow> int \<Rightarrow> int \<Rightarrow> bool" where
  "best s T limit a minLen minLeft \<longleftrightarrow> minLen \<le> limit
     \<and> (minLen = limit \<or> (\<exists>l k. minLeft = int l \<and> minLen = int k \<and> covers s T l (l + k)))
     \<and> (\<forall>i<a. \<forall>j. covers s T i j \<longrightarrow> minLen \<le> int (j - i))"

text \<open>The contract of the counter that tells whether the window covers the string: \<open>rep st W\<close> says that \<open>st\<close> counts the
  window \<open>W\<close>.\<close>

locale window_counter =
  fixes T :: "u8 multiset" and tCount :: "int list" and required :: int
    and enter :: "u8 \<Rightarrow> int \<times> int list \<Rightarrow> (int \<times> int list) option"
    and rep :: "int \<times> int list \<Rightarrow> u8 multiset \<Rightarrow> bool"
  assumes enter: "rep st W \<Longrightarrow> size W < 2 ^ 31 - 1 \<Longrightarrow> ascii c \<Longrightarrow> \<exists>st'. enter c st = Some st' \<and> rep st' (add_mset c W)"
    and leave: "rep st (add_mset c W) \<Longrightarrow> T \<subseteq># add_mset c W \<Longrightarrow> size W < 2 ^ 31 - 1 \<Longrightarrow> ascii c \<Longrightarrow>
      \<exists>st'. leave_window tCount c st = Some st' \<and> rep st' W"
    and full: "rep (formed, w) W \<Longrightarrow> formed = required \<longleftrightarrow> T \<subseteq># W"
    and nonempty: "rep st W \<Longrightarrow> T \<noteq> {#}"
begin

definition shrinking :: "bytes \<Rightarrow> int \<Rightarrow> nat \<Rightarrow> window \<Rightarrow> bool" where
  "shrinking s limit e = (\<lambda>(left, st, minLen, minLeft). \<exists>a. left = int a \<and> a \<le> Suc e \<and> rep st (mset (stretch s a (Suc e)))
     \<and> (a \<le> e \<longrightarrow> \<not> covers s T a e) \<and> best s T limit a minLen minLeft)"

definition growing :: "bytes \<Rightarrow> int \<Rightarrow> nat \<Rightarrow> window \<Rightarrow> bool" where
  "growing s limit e = (\<lambda>(left, st, minLen, minLeft). \<exists>a. left = int a \<and> a \<le> e \<and> rep st (mset (stretch s a e))
     \<and> \<not> covers s T a e \<and> best s T limit a minLen minLeft)"

lemma best_step:
  assumes best: "best s T limit a minLen minLeft" and cover: "covers s T a (Suc e)" and no: "a \<le> e" "\<not> covers s T a e"
  shows "if int e - int a + 1 < minLen then best s T limit (Suc a) (int e - int a + 1) (int a) else best s T limit (Suc a) minLen minLeft"
proof -
  have len: "Suc e - a \<le> j - a" if "covers s T a j" for j
  proof (rule ccontr)
    assume "\<not> Suc e - a \<le> j - a"
    then have "covers s T a e"
      using that cover covers_grow [OF that, of e] by (auto simp: covers_def)
    then show False
      using no by simp
  qed
  have new: "int e - int a + 1 \<le> int (j - a)" if "covers s T a j" for j
    using len [OF that] no(1) by linarith
  have old: "minLen \<le> limit" "\<And>i j. i < a \<Longrightarrow> covers s T i j \<Longrightarrow> minLen \<le> int (j - i)"
      "minLen = limit \<or> (\<exists>l k. minLeft = int l \<and> minLen = int k \<and> covers s T l (l + k))"
    using best by (auto simp: best_def)
  show ?thesis
  proof (cases "int e - int a + 1 < minLen")
    case True
    have "int e - int a + 1 \<le> int (j - i)" if "i < Suc a" "covers s T i j" for i j
      using that new old(2) [of i j] True by (cases "i = a") auto
    moreover have "\<exists>l k. int a = int l \<and> int e - int a + 1 = int k \<and> covers s T l (l + k)"
      using cover no(1) by (intro exI [of _ a] exI [of _ "Suc e - a"]) simp
    ultimately show ?thesis
      using True old(1) by (simp add: best_def)
  next
    case False
    have "minLen \<le> int (j - i)" if "i < Suc a" "covers s T i j" for i j
      using that new [of j] old(2) [of i j] False by (cases "i = a") auto
    then show ?thesis
      using False old(1,3) by (simp add: best_def)
  qed
qed

lemma shrink_step:
  assumes inv: "shrinking s limit e st" and e: "e < length s" "length s < 2 ^ 31 - 1" and c: "\<And>c. c \<in> set s \<Longrightarrow> ascii c"
  shows "(\<exists>r. shrink_round s tCount required (int e) st = Some (Inr r) \<and> growing s limit (Suc e) r)
    \<or> (\<exists>st'. shrink_round s tCount required (int e) st = Some (Inl st') \<and> shrinking s limit e st' \<and> fst st' = fst st + 1 \<and> fst st \<le> int e)"
proof -
  obtain a formed w minLen minLeft where st: "st = (int a, (formed, w), minLen, minLeft)" and a: "a \<le> Suc e"
      and rep: "rep (formed, w) (mset (stretch s a (Suc e)))" and no: "a \<le> e \<longrightarrow> \<not> covers s T a e" and best: "best s T limit a minLen minLeft"
    using inv by (cases st) (auto simp: shrinking_def)
  show ?thesis
  proof (cases "int a \<le> int e \<and> formed = required")
    case False
    have "\<not> covers s T a (Suc e)"
    proof (cases "a \<le> e")
      case True
      then show ?thesis
        using False full [OF rep] by (simp add: covers_def)
    next
      case 2: False
      then have "stretch s a (Suc e) = []"
        by (simp add: stretch_def)
      then show ?thesis
        using nonempty [OF rep] by (simp add: covers_def)
    qed
    then have "growing s limit (Suc e) st"
      using a rep best by (auto simp: growing_def st)
    moreover have "shrink_round s tCount required (int e) st = Some (Inr st)"
      using False by (auto simp: shrink_round_def st)
    ultimately show ?thesis
      by blast
  next
    case True
    then have cover: "covers s T a (Suc e)"
      using full [OF rep] e(1) by (simp add: covers_def)
    have W: "mset (stretch s a (Suc e)) = add_mset (s ! a) (mset (stretch s (Suc a) (Suc e)))"
      using stretch_head [of a "Suc e" s] True e(1) by simp
    have "size (mset (stretch s (Suc a) (Suc e))) < 2 ^ 31 - 1"
      using stretch_length [of "Suc e" s "Suc a"] e by simp
    moreover have "ascii (s ! a)"
      using c True e(1) by simp
    ultimately obtain st' where st': "leave_window tCount (s ! a) (formed, w) = Some st'" "rep st' (mset (stretch s (Suc a) (Suc e)))"
      using leave [of "(formed, w)" "s ! a" "mset (stretch s (Suc a) (Suc e))"] rep cover unfolding W covers_def by blast
    define b where "b = (if int e - int a + 1 < minLen then (int e - int a + 1, int a) else (minLen, minLeft))"
    have "best s T limit (Suc a) (fst b) (snd b)"
      using best_step [OF best cover] True no by (auto simp: b_def split: if_splits)
    moreover have "\<not> covers s T (Suc a) e"
      using covers_shift [of s T "Suc a" e a] True no by auto
    ultimately have "shrinking s limit e (int a + 1, st', fst b, snd b)"
      using st'(2) True by (auto simp: shrinking_def intro!: exI [of _ "Suc a"])
    moreover have "shrink_round s tCount required (int e) st = Some (Inl (int a + 1, st', fst b, snd b))"
      using True st'(1) e(1) by (auto simp: shrink_round_def st b_def rd_of_nat)
    ultimately show ?thesis
      using True by (simp add: st)
  qed
qed

lemma grow_step:
  assumes inv: "growing s limit e st" and e: "e < length s" "length s < 2 ^ 31 - 1" and c: "\<And>c. c \<in> set s \<Longrightarrow> ascii c"
  shows "\<exists>r. grow_round s tCount required enter (int e) st = Some r \<and> growing s limit (Suc e) r"
proof -
  obtain a w minLen minLeft where st: "st = (int a, w, minLen, minLeft)" and a: "a \<le> e"
      and rep: "rep w (mset (stretch s a e))" and no: "\<not> covers s T a e" and best: "best s T limit a minLen minLeft"
    using inv by (cases st) (auto simp: growing_def)
  have "size (mset (stretch s a e)) < 2 ^ 31 - 1" "ascii (s ! e)"
    using stretch_length [of e s a] c e by simp_all
  then obtain w' where w': "enter (s ! e) w = Some w'" "rep w' (mset (stretch s a (Suc e)))"
    using enter [OF rep] stretch_Suc [OF a e(1)] by metis
  have "shrinking s limit e (int a, w', minLen, minLeft)"
    using a w'(2) no best by (auto simp: shrinking_def)
  then obtain r where "loop (shrink_round s tCount required (int e)) (int a, w', minLen, minLeft) = Some r" "growing s limit (Suc e) r"
    using loop_total [where P = "shrinking s limit e" and m = "\<lambda>st. nat (int (Suc e) - fst st)" and Q = "growing s limit (Suc e)"
        and body = "shrink_round s tCount required (int e)"] shrink_step [OF _ e c]
    by (smt (verit) of_nat_Suc zless_nat_conj)
  then show ?thesis
    using w'(1) e(1) by (simp add: grow_round_def st rd_of_nat)
qed

lemma slide:
  assumes start: "rep st {#}" and small: "length s < 2 ^ 31 - 1" and c: "\<And>c. c \<in> set s \<Longrightarrow> ascii c"
  shows "\<exists>left st' minLen minLeft. for_up 0 (int (length s)) (grow_round s tCount required enter) (0, st, limit, 0) = Some (left, st', minLen, minLeft)
    \<and> best s T limit (Suc (length s)) minLen minLeft"
proof -
  have "\<exists>r. for_up 0 (int (length s)) (grow_round s tCount required enter) (0, st, limit, 0) = Some r
      \<and> 0 \<le> int (length s) \<and> growing s limit (nat (int (length s))) r"
  proof (rule for_up_total [where P = "\<lambda>i r. 0 \<le> i \<and> growing s limit (nat i) r"])
    have "\<not> covers s T 0 0"
      using nonempty [OF start] by (simp add: covers_def stretch_def)
    then show "0 \<le> (0 :: int) \<and> growing s limit (nat 0) (0, st, limit, 0)"
      using start by (simp add: growing_def best_def stretch_def)
    show "\<exists>u. grow_round s tCount required enter j t = Some u \<and> 0 \<le> j + 1 \<and> growing s limit (nat (j + 1)) u"
      if "0 \<le> j" "j < int (length s)" "0 \<le> j \<and> growing s limit (nat j) t" for j t
      using grow_step [of s limit "nat j" t] that small c by (auto simp: nat_add_distrib)
  qed simp
  then obtain a st' minLen minLeft where r: "for_up 0 (int (length s)) (grow_round s tCount required enter) (0, st, limit, 0) = Some (int a, st', minLen, minLeft)"
      "a \<le> length s" "\<not> covers s T a (length s)" "best s T limit a minLen minLeft"
    by (auto simp: growing_def)
  have "i < a" if "covers s T i j" for i j
  proof (rule ccontr)
    assume "\<not> i < a"
    then have "covers s T a (length s)"
      using covers_grow [OF covers_shift [OF that]] that by (auto simp: covers_def)
    then show False
      using r(3) by simp
  qed
  then have "best s T limit (Suc (length s)) minLen minLeft"
    using r(4) by (auto simp: best_def)
  then show ?thesis
    using r(1) by blast
qed

end

text \<open>The two counters.\<close>

definition rep_total :: "u8 multiset \<Rightarrow> int list \<Rightarrow> int \<times> int list \<Rightarrow> u8 multiset \<Rightarrow> bool" where
  "rep_total T tCount st W \<longleftrightarrow> table 128 tCount T \<and> T \<noteq> {#} \<and> table 128 (snd st) W \<and> fst st = int (size (W \<inter># T))"

definition enough :: "u8 multiset \<Rightarrow> u8 multiset \<Rightarrow> u8 set" where
  "enough T W = {c \<in> set_mset T. count T c \<le> count W c}"

definition rep_kinds :: "u8 multiset \<Rightarrow> int list \<Rightarrow> int \<times> int list \<Rightarrow> u8 multiset \<Rightarrow> bool" where
  "rep_kinds T tCount st W \<longleftrightarrow> table 128 tCount T \<and> T \<noteq> {#} \<and> table 128 (snd st) W \<and> fst st = int (card (enough T W))"

lemma tally_add:
  assumes "table 128 cnt W" and "ascii c" and "size W < 2 ^ 31 - 1"
  shows "\<exists>cnt'. tally 1 c cnt = Some cnt' \<and> table 128 cnt' (add_mset c W) \<and> rd cnt' (sint c) = Some (int (Suc (count W c)))"
  using table_add [OF assms(1) _ assms(3), of c] table_rd [of 128 _ "add_mset c W" c] assms(2) ascii_index [OF assms(2)]
  by (fastforce simp: tally_def ascii_def)

lemma tally_remove:
  assumes "table 128 cnt (add_mset c W)" and "ascii c" and "size W < 2 ^ 31 - 1"
  shows "\<exists>cnt'. tally (-1) c cnt = Some cnt' \<and> table 128 cnt' W \<and> rd cnt' (sint c) = Some (int (count W c))"
  using table_remove [OF assms(1), of c] table_rd [of 128 _ W c] assms(2,3) ascii_index [OF assms(2)]
  by (fastforce simp: tally_def ascii_def)

lemma inter_add: "(add_mset c W) \<inter># T = (if count W c < count T c then add_mset c (W \<inter># T) else W \<inter># T)"
  by (rule multiset_eqI) auto

lemma enough_add:
  "enough T (add_mset c W) = (if 0 < count T c \<and> count T c = Suc (count W c) then insert c (enough T W) else enough T W)"
  by (auto simp: enough_def split: if_splits)

lemma enough_fresh: "count W c < count T c \<Longrightarrow> c \<notin> enough T W"
  by (simp add: enough_def)

lemma finite_enough [simp]: "finite (enough T W)"
  by (simp add: enough_def)

interpretation total: window_counter T tCount "int (size T)" "enter_total tCount" "rep_total T tCount" for T tCount
proof unfold_locales
  fix st :: "int \<times> int list" and W c assume rep: "rep_total T tCount st W" and "size W < 2 ^ 31 - 1" and c: "ascii c"
  then obtain cnt where "tally 1 c (snd st) = Some cnt" "table 128 cnt (add_mset c W)" "rd cnt (sint c) = Some (int (Suc (count W c)))"
    using tally_add by (force simp: rep_total_def)
  moreover have "rd tCount (sint c) = Some (int (count T c))"
    using table_rd [of 128 tCount T c] rep c ascii_index by (simp add: rep_total_def ascii_def)
  moreover have "c \<in># T" if "count W c < count T c"
    using that by (metis count_eq_zero_iff not_less_zero)
  ultimately show "\<exists>st'. enter_total tCount c st = Some st' \<and> rep_total T tCount st' (add_mset c W)"
    using rep by (auto simp: enter_total_def rep_total_def inter_add split: prod.split)
next
  fix st :: "int \<times> int list" and W c assume rep: "rep_total T tCount st (add_mset c W)" and "T \<subseteq># add_mset c W" and "size W < 2 ^ 31 - 1" and c: "ascii c"
  then obtain cnt where "tally (-1) c (snd st) = Some cnt" "table 128 cnt W" "rd cnt (sint c) = Some (int (count W c))"
    using tally_remove by (force simp: rep_total_def)
  moreover have "rd tCount (sint c) = Some (int (count T c))"
    using table_rd [of 128 tCount T c] rep c ascii_index by (simp add: rep_total_def ascii_def)
  moreover have "c \<in># T" if "count W c < count T c"
    using that by (metis count_eq_zero_iff not_less_zero)
  ultimately show "\<exists>st'. leave_window tCount c st = Some st' \<and> rep_total T tCount st' W"
    using rep by (auto simp: leave_window_def rep_total_def inter_add split: prod.split)
next
  fix formed w W assume rep: "rep_total T tCount (formed, w) W"
  have "W \<inter># T \<subseteq># T"
    by simp
  then have "size (W \<inter># T) = size T \<longleftrightarrow> W \<inter># T = T"
    by (metis mset_subset_size nat_neq_iff subset_mset.le_neq_trans)
  then have "size (W \<inter># T) = size T \<longleftrightarrow> T \<subseteq># W"
    by (simp add: subset_mset.inf.absorb_iff2)
  then show "formed = int (size T) \<longleftrightarrow> T \<subseteq># W"
    using rep by (simp add: rep_total_def)
next
  fix st W assume "rep_total T tCount st W"
  then show "T \<noteq> {#}"
    by (simp add: rep_total_def)
qed

interpretation kinds: window_counter T tCount "int (card (set_mset T))" "enter_kinds tCount" "rep_kinds T tCount" for T tCount
proof unfold_locales
  fix st :: "int \<times> int list" and W c assume rep: "rep_kinds T tCount st W" and "size W < 2 ^ 31 - 1" and c: "ascii c"
  then obtain cnt where "tally 1 c (snd st) = Some cnt" "table 128 cnt (add_mset c W)" "rd cnt (sint c) = Some (int (Suc (count W c)))"
    using tally_add by (force simp: rep_kinds_def)
  moreover have "rd tCount (sint c) = Some (int (count T c))"
    using table_rd [of 128 tCount T c] rep c ascii_index by (simp add: rep_kinds_def ascii_def)
  ultimately show "\<exists>st'. enter_kinds tCount c st = Some st' \<and> rep_kinds T tCount st' (add_mset c W)"
    using rep enough_fresh [of W c T] by (auto simp: enter_kinds_def rep_kinds_def enough_add split: prod.split)
next
  fix st :: "int \<times> int list" and W c assume rep: "rep_kinds T tCount st (add_mset c W)" and "T \<subseteq># add_mset c W" and "size W < 2 ^ 31 - 1" and c: "ascii c"
  then obtain cnt where "tally (-1) c (snd st) = Some cnt" "table 128 cnt W" "rd cnt (sint c) = Some (int (count W c))"
    using tally_remove by (force simp: rep_kinds_def)
  moreover have "rd tCount (sint c) = Some (int (count T c))"
    using table_rd [of 128 tCount T c] rep c ascii_index by (simp add: rep_kinds_def ascii_def)
  moreover have le: "count T c \<le> Suc (count W c)"
    using mset_subset_eq_count [OF \<open>T \<subseteq># add_mset c W\<close>, of c] by simp
  moreover have "card (enough T (add_mset c W)) = (if 0 < count T c \<and> count W c < count T c then Suc (card (enough T W)) else card (enough T W))"
    using enough_fresh [of W c T] le by (auto simp: enough_add)
  ultimately show "\<exists>st'. leave_window tCount c st = Some st' \<and> rep_kinds T tCount st' W"
    using rep by (cases st) (simp add: leave_window_def rep_kinds_def)
next
  fix formed w W assume rep: "rep_kinds T tCount (formed, w) W"
  have "card (enough T W) = card (set_mset T) \<longleftrightarrow> enough T W = set_mset T"
    using card_subset_eq [of "set_mset T" "enough T W"] by (auto simp: enough_def)
  moreover have "enough T W = set_mset T \<longleftrightarrow> (\<forall>c\<in>#T. count T c \<le> count W c)"
    by (auto simp: enough_def)
  moreover have "(\<forall>c\<in>#T. count T c \<le> count W c) \<longleftrightarrow> T \<subseteq># W"
    unfolding subseteq_mset_def by (metis count_eq_zero_iff le0)
  ultimately show "formed = int (card (set_mset T)) \<longleftrightarrow> T \<subseteq># W"
    using rep by (simp add: rep_kinds_def)
next
  fix st W assume "rep_kinds T tCount st W"
  then show "T \<noteq> {#}"
    by (simp add: rep_kinds_def)
qed

lemma frequencies_ok:
  "table 128 cnt W \<Longrightarrow> size W + length t < 2 ^ 31 - 1 \<Longrightarrow> \<forall>c\<in>set t. ascii c \<Longrightarrow>
    \<exists>cnt'. frequencies t cnt = Some cnt' \<and> table 128 cnt' (W + mset t)"
proof (induction t arbitrary: cnt W)
  case (Cons c t)
  obtain cnt' where cnt': "tally 1 c cnt = Some cnt'" "table 128 cnt' (add_mset c W)"
    using tally_add [OF Cons.prems(1), of c] Cons.prems(2,3) by auto
  then show ?case
    using Cons.IH [OF cnt'(2)] Cons.prems(2,3) by simp
qed simp

lemma kinds_ok:
  assumes "table 128 tc T" and "\<forall>c\<in>#T. ascii c"
  shows "kinds tc = int (card (set_mset T))"
proof -
  have "{i. i < length tc \<and> tc ! i > 0} = unat ` set_mset T"
  proof (intro set_eqI iffI)
    fix i assume i: "i \<in> {i. i < length tc \<and> tc ! i > 0}"
    define c :: u8 where "c = word_of_nat i"
    have "i < 128"
      using i assms(1) by (simp add: table_def)
    then have "unat c = i"
      by (simp add: c_def unat_of_nat)
    then show "i \<in> unat ` set_mset T"
      using i assms(1) by (auto simp: table_def image_iff intro!: bexI [of _ c])
  next
    fix i assume "i \<in> unat ` set_mset T"
    then show "i \<in> {i. i < length tc \<and> tc ! i > 0}"
      using assms by (auto simp: table_def ascii_def)
  qed
  moreover have "inj_on unat (set_mset T)"
    by (auto simp: inj_on_def word_unat_eq_iff)
  ultimately show ?thesis
    by (simp add: kinds_def length_filter_conv_card card_image)
qed

text \<open>\<open>w\<close> is a shortest part of \<open>s\<close> that covers \<open>t\<close>, or empty when every part that covers it has at least \<open>limit\<close>
  characters.\<close>

definition shortest_cover :: "bytes \<Rightarrow> bytes \<Rightarrow> nat \<Rightarrow> bytes \<Rightarrow> bool" where
  "shortest_cover s t limit w \<longleftrightarrow>
     (\<exists>i j. covers s (mset t) i j \<and> j - i < limit \<and> w = stretch s i j \<and> (\<forall>k l. covers s (mset t) k l \<longrightarrow> j - i \<le> l - k))
     \<or> w = [] \<and> (\<forall>k l. covers s (mset t) k l \<longrightarrow> limit \<le> l - k)"

lemma best_shortest:
  assumes "best s (mset t) (int limit) (Suc (length s)) minLen minLeft"
  shows "shortest_cover s t limit (if minLen = int limit then [] else part s minLeft minLen)"
proof -
  have all: "minLen \<le> int (l - k)" if "covers s (mset t) k l" for k l
    using assms that by (simp add: best_def covers_def)
  show ?thesis
  proof (cases "minLen = int limit")
    case True
    then show ?thesis
      using all by (simp add: shortest_cover_def)
  next
    case False
    then obtain l k where lk: "minLeft = int l" "minLen = int k" "covers s (mset t) l (l + k)" "k < limit"
      using assms by (auto simp: best_def)
    then have "part s minLeft minLen = stretch s l (l + k)"
      by (simp add: part_def stretch_def)
    then show ?thesis
      using lk all False unfolding shortest_cover_def by (intro disjI1 exI [of _ l] exI [of _ "l + k"]) simp
  qed
qed

lemma too_short: "length s < length t \<Longrightarrow> shortest_cover s t limit []"
proof -
  assume short: "length s < length t"
  have "\<not> covers s (mset t) k l" for k l
  proof
    assume c: "covers s (mset t) k l"
    then have "length t \<le> l - k" "l \<le> length s"
      using size_mset_mono [of "mset t" "mset (stretch s k l)"] stretch_length [of l s k] by (auto simp: covers_def)
    then show False
      using short by simp
  qed
  then show ?thesis
    by (simp add: shortest_cover_def)
qed

text \<open>C38: For ASCII strings, the second one not empty, \<open>minWindow\<close> answers a shortest part of \<open>s\<close> that contains every character of
  \<open>t\<close> as often as \<open>t\<close> does, and the empty string when there is none; \<open>minWindow_self\<close> does the same but gives up on parts of 65535
  characters and more. The allocation of the answer is taken to succeed, and what \<open>minWindow_self\<close> prints besides is left out.\<close>

theorem minWindow_correct:
  assumes "\<forall>c\<in>set s \<union> set t. ascii c" and "t \<noteq> []" and "length s < 2 ^ 31 - 1"
  shows "\<exists>w w'. minWindow (Some s) (Some t) = Some w \<and> shortest_cover s t 2147483647 w
    \<and> minWindow_self (Some s) (Some t) = Some w' \<and> shortest_cover s t 65535 w'"
proof (cases "length s < length t")
  case True
  then show ?thesis
    using too_short by (simp add: minWindow_def minWindow_self_def)
next
  case False
  have c: "\<And>c. c \<in> set s \<Longrightarrow> ascii c"
    using assms(1) by simp
  obtain tc where tc: "frequencies t (replicate 128 0) = Some tc" "table 128 tc (mset t)"
    using frequencies_ok [OF table_empty [of 128], of t] assms(1,3) False by auto
  have "rep_total (mset t) tc (0, replicate 128 0) {#}" "rep_kinds (mset t) tc (0, replicate 128 0) {#}"
    using tc(2) assms(2) table_empty [of 128] by (auto simp: rep_total_def rep_kinds_def enough_def)
  note runs = total.slide [OF this(1) assms(3) c, of 2147483647] kinds.slide [OF this(2) assms(3) c, of 65535]
  obtain left st minLen minLeft where one: "for_up 0 (int (length s)) (grow_round s tc (int (length t)) (enter_total tc)) (0, (0, replicate 128 0), 2147483647, 0)
      = Some (left, st, minLen, minLeft)" "best s (mset t) 2147483647 (Suc (length s)) minLen minLeft"
    using runs(1) by auto
  have "kinds tc = int (card (set_mset (mset t)))"
    using kinds_ok [OF tc(2)] assms(1) by simp
  then obtain left' st' minLen' minLeft' where two: "for_up 0 (int (length s)) (grow_round s tc (kinds tc) (enter_kinds tc)) (0, (0, replicate 128 0), 65535, 0)
      = Some (left', st', minLen', minLeft')" "best s (mset t) 65535 (Suc (length s)) minLen' minLeft'"
    using runs(2) by auto
  have n: "chk32 (int (length s)) = Some (int (length s))"
    using assms(3) by (simp add: chk32_def)
  show ?thesis
    using False tc(1) n one two best_shortest [of s t 2147483647 minLen minLeft] best_shortest [of s t 65535 minLen' minLeft']
    by (simp add: minWindow_def minWindow_self_def)
qed

text \<open>The strings of the demonstrations: "listen" and "silent", "pwwkew", "ADOBECODEBANC" and "ABC".\<close>

theorem isAnagram_correct_witness: "isAnagram [108, 105, 115, 116, 101, 110] [115, 105, 108, 101, 110, 116] = Some True"
  using isAnagram_correct [of "[108, 105, 115, 116, 101, 110]" "[115, 105, 108, 101, 110, 116]"] by simp

theorem longest_substring_correct_witness:
  "\<exists>b. lengthOfLongestSubstring_1 [112, 119, 119, 107, 101, 119] = Some (int b) \<and> 3 \<le> b"
proof -
  have "unrepeated [112, 119, 119, 107, 101, 119] 2 5"
    by (simp add: unrepeated_def)
  moreover have "\<forall>c\<in>set [112, 119, 119, 107, 101, 119]. ascii c"
    by (simp add: ascii_def)
  ultimately show ?thesis
    using longest_substring_correct [of "[112, 119, 119, 107, 101, 119]"] by fastforce
qed

text \<open>The strings of the demonstration, \<open>ADOBECODEBANCCANNNB\<close> and \<open>ABCC\<close>: the answer is \<open>BANCC\<close> (or another part as short), not
  \<open>BANC\<close> as the comment there says.\<close>

definition demo_text :: bytes where
  "demo_text = [65, 68, 79, 66, 69, 67, 79, 68, 69, 66, 65, 78, 67, 67, 65, 78, 78, 78, 66]"

theorem minWindow_correct_witness:
  "\<exists>w. minWindow (Some demo_text) (Some [65, 66, 67, 67]) = Some w \<and> shortest_cover demo_text [65, 66, 67, 67] 2147483647 w
    \<and> length w \<le> 5 \<and> w \<noteq> [66, 65, 78, 67]"
proof -
  let ?T = "mset [65, 66, 67, 67] :: u8 multiset"
  obtain w where w: "minWindow (Some demo_text) (Some [65, 66, 67, 67]) = Some w" "shortest_cover demo_text [65, 66, 67, 67] 2147483647 w"
    using minWindow_correct [of demo_text "[65, 66, 67, 67]"] by (auto simp: ascii_def demo_text_def)
  have five: "covers demo_text ?T 9 14"
    by (simp add: covers_def stretch_def demo_text_def)
  then obtain i j where ij: "covers demo_text ?T i j" "w = stretch demo_text i j" "j - i \<le> 5"
    using w(2) unfolding shortest_cover_def by fastforce
  then have "?T \<subseteq># mset w" "length w \<le> 5"
    by (simp_all add: covers_def stretch_length)
  moreover have "\<not> ?T \<subseteq># mset [66, 65, 78, 67]"
    by simp
  ultimately show ?thesis
    using w by blast
qed

end
