(* ===== verification/Sums.thy ===== *)
theory Sums
  imports Loops
begin

text \<open>
  The programs on sums and runs of C/job_interview: 11_sum_of_two.c (two numbers with a given sum, by a hash table),
  12_sum_of_three.c (three numbers with sum zero, by two indices in a sorted array), 18_max_sub_array.c (the part of an array
  with the greatest sum, three ways) and 05_max_continue_inc_num_str.c (the longest run of consecutive digits).
\<close>

section \<open>Two numbers\<close>

definition HASH_SIZE :: int where "HASH_SIZE = 10000"

text \<open>A chain of the table is the list of the keys and values of its nodes; nodes are only added, at the head.\<close>

type_synonym chains = "(int \<times> int) list list"

definition hash_index :: "int \<Rightarrow> int option" where
  "hash_index key = do { a \<leftarrow> chk32 \<bar>key\<bar>; cmod a HASH_SIZE }"

definition insert_key :: "int \<Rightarrow> int \<Rightarrow> chains \<Rightarrow> chains option" where
  "insert_key key v hashTable = do {
     index \<leftarrow> hash_index key;
     chain \<leftarrow> rd hashTable index;
     wr hashTable index ((key, v) # chain) }"

fun walk_chain :: "int \<Rightarrow> (int \<times> int) list \<Rightarrow> int" where
  "walk_chain key [] = -1"
| "walk_chain key ((k, v) # chain) = (if k = key then v else walk_chain key chain)"

definition search_key :: "int \<Rightarrow> chains \<Rightarrow> int option" where
  "search_key key hashTable = do {
     index \<leftarrow> hash_index key;
     chain \<leftarrow> rd hashTable index;
     Some (walk_chain key chain) }"

text \<open>A round of the loop; \<open>Inr\<close> is the return.\<close>

definition two_round :: "int list \<Rightarrow> int \<Rightarrow> int \<Rightarrow> int list \<Rightarrow> int \<times> chains \<Rightarrow> (int \<times> chains + int list \<times> chains) option" where
  "two_round nums numsSize target result = (\<lambda>(i, hashTable).
     if i < numsSize then do {
       x \<leftarrow> rd nums i;
       complement \<leftarrow> chk32 (target - x);
       complementIndex \<leftarrow> search_key complement hashTable;
       if complementIndex \<noteq> -1 \<and> complementIndex \<noteq> i then do {
         result \<leftarrow> wr result 0 complementIndex;
         result \<leftarrow> wr result 1 i;
         Some (Inr (result, hashTable)) }
       else do {
         hashTable \<leftarrow> insert_key x i hashTable;
         Some (Inl (i + 1, hashTable)) } }
     else Some (Inr (result, hashTable)))"

definition twoSum :: "int list \<Rightarrow> int \<Rightarrow> int \<Rightarrow> int list \<Rightarrow> chains \<Rightarrow> (int list \<times> chains) option" where
  "twoSum nums numsSize target result hashTable = loop (two_round nums numsSize target result) (0, hashTable)"

section \<open>Three numbers\<close>

text \<open>\<open>qsort\<close> sorts when the differences that \<open>compare\<close> computes do not overflow.\<close>

definition sort_ints :: "int list \<Rightarrow> int list option" where
  "sort_ints nums = (if \<forall>x\<in>set nums. \<forall>y\<in>set nums. chk32 (x - y) \<noteq> None then Some (sort nums) else None)"

definition left_round :: "int list \<Rightarrow> int \<Rightarrow> int \<Rightarrow> (int + int) option" where
  "left_round nums right left =
     (if left < right then do {
        a \<leftarrow> rd nums left;
        b \<leftarrow> rd nums (left + 1);
        Some (if a = b then Inl (left + 1) else Inr left) }
      else Some (Inr left))"

definition skip_left :: "int list \<Rightarrow> int \<Rightarrow> int \<Rightarrow> int option" where
  "skip_left nums right left = loop (left_round nums right) left"

definition right_round :: "int list \<Rightarrow> int \<Rightarrow> int \<Rightarrow> (int + int) option" where
  "right_round nums left right =
     (if left < right then do {
        a \<leftarrow> rd nums right;
        b \<leftarrow> rd nums (right - 1);
        Some (if a = b then Inl (right - 1) else Inr right) }
      else Some (Inr right))"

definition skip_right :: "int list \<Rightarrow> int \<Rightarrow> int \<Rightarrow> int option" where
  "skip_right nums left right = loop (right_round nums left) right"

type_synonym triple = "int \<times> int \<times> int"

text \<open>
  The cells of the result array are kept as the triples that were stored, \<open>returnSize\<close> being their number. A triple is stored at the
  \<open>int\<close> indices \<open>returnSize * 3\<close> and the two behind, which must not overflow and must be less than the number \<open>room\<close> of cells
  that were allocated.
\<close>

definition store_triple :: "int \<Rightarrow> triple list \<Rightarrow> triple \<Rightarrow> triple list option" where
  "store_triple room result t = do {
     k \<leftarrow> chk32 (int (length result) * 3);
     _ \<leftarrow> chk32 (k + 1);
     k2 \<leftarrow> chk32 (k + 2);
     _ \<leftarrow> chk32 (int (length result) + 1);
     if k2 < room then Some (result @ [t]) else None }"

definition pair_round :: "int list \<Rightarrow> int \<Rightarrow> int \<Rightarrow> int \<times> int \<times> triple list \<Rightarrow> (int \<times> int \<times> triple list + triple list) option" where
  "pair_round nums room i = (\<lambda>(left, right, result).
     if left < right then do {
       x \<leftarrow> rd nums i;
       y \<leftarrow> rd nums left;
       z \<leftarrow> rd nums right;
       s \<leftarrow> chk32 (x + y);
       s \<leftarrow> chk32 (s + z);
       if s = 0 then do {
         result \<leftarrow> store_triple room result (x, y, z);
         left \<leftarrow> skip_left nums right left;
         right \<leftarrow> skip_right nums left right;
         Some (Inl (left + 1, right - 1, result)) }
       else if s < 0 then Some (Inl (left + 1, right, result))
       else Some (Inl (left, right - 1, result)) }
     else Some (Inr result))"

definition three_round :: "int list \<Rightarrow> int \<Rightarrow> int \<Rightarrow> int \<Rightarrow> triple list \<Rightarrow> triple list option" where
  "three_round nums numsSize room i result = do {
     same \<leftarrow> (if i > 0 then do { a \<leftarrow> rd nums i; b \<leftarrow> rd nums (i - 1); Some (a = b) } else Some False);
     if same then Some result
     else loop (pair_round nums room i) (i + 1, numsSize - 1, result) }"

text \<open>The product that is allocated is computed in 64 bits; without memory there is no cell to write to.\<close>

definition three_room :: "bool \<Rightarrow> int \<Rightarrow> int" where
  "three_room got numsSize = (if got then 4 * numsSize * numsSize * 3 mod 2 ^ 64 div 4 else 0)"

definition threeSum :: "bool \<Rightarrow> int list \<Rightarrow> int \<Rightarrow> (int list \<times> triple list) option" where
  "threeSum got nums numsSize = do {
     nums \<leftarrow> sort_ints nums;
     result \<leftarrow> for_up 0 (numsSize - 2) (three_round nums numsSize (three_room got numsSize)) [];
     Some (nums, result) }"

section \<open>The greatest sum\<close>

definition dp_round :: "int list \<Rightarrow> int \<Rightarrow> int \<times> int \<Rightarrow> (int \<times> int) option" where
  "dp_round nums i = (\<lambda>(max_sum, current_sum). do {
     x \<leftarrow> rd nums i;
     current_sum \<leftarrow> (if current_sum > 0 then chk32 (current_sum + x) else Some x);
     Some (if current_sum > max_sum then current_sum else max_sum, current_sum) })"

definition maxSubArray_dp :: "int list \<Rightarrow> int \<Rightarrow> int option" where
  "maxSubArray_dp nums numsSize = do {
     x \<leftarrow> rd nums 0;
     (max_sum, _) \<leftarrow> for_up 1 numsSize (dp_round nums) (x, x);
     Some max_sum }"

definition dp2_round :: "int list \<Rightarrow> int \<Rightarrow> int \<times> int \<Rightarrow> (int \<times> int) option" where
  "dp2_round arr i = (\<lambda>(mymax, dp). do {
     x \<leftarrow> rd arr i;
     t \<leftarrow> chk32 (dp + x);
     let dp = max x t;
     Some (if dp > mymax then dp else mymax, dp) })"

text \<open>\<open>NULL\<close> is \<open>None\<close>.\<close>

definition maxSubArray_dp2 :: "int list option \<Rightarrow> int \<Rightarrow> int option" where
  "maxSubArray_dp2 arr len = (case arr of
     None \<Rightarrow> Some 0
   | Some arr \<Rightarrow>
       (if len = 0 then Some 0
        else do {
          x \<leftarrow> rd arr 0;
          (mymax, _) \<leftarrow> for_up 1 len (dp2_round arr) (x, x);
          Some mymax }))"

definition tx_round :: "int list \<Rightarrow> int \<Rightarrow> int \<times> int \<Rightarrow> (int \<times> int) option" where
  "tx_round nums i = (\<lambda>(max_sum, current_sum). do {
     x \<leftarrow> rd nums i;
     current_sum \<leftarrow> chk32 (current_sum + x);
     Some (if current_sum > max_sum then current_sum else max_sum, if current_sum < 0 then 0 else current_sum) })"

definition maxSubArray_tx :: "int list \<Rightarrow> int \<Rightarrow> int option" where
  "maxSubArray_tx nums numsSize = do {
     x \<leftarrow> rd nums 0;
     (max_sum, _) \<leftarrow> for_up 0 numsSize (tx_round nums) (x, x);
     Some max_sum }"

section \<open>Runs of digits\<close>

definition is_digit :: "u8 \<Rightarrow> bool" where
  "is_digit c \<longleftrightarrow> 48 \<le> sint c \<and> sint c \<le> 57"

text \<open>The state is \<open>max\<close>, \<open>index\<close>, \<open>len\<close>, \<open>start\<close>.\<close>

definition digits_round :: "bytes \<Rightarrow> int \<Rightarrow> int \<times> int \<times> int \<times> int \<Rightarrow> (int \<times> int \<times> int \<times> int) option" where
  "digits_round s i = (\<lambda>(mx, index, len, start). do {
     c \<leftarrow> rd s i;
     if is_digit c then do {
       new \<leftarrow> (if i = 0 then Some True else do { b \<leftarrow> rd s (i - 1); Some (sint b + 1 \<noteq> sint c) });
       if new then Some (if len > mx then (len, i, 1, index) else (mx, i, 1, start))
       else Some (mx, index, len + 1, start) }
     else Some (mx, index, len, start) })"

text \<open>What is printed; a string longer than the range of \<open>int\<close> is undefined.\<close>

definition findMaxIncreasingDigits :: "bytes \<Rightarrow> bytes option" where
  "findMaxIncreasingDigits s = do {
     n \<leftarrow> chk32 (int (length s));
     (mx, index, len, start) \<leftarrow> for_up 0 n (digits_round s) (0, 0, 0, 0);
     Some (take (nat mx) (drop (nat start) s)) }"

definition longest_round :: "bytes \<Rightarrow> int \<Rightarrow> int list \<times> int \<Rightarrow> (int list \<times> int) option" where
  "longest_round str i = (\<lambda>(dp, maxLength). do {
     a \<leftarrow> rd str (i - 1);
     c \<leftarrow> rd str i;
     if sint a + 1 = sint c \<and> is_digit c \<and> is_digit a then do {
       d \<leftarrow> rd dp (i - 1);
       dp \<leftarrow> wr dp i (d + 1);
       Some (dp, if maxLength > d + 1 then maxLength else d + 1) }
     else Some (dp, maxLength) })"

text \<open>An array without cells is undefined.\<close>

definition longestIncreasingDigits :: "bytes \<Rightarrow> int option" where
  "longestIncreasingDigits str =
     (if str = [] then None
      else do {
        n \<leftarrow> chk32 (int (length str));
        (_, maxLength) \<leftarrow> for_up 1 n (longest_round str) (replicate (length str) 1, 1);
        Some maxLength })"

section \<open>The greatest sum: correctness\<close>

definition range_sum :: "int list \<Rightarrow> nat \<Rightarrow> nat \<Rightarrow> int" where
  "range_sum xs i j = sum_list (take (j - i) (drop i xs))"

definition greatest_sum :: "int list \<Rightarrow> nat \<Rightarrow> int \<Rightarrow> bool" where
  "greatest_sum xs e m \<longleftrightarrow> (\<exists>i j. i < j \<and> j \<le> e \<and> range_sum xs i j = m) \<and> (\<forall>i j. i < j \<longrightarrow> j \<le> e \<longrightarrow> range_sum xs i j \<le> m)"

definition greatest_ending :: "int list \<Rightarrow> nat \<Rightarrow> int \<Rightarrow> bool" where
  "greatest_ending xs e c \<longleftrightarrow> (\<exists>i<e. range_sum xs i e = c) \<and> (\<forall>i<e. range_sum xs i e \<le> c)"

definition sums_fit :: "int list \<Rightarrow> bool" where
  "sums_fit xs \<longleftrightarrow> (\<forall>i j. i \<le> j \<longrightarrow> j \<le> length xs \<longrightarrow> - (2 ^ 31) \<le> range_sum xs i j \<and> range_sum xs i j < 2 ^ 31)"

lemma range_sum_Suc: "i \<le> e \<Longrightarrow> e < length xs \<Longrightarrow> range_sum xs i (Suc e) = range_sum xs i e + xs ! e"
  by (simp add: range_sum_def Suc_diff_le take_Suc_conv_app_nth)

lemma range_sum_empty [simp]: "range_sum xs i i = 0"
  by (simp add: range_sum_def)

lemma ending_step:
  assumes "greatest_ending xs e c" and "e < length xs"
  shows "greatest_ending xs (Suc e) (xs ! e + max 0 c)"
proof -
  obtain i where i: "i < e" "range_sum xs i e = c"
    using assms(1) by (auto simp: greatest_ending_def)
  have "\<exists>i<Suc e. range_sum xs i (Suc e) = xs ! e + max 0 c"
  proof (cases "0 \<le> c")
    case True
    then show ?thesis
      using i assms(2) by (intro exI [of _ i]) (simp add: range_sum_Suc)
  next
    case False
    then show ?thesis
      using assms(2) by (intro exI [of _ e]) (simp add: range_sum_Suc)
  qed
  moreover have "range_sum xs k (Suc e) \<le> xs ! e + max 0 c" if "k < Suc e" for k
    using assms that by (cases "k = e") (auto simp: range_sum_Suc greatest_ending_def le_max_iff_disj)
  ultimately show ?thesis
    by (simp add: greatest_ending_def)
qed

lemma greatest_step:
  assumes "greatest_sum xs e m" and "greatest_ending xs (Suc e) c"
  shows "greatest_sum xs (Suc e) (max m c)"
proof -
  have "\<exists>i j. i < j \<and> j \<le> Suc e \<and> range_sum xs i j = max m c"
    using assms by (cases "m \<le> c") (auto simp: greatest_sum_def greatest_ending_def max_def intro: le_SucI)
  moreover have "range_sum xs i j \<le> max m c" if "i < j" "j \<le> Suc e" for i j
    using assms that by (cases "j = Suc e") (auto simp: greatest_sum_def greatest_ending_def le_max_iff_disj le_Suc_eq)
  ultimately show ?thesis
    by (simp add: greatest_sum_def)
qed

lemma greatest_first: "xs \<noteq> [] \<Longrightarrow> greatest_sum xs 1 (xs ! 0) \<and> greatest_ending xs 1 (xs ! 0)"
  using range_sum_Suc [of 0 0 xs] by (auto simp: greatest_sum_def greatest_ending_def less_Suc_eq le_Suc_eq)

lemma ending_fits: "sums_fit xs \<Longrightarrow> greatest_ending xs e c \<Longrightarrow> e \<le> length xs \<Longrightarrow> chk32 c = Some c"
  by (auto simp: sums_fit_def greatest_ending_def chk32_def)

lemma greatest_unique: "greatest_sum xs e m \<Longrightarrow> greatest_sum xs e m' \<Longrightarrow> m = m'"
  unfolding greatest_sum_def by (metis order_antisym)

text \<open>A loop over the array whose state is the greatest sum and \<open>f c\<close> for the greatest sum \<open>c\<close> that ends here.\<close>

lemma kadane:
  assumes round: "\<And>e m c. 1 \<le> e \<Longrightarrow> e < length xs \<Longrightarrow> greatest_ending xs e c \<Longrightarrow>
      round (int e) (m, f c) = Some (max m (xs ! e + max 0 c), f (xs ! e + max 0 c))" and "xs \<noteq> []"
  shows "\<exists>m c. for_up 1 (int (length xs)) round (xs ! 0, f (xs ! 0)) = Some (m, c) \<and> greatest_sum xs (length xs) m"
proof -
  have "\<exists>t. for_up 1 (int (length xs)) round (xs ! 0, f (xs ! 0)) = Some t
      \<and> (1 \<le> int (length xs) \<and> (\<exists>c. snd t = f c \<and> greatest_sum xs (nat (int (length xs))) (fst t) \<and> greatest_ending xs (nat (int (length xs))) c))"
  proof (rule for_up_total [where P = "\<lambda>i t. 1 \<le> i \<and> (\<exists>c. snd t = f c \<and> greatest_sum xs (nat i) (fst t) \<and> greatest_ending xs (nat i) c)"])
    show "1 \<le> (1 :: int) \<and> (\<exists>c. snd (xs ! 0, f (xs ! 0)) = f c \<and> greatest_sum xs (nat 1) (fst (xs ! 0, f (xs ! 0))) \<and> greatest_ending xs (nat 1) c)"
      using greatest_first [OF assms(2)] by (auto simp: nat_1)
    show "1 \<le> int (length xs)"
      using assms(2) by (cases xs) auto
  next
    fix j t assume j: "1 \<le> j" "j < int (length xs)"
      and inv: "1 \<le> j \<and> (\<exists>c. snd t = f c \<and> greatest_sum xs (nat j) (fst t) \<and> greatest_ending xs (nat j) c)"
    obtain e where e: "j = int e" "1 \<le> e" "e < length xs"
      using j by (cases j) auto
    obtain c where c: "snd t = f c" "greatest_sum xs e (fst t)" "greatest_ending xs e c"
      using inv e(1) by auto
    have "greatest_ending xs (Suc e) (xs ! e + max 0 c)" "greatest_sum xs (Suc e) (max (fst t) (xs ! e + max 0 c))"
      using ending_step [OF c(3) e(3)] greatest_step [OF c(2)] by blast+
    moreover have "nat (j + 1) = Suc e"
      using e(1) by simp
    ultimately show "\<exists>u. round j t = Some u \<and> 1 \<le> j + 1 \<and> (\<exists>c. snd u = f c \<and> greatest_sum xs (nat (j + 1)) (fst u) \<and> greatest_ending xs (nat (j + 1)) c)"
      using round [OF e(2,3) c(3), of "fst t"] c(1) e(1) by (cases t) auto
  qed
  then show ?thesis
    by auto
qed

lemma maxSubArray_dp_ok:
  assumes "sums_fit xs" and "xs \<noteq> []"
  shows "\<exists>m. maxSubArray_dp xs (int (length xs)) = Some m \<and> greatest_sum xs (length xs) m"
proof -
  have "dp_round xs (int e) (m, c) = Some (max m (xs ! e + max 0 c), xs ! e + max 0 c)"
    if "e < length xs" "greatest_ending xs e c" for e m c
  proof -
    have "chk32 (xs ! e + max 0 c) = Some (xs ! e + max 0 c)"
      using ending_fits [OF assms(1) ending_step [OF that(2,1)]] that(1) by simp
    then show ?thesis
      using that(1) by (auto simp: dp_round_def rd_of_nat max_def add.commute)
  qed
  then show ?thesis
    using kadane [of xs "dp_round xs" "\<lambda>c. c"] assms(2) by (fastforce simp: maxSubArray_dp_def rd_def)
qed

lemma maxSubArray_dp2_ok:
  assumes "sums_fit xs" and "xs \<noteq> []"
  shows "\<exists>m. maxSubArray_dp2 (Some xs) (int (length xs)) = Some m \<and> greatest_sum xs (length xs) m"
proof -
  have "dp2_round xs (int e) (m, c) = Some (max m (xs ! e + max 0 c), xs ! e + max 0 c)"
    if e: "e < length xs" "greatest_ending xs e c" for e m c
  proof -
    obtain i where "i < e" "range_sum xs i e = c"
      using e(2) by (auto simp: greatest_ending_def)
    then have "range_sum xs i (Suc e) = c + xs ! e" "i \<le> Suc e"
      using e(1) by (simp_all add: range_sum_Suc)
    then have "chk32 (c + xs ! e) = Some (c + xs ! e)"
      using assms(1) e(1) unfolding sums_fit_def chk32_def by (metis Suc_leI)
    then show ?thesis
      using e(1) by (auto simp: dp2_round_def rd_of_nat max_def Let_def)
  qed
  then show ?thesis
    using kadane [of xs "dp2_round xs" "\<lambda>c. c"] assms(2) by (fastforce simp: maxSubArray_dp2_def rd_def)
qed

lemma maxSubArray_tx_ok:
  assumes "sums_fit (x # xs)" and "sums_fit (2 * x # xs)" and ys: "ys = (if x > 0 then 2 * x else x) # xs"
  shows "\<exists>m. maxSubArray_tx (x # xs) (int (length (x # xs))) = Some m \<and> greatest_sum ys (length ys) m"
proof -
  have fit: "sums_fit ys"
    using assms by simp
  have round: "tx_round (x # xs) (int e) (m, max 0 c) = Some (max m (ys ! e + max 0 c), max 0 (ys ! e + max 0 c))"
    if e: "1 \<le> e" "e < length ys" "greatest_ending ys e c" for e m c
  proof -
    have "chk32 (ys ! e + max 0 c) = Some (ys ! e + max 0 c)"
      using ending_fits [OF fit ending_step [OF e(3,2)]] e(2) by simp
    moreover have "rd (x # xs) (int e) = Some (ys ! e)"
      using e(1,2) ys by (cases e) (simp_all add: rd_def nat_add_distrib)
    ultimately show ?thesis
      by (auto simp: tx_round_def max_def add.commute)
  qed
  have "range_sum (2 * x # xs) 0 1 = 2 * x"
    by (simp add: range_sum_def)
  then have "chk32 (x + x) = Some (x + x)"
    using assms(2) unfolding sums_fit_def chk32_def by (metis One_nat_def Suc_leI length_greater_0_conv list.distinct(1) mult_2 zero_le_one)
  then have "tx_round (x # xs) 0 (x, x) = Some (ys ! 0, max 0 (ys ! 0))"
    using ys by (auto simp: tx_round_def rd_def max_def)
  then have "for_up 0 (int (length (x # xs))) (tx_round (x # xs)) (x, x) = for_up 1 (int (length ys)) (tx_round (x # xs)) (ys ! 0, max 0 (ys ! 0))"
    using ys by (simp add: for_up_step [of 0])
  then show ?thesis
    using kadane [of ys "tx_round (x # xs)" "max 0"] round ys by (fastforce simp: maxSubArray_tx_def rd_def)
qed

text \<open>C40: The two dynamic programs answer the greatest sum of a nonempty part of the array, when no such sum overflows. The greedy one adds
  the first number twice: for an array that begins with a positive number it answers the greatest sum of the array with that
  number doubled.\<close>

theorem maxSubArray_correct:
  assumes "sums_fit (x # xs)" and "sums_fit (2 * x # xs)"
  shows "\<exists>m. maxSubArray_dp (x # xs) (int (length (x # xs))) = Some m \<and> maxSubArray_dp2 (Some (x # xs)) (int (length (x # xs))) = Some m
    \<and> greatest_sum (x # xs) (length (x # xs)) m
    \<and> (\<exists>m'. maxSubArray_tx (x # xs) (int (length (x # xs))) = Some m'
        \<and> greatest_sum ((if x > 0 then 2 * x else x) # xs) (length (x # xs)) m' \<and> (x \<le> 0 \<longrightarrow> m' = m))"
proof -
  obtain m where m: "maxSubArray_dp (x # xs) (int (length (x # xs))) = Some m" "greatest_sum (x # xs) (length (x # xs)) m"
    using maxSubArray_dp_ok [OF assms(1)] by auto
  moreover have "maxSubArray_dp2 (Some (x # xs)) (int (length (x # xs))) = Some m"
    using maxSubArray_dp2_ok [OF assms(1)] greatest_unique [OF m(2)] by fastforce
  moreover obtain m' where m': "maxSubArray_tx (x # xs) (int (length (x # xs))) = Some m'"
      "greatest_sum ((if x > 0 then 2 * x else x) # xs) (length (x # xs)) m'"
    using maxSubArray_tx_ok [OF assms refl] by auto
  moreover have "x \<le> 0 \<longrightarrow> m' = m"
    using greatest_unique [OF m(2)] m'(2) by (auto split: if_splits)
  ultimately show ?thesis
    by blast
qed

theorem maxSubArray_correct_witness:
  "maxSubArray_dp [5, -10] 2 = Some 5 \<and> maxSubArray_tx [5, -10] 2 = Some 10 \<and> greatest_sum [10, -10] 2 10"
proof -
  have fits: "sums_fit [5, -10]" "sums_fit [2 * 5, -10]"
    by (auto simp: sums_fit_def range_sum_def le_Suc_eq)
  moreover have "maxSubArray_dp [5, -10] 2 = Some 5" "maxSubArray_tx [5, -10] 2 = Some 10"
    by (simp_all add: maxSubArray_dp_def maxSubArray_tx_def dp_round_def tx_round_def for_up_step for_up_empty rd_def chk32_def)
  ultimately show ?thesis
    using maxSubArray_correct [OF fits] by (simp add: numeral_2_eq_2)
qed

section \<open>Two numbers: correctness\<close>

definition holds_keys :: "int list \<Rightarrow> nat \<Rightarrow> chains \<Rightarrow> bool" where
  "holds_keys nums e tab \<longleftrightarrow> length tab = 10000 \<and> (\<forall>key. \<bar>key\<bar> < 2 ^ 31 \<longrightarrow>
     (\<exists>j<e. search_key key tab = Some (int j) \<and> nums ! j = key) \<or> search_key key tab = Some (-1) \<and> (\<forall>j<e. nums ! j \<noteq> key))"

lemma hash_index_ok: "\<bar>key\<bar> < 2 ^ 31 \<Longrightarrow> hash_index key = Some (\<bar>key\<bar> mod 10000)"
  by (simp add: hash_index_def chk32_def cmod_nonneg HASH_SIZE_def)

lemma insert_ok:
  assumes "\<bar>key\<bar> < 2 ^ 31" and "length tab = 10000"
  shows "\<exists>tab'. insert_key key v tab = Some tab' \<and> length tab' = 10000 \<and> search_key key tab' = Some v
    \<and> (\<forall>k. \<bar>k\<bar> < 2 ^ 31 \<longrightarrow> k \<noteq> key \<longrightarrow> search_key k tab' = search_key k tab)"
proof -
  define i where "i = nat (\<bar>key\<bar> mod 10000)"
  have i: "\<bar>key\<bar> mod 10000 = int i" "i < length tab"
    using assms(2) by (auto simp: i_def)
  have "insert_key key v tab = Some (tab[i := (key, v) # tab ! i])"
    using hash_index_ok [OF assms(1)] i by (simp add: insert_key_def rd_of_nat wr_of_nat)
  moreover have "search_key key (tab[i := (key, v) # tab ! i]) = Some v"
    using hash_index_ok [OF assms(1)] i by (simp add: search_key_def rd_of_nat)
  moreover have "search_key k (tab[i := (key, v) # tab ! i]) = search_key k tab" if "\<bar>k\<bar> < 2 ^ 31" "k \<noteq> key" for k
    using hash_index_ok [OF that(1)] that(2) i by (auto simp: search_key_def rd_def nth_list_update)
  ultimately show ?thesis
    using assms(2) by simp
qed

definition two_ok :: "int list \<Rightarrow> int \<Rightarrow> int list \<Rightarrow> int list \<Rightarrow> bool" where
  "two_ok nums target result res \<longleftrightarrow>
     (\<exists>k i. k < i \<and> i < length nums \<and> nums ! k + nums ! i = target \<and> res = [int k, int i]
        \<and> (\<forall>b<i. \<forall>a<b. nums ! a + nums ! b \<noteq> target))
     \<or> (\<forall>b<length nums. \<forall>a<b. nums ! a + nums ! b \<noteq> target) \<and> res = result"

lemma two_loop:
  assumes fit: "\<forall>x\<in>set nums. \<bar>x\<bar> < 2 ^ 31 \<and> \<bar>target - x\<bar> < 2 ^ 31" and len: "length result = 2"
  shows "e \<le> length nums \<Longrightarrow> holds_keys nums e tab \<Longrightarrow> \<forall>b<e. \<forall>a<b. nums ! a + nums ! b \<noteq> target \<Longrightarrow>
    \<exists>res tab'. loop (two_round nums (int (length nums)) target result) (int e, tab) = Some (res, tab') \<and> two_ok nums target result res"
proof (induction "length nums - e" arbitrary: e tab)
  case 0
  then have "two_round nums (int (length nums)) target result (int e, tab) = Some (Inr (result, tab))"
    by (simp add: two_round_def)
  then show ?case
    using 0 by (auto simp: loop_stop two_ok_def)
next
  case (Suc d)
  have e: "e < length nums"
    using Suc.hyps(2) by simp
  define x where "x = nums ! e"
  have x: "\<bar>x\<bar> < 2 ^ 31" "\<bar>target - x\<bar> < 2 ^ 31"
    using fit e by (simp_all add: x_def)
  have read: "rd nums (int e) = Some x" "chk32 (target - x) = Some (target - x)"
    using e x by (auto simp: rd_of_nat x_def chk32_def)
  from Suc.prems(2) x(2) consider j where "j < e" "search_key (target - x) tab = Some (int j)" "nums ! j = target - x"
    | "search_key (target - x) tab = Some (-1)" "\<forall>j<e. nums ! j \<noteq> target - x"
    unfolding holds_keys_def by blast
  then show ?case
  proof cases
    case (1 j)
    obtain a b where "result = [a, b]"
      using len by (metis (no_types, lifting) One_nat_def Suc_length_conv length_0_conv numeral_2_eq_2)
    then have "two_round nums (int (length nums)) target result (int e, tab) = Some (Inr ([int j, int e], tab))"
      using 1 read e by (simp add: two_round_def wr_def)
    moreover have "two_ok nums target result [int j, int e]"
      unfolding two_ok_def using 1 e Suc.prems(3) by (intro disjI1 exI [of _ j] exI [of _ e]) (simp add: x_def)
    ultimately show ?thesis
      by (simp add: loop_stop)
  next
    case 2
    have tab: "length tab = 10000"
      using Suc.prems(2) by (simp add: holds_keys_def)
    obtain tab' where tab': "insert_key x (int e) tab = Some tab'" "length tab' = 10000" "search_key x tab' = Some (int e)"
        "\<forall>k. \<bar>k\<bar> < 2 ^ 31 \<longrightarrow> k \<noteq> x \<longrightarrow> search_key k tab' = search_key k tab"
      using insert_ok [OF x(1) tab] by blast
    have keys: "(\<exists>j<Suc e. search_key key tab' = Some (int j) \<and> nums ! j = key) \<or> search_key key tab' = Some (-1) \<and> (\<forall>j<Suc e. nums ! j \<noteq> key)"
      if key: "\<bar>key\<bar> < 2 ^ 31" for key
    proof (cases "key = x")
      case True
      then show ?thesis
        using tab'(3) by (intro disjI1 exI [of _ e]) (simp add: x_def)
    next
      case False
      then have "search_key key tab' = search_key key tab"
        using tab'(4) key by simp
      then show ?thesis
        using Suc.prems(2) key False unfolding holds_keys_def x_def by (metis less_Suc_eq)
    qed
    then have "holds_keys nums (Suc e) tab'"
      using tab'(2) by (simp add: holds_keys_def)
    moreover have "\<forall>b<Suc e. \<forall>a<b. nums ! a + nums ! b \<noteq> target"
      using Suc.prems(3) 2(2) by (auto simp: less_Suc_eq x_def)
    moreover have "two_round nums (int (length nums)) target result (int e, tab) = Some (Inl (int (Suc e), tab'))"
      using 2 read e tab'(1) by (simp add: two_round_def add.commute)
    ultimately show ?thesis
      using Suc.hyps(1) [of "Suc e" tab'] Suc.hyps(2) e by (simp add: loop_next)
  qed
qed

text \<open>\<open>twoSum\<close> answers the indices of two numbers with the sum \<open>target\<close>, in order and with the smallest second index, and leaves the
  result array alone when there are none.\<close>

theorem twoSum_correct:
  assumes "\<forall>x\<in>set nums. \<bar>x\<bar> < 2 ^ 31 \<and> \<bar>target - x\<bar> < 2 ^ 31" and "length result = 2"
  shows "\<exists>res tab. twoSum nums (int (length nums)) target result (replicate 10000 []) = Some (res, tab) \<and> two_ok nums target result res"
proof -
  have "search_key key (replicate 10000 []) = Some (-1)" if "\<bar>key\<bar> < 2 ^ 31" for key
    using hash_index_ok [OF that] by (simp add: search_key_def rd_def)
  then have "holds_keys nums 0 (replicate 10000 [])"
    by (simp add: holds_keys_def)
  then show ?thesis
    using two_loop [OF assms, of 0 "replicate 10000 []"] by (simp add: twoSum_def)
qed

text \<open>The numbers of the demonstration.\<close>

theorem twoSum_correct_witness:
  "\<exists>res tab. twoSum [4, 5, 1, 2, 3, -1, -29, 28, 6, 11] 10 (-31) [-1, -1] (replicate 10000 []) = Some (res, tab)
    \<and> two_ok [4, 5, 1, 2, 3, -1, -29, 28, 6, 11] (-31) [-1, -1] res"
  using twoSum_correct [of "[4, 5, 1, 2, 3, -1, -29, 28, 6, 11]" "-31" "[-1, -1]"] by simp

section \<open>Three numbers: correctness\<close>

text \<open>The triples with sum zero at three increasing indices, and those that begin at \<open>i\<close>.\<close>

definition triples_from :: "int list \<Rightarrow> nat \<Rightarrow> triple set" where
  "triples_from xs i = {(xs ! i, xs ! j, xs ! k) | j k. i < j \<and> j < k \<and> k < length xs \<and> xs ! i + xs ! j + xs ! k = 0}"

definition zero_triples :: "int list \<Rightarrow> triple set" where
  "zero_triples xs = (\<Union>i. triples_from xs i)"

lemma zero_triples_within: "zero_triples xs \<subseteq> set xs \<times> set xs \<times> set xs"
  by (auto simp: zero_triples_def triples_from_def)

lemma finite_zero_triples [simp]: "finite (zero_triples xs)"
  by (rule finite_subset [OF zero_triples_within]) simp

lemma card_zero_triples: "card (zero_triples xs) \<le> card (set xs) * (card (set xs) * card (set xs))"
  using card_mono [OF _ zero_triples_within [of xs]] by (simp add: card_cartesian_product)

lemma three_room_ok: "n \<le> 2 ^ 30 \<Longrightarrow> three_room True (int n) = int n * int n * 3"
proof -
  assume "n \<le> 2 ^ 30"
  then have "n * n \<le> 2 ^ 30 * 2 ^ 30"
    by (rule mult_le_mono) fact
  then have "int (n * n) \<le> int (2 ^ 30 * 2 ^ 30)"
    by (simp only: of_nat_le_iff)
  then have "4 * int n * int n * 3 mod 2 ^ 64 = 4 * (int n * int n * 3)"
    by (subst mod_pos_pos_trivial) simp_all
  then show ?thesis
    by (simp add: three_room_def)
qed

lemma store_triple_ok:
  "3 * (length result + 1) < 2 ^ 31 \<Longrightarrow> length result < n * n \<Longrightarrow> store_triple (int n * int n * 3) result t = Some (result @ [t])"
  by (simp add: store_triple_def chk32_def flip: of_nat_mult)

lemma skip_left_ok:
  "l \<le> r \<Longrightarrow> r < length xs \<Longrightarrow> \<exists>l'. skip_left xs (int r) (int l) = Some (int l') \<and> l \<le> l' \<and> l' \<le> r
    \<and> (\<forall>j. l \<le> j \<longrightarrow> j \<le> l' \<longrightarrow> xs ! j = xs ! l) \<and> (l' = r \<or> xs ! l' \<noteq> xs ! Suc l')"
proof (induction "r - l" arbitrary: l)
  case 0
  then have "left_round xs (int r) (int l) = Some (Inr (int l))" "l = r"
    by (simp_all add: left_round_def)
  then show ?case
    by (intro exI [of _ l]) (simp add: skip_left_def loop_stop)
next
  case (Suc d)
  have "l < r"
    using Suc.hyps(2) by simp
  then have round: "left_round xs (int r) (int l) = Some (if xs ! l = xs ! Suc l then Inl (int (Suc l)) else Inr (int l))"
    using Suc.prems by (simp add: left_round_def rd_def nat_add_distrib)
  show ?case
  proof (cases "xs ! l = xs ! Suc l")
    case False
    then show ?thesis
      using round \<open>l < r\<close> by (intro exI [of _ l]) (simp add: skip_left_def loop_stop)
  next
    case True
    have "d = r - Suc l" "Suc l \<le> r"
      using Suc.hyps(2) by simp_all
    from Suc.hyps(1) [OF this Suc.prems(2)] obtain l' where l': "skip_left xs (int r) (int (Suc l)) = Some (int l')" "Suc l \<le> l'" "l' \<le> r"
        "\<forall>j. Suc l \<le> j \<longrightarrow> j \<le> l' \<longrightarrow> xs ! j = xs ! Suc l" "l' = r \<or> xs ! l' \<noteq> xs ! Suc l'"
      by blast
    have "left_round xs (int r) (int l) = Some (Inl (int (Suc l)))"
      using round True by simp
    then have "skip_left xs (int r) (int l) = Some (int l')"
      unfolding skip_left_def using l'(1) by (simp only: skip_left_def loop_next)
    moreover have "\<forall>j. l \<le> j \<longrightarrow> j \<le> l' \<longrightarrow> xs ! j = xs ! l"
      using l'(4) True by (metis le_antisym not_less_eq_eq)
    ultimately show ?thesis
      using l'(2,3,5) Suc_leD by blast
  qed
qed

lemma skip_right_ok:
  "l \<le> r \<Longrightarrow> r < length xs \<Longrightarrow> \<exists>r'. skip_right xs (int l) (int r) = Some (int r') \<and> l \<le> r' \<and> r' \<le> r
    \<and> (\<forall>k. r' \<le> k \<longrightarrow> k \<le> r \<longrightarrow> xs ! k = xs ! r)"
proof (induction "r - l" arbitrary: r)
  case 0
  then have "right_round xs (int l) (int r) = Some (Inr (int r))" "l = r"
    by (simp_all add: right_round_def)
  then show ?case
    by (intro exI [of _ r]) (simp add: skip_right_def loop_stop)
next
  case (Suc d)
  obtain r1 where r1: "r = Suc r1" "l \<le> r1" "d = r1 - l"
    using Suc.hyps(2) by (cases r) auto
  then have round: "right_round xs (int l) (int r) = Some (if xs ! r = xs ! r1 then Inl (int r1) else Inr (int r))"
    using Suc.prems by (simp add: right_round_def rd_def nat_add_distrib)
  show ?case
  proof (cases "xs ! r = xs ! r1")
    case False
    then show ?thesis
      using round Suc.prems(1) by (intro exI [of _ r]) (simp add: skip_right_def loop_stop)
  next
    case True
    have "r1 < length xs"
      using r1(1) Suc.prems(2) by simp
    from Suc.hyps(1) [OF r1(3,2) this] obtain r' where r': "skip_right xs (int l) (int r1) = Some (int r')" "l \<le> r'" "r' \<le> r1"
        "\<forall>k. r' \<le> k \<longrightarrow> k \<le> r1 \<longrightarrow> xs ! k = xs ! r1"
      by blast
    have "right_round xs (int l) (int r) = Some (Inl (int r1))"
      using round True by simp
    then have "skip_right xs (int l) (int r) = Some (int r')"
      unfolding skip_right_def using r'(1) by (simp only: skip_right_def loop_next)
    moreover have "\<forall>k. r' \<le> k \<longrightarrow> k \<le> r \<longrightarrow> xs ! k = xs ! r"
      using r'(4) True r1(1) by (metis le_Suc_eq)
    ultimately show ?thesis
      using r'(2,3) r1(1) le_SucI by blast
  qed
qed

definition pairs_inv :: "int list \<Rightarrow> nat \<Rightarrow> triple list \<Rightarrow> int \<times> int \<times> triple list \<Rightarrow> bool" where
  "pairs_inv xs i old = (\<lambda>(l, r, out). \<exists>new. out = old @ new \<and> distinct new \<and> set new \<subseteq> triples_from xs i
     \<and> int i < l \<and> l \<le> int (length xs) \<and> r < int (length xs) \<and> int (length new) \<le> l - int i - 1
     \<and> (l < r \<longrightarrow> (\<forall>t\<in>set new. fst (snd t) < xs ! nat l))
     \<and> (\<forall>j k. i < j \<longrightarrow> j < k \<longrightarrow> k < length xs \<longrightarrow> xs ! i + xs ! j + xs ! k = 0
         \<longrightarrow> (xs ! i, xs ! j, xs ! k) \<in> set new \<or> l \<le> int j \<and> int k \<le> r))"

definition small_ints :: "int list \<Rightarrow> bool" where
  "small_ints xs \<longleftrightarrow> (\<forall>x\<in>set xs. \<bar>x\<bar> \<le> 2 ^ 29)"

lemma pair_sums:
  assumes "small_ints xs" and "a < length xs" "b < length xs" "c < length xs"
  shows "chk32 (xs ! a + xs ! b) = Some (xs ! a + xs ! b)" and "chk32 (xs ! a + xs ! b + xs ! c) = Some (xs ! a + xs ! b + xs ! c)"
proof -
  have "\<bar>xs ! a\<bar> \<le> 2 ^ 29" "\<bar>xs ! b\<bar> \<le> 2 ^ 29" "\<bar>xs ! c\<bar> \<le> 2 ^ 29"
    using assms by (simp_all add: small_ints_def)
  then have "- (2 ^ 29) \<le> xs ! a" "xs ! a \<le> 2 ^ 29" "- (2 ^ 29) \<le> xs ! b" "xs ! b \<le> 2 ^ 29" "- (2 ^ 29) \<le> xs ! c" "xs ! c \<le> 2 ^ 29"
    by (simp_all add: abs_le_iff)
  then have "- (2 ^ 31) \<le> xs ! a + xs ! b" "xs ! a + xs ! b < 2 ^ 31" "- (2 ^ 31) \<le> xs ! a + xs ! b + xs ! c" "xs ! a + xs ! b + xs ! c < 2 ^ 31"
    by simp_all
  then show "chk32 (xs ! a + xs ! b) = Some (xs ! a + xs ! b)" and "chk32 (xs ! a + xs ! b + xs ! c) = Some (xs ! a + xs ! b + xs ! c)"
    by (simp_all add: chk32_def)
qed

lemma pair_found:
  assumes inv: "pairs_inv xs i old (int l, int r, old @ new)" and sorted: "sorted xs" and lr: "l < r"
    and zero: "xs ! i + xs ! l + xs ! r = 0"
    and skip: "l \<le> l'" "l' \<le> r'" "r' \<le> r" "\<forall>j. l \<le> j \<longrightarrow> j \<le> l' \<longrightarrow> xs ! j = xs ! l" "l' = r \<or> xs ! l' \<noteq> xs ! Suc l'"
      "\<forall>k. r' \<le> k \<longrightarrow> k \<le> r \<longrightarrow> xs ! k = xs ! r"
  shows "pairs_inv xs i old (int l' + 1, int r' - 1, old @ new @ [(xs ! i, xs ! l, xs ! r)])"
proof -
  have D: "distinct new \<and> set new \<subseteq> triples_from xs i \<and> i < l \<and> r < length xs \<and> int (length new) \<le> int l - int i - 1
      \<and> (\<forall>t\<in>set new. fst (snd t) < xs ! l)
      \<and> (\<forall>j k. i < j \<longrightarrow> j < k \<longrightarrow> k < length xs \<longrightarrow> xs ! i + xs ! j + xs ! k = 0 \<longrightarrow> (xs ! i, xs ! j, xs ! k) \<in> set new \<or> l \<le> j \<and> k \<le> r)"
    using inv lr by (simp add: pairs_inv_def)
  note D = D [THEN conjunct1] D [THEN conjunct2, THEN conjunct1] D [THEN conjunct2, THEN conjunct2, THEN conjunct1]
    D [THEN conjunct2, THEN conjunct2, THEN conjunct2, THEN conjunct1] D [THEN conjunct2, THEN conjunct2, THEN conjunct2, THEN conjunct2, THEN conjunct1]
    D [THEN conjunct2, THEN conjunct2, THEN conjunct2, THEN conjunct2, THEN conjunct2, THEN conjunct1]
    D [THEN conjunct2, THEN conjunct2, THEN conjunct2, THEN conjunct2, THEN conjunct2, THEN conjunct2, rule_format]
  let ?t = "(xs ! i, xs ! l, xs ! r)"
  have "distinct (new @ [?t])" "set (new @ [?t]) \<subseteq> triples_from xs i"
    using D(1-4,6) zero lr by (auto simp: triples_from_def)
  moreover have "fst (snd t) < xs ! Suc l'" if "int l' + 1 < int r' - 1" "t \<in> set (new @ [?t])" for t
  proof -
    have "Suc (Suc l') < r'"
      using that(1) by linarith
    then have "l' \<noteq> r" "Suc l' < length xs"
      using skip(3) D(4) by simp_all
    then have ne: "xs ! l' \<noteq> xs ! Suc l'" "Suc l' < length xs"
      using skip(5) by blast+
    moreover have "xs ! l' \<le> xs ! Suc l'"
      using sorted_nth_mono [OF sorted, of l' "Suc l'"] ne(2) by simp
    moreover have "xs ! l' = xs ! l"
      using skip(4) skip(1) by blast
    ultimately have "xs ! l < xs ! Suc l'"
      by simp
    then show ?thesis
      using D(6) that(2) by fastforce
  qed
  moreover have "(xs ! i, xs ! j, xs ! k) \<in> set (new @ [?t]) \<or> int l' + 1 \<le> int j \<and> int k \<le> int r' - 1"
    if jk: "i < j" "j < k" "k < length xs" "xs ! i + xs ! j + xs ! k = 0" for j k
  proof (rule ccontr)
    assume no: "\<not> ?thesis"
    then have "l \<le> j" "k \<le> r"
      using D(7) [OF jk] by auto
    moreover have "j \<le> l' \<or> r' \<le> k"
      using no by auto
    ultimately have "xs ! j = xs ! l \<or> xs ! k = xs ! r"
      using skip(4,6) by blast
    then have "xs ! j = xs ! l" "xs ! k = xs ! r"
      using jk(4) zero by auto
    then show False
      using no by simp
  qed
  ultimately show ?thesis
    using D(3-5) skip(1-3) lr unfolding pairs_inv_def
    by (intro case_prodI exI [of _ "new @ [?t]"] conjI) (auto simp: nat_add_distrib)
qed

lemma pair_step:
  assumes inv: "pairs_inv xs i old st" and sorted: "sorted xs" and small: "small_ints xs"
    and old: "length old \<le> i * length xs"
    and cap: "\<forall>new. distinct new \<longrightarrow> set new \<subseteq> triples_from xs i \<longrightarrow> 3 * (length old + length new) < 2 ^ 31"
    and room_def: "room = int (length xs) * int (length xs) * 3"
  shows "(\<exists>out. pair_round xs room (int i) st = Some (Inr out) \<and>
      (\<exists>new. out = old @ new \<and> distinct new \<and> set new = triples_from xs i \<and> length new \<le> length xs))
    \<or> (\<exists>st'. pair_round xs room (int i) st = Some (Inl st') \<and> pairs_inv xs i old st'
      \<and> nat (fst (snd st') - fst st') < nat (fst (snd st) - fst st))"
proof -
  obtain left right new where st: "st = (left, right, old @ new)" and I: "pairs_inv xs i old (left, right, old @ new)"
    using inv by (cases st) (auto simp: pairs_inv_def)
  have C: "distinct new \<and> set new \<subseteq> triples_from xs i \<and> int i < left \<and> left \<le> int (length xs) \<and> right < int (length xs)
      \<and> int (length new) \<le> left - int i - 1"
    and all: "\<And>j k. i < j \<Longrightarrow> j < k \<Longrightarrow> k < length xs \<Longrightarrow> xs ! i + xs ! j + xs ! k = 0 \<Longrightarrow> (xs ! i, xs ! j, xs ! k) \<in> set new \<or> left \<le> int j \<and> int k \<le> right"
    and fresh: "left < right \<Longrightarrow> t \<in> set new \<Longrightarrow> fst (snd t) < xs ! nat left" for t
    using I by (simp_all add: pairs_inv_def)
  show ?thesis
  proof (cases "left < right")
    case False
    have "triples_from xs i \<subseteq> set new"
    proof
      fix t assume "t \<in> triples_from xs i"
      then obtain j k where jk: "t = (xs ! i, xs ! j, xs ! k)" "i < j" "j < k" "k < length xs" "xs ! i + xs ! j + xs ! k = 0"
        by (auto simp: triples_from_def)
      then show "t \<in> set new"
        using all [of j k] False by auto
    qed
    moreover have "length new \<le> length xs"
      using C by linarith
    moreover have "pair_round xs room (int i) st = Some (Inr (old @ new))"
      using False by (simp add: pair_round_def st)
    ultimately show ?thesis
      using C by blast
  next
    case True
    obtain l r where lr: "left = int l" "right = int r" "l < r"
      using True C by (metis less_imp_le nonneg_int_cases of_nat_0_le_iff of_nat_less_imp_less order.strict_trans1)
    have il: "i < l" "r < length xs"
      using C lr by auto
    have reads: "rd xs (int i) = Some (xs ! i)" "rd xs left = Some (xs ! l)" "rd xs right = Some (xs ! r)"
      using il lr by (simp_all add: rd_of_nat)
    have sums: "chk32 (xs ! i + xs ! l) = Some (xs ! i + xs ! l)" "chk32 (xs ! i + xs ! l + xs ! r) = Some (xs ! i + xs ! l + xs ! r)"
      using pair_sums [OF small, of i l r] il lr(3) by simp_all
    consider (found) "xs ! i + xs ! l + xs ! r = 0" | (neg) "xs ! i + xs ! l + xs ! r < 0" | (pos) "xs ! i + xs ! l + xs ! r > 0"
      by linarith
    then show ?thesis
    proof cases
      case found
      have "int (length new) \<le> int l - int i - 1"
        using C lr(1) by simp
      then have "length new \<le> l - i - 1"
        by linarith
      then have "length (old @ new) \<le> i * length xs + (l - i - 1)"
        using old by simp
      also have "\<dots> < i * length xs + length xs"
        using il lr(3) by simp
      also have "\<dots> \<le> length xs * length xs"
        using il lr(3) mult_le_mono1 [of "Suc i" "length xs" "length xs"] by simp
      finally have space: "length (old @ new) < length xs * length xs" .
      obtain l' where l': "skip_left xs (int r) (int l) = Some (int l')" "l \<le> l'" "l' \<le> r"
          "\<forall>j. l \<le> j \<longrightarrow> j \<le> l' \<longrightarrow> xs ! j = xs ! l" "l' = r \<or> xs ! l' \<noteq> xs ! Suc l'"
        using skip_left_ok [OF less_imp_le [OF lr(3)] il(2)] by blast
      obtain r' where r': "skip_right xs (int l') (int r) = Some (int r')" "l' \<le> r'" "r' \<le> r" "\<forall>k. r' \<le> k \<longrightarrow> k \<le> r \<longrightarrow> xs ! k = xs ! r"
        using skip_right_ok [OF l'(3) il(2)] by blast
      have inv': "pairs_inv xs i old (int l' + 1, int r' - 1, old @ new @ [(xs ! i, xs ! l, xs ! r)])"
        using pair_found [OF I [unfolded lr(1,2)] sorted lr(3) found l'(2) r'(2,3) l'(4,5) r'(4)] .
      then have "distinct (new @ [(xs ! i, xs ! l, xs ! r)])" "set (new @ [(xs ! i, xs ! l, xs ! r)]) \<subseteq> triples_from xs i"
        by (auto simp: pairs_inv_def)
      then have "3 * (length (old @ new) + 1) < 2 ^ 31"
        using cap [rule_format, of "new @ [(xs ! i, xs ! l, xs ! r)]"] by simp
      from store_triple_ok [OF this space]
      have "pair_round xs room (int i) st = Some (Inl (int l' + 1, int r' - 1, old @ new @ [(xs ! i, xs ! l, xs ! r)]))"
        unfolding st pair_round_def room_def using True reads sums found l'(1) r'(1) lr(1,2) by simp
      then show ?thesis using inv'
        using l'(2) r'(3) lr unfolding st by (intro disjI2) auto
    next
      case neg
      have "pair_round xs room (int i) st = Some (Inl (left + 1, right, old @ new))"
        unfolding st pair_round_def using True reads sums neg by simp
      moreover have "fst (snd t) < xs ! nat (left + 1)" if "left + 1 < right" "t \<in> set new" for t
        using fresh [OF True that(2)] sorted_nth_mono [OF sorted, of l "Suc l"] that(1) il lr by (simp add: nat_add_distrib)
      moreover have "(xs ! i, xs ! j, xs ! k) \<in> set new \<or> left + 1 \<le> int j \<and> int k \<le> right"
        if jk: "i < j" "j < k" "k < length xs" "xs ! i + xs ! j + xs ! k = 0" for j k
      proof -
        have "j \<noteq> l" if "int k \<le> right"
          using sorted_nth_mono [OF sorted, of k r] that jk neg il lr(2) by auto
        then show ?thesis
          using all [OF jk] lr(1) by auto
      qed
      ultimately show ?thesis
        using C True unfolding st by (intro disjI2 exI [of _ "(left + 1, right, old @ new)"]) (auto simp: pairs_inv_def)
    next
      case pos
      have "pair_round xs room (int i) st = Some (Inl (left, right - 1, old @ new))"
        unfolding st pair_round_def using True reads sums pos by simp
      moreover have "(xs ! i, xs ! j, xs ! k) \<in> set new \<or> left \<le> int j \<and> int k \<le> right - 1"
        if jk: "i < j" "j < k" "k < length xs" "xs ! i + xs ! j + xs ! k = 0" for j k
      proof -
        have "k \<noteq> r" if "left \<le> int j"
          using sorted_nth_mono [OF sorted, of l j] that jk pos il lr(1) by auto
        then show ?thesis
          using all [OF jk] lr(2) by auto
      qed
      ultimately show ?thesis
        using C True fresh unfolding st by (intro disjI2 exI [of _ "(left, right - 1, old @ new)"]) (auto simp: pairs_inv_def)
    qed
  qed
qed

lemma triples_same: "0 < i \<Longrightarrow> xs ! i = xs ! (i - 1) \<Longrightarrow> triples_from xs i \<subseteq> triples_from xs (i - 1)"
  by (fastforce simp: triples_from_def)

lemma triples_first: "t \<in> triples_from xs i \<Longrightarrow> fst t = xs ! i"
  by (auto simp: triples_from_def)

definition triples_found :: "int list \<Rightarrow> nat \<Rightarrow> triple list \<Rightarrow> bool" where
  "triples_found xs i out \<longleftrightarrow> distinct out \<and> set out = (\<Union>a<i. triples_from xs a) \<and> length out \<le> i * length xs"

lemma three_step:
  assumes found: "triples_found xs i out" and i: "i + 2 < length xs" and sorted: "sorted xs" and small: "small_ints xs"
    and few: "card (zero_triples xs) \<le> 715827882" and room_def: "room = int (length xs) * int (length xs) * 3"
  shows "\<exists>out'. three_round xs (int (length xs)) room (int i) out = Some out' \<and> triples_found xs (Suc i) out'"
proof (cases "0 < i \<and> xs ! i = xs ! (i - 1)")
  case True
  then have "three_round xs (int (length xs)) room (int i) out = Some out"
    using i by (simp add: three_round_def rd_def nat_diff_distrib)
  moreover have "triples_from xs i \<subseteq> (\<Union>a<i. triples_from xs a)"
    using triples_same [of i xs] True by fastforce
  then have "triples_found xs (Suc i) out"
    using found by (auto simp: triples_found_def lessThan_Suc)
  ultimately show ?thesis
    by blast
next
  case False
  have start: "pairs_inv xs i out (int i + 1, int (length xs) - 1, out)"
    unfolding pairs_inv_def using i by (intro case_prodI exI [of _ "[]"]) auto
  have apart: "set out \<inter> triples_from xs i = {}"
  proof (rule ccontr)
    assume "set out \<inter> triples_from xs i \<noteq> {}"
    then obtain t a where "t \<in> triples_from xs a" "t \<in> triples_from xs i" "a < i"
      using found by (auto simp: triples_found_def)
    then have "xs ! a = xs ! i" "a \<le> i - 1" "0 < i"
      using triples_first [of t xs a] triples_first [of t xs i] by simp_all
    then have "xs ! (i - 1) = xs ! i"
      using sorted_nth_mono [OF sorted, of a "i - 1"] sorted_nth_mono [OF sorted, of "i - 1" i] i by simp
    then show False
      using False \<open>0 < i\<close> by simp
  qed
  have old: "length out \<le> i * length xs" "distinct out" "set out \<subseteq> zero_triples xs"
    using found by (auto simp: triples_found_def zero_triples_def)
  have cap: "\<forall>new. distinct new \<longrightarrow> set new \<subseteq> triples_from xs i \<longrightarrow> 3 * (length out + length new) < 2 ^ 31"
  proof (intro allI impI)
    fix new assume new: "distinct new" "set new \<subseteq> triples_from xs i"
    then have "distinct (out @ new)" "set (out @ new) \<subseteq> zero_triples xs"
      using old(2,3) apart by (auto simp: zero_triples_def)
    then have "length (out @ new) \<le> card (zero_triples xs)"
      by (metis card_mono distinct_card finite_zero_triples)
    then show "3 * (length out + length new) < 2 ^ 31"
      using few by simp
  qed
  obtain out' where out': "loop (pair_round xs room (int i)) (int i + 1, int (length xs) - 1, out) = Some out'"
      "\<exists>new. out' = out @ new \<and> distinct new \<and> set new = triples_from xs i \<and> length new \<le> length xs"
    using loop_total [where P = "pairs_inv xs i out" and m = "\<lambda>st. nat (fst (snd st) - fst st)" and body = "pair_round xs room (int i)"
        and Q = "\<lambda>out'. \<exists>new. out' = out @ new \<and> distinct new \<and> set new = triples_from xs i \<and> length new \<le> length xs", OF start]
      pair_step [OF _ sorted small old(1) cap room_def] by blast
  have "three_round xs (int (length xs)) room (int i) out = Some out'"
    using False i out'(1) by (auto simp: three_round_def rd_def nat_diff_distrib)
  moreover have "triples_found xs (Suc i) out'"
    using found out'(2) apart by (auto simp: triples_found_def lessThan_Suc)
  ultimately show ?thesis
    by blast
qed

text \<open>C39: \<open>threeSum\<close> sorts the array and answers every triple of numbers at three different positions with sum zero, each exactly once, and
  writes them within its result array. The numbers are at most \<open>2 ^ 29\<close> in absolute value, so that no sum or difference overflows; the array
  has at most \<open>2 ^ 30\<close> numbers, so that the size allocated does not wrap around; the memory is allocated; and there are at most 715827882
  triples, the most for which the index \<open>(*returnSize) * 3 + 2\<close> stays in the range of \<open>int\<close>.\<close>

theorem threeSum_correct:
  assumes "small_ints nums" and "length nums \<le> 2 ^ 30" and "card (zero_triples (sort nums)) \<le> 715827882"
  shows "\<exists>res. threeSum True nums (int (length nums)) = Some (sort nums, res) \<and> distinct res \<and> set res = zero_triples (sort nums)"
proof -
  define xs where "xs = sort nums"
  have xs: "sorted xs" "small_ints xs" "length xs = length nums"
    using assms(1) by (simp_all add: xs_def small_ints_def)
  have "chk32 (x - y) \<noteq> None" if "x \<in> set nums" "y \<in> set nums" for x y
  proof -
    have "\<bar>x\<bar> \<le> 2 ^ 29" "\<bar>y\<bar> \<le> 2 ^ 29"
      using assms(1) that by (simp_all add: small_ints_def)
    then show ?thesis
      by (simp add: chk32_def abs_le_iff)
  qed
  then have sort: "sort_ints nums = Some xs"
    by (simp add: sort_ints_def xs_def)
  define n where "n = length xs - 2"
  define room where "room = three_room True (int (length xs))"
  have room: "room = int (length xs) * int (length xs) * 3"
    using assms(2) xs(3) by (simp add: room_def three_room_ok)
  have few: "card (zero_triples xs) \<le> 715827882"
    using assms(3) by (simp add: xs_def)
  have zero: "zero_triples xs = (\<Union>a<n. triples_from xs a)"
  proof
    show "zero_triples xs \<subseteq> (\<Union>a<n. triples_from xs a)"
    proof
      fix t assume "t \<in> zero_triples xs"
      then obtain i where "t \<in> triples_from xs i"
        by (auto simp: zero_triples_def)
      moreover from this have "i < n"
        by (auto simp: triples_from_def n_def)
      ultimately show "t \<in> (\<Union>a<n. triples_from xs a)"
        by blast
    qed
  qed (auto simp: zero_triples_def)
  have "\<exists>res. for_up 0 (int n) (three_round xs (int (length xs)) room) [] = Some res \<and> 0 \<le> int n \<and> triples_found xs (nat (int n)) res"
  proof (rule for_up_total [where P = "\<lambda>i res. 0 \<le> i \<and> triples_found xs (nat i) res"])
    show "\<exists>u. three_round xs (int (length xs)) room j t = Some u \<and> 0 \<le> j + 1 \<and> triples_found xs (nat (j + 1)) u"
      if "0 \<le> j" "j < int n" "0 \<le> j \<and> triples_found xs (nat j) t" for j t
      using three_step [of xs "nat j" t, OF _ _ xs(1,2) few room] that by (auto simp: n_def nat_add_distrib)
  qed (simp_all add: triples_found_def)
  moreover have "for_up 0 (int (length xs) - 2) (three_round xs (int (length xs)) room) [] = for_up 0 (int n) (three_round xs (int (length xs)) room) []"
  proof (cases "2 \<le> length xs")
    case True
    then show ?thesis
      by (simp add: n_def of_nat_diff)
  next
    case False
    then show ?thesis
      by (simp add: n_def for_up_empty)
  qed
  ultimately obtain res where res: "for_up 0 (int (length xs) - 2) (three_round xs (int (length xs)) room) [] = Some res" "triples_found xs n res"
    by auto
  then have "threeSum True nums (int (length nums)) = Some (xs, res)"
    using sort xs(3) by (simp add: threeSum_def room_def)
  then show ?thesis
    using res(2) zero by (simp add: triples_found_def xs_def)
qed

text \<open>The numbers of the demonstration.\<close>

theorem threeSum_correct_witness:
  "\<exists>res. threeSum True [-1, 0, 1, 2, -1, -4] 6 = Some ([-4, -1, -1, 0, 1, 2], res) \<and> set res = zero_triples [-4, -1, -1, 0, 1, 2]"
proof -
  have "card (zero_triples [-4, -1, -1, 0, 1, 2]) \<le> 125"
    using card_zero_triples [of "[-4, -1, -1, 0, 1, 2]"] by simp
  then show ?thesis
    using threeSum_correct [of "[-1, 0, 1, 2, -1, -4]"] by (auto simp: small_ints_def)
qed

section \<open>Runs of digits: correctness\<close>

definition digit_run :: "bytes \<Rightarrow> nat \<Rightarrow> nat \<Rightarrow> bool" where
  "digit_run s i j \<longleftrightarrow> i < j \<and> j \<le> length s \<and> (\<forall>k. i \<le> k \<longrightarrow> k < j \<longrightarrow> is_digit (s ! k))
     \<and> (\<forall>k. i \<le> k \<longrightarrow> Suc k < j \<longrightarrow> sint (s ! k) + 1 = sint (s ! Suc k))"

text \<open>\<open>d\<close> is the length of the longest run that ends with the character at \<open>k\<close>, or 1.\<close>

definition run_ends :: "bytes \<Rightarrow> nat \<Rightarrow> int \<Rightarrow> bool" where
  "run_ends s k d \<longleftrightarrow> (\<forall>i. digit_run s i (Suc k) \<longrightarrow> int (Suc k - i) \<le> d) \<and> (d = 1 \<or> (\<exists>i. digit_run s i (Suc k) \<and> d = int (Suc k - i)))"

lemma all_from_last: "(\<forall>j. n \<le> j \<longrightarrow> j < Suc n \<longrightarrow> P j) \<longleftrightarrow> P n"
  by (metis le_antisym less_Suc_eq_le lessI order_refl)

lemma digit_run_Suc:
  "digit_run s i (Suc (Suc k)) \<longleftrightarrow> Suc (Suc k) \<le> length s \<and> is_digit (s ! Suc k)
    \<and> (i = Suc k \<or> digit_run s i (Suc k) \<and> sint (s ! k) + 1 = sint (s ! Suc k))"
proof
  assume L: "digit_run s i (Suc (Suc k))"
  then have R: "i \<le> Suc k" "Suc (Suc k) \<le> length s" "\<forall>j. i \<le> j \<longrightarrow> j < Suc (Suc k) \<longrightarrow> is_digit (s ! j)"
      "\<forall>j. i \<le> j \<longrightarrow> Suc j < Suc (Suc k) \<longrightarrow> sint (s ! j) + 1 = sint (s ! Suc j)"
    by (simp_all add: digit_run_def)
  moreover have "is_digit (s ! Suc k)"
    using R(1,3) by blast
  moreover have "sint (s ! k) + 1 = sint (s ! Suc k)" if "i \<noteq> Suc k"
    using R(1,4) that by simp
  moreover have "digit_run s i (Suc k)" if "i \<noteq> Suc k"
    using R that unfolding digit_run_def by simp
  ultimately show "Suc (Suc k) \<le> length s \<and> is_digit (s ! Suc k)
      \<and> (i = Suc k \<or> digit_run s i (Suc k) \<and> sint (s ! k) + 1 = sint (s ! Suc k))"
    by blast
next
  assume "Suc (Suc k) \<le> length s \<and> is_digit (s ! Suc k)
      \<and> (i = Suc k \<or> digit_run s i (Suc k) \<and> sint (s ! k) + 1 = sint (s ! Suc k))"
  then show "digit_run s i (Suc (Suc k))"
  proof (elim conjE disjE)
    assume "Suc (Suc k) \<le> length s" "is_digit (s ! Suc k)" "i = Suc k"
    then show ?thesis
      by (simp add: digit_run_def all_from_last)
  next
    assume A: "Suc (Suc k) \<le> length s" "is_digit (s ! Suc k)" "digit_run s i (Suc k)" "sint (s ! k) + 1 = sint (s ! Suc k)"
    have "is_digit (s ! j)" if "i \<le> j" "j < Suc (Suc k)" for j
      using A(2,3) that by (cases "j = Suc k") (simp_all add: digit_run_def)
    moreover have "sint (s ! j) + 1 = sint (s ! Suc j)" if "i \<le> j" "Suc j < Suc (Suc k)" for j
      using A(3,4) that by (cases "j = k") (simp_all add: digit_run_def)
    ultimately show ?thesis
      using A(1,3) unfolding digit_run_def by simp
  qed
qed

lemma run_extends:
  assumes "run_ends s k d" and "Suc k < length s"
  shows "run_ends s (Suc k) (if sint (s ! k) + 1 = sint (s ! Suc k) \<and> is_digit (s ! Suc k) \<and> is_digit (s ! k) then d + 1 else 1)"
proof (cases "sint (s ! k) + 1 = sint (s ! Suc k) \<and> is_digit (s ! Suc k) \<and> is_digit (s ! k)")
  case True
  have one: "digit_run s k (Suc k)"
    using True assms(2) by (auto simp: digit_run_def less_Suc_eq)
  have ge: "int (Suc k - i) \<le> d" if "digit_run s i (Suc k)" for i
    using assms(1) that by (simp add: run_ends_def)
  have le: "int (Suc (Suc k) - i) \<le> d + 1" if "digit_run s i (Suc (Suc k))" for i
  proof (cases "i = Suc k")
    case True
    then show ?thesis
      using ge [OF one] by simp
  next
    case False
    then have "digit_run s i (Suc k)"
      using that by (simp add: digit_run_Suc)
    then show ?thesis
      using ge [of i] by (simp add: digit_run_def Suc_diff_le)
  qed
  obtain i where "digit_run s i (Suc k)" "d = int (Suc k - i)"
    using assms(1) one by (auto simp: run_ends_def)
  then have "digit_run s i (Suc (Suc k))" "d + 1 = int (Suc (Suc k) - i)"
    using True assms(2) by (simp add: digit_run_Suc, simp add: digit_run_def Suc_diff_le)
  then show ?thesis
    using le True by (auto simp: run_ends_def)
next
  case False
  have "i = Suc k" if "digit_run s i (Suc (Suc k))" for i
    using that False unfolding digit_run_Suc by (auto simp: digit_run_def)
  then have "int (Suc (Suc k) - i) \<le> 1" if "digit_run s i (Suc (Suc k))" for i
    using that by fastforce
  then show ?thesis
    unfolding if_not_P [OF False] by (simp add: run_ends_def)
qed

definition longest_ok :: "bytes \<Rightarrow> nat \<Rightarrow> int list \<times> int \<Rightarrow> bool" where
  "longest_ok s e = (\<lambda>(dp, m). length dp = length s \<and> (\<forall>k<e. run_ends s k (dp ! k)) \<and> (\<forall>k. e \<le> k \<longrightarrow> k < length s \<longrightarrow> dp ! k = 1)
     \<and> 1 \<le> m \<and> (\<forall>k<e. dp ! k \<le> m) \<and> (m = 1 \<or> (\<exists>k<e. m = dp ! k)))"

lemma longest_round_ok:
  assumes ok: "longest_ok s (Suc k) (dp, m)" and k: "Suc k < length s"
  shows "\<exists>t. longest_round s (int (Suc k)) (dp, m) = Some t \<and> longest_ok s (Suc (Suc k)) t"
proof -
  have D: "length dp = length s" "\<forall>j<Suc k. run_ends s j (dp ! j)" "\<forall>j. Suc k \<le> j \<longrightarrow> j < length s \<longrightarrow> dp ! j = 1"
      "1 \<le> m" "\<forall>j<Suc k. dp ! j \<le> m" "m = 1 \<or> (\<exists>j<Suc k. m = dp ! j)"
    using ok by (simp_all add: longest_ok_def)
  define b where "b \<longleftrightarrow> sint (s ! k) + 1 = sint (s ! Suc k) \<and> is_digit (s ! Suc k) \<and> is_digit (s ! k)"
  define d where "d = (if b then dp ! k + 1 else 1)"
  define dp' where "dp' = dp[Suc k := d]"
  have same: "dp' = (if b then dp[Suc k := dp ! k + 1] else dp)"
    using D(1,3) k by (auto simp: dp'_def d_def list_update_same_conv)
  have run: "run_ends s (Suc k) d"
    using run_extends [of s k "dp ! k"] D(2) k unfolding d_def b_def by simp
  have "\<forall>j<Suc (Suc k). run_ends s j (dp' ! j)"
    using D(1,2) run k by (auto simp: dp'_def less_Suc_eq)
  moreover have "\<forall>j<Suc (Suc k). dp' ! j \<le> max m d"
    using D(1,5) k by (auto simp: dp'_def less_Suc_eq le_max_iff_disj)
  moreover have "max m d = 1 \<or> (\<exists>j<Suc (Suc k). max m d = dp' ! j)"
  proof (cases "m \<le> d")
    case True
    then show ?thesis
      using D(1) k by (intro disjI2 exI [of _ "Suc k"]) (simp add: dp'_def)
  next
    case False
    then show ?thesis
      using D(6) by (auto simp: dp'_def less_Suc_eq nth_list_update)
  qed
  ultimately have "longest_ok s (Suc (Suc k)) (dp', max m d)"
    using D(1,3,4) by (simp add: longest_ok_def dp'_def)
  moreover have "longest_round s (int (Suc k)) (dp, m) = Some (dp', max m d)"
  proof -
    have cells: "rd s (int (Suc k) - 1) = Some (s ! k)" "rd s (int (Suc k)) = Some (s ! Suc k)" "rd dp (int (Suc k) - 1) = Some (dp ! k)"
        "wr dp (int (Suc k)) v = Some (dp[Suc k := v])" for v
      using D(1) k by (simp_all add: rd_def wr_def nat_add_distrib)
    show ?thesis
    proof (cases b)
      case True
      then have c: "sint (s ! k) + 1 = sint (s ! Suc k) \<and> is_digit (s ! Suc k) \<and> is_digit (s ! k)"
        by (simp only: b_def)
      then show ?thesis
        unfolding longest_round_def prod.case cells bind.bind_lunit if_P [OF c]
        using True by (simp add: same d_def max_def)
    next
      case False
      then have c: "\<not> (sint (s ! k) + 1 = sint (s ! Suc k) \<and> is_digit (s ! Suc k) \<and> is_digit (s ! k))"
        unfolding b_def .
      then show ?thesis
        unfolding longest_round_def prod.case cells bind.bind_lunit if_not_P [OF c]
        using False D(4) by (simp add: same d_def max_def)
    qed
  qed
  ultimately show ?thesis
    by blast
qed

text \<open>\<open>longestIncreasingDigits\<close> answers the length of the longest run of consecutive ascending digits, or 1 when there is none.\<close>

theorem longestIncreasingDigits_correct:
  assumes "s \<noteq> []" and "length s < 2 ^ 31"
  shows "\<exists>m. longestIncreasingDigits s = Some (int m) \<and> (\<forall>i j. digit_run s i j \<longrightarrow> j - i \<le> m)
    \<and> (m = 1 \<or> (\<exists>i j. digit_run s i j \<and> j - i = m))"
proof -
  have start: "longest_ok s 1 (replicate (length s) 1, 1)"
    using assms(1) by (auto simp: longest_ok_def run_ends_def digit_run_def)
  have "\<exists>t. for_up 1 (int (length s)) (longest_round s) (replicate (length s) 1, 1) = Some t
      \<and> 1 \<le> int (length s) \<and> longest_ok s (nat (int (length s))) t"
  proof (rule for_up_total [where P = "\<lambda>i t. 1 \<le> i \<and> longest_ok s (nat i) t"])
    show "1 \<le> int (length s)"
      using assms(1) by (cases s) auto
    show "\<exists>u. longest_round s j t = Some u \<and> 1 \<le> j + 1 \<and> longest_ok s (nat (j + 1)) u"
      if j: "1 \<le> j" "j < int (length s)" "1 \<le> j \<and> longest_ok s (nat j) t" for j t
    proof -
      obtain k where k: "j = int (Suc k)"
        using j(1) by (metis Suc_nat_eq_nat_zadd1 diff_add_cancel int_nat_eq le_diff_eq zle_iff_zadd add.commute add_0 nonneg_int_cases of_nat_Suc)
      then have "nat j = Suc k" "nat (j + 1) = Suc (Suc k)" "Suc k < length s"
        using j(2) by simp_all
      then show ?thesis
        using longest_round_ok [of s k "fst t" "snd t"] j(3) k by auto
    qed
  qed (use start in simp_all)
  then obtain dp m where r: "for_up 1 (int (length s)) (longest_round s) (replicate (length s) 1, 1) = Some (dp, m)" "longest_ok s (length s) (dp, m)"
    by auto
  have ends: "\<forall>k<length s. run_ends s k (dp ! k) \<and> dp ! k \<le> m" "1 \<le> m" "m = 1 \<or> (\<exists>k<length s. m = dp ! k)"
    using r(2) by (auto simp: longest_ok_def)
  define n where "n = nat m"
  have n: "m = int n"
    using ends(2) by (simp add: n_def)
  have "j - i \<le> n" if run: "digit_run s i j" for i j
  proof -
    obtain k where "j = Suc k" "k < length s"
      using run by (cases j) (auto simp: digit_run_def)
    then have "int (j - i) \<le> m"
      using ends(1) run unfolding run_ends_def by fastforce
    then show ?thesis
      by (simp add: n)
  qed
  moreover have "n = 1 \<or> (\<exists>i j. digit_run s i j \<and> j - i = n)"
  proof (cases "m = 1")
    case False
    then obtain k where "k < length s" "m = dp ! k" "run_ends s k m"
      using ends by auto
    then show ?thesis
      using False n unfolding run_ends_def by (metis of_nat_eq_iff)
  qed (use n in simp)
  ultimately show ?thesis
    using r(1) assms n by (intro exI [of _ n]) (simp add: longestIncreasingDigits_def chk32_def)
qed

theorem longestIncreasingDigits_correct_witness:
  "\<exists>m. longestIncreasingDigits [97, 52, 53, 54, 98] = Some (int m) \<and> 3 \<le> m"
proof -
  have "digit_run [97, 52, 53, 54, 98] 1 4"
    by (auto simp: digit_run_def is_digit_def nth_Cons' less_Suc_eq numeral_eq_Suc)
  then show ?thesis
    using longestIncreasingDigits_correct [of "[97, 52, 53, 54, 98]"] by fastforce
qed

text \<open>\<open>findMaxIncreasingDigits\<close> only looks at a run when the next one begins: a run that is the last one is never printed.\<close>

lemma find_misses_last_run: "findMaxIncreasingDigits [49, 50, 51] = Some []"
  by (simp add: findMaxIncreasingDigits_def chk32_def digits_round_def for_up_step for_up_empty rd_def is_digit_def)

end
