(* ===== verification/SkipList.thy ===== *)
theory SkipList
  imports Loops Interfaces
begin

text \<open>
  The skip list of C/99_demo/12_skip_list/test_main.c. A heap maps addresses to nodes, each with its key, its
  level and the array of its successors on every level; 0 is \<open>NULL\<close>. The random numbers are a parameter:
  \<open>coin n\<close> says whether the \<open>n\<close>-th number drawn lies below the probability. \<open>malloc\<close> is a parameter as well, and 0 its
  answer when there is no memory; a node and its array are one allocation. The result is that the list is a set
  of keys, stays in its arrays, leaks nothing, and keeps the lists of its levels sorted, one inside the other.
\<close>

section \<open>The program\<close>

definition MAX_LEVEL :: nat where "MAX_LEVEL = 16"

record skip_node =
  sk_key :: int
  sk_level :: nat
  sk_forward :: "nat list"

type_synonym skip_heap = "nat \<Rightarrow> skip_node option"

text \<open>\<open>drawn\<close> counts the calls of \<open>rand\<close>.\<close>

record skip_list =
  sl_level :: nat
  sl_header :: nat
  sl_heap :: skip_heap
  sl_drawn :: nat

type_synonym skip_malloc = "skip_heap \<Rightarrow> nat"

text \<open>The address of the new node, and the heap with it.\<close>

definition createNode :: "skip_malloc \<Rightarrow> skip_heap \<Rightarrow> int \<Rightarrow> nat \<Rightarrow> nat \<times> skip_heap" where
  "createNode malloc h key level = (let newNode = malloc h in
     if newNode = 0 then (0, h)
     else (newNode, h(newNode \<mapsto> \<lparr>sk_key = key, sk_level = level, sk_forward = replicate level 0\<rparr>)))"

definition createSkipList :: "skip_malloc \<Rightarrow> skip_list" where
  "createSkipList malloc = (let (header, h) = createNode malloc Map.empty (-1) MAX_LEVEL in
     \<lparr>sl_level = 1, sl_header = header, sl_heap = h, sl_drawn = 0\<rparr>)"

text \<open>A number is drawn before the level is compared with the greatest one.\<close>

function randomLevel_from :: "(nat \<Rightarrow> bool) \<Rightarrow> nat \<Rightarrow> nat \<Rightarrow> nat \<times> nat" where
  "randomLevel_from coin drawn level =
     (if coin drawn \<and> level < MAX_LEVEL then randomLevel_from coin (drawn + 1) (level + 1) else (level, drawn + 1))"
  by pat_completeness auto
termination
  by (relation "measure (\<lambda>(_, _, level). MAX_LEVEL - level)") auto

declare randomLevel_from.simps [simp del]

definition randomLevel :: "(nat \<Rightarrow> bool) \<Rightarrow> nat \<Rightarrow> nat \<times> nat" where
  "randomLevel coin drawn = randomLevel_from coin drawn 1"

definition forward :: "skip_heap \<Rightarrow> nat \<Rightarrow> nat \<Rightarrow> nat option" where
  "forward h p i = do { n \<leftarrow> h p; urd (sk_forward n) i }"

definition set_forward :: "skip_heap \<Rightarrow> nat \<Rightarrow> nat \<Rightarrow> nat \<Rightarrow> skip_heap option" where
  "set_forward h p i q = do { n \<leftarrow> h p; f \<leftarrow> uwr (sk_forward n) i q; Some (h(p \<mapsto> n\<lparr>sk_forward := f\<rparr>)) }"

text \<open>The walk along one level, and down all of them; the second answers the node reached and \<open>update\<close>, the
  last node before the key on every level, from the lowest one up.\<close>

definition walk_step :: "skip_heap \<Rightarrow> int \<Rightarrow> nat \<Rightarrow> nat \<Rightarrow> (nat + nat) option" where
  "walk_step h key i current = do {
     f \<leftarrow> forward h current i;
     if f = 0 then Some (Inr current)
     else do {
       n \<leftarrow> h f;
       if sk_key n < key then Some (Inl f) else Some (Inr current) } }"

definition walk :: "skip_heap \<Rightarrow> int \<Rightarrow> nat \<Rightarrow> nat \<Rightarrow> nat option" where
  "walk h key i current = loop (walk_step h key i) current"

fun descend :: "skip_heap \<Rightarrow> int \<Rightarrow> nat \<Rightarrow> nat \<Rightarrow> (nat \<times> nat list) option" where
  "descend h key 0 current = Some (current, [])"
| "descend h key (Suc i) current = do {
     current \<leftarrow> walk h key i current;
     (final, update) \<leftarrow> descend h key i current;
     Some (final, update @ [current]) }"

text \<open>The node of the key behind the node reached, 0 when it is not there.\<close>

definition at_key :: "skip_heap \<Rightarrow> int \<Rightarrow> nat \<Rightarrow> nat option" where
  "at_key h key current = do {
     c \<leftarrow> forward h current 0;
     if c = 0 then Some 0 else do { n \<leftarrow> h c; Some (if sk_key n = key then c else 0) } }"

fun link_levels :: "skip_heap \<Rightarrow> nat \<Rightarrow> nat list \<Rightarrow> nat \<Rightarrow> nat \<Rightarrow> skip_heap option" where
  "link_levels h new update i 0 = Some h"
| "link_levels h new update i (Suc n) = do {
     u \<leftarrow> urd update i;
     f \<leftarrow> forward h u i;
     h \<leftarrow> set_forward h new i f;
     h \<leftarrow> set_forward h u i new;
     link_levels h new update (i + 1) n }"

definition skip_insert :: "skip_malloc \<Rightarrow> (nat \<Rightarrow> bool) \<Rightarrow> skip_list \<Rightarrow> int \<Rightarrow> skip_list option" where
  "skip_insert malloc coin l key = do {
     (current, update) \<leftarrow> descend (sl_heap l) key (sl_level l) (sl_header l);
     found \<leftarrow> at_key (sl_heap l) key current;
     if found \<noteq> 0 then Some l
     else do {
       let (newLevel, drawn) = randomLevel coin (sl_drawn l);
       let update = (if sl_level l < newLevel then update @ replicate (newLevel - sl_level l) (sl_header l) else update);
       let level = (if sl_level l < newLevel then newLevel else sl_level l);
       let (newNode, h) = createNode malloc (sl_heap l) key newLevel;
       h \<leftarrow> link_levels h newNode update 0 newLevel;
       Some (l\<lparr>sl_level := level, sl_heap := h, sl_drawn := drawn\<rparr>) } }"

fun unlink_levels :: "skip_heap \<Rightarrow> nat \<Rightarrow> nat list \<Rightarrow> nat \<Rightarrow> nat \<Rightarrow> skip_heap option" where
  "unlink_levels h current update i 0 = Some h"
| "unlink_levels h current update i (Suc n) = do {
     u \<leftarrow> urd update i;
     f \<leftarrow> forward h u i;
     if f \<noteq> current then Some h
     else do {
       f \<leftarrow> forward h current i;
       h \<leftarrow> set_forward h u i f;
       unlink_levels h current update (i + 1) n } }"

fun lower_level :: "skip_heap \<Rightarrow> nat \<Rightarrow> nat \<Rightarrow> nat option" where
  "lower_level h header level =
     (if 1 < level then do {
        f \<leftarrow> forward h header (level - 1);
        if f = 0 then lower_level h header (level - 1) else Some level }
      else Some level)"

declare lower_level.simps [simp del]

definition deleteNode :: "skip_list \<Rightarrow> int \<Rightarrow> (int \<times> skip_list) option" where
  "deleteNode l key = do {
     (current, update) \<leftarrow> descend (sl_heap l) key (sl_level l) (sl_header l);
     current \<leftarrow> at_key (sl_heap l) key current;
     if current = 0 then Some (0, l)
     else do {
       h \<leftarrow> unlink_levels (sl_heap l) current update 0 (sl_level l);
       let h = h(current := None);
       level \<leftarrow> lower_level h (sl_header l) (sl_level l);
       Some (1, l\<lparr>sl_level := level, sl_heap := h\<rparr>) } }"

definition skip_search :: "skip_list \<Rightarrow> int \<Rightarrow> nat option" where
  "skip_search l key = do {
     (current, _) \<leftarrow> descend (sl_heap l) key (sl_level l) (sl_header l);
     at_key (sl_heap l) key current }"

text \<open>\<open>printSkipList\<close> prints the key and the level of the nodes of every level, the highest first.\<close>

definition print_step :: "skip_heap \<Rightarrow> nat \<Rightarrow> nat \<times> (int \<times> nat) list \<Rightarrow> (nat \<times> (int \<times> nat) list + (int \<times> nat) list) option" where
  "print_step h i = (\<lambda>(current, out).
     if current = 0 then Some (Inr out)
     else do {
       n \<leftarrow> h current;
       f \<leftarrow> forward h current i;
       Some (Inl (f, out @ [(sk_key n, sk_level n)])) })"

fun print_levels :: "skip_heap \<Rightarrow> nat \<Rightarrow> nat \<Rightarrow> (int \<times> nat) list list option" where
  "print_levels h header 0 = Some []"
| "print_levels h header (Suc i) = do {
     current \<leftarrow> forward h header i;
     line \<leftarrow> loop (print_step h i) (current, []);
     lines \<leftarrow> print_levels h header i;
     Some (line # lines) }"

definition printSkipList :: "skip_list \<Rightarrow> (int \<times> nat) list list option" where
  "printSkipList l = print_levels (sl_heap l) (sl_header l) (sl_level l)"

section \<open>Levels as lists\<close>

text \<open>\<open>seg h i p xs q\<close>: from \<open>p\<close> the links of level \<open>i\<close> lead through \<open>xs\<close> to \<open>q\<close>.\<close>

fun seg :: "skip_heap \<Rightarrow> nat \<Rightarrow> nat \<Rightarrow> nat list \<Rightarrow> nat \<Rightarrow> bool" where
  "seg h i p [] q \<longleftrightarrow> forward h p i = Some q"
| "seg h i p (x # xs) q \<longleftrightarrow> forward h p i = Some x \<and> seg h i x xs q"

lemma seg_append_Cons: "seg h i p (xs @ y # ys) q \<longleftrightarrow> seg h i p xs y \<and> seg h i y ys q"
  by (induction xs arbitrary: p) auto

lemma seg_last: "seg h i p xs q \<Longrightarrow> forward h (List.last (p # xs)) i = Some q"
  by (induction xs arbitrary: p) auto

lemma seg_split: "seg h i p (xs @ ys) q \<longleftrightarrow> seg h i p xs (hd (ys @ [q])) \<and> seg h i (List.last (p # xs)) ys q"
  using seg_last [of h i p xs] by (cases ys) (auto simp: seg_append_Cons simp del: List.last.simps)

lemma seg_level_cong: "(\<And>a. a \<in> set (p # xs) \<Longrightarrow> forward g a i = forward h a i) \<Longrightarrow> seg g i p xs q = seg h i p xs q"
  by (induction xs arbitrary: p) auto

lemma seg_retarget:
  assumes "seg h i p xs q" and "distinct (p # xs)"
    and "\<And>a. a \<in> set (p # xs) \<Longrightarrow> forward g a i = (if a = List.last (p # xs) then Some r else forward h a i)"
  shows "seg g i p xs r"
  using assms
proof (induction xs arbitrary: p)
  case (Cons x xs)
  have "forward g p i = forward h p i"
    using Cons.prems(2) Cons.prems(3) [of p] by auto
  moreover have "seg g i x xs r"
    using Cons.prems by (intro Cons.IH) auto
  ultimately show ?case
    using Cons.prems(1) by simp
qed simp

text \<open>A node is linked into a level behind the last one of \<open>ps\<close>, and unlinked.\<close>

lemma seg_link:
  assumes s: "seg h i p (ps @ qs) 0" and d: "distinct (p # ps @ qs)" "new \<notin> set (p # ps @ qs)"
    and g: "\<And>a. forward g a i = (if a = List.last (p # ps) then Some new else if a = new then Some (hd (qs @ [0])) else forward h a i)"
  shows "seg g i p (ps @ new # qs) 0"
proof -
  have last: "List.last (p # ps) \<in> set (p # ps)"
    by (rule last_in_set) simp
  have "seg g i p ps new"
    by (rule seg_retarget [of h i p ps "hd (qs @ [0])"]) (use s d g in \<open>auto simp: seg_split\<close>)
  moreover have "seg g i new qs 0"
  proof (cases qs)
    case Nil
    then show ?thesis
      using g [of new] last d by auto
  next
    case (Cons y ys)
    have "seg h i y ys 0"
      using s by (simp add: Cons seg_append_Cons)
    moreover have "seg g i y ys 0 = seg h i y ys 0"
      by (rule seg_level_cong) (use g d last in \<open>auto simp: Cons\<close>)
    ultimately show ?thesis
      using g [of new] last d by (auto simp: Cons)
  qed
  ultimately show ?thesis
    by (simp add: seg_append_Cons)
qed

lemma seg_unlink:
  assumes s: "seg h i p (ps @ x # qs) 0" and d: "distinct (p # ps @ x # qs)"
    and g: "\<And>a. forward g a i = (if a = List.last (p # ps) then Some (hd (qs @ [0])) else forward h a i)"
  shows "seg g i p (ps @ qs) 0"
proof -
  have last: "List.last (p # ps) \<in> set (p # ps)"
    by (rule last_in_set) simp
  have first: "seg g i p ps (hd (qs @ [0]))"
    by (rule seg_retarget [of h i p ps x]) (use s d g in \<open>auto simp: seg_append_Cons\<close>)
  show ?thesis
  proof (cases qs)
    case Nil
    then show ?thesis
      using first by simp
  next
    case (Cons y ys)
    have "seg h i y ys 0"
      using s by (simp add: Cons seg_append_Cons)
    moreover have "seg g i y ys 0 = seg h i y ys 0"
      by (rule seg_level_cong) (use g d last in \<open>auto simp: Cons\<close>)
    ultimately show ?thesis
      using first by (simp add: Cons seg_append_Cons)
  qed
qed

section \<open>The nodes\<close>

definition height :: "skip_heap \<Rightarrow> nat \<Rightarrow> nat" where
  "height h p = length (sk_forward (the (h p)))"

definition key_of :: "skip_heap \<Rightarrow> nat \<Rightarrow> int" where
  "key_of h p = sk_key (the (h p))"

text \<open>What linking leaves alone: the nodes, their keys, levels and heights.\<close>

definition shape :: "skip_heap \<Rightarrow> nat \<Rightarrow> (int \<times> nat \<times> nat) option" where
  "shape h p = map_option (\<lambda>n. (sk_key n, sk_level n, length (sk_forward n))) (h p)"

lemma shape_same:
  assumes "shape g = shape h"
  shows "height g p = height h p" and "key_of g p = key_of h p" and "dom g = dom h"
    and "sk_level (the (g p)) = sk_level (the (h p))"
proof -
  have same: "(g a = None \<and> h a = None) \<or> (\<exists>m n. g a = Some m \<and> h a = Some n \<and> sk_key m = sk_key n \<and> sk_level m = sk_level n
      \<and> length (sk_forward m) = length (sk_forward n))" for a
    using assms [THEN fun_cong, of a] by (cases "g a"; cases "h a") (auto simp: shape_def)
  from same [of p] show "height g p = height h p" "key_of g p = key_of h p" "sk_level (the (g p)) = sk_level (the (h p))"
    by (auto simp: height_def key_of_def)
  have "a \<in> dom g \<longleftrightarrow> a \<in> dom h" for a
    using same [of a] by auto
  then show "dom g = dom h"
    by blast
qed

lemma forward_in: "p \<in> dom h \<Longrightarrow> i < height h p \<Longrightarrow> \<exists>q. forward h p i = Some q"
  by (auto simp: forward_def height_def urd_def)

lemma set_forward_in:
  assumes "p \<in> dom h" and "i < height h p"
  shows "\<exists>g. set_forward h p i q = Some g \<and> shape g = shape h
    \<and> (\<forall>a k. forward g a k = (if a = p \<and> k = i then Some q else forward h a k))"
proof -
  obtain n where n: "h p = Some n" "i < length (sk_forward n)"
    using assms by (auto simp: height_def)
  define g where "g = h(p \<mapsto> n\<lparr>sk_forward := (sk_forward n)[i := q]\<rparr>)"
  have "set_forward h p i q = Some g"
    using n by (simp add: set_forward_def uwr_def g_def)
  moreover have "shape g = shape h"
    using n by (auto simp: shape_def g_def fun_eq_iff)
  moreover have "forward g a k = (if a = p \<and> k = i then Some q else forward h a k)" for a k
    using n by (simp add: forward_def g_def urd_def)
  ultimately show ?thesis
    by blast
qed

text \<open>The walk along a level stops behind the last node with a smaller key.\<close>

lemma walk_seg:
  assumes "seg h i c (ps @ qs) 0" and "0 \<notin> set (ps @ qs)" and "set (ps @ qs) \<subseteq> dom h"
    and "\<forall>a\<in>set ps. key_of h a < key" and "\<forall>b\<in>set qs. key \<le> key_of h b"
  shows "walk h key i c = Some (List.last (c # ps))"
  using assms
proof (induction ps arbitrary: c)
  case Nil
  have "walk_step h key i c = Some (Inr c)"
  proof (cases qs)
    case Nil
    then show ?thesis
      using Nil.prems by (simp add: walk_step_def)
  next
    case (Cons y ys)
    then show ?thesis
      using Nil.prems by (auto simp: walk_step_def key_of_def)
  qed
  then show ?case
    by (simp add: walk_def loop_stop)
next
  case (Cons x ps)
  have "walk_step h key i c = Some (Inl x)"
    using Cons.prems by (auto simp: walk_step_def key_of_def)
  then have "walk h key i c = walk h key i x"
    by (simp add: walk_def loop_next)
  also have "\<dots> = Some (List.last (x # ps))"
    using Cons.prems by (intro Cons.IH) simp_all
  finally show ?case
    by simp
qed

section \<open>The skip list\<close>

definition tower :: "skip_heap \<Rightarrow> nat \<Rightarrow> nat list \<Rightarrow> nat list" where
  "tower h i xs = filter (\<lambda>p. i < height h p) xs"

text \<open>\<open>xs\<close> are the nodes in the order of their keys. The heap holds nothing else but the header.\<close>

definition skip_nodes :: "skip_heap \<Rightarrow> nat \<Rightarrow> nat list \<Rightarrow> bool" where
  "skip_nodes h header xs \<longleftrightarrow> dom h = set (header # xs) \<and> distinct (header # xs) \<and> 0 \<notin> set (header # xs)
     \<and> height h header = MAX_LEVEL \<and> sorted_wrt (<) (map (key_of h) xs)
     \<and> (\<forall>p\<in>set xs. 1 \<le> height h p \<and> sk_level (the (h p)) = height h p)"

definition skip_rep :: "skip_list \<Rightarrow> nat list \<Rightarrow> bool" where
  "skip_rep l xs \<longleftrightarrow> skip_nodes (sl_heap l) (sl_header l) xs
     \<and> (\<forall>i<MAX_LEVEL. seg (sl_heap l) i (sl_header l) (tower (sl_heap l) i xs) 0)
     \<and> (\<forall>p\<in>set xs. height (sl_heap l) p \<le> sl_level l) \<and> 1 \<le> sl_level l \<and> sl_level l \<le> MAX_LEVEL
     \<and> (sl_level l = 1 \<or> (\<exists>p\<in>set xs. height (sl_heap l) p = sl_level l))"

lemma tower_simps [simp]:
  "tower h i [] = []" "tower h i (xs @ ys) = tower h i xs @ tower h i ys"
  "tower h i (x # xs) = (if i < height h x then x # tower h i xs else tower h i xs)"
  "set (tower h i xs) = {p \<in> set xs. i < height h p}"
  by (simp_all add: tower_def)

lemma split_at_key:
  assumes "sorted_wrt (<) (map (f :: 'a \<Rightarrow> int) xs)"
  obtains as bs where "xs = as @ bs" "\<forall>a\<in>set as. f a < k" "\<forall>b\<in>set bs. k \<le> f b"
proof -
  have "\<exists>as bs. xs = as @ bs \<and> (\<forall>a\<in>set as. f a < k) \<and> (\<forall>b\<in>set bs. k \<le> f b)"
    using assms
  proof (induction xs)
    case (Cons x xs)
    then obtain as bs where s: "xs = as @ bs" "\<forall>a\<in>set as. f a < k" "\<forall>b\<in>set bs. k \<le> f b"
      by auto
    show ?case
    proof (cases "f x < k")
      case True
      then show ?thesis
        using s by (intro exI [of _ "x # as"] exI [of _ bs]) auto
    next
      case False
      then show ?thesis
        using Cons.prems by (intro exI [of _ "[]"] exI [of _ "x # xs"]) auto
    qed
  qed simp
  then show thesis
    using that by blast
qed

text \<open>The last node of level \<open>i\<close> among \<open>ps\<close>, or the header.\<close>

definition pre :: "skip_heap \<Rightarrow> nat \<Rightarrow> nat list \<Rightarrow> nat \<Rightarrow> nat" where
  "pre h header ps i = List.last (header # tower h i ps)"

lemma pre_cases: "pre h header ps i = header \<or> pre h header ps i \<in> set ps \<and> i < height h (pre h header ps i)"
proof -
  have "pre h header ps i \<in> set (header # tower h i ps)"
    unfolding pre_def by (rule last_in_set) simp
  then show ?thesis
    by auto
qed

lemma walk_from:
  assumes "skip_nodes h header (ps @ qs)" and "seg h i header (tower h i (ps @ qs)) 0"
    and "\<forall>a\<in>set ps. key_of h a < key" and "\<forall>b\<in>set qs. key \<le> key_of h b"
    and "c = header \<or> c \<in> set ps \<and> i < height h c"
  shows "walk h key i c = Some (pre h header ps i)"
proof -
  have "c \<in> set (header # tower h i ps)"
    using assms(5) by auto
  then obtain us vs where uv: "header # tower h i ps = us @ c # vs"
    by (meson split_list)
  have inner: "set vs \<subseteq> set (tower h i ps)"
    using uv by (cases us) auto
  have "seg h i c (vs @ tower h i qs) 0"
  proof (cases us)
    case Nil
    then show ?thesis
      using uv assms(2) by simp
  next
    case (Cons u us')
    then have "tower h i ps = us' @ c # vs"
      using uv by simp
    then show ?thesis
      using assms(2) by (simp add: seg_append_Cons)
  qed
  then have "walk h key i c = Some (List.last (c # vs))"
  proof (rule walk_seg)
    show "0 \<notin> set (vs @ tower h i qs)" "set (vs @ tower h i qs) \<subseteq> dom h"
      using assms(1) inner by (auto simp: skip_nodes_def)
    show "\<forall>a\<in>set vs. key_of h a < key" "\<forall>b\<in>set (tower h i qs). key \<le> key_of h b"
      using assms(3,4) inner by auto
  qed
  moreover have "pre h header ps i = List.last (c # vs)"
    unfolding pre_def uv by simp
  ultimately show ?thesis
    by simp
qed

lemma descend_ok:
  assumes "skip_nodes h header (ps @ qs)" and "\<forall>i<n. seg h i header (tower h i (ps @ qs)) 0"
    and "\<forall>a\<in>set ps. key_of h a < key" and "\<forall>b\<in>set qs. key \<le> key_of h b"
    and "c = header \<or> c \<in> set ps \<and> n \<le> height h c"
  shows "descend h key n c = Some (if n = 0 then c else pre h header ps 0, map (pre h header ps) [0..<n])"
  using assms(2,5)
proof (induction n arbitrary: c)
  case (Suc i)
  have "walk h key i c = Some (pre h header ps i)"
    using Suc.prems by (intro walk_from [OF assms(1) _ assms(3,4)]) auto
  moreover have "descend h key i (pre h header ps i)
      = Some (if i = 0 then pre h header ps i else pre h header ps 0, map (pre h header ps) [0..<i])"
    using Suc.prems(1) pre_cases [of h header ps i] by (intro Suc.IH) auto
  ultimately show ?case
    by auto
qed simp

lemma tower_0: "skip_nodes h header xs \<Longrightarrow> set ys \<subseteq> set xs \<Longrightarrow> tower h 0 ys = ys"
  unfolding tower_def by (rule filter_True) (fastforce simp: skip_nodes_def Suc_le_eq)

lemma at_key_ok:
  assumes "skip_nodes h header (ps @ qs)" and "seg h 0 header (ps @ qs) 0"
  shows "at_key h key (pre h header ps 0) = Some (if qs \<noteq> [] \<and> key_of h (hd qs) = key then hd qs else 0)"
proof -
  have "pre h header ps 0 = List.last (header # ps)"
    using tower_0 [OF assms(1), of ps] by (simp add: pre_def)
  then have "forward h (pre h header ps 0) 0 = Some (hd (qs @ [0]))"
    using assms(2) seg_split [of h 0 header ps qs 0] seg_last [of h 0 header ps] by auto
  then show ?thesis
    using assms(1) by (cases qs) (auto simp: at_key_def skip_nodes_def key_of_def)
qed

text \<open>What the three operations find on their way down.\<close>

lemma skip_find:
  assumes "skip_rep l xs"
  obtains ps qs where "xs = ps @ qs" "\<forall>a\<in>set ps. key_of (sl_heap l) a < key" "\<forall>b\<in>set qs. key \<le> key_of (sl_heap l) b"
    and "descend (sl_heap l) key (sl_level l) (sl_header l)
      = Some (pre (sl_heap l) (sl_header l) ps 0, map (pre (sl_heap l) (sl_header l) ps) [0..<sl_level l])"
    and "at_key (sl_heap l) key (pre (sl_heap l) (sl_header l) ps 0)
      = Some (if qs \<noteq> [] \<and> key_of (sl_heap l) (hd qs) = key then hd qs else 0)"
proof -
  let ?h = "sl_heap l" and ?hd = "sl_header l"
  have nodes: "skip_nodes ?h ?hd xs" and segs: "\<forall>i<MAX_LEVEL. seg ?h i ?hd (tower ?h i xs) 0"
    and lev: "1 \<le> sl_level l" "sl_level l \<le> MAX_LEVEL"
    using assms by (simp_all add: skip_rep_def)
  obtain ps qs where s: "xs = ps @ qs" "\<forall>a\<in>set ps. key_of ?h a < key" "\<forall>b\<in>set qs. key \<le> key_of ?h b"
    using split_at_key [of "key_of ?h" xs key] nodes by (auto simp: skip_nodes_def)
  have "descend ?h key (sl_level l) ?hd
      = Some (if sl_level l = 0 then ?hd else pre ?h ?hd ps 0, map (pre ?h ?hd ps) [0..<sl_level l])"
    using nodes segs lev s by (intro descend_ok [of ?h ?hd ps qs]) auto
  then have "descend ?h key (sl_level l) ?hd = Some (pre ?h ?hd ps 0, map (pre ?h ?hd ps) [0..<sl_level l])"
    using lev by simp
  moreover have "seg ?h 0 ?hd xs 0"
    using segs tower_0 [OF nodes, of xs] by (metis MAX_LEVEL_def order_refl zero_less_numeral)
  then have "at_key ?h key (pre ?h ?hd ps 0) = Some (if qs \<noteq> [] \<and> key_of ?h (hd qs) = key then hd qs else 0)"
    using nodes s(1) by (intro at_key_ok) simp_all
  ultimately show thesis
    using that s by blast
qed

definition skip_keys :: "skip_list \<Rightarrow> nat list \<Rightarrow> int set" where
  "skip_keys l xs = key_of (sl_heap l) ` set xs"

lemma found_iff:
  assumes "sorted_wrt (<) (map f (ps @ qs))" and "\<forall>a\<in>set ps. f a < (key :: int)" and "\<forall>b\<in>set qs. key \<le> f b"
  shows "key \<in> f ` set (ps @ qs) \<longleftrightarrow> qs \<noteq> [] \<and> f (hd qs) = key"
proof (cases qs)
  case Nil
  then show ?thesis
    using assms(2) by auto
next
  case (Cons y ys)
  have "\<forall>b\<in>set ys. f y < f b"
    using assms(1) by (simp add: Cons sorted_wrt_append)
  then show ?thesis
    using assms(2,3) by (fastforce simp: Cons)
qed

text \<open>\<open>search\<close> answers the node with the key, or \<open>NULL\<close> when there is none.\<close>

lemma skip_search_ok:
  assumes "skip_rep l xs"
  shows "\<exists>p. skip_search l key = Some p \<and> (if key \<in> skip_keys l xs then p \<in> set xs \<and> key_of (sl_heap l) p = key else p = 0)"
proof -
  obtain ps qs where s: "xs = ps @ qs" "\<forall>a\<in>set ps. key_of (sl_heap l) a < key" "\<forall>b\<in>set qs. key \<le> key_of (sl_heap l) b"
    and d: "descend (sl_heap l) key (sl_level l) (sl_header l)
      = Some (pre (sl_heap l) (sl_header l) ps 0, map (pre (sl_heap l) (sl_header l) ps) [0..<sl_level l])"
      "at_key (sl_heap l) key (pre (sl_heap l) (sl_header l) ps 0)
      = Some (if qs \<noteq> [] \<and> key_of (sl_heap l) (hd qs) = key then hd qs else 0)"
    using skip_find [OF assms] .
  have "key \<in> skip_keys l xs \<longleftrightarrow> qs \<noteq> [] \<and> key_of (sl_heap l) (hd qs) = key"
    unfolding skip_keys_def s(1) by (rule found_iff) (use assms s in \<open>auto simp: skip_rep_def skip_nodes_def\<close>)
  then show ?thesis
    using d s(1) by (simp add: skip_search_def)
qed

section \<open>Insertion\<close>

lemma nodes_same:
  assumes "shape g = shape h"
  shows "tower g i xs = tower h i xs" and "skip_nodes g header xs = skip_nodes h header xs"
proof -
  note same = shape_same [OF assms]
  show "tower g i xs = tower h i xs"
    by (simp add: tower_def same)
  have "key_of g = key_of h"
    by (rule ext) (rule same(2))
  then show "skip_nodes g header xs = skip_nodes h header xs"
    by (simp add: skip_nodes_def same)
qed

lemma header_high: "skip_nodes h header xs \<Longrightarrow> i < MAX_LEVEL \<Longrightarrow> header \<in> dom h \<and> i < height h header"
  by (simp add: skip_nodes_def)

text \<open>The levels below \<open>j\<close> have the node \<open>x\<close> between \<open>ps\<close> and \<open>qs\<close>, the others do not have it yet.\<close>

definition linked :: "skip_heap \<Rightarrow> nat \<Rightarrow> nat list \<Rightarrow> nat \<Rightarrow> nat list \<Rightarrow> nat \<Rightarrow> skip_heap \<Rightarrow> bool" where
  "linked h header ps x qs j g \<longleftrightarrow> shape g = shape h
     \<and> (\<forall>i<MAX_LEVEL. seg g i header (tower h i ps @ (if i < j then [x] else []) @ tower h i qs) 0)"

lemma level_distinct:
  assumes "skip_nodes h header (ps @ x # qs)"
  shows "distinct (header # tower h i ps @ x # tower h i qs)" and "0 \<noteq> x"
  using assms by (auto simp: skip_nodes_def tower_def)

lemma pre_usable:
  assumes "skip_nodes h header (ps @ x # qs)" and "i < MAX_LEVEL" and "shape g = shape h"
  shows "pre h header ps i \<in> dom g" and "i < height g (pre h header ps i)" and "pre h header ps i \<noteq> x"
  using pre_cases [of h header ps i] assms shape_same [OF assms(3)] by (auto simp: skip_nodes_def)

lemma link_step:
  assumes nodes: "skip_nodes h header (ps @ x # qs)" and i: "i < height h x" "i < MAX_LEVEL" and g: "linked h header ps x qs i g"
  shows "\<exists>f g1 g2. forward g (pre h header ps i) i = Some f \<and> set_forward g x i f = Some g1
    \<and> set_forward g1 (pre h header ps i) i x = Some g2 \<and> linked h header ps x qs (Suc i) g2"
proof -
  let ?u = "pre h header ps i" and ?f = "hd (tower h i qs @ [0])"
  have shape: "shape g = shape h" and segs: "\<forall>k<MAX_LEVEL. seg g k header (tower h k ps @ (if k < i then [x] else []) @ tower h k qs) 0"
    using g by (simp_all add: linked_def)
  have here: "seg g i header (tower h i ps @ tower h i qs) 0"
    using segs i(2) by (metis append_Nil less_irrefl)
  then have f: "forward g ?u i = Some ?f"
    unfolding pre_def seg_split by (blast dest: seg_last)
  have "x \<in> dom g" "i < height g x"
    using nodes i(1) shape_same [OF shape] by (simp_all add: skip_nodes_def)
  then obtain g1 where g1: "set_forward g x i ?f = Some g1" "shape g1 = shape g"
      "\<forall>a k. forward g1 a k = (if a = x \<and> k = i then Some ?f else forward g a k)"
    using set_forward_in [of x g i ?f] by blast
  then obtain g2 where g2: "set_forward g1 ?u i x = Some g2" "shape g2 = shape g1"
      "\<forall>a k. forward g2 a k = (if a = ?u \<and> k = i then Some x else forward g1 a k)"
    using set_forward_in [of ?u g1 i x] pre_usable [OF nodes i(2), of g1] shape by auto
  have fwd: "forward g2 a k = (if k = i then if a = ?u then Some x else if a = x then Some ?f else forward g a i else forward g a k)" for a k
    using g1(3) g2(3) by simp
  have "seg g2 i header (tower h i ps @ x # tower h i qs) 0"
  proof (rule seg_link [OF here])
    show "distinct (header # tower h i ps @ tower h i qs)" "x \<notin> set (header # tower h i ps @ tower h i qs)"
      using level_distinct(1) [OF nodes, of i] by auto
    show "forward g2 a i = (if a = List.last (header # tower h i ps) then Some x else if a = x then Some ?f else forward g a i)" for a
      unfolding pre_def [symmetric] using fwd [of a i] by simp
  qed
  moreover have "seg g2 k header (tower h k ps @ (if k < i then [x] else []) @ tower h k qs) 0" if "k < MAX_LEVEL" "k \<noteq> i" for k
  proof -
    have "seg g2 k header zs 0 = seg g k header zs 0" for zs
      by (rule seg_level_cong) (simp add: fwd that(2))
    then show ?thesis
      using segs that(1) by blast
  qed
  ultimately have "seg g2 k header (tower h k ps @ (if k < Suc i then [x] else []) @ tower h k qs) 0" if "k < MAX_LEVEL" for k
    using that less_Suc_eq [of k i] by (cases "k = i") auto
  then have "linked h header ps x qs (Suc i) g2"
    using shape g1(2) g2(2) unfolding linked_def by simp
  then show ?thesis
    using f g1(1) g2(1) by blast
qed

lemma link_levels_ok:
  assumes nodes: "skip_nodes h header (ps @ x # qs)" and h: "height h x \<le> MAX_LEVEL"
    and up: "\<forall>i<height h x. urd update i = Some (pre h header ps i)"
  shows "linked h header ps x qs i g \<Longrightarrow> i + n = height h x \<Longrightarrow>
    \<exists>g'. link_levels g x update i n = Some g' \<and> linked h header ps x qs (height h x) g'"
proof (induction n arbitrary: i g)
  case (Suc n)
  then have i: "i < height h x" "i < MAX_LEVEL"
    using h by simp_all
  obtain f g1 g2 where st: "forward g (pre h header ps i) i = Some f" "set_forward g x i f = Some g1"
      "set_forward g1 (pre h header ps i) i x = Some g2" "linked h header ps x qs (Suc i) g2"
    using link_step [OF nodes i Suc.prems(1)] by blast
  then show ?case
    using Suc.IH [OF st(4)] Suc.prems(2) up i(1) by simp
qed simp

lemma randomLevel_range: "1 \<le> level \<Longrightarrow> level \<le> MAX_LEVEL \<Longrightarrow> level \<le> fst (randomLevel_from coin drawn level)
    \<and> fst (randomLevel_from coin drawn level) \<le> MAX_LEVEL"
proof (induction coin drawn level rule: randomLevel_from.induct)
  case (1 coin drawn level)
  then show ?case
    by (subst (1 2) randomLevel_from.simps) auto
qed

text \<open>\<open>malloc\<close> answers an address that is not in use.\<close>

definition skip_fresh :: "skip_malloc \<Rightarrow> bool" where
  "skip_fresh malloc \<longleftrightarrow> (\<forall>h. finite (dom h) \<longrightarrow> malloc h \<noteq> 0 \<and> h (malloc h) = None)"

lemma new_node:
  assumes nodes: "skip_nodes h header (ps @ qs)" and segs: "\<forall>i<MAX_LEVEL. seg h i header (tower h i (ps @ qs)) 0"
    and ps: "\<forall>a\<in>set ps. key_of h a < key" and qs: "\<forall>b\<in>set qs. key < key_of h b"
    and x: "x \<noteq> 0" "h x = None" and n: "1 \<le> n" "n \<le> MAX_LEVEL"
    and h1: "h1 = h(x \<mapsto> \<lparr>sk_key = key, sk_level = n, sk_forward = replicate n 0\<rparr>)"
  shows "skip_nodes h1 header (ps @ x # qs)" and "linked h1 header ps x qs 0 h1" and "pre h1 header ps i = pre h header ps i"
    and "height h1 x = n" and "key_of h1 x = key" and "a \<noteq> x \<Longrightarrow> height h1 a = height h a" and "a \<noteq> x \<Longrightarrow> key_of h1 a = key_of h a"
proof -
  have out: "x \<notin> set (header # ps @ qs)"
    using nodes x(2) by (auto simp: skip_nodes_def)
  show hx: "height h1 x = n" "key_of h1 x = key"
    by (simp_all add: h1 height_def key_of_def)
  show ha: "height h1 a = height h a" "key_of h1 a = key_of h a" if "a \<noteq> x" for a
    using that by (simp_all add: h1 height_def key_of_def)
  have tower: "tower h1 k zs = tower h k zs" if "x \<notin> set zs" for k zs
    unfolding tower_def using that by (intro filter_cong refl) (metis ha(1))
  then show "pre h1 header ps i = pre h header ps i"
    using out by (simp add: pre_def)
  have keys: "map (key_of h1) ps = map (key_of h) ps" "map (key_of h1) qs = map (key_of h) qs"
    using out ha(2) by (metis UnCI list.set_intros(2) map_eq_conv set_append)+
  have "sorted_wrt (<) (map (key_of h) ps)" "sorted_wrt (<) (map (key_of h) qs)"
    using nodes by (simp_all add: skip_nodes_def sorted_wrt_append)
  then have "sorted_wrt (<) (map (key_of h1) (ps @ x # qs))"
    unfolding map_append list.map keys hx(2) using ps qs by (auto simp: sorted_wrt_append intro: less_trans)
  moreover have "dom h1 = set (header # ps @ x # qs)" "distinct (header # ps @ x # qs)" "0 \<notin> set (header # ps @ x # qs)"
      "height h1 header = MAX_LEVEL"
    using nodes out x ha(1) [of header] by (auto simp: skip_nodes_def h1)
  moreover have "1 \<le> height h1 p \<and> sk_level (the (h1 p)) = height h1 p" if "p \<in> set (ps @ x # qs)" for p
    using that nodes n(1) ha(1) [of p] hx(1) by (cases "p = x") (auto simp: skip_nodes_def h1)
  ultimately show "skip_nodes h1 header (ps @ x # qs)"
    unfolding skip_nodes_def by blast
  have "seg h1 k header (tower h1 k ps @ tower h1 k qs) 0" if "k < MAX_LEVEL" for k
  proof -
    have "seg h1 k header (tower h k ps @ tower h k qs) 0 = seg h k header (tower h k ps @ tower h k qs) 0"
      by (rule seg_level_cong) (use out in \<open>auto simp: forward_def h1\<close>)
    then show ?thesis
      using segs that tower out by simp
  qed
  then show "linked h1 header ps x qs 0 h1"
    by (simp add: linked_def)
qed

lemma pre_high: "\<forall>p\<in>set ps. height h p \<le> i \<Longrightarrow> pre h header ps i = header"
  by (simp add: pre_def tower_def filter_False not_less)

lemma skip_insert_ok:
  assumes m: "skip_fresh malloc" and rep: "skip_rep l xs"
  shows "\<exists>l' ys. skip_insert malloc coin l key = Some l' \<and> skip_rep l' ys \<and> skip_keys l' ys = insert key (skip_keys l xs)"
proof -
  let ?h = "sl_heap l" and ?hd = "sl_header l"
  obtain ps qs where s: "xs = ps @ qs" "\<forall>a\<in>set ps. key_of ?h a < key" "\<forall>b\<in>set qs. key \<le> key_of ?h b"
    and d: "descend ?h key (sl_level l) ?hd = Some (pre ?h ?hd ps 0, map (pre ?h ?hd ps) [0..<sl_level l])"
      "at_key ?h key (pre ?h ?hd ps 0) = Some (if qs \<noteq> [] \<and> key_of ?h (hd qs) = key then hd qs else 0)"
    using skip_find [OF rep] .
  have nodes: "skip_nodes ?h ?hd (ps @ qs)" and segs: "\<forall>i<MAX_LEVEL. seg ?h i ?hd (tower ?h i (ps @ qs)) 0"
    and heights: "\<forall>p\<in>set (ps @ qs). height ?h p \<le> sl_level l" and lev: "1 \<le> sl_level l" "sl_level l \<le> MAX_LEVEL"
    and tight: "sl_level l = 1 \<or> (\<exists>p\<in>set (ps @ qs). height ?h p = sl_level l)"
    using rep by (simp_all add: skip_rep_def s(1))
  have found: "key \<in> skip_keys l xs \<longleftrightarrow> qs \<noteq> [] \<and> key_of ?h (hd qs) = key"
    unfolding skip_keys_def s(1) by (rule found_iff) (use nodes s in \<open>auto simp: skip_nodes_def\<close>)
  show ?thesis
  proof (cases "key \<in> skip_keys l xs")
    case True
    then have "hd qs \<noteq> 0"
      using found nodes by (cases qs) (auto simp: skip_nodes_def)
    then have "skip_insert malloc coin l key = Some l"
      using True found d by (simp add: skip_insert_def)
    then show ?thesis
      using rep True by (auto simp: insert_absorb)
  next
    case False
    define n drawn x where "n = fst (randomLevel coin (sl_drawn l))" and "drawn = snd (randomLevel coin (sl_drawn l))" and "x = malloc ?h"
    define h1 where "h1 = ?h(x \<mapsto> \<lparr>sk_key = key, sk_level = n, sk_forward = replicate n 0\<rparr>)"
    define update level where "update = (if sl_level l < n then map (pre ?h ?hd ps) [0..<sl_level l] @ replicate (n - sl_level l) ?hd
        else map (pre ?h ?hd ps) [0..<sl_level l])" and "level = (if sl_level l < n then n else sl_level l)"
    have n: "1 \<le> n" "n \<le> MAX_LEVEL"
      using randomLevel_range [of 1 coin "sl_drawn l"] by (simp_all add: n_def randomLevel_def MAX_LEVEL_def)
    have "finite (dom ?h)"
      using nodes by (simp add: skip_nodes_def)
    then have x: "x \<noteq> 0" "?h x = None"
      using m by (simp_all add: skip_fresh_def x_def)
    have qs: "\<forall>b\<in>set qs. key < key_of ?h b"
      using s(3) False s(1) by (fastforce simp: skip_keys_def)
    note N = new_node [OF nodes segs s(2) qs x n h1_def]
    have "pre ?h ?hd ps i = ?hd" if "\<not> i < sl_level l" for i
    proof (rule pre_high)
      show "\<forall>p\<in>set ps. height ?h p \<le> i"
        using that heights by (metis UnI1 not_less order_trans set_append)
    qed
    then have "urd update i = Some (pre h1 ?hd ps i)" if "i < n" for i
      using that N(3) by (auto simp: update_def urd_def nth_append)
    then obtain g where g: "link_levels h1 x update 0 n = Some g" "linked h1 ?hd ps x qs n g"
      using link_levels_ok [OF N(1) _ _ N(2), of update n] N(4) n(2) by auto
    have shape: "shape g = shape h1"
      using g(2) by (simp add: linked_def)
    have at: "at_key ?h key (pre ?h ?hd ps 0) = Some 0"
      unfolding d(2) using found False by (simp only: if_False)
    have calls: "randomLevel coin (sl_drawn l) = (n, drawn)" "createNode malloc ?h key n = (x, h1)"
      using x(1) by (simp_all add: n_def drawn_def createNode_def x_def h1_def Let_def)
    have "skip_insert malloc coin l key = Some (l\<lparr>sl_level := level, sl_heap := g, sl_drawn := drawn\<rparr>)"
    proof (cases "sl_level l < n")
      case True
      then show ?thesis
        using g(1) by (simp add: skip_insert_def d(1) at calls update_def level_def)
    next
      case False
      then show ?thesis
        using g(1) by (simp add: skip_insert_def d(1) at calls update_def level_def)
    qed
    moreover have "skip_rep (l\<lparr>sl_level := level, sl_heap := g, sl_drawn := drawn\<rparr>) (ps @ x # qs)"
    proof -
      have "x \<notin> set (ps @ qs)"
        using N(1) by (auto simp: skip_nodes_def)
      then have hs: "\<forall>p\<in>set (ps @ qs). height h1 p = height ?h p"
        using N(6) by metis
      have "skip_nodes g ?hd (ps @ x # qs)"
        using N(1) nodes_same(2) [OF shape] by blast
      moreover have "\<forall>i<MAX_LEVEL. seg g i ?hd (tower g i (ps @ x # qs)) 0"
      proof (intro allI impI)
        fix i assume i: "i < MAX_LEVEL"
        have "seg g i ?hd (tower h1 i ps @ (if i < n then [x] else []) @ tower h1 i qs) 0"
          using g(2) i unfolding linked_def by blast
        then show "seg g i ?hd (tower g i (ps @ x # qs)) 0"
          using N(4) unfolding nodes_same(1) [OF shape] by (cases "i < n") simp_all
      qed
      moreover have "\<forall>p\<in>set (ps @ x # qs). height g p \<le> level"
      proof
        fix p assume "p \<in> set (ps @ x # qs)"
        then have "p = x \<or> p \<in> set (ps @ qs)"
          by auto
        moreover have "sl_level l \<le> level" "n \<le> level"
          by (simp_all add: level_def)
        ultimately show "height g p \<le> level"
          using hs heights N(4) by (metis order_trans shape_same(1) [OF shape])
      qed
      moreover have "level = 1 \<or> (\<exists>p\<in>set (ps @ x # qs). height g p = level)"
        using hs tight N(4) by (auto simp: shape_same(1) [OF shape] level_def)
      ultimately show ?thesis
        using lev n by (simp add: skip_rep_def level_def)
    qed
    moreover have "skip_keys (l\<lparr>sl_level := level, sl_heap := g, sl_drawn := drawn\<rparr>) (ps @ x # qs) = insert key (skip_keys l xs)"
    proof -
      have "x \<notin> set (ps @ qs)"
        using N(1) by (auto simp: skip_nodes_def)
      then have "key_of h1 ` set (ps @ qs) = key_of ?h ` set (ps @ qs)"
        by (intro image_cong refl) (metis N(7))
      then show ?thesis
        using N(5) by (auto simp: skip_keys_def s(1) shape_same(2) [OF shape] image_Un)
    qed
    ultimately show ?thesis
      by blast
  qed
qed

section \<open>Removal\<close>

text \<open>The levels below \<open>j\<close> have lost the node \<open>x\<close>.\<close>

definition unlinked :: "skip_heap \<Rightarrow> nat \<Rightarrow> nat list \<Rightarrow> nat \<Rightarrow> nat list \<Rightarrow> nat \<Rightarrow> skip_heap \<Rightarrow> bool" where
  "unlinked h header ps x qs j g \<longleftrightarrow> shape g = shape h
     \<and> (\<forall>i<MAX_LEVEL. seg g i header (tower h i ps @ (if i < j \<or> height h x \<le> i then [] else [x]) @ tower h i qs) 0)"

lemma unlink_step:
  assumes nodes: "skip_nodes h header (ps @ x # qs)" and i: "i < height h x" "i < MAX_LEVEL" and g: "unlinked h header ps x qs i g"
  shows "\<exists>f g1. forward g (pre h header ps i) i = Some x \<and> forward g x i = Some f
    \<and> set_forward g (pre h header ps i) i f = Some g1 \<and> unlinked h header ps x qs (Suc i) g1"
proof -
  let ?u = "pre h header ps i" and ?f = "hd (tower h i qs @ [0])"
  let ?level = "\<lambda>j k. tower h k ps @ (if k < j \<or> height h x \<le> k then [] else [x]) @ tower h k qs"
  have shape: "shape g = shape h" and segs: "\<forall>k<MAX_LEVEL. seg g k header (?level i k) 0"
    using g by (simp_all add: unlinked_def)
  have "?level i i = tower h i ps @ x # tower h i qs"
    using i(1) by simp
  then have here: "seg g i header (tower h i ps @ x # tower h i qs) 0"
    using segs i(2) by metis
  then have u: "forward g ?u i = Some x" and x: "seg g i x ([] @ tower h i qs) 0"
    unfolding pre_def seg_append_Cons using seg_last by auto
  have f: "forward g x i = Some ?f"
    using x unfolding seg_split by simp
  obtain g1 where g1: "set_forward g ?u i ?f = Some g1" "shape g1 = shape g"
      "\<forall>a k. forward g1 a k = (if a = ?u \<and> k = i then Some ?f else forward g a k)"
    using set_forward_in [of ?u g i ?f] pre_usable [OF nodes i(2) shape] by blast
  have "seg g1 i header (tower h i ps @ tower h i qs) 0"
  proof (rule seg_unlink [OF here])
    show "distinct (header # tower h i ps @ x # tower h i qs)"
      using level_distinct(1) [OF nodes] .
    show "forward g1 a i = (if a = List.last (header # tower h i ps) then Some ?f else forward g a i)" for a
      unfolding pre_def [symmetric] using g1(3) by simp
  qed
  moreover have "seg g1 k header (?level i k) 0" if "k < MAX_LEVEL" "k \<noteq> i" for k
  proof -
    have "seg g1 k header zs 0 = seg g k header zs 0" for zs
      by (rule seg_level_cong) (simp add: g1(3) that(2))
    then show ?thesis
      using segs that(1) by blast
  qed
  ultimately have "seg g1 k header (?level (Suc i) k) 0" if "k < MAX_LEVEL" for k
    using that less_Suc_eq [of k i] by (cases "k = i") auto
  then have "unlinked h header ps x qs (Suc i) g1"
    using shape g1(2) unfolding unlinked_def by simp
  then show ?thesis
    using u f g1(1) by blast
qed

lemma unlink_levels_ok:
  assumes nodes: "skip_nodes h header (ps @ x # qs)" and max: "n + i \<le> MAX_LEVEL"
  shows "unlinked h header ps x qs i g \<Longrightarrow> i \<le> height h x \<Longrightarrow> height h x \<le> i + n \<Longrightarrow>
    \<forall>k<i + n. urd update k = Some (pre h header ps k) \<Longrightarrow>
    \<exists>g'. unlink_levels g x update i n = Some g' \<and> unlinked h header ps x qs (height h x) g'"
  using max
proof (induction n arbitrary: i g)
  case (Suc n)
  show ?case
  proof (cases "i < height h x")
    case True
    obtain f g1 where st: "forward g (pre h header ps i) i = Some x" "forward g x i = Some f"
        "set_forward g (pre h header ps i) i f = Some g1" "unlinked h header ps x qs (Suc i) g1"
      using unlink_step [OF nodes True _ Suc.prems(1)] Suc.prems(5) by auto
    then show ?thesis
      using Suc.IH [OF st(4)] Suc.prems True by simp
  next
    case False
    then have i: "i = height h x" "i < MAX_LEVEL"
      using Suc.prems(2,5) by simp_all
    have "seg g k header (tower h k ps @ (if k < i \<or> height h x \<le> k then [] else [x]) @ tower h k qs) 0" if "k < MAX_LEVEL" for k
      using Suc.prems(1) that unfolding unlinked_def by blast
    from this [OF i(2)] have "seg g i header (tower h i ps @ tower h i qs) 0"
      using i(1) by simp
    then have "forward g (pre h header ps i) i = Some (hd (tower h i qs @ [0]))"
      unfolding seg_split pre_def using seg_last by blast
    moreover have "hd (tower h i qs @ [0]) \<noteq> x"
      using level_distinct(1) [OF nodes, of i] level_distinct(2) [OF nodes] by (cases "tower h i qs") auto
    ultimately show ?thesis
      using Suc.prems(1,4) i(1) by simp
  qed
qed simp

lemma lower_level_ok:
  assumes nodes: "skip_nodes h header xs" and segs: "\<forall>i<MAX_LEVEL. seg h i header (tower h i xs) 0"
  shows "1 \<le> n \<Longrightarrow> n \<le> MAX_LEVEL \<Longrightarrow> \<forall>p\<in>set xs. height h p \<le> n \<Longrightarrow>
    \<exists>m. lower_level h header n = Some m \<and> 1 \<le> m \<and> m \<le> MAX_LEVEL \<and> (\<forall>p\<in>set xs. height h p \<le> m)
      \<and> (m = 1 \<or> (\<exists>p\<in>set xs. height h p = m))"
proof (induction n)
  case (Suc n)
  show ?case
  proof (cases "n = 0")
    case True
    then show ?thesis
      using Suc.prems by (simp add: lower_level.simps [of h header "Suc 0"])
  next
    case False
    have "seg h n header ([] @ tower h n xs) 0"
      using segs Suc.prems(2) by simp
    then have f: "forward h header n = Some (hd (tower h n xs @ [0]))"
      unfolding seg_split by simp
    show ?thesis
    proof (cases "tower h n xs")
      case Nil
      then have "\<forall>p\<in>set xs. height h p \<le> n"
        by (simp add: tower_def filter_empty_conv not_less)
      moreover have "lower_level h header (Suc n) = lower_level h header n"
        using False f Nil by (simp add: lower_level.simps [of h header "Suc n"])
      ultimately show ?thesis
        using Suc.IH Suc.prems(2) False by simp
    next
      case (Cons y ys)
      then have y: "y \<in> set xs" "n < height h y"
        by (metis list.set_intros(1) mem_Collect_eq tower_simps(4))+
      then have "y \<noteq> 0" "height h y = Suc n"
        using nodes Suc.prems(3) by (auto simp: skip_nodes_def le_antisym Suc_leI)
      then have "lower_level h header (Suc n) = Some (Suc n)"
        using False f Cons by (simp add: lower_level.simps [of h header "Suc n"])
      then show ?thesis
        using Suc.prems y(1) \<open>height h y = Suc n\<close> by auto
    qed
  qed
qed simp

lemma without_node:
  assumes nodes: "skip_nodes h header (ps @ x # qs)" and g: "unlinked h header ps x qs (height h x) g" and k: "k = g(x := None)"
  shows "skip_nodes k header (ps @ qs)" and "\<forall>i<MAX_LEVEL. seg k i header (tower k i (ps @ qs)) 0"
    and "p \<noteq> x \<Longrightarrow> height k p = height h p" and "p \<noteq> x \<Longrightarrow> key_of k p = key_of h p"
proof -
  have shape: "shape g = shape h"
    using g by (simp add: unlinked_def)
  have out: "x \<notin> set (header # ps @ qs)"
    using nodes by (auto simp: skip_nodes_def)
  show ha: "height k p = height h p" "key_of k p = key_of h p" if "p \<noteq> x" for p
    using that shape_same(1,2) [OF shape, of p] by (simp_all add: k height_def key_of_def)
  have lev: "sk_level (the (k p)) = sk_level (the (h p))" if "p \<noteq> x" for p
    using that shape_same(4) [OF shape, of p] by (simp add: k)
  have keys: "map (key_of k) zs = map (key_of h) zs" if "x \<notin> set zs" for zs
    using that by (intro map_cong refl) (metis ha(2))
  have nd: "dom h = set (header # ps @ x # qs)" "distinct (header # ps @ x # qs)" "0 \<notin> set (header # ps @ x # qs)" "height h header = MAX_LEVEL"
      "sorted_wrt (<) (map (key_of h) (ps @ x # qs))" "\<forall>p\<in>set (ps @ x # qs). 1 \<le> height h p \<and> sk_level (the (h p)) = height h p"
    using nodes by (simp_all add: skip_nodes_def)
  have "dom k = set (header # ps @ qs)"
    using nd(1) out shape_same(3) [OF shape] by (auto simp: k)
  moreover have "height k header = MAX_LEVEL"
    using nd(4) out ha(1) [of header] by simp
  moreover have "sorted_wrt (<) (map (key_of k) (ps @ qs))"
  proof -
    have "map (key_of k) (ps @ qs) = map (key_of h) (ps @ qs)"
      by (rule keys) (use out in simp)
    moreover have "sorted_wrt (<) (map (key_of h) (ps @ qs))"
      using nd(5) by (simp add: sorted_wrt_append)
    ultimately show ?thesis
      by (simp only:)
  qed
  moreover have "1 \<le> height k p \<and> sk_level (the (k p)) = height k p" if "p \<in> set (ps @ qs)" for p
  proof -
    have "p \<noteq> x"
      using that out by auto
    then show ?thesis
      using that nd(6) ha(1) [of p] lev [of p] by auto
  qed
  ultimately show "skip_nodes k header (ps @ qs)"
    using nd(2,3) unfolding skip_nodes_def by auto
  show "\<forall>i<MAX_LEVEL. seg k i header (tower k i (ps @ qs)) 0"
  proof (intro allI impI)
    fix i assume "i < MAX_LEVEL"
    then have "seg g i header (tower h i ps @ (if i < height h x \<or> height h x \<le> i then [] else [x]) @ tower h i qs) 0"
      using g unfolding unlinked_def by blast
    then have "seg g i header (tower h i (ps @ qs)) 0"
      by (cases "i < height h x") simp_all
    moreover have "tower k i (ps @ qs) = tower h i (ps @ qs)"
      unfolding tower_def using out by (intro filter_cong refl) (metis ha(1) list.set_intros(2))
    moreover have "seg k i header (tower h i (ps @ qs)) 0 = seg g i header (tower h i (ps @ qs)) 0"
      by (rule seg_level_cong) (use out in \<open>auto simp: forward_def k\<close>)
    ultimately show "seg k i header (tower k i (ps @ qs)) 0"
      by simp
  qed
qed

lemma deleteNode_ok:
  assumes rep: "skip_rep l xs"
  shows "\<exists>l' ys. deleteNode l key = Some (if key \<in> skip_keys l xs then 1 else 0, l') \<and> skip_rep l' ys \<and> skip_keys l' ys = skip_keys l xs - {key}"
proof -
  let ?h = "sl_heap l" and ?hd = "sl_header l"
  obtain ps qs where s: "xs = ps @ qs" "\<forall>a\<in>set ps. key_of ?h a < key" "\<forall>b\<in>set qs. key \<le> key_of ?h b"
    and d: "descend ?h key (sl_level l) ?hd = Some (pre ?h ?hd ps 0, map (pre ?h ?hd ps) [0..<sl_level l])"
      "at_key ?h key (pre ?h ?hd ps 0) = Some (if qs \<noteq> [] \<and> key_of ?h (hd qs) = key then hd qs else 0)"
    using skip_find [OF rep] .
  have found: "key \<in> skip_keys l xs \<longleftrightarrow> qs \<noteq> [] \<and> key_of ?h (hd qs) = key"
    unfolding skip_keys_def s(1) by (rule found_iff) (use rep s in \<open>auto simp: skip_rep_def skip_nodes_def\<close>)
  show ?thesis
  proof (cases "key \<in> skip_keys l xs")
    case False
    then have "at_key ?h key (pre ?h ?hd ps 0) = Some 0"
      unfolding d(2) using found by (simp only: if_False)
    then have "deleteNode l key = Some (0, l)"
      using d(1) by (simp add: deleteNode_def)
    then show ?thesis
      using rep False by auto
  next
    case True
    then obtain x bs where x: "qs = x # bs" "key_of ?h x = key"
      using found by (cases qs) auto
    have nodes: "skip_nodes ?h ?hd (ps @ x # bs)" and segs: "\<forall>i<MAX_LEVEL. seg ?h i ?hd (tower ?h i (ps @ x # bs)) 0"
      and heights: "\<forall>p\<in>set (ps @ x # bs). height ?h p \<le> sl_level l" and lev: "1 \<le> sl_level l" "sl_level l \<le> MAX_LEVEL"
      using rep by (simp_all add: skip_rep_def s(1) x(1))
    have "unlinked ?h ?hd ps x bs 0 ?h"
      unfolding unlinked_def
    proof (intro conjI allI impI refl)
      fix i assume "i < MAX_LEVEL"
      then show "seg ?h i ?hd (tower ?h i ps @ (if i < 0 \<or> height ?h x \<le> i then [] else [x]) @ tower ?h i bs) 0"
        using segs by (cases "i < height ?h x") auto
    qed
    then obtain g where g: "unlink_levels ?h x (map (pre ?h ?hd ps) [0..<sl_level l]) 0 (sl_level l) = Some g"
        "unlinked ?h ?hd ps x bs (height ?h x) g"
      using unlink_levels_ok [OF nodes, of "sl_level l" 0 ?h "map (pre ?h ?hd ps) [0..<sl_level l]"] lev heights
      by (auto simp: urd_def)
    define k where "k = g(x := None)"
    note W = without_node [OF nodes g(2) k_def]
    have out: "x \<notin> set (ps @ bs)" "x \<noteq> 0"
      using nodes by (auto simp: skip_nodes_def)
    have hs: "\<forall>p\<in>set (ps @ bs). height k p \<le> sl_level l"
      using heights out(1) W(3) by (metis Un_iff list.set_intros(2) set_append)
    obtain m where m: "lower_level k ?hd (sl_level l) = Some m" "1 \<le> m" "m \<le> MAX_LEVEL" "\<forall>p\<in>set (ps @ bs). height k p \<le> m"
        "m = 1 \<or> (\<exists>p\<in>set (ps @ bs). height k p = m)"
      using lower_level_ok [OF W(1,2) lev hs] by blast
    have "at_key ?h key (pre ?h ?hd ps 0) = Some x"
      using d(2) x by simp
    then have "deleteNode l key = Some (1, l\<lparr>sl_level := m, sl_heap := k\<rparr>)"
      using d(1) out(2) g(1) m(1) by (simp add: deleteNode_def k_def)
    moreover have "skip_rep (l\<lparr>sl_level := m, sl_heap := k\<rparr>) (ps @ bs)"
      using W(1,2) m by (simp add: skip_rep_def)
    moreover have "skip_keys (l\<lparr>sl_level := m, sl_heap := k\<rparr>) (ps @ bs) = skip_keys l xs - {key}"
    proof -
      have "key_of k ` set (ps @ bs) = key_of ?h ` set (ps @ bs)"
        using out(1) by (intro image_cong refl) (metis W(4))
      moreover have "key \<notin> key_of ?h ` set (ps @ bs)"
        using nodes x(2) by (auto simp: skip_nodes_def sorted_wrt_append)
      ultimately show ?thesis
        using x(2) by (auto simp: skip_keys_def s(1) x(1))
    qed
    ultimately show ?thesis
      using True by auto
  qed
qed

section \<open>Printing\<close>

lemma print_line:
  assumes "seg h i c qs 0" and "c \<noteq> 0" and "c \<in> dom h" and "set qs \<subseteq> dom h" and "0 \<notin> set qs"
  shows "loop (print_step h i) (c, out) = Some (out @ map (\<lambda>p. (key_of h p, sk_level (the (h p)))) (c # qs))"
  using assms
proof (induction qs arbitrary: c out)
  case Nil
  obtain n where n: "h c = Some n"
    using Nil.prems by auto
  have "print_step h i (c, out) = Some (Inl (0, out @ [(sk_key n, sk_level n)]))"
    using Nil.prems n by (simp add: print_step_def)
  moreover have "print_step h i (0, out') = Some (Inr out')" for out'
    by (simp add: print_step_def)
  ultimately show ?case
    using n by (simp add: loop_next loop_stop key_of_def)
next
  case (Cons x qs)
  obtain n where n: "h c = Some n"
    using Cons.prems by auto
  have "print_step h i (c, out) = Some (Inl (x, out @ [(sk_key n, sk_level n)]))"
    using Cons.prems n by (simp add: print_step_def)
  then show ?case
    using Cons.IH [of x] Cons.prems n by (simp add: loop_next key_of_def)
qed

lemma print_level:
  assumes "seg h i header qs 0" and "set qs \<subseteq> dom h" and "0 \<notin> set qs"
  shows "\<exists>c. forward h header i = Some c \<and> loop (print_step h i) (c, []) = Some (map (\<lambda>p. (key_of h p, sk_level (the (h p)))) qs)"
proof (cases qs)
  case Nil
  then show ?thesis
    using assms(1) by (simp add: loop_stop print_step_def)
next
  case (Cons x xs)
  then show ?thesis
    using assms print_line [of h i x xs "[]"] by simp
qed

text \<open>The nodes as pairs of a key and a level, in the order of the keys.\<close>

definition base_line :: "skip_list \<Rightarrow> nat list \<Rightarrow> (int \<times> nat) list" where
  "base_line l xs = map (\<lambda>p. (key_of (sl_heap l) p, height (sl_heap l) p)) xs"

lemma printSkipList_ok:
  assumes rep: "skip_rep l xs"
  shows "printSkipList l = Some (map (\<lambda>i. filter (\<lambda>(k, n). i < n) (base_line l xs)) (rev [0..<sl_level l]))"
proof -
  let ?h = "sl_heap l"
  have "print_levels ?h (sl_header l) n = Some (map (\<lambda>i. filter (\<lambda>(k, n). i < n) (base_line l xs)) (rev [0..<n]))" if "n \<le> MAX_LEVEL" for n
    using that
  proof (induction n)
    case (Suc i)
    have nodes: "skip_nodes ?h (sl_header l) xs" and s: "seg ?h i (sl_header l) (tower ?h i xs) 0"
      using rep Suc.prems by (simp_all add: skip_rep_def)
    obtain c where c: "forward ?h (sl_header l) i = Some c"
        "loop (print_step ?h i) (c, []) = Some (map (\<lambda>p. (key_of ?h p, sk_level (the (?h p)))) (tower ?h i xs))"
      using print_level [OF s] nodes by (auto simp: skip_nodes_def)
    have "map (\<lambda>p. (key_of ?h p, sk_level (the (?h p)))) (tower ?h i xs) = filter (\<lambda>(k, n). i < n) (base_line l xs)"
      using nodes by (auto simp: base_line_def tower_def filter_map comp_def skip_nodes_def)
    then show ?case
      using Suc c by simp
  qed simp
  then show ?thesis
    using rep by (simp add: printSkipList_def skip_rep_def)
qed

section \<open>A set of keys\<close>

text \<open>The contract of a set of keys: an insertion without an answer, a removal that tells whether the key was there, and a lookup.\<close>

datatype key_op = Ins int | Del int | Has int

fun key_exec :: "('s \<Rightarrow> int \<Rightarrow> 's option) \<Rightarrow> ('s \<Rightarrow> int \<Rightarrow> (int \<times> 's) option) \<Rightarrow> ('s \<Rightarrow> int \<Rightarrow> bool option)
    \<Rightarrow> key_op list \<Rightarrow> 's \<Rightarrow> (bool list \<times> 's) option" where
  "key_exec ins del has [] s = Some ([], s)"
| "key_exec ins del has (Ins k # ops) s = do { s \<leftarrow> ins s k; key_exec ins del has ops s }"
| "key_exec ins del has (Del k # ops) s = do {
     (r, s) \<leftarrow> del s k;
     (rs, s) \<leftarrow> key_exec ins del has ops s;
     Some ((r = 1) # rs, s) }"
| "key_exec ins del has (Has k # ops) s = do {
     r \<leftarrow> has s k;
     (rs, s) \<leftarrow> key_exec ins del has ops s;
     Some (r # rs, s) }"

fun key_spec :: "key_op list \<Rightarrow> int set \<Rightarrow> bool list \<times> int set" where
  "key_spec [] K = ([], K)"
| "key_spec (Ins k # ops) K = key_spec ops (insert k K)"
| "key_spec (Del k # ops) K = (let (rs, K') = key_spec ops (K - {k}) in ((k \<in> K) # rs, K'))"
| "key_spec (Has k # ops) K = (let (rs, K') = key_spec ops K in ((k \<in> K) # rs, K'))"

locale key_set =
  fixes inv :: "'s \<Rightarrow> int set \<Rightarrow> bool"
    and ins :: "'s \<Rightarrow> int \<Rightarrow> 's option"
    and del :: "'s \<Rightarrow> int \<Rightarrow> (int \<times> 's) option"
    and has :: "'s \<Rightarrow> int \<Rightarrow> bool option"
  assumes ins: "inv s K \<Longrightarrow> \<exists>t. ins s k = Some t \<and> inv t (insert k K)"
    and del: "inv s K \<Longrightarrow> \<exists>t. del s k = Some (if k \<in> K then 1 else 0, t) \<and> inv t (K - {k})"
    and has: "inv s K \<Longrightarrow> has s k = Some (k \<in> K)"
begin

lemma exec_refines:
  "inv s K \<Longrightarrow> \<exists>t. key_exec ins del has ops s = Some (fst (key_spec ops K), t) \<and> inv t (snd (key_spec ops K))"
proof (induction ops arbitrary: s K)
  case (Cons p ops)
  show ?case
  proof (cases p)
    case (Ins k)
    then show ?thesis
      using ins [OF Cons.prems, of k] Cons.IH by fastforce
  next
    case (Del k)
    obtain t where t: "del s k = Some (if k \<in> K then 1 else 0, t)" "inv t (K - {k})"
      using del [OF Cons.prems] by blast
    obtain u where "key_exec ins del has ops t = Some (fst (key_spec ops (K - {k})), u)" "inv u (snd (key_spec ops (K - {k})))"
      using Cons.IH [OF t(2)] by blast
    then show ?thesis
      using Del t(1) by (auto simp: Let_def split: prod.splits)
  next
    case (Has k)
    obtain u where "key_exec ins del has ops s = Some (fst (key_spec ops K), u)" "inv u (snd (key_spec ops K))"
      using Cons.IH [OF Cons.prems] by blast
    then show ?thesis
      using Has has [OF Cons.prems] by (auto simp: Let_def split: prod.splits)
  qed
qed simp

end

text \<open>The callers only test whether \<open>search\<close> answers a node.\<close>

definition skip_has :: "skip_list \<Rightarrow> int \<Rightarrow> bool option" where
  "skip_has l key = do { p \<leftarrow> skip_search l key; Some (p \<noteq> 0) }"

definition skip_inv :: "skip_malloc \<Rightarrow> skip_list \<Rightarrow> int set \<Rightarrow> bool" where
  "skip_inv malloc l K \<longleftrightarrow> skip_fresh malloc \<and> (\<exists>xs. skip_rep l xs \<and> skip_keys l xs = K)"

interpretation skip: key_set "skip_inv malloc" "skip_insert malloc coin" deleteNode skip_has
  for malloc :: skip_malloc and coin :: "nat \<Rightarrow> bool"
proof
  fix l K k assume inv: "skip_inv malloc l K"
  then obtain xs where xs: "skip_fresh malloc" "skip_rep l xs" "skip_keys l xs = K"
    by (auto simp: skip_inv_def)
  show "\<exists>t. skip_insert malloc coin l k = Some t \<and> skip_inv malloc t (insert k K)"
    using skip_insert_ok [OF xs(1,2), of coin k] xs by (auto simp: skip_inv_def)
  show "\<exists>t. deleteNode l k = Some (if k \<in> K then 1 else 0, t) \<and> skip_inv malloc t (K - {k})"
    using deleteNode_ok [OF xs(2), of k] xs by (auto simp: skip_inv_def)
  have "\<forall>p\<in>set xs. p \<noteq> 0"
    using xs(2) unfolding skip_rep_def skip_nodes_def by (metis list.set_intros(2))
  then show "skip_has l k = Some (k \<in> K)"
    using skip_search_ok [OF xs(2), of k] xs(3) by (cases "k \<in> K") (fastforce simp: skip_has_def)+
qed

lemma createSkipList_ok:
  assumes "skip_fresh malloc"
  shows "skip_rep (createSkipList malloc) []"
proof -
  have "malloc Map.empty \<noteq> 0"
    using assms by (simp add: skip_fresh_def)
  then show ?thesis
    by (simp add: createSkipList_def createNode_def Let_def skip_rep_def skip_nodes_def height_def MAX_LEVEL_def forward_def urd_def)
qed

text \<open>C26: Every sequence of insertions, removals and searches on a new skip list answers what a set of keys answers, whatever the
  random numbers and the fresh addresses. At its end the lowest level holds the keys in order, level \<open>i\<close> those of its nodes with a
  level above \<open>i\<close>, no level but the lowest is empty, and the heap holds the header and one node for each key.\<close>

theorem skip_list_is_set:
  assumes "skip_fresh malloc"
  shows "\<exists>l base. key_exec (skip_insert malloc coin) deleteNode skip_has ops (createSkipList malloc) = Some (fst (key_spec ops {}), l)
    \<and> printSkipList l = Some (map (\<lambda>i. filter (\<lambda>(k, n). i < n) base) (rev [0..<sl_level l]))
    \<and> map fst base = sorted_list_of_set (snd (key_spec ops {}))
    \<and> (\<forall>(k, n)\<in>set base. 1 \<le> n \<and> n \<le> sl_level l) \<and> (sl_level l = 1 \<or> (\<exists>k. (k, sl_level l) \<in> set base)) \<and> sl_level l \<le> MAX_LEVEL
    \<and> card (dom (sl_heap l)) = Suc (length base)"
proof -
  have "skip_inv malloc (createSkipList malloc) {}"
    using createSkipList_ok [OF assms] assms by (auto simp: skip_inv_def skip_keys_def)
  from skip.exec_refines [OF this, of coin ops]
  obtain l xs where l: "key_exec (skip_insert malloc coin) deleteNode skip_has ops (createSkipList malloc) = Some (fst (key_spec ops {}), l)"
      "skip_rep l xs" "skip_keys l xs = snd (key_spec ops {})"
    by (auto simp: skip_inv_def)
  have nodes: "skip_nodes (sl_heap l) (sl_header l) xs"
    using l(2) by (simp add: skip_rep_def)
  then have "sorted_list_of_set (set (map (key_of (sl_heap l)) xs)) = map (key_of (sl_heap l)) xs"
    by (intro sorted_list_of_set.idem_if_sorted_distinct) (simp_all add: skip_nodes_def strict_sorted_iff)
  then have keys: "map fst (base_line l xs) = sorted_list_of_set (snd (key_spec ops {}))"
    using l(3) by (simp add: base_line_def skip_keys_def comp_def)
  have "card (dom (sl_heap l)) = Suc (length (base_line l xs))"
    using nodes distinct_card [of "sl_header l # xs"] by (simp add: skip_nodes_def base_line_def)
  moreover have "\<forall>(k, n)\<in>set (base_line l xs). 1 \<le> n \<and> n \<le> sl_level l"
    using l(2) nodes by (auto simp: base_line_def skip_rep_def skip_nodes_def)
  moreover have "(key_of (sl_heap l) p, height (sl_heap l) p) \<in> set (base_line l xs)" if "p \<in> set xs" for p
    using that by (simp add: base_line_def)
  then have "sl_level l = 1 \<or> (\<exists>k. (k, sl_level l) \<in> set (base_line l xs))" "sl_level l \<le> MAX_LEVEL"
    using l(2) unfolding skip_rep_def by metis+
  ultimately show ?thesis
    using l(1) keys printSkipList_ok [OF l(2)] by blast
qed

definition first_free :: skip_malloc where
  "first_free h = (LEAST a. a \<noteq> 0 \<and> h a = None)"

lemma skip_first_free: "skip_fresh first_free"
  unfolding skip_fresh_def
proof (intro allI impI)
  fix h :: skip_heap assume "finite (dom h)"
  then obtain a where "a \<notin> insert 0 (dom h)"
    using ex_new_if_finite [of "insert 0 (dom h)"] infinite_UNIV_nat by blast
  then have "a \<noteq> 0 \<and> h a = None"
    by (auto simp: domIff)
  then show "first_free h \<noteq> 0 \<and> h (first_free h) = None"
    unfolding first_free_def by (rule LeastI)
qed

text \<open>A part of the demonstration, with a coin that falls on alternating sides.\<close>

theorem skip_list_is_set_witness:
  "\<exists>l. key_exec (skip_insert first_free even) deleteNode skip_has [Ins 10, Ins 30, Ins 20, Has 20, Del 20, Has 20, Del 5] (createSkipList first_free)
      = Some ([True, True, False, False], l) \<and> card (dom (sl_heap l)) = 3"
proof -
  have spec: "key_spec [Ins 10, Ins 30, Ins 20, Has 20, Del 20, Has 20, Del 5] {} = ([True, True, False, False], {10, 30})"
    by auto
  show ?thesis
    using skip_list_is_set [OF skip_first_free, of even "[Ins 10, Ins 30, Ins 20, Has 20, Del 20, Has 20, Del 5]"]
    unfolding spec by auto
qed

end
