(* ===== verification/Spec2Isabelle.thy ===== *)
theory Spec2Isabelle
  imports HashMapCorrect HashFns SortingCorrect Search QueueStack Brackets IdGenerator TopK LinkedLists RudpSession DList IniCorrect Lru LfuCorrect
    RbClient RbSessions MutexQueue Bloom Pool BinTrees Windows Sums SkipList
begin

text \<open>
  Verification library for the C programs of this repository.

  The repository is a collection of C programs: data structures and algorithms (a Robin Hood hash map,
  lists, trees, caches), small subsystems (a reliable protocol over datagrams, an ini parser, queues
  between threads) and many short demonstrations of operating system interfaces. The library models the first two
  kinds, one theory or group of theories per program; the demonstrations are calls of the operating
  system with little logic of their own.

  Conventions. A C function is a definition of the same name. A function that may leave an array, follow a
  null or dangling pointer, overflow a signed integer or fail an assertion returns an option, and \<open>None\<close> is
  that undefined behaviour; a loop is \<open>loop\<close> of theory Loops (or \<open>for_up\<close>, \<open>for_down\<close>), a partial function
  whose value \<open>None\<close> also stands for a loop that never ends, so that every theorem of the form "the result
  is \<open>Some\<close>" says that the code returns, in bounds. Signed integers are \<open>int\<close> with the range checks of
  Arrays (\<open>chk32\<close>) where the code computes with them, unsigned ones are words and wrap. The answers of the
  allocator, the clock and callbacks are parameters. There is no fuel in the models.

  Theories.
  Prelude: words, list updates, memory copies, the judgement \<open>returns\<close> for straight-line code.
  Loops, Arrays: loops and arrays of C. Interfaces: the locales for what one component promises to
  another (a sorting routine, a queue, a stack, a byte stream, a map), with the refinement lemma each gives.

  HashMap, HashMapCorrect (C/02_hash/02_hashmap/hashmap.c): the table with its growth and shrinking, and
  that set, get, delete, iteration and creation are those of a map, with the out-of-memory behaviour; the
  invariant is \<open>robin_ok\<close> of HashMapCorrect. HashFns: SipHash, Murmur3 and xxHash from the same file.

  RingBuffer, DLinks, DList, Rudp, RudpCorrect, RudpSession (C/rudp_self): the ring buffer is a bounded byte
  stream (interpretation \<open>ring\<close>); the intrusive lists of list.c and of C/07_listhead/list_head.h are
  circular lists (interpretations \<open>rdt_list\<close>, \<open>kernel_list\<close>, \<open>kernel_init\<close>); Rudp holds the protocol's state and
  its steps, RudpSession the state machine of user calls, worker rounds and datagrams with its
  invariant and the two kinds of steps that are undefined in it, RudpCorrect a complete exchange between two ends.

  RbTree (C/05_rbtree: rbtree.c, rbtree.h, rbtree_augmented.h, rbtree_ka.h): the red-black tree on a heap of nodes, the
  parent and the colour of a node packed in one word. RbShape relates the heap to a tree (\<open>holds\<close>) and to the way up from
  a node; RbInsert, RbErase and RbUnlink prove the rebalancing loops and the unlinking against it, RbAdd the descents that
  insert, RbWalk the walks, RbSearch lookups, replacement and height, RbMemory that nothing is allocated or freed.
  RbTreeCorrect states the results over the list of the nodes in order (\<open>rb_rep\<close>, \<open>cached_rep\<close>), RbSessions the contract
  of an ordered collection of nodes with its interpretations \<open>plain\<close> and \<open>cached\<close>, and RbClient models the test program
  test_main.c, a map from keys to the strings it prints that leaks nothing. The callbacks of augmented trees are modelled; the theorems are about
  trees without augmentation.

  LockfreeQueue, MutexQueue (C/09_lockfree_queue: lockfree_queue.c, mutex_queue.c, queue.h): the two queues between threads. The
  operations of the lock-free queue are cut into their accesses to shared memory (\<open>lf_step\<close>) and any schedule of them is a run
  (\<open>lf_run\<close>); with one producer and one consumer it is a wait-free queue, otherwise it fails in the ways shown. The critical
  sections of the mutex queue are the steps of \<open>mq_step\<close>, with the condition variable's signals; the queue is first in first
  out, does not deadlock and is empty at the end.

  Bloom (C/99_demo/11_bloom_filter): the Bloom filter, whose answer is characterised exactly over the bits of the added keys.

  SkipList (C/99_demo/12_skip_list): the skip list on a heap of nodes with their arrays of successors, the random numbers a parameter;
  \<open>skip_rep\<close> relates the heap to the nodes in the order of their keys, and the list is an interpretation of the locale \<open>key_set\<close>.

  Pool (C/06_mempool/02_mempool/pool.c): the pool of elements of one size on byte-addressed memory; what a client holds is \<open>L\<close> of
  the relation \<open>pool_client\<close>, and the elements handed out never overlap.

  CacheNodes, Lru, Lfu, LfuCorrect (C/job_interview: 14_LRU.c, 17_LFU.c): the two caches on a heap of nodes; both are
  interpretations of the locale \<open>cache\<close>, the LRU cache a list in the order of use, the LFU cache a list in which an access
  raises an entry's frequency.

  Dictionary, Ini, IniCorrect (C/04_tools/07_ini_parser): the dictionary is a map (interpretation \<open>dict\<close>),
  and what the printer of ini files writes the parser reads back.

  Sorting, SortingCorrect, Search, TopK (C/00_data_structure_and_algorithms, C/job_interview): the array
  sorts, quick sort, heap sort, the searches and the most frequent elements. LinkedLists: reversal,
  merging, merge sort and the cycle check on a heap of nodes. Stacks, QueueStack, Brackets, IdGenerator:
  queues made of stacks and stacks made of queues, minimum stacks, bracket matching, the identifier
  generator.

  BinTrees, Windows, Sums (C/job_interview, the exercises 03 to 07, 11, 12, 15, 16, 18 and 25). BinTrees: level order by a queue
  agrees with level order by depth, and the diameter, the distance of two values and the path sums are those of the
  paths of the tree; trees are only read, so they are values of a datatype. Windows: anagrams, the longest part of a string without
  repetition and the shortest part that covers another string; the two ways to count what a window lacks are interpretations of the
  locale \<open>window_counter\<close>. Sums: two numbers by a hash table, three numbers by two indices that approach each other, the greatest
  sum of a part three ways, and the longest run of digits.

  Bounds. The hash map theorems bound the number of items below \<open>2 ^ 16\<close>, the width of the probe distance;
  the heap sort bounds the length by \<open>2 ^ 30\<close>, the other array sorts need no bound; the identifiers bound the clock to 42 bits. Each bound is
  a hypothesis of the theorem that needs it.

  Not modelled. Sockets, remote calls, daemons, logging, asynchronous input and output, kernel modules and
  the graphical and serial programs: they only call the operating system. The
  other memory pools, which read memory they have not initialised. Data races between
  the threads of the protocol: its two workers are steps that interleave as a whole. Weak memory orders of the lock-free queue. The alignment of the
  elements of the pool. An allocation can fail in the model where the allocator is a parameter of the functions, and is taken
  to succeed elsewhere. Demonstration code in main
  functions. Conversion of strings to floating point numbers.
\<close>

end
